(* ===== verification/Prelude.thy ===== *)
theory Prelude
  imports Complex_Main
begin

text \<open>
  Shared vocabulary of the development: results of fallible operations, Go strings
  (byte sequences, one \<open>char\<close> per byte), the IEEE double values the Go code computes
  with, and the generic list lemmas the component theories use.
\<close>

named_theorems go_simps \<open>evaluation rules for the models of Go library routines\<close>
named_theorems wf_intros \<open>preservation of well-formedness invariants\<close>

subsection \<open>Fallible results\<close>

text \<open>
  A Go function returning \<open>(T, error)\<close> is a value of \<open>'e + 'a\<close>; \<open>Inl\<close> carries the error.
  \<open>bindr\<close> is the early return \<open>if err != nil { return err }\<close>.
\<close>

definition bindr :: "'e + 'a \<Rightarrow> ('a \<Rightarrow> 'e + 'b) \<Rightarrow> 'e + 'b" where
  "bindr r f = (case r of Inl e \<Rightarrow> Inl e | Inr x \<Rightarrow> f x)"

definition guardr :: "bool \<Rightarrow> 'e \<Rightarrow> 'e + 'a \<Rightarrow> 'e + 'a" where
  "guardr ok e r = (if ok then r else Inl e)"

lemma bindr_simps [simp]: "bindr (Inl e) f = Inl e" "bindr (Inr x) f = f x"
  by (simp_all add: bindr_def)

lemma bindr_Inr_iff: "bindr r f = Inr y \<longleftrightarrow> (\<exists>x. r = Inr x \<and> f x = Inr y)"
  by (cases r) simp_all

lemma bindr_InrE [elim!]:
  assumes "bindr r f = Inr y"
  obtains x where "r = Inr x" "f x = Inr y"
  using assms by (auto simp: bindr_Inr_iff)

lemma guardr_Inr_iff [simp]: "guardr ok e r = Inr y \<longleftrightarrow> ok \<and> r = Inr y"
  by (simp add: guardr_def)

lemma bindr_cong [fundef_cong]:
  "r = r' \<Longrightarrow> (\<And>x. r' = Inr x \<Longrightarrow> f x = g x) \<Longrightarrow> bindr r f = bindr r' g"
  by (cases r') simp_all

subsection \<open>Go strings: bytes and slices\<close>

abbreviation byte_of :: "char \<Rightarrow> nat" where
  "byte_of c \<equiv> of_char c"

abbreviation chr :: "nat \<Rightarrow> char" where
  "chr n \<equiv> char_of n"

lemma byte_of_less [simp]: "byte_of c < 256"
  by (metis char_of_char mod_less_divisor of_char_of zero_less_numeral)

lemma byte_of_chr [simp]: "n < 256 \<Longrightarrow> byte_of (chr n) = n"
  by (simp add: of_char_of)

lemma byte_of_eq_iff: "byte_of c = byte_of d \<longleftrightarrow> c = d"
  by (metis char_of_char)

text \<open>\<open>strings.TrimSpace\<close> on the ASCII white space bytes.\<close>

definition HasPrefix :: "string \<Rightarrow> string \<Rightarrow> bool" where
  "HasPrefix s p \<longleftrightarrow> take (length p) s = p"

definition HasSuffix :: "string \<Rightarrow> string \<Rightarrow> bool" where
  "HasSuffix s p \<longleftrightarrow> length p \<le> length s \<and> drop (length s - length p) s = p"

subsection \<open>Decimal integers\<close>

definition digit_char :: "nat \<Rightarrow> char" where
  "digit_char d = chr (48 + d)"

definition is_digit :: "char \<Rightarrow> bool" where
  "is_digit c \<longleftrightarrow> 48 \<le> byte_of c \<and> byte_of c \<le> 57"

definition digit_val :: "char \<Rightarrow> nat" where
  "digit_val c = byte_of c - 48"

text \<open>\<open>strconv.FormatUint(n, 10)\<close>.\<close>

fun FormatUint :: "nat \<Rightarrow> string" where
  "FormatUint n = (if n < 10 then [digit_char n] else FormatUint (n div 10) @ [digit_char (n mod 10)])"

declare FormatUint.simps [simp del]

definition FormatInt :: "int \<Rightarrow> string" where
  "FormatInt n = (if n < 0 then CHR ''-'' # FormatUint (nat (- n)) else FormatUint (nat n))"

definition digits_value :: "string \<Rightarrow> nat" where
  "digits_value s = foldl (\<lambda>n c. 10 * n + digit_val c) 0 s"

lemma is_digit_digit_char [simp]: "d < 10 \<Longrightarrow> is_digit (digit_char d)"
  by (simp add: is_digit_def digit_char_def)

lemma digit_val_digit_char [simp]: "d < 10 \<Longrightarrow> digit_val (digit_char d) = d"
  by (simp add: digit_val_def digit_char_def)

lemma digits_value_snoc [simp]: "digits_value (s @ [c]) = 10 * digits_value s + digit_val c"
  by (simp add: digits_value_def)

lemma FormatUint_nonempty [simp]: "FormatUint n \<noteq> []"
  by (subst FormatUint.simps) simp

lemma FormatUint_digits: "\<forall>c \<in> set (FormatUint n). is_digit c"
proof (induction n rule: FormatUint.induct)
  case (1 n)
  then show ?case by (subst FormatUint.simps) auto
qed

lemma digits_value_FormatUint [simp]: "digits_value (FormatUint n) = n"
proof (induction n rule: FormatUint.induct)
  case (1 n)
  show ?case
  proof (cases "n < 10")
    case True
    then show ?thesis by (subst FormatUint.simps) (simp add: digits_value_def)
  next
    case False
    then show ?thesis using 1 by (subst FormatUint.simps) simp
  qed
qed

lemma FormatUint_inj [simp]: "FormatUint m = FormatUint n \<longleftrightarrow> m = n"
  by (metis digits_value_FormatUint)

subsection \<open>IEEE double values\<close>

text \<open>
  A \<open>float64\<close> is a finite rational (the two zeros are one value: no code modelled here
  tells them apart), an infinity or a NaN. \<open>round_f64\<close> rounds an exact rational to the
  nearest representable double, ties to even, overflowing to an infinity, with the
  subnormal range at \<open>2^-1074\<close>.
\<close>

datatype float64 = Fin rat | PInf | NInf | NaN

definition pow2 :: "int \<Rightarrow> rat" where
  "pow2 e = (if 0 \<le> e then 2 ^ nat e else 1 / 2 ^ nat (- e))"

text \<open>The binary exponent of a positive fraction \<open>p / q\<close>, from the operand sizes.\<close>

fun bitlen :: "nat \<Rightarrow> nat" where
  "bitlen n = (if n = 0 then 0 else Suc (bitlen (n div 2)))"

declare bitlen.simps [simp del]

definition exponent2 :: "rat \<Rightarrow> int" where
  "exponent2 x =
     (let (p, q) = quotient_of \<bar>x\<bar>; e = int (bitlen (nat p)) - int (bitlen (nat q))
      in if \<bar>x\<bar> < pow2 e then e - 1 else e)"

definition round_half_even :: "rat \<Rightarrow> int" where
  "round_half_even x =
     (let n = \<lfloor>x\<rfloor>; r = x - of_int n
      in if r < 1 / 2 then n else if r > 1 / 2 then n + 1 else if even n then n else n + 1)"

definition round_f64 :: "rat \<Rightarrow> float64" where
  "round_f64 x =
     (if x = 0 then Fin 0
      else let u = max (exponent2 x - 52) (- 1074);
               m = round_half_even (\<bar>x\<bar> / pow2 u);
               y = of_int m * pow2 u
           in if pow2 1024 \<le> y then (if 0 < x then PInf else NInf)
              else Fin (if 0 < x then y else - y))"

definition f64_div :: "float64 \<Rightarrow> rat \<Rightarrow> float64" where
  "f64_div a d = (case a of Fin x \<Rightarrow> round_f64 (x / d) | _ \<Rightarrow> a)"

text \<open>\<open>math.Trunc(x) == x\<close> on a double: finite integers and the infinities.\<close>

definition f64_is_integer :: "rat \<Rightarrow> bool" where
  "f64_is_integer x \<longleftrightarrow> of_int \<lfloor>x\<rfloor> = x"

lemma f64_is_integer_of_int [simp]: "f64_is_integer (of_int n)"
  by (simp add: f64_is_integer_def)

lemma f64_is_integerD: "f64_is_integer x \<Longrightarrow> \<exists>n. x = of_int n \<and> \<lfloor>x\<rfloor> = n"
  by (metis f64_is_integer_def)

definition max_safe_integer :: rat where
  "max_safe_integer = 9007199254740991"

subsection \<open>Generic list lemmas\<close>

lemma distinct_map_fst_unique:
  "distinct (map fst xs) \<Longrightarrow> (k, v) \<in> set xs \<Longrightarrow> map_of xs k = Some v"
  by simp

lemma map_of_filter_key: "map_of (filter (\<lambda>(k, v). k \<noteq> a) xs) b = (if a = b then None else map_of xs b)"
  by (induction xs) auto

lemma distinct_map_filter_fst: "distinct (map fst xs) \<Longrightarrow> distinct (map fst (filter P xs))"
  by (induction xs) auto

lemma foldl_invariant:
  assumes "P a" and "\<And>a x. P a \<Longrightarrow> x \<in> set xs \<Longrightarrow> P (f a x)"
  shows "P (foldl f a xs)"
  using assms by (induction xs arbitrary: a) auto

subsection \<open>Association lists\<close>

definition delete_key :: "'a \<Rightarrow> ('a \<times> 'b) list \<Rightarrow> ('a \<times> 'b) list" where
  "delete_key k xs = filter (\<lambda>(j, _). j \<noteq> k) xs"

lemma map_of_delete: "map_of (delete_key k xs) j = (if j = k then None else map_of xs j)"
  by (induction xs) (auto simp: delete_key_def)

lemma set_delete_key: "set (delete_key k xs) = {(j, v) \<in> set xs. j \<noteq> k}"
  by (auto simp: delete_key_def)

lemma distinct_delete_key: "distinct (map fst xs) \<Longrightarrow> distinct (map fst (delete_key k xs))"
  by (induction xs) (auto simp: delete_key_def)

lemma delete_absent: "k \<notin> fst ` set xs \<Longrightarrow> delete_key k xs = xs"
  unfolding delete_key_def by (rule filter_True) force

lemma length_delete_key: "length (delete_key k xs) \<le> length xs"
  by (simp add: delete_key_def)

lemma length_delete_present: "map_of xs k \<noteq> None \<Longrightarrow> length (delete_key k xs) < length xs"
  by (induction xs) (auto simp: delete_key_def intro: le_less_trans [OF length_filter_le] split: if_splits)

subsection \<open>Invariants of transition systems\<close>

locale invariant_system =
  fixes start :: "'s \<Rightarrow> bool" and step :: "'s \<Rightarrow> 's \<Rightarrow> bool" and inv :: "'s \<Rightarrow> bool"
  assumes inv_start: "start s \<Longrightarrow> inv s"
    and inv_step: "inv s \<Longrightarrow> step s t \<Longrightarrow> inv t"
begin

definition reach :: "'s \<Rightarrow> bool" where
  "reach t \<longleftrightarrow> (\<exists>s. start s \<and> step\<^sup>*\<^sup>* s t)"

lemma inv_steps: "step\<^sup>*\<^sup>* s t \<Longrightarrow> inv s \<Longrightarrow> inv t"
  by (induction rule: rtranclp_induct) (auto intro: inv_step)

lemma inv_reach: "reach t \<Longrightarrow> inv t"
  by (auto simp: reach_def intro: inv_start inv_steps)

lemma monotone_steps:
  assumes "step\<^sup>*\<^sup>* s t" "inv s" "R s s" "\<And>x y. inv x \<Longrightarrow> step x y \<Longrightarrow> R s x \<Longrightarrow> R s y"
  shows "R s t"
  using assms by (induction rule: rtranclp_induct) (auto intro: inv_steps)

end

end
