(* ===== verification/NativeString.thy ===== *)
theory NativeString
  imports Prelude
begin

text \<open>
  Text as the native snapshots hold it (\<open>internal/nativejson/string.go\<close>): Go strings are
  UTF-8 bytes in which an unpaired UTF-16 surrogate is kept as its three byte
  generalised encoding (WTF-8). The theory models the UTF-8 and UTF-16 routines of the Go
  library the code calls, the helpers \<open>surrogateAt\<close> and \<open>writeUnit\<close>, and the serializer
  \<open>SurrogateText.MarshalJSON\<close>.
\<close>

unbundle bit_operations_syntax

subsection \<open>UTF-8 and UTF-16 of the Go library\<close>

definition RuneError :: nat where
  "RuneError = 65533"

definition is_surrogate :: "nat \<Rightarrow> bool" where
  "is_surrogate u \<longleftrightarrow> 55296 \<le> u \<and> u \<le> 57343"

definition is_high :: "nat \<Rightarrow> bool" where
  "is_high u \<longleftrightarrow> 55296 \<le> u \<and> u \<le> 56319"

definition is_low :: "nat \<Rightarrow> bool" where
  "is_low u \<longleftrightarrow> 56320 \<le> u \<and> u \<le> 57343"

text \<open>The generalised encoding of one code point; \<open>EncodeRune\<close> is \<open>utf8.EncodeRune\<close>.\<close>

definition wtf8 :: "nat \<Rightarrow> string" where
  "wtf8 r =
     (if r < 128 then [chr r]
      else if r < 2048 then [chr (192 + r div 64), chr (128 + r mod 64)]
      else if r < 65536 then [chr (224 + r div 4096), chr (128 + (r div 64) mod 64), chr (128 + r mod 64)]
      else [chr (240 + r div 262144), chr (128 + (r div 4096) mod 64),
            chr (128 + (r div 64) mod 64), chr (128 + r mod 64)])"

definition EncodeRune :: "nat \<Rightarrow> string" where
  "EncodeRune r = wtf8 (if is_surrogate r \<or> 1114111 < r then RuneError else r)"

definition cont_byte :: "char \<Rightarrow> bool" where
  "cont_byte c \<longleftrightarrow> 128 \<le> byte_of c \<and> byte_of c \<le> 191"

text \<open>The second byte range of a multi-byte sequence (the \<open>acceptRanges\<close> of the library).\<close>

definition second_ok :: "nat \<Rightarrow> char \<Rightarrow> bool" where
  "second_ok p0 c \<longleftrightarrow>
     (if p0 = 224 then 160 else if p0 = 240 then 144 else 128) \<le> byte_of c \<and>
     byte_of c \<le> (if p0 = 237 then 159 else if p0 = 244 then 143 else 191)"

text \<open>\<open>utf8.DecodeRuneInString\<close>: the rune and its width, \<open>RuneError\<close> of width 1 on bad input.\<close>

fun DecodeRune :: "string \<Rightarrow> nat \<times> nat" where
  "DecodeRune [] = (RuneError, 0)"
| "DecodeRune (a # r) =
     (let p0 = byte_of a
      in if p0 < 128 then (p0, 1)
         else if 194 \<le> p0 \<and> p0 \<le> 223 then
           (case r of b # _ \<Rightarrow> if cont_byte b then ((p0 mod 32) * 64 + byte_of b mod 64, 2) else (RuneError, 1)
                    | [] \<Rightarrow> (RuneError, 1))
         else if 224 \<le> p0 \<and> p0 \<le> 239 then
           (case r of b # c # _ \<Rightarrow>
                if second_ok p0 b \<and> cont_byte c
                then ((p0 mod 16) * 4096 + (byte_of b mod 64) * 64 + byte_of c mod 64, 3) else (RuneError, 1)
              | _ \<Rightarrow> (RuneError, 1))
         else if 240 \<le> p0 \<and> p0 \<le> 244 then
           (case r of b # c # d # _ \<Rightarrow>
                if second_ok p0 b \<and> cont_byte c \<and> cont_byte d
                then ((p0 mod 8) * 262144 + (byte_of b mod 64) * 4096 + (byte_of c mod 64) * 64
                        + byte_of d mod 64, 4) else (RuneError, 1)
              | _ \<Rightarrow> (RuneError, 1))
         else (RuneError, 1))"

text \<open>\<open>utf16.DecodeRune\<close> on a valid pair and \<open>utf16.EncodeRune\<close> on a supplementary rune.\<close>

definition utf16_DecodeRune :: "nat \<Rightarrow> nat \<Rightarrow> nat" where
  "utf16_DecodeRune hi lo =
     (if is_high hi \<and> is_low lo then (hi - 55296) * 1024 + (lo - 56320) + 65536 else RuneError)"

definition utf16_EncodeRune :: "nat \<Rightarrow> nat \<times> nat" where
  "utf16_EncodeRune r =
     (if r < 65536 \<or> 1114111 < r then (RuneError, RuneError)
      else (55296 + (r - 65536) div 1024, 56320 + (r - 65536) mod 1024))"

subsection \<open>surrogateAt, writeUnit and MarshalJSON\<close>

definition surrogateAt :: "string \<Rightarrow> nat \<Rightarrow> nat option" where
  "surrogateAt s i =
     (if length s \<le> i + 2 \<or> byte_of (s ! i) \<noteq> 237 \<or> byte_of (s ! (i + 1)) < 160 \<or>
         191 < byte_of (s ! (i + 1)) \<or> byte_of (s ! (i + 2)) AND 192 \<noteq> 128
      then None
      else Some (push_bit 12 (byte_of (s ! i) AND 15) OR push_bit 6 (byte_of (s ! (i + 1)) AND 63)
                   OR (byte_of (s ! (i + 2)) AND 63)))"

definition writeUnit :: "nat \<Rightarrow> string" where
  "writeUnit unit =
     (if 55296 \<le> unit \<and> unit \<le> 57343
      then [chr (224 OR drop_bit 12 unit), chr (128 OR (drop_bit 6 unit AND 63)), chr (128 OR (unit AND 63))]
      else EncodeRune unit)"

definition hex_char :: "nat \<Rightarrow> char" where
  "hex_char d = (if d < 10 then chr (48 + d) else chr (87 + d))"

text \<open>\<open>fmt.Fprintf("\\u%04x", unit)\<close> for a 16 bit unit.\<close>

definition u_escape :: "nat \<Rightarrow> string" where
  "u_escape u = CHR 0x5C # CHR ''u'' #
     [hex_char (u div 4096 mod 16), hex_char (u div 256 mod 16), hex_char (u div 16 mod 16), hex_char (u mod 16)]"

definition escape_rune :: "nat \<Rightarrow> string" where
  "escape_rune r =
     (if r = 34 \<or> r = 92 then CHR 0x5C # EncodeRune r
      else if r = 8 then [CHR 0x5C, CHR ''b'']
      else if r = 12 then [CHR 0x5C, CHR ''f'']
      else if r = 10 then [CHR 0x5C, CHR ''n'']
      else if r = 13 then [CHR 0x5C, CHR ''r'']
      else if r = 9 then [CHR 0x5C, CHR ''t'']
      else if r < 32 then u_escape r
      else EncodeRune r)"

lemma DecodeRune_size_pos: "s \<noteq> [] \<Longrightarrow> 0 < snd (DecodeRune s)"
  by (cases s) (auto simp: Let_def split: list.splits)

lemma DecodeRune_progress: "(r, n) = DecodeRune s \<Longrightarrow> s \<noteq> [] \<Longrightarrow> length s - n < length s"
  using DecodeRune_size_pos [of s] by (metis diff_less length_greater_0_conv snd_conv)

text \<open>
  The loop of \<open>MarshalJSON\<close>; its argument is the unread suffix \<open>plain[i:]\<close>.
\<close>

function marshal_body :: "string \<Rightarrow> string" where
  "marshal_body s =
     (if s = [] then []
      else case surrogateAt s 0 of
        Some unit \<Rightarrow>
          (case surrogateAt s 3 of
             Some low \<Rightarrow>
               if unit \<le> 56319 \<and> 56320 \<le> low
               then EncodeRune (utf16_DecodeRune unit low) @ marshal_body (drop 6 s)
               else u_escape unit @ marshal_body (drop 3 s)
           | None \<Rightarrow> u_escape unit @ marshal_body (drop 3 s))
      | None \<Rightarrow>
          (let (r, size) = DecodeRune s in escape_rune r @ marshal_body (drop size s)))"
  by pat_completeness auto
termination
  by (relation "measure length") (auto dest: DecodeRune_progress)

declare marshal_body.simps [simp del]

definition MarshalJSON :: "string \<Rightarrow> string" where
  "MarshalJSON s = CHR 0x22 # marshal_body s @ [CHR 0x22]"

subsection \<open>Bit arithmetic as division\<close>

lemma push_bit_or_add: "b < 2 ^ k \<Longrightarrow> push_bit k a OR b = a * 2 ^ k + (b :: nat)"
proof -
  assume "b < 2 ^ k"
  then have "take_bit k b = b" by (simp add: take_bit_nat_eq_self)
  then have "push_bit k a AND b = 0"
    by (intro bit_eqI) (metis bit_0_eq bit_and_iff bit_push_bit_iff bit_take_bit_iff bot_apply bot_bool_def leD)
  then have "push_bit k a OR b = push_bit k a + b" by (simp add: disjunctive_add_eq_or)
  then show ?thesis by (simp add: push_bit_eq_mult)
qed

lemma and_15_mod: "n AND 15 = n mod (16 :: nat)"
  using take_bit_eq_mask [of 4 n] by (simp add: take_bit_eq_mod mask_eq_exp_minus_1)

lemma and_63_mod: "n AND 63 = n mod (64 :: nat)"
  using take_bit_eq_mask [of 6 n] by (simp add: take_bit_eq_mod mask_eq_exp_minus_1)

lemma or_128: "b < 64 \<Longrightarrow> 128 OR b = 128 + (b :: nat)"
  using push_bit_or_add [of b 6 2] by (simp add: push_bit_eq_mult)

lemma or_224: "b < 16 \<Longrightarrow> 224 OR b = 224 + (b :: nat)"
  using push_bit_or_add [of b 4 14] by (simp add: push_bit_eq_mult)

lemma and_192: "n < 256 \<Longrightarrow> n AND 192 = (n div 64) * (64 :: nat)"
proof -
  assume "n < 256"
  then have "take_bit 8 n = n" by (simp add: take_bit_nat_eq_self)
  moreover have "take_bit 8 n AND push_bit 6 (mask 2) = push_bit 6 (drop_bit 6 (take_bit 8 n))"
    by (rule bit_eqI) (auto simp: bit_simps)
  ultimately show ?thesis by (simp add: push_bit_eq_mult drop_bit_eq_div mask_eq_exp_minus_1)
qed

subsection \<open>Decoding what was encoded\<close>

definition scalar :: "nat \<Rightarrow> bool" where
  "scalar r \<longleftrightarrow> r \<le> 1114111 \<and> \<not> is_surrogate r"

lemma wtf8_nonempty [simp]: "wtf8 r \<noteq> []" "0 < length (wtf8 r)"
  by (simp_all add: wtf8_def)

lemma EncodeRune_scalar: "scalar r \<Longrightarrow> EncodeRune r = wtf8 r"
  by (simp add: EncodeRune_def scalar_def)

lemma mod_shift: "y < m \<Longrightarrow> (m * k + y) mod m = (y :: nat)"
  by simp

lemma low_mods:
  "(128 + x mod 64) mod 64 = x mod (64 :: nat)"
  "q < 32 \<Longrightarrow> (192 + q) mod 32 = (q :: nat)"
  "q < 16 \<Longrightarrow> (224 + q) mod 16 = (q :: nat)"
  "q < 8 \<Longrightarrow> (240 + q) mod 8 = (q :: nat)"
  using mod_shift [of "x mod 64" 64 2] mod_shift [of q 32 6] mod_shift [of q 16 14] mod_shift [of q 8 30]
  by simp_all

lemma mod_64_le [simp]: "x mod 64 \<le> (63 :: nat)"
  using mod_less_divisor [of 64 x] by linarith

lemma reassemble2: "r div 64 * 64 + r mod 64 = (r :: nat)"
  by simp

lemma reassemble3: "r div 4096 * 4096 + r div 64 mod 64 * 64 + r mod 64 = (r :: nat)"
proof -
  have "r div 4096 * 64 + r div 64 mod 64 = r div 64"
    using div_mult_mod_eq [of "r div 64" 64] by (simp add: div_mult2_eq [symmetric])
  then have "(r div 4096 * 64 + r div 64 mod 64) * 64 + r mod 64 = r" by simp
  then show ?thesis by (simp add: add_mult_distrib)
qed

lemma reassemble4:
  "r div 262144 * 262144 + r div 4096 mod 64 * 4096 + r div 64 mod 64 * 64 + r mod 64 = (r :: nat)"
proof -
  have "r div 262144 * 64 + r div 4096 mod 64 = r div 4096"
    using div_mult_mod_eq [of "r div 4096" 64] by (simp add: div_mult2_eq [symmetric])
  then have "(r div 262144 * 64 + r div 4096 mod 64) * 4096 + r div 64 mod 64 * 64 + r mod 64 = r"
    using reassemble3 [of r] by simp
  then show ?thesis by (simp add: add_mult_distrib)
qed

lemma second_ok_3:
  assumes "2048 \<le> r" "r < 65536" "\<not> is_surrogate r"
  shows "second_ok (224 + r div 4096) (chr (128 + r div 64 mod 64))"
proof -
  define q where "q = r div 64"
  have q: "32 \<le> q" "q < 1024" "q < 864 \<or> 896 \<le> q" and d: "r div 4096 = q div 64"
    using assms by (auto simp: q_def is_surrogate_def div_mult2_eq [symmetric])
  have "q div 64 < 16" using q by auto
  moreover have "q div 64 = 0 \<Longrightarrow> 32 \<le> q mod 64" "q div 64 = 13 \<Longrightarrow> q mod 64 \<le> 31"
    using q div_mult_mod_eq [of q 64] mod_64_le [of q] by auto
  ultimately show ?thesis by (auto simp: second_ok_def d q_def [symmetric])
qed

lemma second_ok_4:
  assumes "65536 \<le> r" "r \<le> 1114111"
  shows "second_ok (240 + r div 262144) (chr (128 + r div 4096 mod 64))"
proof -
  define q where "q = r div 4096"
  have q: "16 \<le> q" "q < 272" and d: "r div 262144 = q div 64"
    using assms by (auto simp: q_def div_mult2_eq [symmetric])
  have "q div 64 = 0 \<Longrightarrow> 16 \<le> q mod 64" "q div 64 = 4 \<Longrightarrow> q mod 64 \<le> 15"
    using q div_mult_mod_eq [of q 64] mod_64_le [of q] by auto
  then show ?thesis by (auto simp: second_ok_def d q_def [symmetric])
qed

lemma DecodeRune_wtf8:
  assumes "scalar r"
  shows "DecodeRune (wtf8 r @ s) = (r, length (wtf8 r))"
proof -
  consider "r < 128" | "128 \<le> r" "r < 2048" | "2048 \<le> r" "r < 65536" | "65536 \<le> r" "r \<le> 1114111"
    using assms by (fastforce simp: scalar_def)
  then show ?thesis
  proof cases
    case 1
    then show ?thesis by (simp add: wtf8_def)
  next
    case 2
    then have "r div 64 < 32" "2 \<le> r div 64" by auto
    with 2 show ?thesis by (simp add: wtf8_def cont_byte_def Let_def low_mods)
  next
    case 3
    then have "r div 4096 < 16" by auto
    with 3 second_ok_3 [of r] assms show ?thesis
      by (simp add: wtf8_def cont_byte_def Let_def low_mods reassemble3 scalar_def)
  next
    case 4
    then have "r div 262144 < 5" by auto
    with 4 second_ok_4 [of r] show ?thesis
      by (simp add: wtf8_def cont_byte_def Let_def low_mods reassemble4)
  qed
qed

lemma writeUnit_wtf8: "u < 65536 \<Longrightarrow> writeUnit u = wtf8 u"
  by (auto simp: writeUnit_def wtf8_def EncodeRune_def is_surrogate_def drop_bit_eq_div
      and_63_mod or_128 or_224)

lemma surrogate_parts:
  assumes "is_surrogate u"
  shows "u div 4096 = 13" "32 \<le> u div 64 mod 64"
proof -
  define q where "q = u div 64"
  have q: "864 \<le> q" "q < 896" and d: "u div 4096 = q div 64"
    using assms by (auto simp: q_def is_surrogate_def div_mult2_eq [symmetric])
  then have "q div 64 = 13" by (intro div_nat_eqI) auto
  then show "u div 4096 = 13" "32 \<le> u div 64 mod 64"
    using q div_mult_mod_eq [of q 64] unfolding d q_def [symmetric] by auto
qed

lemma surrogateAt_surrogate:
  assumes "is_surrogate u"
  shows "surrogateAt (wtf8 u @ s) 0 = Some u"
proof -
  note parts = surrogate_parts [OF assms]
  have and192: "(128 + u mod 64) AND 192 = (128 :: nat)"
    by (subst and_192) simp_all
  have "push_bit 12 (13 :: nat) OR push_bit 6 (u div 64 mod 64) = push_bit 6 (13 * 64 + u div 64 mod 64)"
    by (subst push_bit_or_add) (simp_all add: push_bit_eq_mult)
  then have val: "push_bit 12 (13 :: nat) OR push_bit 6 (u div 64 mod 64) OR (u mod 64) = u"
    using push_bit_or_add [of "u mod 64" 6 "13 * 64 + u div 64 mod 64"] reassemble3 [of u] parts(1)
    by (simp add: or.assoc [symmetric])
  have "wtf8 u = [chr 237, chr (128 + u div 64 mod 64), chr (128 + u mod 64)]"
    using assms parts by (simp add: wtf8_def is_surrogate_def)
  moreover have "(128 + u mod 64) mod 256 = 128 + u mod 64"
    using mod_less_divisor [of 64 u] by (intro mod_less) linarith
  ultimately show ?thesis using parts and192 val
    by (simp add: not_less surrogateAt_def and_15_mod and_63_mod low_mods)
qed

lemma surrogateAt_scalar:
  assumes "scalar r"
  shows "surrogateAt (wtf8 r @ s) 0 = None"
proof -
  consider "r < 128" | "128 \<le> r" "r < 2048" | "2048 \<le> r" "r < 65536" | "65536 \<le> r" "r \<le> 1114111"
    using assms by (fastforce simp: scalar_def)
  then show ?thesis
  proof cases
    case 1
    then show ?thesis by (simp add: surrogateAt_def wtf8_def)
  next
    case 2
    then have "r div 64 < 32" by auto
    with 2 show ?thesis by (simp add: surrogateAt_def wtf8_def)
  next
    case 3
    then have "r div 4096 < 16" by auto
    moreover have "224 + r div 4096 = 237 \<Longrightarrow> byte_of (chr (128 + r div 64 mod 64)) \<le> 159"
      using second_ok_3 [of r] 3 assms by (simp add: second_ok_def scalar_def)
    ultimately show ?thesis using 3 by (auto simp: surrogateAt_def wtf8_def)
  next
    case 4
    then have "r div 262144 < 5" by auto
    with 4 show ?thesis by (simp add: surrogateAt_def wtf8_def)
  qed
qed

lemma surrogateAt_drop: "surrogateAt s (length p + i) = surrogateAt (drop (length p) s) i"
  if "length p \<le> length s"
  using that by (auto simp: surrogateAt_def add.assoc)

subsection \<open>Code point sequences\<close>

text \<open>
  A native text is a sequence of code points in which no high surrogate is directly
  followed by a low one (such a pair is one supplementary code point).
\<close>

definition wtf8s :: "nat list \<Rightarrow> string" where
  "wtf8s cps = concat (map wtf8 cps)"

fun unpaired_ok :: "nat list \<Rightarrow> bool" where
  "unpaired_ok (a # b # cps) \<longleftrightarrow> \<not> (is_high a \<and> is_low b) \<and> unpaired_ok (b # cps)"
| "unpaired_ok _ \<longleftrightarrow> True"

definition native_text :: "nat list \<Rightarrow> bool" where
  "native_text cps \<longleftrightarrow> (\<forall>c \<in> set cps. c \<le> 1114111) \<and> unpaired_ok cps"

definition cp_escape :: "nat \<Rightarrow> string" where
  "cp_escape c = (if is_surrogate c then u_escape c else escape_rune c)"

lemma wtf8s_simps [simp]: "wtf8s [] = []" "wtf8s (c # cps) = wtf8 c @ wtf8s cps"
  by (simp_all add: wtf8s_def)

lemma wtf8s_append [simp]: "wtf8s (xs @ ys) = wtf8s xs @ wtf8s ys"
  by (simp add: wtf8s_def)

lemma native_text_ConsD: "native_text (c # cps) \<Longrightarrow> native_text cps"
  by (cases cps) (auto simp: native_text_def)

lemma length_wtf8_surrogate: "is_surrogate u \<Longrightarrow> length (wtf8 u) = 3"
  by (auto simp: wtf8_def is_surrogate_def)

lemma surrogateAt_wtf8s:
  assumes "native_text cps" "surrogateAt (wtf8s cps) 0 = Some u"
  obtains rest where "cps = u # rest" "is_surrogate u"
proof (cases cps)
  case Nil
  with assms show ?thesis by (simp add: surrogateAt_def)
next
  case (Cons c rest)
  show ?thesis
  proof (cases "is_surrogate c")
    case True
    with assms Cons that show ?thesis by (simp add: surrogateAt_surrogate)
  next
    case False
    with assms Cons have "scalar c" by (simp add: scalar_def native_text_def)
    with assms Cons show ?thesis by (simp add: surrogateAt_scalar)
  qed
qed

lemma marshal_body_surrogate:
  assumes "native_text (c # cps)" "is_surrogate c"
  shows "marshal_body (wtf8 c @ wtf8s cps) = u_escape c @ marshal_body (wtf8s cps)"
proof -
  have len: "length (wtf8 c) = 3" by (rule length_wtf8_surrogate [OF assms(2)])
  have next3: "surrogateAt (wtf8 c @ wtf8s cps) 3 = surrogateAt (wtf8s cps) 0"
    using surrogateAt_drop [of "wtf8 c" "wtf8 c @ wtf8s cps" 0] len by simp
  have "\<not> (c \<le> 56319 \<and> 56320 \<le> low)" if "surrogateAt (wtf8s cps) 0 = Some low" for low
  proof -
    from native_text_ConsD [OF assms(1)] that obtain rest where "cps = low # rest" "is_surrogate low"
      by (rule surrogateAt_wtf8s)
    with assms show ?thesis
      by (auto simp: native_text_def is_high_def is_low_def is_surrogate_def)
  qed
  then show ?thesis
    using assms len next3 surrogateAt_surrogate [OF assms(2), of "wtf8s cps"]
    by (subst marshal_body.simps) (auto split: option.splits)
qed

lemma marshal_body_wtf8s:
  "native_text cps \<Longrightarrow> marshal_body (wtf8s cps) = concat (map cp_escape cps)"
proof (induction cps)
  case Nil
  show ?case by (simp add: marshal_body.simps)
next
  case (Cons c cps)
  note IH = Cons.IH [OF native_text_ConsD [OF Cons.prems]]
  show ?case
  proof (cases "is_surrogate c")
    case True
    with IH Cons.prems show ?thesis by (simp add: marshal_body_surrogate cp_escape_def)
  next
    case False
    with Cons.prems have "scalar c" by (simp add: scalar_def native_text_def)
    then show ?thesis using IH False
      by (simp add: cp_escape_def marshal_body.simps [of "wtf8 c @ wtf8s cps"]
          surrogateAt_scalar DecodeRune_wtf8)
  qed
qed

subsection \<open>White space\<close>

text \<open>\<open>unicode.IsSpace\<close>.\<close>

definition IsSpace :: "nat \<Rightarrow> bool" where
  "IsSpace r \<longleftrightarrow> 9 \<le> r \<and> r \<le> 13 \<or> r = 32 \<or> r = 133 \<or> r = 160 \<or> r = 5760 \<or>
     8192 \<le> r \<and> r \<le> 8202 \<or> r = 8232 \<or> r = 8233 \<or> r = 8239 \<or> r = 8287 \<or> r = 12288"

text \<open>A string as its runes with their bytes, as a \<open>range\<close> loop sees it.\<close>

function runes :: "string \<Rightarrow> (nat \<times> string) list" where
  "runes s = (if s = [] then []
     else (fst (DecodeRune s), take (snd (DecodeRune s)) s) # runes (drop (snd (DecodeRune s)) s))"
  by pat_completeness auto
termination
  by (relation "measure length") (use DecodeRune_size_pos in \<open>auto\<close>)

declare runes.simps [simp del]

text \<open>
  \<open>strings.TrimFunc\<close>: drop leading and trailing runes of a class. UTF-8 is self
  synchronising, so the runes from the right are the runes from the left.
\<close>

definition trim_runes :: "(nat \<Rightarrow> bool) \<Rightarrow> string \<Rightarrow> string" where
  "trim_runes P s =
     concat (map snd (rev (dropWhile (\<lambda>x. P (fst x)) (rev (dropWhile (\<lambda>x. P (fst x)) (runes s))))))"

definition TrimSpace :: "string \<Rightarrow> string" where
  "TrimSpace s = trim_runes IsSpace s"

lemma runes_Nil [simp]: "runes [] = []"
  by (simp add: runes.simps)

lemma TrimSpace_Nil [simp]: "TrimSpace [] = []"
  by (simp add: TrimSpace_def trim_runes_def)

lemma runes_ascii: "byte_of c < 128 \<Longrightarrow> runes (c # s) = (byte_of c, [c]) # runes s"
  by (subst runes.simps) simp

end
