(* ===== verification/Receipts.thy ===== *)
theory Receipts
  imports NativeString
begin

text \<open>
  Input receipts (\<open>internal/protocol/types.go\<close>, \<open>receipts.go\<close>): evidence that a native
  client accepted an input, merged from several sources. \<open>MergeInputReceipts\<close> is shown to
  compute, client by client, the fold of \<open>mergeReceipt\<close> over the valid receipts of that client.
\<close>

record receipt =
  Kind :: string
  State :: string
  ClientID :: string
  TurnID :: string
  MessageID :: string

definition MaxInputReceipts :: nat where
  "MaxInputReceipts = 128"

definition Valid :: "receipt \<Rightarrow> bool" where
  "Valid r \<longleftrightarrow>
     (\<forall>v \<in> set [ClientID r, TurnID r, MessageID r]. \<not> (1024 < length v \<or> v \<noteq> [] \<and> TrimSpace v = [])) \<and>
     TrimSpace (ClientID r) \<noteq> [] \<and>
     (if Kind r = ''submitted_observed''
      then State r = ''submitted'' \<or> State r = ''unconfirmed'' \<or> State r = ''rejected'' \<or>
           State r = ''observed'' \<and> (MessageID r \<noteq> [] \<or> TurnID r \<noteq> [])
      else Kind r = [] \<and> State r = [] \<and> TurnID r \<noteq> [] \<and> MessageID r \<noteq> [])"

definition mergeReceipt :: "receipt \<Rightarrow> receipt \<Rightarrow> receipt option" where
  "mergeReceipt previous next =
     (if previous = next then Some previous
      else if Kind previous \<noteq> ''submitted_observed'' \<or> Kind next \<noteq> Kind previous \<or>
              TurnID previous \<noteq> [] \<and> TurnID next \<noteq> [] \<and> TurnID previous \<noteq> TurnID next \<or>
              MessageID previous \<noteq> [] \<and> MessageID next \<noteq> [] \<and> MessageID previous \<noteq> MessageID next
      then None
      else if State previous = ''rejected'' \<or> State next = ''rejected'' then
        (if State previous \<noteq> ''unconfirmed'' \<and> State next \<noteq> ''unconfirmed'' then None
         else if State next = ''rejected'' then Some next else Some previous)
      else if State previous = ''observed'' \<or> State next = ''observed'' then
        (if State next = ''observed'' then Some next else Some previous)
      else if State previous = ''unconfirmed'' \<or> State next = ''unconfirmed''
      then Some (next\<lparr>State := ''unconfirmed''\<rparr>)
      else Some next)"

text \<open>The locals of \<open>MergeInputReceipts\<close>: \<open>order\<close>, \<open>seen\<close> and \<open>conflicts\<close>.\<close>

record merge_state =
  order :: "string list"
  seen :: "string \<Rightarrow> receipt option"
  conflicts :: "string list"

definition merge_init :: merge_state where
  "merge_init = \<lparr>order = [], seen = (\<lambda>_. None), conflicts = []\<rparr>"

definition merge_step :: "merge_state \<Rightarrow> receipt \<Rightarrow> merge_state" where
  "merge_step st r =
     (if \<not> Valid r \<or> ClientID r \<in> set (conflicts st) then st
      else case seen st (ClientID r) of
        Some previous \<Rightarrow>
          (case mergeReceipt previous r of
             None \<Rightarrow> st\<lparr>conflicts := ClientID r # conflicts st\<rparr>
           | Some merged \<Rightarrow> st\<lparr>seen := (seen st)(ClientID r := Some merged)\<rparr>)
      | None \<Rightarrow> st\<lparr>seen := (seen st)(ClientID r := Some r), order := order st @ [ClientID r]\<rparr>)"

definition merge_result :: "merge_state \<Rightarrow> receipt list" where
  "merge_result st =
     map (\<lambda>c. the (seen st c)) (filter (\<lambda>c. c \<notin> set (conflicts st)) (order st))"

definition MergeInputReceipts :: "receipt list list \<Rightarrow> receipt list" where
  "MergeInputReceipts groups =
     (let result = merge_result (foldl (foldl merge_step) merge_init groups)
      in drop (length result - MaxInputReceipts) result)"

subsection \<open>Abstract specification\<close>

text \<open>
  The evidence of one client, in order; merging it either conflicts or leaves one receipt.
\<close>

definition evidence :: "receipt list \<Rightarrow> string \<Rightarrow> receipt list" where
  "evidence rs c = filter (\<lambda>r. Valid r \<and> ClientID r = c) rs"

fun merge_all :: "receipt list \<Rightarrow> receipt option" where
  "merge_all [] = None"
| "merge_all (r # rs) = foldl (\<lambda>acc x. case acc of None \<Rightarrow> None | Some p \<Rightarrow> mergeReceipt p x) (Some r) rs"

definition clients :: "receipt list \<Rightarrow> string list" where
  "clients rs = rev (remdups (rev (map ClientID (filter Valid rs))))"

definition merge_spec :: "receipt list \<Rightarrow> receipt list" where
  "merge_spec rs =
     map (\<lambda>c. the (merge_all (evidence rs c))) (filter (\<lambda>c. merge_all (evidence rs c) \<noteq> None) (clients rs))"

lemma evidence_snoc:
  "evidence (rs @ [r]) c = evidence rs c @ (if Valid r \<and> ClientID r = c then [r] else [])"
  by (simp add: evidence_def)

lemma clients_snoc:
  "clients (rs @ [r]) = (if Valid r \<and> ClientID r \<notin> set (clients rs) then clients rs @ [ClientID r] else clients rs)"
  by (auto simp: clients_def)

lemma in_clients: "c \<in> set (clients rs) \<longleftrightarrow> evidence rs c \<noteq> []"
  by (auto simp: clients_def evidence_def filter_empty_conv)

lemma merge_all_snoc:
  "xs \<noteq> [] \<Longrightarrow> merge_all (xs @ [x]) = (case merge_all xs of None \<Rightarrow> None | Some p \<Rightarrow> mergeReceipt p x)"
  by (cases xs) simp_all

text \<open>The loop invariant relating the concrete state to the evidence read so far.\<close>

definition merge_inv :: "receipt list \<Rightarrow> merge_state \<Rightarrow> bool" where
  "merge_inv rs st \<longleftrightarrow>
     order st = clients rs \<and>
     (\<forall>c. (seen st c = None) = (evidence rs c = [])) \<and>
     (\<forall>c. c \<in> set (conflicts st) \<longleftrightarrow> evidence rs c \<noteq> [] \<and> merge_all (evidence rs c) = None) \<and>
     (\<forall>c. c \<notin> set (conflicts st) \<longrightarrow> seen st c = merge_all (evidence rs c))"

lemma merge_inv_init: "merge_inv [] merge_init"
  by (simp add: merge_inv_def merge_init_def clients_def evidence_def)

lemma merge_inv_step:
  assumes inv: "merge_inv rs st"
  shows "merge_inv (rs @ [r]) (merge_step st r)"
proof (cases "Valid r")
  case False
  with inv show ?thesis by (simp add: merge_inv_def merge_step_def evidence_snoc clients_snoc)
next
  case valid: True
  show ?thesis
  proof (cases "evidence rs (ClientID r) = []")
    case True
    with inv valid show ?thesis
      by (auto simp: merge_inv_def merge_step_def evidence_snoc clients_snoc in_clients split: option.splits)
  next
    case False
    with inv valid show ?thesis
      by (auto simp: merge_inv_def merge_step_def evidence_snoc clients_snoc in_clients merge_all_snoc
          split: option.splits)
  qed
qed

lemma merge_inv_foldl: "merge_inv (concat groups) (foldl (foldl merge_step) merge_init groups)"
proof (induction groups rule: rev_induct)
  case Nil
  show ?case by (simp add: merge_inv_init)
next
  case (snoc g gs)
  have "merge_inv (concat gs @ g) (foldl merge_step (foldl (foldl merge_step) merge_init gs) g)"
  proof (induction g rule: rev_induct)
    case Nil
    with snoc show ?case by simp
  next
    case (snoc r rs)
    from merge_inv_step [OF snoc, of r] show ?case by simp
  qed
  then show ?case by simp
qed

lemma merge_result_spec: "merge_inv rs st \<Longrightarrow> merge_result st = merge_spec rs"
  unfolding merge_result_def merge_spec_def
  by (rule map_cong) (auto simp: merge_inv_def in_clients intro!: filter_cong)

subsection \<open>Facts about merged evidence\<close>

lemma mergeReceipt_cases:
  assumes "mergeReceipt p x = Some m"
  shows "m = p \<or> m = x \<or> Kind x = ''submitted_observed'' \<and> m = x\<lparr>State := ''unconfirmed''\<rparr>"
  using assms unfolding mergeReceipt_def by (simp split: if_splits)

lemma Valid_unconfirmed:
  "Valid x \<Longrightarrow> Kind x = ''submitted_observed'' \<Longrightarrow> Valid (x\<lparr>State := ''unconfirmed''\<rparr>)"
  by (simp add: Valid_def)

lemma mergeReceipt_ok:
  "mergeReceipt p x = Some m \<Longrightarrow> Valid p \<and> ClientID p = c \<Longrightarrow> Valid x \<and> ClientID x = c \<Longrightarrow>
   Valid m \<and> ClientID m = c"
  using mergeReceipt_cases [of p x m] Valid_unconfirmed [of x] by auto

lemma merge_all_ok:
  "merge_all xs = Some m \<Longrightarrow> \<forall>x \<in> set xs. Valid x \<and> ClientID x = c \<Longrightarrow> Valid m \<and> ClientID m = c"
proof (induction xs arbitrary: m rule: rev_induct)
  case Nil
  then show ?case by simp
next
  case (snoc x xs)
  show ?case
  proof (cases "xs = []")
    case True
    with snoc.prems show ?thesis by simp
  next
    case False
    with snoc.prems obtain p where p: "merge_all xs = Some p" "mergeReceipt p x = Some m"
      by (auto simp: merge_all_snoc split: option.splits)
    with snoc have "Valid p \<and> ClientID p = c" by simp
    with p(2) snoc.prems show ?thesis by (simp add: mergeReceipt_ok)
  qed
qed

lemma distinct_clients: "distinct (clients rs)"
  by (simp add: clients_def)

lemma evidence_merged:
  assumes "merge_all (evidence rs c) = Some m"
  shows "Valid m" and "ClientID m = c"
proof -
  have "\<forall>x \<in> set (evidence rs c). Valid x \<and> ClientID x = c" by (simp add: evidence_def)
  from merge_all_ok [OF assms this] show "Valid m" "ClientID m = c" by simp_all
qed

lemma merge_spec_clients:
  "map ClientID (merge_spec rs) = filter (\<lambda>c. merge_all (evidence rs c) \<noteq> None) (clients rs)"
  unfolding merge_spec_def map_map comp_def
  by (rule map_idI) (auto dest: evidence_merged(2))

lemma merge_spec_mem: "m \<in> set (merge_spec rs) \<longleftrightarrow> (\<exists>c. merge_all (evidence rs c) = Some m)"
proof
  assume "m \<in> set (merge_spec rs)"
  then obtain c where "merge_all (evidence rs c) \<noteq> None" "m = the (merge_all (evidence rs c))"
    by (auto simp only: merge_spec_def set_map set_filter)
  then show "\<exists>c. merge_all (evidence rs c) = Some m" by (metis option.collapse)
next
  assume "\<exists>c. merge_all (evidence rs c) = Some m"
  then obtain c where c: "merge_all (evidence rs c) = Some m" by blast
  then have "evidence rs c \<noteq> []" by (cases "evidence rs c") auto
  with c show "m \<in> set (merge_spec rs)"
    by (simp add: merge_spec_def in_clients) (metis (mono_tags, lifting) image_eqI in_clients mem_Collect_eq option.sel)
qed

lemma merge_spec_Valid: "m \<in> set (merge_spec rs) \<Longrightarrow> Valid m"
  using evidence_merged(1) by (simp only: merge_spec_mem) blast

lemma merge_exact: "Kind p = [] \<Longrightarrow> mergeReceipt p x = (if x = p then Some p else None)"
  by (simp add: mergeReceipt_def)

lemma merge_all_exact:
  "\<forall>x \<in> set xs. Kind x = [] \<Longrightarrow> merge_all xs = Some m \<longleftrightarrow> xs \<noteq> [] \<and> (\<forall>x \<in> set xs. x = m)"
proof (induction xs arbitrary: m rule: rev_induct)
  case Nil
  then show ?case by simp
next
  case (snoc x xs)
  show ?case
  proof (cases "xs = []")
    case True
    then show ?thesis by auto
  next
    case False
    then obtain y where y: "y \<in> set xs" by (cases xs) auto
    have IH: "merge_all xs = Some p \<longleftrightarrow> (\<forall>x \<in> set xs. x = p)" for p
      using snoc False by simp
    show ?thesis
    proof (cases "merge_all xs")
      case None
      with IH False y show ?thesis by (auto simp: merge_all_snoc)
    next
      case (Some p)
      with IH have all: "\<forall>x \<in> set xs. x = p" by blast
      with y snoc.prems have "Kind p = []" by auto
      then have "merge_all (xs @ [x]) = (if x = p then Some p else None)"
        using Some False by (simp add: merge_all_snoc merge_exact)
      moreover have "(\<forall>z \<in> set (xs @ [x]). z = m) \<longleftrightarrow> m = p \<and> x = p"
        using all y by (metis Un_iff empty_iff empty_set insert_iff list.set(2) set_append)
      ultimately show ?thesis by auto
    qed
  qed
qed

lemma MergeInputReceipts_eq:
  "MergeInputReceipts groups =
     drop (length (merge_spec (concat groups)) - MaxInputReceipts) (merge_spec (concat groups))"
  by (simp add: MergeInputReceipts_def Let_def merge_result_spec [OF merge_inv_foldl])

lemma remdups_replicate: "remdups (replicate n x) = (if n = 0 then [] else [x])"
  by (induction n) auto

lemma MergeInputReceipts_single_client:
  assumes "list_all (\<lambda>r. Valid r \<and> ClientID r = c) rs" "rs \<noteq> []" "concat groups = rs"
  shows "MergeInputReceipts groups = (case merge_all rs of None \<Rightarrow> [] | Some m \<Rightarrow> [m])"
proof -
  have ev: "evidence rs c = rs" using assms(1) by (simp add: evidence_def list_all_iff filter_True)
  have "map ClientID (filter Valid rs) = replicate (length rs) c"
    using assms(1) by (induction rs) auto
  then have "clients rs = [c]"
    using assms(2) by (simp add: clients_def remdups_replicate)
  with ev show ?thesis
    by (auto simp: MergeInputReceipts_eq assms(3) merge_spec_def MaxInputReceipts_def split: option.splits)
qed

subsection \<open>Properties\<close>

text \<open>
  C6. \<open>MergeInputReceipts\<close> keeps the newest 128 of the merged receipts, one per client in order
  of first appearance, each the fold of \<open>mergeReceipt\<close> over that client's valid receipts;
  clients whose evidence conflicts are omitted.
\<close>

theorem MergeInputReceipts_spec:
  "MergeInputReceipts groups =
     drop (length (merge_spec (concat groups)) - MaxInputReceipts) (merge_spec (concat groups))"
  by (rule MergeInputReceipts_eq)

text \<open>
  The result is bounded, holds valid receipts only, and never two for one client.
\<close>

theorem MergeInputReceipts_bounded:
  "length (MergeInputReceipts groups) \<le> MaxInputReceipts \<and>
   distinct (map ClientID (MergeInputReceipts groups)) \<and>
   list_all Valid (MergeInputReceipts groups)"
proof -
  let ?m = "merge_spec (concat groups)"
  have "distinct (map ClientID ?m)" by (simp add: merge_spec_clients distinct_clients)
  then show ?thesis unfolding MergeInputReceipts_eq
    by (auto simp: drop_map [symmetric] distinct_drop list_all_iff dest!: in_set_dropD merge_spec_Valid)
qed

text \<open>
  When every receipt of a client is exact (no \<open>kind\<close>), the client is reported exactly when
  all its valid receipts agree, and then with that receipt: exact identities that conflict are
  never reported, independently of the order of the evidence.
\<close>

theorem MergeInputReceipts_exact:
  assumes "\<forall>r \<in> set (concat groups). Kind r = []"
    and "length (clients (concat groups)) \<le> MaxInputReceipts"
  shows "m \<in> set (MergeInputReceipts groups) \<longleftrightarrow>
    (\<exists>c. evidence (concat groups) c \<noteq> [] \<and> (\<forall>x \<in> set (evidence (concat groups) c). x = m))"
proof -
  let ?rs = "concat groups"
  have "length (merge_spec ?rs) \<le> MaxInputReceipts"
    using le_trans [OF length_filter_le assms(2)] by (simp add: merge_spec_def)
  then have "MergeInputReceipts groups = merge_spec ?rs" by (simp add: MergeInputReceipts_eq)
  moreover have "\<forall>x \<in> set (evidence ?rs c). Kind x = []" for c
    using assms(1) by (auto simp: evidence_def)
  note exact = merge_all_exact [OF this]
  ultimately show ?thesis by (simp add: merge_spec_mem exact)
qed

theorem MergeInputReceipts_exact_witness:
  "\<lparr>Kind = [], State = [], ClientID = ''a'', TurnID = ''t'', MessageID = ''m''\<rparr> \<in> set
     (MergeInputReceipts [[\<lparr>Kind = [], State = [], ClientID = ''a'', TurnID = ''t'', MessageID = ''m''\<rparr>]])"
proof -
  let ?r = "\<lparr>Kind = [], State = [], ClientID = ''a'', TurnID = ''t'', MessageID = ''m''\<rparr>"
  have "Valid ?r"
    by (simp add: Valid_def TrimSpace_def trim_runes_def runes_ascii IsSpace_def)
  then have "evidence (concat [[?r]]) ''a'' = [?r]" "clients (concat [[?r]]) = [''a'']"
    by (simp_all add: evidence_def clients_def)
  then show ?thesis using MergeInputReceipts_exact [of "[[?r]]" ?r]
    by (auto simp: MaxInputReceipts_def intro!: exI [of _ "''a''"])
qed

text \<open>
  C9. For non-exact receipts the order of the evidence matters: merging a receipt without
  a turn forgets the turn recorded before, so two receipts naming different native turns of one client
  are reported as one when an identity-free receipt arrives between them, and dropped
  as a conflict when it arrives after them.
\<close>

theorem MergeInputReceipts_forgets_identity:
  "(let r = (\<lambda>t. \<lparr>Kind = ''submitted_observed'', State = ''submitted'', ClientID = ''a'', TurnID = t, MessageID = []\<rparr>)
    in MergeInputReceipts [[r ''t1''], [r []], [r ''t2'']] = [r ''t2''] \<and>
       MergeInputReceipts [[r ''t1''], [r ''t2''], [r []]] = [])"
proof -
  let ?r = "\<lambda>t. \<lparr>Kind = ''submitted_observed'', State = ''submitted'', ClientID = ''a'', TurnID = t, MessageID = []\<rparr>"
  have T: "TrimSpace ''a'' = ''a''" "TrimSpace ''t1'' = ''t1''" "TrimSpace ''t2'' = ''t2''"
    by (simp_all add: TrimSpace_def trim_runes_def runes_ascii IsSpace_def)
  have V: "Valid (?r ''t1'')" "Valid (?r [])" "Valid (?r ''t2'')"
    by (simp_all add: Valid_def T)
  have M: "mergeReceipt (?r ''t1'') (?r []) = Some (?r [])" "mergeReceipt (?r []) (?r ''t2'') = Some (?r ''t2'')"
    "mergeReceipt (?r ''t1'') (?r ''t2'') = None"
    by (simp_all add: mergeReceipt_def)
  have one: "MergeInputReceipts [[?r ''t1''], [?r []], [?r ''t2'']] = [?r ''t2'']"
    by (subst MergeInputReceipts_single_client [of "''a''" "[?r ''t1'', ?r [], ?r ''t2'']"]) (simp_all add: V M)
  have two: "MergeInputReceipts [[?r ''t1''], [?r ''t2''], [?r []]] = []"
    by (subst MergeInputReceipts_single_client [of "''a''" "[?r ''t1'', ?r ''t2'', ?r []]"]) (simp_all add: V M)
  from one two show ?thesis unfolding Let_def by blast
qed

end
