(* ===== verification/NativeObject.thy ===== *)
theory NativeObject
  imports NativeString "HOL-Library.Multiset"
begin

text \<open>
  Decoded native JSON values and the ordered object of \<open>internal/nativejson/object.go\<close>.
  The Go type \<open>any\<close> ranges over the constructors of \<open>gval\<close>; an \<open>*Object\<close> is the list of its
  properties in the order of its \<open>keys\<close> slice (its \<open>fields\<close> map is the lookup in that
  list), and a plain \<open>map[string]any\<close> is the list of its entries, whose order no operation
  below observes.
\<close>

datatype gval =
    GNil
  | GBool bool
  | GNum float64
  | GStr string
  | GSur string
  | GArr "gval list"
  | GObj "(string \<times> gval) list"
  | GMap "(string \<times> gval) list"

type_synonym props = "(string \<times> gval) list"

subsection \<open>Text access\<close>

definition AsText :: "gval \<Rightarrow> string option" where
  "AsText v = (case v of GStr s \<Rightarrow> Some s | GSur s \<Rightarrow> Some s | _ \<Rightarrow> None)"

definition Text :: "gval \<Rightarrow> string" where
  "Text v = (case AsText v of Some s \<Rightarrow> s | None \<Rightarrow> '''')"

subsection \<open>Ordered objects\<close>

text \<open>\<open>Object.set\<close>: replacement keeps the position, a new key is appended.\<close>

fun obj_set :: "'a \<Rightarrow> 'b \<Rightarrow> ('a \<times> 'b) list \<Rightarrow> ('a \<times> 'b) list" where
  "obj_set k v [] = [(k, v)]"
| "obj_set k v ((k', v') # ps) = (if k' = k then (k, v) # ps else (k', v') # obj_set k v ps)"

definition NewObject :: "props \<Rightarrow> gval" where
  "NewObject properties = GObj (foldl (\<lambda>ps (k, v). obj_set k v ps) [] properties)"

definition Fields :: "gval \<Rightarrow> props option" where
  "Fields v = (case v of GObj ps \<Rightarrow> Some ps | GMap ps \<Rightarrow> Some ps | _ \<Rightarrow> None)"

text \<open>Reading \<open>fields[key]\<close> of a possibly nil map: the zero value is \<open>nil\<close>.\<close>

definition fields_of :: "gval \<Rightarrow> props" where
  "fields_of v = (case Fields v of Some ps \<Rightarrow> ps | None \<Rightarrow> [])"

definition field :: "props \<Rightarrow> string \<Rightarrow> gval" where
  "field ps k = (case map_of ps k of Some v \<Rightarrow> v | None \<Rightarrow> GNil)"

text \<open>
  \<open>arrayKey\<close>: a canonical decimal index below \<open>2^32 - 1\<close>. \<open>ParseUint(key, 10, 32)\<close> accepts
  the nonempty digit strings of value below \<open>2^32\<close>.
\<close>

definition ParseUint32 :: "string \<Rightarrow> nat option" where
  "ParseUint32 s =
     (if s \<noteq> [] \<and> list_all is_digit s \<and> digits_value s < 2 ^ 32 then Some (digits_value s) else None)"

definition arrayKey :: "string \<Rightarrow> nat option" where
  "arrayKey key =
     (case ParseUint32 key of
        Some number \<Rightarrow> if number < 2 ^ 32 - 1 \<and> FormatUint number = key then Some number else None
      | None \<Rightarrow> None)"

definition Keys :: "props \<Rightarrow> string list" where
  "Keys ps =
     (let ks = map fst ps;
          indices = filter (\<lambda>k. arrayKey k \<noteq> None) ks;
          others = filter (\<lambda>k. arrayKey k = None) ks
      in sort_key (\<lambda>k. the (arrayKey k)) indices @ others)"

text \<open>\<open>CopyProperty\<close>: a non-object has nil fields and yields a fresh plain map.\<close>

definition copy_props :: "props \<Rightarrow> string \<Rightarrow> gval \<Rightarrow> bool \<Rightarrow> props" where
  "copy_props ps key replacement remove =
     (if remove then filter (\<lambda>(k, v). k \<noteq> key) ps else obj_set key replacement ps)"

definition CopyProperty :: "gval \<Rightarrow> string \<Rightarrow> gval \<Rightarrow> bool \<Rightarrow> gval" where
  "CopyProperty value key replacement remove =
     (case value of
        GObj ps \<Rightarrow> GObj (copy_props ps key replacement remove)
      | _ \<Rightarrow> GMap (copy_props (fields_of value) key replacement remove))"

subsection \<open>The field map interface\<close>

text \<open>
  What the readers of a native object rely on: lookups after an update or a removal, and
  the order of the keys. Both the decoder and the patch engine use objects only
  through this contract.
\<close>

locale ordered_fields =
  fixes lookup :: "'o \<Rightarrow> 'k \<Rightarrow> 'v option"
    and put :: "'k \<Rightarrow> 'v \<Rightarrow> 'o \<Rightarrow> 'o"
    and del :: "'k \<Rightarrow> 'o \<Rightarrow> 'o"
    and keys :: "'o \<Rightarrow> 'k list"
    and invar :: "'o \<Rightarrow> bool"
  assumes lookup_put: "lookup (put k v ob) j = (if j = k then Some v else lookup ob j)"
    and lookup_del: "lookup (del k ob) j = (if j = k then None else lookup ob j)"
    and keys_put: "keys (put k v ob) = (if lookup ob k = None then keys ob @ [k] else keys ob)"
    and keys_del: "keys (del k ob) = filter (\<lambda>j. j \<noteq> k) (keys ob)"
    and keys_lookup: "lookup ob k = None \<longleftrightarrow> k \<notin> set (keys ob)"
    and invar_distinct: "invar ob \<longleftrightarrow> distinct (keys ob)"
begin

lemma invar_put: "invar ob \<Longrightarrow> invar (put k v ob)"
  by (simp add: invar_distinct keys_put keys_lookup)

lemma invar_del: "invar ob \<Longrightarrow> invar (del k ob)"
  by (simp add: invar_distinct keys_del)

lemma put_put_same: "lookup (put k w (put k v ob)) = lookup (put k w ob)"
  by (rule ext) (simp add: lookup_put)

lemma replace_keeps_position: "lookup ob k \<noteq> None \<Longrightarrow> keys (put k v ob) = keys ob"
  by (simp add: keys_put)

lemma readd_moves_last: "keys (put k v (del k ob)) = filter (\<lambda>j. j \<noteq> k) (keys ob) @ [k]"
  by (simp add: keys_put keys_del lookup_del)

end

lemma map_of_obj_set: "map_of (obj_set k v ps) j = (if j = k then Some v else map_of ps j)"
  by (induction ps) auto

lemma map_fst_obj_set:
  "map fst (obj_set k v ps) = (if map_of ps k = None then map fst ps @ [k] else map fst ps)"
  by (induction ps) auto

interpretation go_object: ordered_fields map_of obj_set
  "\<lambda>k. filter (\<lambda>(j, v). j \<noteq> k)" "map fst" "\<lambda>ps. distinct (map fst ps)"
proof (unfold_locales, goal_cases)
  case (2 k ob j)
  then show ?case by (auto simp: map_of_filter_key)
next
  case (4 k ob)
  then show ?case by (induction ob) auto
next
  case (5 ob k)
  then show ?case by (simp add: map_of_eq_None_iff)
qed (simp_all add: map_of_obj_set map_fst_obj_set)

lemma map_of_copy_props:
  "map_of (copy_props ps key r remove) j =
     (if j = key then (if remove then None else Some r) else map_of ps j)"
  by (auto simp: copy_props_def map_of_obj_set map_of_filter_key)

lemma distinct_copy_props:
  "distinct (map fst ps) \<Longrightarrow> distinct (map fst (copy_props ps key r remove))"
  using go_object.invar_put [of ps key r] go_object.invar_del [of ps key] by (simp add: copy_props_def)

subsection \<open>Well-formed values\<close>

text \<open>Every object of a well-formed value has distinct keys, as a Go map has.\<close>

fun wf_gval :: "gval \<Rightarrow> bool" where
  "wf_gval (GArr vs) = (\<forall>v \<in> set vs. wf_gval v)"
| "wf_gval (GObj ps) = (distinct (map fst ps) \<and> (\<forall>(k, v) \<in> set ps. wf_gval v))"
| "wf_gval (GMap ps) = (distinct (map fst ps) \<and> (\<forall>(k, v) \<in> set ps. wf_gval v))"
| "wf_gval _ = True"

text \<open>Nesting depth of arrays and objects.\<close>

fun depth :: "gval \<Rightarrow> nat" where
  "depth (GArr vs) = Suc (foldr max (map depth vs) 0)"
| "depth (GObj ps) = Suc (foldr max (map (depth \<circ> snd) ps) 0)"
| "depth (GMap ps) = Suc (foldr max (map (depth \<circ> snd) ps) 0)"
| "depth _ = 0"

lemma set_obj_set: "set (obj_set k v ps) \<subseteq> insert (k, v) (set ps)"
  by (induction ps) (auto split: if_splits)

lemma wf_props_obj_set:
  "wf_gval (GObj ps) \<Longrightarrow> wf_gval v \<Longrightarrow> wf_gval (GObj (obj_set k v ps))"
  using set_obj_set [of k v ps] go_object.invar_put [of ps k v] by auto

lemma wf_props_copy:
  assumes "wf_gval (GObj ps)" "remove \<or> wf_gval r"
  shows "wf_gval (GObj (copy_props ps key r remove))"
  using assms wf_props_obj_set [of ps r key] distinct_copy_props [of ps key r True]
  by (auto simp: copy_props_def)

lemma wf_GMap_iff: "wf_gval (GMap ps) = wf_gval (GObj ps)"
  by simp

lemma wf_fields_of: "wf_gval v \<Longrightarrow> wf_gval (GObj (fields_of v))"
  by (cases v) (auto simp: fields_of_def Fields_def)

lemma wf_CopyProperty [wf_intros]:
  assumes "wf_gval value" "remove \<or> wf_gval r"
  shows "wf_gval (CopyProperty value key r remove)"
proof -
  have "wf_gval (GObj (copy_props (fields_of value) key r remove))"
    using assms by (intro wf_props_copy wf_fields_of)
  then show ?thesis
    by (cases "value") (simp_all add: CopyProperty_def fields_of_def Fields_def)
qed

lemma depth_le_GArr: "depth (GArr vs) \<le> Suc n \<longleftrightarrow> (\<forall>v \<in> set vs. depth v \<le> n)"
  by (induction vs) auto

lemma depth_le_GObj: "depth (GObj ps) \<le> Suc n \<longleftrightarrow> (\<forall>(k, v) \<in> set ps. depth v \<le> n)"
  by (induction ps) auto

lemma Fields_eq: "Fields v = Some ps \<longleftrightarrow> v = GObj ps \<or> v = GMap ps"
  by (cases v) (auto simp: Fields_def)

lemma fields_of_simps [simp]: "fields_of (GObj ps) = ps" "fields_of (GMap ps) = ps"
  by (simp_all add: fields_of_def Fields_def)

subsection \<open>Property order\<close>

lemma arrayKey_iff: "arrayKey key = Some n \<longleftrightarrow> n < 2 ^ 32 - 1 \<and> key = FormatUint n"
  using FormatUint_digits [of n] FormatUint_nonempty [of n]
  by (auto simp: arrayKey_def ParseUint32_def list_all_iff split: if_splits option.splits
      simp del: FormatUint_nonempty)

lemma FormatUint_arrayKey: "arrayKey key = Some n \<Longrightarrow> FormatUint n = key"
  by (simp add: arrayKey_iff)

text \<open>
  \<open>Object.Keys\<close> enumerates every property once, the canonical array indices first in
  ascending numeric order and all other keys after them in insertion order.
\<close>

theorem Keys_order:
  "mset (Keys ps) = mset (map fst ps) \<and>
   (\<exists>ns. Keys ps = map FormatUint ns @ filter (\<lambda>k. arrayKey k = None) (map fst ps) \<and> sorted ns)"
proof
  let ?idx = "sort_key (\<lambda>k. the (arrayKey k)) (filter (\<lambda>k. arrayKey k \<noteq> None) (map fst ps))"
  show "mset (Keys ps) = mset (map fst ps)"
    using multiset_partition [of "mset (map fst ps)" "\<lambda>k. arrayKey k \<noteq> None"]
    by (simp add: Keys_def Let_def mset_filter)
  have "map FormatUint (map (\<lambda>k. the (arrayKey k)) ?idx) = ?idx"
    unfolding map_map by (rule map_idI) (auto dest: FormatUint_arrayKey)
  then show "\<exists>ns. Keys ps = map FormatUint ns @ filter (\<lambda>k. arrayKey k = None) (map fst ps) \<and> sorted ns"
    by (intro exI [of _ "map (\<lambda>k. the (arrayKey k)) ?idx"]) (simp add: Keys_def Let_def)
qed

text \<open>
  \<open>CopyProperty\<close> on an ordered object changes exactly one property: a replaced key keeps
  its position, a new key goes last, a removed key leaves the order of the others.
\<close>

theorem CopyProperty_ordered:
  "\<exists>qs. CopyProperty (GObj ps) key r rm = GObj qs \<and>
     (\<forall>j. map_of qs j = (if j = key then (if rm then None else Some r) else map_of ps j)) \<and>
     map fst qs = (if rm then filter (\<lambda>j. j \<noteq> key) (map fst ps)
                   else if key \<in> set (map fst ps) then map fst ps else map fst ps @ [key])"
  using go_object.keys_put [of key r ps] go_object.keys_del [of key ps] map_of_copy_props [of ps key r rm]
  by (simp add: CopyProperty_def copy_props_def go_object.keys_lookup)

end
