(* ===== verification/NativeRead.thy ===== *)
theory NativeRead
  imports NativeObject
begin

text \<open>
  The bounded native JSON reader: \<open>decoder\<close>, its \<open>value\<close>, \<open>object\<close>, \<open>array\<close>, \<open>number\<close> and
  \<open>string\<close> methods and \<open>Read\<close> (\<open>internal/nativejson/projection.go\<close> and \<open>string.go\<close>).
  The \<open>bufio.Reader\<close> is the list of unread bytes, whose end is the only reader error.
  After an error only \<open>retained\<close> is observable (\<open>Read\<close> returns nothing else), so the unread
  bytes of a failed state are left where the failing step started. The mutual recursion
  runs on fuel; \<open>Read_total\<close> shows that the fuel \<open>Read\<close> hands out is always enough.
\<close>

unbundle bit_operations_syntax

subsection \<open>Constants and state\<close>

definition MaxRetainedBytes :: nat where
  "MaxRetainedBytes = 64 * 1024 * 1024"

definition PreviewUnits :: nat where
  "PreviewUnits = 256 * 1024"

definition PreviewSuffix :: string where
  "PreviewSuffix = CHR 0x0A # ''[Filo preview truncated; full output remains in Codex.]''"

definition maxDepth :: nat where
  "maxDepth = 100"

datatype jerr =
    ETrailing | ERetained | EIncomplete | ENesting | ELiteral | EValue | EObjectKey
  | EObjectSeparator | EObjectDelimiter | EArrayDelimiter | EKeyLimit | ENumber | ERange
  | EIncompleteString | EControl | EIncompleteEscape | EIncompleteUnicode | EUnicode
  | EEscape | EEof | EFuel

record budget =
  remaining :: int
  marked :: bool

record dstate =
  inp :: string
  retained :: nat

type_synonym 'a dec = "dstate \<Rightarrow> dstate \<times> (jerr + 'a)"

definition dret :: "'a \<Rightarrow> 'a dec" where
  "dret x d = (d, Inr x)"

definition dfail :: "jerr \<Rightarrow> 'a dec" where
  "dfail e d = (d, Inl e)"

definition dbind :: "'a dec \<Rightarrow> ('a \<Rightarrow> 'b dec) \<Rightarrow> 'b dec" where
  "dbind m f d = (case m d of (d', Inl e) \<Rightarrow> (d', Inl e) | (d', Inr x) \<Rightarrow> f x d')"

definition charge :: "nat \<Rightarrow> unit dec" where
  "charge n d =
     (let d' = d\<lparr>retained := retained d + n\<rparr>
      in if MaxRetainedBytes < retained d' then (d', Inl ERetained) else (d', Inr ()))"

definition is_ws :: "char \<Rightarrow> bool" where
  "is_ws b \<longleftrightarrow> byte_of b = 32 \<or> byte_of b = 9 \<or> byte_of b = 13 \<or> byte_of b = 10"

text \<open>\<open>decoder.next\<close>: the next byte that is not white space; the end of input is \<open>EEof\<close>.\<close>

definition next_byte :: "char dec" where
  "next_byte d =
     (case dropWhile is_ws (inp d) of
        [] \<Rightarrow> (d\<lparr>inp := []\<rparr>, Inl EEof)
      | b # r \<Rightarrow> (d\<lparr>inp := r\<rparr>, Inr b))"

subsection \<open>Strings\<close>

record strst =
  s_out :: string
  s_pending :: nat
  s_units :: nat
  s_truncated :: bool
  s_unpaired :: bool
  s_shared :: "budget option"

definition str_init :: "budget option \<Rightarrow> strst" where
  "str_init shared = \<lparr>s_out = [], s_pending = 0, s_units = 0, s_truncated = False,
     s_unpaired = False, s_shared = shared\<rparr>"

text \<open>
  The \<open>emit\<close> closure. A high surrogate waits in \<open>pending\<close> for its partner.
\<close>

definition emit_unit :: "nat \<Rightarrow> strst \<Rightarrow> strst" where
  "emit_unit unit st =
     (let st = st\<lparr>s_units := Suc (s_units st),
                  s_shared := map_option (\<lambda>b. b\<lparr>remaining := remaining b - 1\<rparr>) (s_shared st)\<rparr>
      in if s_pending st \<noteq> 0 \<and> 56320 \<le> unit \<and> unit \<le> 57343
         then st\<lparr>s_out := s_out st @ EncodeRune (utf16_DecodeRune (s_pending st) unit), s_pending := 0\<rparr>
         else
           let st = (if s_pending st \<noteq> 0
                     then st\<lparr>s_out := s_out st @ writeUnit (s_pending st), s_unpaired := True, s_pending := 0\<rparr>
                     else st)
           in if 55296 \<le> unit \<and> unit \<le> 56319 then st\<lparr>s_pending := unit\<rparr>
              else st\<lparr>s_out := s_out st @ writeUnit unit,
                      s_unpaired := (s_unpaired st \<or> 56320 \<le> unit \<and> unit \<le> 57343)\<rparr>)"

definition emit :: "int \<Rightarrow> bool \<Rightarrow> nat \<Rightarrow> strst \<Rightarrow> strst dec" where
  "emit limit key unit st =
     (if 0 \<le> limit \<and> limit \<le> int (s_units st)
      then (if key then dfail EKeyLimit else dret (st\<lparr>s_truncated := True\<rparr>))
      else dbind (charge 2) (\<lambda>_. dret (emit_unit unit st)))"

fun emits :: "int \<Rightarrow> bool \<Rightarrow> nat list \<Rightarrow> strst \<Rightarrow> strst dec" where
  "emits limit key [] st = dret st"
| "emits limit key (u # us) st = dbind (emit limit key u st) (emits limit key us)"

text \<open>The four digits of a Unicode escape.\<close>

definition hex_digit :: "char \<Rightarrow> nat option" where
  "hex_digit c =
     (let b = byte_of c
      in if 48 \<le> b \<and> b \<le> 57 then Some (b - 48)
         else if 97 \<le> b \<and> b \<le> 102 then Some (b - 97 + 10)
         else if 65 \<le> b \<and> b \<le> 70 then Some (b - 65 + 10)
         else None)"

fun hex_unit :: "nat \<Rightarrow> nat \<Rightarrow> string \<Rightarrow> jerr + (nat \<times> string)" where
  "hex_unit 0 unit s = Inr (unit, s)"
| "hex_unit (Suc n) unit [] = Inl EIncompleteUnicode"
| "hex_unit (Suc n) unit (c # s) =
     (case hex_digit c of
        None \<Rightarrow> Inl EUnicode
      | Some d \<Rightarrow> hex_unit n (take_bit 16 (push_bit 4 unit) OR d) s)"

text \<open>One turn of the reading loop: the units to emit, or the closing quote.\<close>

datatype str_item = IClose string | IUnits "nat list" string | IErr jerr

definition escape_item :: "string \<Rightarrow> str_item" where
  "escape_item s =
     (case s of
        [] \<Rightarrow> IErr EIncompleteEscape
      | c # r \<Rightarrow>
          if c = CHR 0x22 \<or> c = CHR 0x5C \<or> c = CHR ''/'' then IUnits [byte_of c] r
          else if c = CHR ''b'' then IUnits [8] r
          else if c = CHR ''f'' then IUnits [12] r
          else if c = CHR ''n'' then IUnits [10] r
          else if c = CHR ''r'' then IUnits [13] r
          else if c = CHR ''t'' then IUnits [9] r
          else if c = CHR ''u'' then
            (case hex_unit 4 0 r of Inl e \<Rightarrow> IErr e | Inr (u, r') \<Rightarrow> IUnits [u] r')
          else IErr EEscape)"

definition read_item :: "string \<Rightarrow> str_item" where
  "read_item s =
     (case s of
        [] \<Rightarrow> IErr EIncompleteString
      | b # r \<Rightarrow>
          if b = CHR 0x22 then IClose r
          else if byte_of b < 32 then IErr EControl
          else if b = CHR 0x5C then escape_item r
          else if byte_of b < 128 then IUnits [byte_of b] r
          else let (rn, n) = DecodeRune s
               in if rn \<le> 65535 then IUnits [rn] (drop n s)
                  else let (hi, lo) = utf16_EncodeRune rn in IUnits [hi, lo] (drop n s))"

lemma hex_unit_shorter: "hex_unit n u s = Inr (v, r) \<Longrightarrow> length r \<le> length s"
  by (induction n u s rule: hex_unit.induct) (auto split: option.splits)

lemma escape_item_shorter: "escape_item s = IUnits us r \<Longrightarrow> length r < length s"
  by (auto simp: escape_item_def split: list.splits if_splits sum.splits dest: hex_unit_shorter)

lemma read_item_shorter: "read_item s = IUnits us r \<Longrightarrow> length r < length s"
  using DecodeRune_size_pos [of s]
  by (auto simp: read_item_def split: list.splits if_splits prod.splits dest: escape_item_shorter)

lemma read_item_close: "read_item s = IClose r \<Longrightarrow> length r < length s"
  by (auto simp: read_item_def escape_item_def Let_def split: list.splits if_splits prod.splits sum.splits)

text \<open>The loop reads from \<open>s\<close>; the decoder state carries the retained count.\<close>

function str_loop :: "int \<Rightarrow> bool \<Rightarrow> string \<Rightarrow> strst \<Rightarrow> strst dec" where
  "str_loop limit key s st d =
     (case read_item s of
        IErr e \<Rightarrow> (d, Inl e)
      | IClose r \<Rightarrow> (d\<lparr>inp := r\<rparr>, Inr st)
      | IUnits us r \<Rightarrow>
          (case emits limit key us st d of
             (d', Inl e) \<Rightarrow> (d', Inl e)
           | (d', Inr st') \<Rightarrow> str_loop limit key r st' d'))"
  by pat_completeness auto
termination
  by (relation "measure (\<lambda>(limit, key, s, st, d). length s)") (auto dest: read_item_shorter)

declare str_loop.simps [simp del]

definition str_finish :: "strst \<Rightarrow> (budget option \<times> gval) dec" where
  "str_finish st =
     (let mark = (s_truncated st \<and> (case s_shared st of None \<Rightarrow> False | Some b \<Rightarrow> \<not> marked b));
          st = (if s_pending st \<noteq> 0 \<and> \<not> mark
                then st\<lparr>s_out := s_out st @ writeUnit (s_pending st), s_unpaired := True\<rparr> else st);
          out = (if mark then s_out st @ PreviewSuffix else s_out st);
          shared = (if mark then map_option (\<lambda>b. b\<lparr>marked := True\<rparr>) (s_shared st) else s_shared st);
          v = (if s_unpaired st then GSur out else GStr out)
      in if mark then dbind (charge (length PreviewSuffix * 2)) (\<lambda>_. dret (shared, v))
         else dret (shared, v))"

definition dec_string :: "int \<Rightarrow> budget option \<Rightarrow> bool \<Rightarrow> (budget option \<times> gval) dec" where
  "dec_string limit shared key d =
     dbind (\<lambda>d. str_loop limit key (inp d) (str_init shared) d) str_finish d"

subsection \<open>Numbers\<close>

definition number_char :: "char \<Rightarrow> bool" where
  "number_char c \<longleftrightarrow> is_digit c \<or> c \<in> set ''.-+eE''"

definition valid_exp :: "string \<Rightarrow> bool" where
  "valid_exp s =
     (case s of
        [] \<Rightarrow> True
      | c # r \<Rightarrow> (c = CHR ''e'' \<or> c = CHR ''E'') \<and>
          (let r' = (case r of x # y \<Rightarrow> if x = CHR ''+'' \<or> x = CHR ''-'' then y else r | [] \<Rightarrow> r)
           in r' \<noteq> [] \<and> list_all is_digit r'))"

definition valid_frac :: "string \<Rightarrow> bool" where
  "valid_frac s =
     (if s \<noteq> [] \<and> hd s = CHR ''.''
      then tl s \<noteq> [] \<and> is_digit (hd (tl s)) \<and> valid_exp (dropWhile is_digit (tl s))
      else valid_exp s)"

text \<open>\<open>json.Valid\<close> on bytes that all are \<open>number_char\<close>s: the JSON number grammar.\<close>

definition valid_number :: "string \<Rightarrow> bool" where
  "valid_number s =
     (let s1 = (if s \<noteq> [] \<and> hd s = CHR ''-'' then tl s else s)
      in case s1 of
           [] \<Rightarrow> False
         | c # r \<Rightarrow> if c = CHR ''0'' then valid_frac r
                    else is_digit c \<and> valid_frac (dropWhile is_digit r))"

text \<open>\<open>strconv.ParseFloat\<close> on a valid number: the exact decimal, correctly rounded.\<close>

definition exp_value :: "string \<Rightarrow> int" where
  "exp_value s =
     (if s \<noteq> [] \<and> hd s = CHR ''-'' then - int (digits_value (tl s))
      else if s \<noteq> [] \<and> hd s = CHR ''+'' then int (digits_value (tl s))
      else int (digits_value s))"

definition pow10 :: "int \<Rightarrow> rat" where
  "pow10 e = (if 0 \<le> e then 10 ^ nat e else 1 / 10 ^ nat (- e))"

definition decimal_value :: "string \<Rightarrow> rat" where
  "decimal_value s =
     (let neg = (s \<noteq> [] \<and> hd s = CHR ''-'');
          s1 = (if neg then tl s else s);
          ip = takeWhile is_digit s1; r1 = dropWhile is_digit s1;
          fp = (if r1 \<noteq> [] \<and> hd r1 = CHR ''.'' then takeWhile is_digit (tl r1) else []);
          r2 = (if r1 \<noteq> [] \<and> hd r1 = CHR ''.'' then dropWhile is_digit (tl r1) else r1);
          e = exp_value (tl r2);
          m = rat_of_nat (digits_value (ip @ fp)) * pow10 (e - int (length fp))
      in if neg then - m else m)"

definition ParseFloat :: "string \<Rightarrow> jerr + float64" where
  "ParseFloat s = (case round_f64 (decimal_value s) of Fin x \<Rightarrow> Inr (Fin x) | _ \<Rightarrow> Inl ERange)"

definition dec_number :: "char \<Rightarrow> gval dec" where
  "dec_number first d =
     (let data = first # takeWhile number_char (inp d);
          d' = d\<lparr>inp := dropWhile number_char (inp d)\<rparr>
      in if 1024 < length data then (d, Inl EKeyLimit)
         else if \<not> valid_number data then (d, Inl ENumber)
         else dbind (charge (length data * 2))
                (\<lambda>_ d. (d, map_sum id GNum (ParseFloat data))) d')"

subsection \<open>Paths and the string policy\<close>

datatype pkey = KInt nat | KVal gval

abbreviation KStr :: "string \<Rightarrow> pkey" where
  "KStr s \<equiv> KVal (GStr s)"

definition is_KInt :: "pkey \<Rightarrow> bool" where
  "is_KInt k = (case k of KInt _ \<Rightarrow> True | _ \<Rightarrow> False)"

definition appendPath :: "pkey list \<Rightarrow> pkey \<Rightarrow> pkey list" where
  "appendPath p key = p @ [key]"

text \<open>
  A nonnegative integral double that fits an \<open>int\<close> becomes an index; \<open>2^63\<close> itself does
  not survive the conversion to \<open>int\<close> and back.
\<close>

definition normalize_key :: "gval \<Rightarrow> pkey" where
  "normalize_key v =
     (case v of
        GNum (Fin n) \<Rightarrow> if 0 \<le> n \<and> n < 2 ^ 63 \<and> f64_is_integer n then KInt (nat \<lfloor>n\<rfloor>) else KVal v
      | _ \<Rightarrow> KVal v)"

definition normalizePath :: "gval list \<Rightarrow> pkey list" where
  "normalizePath p = map normalize_key p"

text \<open>
  \<open>stringPolicy\<close>: the unit limit for a string at a path, \<open>-1\<close> for none. The code's second
  result (the shared budget) is \<open>nil\<close> on every return.
\<close>

fun stringPolicy :: "pkey list \<Rightarrow> int" where
  "stringPolicy (a # b # first # fs) =
     (if a \<noteq> KStr ''items'' \<or> \<not> is_KInt b then stringPolicy (b # first # fs)
      else if first = KStr ''arguments'' \<or> first = KStr ''result'' \<and> fs = [] then - 1
      else if first = KStr ''restoreMessage'' \<or> first = KStr ''raw_content'' then 0
      else if first = KStr ''result'' \<and> fs \<noteq> [] \<and> hd fs = KStr ''_meta'' then 0
      else if first = KStr ''result'' \<and> 2 < length fs \<and> hd fs = KStr ''content'' \<and>
              is_KInt (fs ! 1) \<and> fs ! 2 = KStr ''data'' then 0
      else - 1)"
| "stringPolicy _ = - 1"

definition child_path :: "bool \<Rightarrow> pkey list \<Rightarrow> string \<Rightarrow> props \<Rightarrow> pkey list" where
  "child_path rollout p key flds =
     (let cp = appendPath p (KStr key);
          cp = (if rollout \<and> cp = [KStr ''payload'', KStr ''item''] then [KStr ''items'', KInt 0] else cp)
      in if length cp = 5 \<and> cp ! 0 = KStr ''params'' \<and> cp ! 1 = KStr ''change'' \<and>
            cp ! 2 = KStr ''patches'' \<and> cp ! 4 = KStr ''value''
         then (case field flds ''path'' of GArr target \<Rightarrow> normalizePath target | _ \<Rightarrow> cp)
         else cp)"

subsection \<open>Values, objects and arrays\<close>

fun match_literal :: "string \<Rightarrow> string \<Rightarrow> string option" where
  "match_literal [] s = Some s"
| "match_literal (c # cs) [] = None"
| "match_literal (c # cs) (x # xs) = (if x = c then match_literal cs xs else None)"

definition dec_literal :: "string \<Rightarrow> gval \<Rightarrow> gval dec" where
  "dec_literal rest v d =
     (case match_literal rest (inp d) of
        Some r \<Rightarrow> (d\<lparr>inp := r\<rparr>, Inr v)
      | None \<Rightarrow> (d, Inl ELiteral))"

definition map_error :: "(jerr \<Rightarrow> jerr) \<Rightarrow> 'a dec \<Rightarrow> 'a dec" where
  "map_error f m d = (case m d of (d', Inl e) \<Rightarrow> (d', Inl (f e)) | r \<Rightarrow> r)"

text \<open>\<open>charge(16)\<close> happens only for a key the object does not have yet.\<close>

definition charge_new_key :: "props \<Rightarrow> string \<Rightarrow> unit dec" where
  "charge_new_key flds key = (if map_of flds key = None then charge 16 else dret ())"

function (sequential) dec_value :: "nat \<Rightarrow> bool \<Rightarrow> pkey list \<Rightarrow> nat \<Rightarrow> gval dec"
and obj_loop :: "nat \<Rightarrow> bool \<Rightarrow> pkey list \<Rightarrow> nat \<Rightarrow> props \<Rightarrow> char \<Rightarrow> gval dec"
and arr_loop :: "nat \<Rightarrow> bool \<Rightarrow> pkey list \<Rightarrow> nat \<Rightarrow> gval list \<Rightarrow> gval dec" where
  "dec_value 0 rollout p dep = dfail EFuel"
| "dec_value (Suc fuel) rollout p dep =
     dbind (charge 32) (\<lambda>_.
     dbind (map_error (\<lambda>_. EIncomplete) next_byte) (\<lambda>b.
       if b = CHR ''{'' \<or> b = CHR ''['' then
         (if maxDepth \<le> dep then dfail ENesting
          else if b = CHR ''{'' then
            dbind next_byte (\<lambda>c.
              if c = CHR ''}'' then dret (GObj []) else obj_loop fuel rollout p (Suc dep) [] c)
          else
            (\<lambda>d. dbind next_byte (\<lambda>c d'.
              if c = CHR '']'' then (d', Inr (GArr []))
              else arr_loop fuel rollout p (Suc dep) [] (d'\<lparr>inp := c # inp d'\<rparr>)) d))
       else if b = CHR 0x22 then dbind (dec_string (stringPolicy p) None False) (\<lambda>(sh, v). dret v)
       else if b = CHR ''t'' then dec_literal ''rue'' (GBool True)
       else if b = CHR ''f'' then dec_literal ''alse'' (GBool False)
       else if b = CHR ''n'' then dec_literal ''ull'' GNil
       else if b \<noteq> CHR ''-'' \<and> \<not> is_digit b then dfail EValue
       else dec_number b))"
| "obj_loop 0 rollout p dep flds b = dfail EFuel"
| "obj_loop (Suc fuel) rollout p dep flds b =
     (if b \<noteq> CHR 0x22 then dfail EObjectKey
      else
        dbind (dec_string 4096 None True) (\<lambda>(sh, keyValue).
        dbind (map_error (\<lambda>_. EObjectSeparator) next_byte) (\<lambda>c.
          if c \<noteq> CHR '':'' then dfail EObjectSeparator
          else
            dbind (dec_value fuel rollout (child_path rollout p (Text keyValue) flds) dep) (\<lambda>value.
            dbind (charge_new_key flds (Text keyValue)) (\<lambda>_.
            dbind next_byte (\<lambda>e.
              if e = CHR ''}'' then dret (GObj (obj_set (Text keyValue) value flds))
              else if e \<noteq> CHR '','' then dfail EObjectDelimiter
              else dbind next_byte
                     (obj_loop fuel rollout p dep (obj_set (Text keyValue) value flds))))))))"
| "arr_loop 0 rollout p dep result = dfail EFuel"
| "arr_loop (Suc fuel) rollout p dep result =
     dbind (dec_value fuel rollout (appendPath p (KInt (length result))) dep) (\<lambda>value.
     dbind next_byte (\<lambda>b.
       if b = CHR '']'' then dret (GArr (result @ [value]))
       else if b \<noteq> CHR '','' then dfail EArrayDelimiter
       else arr_loop fuel rollout p dep (result @ [value])))"

  by pat_completeness auto
termination
  by (relation "measure (\<lambda>x. case x of Inl (f, _) \<Rightarrow> f | Inr (Inl (f, _)) \<Rightarrow> f | Inr (Inr (f, _)) \<Rightarrow> f)") auto

definition read_fuel :: "string \<Rightarrow> nat" where
  "read_fuel s = 2 * length s + 2"

text \<open>\<open>Read\<close>: one document and nothing after it; the second component is \<open>d.retained\<close>.\<close>

definition Read :: "string \<Rightarrow> bool \<Rightarrow> nat \<times> (jerr + gval)" where
  "Read input rolloutItem =
     (case dec_value (read_fuel input) rolloutItem [] 0 \<lparr>inp = input, retained = 0\<rparr> of
        (d, Inl e) \<Rightarrow> (retained d, Inl e)
      | (d, Inr v) \<Rightarrow>
          (case next_byte d of
             (d', Inr _) \<Rightarrow> (retained d', Inl ETrailing)
           | (d', Inl _) \<Rightarrow> (retained d', Inr v)))"

end
