(* ===== verification/JsText.thy ===== *)
theory JsText
  imports NativeRead
begin

text \<open>
  JavaScript conversions the native projections need (\<open>internal/codex/nativemessages.go\<close>):
  truthiness, string interpolation with \<open>??\<close>, number formatting, white space trimming and
  the small readers of native fields.
\<close>

subsection \<open>Shortest decimal formatting\<close>

text \<open>
  \<open>strconv.FormatFloat(v, fmt, -1, 64)\<close>: the fewest decimal digits that round back to the
  same double, the closest such number. \<open>exponent10\<close> places the decimal point, and
  seventeen digits are always enough for a double.
\<close>

definition exponent10 :: "rat \<Rightarrow> int" where
  "exponent10 x =
     (let (p, q) = quotient_of x;
          k = int (length (FormatUint (nat p))) - int (length (FormatUint (nat q)))
      in if x < pow10 k then k else k + 1)"

definition decimal_at :: "rat \<Rightarrow> int \<Rightarrow> nat \<Rightarrow> nat option" where
  "decimal_at x k n =
     (let scaled = x * pow10 (int n - k); lo = \<lfloor>scaled\<rfloor>; hi = \<lceil>scaled\<rceil>;
          ok = (\<lambda>m. round_f64 (of_int m * pow10 (k - int n)) = Fin x)
      in if ok lo \<and> ok hi
         then Some (nat (if scaled - of_int lo < of_int hi - scaled then lo
                         else if of_int hi - scaled < scaled - of_int lo then hi
                         else if even lo then lo else hi))
         else if ok lo then Some (nat lo) else if ok hi then Some (nat hi) else None)"

fun shortest_from :: "nat \<Rightarrow> rat \<Rightarrow> int \<Rightarrow> nat \<Rightarrow> nat \<times> nat" where
  "shortest_from 0 x k n = (nat (round_half_even (x * pow10 (int n - k))), n)"
| "shortest_from (Suc fuel) x k n =
     (case decimal_at x k n of Some m \<Rightarrow> (m, n) | None \<Rightarrow> shortest_from fuel x k (Suc n))"

definition strip_zeros :: "string \<Rightarrow> string" where
  "strip_zeros s = rev (dropWhile (\<lambda>c. c = CHR ''0'') (rev s))"

text \<open>The digits of a positive double and the position of its decimal point.\<close>

definition shortest :: "rat \<Rightarrow> string \<times> int" where
  "shortest x =
     (let k = exponent10 x; (m, n) = shortest_from 16 x k 1; ds = FormatUint m
      in (strip_zeros ds, int (length ds) + k - int n))"

definition format_f :: "rat \<Rightarrow> string" where
  "format_f v =
     (let (ds, dp) = shortest \<bar>v\<bar>;
          ip = (if 0 < dp then take (nat dp) ds @ replicate (nat dp - length ds) (CHR ''0'') else ''0'');
          fp = replicate (nat (- dp)) (CHR ''0'') @ drop (nat dp) ds
      in (if v < 0 then ''-'' else '''') @ ip @ (if fp = [] then [] else CHR ''.'' # fp))"

definition format_e :: "rat \<Rightarrow> string" where
  "format_e v =
     (let (ds, dp) = shortest \<bar>v\<bar>; e = dp - 1; es = FormatUint (nat \<bar>e\<bar>)
      in (if v < 0 then ''-'' else '''') @ take 1 ds @ (if length ds \<le> 1 then [] else CHR ''.'' # drop 1 ds)
         @ ''e'' @ (if e < 0 then ''-'' else ''+'') @ (if length es < 2 then CHR ''0'' # es else es))"

definition jsNumberString :: "float64 \<Rightarrow> string" where
  "jsNumberString v =
     (case v of
        NaN \<Rightarrow> ''NaN''
      | PInf \<Rightarrow> ''Infinity''
      | NInf \<Rightarrow> ''-Infinity''
      | Fin x \<Rightarrow>
          if x = 0 then ''0''
          else if (case round_f64 (pow10 (- 6)) of Fin t \<Rightarrow> t \<le> \<bar>x\<bar> | _ \<Rightarrow> False) \<and> \<bar>x\<bar> < pow10 21 then format_f x
          else
            let s = format_e x;
                mantissa = takeWhile (\<lambda>c. c \<noteq> CHR ''e'') s;
                exponent = tl (dropWhile (\<lambda>c. c \<noteq> CHR ''e'') s);
                sign = (if hd exponent = CHR ''+'' \<or> hd exponent = CHR ''-'' then [hd exponent] else ''+'');
                exponent = (if hd exponent = CHR ''+'' \<or> hd exponent = CHR ''-'' then tl exponent else exponent);
                stripped = dropWhile (\<lambda>c. c = CHR ''0'') exponent
            in mantissa @ ''e'' @ sign @ (if stripped = [] then ''0'' else stripped))"

subsection \<open>Interpolation and truthiness\<close>

fun join :: "string \<Rightarrow> string list \<Rightarrow> string" where
  "join sep [] = []"
| "join sep [s] = s"
| "join sep (s # t # ts) = s @ sep @ join sep (t # ts)"

fun jsCoalesce :: "gval \<Rightarrow> string \<Rightarrow> string" where
  "jsCoalesce GNil fallback = fallback"
| "jsCoalesce (GSur s) fallback = s"
| "jsCoalesce (GStr s) fallback = s"
| "jsCoalesce (GBool b) fallback = (if b then ''true'' else ''false'')"
| "jsCoalesce (GNum n) fallback = jsNumberString n"
| "jsCoalesce (GArr vs) fallback = join '','' (map (\<lambda>v. jsCoalesce v []) vs)"
| "jsCoalesce (GObj ps) fallback = ''[object Object]''"
| "jsCoalesce (GMap ps) fallback = ''[object Object]''"

definition truthy :: "gval \<Rightarrow> bool" where
  "truthy v =
     (case v of
        GNil \<Rightarrow> False
      | GBool b \<Rightarrow> b
      | GNum n \<Rightarrow> n \<noteq> Fin 0 \<and> n \<noteq> NaN
      | GSur s \<Rightarrow> s \<noteq> []
      | GStr s \<Rightarrow> s \<noteq> []
      | _ \<Rightarrow> True)"

definition isFalse :: "gval \<Rightarrow> bool" where
  "isFalse v \<longleftrightarrow> v = GBool False"

definition isNonEmptyString :: "gval \<Rightarrow> bool" where
  "isNonEmptyString v = (case AsText v of Some s \<Rightarrow> s \<noteq> [] | None \<Rightarrow> False)"

definition identityString :: "gval \<Rightarrow> string" where
  "identityString v = (case AsText v of Some s \<Rightarrow> s | None \<Rightarrow> [])"

definition stringPointer :: "gval \<Rightarrow> string option" where
  "stringPointer v = AsText v"

text \<open>The JavaScript white space set, which adds U+FEFF to Unicode spaces and omits U+0085.\<close>

definition js_space :: "nat \<Rightarrow> bool" where
  "js_space r \<longleftrightarrow> 9 \<le> r \<and> r \<le> 13 \<or> r = 32 \<or> r = 160 \<or> r = 5760 \<or> 8192 \<le> r \<and> r \<le> 8202 \<or>
     r = 8232 \<or> r = 8233 \<or> r = 8239 \<or> r = 8287 \<or> r = 12288 \<or> r = 65279"

definition trimJSWhitespace :: "string \<Rightarrow> string" where
  "trimJSWhitespace s = trim_runes js_space s"

subsection \<open>Readers of native fields\<close>

definition is_text_type :: "gval \<Rightarrow> string \<Rightarrow> bool" where
  "is_text_type part t \<longleftrightarrow> Text (field (fields_of part) ''type'') = t"

definition inputText :: "gval \<Rightarrow> string" where
  "inputText content =
     (let parts = (case content of GArr vs \<Rightarrow> vs | _ \<Rightarrow> [])
      in join [CHR 0x0A]
           (map (\<lambda>p. Text (field (fields_of p) ''text''))
             (filter (\<lambda>p. Fields p \<noteq> None \<and> is_text_type p ''text'') parts)))"

definition textContent :: "gval \<Rightarrow> string option" where
  "textContent v =
     (case v of
        GArr parts \<Rightarrow>
          (let texts = List.map_filter (\<lambda>p.
                 if Fields p \<noteq> None \<and> (is_text_type p ''text'' \<or> is_text_type p ''inputText'')
                 then AsText (field (fields_of p) ''text'') else None) parts
           in if texts = [] then None else Some (join [CHR 0x0A, CHR 0x0A] texts))
      | _ \<Rightarrow> None)"

definition durationMilliseconds :: "gval \<Rightarrow> rat option" where
  "durationMilliseconds v =
     (case v of
        GNum (Fin n) \<Rightarrow> if n < 0 \<or> max_safe_integer < n then None else Some (of_int \<lfloor>n\<rfloor>)
      | _ \<Rightarrow> None)"

text \<open>\<open>jsSafeInteger\<close>: an integral double of magnitude at most \<open>2^53 - 1\<close>.\<close>

definition jsSafeInteger :: "float64 \<Rightarrow> bool" where
  "jsSafeInteger v = (case v of Fin x \<Rightarrow> f64_is_integer x \<and> \<bar>x\<bar> \<le> max_safe_integer | _ \<Rightarrow> False)"

lemma jsSafeIntegerD: "jsSafeInteger v \<Longrightarrow> \<exists>n. v = Fin (of_int n)"
  by (auto simp: jsSafeInteger_def dest: f64_is_integerD split: float64.splits)

end
