(* ===== verification/DesktopState.thy ===== *)
theory DesktopState
  imports Receipts JsText
begin

text \<open>
  The status and receipt projections of a desktop snapshot (\<open>internal/codex/desktopstate.go\<close>,
  \<open>desktopreceipts.go\<close>): the canonical turn order, which turn is active and which completed last,
  the settings a runtime shows, and the accepted inputs of a snapshot. \<open>desktopInputReceipts\<close> is
  shown to compute a reference selection over the accepted inputs, newest first.
\<close>

subsection \<open>Turns\<close>

definition asArray :: "gval \<Rightarrow> gval list" where
  "asArray v = (case v of GArr vs \<Rightarrow> vs | _ \<Rightarrow> [])"

abbreviation text_field :: "gval \<Rightarrow> string \<Rightarrow> string" where
  "text_field v k \<equiv> Text (field (fields_of v) k)"

text \<open>The two nested loops over islands and their entries, with the set \<open>seen\<close>.\<close>

fun island_turns :: "props \<Rightarrow> string list \<Rightarrow> gval list \<Rightarrow> gval list" where
  "island_turns entities known [] = []"
| "island_turns entities known (entry # rest) =
     (let key = text_field entry ''value'';
          entity = field entities key
      in if key \<in> set known then island_turns entities known rest
         else if truthy entity then entity # island_turns entities (key # known) rest
         else island_turns entities (key # known) rest)"

definition desktopTurns :: "props \<Rightarrow> gval list" where
  "desktopTurns state =
     (let history = field state ''turnHistory''
      in if Fields history = None \<or> text_field history ''kind'' \<noteq> ''canonical''
         then asArray (field state ''turns'')
         else
           let inner = fields_of (field (fields_of history) ''history'');
               islands = asArray (field inner ''islands'');
               entities = fields_of (field inner ''entitiesByKey'')
           in island_turns entities []
                (concat (map (\<lambda>island. asArray (field (fields_of island) ''entries'')) islands)))"

definition turnStatus :: "gval \<Rightarrow> string" where
  "turnStatus turn = text_field turn ''status''"

definition turnIDPointer :: "gval \<Rightarrow> string option" where
  "turnIDPointer turn = (case Fields turn of None \<Rightarrow> None | Some m \<Rightarrow> AsText (field m ''turnId''))"

subsection \<open>Status\<close>

record session_status =
  ss_ID :: string
  ss_Status :: "string option"
  ss_ActiveTurnID :: "string option"
  ss_CompletedTurnID :: "string option"
  ss_HasUnreadTurn :: bool

definition latest_turn :: "gval list \<Rightarrow> gval" where
  "latest_turn turns = (if turns = [] then GNil else last turns)"

definition active_turn :: "props \<Rightarrow> gval" where
  "active_turn state =
     (let latest = latest_turn (desktopTurns state)
      in if turnStatus latest = ''inProgress'' then
           (case Fields (field state ''threadRuntimeStatus'') of
              None \<Rightarrow> latest
            | Some runtimeStatus \<Rightarrow> if Text (field runtimeStatus ''type'') = ''active'' then latest else GNil)
         else GNil)"

definition completed_turn :: "props \<Rightarrow> gval" where
  "completed_turn state =
     (case find (\<lambda>t. turnStatus t = ''completed'') (rev (desktopTurns state)) of None \<Rightarrow> GNil | Some t \<Rightarrow> t)"

definition runtime_status :: "props \<Rightarrow> string" where
  "runtime_status state =
     (case AsText (field (fields_of (field state ''threadRuntimeStatus'')) ''type'') of
        Some s \<Rightarrow> s
      | None \<Rightarrow> if active_turn state \<noteq> GNil then ''active'' else ''idle'')"

definition DesktopStatus :: "gval \<Rightarrow> session_status" where
  "DesktopStatus v =
     (let state = fields_of v
      in \<lparr>ss_ID = identityString (field state ''id''),
          ss_Status = Some (runtime_status state),
          ss_ActiveTurnID = turnIDPointer (active_turn state),
          ss_CompletedTurnID = turnIDPointer (completed_turn state),
          ss_HasUnreadTurn = (field state ''hasUnreadTurn'' = GBool True)\<rparr>)"

subsection \<open>Settings of the runtime\<close>

text \<open>\<open>protocol.Optional[*string]\<close>: \<open>None\<close> is not known, \<open>Some None\<close> a known null.\<close>

type_synonym opt_text = "string option option"

definition runtimeEffort :: "props \<Rightarrow> opt_text" where
  "runtimeEffort state =
     (let settings = field state ''latestThreadSettings'';
          effort = field (fields_of settings) ''effort''
      in if effort \<noteq> GNil then Some (stringPointer effort)
         else case map_of state ''latestReasoningEffort'' of
           None \<Rightarrow> None
         | Some v \<Rightarrow> Some (stringPointer v))"

definition serviceTier :: "props \<Rightarrow> opt_text" where
  "serviceTier state =
     (case Fields (field state ''latestThreadSettings'') of
        None \<Rightarrow> None
      | Some settings \<Rightarrow> map_option stringPointer (map_of settings ''serviceTier''))"

subsection \<open>Accepted inputs\<close>

text \<open>The \<open>switch\<close> on the item type: the receipt of an accepted user item.\<close>

definition item_receipt :: "gval \<Rightarrow> gval \<Rightarrow> receipt option" where
  "item_receipt turn item =
     (let base = \<lparr>Kind = [], State = [], ClientID = text_field item ''clientId'',
                  TurnID = text_field turn ''turnId'', MessageID = text_field item ''id''\<rparr>;
          kind = text_field item ''type'';
          serverID = field (fields_of item) ''serverUserMessageId''
      in if kind = ''userMessage'' then Some base
         else if kind = ''steeringUserMessage'' then
           (if text_field item ''status'' \<noteq> ''accepted'' then None
            else Some (base\<lparr>ClientID := text_field item ''clientUserMessageId'',
                           MessageID := (if serverID \<noteq> GNil then Text serverID else MessageID base)\<rparr>))
         else None)"

text \<open>Every candidate in the order of the two descending loops.\<close>

definition turn_items :: "gval \<Rightarrow> gval list" where
  "turn_items turn = asArray (field (fields_of turn) ''items'')"

definition receipt_candidates :: "gval list \<Rightarrow> receipt list" where
  "receipt_candidates turns =
     concat (map (\<lambda>turn. List.map_filter (item_receipt turn) (rev (turn_items turn))) (rev turns))"

record collect_state =
  kept_receipts :: "receipt list"
  seen_receipts :: "string \<Rightarrow> receipt option"
  conflicting :: "string list"

definition collect_step :: "collect_state \<Rightarrow> receipt \<Rightarrow> collect_state" where
  "collect_step st r =
     (if \<not> Valid r then st
      else case seen_receipts st (ClientID r) of
        Some previous \<Rightarrow>
          if previous \<noteq> r then st\<lparr>conflicting := ClientID r # conflicting st\<rparr> else st
      | None \<Rightarrow>
          if length (kept_receipts st) = MaxInputReceipts then st
          else st\<lparr>seen_receipts := (seen_receipts st)(ClientID r := Some r),
                  kept_receipts := kept_receipts st @ [r]\<rparr>)"

definition desktopInputReceipts :: "gval list \<Rightarrow> receipt list" where
  "desktopInputReceipts turns =
     (let st = foldl collect_step \<lparr>kept_receipts = [], seen_receipts = (\<lambda>_. None), conflicting = []\<rparr>
                 (receipt_candidates turns)
      in rev (filter (\<lambda>r. ClientID r \<notin> set (conflicting st)) (kept_receipts st)))"

subsection \<open>Reference selection of receipts\<close>

text \<open>
  The first valid receipt of every client, in order, the newest \<open>MaxInputReceipts\<close> of them; a
  client whose valid receipts differ is left out.
\<close>

definition first_of :: "receipt list \<Rightarrow> string \<Rightarrow> receipt" where
  "first_of rs c = hd (evidence rs c)"

definition admitted :: "receipt list \<Rightarrow> string list" where
  "admitted rs = take MaxInputReceipts (clients rs)"

definition receipts_spec :: "receipt list \<Rightarrow> receipt list" where
  "receipts_spec rs =
     map (first_of rs) (filter (\<lambda>c. \<forall>r \<in> set (evidence rs c). r = first_of rs c) (admitted rs))"

definition collect_inv :: "receipt list \<Rightarrow> collect_state \<Rightarrow> bool" where
  "collect_inv rs st \<longleftrightarrow>
     kept_receipts st = map (first_of rs) (admitted rs) \<and>
     (\<forall>c. seen_receipts st c = (if c \<in> set (admitted rs) then Some (first_of rs c) else None)) \<and>
     (\<forall>c. c \<in> set (conflicting st) \<longleftrightarrow>
        c \<in> set (admitted rs) \<and> (\<exists>r \<in> set (evidence rs c). r \<noteq> first_of rs c))"

lemma first_of_snoc:
  "first_of (rs @ [r]) c =
     (if evidence rs c = [] \<and> Valid r \<and> ClientID r = c then r else first_of rs c)"
  by (simp add: first_of_def evidence_snoc)

lemma admitted_snoc:
  "admitted (rs @ [r]) =
     (if Valid r \<and> ClientID r \<notin> set (clients rs) \<and> length (admitted rs) < MaxInputReceipts
      then admitted rs @ [ClientID r] else admitted rs)"
  by (auto simp: admitted_def clients_snoc min_def)

lemma admitted_clients: "c \<in> set (admitted rs) \<Longrightarrow> evidence rs c \<noteq> []"
  using in_clients [of c rs] by (auto simp: admitted_def dest: in_set_takeD)

lemma admitted_short:
  "length (admitted rs) < MaxInputReceipts \<Longrightarrow> admitted rs = clients rs"
  by (simp add: admitted_def split: if_splits)

lemma first_of_admitted [simp]:
  "c \<in> set (admitted rs) \<Longrightarrow> first_of (rs @ [r]) c = first_of rs c"
  using admitted_clients [of c rs] by (simp add: first_of_snoc)

lemma map_first_of_admitted:
  "map (first_of (rs @ [r])) (admitted rs) = map (first_of rs) (admitted rs)"
  by simp

lemma evidence_client: "r \<in> set (evidence rs c) \<Longrightarrow> ClientID r = c"
  by (simp add: evidence_def)

lemma collect_inv_step:
  assumes inv: "collect_inv rs st"
  shows "collect_inv (rs @ [r]) (collect_step st r)"
proof (cases "Valid r")
  case False
  with inv show ?thesis
    by (auto simp: collect_inv_def collect_step_def admitted_snoc evidence_snoc first_of_snoc)
next
  case valid: True
  let ?c = "ClientID r"
  have len: "length (kept_receipts st) = length (admitted rs)" "length (admitted rs) \<le> MaxInputReceipts"
    using inv by (simp_all add: collect_inv_def admitted_def)
  consider (known) "?c \<in> set (admitted rs)" | (full) "?c \<notin> set (admitted rs)" "length (admitted rs) = MaxInputReceipts"
    | (new) "?c \<notin> set (admitted rs)" "length (admitted rs) < MaxInputReceipts"
    using len(2) by linarith
  then show ?thesis
  proof cases
    case known
    then have adm: "admitted (rs @ [r]) = admitted rs"
      using in_clients [of ?c rs] admitted_clients by (auto simp: admitted_snoc)
    have "seen_receipts st ?c = Some (first_of rs ?c)" using inv known by (simp add: collect_inv_def)
    with inv valid known show ?thesis
      by (auto simp: collect_inv_def collect_step_def adm evidence_snoc)
  next
    case full
    then have adm: "admitted (rs @ [r]) = admitted rs" by (simp add: admitted_snoc)
    have "collect_step st r = st" using inv valid full len by (simp add: collect_inv_def collect_step_def)
    with inv full show ?thesis by (auto simp: collect_inv_def adm evidence_snoc)
  next
    case new
    then have fresh: "evidence rs ?c = []" using in_clients [of ?c rs] admitted_short [OF new(2)] by simp
    then have adm: "admitted (rs @ [r]) = admitted rs @ [?c]"
      using new valid in_clients [of ?c rs] by (simp add: admitted_snoc)
    have ev: "evidence (rs @ [r]) ?c = [r]" "first_of (rs @ [r]) ?c = r"
      using fresh valid by (simp_all add: evidence_snoc first_of_snoc)
    have "collect_step st r = st\<lparr>seen_receipts := (seen_receipts st)(?c := Some r), kept_receipts := kept_receipts st @ [r]\<rparr>"
      using inv valid new len by (simp add: collect_inv_def collect_step_def)
    with inv new ev fresh show ?thesis by (auto simp: collect_inv_def adm evidence_snoc)
  qed
qed

lemma collect_inv_fold:
  "collect_inv rs (foldl collect_step \<lparr>kept_receipts = [], seen_receipts = (\<lambda>_. None), conflicting = []\<rparr> rs)"
proof (induction rs rule: rev_induct)
  case Nil
  show ?case by (simp add: collect_inv_def admitted_def clients_def)
next
  case (snoc r rs)
  then show ?case by (simp add: collect_inv_step)
qed

lemma first_of_client: "c \<in> set (admitted rs) \<Longrightarrow> ClientID (first_of rs c) = c"
  using admitted_clients [of c rs] evidence_client [of "first_of rs c" rs c] by (simp add: first_of_def)

lemma receipts_spec_collect:
  assumes "collect_inv rs st"
  shows "filter (\<lambda>r. ClientID r \<notin> set (conflicting st)) (kept_receipts st) = receipts_spec rs"
proof -
  have "filter (\<lambda>c. ClientID (first_of rs c) \<notin> set (conflicting st)) (admitted rs) =
      filter (\<lambda>c. \<forall>r \<in> set (evidence rs c). r = first_of rs c) (admitted rs)"
    using assms by (intro filter_cong) (auto simp: collect_inv_def first_of_client)
  then show ?thesis
    using assms by (simp add: collect_inv_def receipts_spec_def filter_map comp_def)
qed

lemma desktopInputReceipts_eq: "desktopInputReceipts turns = rev (receipts_spec (receipt_candidates turns))"
  using receipts_spec_collect [OF collect_inv_fold] by (simp add: desktopInputReceipts_def Let_def)

subsection \<open>Turn order\<close>

text \<open>The keys of a list in the order of their first occurrence.\<close>

fun nub :: "'a list \<Rightarrow> 'a list" where
  "nub [] = []"
| "nub (x # xs) = x # filter (\<lambda>y. y \<noteq> x) (nub xs)"

lemma filter_nub_Cons:
  "filter P (nub (x # xs)) =
     (if P x then x # filter (\<lambda>y. P y \<and> y \<noteq> x) (nub xs) else filter (\<lambda>y. P y \<and> y \<noteq> x) (nub xs))"
  by (simp add: conj_commute)

declare nub.simps(2) [simp del]

lemma island_turns_eq:
  "island_turns entities known entries =
     filter truthy (map (field entities)
       (filter (\<lambda>k. k \<notin> set known) (nub (map (\<lambda>e. text_field e ''value'') entries))))"
proof (induction entries arbitrary: known)
  case Nil
  show ?case by simp
next
  case (Cons e es)
  have "(\<lambda>y. y \<notin> set known \<and> y \<noteq> text_field e ''value'') = (\<lambda>k. k \<notin> set (text_field e ''value'' # known))"
    by auto
  with Cons show ?case
    by (auto simp: Let_def filter_nub_Cons intro!: arg_cong [where f = "filter truthy"] arg_cong [where f = "map (field entities)"]
        filter_cong)
qed

lemma find_split:
  "find P xs = Some x \<Longrightarrow> \<exists>ys zs. xs = ys @ x # zs \<and> P x \<and> (\<forall>y \<in> set ys. \<not> P y)"
  by (induction xs) (auto split: if_splits, metis append_Nil empty_iff empty_set, metis append_Cons set_ConsD)

lemma completed_turn_newest:
  assumes "completed_turn state \<noteq> GNil"
  shows "\<exists>before after. desktopTurns state = before @ completed_turn state # after \<and>
    turnStatus (completed_turn state) = ''completed'' \<and> (\<forall>t \<in> set after. turnStatus t \<noteq> ''completed'')"
proof -
  obtain t where t: "find (\<lambda>t. turnStatus t = ''completed'') (rev (desktopTurns state)) = Some t"
    "completed_turn state = t"
    using assms by (auto simp: completed_turn_def split: option.splits)
  from find_split [OF t(1)] obtain ys zs where "rev (desktopTurns state) = ys @ t # zs"
    "turnStatus t = ''completed''" "\<forall>y \<in> set ys. turnStatus y \<noteq> ''completed''" by blast
  then show ?thesis unfolding t(2) by (intro exI [of _ "rev zs"] exI [of _ "rev ys"]) (auto simp: rev_eq_append_conv)
qed

lemma turnIDPointer_GNil [simp]: "turnIDPointer GNil = None"
  by (simp add: turnIDPointer_def Fields_def)

lemma active_turn_latest:
  assumes "active_turn state \<noteq> GNil"
  shows "desktopTurns state \<noteq> [] \<and> active_turn state = last (desktopTurns state) \<and>
    turnStatus (active_turn state) = ''inProgress''"
  using assms by (auto simp: active_turn_def latest_turn_def Let_def turnStatus_def Text_def AsText_def field_def fields_of_def Fields_def
      split: if_splits option.splits)

subsection \<open>Properties\<close>

text \<open>
  The receipts of a snapshot are exactly the accepted user inputs, one per client, of the
  newest \<open>MaxInputReceipts\<close> clients in native order; a client whose accepted inputs disagree in
  any field is omitted. The visible-turn limit plays no part.
\<close>

theorem desktopInputReceipts_spec:
  "desktopInputReceipts turns = rev (receipts_spec (receipt_candidates turns)) \<and>
   length (desktopInputReceipts turns) \<le> MaxInputReceipts \<and>
   distinct (map ClientID (desktopInputReceipts turns))"
proof -
  let ?rs = "receipt_candidates turns"
  let ?cs = "filter (\<lambda>c. \<forall>r \<in> set (evidence ?rs c). r = first_of ?rs c) (admitted ?rs)"
  have "map ClientID (receipts_spec ?rs) = ?cs"
    unfolding receipts_spec_def map_map by (rule map_idI) (simp add: first_of_client)
  moreover have "distinct ?cs" by (simp add: admitted_def clients_def)
  moreover have "length ?cs \<le> length (admitted ?rs)" by (rule length_filter_le)
  then have "length (receipts_spec ?rs) \<le> MaxInputReceipts"
    by (simp add: receipts_spec_def admitted_def)
  ultimately show ?thesis by (simp add: desktopInputReceipts_eq rev_map [symmetric])
qed

text \<open>
  In a canonical history the turns are the truthy entities in the order in which their keys
  first occur on the islands, each once, however often islands repeat a key.
\<close>

theorem desktopTurns_canonical:
  assumes "text_field (field state ''turnHistory'') ''kind'' = ''canonical''"
  shows "desktopTurns state =
    (let inner = fields_of (field (fields_of (field state ''turnHistory'')) ''history'')
     in filter truthy (map (field (fields_of (field inner ''entitiesByKey'')))
          (nub (map (\<lambda>e. text_field e ''value'')
            (concat (map (\<lambda>i. asArray (field (fields_of i) ''entries'')) (asArray (field inner ''islands'')))))))) "
proof -
  have "Fields (field state ''turnHistory'') \<noteq> None"
    using assms by (auto simp: fields_of_def field_def Text_def AsText_def split: option.splits)
  with assms show ?thesis by (auto simp: desktopTurns_def Let_def island_turns_eq)
qed

theorem desktopTurns_canonical_witness:
  "desktopTurns [(''turnHistory'', GObj [(''kind'', GStr ''canonical''), (''history'', GObj
      [(''islands'', GArr [GObj [(''entries'', GArr [GObj [(''value'', GStr ''b'')], GObj [(''value'', GStr ''a'')]])],
                           GObj [(''entries'', GArr [GObj [(''value'', GStr ''b'')]])]]),
       (''entitiesByKey'', GObj [(''a'', GBool True), (''b'', GStr ''t'')])])])] = [GStr ''t'', GBool True]"
  by (subst desktopTurns_canonical) (simp_all add: Let_def field_def fields_of_def Fields_def Text_def AsText_def
      asArray_def nub.simps truthy_def)

text \<open>
  A turn reported active is the newest turn of the snapshot and in progress, so an old
  unfinished turn never becomes active again once a newer turn exists; and the completed turn
  reported beside it is the newest completed one, strictly older than the active turn.
\<close>

theorem DesktopStatus_active:
  assumes "ss_ActiveTurnID (DesktopStatus v) = Some t"
    and "ss_CompletedTurnID (DesktopStatus v) = Some c"
  shows "\<exists>before done between live. desktopTurns (fields_of v) = before @ done # between @ [live] \<and>
    turnStatus live = ''inProgress'' \<and> turnIDPointer live = Some t \<and>
    turnStatus done = ''completed'' \<and> turnIDPointer done = Some c \<and>
    (\<forall>x \<in> set between. turnStatus x \<noteq> ''completed'')"
proof -
  let ?s = "fields_of v"
  have act: "turnIDPointer (active_turn ?s) = Some t" "active_turn ?s \<noteq> GNil"
    and comp: "turnIDPointer (completed_turn ?s) = Some c" "completed_turn ?s \<noteq> GNil"
    using assms by (auto simp: DesktopStatus_def Let_def)
  note live = active_turn_latest [OF act(2)]
  from completed_turn_newest [OF comp(2)] obtain before after where
    sp: "desktopTurns ?s = before @ completed_turn ?s # after" "turnStatus (completed_turn ?s) = ''completed''"
    "\<forall>x \<in> set after. turnStatus x \<noteq> ''completed''" by blast
  have "after \<noteq> []" using live sp(1,2) by auto
  then have "after = butlast after @ [active_turn ?s]" using live sp(1) by simp
  with sp live act(1) comp(1) show ?thesis
    by (metis in_set_butlastD)
qed

theorem DesktopStatus_active_witness:
  "let v = GObj [(''turns'', GArr [GObj [(''turnId'', GStr ''a''), (''status'', GStr ''completed'')],
                                    GObj [(''turnId'', GStr ''b''), (''status'', GStr ''inProgress'')]])]
   in ss_ActiveTurnID (DesktopStatus v) = Some ''b'' \<and> ss_CompletedTurnID (DesktopStatus v) = Some ''a'' \<and>
      turnIDPointer (last (desktopTurns (fields_of v))) = Some ''b''"
proof -
  let ?v = "GObj [(''turns'', GArr [GObj [(''turnId'', GStr ''a''), (''status'', GStr ''completed'')],
                                    GObj [(''turnId'', GStr ''b''), (''status'', GStr ''inProgress'')]])]"
  have "ss_ActiveTurnID (DesktopStatus ?v) = Some ''b''" "ss_CompletedTurnID (DesktopStatus ?v) = Some ''a''"
    by (simp_all add: DesktopStatus_def Let_def active_turn_def completed_turn_def latest_turn_def desktopTurns_def
        field_def fields_of_def Fields_def asArray_def turnStatus_def turnIDPointer_def Text_def AsText_def)
  from DesktopStatus_active [OF this] this show ?thesis by (auto simp: Let_def)
qed

end
