(* ===== verification/DesktopPatch.thy ===== *)
theory DesktopPatch
  imports JsText
begin

text \<open>
  Copy-on-write patches on native snapshots (\<open>internal/codex/desktoppatch.go\<close> and
  \<open>arraylength.go\<close>). Patches are decoded JSON values; the path position \<open>depth\<close> of the code is
  the remaining path here, and the shared \<open>spent\<close> counter is passed through.
\<close>

datatype perr =
    PInvalidPatches | PUnsupported | PIdentity | PRemoveRoot | PMissingPath | PMissingTarget
  | PMissingParent | PIndex | PArrayPatch | PRemoveLength | PArrayLength | PAllocation

subsection \<open>Array lengths\<close>

fun lengthPrimitive :: "nat \<Rightarrow> gval \<Rightarrow> string option" where
  "lengthPrimitive d v =
     (if 100 < d then None
      else case AsText v of
        Some s \<Rightarrow> Some s
      | None \<Rightarrow>
          (case v of
             GArr [] \<Rightarrow> Some []
           | GArr [x] \<Rightarrow>
               (case x of
                  GNil \<Rightarrow> Some []
                | GNum n \<Rightarrow> Some (jsNumberString n)
                | _ \<Rightarrow> lengthPrimitive (Suc d) x)
           | _ \<Rightarrow> None))"

declare lengthPrimitive.simps [simp del]

text \<open>The regular expression \<open>decimalLength\<close> and the number it denotes.\<close>

definition strip_sign :: "string \<Rightarrow> string" where
  "strip_sign s = (if s \<noteq> [] \<and> (hd s = CHR ''+'' \<or> hd s = CHR ''-'') then tl s else s)"

definition decimalLength :: "string \<Rightarrow> bool" where
  "decimalLength s =
     (let s1 = strip_sign s; r1 = dropWhile is_digit s1; dot = (r1 \<noteq> [] \<and> hd r1 = CHR ''.'')
      in if takeWhile is_digit s1 \<noteq> []
         then valid_exp (if dot then dropWhile is_digit (tl r1) else r1)
         else dot \<and> takeWhile is_digit (tl r1) \<noteq> [] \<and> valid_exp (dropWhile is_digit (tl r1)))"

definition radix_digit :: "nat \<Rightarrow> char \<Rightarrow> nat option" where
  "radix_digit base c = (case hex_digit c of Some d \<Rightarrow> if d < base then Some d else None | None \<Rightarrow> None)"

text \<open>\<open>strconv.ParseUint(s, base, 32)\<close> for the bases 2, 8 and 16.\<close>

definition ParseUintBase :: "nat \<Rightarrow> string \<Rightarrow> nat option" where
  "ParseUintBase base s =
     (if s = [] \<or> \<not> list_all (\<lambda>c. radix_digit base c \<noteq> None) s then None
      else let n = foldl (\<lambda>n c. base * n + the (radix_digit base c)) 0 s
           in if n < 2 ^ 32 then Some n else None)"

definition length_number :: "gval \<Rightarrow> float64 option" where
  "length_number v =
     (case v of
        GNil \<Rightarrow> Some (Fin 0)
      | GBool b \<Rightarrow> Some (Fin (if b then 1 else 0))
      | GNum n \<Rightarrow> Some n
      | _ \<Rightarrow>
          (case lengthPrimitive 0 v of
             None \<Rightarrow> None
           | Some raw \<Rightarrow>
               let s = trimJSWhitespace raw
               in if s = [] then Some (Fin 0)
                  else if 2 < length s \<and> s ! 0 = CHR ''0'' \<and> s ! 1 \<in> set ''xXoObB'' then
                    map_option (\<lambda>n. Fin (of_nat n))
                      (ParseUintBase (if s ! 1 = CHR ''o'' \<or> s ! 1 = CHR ''O'' then 8
                                      else if s ! 1 = CHR ''b'' \<or> s ! 1 = CHR ''B'' then 2 else 16) (drop 2 s))
                  else if \<not> decimalLength s then None
                  else (case round_f64 ((if hd s = CHR ''-'' then - 1 else 1) * decimal_value (strip_sign s)) of
                          Fin x \<Rightarrow> Some (Fin x) | _ \<Rightarrow> None)))"

definition arrayLength :: "gval \<Rightarrow> bool \<Rightarrow> perr + nat" where
  "arrayLength v present =
     (if \<not> present then Inl PArrayLength
      else case length_number v of
        None \<Rightarrow> Inl PArrayLength
      | Some number \<Rightarrow>
          (case number of
             Fin x \<Rightarrow>
               if \<not> jsSafeInteger number \<or> x < 0 \<or> 2 ^ 32 - 1 < x then Inl PArrayLength
               else if of_nat (MaxRetainedBytes div 16) < x then Inl PAllocation
               else Inr (nat \<lfloor>x\<rfloor>)
           | _ \<Rightarrow> Inl PArrayLength))"

subsection \<open>Array indices\<close>

text \<open>\<open>strconv.Atoi\<close> in the 64 bit range.\<close>

definition Atoi :: "string \<Rightarrow> int option" where
  "Atoi s =
     (let ds = strip_sign s; n = int (digits_value ds);
          v = (if s \<noteq> [] \<and> hd s = CHR ''-'' then - n else n)
      in if ds \<noteq> [] \<and> list_all is_digit ds \<and> - (2 ^ 63) \<le> v \<and> v < 2 ^ 63 then Some v else None)"

definition jsonArrayIndex :: "gval \<Rightarrow> nat \<Rightarrow> nat option" where
  "jsonArrayIndex key len =
     (case key of
        GNum (Fin x) \<Rightarrow>
          if jsSafeInteger (Fin x) \<and> 0 \<le> x \<and> x < of_nat len then Some (nat \<lfloor>x\<rfloor>) else None
      | GNum _ \<Rightarrow> None
      | _ \<Rightarrow>
          (case AsText key of
             Some s \<Rightarrow>
               (case Atoi s of
                  Some i \<Rightarrow> if 0 \<le> i \<and> i < int len \<and> FormatInt i = s then Some (nat i) else None
                | None \<Rightarrow> None)
           | None \<Rightarrow> None))"

subsection \<open>Applying one patch\<close>

record patch =
  op :: string
  pvalue :: gval
  present :: bool

definition pcharge :: "nat \<Rightarrow> nat \<Rightarrow> nat \<Rightarrow> perr + nat" where
  "pcharge elements bytesEach spent =
     (if (MaxRetainedBytes - spent) div bytesEach < elements then Inl PAllocation
      else Inr (spent + elements * bytesEach))"

definition list_insert :: "nat \<Rightarrow> 'a \<Rightarrow> 'a list \<Rightarrow> 'a list" where
  "list_insert i x xs = take i xs @ x # drop i xs"

definition list_remove :: "nat \<Rightarrow> 'a list \<Rightarrow> 'a list" where
  "list_remove i xs = take i xs @ drop (Suc i) xs"

text \<open>The last path component on an array: an index or \<open>length\<close>.\<close>

definition apply_array_last :: "patch \<Rightarrow> gval \<Rightarrow> gval list \<Rightarrow> nat \<Rightarrow> perr + (nat \<times> gval)" where
  "apply_array_last p key arr spent =
     (case key of
        GNum number \<Rightarrow>
          (case number of
             Fin x \<Rightarrow>
               if \<not> jsSafeInteger number \<or> x < 0 \<or> of_nat (length arr) < x \<or>
                  op p \<noteq> ''add'' \<and> x = of_nat (length arr)
               then Inl PIndex
               else bindr (pcharge (length arr + 1) 16 spent) (\<lambda>spent.
                 let i = nat \<lfloor>x\<rfloor>
                 in Inr (spent, GArr (if op p = ''add'' then list_insert i (pvalue p) arr
                                      else if op p = ''remove'' then list_remove i arr
                                      else arr[i := pvalue p])))
           | _ \<Rightarrow> Inl PIndex)
      | _ \<Rightarrow>
          if AsText key \<noteq> Some ''length'' then Inl PArrayPatch
          else if op p = ''remove'' then Inl PRemoveLength
          else bindr (arrayLength (pvalue p) (present p)) (\<lambda>len.
               bindr (pcharge len 16 spent) (\<lambda>spent.
                 Inr (spent, GArr (take len arr @ replicate (len - length arr) GNil)))))"

fun patch_apply :: "patch \<Rightarrow> gval list \<Rightarrow> nat \<Rightarrow> gval \<Rightarrow> perr + (nat \<times> gval)" where
  "patch_apply p [] spent node = (if op p = ''remove'' then Inl PRemoveRoot else Inr (spent, pvalue p))"
| "patch_apply p (key # rest) spent node =
     (let name = jsCoalesce key ''null''
      in case Fields node of
        Some flds \<Rightarrow>
          bindr (pcharge (length flds + 1) 48 spent) (\<lambda>spent.
            if rest \<noteq> [] then
              (case map_of flds name of
                 None \<Rightarrow> Inl PMissingPath
               | Some old \<Rightarrow>
                   bindr (patch_apply p rest spent old) (\<lambda>(spent, updated).
                     Inr (spent, CopyProperty node name updated False)))
            else if op p \<noteq> ''add'' \<and> map_of flds name = None then Inl PMissingTarget
            else Inr (spent, CopyProperty node name (pvalue p) (op p = ''remove'')))
      | None \<Rightarrow>
          (case node of
             GArr arr \<Rightarrow>
               if rest \<noteq> [] then
                 (case jsonArrayIndex key (length arr) of
                    Some i \<Rightarrow>
                      bindr (pcharge (length arr) 16 spent) (\<lambda>spent.
                      bindr (patch_apply p rest spent (arr ! i)) (\<lambda>(spent, updated).
                        Inr (spent, GArr (arr[i := updated]))))
                  | None \<Rightarrow> Inl (if name = ''length'' then PMissingParent else PMissingPath))
               else apply_array_last p key arr spent
           | _ \<Rightarrow> Inl PMissingParent))"

subsection \<open>Applying a batch\<close>

definition forbiddenPatchKeys :: "string list" where
  "forbiddenPatchKeys = [''__proto__'', ''prototype'', ''constructor'']"

definition patch_step :: "nat \<times> gval \<Rightarrow> gval \<Rightarrow> perr + (nat \<times> gval)" where
  "patch_step st v =
     (let flds = fields_of v; opn = Text (field flds ''op'')
      in case field flds ''path'' of
        GArr path \<Rightarrow>
          if Fields v = None \<or> opn \<notin> {''add'', ''replace'', ''remove''} \<or> 100 < length path \<or>
             (\<exists>key \<in> set path. jsCoalesce key ''null'' \<in> set forbiddenPatchKeys)
          then Inl PUnsupported
          else patch_apply \<lparr>op = opn, pvalue = field flds ''value'', present = (map_of flds ''value'' \<noteq> None)\<rparr>
                 path (fst st) (snd st)
      | _ \<Rightarrow> Inl PUnsupported)"

fun patch_batch :: "gval list \<Rightarrow> nat \<times> gval \<Rightarrow> perr + (nat \<times> gval)" where
  "patch_batch [] st = Inr st"
| "patch_batch (v # vs) st = bindr (patch_step st v) (patch_batch vs)"

definition same_identity :: "gval \<Rightarrow> gval \<Rightarrow> bool" where
  "same_identity before after \<longleftrightarrow>
     Fields after \<noteq> None \<and>
     AsText (field (fields_of before) ''id'') \<noteq> None \<and>
     AsText (field (fields_of after) ''id'') = AsText (field (fields_of before) ''id'') \<and>
     Text (field (fields_of after) ''hostId'') = ''local''"

definition ApplyDesktopPatches :: "gval \<Rightarrow> gval \<Rightarrow> perr + gval" where
  "ApplyDesktopPatches state patches =
     (case patches of
        GArr ps \<Rightarrow>
          if 10000 < length ps then Inl PInvalidPatches
          else bindr (patch_batch ps (0, state)) (\<lambda>(spent, result).
                 guardr (same_identity state result) PIdentity (Inr result))
      | _ \<Rightarrow> Inl PInvalidPatches)"

subsection \<open>Inversion of successful patches\<close>

lemma jsonArrayIndex_less: "jsonArrayIndex key n = Some i \<Longrightarrow> i < n"
proof -
  have "nat \<lfloor>x\<rfloor> < n" if "jsSafeInteger (Fin x)" "0 \<le> x" "x < of_nat n" for x :: rat
    using jsSafeIntegerD [OF that(1)] that(2,3) by (metis float64.inject floor_of_int nat_less_iff of_int_0_le_iff of_int_less_iff of_int_of_nat_eq)
  then show "jsonArrayIndex key n = Some i \<Longrightarrow> i < n"
    by (auto simp: jsonArrayIndex_def split: gval.splits float64.splits if_splits option.splits)
qed

lemma patch_apply_ConsE:
  assumes "patch_apply p (key # rest) spent node = Inr (s, node')"
  obtains
    (inner_field) flds s1 old u where "Fields node = Some flds" "pcharge (length flds + 1) 48 spent = Inr s1"
      "rest \<noteq> []" "map_of flds (jsCoalesce key ''null'') = Some old" "patch_apply p rest s1 old = Inr (s, u)"
      "node' = CopyProperty node (jsCoalesce key ''null'') u False"
  | (last_field) flds where "Fields node = Some flds" "pcharge (length flds + 1) 48 spent = Inr s" "rest = []"
      "op p = ''add'' \<or> map_of flds (jsCoalesce key ''null'') \<noteq> None"
      "node' = CopyProperty node (jsCoalesce key ''null'') (pvalue p) (op p = ''remove'')"
  | (inner_elem) arr i s1 u where "node = GArr arr" "rest \<noteq> []" "jsonArrayIndex key (length arr) = Some i"
      "pcharge (length arr) 16 spent = Inr s1" "patch_apply p rest s1 (arr ! i) = Inr (s, u)"
      "node' = GArr (arr[i := u])"
  | (last_elem) arr where "node = GArr arr" "rest = []" "apply_array_last p key arr spent = Inr (s, node')"
proof (cases "Fields node")
  case (Some flds)
  then obtain s1 where ch: "pcharge (length flds + 1) 48 spent = Inr s1"
    using assms by (auto simp: Let_def)
  show ?thesis
  proof (cases "rest = []")
    case True
    with assms Some ch show ?thesis
      by (intro last_field [of flds]) (auto simp: Let_def split: if_splits)
  next
    case False
    with assms Some ch obtain old u where "map_of flds (jsCoalesce key ''null'') = Some old"
      "patch_apply p rest s1 old = Inr (s, u)" "node' = CopyProperty node (jsCoalesce key ''null'') u False"
      by (auto simp: Let_def split: option.splits)
    with Some ch False show ?thesis by (rule inner_field)
  qed
next
  case None
  with assms obtain arr where arr: "node = GArr arr"
    by (auto simp: Let_def split: gval.splits)
  show ?thesis
  proof (cases "rest = []")
    case True
    with assms None arr show ?thesis by (intro last_elem [of arr]) (auto simp: Let_def)
  next
    case False
    with assms None arr show ?thesis
      by (auto simp: Let_def split: option.splits intro: inner_elem)
  qed
qed

lemma apply_array_lastE:
  assumes "apply_array_last p key arr spent = Inr (s, node')"
  obtains
    (index) x where "key = GNum (Fin x)" "jsSafeInteger (Fin x)" "0 \<le> x" "x \<le> of_nat (length arr)"
      "op p = ''add'' \<or> x < of_nat (length arr)" "pcharge (length arr + 1) 16 spent = Inr s"
      "node' = GArr (if op p = ''add'' then list_insert (nat \<lfloor>x\<rfloor>) (pvalue p) arr
                     else if op p = ''remove'' then list_remove (nat \<lfloor>x\<rfloor>) arr
                     else arr[nat \<lfloor>x\<rfloor> := pvalue p])"
  | (len) n where "AsText key = Some ''length''" "op p \<noteq> ''remove''" "arrayLength (pvalue p) (present p) = Inr n"
      "pcharge n 16 spent = Inr s" "node' = GArr (take n arr @ replicate (n - length arr) GNil)"
proof (cases "\<exists>m. key = GNum m")
  case True
  then obtain x where x: "key = GNum (Fin x)"
    using assms by (auto simp: apply_array_last_def split: float64.splits)
  with assms show ?thesis
    by (intro index [of x]) (auto simp: apply_array_last_def Let_def split: if_splits)
next
  case False
  then have "apply_array_last p key arr spent =
      (if AsText key \<noteq> Some ''length'' then Inl PArrayPatch
       else if op p = ''remove'' then Inl PRemoveLength
       else bindr (arrayLength (pvalue p) (present p)) (\<lambda>len. bindr (pcharge len 16 spent) (\<lambda>spent.
              Inr (spent, GArr (take len arr @ replicate (len - length arr) GNil)))))"
    by (cases key) (simp_all add: apply_array_last_def)
  with assms show ?thesis by (auto split: if_splits intro: len)
qed

subsection \<open>Allocation\<close>

lemma pcharge_bound:
  assumes "pcharge e b spent = Inr s" "spent \<le> MaxRetainedBytes"
  shows "s \<le> MaxRetainedBytes"
proof -
  have "e \<le> (MaxRetainedBytes - spent) div b" "s = spent + e * b"
    using assms(1) by (auto simp: pcharge_def split: if_splits)
  moreover have "(MaxRetainedBytes - spent) div b * b \<le> MaxRetainedBytes - spent" by simp
  ultimately show ?thesis
    using assms(2) mult_le_mono1 [of e "(MaxRetainedBytes - spent) div b" b] by linarith
qed

lemma patch_apply_bound:
  "patch_apply p path spent node = Inr (s, node') \<Longrightarrow> spent \<le> MaxRetainedBytes \<Longrightarrow> s \<le> MaxRetainedBytes"
proof (induction path arbitrary: spent node s node')
  case Nil
  then show ?case by (simp split: if_splits)
next
  case (Cons key rest)
  from Cons.prems(1) show ?case
  proof (cases rule: patch_apply_ConsE)
    case (last_elem arr)
    from last_elem(3) show ?thesis
      by (cases rule: apply_array_lastE) (use Cons.prems(2) pcharge_bound in blast)+
  qed (use Cons pcharge_bound in blast)+
qed

lemma patch_step_apply:
  assumes "patch_step (spent, node) v = Inr (s, node')"
  obtains flds path opn where "Fields v = Some flds" "field flds ''path'' = GArr path" "length path \<le> 100"
    "opn = Text (field flds ''op'')" "opn \<in> {''add'', ''replace'', ''remove''}"
    "\<forall>key \<in> set path. jsCoalesce key ''null'' \<notin> set forbiddenPatchKeys"
    "patch_apply \<lparr>op = opn, pvalue = field flds ''value'', present = (map_of flds ''value'' \<noteq> None)\<rparr>
       path spent node = Inr (s, node')"
proof -
  from assms obtain path where "field (fields_of v) ''path'' = GArr path"
    by (auto simp: patch_step_def Let_def split: gval.splits)
  moreover from this obtain flds where "Fields v = Some flds"
    using assms by (auto simp: patch_step_def Let_def split: if_splits)
  ultimately show thesis using assms
    by (intro that [of flds path "Text (field flds ''op'')"])
      (auto simp: patch_step_def Let_def fields_of_def not_less split: if_splits simp del: jsCoalesce.simps)
qed

lemma patch_batch_bound:
  "patch_batch vs (spent, node) = Inr (s, node') \<Longrightarrow> spent \<le> MaxRetainedBytes \<Longrightarrow> s \<le> MaxRetainedBytes"
proof (induction vs arbitrary: spent node)
  case (Cons v vs)
  then obtain s1 n1 where st: "patch_step (spent, node) v = Inr (s1, n1)" "patch_batch vs (s1, n1) = Inr (s, node')"
    by auto
  from st(1) Cons.prems(2) have "s1 \<le> MaxRetainedBytes"
    by (elim patch_step_apply patch_apply_bound)
  with st(2) Cons.IH show ?case by blast
qed simp

subsection \<open>Well-formedness\<close>

lemma wf_map_of: "wf_gval (GObj ps) \<Longrightarrow> map_of ps k = Some v \<Longrightarrow> wf_gval v"
  by (auto dest: map_of_SomeD)

lemma wf_Fields: "Fields node = Some flds \<Longrightarrow> wf_gval node \<Longrightarrow> wf_gval (GObj flds)"
  by (auto simp: Fields_eq)

lemma wf_field: "wf_gval (GObj ps) \<Longrightarrow> wf_gval (field ps k)"
  by (auto simp: field_def dest: map_of_SomeD split: option.splits)

lemma wf_arr_update: "wf_gval (GArr arr) \<Longrightarrow> wf_gval v \<Longrightarrow> wf_gval (GArr (arr[i := v]))"
  using set_update_subset_insert [of arr i v] by auto

lemma wf_apply_array_last:
  assumes "apply_array_last p key arr spent = Inr (s, node')" "wf_gval (GArr arr)" "wf_gval (pvalue p)"
  shows "wf_gval node'"
proof -
  have "wf_gval (GArr (list_insert i (pvalue p) arr))" "wf_gval (GArr (list_remove i arr))"
    "wf_gval (GArr (arr[i := pvalue p]))" "wf_gval (GArr (take n arr @ replicate k GNil))" for i n k
    using assms(2,3) wf_arr_update [OF assms(2,3)]
    by (auto simp: list_insert_def list_remove_def dest: in_set_takeD in_set_dropD)
  then show ?thesis using assms(1) by (auto elim!: apply_array_lastE simp del: wf_gval.simps)
qed

lemma patch_apply_wf:
  "patch_apply p path spent node = Inr (s, node') \<Longrightarrow> wf_gval node \<Longrightarrow> wf_gval (pvalue p) \<Longrightarrow> wf_gval node'"
proof (induction path arbitrary: spent node s node')
  case Nil
  then show ?case by (simp split: if_splits)
next
  case (Cons key rest)
  from Cons.prems(1) show ?case
  proof (cases rule: patch_apply_ConsE)
    case (inner_field flds s1 old u)
    with Cons show ?thesis by (auto intro!: wf_CopyProperty dest!: wf_Fields wf_map_of)
  next
    case (last_field flds)
    with Cons show ?thesis by (auto intro!: wf_CopyProperty)
  next
    case (inner_elem arr i s1 u)
    then have "wf_gval (arr ! i)" using Cons.prems(2) jsonArrayIndex_less by simp
    with inner_elem Cons have "wf_gval u" by blast
    with inner_elem(1,6) Cons.prems(2) show ?thesis by (simp add: wf_arr_update del: wf_gval.simps)
  next
    case (last_elem arr)
    with Cons.prems show ?thesis by (auto elim: wf_apply_array_last simp del: wf_gval.simps)
  qed
qed

lemma patch_batch_wf:
  "patch_batch vs (spent, node) = Inr (s, node') \<Longrightarrow> wf_gval node \<Longrightarrow> wf_gval (GArr vs) \<Longrightarrow> wf_gval node'"
proof (induction vs arbitrary: spent node)
  case (Cons v vs)
  then obtain s1 n1 where st: "patch_step (spent, node) v = Inr (s1, n1)" "patch_batch vs (s1, n1) = Inr (s, node')"
    by auto
  from st(1) obtain flds path opn where "Fields v = Some flds" and ap:
    "patch_apply \<lparr>op = opn, pvalue = field flds ''value'', present = (map_of flds ''value'' \<noteq> None)\<rparr>
       path spent node = Inr (s1, n1)"
    by (rule patch_step_apply)
  then have "wf_gval (field flds ''value'')" using Cons.prems(3) by (simp add: wf_field wf_Fields del: wf_gval.simps(2))
  with ap Cons.prems(2) have "wf_gval n1" by (auto elim: patch_apply_wf)
  with st(2) Cons show ?case by simp
qed simp

subsection \<open>Reading back\<close>

text \<open>
  The specification side: where a path leads, and when two paths part. A path component selects
  a field by its JavaScript name or an element by its index.
\<close>

definition slot :: "gval \<Rightarrow> gval \<Rightarrow> (string + nat) option" where
  "slot node key =
     (case node of
        GObj ps \<Rightarrow> Some (Inl (jsCoalesce key ''null''))
      | GMap ps \<Rightarrow> Some (Inl (jsCoalesce key ''null''))
      | GArr arr \<Rightarrow> map_option Inr (jsonArrayIndex key (length arr))
      | _ \<Rightarrow> None)"

definition child :: "gval \<Rightarrow> gval \<Rightarrow> gval option" where
  "child node key =
     (case slot node key of
        None \<Rightarrow> None
      | Some (Inl name) \<Rightarrow> map_of (fields_of node) name
      | Some (Inr i) \<Rightarrow> (case node of GArr arr \<Rightarrow> Some (arr ! i) | _ \<Rightarrow> None))"

fun get_path :: "gval \<Rightarrow> gval list \<Rightarrow> gval option" where
  "get_path node [] = Some node"
| "get_path node (k # ks) = (case child node k of None \<Rightarrow> None | Some c \<Rightarrow> get_path c ks)"

fun diverges :: "gval \<Rightarrow> gval list \<Rightarrow> gval list \<Rightarrow> bool" where
  "diverges node (k # ks) (j # js) =
     (slot node k \<noteq> None \<and> slot node j \<noteq> None \<and>
      (slot node k \<noteq> slot node j \<or>
       (case child node k of Some c \<Rightarrow> diverges c ks js | None \<Rightarrow> False)))"
| "diverges node _ _ = False"

lemma child_field: "Fields node = Some flds \<Longrightarrow> child node key = map_of flds (jsCoalesce key ''null'')"
  by (auto simp: Fields_eq child_def slot_def)

lemma child_copy:
  "Fields node = Some flds \<Longrightarrow>
   child (CopyProperty node name v rm) key =
     (if jsCoalesce key ''null'' = name then (if rm then None else Some v) else child node key)"
  by (auto simp: Fields_eq CopyProperty_def child_def slot_def map_of_copy_props)

lemma slot_copy: "Fields node = Some flds \<Longrightarrow> slot (CopyProperty node name v rm) key = slot node key"
  by (auto simp: Fields_eq CopyProperty_def slot_def)

lemma child_elem: "child (GArr arr) key = map_option (\<lambda>i. arr ! i) (jsonArrayIndex key (length arr))"
  by (auto simp: child_def slot_def split: option.splits)

lemma jsonArrayIndex_num:
  assumes "jsSafeInteger (Fin x)" "0 \<le> x"
  shows "jsonArrayIndex (GNum (Fin x)) n = (if x < of_nat n then Some (nat \<lfloor>x\<rfloor>) else None)"
    and "x < of_nat n \<longleftrightarrow> nat \<lfloor>x\<rfloor> < n" and "x \<le> of_nat n \<longleftrightarrow> nat \<lfloor>x\<rfloor> \<le> n"
proof -
  obtain k where k: "x = of_int k" using jsSafeIntegerD [OF assms(1)] by auto
  with assms(2) obtain m where m: "k = int m" using nonneg_int_cases of_int_0_le_iff by metis
  show "jsonArrayIndex (GNum (Fin x)) n = (if x < of_nat n then Some (nat \<lfloor>x\<rfloor>) else None)"
    using assms by (simp add: jsonArrayIndex_def)
  show "x < of_nat n \<longleftrightarrow> nat \<lfloor>x\<rfloor> < n" "x \<le> of_nat n \<longleftrightarrow> nat \<lfloor>x\<rfloor> \<le> n" by (simp_all add: k m)
qed

lemma last_elem_readback:
  assumes "apply_array_last p key arr spent = Inr (s, node')" "op p \<noteq> ''remove''"
  shows "child node' key = Some (pvalue p) \<or> AsText key = Some ''length''"
  using assms(1)
proof (cases rule: apply_array_lastE)
  case (index x)
  note num = jsonArrayIndex_num [OF index(2,3)]
  from index num assms(2) show ?thesis
    by (auto simp: child_elem list_insert_def nth_append min_def)
qed simp

lemma patch_apply_readback:
  "patch_apply p path spent node = Inr (s, node') \<Longrightarrow> op p \<noteq> ''remove'' \<Longrightarrow>
   get_path node' path = Some (pvalue p) \<or> path \<noteq> [] \<and> AsText (last path) = Some ''length''"
proof (induction path arbitrary: spent node s node')
  case Nil
  then show ?case by simp
next
  case (Cons key rest)
  from Cons.prems(1) show ?case
  proof (cases rule: patch_apply_ConsE)
    case (inner_field flds s1 old u)
    with Cons show ?thesis by (auto simp: child_copy)
  next
    case (last_field flds)
    with Cons.prems(2) show ?thesis by (simp add: child_copy)
  next
    case (inner_elem arr i s1 u)
    then have "child node' key = Some u" using jsonArrayIndex_less [of key "length arr" i] by (simp add: child_elem)
    with inner_elem Cons show ?thesis by auto
  next
    case (last_elem arr)
    with last_elem_readback [OF last_elem(3) Cons.prems(2)] show ?thesis by auto
  qed
qed

lemma elem_update_frame:
  assumes "jsonArrayIndex key (length arr) = Some i"
  shows "child (GArr (arr[i := u])) j =
    (if jsonArrayIndex j (length arr) = Some i then Some u else child (GArr arr) j)"
  using jsonArrayIndex_less [OF assms] by (cases "jsonArrayIndex j (length arr)") (auto simp: child_elem)

lemma patch_apply_frame:
  "patch_apply p path spent node = Inr (s, node') \<Longrightarrow> op p = ''replace'' \<Longrightarrow> diverges node path q \<Longrightarrow>
   get_path node' q = get_path node q"
proof (induction path arbitrary: spent node s node' q)
  case Nil
  then show ?case by simp
next
  case (Cons key rest)
  from Cons.prems(3) obtain j js where q: "q = j # js" by (cases q) auto
  from Cons.prems(1) show ?case
  proof (cases rule: patch_apply_ConsE)
    case (inner_field flds s1 old u)
    show ?thesis
    proof (cases "jsCoalesce j ''null'' = jsCoalesce key ''null''")
      case True
      then have "diverges old rest js"
        using Cons.prems(3) inner_field(1,4) by (auto simp: q child_field slot_def Fields_eq split: gval.splits)
      from Cons.IH [OF inner_field(5) Cons.prems(2) this] True inner_field show ?thesis
        by (simp add: q child_copy child_field)
    next
      case False
      with inner_field show ?thesis by (simp add: q child_copy)
    qed
  next
    case (last_field flds)
    then have "jsCoalesce j ''null'' \<noteq> jsCoalesce key ''null''"
      using Cons.prems(3) by (auto simp: q slot_def Fields_eq split: option.splits)
    with last_field show ?thesis by (simp add: q child_copy)
  next
    case (inner_elem arr i s1 u)
    show ?thesis
    proof (cases "jsonArrayIndex j (length arr) = Some i")
      case True
      with Cons.prems(3) inner_elem have "diverges (arr ! i) rest js" by (simp add: q child_elem slot_def)
      from Cons.IH [OF inner_elem(5) Cons.prems(2) this] True inner_elem jsonArrayIndex_less [OF True]
      show ?thesis by (simp add: q child_elem)
    next
      case False
      with inner_elem show ?thesis by (simp add: q elem_update_frame [OF inner_elem(3)])
    qed
  next
    case (last_elem arr)
    from last_elem(3) show ?thesis
    proof (cases rule: apply_array_lastE)
      case (index x)
      have i: "jsonArrayIndex key (length arr) = Some (nat \<lfloor>x\<rfloor>)"
        using index Cons.prems(2) jsonArrayIndex_num [OF index(2,3)] by auto
      have "jsonArrayIndex j (length arr) \<noteq> Some (nat \<lfloor>x\<rfloor>)"
        using Cons.prems(3) last_elem(1,2) i by (auto simp: q slot_def split: option.splits)
      with index Cons.prems(2) last_elem(1) show ?thesis by (simp add: q elem_update_frame [OF i])
    next
      case (len n)
      then have "jsonArrayIndex key (length arr) = None"
        by (auto simp: jsonArrayIndex_def AsText_def Atoi_def strip_sign_def is_digit_def Let_def
            split: gval.splits)
      with Cons.prems(3) last_elem(1) show ?thesis by (simp add: q slot_def)
    qed
  qed
qed

subsection \<open>Properties\<close>

text \<open>
  C5. A batch that applies keeps the identity of the snapshot: the result is an object whose
  \<open>id\<close> is the text the state had before, hosted \<open>local\<close>; and it is well formed when state and
  patches are.
\<close>

theorem ApplyDesktopPatches_identity:
  assumes "ApplyDesktopPatches state patches = Inr result" "wf_gval state" "wf_gval patches"
  shows "wf_gval result \<and> (\<exists>i. AsText (field (fields_of state) ''id'') = Some i \<and>
    AsText (field (fields_of result) ''id'') = Some i) \<and> Text (field (fields_of result) ''hostId'') = ''local''"
proof -
  obtain ps spent where "patches = GArr ps" "patch_batch ps (0, state) = Inr (spent, result)" "same_identity state result"
    using assms(1) by (auto simp: ApplyDesktopPatches_def split: gval.splits if_splits)
  with assms(2,3) show ?thesis by (auto simp: same_identity_def dest: patch_batch_wf simp del: wf_gval.simps)
qed

theorem ApplyDesktopPatches_identity_witness:
  "let state = GObj [(''id'', GStr ''t''), (''hostId'', GStr ''local''), (''n'', GArr [GNil])];
       patches = GArr [GObj [(''op'', GStr ''add''), (''path'', GArr [GStr ''n'', GNum (Fin 0)]), (''value'', GBool True)]]
   in ApplyDesktopPatches state patches =
        Inr (GObj [(''id'', GStr ''t''), (''hostId'', GStr ''local''), (''n'', GArr [GBool True, GNil])]) \<and>
      wf_gval (GObj [(''id'', GStr ''t''), (''hostId'', GStr ''local''), (''n'', GArr [GBool True, GNil])])"
proof -
  let ?state = "GObj [(''id'', GStr ''t''), (''hostId'', GStr ''local''), (''n'', GArr [GNil])]"
  let ?patches = "GArr [GObj [(''op'', GStr ''add''), (''path'', GArr [GStr ''n'', GNum (Fin 0)]), (''value'', GBool True)]]"
  let ?result = "GObj [(''id'', GStr ''t''), (''hostId'', GStr ''local''), (''n'', GArr [GBool True, GNil])]"
  have zero: "jsNumberString (Fin 0) = ''0''" "jsSafeInteger (Fin 0)"
    by (simp_all add: jsNumberString_def jsSafeInteger_def f64_is_integer_def max_safe_integer_def)
  have run: "ApplyDesktopPatches ?state ?patches = Inr ?result"
    by (simp add: ApplyDesktopPatches_def patch_step_def fields_of_def Fields_def field_def Text_def AsText_def
        forbiddenPatchKeys_def Let_def zero pcharge_def MaxRetainedBytes_def apply_array_last_def list_insert_def
        CopyProperty_def copy_props_def same_identity_def)
  then show ?thesis using ApplyDesktopPatches_identity [OF run] by (simp add: Let_def)
qed

text \<open>
  The allocation of a whole batch is bounded: a batch that applies charged at most the
  retained-state limit, whatever array lengths its patches ask for.
\<close>

theorem patch_batch_allocation:
  assumes "patch_batch ps (0, state) = Inr (spent, result)"
  shows "spent \<le> MaxRetainedBytes"
  using patch_batch_bound [OF assms] by simp

theorem patch_batch_allocation_witness:
  "patch_batch [] (0, GNil) = Inr (0, GNil) \<and> 0 \<le> MaxRetainedBytes"
  using patch_batch_allocation [of "[]" GNil 0 GNil] by simp

text \<open>
  A patch that writes is read back: after an \<open>add\<close> or \<open>replace\<close> the path leads to the patch
  value, except where its last component assigns an array \<open>length\<close>.
\<close>

theorem patch_reads_back:
  assumes "patch_apply p path spent node = Inr (s, node')" "op p \<noteq> ''remove''"
    and "path = [] \<or> AsText (last path) \<noteq> Some ''length''"
  shows "get_path node' path = Some (pvalue p)"
  using patch_apply_readback [OF assms(1,2)] assms(3) by auto

theorem patch_reads_back_witness:
  "let node' = GObj [(''a'', GBool True)]
   in patch_apply \<lparr>op = ''replace'', pvalue = GBool True, present = True\<rparr> [GStr ''a''] 0 (GObj [(''a'', GNil)])
        = Inr (96, node') \<and> get_path node' [GStr ''a''] = Some (GBool True)"
proof -
  have run: "patch_apply \<lparr>op = ''replace'', pvalue = GBool True, present = True\<rparr> [GStr ''a''] 0 (GObj [(''a'', GNil)])
      = Inr (96, GObj [(''a'', GBool True)])"
    by (simp add: Fields_def pcharge_def MaxRetainedBytes_def CopyProperty_def copy_props_def)
  show ?thesis using run patch_reads_back [OF run] by (simp add: AsText_def Let_def del: get_path.simps patch_apply.simps)
qed

text \<open>
  A \<open>replace\<close> touches nothing else: every path that parts from the patched one, at a
  different field or element, leads to the same value as before.
\<close>

theorem patch_replace_frame:
  assumes "patch_apply p path spent node = Inr (s, node')" "op p = ''replace''" "diverges node path q"
  shows "get_path node' q = get_path node q"
  using assms by (rule patch_apply_frame)

theorem patch_replace_frame_witness:
  "let node = GObj [(''a'', GNil), (''b'', GBool False)]; node' = GObj [(''a'', GBool True), (''b'', GBool False)]
   in patch_apply \<lparr>op = ''replace'', pvalue = GBool True, present = True\<rparr> [GStr ''a''] 0 node = Inr (144, node') \<and>
      get_path node' [GStr ''b''] = get_path node [GStr ''b'']"
proof -
  let ?node = "GObj [(''a'', GNil), (''b'', GBool False)]" and ?node' = "GObj [(''a'', GBool True), (''b'', GBool False)]"
  have run: "patch_apply \<lparr>op = ''replace'', pvalue = GBool True, present = True\<rparr> [GStr ''a''] 0 ?node = Inr (144, ?node')"
    by (simp add: Fields_def pcharge_def MaxRetainedBytes_def CopyProperty_def copy_props_def)
  have "diverges ?node [GStr ''a''] [GStr ''b'']" by (simp add: slot_def)
  with run patch_replace_frame [OF run, of "[GStr ''b'']"] show ?thesis
    unfolding Let_def by (simp del: get_path.simps patch_apply.simps)
qed

text \<open>
  No patch that applies ever names a prototype: every component of the path of an accepted
  patch renders to a key other than \<open>__proto__\<close>, \<open>prototype\<close> and \<open>constructor\<close>.
\<close>

theorem patch_step_no_prototype:
  assumes "patch_step st v = Inr st'" "field (fields_of v) ''path'' = GArr path" "key \<in> set path"
  shows "jsCoalesce key ''null'' \<notin> {''__proto__'', ''prototype'', ''constructor''}"
proof -
  obtain spent node s node' where "st = (spent, node)" "st' = (s, node')" by (metis surj_pair)
  with assms(1) obtain flds path' where "Fields v = Some flds" "field flds ''path'' = GArr path'"
    "\<forall>key \<in> set path'. jsCoalesce key ''null'' \<notin> set forbiddenPatchKeys"
    by (auto elim: patch_step_apply)
  with assms(2,3) show ?thesis
    by (auto simp: fields_of_def forbiddenPatchKeys_def simp del: jsCoalesce.simps)
qed

theorem patch_step_no_prototype_witness:
  "let v = GObj [(''op'', GStr ''add''), (''path'', GArr [GStr ''k'']), (''value'', GNil)]
   in patch_step (0, GObj []) v = Inr (48, GObj [(''k'', GNil)]) \<and>
      jsCoalesce (GStr ''k'') ''null'' \<notin> {''__proto__'', ''prototype'', ''constructor''}"
proof -
  let ?v = "GObj [(''op'', GStr ''add''), (''path'', GArr [GStr ''k'']), (''value'', GNil)]"
  have run: "patch_step (0, GObj []) ?v = Inr (48, GObj [(''k'', GNil)])"
    by (simp add: patch_step_def fields_of_def Fields_def field_def Text_def AsText_def forbiddenPatchKeys_def
        Let_def pcharge_def MaxRetainedBytes_def CopyProperty_def copy_props_def)
  show ?thesis using run patch_step_no_prototype [OF run, of "[GStr ''k'']" "GStr ''k''"]
    unfolding Let_def by (simp add: fields_of_def Fields_def field_def)
qed

end
