(* ===== verification/GoJson.thy ===== *)
theory GoJson
  imports NativeString JsText
begin

text \<open>
  The output of Go's \<open>encoding/json\<close> for strings, pointers to strings and integers, with its HTML
  escapes and the replacement of invalid UTF-8.
\<close>

definition go_escape :: "nat \<Rightarrow> nat \<Rightarrow> string \<Rightarrow> string" where
  "go_escape r n s =
     (if r = 34 \<or> r = 92 then CHR 0x5C # take n s
      else if r = 8 then [CHR 0x5C, CHR ''b'']
      else if r = 12 then [CHR 0x5C, CHR ''f'']
      else if r = 10 then [CHR 0x5C, CHR ''n'']
      else if r = 13 then [CHR 0x5C, CHR ''r'']
      else if r = 9 then [CHR 0x5C, CHR ''t'']
      else if r < 32 \<or> r = 60 \<or> r = 62 \<or> r = 38 \<or> r = 8232 \<or> r = 8233 \<or> r = RuneError \<and> n = 1 then u_escape r
      else take n s)"

function go_quote_body :: "string \<Rightarrow> string" where
  "go_quote_body s =
     (if s = [] then []
      else let (r, n) = DecodeRune s in go_escape r n s @ go_quote_body (drop n s))"
  by pat_completeness auto
termination
  by (relation "measure length") (auto dest: DecodeRune_progress)

declare go_quote_body.simps [simp del]

definition go_quote :: "string \<Rightarrow> string" where
  "go_quote s = CHR 0x22 # go_quote_body s @ [CHR 0x22]"

definition go_pointer :: "string option \<Rightarrow> string" where
  "go_pointer p = (case p of None \<Rightarrow> ''null'' | Some s \<Rightarrow> go_quote s)"

definition go_member :: "string \<Rightarrow> string \<Rightarrow> string" where
  "go_member key rendered = go_quote key @ '':'' @ rendered"

definition go_json_object :: "string list \<Rightarrow> string" where
  "go_json_object members = ''{'' @ join '','' members @ ''}''"

end
