(* ===== verification/Followers.thy ===== *)
theory Followers
  imports DesktopState DesktopPatch GoJson "HOL-Library.Word"
begin

text \<open>
  The desktop followers (\<open>internal/sessions/followers.go\<close>, \<open>receive.go\<close>, \<open>snapshot.go\<close>, and the
  evidence part of \<open>settings.go\<close>). The \<open>*followed\<close> objects live in a heap and are compared by
  address, as the code compares pointers. Every section that holds \<open>f.mu\<close> is one function on the
  state; what a goroutine still has to do after unlocking is a list of tasks, and a step relation
  interleaves the tasks of all goroutines with new calls in every possible way.
\<close>

subsection \<open>The turn identity\<close>

definition desktopTurnIdentity :: "props \<Rightarrow> string" where
  "desktopTurnIdentity state =
     (let status = DesktopStatus (GMap state)
      in ''['' @ join '','' [go_pointer (ss_Status status), go_pointer (ss_ActiveTurnID status),
                            go_pointer (ss_CompletedTurnID status)] @ '']'')"

subsection \<open>State\<close>

type_synonym addr = nat
type_synonym time = int

definition second :: time where
  "second = 1000000000"

datatype ferr = FUnavailable | FSnapshotUnavailable | FTooMany | FTransport string

record desktopSettingsEvidence =
  ev_model :: int
  ev_effort :: int
  ev_tier :: int

text \<open>
  \<open>ready\<close> is closed exactly when \<open>settled\<close> is set; \<open>updated_closed\<close> says whether the channel
  now in \<open>updated\<close> is closed; \<open>persisted_cancelled\<close> whether the history read of the entry was
  cancelled by a drop.
\<close>

record followed =
  fid :: string
  owner :: string
  generation :: "64 word"
  accessEpoch :: "64 word"
  connectionGeneration :: "64 word"
  turnIdentity :: string
  revision :: int
  settingsEvidence :: desktopSettingsEvidence
  fstate :: "props option"
  used :: time
  refs :: int
  updated_closed :: bool
  settled :: bool
  readRequested :: bool
  ferror :: "ferr option"
  persisted_cancelled :: bool

record followers =
  heap :: "followed list"
  entries :: "(string \<times> addr) list"
  seen_ids :: "string list"
  retry :: "(string \<times> time) list"
  stopped :: bool
  nextGeneration :: "64 word"
  panicked :: bool

definition NewFollowers :: followers where
  "NewFollowers = \<lparr>heap = [], entries = [], seen_ids = [], retry = [], stopped = False,
     nextGeneration = 0, panicked = False\<rparr>"

definition upd :: "addr \<Rightarrow> (followed \<Rightarrow> followed) \<Rightarrow> followers \<Rightarrow> followers" where
  "upd a g f = f\<lparr>heap := (heap f)[a := g (heap f ! a)]\<rparr>"

definition live :: "followers \<Rightarrow> addr \<Rightarrow> bool" where
  "live f a \<longleftrightarrow> map_of (entries f) (fid (heap f ! a)) = Some a"

subsection \<open>Settling and dropping\<close>

definition settleLocked :: "addr \<Rightarrow> ferr option \<Rightarrow> followers \<Rightarrow> followers" where
  "settleLocked a err f = upd a (\<lambda>e. e\<lparr>ferror := err, settled := True\<rparr>) f"

text \<open>Closing a closed channel panics.\<close>

definition close_updated :: "addr \<Rightarrow> followers \<Rightarrow> followers" where
  "close_updated a f =
     (if updated_closed (heap f ! a) then f\<lparr>panicked := True\<rparr>
      else upd a (\<lambda>e. e\<lparr>updated_closed := True\<rparr>) f)"

definition dropLocked :: "addr \<Rightarrow> ferr \<Rightarrow> followers \<Rightarrow> followers \<times> bool" where
  "dropLocked a err f =
     (if \<not> live f a then (f, False)
      else
        let f = f\<lparr>entries := delete_key (fid (heap f ! a)) (entries f)\<rparr>;
            f = close_updated a f;
            f = upd a (\<lambda>e. e\<lparr>persisted_cancelled := True\<rparr>) f
        in (settleLocked a (Some err) f, True))"

text \<open>Dropping every entry of a list, and which of them were dropped.\<close>

fun drop_list :: "addr list \<Rightarrow> ferr \<Rightarrow> followers \<Rightarrow> followers \<times> addr list" where
  "drop_list [] err f = (f, [])"
| "drop_list (a # as) err f =
     (let (f1, dropped) = dropLocked a err f; (f2, ds) = drop_list as err f1
      in (f2, if dropped then a # ds else ds))"

subsection \<open>Tasks\<close>

text \<open>
  What a goroutine does after releasing \<open>f.mu\<close>: the two halves of \<open>follow(entry, true)\<close> under
  \<open>sendMu\<close>, \<open>follow(entry, false)\<close>, the error path of a failed follow, the watcher, and the hooks.
\<close>

datatype caller = ByReceive | ByAcquire

datatype task =
    FollowOff addr
  | FollowOn addr caller
  | Broadcast addr caller
  | FollowFailed addr caller ferr
  | Watch addr
  | ForgetSeen string
  | Changed string
  | Closed

subsection \<open>Locked sections\<close>

definition unfollow :: "string \<Rightarrow> followers \<Rightarrow> followers \<times> task list" where
  "unfollow tid f =
     (case map_of (entries f) tid of
        None \<Rightarrow> (f, [])
      | Some a \<Rightarrow> (fst (dropLocked a FUnavailable f), [FollowOff a]))"

definition released :: "time \<Rightarrow> followed \<Rightarrow> followed" where
  "released now e = e\<lparr>refs := max 0 (refs e - 1), used := now\<rparr>"

definition release :: "addr \<Rightarrow> bool \<Rightarrow> time \<Rightarrow> followers \<Rightarrow> followers \<times> task list" where
  "release a immediate now f =
     (if live f a then
        let f = upd a (released now) f
        in if immediate \<and> refs (heap f ! a) = 0 then
             let (f, drop) = dropLocked a FUnavailable f in (f, if drop then [FollowOff a] else [])
           else (f, [])
      else (f, []))"

definition forget :: "string \<Rightarrow> followers \<Rightarrow> followers \<times> task list" where
  "forget tid f = (let (f, ts) = unfollow tid f in (f, ts @ [ForgetSeen tid, Changed tid]))"

text \<open>
  \<open>detach\<close> looks the entry up in one section and releases it in a second; the two are one step here. A release of an entry
  that was dropped in between is the call \<open>CRelease\<close>, which takes any entry.
\<close>

definition detach :: "string \<Rightarrow> time \<Rightarrow> followers \<Rightarrow> followers \<times> task list" where
  "detach tid now f =
     (case map_of (entries f) tid of None \<Rightarrow> (f, []) | Some a \<Rightarrow> release a False now f)"

definition Disconnected :: "followers \<Rightarrow> followers \<times> task list" where
  "Disconnected f =
     (if stopped f then (f, [])
      else (fst (drop_list (map snd (entries f)) FUnavailable f), [Closed]))"

definition Close :: "followers \<Rightarrow> followers \<times> task list" where
  "Close f =
     (if stopped f then (f, [])
      else
        let closing = map snd (entries f);
            f = fst (drop_list closing FUnavailable (f\<lparr>stopped := True\<rparr>))
        in (f\<lparr>retry := []\<rparr>, Closed # map FollowOff closing))"

definition sweep :: "time \<Rightarrow> followers \<Rightarrow> followers \<times> task list" where
  "sweep now f =
     (let idle = filter (\<lambda>a. refs (heap f ! a) = 0 \<and> 30 * second < now - used (heap f ! a)) (map snd (entries f));
          (f, expired) = drop_list idle FUnavailable f
      in (f\<lparr>retry := filter (\<lambda>(tid, until). now < until) (retry f)\<rparr>, map FollowOff expired))"

definition bump_epoch :: "followed \<Rightarrow> followed" where
  "bump_epoch e = e\<lparr>accessEpoch := accessEpoch e + 1\<rparr>"

definition owner_response :: "string \<Rightarrow> string + props \<Rightarrow> followers \<Rightarrow> followers \<times> (ferr + string)" where
  "owner_response tid answer f =
     (case answer of
        Inl e \<Rightarrow> (f, Inl (if stopped f then FUnavailable else FTransport e))
      | Inr response \<Rightarrow>
          let handler = Text (field response ''handledByClientId'')
          in if stopped f then (f, Inl FUnavailable)
             else if Text (field response ''resultType'') = ''error'' \<and> Text (field response ''error'') = ''no-client-found''
             then (case map_of (entries f) tid of Some a \<Rightarrow> upd a bump_epoch f | None \<Rightarrow> f, Inr [])
             else if Text (field response ''resultType'') \<noteq> ''success'' \<or> handler = [] \<or>
                     field (fields_of (field response ''result'')) ''supportsUntrustedAppInput'' \<noteq> GBool True
             then (f, Inl FUnavailable)
             else
               let f = (case map_of (entries f) tid of
                          Some a \<Rightarrow> if owner (heap f ! a) \<noteq> handler then upd a bump_epoch f else f
                        | None \<Rightarrow> f)
               in (f\<lparr>seen_ids := List.insert tid (seen_ids f)\<rparr>, Inr handler))"

subsection \<open>Acquiring a subscription\<close>

definition new_followed :: "string \<Rightarrow> string \<Rightarrow> 64 word \<Rightarrow> 64 word \<Rightarrow> time \<Rightarrow> followed" where
  "new_followed tid own gen conn now =
     \<lparr>fid = tid, owner = own, generation = gen, accessEpoch = 0, connectionGeneration = conn, turnIdentity = [],
      revision = - 1, settingsEvidence = \<lparr>ev_model = 0, ev_effort = 0, ev_tier = 0\<rparr>, fstate = None, used = now,
      refs = 0, updated_closed = False, settled = False, readRequested = False, ferror = None,
      persisted_cancelled = False\<rparr>"

definition touched_entry :: "bool \<Rightarrow> bool \<Rightarrow> time \<Rightarrow> followed \<Rightarrow> followed" where
  "touched_entry retain readOnly now e =
     e\<lparr>used := now, refs := (if retain then refs e + 1 else refs e), readRequested := (readRequested e \<or> readOnly)\<rparr>"

definition touch :: "addr \<Rightarrow> bool \<Rightarrow> bool \<Rightarrow> time \<Rightarrow> followers \<Rightarrow> followers" where
  "touch a retain readOnly now f =
     upd a (touched_entry retain readOnly now) f"

definition create_entry :: "string \<Rightarrow> string \<Rightarrow> 64 word \<Rightarrow> time \<Rightarrow> followers \<Rightarrow> followers" where
  "create_entry tid own conn now f =
     f\<lparr>nextGeneration := nextGeneration f + 1,
       heap := heap f @ [new_followed tid own (nextGeneration f + 1) conn now],
       entries := entries f @ [(tid, length (heap f))]\<rparr>"

definition acquire ::
  "string \<Rightarrow> string \<Rightarrow> 64 word \<Rightarrow> bool \<Rightarrow> bool \<Rightarrow> time \<Rightarrow> followers \<Rightarrow> followers \<times> task list \<times> (ferr + addr option)" where
  "acquire tid own conn retain readOnly now f =
     (if stopped f then (f, [], Inl FUnavailable)
      else if readOnly \<and> (case map_of (retry f) tid of Some until \<Rightarrow> now < until | None \<Rightarrow> False)
      then (f, [], Inr None)
      else
        let create = (\<lambda>f tasks.
              if 4 \<le> length (entries f) then (f, [], Inl FTooMany)
              else let a = length (heap f)
                   in (touch a retain readOnly now (create_entry tid own conn now f),
                       tasks @ [FollowOn a ByAcquire], Inr (Some a)))
        in case map_of (entries f) tid of
             None \<Rightarrow> create f []
           | Some a \<Rightarrow>
               if owner (heap f ! a) \<noteq> own \<or> connectionGeneration (heap f ! a) \<noteq> conn then
                 (if fstate (heap f ! a) = None then (f, [], Inl FUnavailable)
                  else create (fst (dropLocked a FUnavailable f)) [FollowOff a, Closed])
               else (touch a retain readOnly now f, [], Inr (Some a)))"

definition watch_fire :: "addr \<Rightarrow> time \<Rightarrow> followers \<Rightarrow> followers \<times> task list" where
  "watch_fire a now f =
     (if live f a \<and> \<not> settled (heap f ! a) then
        let e = heap f ! a;
            (f, dropped) = dropLocked a FSnapshotUnavailable f;
            f = (if dropped \<and> readRequested e
                 then f\<lparr>retry := (fid e, now + 30 * second) # delete_key (fid e) (retry f)\<rparr> else f)
        in (f, if dropped then [FollowOff a] else [])
      else (f, []))"

definition snapshot :: "addr \<Rightarrow> followers \<Rightarrow> ferr + props" where
  "snapshot a f =
     (if stopped f \<or> \<not> live f a \<or> ferror (heap f ! a) \<noteq> None then Inl FUnavailable
      else case fstate (heap f ! a) of None \<Rightarrow> Inl FUnavailable | Some state \<Rightarrow> Inr state)"

text \<open>The \<open>ready\<close> branch of \<open>waitState\<close>.\<close>

definition waitState_ready :: "addr \<Rightarrow> bool \<Rightarrow> followers \<Rightarrow> ferr + addr option" where
  "waitState_ready a readOnly f =
     (let err = (case ferror (heap f ! a) of
                   None \<Rightarrow> if stopped f \<or> \<not> live f a then Some FUnavailable else None
                 | Some e \<Rightarrow> Some e)
      in if readOnly \<and> err = Some FSnapshotUnavailable then Inr None
         else case err of Some e \<Rightarrow> Inl e | None \<Rightarrow> Inr (Some a))"

subsection \<open>Settings evidence\<close>

record touched =
  t_model :: bool
  t_effort :: bool
  t_fallback :: bool
  t_tier :: bool

definition touch_path :: "gval list \<Rightarrow> touched \<Rightarrow> touched" where
  "touch_path path t =
     (if path = [] then \<lparr>t_model = True, t_effort = True, t_fallback = True, t_tier = True\<rparr>
      else
        let key = Text (hd path)
        in if key = ''latestModel'' then t\<lparr>t_model := True\<rparr>
           else if key = ''latestReasoningEffort'' then t\<lparr>t_fallback := True\<rparr>
           else if key = ''latestThreadSettings'' then
             (if length path = 1 then t\<lparr>t_effort := True, t_tier := True\<rparr>
              else if Text (path ! 1) = ''effort'' then t\<lparr>t_effort := True\<rparr>
              else if Text (path ! 1) = ''serviceTier'' then t\<lparr>t_tier := True\<rparr>
              else t)
           else t)"

definition touched_by :: "gval \<Rightarrow> touched" where
  "touched_by patches =
     foldl (\<lambda>t p. touch_path (asArray (field (fields_of p) ''path'')) t)
       \<lparr>t_model = False, t_effort = False, t_fallback = False, t_tier = False\<rparr> (asArray patches)"

definition recordSettingsEvidence :: "props \<Rightarrow> followed \<Rightarrow> followed" where
  "recordSettingsEvidence change e =
     (if Text (field change ''type'') = ''snapshot''
      then e\<lparr>settingsEvidence := \<lparr>ev_model = revision e, ev_effort = revision e, ev_tier = revision e\<rparr>\<rparr>
      else
        let t = touched_by (field change ''patches'');
            ev = settingsEvidence e;
            state = (case fstate e of Some st \<Rightarrow> st | None \<Rightarrow> []);
            uses = (field (fields_of (field state ''latestThreadSettings'')) ''effort'' \<noteq> GNil);
            ev = (if t_model t then ev\<lparr>ev_model := revision e\<rparr> else ev);
            ev = (if uses \<and> t_effort t \<or> \<not> uses \<and> t_fallback t then ev\<lparr>ev_effort := revision e\<rparr> else ev);
            ev = (if t_tier t then ev\<lparr>ev_tier := revision e\<rparr> else ev)
        in e\<lparr>settingsEvidence := ev\<rparr>)"

text \<open>A settings patch: for each field whether it is known; \<open>confirms\<close> reads nothing else.\<close>

record settings_patch =
  p_Model :: "string option"
  p_Effort :: "string option"
  p_ServiceTier :: "string option option"

definition confirms :: "desktopSettingsEvidence \<Rightarrow> int \<Rightarrow> settings_patch \<Rightarrow> bool" where
  "confirms e rv patch \<longleftrightarrow>
     (p_Model patch = None \<or> rv < ev_model e) \<and>
     (p_Effort patch = None \<or> rv < ev_effort e) \<and>
     (p_ServiceTier patch = None \<or> rv < ev_tier e)"

subsection \<open>Receiving native messages\<close>

definition change_revision :: "gval \<Rightarrow> int option" where
  "change_revision v =
     (case v of
        GNum (Fin x) \<Rightarrow> if f64_is_integer x \<and> 0 \<le> x \<and> x \<le> 9007199254740991 then Some \<lfloor>x\<rfloor> else None
      | _ \<Rightarrow> None)"

definition names_task :: "string \<Rightarrow> props \<Rightarrow> bool" where
  "names_task tid state \<longleftrightarrow> Text (field state ''id'') = tid \<and> Text (field state ''hostId'') = ''local''"

text \<open>The state a change leads to; \<open>None\<close> when the change is not valid for the entry.\<close>

definition next_state :: "props \<Rightarrow> followed \<Rightarrow> props option" where
  "next_state change e =
     (let kind = Text (field change ''type'')
      in if kind = ''snapshot'' then
           (let state = fields_of (field change ''conversationState'')
            in if names_task (fid e) state then Some state else None)
         else if kind = ''patches'' then
           (case fstate e of
              None \<Rightarrow> None
            | Some state \<Rightarrow>
                if field change ''baseRevision'' = GNum (Fin (of_int (revision e))) then
                  (case ApplyDesktopPatches (GMap state) (field change ''patches'') of
                     Inl _ \<Rightarrow> None
                   | Inr result \<Rightarrow> if names_task (fid e) (fields_of result) then Some (fields_of result) else None)
                else None)
         else None)"

definition adopt :: "props \<Rightarrow> int \<Rightarrow> props \<Rightarrow> followed \<Rightarrow> followed" where
  "adopt change rv state e =
     (let e = e\<lparr>fstate := Some state\<rparr>;
          identity = desktopTurnIdentity state;
          e = (if identity \<noteq> turnIdentity e
               then e\<lparr>accessEpoch := accessEpoch e + 1, turnIdentity := identity\<rparr> else e);
          e = e\<lparr>revision := rv\<rparr>
      in recordSettingsEvidence change e)"

definition renew_updated :: "addr \<Rightarrow> followers \<Rightarrow> followers" where
  "renew_updated a f = upd a (\<lambda>e. e\<lparr>updated_closed := False\<rparr>) (close_updated a f)"

definition Receive :: "props \<Rightarrow> followers \<Rightarrow> followers \<times> task list" where
  "Receive message f =
     (let p = fields_of (field message ''params'');
          tid = Text (field p ''conversationId'');
          meth = Text (field message ''method'')
      in if Text (field p ''hostId'') \<noteq> ''local'' then (f, [])
         else case map_of (entries f) tid of
           None \<Rightarrow> (f, [])
         | Some a \<Rightarrow>
             let e = heap f ! a;
                 reject = (fst (dropLocked a FUnavailable f), [FollowOff a, Closed])
             in if stopped f then (f, [])
                else if meth = ''thread-stream-following-status-requested'' \<and> field message ''version'' = GNum (Fin 1)
                then (f, [FollowOn a ByReceive])
                else if meth \<noteq> ''thread-stream-state-changed'' \<or> field message ''version'' \<noteq> GNum (Fin 11) \<or>
                        Text (field message ''sourceClientId'') \<noteq> owner e
                then (f, [])
                else
                  let change = fields_of (field p ''change'')
                  in case change_revision (field change ''revision'') of
                       None \<Rightarrow> reject
                     | Some rv \<Rightarrow>
                         if rv \<le> revision e then (f, [])
                         else case next_state change e of
                           None \<Rightarrow> reject
                         | Some state \<Rightarrow>
                             let f = renew_updated a (upd a (adopt change rv state) f);
                                 f = f\<lparr>retry := delete_key tid (retry f)\<rparr>
                             in (settleLocked a None f, [Changed tid]))"

subsection \<open>Interleavings\<close>

text \<open>
  \<open>log\<close> holds the broadcasts that went out and the hooks that ran, the newest first; \<open>lost\<close>
  the entries dropped with the connection or by a failed first broadcast, and those whose last
  broadcast failed: their owner gets no further message.
\<close>

datatype event = Sent addr bool | ChangedHook string | ClosedHook

record config =
  fol :: followers
  threads :: "task list list"
  sendMu :: bool
  log :: "event list"
  lost :: "addr list"

definition initial :: config where
  "initial = \<lparr>fol = NewFollowers, threads = [], sendMu = False, log = [], lost = []\<rparr>"

datatype call =
    CReceive props
  | COwner string "string + props"
  | CAcquire string string "64 word" bool bool time
  | CRelease addr bool time
  | CUnfollow string
  | CForget string
  | CDetach string time
  | CDisconnected
  | CClose
  | CSweep time

fun do_call :: "call \<Rightarrow> followers \<Rightarrow> followers \<times> task list" where
  "do_call (CReceive m) f = Receive m f"
| "do_call (COwner tid r) f = (fst (owner_response tid r f), [])"
| "do_call (CAcquire tid own conn retain ro now) f =
     (case acquire tid own conn retain ro now f of (f', ts, _) \<Rightarrow> (f', ts))"
| "do_call (CRelease a immediate now) f = release a immediate now f"
| "do_call (CUnfollow tid) f = unfollow tid f"
| "do_call (CForget tid) f = forget tid f"
| "do_call (CDetach tid now) f = detach tid now f"
| "do_call CDisconnected f = Disconnected f"
| "do_call CClose f = Close f"
| "do_call (CSweep now) f = sweep now f"

definition call_losses :: "call \<Rightarrow> followers \<Rightarrow> addr list" where
  "call_losses cl f = (if cl = CDisconnected \<and> \<not> stopped f then map snd (entries f) else [])"

text \<open>
  One task with the answer \<open>ok\<close> of the transport (\<open>None\<close> when the broadcast succeeds) at time
  \<open>now\<close>; the result is the state and the rest of the task, \<open>None\<close> while \<open>sendMu\<close> is held.
\<close>

fun run_task :: "task \<Rightarrow> string option \<Rightarrow> time \<Rightarrow> config \<Rightarrow> (config \<times> task list) option" where
  "run_task (FollowOff a) ok now c =
     (if sendMu c then None
      else Some (if ok = None then c\<lparr>log := Sent a False # log c\<rparr> else c\<lparr>lost := a # lost c\<rparr>, []))"
| "run_task (FollowOn a who) ok now c =
     (if sendMu c then None
      else if \<not> stopped (fol c) \<and> live (fol c) a then Some (c\<lparr>sendMu := True\<rparr>, [Broadcast a who])
      else Some (c, [FollowFailed a who FUnavailable]))"
| "run_task (Broadcast a who) ok now c =
     (case ok of
        None \<Rightarrow> Some (c\<lparr>sendMu := False, log := Sent a True # log c\<rparr>, if who = ByAcquire then [Watch a] else [])
      | Some e \<Rightarrow> Some (c\<lparr>sendMu := False\<rparr>, [FollowFailed a who (FTransport e)]))"
| "run_task (FollowFailed a who err) ok now c =
     (let (f, dropped) = dropLocked a err (fol c)
      in case who of
           ByReceive \<Rightarrow> Some (c\<lparr>fol := f\<rparr>, if dropped then [FollowOff a, Closed] else [])
         | ByAcquire \<Rightarrow> Some (c\<lparr>fol := f, lost := (if dropped then a # lost c else lost c)\<rparr>, []))"
| "run_task (Watch a) ok now c =
     (if settled (heap (fol c) ! a) \<or> stopped (fol c) then Some (c, [])
      else let (f, ts) = watch_fire a now (fol c) in Some (c\<lparr>fol := f\<rparr>, ts))"
| "run_task (ForgetSeen tid) ok now c =
     Some (c\<lparr>fol := (fol c)\<lparr>seen_ids := removeAll tid (seen_ids (fol c))\<rparr>\<rparr>, [])"
| "run_task (Changed tid) ok now c = Some (c\<lparr>log := ChangedHook tid # log c\<rparr>, [])"
| "run_task Closed ok now c = Some (c\<lparr>log := ClosedHook # log c\<rparr>, [])"

text \<open>Pointers handed to \<open>release\<close> come from \<open>acquire\<close>, so they are allocated.\<close>

definition allocated :: "call \<Rightarrow> followers \<Rightarrow> bool" where
  "allocated cl f = (case cl of CRelease a _ _ \<Rightarrow> a < length (heap f) | _ \<Rightarrow> True)"

inductive fstep :: "config \<Rightarrow> config \<Rightarrow> bool" where
  new_call:
    "allocated cl (fol c) \<Longrightarrow> do_call cl (fol c) = (f, ts) \<Longrightarrow>
     fstep c (c\<lparr>fol := f, threads := threads c @ [ts], lost := call_losses cl (fol c) @ lost c\<rparr>)"
| run:
    "i < length (threads c) \<Longrightarrow> threads c ! i = t # ts \<Longrightarrow> run_task t ok now c = Some (c', ts') \<Longrightarrow>
     fstep c (c'\<lparr>threads := (threads c')[i := ts' @ ts]\<rparr>)"

definition reachable :: "config \<Rightarrow> bool" where
  "reachable c \<longleftrightarrow> fstep\<^sup>*\<^sup>* initial c"

end
