(* ===== verification/FollowersCorrect.thy ===== *)
theory FollowersCorrect
  imports Followers
begin

text \<open>
  Correctness of the desktop followers: the invariant of the shared state, the contract every
  locked section keeps (a locale, interpreted on each of them), and what follows for all
  interleavings of calls and goroutines.
\<close>

subsection \<open>Invariant\<close>

definition evidence_le :: "desktopSettingsEvidence \<Rightarrow> int \<Rightarrow> bool" where
  "evidence_le ev r \<longleftrightarrow> ev_model ev \<le> r \<and> ev_effort ev \<le> r \<and> ev_tier ev \<le> r"

definition entry_ok :: "bool \<Rightarrow> followed \<Rightarrow> bool" where
  "entry_ok l e \<longleftrightarrow>
     0 \<le> refs e \<and>
     (if l then
        \<not> updated_closed e \<and> ferror e = None \<and>
        (if settled e
         then 0 \<le> revision e \<and> revision e \<le> 9007199254740991 \<and> evidence_le (settingsEvidence e) (revision e) \<and>
              (\<exists>st. fstate e = Some st \<and> names_task (fid e) st)
         else revision e = - 1 \<and> fstate e = None \<and> settingsEvidence e = \<lparr>ev_model = 0, ev_effort = 0, ev_tier = 0\<rparr>)
      else updated_closed e \<and> settled e \<and> ferror e \<noteq> None)"

definition finv :: "followers \<Rightarrow> bool" where
  "finv f \<longleftrightarrow>
     distinct (map fst (entries f)) \<and> length (entries f) \<le> 4 \<and>
     (\<forall>(k, a) \<in> set (entries f). a < length (heap f) \<and> fid (heap f ! a) = k) \<and>
     (stopped f \<longrightarrow> entries f = []) \<and>
     nextGeneration f = of_nat (length (heap f)) \<and>
     (\<forall>a < length (heap f). generation (heap f ! a) = of_nat (Suc a) \<and> entry_ok (live f a) (heap f ! a)) \<and>
     \<not> panicked f"

lemma finv_lookup:
  assumes "finv f" "map_of (entries f) k = Some a"
  shows "a < length (heap f)" "fid (heap f ! a) = k" "live f a" "\<not> stopped f"
  using assms map_of_SomeD [OF assms(2)] by (auto simp: finv_def live_def)

lemma finv_entry: "finv f \<Longrightarrow> a < length (heap f) \<Longrightarrow> entry_ok (live f a) (heap f ! a)"
  by (simp add: finv_def)

lemma live_upd:
  assumes "\<And>e. fid (g e) = fid e"
  shows "live (upd a g f) b \<longleftrightarrow> live f b"
  using assms by (cases "a < length (heap f)") (auto simp: live_def upd_def nth_list_update list_update_beyond not_less)

lemma upd_frame [simp]:
  "entries (upd a g f) = entries f" "stopped (upd a g f) = stopped f" "retry (upd a g f) = retry f"
  "nextGeneration (upd a g f) = nextGeneration f" "panicked (upd a g f) = panicked f"
  "length (heap (upd a g f)) = length (heap f)" "seen_ids (upd a g f) = seen_ids f"
  by (simp_all add: upd_def)

lemma upd_nth: "b < length (heap f) \<Longrightarrow> heap (upd a g f) ! b = (if b = a then g (heap f ! a) else heap f ! b)"
  by (auto simp: upd_def nth_list_update)

lemma upd_upd: "upd a g (upd a h f) = upd a (\<lambda>e. g (h e)) f"
  by (cases "a < length (heap f)") (simp_all add: upd_def list_update_beyond)

lemma finv_upd:
  assumes inv: "finv f" and a: "a < length (heap f)"
    and g: "\<And>e. fid (g e) = fid e" "\<And>e. generation (g e) = generation e"
    and ok: "entry_ok (live f a) (heap f ! a) \<Longrightarrow> entry_ok (live f a) (g (heap f ! a))"
  shows "finv (upd a g f)"
proof -
  have l: "live (upd a g f) b \<longleftrightarrow> live f b" for b by (rule live_upd) (rule g(1))
  have "fid (heap (upd a g f) ! b) = fid (heap f ! b)" if "b < length (heap f)" for b
    using that by (simp add: upd_nth g(1))
  with inv show ?thesis
    unfolding finv_def l upd_frame by (auto simp: upd_nth g ok)
qed

lemma finv_retry [simp]: "finv (f\<lparr>retry := r\<rparr>) = finv f"
  by (simp add: finv_def live_def)

lemma finv_seen [simp]: "finv (f\<lparr>seen_ids := r\<rparr>) = finv f"
  by (simp add: finv_def live_def)

lemma live_retry [simp]: "live (f\<lparr>retry := r\<rparr>) = live f" "live (f\<lparr>seen_ids := q\<rparr>) = live f"
  "live (f\<lparr>stopped := s\<rparr>) = live f"
  by (simp_all add: live_def fun_eq_iff)

subsection \<open>Evolution\<close>

text \<open>What no operation takes back: identities are fixed, revisions grow, a dropped entry stays dropped.\<close>

definition evolves :: "followers \<Rightarrow> followers \<Rightarrow> bool" where
  "evolves f f' \<longleftrightarrow>
     length (heap f) \<le> length (heap f') \<and> (stopped f \<longrightarrow> stopped f') \<and>
     (\<forall>a < length (heap f).
        fid (heap f' ! a) = fid (heap f ! a) \<and> owner (heap f' ! a) = owner (heap f ! a) \<and>
        generation (heap f' ! a) = generation (heap f ! a) \<and>
        connectionGeneration (heap f' ! a) = connectionGeneration (heap f ! a) \<and>
        revision (heap f ! a) \<le> revision (heap f' ! a) \<and> (live f' a \<longrightarrow> live f a))"

lemma evolves_refl [simp]: "evolves f f"
  by (simp add: evolves_def)

lemma evolves_trans: "evolves f g \<Longrightarrow> evolves g h \<Longrightarrow> evolves f h"
  unfolding evolves_def by (intro conjI) (simp_all, metis order_trans order_less_le_trans)

lemma evolves_upd:
  assumes "\<And>e. fid (g e) = fid e \<and> owner (g e) = owner e \<and> generation (g e) = generation e \<and>
      connectionGeneration (g e) = connectionGeneration e"
    and "a < length (heap f) \<Longrightarrow> revision (heap f ! a) \<le> revision (g (heap f ! a))"
  shows "evolves f (upd a g f)"
proof -
  have "live (upd a g f) b \<longleftrightarrow> live f b" for b by (rule live_upd) (simp add: assms(1))
  with assms show ?thesis by (auto simp: evolves_def upd_nth)
qed

lemma evolves_frame [simp]:
  "evolves f (g\<lparr>retry := r\<rparr>) = evolves f g" "evolves f (g\<lparr>seen_ids := s\<rparr>) = evolves f g"
  by (simp_all add: evolves_def)

subsection \<open>Dropping\<close>

definition dropped_entry :: "ferr \<Rightarrow> followed \<Rightarrow> followed" where
  "dropped_entry err e = e\<lparr>updated_closed := True, persisted_cancelled := True, ferror := Some err, settled := True\<rparr>"

lemma dropLocked_live:
  assumes "finv f" "live f a"
  shows "dropLocked a err f =
    (upd a (dropped_entry err) (f\<lparr>entries := delete_key (fid (heap f ! a)) (entries f)\<rparr>), True)"
proof -
  have a: "a < length (heap f)" using assms finv_lookup(1) by (auto simp: live_def)
  have "\<not> updated_closed (heap f ! a)" using finv_entry [OF assms(1) a] assms(2) by (simp add: entry_ok_def)
  with assms(2) show ?thesis
    by (simp add: dropLocked_def close_updated_def settleLocked_def upd_upd dropped_entry_def [abs_def] Let_def)
qed

lemma dropLocked_dead: "\<not> live f a \<Longrightarrow> dropLocked a err f = (f, False)"
  by (simp add: dropLocked_def)

lemma drop_live:
  assumes "finv f" "a < length (heap f)"
  shows "live (fst (dropLocked a err f)) b \<longleftrightarrow> live f b \<and> b \<noteq> a"
proof (cases "live f a")
  case True
  have "live (upd a (dropped_entry err) (f\<lparr>entries := es\<rparr>)) b \<longleftrightarrow> live (f\<lparr>entries := es\<rparr>) b" for es
    by (rule live_upd) (simp add: dropped_entry_def)
  moreover have "live (f\<lparr>entries := delete_key (fid (heap f ! a)) (entries f)\<rparr>) b \<longleftrightarrow> live f b \<and> b \<noteq> a"
    using True by (auto simp: live_def map_of_delete)
  ultimately show ?thesis by (simp add: dropLocked_live [OF assms(1) True])
qed (auto simp: dropLocked_dead)

lemma drop_fields:
  assumes "finv f"
  shows "length (heap (fst (dropLocked a err f))) = length (heap f)"
    and "stopped (fst (dropLocked a err f)) = stopped f"
    and "b < length (heap f) \<Longrightarrow>
      heap (fst (dropLocked a err f)) ! b = (if b = a \<and> live f a then dropped_entry err (heap f ! b) else heap f ! b)"
    and "entries (fst (dropLocked a err f)) = (if live f a then delete_key (fid (heap f ! a)) (entries f) else entries f)"
    and "snd (dropLocked a err f) = live f a"
  using dropLocked_live [OF assms, of a err] dropLocked_dead [of f a err]
  by (cases "live f a"; auto simp: upd_def nth_list_update)+

lemma finv_drop:
  assumes inv: "finv f" and a: "a < length (heap f)"
  shows "finv (fst (dropLocked a err f))"
proof (cases "live f a")
  case True
  let ?f = "fst (dropLocked a err f)"
  have ent: "entries ?f = delete_key (fid (heap f ! a)) (entries f)"
    using drop_fields(4) [OF inv, of a err] True by simp
  have nth: "heap ?f ! b = (if b = a then dropped_entry err (heap f ! b) else heap f ! b)"
    if "b < length (heap f)" for b using drop_fields(3) [OF inv that, of a err] True by simp
  have misc: "nextGeneration ?f = nextGeneration f" "panicked ?f = panicked f" "stopped ?f = stopped f"
    "length (heap ?f) = length (heap f)"
    by (simp_all add: dropLocked_live [OF inv True])
  have "entry_ok (live ?f b) (heap ?f ! b)" if "b < length (heap f)" for b
    using finv_entry [OF inv that] that True
    by (auto simp: drop_live [OF inv a] nth entry_ok_def dropped_entry_def)
  moreover have "generation (heap ?f ! b) = of_nat (Suc b)" if "b < length (heap f)" for b
    using inv that by (simp add: nth dropped_entry_def finv_def)
  moreover have "fid (heap ?f ! b) = fid (heap f ! b)" if "b < length (heap f)" for b
    using that by (simp add: nth dropped_entry_def)
  ultimately show ?thesis
    using inv length_delete_key [of "fid (heap f ! a)" "entries f"]
    by (auto simp: finv_def misc ent set_delete_key distinct_delete_key)
qed (simp add: dropLocked_dead inv)

lemma evolves_drop:
  assumes "finv f" "a < length (heap f)"
  shows "evolves f (fst (dropLocked a err f))"
  using drop_live [OF assms, of err]
  by (auto simp: evolves_def drop_fields [OF assms(1)] dropped_entry_def)

subsection \<open>The contract of a locked section\<close>

fun task_addr :: "task \<Rightarrow> addr option" where
  "task_addr (FollowOff a) = Some a"
| "task_addr (FollowOn a who) = Some a"
| "task_addr (Broadcast a who) = Some a"
| "task_addr (FollowFailed a who err) = Some a"
| "task_addr (Watch a) = Some a"
| "task_addr t = None"

definition is_broadcast :: "task \<Rightarrow> bool" where
  "is_broadcast t \<longleftrightarrow> (\<exists>a who. t = Broadcast a who)"

definition tasks_ok :: "followers \<Rightarrow> task list \<Rightarrow> bool" where
  "tasks_ok f ts \<longleftrightarrow> (\<forall>t \<in> set ts. \<forall>a. task_addr t = Some a \<longrightarrow> a < length (heap f))"

text \<open>
  A section keeps the invariant, takes nothing back, and unless the entry is excused every drop
  is followed by a \<open>follow(entry, false)\<close> of the same goroutine.
\<close>

definition section_ok :: "followers \<Rightarrow> followers \<times> task list \<Rightarrow> addr list \<Rightarrow> bool" where
  "section_ok f r excused \<longleftrightarrow>
     finv (fst r) \<and> evolves f (fst r) \<and> tasks_ok (fst r) (snd r) \<and> (\<forall>t \<in> set (snd r). \<not> is_broadcast t) \<and>
     (\<forall>a < length (heap f). live f a \<longrightarrow> live (fst r) a \<or> FollowOff a \<in> set (snd r) \<or> a \<in> set excused)"

locale follower_section =
  fixes sect :: "followers \<Rightarrow> followers \<times> task list"
    and guard :: "followers \<Rightarrow> bool"
    and excused :: "followers \<Rightarrow> addr list"
  assumes sound: "finv f \<Longrightarrow> guard f \<Longrightarrow> section_ok f (sect f) (excused f)"
begin

lemma keeps_finv: "finv f \<Longrightarrow> guard f \<Longrightarrow> finv (fst (sect f))"
  using sound [of f] by (simp add: section_ok_def)

lemma stays_dead:
  "finv f \<Longrightarrow> guard f \<Longrightarrow> a < length (heap f) \<Longrightarrow> \<not> live f a \<Longrightarrow> \<not> live (fst (sect f)) a"
  using sound [of f] by (auto simp: section_ok_def evolves_def)

lemma drop_announced:
  "finv f \<Longrightarrow> guard f \<Longrightarrow> a < length (heap f) \<Longrightarrow> live f a \<Longrightarrow> \<not> live (fst (sect f)) a \<Longrightarrow>
   a \<notin> set (excused f) \<Longrightarrow> FollowOff a \<in> set (snd (sect f))"
  using sound [of f] by (auto simp: section_ok_def)

end

lemma section_ok_refl: "finv f \<Longrightarrow> section_ok f (f, []) xs"
  by (simp add: section_ok_def tasks_ok_def)

lemma section_ok_keep:
  "finv f' \<Longrightarrow> evolves f f' \<Longrightarrow> (\<And>b. live f' b \<longleftrightarrow> live f b) \<Longrightarrow> tasks_ok f' ts \<Longrightarrow>
   (\<forall>t \<in> set ts. \<not> is_broadcast t) \<Longrightarrow> section_ok f (f', ts) xs"
  by (simp add: section_ok_def)

lemma section_ok_drop:
  assumes "finv f" "a < length (heap f)" "FollowOff a \<in> set ts" "tasks_ok f ts" "\<forall>t \<in> set ts. \<not> is_broadcast t"
  shows "section_ok f (fst (dropLocked a err f), ts) xs"
  using assms finv_drop [OF assms(1,2)] evolves_drop [OF assms(1,2)]
  by (auto simp: section_ok_def drop_live tasks_ok_def drop_fields)

lemma drop_list_ok:
  assumes "finv f" "\<forall>a \<in> set as. a < length (heap f)"
  shows "finv (fst (drop_list as err f)) \<and> evolves f (fst (drop_list as err f)) \<and>
    (\<forall>b. live (fst (drop_list as err f)) b \<longleftrightarrow> live f b \<and> b \<notin> set as) \<and>
    length (heap (fst (drop_list as err f))) = length (heap f) \<and>
    set (snd (drop_list as err f)) = {a \<in> set as. live f a}"
  using assms
proof (induction as arbitrary: f)
  case Nil
  then show ?case by simp
next
  case (Cons a as)
  let ?f = "fst (dropLocked a err f)"
  have a: "a < length (heap f)" using Cons.prems by simp
  have "finv ?f" "length (heap ?f) = length (heap f)"
    using finv_drop [OF Cons.prems(1) a] drop_fields(1) [OF Cons.prems(1)] by simp_all
  with Cons.IH [of ?f] Cons.prems have IH: "finv (fst (drop_list as err ?f))" "evolves ?f (fst (drop_list as err ?f))"
    "\<And>b. live (fst (drop_list as err ?f)) b \<longleftrightarrow> live ?f b \<and> b \<notin> set as"
    "length (heap (fst (drop_list as err ?f))) = length (heap f)"
    "set (snd (drop_list as err ?f)) = {a \<in> set as. live ?f a}" by auto
  have unfold: "drop_list (a # as) err f =
      (fst (drop_list as err ?f), if live f a then a # snd (drop_list as err ?f) else snd (drop_list as err ?f))"
    using drop_fields(5) [OF Cons.prems(1), of a err]
    by (simp add: Let_def split_def)
  show ?case
    unfolding unfold using IH evolves_trans [OF evolves_drop [OF Cons.prems(1) a] IH(2)]
    by (auto simp: drop_live [OF Cons.prems(1) a])
qed

lemmas section_simps = tasks_ok_def is_broadcast_def

subsection \<open>Every section keeps the contract\<close>

lemma entries_allocated: "finv f \<Longrightarrow> \<forall>a \<in> set (map snd (entries f)). a < length (heap f)"
  by (auto simp: finv_def)

lemma live_in_entries: "live f a \<Longrightarrow> a \<in> set (map snd (entries f))"
  by (auto simp: live_def image_iff dest!: map_of_SomeD intro!: bexI)

lemma unfollow_ok: "finv f \<Longrightarrow> section_ok f (unfollow tid f) []"
  using finv_lookup(1) [of f tid]
  by (auto simp: unfollow_def section_ok_refl section_simps intro!: section_ok_drop split: option.splits)

lemma forget_ok: "finv f \<Longrightarrow> section_ok f (forget tid f) []"
  using unfollow_ok [of f tid] by (auto simp: forget_def section_ok_def section_simps split: prod.splits)

lemma release_ok: "finv f \<Longrightarrow> a < length (heap f) \<Longrightarrow> section_ok f (release a immediate now f) []"
proof -
  assume inv: "finv f" and a: "a < length (heap f)"
  let ?f = "upd a (released now) f"
  have keep: "finv ?f" using inv a by (rule finv_upd) (simp_all add: released_def entry_ok_def split: if_splits)
  have ev: "evolves f ?f" by (rule evolves_upd) (simp_all add: released_def)
  have lv: "live ?f b \<longleftrightarrow> live f b" for b by (rule live_upd) (simp add: released_def)
  have "section_ok f (fst (dropLocked a FUnavailable ?f), [FollowOff a]) []"
    using section_ok_drop [OF keep, of a "[FollowOff a]" FUnavailable "[]"] a ev evolves_trans [OF ev]
    by (simp add: section_ok_def section_simps lv)
  moreover have "section_ok f (?f, []) []" using keep ev lv by (intro section_ok_keep) (simp_all add: section_simps)
  ultimately show ?thesis
    using inv drop_fields(5) [OF keep, of a FUnavailable] lv [of a]
    by (auto simp: release_def Let_def split_def section_ok_refl)
qed

lemma detach_ok: "finv f \<Longrightarrow> section_ok f (detach tid now f) []"
  using finv_lookup(1) [of f tid] release_ok [of f]
  by (auto simp: detach_def section_ok_refl split: option.splits)

lemma Disconnected_ok: "finv f \<Longrightarrow> section_ok f (Disconnected f) (if stopped f then [] else map snd (entries f))"
  using drop_list_ok [OF _ entries_allocated, of f FUnavailable] live_in_entries [of f]
  by (auto simp: Disconnected_def section_ok_refl section_ok_def section_simps)

lemma sweep_ok: "finv f \<Longrightarrow> section_ok f (sweep now f) []"
proof -
  assume inv: "finv f"
  define idle where "idle = filter (\<lambda>a. refs (heap f ! a) = 0 \<and> 30 * second < now - used (heap f ! a)) (map snd (entries f))"
  have alloc: "\<forall>a \<in> set idle. a < length (heap f)" using entries_allocated [OF inv] by (auto simp: idle_def)
  from drop_list_ok [OF inv this, of FUnavailable] alloc show ?thesis
    by (auto simp: sweep_def Let_def idle_def [symmetric] section_ok_def section_simps split_def)
qed

lemma dropLocked_stopped:
  "dropLocked a err (f\<lparr>stopped := s\<rparr>) = (let (g, d) = dropLocked a err f in (g\<lparr>stopped := s\<rparr>, d))"
  by (simp add: dropLocked_def close_updated_def settleLocked_def upd_def Let_def)

lemma drop_list_stopped:
  "drop_list as err (f\<lparr>stopped := s\<rparr>) = (let (g, ds) = drop_list as err f in (g\<lparr>stopped := s\<rparr>, ds))"
  by (induction as arbitrary: f) (simp_all add: dropLocked_stopped Let_def split_def)

lemma no_live_no_entries:
  assumes "finv f" "\<forall>b. \<not> live f b"
  shows "entries f = []"
proof (cases "entries f")
  case (Cons x xs)
  then have "map_of (entries f) (fst x) = Some (snd x)" by (cases x) simp
  with finv_lookup(3) [OF assms(1) this] assms(2) show ?thesis by blast
qed

lemma finv_stop: "finv f \<Longrightarrow> entries f = [] \<Longrightarrow> finv (f\<lparr>stopped := True\<rparr>)"
  by (simp add: finv_def live_def)

lemma Close_ok: "finv f \<Longrightarrow> section_ok f (Close f) []"
proof (cases "stopped f")
  case False
  assume inv: "finv f"
  let ?g = "fst (drop_list (map snd (entries f)) FUnavailable f)"
  note d = drop_list_ok [OF inv entries_allocated [OF inv], of FUnavailable]
  have none: "\<forall>b. \<not> live ?g b" using d live_in_entries [of f] by blast
  have "finv (?g\<lparr>stopped := True\<rparr>)" using d none by (intro finv_stop no_live_no_entries) auto
  moreover have "evolves f (?g\<lparr>stopped := True\<rparr>)" using d by (simp add: evolves_def)
  ultimately show ?thesis using False d live_in_entries [of f] entries_allocated [OF inv]
    by (auto simp: Close_def Let_def drop_list_stopped split_def section_ok_def section_simps)
qed (simp add: Close_def section_ok_refl)

lemma owner_response_ok: "finv f \<Longrightarrow> section_ok f (fst (owner_response tid r f), []) []"
proof -
  assume inv: "finv f"
  have "section_ok f (upd a bump_epoch f, []) []" if "map_of (entries f) tid = Some a" for a
  proof (rule section_ok_keep)
    show "finv (upd a bump_epoch f)"
      using inv finv_lookup(1) [OF inv that] by (rule finv_upd) (simp_all add: bump_epoch_def entry_ok_def)
    show "evolves f (upd a bump_epoch f)" by (rule evolves_upd) (simp_all add: bump_epoch_def)
    show "live (upd a bump_epoch f) b \<longleftrightarrow> live f b" for b by (rule live_upd) (simp add: bump_epoch_def)
  qed (simp_all add: section_simps)
  moreover have "section_ok f (g\<lparr>seen_ids := s\<rparr>, []) [] = section_ok f (g, []) []" for g s
    by (simp add: section_ok_def section_simps)
  ultimately show ?thesis using inv
    by (auto simp: owner_response_def Let_def section_ok_refl split: sum.splits option.splits)
qed

lemma touch_ok:
  assumes "finv f" "a < length (heap f)"
  shows "section_ok f (touch a retain ro now f, []) []"
proof (rule section_ok_keep)
  show "finv (touch a retain ro now f)"
    unfolding touch_def using assms by (rule finv_upd) (auto simp: touched_entry_def entry_ok_def)
  show "evolves f (touch a retain ro now f)"
    unfolding touch_def by (rule evolves_upd) (simp_all add: touched_entry_def)
  show "live (touch a retain ro now f) b \<longleftrightarrow> live f b" for b
    unfolding touch_def by (rule live_upd) (simp add: touched_entry_def)
qed (simp_all add: section_simps)

lemma create_live:
  assumes "finv f" "map_of (entries f) tid = None" "b \<le> length (heap f)"
  shows "live (create_entry tid own conn now f) b \<longleftrightarrow> b = length (heap f) \<or> b < length (heap f) \<and> live f b"
  using assms finv_lookup(1,2) [OF assms(1)]
  by (auto simp: live_def create_entry_def nth_append new_followed_def map_add_def
      split: option.splits)

lemma create_ok:
  assumes inv: "finv f" and few: "length (entries f) < 4" and fresh: "map_of (entries f) tid = None"
    and run: "\<not> stopped f"
  shows "finv (create_entry tid own conn now f)" "evolves f (create_entry tid own conn now f)"
proof -
  let ?g = "create_entry tid own conn now f"
  have nth: "heap ?g ! b = (if b = length (heap f) then new_followed tid own (nextGeneration f + 1) conn now else heap f ! b)"
    if "b \<le> length (heap f)" for b using that by (simp add: create_entry_def nth_append)
  have "entry_ok (live ?g b) (heap ?g ! b)" if "b \<le> length (heap f)" for b
    using finv_entry [OF inv, of b] that create_live [OF inv fresh that]
    by (cases "b = length (heap f)") (simp_all add: nth entry_ok_def new_followed_def)
  moreover have "generation (heap ?g ! b) = of_nat (Suc b)" if "b \<le> length (heap f)" for b
    using inv that by (simp add: nth new_followed_def finv_def)
  moreover have "tid \<notin> fst ` set (entries f)" using fresh by (simp add: map_of_eq_None_iff)
  ultimately show "finv ?g"
    using inv few run nth unfolding finv_def
    by (auto simp: create_entry_def new_followed_def less_Suc_eq_le nth_append)
  show "evolves f ?g"
    using create_live [OF inv fresh] by (auto simp: evolves_def nth create_entry_def nth_append)
qed

lemma section_ok_create:
  assumes inv: "finv f" and few: "length (entries f) < 4" and fresh: "map_of (entries f) tid = None"
    and run: "\<not> stopped f"
  shows "section_ok f (touch (length (heap f)) retain ro now (create_entry tid own conn now f),
    [FollowOn (length (heap f)) ByAcquire]) []"
proof -
  let ?g = "create_entry tid own conn now f"
  have len: "length (heap ?g) = Suc (length (heap f))" by (simp add: create_entry_def)
  note g = create_ok [OF assms, of own conn now]
  have t: "section_ok ?g (touch (length (heap f)) retain ro now ?g, []) []"
    using g(1) len by (intro touch_ok) simp_all
  show ?thesis
    using t g evolves_trans [OF g(2)] create_live [OF inv fresh, of _ own conn now] len
    by (auto simp: section_ok_def section_simps touch_def)
qed

lemma section_ok_trans:
  assumes "section_ok f (g, ts) xs" "section_ok g (h, us) ys"
  shows "section_ok f (h, ts @ us) (xs @ ys)"
proof -
  have len: "length (heap f) \<le> length (heap g)" "length (heap g) \<le> length (heap h)"
    using assms by (simp_all add: section_ok_def evolves_def)
  then have "tasks_ok h ts" using assms(1) by (fastforce simp: section_ok_def tasks_ok_def)
  with assms len evolves_trans [of f g h] show ?thesis
    by (auto simp: section_ok_def tasks_ok_def) (metis order_less_le_trans)+
qed

lemma acquire_ok:
  assumes inv: "finv f"
  shows "section_ok f (do_call (CAcquire tid own conn retain ro now) f) []"
proof (cases "map_of (entries f) tid")
  case None
  with inv show ?thesis
    using section_ok_create [OF inv _ None, of retain ro now own conn]
    by (auto simp: acquire_def Let_def section_ok_refl not_le split: option.splits)
next
  case (Some a)
  note a = finv_lookup [OF inv Some]
  let ?g = "fst (dropLocked a FUnavailable f)"
  have g: "entries ?g = delete_key tid (entries f)" "length (heap ?g) = length (heap f)"
    "stopped ?g = stopped f" using drop_fields [OF inv, where a = a and err = FUnavailable] a by simp_all
  have few: "length (entries ?g) < 4" "map_of (entries ?g) tid = None"
    using inv Some length_delete_present [of "entries f" tid] by (simp_all add: g(1) map_of_delete finv_def)
  have "section_ok f (?g, [FollowOff a, Closed]) []"
    using inv a(1) by (intro section_ok_drop) (simp_all add: section_simps)
  from section_ok_trans [OF this section_ok_create [OF finv_drop [OF inv a(1)] few]] a g
  have "section_ok f (touch (length (heap f)) retain ro now (create_entry tid own conn now ?g),
      [FollowOff a, Closed, FollowOn (length (heap f)) ByAcquire]) []" by simp
  with inv Some a few g touch_ok [OF inv a(1)] show ?thesis
    by (auto simp: acquire_def Let_def section_ok_refl not_le split: option.splits)
qed

lemma watch_fire_ok:
  assumes inv: "finv f" and a: "a < length (heap f)"
  shows "section_ok f (watch_fire a now f) []"
proof (cases "live f a \<and> \<not> settled (heap f ! a)")
  case True
  have retry: "section_ok f (g\<lparr>retry := r\<rparr>, ts) xs = section_ok f (g, ts) xs" for g r ts xs
    by (simp add: section_ok_def tasks_ok_def)
  have "section_ok f (fst (dropLocked a FSnapshotUnavailable f), [FollowOff a]) []"
    using inv a by (intro section_ok_drop) (simp_all add: section_simps)
  then show ?thesis using True drop_fields(5) [OF inv, of a FSnapshotUnavailable]
    by (auto simp: watch_fire_def Let_def split_def retry)
next
  case False
  then show ?thesis by (auto simp: watch_fire_def section_ok_refl inv)
qed

subsection \<open>Receiving\<close>

lemma recordSettingsEvidence_frame [simp]:
  "fid (recordSettingsEvidence change e) = fid e" "owner (recordSettingsEvidence change e) = owner e"
  "generation (recordSettingsEvidence change e) = generation e"
  "connectionGeneration (recordSettingsEvidence change e) = connectionGeneration e"
  "revision (recordSettingsEvidence change e) = revision e" "fstate (recordSettingsEvidence change e) = fstate e"
  "refs (recordSettingsEvidence change e) = refs e" "settled (recordSettingsEvidence change e) = settled e"
  "updated_closed (recordSettingsEvidence change e) = updated_closed e"
  "ferror (recordSettingsEvidence change e) = ferror e" "accessEpoch (recordSettingsEvidence change e) = accessEpoch e"
  "turnIdentity (recordSettingsEvidence change e) = turnIdentity e"
  by (simp_all add: recordSettingsEvidence_def Let_def)

lemma adopt_frame [simp]:
  "fid (adopt change rv st e) = fid e" "owner (adopt change rv st e) = owner e"
  "generation (adopt change rv st e) = generation e"
  "connectionGeneration (adopt change rv st e) = connectionGeneration e"
  "revision (adopt change rv st e) = rv" "fstate (adopt change rv st e) = Some st"
  "refs (adopt change rv st e) = refs e" "settled (adopt change rv st e) = settled e"
  "updated_closed (adopt change rv st e) = updated_closed e" "ferror (adopt change rv st e) = ferror e"
  by (simp_all add: adopt_def Let_def)

lemma evidence_le_record:
  "evidence_le (settingsEvidence e) (revision e) \<Longrightarrow>
   evidence_le (settingsEvidence (recordSettingsEvidence change e)) (revision e)"
  by (auto simp: evidence_le_def recordSettingsEvidence_def Let_def)

lemma adopt_evidence:
  "evidence_le (settingsEvidence e) rv \<Longrightarrow> evidence_le (settingsEvidence (adopt change rv st e)) rv"
  unfolding adopt_def Let_def
  by (rule evidence_le_record [of "(_ :: followed)\<lparr>revision := rv\<rparr>", simplified]) (simp add: evidence_le_def)

lemma next_state_names: "next_state change e = Some st \<Longrightarrow> names_task (fid e) st"
  by (auto simp: next_state_def Let_def split: if_splits option.splits sum.splits)

lemma change_revision_bounds: "change_revision v = Some rv \<Longrightarrow> 0 \<le> rv \<and> rv \<le> 9007199254740991"
  by (auto simp: change_revision_def floor_le_iff split: gval.splits float64.splits if_splits)

definition received :: "props \<Rightarrow> int \<Rightarrow> props \<Rightarrow> followed \<Rightarrow> followed" where
  "received change rv st e = (adopt change rv st e)\<lparr>updated_closed := False, ferror := None, settled := True\<rparr>"

lemma receive_update:
  assumes "finv f" "a < length (heap f)" "live f a"
  shows "settleLocked a None ((renew_updated a (upd a (adopt change rv st) f))\<lparr>retry := r\<rparr>) =
    (upd a (received change rv st) f)\<lparr>retry := r\<rparr>"
proof -
  have "\<not> updated_closed (heap f ! a)" using finv_entry [OF assms(1,2)] assms(3) by (simp add: entry_ok_def)
  then have "\<not> updated_closed (heap (upd a (adopt change rv st) f) ! a)" using assms(2) by (simp add: upd_nth)
  then have "renew_updated a (upd a (adopt change rv st) f) =
      upd a (\<lambda>e. (adopt change rv st e)\<lparr>updated_closed := False\<rparr>) f"
    by (simp add: renew_updated_def close_updated_def upd_upd)
  then show ?thesis
    by (simp add: settleLocked_def received_def [abs_def] upd_def)
      (simp add: assms(2))
qed

lemma received_ok:
  assumes inv: "finv f" and a: "a < length (heap f)" and lv: "live f a"
    and rv: "revision (heap f ! a) < rv" "0 \<le> rv" "rv \<le> 9007199254740991" and st: "names_task (fid (heap f ! a)) st"
  shows "section_ok f ((upd a (received change rv st) f)\<lparr>retry := r\<rparr>, [Changed tid]) []"
proof (rule section_ok_keep)
  let ?f = "upd a (received change rv st) f"
  note ok = finv_entry [OF inv a]
  have "evidence_le (settingsEvidence (heap f ! a)) rv"
    using ok lv rv by (auto simp: entry_ok_def evidence_le_def split: if_splits)
  then have "entry_ok (live f a) (received change rv st (heap f ! a))"
    using ok lv rv st adopt_evidence [of "heap f ! a" rv change st]
    by (simp add: entry_ok_def received_def)
  then show "finv (?f\<lparr>retry := r\<rparr>)"
    using inv a by (simp, intro finv_upd) (simp_all add: received_def)
  show "evolves f (?f\<lparr>retry := r\<rparr>)" using rv by (simp, intro evolves_upd) (simp_all add: received_def)
  show "live (?f\<lparr>retry := r\<rparr>) b \<longleftrightarrow> live f b" for b
    by (simp, rule live_upd) (simp add: received_def)
qed (simp_all add: section_simps)

text \<open>The branches of \<open>Receive\<close>, as the rules the proofs use.\<close>

definition follows_change :: "followers \<Rightarrow> props \<Rightarrow> addr \<Rightarrow> bool" where
  "follows_change f message a \<longleftrightarrow>
     Text (field (fields_of (field message ''params'')) ''hostId'') = ''local'' \<and>
     map_of (entries f) (Text (field (fields_of (field message ''params'')) ''conversationId'')) = Some a \<and>
     Text (field message ''method'') = ''thread-stream-state-changed'' \<and>
     field message ''version'' = GNum (Fin 11) \<and> Text (field message ''sourceClientId'') = owner (heap f ! a)"

abbreviation change_of :: "props \<Rightarrow> props" where
  "change_of message \<equiv> fields_of (field (fields_of (field message ''params'')) ''change'')"

lemma Receive_change:
  assumes "finv f" "follows_change f message a"
  shows "Receive message f =
    (case change_revision (field (change_of message) ''revision'') of
       None \<Rightarrow> (fst (dropLocked a FUnavailable f), [FollowOff a, Closed])
     | Some rv \<Rightarrow>
         if rv \<le> revision (heap f ! a) then (f, [])
         else (case next_state (change_of message) (heap f ! a) of
           None \<Rightarrow> (fst (dropLocked a FUnavailable f), [FollowOff a, Closed])
         | Some st \<Rightarrow>
             ((upd a (received (change_of message) rv st) f)\<lparr>retry := delete_key (fid (heap f ! a)) (retry f)\<rparr>,
              [Changed (fid (heap f ! a))])))"
proof -
  have a: "map_of (entries f) (Text (field (fields_of (field message ''params'')) ''conversationId'')) = Some a"
    using assms(2) by (simp add: follows_change_def)
  note lk = finv_lookup [OF assms(1) a]
  show ?thesis
    using assms(2) lk receive_update [OF assms(1) lk(1,3)]
    by (simp add: Receive_def Let_def follows_change_def renew_updated_def close_updated_def
        split: option.splits)
qed

lemma Receive_cases:
  assumes "finv f"
  obtains (ignored) "Receive message f = (f, [])"
  | (status) a where "live f a" "a < length (heap f)" "Receive message f = (f, [FollowOn a ByReceive])"
  | (adopted) a rv st where "follows_change f message a" "live f a" "a < length (heap f)"
      "change_revision (field (change_of message) ''revision'') = Some rv" "revision (heap f ! a) < rv"
      "next_state (change_of message) (heap f ! a) = Some st"
      "Receive message f = ((upd a (received (change_of message) rv st) f)
         \<lparr>retry := delete_key (fid (heap f ! a)) (retry f)\<rparr>, [Changed (fid (heap f ! a))])"
  | (rejected) a where "follows_change f message a" "live f a" "a < length (heap f)"
      "Receive message f = (fst (dropLocked a FUnavailable f), [FollowOff a, Closed])"
proof -
  let ?p = "fields_of (field message ''params'')"
  let ?tid = "Text (field ?p ''conversationId'')"
  show thesis
  proof (cases "Text (field ?p ''hostId'') = ''local'' \<and> map_of (entries f) ?tid \<noteq> None")
    case False
    then show thesis by (intro ignored) (auto simp: Receive_def Let_def)
  next
    case True
    then obtain a where host: "Text (field ?p ''hostId'') = ''local''" and a: "map_of (entries f) ?tid = Some a" by auto
    note lk = finv_lookup [OF assms a]
    show thesis
    proof (cases "follows_change f message a")
      case False
      with host a lk status ignored show thesis
        by (cases "Text (field message ''method'') = ''thread-stream-following-status-requested'' \<and> field message ''version'' = GNum (Fin 1)")
          (auto simp: Receive_def Let_def follows_change_def)
    next
      case fc: True
      show thesis
        using Receive_change [OF assms fc] lk fc
        by (auto split: option.splits if_splits intro: ignored rejected adopted)
    qed
  qed
qed

lemma Receive_ok:
  assumes "finv f"
  shows "section_ok f (Receive message f) []"
  using assms
proof (cases rule: Receive_cases [of f message])
  case (adopted a rv st)
  with assms show ?thesis
    using received_ok [OF assms adopted(3,2,5) _ _ next_state_names [OF adopted(6)]] change_revision_bounds [OF adopted(4)]
    by simp
next
  case (rejected a)
  with assms show ?thesis by (auto simp: section_simps intro!: section_ok_drop)
next
  case (status a)
  with assms show ?thesis by (auto simp: section_ok_def section_simps)
qed (use assms in \<open>simp_all add: section_ok_refl\<close>)

subsection \<open>Interpretations\<close>

interpretation receive: follower_section "Receive message" "\<lambda>_. True" "\<lambda>_. []"
  by unfold_locales (rule Receive_ok)

interpretation unfollowing: follower_section "unfollow tid" "\<lambda>_. True" "\<lambda>_. []"
  by unfold_locales (rule unfollow_ok)

interpretation forgetting: follower_section "forget tid" "\<lambda>_. True" "\<lambda>_. []"
  by unfold_locales (rule forget_ok)

interpretation releasing: follower_section "release a immediate now" "\<lambda>f. a < length (heap f)" "\<lambda>_. []"
  by unfold_locales (rule release_ok)

interpretation disconnecting: follower_section Disconnected "\<lambda>_. True" "\<lambda>f. if stopped f then [] else map snd (entries f)"
  by unfold_locales (rule Disconnected_ok)

interpretation closing: follower_section Close "\<lambda>_. True" "\<lambda>_. []"
  by unfold_locales (rule Close_ok)

interpretation sweeping: follower_section "sweep now" "\<lambda>_. True" "\<lambda>_. []"
  by unfold_locales (rule sweep_ok)

interpretation watching: follower_section "watch_fire a now" "\<lambda>f. a < length (heap f)" "\<lambda>_. []"
  by unfold_locales (rule watch_fire_ok)

lemma do_call_ok:
  assumes "finv f" "allocated cl f"
  shows "section_ok f (do_call cl f) (call_losses cl f)"
proof (cases cl)
  case CDisconnected
  with assms Disconnected_ok [of f] show ?thesis by (auto simp: call_losses_def split: if_splits)
qed (use assms in \<open>simp_all add: Receive_ok owner_response_ok acquire_ok [simplified] release_ok unfollow_ok forget_ok
  detach_ok Close_ok sweep_ok call_losses_def allocated_def\<close>)

interpretation calls: follower_section "do_call cl" "allocated cl" "call_losses cl"
  by unfold_locales (rule do_call_ok)

subsection \<open>All interleavings\<close>

definition pending :: "config \<Rightarrow> task set" where
  "pending c = \<Union> (set ` set (threads c))"

definition broadcasting :: "config \<Rightarrow> nat" where
  "broadcasting c = sum_list (map (\<lambda>ts. length (filter is_broadcast ts)) (threads c))"

fun last_sent :: "addr \<Rightarrow> event list \<Rightarrow> bool" where
  "last_sent a [] = False"
| "last_sent a (Sent b on # es) = (if a = b then on else last_sent a es)"
| "last_sent a (e # es) = last_sent a es"

definition covered :: "config \<Rightarrow> addr \<Rightarrow> bool" where
  "covered c a \<longleftrightarrow> live (fol c) a \<or> FollowOff a \<in> pending c \<or> a \<in> set (lost c)"

definition cinv :: "config \<Rightarrow> bool" where
  "cinv c \<longleftrightarrow>
     finv (fol c) \<and> (\<forall>ts \<in> set (threads c). tasks_ok (fol c) ts) \<and>
     broadcasting c = (if sendMu c then 1 else 0) \<and>
     (\<forall>a < length (heap (fol c)).
        last_sent a (log c) \<or> (\<exists>who. Broadcast a who \<in> pending c) \<longrightarrow> covered c a)  \<and>
     (\<forall>a. last_sent a (log c) \<longrightarrow> a < length (heap (fol c)))"

lemma tasks_ok_evolves: "tasks_ok f ts \<Longrightarrow> evolves f g \<Longrightarrow> tasks_ok g ts"
  by (fastforce simp: tasks_ok_def evolves_def)

lemma cinv_initial: "cinv initial"
  by (simp add: cinv_def initial_def NewFollowers_def finv_def broadcasting_def)

lemma is_broadcast_simps [simp]:
  "is_broadcast (Broadcast a who)" "\<not> is_broadcast (FollowOff a)" "\<not> is_broadcast (FollowOn a who)"
  "\<not> is_broadcast (FollowFailed a who err)" "\<not> is_broadcast (Watch a)" "\<not> is_broadcast (ForgetSeen tid)"
  "\<not> is_broadcast (Changed tid)" "\<not> is_broadcast Closed"
  by (simp_all add: is_broadcast_def)

lemma section_live:
  assumes "section_ok f (g, ts) xs" "a < length (heap f)" "live f a"
  shows "live g a \<or> FollowOff a \<in> set ts \<or> a \<in> set xs"
  using assms by (auto simp: section_ok_def)

lemma cinv_call:
  assumes inv: "cinv c" and ok: "allocated cl (fol c)" "do_call cl (fol c) = (f, ts)"
  shows "cinv (c\<lparr>fol := f, threads := threads c @ [ts], lost := call_losses cl (fol c) @ lost c\<rparr>)"
proof -
  have s: "section_ok (fol c) (f, ts) (call_losses cl (fol c))"
    using calls.sound [of "fol c" cl] inv ok by (simp add: cinv_def)
  then have f: "finv f" "evolves (fol c) f" "tasks_ok f ts" "\<forall>t \<in> set ts. \<not> is_broadcast t"
    by (simp_all add: section_ok_def)
  let ?c = "c\<lparr>fol := f, threads := threads c @ [ts], lost := call_losses cl (fol c) @ lost c\<rparr>"
  have len: "length (heap (fol c)) \<le> length (heap f)" using f(2) by (simp add: evolves_def)
  have cov: "covered ?c a" if "covered c a" "a < length (heap (fol c))" for a
    using that section_live [OF s that(2)] by (auto simp: covered_def pending_def)
  have old: "a < length (heap (fol c))" if "last_sent a (log c) \<or> (\<exists>who. Broadcast a who \<in> pending ?c)" for a
    using that inv f(4) by (auto simp: cinv_def pending_def tasks_ok_def)
  have "covered ?c a" if "last_sent a (log c) \<or> (\<exists>who. Broadcast a who \<in> pending ?c)" for a
  proof -
    have "Broadcast a who \<in> pending c" if "Broadcast a who \<in> pending ?c" for who
      using that f(4) by (auto simp: pending_def)
    with \<open>last_sent a (log c) \<or> _\<close> inv old [OF \<open>last_sent a (log c) \<or> _\<close>] show ?thesis
      by (intro cov) (auto simp: cinv_def)
  qed
  moreover have "filter is_broadcast ts = []" using f(4) by (simp add: filter_empty_conv)
  ultimately show ?thesis
    using inv f len tasks_ok_evolves [OF _ f(2)] by (auto simp: cinv_def broadcasting_def intro: order_less_le_trans)
qed

text \<open>The contract of one task, seen from its configuration.\<close>

abbreviation held :: "config \<Rightarrow> nat" where
  "held c \<equiv> (if sendMu c then 1 else 0)"

definition task_ok :: "config \<Rightarrow> task \<Rightarrow> config \<Rightarrow> task list \<Rightarrow> bool" where
  "task_ok c t c' ts' \<longleftrightarrow>
     finv (fol c') \<and> evolves (fol c) (fol c') \<and> tasks_ok (fol c') ts' \<and> threads c' = threads c \<and>
     held c' + length (filter is_broadcast [t]) = held c + length (filter is_broadcast ts') \<and>
     set (lost c) \<subseteq> set (lost c') \<and>
     (\<forall>a < length (heap (fol c)). live (fol c) a \<longrightarrow> live (fol c') a \<or> FollowOff a \<in> set ts' \<or> a \<in> set (lost c')) \<and>
     (\<forall>a. last_sent a (log c') \<longrightarrow> last_sent a (log c) \<or> (\<exists>who. t = Broadcast a who)) \<and>
     (\<forall>a who. Broadcast a who \<in> set ts' \<longrightarrow> live (fol c') a) \<and>
     (\<forall>a. t = FollowOff a \<longrightarrow> \<not> last_sent a (log c') \<and> \<not> sendMu c \<or> a \<in> set (lost c'))"

lemma task_ok_section:
  assumes "section_ok (fol c) (f, ts') []" "\<not> is_broadcast t" "\<forall>a. t \<noteq> FollowOff a"
  shows "task_ok c t (c\<lparr>fol := f\<rparr>) ts'"
proof -
  have "filter is_broadcast ts' = []" using assms(1) by (simp add: section_ok_def filter_empty_conv)
  with assms show ?thesis by (fastforce simp: task_ok_def section_ok_def)
qed

lemma run_task_ok:
  assumes inv: "finv (fol c)" and alloc: "tasks_ok (fol c) [t]" and held: "is_broadcast t \<Longrightarrow> sendMu c"
    and run: "run_task t ok now c = Some (c', ts')"
  shows "task_ok c t c' ts'"
proof (cases t)
  case (FollowOff a)
  with run inv show ?thesis by (auto simp: task_ok_def tasks_ok_def split: if_splits)
next
  case (FollowOn a who)
  with run inv alloc show ?thesis by (auto simp: task_ok_def tasks_ok_def split: if_splits)
next
  case (Broadcast a who)
  with run inv alloc held show ?thesis by (auto simp: task_ok_def tasks_ok_def split: option.splits if_splits)
next
  case (FollowFailed a who err)
  have a: "a < length (heap (fol c))" using alloc FollowFailed by (simp add: tasks_ok_def)
  let ?f = "fst (dropLocked a err (fol c))"
  have d: "finv ?f" "evolves (fol c) ?f" "length (heap ?f) = length (heap (fol c))"
    using finv_drop [OF inv a] evolves_drop [OF inv a] drop_fields(1) [OF inv] by simp_all
  show ?thesis
  proof (cases who)
    case ByReceive
    with FollowFailed run d a drop_fields(5) [OF inv, of a err] show ?thesis
      by (auto simp: task_ok_def tasks_ok_def drop_live [OF inv a] split_def Let_def split: if_splits)
  next
    case ByAcquire
    with FollowFailed run d a drop_fields(5) [OF inv, of a err] show ?thesis
      by (auto simp: task_ok_def tasks_ok_def drop_live [OF inv a] split_def Let_def split: if_splits)
  qed
next
  case (Watch a)
  have a: "a < length (heap (fol c))" using alloc Watch by (simp add: tasks_ok_def)
  obtain f us where w: "watch_fire a now (fol c) = (f, us)" by force
  have "section_ok (fol c) (f, us) []" using watching.sound [OF inv a, of now] w by simp
  then have "task_ok c t (c\<lparr>fol := f\<rparr>) us" using Watch by (intro task_ok_section) simp_all
  moreover have "task_ok c t (c\<lparr>fol := fol c\<rparr>) []"
    using Watch inv by (intro task_ok_section section_ok_refl) simp_all
  ultimately show ?thesis using Watch run w by (auto split: if_splits)
next
  case (ForgetSeen tid)
  have "section_ok (fol c) ((fol c)\<lparr>seen_ids := removeAll tid (seen_ids (fol c))\<rparr>, []) []"
    using inv by (intro section_ok_keep) (simp_all add: tasks_ok_def)
  then have "task_ok c t (c\<lparr>fol := (fol c)\<lparr>seen_ids := removeAll tid (seen_ids (fol c))\<rparr>\<rparr>) []"
    using ForgetSeen by (intro task_ok_section) simp_all
  with ForgetSeen run show ?thesis by simp
next
  case (Changed tid)
  with run inv show ?thesis by (auto simp: task_ok_def tasks_ok_def)
next
  case Closed
  with run inv show ?thesis by (auto simp: task_ok_def tasks_ok_def)
qed

lemma pending_run:
  assumes "i < length xs" "xs ! i = t # ts"
  shows "u \<in> \<Union> (set ` set xs) \<Longrightarrow> u \<noteq> t \<Longrightarrow> u \<in> \<Union> (set ` set (xs[i := ts' @ ts]))"
    and "u \<in> \<Union> (set ` set (xs[i := ts' @ ts])) \<Longrightarrow> u \<in> set ts' \<or> u \<in> \<Union> (set ` set xs)"
    and "u \<in> set ts' \<Longrightarrow> u \<in> \<Union> (set ` set (xs[i := ts' @ ts]))"
proof -
  show "u \<in> set ts' \<Longrightarrow> u \<in> \<Union> (set ` set (xs[i := ts' @ ts]))"
    using assms(1) by (auto simp: set_update_memI intro!: bexI [of _ "ts' @ ts"])
  show "u \<in> set ts' \<or> u \<in> \<Union> (set ` set xs)" if u: "u \<in> \<Union> (set ` set (xs[i := ts' @ ts]))"
  proof -
    from u obtain ys where "ys \<in> set (xs[i := ts' @ ts])" "u \<in> set ys" by auto
    moreover have "set (xs[i := ts' @ ts]) \<subseteq> insert (ts' @ ts) (set xs)" by (rule set_update_subset_insert)
    moreover have "t # ts \<in> set xs" using assms nth_mem by metis
    ultimately show ?thesis by fastforce
  qed
  show "u \<in> \<Union> (set ` set (xs[i := ts' @ ts]))" if u: "u \<in> \<Union> (set ` set xs)" "u \<noteq> t"
  proof -
    from u(1) obtain ys where "ys \<in> set xs" "u \<in> set ys" by auto
    then obtain j where j: "j < length xs" "u \<in> set (xs ! j)" by (metis in_set_conv_nth)
    have "u \<in> set (xs[i := ts' @ ts] ! j)" using assms j u(2) by (cases "j = i") auto
    moreover have "xs[i := ts' @ ts] ! j \<in> set (xs[i := ts' @ ts])" using j(1) by (intro nth_mem) simp
    ultimately show ?thesis by blast
  qed
qed

lemma no_broadcast_pending:
  assumes "broadcasting c = 0"
  shows "Broadcast a who \<notin> pending c"
proof
  assume "Broadcast a who \<in> pending c"
  then obtain ts where "ts \<in> set (threads c)" "Broadcast a who \<in> set ts" by (auto simp: pending_def)
  moreover have "filter is_broadcast ts = []" if "ts \<in> set (threads c)" for ts
    using assms that by (simp add: broadcasting_def)
  ultimately show False by (metis filter_empty_conv is_broadcast_simps(1))
qed

lemma broadcasting_run:
  assumes "i < length (threads c)" "threads c ! i = t # ts"
  shows "broadcasting (c\<lparr>threads := (threads c)[i := ts' @ ts]\<rparr>) + length (filter is_broadcast [t]) =
    broadcasting c + length (filter is_broadcast ts')"
proof -
  let ?g = "\<lambda>ts. length (filter is_broadcast ts)" and ?xs = "threads c"
  have "?g (?xs ! i) \<le> sum_list (map ?g ?xs)"
    using assms(1) by (intro elem_le_sum_list [of i "map ?g ?xs", simplified]) auto
  then have "sum_list (map ?g (?xs[i := ts' @ ts])) + ?g (?xs ! i) = sum_list (map ?g ?xs) + ?g (ts' @ ts)"
    using assms(1) sum_list_update [of i "map ?g ?xs" "?g (ts' @ ts)"] by (simp add: map_update)
  with assms(2) show ?thesis by (auto simp: broadcasting_def)
qed

lemma pending_alloc: "cinv c \<Longrightarrow> t \<in> pending c \<Longrightarrow> task_addr t = Some a \<Longrightarrow> a < length (heap (fol c))"
  by (auto simp: cinv_def pending_def tasks_ok_def)

lemma broadcast_held:
  assumes "cinv c" "t \<in> pending c" "is_broadcast t"
  shows "sendMu c"
proof (rule ccontr)
  assume "\<not> sendMu c"
  then have "broadcasting c = 0" using assms(1) by (simp add: cinv_def)
  with assms(2,3) no_broadcast_pending [of c] show False by (auto simp: is_broadcast_def)
qed

lemma cinv_task_ok:
  assumes inv: "cinv c" and i: "i < length (threads c)" "threads c ! i = t # ts"
    and run: "run_task t ok now c = Some (c', ts')"
  shows "task_ok c t c' ts'" "t \<in> pending c" "t # ts \<in> set (threads c)"
proof -
  show mem: "t # ts \<in> set (threads c)" using i nth_mem by metis
  then show pend: "t \<in> pending c" by (force simp: pending_def)
  show "task_ok c t c' ts'"
    using inv mem run broadcast_held [OF inv pend]
    by (intro run_task_ok [of c t ok now]) (auto simp: cinv_def tasks_ok_def)
qed

lemma cinv_run:
  assumes inv: "cinv c" and i: "i < length (threads c)" "threads c ! i = t # ts"
    and run: "run_task t ok now c = Some (c', ts')"
  shows "cinv (c'\<lparr>threads := (threads c')[i := ts' @ ts]\<rparr>)"
proof -
  note ok = cinv_task_ok(1) [OF assms] and pendt = cinv_task_ok(2) [OF assms] and mem = cinv_task_ok(3) [OF assms]
  from ok have th: "threads c' = threads c" and ev: "evolves (fol c) (fol c')" by (simp_all add: task_ok_def)
  let ?c = "c'\<lparr>threads := (threads c')[i := ts' @ ts]\<rparr>"
  have len: "length (heap (fol c)) \<le> length (heap (fol c'))" using ev by (simp add: evolves_def)
  note pend = pending_run [OF i, where ts' = ts']
  have cov: "covered ?c a" if "covered c a" "a < length (heap (fol c))" "\<And>b. t = FollowOff b \<Longrightarrow> a = b \<Longrightarrow> a \<in> set (lost c')" for a
    using that ok pend(1) [of "FollowOff a"] pend(3) [of "FollowOff a"]
    by (auto simp: covered_def task_ok_def pending_def th)
  have active: "covered ?c a" if act: "last_sent a (log c') \<or> (\<exists>who. Broadcast a who \<in> pending ?c)" for a
  proof (cases "\<exists>who. Broadcast a who \<in> set ts'")
    case True
    then show ?thesis using ok by (auto simp: covered_def task_ok_def)
  next
    case False
    have "last_sent a (log c) \<or> (\<exists>who. Broadcast a who \<in> pending c)"
    proof (cases "last_sent a (log c')")
      case True
      then have "last_sent a (log c) \<or> (\<exists>who. t = Broadcast a who)" using ok by (simp add: task_ok_def)
      with pendt show ?thesis by blast
    next
      case no: False
      with act False pend(2) show ?thesis by (auto simp: pending_def th)
    qed
    moreover from this have a: "a < length (heap (fol c))"
      using inv by (auto simp: cinv_def tasks_ok_def pending_def)
    ultimately have "covered c a" using inv by (auto simp: cinv_def)
    then show ?thesis
    proof (rule cov [OF _ a])
      fix b assume b: "t = FollowOff b" "a = b"
      have none: "Broadcast a who \<notin> pending ?c" if "\<not> sendMu c" for who
        using that inv no_broadcast_pending [of c a who] False pend(2) [of "Broadcast a who"]
        by (auto simp: cinv_def pending_def th)
      from ok b have "\<not> last_sent a (log c') \<and> \<not> sendMu c \<or> a \<in> set (lost c')" by (auto simp: task_ok_def)
      with act none show "a \<in> set (lost c')" by blast
    qed
  qed
  have "tasks_ok (fol c') us" if "us \<in> set ((threads c')[i := ts' @ ts])" for us
  proof -
    have "us = ts' @ ts \<or> us \<in> set (threads c)"
      using that set_update_subset_insert [of "threads c" i "ts' @ ts"] by (auto simp: th)
    moreover have "tasks_ok (fol c') vs" if "vs \<in> set (threads c)" for vs
      using tasks_ok_evolves [OF _ ev, of vs] inv that by (simp add: cinv_def)
    moreover from this [OF mem] ok have "tasks_ok (fol c') (ts' @ ts)" by (auto simp: task_ok_def tasks_ok_def)
    ultimately show ?thesis by blast
  qed
  moreover have "broadcasting ?c = held c'"
    using broadcasting_run [OF i, of ts'] ok inv
    by (simp add: task_ok_def cinv_def th broadcasting_def split: if_splits)
  moreover have "a < length (heap (fol c'))" if "last_sent a (log c')" for a
  proof -
    have "last_sent a (log c) \<or> (\<exists>who. t = Broadcast a who)" using that ok by (simp add: task_ok_def)
    then have "a < length (heap (fol c))" using inv pending_alloc [OF inv pendt, of a] by (auto simp: cinv_def)
    with len show ?thesis by simp
  qed
  ultimately show ?thesis using ok active by (auto simp: cinv_def task_ok_def)
qed

lemma cinv_step: "fstep c c' \<Longrightarrow> cinv c \<Longrightarrow> cinv c'"
  by (induction rule: fstep.induct) (simp_all add: cinv_call cinv_run)

interpretation follower_system: invariant_system "\<lambda>c. c = initial" fstep cinv
  by unfold_locales (auto simp: cinv_initial cinv_step)

lemma reachable_cinv: "reachable c \<Longrightarrow> cinv c"
  using follower_system.inv_reach [of c] by (simp add: reachable_def follower_system.reach_def)

lemma fstep_evolves:
  assumes "fstep c c'" "cinv c"
  shows "evolves (fol c) (fol c')"
  using assms
proof cases
  case (new_call cl f ts)
  with assms(2) calls.sound [of "fol c" cl] show ?thesis by (simp add: cinv_def section_ok_def)
next
  case (run i t ts ok now c'' ts')
  from cinv_task_ok(1) [OF assms(2) run(2-4)] run(1) show ?thesis by (simp add: task_ok_def)
qed

lemma run_evolves: "fstep\<^sup>*\<^sup>* c c' \<Longrightarrow> cinv c \<Longrightarrow> evolves (fol c) (fol c') \<and> cinv c'"
  using follower_system.monotone_steps [of c c' "\<lambda>c c'. evolves (fol c) (fol c')"] follower_system.inv_steps [of c c']
  by (auto intro: evolves_trans fstep_evolves)

lemma live_entry:
  assumes "finv f" "live f a"
  shows "a < length (heap f)" "entry_ok True (heap f ! a)"
proof -
  show a: "a < length (heap f)" using finv_lookup(1) [OF assms(1)] assms(2) by (auto simp: live_def)
  show "entry_ok True (heap f ! a)" using finv_entry [OF assms(1) a] assms(2) by simp
qed

subsection \<open>Tracking the owner\<close>

text \<open>
  \<open>S r\<close> is the state the owner had at revision \<open>r\<close>. A message is truthful when the change it
  carries for the task leads to that state: a snapshot is the state, patches lead from the state
  of their base revision to it.
\<close>

definition truthful :: "(int \<Rightarrow> props) \<Rightarrow> string \<Rightarrow> string \<Rightarrow> props \<Rightarrow> bool" where
  "truthful S tid own m \<longleftrightarrow>
     (let ch = change_of m
      in Text (field (fields_of (field m ''params'')) ''conversationId'') = tid \<longrightarrow> Text (field m ''sourceClientId'') = own \<longrightarrow>
         (\<forall>r. change_revision (field ch ''revision'') = Some r \<longrightarrow>
           (Text (field ch ''type'') = ''snapshot'' \<longrightarrow> fields_of (field ch ''conversationState'') = S r) \<and>
           (Text (field ch ''type'') = ''patches'' \<longrightarrow>
             (\<forall>b res. field ch ''baseRevision'' = GNum (Fin (of_int b)) \<longrightarrow>
                ApplyDesktopPatches (GMap (S b)) (field ch ''patches'') = Inr res \<longrightarrow> fields_of res = S r))))"

definition tracks :: "(int \<Rightarrow> props) \<Rightarrow> followed \<Rightarrow> bool" where
  "tracks S e \<longleftrightarrow> (case fstate e of None \<Rightarrow> True | Some st \<Rightarrow> st = S (revision e))"

definition receive_all :: "props list \<Rightarrow> followers \<Rightarrow> followers" where
  "receive_all ms f = fold (\<lambda>m f. fst (Receive m f)) ms f"

lemma next_state_truthful:
  assumes "next_state (change_of m) e = Some st" "truthful S (fid e) (owner e) m" "tracks S e"
    and "change_revision (field (change_of m) ''revision'') = Some r"
    and "Text (field (fields_of (field m ''params'')) ''conversationId'') = fid e" "Text (field m ''sourceClientId'') = owner e"
  shows "st = S r"
proof (cases "Text (field (change_of m) ''type'') = ''snapshot''")
  case True
  with assms(1,2,4-6) show ?thesis by (simp add: next_state_def truthful_def Let_def split: if_splits)
next
  case False
  with assms(1) obtain s0 res where
    "Text (field (change_of m) ''type'') = ''patches''" "fstate e = Some s0"
    "field (change_of m) ''baseRevision'' = GNum (Fin (of_int (revision e)))"
    "ApplyDesktopPatches (GMap s0) (field (change_of m) ''patches'') = Inr res" "st = fields_of res"
    by (simp add: next_state_def Let_def split: if_splits option.splits sum.splits)
  moreover from this assms(3) have "s0 = S (revision e)" by (simp add: tracks_def)
  ultimately show ?thesis using assms(2,4-6) by (simp add: truthful_def Let_def)
qed

lemma Receive_tracks:
  assumes inv: "finv f" and lv: "live f a" and tr: "tracks S (heap f ! a)"
    and m: "truthful S (fid (heap f ! a)) (owner (heap f ! a)) m" and lv': "live (fst (Receive m f)) a"
  shows "tracks S (heap (fst (Receive m f)) ! a)"
  using inv
proof (cases rule: Receive_cases [of f m])
  case (adopted b rv st)
  show ?thesis
  proof (cases "b = a")
    case True
    have "Text (field (fields_of (field m ''params'')) ''conversationId'') = fid (heap f ! a)"
      using finv_lookup(2) [OF inv, of "Text (field (fields_of (field m ''params'')) ''conversationId'')" a] adopted(1) True
      by (simp add: follows_change_def)
    with next_state_truthful [of m "heap f ! a" st S rv] adopted(1,4,6) m tr True have "st = S rv"
      by (simp add: follows_change_def)
    with adopted(3,7) True show ?thesis by (simp add: upd_nth tracks_def received_def)
  next
    case False
    with adopted(7) tr live_entry(1) [OF inv lv] show ?thesis by (simp add: upd_nth)
  qed
next
  case (rejected b)
  with tr lv lv' live_entry(1) [OF inv lv] drop_live [OF inv rejected(3), of FUnavailable a] show ?thesis
    by (simp add: drop_fields(3) [OF inv])
qed (use tr in simp_all)

lemma receive_all_tracks:
  assumes "finv f" "live f a" "tracks S (heap f ! a)"
    and "\<forall>m \<in> set ms. truthful S (fid (heap f ! a)) (owner (heap f ! a)) m" "live (receive_all ms f) a"
  shows "tracks S (heap (receive_all ms f) ! a)"
  using assms
proof (induction ms arbitrary: f)
  case Nil
  then show ?case by (simp add: receive_all_def)
next
  case (Cons m ms)
  let ?g = "fst (Receive m f)"
  have a: "a < length (heap f)" using Cons.prems live_entry by blast
  have ev: "evolves f ?g" "finv ?g" using receive.sound [OF Cons.prems(1), of m] by (simp_all add: section_ok_def)
  have later: "receive_all (m # ms) f = receive_all ms ?g" by (simp add: receive_all_def)
  have stay: "finv g \<Longrightarrow> a < length (heap g) \<Longrightarrow> \<not> live g a \<Longrightarrow> \<not> live (receive_all ms' g) a" for g ms'
  proof (induction ms' arbitrary: g)
    case (Cons m' ms')
    with receive.sound [OF Cons.prems(1), of m'] receive.stays_dead [OF Cons.prems(1), of a m'] show ?case
      by (simp add: receive_all_def section_ok_def evolves_def)
  qed (simp add: receive_all_def)
  have lv: "live ?g a"
    using stay [OF ev(2)] ev(1) a Cons.prems(5) unfolding later evolves_def by (meson order_less_le_trans)
  have "tracks S (heap ?g ! a)" using Receive_tracks [OF Cons.prems(1-3) _ lv] Cons.prems(4) by simp
  with Cons.IH [OF ev(2) lv] Cons.prems ev(1) a show ?case by (simp add: later evolves_def)
qed

subsection \<open>Properties\<close>

text \<open>Two configurations the witnesses use: one subscription was made, and then everything was closed.\<close>

definition one_subscription :: config where
  "one_subscription = initial\<lparr>fol := create_entry ''t'' ''o'' 0 0 NewFollowers,
     threads := [[FollowOn 0 ByAcquire]]\<rparr>"

definition one_closed :: config where
  "one_closed = one_subscription\<lparr>
     fol := NewFollowers\<lparr>heap := [dropped_entry FUnavailable (new_followed ''t'' ''o'' 1 0 0)], stopped := True, nextGeneration := 1\<rparr>,
     threads := [[FollowOn 0 ByAcquire], [Closed, FollowOff 0]]\<rparr>"

lemma one_subscription_step: "fstep initial one_subscription"
proof -
  have "do_call (CAcquire ''t'' ''o'' 0 False False 0) (fol initial) =
      (create_entry ''t'' ''o'' 0 0 NewFollowers, [FollowOn 0 ByAcquire])"
    by (simp add: initial_def NewFollowers_def acquire_def create_entry_def touch_def upd_def touched_entry_def new_followed_def)
  from fstep.new_call [OF _ this] show ?thesis
    by (simp add: one_subscription_def initial_def allocated_def call_losses_def)
qed

lemma one_closed_step: "fstep one_subscription one_closed"
proof -
  have "do_call CClose (fol one_subscription) = (fol one_closed, [Closed, FollowOff 0])"
    by (simp add: one_subscription_def one_closed_def initial_def NewFollowers_def create_entry_def Close_def Let_def
        dropLocked_def live_def new_followed_def close_updated_def upd_def settleLocked_def delete_key_def dropped_entry_def)
  from fstep.new_call [OF _ this] show ?thesis
    by (simp add: one_subscription_def one_closed_def initial_def allocated_def call_losses_def)
qed

definition snapshot_message :: props where
  "snapshot_message =
     [(''method'', GStr ''thread-stream-state-changed''), (''version'', GNum (Fin 11)), (''sourceClientId'', GStr ''o''),
      (''params'', GObj [(''hostId'', GStr ''local''), (''conversationId'', GStr ''t''),
        (''change'', GObj [(''type'', GStr ''snapshot''), (''revision'', GNum (Fin 3)),
          (''conversationState'', GObj [(''id'', GStr ''t''), (''hostId'', GStr ''local'')])])])]"

definition one_snapshot :: config where
  "one_snapshot = one_subscription\<lparr>fol := fst (Receive snapshot_message (fol one_subscription)),
     threads := [[FollowOn 0 ByAcquire], snd (Receive snapshot_message (fol one_subscription))]\<rparr>"

lemma one_snapshot_step: "fstep one_subscription one_snapshot"
  using fstep.new_call [of "CReceive snapshot_message" one_subscription]
  by (simp add: one_snapshot_def one_subscription_def initial_def allocated_def call_losses_def)

lemma witness_follows: "follows_change (fol one_subscription) snapshot_message 0"
  by (simp add: follows_change_def snapshot_message_def field_def Text_def AsText_def one_subscription_def
      create_entry_def NewFollowers_def new_followed_def)

lemma witness_change:
  "change_revision (field (change_of snapshot_message) ''revision'') = Some 3"
  "Text (field (change_of snapshot_message) ''type'') = ''snapshot''"
  "fields_of (field (change_of snapshot_message) ''conversationState'') = [(''id'', GStr ''t''), (''hostId'', GStr ''local'')]"
  by (simp_all add: snapshot_message_def field_def Text_def AsText_def change_revision_def f64_is_integer_def)

lemma witness_entry:
  "revision (heap (fol one_subscription) ! 0) = - 1" "fid (heap (fol one_subscription) ! 0) = ''t''"
  "owner (heap (fol one_subscription) ! 0) = ''o''" "fstate (heap (fol one_subscription) ! 0) = None"
  "live (fol one_subscription) 0" "\<not> stopped (fol one_subscription)"
  by (simp_all add: one_subscription_def create_entry_def NewFollowers_def new_followed_def live_def)

lemma witness_reachable: "reachable one_subscription" "reachable one_closed" "reachable one_snapshot"
  using one_subscription_step one_closed_step one_snapshot_step by (auto simp: reachable_def intro: rtranclp.rtrancl_into_rtrancl)

text \<open>
  However calls, native messages, timers and failing broadcasts interleave, the service never
  follows more than four tasks, never two entries for one task, and none once it is stopped.
\<close>

theorem subscriptions_bounded:
  assumes "reachable c"
  shows "length (entries (fol c)) \<le> 4 \<and> distinct (map fst (entries (fol c))) \<and>
    (stopped (fol c) \<longrightarrow> entries (fol c) = [])"
  using reachable_cinv [OF assms] by (simp add: cinv_def finv_def)

theorem subscriptions_bounded_witness:
  "reachable one_subscription \<and> entries (fol one_subscription) = [(''t'', 0)] \<and> length (entries (fol one_subscription)) \<le> 4"
  using subscriptions_bounded [OF witness_reachable(1)] witness_reachable(1)
  by (simp add: one_subscription_def create_entry_def NewFollowers_def)

text \<open>
  C4. No interleaving closes a channel twice, which would end the process: the update channel of an
  entry is closed exactly when the entry has been dropped, and every dropped entry has released
  its waiters with an error.
\<close>

theorem no_double_close:
  assumes "reachable c" and "a < length (heap (fol c))"
  shows "\<not> panicked (fol c) \<and> (updated_closed (heap (fol c) ! a) \<longleftrightarrow> \<not> live (fol c) a) \<and>
    (\<not> live (fol c) a \<longrightarrow> settled (heap (fol c) ! a) \<and> ferror (heap (fol c) ! a) \<noteq> None)"
proof -
  have inv: "finv (fol c)" using reachable_cinv [OF assms(1)] by (simp add: cinv_def)
  then have "\<not> panicked (fol c)" by (simp add: finv_def)
  with finv_entry [OF inv assms(2)] show ?thesis by (auto simp: entry_ok_def split: if_splits)
qed

theorem no_double_close_witness:
  "reachable one_closed \<and> \<not> panicked (fol one_closed) \<and> updated_closed (heap (fol one_closed) ! 0)"
proof -
  have "0 < length (heap (fol one_closed))" "\<not> live (fol one_closed) 0"
    by (simp_all add: one_closed_def NewFollowers_def live_def)
  with no_double_close [OF witness_reachable(2), of 0] witness_reachable(2) show ?thesis by simp
qed

text \<open>
  C2. The owner is never left following a dropped entry: if the last broadcast for an entry said
  it is followed, then the entry is still subscribed, or the goroutine that dropped it is about to
  send the opposite, or the transport failed or disconnected for that entry. The lock \<open>sendMu\<close>
  around the check and the broadcast is what makes this hold.
\<close>

theorem no_stale_following:
  assumes "reachable c" and "last_sent a (log c)"
  shows "live (fol c) a \<or> FollowOff a \<in> pending c \<or> a \<in> set (lost c)"
  using reachable_cinv [OF assms(1)] assms(2) by (auto simp: cinv_def covered_def)

definition followed_config :: config where
  "followed_config = one_subscription\<lparr>threads := [[Watch 0]], log := [Sent 0 True]\<rparr>"

lemma followed_config_reachable: "reachable followed_config"
proof -
  let ?b = "one_subscription\<lparr>threads := [[Broadcast 0 ByAcquire]], sendMu := True\<rparr>"
  have "fstep one_subscription ?b"
    using fstep.run [of 0 one_subscription "FollowOn 0 ByAcquire" "[]" None 0 "one_subscription\<lparr>sendMu := True\<rparr>" "[Broadcast 0 ByAcquire]"]
    by (simp add: one_subscription_def initial_def create_entry_def NewFollowers_def live_def new_followed_def)
  moreover have "fstep ?b followed_config"
    using fstep.run [of 0 ?b "Broadcast 0 ByAcquire" "[]" None 0 "?b\<lparr>sendMu := False, log := [Sent 0 True]\<rparr>" "[Watch 0]"]
    by (simp add: followed_config_def one_subscription_def initial_def)
  ultimately show ?thesis using witness_reachable(1) by (auto simp: reachable_def intro: rtranclp.rtrancl_into_rtrancl)
qed

theorem no_stale_following_witness:
  "reachable followed_config \<and> last_sent 0 (log followed_config) \<and> live (fol followed_config) 0"
  using no_stale_following [OF followed_config_reachable, of 0] followed_config_reachable
  by (simp add: followed_config_def one_subscription_def initial_def pending_def)

text \<open>
  A stale handle is inert for ever: once an entry was dropped no later step revives it, reading
  its snapshot is refused, and releasing it changes nothing, in particular not the references of
  the entry that replaced it.
\<close>

theorem stale_handle_inert:
  assumes "reachable c" and "a < length (heap (fol c))" and "\<not> live (fol c) a" and "fstep\<^sup>*\<^sup>* c c'"
  shows "snapshot a (fol c') = Inl FUnavailable \<and> release a immediate now (fol c') = (fol c', [])"
proof -
  have "\<not> live (fol c') a"
    using run_evolves [OF assms(4) reachable_cinv [OF assms(1)]] assms(2,3) by (auto simp: evolves_def)
  then show ?thesis by (simp add: snapshot_def release_def)
qed

theorem stale_handle_inert_witness:
  "snapshot 0 (fol one_closed) = Inl FUnavailable \<and> release 0 True 7 (fol one_closed) = (fol one_closed, [])"
proof -
  have "0 < length (heap (fol one_closed))" "\<not> live (fol one_closed) 0"
    by (simp_all add: one_closed_def NewFollowers_def live_def)
  from stale_handle_inert [OF witness_reachable(2) this rtranclp.rtrancl_refl] show ?thesis by simp
qed

text \<open>
  A snapshot handed out is the state of the task that was asked for, on the local host, from an
  entry without error, at a revision a double represents exactly.
\<close>

theorem snapshot_of_task:
  assumes "reachable c" and "snapshot a (fol c) = Inr st"
  shows "names_task (fid (heap (fol c) ! a)) st \<and> settled (heap (fol c) ! a) \<and>
    0 \<le> revision (heap (fol c) ! a) \<and> revision (heap (fol c) ! a) < 2 ^ 53"
proof -
  have "live (fol c) a" "fstate (heap (fol c) ! a) = Some st"
    using assms(2) by (simp_all add: snapshot_def split: if_splits option.splits)
  with live_entry(2) [of "fol c" a] reachable_cinv [OF assms(1)] show ?thesis
    by (auto simp: cinv_def entry_ok_def split: if_splits)
qed

text \<open>
  A snapshot of the task from its owner at a newer revision is always adopted: the entry is
  settled without error at that revision, later readers get exactly the native state, a pending
  retry delay is cleared and the change is announced.
\<close>

theorem Receive_snapshot:
  assumes "reachable c" and "follows_change (fol c) m a"
    and "Text (field (change_of m) ''type'') = ''snapshot''"
    and "change_revision (field (change_of m) ''revision'') = Some rv" and "revision (heap (fol c) ! a) < rv"
    and "names_task (fid (heap (fol c) ! a)) (fields_of (field (change_of m) ''conversationState''))"
  shows "snapshot a (fst (Receive m (fol c))) = Inr (fields_of (field (change_of m) ''conversationState'')) \<and>
    revision (heap (fst (Receive m (fol c))) ! a) = rv \<and>
    map_of (retry (fst (Receive m (fol c)))) (fid (heap (fol c) ! a)) = None \<and>
    snd (Receive m (fol c)) = [Changed (fid (heap (fol c) ! a))]"
proof -
  let ?f = "fol c" and ?st = "fields_of (field (change_of m) ''conversationState'')"
  have inv: "finv ?f" using reachable_cinv [OF assms(1)] by (simp add: cinv_def)
  have "map_of (entries ?f) (Text (field (fields_of (field m ''params'')) ''conversationId'')) = Some a"
    using assms(2) by (simp add: follows_change_def)
  note lk = finv_lookup [OF inv this]
  have "next_state (change_of m) (heap ?f ! a) = Some ?st" using assms(3,6) by (simp add: next_state_def Let_def)
  then have run: "Receive m ?f = ((upd a (received (change_of m) rv ?st) ?f)
      \<lparr>retry := delete_key (fid (heap ?f ! a)) (retry ?f)\<rparr>, [Changed (fid (heap ?f ! a))])"
    using Receive_change [OF inv assms(2)] assms(4,5) by simp
  have "live (upd a (received (change_of m) rv ?st) ?f) a"
    using lk(3) live_upd [of "received (change_of m) rv ?st" a ?f a] by (simp add: received_def)
  with lk show ?thesis by (simp add: run snapshot_def upd_nth received_def map_of_delete)
qed

theorem Receive_snapshot_witness:
  "snapshot 0 (fst (Receive snapshot_message (fol one_subscription))) = Inr [(''id'', GStr ''t''), (''hostId'', GStr ''local'')] \<and>
   snd (Receive snapshot_message (fol one_subscription)) = [Changed ''t'']"
  using Receive_snapshot [OF witness_reachable(1) witness_follows] witness_change witness_entry
  by (simp add: names_task_def field_def Text_def AsText_def)

lemma one_snapshot_read: "snapshot 0 (fol one_snapshot) = Inr [(''id'', GStr ''t''), (''hostId'', GStr ''local'')]"
proof -
  have inv: "finv (fol one_subscription)" using reachable_cinv [OF witness_reachable(1)] by (simp add: cinv_def)
  have "next_state (change_of snapshot_message) (heap (fol one_subscription) ! 0) = Some [(''id'', GStr ''t''), (''hostId'', GStr ''local'')]"
    using witness_change witness_entry by (simp add: next_state_def Let_def names_task_def field_def Text_def AsText_def)
  with Receive_change [OF inv witness_follows] witness_change witness_entry show ?thesis
    using live_upd [of "received (change_of snapshot_message) 3 [(''id'', GStr ''t''), (''hostId'', GStr ''local'')]" 0 "fol one_subscription" 0]
      live_entry [OF inv witness_entry(5)]
    by (simp add: one_snapshot_def snapshot_def upd_nth received_def)
qed

theorem snapshot_of_task_witness:
  "snapshot 0 (fol one_snapshot) = Inr [(''id'', GStr ''t''), (''hostId'', GStr ''local'')] \<and>
   0 \<le> revision (heap (fol one_snapshot) ! 0)"
  using snapshot_of_task [OF witness_reachable(3) one_snapshot_read] one_snapshot_read by simp

text \<open>
  C1. The follower never diverges from its owner: if every message that arrives in the owner's name
  is truthful about the owner's states, then after any sequence of messages, with losses,
  repetitions and reorderings, an entry that is still subscribed holds exactly the owner's state
  at its revision.
\<close>

theorem follower_tracks_owner:
  assumes "reachable c" and "live (fol c) a" and "fstate (heap (fol c) ! a) = None"
    and "\<forall>m \<in> set ms. truthful S (fid (heap (fol c) ! a)) (owner (heap (fol c) ! a)) m"
    and "snapshot a (receive_all ms (fol c)) = Inr st"
  shows "st = S (revision (heap (receive_all ms (fol c)) ! a))"
proof -
  have inv: "finv (fol c)" using reachable_cinv [OF assms(1)] by (simp add: cinv_def)
  have "live (receive_all ms (fol c)) a" "fstate (heap (receive_all ms (fol c)) ! a) = Some st"
    using assms(5) by (auto simp: snapshot_def split: if_splits option.splits)
  with receive_all_tracks [OF inv assms(2) _ assms(4)] assms(3) show ?thesis by (simp add: tracks_def)
qed

theorem follower_tracks_owner_witness:
  "let S = (\<lambda>r :: int. [(''id'', GStr ''t''), (''hostId'', GStr ''local'')])
   in snapshot 0 (receive_all [snapshot_message] (fol one_subscription)) =
        Inr (S (revision (heap (receive_all [snapshot_message] (fol one_subscription)) ! 0)))"
proof -
  let ?S = "\<lambda>r :: int. [(''id'', GStr ''t''), (''hostId'', GStr ''local'')]"
  have "truthful ?S ''t'' ''o'' snapshot_message" using witness_change by (simp add: truthful_def Let_def)
  moreover have "snapshot 0 (receive_all [snapshot_message] (fol one_subscription)) = Inr (?S 3)"
    using one_snapshot_read by (simp add: receive_all_def one_snapshot_def)
  ultimately show ?thesis
    using follower_tracks_owner [OF witness_reachable(1) witness_entry(5,4), of "[snapshot_message]" ?S] witness_entry
    by (simp add: Let_def)
qed

text \<open>
  A settings change is confirmed only by native evidence for every requested field: once the
  known revision is \<open>r0\<close>, an adopted change confirms a patch exactly when it is a snapshot or
  its patches touch each requested field, the effort counting through the field the projection
  really reads. A message or usage patch confirms nothing.
\<close>

theorem confirms_iff_touched:
  assumes "evidence_le (settingsEvidence e) r0" and "r0 < rv"
  shows "confirms (settingsEvidence (adopt change rv st e)) r0 patch \<longleftrightarrow>
    Text (field change ''type'') = ''snapshot'' \<or>
    (let t = touched_by (field change ''patches'');
         uses = (field (fields_of (field st ''latestThreadSettings'')) ''effort'' \<noteq> GNil)
     in (p_Model patch = None \<or> t_model t) \<and>
        (p_Effort patch = None \<or> (if uses then t_effort t else t_fallback t)) \<and>
        (p_ServiceTier patch = None \<or> t_tier t))"
  using assms
  by (auto simp: confirms_def adopt_def recordSettingsEvidence_def evidence_le_def Let_def)

theorem confirms_iff_touched_witness:
  "\<not> confirms (settingsEvidence (adopt [(''type'', GStr ''patches''), (''patches'', GArr
        [GObj [(''path'', GArr [GStr ''turns''])]])] 4 [] (new_followed ''t'' ''o'' 1 0 0))) 3
     \<lparr>p_Model = Some ''m'', p_Effort = None, p_ServiceTier = None\<rparr>"
proof -
  have "evidence_le (settingsEvidence (new_followed ''t'' ''o'' 1 0 0)) 3" by (simp add: evidence_le_def new_followed_def)
  from confirms_iff_touched [OF this, of 4] show ?thesis
    by (simp add: Let_def touched_by_def touch_path_def field_def asArray_def Text_def AsText_def)
qed

text \<open>
  Generations identify entries: as long as fewer than \<open>2^64\<close> entries were ever made, two of them
  never share a generation, so a binding sealed for one is never valid for another.
\<close>

theorem generation_unique:
  assumes "reachable c" and "length (heap (fol c)) < 2 ^ 64" and "a < b" and "b < length (heap (fol c))"
  shows "generation (heap (fol c) ! a) \<noteq> generation (heap (fol c) ! b)"
proof
  assume "generation (heap (fol c) ! a) = generation (heap (fol c) ! b)"
  then have "(of_nat (Suc a) :: 64 word) = of_nat (Suc b)"
    using reachable_cinv [OF assms(1)] assms(3,4) by (simp add: cinv_def finv_def)
  then have "unat (of_nat (Suc a) :: 64 word) = unat (of_nat (Suc b) :: 64 word)" by simp
  then have "Suc a mod 2 ^ 64 = Suc b mod 2 ^ 64" by (simp only: unat_of_nat) simp
  moreover have "Suc a < 2 ^ 64" "Suc b < 2 ^ 64" using assms(2-4) by linarith+
  ultimately show False using assms(3) by simp
qed

definition two_subscriptions :: config where
  "two_subscriptions = one_subscription\<lparr>fol := create_entry ''u'' ''o'' 0 0 (fol one_subscription),
     threads := [[FollowOn 0 ByAcquire], [FollowOn 1 ByAcquire]]\<rparr>"

lemma two_subscriptions_reachable: "reachable two_subscriptions"
proof -
  have "do_call (CAcquire ''u'' ''o'' 0 False False 0) (fol one_subscription) =
      (create_entry ''u'' ''o'' 0 0 (fol one_subscription), [FollowOn 1 ByAcquire])"
    by (simp add: one_subscription_def NewFollowers_def acquire_def create_entry_def touch_def upd_def touched_entry_def new_followed_def)
  from fstep.new_call [OF _ this] have "fstep one_subscription two_subscriptions"
    by (simp add: two_subscriptions_def one_subscription_def initial_def allocated_def call_losses_def)
  with witness_reachable(1) show ?thesis by (auto simp: reachable_def intro: rtranclp.rtrancl_into_rtrancl)
qed

theorem generation_unique_witness:
  "generation (heap (fol two_subscriptions) ! 0) \<noteq> generation (heap (fol two_subscriptions) ! 1)"
proof -
  have "length (heap (fol two_subscriptions)) = 2"
    by (simp add: two_subscriptions_def one_subscription_def create_entry_def NewFollowers_def)
  with generation_unique [OF two_subscriptions_reachable, of 0 1] show ?thesis by simp
qed

end
