(* ===== verification/NativeReadCorrect.thy ===== *)
theory NativeReadCorrect
  imports NativeRead
begin

text \<open>
  Correctness of the native JSON reader: the retained-state bound, well-formedness and
  nesting of what it returns, that it never runs out of fuel, and the round trip of
  \<open>SurrogateText\<close> through \<open>MarshalJSON\<close> and \<open>Read\<close>.
\<close>

unbundle bit_operations_syntax

subsection \<open>The decoder monad\<close>

lemma dret_simp [simp]: "dret x d = (d, Inr x)"
  by (simp add: dret_def)

lemma dfail_simp [simp]: "dfail e d = (d, Inl e)"
  by (simp add: dfail_def)

lemma dbind_Inr: "m d = (d', Inr x) \<Longrightarrow> dbind m f d = f x d'"
  by (simp add: dbind_def)

lemma dbind_Inl: "m d = (d', Inl e) \<Longrightarrow> dbind m f d = (d', Inl e)"
  by (simp add: dbind_def)

text \<open>
  A decoder step is safe for \<open>Q\<close> when the retained count never falls, stays within the
  bound on success, and the result satisfies \<open>Q\<close>.
\<close>

definition dec_safe :: "('a \<Rightarrow> bool) \<Rightarrow> 'a dec \<Rightarrow> bool" where
  "dec_safe Q m \<longleftrightarrow>
     (\<forall>d d' r. m d = (d', r) \<longrightarrow> retained d \<le> retained d' \<and>
        (\<forall>x. r = Inr x \<longrightarrow> (retained d \<le> MaxRetainedBytes \<longrightarrow> retained d' \<le> MaxRetainedBytes) \<and> Q x))"

named_theorems dec_safe_rules \<open>composition rules for safe decoder steps\<close>

lemma dec_safeI:
  assumes "\<And>d d' r. m d = (d', r) \<Longrightarrow> retained d \<le> retained d'"
    and "\<And>d d' x. m d = (d', Inr x) \<Longrightarrow> retained d \<le> MaxRetainedBytes \<Longrightarrow> retained d' \<le> MaxRetainedBytes"
    and "\<And>d d' x. m d = (d', Inr x) \<Longrightarrow> Q x"
  shows "dec_safe Q m"
  unfolding dec_safe_def using assms by blast

lemma dec_safeD:
  assumes "dec_safe Q m" "m d = (d', r)"
  shows "retained d \<le> retained d'"
    and "r = Inr x \<Longrightarrow> retained d \<le> MaxRetainedBytes \<Longrightarrow> retained d' \<le> MaxRetainedBytes"
    and "r = Inr x \<Longrightarrow> Q x"
  using assms unfolding dec_safe_def by blast+

lemma dec_safe_mono: "dec_safe P m \<Longrightarrow> (\<And>x. P x \<Longrightarrow> Q x) \<Longrightarrow> dec_safe Q m"
  unfolding dec_safe_def by blast

lemma dec_safe_dret [dec_safe_rules]: "Q x \<Longrightarrow> dec_safe Q (dret x)"
  by (rule dec_safeI) auto

lemma dec_safe_dfail [dec_safe_rules]: "dec_safe Q (dfail e)"
  by (rule dec_safeI) auto

lemma dec_safe_dbind:
  assumes m: "dec_safe P m" and f: "\<And>x. P x \<Longrightarrow> dec_safe Q (f x)"
  shows "dec_safe Q (dbind m f)"
proof (rule dec_safeI)
  fix d d' r assume run: "dbind m f d = (d', r)"
  obtain d1 r1 where m1: "m d = (d1, r1)" by fastforce
  show "retained d \<le> retained d'"
  proof (cases r1)
    case (Inl e)
    with run m1 dec_safeD(1) [OF m m1] show ?thesis by (simp add: dbind_Inl)
  next
    case (Inr x)
    with run m1 have "f x d1 = (d', r)" by (simp add: dbind_Inr)
    from dec_safeD(1) [OF f [OF dec_safeD(3) [OF m m1 Inr]] this] dec_safeD(1) [OF m m1]
    show ?thesis by simp
  qed
next
  fix d d' y assume run: "dbind m f d = (d', Inr y)"
  then obtain d1 x where m1: "m d = (d1, Inr x)" and f1: "f x d1 = (d', Inr y)"
    by (auto simp: dbind_def split: prod.splits sum.splits)
  note px = dec_safeD(3) [OF m m1 refl]
  show "Q y" by (rule dec_safeD(3) [OF f [OF px] f1 refl])
  show "retained d' \<le> MaxRetainedBytes" if "retained d \<le> MaxRetainedBytes"
    using dec_safeD(2) [OF m m1 refl that] dec_safeD(2) [OF f [OF px] f1 refl] by blast
qed

lemma dec_safe_if [dec_safe_rules]:
  "(c \<Longrightarrow> dec_safe Q m) \<Longrightarrow> (\<not> c \<Longrightarrow> dec_safe Q n) \<Longrightarrow> dec_safe Q (if c then m else n)"
  by simp

lemma dec_safe_charge [dec_safe_rules]: "dec_safe (\<lambda>_. True) (charge n)"
  by (rule dec_safeI) (auto simp: charge_def Let_def split: if_splits)

lemma dec_safe_next [dec_safe_rules]: "dec_safe (\<lambda>_. True) next_byte"
  by (rule dec_safeI) (auto simp: next_byte_def split: list.splits)

lemma dec_safe_map_error [dec_safe_rules]: "dec_safe Q m \<Longrightarrow> dec_safe Q (map_error f m)"
  unfolding dec_safe_def map_error_def by (fastforce split: prod.splits sum.splits)

lemma dec_safe_charge_new_key [dec_safe_rules]: "dec_safe (\<lambda>_. True) (charge_new_key flds key)"
  unfolding charge_new_key_def by (intro dec_safe_rules) auto

lemma dec_safe_literal [dec_safe_rules]: "Q v \<Longrightarrow> dec_safe Q (dec_literal s v)"
  by (rule dec_safeI) (auto simp: dec_literal_def split: option.splits)

text \<open>Unreading a byte changes only the input.\<close>

lemma dec_safe_unread: "dec_safe Q m \<Longrightarrow> dec_safe Q (\<lambda>d. m (d\<lparr>inp := c # inp d\<rparr>))"
  unfolding dec_safe_def by (metis dstate.select_convs(2) dstate.surjective dstate.update_convs(1))

subsection \<open>Strings and numbers are safe\<close>

lemma dec_safe_emit: "dec_safe (\<lambda>_. True) (emit limit key u st)"
  unfolding emit_def by (intro dec_safe_if dec_safe_dfail dec_safe_dret dec_safe_dbind [OF dec_safe_charge]) auto

lemma dec_safe_emits: "dec_safe (\<lambda>_. True) (emits limit key us st)"
proof (induction us arbitrary: st)
  case Nil
  show ?case unfolding emits.simps by (rule dec_safe_dret) simp
next
  case (Cons u us)
  show ?case unfolding emits.simps by (rule dec_safe_dbind [OF dec_safe_emit Cons.IH])
qed

lemma dec_safe_str_loop: "dec_safe (\<lambda>_. True) (str_loop limit key s st)"
proof (induction s arbitrary: st rule: length_induct)
  case (1 s)
  show ?case
  proof (cases "read_item s")
    case (IUnits us r)
    with 1 have "dec_safe (\<lambda>_. True) (str_loop limit key r st')" for st'
      by (simp add: read_item_shorter)
    from dec_safe_dbind [OF dec_safe_emits this]
    have "dec_safe (\<lambda>_. True) (dbind (emits limit key us st) (str_loop limit key r))" .
    moreover have "str_loop limit key s st = dbind (emits limit key us st) (str_loop limit key r)"
      using IUnits by (intro ext) (simp add: str_loop.simps [of _ _ s] dbind_def)
    ultimately show ?thesis by simp
  qed (rule dec_safeI; auto simp: str_loop.simps [of _ _ s])+
qed

definition is_text :: "gval \<Rightarrow> bool" where
  "is_text v \<longleftrightarrow> (\<exists>s. v = GStr s \<or> v = GSur s)"

lemma dec_safe_str_finish: "dec_safe (\<lambda>(sh, v). is_text v) (str_finish st)"
  unfolding str_finish_def Let_def
  by (intro dec_safe_if dec_safe_dbind [OF dec_safe_charge] dec_safe_dret) (auto simp: is_text_def)

lemma dec_safe_string [dec_safe_rules]:
  "dec_safe (\<lambda>(sh, v). is_text v) (dec_string limit shared key)"
proof -
  have "dec_safe (\<lambda>_. True) (\<lambda>d. str_loop limit key (inp d) st d)" for st
    using dec_safe_str_loop [of limit key _ st] unfolding dec_safe_def by blast
  from dec_safe_dbind [OF this dec_safe_str_finish]
  show ?thesis unfolding dec_string_def by (simp add: dec_safe_def)
qed

lemma map_sum_Inr_iff: "map_sum f g r = Inr x \<longleftrightarrow> (\<exists>y. r = Inr y \<and> x = g y)"
  by (cases r) auto

lemma dec_safe_number [dec_safe_rules]: "(\<And>n. Q (GNum n)) \<Longrightarrow> dec_safe Q (dec_number b)"
  by (rule dec_safeI)
    (auto simp: dec_number_def Let_def dbind_def charge_def map_sum_Inr_iff split: if_splits sum.splits)

subsection \<open>Values, objects and arrays are safe\<close>

text \<open>What the reader returns at a nesting level: well-formed and within the nesting limit.\<close>

definition value_ok :: "nat \<Rightarrow> gval \<Rightarrow> bool" where
  "value_ok dep v \<longleftrightarrow> wf_gval v \<and> dep + depth v \<le> maxDepth"

lemma value_ok_text: "is_text v \<Longrightarrow> dep \<le> maxDepth \<Longrightarrow> value_ok dep v"
  by (auto simp: value_ok_def is_text_def)

lemma value_ok_GArr:
  "dep < maxDepth \<Longrightarrow> \<forall>v \<in> set vs. value_ok (Suc dep) v \<Longrightarrow> value_ok dep (GArr vs)"
  using depth_le_GArr [of vs "maxDepth - Suc dep"]
  by (fastforce simp: value_ok_def)

definition props_ok :: "nat \<Rightarrow> props \<Rightarrow> bool" where
  "props_ok dep ps \<longleftrightarrow> distinct (map fst ps) \<and> (\<forall>(k, v) \<in> set ps. value_ok dep v)"

lemma value_ok_GObj: "dep < maxDepth \<Longrightarrow> props_ok (Suc dep) ps \<Longrightarrow> value_ok dep (GObj ps)"
  using depth_le_GObj [of ps "maxDepth - Suc dep"]
  by (fastforce simp: value_ok_def props_ok_def)

lemma props_ok_set: "props_ok dep ps \<Longrightarrow> value_ok dep v \<Longrightarrow> props_ok dep (obj_set k v ps)"
  using set_obj_set [of k v ps] go_object.invar_put [of ps k v] by (auto simp: props_ok_def)

lemma dec_safe_loops:
  "(dep \<le> maxDepth \<longrightarrow> dec_safe (value_ok dep) (dec_value fuel ro p dep)) \<and>
   (dep < maxDepth \<longrightarrow> props_ok (Suc dep) ps \<longrightarrow> dec_safe (value_ok dep) (obj_loop fuel ro p (Suc dep) ps b)) \<and>
   (dep < maxDepth \<longrightarrow> (\<forall>v \<in> set vs. value_ok (Suc dep) v) \<longrightarrow>
      dec_safe (value_ok dep) (arr_loop fuel ro p (Suc dep) vs))"
proof (induction fuel arbitrary: p dep ps b vs)
  case 0
  show ?case unfolding dec_value.simps obj_loop.simps arr_loop.simps by (simp only: dec_safe_dfail simp_thms)
next
  case (Suc fuel)
  have V: "dep \<le> maxDepth \<Longrightarrow> dec_safe (value_ok dep) (dec_value fuel ro p dep)" for p dep
    using Suc.IH by blast
  have O: "dep < maxDepth \<Longrightarrow> props_ok (Suc dep) ps \<Longrightarrow>
      dec_safe (value_ok dep) (obj_loop fuel ro p (Suc dep) ps b)" for p dep ps b
    using Suc.IH by blast
  have A: "dep < maxDepth \<Longrightarrow> \<forall>v \<in> set vs. value_ok (Suc dep) v \<Longrightarrow>
      dec_safe (value_ok dep) (arr_loop fuel ro p (Suc dep) vs)" for p dep vs
    using Suc.IH by blast
  show ?case
  proof (intro conjI impI)
    assume dep: "dep \<le> maxDepth"
    show "dec_safe (value_ok dep) (dec_value (Suc fuel) ro p dep)"
      unfolding dec_value.simps
    proof (intro dec_safe_dbind [OF dec_safe_charge] dec_safe_dbind [OF dec_safe_map_error [OF dec_safe_next]]
        dec_safe_if dec_safe_dfail dec_safe_dbind [OF dec_safe_next] dec_safe_dret O
        dec_safe_dbind [OF dec_safe_string] dec_safe_literal dec_safe_number, goal_cases)
      case (4 c d c')
      then have "dep < maxDepth" by simp
      then have "dec_safe (value_ok dep) (\<lambda>d'. if c' = CHR '']'' then (d', Inr (GArr []))
          else arr_loop fuel ro p (Suc dep) [] (d'\<lparr>inp := c' # inp d'\<rparr>))"
        using dec_safe_unread [OF A [of dep "[]" p], of c'] dec_safe_dret [of "value_ok dep" "GArr []"]
        by (cases "c' = CHR '']''") (simp_all add: value_ok_def dret_def [abs_def])
      then show ?case .
    qed (auto simp: dep is_text_def props_ok_def value_ok_def intro!: dec_safe_dret)
  next
    assume "dep < maxDepth" "props_ok (Suc dep) ps"
    then show "dec_safe (value_ok dep) (obj_loop (Suc fuel) ro p (Suc dep) ps b)"
      unfolding obj_loop.simps
    proof (intro dec_safe_if dec_safe_dfail dec_safe_dbind [OF dec_safe_string], goal_cases)
      case (1 keyv)
      then show ?case unfolding case_prod_beta
        by (intro dec_safe_dbind [OF dec_safe_map_error [OF dec_safe_next]] dec_safe_if dec_safe_dfail
            dec_safe_dbind [OF V] dec_safe_dbind [OF dec_safe_charge_new_key] dec_safe_dbind [OF dec_safe_next]
            dec_safe_dret O value_ok_GObj props_ok_set) auto
    qed
  next
    assume "dep < maxDepth" "\<forall>v \<in> set vs. value_ok (Suc dep) v"
    then show "dec_safe (value_ok dep) (arr_loop (Suc fuel) ro p (Suc dep) vs)"
      unfolding arr_loop.simps
      by (intro dec_safe_dbind [OF V] dec_safe_dbind [OF dec_safe_next] dec_safe_if dec_safe_dret
          dec_safe_dfail A value_ok_GArr) auto
  qed
qed

lemma Read_bounded_safe:
  assumes "Read input ro = (n, Inr v)"
  shows "n \<le> MaxRetainedBytes" and "wf_gval v" and "depth v \<le> maxDepth"
proof -
  let ?d = "\<lparr>inp = input, retained = 0\<rparr>"
  obtain d where run: "dec_value (read_fuel input) ro [] 0 ?d = (d, Inr v)" and n: "n = retained d"
    using assms by (auto simp: Read_def next_byte_def split: prod.splits sum.splits list.splits)
  have safe: "dec_safe (value_ok 0) (dec_value (read_fuel input) ro [] 0)"
    using dec_safe_loops [of 0] by blast
  show "n \<le> MaxRetainedBytes" using dec_safeD(2) [OF safe run refl] n by simp
  show "wf_gval v" "depth v \<le> maxDepth" using dec_safeD(3) [OF safe run refl] by (simp_all add: value_ok_def)
qed

subsection \<open>The fuel is always enough\<close>

text \<open>
  A step makes progress \<open>k\<close> from a state when it does not run out of fuel there and, on
  success, leaves at least \<open>k\<close> bytes fewer.
\<close>

definition progress :: "nat \<Rightarrow> 'a dec \<Rightarrow> dstate \<Rightarrow> bool" where
  "progress k m d \<longleftrightarrow>
     (case m d of (d', Inl e) \<Rightarrow> e \<noteq> EFuel | (d', Inr x) \<Rightarrow> length (inp d') + k \<le> length (inp d))"

lemma progress_dbind:
  assumes "progress k m d"
    and "\<And>x d'. length (inp d') + k \<le> length (inp d) \<Longrightarrow> progress j (f x) d'"
  shows "progress (k + j) (dbind m f) d"
  using assms by (fastforce simp: progress_def dbind_def split: prod.splits sum.splits)

lemma progress_dbind0:
  "progress 0 m d \<Longrightarrow> (\<And>x d'. length (inp d') \<le> length (inp d) \<Longrightarrow> progress j (f x) d') \<Longrightarrow>
   progress j (dbind m f) d"
  using progress_dbind [of 0 m d j f] by simp

lemma progress_dbind1:
  "progress (Suc 0) m d \<Longrightarrow> (\<And>x d'. length (inp d') < length (inp d) \<Longrightarrow> progress 0 (f x) d') \<Longrightarrow>
   progress (Suc 0) (dbind m f) d"
  using progress_dbind [of "Suc 0" m d 0 f] by (simp add: less_eq_Suc_le)

lemma progress_weaken: "progress k m d \<Longrightarrow> j \<le> k \<Longrightarrow> progress j m d"
  by (auto simp: progress_def split: prod.splits sum.splits)

lemma progress_if:
  "(c \<Longrightarrow> progress k m d) \<Longrightarrow> (\<not> c \<Longrightarrow> progress k n d) \<Longrightarrow> progress k (if c then m else n) d"
  by simp

lemma progress_dret [simp]: "progress 0 (dret x) d"
  by (simp add: progress_def)

lemma progress_dfail [simp]: "e \<noteq> EFuel \<Longrightarrow> progress k (dfail e) d"
  by (simp add: progress_def)

lemma progress_charge [simp]: "progress 0 (charge n) d"
  by (simp add: progress_def charge_def Let_def)

lemma progress_charge_new_key [simp]: "progress 0 (charge_new_key flds key) d"
  by (simp add: charge_new_key_def)

lemma dropWhile_length_le: "length (dropWhile P xs) \<le> length xs"
  by (induction xs) auto

lemma progress_next [simp]: "progress (Suc 0) next_byte d"
  using dropWhile_length_le [of is_ws "inp d"]
  by (auto simp: progress_def next_byte_def split: list.splits)

lemma progress_next_error [simp]: "e \<noteq> EFuel \<Longrightarrow> progress (Suc 0) (map_error (\<lambda>_. e) next_byte) d"
  using progress_next [of d] by (auto simp: progress_def map_error_def split: prod.splits sum.splits)

lemma progress_next0:
  "(\<And>x d'. length (inp d') < length (inp d) \<Longrightarrow> progress 0 (f x) d') \<Longrightarrow> progress 0 (dbind next_byte f) d"
  using progress_dbind1 [OF progress_next, of d f] progress_weaken by blast

lemma progress_next_error0:
  "e \<noteq> EFuel \<Longrightarrow> (\<And>x d'. length (inp d') < length (inp d) \<Longrightarrow> progress 0 (f x) d') \<Longrightarrow>
   progress 0 (dbind (map_error (\<lambda>_. e) next_byte) f) d"
  using progress_dbind1 [OF progress_next_error, of e d f] progress_weaken by blast

lemma match_literal_le: "match_literal cs s = Some r \<Longrightarrow> length r \<le> length s"
  by (induction cs s rule: match_literal.induct) (auto split: if_splits)

lemma progress_literal [simp]: "progress 0 (dec_literal cs v) d"
  by (auto simp: progress_def dec_literal_def dest: match_literal_le split: option.splits)

lemma ParseFloat_error: "ParseFloat s = Inl e \<Longrightarrow> e = ERange"
  by (auto simp: ParseFloat_def split: float64.splits)

lemma progress_number [simp]: "progress 0 (dec_number b) d"
  using dropWhile_length_le [of number_char "inp d"]
  by (auto simp: progress_def dec_number_def Let_def dbind_def charge_def dest: ParseFloat_error
      split: sum.splits if_splits) (cases "ParseFloat (b # takeWhile number_char (inp d))"; auto dest: ParseFloat_error)+

lemma read_item_error: "read_item s = IErr e \<Longrightarrow> e \<noteq> EFuel"
proof -
  have "hex_unit n u s \<noteq> Inl EFuel" for n u s
    by (induction n u s rule: hex_unit.induct) (auto split: option.splits)
  then show "read_item s = IErr e \<Longrightarrow> e \<noteq> EFuel"
    by (auto simp: read_item_def escape_item_def split: list.splits if_splits sum.splits prod.splits)
qed

lemma emits_keeps_input:
  "emits limit key us st d = (d', r) \<Longrightarrow> inp d' = inp d \<and> r \<noteq> Inl EFuel"
  by (induction us arbitrary: st d)
    (fastforce simp: emit_def dbind_def charge_def Let_def split: if_splits prod.splits sum.splits)+

lemma progress_str_loop: "length s \<le> length (inp d) \<Longrightarrow> progress 0 (str_loop limit key s st) d"
proof (induction limit key s st d rule: str_loop.induct)
  case (1 limit key s st d)
  show ?case
  proof (cases "read_item s")
    case (IClose r)
    with 1 show ?thesis by (auto simp: progress_def str_loop.simps [of _ _ s] dest!: read_item_close)
  next
    case (IUnits us r)
    obtain d' res where em: "emits limit key us st d = (d', res)" by fastforce
    note keep = emits_keeps_input [OF em] and short = read_item_shorter [OF IUnits]
    show ?thesis
    proof (cases res)
      case (Inl e)
      with em IUnits keep show ?thesis by (simp add: progress_def str_loop.simps [of _ _ s])
    next
      case (Inr st')
      have "progress 0 (str_loop limit key r st') d'"
        using "1.IH" [OF IUnits em [symmetric] Inr] keep short "1.prems" by simp
      then show ?thesis using em IUnits Inr keep
        by (simp add: progress_def str_loop.simps [of _ _ s] split: prod.splits sum.splits)
    qed
  next
    case (IErr e)
    with read_item_error show ?thesis by (simp add: progress_def str_loop.simps [of _ _ s])
  qed
qed

lemma progress_string [simp]: "progress 0 (dec_string limit shared key) d"
  unfolding dec_string_def [abs_def]
proof (rule progress_dbind0)
  show "progress 0 (\<lambda>d. str_loop limit key (inp d) (str_init shared) d) d"
    using progress_str_loop [of "inp d" d limit key "str_init shared"] by (simp only: progress_def order_refl)
next
  fix st d' show "progress 0 (str_finish st) d'"
    unfolding str_finish_def Let_def by (auto intro!: progress_dbind0)
qed

lemmas progress_steps =
  progress_if progress_dret progress_dfail progress_literal progress_number
  progress_dbind0 [OF progress_charge] progress_dbind0 [OF progress_charge_new_key]
  progress_dbind0 [OF progress_string] progress_next0 progress_next_error0

lemma progress_loops:
  "(2 * length (inp d) + 1 \<le> fuel \<longrightarrow> progress (Suc 0) (dec_value fuel ro p dep) d) \<and>
   (2 * length (inp d) + 2 \<le> fuel \<longrightarrow> progress 0 (obj_loop fuel ro p dep ps b) d) \<and>
   (2 * length (inp d) + 2 \<le> fuel \<longrightarrow> progress 0 (arr_loop fuel ro p dep vs) d)"
proof (induction fuel arbitrary: d p dep ps b vs)
  case 0
  show ?case by simp
next
  case (Suc fuel)
  have V: "2 * length (inp d) + 1 \<le> fuel \<Longrightarrow> progress (Suc 0) (dec_value fuel ro p dep) d" for d p dep
    using Suc.IH by blast
  have O: "2 * length (inp d) + 2 \<le> fuel \<Longrightarrow> progress 0 (obj_loop fuel ro p dep ps b) d" for d p dep ps b
    using Suc.IH by blast
  have A: "2 * length (inp d) + 2 \<le> fuel \<Longrightarrow> progress 0 (arr_loop fuel ro p dep vs) d" for d p dep vs
    using Suc.IH by blast
  have V0: "2 * length (inp d) + 1 \<le> fuel \<Longrightarrow> progress 0 (dec_value fuel ro p dep) d" for d p dep
    using V by (blast intro: progress_weaken)
  have unread: "progress 0 (\<lambda>d. dbind next_byte (\<lambda>c d'. if c = CHR '']'' then (d', Inr (GArr []))
      else arr_loop fuel ro p dep [] (d'\<lparr>inp := c # inp d'\<rparr>)) d) d"
    if "2 * length (inp d) + 2 \<le> fuel" for d p dep
  proof (cases "next_byte d")
    case (Pair d' r)
    show ?thesis
    proof (cases r)
      case (Inl e)
      with Pair progress_next [of d] show ?thesis by (simp add: progress_def dbind_def)
    next
      case (Inr c)
      with Pair progress_next [of d] have shorter: "length (inp d') < length (inp d)"
        by (simp add: progress_def)
      then have "progress 0 (arr_loop fuel ro p dep []) (d'\<lparr>inp := c # inp d'\<rparr>)"
        using that by (intro A) simp
      with Pair Inr shorter show ?thesis
        by (auto simp: progress_def dbind_def split: prod.splits sum.splits)
    qed
  qed
  show ?case
  proof (intro conjI impI)
    assume "2 * length (inp d) + 1 \<le> Suc fuel"
    then show "progress (Suc 0) (dec_value (Suc fuel) ro p dep) d"
      unfolding dec_value.simps
      by (intro progress_dbind0 [OF progress_charge] progress_dbind1 [OF progress_next_error])
        (simp, unfold case_prod_beta, intro progress_steps O unread, auto)
  next
    assume "2 * length (inp d) + 2 \<le> Suc fuel"
    then show "progress 0 (obj_loop (Suc fuel) ro p dep ps b) d"
      unfolding obj_loop.simps case_prod_beta
      by (intro progress_steps progress_dbind0 [OF V0] O) auto
  next
    assume "2 * length (inp d) + 2 \<le> Suc fuel"
    then show "progress 0 (arr_loop (Suc fuel) ro p dep vs) d"
      unfolding arr_loop.simps
      by (intro progress_steps progress_dbind0 [OF V0] A) auto
  qed
qed

lemma Read_fuel_enough: "snd (Read input ro) \<noteq> Inl EFuel"
proof -
  let ?d = "\<lparr>inp = input, retained = 0\<rparr>"
  have "progress (Suc 0) (dec_value (read_fuel input) ro [] 0) ?d"
    using progress_loops [of ?d "read_fuel input" ro "[]" 0] by (simp add: read_fuel_def)
  then show ?thesis
    by (auto simp: Read_def progress_def split: prod.splits sum.splits)
qed

subsection \<open>Text round trip\<close>

definition units_of :: "nat \<Rightarrow> nat list" where
  "units_of c = (if c < 65536 then [c] else [fst (utf16_EncodeRune c), snd (utf16_EncodeRune c)])"

lemma hex_digit_hex_char: "d < 16 \<Longrightarrow> hex_digit (hex_char d) = Some d"
  by (auto simp: hex_digit_def hex_char_def)

lemma hex_step: "take_bit 16 (push_bit 4 u) OR d = 16 * u + d" if "u < 4096" "d < 16" for u d :: nat
proof -
  have "take_bit 16 (push_bit 4 u) = push_bit 4 u"
    using that by (intro take_bit_nat_eq_self) (simp add: push_bit_eq_mult)
  with push_bit_or_add [of d 4 u] that show ?thesis by simp
qed

lemma hex_unit_char:
  "u < 4096 \<Longrightarrow> d < 16 \<Longrightarrow> hex_unit (Suc n) u (hex_char d # s) = hex_unit n (16 * u + d) s"
  by (simp add: hex_digit_hex_char hex_step)

lemma hex_unit_four:
  assumes "a < 16" "b < 16" "c < 16" "e < 16"
  shows "hex_unit 4 0 (hex_char a # hex_char b # hex_char c # hex_char e # s) =
    Inr (16 * (16 * (16 * a + b) + c) + e, s)"
proof -
  have "hex_unit (Suc (Suc (Suc (Suc 0)))) 0 (hex_char a # hex_char b # hex_char c # hex_char e # s) =
    hex_unit 0 (16 * (16 * (16 * a + b) + c) + e) s"
    using assms by (simp add: hex_unit_char del: hex_unit.simps)
  then show ?thesis by (simp add: numeral_eq_Suc del: hex_unit.simps(3))
qed

lemma hex_value:
  assumes "u < (65536 :: nat)"
  shows "16 * (16 * (16 * (u div 4096 mod 16) + u div 256 mod 16) + u div 16 mod 16) + u mod 16 = u"
proof -
  have e1: "u div 4096 mod 16 = u div 4096" using assms by auto
  have e2: "16 * (u div 4096) + u div 256 mod 16 = u div 256"
    using div_mult_mod_eq [of "u div 256" 16] by (simp add: div_mult2_eq [symmetric])
  have e3: "16 * (u div 256) + u div 16 mod 16 = u div 16"
    using div_mult_mod_eq [of "u div 16" 16] by (simp add: div_mult2_eq [symmetric])
  show ?thesis by (simp only: e1 e2 e3) simp
qed

lemma read_u_escape: "u < 65536 \<Longrightarrow> read_item (u_escape u @ s) = IUnits [u] s"
  using hex_unit_four [of "u div 4096 mod 16" "u div 256 mod 16" "u div 16 mod 16" "u mod 16" s] hex_value [of u]
  by (simp add: u_escape_def escape_item_def read_item_def)

lemma read_escape_pair:
  "read_item (CHR 0x5C # CHR ''b'' # s) = IUnits [8] s"
  "read_item (CHR 0x5C # CHR ''f'' # s) = IUnits [12] s"
  "read_item (CHR 0x5C # CHR ''n'' # s) = IUnits [10] s"
  "read_item (CHR 0x5C # CHR ''r'' # s) = IUnits [13] s"
  "read_item (CHR 0x5C # CHR ''t'' # s) = IUnits [9] s"
  "read_item (CHR 0x5C # CHR 0x22 # s) = IUnits [34] s"
  "read_item (CHR 0x5C # CHR 0x5C # s) = IUnits [92] s"
  by (simp_all add: read_item_def escape_item_def)

lemma chr_special: "chr 34 = CHR 0x22" "chr 92 = CHR 0x5C"
  by (simp_all add: char_of_def bit_0)

lemma read_plain_ascii:
  assumes "32 \<le> c" "c < 128" "c \<noteq> 34" "c \<noteq> 92"
  shows "read_item (chr c # s) = IUnits [c] s"
proof -
  have "chr c \<noteq> CHR 0x22" "chr c \<noteq> CHR 0x5C"
    using assms by (auto simp: chr_special [symmetric])
  with assms show ?thesis by (simp add: read_item_def)
qed

lemma wtf8_multibyte:
  assumes "128 \<le> c" "c \<le> 1114111"
  obtains b r where "wtf8 c = b # r" "128 \<le> byte_of b" 
proof -
  have "c div 64 < 32 \<or> 2048 \<le> c" "c div 4096 < 16 \<or> 65536 \<le> c" "c div 262144 < 16" using assms by auto
  with assms have "128 \<le> byte_of (hd (wtf8 c))" by (auto simp: wtf8_def)
  then show ?thesis using that by (cases "wtf8 c") auto
qed

lemma read_plain_multibyte:
  assumes "scalar c" "128 \<le> c"
  shows "read_item (wtf8 c @ s) = IUnits (units_of c) s"
proof -
  from assms obtain b r where w: "wtf8 c = b # r" "128 \<le> byte_of b"
    by (auto simp: scalar_def elim: wtf8_multibyte)
  then have "b \<noteq> CHR 0x22" "b \<noteq> CHR 0x5C" by auto
  moreover have "DecodeRune (b # r @ s) = (c, length (wtf8 c))"
    using DecodeRune_wtf8 [OF assms(1), of s] w by simp
  ultimately show ?thesis using w
    by (auto simp: read_item_def units_of_def split: prod.splits)
qed

lemma read_cp_escape:
  assumes "c \<le> 1114111"
  shows "read_item (cp_escape c @ s) = IUnits (units_of c) s"
proof (cases "is_surrogate c")
  case True
  then show ?thesis by (simp add: cp_escape_def read_u_escape units_of_def is_surrogate_def)
next
  case False
  with assms have sc: "scalar c" by (simp add: scalar_def)
  show ?thesis
  proof (cases "c < 128")
    case True
    then show ?thesis using False sc
      by (auto simp: cp_escape_def escape_rune_def EncodeRune_scalar wtf8_def units_of_def
          read_escape_pair chr_special read_u_escape read_plain_ascii)
  next
    case F: False
    with False sc show ?thesis
      by (simp add: cp_escape_def escape_rune_def EncodeRune_scalar read_plain_multibyte)
  qed
qed

subsection \<open>Reassembling code points\<close>

definition emit_all :: "nat list \<Rightarrow> strst \<Rightarrow> strst" where
  "emit_all us st = foldl (\<lambda>st u. emit_unit u st) st us"

lemma emit_all_simps [simp]:
  "emit_all [] st = st" "emit_all (u # us) st = emit_all us (emit_unit u st)"
  "emit_all (us @ vs) st = emit_all vs (emit_all us st)"
  by (simp_all add: emit_all_def)

lemma emits_unbounded:
  "retained d + 2 * length us \<le> MaxRetainedBytes \<Longrightarrow>
   emits (- 1) key us st d = (d\<lparr>retained := retained d + 2 * length us\<rparr>, Inr (emit_all us st))"
  by (induction us arbitrary: st d) (simp_all add: emit_def dbind_def charge_def Let_def)

lemma str_loop_text:
  assumes "\<forall>c \<in> set cps. c \<le> 1114111"
    and "retained d + 2 * length (concat (map units_of cps)) \<le> MaxRetainedBytes"
  shows "str_loop (- 1) key (concat (map cp_escape cps) @ CHR 0x22 # s) st d =
    (d\<lparr>inp := s, retained := retained d + 2 * length (concat (map units_of cps))\<rparr>,
     Inr (emit_all (concat (map units_of cps)) st))"
  using assms
proof (induction cps arbitrary: st d)
  case Nil
  show ?case by (simp add: str_loop.simps read_item_def)
next
  case (Cons c cps)
  have "emits (- 1) key (units_of c) st d =
      (d\<lparr>retained := retained d + 2 * length (units_of c)\<rparr>, Inr (emit_all (units_of c) st))"
    using Cons.prems by (intro emits_unbounded) simp
  with Cons show ?case
    by (simp add: str_loop.simps [of _ _ "cp_escape c @ _"] read_cp_escape add.assoc)
qed

text \<open>The text a string state stands for: what \<open>str_finish\<close> writes without a budget.\<close>

definition settled_out :: "strst \<Rightarrow> string" where
  "settled_out st = s_out st @ (if s_pending st \<noteq> 0 then writeUnit (s_pending st) else [])"

definition settled_unpaired :: "strst \<Rightarrow> bool" where
  "settled_unpaired st \<longleftrightarrow> s_unpaired st \<or> s_pending st \<noteq> 0"

definition pending_ok :: "strst \<Rightarrow> bool" where
  "pending_ok st \<longleftrightarrow> s_pending st = 0 \<or> is_high (s_pending st)"

lemma utf16_pair:
  assumes "65536 \<le> c" "c \<le> 1114111"
  shows "is_high (fst (utf16_EncodeRune c))" "is_low (snd (utf16_EncodeRune c))"
    and "utf16_DecodeRune (fst (utf16_EncodeRune c)) (snd (utf16_EncodeRune c)) = c"
proof -
  have "(c - 65536) div 1024 \<le> 1023" "(c - 65536) mod 1024 \<le> 1023"
    using assms mod_less_divisor [of 1024 "c - 65536"] by (auto simp: less_eq_div_iff_mult_less_eq simp del: mod_less_divisor)
  then show "is_high (fst (utf16_EncodeRune c))" "is_low (snd (utf16_EncodeRune c))"
    and "utf16_DecodeRune (fst (utf16_EncodeRune c)) (snd (utf16_EncodeRune c)) = c"
    using assms by (simp_all add: utf16_EncodeRune_def utf16_DecodeRune_def is_high_def is_low_def)
qed

text \<open>One unit that does not complete a pending pair.\<close>

lemma emit_unit_single:
  assumes "u < 65536" "\<not> (s_pending st \<noteq> 0 \<and> is_low u)"
  shows "settled_out (emit_unit u st) = settled_out st @ wtf8 u"
    and "settled_unpaired (emit_unit u st) \<longleftrightarrow> settled_unpaired st \<or> is_surrogate u"
    and "s_pending (emit_unit u st) = (if is_high u then u else 0)"
  using assms writeUnit_wtf8 [OF assms(1)]
  by (auto simp: emit_unit_def settled_out_def settled_unpaired_def is_low_def is_high_def
      is_surrogate_def Let_def)

lemma emit_unit_frame:
  "s_truncated (emit_unit u st) = s_truncated st"
  "s_shared st = None \<Longrightarrow> s_shared (emit_unit u st) = None"
  by (simp_all add: emit_unit_def Let_def)

lemma emit_unit_low:
  assumes "is_high (s_pending st)" "is_low u"
  shows "emit_unit u st = st\<lparr>s_units := Suc (s_units st),
      s_shared := map_option (\<lambda>b. b\<lparr>remaining := remaining b - 1\<rparr>) (s_shared st),
      s_out := s_out st @ EncodeRune (utf16_DecodeRune (s_pending st) u), s_pending := 0\<rparr>"
  using assms by (simp add: emit_unit_def Let_def is_high_def is_low_def)

lemma emit_unit_high_out:
  assumes "is_high u"
  shows "s_out (emit_unit u st) = settled_out st" and "s_unpaired (emit_unit u st) \<longleftrightarrow> settled_unpaired st"
  using assms by (auto simp: emit_unit_def Let_def is_high_def settled_out_def settled_unpaired_def)

lemma emit_code_point:
  assumes c: "c \<le> 1114111" and pend: "\<not> (s_pending st \<noteq> 0 \<and> is_low c)"
  defines "st' \<equiv> emit_all (units_of c) st"
  shows "settled_out st' = settled_out st @ wtf8 c"
    and "settled_unpaired st' \<longleftrightarrow> settled_unpaired st \<or> is_surrogate c"
    and "s_pending st' = (if is_high c then c else 0)"
proof (atomize (full), cases "c < 65536")
  case True
  with emit_unit_single [OF True pend] show "settled_out st' = settled_out st @ wtf8 c \<and>
    settled_unpaired st' = (settled_unpaired st \<or> is_surrogate c) \<and> s_pending st' = (if is_high c then c else 0)"
    by (simp add: st'_def units_of_def)
next
  case False
  define hi lo where "hi = fst (utf16_EncodeRune c)" and "lo = snd (utf16_EncodeRune c)"
  have pair: "is_high hi" "is_low lo" "utf16_DecodeRune hi lo = c"
    using utf16_pair [of c] False c by (simp_all add: hi_def lo_def)
  have st': "st' = emit_unit lo (emit_unit hi st)"
    using False by (simp add: st'_def units_of_def hi_def lo_def)
  have "\<not> is_low hi" "hi < 65536" using pair(1) by (auto simp: is_high_def is_low_def)
  then have p: "s_pending (emit_unit hi st) = hi" using pair(1) by (simp add: emit_unit_single(3))
  have "EncodeRune c = wtf8 c" "\<not> is_surrogate c" "\<not> is_high c"
    using False c by (auto simp: EncodeRune_def is_surrogate_def is_high_def)
  then show "settled_out st' = settled_out st @ wtf8 c \<and>
    settled_unpaired st' = (settled_unpaired st \<or> is_surrogate c) \<and> s_pending st' = (if is_high c then c else 0)"
    using emit_unit_low [of "emit_unit hi st" lo] emit_unit_high_out [OF pair(1), of st] pair p
    unfolding st' by (simp add: settled_out_def [of "_\<lparr>s_units := _, s_shared := _, s_out := _, s_pending := 0\<rparr>"]
        settled_unpaired_def [of "_\<lparr>s_units := _, s_shared := _, s_out := _, s_pending := 0\<rparr>"])
qed

lemma emit_text:
  assumes "native_text cps" "s_pending st \<noteq> 0 \<longrightarrow> cps = [] \<or> \<not> is_low (hd cps)"
  shows "settled_out (emit_all (concat (map units_of cps)) st) = settled_out st @ wtf8s cps \<and>
    settled_unpaired (emit_all (concat (map units_of cps)) st) =
      (settled_unpaired st \<or> (\<exists>c \<in> set cps. is_surrogate c))"
  using assms
proof (induction cps arbitrary: st)
  case Nil
  then show ?case by simp
next
  case (Cons c cps)
  let ?st = "emit_all (units_of c) st"
  have c: "c \<le> 1114111" "\<not> (s_pending st \<noteq> 0 \<and> is_low c)"
    using Cons.prems by (auto simp: native_text_def)
  note step = emit_code_point [OF c]
  have "s_pending ?st \<noteq> 0 \<longrightarrow> cps = [] \<or> \<not> is_low (hd cps)"
    using Cons.prems step(3) by (cases cps) (auto simp: native_text_def)
  from Cons.IH [OF native_text_ConsD [OF Cons.prems(1)] this] step show ?case by auto
qed

lemma emit_all_frame:
  "s_truncated (emit_all us st) = s_truncated st"
  "s_shared st = None \<Longrightarrow> s_shared (emit_all us st) = None"
  by (induction us arbitrary: st) (simp_all add: emit_unit_frame)

definition text_value :: "nat list \<Rightarrow> gval" where
  "text_value cps = (if \<exists>c \<in> set cps. is_surrogate c then GSur (wtf8s cps) else GStr (wtf8s cps))"

lemma str_finish_plain:
  "s_shared st = None \<Longrightarrow> str_finish st d =
     (d, Inr (None, if settled_unpaired st then GSur (settled_out st) else GStr (settled_out st)))"
  by (simp add: str_finish_def Let_def settled_out_def settled_unpaired_def)

definition text_cost :: "nat list \<Rightarrow> nat" where
  "text_cost cps = 32 + 2 * length (concat (map units_of cps))"

lemma Read_MarshalJSON:
  assumes "native_text cps" "text_cost cps \<le> MaxRetainedBytes"
  shows "Read (MarshalJSON (wtf8s cps)) ro = (text_cost cps, Inr (text_value cps))"
proof -
  let ?us = "concat (map units_of cps)" and ?d = "\<lparr>inp = [], retained = text_cost cps\<rparr>"
  let ?body = "concat (map cp_escape cps) @ [CHR 0x22]"
  have "str_loop (- 1) False ?body (str_init None) \<lparr>inp = ?body, retained = 32\<rparr> =
      (?d, Inr (emit_all ?us (str_init None)))"
    using str_loop_text [of cps "\<lparr>inp = ?body, retained = 32\<rparr>" False "[]" "str_init None"] assms
    by (simp add: native_text_def text_cost_def)
  moreover have "str_finish (emit_all ?us (str_init None)) ?d = (?d, Inr (None, text_value cps))"
    using emit_text [OF assms(1), of "str_init None"] emit_all_frame(2) [of "str_init None" ?us]
    by (simp add: str_finish_plain text_value_def str_init_def settled_out_def settled_unpaired_def)
  ultimately have str: "dec_string (- 1) None False \<lparr>inp = ?body, retained = 32\<rparr> = (?d, Inr (None, text_value cps))"
    by (simp add: dec_string_def dbind_def)
  obtain f where f: "read_fuel (MarshalJSON (wtf8s cps)) = Suc f" by (cases "read_fuel (MarshalJSON (wtf8s cps))") (auto simp: read_fuel_def)
  have "dec_value (Suc f) ro [] 0 \<lparr>inp = MarshalJSON (wtf8s cps), retained = 0\<rparr> = (?d, Inr (text_value cps))"
    using str assms
    by (simp add: dbind_def charge_def MaxRetainedBytes_def map_error_def next_byte_def MarshalJSON_def
        marshal_body_wtf8s is_ws_def)
  then show ?thesis by (simp add: Read_def f next_byte_def)
qed

subsection \<open>Evaluation on closed inputs\<close>

lemmas reader_numeral =
  dec_value.simps(2) [of "pred_numeral k" for k, folded numeral_eq_Suc]
  obj_loop.simps(2) [of "pred_numeral k" for k, folded numeral_eq_Suc]
  arr_loop.simps(2) [of "pred_numeral k" for k, folded numeral_eq_Suc]

lemmas reader_eval =
  Read_def read_fuel_def reader_numeral dbind_def charge_def MaxRetainedBytes_def
  map_error_def next_byte_def is_ws_def dec_literal_def maxDepth_def Let_def

text \<open>A string without escapes is read as it is written.\<close>

definition bare_char :: "char \<Rightarrow> bool" where
  "bare_char c \<longleftrightarrow> 32 \<le> byte_of c \<and> byte_of c < 128 \<and> c \<noteq> CHR 0x22 \<and> c \<noteq> CHR 0x5C"

lemma read_bare: "bare_char c \<Longrightarrow> read_item (c # s) = IUnits [byte_of c] s"
  by (simp add: read_item_def bare_char_def)

lemma emit_bare:
  assumes "byte_of c < 128" "s_pending st = 0" "s_shared st = None" "limit < 0 \<or> int (s_units st) < limit" "retained d + 2 \<le> MaxRetainedBytes"
  shows "emits limit key [byte_of c] st d =
    (d\<lparr>retained := retained d + 2\<rparr>, Inr (st\<lparr>s_units := Suc (s_units st), s_out := s_out st @ [c]\<rparr>))"
proof -
  have "writeUnit (byte_of c) = [c]" using assms(1) by (simp add: writeUnit_def EncodeRune_def wtf8_def is_surrogate_def)
  then show ?thesis using assms by (auto simp: emit_def emit_unit_def dbind_def charge_def Let_def)
qed

lemma str_loop_bare:
  assumes "list_all bare_char s" "s_pending st = 0" "s_shared st = None" "limit < 0 \<or> int (s_units st + length s) \<le> limit"
    "retained d + 2 * length s \<le> MaxRetainedBytes"
  shows "str_loop limit key (s @ CHR 0x22 # r) st d =
    (d\<lparr>inp := r, retained := retained d + 2 * length s\<rparr>, Inr (st\<lparr>s_units := s_units st + length s, s_out := s_out st @ s\<rparr>))"
  using assms
proof (induction s arbitrary: st d)
  case Nil
  then show ?case by (simp add: str_loop.simps [of limit key "CHR 0x22 # r"] read_item_def)
next
  case (Cons c s)
  have c: "bare_char c" "list_all bare_char s" using Cons.prems(1) by simp_all
  have e: "emits limit key [byte_of c] st d =
      (d\<lparr>retained := retained d + 2\<rparr>, Inr (st\<lparr>s_units := Suc (s_units st), s_out := s_out st @ [c]\<rparr>))"
    by (rule emit_bare) (use Cons.prems c in \<open>auto simp: bare_char_def\<close>)
  have "str_loop limit key ((c # s) @ CHR 0x22 # r) st d =
      str_loop limit key (s @ CHR 0x22 # r) (st\<lparr>s_units := Suc (s_units st), s_out := s_out st @ [c]\<rparr>) (d\<lparr>retained := retained d + 2\<rparr>)"
    by (simp only: append_Cons str_loop.simps [of limit key "c # s @ CHR 0x22 # r"] read_bare [OF c(1)] str_item.case e prod.case sum.case)
  also have "\<dots> = (d\<lparr>inp := r, retained := retained d + 2 * length (c # s)\<rparr>, Inr (st\<lparr>s_units := s_units st + length (c # s), s_out := s_out st @ c # s\<rparr>))"
    by (subst Cons.IH) (use Cons.prems c in auto)
  finally show ?case .
qed

lemma dec_string_bare:
  assumes "dropWhile bare_char (inp d) = CHR 0x22 # r" "limit < 0 \<or> int (length (takeWhile bare_char (inp d))) \<le> limit"
    "retained d + 2 * length (takeWhile bare_char (inp d)) \<le> MaxRetainedBytes"
  shows "dec_string limit None key d =
    (d\<lparr>inp := r, retained := retained d + 2 * length (takeWhile bare_char (inp d))\<rparr>, Inr (None, GStr (takeWhile bare_char (inp d))))"
proof -
  let ?s = "takeWhile bare_char (inp d)"
  have split: "inp d = ?s @ CHR 0x22 # r" using assms(1) takeWhile_dropWhile_id [of bare_char "inp d"] by simp
  have "list_all bare_char ?s" by (auto simp: list_all_iff dest: set_takeWhileD)
  then have "str_loop limit key (inp d) (str_init None) d =
      (d\<lparr>inp := r, retained := retained d + 2 * length ?s\<rparr>, Inr ((str_init None)\<lparr>s_units := length ?s, s_out := ?s\<rparr>))"
    using str_loop_bare [of ?s "str_init None" limit d key r] assms(2,3) split by (simp add: str_init_def)
  then show ?thesis by (simp add: dec_string_def dbind_def str_finish_def str_init_def)
qed

subsection \<open>Properties\<close>

text \<open>
  C3. Every native text, lone surrogates included, survives \<open>SurrogateText.MarshalJSON\<close>
  followed by \<open>Read\<close>: the reader returns exactly the same bytes, as a \<open>SurrogateText\<close>
  precisely when an unpaired surrogate occurs, and charges 32 plus two per UTF-16 unit.
\<close>

theorem surrogate_text_roundtrip:
  assumes "native_text cps" and "text_cost cps \<le> MaxRetainedBytes"
  shows "Read (MarshalJSON (wtf8s cps)) ro = (text_cost cps, Inr (text_value cps))"
  using assms by (rule Read_MarshalJSON)

theorem surrogate_text_roundtrip_witness:
  "Read (MarshalJSON (wtf8s [34, 55357, 10, 128512])) False =
     (42, Inr (GSur (wtf8s [34, 55357, 10, 128512])))"
proof -
  have "native_text [34, 55357, 10, 128512]"
    by (simp add: native_text_def is_high_def is_low_def)
  moreover have "text_cost [34, 55357, 10, 128512] = 42" by (simp add: text_cost_def units_of_def)
  moreover have "text_value [34, 55357, 10, 128512] = GSur (wtf8s [34, 55357, 10, 128512])"
    by (simp add: text_value_def is_surrogate_def)
  ultimately show ?thesis
    using surrogate_text_roundtrip [of "[34, 55357, 10, 128512]" False] by (simp add: MaxRetainedBytes_def)
qed

text \<open>
  C7. A document \<open>Read\<close> accepts was read within the retained-state bound, and the value
  has distinct keys in every object and at most \<open>maxDepth\<close> nested containers.
\<close>

theorem Read_bounded:
  assumes "Read input ro = (n, Inr v)"
  shows "n \<le> MaxRetainedBytes \<and> wf_gval v \<and> depth v \<le> maxDepth"
  using Read_bounded_safe [OF assms] by simp

theorem Read_bounded_witness:
  "Read ''[null,true]'' False = (96, Inr (GArr [GNil, GBool True])) \<and>
   96 \<le> MaxRetainedBytes \<and> depth (GArr [GNil, GBool True]) \<le> maxDepth"
proof -
  have "Read ''[null,true]'' False = (96, Inr (GArr [GNil, GBool True]))" by (simp add: reader_eval)
  with Read_bounded [OF this] show ?thesis by simp
qed

text \<open>
  C8. \<open>Read\<close> always returns: the recursion of the reader ends on every input, whatever its
  bytes, with a value or one of the reader's own errors.
\<close>

theorem Read_total: "snd (Read input ro) \<noteq> Inl EFuel"
  by (rule Read_fuel_enough)

end
