(* ===== verification/ToolPreview.thy ===== *)
theory ToolPreview
  imports NativeReadCorrect JsText "HOL-Library.List_Lexorder" "HOL-Library.Char_ord"
begin

text \<open>
  Bounded previews of tool arguments and results (\<open>internal/toolpreview/toolpreview.go\<close>): UTF-16
  counting and slicing of WTF-8 text, the value bounder and the serializer. The validity
  test \<open>json.Valid\<close> of the Go library is modelled as the state machine of its scanner.
\<close>

unbundle bit_operations_syntax

definition preview_limit :: nat where
  "preview_limit = PreviewUnits"

definition MaxBytes :: nat where
  "MaxBytes = 384 * 1024"

subsection \<open>UTF-16 units of WTF-8 text\<close>

definition nextUnit :: "string \<Rightarrow> nat \<times> nat" where
  "nextUnit s =
     (if 2 < length s \<and> byte_of (s ! 0) = 237 \<and> 160 \<le> byte_of (s ! 1) \<and> byte_of (s ! 1) \<le> 191 \<and>
         byte_of (s ! 2) AND 192 = 128
      then (1, 3)
      else let (r, n) = DecodeRune s in (if 65535 < r then 2 else 1, n))"

lemma nextUnit_size_pos: "s \<noteq> [] \<Longrightarrow> 0 < snd (nextUnit s)"
  using DecodeRune_size_pos [of s] by (auto simp: nextUnit_def split: prod.splits)

lemma nextUnit_progress: "s \<noteq> [] \<Longrightarrow> (w, n) = nextUnit s \<Longrightarrow> length s - n < length s"
  using nextUnit_size_pos [of s] by (metis diff_less length_greater_0_conv snd_conv)

function utf16Len :: "string \<Rightarrow> nat" where
  "utf16Len s = (if s = [] then 0 else let (w, n) = nextUnit s in w + utf16Len (drop n s))"
  by pat_completeness auto
termination
  by (relation "measure length") (auto dest: nextUnit_progress)

definition wtf8Unit :: "nat \<Rightarrow> string" where
  "wtf8Unit u = [chr (224 OR drop_bit 12 u), chr (128 OR (drop_bit 6 u AND 63)), chr (128 OR (u AND 63))]"

text \<open>The loop of \<open>sliceUTF16\<close>: the kept part of the unread suffix.\<close>

function slice_from :: "nat \<Rightarrow> nat \<Rightarrow> string \<Rightarrow> string" where
  "slice_from units cnt s =
     (if s = [] then []
      else let (w, n) = nextUnit s
           in if units < cnt + w then
                (if w = 2 \<and> cnt < units
                 then wtf8Unit (fst (utf16_EncodeRune (fst (DecodeRune s)))) else [])
              else if units \<le> cnt + w then take n s
              else take n s @ slice_from units (cnt + w) (drop n s))"
  by pat_completeness auto
termination
  by (relation "measure (\<lambda>(units, cnt, s). length s)") (auto dest: nextUnit_progress)

declare utf16Len.simps [simp del] slice_from.simps [simp del]

definition sliceUTF16 :: "string \<Rightarrow> int \<Rightarrow> string" where
  "sliceUTF16 s units = slice_from (nat units) 0 s"

definition trimTrailingHighSurrogate :: "string \<Rightarrow> string" where
  "trimTrailingHighSurrogate s =
     (let n = length s
      in if 3 \<le> n \<and> byte_of (s ! (n - 3)) = 237 \<and> 160 \<le> byte_of (s ! (n - 2)) \<and>
            byte_of (s ! (n - 2)) \<le> 175 \<and> byte_of (s ! (n - 1)) AND 192 = 128
         then take (n - 3) s else s)"

text \<open>The width of \<open>utf8.DecodeLastRuneInString\<close>.\<close>

definition rune_start :: "char \<Rightarrow> bool" where
  "rune_start c \<longleftrightarrow> byte_of c AND 192 \<noteq> 128"

definition last_rune_size :: "string \<Rightarrow> nat" where
  "last_rune_size s =
     (if s = [] then 0
      else if byte_of (last s) < 128 then 1
      else case find (\<lambda>k. k \<le> length s \<and> rune_start (s ! (length s - k))) [2, 3, 4] of
             Some k \<Rightarrow> if snd (DecodeRune (drop (length s - k) s)) = k then k else 1
           | None \<Rightarrow> 1)"

function shrink_bytes :: "nat \<Rightarrow> string \<Rightarrow> string" where
  "shrink_bytes budget prefix =
     (if budget < length prefix
      then shrink_bytes budget (take (length prefix - max 1 (last_rune_size prefix)) prefix) else prefix)"
  by pat_completeness auto
termination
  by (relation "measure (\<lambda>(b, p). length p)") auto

declare shrink_bytes.simps [simp del]

definition boundedText :: "string \<Rightarrow> nat \<Rightarrow> string" where
  "boundedText text budget =
     (if utf16Len text \<le> budget \<and> length text \<le> budget then text
      else shrink_bytes budget (trimTrailingHighSurrogate (sliceUTF16 text (int budget))) @ PreviewSuffix)"

subsection \<open>json.Valid\<close>

datatype vctx = VKey | VVal | VArr

datatype vstate =
    VBegin | VBeginOrEmpty | VKeyOrEmpty | VKeyBegin | VEnd | VDone | VStr | VEsc | VHex nat
  | VNeg | VInt | VZero | VDot | VFrac | VE | VESign | VExp | VLit string | VBad

definition is_vspace :: "char \<Rightarrow> bool" where
  "is_vspace c \<longleftrightarrow> is_ws c"

text \<open>A value is complete: at the top level nothing but white space may follow.\<close>

definition v_end :: "vctx list \<Rightarrow> vstate" where
  "v_end stack = (if stack = [] then VDone else VEnd)"

definition v_begin :: "char \<Rightarrow> vctx list \<Rightarrow> vstate \<times> vctx list" where
  "v_begin c stack =
     (if is_vspace c then (VBegin, stack)
      else if c = CHR ''{'' then (if 10000 \<le> length stack then (VBad, stack) else (VKeyOrEmpty, VKey # stack))
      else if c = CHR ''['' then (if 10000 \<le> length stack then (VBad, stack) else (VBeginOrEmpty, VArr # stack))
      else if c = CHR 0x22 then (VStr, stack)
      else if c = CHR ''-'' then (VNeg, stack)
      else if c = CHR ''0'' then (VZero, stack)
      else if c = CHR ''t'' then (VLit ''rue'', stack)
      else if c = CHR ''f'' then (VLit ''alse'', stack)
      else if c = CHR ''n'' then (VLit ''ull'', stack)
      else if is_digit c then (VInt, stack)
      else (VBad, stack))"

text \<open>The byte after a complete value (\<open>stateEndValue\<close> and \<open>stateEndTop\<close>).\<close>

definition v_after :: "char \<Rightarrow> vctx list \<Rightarrow> vstate \<times> vctx list" where
  "v_after c stack =
     (if is_vspace c then (v_end stack, stack)
      else case stack of
        [] \<Rightarrow> (VBad, stack)
      | VKey # st \<Rightarrow> if c = CHR '':'' then (VBegin, VVal # st) else (VBad, stack)
      | VVal # st \<Rightarrow> if c = CHR '','' then (VKeyBegin, VKey # st)
                     else if c = CHR ''}'' then (v_end st, st) else (VBad, stack)
      | VArr # st \<Rightarrow> if c = CHR '','' then (VBegin, stack)
                     else if c = CHR '']'' then (v_end st, st) else (VBad, stack))"

definition v_step :: "vstate \<times> vctx list \<Rightarrow> char \<Rightarrow> vstate \<times> vctx list" where
  "v_step cfg c =
     (let stack = snd cfg
      in case fst cfg of
        VBegin \<Rightarrow> v_begin c stack
      | VBeginOrEmpty \<Rightarrow>
          if is_vspace c then (VBeginOrEmpty, stack)
          else if c = CHR '']'' then v_after c stack else v_begin c stack
      | VKeyOrEmpty \<Rightarrow>
          if is_vspace c then (VKeyOrEmpty, stack)
          else if c = CHR ''}'' then v_after c (VVal # tl stack)
          else if c = CHR 0x22 then (VStr, stack) else (VBad, stack)
      | VKeyBegin \<Rightarrow>
          if is_vspace c then (VKeyBegin, stack)
          else if c = CHR 0x22 then (VStr, stack) else (VBad, stack)
      | VEnd \<Rightarrow> v_after c stack
      | VDone \<Rightarrow> if is_vspace c then (VDone, stack) else (VBad, stack)
      | VStr \<Rightarrow>
          if c = CHR 0x22 then (v_end stack, stack)
          else if c = CHR 0x5C then (VEsc, stack)
          else if byte_of c < 32 then (VBad, stack) else (VStr, stack)
      | VEsc \<Rightarrow>
          if c \<in> set ''bfnrt/'' \<or> c = CHR 0x5C \<or> c = CHR 0x22 then (VStr, stack)
          else if c = CHR ''u'' then (VHex 4, stack) else (VBad, stack)
      | VHex n \<Rightarrow>
          if hex_digit c = None then (VBad, stack)
          else if n \<le> 1 then (VStr, stack) else (VHex (n - 1), stack)
      | VNeg \<Rightarrow> if c = CHR ''0'' then (VZero, stack) else if is_digit c then (VInt, stack) else (VBad, stack)
      | VInt \<Rightarrow>
          if is_digit c then (VInt, stack)
          else if c = CHR ''.'' then (VDot, stack)
          else if c = CHR ''e'' \<or> c = CHR ''E'' then (VE, stack) else v_after c stack
      | VZero \<Rightarrow>
          if c = CHR ''.'' then (VDot, stack)
          else if c = CHR ''e'' \<or> c = CHR ''E'' then (VE, stack) else v_after c stack
      | VDot \<Rightarrow> if is_digit c then (VFrac, stack) else (VBad, stack)
      | VFrac \<Rightarrow>
          if is_digit c then (VFrac, stack)
          else if c = CHR ''e'' \<or> c = CHR ''E'' then (VE, stack) else v_after c stack
      | VE \<Rightarrow> if c = CHR ''+'' \<or> c = CHR ''-'' then (VESign, stack)
              else if is_digit c then (VExp, stack) else (VBad, stack)
      | VESign \<Rightarrow> if is_digit c then (VExp, stack) else (VBad, stack)
      | VExp \<Rightarrow> if is_digit c then (VExp, stack) else v_after c stack
      | VLit rest \<Rightarrow>
          if rest = [] \<or> c \<noteq> hd rest then (VBad, stack)
          else if tl rest = [] then (v_end stack, stack) else (VLit (tl rest), stack)
      | VBad \<Rightarrow> (VBad, stack))"

definition json_Valid :: "string \<Rightarrow> bool" where
  "json_Valid s =
     (let (st, stack) = foldl v_step (VBegin, []) s
      in stack = [] \<and> st \<in> {VDone, VInt, VZero, VFrac, VExp})"

subsection \<open>Bounding values\<close>

definition decodeToolJSON :: "string \<Rightarrow> jerr + gval" where
  "decodeToolJSON text =
     bindr (snd (Read ([CHR ''{'', CHR 0x22] @ ''toolValue'' @ [CHR 0x22, CHR '':''] @ text @ [CHR ''}'']) False))
       (\<lambda>v. Inr (field (fields_of v) ''toolValue''))"

definition jsonString :: "string \<Rightarrow> string" where
  "jsonString s = MarshalJSON s"

text \<open>
  \<open>encoding/json\<close> writes a finite double as ECMAScript does; infinities and NaN become null
  in \<open>jsonLiteral\<close>.
\<close>

definition json_number :: "float64 \<Rightarrow> string" where
  "json_number n = (case n of Fin _ \<Rightarrow> jsNumberString n | _ \<Rightarrow> ''null'')"

definition ordered_keys :: "gval \<Rightarrow> string list" where
  "ordered_keys v =
     (case v of GObj ps \<Rightarrow> Keys ps | GMap ps \<Rightarrow> sort (map fst ps) | _ \<Rightarrow> [])"

definition object_literal :: "string list \<Rightarrow> (string \<times> string) list \<Rightarrow> string" where
  "object_literal ks rendered =
     ''{'' @ join '','' (map (\<lambda>k. jsonString k @ '':'' @ the (map_of rendered k)) ks) @ ''}''"

fun jsonLiteral :: "gval \<Rightarrow> string" where
  "jsonLiteral GNil = ''null''"
| "jsonLiteral (GBool b) = (if b then ''true'' else ''false'')"
| "jsonLiteral (GNum n) = json_number n"
| "jsonLiteral (GStr s) = jsonString s"
| "jsonLiteral (GSur s) = jsonString s"
| "jsonLiteral (GArr vs) = ''['' @ join '','' (map jsonLiteral vs) @ '']''"
| "jsonLiteral (GObj ps) = object_literal (Keys ps) (map (\<lambda>(k, v). (k, jsonLiteral v)) ps)"
| "jsonLiteral (GMap ps) = object_literal (sort (map fst ps)) (map (\<lambda>(k, v). (k, jsonLiteral v)) ps)"

type_synonym bounder = "gval \<Rightarrow> int \<Rightarrow> int \<times> gval"

fun bound_items :: "bounder \<Rightarrow> gval list \<Rightarrow> int \<Rightarrow> int \<times> gval list" where
  "bound_items f [] nodes = (nodes, [])"
| "bound_items f (v # vs) nodes =
     (if nodes \<le> 0 then (nodes, [GSur PreviewSuffix])
      else let (n1, v') = f v nodes; (n2, vs') = bound_items f vs n1 in (n2, v' # vs'))"

fun bound_fields :: "bounder \<Rightarrow> props \<Rightarrow> string list \<Rightarrow> int \<Rightarrow> props \<Rightarrow> int \<times> props" where
  "bound_fields f flds [] nodes acc = (nodes, acc)"
| "bound_fields f flds (k # ks) nodes acc =
     (if nodes \<le> 0 \<or> 4096 < length k
      then (nodes, obj_set ''_filo_truncated'' (GStr PreviewSuffix) acc)
      else let (n1, v') = f (field flds k) nodes in bound_fields f flds ks n1 (obj_set k v' acc))"

text \<open>
  \<open>boundValue\<close>; the first argument counts the levels left, \<open>65 - depth\<close>, so that \<open>0\<close> is a depth
  above 64.
\<close>

primrec boundValue :: "nat \<Rightarrow> nat \<Rightarrow> bounder" where
  "boundValue 0 budget v nodes = (nodes - 1, GSur PreviewSuffix)"
| "boundValue (Suc levels) budget v nodes =
     (let nodes = nodes - 1
      in if nodes < 0 then (nodes, GSur PreviewSuffix)
         else case AsText v of
           Some text \<Rightarrow>
             if budget < length text then
               (case decodeToolJSON text of
                  Inr decoded \<Rightarrow>
                    (let (n1, b) = boundValue levels budget decoded nodes in (n1, GSur (jsonLiteral b)))
                | Inl _ \<Rightarrow>
                    if json_Valid text then (nodes, GSur (jsonString PreviewSuffix))
                    else (nodes, GSur (boundedText text budget)))
             else (nodes, GSur (boundedText text budget))
         | None \<Rightarrow>
             (case v of
                GArr items \<Rightarrow>
                  (let (n1, vs) = bound_items (boundValue levels budget) items nodes in (n1, GArr vs))
              | GObj ps \<Rightarrow>
                  (let (n1, qs) = bound_fields (boundValue levels budget) ps (ordered_keys v) nodes [] in (n1, GObj qs))
              | GMap ps \<Rightarrow>
                  (let (n1, qs) = bound_fields (boundValue levels budget) ps (ordered_keys v) nodes [] in (n1, GObj qs))
              | _ \<Rightarrow> (nodes, v)))"

text \<open>The loop of \<open>ToolPreview\<close> halves the budget until the serialized value fits.\<close>

fun preview_loop :: "gval \<Rightarrow> nat \<Rightarrow> string" where
  "preview_loop v budget =
     (if budget = 0 then jsonString PreviewSuffix
      else let encoded = jsonLiteral (snd (boundValue 65 budget v 4096))
           in if length encoded \<le> MaxBytes then encoded else preview_loop v (budget div 2))"

declare preview_loop.simps [simp del]

definition ToolPreview :: "gval \<Rightarrow> string option" where
  "ToolPreview v =
     (if v = GNil then None
      else case AsText v of
        Some text \<Rightarrow>
          (case decodeToolJSON text of
             Inr decoded \<Rightarrow> Some (preview_loop decoded preview_limit)
           | Inl _ \<Rightarrow>
               if json_Valid text then Some (jsonString PreviewSuffix)
               else Some (boundedText text preview_limit))
      | None \<Rightarrow> Some (preview_loop v preview_limit))"


subsection \<open>UTF-16 semantics\<close>

lemma nextUnit_surrogateAt:
  "nextUnit s = (if surrogateAt s 0 \<noteq> None then (1, 3)
     else let (r, n) = DecodeRune s in (if 65535 < r then 2 else 1, n))"
  by (auto simp: nextUnit_def surrogateAt_def not_less numeral_2_eq_2)

lemma nextUnit_wtf8:
  assumes "c \<le> 1114111"
  shows "nextUnit (wtf8 c @ s) = (length (units_of c), length (wtf8 c))"
proof (cases "is_surrogate c")
  case True
  then have "c < 65536" by (auto simp: is_surrogate_def)
  with True show ?thesis
    by (simp add: nextUnit_surrogateAt surrogateAt_surrogate length_wtf8_surrogate units_of_def)
next
  case False
  with assms have "scalar c" by (simp add: scalar_def is_surrogate_def)
  then show ?thesis
    by (simp add: nextUnit_surrogateAt surrogateAt_scalar DecodeRune_wtf8 units_of_def)
qed

abbreviation js_units :: "nat list \<Rightarrow> nat list" where
  "js_units cps \<equiv> concat (map units_of cps)"

lemma utf16Len_wtf8s: "\<forall>c \<in> set cps. c \<le> 1114111 \<Longrightarrow> utf16Len (wtf8s cps) = length (js_units cps)"
proof (induction cps)
  case Nil
  show ?case by (simp add: utf16Len.simps)
next
  case (Cons c cps)
  then show ?case by (subst utf16Len.simps) (simp add: nextUnit_wtf8)
qed

lemma wtf8Unit_wtf8: "is_high u \<Longrightarrow> wtf8Unit u = wtf8 u"
  using writeUnit_wtf8 [of u] by (simp add: wtf8Unit_def writeUnit_def is_high_def is_surrogate_def)

text \<open>
  The loop against the reference: the kept text is the kept code points, and the high half
  of the pair the cut falls into.
\<close>

definition slice_spec :: "nat list \<Rightarrow> nat \<Rightarrow> string" where
  "slice_spec cps n = settled_out (emit_all (take n (js_units cps)) (str_init None))"

lemma length_units_of: "length (units_of c) = (if c < 65536 then 1 else 2)"
  by (simp add: units_of_def)

lemma emit_all_take:
  assumes "native_text cps" "s_pending st \<noteq> 0 \<longrightarrow> cps = [] \<or> \<not> is_low (hd cps)"
  shows "settled_out (emit_all (take (units - cnt) (js_units cps)) st) =
    settled_out st @ (if units \<le> cnt then [] else slice_from units cnt (wtf8s cps))"
  using assms
proof (induction cps arbitrary: st cnt)
  case Nil
  show ?case by (simp add: slice_from.simps)
next
  case (Cons c cps)
  let ?st = "emit_all (units_of c) st" and ?w = "length (units_of c)"
  have c: "c \<le> 1114111" "\<not> (s_pending st \<noteq> 0 \<and> is_low c)"
    using Cons.prems by (auto simp: native_text_def)
  note code_point = emit_code_point [OF c]
  have "s_pending ?st \<noteq> 0 \<longrightarrow> cps = [] \<or> \<not> is_low (hd cps)"
    using Cons.prems code_point(3) by (cases cps) (auto simp: native_text_def)
  note IH = Cons.IH [OF native_text_ConsD [OF Cons.prems(1)] this, of "cnt + ?w"]
  consider "units \<le> cnt" | "cnt < units" "cnt + ?w \<le> units" | "cnt < units" "units < cnt + ?w"
    by linarith
  then show ?case
  proof cases
    case 2
    then have "take (units - cnt) (js_units (c # cps)) = units_of c @ take (units - (cnt + ?w)) (js_units cps)"
      by simp
    with 2 IH code_point(1) c(1) show ?thesis
      by (simp add: slice_from.simps [of _ _ "wtf8 c @ _"] nextUnit_wtf8)
  next
    case 3
    then have big: "65536 \<le> c" and one: "units = Suc cnt"
      by (auto simp: length_units_of split: if_splits)
    let ?hi = "fst (utf16_EncodeRune c)"
    have hi: "is_high ?hi" "?hi < 65536" "\<not> is_low ?hi"
      using utf16_pair(1) [OF big c(1)] by (auto simp: is_high_def is_low_def)
    have "scalar c" using big c(1) by (simp add: scalar_def is_surrogate_def)
    then have sl: "slice_from units cnt (wtf8 c @ wtf8s cps) = wtf8 ?hi"
      using big c(1) hi one
      by (simp add: slice_from.simps [of _ _ "wtf8 c @ _"] nextUnit_wtf8 DecodeRune_wtf8 length_units_of wtf8Unit_wtf8)
    have "take (units - cnt) (js_units (c # cps)) = [?hi]"
      using big one by (simp add: units_of_def)
    with hi one sl show ?thesis by (simp add: emit_unit_single(1))
  qed simp
qed

lemma sliceUTF16_wtf8s:
  assumes "native_text cps"
  shows "sliceUTF16 (wtf8s cps) (int n) = (if n = 0 then slice_from 0 0 (wtf8s cps) else slice_spec cps n)"
  using emit_all_take [OF assms, of "str_init None" n 0]
  by (simp add: sliceUTF16_def slice_spec_def str_init_def settled_out_def)

lemma slice_from_zero:
  assumes "\<forall>c \<in> set cps. c \<le> 1114111"
  shows "slice_from 0 0 (wtf8s cps) = []"
proof (cases cps)
  case Nil
  then show ?thesis by (simp add: slice_from.simps)
next
  case (Cons c cs)
  with assms show ?thesis
    by (simp add: slice_from.simps [of _ _ "wtf8 c @ _"] nextUnit_wtf8 length_units_of)
qed

subsection \<open>Size of a preview\<close>

lemma shrink_bytes_length: "length (shrink_bytes budget p) \<le> budget"
  by (induction budget p rule: shrink_bytes.induct) (subst shrink_bytes.simps, simp)

lemma boundedText_length: "length (boundedText text budget) \<le> budget + length PreviewSuffix"
  by (simp add: boundedText_def shrink_bytes_length trans_le_add1)

lemma wtf8s_ascii: "\<forall>c \<in> set s. byte_of c < 128 \<Longrightarrow> wtf8s (map byte_of s) = s"
  by (induction s) (simp_all add: wtf8_def)

lemma suffix_literal_length: "length (jsonString PreviewSuffix) \<le> MaxBytes"
proof -
  have "marshal_body PreviewSuffix = concat (map cp_escape (map byte_of PreviewSuffix))"
    using marshal_body_wtf8s [of "map byte_of PreviewSuffix"] wtf8s_ascii [of PreviewSuffix]
    by (simp add: PreviewSuffix_def native_text_def is_high_def)
  then show ?thesis
    by (simp add: jsonString_def MarshalJSON_def PreviewSuffix_def MaxBytes_def cp_escape_def is_surrogate_def
        escape_rune_def EncodeRune_def wtf8_def u_escape_def)
qed

lemma preview_loop_length: "length (preview_loop v budget) \<le> MaxBytes"
  by (induction v budget rule: preview_loop.induct)
    (subst preview_loop.simps, simp add: suffix_literal_length Let_def)

lemma boundedText_limit: "length (boundedText t preview_limit) \<le> MaxBytes"
  using boundedText_length [of t preview_limit]
  by (simp add: preview_limit_def PreviewUnits_def PreviewSuffix_def MaxBytes_def)

lemma ToolPreview_length: "ToolPreview v = Some s \<Longrightarrow> length s \<le> MaxBytes"
  using boundedText_limit
  by (auto simp: ToolPreview_def preview_loop_length suffix_literal_length
      split: if_splits option.splits sum.splits)

lemmas string_eval =
  dec_string_def str_loop.simps read_item_def emit_def emit_unit_def str_finish_def str_init_def
  EncodeRune_def is_surrogate_def wtf8_def is_high_def is_low_def writeUnit_def charge_new_key_def child_path_def Text_def AsText_def

subsection \<open>Properties\<close>

text \<open>
  \<open>sliceUTF16\<close> and \<open>utf16Len\<close> have the meaning of JavaScript's \<open>slice\<close> and \<open>length\<close> on every
  native text: the length is the number of UTF-16 units, and the slice is what the reader's own
  unit assembler makes of the first \<open>n\<close> units, a cut surrogate pair leaving its high half.
\<close>

theorem sliceUTF16_semantics:
  assumes "native_text cps"
  shows "utf16Len (wtf8s cps) = length (js_units cps) \<and>
    sliceUTF16 (wtf8s cps) (int n) = settled_out (emit_all (take n (js_units cps)) (str_init None))"
  using assms utf16Len_wtf8s [of cps] sliceUTF16_wtf8s [OF assms, of n] slice_from_zero [of cps]
  by (auto simp: native_text_def slice_spec_def settled_out_def str_init_def)

theorem sliceUTF16_semantics_witness:
  "utf16Len (wtf8s [97, 128512]) = 3 \<and> sliceUTF16 (wtf8s [97, 128512]) 2 = wtf8s [97, 55357]"
proof -
  have "native_text [97, 128512]" by (simp add: native_text_def is_high_def)
  from sliceUTF16_semantics [OF this, of 2] show ?thesis
    by (simp add: units_of_def utf16_EncodeRune_def emit_unit_def str_init_def settled_out_def
        EncodeRune_def is_surrogate_def wtf8_def writeUnit_def Let_def drop_bit_eq_div and_63_mod)
qed

text \<open>
  \<open>ToolPreview\<close> answers for every value but a native null, and its answer never exceeds
  \<open>MaxBytes\<close> bytes, JSON escapes included, whatever the tool produced.
\<close>

theorem ToolPreview_bounded:
  "case ToolPreview v of None \<Rightarrow> v = GNil | Some s \<Rightarrow> v \<noteq> GNil \<and> length s \<le> MaxBytes"
  using ToolPreview_length [of v]
  by (auto simp: ToolPreview_def split: option.splits sum.splits if_splits)

text \<open>
  A tool text that is not JSON can still close the wrapper of \<open>decodeToolJSON\<close> around it: the
  text \<open>null,"b":true\<close> decodes to null, and its preview is the bare word instead of the text.
\<close>

theorem ToolPreview_wrapper_escape:
  "\<not> json_Valid (''null,'' @ [CHR 0x22, CHR ''b'', CHR 0x22] @ '':true'') \<and>
   ToolPreview (GStr (''null,'' @ [CHR 0x22, CHR ''b'', CHR 0x22] @ '':true'')) = Some ''null''"
proof
  let ?t = "''null,'' @ [CHR 0x22, CHR ''b'', CHR 0x22] @ '':true''"
  show "\<not> json_Valid ?t"
    by (simp add: json_Valid_def v_step_def v_begin_def v_after_def v_end_def is_vspace_def is_ws_def)
  have "decodeToolJSON ?t = Inr GNil"
    by (simp add: decodeToolJSON_def reader_eval string_eval field_def)
  moreover have "boundValue 65 b GNil 4096 = (4095, GNil)" for b
    using boundValue.simps(2) [of 64 b GNil 4096] by (simp add: AsText_def)
  ultimately show "ToolPreview (GStr ?t) = Some ''null''"
    by (simp add: ToolPreview_def AsText_def preview_loop.simps [of GNil] preview_limit_def PreviewUnits_def
        MaxBytes_def)
qed

end
