(* ===== verification/Uploads.thy ===== *)
theory Uploads
  imports NativeObject GoJson "HOL-Library.Word"
begin

text \<open>
  The attachment store (\<open>internal/uploads/uploads.go\<close>): uploads are begun, appended chunk by
  chunk, completed after their SHA-256 digest was checked, resolved and cancelled. The state holds
  the pending table and the files of the private directory; every outcome of a file-system call is
  an argument of the operation that makes it, so all error paths are part of the model.
\<close>

subsection \<open>SHA-256\<close>

definition sha_K :: "32 word list" where
  "sha_K = [
    1116352408, 1899447441, 3049323471, 3921009573, 961987163, 1508970993, 2453635748, 2870763221,
    3624381080, 310598401, 607225278, 1426881987, 1925078388, 2162078206, 2614888103, 3248222580,
    3835390401, 4022224774, 264347078, 604807628, 770255983, 1249150122, 1555081692, 1996064986,
    2554220882, 2821834349, 2952996808, 3210313671, 3336571891, 3584528711, 113926993, 338241895,
    666307205, 773529912, 1294757372, 1396182291, 1695183700, 1986661051, 2177026350, 2456956037,
    2730485921, 2820302411, 3259730800, 3345764771, 3516065817, 3600352804, 4094571909, 275423344,
    430227734, 506948616, 659060556, 883997877, 958139571, 1322822218, 1537002063, 1747873779,
    1955562222, 2024104815, 2227730452, 2361852424, 2428436474, 2756734187, 3204031479, 3329325298]"

definition sha_H :: "32 word list" where
  "sha_H = [
    1779033703, 3144134277, 1013904242, 2773480762, 1359893119, 2600822924, 528734635, 1541459225]"

definition be_word :: "nat list \<Rightarrow> 32 word" where
  "be_word bs = of_nat (foldl (\<lambda>acc b. acc * 256 + b) 0 bs)"

definition be_bytes :: "nat \<Rightarrow> nat \<Rightarrow> nat list" where
  "be_bytes n v = map (\<lambda>i. v div 256 ^ (n - 1 - i) mod 256) [0..<n]"

definition sha_pad :: "nat list \<Rightarrow> nat list" where
  "sha_pad bs = bs @ [128] @ replicate ((119 - length bs mod 64) mod 64) 0 @ be_bytes 8 (8 * length bs)"

function chunks :: "nat \<Rightarrow> 'a list \<Rightarrow> 'a list list" where
  "chunks n xs = (if xs = [] \<or> n = 0 then [] else take n xs # chunks n (drop n xs))"
  by pat_completeness auto
termination by (relation "measure (\<lambda>(n, xs). length xs)") auto

declare chunks.simps [simp del]

definition sha_extend :: "32 word list \<Rightarrow> 32 word list" where
  "sha_extend w =
     (let t = length w; a = w ! (t - 15); b = w ! (t - 2);
          s0 = xor (xor (word_rotr 7 a) (word_rotr 18 a)) (drop_bit 3 a);
          s1 = xor (xor (word_rotr 17 b) (word_rotr 19 b)) (drop_bit 10 b)
      in w @ [w ! (t - 16) + s0 + w ! (t - 7) + s1])"

definition sha_round :: "32 word list \<Rightarrow> 32 word \<times> 32 word \<Rightarrow> 32 word list" where
  "sha_round v kw =
     (let a = v ! 0; b = v ! 1; c = v ! 2; d = v ! 3; e = v ! 4; f = v ! 5; g = v ! 6; h = v ! 7;
          s1 = xor (xor (word_rotr 6 e) (word_rotr 11 e)) (word_rotr 25 e);
          ch = xor (and e f) (and (not e) g);
          t1 = h + s1 + ch + fst kw + snd kw;
          s0 = xor (xor (word_rotr 2 a) (word_rotr 13 a)) (word_rotr 22 a);
          maj = xor (xor (and a b) (and a c)) (and b c)
      in [t1 + s0 + maj, a, b, c, d + t1, e, f, g])"

definition sha_block :: "32 word list \<Rightarrow> nat list \<Rightarrow> 32 word list" where
  "sha_block h block =
     (let w = ((sha_extend ^^ 48) (map be_word (chunks 4 block)))
      in map2 (+) h (foldl sha_round h (zip sha_K w)))"

definition hex_lower :: "nat \<Rightarrow> char" where
  "hex_lower d = (if d < 10 then chr (48 + d) else chr (87 + d))"

definition hex_EncodeToString :: "nat list \<Rightarrow> string" where
  "hex_EncodeToString bs = concat (map (\<lambda>b. [hex_lower (b div 16 mod 16), hex_lower (b mod 16)]) bs)"

definition sha256_hex :: "string \<Rightarrow> string" where
  "sha256_hex s =
     hex_EncodeToString (concat (map (\<lambda>w. be_bytes 4 (unat w))
       (foldl sha_block sha_H (chunks 64 (sha_pad (map byte_of s))))))"

subsection \<open>Constants and state\<close>

definition MaxFileBytes :: int where
  "MaxFileBytes = 134217728"

definition MaxChunkBytes :: nat where
  "MaxChunkBytes = 262144"

definition MaxPending :: nat where
  "MaxPending = 16"

definition MaxStoredBytes :: int where
  "MaxStoredBytes = 2147483648"

definition hour :: int where
  "hour = 3600 * 1000000000"

text \<open>\<open>UOS\<close> is an error of the file system or of the random source.\<close>

datatype uerr = ErrInvalid | ErrBusy | ErrChecksum | ErrChunk | UOS

definition lower_hex :: "char \<Rightarrow> bool" where
  "lower_hex c \<longleftrightarrow> is_digit c \<or> 97 \<le> byte_of c \<and> byte_of c \<le> 102"

definition idPattern :: "string \<Rightarrow> bool" where
  "idPattern s \<longleftrightarrow> length s = 32 \<and> list_all lower_hex s"

record metadata =
  mID :: string
  mName :: string
  mMIME :: string
  mSize :: int
  mSHA256 :: string
  mPath :: string

record upload =
  umeta :: metadata
  uoffset :: int
  utouched :: int

record store =
  sfiles :: "(string \<times> string) list"
  spath :: string
  spending :: "(string \<times> upload) list"
  sused :: int

definition part_name :: "string \<Rightarrow> string" where
  "part_name i = i @ ''.part''"

definition receipt_name :: "string \<Rightarrow> string" where
  "receipt_name i = i @ ''.json''"

definition file_name :: "string \<Rightarrow> string \<Rightarrow> string" where
  "file_name i name = i @ ''-'' @ name"

definition is_part :: "string \<Rightarrow> bool" where
  "is_part n \<longleftrightarrow> HasSuffix n ''.part'' \<and> idPattern (take (length n - 5) n)"

subsection \<open>Opening the store\<close>

text \<open>
  One directory entry is its name, whether it is a directory, and its bytes. \<open>unremovable\<close> and
  \<open>unreadable\<close> name the entries on which \<open>Remove\<close> and \<open>Info\<close> fail.
\<close>

fun scan_entries :: "(string \<Rightarrow> bool) \<Rightarrow> (string \<Rightarrow> bool) \<Rightarrow> (string \<times> bool \<times> string) list \<Rightarrow> store \<Rightarrow> uerr + store" where
  "scan_entries unremovable unreadable [] s = Inr s"
| "scan_entries unremovable unreadable ((name, isdir, bytes) # es) s =
     (if isdir then scan_entries unremovable unreadable es s
      else if is_part name then
        (if unremovable name then Inl UOS
         else scan_entries unremovable unreadable es (s\<lparr>sfiles := delete_key name (sfiles s)\<rparr>))
      else if unreadable name then Inl UOS
      else scan_entries unremovable unreadable es (s\<lparr>sused := sused s + int (length bytes)\<rparr>))"

definition New :: "bool \<Rightarrow> bool \<Rightarrow> (string \<Rightarrow> bool) \<Rightarrow> (string \<Rightarrow> bool) \<Rightarrow> string \<Rightarrow> (string \<times> bool \<times> string) list \<Rightarrow> uerr + store" where
  "New absolute usable unremovable unreadable path listing =
     (if \<not> absolute then Inl ErrInvalid
      else if \<not> usable then Inl UOS
      else scan_entries unremovable unreadable listing
             \<lparr>sfiles = List.map_filter (\<lambda>(n, d, b). if d then None else Some (n, b)) listing, spath = path,
              spending = [], sused = 0\<rparr>)"

subsection \<open>Names\<close>

text \<open>
  \<open>strings.ToUpper\<close> of a stem compared with ASCII names without \<open>I\<close> and \<open>S\<close>: only ASCII letters
  map to those letters.
\<close>

definition upper_ascii :: "char \<Rightarrow> char" where
  "upper_ascii c = (if 97 \<le> byte_of c \<and> byte_of c \<le> 122 then chr (byte_of c - 32) else c)"

definition device_name :: "string \<Rightarrow> bool" where
  "device_name stem \<longleftrightarrow>
     stem \<in> {''.'', ''..'', ''CON'', ''PRN'', ''AUX'', ''NUL''} \<or>
     length stem = 4 \<and> (take 3 stem = ''COM'' \<or> take 3 stem = ''LPT'') \<and> is_digit (stem ! 3)"

definition validName :: "string \<Rightarrow> bool" where
  "validName name \<longleftrightarrow>
     \<not> (name = [] \<or> 240 < length name \<or> TrimSpace name \<noteq> name \<or>
        list_ex (\<lambda>c. c \<in> set ''/:<>|?*'' \<or> c = CHR 0x5C \<or> c = CHR 0x22 \<or> c = CHR 0x00) name \<or>
        HasSuffix name ''.'') \<and>
     list_all (\<lambda>(r, _). 32 \<le> r) (runes name) \<and>
     \<not> device_name (map upper_ascii (takeWhile (\<lambda>c. c \<noteq> CHR ''.'') name))"

text \<open>
  \<open>strings.ToLower\<close> as far as the prefix \<open>video/\<close> can see it: ASCII letters, and the dotted capital
  I (U+0130), the only other rune whose lower case is one of these letters.
\<close>

definition lower_rune :: "nat \<Rightarrow> nat" where
  "lower_rune r = (if 65 \<le> r \<and> r \<le> 90 then r + 32 else if r = 304 then 105 else r)"

definition video_mime :: "string \<Rightarrow> bool" where
  "video_mime mime \<longleftrightarrow> take 6 (map (\<lambda>(r, _). lower_rune r) (runes mime)) = map byte_of ''video/''"

definition hex_char_ok :: "char \<Rightarrow> bool" where
  "hex_char_ok c \<longleftrightarrow> lower_hex c \<or> 65 \<le> byte_of c \<and> byte_of c \<le> 70"

definition lower_ascii :: "char \<Rightarrow> char" where
  "lower_ascii c = (if 65 \<le> byte_of c \<and> byte_of c \<le> 90 then chr (byte_of c + 32) else c)"

definition digest_ok :: "string \<Rightarrow> bool" where
  "digest_ok s \<longleftrightarrow> length s = 64 \<and> list_all hex_char_ok s"

subsection \<open>Operations\<close>

definition remove_file :: "(string \<Rightarrow> bool) \<Rightarrow> string \<Rightarrow> store \<Rightarrow> store" where
  "remove_file unremovable name s =
     (if unremovable name then s else s\<lparr>sfiles := delete_key name (sfiles s)\<rparr>)"

text \<open>Dropping a pending upload: its fragment, its reservation and its table entry.\<close>

definition discard :: "(string \<Rightarrow> bool) \<Rightarrow> string \<Rightarrow> upload \<Rightarrow> store \<Rightarrow> store" where
  "discard unremovable i p s =
     (let s = remove_file unremovable (part_name i) s
      in s\<lparr>sused := sused s - mSize (umeta p), spending := delete_key i (spending s)\<rparr>)"

definition expire :: "(string \<Rightarrow> bool) \<Rightarrow> int \<Rightarrow> store \<Rightarrow> store" where
  "expire unremovable now s =
     foldl (\<lambda>s (i, p). if hour < now - utouched p then discard unremovable i p s else s) s (spending s)"

definition Begin ::
  "(string \<Rightarrow> bool) \<Rightarrow> int \<Rightarrow> nat list option \<Rightarrow> bool \<Rightarrow> bool \<Rightarrow> metadata \<Rightarrow> store \<Rightarrow> store \<times> (uerr + metadata)" where
  "Begin unremovable now random openFails closeFails meta s =
     (if \<not> validName (mName meta) \<or> mSize meta < 0 \<or> MaxFileBytes < mSize meta \<or> 128 < length (mMIME meta) \<or>
         video_mime (mMIME meta)
      then (s, Inl ErrInvalid)
      else if \<not> digest_ok (mSHA256 meta) then (s, Inl ErrInvalid)
      else
        let s = expire unremovable now s
        in if MaxPending \<le> length (spending s) \<or> MaxStoredBytes - sused s < mSize meta then (s, Inl ErrBusy)
           else case random of
             None \<Rightarrow> (s, Inl UOS)
           | Some bytes \<Rightarrow>
               let i = hex_EncodeToString bytes;
                   meta = meta\<lparr>mSHA256 := map lower_ascii (mSHA256 meta), mID := i, mPath := []\<rparr>
               in if openFails \<or> map_of (sfiles s) (part_name i) \<noteq> None then (s, Inl UOS)
                  else
                    let s = s\<lparr>sfiles := obj_set (part_name i) [] (sfiles s)\<rparr>
                    in if closeFails then (remove_file unremovable (part_name i) s, Inl UOS)
                       else (s\<lparr>spending := obj_set i \<lparr>umeta = meta, uoffset = 0, utouched = now\<rparr> (spending s),
                               sused := sused s + mSize meta\<rparr>, Inr meta))"

text \<open>\<open>WriteAt\<close> of \<open>data\<close> at \<open>offset\<close>, as far as \<open>n\<close> bytes.\<close>

definition write_at :: "nat \<Rightarrow> nat \<Rightarrow> string \<Rightarrow> string \<Rightarrow> string" where
  "write_at offset n data content =
     take offset (content @ replicate (offset - length content) (chr 0)) @ take n data @ drop (offset + n) content"

definition Append ::
  "(string \<Rightarrow> bool) \<Rightarrow> int \<Rightarrow> bool \<Rightarrow> nat option \<Rightarrow> string \<Rightarrow> int \<Rightarrow> string \<Rightarrow> store \<Rightarrow> store \<times> (uerr + int)" where
  "Append unremovable now openFails short i offset data s =
     (if \<not> idPattern i \<or> MaxChunkBytes < length data \<or> data = [] then (s, Inl ErrInvalid)
      else case map_of (spending s) i of
        None \<Rightarrow> (s, Inl ErrInvalid)
      | Some p \<Rightarrow>
          if offset \<noteq> uoffset p \<or> mSize (umeta p) - uoffset p < int (length data) then (s, Inl ErrInvalid)
          else case map_of (sfiles s) (part_name i) of
            None \<Rightarrow> (s, Inl UOS)
          | Some content \<Rightarrow>
              if openFails then (s, Inl UOS)
              else case short of
                Some n \<Rightarrow>
                  (discard unremovable i p
                     (s\<lparr>sfiles := obj_set (part_name i) (write_at (nat offset) n data content) (sfiles s)\<rparr>), Inl ErrChunk)
              | None \<Rightarrow>
                  (s\<lparr>sfiles := obj_set (part_name i) (write_at (nat offset) (length data) data content) (sfiles s),
                     spending := obj_set i (p\<lparr>uoffset := uoffset p + int (length data), utouched := now\<rparr>) (spending s)\<rparr>,
                   Inr (uoffset p + int (length data))))"

definition marshal_meta :: "metadata \<Rightarrow> string" where
  "marshal_meta meta =
     go_json_object ([go_member ''id'' (go_quote (mID meta)), go_member ''name'' (go_quote (mName meta)),
       go_member ''mime'' (go_quote (mMIME meta)), go_member ''size'' (FormatInt (mSize meta)),
       go_member ''sha256'' (go_quote (mSHA256 meta))] @
       (if mPath meta = [] then [] else [go_member ''path'' (go_quote (mPath meta))]))"

text \<open>
  \<open>joinPath\<close> is \<open>filepath.Join\<close> of the platform. \<open>writeFails\<close> is what a failing \<open>WriteFile\<close> leaves
  in the receipt.
\<close>

definition Complete ::
  "(string \<Rightarrow> string \<Rightarrow> string) \<Rightarrow> bool \<Rightarrow> bool \<Rightarrow> string option \<Rightarrow> string \<Rightarrow> store \<Rightarrow> store \<times> (uerr + metadata)" where
  "Complete joinPath readFails renameFails writeFails i s =
     (if \<not> idPattern i then (s, Inl ErrInvalid)
      else case map_of (spending s) i of
        None \<Rightarrow> (s, Inl ErrInvalid)
      | Some p \<Rightarrow>
          if uoffset p \<noteq> mSize (umeta p) then (s, Inl ErrInvalid)
          else case map_of (sfiles s) (part_name i) of
            None \<Rightarrow> (s, Inl UOS)
          | Some content \<Rightarrow>
              if readFails then (s, Inl UOS)
              else if sha256_hex content \<noteq> mSHA256 (umeta p) then (s, Inl ErrChecksum)
              else if renameFails then (s, Inl UOS)
              else
                let name = file_name i (mName (umeta p));
                    s = s\<lparr>sfiles := obj_set name content (delete_key (part_name i) (sfiles s))\<rparr>;
                    meta = (umeta p)\<lparr>mPath := joinPath (spath s) name\<rparr>;
                    encoded = marshal_meta meta
                in case writeFails of
                     Some partial \<Rightarrow>
                       (s\<lparr>sfiles := obj_set (receipt_name i) partial (sfiles s), spending := delete_key i (spending s)\<rparr>, Inl UOS)
                   | None \<Rightarrow>
                       (s\<lparr>sfiles := obj_set (receipt_name i) encoded (sfiles s), spending := delete_key i (spending s),
                          sused := sused s + int (length encoded)\<rparr>, Inr meta))"

text \<open>
  \<open>unmarshal\<close> is \<open>json.Unmarshal\<close> into a fresh \<open>Metadata\<close>; \<open>openable\<close> and \<open>regular\<close> tell which files
  can be opened and which are regular.
\<close>

definition resolve_one ::
  "(string \<Rightarrow> metadata option) \<Rightarrow> (string \<Rightarrow> string \<Rightarrow> string) \<Rightarrow> (string \<Rightarrow> bool) \<Rightarrow> (string \<Rightarrow> bool) \<Rightarrow> store \<Rightarrow> string \<Rightarrow> uerr + metadata" where
  "resolve_one unmarshal joinPath openable regular s i =
     (if \<not> idPattern i then Inl ErrInvalid
      else case map_of (sfiles s) (receipt_name i) of
        None \<Rightarrow> Inl ErrInvalid
      | Some data \<Rightarrow>
          if \<not> openable (receipt_name i) \<or> 4096 < length data then Inl ErrInvalid
          else case unmarshal data of
            None \<Rightarrow> Inl ErrInvalid
          | Some meta \<Rightarrow>
              if mID meta \<noteq> i \<or> \<not> validName (mName meta) then Inl ErrInvalid
              else
                let name = file_name i (mName meta)
                in case map_of (sfiles s) name of
                     None \<Rightarrow> Inl ErrInvalid
                   | Some content \<Rightarrow>
                       if \<not> regular name \<or> int (length content) \<noteq> mSize meta then Inl ErrInvalid
                       else Inr (meta\<lparr>mPath := joinPath (spath s) name\<rparr>))"

fun resolve_loop :: "(string \<Rightarrow> uerr + metadata) \<Rightarrow> string list \<Rightarrow> string list \<Rightarrow> uerr + metadata list" where
  "resolve_loop one known [] = Inr []"
| "resolve_loop one known (i # is) =
     (if i \<in> set known then Inl ErrInvalid
      else bindr (one i) (\<lambda>meta. bindr (resolve_loop one (i # known) is) (\<lambda>metas. Inr (meta # metas))))"

definition Resolve ::
  "(string \<Rightarrow> metadata option) \<Rightarrow> (string \<Rightarrow> string \<Rightarrow> string) \<Rightarrow> (string \<Rightarrow> bool) \<Rightarrow> (string \<Rightarrow> bool) \<Rightarrow> store \<Rightarrow> string list \<Rightarrow> uerr + metadata list" where
  "Resolve unmarshal joinPath openable regular s ids =
     (if 16 < length ids then Inl ErrInvalid
      else resolve_loop (resolve_one unmarshal joinPath openable regular s) [] ids)"

definition Cancel :: "bool \<Rightarrow> string \<Rightarrow> store \<Rightarrow> store \<times> (uerr + unit)" where
  "Cancel removeFails i s =
     (if \<not> idPattern i then (s, Inl ErrInvalid)
      else case map_of (spending s) i of
        None \<Rightarrow> (s, Inr ())
      | Some p \<Rightarrow>
          if removeFails \<or> map_of (sfiles s) (part_name i) = None then (s, Inl UOS) else (discard (\<lambda>_. False) i p s, Inr ()))"

end
