(* ===== verification/UploadsCorrect.thy ===== *)
theory UploadsCorrect
  imports Uploads
begin

text \<open>
  Correctness of the attachment store: its invariant over every sequence of operations and
  file-system outcomes, the integrity of committed files, and the round trip of an upload.
\<close>

subsection \<open>Names\<close>

definition is_receipt :: "string \<Rightarrow> bool" where
  "is_receipt n \<longleftrightarrow> HasSuffix n ''.json'' \<and> idPattern (take (length n - 5) n)"

lemma HasSuffix_append: "HasSuffix (xs @ ys) ys"
  by (simp add: HasSuffix_def)

lemma is_part_name: "idPattern i \<Longrightarrow> is_part (part_name i)"
  by (simp add: is_part_def part_name_def HasSuffix_append)

lemma is_receipt_name: "idPattern i \<Longrightarrow> is_receipt (receipt_name i)"
  by (simp add: is_receipt_def receipt_name_def HasSuffix_append)

lemma part_name_inj [simp]: "part_name i = part_name j \<longleftrightarrow> i = j"
  by (simp add: part_name_def)

lemma part_receipt [simp]: "part_name i \<noteq> receipt_name j" "receipt_name j \<noteq> part_name i"
proof -
  have "last (part_name i) \<noteq> last (receipt_name j)" by (simp add: part_name_def receipt_name_def)
  then show "part_name i \<noteq> receipt_name j" "receipt_name j \<noteq> part_name i" by metis+
qed

lemma file_not_part:
  assumes "idPattern i" "idPattern j"
  shows "file_name i name \<noteq> part_name j" "part_name j \<noteq> file_name i name"
    and "file_name i name \<noteq> receipt_name j" "receipt_name j \<noteq> file_name i name"
proof -
  have "file_name i name ! 32 = CHR ''-''" "part_name j ! 32 = CHR ''.''" "receipt_name j ! 32 = CHR ''.''"
    using assms by (simp_all add: file_name_def part_name_def receipt_name_def idPattern_def nth_append)
  then show "file_name i name \<noteq> part_name j" "part_name j \<noteq> file_name i name"
    "file_name i name \<noteq> receipt_name j" "receipt_name j \<noteq> file_name i name" by auto
qed

lemma lower_hex_lower: "d < 16 \<Longrightarrow> lower_hex (hex_lower d)"
  by (auto simp: lower_hex_def hex_lower_def is_digit_def)

lemma idPattern_hex: "length bytes = 16 \<Longrightarrow> idPattern (hex_EncodeToString bytes)"
proof -
  have "length (hex_EncodeToString bs) = 2 * length bs \<and> list_all lower_hex (hex_EncodeToString bs)" for bs
    by (induction bs) (simp_all add: hex_EncodeToString_def lower_hex_lower)
  then show "length bytes = 16 \<Longrightarrow> idPattern (hex_EncodeToString bytes)" by (simp add: idPattern_def)
qed

subsection \<open>Accounting\<close>

definition attach_bytes :: "(string \<times> string) list \<Rightarrow> nat" where
  "attach_bytes fs = sum_list (map (\<lambda>(n, c). if is_part n \<or> is_receipt n then 0 else length c) fs)"

definition reserved :: "(string \<times> upload) list \<Rightarrow> int" where
  "reserved ps = sum_list (map (\<lambda>(i, p). mSize (umeta p)) ps)"

lemma attach_set_le: "attach_bytes (obj_set n c fs) \<le> attach_bytes fs + length c"
  by (induction fs) (auto simp: attach_bytes_def)

lemma attach_set_private: "is_part n \<or> is_receipt n \<Longrightarrow> attach_bytes (obj_set n c fs) = attach_bytes fs"
  by (induction fs) (auto simp: attach_bytes_def)

lemma attach_delete_le: "attach_bytes (delete_key n fs) \<le> attach_bytes fs"
  by (induction fs) (auto simp: attach_bytes_def delete_key_def)

lemma reserved_delete:
  "distinct (map fst ps) \<Longrightarrow> map_of ps i = Some p \<Longrightarrow> reserved (delete_key i ps) = reserved ps - mSize (umeta p)"
proof (induction ps)
  case (Cons x ps)
  have "delete_key i ps = ps" if "i \<notin> fst ` set ps"
    using that by (force simp: delete_key_def intro: filter_True)
  with Cons show ?case by (auto simp: reserved_def delete_key_def split: if_splits)
qed simp

lemma reserved_set_new: "map_of ps i = None \<Longrightarrow> reserved (obj_set i p ps) = reserved ps + mSize (umeta p)"
  by (induction ps) (auto simp: reserved_def split: if_splits)

lemma reserved_set_same:
  "map_of ps i = Some p \<Longrightarrow> mSize (umeta q) = mSize (umeta p) \<Longrightarrow> reserved (obj_set i q ps) = reserved ps"
  by (induction ps) (auto simp: reserved_def split: if_splits)

subsection \<open>Invariant\<close>

definition upload_ok :: "(string \<times> string) list \<Rightarrow> string \<Rightarrow> upload \<Rightarrow> bool" where
  "upload_ok fs i p \<longleftrightarrow>
     idPattern i \<and> mID (umeta p) = i \<and> validName (mName (umeta p)) \<and> 0 \<le> uoffset p \<and>
     uoffset p \<le> mSize (umeta p) \<and> mSize (umeta p) \<le> MaxFileBytes \<and>
     (\<exists>c. map_of fs (part_name i) = Some c \<and> int (length c) = uoffset p)"

definition sinv :: "store \<Rightarrow> bool" where
  "sinv s \<longleftrightarrow>
     distinct (map fst (spending s)) \<and> length (spending s) \<le> MaxPending \<and>
     (\<forall>i p. map_of (spending s) i = Some p \<longrightarrow> upload_ok (sfiles s) i p) \<and>
     int (attach_bytes (sfiles s)) + reserved (spending s) \<le> sused s"

lemma sinv_upload: "sinv s \<Longrightarrow> map_of (spending s) i = Some p \<Longrightarrow> upload_ok (sfiles s) i p"
  by (simp add: sinv_def)

lemma upload_ok_other:
  "upload_ok fs i p \<Longrightarrow> map_of fs' (part_name i) = map_of fs (part_name i) \<Longrightarrow> upload_ok fs' i p"
  by (simp add: upload_ok_def)

lemma discard_sinv:
  assumes "sinv s" "map_of (spending s) i = Some p"
  shows "sinv (discard unremovable i p s)"
proof -
  let ?s = "discard unremovable i p s"
  have files: "sfiles ?s = (if unremovable (part_name i) then sfiles s else delete_key (part_name i) (sfiles s))"
    and pend: "spending ?s = delete_key i (spending s)" and used: "sused ?s = sused s - mSize (umeta p)"
    by (simp_all add: discard_def remove_file_def Let_def)
  have "attach_bytes (sfiles ?s) \<le> attach_bytes (sfiles s)" by (simp add: files attach_delete_le)
  moreover have "reserved (spending ?s) = reserved (spending s) - mSize (umeta p)"
    using assms by (simp add: pend sinv_def reserved_delete)
  moreover have "upload_ok (sfiles ?s) j q" if "map_of (spending ?s) j = Some q" for j q
    using that sinv_upload [OF assms(1), of j q]
    by (auto simp: pend files map_of_delete intro: upload_ok_other split: if_splits)
  ultimately show ?thesis
    using assms(1) length_delete_key [of i "spending s"]
    by (simp add: sinv_def pend used distinct_delete_key)
qed

lemma foldl_discard_sinv:
  assumes "sinv s" "distinct (map fst ps)" "\<forall>(i, p) \<in> set ps. map_of (spending s) i = Some p"
  shows "sinv (foldl (\<lambda>s (i, p). if hour < now - utouched p then discard unremovable i p s else s) s ps)"
  using assms
proof (induction ps arbitrary: s)
  case (Cons x ps)
  obtain i p where x: "x = (i, p)" by force
  have lk: "map_of (spending s) i = Some p" using Cons.prems(3) x by simp
  have "\<forall>(j, q) \<in> set ps. map_of (spending (discard unremovable i p s)) j = Some q"
    using Cons.prems(2,3) x by (force simp: discard_def remove_file_def Let_def map_of_delete)
  with Cons discard_sinv [OF Cons.prems(1) lk, of unremovable] show ?case by (auto simp: x)
qed simp

lemma expire_sinv: "sinv s \<Longrightarrow> sinv (expire unremovable now s)"
  unfolding expire_def by (rule foldl_discard_sinv) (auto simp: sinv_def)

lemma distinct_obj_set: "distinct (map fst xs) \<Longrightarrow> distinct (map fst (obj_set k v xs))"
  by (simp add: map_fst_obj_set map_of_eq_None_iff)

lemma length_obj_set: "length (obj_set k v xs) = (if map_of xs k = None then Suc (length xs) else length xs)"
  by (induction xs) auto

lemma sinv_part:
  assumes "sinv s" "is_part n" "\<And>i. map_of (spending s) i \<noteq> None \<Longrightarrow> n \<noteq> part_name i"
  shows "sinv (s\<lparr>sfiles := obj_set n c (sfiles s)\<rparr>)" "sinv (s\<lparr>sfiles := delete_key n (sfiles s)\<rparr>)"
proof -
  have "upload_ok (obj_set n c (sfiles s)) j q \<and> upload_ok (delete_key n (sfiles s)) j q"
    if "map_of (spending s) j = Some q" for j q
    using that sinv_upload [OF assms(1) that] assms(3) [of j]
    by (auto simp: map_of_obj_set map_of_delete intro: upload_ok_other)
  with assms(1,2) show "sinv (s\<lparr>sfiles := obj_set n c (sfiles s)\<rparr>)" "sinv (s\<lparr>sfiles := delete_key n (sfiles s)\<rparr>)"
    using attach_delete_le [of n "sfiles s"] by (simp_all add: sinv_def attach_set_private)
qed

lemma part_free: "sinv s \<Longrightarrow> map_of (sfiles s) (part_name i) = None \<Longrightarrow> map_of (spending s) i = None"
  using sinv_upload [of s i] by (cases "map_of (spending s) i") (auto simp: upload_ok_def)

lemma sinv_insert:
  assumes "sinv s" "idPattern i" "map_of (spending s) i = None" "length (spending s) < MaxPending"
    and "mID meta = i" "validName (mName meta)" "0 \<le> mSize meta" "mSize meta \<le> MaxFileBytes"
    and "map_of (sfiles s) (part_name i) = Some []"
  shows "sinv (s\<lparr>spending := obj_set i \<lparr>umeta = meta, uoffset = 0, utouched = now\<rparr> (spending s), sused := sused s + mSize meta\<rparr>)"
  using assms
  by (auto simp: sinv_def length_obj_set distinct_obj_set reserved_set_new map_of_obj_set upload_ok_def split: if_splits)

lemma Begin_sinv:
  assumes "sinv s" "\<forall>bytes. random = Some bytes \<longrightarrow> length bytes = 16"
  shows "sinv (fst (Begin unremovable now random openFails closeFails meta s))"
proof -
  let ?s = "expire unremovable now s"
  have inv: "sinv ?s" by (rule expire_sinv) (rule assms(1))
  show ?thesis
  proof (cases random)
    case None
    with inv assms(1) show ?thesis by (auto simp: Begin_def Let_def)
  next
    case (Some bytes)
    let ?i = "hex_EncodeToString bytes"
    let ?t = "?s\<lparr>sfiles := obj_set (part_name ?i) [] (sfiles ?s)\<rparr>"
    have i: "idPattern ?i" using assms(2) Some by (intro idPattern_hex) simp
    have t: "sinv ?t" "sinv (remove_file unremovable (part_name ?i) ?t)" "map_of (spending ?s) ?i = None"
      if "map_of (sfiles ?s) (part_name ?i) = None"
    proof -
      show free: "map_of (spending ?s) ?i = None" using inv that by (rule part_free)
      show t: "sinv ?t" using inv i free by (intro sinv_part(1)) (auto simp: is_part_name)
      have "sinv (?t\<lparr>sfiles := delete_key (part_name ?i) (sfiles ?t)\<rparr>)"
        using t is_part_name [OF i] by (rule sinv_part(2)) (use free in auto)
      with t show "sinv (remove_file unremovable (part_name ?i) ?t)" by (simp add: remove_file_def)
    qed
    let ?m = "meta\<lparr>mSHA256 := map lower_ascii (mSHA256 meta), mID := ?i, mPath := []\<rparr>"
    have added: "sinv (?t\<lparr>spending := obj_set ?i \<lparr>umeta = ?m, uoffset = 0, utouched = now\<rparr> (spending ?t), sused := sused ?t + mSize ?m\<rparr>)"
      if "map_of (sfiles ?s) (part_name ?i) = None" "length (spending ?s) < MaxPending" "validName (mName meta)"
        "0 \<le> mSize meta" "mSize meta \<le> MaxFileBytes"
      using that t i by (intro sinv_insert) (simp_all add: map_of_obj_set)
    show ?thesis using t added inv assms(1) Some by (auto simp: Begin_def Let_def not_le not_less)
  qed
qed

lemma write_at_end: "length content = offset \<Longrightarrow> write_at offset (length data) data content = content @ data"
  by (simp add: write_at_def)

lemma Append_sinv:
  assumes "sinv s"
  shows "sinv (fst (Append unremovable now openFails short i offset data s))"
proof (cases "idPattern i \<and> map_of (spending s) i \<noteq> None")
  case False
  with assms show ?thesis by (auto simp: Append_def split: option.splits)
next
  case True
  then obtain p where p: "map_of (spending s) i = Some p" and i: "idPattern i" by auto
  note ok = sinv_upload [OF assms p]
  then obtain c where c: "map_of (sfiles s) (part_name i) = Some c" "int (length c) = uoffset p"
    by (auto simp: upload_ok_def)
  let ?w = "\<lambda>x. s\<lparr>sfiles := obj_set (part_name i) x (sfiles s)\<rparr>"
  have fail: "sinv (discard unremovable i p (?w x))" for x
  proof -
    let ?d = "discard unremovable i p s" and ?e = "discard unremovable i p (?w x)"
    have d: "sinv ?d" using assms p by (rule discard_sinv)
    have same: "spending ?e = spending ?d" "sused ?e = sused ?d"
      "\<And>j. j \<noteq> i \<Longrightarrow> map_of (sfiles ?e) (part_name j) = map_of (sfiles s) (part_name j)"
      "attach_bytes (sfiles ?e) \<le> attach_bytes (sfiles s)"
      using attach_delete_le [of "part_name i" "obj_set (part_name i) x (sfiles s)"]
      by (auto simp: discard_def remove_file_def Let_def map_of_delete map_of_obj_set attach_set_private is_part_name [OF i])
    have "upload_ok (sfiles ?e) j q" if "map_of (spending ?e) j = Some q" for j q
    proof -
      have "j \<noteq> i" "map_of (spending s) j = Some q"
        using that by (auto simp: discard_def remove_file_def Let_def map_of_delete split: if_splits)
      with sinv_upload [OF assms] same(3) show ?thesis by (blast intro: upload_ok_other)
    qed
    moreover have "int (attach_bytes (sfiles s)) + reserved (spending ?d) \<le> sused ?d"
      using assms p by (simp add: discard_def remove_file_def Let_def sinv_def reserved_delete)
    ultimately show ?thesis using d same by (simp add: sinv_def)
  qed
  have written: "sinv (s\<lparr>sfiles := obj_set (part_name i) (c @ data) (sfiles s),
      spending := obj_set i (p\<lparr>uoffset := uoffset p + int (length data), utouched := now\<rparr>) (spending s)\<rparr>)"
    if "int (length data) \<le> mSize (umeta p) - uoffset p"
    using assms p c ok that
    by (auto simp: sinv_def length_obj_set distinct_obj_set reserved_set_same map_of_obj_set attach_set_private
        is_part_name [OF i] upload_ok_def split: if_splits)
  have "length c = nat (uoffset p)" using c(2) by simp
  with fail written assms p c i show ?thesis
    by (auto simp: Append_def write_at_end split: option.splits)
qed

lemma Complete_sinv:
  assumes "sinv s"
  shows "sinv (fst (Complete joinPath readFails renameFails writeFails i s))"
proof (cases "idPattern i \<and> map_of (spending s) i \<noteq> None")
  case False
  with assms show ?thesis by (auto simp: Complete_def split: option.splits)
next
  case True
  then obtain p where p: "map_of (spending s) i = Some p" and i: "idPattern i" by auto
  obtain c where c: "map_of (sfiles s) (part_name i) = Some c" "int (length c) = uoffset p"
    using sinv_upload [OF assms p] by (auto simp: upload_ok_def)
  let ?name = "file_name i (mName (umeta p))"
  let ?fs = "\<lambda>r. obj_set (receipt_name i) r (obj_set ?name c (delete_key (part_name i) (sfiles s)))"
  have bytes: "attach_bytes (?fs r) \<le> attach_bytes (sfiles s) + length c" for r
    using attach_set_le [of ?name c "delete_key (part_name i) (sfiles s)"] attach_delete_le [of "part_name i" "sfiles s"]
    by (simp add: attach_set_private is_receipt_name [OF i])
  have others: "upload_ok (?fs r) j q" if "map_of (delete_key i (spending s)) j = Some q" for r j q
  proof -
    have j: "j \<noteq> i" "map_of (spending s) j = Some q" using that by (auto simp: map_of_delete split: if_splits)
    with sinv_upload [OF assms j(2)] show ?thesis
      by (auto intro!: upload_ok_other simp: map_of_obj_set map_of_delete file_not_part [OF i] upload_ok_def)
  qed
  have fin: "sinv (s\<lparr>sfiles := ?fs r, spending := delete_key i (spending s), sused := u\<rparr>)"
    if "uoffset p = mSize (umeta p)" "sused s \<le> u" for r u
    using assms p others bytes [of r] c(2) that length_delete_key [of i "spending s"]
    by (simp add: sinv_def distinct_delete_key reserved_delete)
  have "sinv (s\<lparr>sfiles := ?fs r, spending := delete_key i (spending s)\<rparr>)" if "uoffset p = mSize (umeta p)" for r
    using fin [OF that, of "sused s" r] by (simp add: sinv_def)
  with fin assms p c i show ?thesis
    by (auto simp: Complete_def Let_def split: option.splits)
qed

lemma Cancel_sinv: "sinv s \<Longrightarrow> sinv (fst (Cancel removeFails i s))"
  by (auto simp: Cancel_def discard_sinv split: option.splits)

subsection \<open>All sequences of operations\<close>

lemma scan_entries_ok:
  assumes "scan_entries unremovable unreadable es s = Inr t"
  shows "sused t = sused s + int (sum_list (map (\<lambda>(n, d, b). if d \<or> is_part n then 0 else length b) es)) \<and>
    attach_bytes (sfiles t) \<le> attach_bytes (sfiles s) \<and> spending t = spending s"
  using assms
proof (induction unremovable unreadable es s rule: scan_entries.induct)
  case (2 unremovable unreadable name isdir bytes es s)
  then show ?case
    using attach_delete_le [of name "sfiles s"] by (auto split: if_splits intro: order_trans)
qed simp

lemma listed_bytes:
  "attach_bytes (List.map_filter (\<lambda>(n, d, b). if d then None else Some (n, b)) es) \<le>
   sum_list (map (\<lambda>(n, d, b). if d \<or> is_part n then 0 else length b) es)"
  by (induction es) (auto simp: attach_bytes_def List.map_filter_simps split: if_splits)

lemma New_sinv: "New absolute usable unremovable unreadable path listing = Inr s \<Longrightarrow> sinv s"
  using scan_entries_ok [of unremovable unreadable listing _ s] listed_bytes [of listing]
  by (fastforce simp: New_def sinv_def reserved_def split: if_splits)

definition opened :: "store \<Rightarrow> bool" where
  "opened s \<longleftrightarrow> (\<exists>unremovable unreadable path listing. New True True unremovable unreadable path listing = Inr s)"

text \<open>Every operation with every outcome of the calls it makes; the random source delivers 16 bytes.\<close>

inductive store_step :: "store \<Rightarrow> store \<Rightarrow> bool" where
  "(\<forall>bytes. random = Some bytes \<longrightarrow> length bytes = 16) \<Longrightarrow>
     store_step s (fst (Begin unremovable now random openFails closeFails meta s))"
| "store_step s (fst (Append unremovable now openFails short i offset data s))"
| "store_step s (fst (Complete joinPath readFails renameFails writeFails i s))"
| "store_step s (fst (Cancel removeFails i s))"

lemma store_step_sinv: "store_step s t \<Longrightarrow> sinv s \<Longrightarrow> sinv t"
  by (induction rule: store_step.induct) (auto intro: Begin_sinv Append_sinv Complete_sinv Cancel_sinv)

interpretation uploads: invariant_system opened store_step sinv
  by unfold_locales (auto simp: opened_def intro: New_sinv store_step_sinv)

definition store_reachable :: "store \<Rightarrow> bool" where
  "store_reachable s \<longleftrightarrow> (\<exists>s0. opened s0 \<and> store_step\<^sup>*\<^sup>* s0 s)"

lemma store_reachable_sinv: "store_reachable s \<Longrightarrow> sinv s"
  using uploads.inv_reach [of s] by (simp add: store_reachable_def uploads.reach_def)

subsection \<open>Acknowledged bytes\<close>

text \<open>
  The same system with the bytes that the calls acknowledged to the client: a successful \<open>Begin\<close>
  acknowledges none under its identity, a successful \<open>Append\<close> adds its data to them, and no other
  call and no failure acknowledges any.
\<close>

inductive acked_step :: "store \<times> (string \<Rightarrow> string) \<Rightarrow> store \<times> (string \<Rightarrow> string) \<Rightarrow> bool" where
  begins: "(\<forall>bytes. random = Some bytes \<longrightarrow> length bytes = 16) \<Longrightarrow>
     Begin unremovable now random openFails closeFails meta s = (s', r) \<Longrightarrow>
     acked_step (s, acked) (s', case r of Inl e \<Rightarrow> acked | Inr m \<Rightarrow> acked(mID m := []))"
| appends: "Append unremovable now openFails short i offset data s = (s', r) \<Longrightarrow>
     acked_step (s, acked) (s', case r of Inl e \<Rightarrow> acked | Inr n \<Rightarrow> acked(i := acked i @ data))"
| completes: "Complete joinPath readFails renameFails writeFails i s = (s', r) \<Longrightarrow> acked_step (s, acked) (s', acked)"
| cancels: "Cancel removeFails i s = (s', r) \<Longrightarrow> acked_step (s, acked) (s', acked)"

lemma acked_step_store: "acked_step x y \<Longrightarrow> store_step (fst x) (fst y)"
proof (induction rule: acked_step.induct)
  case (begins random unremovable now openFails closeFails meta s s' r acked)
  then show ?case using store_step.intros(1) [of random s unremovable now openFails closeFails meta] by simp
next
  case (appends unremovable now openFails short i offset data s s' r acked)
  then show ?case using store_step.intros(2) [of s unremovable now openFails short i offset data] by simp
next
  case (completes joinPath readFails renameFails writeFails i s s' r acked)
  then show ?case using store_step.intros(3) [of s joinPath readFails renameFails writeFails i] by simp
next
  case (cancels removeFails i s s' r acked)
  then show ?case using store_step.intros(4) [of s removeFails i] by simp
qed

text \<open>Every upload pending in \<open>t\<close> was pending in \<open>s\<close> with the same fragment.\<close>

definition kept :: "store \<Rightarrow> store \<Rightarrow> bool" where
  "kept s t \<longleftrightarrow> (\<forall>i p. map_of (spending t) i = Some p \<longrightarrow>
     map_of (spending s) i = Some p \<and> map_of (sfiles t) (part_name i) = map_of (sfiles s) (part_name i))"

lemma kept_refl [simp]: "kept s s"
  by (simp add: kept_def)

lemma kept_trans: "kept s t \<Longrightarrow> kept t u \<Longrightarrow> kept s u"
  by (simp add: kept_def)

lemma kept_discard: "kept s (discard unremovable i p s)"
  by (auto simp: kept_def discard_def remove_file_def Let_def map_of_delete split: if_splits)

lemma kept_foldl:
  "kept s (foldl (\<lambda>s (i, p). if hour < now - utouched p then discard unremovable i p s else s) s ps)"
proof (induction ps arbitrary: s)
  case (Cons x ps)
  obtain i p where "x = (i, p)" by force
  with Cons.IH [of s] kept_trans [OF kept_discard Cons.IH [of "discard unremovable i p s"]] show ?case by simp
qed simp

lemma kept_expire: "kept s (expire unremovable now s)"
  by (simp add: expire_def kept_foldl)

definition holds :: "store \<Rightarrow> (string \<Rightarrow> string) \<Rightarrow> bool" where
  "holds s acked \<longleftrightarrow> (\<forall>i p. map_of (spending s) i = Some p \<longrightarrow> map_of (sfiles s) (part_name i) = Some (acked i))"

lemma holds_kept: "holds s acked \<Longrightarrow> kept s t \<Longrightarrow> holds t acked"
  by (simp add: holds_def kept_def)

lemma holds_part: "holds s acked \<Longrightarrow> map_of (spending s) i = None \<Longrightarrow>
    holds (s\<lparr>sfiles := obj_set (part_name i) c (sfiles s)\<rparr>) (acked(i := c'))"
  by (auto simp: holds_def map_of_obj_set)

lemma Begin_holds:
  assumes "sinv s" "holds s acked" "Begin unremovable now random openFails closeFails meta s = (s', r)"
  shows "holds s' (case r of Inl e \<Rightarrow> acked | Inr m \<Rightarrow> acked(mID m := []))"
proof -
  let ?s = "expire unremovable now s"
  have e: "holds ?s acked" using holds_kept [OF assms(2) kept_expire] .
  show ?thesis
  proof (cases "\<exists>bytes. random = Some bytes \<and> map_of (sfiles ?s) (part_name (hex_EncodeToString bytes)) = None")
    case False
    with assms(2,3) e show ?thesis by (auto simp: Begin_def Let_def split: if_splits option.splits)
  next
    case True
    then obtain bytes where b: "random = Some bytes" "map_of (sfiles ?s) (part_name (hex_EncodeToString bytes)) = None" by auto
    let ?i = "hex_EncodeToString bytes"
    have free: "map_of (spending ?s) ?i = None" using expire_sinv [OF assms(1)] b(2) by (rule part_free)
    let ?t = "?s\<lparr>sfiles := obj_set (part_name ?i) [] (sfiles ?s)\<rparr>"
    have t: "holds ?t acked" using holds_part [OF e free, of "[]" "acked ?i"] by simp
    have "holds (remove_file unremovable (part_name ?i) ?t) acked"
      using t free by (auto simp: holds_def remove_file_def map_of_delete)
    moreover have "holds (?t\<lparr>spending := obj_set ?i p (spending ?t), sused := u\<rparr>) (acked(?i := []))" for p u
      using e by (auto simp: holds_def map_of_obj_set)
    ultimately show ?thesis
      using assms(2,3) e b by (auto simp: Begin_def Let_def split: if_splits)
  qed
qed

lemma Append_holds:
  assumes "sinv s" "holds s acked" "Append unremovable now openFails short i offset data s = (s', r)"
  shows "holds s' (case r of Inl e \<Rightarrow> acked | Inr n \<Rightarrow> acked(i := acked i @ data))"
proof (cases "map_of (spending s) i")
  case None
  with assms show ?thesis by (auto simp: Append_def split: if_splits)
next
  case (Some p)
  have c: "map_of (sfiles s) (part_name i) = Some (acked i)" using assms(2) Some by (simp add: holds_def)
  have "int (length (acked i)) = uoffset p" using sinv_upload [OF assms(1) Some] c by (simp add: upload_ok_def)
  then have len: "length (acked i) = nat (uoffset p)" by simp
  have cut: "holds (discard unremovable i p (s\<lparr>sfiles := obj_set (part_name i) x (sfiles s)\<rparr>)) acked" for x
    using assms(2) by (auto simp: holds_def discard_def remove_file_def Let_def map_of_delete map_of_obj_set split: if_splits)
  have "holds (s\<lparr>sfiles := obj_set (part_name i) (acked i @ data) (sfiles s), spending := obj_set i q (spending s)\<rparr>)
      (acked(i := acked i @ data))" for q
    using assms(2) by (auto simp: holds_def map_of_obj_set)
  with cut assms(2,3) Some c len show ?thesis
    by (auto simp: Append_def write_at_end split: if_splits option.splits)
qed

lemma Complete_holds:
  assumes "sinv s" "holds s acked" "Complete joinPath readFails renameFails writeFails i s = (s', r)"
  shows "holds s' acked"
proof (cases "idPattern i")
  case True
  have other: "part_name j \<noteq> file_name i name" if "map_of (spending s) j = Some p" for name j p
    using sinv_upload [OF assms(1) that] True by (auto simp: upload_ok_def dest: file_not_part)
  have moved: "holds (s\<lparr>sfiles := obj_set (receipt_name i) x (obj_set (file_name i name) c (delete_key (part_name i) (sfiles s))),
      spending := delete_key i (spending s), sused := u\<rparr>) acked" for x name c u
    using assms(2) other by (auto simp: holds_def map_of_delete map_of_obj_set split: if_splits)
  have "holds (s\<lparr>sfiles := obj_set (receipt_name i) x (obj_set (file_name i name) c (delete_key (part_name i) (sfiles s))),
      spending := delete_key i (spending s)\<rparr>) acked" for x name c
    using moved [where u = "sused s" and x = x and c = c] by (simp add: holds_def)
  with moved assms(2,3) True show ?thesis
    by (auto simp: Complete_def Let_def split: if_splits option.splits)
next
  case False
  with assms(2,3) show ?thesis by (auto simp: Complete_def)
qed

lemma Cancel_holds: "holds s acked \<Longrightarrow> Cancel removeFails i s = (s', r) \<Longrightarrow> holds s' acked"
  by (auto simp: Cancel_def intro: holds_kept kept_discard split: if_splits option.splits)

definition acked_start :: "store \<times> (string \<Rightarrow> string) \<Rightarrow> bool" where
  "acked_start x \<longleftrightarrow> opened (fst x) \<and> snd x = (\<lambda>_. [])"

definition acked_inv :: "store \<times> (string \<Rightarrow> string) \<Rightarrow> bool" where
  "acked_inv x \<longleftrightarrow> sinv (fst x) \<and> holds (fst x) (snd x)"

lemma New_pending: "New absolute usable unremovable unreadable path listing = Inr s \<Longrightarrow> spending s = []"
  using scan_entries_ok [of unremovable unreadable listing _ s] by (fastforce simp: New_def split: if_splits)

lemma acked_step_inv: "acked_step x y \<Longrightarrow> acked_inv x \<Longrightarrow> acked_inv y"
proof -
  assume step: "acked_step x y" and inv: "acked_inv x"
  have "sinv (fst y)" using store_step_sinv [OF acked_step_store [OF step]] inv by (simp add: acked_inv_def)
  moreover have "holds (fst y) (snd y)"
    using step inv
  proof (cases rule: acked_step.cases)
    case (begins random unremovable now openFails closeFails meta s s' r acked)
    with inv show ?thesis using Begin_holds [OF _ _ begins(4)] by (simp add: acked_inv_def)
  next
    case (appends unremovable now openFails short i offset data s s' r acked)
    with inv show ?thesis using Append_holds [OF _ _ appends(3)] by (simp add: acked_inv_def)
  next
    case (completes joinPath readFails renameFails writeFails i s s' r acked)
    with inv show ?thesis using Complete_holds [OF _ _ completes(3)] by (simp add: acked_inv_def)
  next
    case (cancels removeFails i s s' r acked)
    with inv show ?thesis using Cancel_holds [OF _ cancels(3)] by (simp add: acked_inv_def)
  qed
  ultimately show ?thesis by (simp add: acked_inv_def)
qed

interpretation acknowledged: invariant_system acked_start acked_step acked_inv
proof unfold_locales
  show "acked_inv x" if "acked_start x" for x
    using that New_sinv New_pending by (fastforce simp: acked_start_def acked_inv_def opened_def holds_def)
qed (auto intro: acked_step_inv)

definition acked_reachable :: "store \<Rightarrow> (string \<Rightarrow> string) \<Rightarrow> bool" where
  "acked_reachable s acked \<longleftrightarrow> (\<exists>x. acked_start x \<and> acked_step\<^sup>*\<^sup>* x (s, acked))"

lemma acked_reachable_inv: "acked_reachable s acked \<Longrightarrow> sinv s \<and> holds s acked"
  using acknowledged.inv_reach [of "(s, acked)"] by (simp add: acked_reachable_def acknowledged.reach_def acked_inv_def)

lemma acked_reachable_step: "acked_reachable s acked \<Longrightarrow> acked_step (s, acked) (s', acked') \<Longrightarrow> acked_reachable s' acked'"
  by (auto simp: acked_reachable_def intro: rtranclp.rtrancl_into_rtrancl)

subsection \<open>Whole uploads\<close>

fun append_all :: "int \<Rightarrow> string \<Rightarrow> int \<Rightarrow> string list \<Rightarrow> store \<Rightarrow> uerr + store" where
  "append_all now i offset [] s = Inr s"
| "append_all now i offset (d # ds) s =
     (case Append (\<lambda>_. False) now False None i offset d s of
        (s', Inl e) \<Rightarrow> Inl e
      | (s', Inr offset') \<Rightarrow> append_all now i offset' ds s')"

lemma append_all_ok:
  assumes "idPattern i" "map_of (spending s) i = Some p" "map_of (sfiles s) (part_name i) = Some c"
    and "int (length c) = uoffset p" "\<forall>d \<in> set ds. d \<noteq> [] \<and> length d \<le> MaxChunkBytes"
    and "uoffset p + int (length (concat ds)) \<le> mSize (umeta p)"
  shows "\<exists>s' p'. append_all now i (uoffset p) ds s = Inr s' \<and> map_of (spending s') i = Some p' \<and> umeta p' = umeta p \<and>
    uoffset p' = uoffset p + int (length (concat ds)) \<and> map_of (sfiles s') (part_name i) = Some (c @ concat ds) \<and>
    spath s' = spath s"
  using assms
proof (induction ds arbitrary: s p c)
  case Nil
  then show ?case by auto
next
  case (Cons d ds)
  let ?p = "p\<lparr>uoffset := uoffset p + int (length d), utouched := now\<rparr>"
  let ?s = "s\<lparr>sfiles := obj_set (part_name i) (c @ d) (sfiles s), spending := obj_set i ?p (spending s)\<rparr>"
  have "length c = nat (uoffset p)" using Cons.prems(4) by simp
  then have run: "Append (\<lambda>_. False) now False None i (uoffset p) d s = (?s, Inr (uoffset p + int (length d)))"
    using Cons.prems by (simp add: Append_def write_at_end)
  from Cons.IH [of ?s ?p "c @ d"] Cons.prems show ?case
    by (simp add: run map_of_obj_set add.assoc)
qed

lemma Begin_ok:
  assumes "Begin unremovable now random openFails closeFails meta s = (s', Inr m)"
  shows "\<exists>bytes. random = Some bytes \<and> mID m = hex_EncodeToString bytes \<and>
    map_of (spending s') (mID m) = Some \<lparr>umeta = m, uoffset = 0, utouched = now\<rparr> \<and>
    map_of (sfiles s') (part_name (mID m)) = Some [] \<and> mSize m = mSize meta \<and> 0 \<le> mSize m \<and>
    sused s' \<le> MaxStoredBytes \<and> mName m = mName meta \<and> mSHA256 m = map lower_ascii (mSHA256 meta)"
  using assms by (auto simp: Begin_def Let_def map_of_obj_set split: if_splits option.splits)

lemma Begin_id: "length bytes = 16 \<Longrightarrow>
   Begin unremovable now (Some bytes) openFails closeFails meta s = (s', Inr m) \<Longrightarrow> idPattern (mID m)"
  using Begin_ok [of unremovable now "Some bytes" openFails closeFails meta s s' m] by (auto simp: idPattern_hex)

lemma Complete_run:
  assumes "idPattern i" "map_of (spending s) i = Some p" "uoffset p = mSize (umeta p)"
    and "map_of (sfiles s) (part_name i) = Some c" "sha256_hex c = mSHA256 (umeta p)"
  shows "Complete joinPath False False None i s =
    (let name = file_name i (mName (umeta p)); meta = (umeta p)\<lparr>mPath := joinPath (spath s) name\<rparr>
     in (s\<lparr>sfiles := obj_set (receipt_name i) (marshal_meta meta) (obj_set name c (delete_key (part_name i) (sfiles s))),
           spending := delete_key i (spending s), sused := sused s + int (length (marshal_meta meta))\<rparr>, Inr meta))"
  using assms by (simp add: Complete_def Let_def)

lemma Complete_inv:
  assumes "Complete joinPath readFails renameFails writeFails i s = (s', Inr m)"
  obtains p c where "idPattern i" "map_of (spending s) i = Some p" "uoffset p = mSize (umeta p)"
    "map_of (sfiles s) (part_name i) = Some c" "sha256_hex c = mSHA256 (umeta p)"
    "Complete joinPath readFails renameFails writeFails i s = Complete joinPath False False None i s"
  using assms by (auto simp: Complete_def Let_def split: if_splits option.splits)

lemma length_sha_rounds: "length v = 8 \<Longrightarrow> length (foldl sha_round v kws) = 8"
  by (induction kws arbitrary: v) (simp_all add: sha_round_def Let_def)

lemma length_sha_blocks: "length h = 8 \<Longrightarrow> length (foldl sha_block h bs) = 8"
  by (induction bs arbitrary: h) (simp_all add: sha_block_def Let_def length_sha_rounds)

lemma sha_digest: "length (sha256_hex c) = 64" "list_all lower_hex (sha256_hex c)"
proof -
  have hex: "length (hex_EncodeToString bs) = 2 * length bs \<and> list_all lower_hex (hex_EncodeToString bs)" for bs
    by (induction bs) (simp_all add: hex_EncodeToString_def lower_hex_lower)
  have "length (concat (map (\<lambda>w :: 32 word. be_bytes 4 (unat w)) ws)) = 4 * length ws" for ws
    by (induction ws) (simp_all add: be_bytes_def)
  with hex length_sha_blocks [of sha_H] show "length (sha256_hex c) = 64" "list_all lower_hex (sha256_hex c)"
    by (simp_all add: sha256_hex_def sha_H_def)
qed

lemma digest_sha: "digest_ok (sha256_hex c)" "map lower_ascii (sha256_hex c) = sha256_hex c"
proof -
  have low: "hex_char_ok d" "lower_ascii d = d" if "lower_hex d" for d
    using that by (auto simp: hex_char_ok_def lower_ascii_def lower_hex_def is_digit_def)
  show "digest_ok (sha256_hex c)" using sha_digest [of c] low by (simp add: digest_ok_def list_all_iff)
  show "map lower_ascii (sha256_hex c) = sha256_hex c"
    using sha_digest(2) [of c] low by (intro map_idI) (simp add: list_all_iff)
qed

lemma resolve_loop_ok:
  assumes "resolve_loop one known ids = Inr ms"
  shows "distinct ids \<and> set ids \<inter> set known = {} \<and> length ms = length ids \<and> (\<forall>k < length ids. one (ids ! k) = Inr (ms ! k))"
  using assms
proof (induction one known ids arbitrary: ms rule: resolve_loop.induct)
  case (2 one known i "is")
  from 2(2) obtain m ms' where "i \<notin> set known" "one i = Inr m" "resolve_loop one (i # known) is = Inr ms'" "ms = m # ms'"
    by (auto split: if_splits elim: bindr_InrE)
  with 2(1) show ?case by (auto simp: nth_Cons split: nat.splits)
qed simp

subsection \<open>Properties\<close>

definition empty_store :: store where
  "empty_store = \<lparr>sfiles = [], spath = ''/d'', spending = [], sused = 0\<rparr>"

definition note_meta :: metadata where
  "note_meta = \<lparr>mID = [], mName = ''A'', mMIME = [], mSize = 2, mSHA256 = sha256_hex ''hi'', mPath = []\<rparr>"

definition note_id :: string where
  "note_id = hex_EncodeToString (replicate 16 0)"

definition note_begun :: metadata where
  "note_begun = note_meta\<lparr>mID := note_id\<rparr>"

definition note_store :: store where
  "note_store = \<lparr>sfiles = [(part_name note_id, [])], spath = ''/d'',
     spending = [(note_id, \<lparr>umeta = note_begun, uoffset = 0, utouched = 0\<rparr>)], sused = 2\<rparr>"

lemma empty_store_reachable: "store_reachable empty_store"
proof -
  have "New True True (\<lambda>_. False) (\<lambda>_. False) ''/d'' [] = Inr empty_store"
    by (simp add: New_def empty_store_def List.map_filter_simps)
  then show ?thesis unfolding store_reachable_def opened_def by blast
qed

lemma note_begin:
  "Begin (\<lambda>_. False) 0 (Some (replicate 16 0)) False False note_meta empty_store = (note_store, Inr note_begun)"
proof -
  have "validName (mName note_meta)"
    by (simp add: validName_def note_meta_def TrimSpace_def trim_runes_def runes_ascii IsSpace_def HasSuffix_def
        device_name_def upper_ascii_def)
  moreover have "\<not> video_mime (mMIME note_meta)" by (simp add: video_mime_def note_meta_def)
  moreover have "expire (\<lambda>_. False) 0 empty_store = empty_store" by (simp add: expire_def empty_store_def)
  ultimately show ?thesis
    by (simp add: Begin_def Let_def note_meta_def empty_store_def note_begun_def note_store_def note_id_def digest_sha
        MaxFileBytes_def MaxPending_def MaxStoredBytes_def)
qed

lemma note_reachable: "store_reachable note_store"
proof -
  have "store_step empty_store note_store"
    using store_step.intros(1) [of "Some (replicate 16 0)" empty_store "\<lambda>_. False" 0 False False note_meta] note_begin by simp
  then show ?thesis using empty_store_reachable
    by (auto simp: store_reachable_def intro: rtranclp.rtrancl_into_rtrancl)
qed

definition hi_store :: store where
  "hi_store = note_store\<lparr>sfiles := [(part_name note_id, ''hi'')],
     spending := [(note_id, \<lparr>umeta = note_begun, uoffset = 2, utouched = 0\<rparr>)]\<rparr>"

lemma note_id_pattern: "idPattern note_id"
  by (simp add: note_id_def idPattern_hex)

lemma hi_append: "Append (\<lambda>_. False) 0 False None note_id 0 ''hi'' note_store = (hi_store, Inr 2)"
  using note_id_pattern
  by (simp add: Append_def note_store_def hi_store_def MaxChunkBytes_def note_begun_def note_meta_def write_at_def)

lemma hi_acked: "acked_reachable hi_store ((\<lambda>_. [])(note_id := ''hi''))"
proof -
  have "New True True (\<lambda>_. False) (\<lambda>_. False) ''/d'' [] = Inr empty_store"
    by (simp add: New_def empty_store_def List.map_filter_simps)
  then have "acked_reachable empty_store (\<lambda>_. [])"
    unfolding acked_reachable_def acked_start_def opened_def by fastforce
  then have "acked_reachable note_store ((\<lambda>_. [])(mID note_begun := []))"
    using acked_reachable_step acked_step.begins [OF _ note_begin] by fastforce
  then have "acked_reachable note_store (\<lambda>_. [])" by (simp add: fun_upd_idem)
  from acked_reachable_step [OF this acked_step.appends [OF hi_append, of "\<lambda>_. []"]] show ?thesis by simp
qed

text \<open>
  C11. Whatever sequence of calls and file-system failures happened, at most \<open>MaxPending\<close> uploads are
  pending, the fragment of each holds exactly the bytes the calls acknowledged since its \<open>Begin\<close>,
  its offset is their number and no more than it declared, and the account covers every committed
  attachment and every reservation.
\<close>

theorem store_accounts:
  assumes "acked_reachable s acked"
  shows "length (spending s) \<le> MaxPending \<and>
    int (attach_bytes (sfiles s)) + reserved (spending s) \<le> sused s \<and>
    (\<forall>i p. map_of (spending s) i = Some p \<longrightarrow>
       map_of (sfiles s) (part_name i) = Some (acked i) \<and> uoffset p = int (length (acked i)) \<and>
       uoffset p \<le> mSize (umeta p) \<and> mSize (umeta p) \<le> MaxFileBytes)"
  using acked_reachable_inv [OF assms] by (auto simp: sinv_def upload_ok_def holds_def)

theorem store_accounts_witness:
  "acked_reachable hi_store ((\<lambda>_. [])(note_id := ''hi'')) \<and>
   map_of (sfiles hi_store) (part_name note_id) = Some ''hi'' \<and>
   int (attach_bytes (sfiles hi_store)) + reserved (spending hi_store) \<le> sused hi_store"
  using store_accounts [OF hi_acked] hi_acked by (auto simp: hi_store_def)

text \<open>
  An upload that \<open>Complete\<close> reports is intact: the committed file has the declared length and
  the declared SHA-256 digest, its receipt is on disk, and neither the fragment nor the pending
  entry is left.
\<close>

theorem Complete_verified:
  assumes "store_reachable s" and "Complete joinPath readFails renameFails writeFails i s = (s', Inr m)"
  shows "\<exists>c. map_of (sfiles s') (file_name i (mName m)) = Some c \<and> int (length c) = mSize m \<and>
    sha256_hex c = mSHA256 m \<and> map_of (sfiles s') (receipt_name i) = Some (marshal_meta m) \<and>
    map_of (sfiles s') (part_name i) = None \<and> map_of (spending s') i = None"
proof -
  from Complete_inv [OF assms(2)] obtain p c where p: "idPattern i" "map_of (spending s) i = Some p"
    "uoffset p = mSize (umeta p)" "map_of (sfiles s) (part_name i) = Some c" "sha256_hex c = mSHA256 (umeta p)"
    "Complete joinPath False False None i s = (s', Inr m)" using assms(2) by metis
  have "int (length c) = uoffset p"
    using sinv_upload [OF store_reachable_sinv [OF assms(1)] p(2)] p(4) by (simp add: upload_ok_def)
  with p Complete_run [OF p(1-5), of joinPath] file_not_part [OF p(1) p(1)] show ?thesis
    by (auto simp: Let_def map_of_obj_set map_of_delete)
qed

text \<open>
  C10. Uploading works: after \<open>Begin\<close>, sending the bytes in order in chunks of any legal size and then
  calling \<open>Complete\<close> succeeds when the bytes have the declared length and digest, and the
  committed file is exactly the concatenation of the chunks.
\<close>

theorem upload_roundtrip:
  assumes "store_reachable s" and "length bytes = 16"
    and "Begin unremovable now (Some bytes) openFails closeFails meta s = (s1, Inr m)"
    and "\<forall>d \<in> set ds. d \<noteq> [] \<and> length d \<le> MaxChunkBytes"
    and "int (length (concat ds)) = mSize m" and "sha256_hex (concat ds) = mSHA256 m"
  shows "\<exists>s2 s3. append_all now (mID m) 0 ds s1 = Inr s2 \<and>
    Complete joinPath False False None (mID m) s2 =
      (s3, Inr (m\<lparr>mPath := joinPath (spath s1) (file_name (mID m) (mName m))\<rparr>)) \<and>
    map_of (sfiles s3) (file_name (mID m) (mName m)) = Some (concat ds)"
proof -
  note b = Begin_ok [OF assms(3)]
  have i: "idPattern (mID m)" using assms(2,3) by (rule Begin_id)
  from append_all_ok [OF i, of s1 "\<lparr>umeta = m, uoffset = 0, utouched = now\<rparr>" "[]" ds now] b assms(4,5)
  obtain s2 p where s2: "append_all now (mID m) 0 ds s1 = Inr s2" "map_of (spending s2) (mID m) = Some p" "umeta p = m"
    "uoffset p = mSize m" "map_of (sfiles s2) (part_name (mID m)) = Some (concat ds)" "spath s2 = spath s1" by auto
  with Complete_run [OF i s2(2) _ s2(5), of joinPath] assms(6) show ?thesis
    by (auto simp: Let_def map_of_obj_set file_not_part [OF i i])
qed

theorem upload_roundtrip_witness:
  "\<exists>s2 s3. append_all 0 note_id 0 [''h'', ''i''] note_store = Inr s2 \<and>
     Complete (\<lambda>d n. d @ ''/'' @ n) False False None note_id s2 =
       (s3, Inr (note_begun\<lparr>mPath := ''/d/'' @ file_name note_id ''A''\<rparr>)) \<and>
     map_of (sfiles s3) (file_name note_id ''A'') = Some ''hi''"
  using upload_roundtrip [OF empty_store_reachable _ note_begin, of "[''h'', ''i'']" "\<lambda>d n. d @ ''/'' @ n"]
  by (simp add: note_begun_def note_meta_def MaxChunkBytes_def note_store_def)

theorem Complete_verified_witness:
  "\<exists>s' m c. Complete (\<lambda>d n. n) False False None note_id
       (note_store\<lparr>sfiles := [(part_name note_id, ''hi'')], spending := [(note_id, \<lparr>umeta = note_begun, uoffset = 2, utouched = 0\<rparr>)]\<rparr>) = (s', Inr m) \<and>
     mName m = ''A'' \<and> map_of (sfiles s') (file_name note_id ''A'') = Some c \<and> sha256_hex c = mSHA256 m"
proof -
  let ?p = "\<lparr>umeta = note_begun, uoffset = 2, utouched = 0\<rparr>"
  let ?s = "note_store\<lparr>sfiles := [(part_name note_id, ''hi'')], spending := [(note_id, ?p)]\<rparr>"
  have i: "idPattern note_id" by (simp add: note_id_def idPattern_hex)
  have "store_step note_store ?s"
    using store_step.intros(2) [of note_store "\<lambda>_. False" 0 False None note_id 0 "''hi''"] i
    by (simp add: Append_def note_store_def MaxChunkBytes_def note_begun_def note_meta_def write_at_def)
  then have r: "store_reachable ?s" using note_reachable
    by (auto simp: store_reachable_def intro: rtranclp.rtrancl_into_rtrancl)
  have lk: "map_of (spending ?s) note_id = Some ?p" "uoffset ?p = mSize (umeta ?p)" "map_of (sfiles ?s) (part_name note_id) = Some ''hi''"
    "sha256_hex ''hi'' = mSHA256 (umeta ?p)" "mName (umeta ?p) = ''A''"
    by (simp_all add: note_begun_def note_meta_def)
  note run = Complete_run [OF i lk(1-4), of "\<lambda>d n. n", unfolded Let_def]
  from Complete_verified [OF r run] run lk(5) show ?thesis by auto
qed

lemma resolve_one_inv:
  assumes "resolve_one unmarshal joinPath openable regular s i = Inr m"
  obtains c where "idPattern i" "validName (mName m)" "mID m = i" "map_of (sfiles s) (file_name i (mName m)) = Some c"
    "int (length c) = mSize m" "mPath m = joinPath (spath s) (file_name i (mName m))"
proof -
  from assms obtain meta c where "idPattern i" "validName (mName meta)" "mID meta = i"
    "map_of (sfiles s) (file_name i (mName meta)) = Some c" "int (length c) = mSize meta"
    and m: "m = meta\<lparr>mPath := joinPath (spath s) (file_name i (mName meta))\<rparr>"
    by (auto simp: resolve_one_def Let_def split: if_splits option.splits)
  then show thesis by (intro that [of c]) simp_all
qed

lemma separator_free:
  assumes "idPattern i" "validName name"
  shows "CHR ''/'' \<notin> set (file_name i name)" "CHR 0x5C \<notin> set (file_name i name)"
proof -
  have "\<not> lower_hex (CHR ''/'')" "\<not> lower_hex (CHR 0x5C)" by (simp_all add: lower_hex_def is_digit_def)
  then have "CHR ''/'' \<notin> set i" "CHR 0x5C \<notin> set i" using assms(1) by (auto simp: idPattern_def list_all_iff)
  moreover have "\<forall>c \<in> set name. c \<noteq> CHR ''/'' \<and> c \<noteq> CHR 0x5C"
    using assms(2) unfolding validName_def list_ex_iff by simp
  ultimately show "CHR ''/'' \<notin> set (file_name i name)" "CHR 0x5C \<notin> set (file_name i name)"
    by (auto simp: file_name_def)
qed

text \<open>
  \<open>Resolve\<close> only hands out committed attachments: at most sixteen, each asked for once, each a
  file of the private directory of exactly the recorded size, whose path is derived again and
  whose name contains no separator; a path stored in the receipt is never trusted.
\<close>

theorem Resolve_safe:
  assumes "Resolve unmarshal joinPath openable regular s ids = Inr ms" and "k < length ids"
  shows "length ms = length ids \<and> length ids \<le> 16 \<and> distinct ids \<and> mID (ms ! k) = ids ! k \<and>
    (\<exists>c. map_of (sfiles s) (file_name (ids ! k) (mName (ms ! k))) = Some c \<and> int (length c) = mSize (ms ! k)) \<and>
    mPath (ms ! k) = joinPath (spath s) (file_name (ids ! k) (mName (ms ! k))) \<and>
    CHR ''/'' \<notin> set (file_name (ids ! k) (mName (ms ! k))) \<and> CHR 0x5C \<notin> set (file_name (ids ! k) (mName (ms ! k)))"
proof -
  have loop: "resolve_loop (resolve_one unmarshal joinPath openable regular s) [] ids = Inr ms" "length ids \<le> 16"
    using assms(1) by (simp_all add: Resolve_def split: if_splits)
  note r = resolve_loop_ok [OF loop(1)]
  then have one: "resolve_one unmarshal joinPath openable regular s (ids ! k) = Inr (ms ! k)" using assms(2) by simp
  from resolve_one_inv [OF one] r loop(2) show ?thesis by (metis separator_free)
qed

theorem Resolve_safe_witness:
  "let s = empty_store\<lparr>sfiles := [(receipt_name note_id, ''{}''), (file_name note_id ''A'', ''hi'')]\<rparr>
   in Resolve (\<lambda>_. Some (note_begun\<lparr>mPath := ''/elsewhere''\<rparr>)) (\<lambda>d n. d @ ''/'' @ n) (\<lambda>_. True) (\<lambda>_. True) s [note_id] =
        Inr [note_begun\<lparr>mPath := ''/d/'' @ file_name note_id ''A''\<rparr>] \<and>
      CHR ''/'' \<notin> set (file_name note_id ''A'')"
proof -
  let ?s = "empty_store\<lparr>sfiles := [(receipt_name note_id, ''{}''), (file_name note_id ''A'', ''hi'')]\<rparr>"
  have i: "idPattern note_id" by (simp add: note_id_def idPattern_hex)
  have v: "validName ''A''"
    by (simp add: validName_def TrimSpace_def trim_runes_def runes_ascii IsSpace_def HasSuffix_def device_name_def upper_ascii_def)
  have run: "Resolve (\<lambda>_. Some (note_begun\<lparr>mPath := ''/elsewhere''\<rparr>)) (\<lambda>d n. d @ ''/'' @ n) (\<lambda>_. True) (\<lambda>_. True) ?s [note_id] =
      Inr [note_begun\<lparr>mPath := ''/d/'' @ file_name note_id ''A''\<rparr>]"
    using i v by (simp add: Resolve_def resolve_one_def note_begun_def note_meta_def file_not_part [OF i i] empty_store_def)
  from Resolve_safe [OF run, of 0] run show ?thesis by (simp add: note_begun_def note_meta_def)
qed

end
