(* ===== verification/NativeMessages.thy ===== *)
theory NativeMessages
  imports DesktopState ToolPreview
begin

text \<open>
  The projection of native turns to public messages (\<open>internal/codex/nativemessages.go\<close>) and of a
  whole desktop snapshot to a conversation page (\<open>ProjectDesktop\<close>, \<open>desktopstate.go\<close>).
\<close>

subsection \<open>Public records\<close>

record activity =
  a_Type :: string
  a_ToolName :: string
  a_Arguments :: "string option"
  a_Result :: "string option"
  a_State :: string
  a_DurationMs :: "rat option"
  a_ImagePath :: "string option"

record message =
  m_ID :: string
  m_TurnID :: string
  m_GroupID :: string
  m_NativeID :: string
  m_TextOffset :: "int option"
  m_TextContinues :: "bool option"
  m_ClientID :: "string option"
  m_Role :: string
  m_Timestamp :: float64
  m_Error :: "bool option"
  m_Text :: string
  m_ImageLinks :: "string list"
  m_Activity :: "activity option"

text \<open>A message with only the fields every projection sets.\<close>

definition plain_message :: "string \<Rightarrow> string \<Rightarrow> string option \<Rightarrow> string \<Rightarrow> float64 \<Rightarrow> string \<Rightarrow> activity option \<Rightarrow> message" where
  "plain_message i turn client role time t act =
     \<lparr>m_ID = i, m_TurnID = turn, m_GroupID = [], m_NativeID = [], m_TextOffset = None, m_TextContinues = None,
      m_ClientID = client, m_Role = role, m_Timestamp = time, m_Error = None, m_Text = t, m_ImageLinks = [],
      m_Activity = act\<rparr>"

definition f64_mul :: "float64 \<Rightarrow> rat \<Rightarrow> float64" where
  "f64_mul a k = (case a of Fin x \<Rightarrow> round_f64 (x * k) | _ \<Rightarrow> a)"

subsection \<open>Tool activity\<close>

definition copyDefined :: "string \<Rightarrow> props \<Rightarrow> string \<Rightarrow> props \<Rightarrow> props" where
  "copyDefined dstKey src srcKey dst =
     (case map_of src srcKey of None \<Rightarrow> dst | Some v \<Rightarrow> obj_set dstKey v dst)"

definition encoded :: "gval \<Rightarrow> string option" where
  "encoded v = ToolPreview v"

definition optionalDuration :: "gval \<Rightarrow> rat option" where
  "optionalDuration v = durationMilliseconds v"

text \<open>The projected parts of one tool record: its name, arguments, result and own failure.\<close>

record tool_parts =
  t_name :: string
  t_args :: gval
  t_result :: gval
  t_failed :: bool

definition command_parts :: "props \<Rightarrow> tool_parts" where
  "command_parts item =
     (let exit = field item ''exitCode''
      in \<lparr>t_name = ''execute_shell_command'',
          t_args = GObj (copyDefined ''cwd'' item ''cwd'' (copyDefined ''command'' item ''command'' [])),
          t_result = (if field item ''aggregatedOutput'' \<noteq> GNil \<or> exit \<noteq> GNil
                      then GObj (copyDefined ''exit_code'' item ''exitCode'' (copyDefined ''output'' item ''aggregatedOutput'' []))
                      else GNil),
          t_failed = (case exit of GNum n \<Rightarrow> n \<noteq> Fin 0 | _ \<Rightarrow> False)\<rparr>)"

definition change_parts :: "props \<Rightarrow> tool_parts" where
  "change_parts item =
     (let changes = GObj (copyDefined ''changes'' item ''changes'' [])
      in \<lparr>t_name = ''file_edit'', t_args = changes,
          t_result = (if Text (field item ''status'') = ''completed'' then changes else GNil), t_failed = False\<rparr>)"

definition mcp_parts :: "props \<Rightarrow> tool_parts" where
  "mcp_parts item =
     (let output = field item ''result''; outs = fields_of output
      in \<lparr>t_name = jsCoalesce (field item ''server'') ''mcp'' @ ''/'' @ jsCoalesce (field item ''tool'') ''tool'',
          t_args = field item ''arguments'',
          t_result =
            (if field item ''error'' \<noteq> GNil then field item ''error''
             else if output \<noteq> GNil then
               GObj (copyDefined ''structuredContent'' outs ''structuredContent''
                 (case textContent (field outs ''content'') of Some t \<Rightarrow> [(''text'', GSur t)] | None \<Rightarrow> []))
             else GNil),
          t_failed = (field outs ''isError'' = GBool True)\<rparr>)"

definition dynamic_parts :: "props \<Rightarrow> tool_parts" where
  "dynamic_parts item =
     (let parts = filter (\<lambda>s. s \<noteq> []) (map (\<lambda>k. Text (field item k)) [''namespace'', ''tool'']);
          name = join ''/'' parts
      in \<lparr>t_name = (if name = [] then ''dynamicToolCall'' else name), t_args = field item ''arguments'',
          t_result = (case textContent (field item ''contentItems'') of Some t \<Rightarrow> GStr t | None \<Rightarrow> GNil),
          t_failed = False\<rparr>)"

definition collab_parts :: "props \<Rightarrow> tool_parts" where
  "collab_parts item =
     \<lparr>t_name = ''collaboration/'' @ jsCoalesce (field item ''tool'') ''tool'',
      t_args = GObj (copyDefined ''model'' item ''model''
                 (copyDefined ''receiverThreadIds'' item ''receiverThreadIds'' (copyDefined ''prompt'' item ''prompt'' []))),
      t_result = field item ''agentsStates'', t_failed = False\<rparr>"

definition search_parts :: "props \<Rightarrow> tool_parts" where
  "search_parts item =
     \<lparr>t_name = ''web_search'',
      t_args = GObj (copyDefined ''action'' item ''action'' (copyDefined ''query'' item ''query'' [])),
      t_result = (if field item ''results'' \<noteq> GNil then GObj [(''results'', field item ''results'')] else GNil),
      t_failed = False\<rparr>"

definition view_parts :: "props \<Rightarrow> tool_parts" where
  "view_parts item =
     \<lparr>t_name = ''view_image'', t_args = GObj (copyDefined ''path'' item ''path'' []), t_result = GNil, t_failed = False\<rparr>"

definition generation_parts :: "props \<Rightarrow> tool_parts" where
  "generation_parts item =
     \<lparr>t_name = ''imageGeneration'',
      t_args = GObj (copyDefined ''transparentBackground'' item ''transparentBackground''
                 (copyDefined ''prompt'' item ''revisedPrompt'' [])),
      t_result =
        (if field item ''failure'' \<noteq> GNil then field item ''failure''
         else if truthy (field item ''savedPath'') then GObj [(''savedPath'', field item ''savedPath'')] else GNil),
      t_failed = (field item ''failure'' \<noteq> GNil)\<rparr>"

definition tool_parts_of :: "string \<Rightarrow> props \<Rightarrow> tool_parts option" where
  "tool_parts_of kind item =
     (if kind = ''commandExecution'' then Some (command_parts item)
      else if kind = ''fileChange'' then Some (change_parts item)
      else if kind = ''mcpToolCall'' then Some (mcp_parts item)
      else if kind = ''dynamicToolCall'' then Some (dynamic_parts item)
      else if kind = ''collabAgentToolCall'' then Some (collab_parts item)
      else if kind = ''webSearch'' then Some (search_parts item)
      else if kind = ''imageView'' then Some (view_parts item)
      else if kind = ''imageGeneration'' then Some (generation_parts item)
      else None)"

definition tool_state :: "string \<Rightarrow> props \<Rightarrow> bool \<Rightarrow> string" where
  "tool_state kind item failed =
     (let status = Text (field item ''status'')
      in if failed \<or> status = ''failed'' \<or> status = ''declined'' then ''failed''
         else if status = ''interrupted'' then ''stopped''
         else if status = ''inProgress'' \<or> status = ''in_progress'' then ''running''
         else if status = ''completed'' \<or> kind = ''webSearch'' \<and> field item ''results'' \<noteq> GNil \<or>
                 kind = ''imageView'' \<and> isNonEmptyString (field item ''path'')
         then ''succeeded'' else [])"

definition toolActivity :: "props \<Rightarrow> activity option" where
  "toolActivity item =
     (let kind = Text (field item ''type'')
      in case tool_parts_of kind item of
           None \<Rightarrow> None
         | Some p \<Rightarrow>
             let failed = (isFalse (field item ''success'') \<or> field item ''error'' \<noteq> GNil \<or> t_failed p)
             in Some \<lparr>a_Type = ''tool'', a_ToolName = t_name p, a_Arguments = encoded (t_args p),
                      a_Result = encoded (t_result p), a_State = tool_state kind item failed,
                      a_DurationMs = optionalDuration (field item ''durationMs''),
                      a_ImagePath = (if kind = ''imageView'' then AsText (field item ''path'') else None)\<rparr>)"

subsection \<open>Messages of turns\<close>

definition turnErrorControl :: "char \<Rightarrow> bool" where
  "turnErrorControl c \<longleftrightarrow> byte_of c \<le> 8 \<or> byte_of c = 11 \<or> byte_of c = 12 \<or> 14 \<le> byte_of c \<and> byte_of c \<le> 31 \<or> byte_of c = 127"

definition turnErrorMessage :: "gval \<Rightarrow> string option" where
  "turnErrorMessage turnErr =
     (case Fields turnErr of
        None \<Rightarrow> None
      | Some raw \<Rightarrow>
          map_option (\<lambda>t. sliceUTF16 (trimJSWhitespace (filter (\<lambda>c. \<not> turnErrorControl c) t)) 8192)
            (AsText (field raw ''message'')))"

record native_turn =
  n_ID :: string
  n_Items :: "props list"
  n_StartedAt :: "float64 option"
  n_Status :: gval
  n_Error :: gval

definition turn_time :: "native_turn \<Rightarrow> float64" where
  "turn_time turn = f64_mul (case n_StartedAt turn of None \<Rightarrow> Fin 0 | Some t \<Rightarrow> t) 1000"

definition reasoning_text :: "props \<Rightarrow> string" where
  "reasoning_text item =
     join [CHR 0x0A, CHR 0x0A]
       (filter (\<lambda>s. trimJSWhitespace s \<noteq> []) (List.map_filter AsText (asArray (field item ''summary''))))"

text \<open>The body of the item loop; \<open>None\<close> is \<open>continue\<close>.\<close>

definition project_item :: "bool \<Rightarrow> native_turn \<Rightarrow> props \<Rightarrow> message option" where
  "project_item includeActivity turn item =
     (let kind = Text (field item ''type'');
          make = (\<lambda>t act. Some (plain_message (identityString (field item ''id'')) (n_ID turn)
                    (stringPointer (field item ''clientId'')) (if kind = ''userMessage'' then ''user'' else ''assistant'')
                    (turn_time turn) t act))
      in if kind = ''userMessage'' then make (inputText (field item ''content'')) None
         else if kind = ''agentMessage'' then make (Text (field item ''text'')) None
         else if includeActivity \<and> kind = ''reasoning'' then
           (if reasoning_text item = [] then None
            else make (reasoning_text item)
                   (Some \<lparr>a_Type = ''thought'', a_ToolName = [], a_Arguments = None, a_Result = None, a_State = [],
                          a_DurationMs = optionalDuration (field item ''durationMs''), a_ImagePath = None\<rparr>))
         else if includeActivity then
           (case toolActivity item of None \<Rightarrow> None | Some act \<Rightarrow> make [] (Some act))
         else None)"

definition turnError :: "native_turn \<Rightarrow> message list" where
  "turnError turn =
     (if Text (n_Status turn) \<noteq> ''failed'' then []
      else
        let t = (case turnErrorMessage (n_Error turn) of
                   Some t \<Rightarrow> if t = [] then ''Codex failed to complete this turn.'' else t
                 | None \<Rightarrow> ''Codex failed to complete this turn.'')
        in [(plain_message (''filo-turn-error:'' @ n_ID turn) (n_ID turn) None ''assistant'' (turn_time turn) t None)
              \<lparr>m_Error := Some True\<rparr>])"

definition ProjectMessages :: "native_turn list \<Rightarrow> bool \<Rightarrow> message list" where
  "ProjectMessages turns includeActivity =
     concat (map (\<lambda>turn. List.map_filter (project_item includeActivity turn) (n_Items turn) @ turnError turn) (rev turns))"

subsection \<open>A desktop snapshot as a page\<close>

record runtime =
  r_Status :: string
  r_ActiveTurnID :: "string option"
  r_Model :: "string option"
  r_ContextTokens :: "float64 option"
  r_ContextWindow :: "float64 option"
  r_CompletedTurnID :: "string option option"
  r_Effort :: opt_text
  r_ServiceTier :: opt_text

record page =
  g_Messages :: "message list"
  g_Runtime :: runtime
  g_InputReceipts :: "receipt list"

text \<open>JavaScript \<open>slice(-turnLimit)\<close>.\<close>

definition trunc_neg :: "rat \<Rightarrow> int" where
  "trunc_neg x = (if 0 \<le> x then - \<lfloor>x\<rfloor> else \<lfloor>- x\<rfloor>)"

definition slice_turns :: "float64 \<Rightarrow> gval list \<Rightarrow> gval list" where
  "slice_turns turnLimit turns =
     (case turnLimit of
        Fin x \<Rightarrow>
          (let from = trunc_neg x
           in if from < 0 \<and> - from < int (length turns) then drop (length turns - nat (- from)) turns
              else if 0 < from then drop (nat from) turns
              else turns)
      | NInf \<Rightarrow> []
      | _ \<Rightarrow> turns)"

text \<open>An accepted steering input becomes a user message; its marker and refused inputs are dropped.\<close>

definition desktop_item :: "gval \<Rightarrow> props option" where
  "desktop_item v =
     (let item = fields_of v; kind = Text (field item ''type'')
      in if kind = ''steeringUserMessage'' then
           (if Text (field item ''status'') \<noteq> ''accepted'' then None
            else Some [(''type'', GStr ''userMessage''),
                       (''id'', if field item ''serverUserMessageId'' \<noteq> GNil then field item ''serverUserMessageId'' else field item ''id''),
                       (''clientId'', field item ''clientUserMessageId''), (''content'', field item ''input'')])
         else if kind = ''steered'' then None
         else Some item)"

definition native_turn_of :: "gval \<Rightarrow> native_turn option" where
  "native_turn_of v =
     (let turn = fields_of v
      in case field turn ''items'' of
           GArr items \<Rightarrow>
             Some \<lparr>n_ID = identityString (field turn ''turnId''), n_Items = List.map_filter desktop_item items,
                   n_StartedAt = Some (f64_div (case field turn ''turnStartedAtMs'' of GNum ms \<Rightarrow> ms | _ \<Rightarrow> Fin 0) 1000),
                   n_Status = field turn ''status'', n_Error = field turn ''error''\<rparr>
         | _ \<Rightarrow> None)"

fun native_turns :: "gval list \<Rightarrow> native_turn list option" where
  "native_turns [] = Some []"
| "native_turns (v # vs) =
     (case native_turn_of v of None \<Rightarrow> None | Some t \<Rightarrow> map_option ((#) t) (native_turns vs))"

definition dedupe_messages :: "message list \<Rightarrow> message list" where
  "dedupe_messages ms = map snd (foldl (\<lambda>acc m. obj_set (m_ID m) m acc) [] ms)"

definition number_field :: "props \<Rightarrow> string \<Rightarrow> float64 option" where
  "number_field ps k = (case field ps k of GNum n \<Rightarrow> Some n | _ \<Rightarrow> None)"

datatype project_error = InvalidDesktopState | UnsupportedItems

definition ProjectDesktop :: "gval \<Rightarrow> bool \<Rightarrow> float64 \<Rightarrow> project_error + page" where
  "ProjectDesktop v includeActivity turnLimit =
     (case Fields v of
        None \<Rightarrow> Inl InvalidDesktopState
      | Some state \<Rightarrow>
          let allTurns = desktopTurns state
          in case native_turns (slice_turns turnLimit allTurns) of
               None \<Rightarrow> Inl UnsupportedItems
             | Some native \<Rightarrow>
                 let status = DesktopStatus v;
                     usage = fields_of (field state ''latestTokenUsageInfo'')
                 in Inr \<lparr>g_Messages = dedupe_messages (ProjectMessages (rev native) includeActivity),
                         g_Runtime =
                           \<lparr>r_Status = the (ss_Status status), r_ActiveTurnID = ss_ActiveTurnID status,
                            r_Model = stringPointer (field state ''latestModel''),
                            r_ContextTokens = number_field (fields_of (field usage ''last'')) ''totalTokens'',
                            r_ContextWindow = number_field usage ''modelContextWindow'',
                            r_CompletedTurnID = Some (ss_CompletedTurnID status),
                            r_Effort = runtimeEffort state, r_ServiceTier = serviceTier state\<rparr>,
                         g_InputReceipts = desktopInputReceipts allTurns\<rparr>)"

end
