(* ===== verification/PublicJson.thy ===== *)
theory PublicJson
  imports NativeMessages GoJson
begin

text \<open>
  The JSON text of a public message (\<open>protocol.Message\<close>, \<open>internal/protocol/types.go\<close>) as
  \<open>encoding/json\<close> writes it with HTML escapes switched off. \<open>Optional\<close> and \<open>Number\<close> have their own
  \<open>MarshalJSON\<close>; the one of \<open>Optional\<close> calls \<open>json.Marshal\<close> and so escapes HTML whatever the outer encoder does.
\<close>

subsection \<open>Strings without HTML escapes\<close>

definition go_escape_raw :: "nat \<Rightarrow> nat \<Rightarrow> string \<Rightarrow> string" where
  "go_escape_raw r n s = (if r = 60 \<or> r = 62 \<or> r = 38 then take n s else go_escape r n s)"

function go_quote_raw_body :: "string \<Rightarrow> string" where
  "go_quote_raw_body s =
     (if s = [] then []
      else let (r, n) = DecodeRune s in go_escape_raw r n s @ go_quote_raw_body (drop n s))"
  by pat_completeness auto
termination
  by (relation "measure length") (auto dest: DecodeRune_progress)

declare go_quote_raw_body.simps [simp del]

definition go_quote_raw :: "string \<Rightarrow> string" where
  "go_quote_raw s = CHR 0x22 # go_quote_raw_body s @ [CHR 0x22]"

text \<open>\<open>compact\<close> with escapes on, over the output of a \<open>Marshaler\<close> without white space outside strings.\<close>

fun html_escape :: "string \<Rightarrow> string" where
  "html_escape [] = []"
| "html_escape (c # s) =
     (if c = CHR ''<'' \<or> c = CHR ''>'' \<or> c = CHR ''&'' then u_escape (byte_of c) @ html_escape s
      else if byte_of c = 226 \<and> 2 \<le> length s \<and> byte_of (s ! 0) = 128 \<and> (byte_of (s ! 1) = 168 \<or> byte_of (s ! 1) = 169)
      then u_escape (8064 + byte_of (s ! 1)) @ html_escape (drop 2 s)
      else c # html_escape s)"

subsection \<open>Numbers\<close>

text \<open>\<open>json.Marshal\<close> of a finite double agrees with JavaScript but for the sign of a negative zero.\<close>

definition Number_MarshalJSON :: "float64 \<Rightarrow> string" where
  "Number_MarshalJSON v = (case v of Fin x \<Rightarrow> jsNumberString v | _ \<Rightarrow> ''null'')"

subsection \<open>Messages\<close>

definition optional_member :: "string \<Rightarrow> string option \<Rightarrow> string list" where
  "optional_member key rendered = (case rendered of None \<Rightarrow> [] | Some r \<Rightarrow> [go_quote_raw key @ '':'' @ r])"

definition nonempty_member :: "string \<Rightarrow> string \<Rightarrow> string list" where
  "nonempty_member key v = optional_member key (if v = [] then None else Some (go_quote_raw v))"

definition bool_json :: "bool \<Rightarrow> string" where
  "bool_json b = (if b then ''true'' else ''false'')"

definition activity_json :: "activity \<Rightarrow> string" where
  "activity_json act =
     go_json_object
       (optional_member ''type'' (Some (go_quote_raw (a_Type act))) @
        nonempty_member ''toolName'' (a_ToolName act) @
        optional_member ''arguments'' (map_option (\<lambda>t. html_escape (MarshalJSON t)) (a_Arguments act)) @
        optional_member ''result'' (map_option (\<lambda>t. html_escape (MarshalJSON t)) (a_Result act)) @
        nonempty_member ''state'' (a_State act) @
        optional_member ''durationMs'' (map_option (\<lambda>d. jsNumberString (Fin d)) (a_DurationMs act)) @
        optional_member ''imagePath'' (map_option go_quote (a_ImagePath act)))"

definition message_json :: "message \<Rightarrow> string" where
  "message_json m =
     go_json_object
       (optional_member ''id'' (Some (go_quote_raw (m_ID m))) @
        optional_member ''turnId'' (Some (go_quote_raw (m_TurnID m))) @
        nonempty_member ''groupId'' (m_GroupID m) @
        nonempty_member ''nativeId'' (m_NativeID m) @
        optional_member ''textOffset'' (map_option FormatInt (m_TextOffset m)) @
        optional_member ''textContinues'' (map_option bool_json (m_TextContinues m)) @
        optional_member ''clientId'' (Some (case m_ClientID m of None \<Rightarrow> ''null'' | Some s \<Rightarrow> go_quote_raw s)) @
        optional_member ''role'' (Some (go_quote_raw (m_Role m))) @
        optional_member ''timestamp'' (Some (Number_MarshalJSON (m_Timestamp m))) @
        optional_member ''error'' (map_option bool_json (m_Error m)) @
        optional_member ''text'' (Some (MarshalJSON (m_Text m))) @
        optional_member ''imageLinks''
          (if m_ImageLinks m = [] then None else Some (''['' @ join '','' (map go_quote_raw (m_ImageLinks m)) @ '']'')) @
        optional_member ''activity'' (map_option activity_json (m_Activity m)))"

subsection \<open>Plain ASCII text\<close>

definition plain_char :: "char \<Rightarrow> bool" where
  "plain_char c \<longleftrightarrow> 32 \<le> byte_of c \<and> byte_of c < 128 \<and> byte_of c \<noteq> 34 \<and> byte_of c \<noteq> 92"

lemma DecodeRune_ascii: "byte_of c < 128 \<Longrightarrow> DecodeRune (c # s) = (byte_of c, 1)"
  by (simp add: Let_def)

lemma EncodeRune_ascii: "byte_of c < 128 \<Longrightarrow> EncodeRune (byte_of c) = [c]"
  by (simp add: EncodeRune_def wtf8_def is_surrogate_def)

lemma go_quote_raw_plain: "\<forall>c \<in> set s. plain_char c \<Longrightarrow> go_quote_raw_body s = s"
  by (induction s) (simp_all add: go_quote_raw_body.simps [of "[]"] go_quote_raw_body.simps [of "_ # _"] DecodeRune_ascii go_escape_raw_def go_escape_def plain_char_def
    RuneError_def del: DecodeRune.simps)

lemma surrogateAt_ascii: "byte_of c < 128 \<Longrightarrow> surrogateAt (c # s) 0 = None"
  by (simp add: surrogateAt_def)

lemma marshal_plain: "\<forall>c \<in> set s. plain_char c \<Longrightarrow> marshal_body s = s"
  by (induction s) (simp_all add: marshal_body.simps [of "[]"] marshal_body.simps [of "_ # _"] surrogateAt_ascii DecodeRune_ascii escape_rune_def EncodeRune_ascii
    plain_char_def del: DecodeRune.simps)

lemma utf16Len_ascii: "\<forall>c \<in> set s. byte_of c < 128 \<Longrightarrow> utf16Len s = length s"
  by (induction s) (simp_all add: utf16Len.simps [of "[]"] utf16Len.simps [of "_ # _"] nextUnit_surrogateAt surrogateAt_ascii DecodeRune_ascii del: DecodeRune.simps)

lemmas plain_json = go_quote_raw_def MarshalJSON_def go_quote_raw_plain marshal_plain plain_char_def

subsection \<open>Text that needs no escape\<close>

definition safe_char :: "char \<Rightarrow> bool" where
  "safe_char c \<longleftrightarrow> plain_char c \<and> byte_of c \<noteq> 60 \<and> byte_of c \<noteq> 62 \<and> byte_of c \<noteq> 38"

lemma go_quote_safe: "list_all safe_char s \<Longrightarrow> go_quote_body s = s"
  by (induction s) (simp_all add: go_quote_body.simps [of "[]"] go_quote_body.simps [of "_ # _"] DecodeRune_ascii go_escape_def safe_char_def plain_char_def
    RuneError_def del: DecodeRune.simps)

lemma go_quote_plain: "list_all safe_char s \<Longrightarrow> go_quote s = CHR 0x22 # s @ [CHR 0x22]"
  by (simp add: go_quote_def go_quote_safe)

end
