(* ===== verification/TaskActivity.thy ===== *)
theory TaskActivity
  imports PublicJson
begin

text \<open>
  The live activity buffer of one native task (\<open>internal/codex/taskactivity.go\<close>): notifications of the
  current turn are folded into a bounded ordered buffer, which \<open>Merge\<close> lays over a persisted page.
  Indexing an empty slice or following a nil entry stops the program; such a run has no result (\<open>None\<close>).
\<close>

subsection \<open>State\<close>

definition taskActivityItems :: int where
  "taskActivityItems = 128"

definition taskActivityChars :: int where
  "taskActivityChars = 4 * 1024 * 1024"

record taskActivityEntry =
  e_message :: message
  e_complete :: bool
  e_chars :: int
  e_summary :: "string list option"

record task_activity =
  ta_id :: string
  ta_maxItems :: int
  ta_maxChars :: int
  ta_turnID :: string
  ta_timestamp :: float64
  ta_entries :: "string \<rightharpoonup> taskActivityEntry"
  ta_order :: "string list"
  ta_chars :: int
  ta_overflowed :: bool

definition NewTaskActivityWith :: "string \<Rightarrow> int \<Rightarrow> int \<Rightarrow> task_activity" where
  "NewTaskActivityWith i maxItems maxChars =
     \<lparr>ta_id = i, ta_maxItems = maxItems, ta_maxChars = maxChars, ta_turnID = [], ta_timestamp = Fin 0,
      ta_entries = Map.empty, ta_order = [], ta_chars = 0, ta_overflowed = False\<rparr>"

definition NewTaskActivity :: "string \<Rightarrow> task_activity" where
  "NewTaskActivity i = NewTaskActivityWith i taskActivityItems taskActivityChars"

subsection \<open>Readers\<close>

definition taskActivityText :: "gval \<Rightarrow> string" where
  "taskActivityText v = Text v"

definition taskActivitySeconds :: "gval \<Rightarrow> float64" where
  "taskActivitySeconds v = (case v of GNum n \<Rightarrow> n | _ \<Rightarrow> Fin 0)"

definition taskActivitySummary :: "gval \<Rightarrow> string list option" where
  "taskActivitySummary v = (case v of GArr parts \<Rightarrow> Some (map Text parts) | _ \<Rightarrow> None)"

definition taskActivitySummaryText :: "string list \<Rightarrow> string" where
  "taskActivitySummaryText summary = join [CHR 0x0A, CHR 0x0A] (filter (\<lambda>p. trimJSWhitespace p \<noteq> []) summary)"

definition taskActivityCharsOf :: "message \<Rightarrow> int" where
  "taskActivityCharsOf m = int (utf16Len (message_json m))"

subsection \<open>Bounded insertion\<close>

definition ta_clear :: "task_activity \<Rightarrow> task_activity" where
  "ta_clear a = a\<lparr>ta_entries := Map.empty, ta_order := [], ta_chars := 0\<rparr>"

definition ta_overflow :: "task_activity \<Rightarrow> task_activity" where
  "ta_overflow a = (ta_clear a)\<lparr>ta_overflowed := True\<rparr>"

text \<open>The eviction loop, by recursion on the order list it consumes.\<close>

fun evict :: "string list \<Rightarrow> task_activity \<Rightarrow> task_activity option" where
  "evict [] a =
     (if ta_maxItems a < 0 \<or> ta_maxChars a < ta_chars a then None else Some (a\<lparr>ta_order := []\<rparr>))"
| "evict (oldest # rest) a =
     (if ta_maxItems a < int (length (oldest # rest)) \<or> ta_maxChars a < ta_chars a then
        (case ta_entries a oldest of
           None \<Rightarrow> None
         | Some e \<Rightarrow> evict rest (a\<lparr>ta_chars := ta_chars a - e_chars e, ta_entries := (ta_entries a)(oldest := None)\<rparr>))
      else Some (a\<lparr>ta_order := oldest # rest\<rparr>))"

declare evict.simps [simp del]

definition ta_insert :: "message \<Rightarrow> bool \<Rightarrow> string list option \<Rightarrow> task_activity \<Rightarrow> task_activity" where
  "ta_insert m fin summary a =
     (let chars = taskActivityCharsOf m
      in a\<lparr>ta_order := (if ta_entries a (m_ID m) = None then ta_order a @ [m_ID m] else ta_order a),
           ta_entries := (ta_entries a)(m_ID m \<mapsto> \<lparr>e_message = m, e_complete = fin, e_chars = chars, e_summary = summary\<rparr>),
           ta_chars := ta_chars a - (case ta_entries a (m_ID m) of None \<Rightarrow> 0 | Some p \<Rightarrow> e_chars p) + chars\<rparr>)"

definition put :: "message \<Rightarrow> bool \<Rightarrow> string list option \<Rightarrow> task_activity \<Rightarrow> task_activity option" where
  "put m fin summary a =
     (if ta_maxChars a < taskActivityCharsOf m \<or> (case summary of None \<Rightarrow> False | Some s \<Rightarrow> ta_maxItems a < int (length s))
      then Some (ta_overflow a)
      else let b = ta_insert m fin summary a in evict (ta_order b) b)"

fun put_all :: "message list \<Rightarrow> task_activity \<Rightarrow> task_activity option" where
  "put_all [] a = Some a"
| "put_all (m # ms) a = (case put m True None a of None \<Rightarrow> None | Some b \<Rightarrow> put_all ms b)"

subsection \<open>Receive\<close>

definition event_turn :: "props \<Rightarrow> string option" where
  "event_turn ps =
     (if field ps ''turnId'' \<noteq> GNil
      then (case field ps ''turnId'' of GStr t \<Rightarrow> if t = [] then None else Some t | _ \<Rightarrow> None)
      else let t = Text (field (fields_of (field ps ''turn'')) ''id'') in if t = [] then None else Some t)"

text \<open>A new turn only opens through its own start event, except in a buffer that has none yet.\<close>

definition open_turn :: "string \<Rightarrow> string \<Rightarrow> props \<Rightarrow> task_activity \<Rightarrow> task_activity option" where
  "open_turn meth turnID turn a =
     (if turnID = ta_turnID a then Some a
      else if ta_turnID a \<noteq> [] \<and> meth \<noteq> ''turn/started'' then None
      else Some ((ta_clear a)\<lparr>ta_turnID := turnID, ta_overflowed := False,
                  ta_timestamp := f64_mul (taskActivitySeconds (field turn ''startedAt'')) 1000\<rparr>))"

definition failed_turn :: "string \<Rightarrow> string \<Rightarrow> props \<Rightarrow> task_activity \<Rightarrow> message list" where
  "failed_turn meth turnID turn a =
     (if meth = ''turn/completed'' \<and> taskActivityText (field turn ''status'') = ''failed''
      then ProjectMessages
        [\<lparr>n_ID = (if Text (field turn ''id'') \<noteq> [] then Text (field turn ''id'') else turnID), n_Items = [],
          n_StartedAt = Some (f64_div (ta_timestamp a) 1000), n_Status = field turn ''status'', n_Error = field turn ''error''\<rparr>] True
      else [])"

definition item_messages :: "string \<Rightarrow> props \<Rightarrow> task_activity \<Rightarrow> message list" where
  "item_messages turnID item a =
     ProjectMessages [\<lparr>n_ID = turnID, n_Items = [item], n_StartedAt = Some (f64_div (ta_timestamp a) 1000),
                       n_Status = GNil, n_Error = GNil\<rparr>] True"

text \<open>The paragraph a summary delta names; \<open>None\<close> ends in an overflow.\<close>

definition summary_index :: "props \<Rightarrow> task_activity \<Rightarrow> nat option" where
  "summary_index ps a =
     (case field ps ''summaryIndex'' of
        GNil \<Rightarrow> if 0 < ta_maxItems a then Some 0 else None
      | GNum (Fin x) \<Rightarrow>
          if jsSafeInteger (Fin x) \<and> 0 \<le> x \<and> \<lfloor>x\<rfloor> < ta_maxItems a then Some (nat \<lfloor>x\<rfloor>) else None
      | _ \<Rightarrow> None)"

definition extend_summary :: "string list \<Rightarrow> nat \<Rightarrow> string \<Rightarrow> string list" where
  "extend_summary summary i delta =
     (let padded = summary @ replicate (Suc i - length summary) [] in padded[i := padded ! i @ delta])"

definition fresh_message :: "string \<Rightarrow> string \<Rightarrow> bool \<Rightarrow> task_activity \<Rightarrow> message" where
  "fresh_message itemID turnID thought a =
     plain_message itemID turnID None ''assistant'' (ta_timestamp a) []
       (if thought then Some \<lparr>a_Type = ''thought'', a_ToolName = [], a_Arguments = None, a_Result = None, a_State = [],
                              a_DurationMs = None, a_ImagePath = None\<rparr> else None)"

definition receive_delta :: "string \<Rightarrow> string \<Rightarrow> props \<Rightarrow> task_activity \<Rightarrow> task_activity option" where
  "receive_delta meth turnID ps a =
     (let itemID = Text (field ps ''itemId''); thought = (meth = ''item/reasoning/summaryTextDelta'')
      in case field ps ''delta'' of
           GStr delta \<Rightarrow>
             (if itemID = [] \<or> (case ta_entries a itemID of Some e \<Rightarrow> e_complete e | None \<Rightarrow> False) \<or>
                 \<not> (meth = ''item/agentMessage/delta'' \<or> thought)
              then Some a
              else
                let m = (case ta_entries a itemID of Some e \<Rightarrow> e_message e | None \<Rightarrow> fresh_message itemID turnID thought a)
                in if thought then
                     (case summary_index ps a of
                        None \<Rightarrow> Some (ta_overflow a)
                      | Some i \<Rightarrow>
                          let old = (case ta_entries a itemID of None \<Rightarrow> [] | Some e \<Rightarrow>
                                       (case e_summary e of None \<Rightarrow> [] | Some s \<Rightarrow> s));
                              summary = extend_summary old i delta
                          in put (m\<lparr>m_Text := taskActivitySummaryText summary\<rparr>) False (Some summary) a)
                   else put (m\<lparr>m_Text := m_Text m @ delta\<rparr>) False None a)
         | _ \<Rightarrow> Some a)"

definition receive_item :: "string \<Rightarrow> string \<Rightarrow> props \<Rightarrow> task_activity \<Rightarrow> task_activity option" where
  "receive_item meth turnID item a =
     (case item_messages turnID item a of
        [] \<Rightarrow> Some a
      | m # _ \<Rightarrow> put m (meth = ''item/completed'') (taskActivitySummary (field item ''summary'')) a)"

definition receive_event :: "string \<Rightarrow> string \<Rightarrow> props \<Rightarrow> task_activity \<Rightarrow> task_activity option" where
  "receive_event meth turnID ps a =
     (case put_all (failed_turn meth turnID (fields_of (field ps ''turn'')) a) a of
        None \<Rightarrow> None
      | Some b \<Rightarrow>
          if Fields (field ps ''item'') \<noteq> None \<and> (meth = ''item/started'' \<or> meth = ''item/completed'')
          then receive_item meth turnID (fields_of (field ps ''item'')) b
          else receive_delta meth turnID ps b)"

definition ta_Receive :: "string \<Rightarrow> gval \<Rightarrow> task_activity \<Rightarrow> task_activity option" where
  "ta_Receive meth params a =
     (case Fields params of
        None \<Rightarrow> Some a
      | Some ps \<Rightarrow>
          if Text (field ps ''threadId'') \<noteq> ta_id a then Some a
          else case event_turn ps of
            None \<Rightarrow> Some a
          | Some turnID \<Rightarrow>
              (case open_turn meth turnID (fields_of (field ps ''turn'')) a of
                 None \<Rightarrow> Some a
               | Some b \<Rightarrow> if ta_overflowed b then Some b else receive_event meth turnID ps b))"

subsection \<open>Merge\<close>

definition order_positions :: "string list \<Rightarrow> string \<rightharpoonup> nat" where
  "order_positions ids = map_of (rev (zip ids [0..<length ids]))"

definition merge_anchor :: "(string \<rightharpoonup> nat) \<Rightarrow> message list \<Rightarrow> int" where
  "merge_anchor pos msgs =
     foldl (\<lambda>anchor m. case pos (m_ID m) of Some i \<Rightarrow> if anchor < int i then int i else anchor | None \<Rightarrow> anchor) (- 1) msgs"

text \<open>A completed block at or before the anchor of a persisted turn is left to the persisted page.\<close>

definition left_to_page :: "bool \<Rightarrow> int \<Rightarrow> nat \<Rightarrow> taskActivityEntry \<Rightarrow> bool" where
  "left_to_page persisted anchor i e \<longleftrightarrow> e_complete e \<and> persisted \<and> \<not> (0 \<le> anchor \<and> anchor < int i)"

text \<open>The live blocks to insert before each persisted message, and those left for the end of the page.\<close>

fun place_blocks :: "(string \<Rightarrow> bool) \<Rightarrow> bool \<Rightarrow> int \<Rightarrow> (string \<rightharpoonup> taskActivityEntry) \<Rightarrow> nat \<Rightarrow> string list \<Rightarrow>
    (string \<rightharpoonup> message list) \<Rightarrow> message list \<Rightarrow> ((string \<rightharpoonup> message list) \<times> message list) option" where
  "place_blocks present persisted anchor entries i [] before pending = Some (before, pending)"
| "place_blocks present persisted anchor entries i (k # ks) before pending =
     (if present k then
        (if pending = [] then place_blocks present persisted anchor entries (Suc i) ks before pending
         else place_blocks present persisted anchor entries (Suc i) ks (before(k \<mapsto> pending)) [])
      else case entries k of
        None \<Rightarrow> None
      | Some e \<Rightarrow>
          if left_to_page persisted anchor i e
          then place_blocks present persisted anchor entries (Suc i) ks before pending
          else place_blocks present persisted anchor entries (Suc i) ks before (pending @ [e_message e]))"

definition merged_block :: "task_activity \<Rightarrow> bool \<Rightarrow> (string \<rightharpoonup> message list) \<Rightarrow> message \<Rightarrow> message list" where
  "merged_block a preferPersisted before m =
     (case before (m_ID m) of None \<Rightarrow> [] | Some ms \<Rightarrow> ms) @
     (case ta_entries a (m_ID m) of
        Some e \<Rightarrow> if \<not> e_complete e \<and> \<not> preferPersisted then [e_message e] else [m]
      | None \<Rightarrow> [m])"

definition ta_Merge :: "message list \<Rightarrow> string option \<Rightarrow> bool \<Rightarrow> bool \<Rightarrow> task_activity \<Rightarrow> message list option" where
  "ta_Merge msgs currentTurnID activity preferPersisted a =
     (if ta_turnID a = [] \<or> currentTurnID \<noteq> Some (ta_turnID a) then Some msgs
      else
        let present = (\<lambda>k. k \<in> m_ID ` set msgs);
            anchor = merge_anchor (order_positions (ta_order a)) msgs;
            persisted = (\<exists>m \<in> set msgs. m_TurnID m = ta_turnID a)
        in case place_blocks present persisted anchor (ta_entries a) 0 (ta_order a) Map.empty [] of
             None \<Rightarrow> None
           | Some (before, pending) \<Rightarrow>
               let all = concat (map (merged_block a preferPersisted before) msgs) @ pending
               in Some (if activity then all else filter (\<lambda>m. m_Activity m = None) all))"

end
