(* ===== verification/TaskActivityCorrect.thy ===== *)
theory TaskActivityCorrect
  imports TaskActivity
begin

text \<open>
  Correctness of the live activity buffer: it stays within both bounds and never stops the program,
  its account is exact, and \<open>Merge\<close> keeps the persisted page and the native order.
\<close>

subsection \<open>Eviction keeps the longest fitting suffix\<close>

definition chars_of :: "(string \<rightharpoonup> taskActivityEntry) \<Rightarrow> string list \<Rightarrow> int" where
  "chars_of entries ks = (\<Sum>k\<leftarrow>ks. case entries k of None \<Rightarrow> 0 | Some e \<Rightarrow> e_chars e)"

definition fits :: "task_activity \<Rightarrow> string list \<Rightarrow> bool" where
  "fits a ks \<longleftrightarrow> int (length ks) \<le> ta_maxItems a \<and> chars_of (ta_entries a) ks \<le> ta_maxChars a"

definition keep_only :: "string list \<Rightarrow> task_activity \<Rightarrow> task_activity" where
  "keep_only ks a =
     a\<lparr>ta_order := ks, ta_entries := ta_entries a |` set ks, ta_chars := chars_of (ta_entries a) ks\<rparr>"

lemma chars_of_simps [simp]:
  "chars_of entries [] = 0"
  "chars_of entries (k # ks) = (case entries k of None \<Rightarrow> 0 | Some e \<Rightarrow> e_chars e) + chars_of entries ks"
  "chars_of entries (ks @ ls) = chars_of entries ks + chars_of entries ls"
  by (simp_all add: chars_of_def)

lemma chars_of_cong: "(\<And>k. k \<in> set ks \<Longrightarrow> entries k = entries' k) \<Longrightarrow> chars_of entries ks = chars_of entries' ks"
  unfolding chars_of_def by (rule arg_cong [where f = sum_list], rule map_cong) simp_all

lemma chars_of_upd_notin [simp]: "k \<notin> set ks \<Longrightarrow> chars_of (entries(k := v)) ks = chars_of entries ks"
  by (rule chars_of_cong) auto

lemma keep_only_all:
  assumes "set ks = dom (ta_entries a)" "ta_chars a = chars_of (ta_entries a) ks"
  shows "keep_only ks a = a\<lparr>ta_order := ks\<rparr>"
proof -
  have "ta_entries a |` set ks = ta_entries a" using assms(1) by (auto simp: restrict_map_def fun_eq_iff domIff)
  then show ?thesis unfolding keep_only_def assms(2) [symmetric] by simp
qed

lemma evict_spec:
  assumes "distinct ks" "set ks = dom (ta_entries a)" "ta_chars a = chars_of (ta_entries a) ks"
    and "0 \<le> ta_maxItems a" "0 \<le> ta_maxChars a"
  shows "\<exists>n \<le> length ks. evict ks a = Some (keep_only (drop n ks) a) \<and> fits a (drop n ks) \<and> (\<forall>j < n. \<not> fits a (drop j ks))"
  using assms
proof (induction ks arbitrary: a)
  case Nil
  then show ?case by (simp add: evict.simps keep_only_all fits_def)
next
  case (Cons k ks)
  obtain e where e: "ta_entries a k = Some e" using Cons.prems(2) by (metis domD list.set_intros(1))
  let ?b = "a\<lparr>ta_chars := ta_chars a - e_chars e, ta_entries := (ta_entries a)(k := None)\<rparr>"
  have knot: "k \<notin> set ks" using Cons.prems(1) by simp
  show ?case
  proof (cases "fits a (k # ks)")
    case True
    then have "evict (k # ks) a = Some (keep_only (k # ks) a)"
      using keep_only_all [OF Cons.prems(2,3)] Cons.prems(3) by (simp add: evict.simps fits_def)
    with True show ?thesis by (intro exI [of _ 0]) simp
  next
    case False
    have d: "set ks = dom (ta_entries ?b)" using Cons.prems(2) knot by auto
    have c: "ta_chars ?b = chars_of (ta_entries ?b) ks" using Cons.prems(3) e knot by simp
    have bounds: "distinct ks" "0 \<le> ta_maxItems ?b" "0 \<le> ta_maxChars ?b" using Cons.prems(1,4,5) by simp_all
    from Cons.IH [OF bounds(1) d c bounds(2,3)]
    obtain n where n: "n \<le> length ks" "evict ks ?b = Some (keep_only (drop n ks) ?b)"
      "fits ?b (drop n ks)" "\<forall>j < n. \<not> fits ?b (drop j ks)" by blast
    have sub: "k \<notin> set (drop j ks)" for j using knot by (meson in_set_dropD)
    have same: "fits ?b (drop j ks) = fits a (drop j ks)" for j using sub by (simp add: fits_def)
    have "keep_only (drop n ks) ?b = keep_only (drop n ks) a"
      using sub by (simp add: keep_only_def restrict_map_def fun_eq_iff)
    moreover have "evict (k # ks) a = evict ks ?b"
      using False Cons.prems(3) e by (auto simp: evict.simps fits_def)
    moreover have "\<not> fits a (drop j (k # ks))" if "j < Suc n" for j
      using that False n(4) same by (cases j) auto
    ultimately show ?thesis using n same by (intro exI [of _ "Suc n"]) simp
  qed
qed

subsection \<open>The buffer invariant\<close>

definition ainv :: "int \<Rightarrow> int \<Rightarrow> task_activity \<Rightarrow> bool" where
  "ainv mi mc a \<longleftrightarrow> distinct (ta_order a) \<and> set (ta_order a) = dom (ta_entries a) \<and>
     (\<forall>k e. ta_entries a k = Some e \<longrightarrow> m_ID (e_message e) = k \<and> e_chars e = taskActivityCharsOf (e_message e)) \<and>
     ta_chars a = chars_of (ta_entries a) (ta_order a) \<and> 0 \<le> mi \<and> 0 \<le> mc \<and>
     ta_maxItems a = mi \<and> ta_maxChars a = mc \<and> fits a (ta_order a)"

lemma ainv_New: "0 \<le> mi \<Longrightarrow> 0 \<le> mc \<Longrightarrow> ainv mi mc (NewTaskActivityWith i mi mc)"
  by (simp add: ainv_def NewTaskActivityWith_def fits_def)

lemma ainv_clear [intro]: "ainv mi mc a \<Longrightarrow> ainv mi mc (ta_clear a)"
  by (simp add: ainv_def ta_clear_def fits_def)

lemma ainv_fields [simp]:
  "ainv mi mc (a\<lparr>ta_turnID := t\<rparr>) = ainv mi mc a" "ainv mi mc (a\<lparr>ta_overflowed := v\<rparr>) = ainv mi mc a" "ainv mi mc (a\<lparr>ta_timestamp := x\<rparr>) = ainv mi mc a"
  by (simp_all add: ainv_def fits_def)

lemma ainv_overflow [intro]: "ainv mi mc a \<Longrightarrow> ainv mi mc (ta_overflow a)"
  using ainv_clear [where a = a] by (simp add: ta_overflow_def)

lemma ainv_keep:
  assumes "distinct (ta_order a)" "set (ta_order a) = dom (ta_entries a)"
    and "\<forall>k e. ta_entries a k = Some e \<longrightarrow> m_ID (e_message e) = k \<and> e_chars e = taskActivityCharsOf (e_message e)"
    and "0 \<le> mi" "0 \<le> mc" "ta_maxItems a = mi" "ta_maxChars a = mc" "fits a (drop n (ta_order a))"
  shows "ainv mi mc (keep_only (drop n (ta_order a)) a)"
proof -
  have "chars_of (ta_entries a |` set (drop n (ta_order a))) (drop n (ta_order a)) = chars_of (ta_entries a) (drop n (ta_order a))"
    by (rule chars_of_cong) simp
  moreover have "set (drop n (ta_order a)) = dom (ta_entries a |` set (drop n (ta_order a)))"
    using assms(2) set_drop_subset [of n "ta_order a"] by auto
  ultimately show ?thesis using assms by (auto simp: ainv_def keep_only_def fits_def restrict_map_def split: if_splits)
qed

text \<open>An insertion into a sound buffer meets the loop's requirements.\<close>

lemma chars_of_present:
  assumes "distinct ks" "k \<in> set ks"
  shows "chars_of (entries(k \<mapsto> e)) ks = chars_of entries ks - (case entries k of None \<Rightarrow> 0 | Some p \<Rightarrow> e_chars p) + e_chars e"
  using assms by (induction ks) auto

lemma insert_sound:
  fixes m :: message and c :: bool and s :: "string list option"
  assumes "ainv mi mc a"
  defines "b \<equiv> ta_insert m c s a"
  shows "distinct (ta_order b)" "set (ta_order b) = dom (ta_entries b)"
    "ta_chars b = chars_of (ta_entries b) (ta_order b)"
    "\<forall>k e. ta_entries b k = Some e \<longrightarrow> m_ID (e_message e) = k \<and> e_chars e = taskActivityCharsOf (e_message e)"
    "ta_maxItems b = ta_maxItems a" "ta_maxChars b = ta_maxChars a"
proof -
  have a: "distinct (ta_order a)" "set (ta_order a) = dom (ta_entries a)" "ta_chars a = chars_of (ta_entries a) (ta_order a)"
    using assms(1) by (auto simp: ainv_def)
  show "distinct (ta_order b)" using a by (auto simp: b_def ta_insert_def Let_def)
  show "set (ta_order b) = dom (ta_entries b)" using a by (auto simp: b_def ta_insert_def Let_def)
  show "ta_chars b = chars_of (ta_entries b) (ta_order b)"
  proof (cases "ta_entries a (m_ID m)")
    case None
    then have "m_ID m \<notin> set (ta_order a)" using a(2) by auto
    with None a(3) show ?thesis by (simp add: b_def ta_insert_def Let_def)
  next
    case (Some p)
    then have "m_ID m \<in> set (ta_order a)" using a(2) by auto
    from chars_of_present [OF a(1) this] Some a(3) show ?thesis by (simp add: b_def ta_insert_def Let_def)
  qed
  show "\<forall>k e. ta_entries b k = Some e \<longrightarrow> m_ID (e_message e) = k \<and> e_chars e = taskActivityCharsOf (e_message e)"
    using assms(1) by (auto simp: b_def ta_insert_def Let_def ainv_def)
  show "ta_maxItems b = ta_maxItems a" "ta_maxChars b = ta_maxChars a" by (simp_all add: b_def ta_insert_def Let_def)
qed

definition refuses :: "message \<Rightarrow> string list option \<Rightarrow> task_activity \<Rightarrow> bool" where
  "refuses m s a \<longleftrightarrow> ta_maxChars a < taskActivityCharsOf m \<or> (case s of None \<Rightarrow> False | Some t \<Rightarrow> ta_maxItems a < int (length t))"

text \<open>\<open>put\<close> on every branch: overflow, or the longest suffix of the insertion that fits both bounds.\<close>

lemma put_spec:
  assumes "ainv mi mc a"
  shows "if refuses m s a then put m c s a = Some (ta_overflow a)
    else \<exists>n \<le> length (ta_order (ta_insert m c s a)).
      put m c s a = Some (keep_only (drop n (ta_order (ta_insert m c s a))) (ta_insert m c s a)) \<and>
      fits (ta_insert m c s a) (drop n (ta_order (ta_insert m c s a))) \<and>
      (\<forall>j < n. \<not> fits (ta_insert m c s a) (drop j (ta_order (ta_insert m c s a))))"
proof (cases "refuses m s a")
  case True
  then show ?thesis by (simp add: put_def refuses_def)
next
  case False
  note i = insert_sound [OF assms, of m c s]
  have "0 \<le> ta_maxItems a" "0 \<le> ta_maxChars a" using assms by (auto simp: ainv_def)
  with evict_spec [OF i(1-3)] i(5,6) False show ?thesis by (simp add: put_def refuses_def Let_def)
qed

lemma put_inv:
  assumes "ainv mi mc a"
  obtains b where "put m c s a = Some b" "ainv mi mc b"
proof (cases "refuses m s a")
  case True
  then show ?thesis using that put_spec [OF assms, of m s c] assms by auto
next
  case False
  let ?i = "ta_insert m c s a"
  from False put_spec [OF assms, of m s c] obtain n where n: "put m c s a = Some (keep_only (drop n (ta_order ?i)) ?i)"
    "fits ?i (drop n (ta_order ?i))" by auto
  note i = insert_sound [OF assms, of m c s]
  have "ainv mi mc (keep_only (drop n (ta_order ?i)) ?i)"
    using assms i(5,6) by (intro ainv_keep i n) (simp_all add: ainv_def)
  with n(1) show ?thesis by (rule that)
qed

lemma put_all_inv: "ainv mi mc a \<Longrightarrow> \<exists>b. put_all ms a = Some b \<and> ainv mi mc b"
proof (induction ms arbitrary: a)
  case (Cons m ms)
  obtain b where "put m True None a = Some b" "ainv mi mc b" using put_inv [OF Cons.prems] by metis
  with Cons.IH show ?case by simp
qed simp

lemma receive_item_inv: "ainv mi mc a \<Longrightarrow> \<exists>b. receive_item meth t item a = Some b \<and> ainv mi mc b"
  by (auto simp: receive_item_def split: list.split elim: put_inv)

lemma receive_delta_inv:
  assumes "ainv mi mc a" shows "\<exists>b. receive_delta meth t ps a = Some b \<and> ainv mi mc b"
proof -
  have p: "\<exists>b. put m c s a = Some b \<and> ainv mi mc b" for m c s using put_inv [OF assms] by metis
  show ?thesis
  proof (cases "\<exists>delta. field ps ''delta'' = GStr delta")
    case True
    then obtain delta where d: "field ps ''delta'' = GStr delta" by blast
    show ?thesis unfolding receive_delta_def Let_def d gval.case
      by (cases "summary_index ps a") (simp_all only: option.case p ainv_overflow assms option.inject ex_simps simp_thms split: if_split)
  next
    case False
    then have "receive_delta meth t ps a = Some a" by (cases "field ps ''delta''") (simp_all add: receive_delta_def Let_def)
    with assms show ?thesis by simp
  qed
qed

lemma open_turn_inv: "ainv mi mc a \<Longrightarrow> open_turn meth t turn a = Some b \<Longrightarrow> ainv mi mc b"
  by (auto simp: open_turn_def split: if_splits)

lemma receive_event_inv:
  assumes "ainv mi mc a" shows "\<exists>b. receive_event meth t ps a = Some b \<and> ainv mi mc b"
proof -
  obtain b where "put_all (failed_turn meth t (fields_of (field ps ''turn'')) a) a = Some b" "ainv mi mc b"
    using put_all_inv [OF assms] by blast
  then show ?thesis
    using receive_item_inv [where a = b] receive_delta_inv [where a = b] unfolding receive_event_def by simp
qed

lemma ta_Receive_inv:
  assumes "ainv mi mc a" shows "\<exists>b. ta_Receive meth params a = Some b \<and> ainv mi mc b"
proof (cases "Fields params")
  case (Some ps)
  then show ?thesis using assms receive_event_inv open_turn_inv
    unfolding ta_Receive_def Some option.case
    by (cases "event_turn ps"; cases "open_turn meth (the (event_turn ps)) (fields_of (field ps ''turn'')) a") auto
qed (simp add: ta_Receive_def assms)

subsection \<open>Runs\<close>

fun ta_run :: "(string \<times> gval) list \<Rightarrow> task_activity \<Rightarrow> task_activity option" where
  "ta_run [] a = Some a"
| "ta_run ((meth, params) # evs) a = (case ta_Receive meth params a of None \<Rightarrow> None | Some b \<Rightarrow> ta_run evs b)"

lemma ta_run_inv: "ainv mi mc a \<Longrightarrow> \<exists>b. ta_run evs a = Some b \<and> ainv mi mc b"
proof (induction evs arbitrary: a)
  case (Cons ev evs)
  obtain meth params where [simp]: "ev = (meth, params)" by (cases ev)
  obtain b where "ta_Receive meth params a = Some b" "ainv mi mc b" using ta_Receive_inv [OF Cons.prems] by blast
  with Cons.IH show ?case by simp
qed simp

lemma ainv_run:
  assumes "ta_run evs (NewTaskActivityWith i mi mc) = Some a" "0 \<le> mi" "0 \<le> mc"
  shows "ainv mi mc a"
  using ta_run_inv [OF ainv_New [OF assms(2,3)], of evs i] assms(1) by simp

subsection \<open>Placement of live blocks\<close>

definition block_of :: "(string \<rightharpoonup> message list) \<Rightarrow> string \<Rightarrow> string list" where
  "block_of before k = (case before k of None \<Rightarrow> [] | Some ms \<Rightarrow> map m_ID ms)"

fun kept_ids :: "(string \<Rightarrow> bool) \<Rightarrow> bool \<Rightarrow> int \<Rightarrow> (string \<rightharpoonup> taskActivityEntry) \<Rightarrow> nat \<Rightarrow> string list \<Rightarrow> string list" where
  "kept_ids present persisted anchor entries i [] = []"
| "kept_ids present persisted anchor entries i (k # ks) =
     (if present k \<or> \<not> left_to_page persisted anchor i (the (entries k)) then [k] else []) @
     kept_ids present persisted anchor entries (Suc i) ks"

lemma kept_subset: "set (kept_ids present persisted anchor entries i ks) \<subseteq> set ks"
  by (induction ks arbitrary: i) auto

lemma kept_filter:
  "distinct ks \<Longrightarrow> kept_ids present persisted anchor entries i ks =
     filter (\<lambda>k. k \<in> set (kept_ids present persisted anchor entries i ks)) ks"
proof (induction ks arbitrary: i)
  case (Cons k ks)
  let ?r = "kept_ids present persisted anchor entries (Suc i) ks"
  have "k \<notin> set ?r" using Cons.prems kept_subset by (metis distinct.simps(2) subsetD)
  moreover have "filter (\<lambda>j. j = k \<or> j \<in> set ?r) ks = filter (\<lambda>j. j \<in> set ?r) ks"
    using Cons.prems by (intro filter_cong) auto
  ultimately show ?case
    using Cons by (cases "present k \<or> \<not> left_to_page persisted anchor i (the (entries k))") simp_all
qed simp

lemma kept_live:
  "k \<in> set ks \<Longrightarrow> present k \<or> \<not> e_complete (the (entries k)) \<Longrightarrow> k \<in> set (kept_ids present persisted anchor entries i ks)"
  by (induction ks arbitrary: i) (auto simp: left_to_page_def)

lemma place_blocks_total:
  "\<forall>k \<in> set ks. entries k \<noteq> None \<Longrightarrow> \<exists>b p. place_blocks present persisted anchor entries i ks before pending = Some (b, p)"
  by (induction ks arbitrary: i before pending) auto

lemma place_blocks_frame:
  "place_blocks present persisted anchor entries i ks before pending = Some (b, p) \<Longrightarrow>
    k \<notin> set ks \<or> \<not> present k \<Longrightarrow> b k = before k"
  by (induction ks arbitrary: i before pending) (auto split: if_splits option.splits)

lemma place_blocks_absent:
  "place_blocks present persisted anchor entries i ks before pending = Some (b, p) \<Longrightarrow>
    \<forall>k \<in> set ks. \<forall>e. entries k = Some e \<longrightarrow> m_ID (e_message e) = k \<Longrightarrow>
    \<forall>k ms. before k = Some ms \<longrightarrow> (\<forall>m \<in> set ms. \<not> present (m_ID m)) \<Longrightarrow> \<forall>m \<in> set pending. \<not> present (m_ID m) \<Longrightarrow>
    (\<forall>k ms. b k = Some ms \<longrightarrow> (\<forall>m \<in> set ms. \<not> present (m_ID m))) \<and> (\<forall>m \<in> set p. \<not> present (m_ID m))"
proof (induction ks arbitrary: i before pending)
  case (Cons k ks)
  show ?case
  proof (cases "present k")
    case True
    let ?b = "if pending = [] then before else before(k \<mapsto> pending)"
    have run: "place_blocks present persisted anchor entries (Suc i) ks ?b [] = Some (b, p)"
      using True Cons.prems(1) by (simp split: if_splits)
    have "\<forall>j ms. ?b j = Some ms \<longrightarrow> (\<forall>m \<in> set ms. \<not> present (m_ID m))"
      using Cons.prems(3,4) by simp
    with Cons.IH [OF run] Cons.prems(2) show ?thesis by simp
  next
    case False
    with Cons.prems(1) obtain e where e: "entries k = Some e" by (auto split: option.splits)
    then have "m_ID (e_message e) = k" using Cons.prems(2) by simp
    let ?p = "if left_to_page persisted anchor i e then pending else pending @ [e_message e]"
    have run: "place_blocks present persisted anchor entries (Suc i) ks before ?p = Some (b, p)"
      using False e Cons.prems(1) by (simp split: if_splits)
    have tail: "\<forall>m \<in> set ?p. \<not> present (m_ID m)" using Cons.prems(4) False \<open>m_ID (e_message e) = k\<close> by simp
    have rest: "\<forall>k \<in> set ks. \<forall>e. entries k = Some e \<longrightarrow> m_ID (e_message e) = k" using Cons.prems(2) by simp
    show ?thesis by (rule Cons.IH [OF run rest Cons.prems(3) tail])
  qed
qed simp

lemma place_blocks_ids:
  assumes "place_blocks present persisted anchor entries i ks before pending = Some (b, p)"
    and "distinct ks" "\<forall>k \<in> set ks. \<forall>e. entries k = Some e \<longrightarrow> m_ID (e_message e) = k" "\<forall>k \<in> set ks. before k = None"
  shows "concat (map (\<lambda>k. block_of b k @ [k]) (filter present ks)) @ map m_ID p =
    map m_ID pending @ kept_ids present persisted anchor entries i ks"
  using assms
proof (induction ks arbitrary: i before pending)
  case (Cons k ks)
  have ks: "k \<notin> set ks" "distinct ks" "\<forall>k \<in> set ks. \<forall>e. entries k = Some e \<longrightarrow> m_ID (e_message e) = k"
    "\<forall>k \<in> set ks. before k = None" "before k = None" using Cons.prems by auto
  show ?case
  proof (cases "present k")
    case True
    let ?b = "if pending = [] then before else before(k \<mapsto> pending)"
    have run: "place_blocks present persisted anchor entries (Suc i) ks ?b [] = Some (b, p)"
      using True Cons.prems(1) by (simp split: if_splits)
    have "\<forall>k \<in> set ks. ?b k = None" using ks(1,4) by auto
    from Cons.IH [OF run ks(2,3) this] have "concat (map (\<lambda>k. block_of b k @ [k]) (filter present ks)) @ map m_ID p =
      kept_ids present persisted anchor entries (Suc i) ks" by simp
    moreover have "block_of b k = map m_ID pending"
      using place_blocks_frame [OF run, of k] ks(1,5) by (simp add: block_of_def)
    ultimately show ?thesis using True by simp
  next
    case False
    with Cons.prems(1) obtain e where e: "entries k = Some e" by (auto split: option.splits)
    then have "m_ID (e_message e) = k" using Cons.prems(3) by simp
    with False e Cons.prems(1) Cons.IH [OF _ ks(2,3,4), of "Suc i" pending]
      Cons.IH [OF _ ks(2,3,4), of "Suc i" "pending @ [e_message e]"]
    show ?thesis by (cases "left_to_page persisted anchor i e") simp_all
  qed
qed simp

lemma merged_block_ids:
  assumes "\<forall>k e. ta_entries a k = Some e \<longrightarrow> m_ID (e_message e) = k"
  shows "map m_ID (merged_block a pp before m) = block_of before (m_ID m) @ [m_ID m]"
  using assms by (auto simp: merged_block_def block_of_def split: option.split)

text \<open>The identities of a merged page, and what restricting them to the buffer or to the page gives.\<close>

lemma merged_order:
  assumes "\<forall>k. set (block_of before k) \<subseteq> set ks" "\<forall>k. k \<notin> set ks \<longrightarrow> block_of before k = []"
  shows "filter (\<lambda>k. k \<in> set ks) (concat (map (\<lambda>k. block_of before k @ [k]) ids)) =
    concat (map (\<lambda>k. block_of before k @ [k]) (filter (\<lambda>k. k \<in> set ks) ids))"
proof (induction ids)
  case (Cons k ids)
  have "filter (\<lambda>k. k \<in> set ks) (block_of before k) = block_of before k"
    using assms(1) by (intro filter_True) auto
  with Cons assms(2) show ?case by auto
qed simp

lemma merged_present:
  assumes "\<forall>k. \<forall>j \<in> set (block_of before k). \<not> present j" "\<forall>k \<in> set ids. present k"
  shows "filter present (concat (map (\<lambda>k. block_of before k @ [k]) ids)) = ids"
  using assms(2)
proof (induction ids)
  case (Cons k ids)
  moreover have "filter present (block_of before k) = []" using assms(1) by (simp add: filter_empty_conv)
  ultimately show ?case by simp
qed simp

lemma ta_Merge_spec:
  assumes "ainv mi mc a" "ta_turnID a \<noteq> []"
  shows "\<exists>out. ta_Merge msgs (Some (ta_turnID a)) True pp a = Some out \<and>
    filter (\<lambda>k. k \<in> m_ID ` set msgs) (map m_ID out) = map m_ID msgs \<and>
    (filter (\<lambda>k. k \<in> set (ta_order a)) (map m_ID msgs) = filter (\<lambda>k. k \<in> m_ID ` set msgs) (ta_order a) \<longrightarrow>
      filter (\<lambda>k. k \<in> set (ta_order a)) (map m_ID out) = filter (\<lambda>k. k \<in> m_ID ` set out) (ta_order a) \<and>
      (\<forall>k e. ta_entries a k = Some e \<and> \<not> e_complete e \<longrightarrow> k \<in> m_ID ` set out))"
proof -
  let ?pr = "\<lambda>k. k \<in> m_ID ` set msgs" and ?ord = "ta_order a"
  let ?pe = "\<exists>m \<in> set msgs. m_TurnID m = ta_turnID a" and ?an = "merge_anchor (order_positions (ta_order a)) msgs"
  let ?kept = "kept_ids ?pr ?pe ?an (ta_entries a) 0 ?ord"
  have a: "distinct ?ord" "set ?ord = dom (ta_entries a)" "\<forall>k e. ta_entries a k = Some e \<longrightarrow> m_ID (e_message e) = k"
    using assms(1) by (auto simp: ainv_def)
  then have "\<forall>k \<in> set ?ord. ta_entries a k \<noteq> None" by auto
  from place_blocks_total [OF this] obtain before pending where p1: "place_blocks ?pr ?pe ?an (ta_entries a) 0 ?ord Map.empty [] = Some (before, pending)"
    by blast
  have ids_ok: "\<forall>k \<in> set ?ord. \<forall>e. ta_entries a k = Some e \<longrightarrow> m_ID (e_message e) = k" using a(3) by simp
  have ab: "(\<forall>k ms. before k = Some ms \<longrightarrow> (\<forall>m \<in> set ms. \<not> ?pr (m_ID m))) \<and> (\<forall>m \<in> set pending. \<not> ?pr (m_ID m))"
    by (rule place_blocks_absent [OF p1 ids_ok]) simp_all
  have p: "\<forall>k. k \<notin> set ?ord \<or> \<not> ?pr k \<longrightarrow> before k = None"
    "concat (map (\<lambda>k. block_of before k @ [k]) (filter ?pr ?ord)) @ map m_ID pending = ?kept"
    "\<forall>k. \<forall>j \<in> set (block_of before k). \<not> ?pr j" "\<forall>m \<in> set pending. \<not> ?pr (m_ID m)"
    subgoal using place_blocks_frame [OF p1] by blast
    subgoal using place_blocks_ids [OF p1 a(1) ids_ok] by simp
    subgoal
    proof (intro allI)
      show "\<forall>j \<in> set (block_of before k). \<not> ?pr j" for k
        using ab by (cases "before k") (simp_all add: block_of_def)
    qed
    subgoal using ab by blast
    done
  define out where "out = concat (map (merged_block a pp before) msgs) @ pending"
  have "map m_ID out = concat (map (\<lambda>k. block_of before k @ [k]) (map m_ID msgs)) @ map m_ID pending"
    unfolding out_def map_append map_concat map_map by (simp add: comp_def merged_block_ids [OF a(3)])
  note ids = this
  have run: "ta_Merge msgs (Some (ta_turnID a)) True pp a = Some out"
    using assms(2) p1 by (simp add: ta_Merge_def Let_def out_def)
  have page: "filter ?pr (map m_ID out) = map m_ID msgs"
    using p(4) merged_present [OF p(3), of "map m_ID msgs"] by (simp add: ids filter_empty_conv)
  have kept: "set ?kept \<subseteq> set ?ord" by (rule kept_subset)
  have blocks: "set (block_of before k) \<subseteq> set ?kept" for k
    using p(1) unfolding p(2) [symmetric] by (cases "k \<in> set ?ord \<and> ?pr k") (auto simp: block_of_def)
  have tail: "set (map m_ID pending) \<subseteq> set ?ord" using kept unfolding p(2) [symmetric] by simp
  have order: "filter (\<lambda>k. k \<in> set ?ord) (map m_ID out) = ?kept"
    if "filter (\<lambda>k. k \<in> set ?ord) (map m_ID msgs) = filter ?pr ?ord"
  proof -
    have in_ord: "\<forall>k. set (block_of before k) \<subseteq> set ?ord" using blocks kept by blast
    have none: "\<forall>k. k \<notin> set ?ord \<longrightarrow> block_of before k = []" using p(1) by (simp add: block_of_def)
    have last: "filter (\<lambda>k. k \<in> set ?ord) (map m_ID pending) = map m_ID pending" using tail by (intro filter_True) blast
    show ?thesis unfolding ids filter_append merged_order [OF in_ord none] that last by (rule p(2))
  qed
  show ?thesis
  proof (intro exI conjI impI)
    show "ta_Merge msgs (Some (ta_turnID a)) True pp a = Some out" by (rule run)
    show "filter ?pr (map m_ID out) = map m_ID msgs" by (rule page)
  next
    assume same: "filter (\<lambda>k. k \<in> set ?ord) (map m_ID msgs) = filter ?pr ?ord"
    have mem: "k \<in> m_ID ` set out \<longleftrightarrow> k \<in> set ?kept" if "k \<in> set ?ord" for k
    proof -
      have "k \<in> set ?kept \<longleftrightarrow> k \<in> set (filter (\<lambda>k. k \<in> set ?ord) (map m_ID out))" unfolding order [OF same] ..
      also have "\<dots> \<longleftrightarrow> k \<in> m_ID ` set out" using that by simp
      finally show ?thesis by simp
    qed
    show "filter (\<lambda>k. k \<in> set ?ord) (map m_ID out) = filter (\<lambda>k. k \<in> m_ID ` set out) ?ord"
      unfolding order [OF same] by (subst kept_filter [OF a(1)], rule filter_cong) (use mem in auto)
    show "\<forall>k e. ta_entries a k = Some e \<and> \<not> e_complete e \<longrightarrow> k \<in> m_ID ` set out"
    proof (intro allI impI)
      fix k e assume k: "ta_entries a k = Some e \<and> \<not> e_complete e"
      then have "k \<in> set ?ord" using a(2) by auto
      moreover from this k have "k \<in> set ?kept" by (intro kept_live) simp_all
      ultimately show "k \<in> m_ID ` set out" using mem by blast
    qed
  qed
qed

subsection \<open>Properties\<close>

text \<open>
  C12. For every sequence of notifications, well formed or not, the buffer never indexes an empty order
  or follows a missing entry, keeps at most \<open>maxItems\<close> messages of at most \<open>maxChars\<close> characters, and its
  account is exactly the serialized size of what it retains.
\<close>

theorem activity_bounded:
  assumes "0 \<le> mi" "0 \<le> mc"
  shows "\<exists>a. ta_run evs (NewTaskActivityWith i mi mc) = Some a \<and> int (length (ta_order a)) \<le> mi \<and> ta_chars a \<le> mc \<and>
    ta_chars a = (\<Sum>k\<leftarrow>ta_order a. taskActivityCharsOf (e_message (the (ta_entries a k)))) \<and>
    distinct (ta_order a) \<and> set (ta_order a) = dom (ta_entries a) \<and>
    (\<forall>k e. ta_entries a k = Some e \<longrightarrow> m_ID (e_message e) = k)"
proof -
  obtain a where a: "ta_run evs (NewTaskActivityWith i mi mc) = Some a" "ainv mi mc a"
    using ta_run_inv [OF ainv_New [OF assms]] by blast
  have "chars_of (ta_entries a) (ta_order a) = (\<Sum>k\<leftarrow>ta_order a. taskActivityCharsOf (e_message (the (ta_entries a k))))"
    unfolding chars_of_def using a(2) by (intro arg_cong [where f = sum_list] map_cong) (auto simp: ainv_def)
  with a show ?thesis by (intro exI [of _ a]) (simp add: ainv_def fits_def)
qed

definition delta_event :: "string \<Rightarrow> string \<Rightarrow> string \<Rightarrow> string \<Rightarrow> string \<times> gval" where
  "delta_event task turn item delta = (''item/agentMessage/delta'',
     GObj [(''threadId'', GStr task), (''turnId'', GStr turn), (''itemId'', GStr item), (''delta'', GStr delta)])"

theorem activity_bounded_witness:
  "\<exists>a. ta_run [delta_event ''t'' ''u'' ''A'' ''he'', delta_event ''t'' ''u'' ''B'' ''x''] (NewTaskActivityWith ''t'' 1 4096) = Some a \<and>
    int (length (ta_order a)) \<le> 1"
  using activity_bounded [of 1 4096 "[delta_event ''t'' ''u'' ''A'' ''he'', delta_event ''t'' ''u'' ''B'' ''x'']" "''t''"] by auto

text \<open>
  Merging into a page of the current turn keeps every persisted message in its place and order; when
  page and buffer agree on the order of the messages they share, the merged page follows the native
  order of the buffer and shows every live block that is not complete.
\<close>

theorem Merge_native_order:
  assumes "ta_run evs (NewTaskActivityWith i mi mc) = Some a" "0 \<le> mi" "0 \<le> mc" "ta_turnID a \<noteq> []"
  shows "\<exists>out. ta_Merge msgs (Some (ta_turnID a)) True pp a = Some out \<and>
    filter (\<lambda>k. k \<in> m_ID ` set msgs) (map m_ID out) = map m_ID msgs \<and>
    (filter (\<lambda>k. k \<in> set (ta_order a)) (map m_ID msgs) = filter (\<lambda>k. k \<in> m_ID ` set msgs) (ta_order a) \<longrightarrow>
      filter (\<lambda>k. k \<in> set (ta_order a)) (map m_ID out) = filter (\<lambda>k. k \<in> m_ID ` set out) (ta_order a) \<and>
      (\<forall>k e. ta_entries a k = Some e \<and> \<not> e_complete e \<longrightarrow> k \<in> m_ID ` set out))"
  using ta_Merge_spec [OF ainv_run [OF assms(1-3)] assms(4)] .

definition sample_run :: task_activity where
  "sample_run = the (ta_run [delta_event ''t'' ''u'' ''A'' ''he''] (NewTaskActivityWith ''t'' 2 4096))"

lemmas eval_json = taskActivityCharsOf_def message_json_def activity_json_def optional_member_def nonempty_member_def
  go_json_object_def plain_message_def plain_json Number_MarshalJSON_def jsNumberString_def utf16Len_ascii html_escape.simps
  u_escape_def hex_char_def

lemmas eval_receive = delta_event_def ta_Receive_def event_turn_def open_turn_def receive_event_def failed_turn_def
  receive_delta_def put_def ta_insert_def evict.simps fresh_message_def NewTaskActivityWith_def ta_clear_def field_def
  Fields_def Text_def AsText_def fields_of_def taskActivitySeconds_def f64_mul_def round_f64_def Let_def

lemma sample_run_facts:
  "ta_run [delta_event ''t'' ''u'' ''A'' ''he''] (NewTaskActivityWith ''t'' 2 4096) = Some sample_run"
  "ta_id sample_run = ''t''" "ta_turnID sample_run = ''u''" "\<not> ta_overflowed sample_run" "ta_order sample_run = [''A'']"
  "\<exists>e. ta_entries sample_run ''A'' = Some e \<and> \<not> e_complete e \<and> e_chars e = 84 \<and>
    e_message e = plain_message ''A'' ''u'' None ''assistant'' (Fin 0) ''he'' None"
  unfolding sample_run_def by (simp_all add: eval_receive eval_json)

theorem Merge_native_order_witness:
  "\<exists>out. ta_Merge [] (Some ''u'') True False sample_run = Some out \<and> ''A'' \<in> m_ID ` set out"
  using Merge_native_order [OF sample_run_facts(1), of "[]" False] sample_run_facts(3,5,6) by auto

lemma evict_fits: "int (length ks) \<le> ta_maxItems a \<Longrightarrow> ta_chars a \<le> ta_maxChars a \<Longrightarrow> evict ks a = Some (a\<lparr>ta_order := ks\<rparr>)"
  by (cases ks) (simp_all add: evict.simps)

lemma delta_event_put:
  assumes "ta_id a = i" "ta_turnID a = t" "t \<noteq> []" "\<not> ta_overflowed a" "k \<noteq> []" "ta_entries a k = Some e" "\<not> e_complete e"
  shows "ta_run [delta_event i t k d] a = put ((e_message e)\<lparr>m_Text := m_Text (e_message e) @ d\<rparr>) False None a"
proof -
  define ps where "ps = [(''threadId'', GStr i), (''turnId'', GStr t), (''itemId'', GStr k), (''delta'', GStr d)]"
  have f: "field ps ''threadId'' = GStr i" "field ps ''turnId'' = GStr t" "field ps ''itemId'' = GStr k"
    "field ps ''delta'' = GStr d" "field ps ''item'' = GNil" by (simp_all add: ps_def field_def)
  have "ta_Receive ''item/agentMessage/delta'' (GObj ps) a = receive_event ''item/agentMessage/delta'' t ps a"
    using assms f by (simp add: ta_Receive_def event_turn_def open_turn_def Fields_def Text_def AsText_def)
  also have "\<dots> = receive_delta ''item/agentMessage/delta'' t ps a"
    using f by (simp add: receive_event_def failed_turn_def Fields_def)
  also have "\<dots> = put ((e_message e)\<lparr>m_Text := m_Text (e_message e) @ d\<rparr>) False None a"
    using assms f by (simp add: receive_delta_def Let_def Text_def AsText_def)
  finally show ?thesis by (simp add: delta_event_def ps_def split: option.split)
qed

text \<open>
  A text delta for a live item appends to its text, whatever else the buffer holds, when the result
  fits; a message that alone exceeds the bound empties the buffer and stops it for the turn.
\<close>

theorem agent_delta:
  fixes d :: string
  assumes run: "ta_run evs (NewTaskActivityWith i mi mc) = Some a" "0 \<le> mi" "0 \<le> mc"
    and live: "ta_id a = i" "ta_turnID a = t" "t \<noteq> []" "\<not> ta_overflowed a" "k \<noteq> []" "ta_entries a k = Some e" "\<not> e_complete e"
  defines "m \<equiv> (e_message e)\<lparr>m_Text := m_Text (e_message e) @ d\<rparr>"
  shows "(mc < taskActivityCharsOf m \<longrightarrow> ta_run [delta_event i t k d] a = Some (ta_overflow a)) \<and>
    (ta_chars a - e_chars e + taskActivityCharsOf m \<le> mc \<and> taskActivityCharsOf m \<le> mc \<longrightarrow>
      ta_run [delta_event i t k d] a =
        Some (a\<lparr>ta_entries := (ta_entries a)(k \<mapsto> \<lparr>e_message = m, e_complete = False, e_chars = taskActivityCharsOf m, e_summary = None\<rparr>),
                ta_chars := ta_chars a - e_chars e + taskActivityCharsOf m\<rparr>))"
proof -
  have a: "ainv mi mc a" by (rule ainv_run [OF run])
  have id: "m_ID m = k" using a live(6) by (simp add: m_def ainv_def)
  have step: "ta_run [delta_event i t k d] a = put m False None a"
    unfolding m_def by (rule delta_event_put [OF live])
  have bounds: "ta_maxItems a = mi" "ta_maxChars a = mc" "int (length (ta_order a)) \<le> mi" using a by (auto simp: ainv_def fits_def)
  show ?thesis
  proof (intro conjI impI)
    assume "mc < taskActivityCharsOf m"
    then show "ta_run [delta_event i t k d] a = Some (ta_overflow a)" by (simp add: step put_def bounds)
  next
    assume "ta_chars a - e_chars e + taskActivityCharsOf m \<le> mc \<and> taskActivityCharsOf m \<le> mc"
    then show "ta_run [delta_event i t k d] a = Some (a\<lparr>ta_entries := (ta_entries a)(k \<mapsto>
        \<lparr>e_message = m, e_complete = False, e_chars = taskActivityCharsOf m, e_summary = None\<rparr>),
        ta_chars := ta_chars a - e_chars e + taskActivityCharsOf m\<rparr>)"
      using live(6) bounds by (simp add: step put_def ta_insert_def Let_def id evict_fits)
  qed
qed

theorem agent_delta_witness:
  "map_option (\<lambda>b. map_option (\<lambda>e. m_Text (e_message e)) (ta_entries b ''A'')) (ta_run [delta_event ''t'' ''u'' ''A'' ''llo''] sample_run)
    = Some (Some ''hello'')"
proof -
  obtain e where e: "ta_entries sample_run ''A'' = Some e" "\<not> e_complete e" "e_chars e = 84"
    "e_message e = plain_message ''A'' ''u'' None ''assistant'' (Fin 0) ''he'' None" using sample_run_facts(6) by blast
  have c: "ta_chars sample_run = 84" "taskActivityCharsOf ((e_message e)\<lparr>m_Text := m_Text (e_message e) @ ''llo''\<rparr>) = 87"
    unfolding sample_run_def e(4) by (simp_all add: eval_receive eval_json)
  from agent_delta [OF sample_run_facts(1) _ _ sample_run_facts(2,3) _ sample_run_facts(4) _ e(1,2), of "''llo''"] c e(3,4)
  show ?thesis by (simp add: plain_message_def)
qed

text \<open>
  The entry that is being extended can itself be the oldest one and be evicted without an overflow;
  the next delta then starts it anew, so the buffer holds a suffix of the item's text as its full message.
\<close>

theorem evicted_item_restarts:
  "map_option (\<lambda>a. (ta_overflowed a, map_option (\<lambda>e. m_Text (e_message e)) (ta_entries a ''A'')))
     (ta_run [delta_event ''t'' ''u'' ''A'' ''he'', delta_event ''t'' ''u'' ''B'' ''x'', delta_event ''t'' ''u'' ''A'' ''llo'']
       (NewTaskActivityWith ''t'' 1 4096)) = Some (False, Some ''llo'')"
  by (simp add: eval_json eval_receive)

text \<open>
  The characters of a tool argument are counted with HTML escapes, unlike those of the text.
\<close>

theorem argument_counts_html:
  "taskActivityCharsOf ((plain_message ''m'' ''u'' None ''assistant'' (Fin 0) ''<'' None)) =
   taskActivityCharsOf ((plain_message ''m'' ''u'' None ''assistant'' (Fin 0) ''a'' None)) \<and>
   taskActivityCharsOf ((plain_message ''m'' ''u'' None ''assistant'' (Fin 0) []
     (Some \<lparr>a_Type = ''tool'', a_ToolName = ''x'', a_Arguments = Some ''<'', a_Result = None, a_State = [], a_DurationMs = None, a_ImagePath = None\<rparr>))) =
   taskActivityCharsOf ((plain_message ''m'' ''u'' None ''assistant'' (Fin 0) []
     (Some \<lparr>a_Type = ''tool'', a_ToolName = ''x'', a_Arguments = Some ''a'', a_Result = None, a_State = [], a_DurationMs = None, a_ImagePath = None\<rparr>))) + 5"
  by (simp add: eval_json)

end
