(* ===== verification/MergeTurns.thy ===== *)
theory MergeTurns
  imports NativeMessages "HOL-Library.Multiset"
begin

text \<open>
  The public message list of a conversation: the deduplicated projection of a desktop snapshot
  (\<open>ProjectDesktop\<close>) and its merge with persisted history (\<open>mergeTurns\<close>, \<open>internal/sessions/read.go\<close>).
\<close>

subsection \<open>Ordered timestamps\<close>

text \<open>Doubles as a linear order, NaN last, so that the library's sorting applies to them.\<close>

fun f64_rank :: "float64 \<Rightarrow> nat \<times> rat" where
  "f64_rank NInf = (0, 0)"
| "f64_rank (Fin x) = (1, x)"
| "f64_rank PInf = (2, 0)"
| "f64_rank NaN = (3, 0)"

lemma f64_rank_inj: "f64_rank a = f64_rank b \<longleftrightarrow> a = b"
  by (cases a; cases b) simp_all

instantiation float64 :: linorder
begin

definition less_eq_float64 :: "float64 \<Rightarrow> float64 \<Rightarrow> bool" where
  "a \<le> b \<longleftrightarrow> fst (f64_rank a) < fst (f64_rank b) \<or> fst (f64_rank a) = fst (f64_rank b) \<and> snd (f64_rank a) \<le> snd (f64_rank b)"

definition less_float64 :: "float64 \<Rightarrow> float64 \<Rightarrow> bool" where
  "(a :: float64) < b \<longleftrightarrow> a \<le> b \<and> \<not> b \<le> a"

instance
proof
  fix a b c :: float64
  show "a < b \<longleftrightarrow> a \<le> b \<and> \<not> b \<le> a" by (rule less_float64_def)
  show "a \<le> a" by (simp add: less_eq_float64_def)
  show "a \<le> b \<Longrightarrow> b \<le> c \<Longrightarrow> a \<le> c" unfolding less_eq_float64_def by linarith
  show "a \<le> b \<Longrightarrow> b \<le> a \<Longrightarrow> a = b" unfolding less_eq_float64_def f64_rank_inj [symmetric] by (auto simp: prod_eq_iff)
  show "a \<le> b \<or> b \<le> a" unfolding less_eq_float64_def by linarith
qed

end

subsection \<open>mergeTurns\<close>

text \<open>
  The comparison of two groups. A difference of two doubles is zero only for equal ones and has the
  sign of the exact difference; a NaN (also of two equal infinities) compares as equal.
\<close>

definition turn_compare :: "float64 \<Rightarrow> float64 \<Rightarrow> int" where
  "turn_compare a b = (if a = NaN \<or> b = NaN \<or> a = b then 0 else if a < b then - 1 else 1)"

text \<open>
  \<open>slices.SortStableFunc\<close> as the insertion sort it is up to twenty elements: the next element moves
  left past those it is smaller than. Beyond twenty the library merges sorted blocks; on a weak
  order, which the library requires, every stable sort has the same result.
\<close>

fun insert_back :: "('a \<Rightarrow> 'a \<Rightarrow> int) \<Rightarrow> 'a \<Rightarrow> 'a list \<Rightarrow> 'a list" where
  "insert_back cmp x [] = [x]"
| "insert_back cmp x (y # ys) = (if cmp x y < 0 then y # insert_back cmp x ys else x # y # ys)"

definition SortStableFunc :: "('a \<Rightarrow> 'a \<Rightarrow> int) \<Rightarrow> 'a list \<Rightarrow> 'a list" where
  "SortStableFunc cmp xs = rev (foldl (\<lambda>sorted x. insert_back cmp x sorted) [] xs)"

text \<open>The groups in creation order, each with its turn; \<open>seen\<close> is fresh for each source.\<close>

definition group_step :: "(string \<times> message list) list \<times> string set \<Rightarrow> message \<Rightarrow> (string \<times> message list) list \<times> string set" where
  "group_step = (\<lambda>(groups, seen) m.
     let turn = m_TurnID m;
         old = (if turn \<in> seen then (case map_of groups turn of Some g \<Rightarrow> g | None \<Rightarrow> []) else [])
     in (obj_set turn (old @ [m]) groups, insert turn seen))"

definition group_source :: "(string \<times> message list) list \<Rightarrow> message list \<Rightarrow> (string \<times> message list) list" where
  "group_source groups source = fst (foldl group_step (groups, {}) source)"

definition mergeTurns :: "message list \<Rightarrow> message list \<Rightarrow> message list" where
  "mergeTurns persisted live =
     concat (SortStableFunc (\<lambda>a b. turn_compare (m_Timestamp (hd a)) (m_Timestamp (hd b)))
       (map snd (group_source (group_source [] persisted) live)))"

subsection \<open>The stable sort\<close>

lemma mset_insert_back: "mset (insert_back cmp x ys) = add_mset x (mset ys)"
  by (induction ys) simp_all

lemma turn_compare_less: "a \<noteq> NaN \<Longrightarrow> b \<noteq> NaN \<Longrightarrow> turn_compare a b < 0 \<longleftrightarrow> a < b"
  by (auto simp: turn_compare_def)

lemma insert_back_sorted:
  assumes "sorted_wrt (\<lambda>a b. key b \<le> key a) ys" "key x \<noteq> NaN" "\<forall>y \<in> set ys. key y \<noteq> NaN"
  shows "sorted_wrt (\<lambda>a b. key b \<le> key a) (insert_back (\<lambda>a b. turn_compare (key a) (key b)) x ys)"
  using assms
proof (induction ys)
  case (Cons y ys)
  have "set (insert_back (\<lambda>a b. turn_compare (key a) (key b)) x ys) = insert x (set ys)"
    by (metis mset_insert_back set_mset_add_mset_insert set_mset_mset)
  with Cons show ?case by (auto simp: turn_compare_less not_less)
qed simp

lemma insert_back_filter:
  assumes "key x \<noteq> NaN" "\<forall>y \<in> set ys. key y \<noteq> NaN"
  shows "filter (\<lambda>z. k = key z) (insert_back (\<lambda>a b. turn_compare (key a) (key b)) x ys) =
    (if k = key x then x # filter (\<lambda>z. k = key z) ys else filter (\<lambda>z. k = key z) ys)"
  using assms by (induction ys) (auto simp: turn_compare_less)

lemma SortStableFunc_sort_key:
  assumes "\<forall>x \<in> set xs. key x \<noteq> NaN"
  shows "SortStableFunc (\<lambda>a b. turn_compare (key a) (key b)) xs = sort_key key xs"
proof -
  let ?ins = "\<lambda>sorted x. insert_back (\<lambda>a b. turn_compare (key a) (key b)) x sorted"
  have "mset (foldl ?ins [] xs) = mset xs \<and> sorted_wrt (\<lambda>a b. key b \<le> key a) (foldl ?ins [] xs) \<and>
    (\<forall>k. filter (\<lambda>z. k = key z) (foldl ?ins [] xs) = rev (filter (\<lambda>z. k = key z) xs))"
    using assms
  proof (induction xs rule: rev_induct)
    case (snoc x xs)
    then have ih: "mset (foldl ?ins [] xs) = mset xs" "sorted_wrt (\<lambda>a b. key b \<le> key a) (foldl ?ins [] xs)"
      "\<forall>k. filter (\<lambda>z. k = key z) (foldl ?ins [] xs) = rev (filter (\<lambda>z. k = key z) xs)" by auto
    have "\<forall>y \<in> set (foldl ?ins [] xs). key y \<noteq> NaN" using snoc.prems ih(1) by (metis butlast_snoc in_set_butlastD set_mset_mset)
    with snoc.prems ih show ?case by (simp add: mset_insert_back insert_back_sorted insert_back_filter)
  qed simp
  then show ?thesis unfolding SortStableFunc_def
    by (intro properties_for_sort_key [symmetric]) (simp_all add: sorted_map sorted_wrt_rev rev_filter [symmetric])
qed

subsection \<open>Grouping\<close>

lemma nub_append: "nub (xs @ ys) = nub xs @ filter (\<lambda>y. y \<notin> set xs) (nub ys)"
  by (induction xs) (auto simp: nub.simps(2) filter_filter conj_commute intro: filter_cong)

lemma set_nub [simp]: "set (nub xs) = set xs"
  by (induction xs) (auto simp: nub.simps(2))

lemma distinct_nub [simp]: "distinct (nub xs)"
  by (induction xs) (simp_all add: nub.simps(2))

lemma nub_snoc: "nub (xs @ [x]) = (if x \<in> set xs then nub xs else nub xs @ [x])"
  by (simp add: nub_append nub.simps(2))

lemma group_state:
  assumes "foldl group_step (groups, {}) source = (gs, mk)"
  shows "mk = m_TurnID ` set source \<and>
    map fst gs = map fst groups @ filter (\<lambda>t. t \<notin> fst ` set groups) (nub (map m_TurnID source)) \<and>
    (\<forall>t. map_of gs t = (if t \<in> m_TurnID ` set source then Some (filter (\<lambda>m. m_TurnID m = t) source) else map_of groups t))"
  using assms
proof (induction source arbitrary: gs mk rule: rev_induct)
  case Nil
  then show ?case by simp
next
  case (snoc m source)
  obtain hs sn where hs: "foldl group_step (groups, {}) source = (hs, sn)" by (cases "foldl group_step (groups, {}) source")
  note ih = snoc.IH [OF hs]
  have keys: "fst ` set hs = fst ` set groups \<union> m_TurnID ` set source"
    using arg_cong [OF conjunct1 [OF conjunct2 [OF ih]], of set] by auto
  have gs: "gs = obj_set (m_TurnID m) ((if m_TurnID m \<in> sn then case map_of hs (m_TurnID m) of None \<Rightarrow> [] | Some g \<Rightarrow> g else []) @ [m]) hs"
    "mk = insert (m_TurnID m) sn"
    using snoc.prems hs by (simp_all add: group_step_def Let_def)
  have "filter (\<lambda>x. m_TurnID x = m_TurnID m) source = []" if "m_TurnID m \<notin> m_TurnID ` set source"
    using that by (metis (mono_tags, lifting) filter_False image_eqI)
  moreover have "map_of groups (m_TurnID m) = None \<longleftrightarrow> m_TurnID m \<notin> fst ` set groups" by (rule map_of_eq_None_iff)
  ultimately show ?case using ih keys
    by (auto simp: gs map_fst_obj_set map_of_obj_set nub_snoc)
qed

lemma map_snd_lookup: "distinct (map fst ps) \<Longrightarrow> map snd ps = map (\<lambda>k. the (map_of ps k)) (map fst ps)"
  by (auto simp: comp_def intro!: map_cong)

text \<open>The reference: every turn once, in the order of first occurrence, live where the snapshot shows it.\<close>

definition turn_groups :: "message list \<Rightarrow> message list \<Rightarrow> message list list" where
  "turn_groups persisted live =
     map (\<lambda>t. filter (\<lambda>m. m_TurnID m = t) (if t \<in> m_TurnID ` set live then live else persisted))
       (nub (map m_TurnID (persisted @ live)))"

lemma group_sources: "map snd (group_source (group_source [] persisted) live) = turn_groups persisted live"
proof -
  obtain ps s1 where p: "foldl group_step ([], {}) persisted = (ps, s1)" by (cases "foldl group_step ([], {}) persisted")
  obtain ls s2 where l: "foldl group_step (ps, {}) live = (ls, s2)" by (cases "foldl group_step (ps, {}) live")
  note gp = group_state [OF p] and gl = group_state [OF l]
  have fp: "map fst ps = nub (map m_TurnID persisted)" using gp by simp
  then have "fst ` set ps = m_TurnID ` set persisted" by (metis list.set_map set_nub)
  with gl fp have keys: "map fst ls = nub (map m_TurnID (persisted @ live))" by (simp add: nub_append)
  have "map snd ls = map (\<lambda>k. the (map_of ls k)) (nub (map m_TurnID (persisted @ live)))"
    using map_snd_lookup [of ls] keys by simp
  also have "\<dots> = turn_groups persisted live"
    unfolding turn_groups_def using gp gl by (intro map_cong) auto
  finally show ?thesis by (simp add: group_source_def p l)
qed

text \<open>
  C13. The merged page holds every turn of either source exactly once, whole: the live copy of a turn
  replaces the persisted one, turns are ordered by the time of their first message, turns of the same
  time keep the order in which they first occurred, and messages keep their order within a turn.
\<close>

theorem mergeTurns_spec:
  assumes "\<forall>m \<in> set persisted \<union> set live. m_Timestamp m \<noteq> NaN"
  shows "mergeTurns persisted live = concat (sort_key (\<lambda>g. m_Timestamp (hd g)) (turn_groups persisted live))"
proof -
  have "m_Timestamp (hd g) \<noteq> NaN" if g: "g \<in> set (turn_groups persisted live)" for g
  proof -
    from g obtain t where t: "t \<in> m_TurnID ` set (persisted @ live)"
      "g = filter (\<lambda>m. m_TurnID m = t) (if t \<in> m_TurnID ` set live then live else persisted)"
      by (auto simp: turn_groups_def)
    then have "g \<noteq> []" by (auto simp: filter_empty_conv)
    then have "hd g \<in> set g" by simp
    with t(2) assms show ?thesis by (auto split: if_splits)
  qed
  then show ?thesis unfolding mergeTurns_def group_sources
    by (subst SortStableFunc_sort_key [where key = "\<lambda>g. m_Timestamp (hd g)"]) auto
qed

definition sent_at :: "string \<Rightarrow> string \<Rightarrow> rat \<Rightarrow> message" where
  "sent_at i turn time = plain_message i turn None ''assistant'' (Fin time) i None"

theorem mergeTurns_spec_witness:
  "map m_ID (mergeTurns [sent_at ''a'' ''t'' 2, sent_at ''b'' ''u'' 1] [sent_at ''c'' ''t'' 2, sent_at ''d'' ''t'' 3]) = [''b'', ''c'', ''d'']"
  using mergeTurns_spec [of "[sent_at ''a'' ''t'' 2, sent_at ''b'' ''u'' 1]" "[sent_at ''c'' ''t'' 2, sent_at ''d'' ''t'' 3]"]
  by (simp add: sent_at_def plain_message_def turn_groups_def nub.simps insort_key.simps less_eq_float64_def)

subsection \<open>The page of a snapshot\<close>

definition last_copies :: "message list \<Rightarrow> message list" where
  "last_copies ms = map (\<lambda>i. last (filter (\<lambda>m. m_ID m = i) ms)) (nub (map m_ID ms))"

lemma dedupe_last: "dedupe_messages ms = last_copies ms"
proof -
  let ?f = "\<lambda>acc m. obj_set (m_ID m) m acc"
  have inv: "map fst (foldl ?f [] ms) = nub (map m_ID ms) \<and>
    (\<forall>i. map_of (foldl ?f [] ms) i = (if i \<in> m_ID ` set ms then Some (last (filter (\<lambda>m. m_ID m = i) ms)) else None))"
  proof (induction ms rule: rev_induct)
    case (snoc m ms)
    then show ?case by (auto simp: map_fst_obj_set map_of_obj_set nub_snoc)
  qed simp
  then have "map snd (foldl ?f [] ms) = map (\<lambda>i. the (map_of (foldl ?f [] ms) i)) (nub (map m_ID ms))"
    using map_snd_lookup [of "foldl ?f [] ms"] by simp
  also have "\<dots> = last_copies ms" unfolding last_copies_def using inv by (intro map_cong) auto
  finally show ?thesis by (simp add: dedupe_messages_def)
qed

lemma last_copies_ids:
  "set (last_copies ms) \<subseteq> set ms" "map m_ID (last_copies ms) = nub (map m_ID ms)"
proof -
  have l: "last (filter (\<lambda>m. m_ID m = i) ms) \<in> set ms \<and> m_ID (last (filter (\<lambda>m. m_ID m = i) ms)) = i" if "i \<in> m_ID ` set ms" for i
  proof -
    have "filter (\<lambda>m. m_ID m = i) ms \<noteq> []" using that by (auto simp: filter_empty_conv)
    from last_in_set [OF this] show ?thesis by simp
  qed
  show "set (last_copies ms) \<subseteq> set ms" using l by (auto simp: last_copies_def)
  have "map (\<lambda>i. m_ID (last (filter (\<lambda>m. m_ID m = i) ms))) (nub (map m_ID ms)) = map (\<lambda>i. i) (nub (map m_ID ms))"
    using l by (intro map_cong) auto
  then show "map m_ID (last_copies ms) = nub (map m_ID ms)" by (simp add: last_copies_def comp_def)
qed

lemma slice_turns_last: "0 < n \<Longrightarrow> slice_turns (Fin (of_nat n)) ts = drop (length ts - n) ts"
  by (auto simp: slice_turns_def trunc_neg_def Let_def)

lemma native_turns_None: "native_turns vs = None \<longleftrightarrow> (\<exists>v \<in> set vs. native_turn_of v = None)"
  by (induction vs) (auto split: option.splits)

lemma native_turns_Some: "native_turns vs = Some ts \<Longrightarrow> map n_ID ts = map (\<lambda>v. n_ID (the (native_turn_of v))) vs"
  by (induction vs arbitrary: ts) (auto split: option.splits)

definition turn_id :: "gval \<Rightarrow> string" where
  "turn_id v = identityString (field (fields_of v) ''turnId'')"

definition items_array :: "gval \<Rightarrow> bool" where
  "items_array v \<longleftrightarrow> (\<exists>items. field (fields_of v) ''items'' = GArr items)"

lemma native_turn_of_iff: "native_turn_of v = None \<longleftrightarrow> \<not> items_array v"
  by (auto simp: native_turn_of_def items_array_def Let_def split: gval.splits)

lemma native_turn_of_id: "native_turn_of v = Some t \<Longrightarrow> n_ID t = turn_id v"
  by (auto simp: native_turn_of_def turn_id_def Let_def split: gval.splits)

lemma project_item_turn:
  assumes "project_item act t item = Some m"
  shows "m_TurnID m = n_ID t \<and> (\<not> act \<longrightarrow> m_Activity m = None)"
proof -
  have p: "m_TurnID (plain_message i (n_ID t) c r x s a) = n_ID t" "m_Activity (plain_message i (n_ID t) c r x s a) = a"
    for i c r x s a by (simp_all add: plain_message_def)
  show ?thesis using assms unfolding project_item_def Let_def
    by (simp split: if_splits option.splits; elim subst; simp add: p)
qed

lemma ProjectMessages_turn:
  assumes "m \<in> set (ProjectMessages turns act)"
  shows "m_TurnID m \<in> n_ID ` set turns" "\<not> act \<Longrightarrow> m_Activity m = None"
proof -
  from assms obtain t where t: "t \<in> set turns"
    "(\<exists>item \<in> set (n_Items t). project_item act t item = Some m) \<or> m \<in> set (turnError t)"
    unfolding ProjectMessages_def List.map_filter_def by fastforce
  have "m_TurnID m = n_ID t \<and> (\<not> act \<longrightarrow> m_Activity m = None)"
    using t(2) project_item_turn by (auto simp: turnError_def plain_message_def Let_def split: if_splits)
  with t(1) show "m_TurnID m \<in> n_ID ` set turns" "\<not> act \<Longrightarrow> m_Activity m = None" by auto
qed

text \<open>
  A snapshot is refused exactly when one of its last \<open>n\<close> turns has no item list. Otherwise every
  message belongs to one of those turns, message identities are unique, the last copy of a repeated
  identity is shown at the place of the first, and no activity is shown unless it was asked for.
\<close>

theorem ProjectDesktop_page:
  assumes "Fields v = Some state" "0 < n"
  shows "case ProjectDesktop v act (Fin (of_nat n)) of
      Inl e \<Rightarrow> e = UnsupportedItems \<and> (\<exists>t \<in> set (drop (length (desktopTurns state) - n) (desktopTurns state)). \<not> items_array t)
    | Inr page \<Rightarrow>
        (\<forall>t \<in> set (drop (length (desktopTurns state) - n) (desktopTurns state)). items_array t) \<and>
        distinct (map m_ID (g_Messages page)) \<and>
        (\<exists>ts. g_Messages page = last_copies (ProjectMessages ts act)) \<and>
        (\<forall>m \<in> set (g_Messages page).
           m_TurnID m \<in> turn_id ` set (drop (length (desktopTurns state) - n) (desktopTurns state)) \<and>
           (\<not> act \<longrightarrow> m_Activity m = None))"
proof -
  let ?ts = "drop (length (desktopTurns state) - n) (desktopTurns state)"
  have slice: "slice_turns (Fin (of_nat n)) (desktopTurns state) = ?ts" by (rule slice_turns_last [OF assms(2)])
  show ?thesis
  proof (cases "native_turns ?ts")
    case None
    then have "\<exists>t \<in> set ?ts. \<not> items_array t" by (simp add: native_turns_None native_turn_of_iff)
    with None show ?thesis by (simp add: ProjectDesktop_def assms(1) slice)
  next
    case (Some native)
    then have ok: "\<forall>t \<in> set ?ts. items_array t" by (metis native_turn_of_iff native_turns_None option.distinct(1))
    have ids: "n_ID ` set native = turn_id ` set ?ts"
    proof -
      have "n_ID (the (native_turn_of t)) = turn_id t" if "t \<in> set ?ts" for t
        using ok that native_turn_of_id native_turn_of_iff by fastforce
      then show ?thesis using arg_cong [OF native_turns_Some [OF Some], of set] by simp
    qed
    obtain page where page: "ProjectDesktop v act (Fin (of_nat n)) = Inr page"
      "g_Messages page = last_copies (ProjectMessages (rev native) act)"
      using Some by (simp add: ProjectDesktop_def assms(1) slice Let_def dedupe_last)
    have "m_TurnID m \<in> turn_id ` set ?ts \<and> (\<not> act \<longrightarrow> m_Activity m = None)" if "m \<in> set (g_Messages page)" for m
    proof -
      have "m \<in> set (ProjectMessages (rev native) act)" using that last_copies_ids(1) unfolding page(2) by blast
      from ProjectMessages_turn [OF this] ids show ?thesis by simp
    qed
    then show ?thesis using ok by (auto simp: page last_copies_ids(2))
  qed
qed

definition sample_turns :: "gval list" where
  "sample_turns = [GObj [(''turnId'', GStr ''old''), (''items'', GNil)], GObj [(''turnId'', GStr ''t''), (''items'', GArr [])]]"

lemma sample_desktopTurns: "desktopTurns [(''turns'', GArr sample_turns)] = sample_turns"
  by (simp add: desktopTurns_def field_def Fields_def asArray_def Let_def)

theorem ProjectDesktop_page_witness:
  "case ProjectDesktop (GObj [(''turns'', GArr sample_turns)]) False (Fin (of_nat 2)) of
     Inl e \<Rightarrow> e = UnsupportedItems | Inr page \<Rightarrow> False"
proof -
  have "\<not> (\<forall>t \<in> set sample_turns. items_array t)"
    by (simp add: sample_turns_def items_array_def fields_of_def Fields_def field_def)
  moreover have "Fields (GObj [(''turns'', GArr sample_turns)]) = Some [(''turns'', GArr sample_turns)]" by (simp add: Fields_def)
  moreover have "drop (length sample_turns - 2) sample_turns = sample_turns" by (simp add: sample_turns_def)
  ultimately show ?thesis
    using ProjectDesktop_page [of "GObj [(''turns'', GArr sample_turns)]" "[(''turns'', GArr sample_turns)]" 2 False]
    unfolding sample_desktopTurns by (simp split: sum.splits)
qed

end
