(* ===== verification/HostIdle.thy ===== *)
theory HostIdle
  imports JsText
begin

text \<open>
  The idle check of an auxiliary host (\<open>internal/codex/hostidle.go\<close>). The host is the sequence of its
  answers: \<open>resp k\<close> answers the \<open>k\<close>th request of the run, whatever the host did in between, and the
  requests are kept in \<open>h_log\<close>. The page loop has no bound of its own and is a partial function.
\<close>

subsection \<open>The loop\<close>

datatype 'e verify_error = RpcFailed 'e | CannotVerify | InvalidCatalog | TaskActive | CursorStuck

record host_run =
  h_seen :: "string list"
  h_cursors :: "string list"
  h_log :: "(string \<times> gval) list"

definition list_params :: "string option \<Rightarrow> gval" where
  "list_params cursor =
     GMap ((''limit'', GNum (Fin 100)) # (case cursor of None \<Rightarrow> [] | Some c \<Rightarrow> [(''cursor'', GStr c)]))"

definition read_params :: "string \<Rightarrow> gval" where
  "read_params i = GMap [(''threadId'', GStr i), (''includeTurns'', GBool False)]"

definition ask :: "string \<Rightarrow> gval \<Rightarrow> host_run \<Rightarrow> host_run" where
  "ask meth params h = h\<lparr>h_log := h_log h @ [(meth, params)]\<rparr>"

definition thread_status :: "gval \<Rightarrow> string" where
  "thread_status r = Text (field (fields_of (field (fields_of (field (fields_of r) ''thread'')) ''status'')) ''type'')"

fun verify_entries :: "(nat \<Rightarrow> 'e + gval) \<Rightarrow> gval list \<Rightarrow> host_run \<Rightarrow> 'e verify_error + host_run" where
  "verify_entries resp [] h = Inr h"
| "verify_entries resp (entry # rest) h =
     (case AsText entry of
        None \<Rightarrow> Inl InvalidCatalog
      | Some i \<Rightarrow>
          if i \<in> set (h_seen h) \<or> 10000 \<le> length (h_seen h) then Inl InvalidCatalog
          else case resp (length (h_log h)) of
            Inl e \<Rightarrow> Inl (RpcFailed e)
          | Inr r \<Rightarrow>
              if thread_status r \<noteq> ''idle'' then Inl TaskActive
              else verify_entries resp rest ((ask ''thread/read'' (read_params i) h)\<lparr>h_seen := i # h_seen h\<rparr>))"

definition next_cursor :: "props \<Rightarrow> host_run \<Rightarrow> 'e verify_error + (string option \<times> host_run)" where
  "next_cursor page h =
     (if field page ''nextCursor'' = GNil then Inr (None, h)
      else case AsText (field page ''nextCursor'') of
        None \<Rightarrow> Inl CursorStuck
      | Some c \<Rightarrow>
          if c \<in> set (h_cursors h) then Inl CursorStuck
          else if c \<noteq> [] then Inr (Some c, h\<lparr>h_cursors := c # h_cursors h\<rparr>)
          else Inr (None, h))"

definition verify_page :: "(nat \<Rightarrow> 'e + gval) \<Rightarrow> string option \<Rightarrow> host_run \<Rightarrow> 'e verify_error + (string option \<times> host_run)" where
  "verify_page resp cursor h =
     (case resp (length (h_log h)) of
        Inl e \<Rightarrow> Inl (RpcFailed e)
      | Inr page \<Rightarrow>
          (case field (fields_of page) ''data'' of
             GArr entries \<Rightarrow>
               bindr (verify_entries resp entries (ask ''thread/loaded/list'' (list_params cursor) h))
                 (next_cursor (fields_of page))
           | _ \<Rightarrow> Inl CannotVerify))"

partial_function (option) verify_pages :: "(nat \<Rightarrow> 'e + gval) \<Rightarrow> string option \<Rightarrow> host_run \<Rightarrow> ('e verify_error + host_run) option" where
  [code]: "verify_pages resp cursor h =
     (case verify_page resp cursor h of
        Inl e \<Rightarrow> Some (Inl e)
      | Inr (None, h') \<Rightarrow> Some (Inr h')
      | Inr (Some c, h') \<Rightarrow> verify_pages resp (Some c) h')"

definition empty_run :: host_run where
  "empty_run = \<lparr>h_seen = [], h_cursors = [], h_log = []\<rparr>"

definition VerifyHostIdle :: "(nat \<Rightarrow> 'e + gval) \<Rightarrow> ('e verify_error + nat) option" where
  "VerifyHostIdle resp =
     map_option (\<lambda>r. case r of Inl e \<Rightarrow> Inl e | Inr h \<Rightarrow> Inr (length (h_seen h))) (verify_pages resp None empty_run)"

subsection \<open>What a completed run has checked\<close>

definition answered_idle :: "(nat \<Rightarrow> 'e + gval) \<Rightarrow> (string \<times> gval) list \<Rightarrow> string \<Rightarrow> bool" where
  "answered_idle resp reqs i \<longleftrightarrow>
     (\<exists>k < length reqs. reqs ! k = (''thread/read'', read_params i) \<and> (\<exists>r. resp k = Inr r \<and> thread_status r = ''idle''))"

definition page_entries :: "'e + gval \<Rightarrow> gval list" where
  "page_entries r = (case r of Inl e \<Rightarrow> [] | Inr page \<Rightarrow> (case field (fields_of page) ''data'' of GArr es \<Rightarrow> es | _ \<Rightarrow> []))"

definition checked :: "(nat \<Rightarrow> 'e + gval) \<Rightarrow> host_run \<Rightarrow> bool" where
  "checked resp h \<longleftrightarrow> distinct (h_seen h) \<and> length (h_seen h) \<le> 10000 \<and>
     (\<forall>i \<in> set (h_seen h). answered_idle resp (h_log h) i) \<and>
     (\<forall>k < length (h_log h). fst (h_log h ! k) = ''thread/loaded/list'' \<longrightarrow>
        (\<forall>e \<in> set (page_entries (resp k)). \<exists>i \<in> set (h_seen h). AsText e = Some i))"

lemma answered_idle_mono: "answered_idle resp reqs i \<Longrightarrow> answered_idle resp (reqs @ tail) i"
  by (fastforce simp: answered_idle_def nth_append)

lemma verify_entries_checked:
  assumes "verify_entries resp entries h = Inr h'" "distinct (h_seen h)" "length (h_seen h) \<le> 10000"
    "\<forall>i \<in> set (h_seen h). answered_idle resp (h_log h) i"
  shows "distinct (h_seen h') \<and> length (h_seen h') \<le> 10000 \<and> (\<forall>i \<in> set (h_seen h'). answered_idle resp (h_log h') i) \<and>
    set (h_seen h) \<subseteq> set (h_seen h') \<and> (\<forall>e \<in> set entries. \<exists>i \<in> set (h_seen h'). AsText e = Some i) \<and>
    (\<exists>tail. h_log h' = h_log h @ tail \<and> (\<forall>q \<in> set tail. fst q = ''thread/read'')) \<and> h_cursors h' = h_cursors h"
  using assms
proof (induction entries arbitrary: h)
  case (Cons e es)
  from Cons.prems(1) obtain i r where i: "AsText e = Some i" "i \<notin> set (h_seen h)" "length (h_seen h) < 10000"
    "resp (length (h_log h)) = Inr r" "thread_status r = ''idle''"
    and rec: "verify_entries resp es ((ask ''thread/read'' (read_params i) h)\<lparr>h_seen := i # h_seen h\<rparr>) = Inr h'"
    by (auto split: option.splits if_splits sum.splits)
  let ?g = "(ask ''thread/read'' (read_params i) h)\<lparr>h_seen := i # h_seen h\<rparr>"
  have reqs: "h_log ?g = h_log h @ [(''thread/read'', read_params i)]" "h_cursors ?g = h_cursors h" by (simp_all add: ask_def)
  have "answered_idle resp (h_log ?g) i" using i(4,5) by (auto simp: answered_idle_def reqs intro!: exI [of _ "length (h_log h)"])
  with Cons.prems(4) have "\<forall>j \<in> set (h_seen ?g). answered_idle resp (h_log ?g) j"
    by (auto simp: reqs answered_idle_mono)
  with Cons.IH [OF rec] Cons.prems(2) i(2,3) have ih: "distinct (h_seen h') \<and> length (h_seen h') \<le> 10000 \<and>
    (\<forall>i \<in> set (h_seen h'). answered_idle resp (h_log h') i) \<and> set (h_seen ?g) \<subseteq> set (h_seen h') \<and>
    (\<forall>e \<in> set es. \<exists>i \<in> set (h_seen h'). AsText e = Some i) \<and>
    (\<exists>tail. h_log h' = h_log ?g @ tail \<and> (\<forall>q \<in> set tail. fst q = ''thread/read'')) \<and> h_cursors h' = h_cursors ?g" by simp
  then obtain tail where "h_log h' = h_log h @ (''thread/read'', read_params i) # tail" "\<forall>q \<in> set tail. fst q = ''thread/read''"
    by (auto simp: reqs)
  then have "\<exists>tail. h_log h' = h_log h @ tail \<and> (\<forall>q \<in> set tail. fst q = ''thread/read'')"
    by (intro exI [of _ "(''thread/read'', read_params i) # tail"]) simp
  with ih i(1) reqs(2) show ?case by auto
qed auto

definition listed_to_end :: "(nat \<Rightarrow> 'e + gval) \<Rightarrow> host_run \<Rightarrow> bool" where
  "listed_to_end resp h \<longleftrightarrow>
     (\<exists>k page. k < length (h_log h) \<and> fst (h_log h ! k) = ''thread/loaded/list'' \<and> resp k = Inr page \<and>
       (field (fields_of page) ''nextCursor'' = GNil \<or> AsText (field (fields_of page) ''nextCursor'') = Some []))"

lemma verify_page_checked:
  assumes "verify_page resp cursor h = Inr (c, h')" "checked resp h"
  shows "checked resp h'" and "c = None \<Longrightarrow> listed_to_end resp h'"
    and "c = Some d \<Longrightarrow> h_cursors h' = d # h_cursors h \<and> d \<notin> set (h_cursors h) \<and>
      (\<exists>k page. resp k = Inr page \<and> AsText (field (fields_of page) ''nextCursor'') = Some d)"
proof -
  let ?n = "length (h_log h)" and ?g = "ask ''thread/loaded/list'' (list_params cursor) h"
  from assms(1) obtain page entries g where p: "resp ?n = Inr page" "field (fields_of page) ''data'' = GArr entries"
    "verify_entries resp entries ?g = Inr g" "next_cursor (fields_of page) g = (Inr (c, h') :: 'a verify_error + _)"
    by (auto simp: verify_page_def split: sum.splits gval.splits)
  have g0: "h_seen ?g = h_seen h" "h_log ?g = h_log h @ [(''thread/loaded/list'', list_params cursor)]" "h_cursors ?g = h_cursors h"
    by (simp_all add: ask_def)
  have pre: "distinct (h_seen ?g)" "length (h_seen ?g) \<le> 10000" "\<forall>i \<in> set (h_seen ?g). answered_idle resp (h_log ?g) i"
    using assms(2) by (auto simp: g0 checked_def answered_idle_mono)
  note v = verify_entries_checked [OF p(3) pre]
  then obtain tail where tail: "h_log g = h_log h @ (''thread/loaded/list'', list_params cursor) # tail"
    "\<forall>q \<in> set tail. fst q = ''thread/read''" by (auto simp: g0)
  have same: "h_seen h' = h_seen g" "h_log h' = h_log g"
    and cur: "(c = None \<longrightarrow> field (fields_of page) ''nextCursor'' = GNil \<or> AsText (field (fields_of page) ''nextCursor'') = Some []) \<and>
      (\<forall>d. c = Some d \<longrightarrow> h_cursors h' = d # h_cursors g \<and> d \<notin> set (h_cursors g) \<and> AsText (field (fields_of page) ''nextCursor'') = Some d)"
    using p(4) by (auto simp: next_cursor_def split: if_split_asm option.split_asm dest: sym)
  have "\<exists>i \<in> set (h_seen g). AsText e = Some i"
    if k: "k < length (h_log g)" "fst (h_log g ! k) = ''thread/loaded/list''" "e \<in> set (page_entries (resp k))" for k e
  proof -
    consider "k < ?n" | "k = ?n" | "?n < k" by linarith
    then show ?thesis
    proof cases
      case 1
      then have "fst (h_log h ! k) = ''thread/loaded/list''" using k(2) tail(1) by (simp add: nth_append)
      with 1 k(3) assms(2) obtain i where "i \<in> set (h_seen h)" "AsText e = Some i" unfolding checked_def by blast
      then show ?thesis using v by (auto simp: g0)
    next
      case 2
      then show ?thesis using k(3) v p(1,2) by (simp add: page_entries_def)
    next
      case 3
      then have "h_log g ! k \<in> set tail" using k(1) tail(1) by (auto simp: nth_append nth_Cons')
      with tail(2) k(2) show ?thesis by fastforce
    qed
  qed
  then show "checked resp h'" using v by (auto simp: checked_def same)
  show "listed_to_end resp h'" if "c = None"
    unfolding listed_to_end_def using cur that tail(1) p(1) by (intro exI [of _ ?n] exI [of _ page]) (simp add: same)
  show "h_cursors h' = d # h_cursors h \<and> d \<notin> set (h_cursors h) \<and>
      (\<exists>k page. resp k = Inr page \<and> AsText (field (fields_of page) ''nextCursor'') = Some d)" if "c = Some d"
    using cur that v p(1) by (auto simp: g0)
qed

lemma verify_pages_checked:
  assumes "verify_pages resp cursor h = Some r"
  shows "\<forall>f. r = Inr f \<longrightarrow> checked resp h \<longrightarrow> checked resp f \<and> listed_to_end resp f"
proof (rule verify_pages.raw_induct [where P = "\<lambda>resp cursor h r. \<forall>f. r = Inr f \<longrightarrow> checked resp h \<longrightarrow> checked resp f \<and> listed_to_end resp f", OF _ assms],
    intro allI impI)
  fix vp :: "(nat \<Rightarrow> 'a + gval) \<Rightarrow> string option \<Rightarrow> host_run \<Rightarrow> ('a verify_error + host_run) option" and resp cursor h r f
  assume ih: "\<And>resp cursor h r. vp resp cursor h = Some r \<Longrightarrow> \<forall>f. r = Inr f \<longrightarrow> checked resp h \<longrightarrow> checked resp f \<and> listed_to_end resp f"
    and run: "(case verify_page resp cursor h of Inl e \<Rightarrow> Some (Inl e) | Inr (None, h') \<Rightarrow> Some (Inr h')
      | Inr (Some c, h') \<Rightarrow> vp resp (Some c) h') = Some r" and r: "r = Inr f" and h: "checked resp h"
  from run r obtain c g where p: "verify_page resp cursor h = Inr (c, g)" by (auto split: sum.splits)
  note page = verify_page_checked [OF p h]
  show "checked resp f \<and> listed_to_end resp f"
    using run r p page(1,2) ih by (cases c) auto
qed

lemma checked_empty: "checked resp empty_run"
  by (simp add: checked_def empty_run_def)

text \<open>
  When the check succeeds with \<open>n\<close> tasks, the host listed its tasks to the end of the pagination, the
  \<open>n\<close> tasks are distinct and at most 10000, each was read and answered idle, and no listed page named
  any other task.
\<close>

theorem VerifyHostIdle_sound:
  assumes "VerifyHostIdle resp = Some (Inr n)"
  shows "\<exists>h. length (h_seen h) = n \<and> n \<le> 10000 \<and> distinct (h_seen h) \<and> listed_to_end resp h \<and>
    (\<forall>i \<in> set (h_seen h). answered_idle resp (h_log h) i) \<and>
    (\<forall>k < length (h_log h). fst (h_log h ! k) = ''thread/loaded/list'' \<longrightarrow>
       (\<forall>e \<in> set (page_entries (resp k)). \<exists>i \<in> set (h_seen h). AsText e = Some i))"
proof -
  from assms obtain h where h: "verify_pages resp None empty_run = Some (Inr h)" "length (h_seen h) = n"
    unfolding VerifyHostIdle_def map_option_eq_Some by (metis Inl_Inr_False Inr_inject old.sum.simps(5,6) sumE)
  from verify_pages_checked [OF h(1)] checked_empty have "checked resp h \<and> listed_to_end resp h" by auto
  with h(2) show ?thesis by (intro exI [of _ h]) (auto simp: checked_def)
qed

definition idle_host :: "nat \<Rightarrow> string + gval" where
  "idle_host k = Inr (if k = 0 then GObj [(''data'', GArr [GStr ''t''])]
     else GObj [(''thread'', GObj [(''status'', GObj [(''type'', GStr ''idle'')])])])"

theorem VerifyHostIdle_sound_witness:
  "VerifyHostIdle idle_host = Some (Inr 1) \<and> (\<exists>h :: host_run. length (h_seen h) = 1 \<and> (\<forall>i \<in> set (h_seen h). answered_idle idle_host (h_log h) i))"
proof -
  have "VerifyHostIdle idle_host = Some (Inr 1)"
    by (simp add: VerifyHostIdle_def verify_pages.simps verify_page_def next_cursor_def ask_def idle_host_def empty_run_def
      thread_status_def field_def fields_of_def Fields_def AsText_def Text_def)
  moreover from VerifyHostIdle_sound [OF this] have "\<exists>h :: host_run. length (h_seen h) = 1 \<and> (\<forall>i \<in> set (h_seen h). answered_idle idle_host (h_log h) i)"
    by blast
  ultimately show ?thesis by (rule conjI)
qed

subsection \<open>Termination\<close>

text \<open>
  A host with finitely many cursors cannot keep the check going: it returns a count or an error.
\<close>

theorem VerifyHostIdle_returns:
  assumes "finite cursors" "\<forall>k page c. resp k = Inr page \<longrightarrow> AsText (field (fields_of page) ''nextCursor'') = Some c \<longrightarrow> c \<in> cursors"
  shows "\<exists>r. VerifyHostIdle resp = Some r"
proof -
  have "\<exists>r. verify_pages resp cursor h = Some r" if "checked resp h" "set (h_cursors h) \<subseteq> cursors" for cursor h
    using that
  proof (induction "card (cursors - set (h_cursors h))" arbitrary: cursor h rule: less_induct)
    case less
    show ?case
    proof (cases "verify_page resp cursor h")
      case (Inl e)
      then show ?thesis by (subst verify_pages.simps) simp
    next
      case (Inr p)
      obtain c g where p: "p = (c, g)" by (cases p)
      note page = verify_page_checked [OF Inr [unfolded p] less.prems(1)]
      show ?thesis
      proof (cases c)
        case None
        then show ?thesis using Inr p by (subst verify_pages.simps) simp
      next
        case (Some d)
        with page(3) [of d] assms(2) have d: "h_cursors g = d # h_cursors h" "d \<notin> set (h_cursors h)" "d \<in> cursors" by auto
        then have "cursors - set (h_cursors g) \<subset> cursors - set (h_cursors h)" by auto
        then have "card (cursors - set (h_cursors g)) < card (cursors - set (h_cursors h))"
          using assms(1) by (meson finite_Diff psubset_card_mono)
        from less.hyps [OF this page(1)] d less.prems(2) obtain r where "verify_pages resp (Some d) g = Some r" by auto
        then show ?thesis using Inr p Some by (subst verify_pages.simps) simp
      qed
    qed
  qed
  from this [of empty_run None] checked_empty show ?thesis by (auto simp: VerifyHostIdle_def empty_run_def)
qed

theorem VerifyHostIdle_returns_witness: "\<exists>r. VerifyHostIdle idle_host = Some r"
  by (rule VerifyHostIdle_returns [of "{}"])
    (simp_all add: idle_host_def field_def fields_of_def Fields_def AsText_def)

text \<open>
  Nothing else ends the run: a host that answers empty pages with ever new cursors is listed forever,
  since only task identities are counted.
\<close>

definition endless_host :: "nat \<Rightarrow> string + gval" where
  "endless_host k = Inr (GObj [(''data'', GArr []), (''nextCursor'', GStr (FormatUint k))])"

theorem VerifyHostIdle_endless: "VerifyHostIdle endless_host = None"
proof -
  have page: "verify_page endless_host cursor h = Inr (Some (FormatUint n), g) \<and> length (h_log g) = Suc n \<and>
      set (h_cursors g) = insert (FormatUint n) (set (h_cursors h))"
    if "length (h_log h) = n" "set (h_cursors h) = FormatUint ` {..<n}"
      "g = (ask ''thread/loaded/list'' (list_params cursor) h)\<lparr>h_cursors := FormatUint n # h_cursors h\<rparr>" for cursor h n g
    using that by (auto simp: verify_page_def endless_host_def next_cursor_def ask_def field_def fields_of_def Fields_def AsText_def)
  have "False" if "verify_pages endless_host None empty_run = Some r" for r
  proof -
    have "resp = endless_host \<longrightarrow> set (h_cursors h) = FormatUint ` {..<length (h_log h)} \<longrightarrow> False"
      if "verify_pages resp cursor h = Some r" for resp :: "nat \<Rightarrow> string + gval" and cursor h
    proof (rule verify_pages.raw_induct [where P = "\<lambda>resp cursor h r. resp = endless_host \<longrightarrow>
        set (h_cursors h) = FormatUint ` {..<length (h_log h)} \<longrightarrow> False", OF _ that], intro impI)
      fix vp :: "(nat \<Rightarrow> string + gval) \<Rightarrow> string option \<Rightarrow> host_run \<Rightarrow> (string verify_error + host_run) option" and resp cursor h r
      assume ih: "\<And>resp cursor h r. vp resp cursor h = Some r \<Longrightarrow> resp = endless_host \<longrightarrow>
          set (h_cursors h) = FormatUint ` {..<length (h_log h)} \<longrightarrow> False"
        and run: "(case verify_page resp cursor h of Inl e \<Rightarrow> Some (Inl e) | Inr (None, h') \<Rightarrow> Some (Inr h')
          | Inr (Some c, h') \<Rightarrow> vp resp (Some c) h') = Some r" and r: "resp = endless_host"
        and h: "set (h_cursors h) = FormatUint ` {..<length (h_log h)}"
      from page [OF refl h refl, of cursor] obtain g where "verify_page endless_host cursor h = Inr (Some (FormatUint (length (h_log h))), g)"
        "length (h_log g) = Suc (length (h_log h))" "set (h_cursors g) = insert (FormatUint (length (h_log h))) (set (h_cursors h))" by blast
      with ih [of endless_host _ g] run r h show False by (auto simp: lessThan_Suc)
    qed
    from this [OF that] show False by (simp add: empty_run_def)
  qed
  then show ?thesis by (cases "verify_pages endless_host None empty_run") (auto simp: VerifyHostIdle_def)
qed

end
