(* ===== verification/Settings.thy ===== *)
theory Settings
  imports Followers NativeMessages
begin

text \<open>
  Settings of the next turn: the parser and the catalog check (\<open>internal/codex/settings.go\<close>) and the wait
  for native confirmation (\<open>waitSettings\<close>, \<open>desktopSettingsMatch\<close>, \<open>internal/sessions/settings.go\<close>).
\<close>

subsection \<open>Parsing\<close>

datatype settings_error = SettingsShape | ModelUnavailable | EffortUnavailable | TierUnavailable

definition bounded_setting :: "string \<Rightarrow> bool" where
  "bounded_setting t \<longleftrightarrow> t \<noteq> [] \<and> utf16Len t \<le> 128"

definition setting_entry :: "string \<times> gval \<Rightarrow> bool" where
  "setting_entry = (\<lambda>(key, raw).
     (key = ''model'' \<or> key = ''effort'' \<or> key = ''serviceTier'') \<and>
     (key = ''serviceTier'' \<and> raw = GNil \<or> (case raw of GStr t \<Rightarrow> bounded_setting t | _ \<Rightarrow> False)))"

definition string_value :: "gval option \<Rightarrow> string option" where
  "string_value raw = (case raw of Some (GStr t) \<Rightarrow> Some t | _ \<Rightarrow> None)"

text \<open>The argument is a decoded map: its keys are distinct and their order is not observed.\<close>

definition ParseSettings :: "props \<Rightarrow> settings_error + settings_patch" where
  "ParseSettings ps =
     (if ps = [] \<or> (\<exists>e \<in> set ps. \<not> setting_entry e) then Inl SettingsShape
      else Inr \<lparr>p_Model = string_value (map_of ps ''model''), p_Effort = string_value (map_of ps ''effort''),
                p_ServiceTier = (case map_of ps ''serviceTier'' of None \<Rightarrow> None | Some raw \<Rightarrow> Some (string_value (Some raw)))\<rparr>)"

subsection \<open>The model catalog\<close>

record service_tier =
  st_ID :: string
  st_Name :: string
  st_Description :: string

record model =
  md_ID :: string
  md_Name :: string
  md_IsDefault :: bool
  md_ReasoningEfforts :: "string list"
  md_ServiceTiers :: "service_tier list"

definition settings_shape :: "settings_patch \<Rightarrow> bool" where
  "settings_shape s \<longleftrightarrow> \<not> (p_Model s = None \<and> p_Effort s = None \<and> p_ServiceTier s = None) \<and>
     (\<forall>t \<in> set_option (p_Model s). bounded_setting t) \<and> (\<forall>t \<in> set_option (p_Effort s). bounded_setting t) \<and>
     (\<forall>v \<in> set_option (p_ServiceTier s). \<forall>t \<in> set_option v. bounded_setting t)"

definition ValidateSettings :: "settings_patch \<Rightarrow> model list \<Rightarrow> string option \<Rightarrow> settings_error option" where
  "ValidateSettings s models currentModel =
     (if \<not> settings_shape s then Some SettingsShape
      else
        case (case p_Model s of Some own \<Rightarrow> Some own | None \<Rightarrow> currentModel) of
          None \<Rightarrow> Some ModelUnavailable
        | Some name \<Rightarrow>
            (case find (\<lambda>md. md_ID md = name) models of
               None \<Rightarrow> Some ModelUnavailable
             | Some md \<Rightarrow>
                 if (case p_Effort s of Some e \<Rightarrow> e \<notin> set (md_ReasoningEfforts md) | None \<Rightarrow> False) then Some EffortUnavailable
                 else if (case p_ServiceTier s of Some (Some t) \<Rightarrow> t \<notin> st_ID ` set (md_ServiceTiers md) | _ \<Rightarrow> False)
                 then Some TierUnavailable
                 else None))"

subsection \<open>Confirmation\<close>

definition desktopSettingsMatch :: "runtime \<Rightarrow> settings_patch \<Rightarrow> bool" where
  "desktopSettingsMatch r patch \<longleftrightarrow>
     (case p_Model patch of None \<Rightarrow> True | Some v \<Rightarrow> r_Model r = Some v) \<and>
     (case p_Effort patch of None \<Rightarrow> True | Some v \<Rightarrow> r_Effort r = Some (Some v)) \<and>
     (case p_ServiceTier patch of None \<Rightarrow> True | Some v \<Rightarrow> r_ServiceTier r = Some v)"

datatype wait_result = WPending | WConfirmed | WUnconfirmed | WProject project_error | WOwner ferr

text \<open>
  One turn of the loop of \<open>waitSettings\<close>: what the lock shows, and the owner discovery that a match asks for.
\<close>

definition settings_check :: "addr \<Rightarrow> int \<Rightarrow> settings_patch \<Rightarrow> followers \<Rightarrow> ferr + string \<Rightarrow> wait_result" where
  "settings_check a rv patch f discovered =
     (let entry = heap f ! a
      in if stopped f \<or> \<not> live f a \<or> ferror entry \<noteq> None then WUnconfirmed
         else if rv < revision entry \<and> confirms (settingsEvidence entry) rv patch then
           (case ProjectDesktop (GMap (case fstate entry of None \<Rightarrow> [] | Some s \<Rightarrow> s)) False (Fin 128) of
              Inl e \<Rightarrow> WProject e
            | Inr page \<Rightarrow>
                if desktopSettingsMatch (g_Runtime page) patch then
                  (case discovered of
                     Inl e \<Rightarrow> WOwner e
                   | Inr owned \<Rightarrow> if owned = owner entry then WConfirmed else WUnconfirmed)
                else WPending)
         else WPending)"

text \<open>The loop over the states seen at each wake-up; the end of the list is the timer.\<close>

fun waitSettings :: "addr \<Rightarrow> int \<Rightarrow> settings_patch \<Rightarrow> (followers \<times> (ferr + string)) list \<Rightarrow> wait_result" where
  "waitSettings a rv patch [] = WUnconfirmed"
| "waitSettings a rv patch ((f, discovered) # obs) =
     (let r = settings_check a rv patch f discovered in if r = WPending then waitSettings a rv patch obs else r)"

subsection \<open>The accepted patches\<close>

definition settings_fields :: "settings_patch \<Rightarrow> props" where
  "settings_fields s =
     (case p_Model s of None \<Rightarrow> [] | Some t \<Rightarrow> [(''model'', GStr t)]) @
     (case p_Effort s of None \<Rightarrow> [] | Some t \<Rightarrow> [(''effort'', GStr t)]) @
     (case p_ServiceTier s of None \<Rightarrow> [] | Some None \<Rightarrow> [(''serviceTier'', GNil)] | Some (Some t) \<Rightarrow> [(''serviceTier'', GStr t)])"

lemma settings_fields_lookup:
  "map_of (settings_fields s) k =
     (if k = ''model'' then map_option GStr (p_Model s)
      else if k = ''effort'' then map_option GStr (p_Effort s)
      else if k = ''serviceTier'' then map_option (\<lambda>v. case v of None \<Rightarrow> GNil | Some t \<Rightarrow> GStr t) (p_ServiceTier s)
      else None)"
  by (simp add: settings_fields_def split: option.split)

lemma entry_iff:
  assumes "distinct (map fst ps)"
  shows "(\<forall>e \<in> set ps. setting_entry e) \<longleftrightarrow> (\<forall>k v. map_of ps k = Some v \<longrightarrow> setting_entry (k, v))"
  using assms by (metis map_of_eq_Some_iff surj_pair)

lemma entry_keys:
  "setting_entry (''model'', v) \<longleftrightarrow> (\<exists>t. v = GStr t \<and> bounded_setting t)"
  "setting_entry (''effort'', v) \<longleftrightarrow> (\<exists>t. v = GStr t \<and> bounded_setting t)"
  "setting_entry (''serviceTier'', v) \<longleftrightarrow> v = GNil \<or> (\<exists>t. v = GStr t \<and> bounded_setting t)"
  "k \<noteq> ''model'' \<Longrightarrow> k \<noteq> ''effort'' \<Longrightarrow> k \<noteq> ''serviceTier'' \<Longrightarrow> \<not> setting_entry (k, v)"
  unfolding setting_entry_def by (auto split: gval.split)

lemma string_value_simps [simp]:
  "string_value None = None" "string_value (Some (GStr t)) = Some t" "string_value (Some GNil) = None"
  "string_value (map_option GStr x) = x"
  by (simp_all add: string_value_def split: option.split)

lemma ParseSettings_fields:
  assumes "settings_shape s" "map_of ps = map_of (settings_fields s)" "distinct (map fst ps)"
  shows "ParseSettings ps = Inr s"
proof -
  have look: "map_of ps k = (if k = ''model'' then map_option GStr (p_Model s) else if k = ''effort'' then map_option GStr (p_Effort s)
      else if k = ''serviceTier'' then map_option (\<lambda>v. case v of None \<Rightarrow> GNil | Some t \<Rightarrow> GStr t) (p_ServiceTier s) else None)" for k
    unfolding assms(2) by (rule settings_fields_lookup)
  have m: "map_of ps ''model'' = map_option GStr (p_Model s)" and e: "map_of ps ''effort'' = map_option GStr (p_Effort s)"
    and t: "map_of ps ''serviceTier'' = map_option (\<lambda>v. case v of None \<Rightarrow> GNil | Some t \<Rightarrow> GStr t) (p_ServiceTier s)"
    using look by simp_all
  have "setting_entry (k, v)" if "map_of ps k = Some v" for k v
    using that assms(1) unfolding look settings_shape_def
    by (auto simp: entry_keys split: if_splits option.splits)
  then have "\<forall>e \<in> set ps. setting_entry e" using entry_iff [OF assms(3)] by blast
  moreover have "ps \<noteq> []" using assms(1) m e t by (auto simp: settings_shape_def)
  ultimately show ?thesis using m e t by (cases s) (auto simp: ParseSettings_def split: option.split)
qed

lemma ParseSettings_shape:
  assumes "ParseSettings ps = Inr s" "distinct (map fst ps)"
  shows "settings_shape s" "map_of ps = map_of (settings_fields s)"
proof -
  from assms(1) have ps: "ps \<noteq> []" "\<forall>e \<in> set ps. setting_entry e" by (auto simp: ParseSettings_def split: if_splits)
  then have s: "p_Model s = string_value (map_of ps ''model'')" "p_Effort s = string_value (map_of ps ''effort'')"
    "p_ServiceTier s = (case map_of ps ''serviceTier'' of None \<Rightarrow> None | Some raw \<Rightarrow> Some (string_value (Some raw)))"
    using assms(1) by (auto simp: ParseSettings_def split: if_splits)
  have ok: "setting_entry (k, v)" if "map_of ps k = Some v" for k v using ps(2) entry_iff [OF assms(2)] that by blast
  have model: "map_of ps ''model'' = map_option GStr (p_Model s) \<and> (\<forall>t \<in> set_option (p_Model s). bounded_setting t)"
    using ok [of "''model''"] unfolding s entry_keys by (cases "map_of ps ''model''") auto
  have effort: "map_of ps ''effort'' = map_option GStr (p_Effort s) \<and> (\<forall>t \<in> set_option (p_Effort s). bounded_setting t)"
    using ok [of "''effort''"] unfolding s entry_keys by (cases "map_of ps ''effort''") auto
  have tier: "map_of ps ''serviceTier'' = map_option (\<lambda>v. case v of None \<Rightarrow> GNil | Some t \<Rightarrow> GStr t) (p_ServiceTier s) \<and>
      (\<forall>v \<in> set_option (p_ServiceTier s). \<forall>t \<in> set_option v. bounded_setting t)"
    using ok [of "''serviceTier''"] unfolding s entry_keys by (cases "map_of ps ''serviceTier''") auto
  have other: "map_of ps k = None" if "k \<noteq> ''model''" "k \<noteq> ''effort''" "k \<noteq> ''serviceTier''" for k
    using ok [of k] entry_keys(4) [OF that] by (cases "map_of ps k") auto
  show same: "map_of ps = map_of (settings_fields s)"
    using model effort tier other by (simp add: fun_eq_iff settings_fields_lookup)
  have "settings_fields s \<noteq> []" using ps(1) same by (metis map_of_eq_empty_iff)
  then have "p_Model s \<noteq> None \<or> p_Effort s \<noteq> None \<or> p_ServiceTier s \<noteq> None"
    by (auto simp: settings_fields_def)
  then show "settings_shape s" unfolding settings_shape_def using model effort tier by simp
qed

text \<open>
  The parser accepts exactly the maps that spell a patch of the three settings, at least one of
  them present, each between one and 128 UTF-16 units with only the service tier allowed to be null,
  and it returns that patch; the catalog check never rejects the shape of what was parsed.
\<close>

theorem ParseSettings_iff:
  assumes "distinct (map fst ps)"
  shows "(ParseSettings ps = Inr s \<longleftrightarrow> settings_shape s \<and> map_of ps = map_of (settings_fields s)) \<and>
    (ParseSettings ps = Inr s \<longrightarrow> ValidateSettings s models current \<noteq> Some SettingsShape)"
proof (intro conjI impI iffI)
  have never: "settings_shape s \<Longrightarrow> ValidateSettings s models current \<noteq> Some SettingsShape"
    by (simp add: ValidateSettings_def split: option.split)
  assume "ParseSettings ps = Inr s"
  note shape = ParseSettings_shape [OF this assms]
  show "settings_shape s" "map_of ps = map_of (settings_fields s)" by (rule shape)+
  show "ValidateSettings s models current \<noteq> Some SettingsShape" by (rule never [OF shape(1)])
next
  assume "settings_shape s \<and> map_of ps = map_of (settings_fields s)"
  then show "ParseSettings ps = Inr s" using ParseSettings_fields [OF _ _ assms] by simp
qed

theorem ParseSettings_iff_witness:
  "ParseSettings [(''serviceTier'', GNil)] = Inr \<lparr>p_Model = None, p_Effort = None, p_ServiceTier = Some None\<rparr>"
  using ParseSettings_iff [of "[(''serviceTier'', GNil)]" "\<lparr>p_Model = None, p_Effort = None, p_ServiceTier = Some None\<rparr>" "[]" None]
  by (simp add: settings_shape_def settings_fields_def)

end
