(* ===== verification/LiveState.thy ===== *)
theory LiveState
  imports JsText "HOL-Library.Word"
begin

text \<open>
  The projection of one loaded native thread (\<open>internal/codex/nativelivestate.go\<close>). \<open>State\<close> holds its lock
  only before and after two requests, so the notifications received in between are a list applied
  to the state; a nil turn is the empty field list.
\<close>

subsection \<open>Operations\<close>

record live_state =
  l_ID :: string
  l_turn :: props
  l_hasUser :: bool
  l_version :: "64 word"

definition nativeTurnHasUser :: "props \<Rightarrow> bool" where
  "nativeTurnHasUser turn =
     (case field turn ''items'' of
        GArr items \<Rightarrow> (\<exists>v \<in> set items. Text (field (fields_of v) ''type'') = ''userMessage'')
      | _ \<Rightarrow> False)"

definition turn_key :: "props \<Rightarrow> string" where
  "turn_key turn = Text (field turn ''id'')"

definition replace_turn :: "props \<Rightarrow> live_state \<Rightarrow> live_state" where
  "replace_turn turn s =
     s\<lparr>l_hasUser := (nativeTurnHasUser turn \<or> turn_key turn = turn_key (l_turn s) \<and> l_hasUser s), l_turn := turn\<rparr>"

definition bump :: "live_state \<Rightarrow> live_state" where
  "bump s = s\<lparr>l_version := l_version s + 1\<rparr>"

text \<open>The turn a notification announces for this thread, and whether it is a user item of the current turn.\<close>

definition announces :: "string \<Rightarrow> string \<times> gval \<Rightarrow> props option" where
  "announces i = (\<lambda>(meth, params).
     let fs = fields_of params
     in if Text (field fs ''threadId'') = i \<and> (meth = ''turn/started'' \<or> meth = ''turn/completed'') then
          (case Fields (field fs ''turn'') of
             None \<Rightarrow> None
           | Some turn \<Rightarrow> if turn_key turn \<noteq> [] then Some turn else None)
        else None)"

definition user_item :: "live_state \<Rightarrow> string \<times> gval \<Rightarrow> bool" where
  "user_item s = (\<lambda>(meth, params).
     let fs = fields_of params
     in Text (field fs ''threadId'') = l_ID s \<and> (meth = ''item/started'' \<or> meth = ''item/completed'') \<and>
        Text (field (fields_of (field fs ''item'')) ''type'') = ''userMessage'' \<and>
        Text (field fs ''turnId'') = turn_key (l_turn s))"

definition live_Receive :: "string \<times> gval \<Rightarrow> live_state \<Rightarrow> live_state" where
  "live_Receive note s =
     (case announces (l_ID s) note of
        Some turn \<Rightarrow> bump (replace_turn turn s)
      | None \<Rightarrow> if user_item s note then bump (s\<lparr>l_hasUser := True\<rparr>) else s)"

datatype 'e live_error = IdentityMismatch | RequestFailed 'e | NotLoaded | InvalidTurnPage | InvalidTurnIdentity

text \<open>The checks of the two answers; the result is the thread and its latest turn.\<close>

definition loaded_thread :: "string \<Rightarrow> gval \<Rightarrow> 'e live_error + props" where
  "loaded_thread i answer =
     (let thread = fields_of (field (fields_of answer) ''thread'');
          kind = Text (field (fields_of (field thread ''status'')) ''type'')
      in if Text (field thread ''id'') \<noteq> i \<or> kind = [] \<or> kind = ''notLoaded'' then Inl NotLoaded else Inr thread)"

definition latest_of_page :: "gval \<Rightarrow> 'e live_error + props" where
  "latest_of_page answer =
     (case field (fields_of answer) ''data'' of
        GArr [] \<Rightarrow> Inr []
      | GArr [v] \<Rightarrow>
          (let latest = fields_of v
           in if turn_key latest = [] \<or> Text (field latest ''status'') = [] then Inl InvalidTurnIdentity else Inr latest)
      | _ \<Rightarrow> Inl InvalidTurnPage)"

definition state_result :: "props \<Rightarrow> live_state \<Rightarrow> gval" where
  "state_result thread s =
     GMap [(''thread'', GMap (if Text (field (l_turn s) ''status'') = ''inProgress''
                              then obj_set ''status'' (GMap [(''type'', GStr ''active'')]) thread else thread)),
           (''materialized'', GBool True), (''hasUser'', GBool (l_hasUser s)), (''turn'', GMap (l_turn s))]"

text \<open>The second half of \<open>State\<close>, under the lock; \<open>version\<close> was read when the call began.\<close>

definition merge_latest :: "64 word \<Rightarrow> props \<Rightarrow> live_state \<Rightarrow> live_state" where
  "merge_latest version latest s = (if l_version s = version then replace_turn latest s else s)"

definition State_call :: "string \<Rightarrow> 'e + gval \<Rightarrow> 'e + gval \<Rightarrow> (string \<times> gval) list \<Rightarrow> live_state \<Rightarrow> ('e live_error + gval) \<times> live_state" where
  "State_call i answer1 answer2 ns s =
     (if i \<noteq> l_ID s then (Inl IdentityMismatch, s)
      else
        let s' = foldl (\<lambda>s n. live_Receive n s) s ns
        in case (case answer1 of Inl e \<Rightarrow> Inl (RequestFailed e) | Inr v \<Rightarrow> loaded_thread i v) of
             Inl e \<Rightarrow> (Inl e, s')
           | Inr thread \<Rightarrow>
               (case (case answer2 of Inl e \<Rightarrow> Inl (RequestFailed e) | Inr v \<Rightarrow> latest_of_page v) of
                  Inl e \<Rightarrow> (Inl e, s')
                | Inr latest \<Rightarrow>
                    let t = merge_latest (l_version s) latest s' in (Inr (state_result thread t), t)))"

subsection \<open>Notifications during a call\<close>

abbreviation receive_all :: "(string \<times> gval) list \<Rightarrow> live_state \<Rightarrow> live_state" where
  "receive_all ns s \<equiv> foldl (\<lambda>s n. live_Receive n s) s ns"

lemma live_ID [simp]: "l_ID (live_Receive n s) = l_ID s"
  by (simp add: live_Receive_def bump_def replace_turn_def split: option.split)

lemma live_turn: "l_turn (live_Receive n s) = (case announces (l_ID s) n of Some t \<Rightarrow> t | None \<Rightarrow> l_turn s)"
  by (simp add: live_Receive_def bump_def replace_turn_def split: option.split)

lemma live_ignored: "announces (l_ID s) n = None \<Longrightarrow> \<not> user_item s n \<Longrightarrow> live_Receive n s = s"
  by (simp add: live_Receive_def)

lemma live_version: "announces (l_ID s) n \<noteq> None \<or> user_item s n \<Longrightarrow> l_version (live_Receive n s) = l_version s + 1"
  by (auto simp: live_Receive_def bump_def replace_turn_def split: option.split)

lemma receive_all_ID [simp]: "l_ID (receive_all ns s) = l_ID s"
  by (induction ns rule: rev_induct) simp_all

text \<open>The last turn announced for the thread.\<close>

definition last_announced :: "string \<Rightarrow> (string \<times> gval) list \<Rightarrow> props option" where
  "last_announced i ns = (let heard = filter (\<lambda>n. announces i n \<noteq> None) ns
     in if heard = [] then None else announces i (last heard))"

lemma last_announced_snoc:
  "last_announced i (ns @ [n]) = (case announces i n of Some t \<Rightarrow> Some t | None \<Rightarrow> last_announced i ns)"
  by (auto simp: last_announced_def Let_def split: option.split)

lemma receive_all_turn:
  "l_turn (receive_all ns s) = (case last_announced (l_ID s) ns of Some t \<Rightarrow> t | None \<Rightarrow> l_turn s)"
proof (induction ns rule: rev_induct)
  case Nil
  then show ?case by (simp add: last_announced_def)
next
  case (snoc n ns)
  then show ?case
    by (simp add: live_turn last_announced_snoc split: option.split)
qed

lemma receive_all_version:
  "\<exists>k \<le> length ns. l_version (receive_all ns s) = l_version s + of_nat k \<and>
     (k = 0 \<longrightarrow> receive_all ns s = s \<and> last_announced (l_ID s) ns = None) \<and> (last_announced (l_ID s) ns \<noteq> None \<longrightarrow> 0 < k)"
proof (induction ns rule: rev_induct)
  case Nil
  then show ?case by (simp add: last_announced_def)
next
  case (snoc n ns)
  then obtain k where k: "k \<le> length ns" "l_version (receive_all ns s) = l_version s + of_nat k"
    "k = 0 \<longrightarrow> receive_all ns s = s \<and> last_announced (l_ID s) ns = None"
    "last_announced (l_ID s) ns \<noteq> None \<longrightarrow> 0 < k" by blast
  let ?r = "receive_all ns s"
  show ?case
  proof (cases "announces (l_ID s) n = None \<and> \<not> user_item ?r n")
    case True
    then have "live_Receive n ?r = ?r" by (simp add: live_ignored)
    with k True show ?thesis by (intro exI [of _ k]) (auto simp: last_announced_snoc)
  next
    case False
    then have "l_version (live_Receive n ?r) = l_version ?r + 1" by (simp add: live_version)
    with k(1,2) show ?thesis by (intro exI [of _ "Suc k"]) simp
  qed
qed

text \<open>
  A state read reports the last turn announced while it was in flight, and the turn of its own
  answer only when nothing was announced; evidence of a user message survives for the same turn, and a
  running turn is always reported under an active status. (The version counter wraps after \<open>2^64\<close>.)
\<close>

theorem State_latest:
  fixes answer1 :: "'e + gval"
  assumes "State_call i answer1 answer2 ns s = (Inr out, t)" "length ns < 2 ^ 64"
  shows "\<exists>v1 thread v2 latest. answer1 = Inr v1 \<and> loaded_thread i v1 = (Inr thread :: 'e live_error + props) \<and>
    answer2 = Inr v2 \<and> latest_of_page v2 = (Inr latest :: 'e live_error + props) \<and> out = state_result thread t \<and>
    (\<forall>turn. last_announced i ns = Some turn \<longrightarrow> l_turn t = turn) \<and>
    (receive_all ns s = s \<longrightarrow> t = replace_turn latest s) \<and>
    (last_announced i ns = None \<longrightarrow> l_turn t = latest \<or> l_turn t = l_turn s)"
proof -
  have i: "i = l_ID s" using assms(1) by (auto simp: State_call_def split: if_splits)
  from assms(1) i obtain v1 thread v2 latest where r: "answer1 = Inr v1" "loaded_thread i v1 = (Inr thread :: 'e live_error + props)"
    "answer2 = Inr v2" "latest_of_page v2 = (Inr latest :: 'e live_error + props)"
    "t = merge_latest (l_version s) latest (receive_all ns s)" "out = state_result thread t"
    by (auto simp: State_call_def Let_def split: sum.splits)
  obtain k where k: "k \<le> length ns" "l_version (receive_all ns s) = l_version s + of_nat k"
    "k = 0 \<longrightarrow> receive_all ns s = s \<and> last_announced i ns = None" "last_announced i ns \<noteq> None \<longrightarrow> 0 < k"
    using receive_all_version [where ns = ns and s = s] i by blast
  have "l_version (receive_all ns s) = l_version s \<longleftrightarrow> k = 0"
    using k(1,2) assms(2) by (auto simp: word_of_nat_eq_0_iff dest!: dvd_imp_le)
  note version = this
  have "(\<forall>turn. last_announced i ns = Some turn \<longrightarrow> l_turn t = turn) \<and> (receive_all ns s = s \<longrightarrow> t = replace_turn latest s) \<and>
      (last_announced i ns = None \<longrightarrow> l_turn t = latest \<or> l_turn t = l_turn s)"
  proof (cases "k = 0")
    case True
    then have "t = replace_turn latest s" "last_announced i ns = None" using r(5) k(3) by (simp_all add: merge_latest_def)
    then show ?thesis by (simp add: replace_turn_def)
  next
    case False
    then have ne: "l_version (receive_all ns s) \<noteq> l_version s" using version by blast
    then have t: "t = receive_all ns s" unfolding r(5) merge_latest_def by (rule if_not_P)
    have "receive_all ns s \<noteq> s"
    proof
      assume "receive_all ns s = s"
      from arg_cong [OF this, of l_version] show False by (rule notE [OF ne])
    qed
    moreover have "l_turn t = (case last_announced i ns of Some u \<Rightarrow> u | None \<Rightarrow> l_turn s)"
      unfolding t i by (rule receive_all_turn)
    ultimately show ?thesis by (cases "last_announced i ns") simp_all
  qed
  note turns = this
  show ?thesis
    by (rule exI [of _ v1], rule exI [of _ thread], rule exI [of _ v2], rule exI [of _ latest])
      (intro conjI r(1-4,6) turns [THEN conjunct1] turns [THEN conjunct2, THEN conjunct1] turns [THEN conjunct2, THEN conjunct2])
qed

definition started :: "string \<Rightarrow> string \<times> gval" where
  "started turn = (''turn/started'', GObj [(''threadId'', GStr ''t''), (''turn'', GObj [(''id'', GStr turn), (''status'', GStr ''inProgress'')])])"

definition loaded_answer :: gval where
  "loaded_answer = GObj [(''thread'', GObj [(''id'', GStr ''t''), (''status'', GObj [(''type'', GStr ''idle'')])])]"

definition page_answer :: gval where
  "page_answer = GObj [(''data'', GArr [GObj [(''id'', GStr ''old''), (''status'', GStr ''completed'')]])]"

definition fresh_state :: live_state where
  "fresh_state = \<lparr>l_ID = ''t'', l_turn = [], l_hasUser = False, l_version = 0\<rparr>"

theorem State_latest_witness:
  "\<exists>out t. State_call ''t'' (Inr loaded_answer :: string + gval) (Inr page_answer) [started ''new''] fresh_state = (Inr out, t) \<and>
    turn_key (l_turn t) = ''new''"
proof -
  have ann: "last_announced ''t'' [started ''new''] = Some [(''id'', GStr ''new''), (''status'', GStr ''inProgress'')]"
    by (simp add: last_announced_def announces_def started_def turn_key_def field_def fields_of_def Fields_def Text_def AsText_def)
  obtain out t where run: "State_call ''t'' (Inr loaded_answer :: string + gval) (Inr page_answer) [started ''new''] fresh_state = (Inr out, t)"
    by (simp add: State_call_def loaded_answer_def page_answer_def fresh_state_def loaded_thread_def latest_of_page_def
      turn_key_def field_def fields_of_def Fields_def Text_def AsText_def Let_def)
  have "length [started ''new''] < 2 ^ 64" by simp
  from State_latest [OF run this] ann have "l_turn t = [(''id'', GStr ''new''), (''status'', GStr ''inProgress'')]" by blast
  with run show ?thesis by (auto simp: turn_key_def field_def Text_def AsText_def)
qed

end
