(* ===== verification/WebSocket.thy ===== *)
theory WebSocket
  imports Prelude
begin

text \<open>
  RFC 6455 frames and messages (\<open>internal/codex/websocket.go\<close>, \<open>websocket_discard.go\<close>). The connection is
  the bytes still to be read, after which reads fail, and the frames written so far. The outcome of the
  \<open>n\<close>th write is an argument: it fails, or the frame is sent with a given random masking key. Every transport failure is \<open>WClosed\<close>.
\<close>

unbundle bit_operations_syntax

subsection \<open>Constants and state\<close>

definition maxWebSocketMessageBytes :: int where
  "maxWebSocketMessageBytes = 104857600"

definition maxWebSocketControlBytes :: nat where
  "maxWebSocketControlBytes = 125"

definition opContinuation :: nat where "opContinuation = 0"
definition opText :: nat where "opText = 1"
definition opBinary :: nat where "opBinary = 2"
definition opClose :: nat where "opClose = 8"
definition opPing :: nat where "opPing = 9"
definition opPong :: nat where "opPong = 10"

lemmas opcodes = opContinuation_def opText_def opBinary_def opClose_def opPing_def opPong_def

datatype ws_error = WClosed | WReserved | WMasking | WControl | WBound | WContinuation | WInterleaved | WOpcode | WObserver

record websocket =
  k_client :: bool
  k_closed :: bool
  k_limit :: int
  k_in :: string
  k_out :: "string list"

definition messageLimit :: "websocket \<Rightarrow> int" where
  "messageLimit ws = (if k_limit ws \<le> 0 then maxWebSocketMessageBytes else k_limit ws)"

definition LimitMessage :: "int \<Rightarrow> websocket \<Rightarrow> websocket" where
  "LimitMessage n ws = (if 0 < n \<and> n < messageLimit ws then ws\<lparr>k_limit := n\<rparr> else ws)"

definition Terminate :: "websocket \<Rightarrow> websocket" where
  "Terminate ws = ws\<lparr>k_closed := True, k_in := []\<rparr>"

subsection \<open>Reading frames\<close>

definition ReadFull :: "nat \<Rightarrow> string \<Rightarrow> ws_error + (string \<times> string)" where
  "ReadFull n s = (if length s < n then Inl WClosed else Inr (take n s, drop n s))"

definition BigEndian :: "string \<Rightarrow> nat" where
  "BigEndian s = foldl (\<lambda>n c. 256 * n + byte_of c) 0 s"

text \<open>Key byte \<open>i mod 4\<close> is applied to byte \<open>i\<close>.\<close>

definition mask_bytes :: "string \<Rightarrow> string \<Rightarrow> string" where
  "mask_bytes key s = map (\<lambda>i. chr (byte_of (s ! i) XOR byte_of (key ! (i mod 4)))) [0..<length s]"

text \<open>A frame, or one whose payload was consumed without being kept (\<open>errDiscardedFrame\<close>).\<close>

datatype frame = Frame bool nat string | Discarded bool nat

definition extended_length :: "nat \<Rightarrow> string \<Rightarrow> ws_error + (nat \<times> string)" where
  "extended_length short s =
     (if short = 126 then bindr (ReadFull 2 s) (\<lambda>(b, s). Inr (BigEndian b, s))
      else if short = 127 then bindr (ReadFull 8 s) (\<lambda>(b, s). Inr (BigEndian b, s))
      else Inr (short, s))"

definition frame_payload :: "int \<Rightarrow> bool \<Rightarrow> bool \<Rightarrow> bool \<Rightarrow> nat \<Rightarrow> nat \<Rightarrow> string \<Rightarrow> ws_error + (frame \<times> string)" where
  "frame_payload retain discard masked final opcode len s =
     bindr (if masked then ReadFull 4 s else Inr ([], s)) (\<lambda>(key, s).
       if discard \<and> opcode < opClose \<and> retain < int len
       then bindr (ReadFull len s) (\<lambda>(_, s). Inr (Discarded final opcode, s))
       else bindr (ReadFull len s) (\<lambda>(payload, s).
              Inr (Frame final opcode (if masked then mask_bytes key payload else payload), s)))"

definition readFrameBounded :: "int \<Rightarrow> bool \<Rightarrow> websocket \<Rightarrow> ws_error + (frame \<times> websocket)" where
  "readFrameBounded retain discard ws =
     bindr (ReadFull 2 (k_in ws)) (\<lambda>(header, s).
       let b0 = byte_of (header ! 0); b1 = byte_of (header ! 1);
           final = (b0 AND 128 \<noteq> 0); opcode = b0 AND 15; masked = (b1 AND 128 \<noteq> 0)
       in if b0 AND 112 \<noteq> 0 then Inl WReserved
          else if k_client ws = masked then Inl WMasking
          else bindr (extended_length (b1 AND 127) s) (\<lambda>(len, s).
            if opClose \<le> opcode \<and> (\<not> final \<or> maxWebSocketControlBytes < len) then Inl WControl
            else if 2 ^ 63 - 1 < len \<or> \<not> discard \<and> messageLimit ws < int len then Inl WBound
            else bindr (frame_payload retain discard masked final opcode len s) (\<lambda>(fr, s). Inr (fr, ws\<lparr>k_in := s\<rparr>))))"

definition readFrame :: "websocket \<Rightarrow> ws_error + (frame \<times> websocket)" where
  "readFrame ws = readFrameBounded (messageLimit ws) False ws"

subsection \<open>Writing frames\<close>

definition put_be :: "nat \<Rightarrow> nat \<Rightarrow> string" where
  "put_be n v = map (\<lambda>i. chr (v div 256 ^ i mod 256)) (rev [0..<n])"

definition frame_bytes :: "bool \<Rightarrow> nat \<Rightarrow> string \<Rightarrow> string \<Rightarrow> string" where
  "frame_bytes client opcode key payload =
     (let n = length payload; bit = (if client then 128 else 0);
          size = (if n < 126 then [chr (bit OR n)]
                  else if n \<le> 65535 then chr (bit OR 126) # put_be 2 n
                  else chr (bit OR 127) # put_be 8 n)
      in chr (128 OR opcode) # size @ (if client then key @ mask_bytes key payload else payload))"

definition writeFrame :: "(nat \<Rightarrow> string option) \<Rightarrow> nat \<Rightarrow> string \<Rightarrow> websocket \<Rightarrow> ws_error + websocket" where
  "writeFrame env opcode payload ws =
     (if k_closed ws then Inl WClosed
      else case env (length (k_out ws)) of
        None \<Rightarrow> Inl WClosed
      | Some key \<Rightarrow> Inr (ws\<lparr>k_out := k_out ws @ [frame_bytes (k_client ws) opcode key payload]\<rparr>))"

lemma readFrameBounded_progress:
  assumes "readFrameBounded retain discard ws = Inr (fr, ws')"
  shows "length (k_in ws') < length (k_in ws)" "k_client ws' = k_client ws" "k_limit ws' = k_limit ws"
    "k_out ws' = k_out ws" "k_closed ws' = k_closed ws"
proof -
  have full: "\<And>n s x r. ReadFull n s = Inr (x, r) \<Longrightarrow> length r = length s - n \<and> n \<le> length s"
    by (auto simp: ReadFull_def split: if_splits)
  have pay: "\<And>m f oc n s fr r. frame_payload retain discard m f oc n s = Inr (fr, r) \<Longrightarrow> length r \<le> length s"
    by (auto simp: frame_payload_def split: if_splits dest!: full)
  have ext: "\<And>sh s n r. extended_length sh s = Inr (n, r) \<Longrightarrow> length r \<le> length s"
    by (auto simp: extended_length_def split: if_splits dest!: full)
  from assms show "length (k_in ws') < length (k_in ws)"
    by (fastforce simp: readFrameBounded_def Let_def split: if_splits dest!: full ext pay)
  from assms show "k_client ws' = k_client ws" "k_limit ws' = k_limit ws" "k_out ws' = k_out ws" "k_closed ws' = k_closed ws"
    by (auto simp: readFrameBounded_def Let_def split: if_splits)
qed

subsection \<open>Messages\<close>

text \<open>
  What a frame means for the message being assembled: an answer to write and a retry, the end of
  the connection, a protocol error, or data.
\<close>

datatype frame_action = Answer nat string | Skip | PeerClose string | Violation ws_error | Data

definition frame_action :: "bool \<Rightarrow> nat \<Rightarrow> string \<Rightarrow> frame_action" where
  "frame_action started opcode payload =
     (if opcode = opPing then Answer opPong payload
      else if opcode = opPong then Skip
      else if opcode = opClose then PeerClose payload
      else if opcode = opContinuation then (if started then Data else Violation WContinuation)
      else if opcode = opText \<or> opcode = opBinary then (if started then Violation WInterleaved else Data)
      else Violation WOpcode)"

definition peer_closed :: "(nat \<Rightarrow> string option) \<Rightarrow> string \<Rightarrow> websocket \<Rightarrow> websocket" where
  "peer_closed env payload ws =
     Terminate (case writeFrame env opClose payload ws of Inl _ \<Rightarrow> ws | Inr ws' \<Rightarrow> ws')"

lemma writeFrame_in: "writeFrame env oc p ws = Inr ws' \<Longrightarrow> k_in ws' = k_in ws"
  by (auto simp: writeFrame_def split: if_splits option.splits)

lemma answer_progress:
  "readFrameBounded retain discard ws = Inr (fr, ws') \<Longrightarrow> writeFrame env oc p ws' = Inr ws'' \<Longrightarrow> length (k_in ws'') < length (k_in ws)"
  using readFrameBounded_progress(1) by (simp add: writeFrame_in)

function read_message :: "(nat \<Rightarrow> string option) \<Rightarrow> bool \<Rightarrow> string \<Rightarrow> websocket \<Rightarrow> (ws_error + string) \<times> websocket" where
  "read_message env started assembled ws =
     (case readFrame ws of
        Inl e \<Rightarrow> (Inl e, ws)
      | Inr (Discarded final opcode, ws') \<Rightarrow> (Inl WClosed, ws')
      | Inr (Frame final opcode payload, ws') \<Rightarrow>
          (case frame_action started opcode payload of
             Answer oc p \<Rightarrow>
               (case writeFrame env oc p ws' of
                  Inl e \<Rightarrow> (Inl e, ws')
                | Inr ws'' \<Rightarrow> read_message env started assembled ws'')
           | Skip \<Rightarrow> read_message env started assembled ws'
           | PeerClose p \<Rightarrow> (Inl WClosed, peer_closed env p ws')
           | Violation e \<Rightarrow> (Inl e, ws')
           | Data \<Rightarrow>
               if messageLimit ws < int (length (assembled @ payload)) then (Inl WBound, ws')
               else if final then (Inr (assembled @ payload), ws')
               else read_message env True (assembled @ payload) ws'))"
  by pat_completeness auto
termination
  by (relation "measure (\<lambda>(f, st, a, ws). length (k_in ws))")
    (auto simp: readFrame_def dest: readFrameBounded_progress(1) answer_progress)

declare read_message.simps [simp del]

definition ReadMessage :: "(nat \<Rightarrow> string option) \<Rightarrow> websocket \<Rightarrow> (ws_error + string) \<times> websocket" where
  "ReadMessage env ws = read_message env False [] ws"

definition WriteText :: "(nat \<Rightarrow> string option) \<Rightarrow> string \<Rightarrow> websocket \<Rightarrow> ws_error + websocket" where
  "WriteText env payload ws = writeFrame env opText payload ws"

text \<open>The nested loops of \<open>ReadSmallMessage\<close>; a new message starts with an empty body.\<close>

function read_small :: "(nat \<Rightarrow> string option) \<Rightarrow> int \<Rightarrow> bool \<Rightarrow> bool \<Rightarrow> string \<Rightarrow> websocket \<Rightarrow> (ws_error + string) \<times> websocket" where
  "read_small env limit started oversized body ws =
     (case readFrameBounded (if oversized then 0 else limit - int (length body)) True ws of
        Inl e \<Rightarrow> (Inl e, ws)
      | Inr (fr, ws') \<Rightarrow>
          let (final, opcode, payload) = (case fr of Frame f oc p \<Rightarrow> (f, oc, p) | Discarded f oc \<Rightarrow> (f, oc, []));
              oversized = (oversized \<or> (case fr of Discarded _ _ \<Rightarrow> True | _ \<Rightarrow> False));
              body = (case fr of Discarded _ _ \<Rightarrow> [] | _ \<Rightarrow> body)
          in case frame_action started opcode payload of
               Answer oc p \<Rightarrow>
                 (case writeFrame env oc p ws' of
                    Inl e \<Rightarrow> (Inl e, ws')
                  | Inr ws'' \<Rightarrow> read_small env limit started oversized body ws'')
             | Skip \<Rightarrow> read_small env limit started oversized body ws'
             | PeerClose p \<Rightarrow> (Inl WClosed, peer_closed env p ws')
             | Violation e \<Rightarrow> (Inl e, ws')
             | Data \<Rightarrow>
                 let body = (if oversized then body else body @ payload)
                 in if \<not> final then read_small env limit True oversized body ws'
                    else if oversized then read_small env limit False False [] ws'
                    else (Inr body, ws'))"
  by pat_completeness auto
termination
  by (relation "measure (\<lambda>(f, l, st, ov, b, ws). length (k_in ws))")
    (auto dest: readFrameBounded_progress(1) answer_progress)

declare read_small.simps [simp del]

definition ReadSmallMessage :: "(nat \<Rightarrow> string option) \<Rightarrow> int \<Rightarrow> websocket \<Rightarrow> (ws_error + string) \<times> websocket" where
  "ReadSmallMessage env limit ws =
     (if limit \<le> 0 \<or> messageLimit ws < limit then (Inl WObserver, ws) else read_small env limit False False [] ws)"

text \<open>\<open>CloseWith\<close> cuts its reason to the control bound and drops continuation bytes at the cut.\<close>

definition close_reason :: "string \<Rightarrow> string" where
  "close_reason reason =
     (if maxWebSocketControlBytes - 2 < length reason
      then rev (dropWhile (\<lambda>c. byte_of c AND 192 = 128) (rev (take (maxWebSocketControlBytes - 2) reason)))
      else reason)"

definition CloseWith :: "(nat \<Rightarrow> string option) \<Rightarrow> nat \<Rightarrow> string \<Rightarrow> websocket \<Rightarrow> websocket" where
  "CloseWith env code reason ws =
     Terminate (case writeFrame env opClose (put_be 2 code @ close_reason reason) ws of Inl _ \<Rightarrow> ws | Inr ws' \<Rightarrow> ws')"

end
