(* ===== verification/WebSocketCorrect.thy ===== *)
theory WebSocketCorrect
  imports WebSocket NativeString
begin

text \<open>
  Frames read back as they were written, whatever their length, mask and fragmentation; messages are
  bounded; the observer skips exactly the oversized ones.
\<close>

subsection \<open>Bytes and bits\<close>

lemma ReadFull_append [simp]: "length a = n \<Longrightarrow> ReadFull n (a @ b) = Inr (a, b)"
  by (auto simp: ReadFull_def)

lemma ReadFull_2 [simp]: "ReadFull 2 (a # b # s) = Inr ([a, b], s)"
  using ReadFull_append [of "[a, b]" 2 s] by simp

lemma length_put_be [simp]: "length (put_be n v) = n"
  by (simp add: put_be_def)

lemma BigEndian_Cons: "BigEndian (c # s) = byte_of c * 256 ^ length s + BigEndian s"
proof -
  have "foldl (\<lambda>n c. 256 * n + byte_of c) a s = a * 256 ^ length s + foldl (\<lambda>n c. 256 * n + byte_of c) 0 s" for a
  proof (induction s arbitrary: a)
    case (Cons d s)
    from Cons [of "256 * a + byte_of d"] Cons [of "byte_of d"] show ?case by (simp add: algebra_simps)
  qed simp
  from this [of "byte_of c"] show ?thesis by (simp add: BigEndian_def)
qed

lemma put_be_Suc: "put_be (Suc n) v = chr (v div 256 ^ n mod 256) # put_be n v"
  by (simp add: put_be_def)

lemma BigEndian_put_be: "BigEndian (put_be n v) = v mod 256 ^ n"
proof (induction n)
  case 0
  then show ?case by (simp add: put_be_def BigEndian_def)
next
  case (Suc n)
  have "v mod (256 ^ n * 256) = 256 ^ n * (v div 256 ^ n mod 256) + v mod 256 ^ n" by (rule mod_mult2_eq)
  then show ?case by (simp add: put_be_Suc BigEndian_Cons Suc mult.commute)
qed

lemma and_127_mod: "n AND 127 = n mod (128 :: nat)"
  using take_bit_eq_mask [of 7 n] by (simp add: take_bit_eq_mod mask_eq_exp_minus_1)

lemma and_128_bit: "n AND 128 = 0 \<longleftrightarrow> even (n div 128 :: nat)"
  using and_exp_eq_0_iff_not_bit [of n 7] by (simp add: bit_iff_odd)

lemma or_128_add: "n < 128 \<Longrightarrow> 128 OR n = 128 + (n :: nat)"
  using push_bit_or_add [of n 7 1] by (simp add: push_bit_eq_mult)

lemma opcode_bits:
  assumes "oc < 16" "b = (if final then 128 else 0)"
  shows "byte_of (chr (b OR oc)) AND 112 = 0" "byte_of (chr (b OR oc)) AND 15 = oc" "byte_of (chr (b OR oc)) AND 128 \<noteq> 0 \<longleftrightarrow> final"
proof -
  have "oc \<in> {0, 1, 2, 3, 4, 5, 6, 7, 8, 9, 10, 11, 12, 13, 14, 15}" using assms(1) by (simp, presburger)
  then show "byte_of (chr (b OR oc)) AND 112 = 0" "byte_of (chr (b OR oc)) AND 15 = oc" "byte_of (chr (b OR oc)) AND 128 \<noteq> 0 \<longleftrightarrow> final"
    using assms(2) by (auto simp: of_char_of)
qed

lemma xor_byte: "byte_of a XOR byte_of b < 256"
proof -
  have "take_bit 8 (byte_of a) = byte_of a" "take_bit 8 (byte_of b) = byte_of b"
    using byte_of_less by (simp_all add: take_bit_nat_eq_self_iff)
  then have e: "take_bit 8 (byte_of a XOR byte_of b) = byte_of a XOR byte_of b" by (simp add: take_bit_xor)
  have "take_bit 8 (byte_of a XOR byte_of b) < 2 ^ 8" by (rule take_bit_nat_less_exp)
  then show ?thesis unfolding e by simp
qed

lemma mask_mask [simp]: "mask_bytes key (mask_bytes key p) = p"
  by (rule nth_equalityI) (simp_all add: mask_bytes_def xor_byte xor.assoc char_of_char)

lemma length_mask [simp]: "length (mask_bytes key p) = length p"
  by (simp add: mask_bytes_def)

subsection \<open>One frame\<close>

text \<open>A frame as a peer may send it; \<open>frame_bytes\<close> is the final one.\<close>

record wire_frame =
  w_final :: bool
  w_opcode :: nat
  w_key :: string
  w_payload :: string

definition size_bytes :: "bool \<Rightarrow> nat \<Rightarrow> string" where
  "size_bytes client n =
     (let bit = (if client then 128 else 0)
      in if n < 126 then [chr (bit OR n)] else if n \<le> 65535 then chr (bit OR 126) # put_be 2 n else chr (bit OR 127) # put_be 8 n)"

definition wire :: "bool \<Rightarrow> wire_frame \<Rightarrow> string" where
  "wire client w =
     chr ((if w_final w then 128 else 0) OR w_opcode w) # size_bytes client (length (w_payload w)) @
     (if client then w_key w @ mask_bytes (w_key w) (w_payload w) else w_payload w)"

lemma frame_bytes_wire: "frame_bytes client oc key p = wire client \<lparr>w_final = True, w_opcode = oc, w_key = key, w_payload = p\<rparr>"
  by (simp add: frame_bytes_def wire_def size_bytes_def Let_def)

definition wf_frame :: "wire_frame \<Rightarrow> bool" where
  "wf_frame w \<longleftrightarrow> w_opcode w < 16 \<and> length (w_key w) = 4 \<and> length (w_payload w) < 2 ^ 63 \<and>
     (opClose \<le> w_opcode w \<longrightarrow> w_final w \<and> length (w_payload w) \<le> maxWebSocketControlBytes)"

lemma size_bytes_read:
  assumes "n < 2 ^ 63"
  obtains b s where "size_bytes client n = b # s" "byte_of b AND 128 \<noteq> 0 \<longleftrightarrow> client"
    "\<And>rest. extended_length (byte_of b AND 127) (s @ rest) = Inr (n, rest)"
proof -
  have bits: "byte_of (chr ((if client then 128 else 0) OR k)) AND 128 \<noteq> 0 \<longleftrightarrow> client"
    "byte_of (chr ((if client then 128 else 0) OR k)) AND 127 = k" if "k < 128" for k
    using that by (simp_all add: or_128_add and_127_mod and_128_bit of_char_of)
  consider "n < 126" | "126 \<le> n" "n \<le> 65535" | "65535 < n" by linarith
  then show ?thesis
  proof cases
    case 1
    show ?thesis by (rule that [of "chr ((if client then 128 else 0) OR n)" "[]"])
      (use 1 bits [of n] in \<open>simp_all add: size_bytes_def extended_length_def\<close>)
  next
    case 2
    show ?thesis by (rule that [of "chr ((if client then 128 else 0) OR 126)" "put_be 2 n"])
      (use 2 bits [of 126] in \<open>simp_all add: size_bytes_def extended_length_def BigEndian_put_be\<close>)
  next
    case 3
    show ?thesis by (rule that [of "chr ((if client then 128 else 0) OR 127)" "put_be 8 n"])
      (use 3 assms bits [of 127] in \<open>simp_all add: size_bytes_def extended_length_def BigEndian_put_be\<close>)
  qed
qed

lemma read_wire:
  assumes "wf_frame w" "k_in ws = wire client w @ rest" "k_client ws \<noteq> client"
    and "discard \<or> int (length (w_payload w)) \<le> messageLimit ws"
  shows "readFrameBounded retain discard ws =
    Inr (if discard \<and> w_opcode w < opClose \<and> retain < int (length (w_payload w)) then Discarded (w_final w) (w_opcode w)
         else Frame (w_final w) (w_opcode w) (w_payload w), ws\<lparr>k_in := rest\<rparr>)"
proof -
  have w: "w_opcode w < 16" "length (w_key w) = 4" "length (w_payload w) < 2 ^ 63"
    "opClose \<le> w_opcode w \<Longrightarrow> w_final w \<and> length (w_payload w) \<le> maxWebSocketControlBytes"
    using assms(1) by (auto simp: wf_frame_def)
  obtain b s where b: "size_bytes client (length (w_payload w)) = b # s" "byte_of b AND 128 \<noteq> 0 \<longleftrightarrow> client"
    "\<And>rest. extended_length (byte_of b AND 127) (s @ rest) = Inr (length (w_payload w), rest)"
    using size_bytes_read [OF w(3)] by blast
  note oc = opcode_bits [OF w(1) refl, of "w_final w"]
  let ?tail = "(if client then w_key w @ mask_bytes (w_key w) (w_payload w) else w_payload w)"
  have "frame_payload retain discard client (w_final w) (w_opcode w) (length (w_payload w)) (?tail @ rest) =
    Inr (if discard \<and> w_opcode w < opClose \<and> retain < int (length (w_payload w)) then Discarded (w_final w) (w_opcode w)
         else Frame (w_final w) (w_opcode w) (w_payload w), rest)"
    using w(2) by (simp add: frame_payload_def)
  moreover have "\<not> (2 ^ 63 - 1 < length (w_payload w))" using w(3) by simp
  ultimately show ?thesis
    using assms(2-4) b oc w(4) by (auto simp: readFrameBounded_def wire_def Let_def not_less)
qed

subsection \<open>Messages\<close>

text \<open>
  The body of a message sent as \<open>ws\<close>: a text or binary frame and its continuations, pings and pongs
  allowed in between, the last one final.
\<close>

fun message_body :: "bool \<Rightarrow> wire_frame list \<Rightarrow> string option" where
  "message_body started [] = None"
| "message_body started (w # ws) =
     (if w_opcode w = opPing \<or> w_opcode w = opPong then message_body started ws
      else if (if started then w_opcode w = opContinuation else w_opcode w = opText \<or> w_opcode w = opBinary) then
        (if w_final w then (if ws = [] then Some (w_payload w) else None)
         else map_option (\<lambda>b. w_payload w @ b) (message_body True ws))
      else None)"

text \<open>The pongs an open connection answers, with the keys its writes get.\<close>

fun pongs :: "bool \<Rightarrow> (nat \<Rightarrow> string option) \<Rightarrow> nat \<Rightarrow> wire_frame list \<Rightarrow> string list" where
  "pongs client env n [] = []"
| "pongs client env n (w # ws) =
     (if w_opcode w = opPing then frame_bytes client opPong (the (env n)) (w_payload w) # pongs client env (Suc n) ws
      else pongs client env n ws)"

definition sent :: "bool \<Rightarrow> wire_frame list \<Rightarrow> string" where
  "sent client ws = concat (map (wire client) ws)"

lemma sent_Nil [simp]: "sent client [] = []"
  by (simp add: sent_def)

lemma sent_Cons: "sent client (w # ws) = wire client w @ sent client ws"
  by (simp add: sent_def)

definition open_socket :: "websocket \<Rightarrow> (nat \<Rightarrow> string option) \<Rightarrow> bool" where
  "open_socket ws env \<longleftrightarrow> \<not> k_closed ws \<and> (\<forall>n. env n \<noteq> None)"

lemma answer_open:
  "open_socket ws env \<Longrightarrow> writeFrame env oc p ws = Inr (ws\<lparr>k_out := k_out ws @ [frame_bytes (k_client ws) oc (the (env (length (k_out ws)))) p]\<rparr>)"
  by (auto simp: open_socket_def writeFrame_def split: option.splits)

lemma action_control:
  "frame_action started opPing p = Answer opPong p" "frame_action started opPong p = Skip"
  by (simp_all add: frame_action_def opcodes)

lemma action_data:
  "oc \<noteq> opPing \<Longrightarrow> oc \<noteq> opPong \<Longrightarrow> (if started then oc = opContinuation else oc = opText \<or> oc = opBinary) \<Longrightarrow>
    frame_action started oc p = Data"
  by (auto simp: frame_action_def opcodes split: if_splits)

lemma message_body_data:
  assumes "message_body started (w # ws) = Some b" "w_opcode w \<noteq> opPing" "w_opcode w \<noteq> opPong"
  shows "if started then w_opcode w = opContinuation else w_opcode w = opText \<or> w_opcode w = opBinary"
    "w_final w \<Longrightarrow> ws = [] \<and> b = w_payload w"
    "\<not> w_final w \<Longrightarrow> \<exists>b'. message_body True ws = Some b' \<and> b = w_payload w @ b'"
  using assms by (auto split: if_splits)

lemma read_message_body:
  assumes "message_body started fs = Some b" "\<forall>w \<in> set fs. wf_frame w \<and> int (length (w_payload w)) \<le> messageLimit ws"
    and "k_in ws = sent client fs @ rest" "k_client ws \<noteq> client" "open_socket ws env"
    and "int (length (acc @ b)) \<le> messageLimit ws"
  shows "read_message env started acc ws =
    (Inr (acc @ b), ws\<lparr>k_in := rest, k_out := k_out ws @ pongs (k_client ws) env (length (k_out ws)) fs\<rparr>)"
  using assms
proof (induction fs arbitrary: started b acc ws)
  case (Cons w fs)
  have w: "wf_frame w" "int (length (w_payload w)) \<le> messageLimit ws" using Cons.prems(2) by auto
  let ?ws = "ws\<lparr>k_in := sent client fs @ rest\<rparr>"
  have frame: "readFrame ws = Inr (Frame (w_final w) (w_opcode w) (w_payload w), ?ws)"
    using read_wire [OF w(1), of ws client "sent client fs @ rest" False "messageLimit ws"] w(2) Cons.prems(3,4)
    by (simp add: readFrame_def sent_Cons)
  have inv: "\<forall>v \<in> set fs. wf_frame v \<and> int (length (w_payload v)) \<le> messageLimit ?ws" "k_client ?ws \<noteq> client" "open_socket ?ws env"
    "messageLimit ?ws = messageLimit ws" using Cons.prems(2,4,5) by (auto simp: messageLimit_def open_socket_def)
  consider (ping) "w_opcode w = opPing" | (pong) "w_opcode w = opPong" | (data) "w_opcode w \<noteq> opPing" "w_opcode w \<noteq> opPong" by blast
  then show ?case
  proof cases
    case ping
    let ?a = "?ws\<lparr>k_out := k_out ws @ [frame_bytes (k_client ws) opPong (the (env (length (k_out ws)))) (w_payload w)]\<rparr>"
    have "read_message env started acc ws = read_message env started acc ?a"
      by (subst read_message.simps) (simp add: frame ping action_control answer_open [OF inv(3)])
    also have "\<dots> = (Inr (acc @ b), ?a\<lparr>k_in := rest, k_out := k_out ?a @ pongs (k_client ?a) env (length (k_out ?a)) fs\<rparr>)"
      using Cons.prems(1,6) inv by (intro Cons.IH) (auto simp: ping messageLimit_def open_socket_def)
    finally show ?thesis by (simp add: ping)
  next
    case pong
    have "opPong \<noteq> opPing" by (simp add: opcodes)
    have "read_message env started acc ws = read_message env started acc ?ws"
      by (subst read_message.simps) (simp add: frame pong action_control)
    also have "\<dots> = (Inr (acc @ b), ?ws\<lparr>k_in := rest, k_out := k_out ?ws @ pongs (k_client ?ws) env (length (k_out ?ws)) fs\<rparr>)"
      using Cons.prems(1,6) inv by (intro Cons.IH) (auto simp: pong)
    finally show ?thesis using \<open>opPong \<noteq> opPing\<close> by (simp add: pong)
  next
    case data
    note body = message_body_data [OF Cons.prems(1) data]
    note act = action_data [OF data body(1), of "w_payload w"]
    show ?thesis
    proof (cases "w_final w")
      case True
      then show ?thesis using body(2) Cons.prems(6) data
        by (subst read_message.simps) (simp add: frame act)
    next
      case False
      then obtain b' where b': "message_body True fs = Some b'" "b = w_payload w @ b'" using body(3) by blast
      have "read_message env started acc ws = read_message env True (acc @ w_payload w) ?ws"
        using Cons.prems(6) b'(2) False by (subst read_message.simps) (simp add: frame act)
      also have "\<dots> = (Inr ((acc @ w_payload w) @ b'), ?ws\<lparr>k_in := rest, k_out := k_out ?ws @ pongs (k_client ?ws) env (length (k_out ?ws)) fs\<rparr>)"
        using Cons.prems(6) inv b' by (intro Cons.IH) auto
      finally show ?thesis using data b'(2) by simp
    qed
  qed
qed simp

text \<open>
  C16. A message arrives as it was sent, in however many fragments, masked or not, of any length up to the
  bound, with pings and pongs in between: \<open>ReadMessage\<close> returns its bytes, answers every ping with its own
  payload in order, and leaves the bytes that follow unread.
\<close>

theorem ReadMessage_reassembles:
  assumes "message_body False fs = Some b" "\<forall>w \<in> set fs. wf_frame w \<and> int (length (w_payload w)) \<le> messageLimit ws"
    and "k_in ws = sent client fs @ rest" "k_client ws \<noteq> client" "open_socket ws env" "int (length b) \<le> messageLimit ws"
  shows "ReadMessage env ws = (Inr b, ws\<lparr>k_in := rest, k_out := k_out ws @ pongs (k_client ws) env (length (k_out ws)) fs\<rparr>)"
  using read_message_body [OF assms(1-5), of "[]"] assms(6) by (simp add: ReadMessage_def)

definition text_frame :: "bool \<Rightarrow> nat \<Rightarrow> string \<Rightarrow> wire_frame" where
  "text_frame final oc p = \<lparr>w_final = final, w_opcode = oc, w_key = ''abcd'', w_payload = p\<rparr>"

definition server_socket :: "string \<Rightarrow> websocket" where
  "server_socket bytes = \<lparr>k_client = False, k_closed = False, k_limit = 0, k_in = bytes, k_out = []\<rparr>"

theorem ReadMessage_reassembles_witness:
  "fst (ReadMessage (\<lambda>n. Some ''wxyz'')
     (server_socket (sent True [text_frame False opText ''he'', text_frame True opPing ''?'', text_frame True opContinuation ''llo''] @ ''next''))) = Inr ''hello''"
  by (subst ReadMessage_reassembles [where b = "''hello''" and client = True and rest = "''next''" and
        fs = "[text_frame False opText ''he'', text_frame True opPing ''?'', text_frame True opContinuation ''llo'']"])
    (simp_all add: server_socket_def text_frame_def wf_frame_def opcodes open_socket_def messageLimit_def
      maxWebSocketMessageBytes_def maxWebSocketControlBytes_def)

subsection \<open>The observer\<close>

lemma read_small_body:
  assumes "message_body started fs = Some b" "\<forall>w \<in> set fs. wf_frame w"
    and "k_in ws = sent client fs @ rest" "k_client ws \<noteq> client" "open_socket ws env"
    and "\<not> over \<Longrightarrow> int (length acc) \<le> limit"
  shows "read_small env limit started over acc ws =
    (let ws' = ws\<lparr>k_in := rest, k_out := k_out ws @ pongs (k_client ws) env (length (k_out ws)) fs\<rparr>
     in if over \<or> limit < int (length (acc @ b)) then read_small env limit False False [] ws' else (Inr (acc @ b), ws'))"
  using assms
proof (induction fs arbitrary: started b acc ws over)
  case (Cons w fs)
  have w: "wf_frame w" using Cons.prems(2) by auto
  let ?ws = "ws\<lparr>k_in := sent client fs @ rest\<rparr>" and ?ret = "if over then 0 else limit - int (length acc)"
  let ?cut = "w_opcode w < opClose \<and> ?ret < int (length (w_payload w))"
  have frame: "readFrameBounded ?ret True ws = Inr (if ?cut then Discarded (w_final w) (w_opcode w) else Frame (w_final w) (w_opcode w) (w_payload w), ?ws)"
    using read_wire [OF w, of ws client "sent client fs @ rest" True ?ret] Cons.prems(3,4) by (simp add: sent_Cons)
  have inv: "\<forall>v \<in> set fs. wf_frame v" "k_client ?ws \<noteq> client" "open_socket ?ws env"
    using Cons.prems(2,4,5) by (auto simp: open_socket_def)
  consider (ping) "w_opcode w = opPing" | (pong) "w_opcode w = opPong" | (data) "w_opcode w \<noteq> opPing" "w_opcode w \<noteq> opPong" by blast
  then show ?case
  proof cases
    case ping
    let ?a = "?ws\<lparr>k_out := k_out ws @ [frame_bytes (k_client ws) opPong (the (env (length (k_out ws)))) (w_payload w)]\<rparr>"
    have no: "\<not> ?cut" by (simp add: ping opcodes)
    have "read_small env limit started over acc ws = read_small env limit started over acc ?a"
      unfolding read_small.simps [of env limit started over acc ws] frame if_not_P [OF no]
      by (simp add: ping action_control answer_open [OF inv(3)])
    also have "\<dots> = (let ws' = ?a\<lparr>k_in := rest, k_out := k_out ?a @ pongs (k_client ?a) env (length (k_out ?a)) fs\<rparr>
        in if over \<or> limit < int (length (acc @ b)) then read_small env limit False False [] ws' else (Inr (acc @ b), ws'))"
      using Cons.prems(1,6) inv by (intro Cons.IH) (auto simp: ping open_socket_def)
    finally show ?thesis by (simp add: ping)
  next
    case pong
    have no: "\<not> ?cut" by (simp add: pong opcodes)
    have "opPong \<noteq> opPing" by (simp add: opcodes)
    have "read_small env limit started over acc ws = read_small env limit started over acc ?ws"
      unfolding read_small.simps [of env limit started over acc ws] frame if_not_P [OF no]
      by (simp add: pong action_control)
    also have "\<dots> = (let ws' = ?ws\<lparr>k_in := rest, k_out := k_out ?ws @ pongs (k_client ?ws) env (length (k_out ?ws)) fs\<rparr>
        in if over \<or> limit < int (length (acc @ b)) then read_small env limit False False [] ws' else (Inr (acc @ b), ws'))"
      using Cons.prems(1,6) inv by (intro Cons.IH) (auto simp: pong)
    finally show ?thesis using \<open>opPong \<noteq> opPing\<close> by (simp add: pong)
  next
    case data
    note body = message_body_data [OF Cons.prems(1) data]
    note act = action_data [OF data body(1)]
    have low: "w_opcode w < opClose" using body(1) by (auto simp: opcodes split: if_splits)
    define cut where "cut = (?ret < int (length (w_payload w)))"
    define acc' where "acc' = (if over \<or> cut then (if cut then [] else acc) else acc @ w_payload w)"
    have step: "read_small env limit started over acc ws =
      (if \<not> w_final w then read_small env limit True (over \<or> cut) acc' ?ws
       else if over \<or> cut then read_small env limit False False [] ?ws else (Inr acc', ?ws))"
      unfolding read_small.simps [of env limit started over acc ws] frame cut_def acc'_def
      using low by (cases over; cases "w_payload w = []"; cases "limit - int (length acc) < int (length (w_payload w))")
        (simp_all add: act Let_def)
    show ?thesis
    proof (cases "w_final w")
      case True
      then have fin: "fs = []" "b = w_payload w" using body(2) by auto
      have "over \<or> cut \<longleftrightarrow> over \<or> limit < int (length (acc @ b))" using fin(2) by (auto simp: cut_def)
      then show ?thesis using True fin data by (auto simp: step acc'_def Let_def)
    next
      case False
      then obtain b' where b': "message_body True fs = Some b'" "b = w_payload w @ b'" using body(3) by blast
      have small: "int (length acc') \<le> limit" if "\<not> (over \<or> cut)" using that by (auto simp: acc'_def cut_def)
      have ih: "read_small env limit True (over \<or> cut) acc' ?ws = (let ws' = ?ws\<lparr>k_in := rest, k_out := k_out ?ws @ pongs (k_client ?ws) env (length (k_out ?ws)) fs\<rparr>
        in if (over \<or> cut) \<or> limit < int (length (acc' @ b')) then read_small env limit False False [] ws' else (Inr (acc' @ b'), ws'))"
        by (rule Cons.IH [OF b'(1) inv(1) _ inv(2,3) small]) simp_all
      have "read_small env limit started over acc ws = read_small env limit True (over \<or> cut) acc' ?ws" unfolding step using False by simp
      note this [unfolded ih]
      moreover have "(over \<or> cut) \<or> limit < int (length (acc' @ b')) \<longleftrightarrow> over \<or> limit < int (length (acc @ b))"
        using b'(2) by (auto simp: acc'_def cut_def)
      moreover have "acc' @ b' = acc @ b" if "\<not> (over \<or> cut)" using that b'(2) by (simp add: acc'_def)
      ultimately show ?thesis using data b'(2) by (auto simp: Let_def)
    qed
  qed
qed simp

text \<open>
  The observer returns the first message within its bound, whole, after consuming every larger one
  before it, of any size and fragmentation.
\<close>

theorem ReadSmallMessage_skips:
  assumes "0 < limit" "limit \<le> messageLimit ws" "k_client ws \<noteq> client" "open_socket ws env"
    and "k_in ws = concat (map (sent client) (big @ [small])) @ rest" "\<forall>fs \<in> set (big @ [small]). \<forall>w \<in> set fs. wf_frame w"
    and "\<forall>fs \<in> set big. \<exists>b. message_body False fs = Some b \<and> limit < int (length b)"
    and "message_body False small = Some body" "int (length body) \<le> limit"
  shows "\<exists>out. ReadSmallMessage env limit ws = (Inr body, ws\<lparr>k_in := rest, k_out := k_out ws @ out\<rparr>)"
proof -
  have "\<exists>out. read_small env limit False False [] ws = (Inr body, ws\<lparr>k_in := rest, k_out := k_out ws @ out\<rparr>)"
    if "k_client ws \<noteq> client" "open_socket ws env" "k_in ws = concat (map (sent client) (big @ [small])) @ rest"
      "\<forall>fs \<in> set (big @ [small]). \<forall>w \<in> set fs. wf_frame w"
      "\<forall>fs \<in> set big. \<exists>b. message_body False fs = Some b \<and> limit < int (length b)" for ws
    using that
  proof (induction big arbitrary: ws)
    case Nil
    then show ?case
      using read_small_body [OF assms(8), of ws client rest env False "[]" limit] assms(1,9) by (auto simp: Let_def)
  next
    case (Cons fs big)
    then obtain b where b: "message_body False fs = Some b" "limit < int (length b)" by auto
    let ?n = "ws\<lparr>k_in := concat (map (sent client) (big @ [small])) @ rest,
      k_out := k_out ws @ pongs (k_client ws) env (length (k_out ws)) fs\<rparr>"
    have "read_small env limit False False [] ws = read_small env limit False False [] ?n"
      using read_small_body [OF b(1), of ws client "concat (map (sent client) (big @ [small])) @ rest" env False "[]" limit]
        Cons.prems b(2) assms(1) by (simp add: Let_def)
    moreover obtain out where "read_small env limit False False [] ?n = (Inr body, ?n\<lparr>k_in := rest, k_out := k_out ?n @ out\<rparr>)"
      using Cons.IH [of ?n] Cons.prems by (auto simp: open_socket_def)
    ultimately show ?case by auto
  qed
  from this [OF assms(3-7)] assms(1,2) show ?thesis by (simp add: ReadSmallMessage_def)
qed

theorem ReadSmallMessage_skips_witness:
  "fst (ReadSmallMessage (\<lambda>n. Some ''wxyz'') 3 (server_socket
     (sent True [text_frame False opText ''too'', text_frame True opContinuation ''long''] @ sent True [text_frame True opText ''ok'']))) = Inr ''ok''"
proof -
  let ?ws = "server_socket (sent True [text_frame False opText ''too'', text_frame True opContinuation ''long''] @ sent True [text_frame True opText ''ok''])"
  have "\<exists>out. ReadSmallMessage (\<lambda>n. Some ''wxyz'') 3 ?ws = (Inr ''ok'', ?ws\<lparr>k_in := [], k_out := k_out ?ws @ out\<rparr>)"
    by (rule ReadSmallMessage_skips [where client = True and small = "[text_frame True opText ''ok'']" and
          big = "[[text_frame False opText ''too'', text_frame True opContinuation ''long'']]"])
      (simp_all add: server_socket_def text_frame_def wf_frame_def opcodes open_socket_def messageLimit_def
        maxWebSocketMessageBytes_def maxWebSocketControlBytes_def)
  then show ?thesis by auto
qed

text \<open>
  The cut of a long close reason leaves the lead byte of a rune whose continuation bytes it dropped, so
  the reason may end in an incomplete UTF-8 sequence.
\<close>

lemma close_reason_incomplete:
  assumes "byte_of c AND 192 \<noteq> 128" "length s = 122" "rest \<noteq> []"
  shows "close_reason (s @ c # rest) = s @ [c]"
  using assms by (simp add: close_reason_def maxWebSocketControlBytes_def)

end
