(* ===== verification/Rpc.thy ===== *)
theory Rpc
  imports JsText "HOL-Library.Word"
begin

text \<open>
  The JSONL client of the native app server (\<open>internal/codex/rpc.go\<close>, \<open>rpc_write.go\<close>): packets, request
  correlation and the bounded write queue. A write and its two channels are one heap object; a channel
  is the list of what was sent to it, and a send to a full one would block under the lock
  (\<open>r_blocked\<close>). Every mutex section is a function; the goroutines interleave them (\<open>rpc_step\<close>).
\<close>

subsection \<open>Packets\<close>

datatype rpc_error = RpcError string "float64 option" | RCause string

datatype rpc_reply = RValue gval | RFailed rpc_error

text \<open>\<open>strconv.FormatFloat(v, 'g', -1, 64)\<close>.\<close>

definition format_g :: "rat \<Rightarrow> string" where
  "format_g v = (let e = snd (shortest \<bar>v\<bar>) - 1 in if e < - 4 \<or> 6 \<le> e then format_e v else format_f v)"

definition formatCode :: "float64 \<Rightarrow> string" where
  "formatCode v =
     (case v of
        Fin x \<Rightarrow> if f64_is_integer x \<and> \<bar>x\<bar> \<le> max_safe_integer then FormatInt \<lfloor>x\<rfloor> else format_g x
      | PInf \<Rightarrow> ''+Inf'' | NInf \<Rightarrow> ''-Inf'' | NaN \<Rightarrow> ''NaN'')"

definition responseKey :: "gval \<Rightarrow> string option" where
  "responseKey v = (case v of GNum n \<Rightarrow> Some (''n:'' @ formatCode n) | GStr s \<Rightarrow> Some (''s:'' @ s) | _ \<Rightarrow> None)"

definition decodeRpcError :: "gval \<Rightarrow> rpc_error" where
  "decodeRpcError v =
     (let ps = fields_of v;
          code = (case field ps ''code'' of GNum n \<Rightarrow> Some n | _ \<Rightarrow> None);
          msg = (case field ps ''message'' of GStr s \<Rightarrow> s | _ \<Rightarrow> [])
      in RpcError (if msg \<noteq> [] then msg
                   else case code of Some n \<Rightarrow> ''Codex RPC error '' @ formatCode n | None \<Rightarrow> ''Codex RPC error undefined'') code)"

datatype packet = Invalid string | ServerRequest props | Notification props | Response string rpc_reply

text \<open>The decoding half of \<open>dispatch\<close>.\<close>

definition classify :: "string \<Rightarrow> packet" where
  "classify line =
     (case snd (Read line False) of
        Inl _ \<Rightarrow> Invalid ''Invalid Codex RPC envelope''
      | Inr message \<Rightarrow>
          (case Fields message of
             None \<Rightarrow> Invalid ''Invalid Codex RPC envelope''
           | Some ps \<Rightarrow>
               (case field ps ''method'' of
                  GStr _ \<Rightarrow> if map_of ps ''id'' \<noteq> None then ServerRequest ps else Notification ps
                | _ \<Rightarrow>
                    (case responseKey (field ps ''id'') of
                       None \<Rightarrow> Invalid ''Missing Codex RPC response id''
                     | Some key \<Rightarrow>
                         Response key
                           (if field ps ''error'' \<noteq> GNil then RFailed (decodeRpcError (field ps ''error''))
                            else case map_of ps ''result'' of
                              Some v \<Rightarrow> RValue v
                            | None \<Rightarrow> RFailed (RCause ''Missing Codex RPC result''))))))"

definition trimCarriageReturn :: "string \<Rightarrow> string" where
  "trimCarriageReturn line = (if line \<noteq> [] \<and> last line = CHR 0x0D then butlast line else line)"

datatype line_result = Line string string | LineEOF | LineBound

text \<open>
  The next line of the bytes still to come; the bound counts the newline. How many bytes one read of
  the buffer returns does not matter to the result.
\<close>

definition readLine :: "int \<Rightarrow> string \<Rightarrow> line_result" where
  "readLine packetLimit s =
     (let body = takeWhile (\<lambda>c. c \<noteq> CHR 0x0A) s;
          whole = (if body = s then length s else Suc (length body))
      in if 0 < packetLimit \<and> packetLimit < int whole then LineBound
         else if body \<noteq> s then Line (trimCarriageReturn body) (drop whole s)
         else if trimCarriageReturn s = [] then LineEOF
         else Line (trimCarriageReturn s) [])"

subsection \<open>State\<close>

definition maxRPCWrites :: nat where
  "maxRPCWrites = 64"

definition maxRPCQueuedBytes :: int where
  "maxRPCQueuedBytes = 67108864"

datatype rpcWriteState = rpcQueued | rpcWriting | rpcWritten | rpcCancelled

record rpcWrite =
  w_data :: string
  w_deadline :: int
  w_key :: string
  w_state :: rpcWriteState
  w_result :: "rpc_error option list"
  w_reply :: "rpc_reply list"

record rpc =
  r_nextId :: "64 word"
  r_closedErr :: "rpc_error option"
  r_pending :: "(string \<times> nat) list"
  r_writes :: "nat list"
  r_queue :: "nat list"
  r_queuedBytes :: int
  r_heap :: "rpcWrite list"
  r_blocked :: bool

definition NewRpc :: rpc where
  "NewRpc = \<lparr>r_nextId = 0, r_closedErr = None, r_pending = [], r_writes = [], r_queue = [], r_queuedBytes = 0,
     r_heap = [], r_blocked = False\<rparr>"

definition upd_write :: "nat \<Rightarrow> (rpcWrite \<Rightarrow> rpcWrite) \<Rightarrow> rpc \<Rightarrow> rpc" where
  "upd_write a g r = r\<lparr>r_heap := (r_heap r)[a := g (r_heap r ! a)]\<rparr>"

text \<open>Both channels have room for one value.\<close>

definition send_reply :: "nat \<Rightarrow> rpc_reply \<Rightarrow> rpc \<Rightarrow> rpc" where
  "send_reply a v r =
     (if w_reply (r_heap r ! a) \<noteq> [] then r\<lparr>r_blocked := True\<rparr> else upd_write a (\<lambda>w. w\<lparr>w_reply := [v]\<rparr>) r)"

definition send_result :: "nat \<Rightarrow> rpc_error option \<Rightarrow> rpc \<Rightarrow> rpc" where
  "send_result a v r =
     (if w_result (r_heap r ! a) \<noteq> [] then r\<lparr>r_blocked := True\<rparr> else upd_write a (\<lambda>w. w\<lparr>w_result := [v]\<rparr>) r)"

subsection \<open>Mutex sections\<close>

definition request_key :: "64 word \<Rightarrow> string" where
  "request_key i = ''n:'' @ FormatInt (sint i)"

text \<open>The first section of \<open>RequestContext\<close>.\<close>

definition next_id :: "rpc \<Rightarrow> rpc_error + (64 word \<times> rpc)" where
  "next_id r =
     (case r_closedErr r of
        Some e \<Rightarrow> Inl e
      | None \<Rightarrow> let i = r_nextId r + 1 in Inr (i, r\<lparr>r_nextId := i\<rparr>))"

definition enqueue :: "string \<Rightarrow> int \<Rightarrow> int \<Rightarrow> string \<Rightarrow> bool \<Rightarrow> rpc \<Rightarrow> rpc_error + (nat \<times> rpc)" where
  "enqueue encoded now deadline key reply r =
     (case r_closedErr r of
        Some e \<Rightarrow> Inl e
      | None \<Rightarrow>
          if deadline \<le> now then Inl (RCause ''Codex request timed out before dispatch'')
          else if maxRPCWrites \<le> length (r_writes r) \<or> reply \<and> maxRPCWrites \<le> length (r_pending r) \<or>
                  maxRPCQueuedBytes - r_queuedBytes r < int (length encoded)
          then Inl (RCause ''Codex RPC backpressure limit'')
          else
            let a = length (r_heap r);
                w = \<lparr>w_data = encoded, w_deadline = deadline, w_key = key, w_state = rpcQueued, w_result = [], w_reply = []\<rparr>
            in Inr (a, r\<lparr>r_heap := r_heap r @ [w], r_writes := a # r_writes r, r_queue := r_queue r @ [a],
                        r_queuedBytes := r_queuedBytes r + int (length encoded),
                        r_pending := (if reply then (key, a) # delete_key key (r_pending r) else r_pending r)\<rparr>))"

definition finishWriteLocked :: "nat \<Rightarrow> rpc_error option \<Rightarrow> rpc \<Rightarrow> rpc" where
  "finishWriteLocked a err r =
     (if a \<notin> set (r_writes r) then r
      else
        let n = int (length (w_data (r_heap r ! a)));
            r = r\<lparr>r_writes := removeAll a (r_writes r), r_queuedBytes := r_queuedBytes r - n\<rparr>;
            r = upd_write a (\<lambda>w. w\<lparr>w_data := [], w_state := (if err = None then rpcWritten else rpcCancelled)\<rparr>) r
        in send_result a err r)"

text \<open>The section of \<open>expire\<close>, and whether the connection must be retired after it.\<close>

definition expire :: "nat \<Rightarrow> rpc_error \<Rightarrow> rpc \<Rightarrow> rpc \<times> bool" where
  "expire a cause r =
     (let key = w_key (r_heap r ! a)
      in if key \<noteq> [] \<and> map_of (r_pending r) key = None then (r, False)
         else
           let r = (case map_of (r_pending r) key of
                      Some b \<Rightarrow> if key \<noteq> [] then send_reply b (RFailed cause) (r\<lparr>r_pending := delete_key key (r_pending r)\<rparr>) else r
                    | None \<Rightarrow> r);
               writing = (w_state (r_heap r ! a) = rpcWriting)
           in (if w_state (r_heap r ! a) = rpcQueued
               then finishWriteLocked a (Some cause) (r\<lparr>r_queue := remove1 a (r_queue r)\<rparr>) else r, writing))"

definition CloseWithError :: "rpc_error \<Rightarrow> rpc \<Rightarrow> rpc" where
  "CloseWithError cause r =
     (if r_closedErr r \<noteq> None then r
      else
        let pend = map snd (r_pending r);
            r = r\<lparr>r_closedErr := Some cause, r_pending := []\<rparr>;
            r = foldl (\<lambda>r a. send_reply a (RFailed cause) r) r pend;
            r = foldl (\<lambda>r a. finishWriteLocked a (Some cause) r) r (r_writes r)
        in r\<lparr>r_queue := [], r_queuedBytes := 0\<rparr>)"

text \<open>The section of \<open>dispatch\<close> for a response; the reply is sent after it.\<close>

definition take_pending :: "string \<Rightarrow> rpc \<Rightarrow> nat option \<times> rpc" where
  "take_pending key r = (map_of (r_pending r) key, r\<lparr>r_pending := delete_key key (r_pending r)\<rparr>)"

datatype writer = WriterIdle | WriterExpiring nat | WriterWriting nat | WriterDone

definition writer_pick :: "int \<Rightarrow> rpc \<Rightarrow> writer \<times> rpc" where
  "writer_pick now r =
     (if r_closedErr r \<noteq> None then (WriterDone, r)
      else case r_queue r of
        [] \<Rightarrow> (WriterIdle, r)
      | a # rest \<Rightarrow>
          let r = r\<lparr>r_queue := rest\<rparr>
          in if w_deadline (r_heap r ! a) \<le> now then (WriterExpiring a, r)
             else (WriterWriting a, upd_write a (\<lambda>w. w\<lparr>w_state := rpcWriting\<rparr>) r))"

subsection \<open>Interleavings\<close>

text \<open>
  \<open>c_alloc\<close> holds the identities allocated and not yet enqueued, as their ordinals; \<open>c_deliver\<close> the
  replies between a section of \<open>dispatch\<close> and its send; \<open>c_closing\<close> the closures an expiry still has to make;
  \<open>c_sent\<close> the writes handed to the transport and \<open>c_requests\<close> the accepted requests.
\<close>

record rpc_config =
  c_rpc :: rpc
  c_writer :: writer
  c_count :: nat
  c_alloc :: "nat list"
  c_deliver :: "(nat \<times> rpc_reply) list"
  c_closing :: "rpc_error list"
  c_sent :: "nat list"
  c_requests :: "nat list"

definition rpc_start :: rpc_config where
  "rpc_start = \<lparr>c_rpc = NewRpc, c_writer = WriterIdle, c_count = 0, c_alloc = [], c_deliver = [], c_closing = [],
     c_sent = [], c_requests = []\<rparr>"

definition after_expire :: "nat \<Rightarrow> rpc_error \<Rightarrow> rpc_config \<Rightarrow> rpc_config" where
  "after_expire a cause c =
     (let (r, writing) = expire a cause (c_rpc c)
      in c\<lparr>c_rpc := r, c_closing := (if writing then cause # c_closing c else c_closing c)\<rparr>)"

inductive rpc_step :: "rpc_config \<Rightarrow> rpc_config \<Rightarrow> bool" where
  alloc: "next_id (c_rpc c) = Inr (i, r) \<Longrightarrow>
    rpc_step c (c\<lparr>c_rpc := r, c_count := Suc (c_count c), c_alloc := Suc (c_count c) # c_alloc c\<rparr>)"
| request: "j \<in> set (c_alloc c) \<Longrightarrow> enqueue encoded now deadline (request_key (of_nat j)) True (c_rpc c) = Inr (a, r) \<Longrightarrow>
    rpc_step c (c\<lparr>c_rpc := r, c_alloc := removeAll j (c_alloc c), c_requests := a # c_requests c\<rparr>)"
| refused: "j \<in> set (c_alloc c) \<Longrightarrow> rpc_step c (c\<lparr>c_alloc := removeAll j (c_alloc c)\<rparr>)"
| send: "enqueue encoded now deadline [] False (c_rpc c) = Inr (a, r) \<Longrightarrow> rpc_step c (c\<lparr>c_rpc := r\<rparr>)"
| expires: "a < length (r_heap (c_rpc c)) \<Longrightarrow> rpc_step c (after_expire a cause c)"
| retire: "cause \<in> set (c_closing c) \<Longrightarrow>
    rpc_step c (c\<lparr>c_rpc := CloseWithError cause (c_rpc c), c_closing := remove1 cause (c_closing c)\<rparr>)"
| close: "rpc_step c (c\<lparr>c_rpc := CloseWithError cause (c_rpc c)\<rparr>)"
| answer: "take_pending key (c_rpc c) = (Some a, r) \<Longrightarrow>
    rpc_step c (c\<lparr>c_rpc := r, c_deliver := (a, v) # c_deliver c\<rparr>)"
| unknown: "take_pending key (c_rpc c) = (None, r) \<Longrightarrow> rpc_step c (c\<lparr>c_rpc := r\<rparr>)"
| deliver: "(a, v) \<in> set (c_deliver c) \<Longrightarrow>
    rpc_step c (c\<lparr>c_rpc := send_reply a v (c_rpc c), c_deliver := remove1 (a, v) (c_deliver c)\<rparr>)"
| pick: "c_writer c = WriterIdle \<Longrightarrow> writer_pick now (c_rpc c) = (w, r) \<Longrightarrow>
    rpc_step c (c\<lparr>c_rpc := r, c_writer := w, c_sent := (case w of WriterWriting a \<Rightarrow> c_sent c @ [a] | _ \<Rightarrow> c_sent c)\<rparr>)"
| pick_expired: "c_writer c = WriterExpiring a \<Longrightarrow>
    rpc_step c ((after_expire a (RCause ''Codex request timed out before dispatch'') c)\<lparr>c_writer := WriterIdle\<rparr>)"
| written: "c_writer c = WriterWriting a \<Longrightarrow>
    rpc_step c (c\<lparr>c_rpc := finishWriteLocked a None (c_rpc c), c_writer := WriterIdle\<rparr>)"
| write_failed: "c_writer c = WriterWriting a \<Longrightarrow>
    rpc_step c (c\<lparr>c_rpc := CloseWithError cause (c_rpc c), c_writer := WriterDone\<rparr>)"

end
