(* ===== verification/RpcCorrect.thy ===== *)
theory RpcCorrect
  imports Rpc
begin

text \<open>
  Invariants of the RPC client in every interleaving: each accepted request has exactly one reply, owed, in
  delivery or delivered; no send blocks; the queue is bounded and its account exact; writes leave in order.
\<close>

subsection \<open>The invariant\<close>

definition bytes_of :: "rpc \<Rightarrow> nat list \<Rightarrow> int" where
  "bytes_of r as = (\<Sum>a\<leftarrow>as. int (length (w_data (r_heap r ! a))))"

text \<open>The replies of a request that are still owed, in delivery, or delivered.\<close>

definition replies :: "(nat \<times> rpc_reply) list \<Rightarrow> rpc \<Rightarrow> nat \<Rightarrow> nat" where
  "replies D r a = (if a \<in> snd ` set (r_pending r) then 1 else 0) + length (filter (\<lambda>x. fst x = a) D) + length (w_reply (r_heap r ! a))"

text \<open>A write is either held with an open result, or finished with exactly one.\<close>

definition write_ok :: "rpc \<Rightarrow> nat \<Rightarrow> bool" where
  "write_ok r a \<longleftrightarrow>
     (if a \<in> set (r_writes r) then w_result (r_heap r ! a) = [] \<and> w_state (r_heap r ! a) \<in> {rpcQueued, rpcWriting}
      else length (w_result (r_heap r ! a)) = 1 \<and> w_state (r_heap r ! a) \<in> {rpcWritten, rpcCancelled})"

definition held_ok :: "rpc \<Rightarrow> bool" where
  "held_ok r \<longleftrightarrow> distinct (r_writes r) \<and> set (r_writes r) \<subseteq> {..<length (r_heap r)} \<and> (\<forall>a < length (r_heap r). write_ok r a) \<and>
     r_queuedBytes r = bytes_of r (r_writes r) \<and> length (r_writes r) \<le> maxRPCWrites \<and> r_queuedBytes r \<le> maxRPCQueuedBytes"

definition queue_ok :: "rpc \<Rightarrow> bool" where
  "queue_ok r \<longleftrightarrow> (\<forall>a \<in> set (r_queue r). a \<in> set (r_writes r) \<and> w_state (r_heap r ! a) = rpcQueued)"

definition owed_ok :: "(nat \<times> rpc_reply) list \<Rightarrow> nat list \<Rightarrow> rpc \<Rightarrow> bool" where
  "owed_ok D R r \<longleftrightarrow> distinct (map fst (r_pending r)) \<and> distinct (map snd (r_pending r)) \<and> length (r_pending r) \<le> maxRPCWrites \<and>
     snd ` set (r_pending r) \<subseteq> set R \<and> fst ` set D \<subseteq> set R \<and> set R \<subseteq> {..<length (r_heap r)} \<and> (\<forall>a \<in> set R. replies D r a = 1)"

definition rpc_ok :: "(nat \<times> rpc_reply) list \<Rightarrow> nat list \<Rightarrow> rpc \<Rightarrow> bool" where
  "rpc_ok D R r \<longleftrightarrow> held_ok r \<and> owed_ok D R r \<and> \<not> r_blocked r"

lemma held_okD:
  assumes "held_ok r"
  shows "distinct (r_writes r)" "a \<in> set (r_writes r) \<Longrightarrow> a < length (r_heap r)" "a < length (r_heap r) \<Longrightarrow> write_ok r a"
    "r_queuedBytes r = bytes_of r (r_writes r)" "length (r_writes r) \<le> maxRPCWrites" "r_queuedBytes r \<le> maxRPCQueuedBytes"
  using assms unfolding held_ok_def by auto

lemma held_result: "held_ok r \<Longrightarrow> a \<in> set (r_writes r) \<Longrightarrow> w_result (r_heap r ! a) = []"
  using held_okD(2,3) [of r a] by (simp add: write_ok_def)

lemma bytes_cong: "(\<And>a. a \<in> set as \<Longrightarrow> w_data (r_heap r ! a) = w_data (r_heap r' ! a)) \<Longrightarrow> bytes_of r as = bytes_of r' as"
  unfolding bytes_of_def by (rule arg_cong [where f = sum_list], rule map_cong) simp_all

lemma bytes_remove: "distinct as \<Longrightarrow> a \<in> set as \<Longrightarrow> bytes_of r (removeAll a as) = bytes_of r as - int (length (w_data (r_heap r ! a)))"
  by (induction as) (auto simp: bytes_of_def removeAll_id)

lemma bytes_nonneg: "0 \<le> bytes_of r as"
  by (auto simp: bytes_of_def intro!: sum_list_nonneg)

text \<open>Each half of the invariant depends only on its own fields.\<close>

definition w_core :: "rpcWrite \<Rightarrow> string \<times> rpcWriteState \<times> rpc_error option list" where
  "w_core w = (w_data w, w_state w, w_result w)"

lemma core_nth: "map w_core h' = map w_core h \<Longrightarrow> a < length h \<Longrightarrow> w_core (h' ! a) = w_core (h ! a)"
  by (metis length_map nth_map)

lemma held_frame:
  assumes "held_ok r" "r_writes r' = r_writes r" "r_queuedBytes r' = r_queuedBytes r" "map w_core (r_heap r') = map w_core (r_heap r)"
  shows "held_ok r'"
proof -
  have len: "length (r_heap r') = length (r_heap r)" using assms(4) by (metis length_map)
  have nth: "w_core (r_heap r' ! a) = w_core (r_heap r ! a)" if "a < length (r_heap r)" for a
    using core_nth [OF assms(4) that] .
  have "bytes_of r' (r_writes r) = bytes_of r (r_writes r)"
    by (rule bytes_cong) (use nth held_okD(2) [OF assms(1)] in \<open>auto simp: w_core_def\<close>)
  moreover have "write_ok r' a" if "a < length (r_heap r)" for a
    using held_okD(3) [OF assms(1) that] nth [OF that] assms(2) by (simp add: write_ok_def w_core_def split: if_splits)
  ultimately show ?thesis using assms(1-3) len unfolding held_ok_def by simp
qed

lemma owed_frame:
  assumes "owed_ok D R r" "r_pending r' = r_pending r" "map w_reply (r_heap r') = map w_reply (r_heap r)"
  shows "owed_ok D R r'"
proof -
  have len: "length (r_heap r') = length (r_heap r)" using assms(3) by (metis length_map)
  have "w_reply (r_heap r' ! a) = w_reply (r_heap r ! a)" if "a < length (r_heap r)" for a
    using assms(3) that len by (metis nth_map)
  moreover have "a < length (r_heap r)" if "a \<in> set R" for a
    using assms(1) that unfolding owed_ok_def by (meson lessThan_iff subset_iff)
  ultimately have "replies D r' a = replies D r a" if "a \<in> set R" for a
    using that assms(2) by (simp add: replies_def)
  then show ?thesis using assms(1,2) len unfolding owed_ok_def by simp
qed

lemma map_update_same: "a < length h \<Longrightarrow> f w = f (h ! a) \<Longrightarrow> map f (h[a := w]) = map f h"
  by (simp add: map_update) (metis length_map list_update_id nth_map)

subsection \<open>Finishing a write\<close>

lemma finish_absent: "a \<notin> set (r_writes r) \<Longrightarrow> finishWriteLocked a err r = r"
  by (simp add: finishWriteLocked_def)

lemma finish_present:
  assumes "a \<in> set (r_writes r)" "a < length (r_heap r)" "w_result (r_heap r ! a) = []"
  shows "finishWriteLocked a err r = r\<lparr>r_writes := removeAll a (r_writes r),
     r_queuedBytes := r_queuedBytes r - int (length (w_data (r_heap r ! a))),
     r_heap := (r_heap r)[a := (r_heap r ! a)\<lparr>w_data := [], w_state := (if err = None then rpcWritten else rpcCancelled), w_result := [err]\<rparr>]\<rparr>"
  using assms by (simp add: finishWriteLocked_def Let_def send_result_def upd_write_def)

lemma finish_frame:
  assumes "held_ok r"
  shows "r_pending (finishWriteLocked a err r) = r_pending r" "r_queue (finishWriteLocked a err r) = r_queue r"
    "r_closedErr (finishWriteLocked a err r) = r_closedErr r" "r_nextId (finishWriteLocked a err r) = r_nextId r"
    "r_blocked (finishWriteLocked a err r) = r_blocked r"
    "map w_reply (r_heap (finishWriteLocked a err r)) = map w_reply (r_heap r)"
    "r_writes (finishWriteLocked a err r) = removeAll a (r_writes r)"
    "length (r_heap (finishWriteLocked a err r)) = length (r_heap r)"
    "map w_key (r_heap (finishWriteLocked a err r)) = map w_key (r_heap r)"
proof -
  have "finishWriteLocked a err r = r \<and> removeAll a (r_writes r) = r_writes r \<or> a < length (r_heap r) \<and>
    (\<exists>w n. finishWriteLocked a err r = r\<lparr>r_writes := removeAll a (r_writes r), r_queuedBytes := n, r_heap := (r_heap r)[a := w]\<rparr>
      \<and> w_reply w = w_reply (r_heap r ! a) \<and> w_key w = w_key (r_heap r ! a))"
  proof (cases "a \<in> set (r_writes r)")
    case True
    note f = finish_present [OF True held_okD(2) [OF assms True] held_result [OF assms True], of err]
    show ?thesis using held_okD(2) [OF assms True] unfolding f by (intro disjI2 conjI exI) (rule refl | simp)+
  qed (simp add: finish_absent)
  then consider "finishWriteLocked a err r = r" "removeAll a (r_writes r) = r_writes r"
    | w n where "a < length (r_heap r)" "w_reply w = w_reply (r_heap r ! a)" "w_key w = w_key (r_heap r ! a)"
      "finishWriteLocked a err r = r\<lparr>r_writes := removeAll a (r_writes r), r_queuedBytes := n, r_heap := (r_heap r)[a := w]\<rparr>"
    by blast
  then show "r_pending (finishWriteLocked a err r) = r_pending r" "r_queue (finishWriteLocked a err r) = r_queue r"
    "r_closedErr (finishWriteLocked a err r) = r_closedErr r" "r_nextId (finishWriteLocked a err r) = r_nextId r"
    "r_blocked (finishWriteLocked a err r) = r_blocked r"
    "map w_reply (r_heap (finishWriteLocked a err r)) = map w_reply (r_heap r)"
    "r_writes (finishWriteLocked a err r) = removeAll a (r_writes r)"
    "length (r_heap (finishWriteLocked a err r)) = length (r_heap r)"
    "map w_key (r_heap (finishWriteLocked a err r)) = map w_key (r_heap r)"
    by (cases; simp add: map_update_same)+
qed

lemma finish_other: "held_ok r \<Longrightarrow> b \<noteq> a \<Longrightarrow> r_heap (finishWriteLocked a err r) ! b = r_heap r ! b"
  using finish_present [of a r err] held_okD(2) [of r a] held_result [of r a] finish_absent [of a r err]
  by (cases "a \<in> set (r_writes r)") simp_all

lemma finish_held:
  assumes "held_ok r"
  shows "held_ok (finishWriteLocked a err r)"
proof (cases "a \<in> set (r_writes r)")
  case False
  then show ?thesis using assms by (simp add: finish_absent)
next
  case True
  note h = held_okD(1,4-6) [OF assms] and a = held_okD(2) [OF assms True]
  let ?f = "finishWriteLocked a err r"
  note f = finish_present [OF True a held_result [OF assms True], of err]
  have "bytes_of ?f (removeAll a (r_writes r)) = bytes_of r (removeAll a (r_writes r))"
    by (rule bytes_cong) (simp add: f)
  then have q: "r_queuedBytes ?f = bytes_of ?f (r_writes ?f)" using h(2) bytes_remove [OF h(1) True, of r] by (simp add: f)
  have w: "write_ok ?f b" if "b < length (r_heap r)" for b
  proof (cases "b = a")
    case True
    then show ?thesis using a by (simp add: write_ok_def f)
  next
    case False
    then show ?thesis using held_okD(3) [OF assms that] by (simp add: write_ok_def f split: if_splits)
  qed
  have len: "length (r_writes ?f) \<le> maxRPCWrites"
    unfolding finish_frame(7) [OF assms] by (rule le_trans [OF length_removeAll_less_eq h(3)])
  have bound: "r_queuedBytes ?f \<le> maxRPCQueuedBytes" using h(4) by (simp add: f)
  have sub: "set (r_writes ?f) \<subseteq> {..<length (r_heap ?f)}"
    using held_okD(2) [OF assms] by (auto simp: f)
  have dist: "distinct (r_writes ?f)" using h(1) by (simp add: f distinct_removeAll)
  show ?thesis unfolding held_ok_def using q w len bound sub dist finish_frame(8) [OF assms] by simp
qed

lemma finish_ok: "rpc_ok D R r \<Longrightarrow> rpc_ok D R (finishWriteLocked a err r)"
  unfolding rpc_ok_def using finish_held [of r a err] finish_frame [of r a err] owed_frame [of D R r] by simp

lemma finish_all_ok:
  assumes "rpc_ok D R r"
  shows "rpc_ok D R (foldl (\<lambda>r a. finishWriteLocked a err r) r as) \<and>
    r_writes (foldl (\<lambda>r a. finishWriteLocked a err r) r as) = filter (\<lambda>a. a \<notin> set as) (r_writes r) \<and>
    r_pending (foldl (\<lambda>r a. finishWriteLocked a err r) r as) = r_pending r \<and>
    r_closedErr (foldl (\<lambda>r a. finishWriteLocked a err r) r as) = r_closedErr r \<and>
    r_nextId (foldl (\<lambda>r a. finishWriteLocked a err r) r as) = r_nextId r \<and>
    map w_key (r_heap (foldl (\<lambda>r a. finishWriteLocked a err r) r as)) = map w_key (r_heap r)"
  using assms
proof (induction as arbitrary: r)
  case (Cons a as)
  have h: "held_ok r" using Cons.prems by (simp add: rpc_ok_def)
  show ?case using Cons.IH [OF finish_ok [OF Cons.prems, of a err]]
    by (simp add: finish_frame [OF h] removeAll_filter_not_eq) (metis (no_types, lifting) filter_cong)
qed simp

subsection \<open>Settling a request\<close>

lemma owed_take:
  assumes "owed_ok D R r" "map_of (r_pending r) key = Some a"
  shows "owed_ok ((a, v) # D) R (r\<lparr>r_pending := delete_key key (r_pending r)\<rparr>)"
proof -
  let ?p = "r_pending r"
  note o = assms(1) [unfolded owed_ok_def]
  have mem: "(key, a) \<in> set ?p" using assms(2) by (rule map_of_SomeD)
  have amem: "a \<in> snd ` set ?p" using mem by force
  have inj: "inj_on snd (set ?p)" using o by (simp add: distinct_map)
  have keyed: "b = a" if "(key, b) \<in> set ?p" for b using o that assms(2) by (metis map_of_is_SomeI option.inject)
  have "set (delete_key key ?p) = set ?p - {(key, a)}" using keyed by (auto simp: set_delete_key)
  then have "snd ` set (delete_key key ?p) = snd ` set ?p - {a}" using inj_on_image_set_diff [OF inj, of "set ?p" "{(key, a)}"] mem by simp
  then have "replies ((a, v) # D) (r\<lparr>r_pending := delete_key key ?p\<rparr>) b = replies D r b" for b
    using amem by (cases "b = a") (simp_all add: replies_def)
  moreover have "distinct (map snd (delete_key key ?p))"
    unfolding delete_key_def using o distinct_map_filter [of snd ?p] by blast
  moreover have "a \<in> set R" using o mem by force
  moreover have "snd ` set (delete_key key ?p) \<subseteq> set R" using o by (auto simp: set_delete_key)
  ultimately show ?thesis using o distinct_delete_key [of ?p key] length_delete_key [of key ?p] unfolding owed_ok_def by simp
qed

lemma filter_remove1_length: "x \<in> set D \<Longrightarrow> length (filter P D) = length (filter P (remove1 x D)) + (if P x then 1 else 0)"
  by (induction D) auto

lemma owed_reply:
  assumes "owed_ok D R r" "(a, v) \<in> set D"
  shows "a < length (r_heap r)" "w_reply (r_heap r ! a) = []" "owed_ok (remove1 (a, v) D) R (send_reply a v r)"
proof -
  note o = assms(1) [unfolded owed_ok_def]
  have a: "a \<in> set R" using o assms(2) by force
  show len: "a < length (r_heap r)" using o a by auto
  have "filter (\<lambda>x. fst x = a) D \<noteq> []" using assms(2) by (force simp: filter_empty_conv)
  then have some: "1 \<le> length (filter (\<lambda>x. fst x = a) D)" by (cases "filter (\<lambda>x. fst x = a) D") simp_all
  have "replies D r a = 1" using o a by blast
  then have "length (filter (\<lambda>x. fst x = a) D) + length (w_reply (r_heap r ! a)) \<le> 1" by (simp add: replies_def split: if_splits)
  with some have "length (w_reply (r_heap r ! a)) = 0" by linarith
  then show empty: "w_reply (r_heap r ! a) = []" by simp
  have "replies (remove1 (a, v) D) (send_reply a v r) b = replies D r b" if "b \<in> set R" for b
    using filter_remove1_length [OF assms(2), of "\<lambda>x. fst x = b"] empty len
    by (cases "b = a") (simp_all add: replies_def send_reply_def upd_write_def)
  moreover have "fst ` set (remove1 (a, v) D) \<subseteq> set R" using o set_remove1_subset [of "(a, v)" D] by blast
  ultimately show "owed_ok (remove1 (a, v) D) R (send_reply a v r)"
    using o empty unfolding owed_ok_def by (simp add: send_reply_def upd_write_def)
qed

lemma reply_frame:
  assumes "w_reply (r_heap r ! a) = []" "a < length (r_heap r)"
  shows "r_pending (send_reply a v r) = r_pending r" "r_queue (send_reply a v r) = r_queue r" "r_writes (send_reply a v r) = r_writes r"
    "r_closedErr (send_reply a v r) = r_closedErr r" "r_nextId (send_reply a v r) = r_nextId r" "r_blocked (send_reply a v r) = r_blocked r"
    "r_queuedBytes (send_reply a v r) = r_queuedBytes r" "length (r_heap (send_reply a v r)) = length (r_heap r)"
    "map w_core (r_heap (send_reply a v r)) = map w_core (r_heap r)"
    "w_state (r_heap (send_reply a v r) ! b) = w_state (r_heap r ! b)" "map w_key (r_heap (send_reply a v r)) = map w_key (r_heap r)"
  using assms by (cases "b = a"; simp add: send_reply_def upd_write_def map_update_same w_core_def)+

lemma reply_ok:
  assumes "rpc_ok D R r" "(a, v) \<in> set D"
  shows "rpc_ok (remove1 (a, v) D) R (send_reply a v r)"
proof -
  have o: "owed_ok D R r" and h: "held_ok r" "\<not> r_blocked r" using assms(1) by (simp_all add: rpc_ok_def)
  note f = reply_frame [OF owed_reply(2,1) [OF o assms(2)], of v]
  have "held_ok (send_reply a v r)" by (rule held_frame [OF h(1)]) (simp_all add: f)
  then show ?thesis using owed_reply(3) [OF o assms(2)] h(2) by (simp add: rpc_ok_def f)
qed

lemma reply_all_ok:
  assumes "rpc_ok (map (\<lambda>a. (a, v)) as @ D) R r"
  shows "rpc_ok D R (foldl (\<lambda>r a. send_reply a v r) r as) \<and> r_pending (foldl (\<lambda>r a. send_reply a v r) r as) = r_pending r \<and>
    r_writes (foldl (\<lambda>r a. send_reply a v r) r as) = r_writes r \<and> r_closedErr (foldl (\<lambda>r a. send_reply a v r) r as) = r_closedErr r \<and>
    r_nextId (foldl (\<lambda>r a. send_reply a v r) r as) = r_nextId r \<and>
    map w_key (r_heap (foldl (\<lambda>r a. send_reply a v r) r as)) = map w_key (r_heap r)"
  using assms
proof (induction as arbitrary: r)
  case (Cons a as)
  let ?D = "map (\<lambda>a. (a, v)) (a # as) @ D"
  have o: "owed_ok ?D R r" and m: "(a, v) \<in> set ?D" using Cons.prems by (simp_all add: rpc_ok_def)
  have "rpc_ok (map (\<lambda>a. (a, v)) as @ D) R (send_reply a v r)" using reply_ok [OF Cons.prems m] by simp
  from Cons.IH [OF this] show ?case by (simp add: reply_frame [OF owed_reply(2,1) [OF o m], of v])
qed simp

subsection \<open>Mutex sections\<close>

text \<open>
  \<open>S\<close> are the writes handed to the transport: with the queue they are in the order of acceptance. A closed
  client holds no write and owes no reply.
\<close>

definition client_ok :: "(nat \<times> rpc_reply) list \<Rightarrow> nat list \<Rightarrow> nat list \<Rightarrow> rpc \<Rightarrow> bool" where
  "client_ok D R S r \<longleftrightarrow> rpc_ok D R r \<and> queue_ok r \<and> (r_closedErr r \<noteq> None \<longrightarrow> r_pending r = [] \<and> r_writes r = []) \<and>
     sorted_wrt (<) (S @ r_queue r) \<and> set S \<subseteq> {..<length (r_heap r)}"

definition quiet :: "rpc \<Rightarrow> rpc \<Rightarrow> bool" where
  "quiet r r' \<longleftrightarrow> set (r_pending r') \<subseteq> set (r_pending r) \<and> r_nextId r' = r_nextId r \<and> map w_key (r_heap r') = map w_key (r_heap r)"

lemma client_okD:
  assumes "client_ok D R S r"
  shows "rpc_ok D R r" "held_ok r" "owed_ok D R r" "\<not> r_blocked r" "queue_ok r" "sorted_wrt (<) (S @ r_queue r)"
    "set S \<subseteq> {..<length (r_heap r)}" "r_closedErr r \<noteq> None \<Longrightarrow> r_pending r = [] \<and> r_writes r = []"
  using assms by (simp_all add: client_ok_def rpc_ok_def)

lemma queue_okD:
  assumes "queue_ok r" "a \<in> set (r_queue r)"
  shows "a \<in> set (r_writes r)" "w_state (r_heap r ! a) = rpcQueued"
  using assms by (simp_all add: queue_ok_def)

lemma finish_client:
  assumes "client_ok D R S r" "a \<notin> set (r_queue r)"
  shows "client_ok D R S (finishWriteLocked a err r)" "quiet r (finishWriteLocked a err r)"
proof -
  note c = client_okD [OF assms(1)] and f = finish_frame [OF client_okD(2) [OF assms(1)], of a err]
  have "queue_ok (finishWriteLocked a err r)"
    unfolding queue_ok_def f(2,7)
  proof
    fix b assume b: "b \<in> set (r_queue r)"
    with assms(2) have "b \<noteq> a" by blast
    with queue_okD [OF c(5) b] show "b \<in> set (removeAll a (r_writes r)) \<and> w_state (r_heap (finishWriteLocked a err r) ! b) = rpcQueued"
      by (simp add: finish_other [OF c(2)])
  qed
  moreover have "r_writes (finishWriteLocked a err r) = []" if "r_writes r = []" using that f(7) by simp
  ultimately show "client_ok D R S (finishWriteLocked a err r)"
    using finish_ok [OF c(1), of a err] c(6-8) unfolding client_ok_def by (simp add: f)
  show "quiet r (finishWriteLocked a err r)" by (simp add: quiet_def f)
qed

lemma take_client:
  assumes "client_ok D R S r" "map_of (r_pending r) key = Some a"
  shows "client_ok ((a, v) # D) R S (r\<lparr>r_pending := delete_key key (r_pending r)\<rparr>)"
proof -
  note c = client_okD [OF assms(1)]
  let ?r = "r\<lparr>r_pending := delete_key key (r_pending r)\<rparr>"
  have "held_ok ?r" by (rule held_frame [OF c(2)]) simp_all
  moreover have "queue_ok ?r" using c(5) by (simp add: queue_ok_def)
  moreover have "r_closedErr r = None" using c(8) assms(2) by (cases "r_closedErr r") auto
  ultimately show ?thesis using owed_take [OF c(3) assms(2), of v] c(4,6,7) by (simp add: client_ok_def rpc_ok_def)
qed

lemma reply_client:
  assumes "client_ok D R S r" "(a, v) \<in> set D"
  shows "client_ok (remove1 (a, v) D) R S (send_reply a v r)" "quiet r (send_reply a v r)"
proof -
  note c = client_okD [OF assms(1)]
  note f = reply_frame [OF owed_reply(2,1) [OF c(3) assms(2)], of v]
  have "queue_ok (send_reply a v r)" using c(5) by (simp add: queue_ok_def f)
  then show "client_ok (remove1 (a, v) D) R S (send_reply a v r)"
    using reply_ok [OF c(1) assms(2)] c(6-8) by (simp add: client_ok_def f)
  show "quiet r (send_reply a v r)" by (simp add: quiet_def f)
qed

text \<open>A reply moves from owed to delivered in one section of \<open>expire\<close>.\<close>

lemma settle_client:
  assumes "client_ok D R S r" "map_of (r_pending r) key = Some a"
  shows "client_ok D R S (send_reply a v (r\<lparr>r_pending := delete_key key (r_pending r)\<rparr>))"
    "quiet r (send_reply a v (r\<lparr>r_pending := delete_key key (r_pending r)\<rparr>))"
proof -
  note r = reply_client [OF take_client [OF assms, of v], of a v]
  from r(1) show "client_ok D R S (send_reply a v (r\<lparr>r_pending := delete_key key (r_pending r)\<rparr>))" by simp
  from r(2) show "quiet r (send_reply a v (r\<lparr>r_pending := delete_key key (r_pending r)\<rparr>))"
    by (simp add: quiet_def set_delete_key subset_iff)
qed

lemma sorted_remove1: "sorted_wrt (<) q \<Longrightarrow> sorted_wrt (<) (remove1 (a :: nat) q)"
  by (induction q) (auto dest: subsetD [OF set_remove1_subset])

lemma sorted_append_remove: "sorted_wrt (<) (S @ q) \<Longrightarrow> sorted_wrt (<) (S @ remove1 (a :: nat) q)"
  using set_remove1_subset [of a q] by (auto simp: sorted_wrt_append sorted_remove1)

lemma unqueue_client:
  assumes "client_ok D R S r"
  shows "client_ok D R S (r\<lparr>r_queue := remove1 a (r_queue r)\<rparr>)" "a \<notin> set (remove1 a (r_queue r))"
proof -
  note c = client_okD [OF assms]
  let ?r = "r\<lparr>r_queue := remove1 a (r_queue r)\<rparr>"
  have "held_ok ?r" by (rule held_frame [OF c(2)]) simp_all
  moreover have "owed_ok D R ?r" by (rule owed_frame [OF c(3)]) simp_all
  moreover have "queue_ok ?r" using c(5) set_remove1_subset [of a "r_queue r"] by (auto simp: queue_ok_def)
  ultimately show "client_ok D R S ?r" using c(4,7,8) sorted_append_remove [OF c(6)] by (simp add: client_ok_def rpc_ok_def)
  have "distinct (r_queue r)" using c(6) by (simp add: strict_sorted_iff sorted_wrt_append)
  then show "a \<notin> set (remove1 a (r_queue r))" by simp
qed

lemma quiet_refl: "quiet r r"
  by (simp add: quiet_def)

lemma quiet_trans: "quiet r s \<Longrightarrow> quiet s t \<Longrightarrow> quiet r t"
  by (auto simp: quiet_def)

lemma drop_queued_client:
  assumes "client_ok D R S r"
  shows "client_ok D R S (finishWriteLocked a err (r\<lparr>r_queue := remove1 a (r_queue r)\<rparr>)) \<and>
    quiet r (finishWriteLocked a err (r\<lparr>r_queue := remove1 a (r_queue r)\<rparr>))"
  using finish_client [OF unqueue_client(1) [OF assms, of a], of a err] unqueue_client(2) [OF assms, of a] by (simp add: quiet_def)

lemma expire_client:
  assumes "client_ok D R S r"
  shows "client_ok D R S (fst (expire a cause r)) \<and> quiet r (fst (expire a cause r))"
proof -
  let ?k = "w_key (r_heap r ! a)"
  have last: "client_ok D R S (if w_state (r_heap s ! a) = rpcQueued then finishWriteLocked a (Some cause) (s\<lparr>r_queue := remove1 a (r_queue s)\<rparr>) else s) \<and>
    quiet r (if w_state (r_heap s ! a) = rpcQueued then finishWriteLocked a (Some cause) (s\<lparr>r_queue := remove1 a (r_queue s)\<rparr>) else s)"
    if "client_ok D R S s" "quiet r s" for s
    using drop_queued_client [OF that(1), of a "Some cause"] that quiet_trans [OF that(2)] by (cases "w_state (r_heap s ! a) = rpcQueued") simp_all
  show ?thesis
  proof (cases "?k = []")
    case True
    then have "fst (expire a cause r) = (if w_state (r_heap r ! a) = rpcQueued then finishWriteLocked a (Some cause) (r\<lparr>r_queue := remove1 a (r_queue r)\<rparr>) else r)"
      by (simp add: expire_def Let_def split: option.split)
    then show ?thesis using last [OF assms quiet_refl] by simp
  next
    case key: False
    show ?thesis
    proof (cases "map_of (r_pending r) ?k")
      case None
      then show ?thesis using key assms by (simp add: expire_def quiet_def)
    next
      case (Some b)
      then show ?thesis using key last [OF settle_client [OF assms Some]] by (simp add: expire_def Let_def)
    qed
  qed
qed

lemma tagged_once: "distinct as \<Longrightarrow> length (filter (\<lambda>x. fst x = a) (map (\<lambda>b. (b, v)) as)) = (if a \<in> set as then 1 else 0)"
  by (induction as) (auto simp: filter_map o_def)

lemma close_client:
  assumes "client_ok D R S r"
  shows "client_ok D R S (CloseWithError cause r) \<and> quiet r (CloseWithError cause r) \<and> r_closedErr (CloseWithError cause r) \<noteq> None"
proof (cases "r_closedErr r")
  case (Some e)
  then show ?thesis using assms by (simp add: CloseWithError_def quiet_refl)
next
  case None
  note c = client_okD [OF assms]
  let ?v = "RFailed cause" and ?as = "map snd (r_pending r)" and ?r = "r\<lparr>r_closedErr := Some cause, r_pending := []\<rparr>"
  have "owed_ok (map (\<lambda>a. (a, ?v)) ?as @ D) R ?r"
  proof -
    note o = c(3) [unfolded owed_ok_def]
    have "length (filter (\<lambda>x. fst x = a) (map (\<lambda>a. (a, ?v)) ?as)) = (if a \<in> snd ` set (r_pending r) then 1 else 0)" for a
      using tagged_once [of ?as a ?v] o by simp
    then have "replies (map (\<lambda>a. (a, ?v)) ?as @ D) ?r a = replies D r a" for a by (simp add: replies_def)
    moreover have "fst ` set (map (\<lambda>a. (a, ?v)) ?as @ D) \<subseteq> set R" using o by auto
    ultimately show ?thesis using o by (simp add: owed_ok_def)
  qed
  moreover have "held_ok ?r" by (rule held_frame [OF c(2)]) simp_all
  ultimately have ok: "rpc_ok (map (\<lambda>a. (a, ?v)) ?as @ D) R ?r" using c(4) by (simp add: rpc_ok_def)
  define s where "s = foldl (\<lambda>r a. send_reply a ?v r) ?r ?as"
  note s = reply_all_ok [OF ok, folded s_def]
  define t where "t = foldl (\<lambda>r a. finishWriteLocked a (Some cause) r) s (r_writes s)"
  have t: "rpc_ok D R t" "r_writes t = []" "r_pending t = []" "r_closedErr t = Some cause" "r_nextId t = r_nextId r" "map w_key (r_heap t) = map w_key (r_heap r)"
    using finish_all_ok [of D R s "Some cause" "r_writes s", folded t_def] s by (simp_all add: filter_False)
  have len: "length (r_heap t) = length (r_heap r)" using arg_cong [OF t(6), of length] by simp
  have "r_queuedBytes t = 0" using t(1,2) by (simp add: rpc_ok_def held_ok_def bytes_of_def)
  moreover have close: "CloseWithError cause r = t\<lparr>r_queue := [], r_queuedBytes := 0\<rparr>"
    using None by (simp add: CloseWithError_def Let_def t_def s_def)
  moreover have "held_ok (t\<lparr>r_queue := [], r_queuedBytes := 0\<rparr>)"
    by (rule held_frame [of t]) (use t(1) calculation(1) in \<open>simp_all add: rpc_ok_def\<close>)
  moreover have "owed_ok D R (t\<lparr>r_queue := [], r_queuedBytes := 0\<rparr>)"
    by (rule owed_frame [of D R t]) (use t(1) in \<open>simp_all add: rpc_ok_def\<close>)
  moreover have "sorted_wrt (<) S" using c(6) by (simp add: sorted_wrt_append)
  ultimately show ?thesis using t len c(7) by (simp add: client_ok_def rpc_ok_def queue_ok_def quiet_def)
qed

lemma enqueue_accepts:
  assumes "enqueue encoded now deadline key reply r = Inr (a, r')"
  shows "r_closedErr r = None" "length (r_writes r) < maxRPCWrites" "reply \<Longrightarrow> length (r_pending r) < maxRPCWrites"
    "r_queuedBytes r + int (length encoded) \<le> maxRPCQueuedBytes" "a = length (r_heap r)"
    "r' = r\<lparr>r_heap := r_heap r @ [\<lparr>w_data = encoded, w_deadline = deadline, w_key = key, w_state = rpcQueued, w_result = [], w_reply = []\<rparr>],
       r_writes := a # r_writes r, r_queue := r_queue r @ [a], r_queuedBytes := r_queuedBytes r + int (length encoded),
       r_pending := (if reply then (key, a) # delete_key key (r_pending r) else r_pending r)\<rparr>"
  using assms by (auto simp: enqueue_def Let_def split: option.splits if_splits)

lemma enqueue_held:
  assumes "held_ok r" "enqueue encoded now deadline key reply r = Inr (a, r')"
  shows "held_ok r'"
proof -
  note e = enqueue_accepts [OF assms(2)] and h = held_okD [OF assms(1)]
  have old: "r_heap r' ! b = r_heap r ! b" if "b < length (r_heap r)" for b using that by (simp add: e(6) nth_append)
  have "bytes_of r' (r_writes r) = bytes_of r (r_writes r)" by (rule bytes_cong) (simp add: old h(2))
  then have "r_queuedBytes r' = bytes_of r' (r_writes r')" using h(4) by (simp add: e(5,6) bytes_of_def)
  moreover have "write_ok r' b" if "b < length (r_heap r')" for b
  proof (cases "b = a")
    case True
    then show ?thesis by (simp add: write_ok_def e(5,6))
  next
    case False
    then have "b < length (r_heap r)" using that e(5) by (simp add: e(6))
    then show ?thesis using h(3) [of b] False old [of b] by (simp add: write_ok_def e(6) split: if_splits)
  qed
  moreover have "a \<notin> set (r_writes r)" using h(2) [of a] e(5) by blast
  moreover have "set (r_writes r') \<subseteq> {..<length (r_heap r')}" using h(2) e(5) by (auto simp: e(6) less_Suc_eq)
  ultimately show ?thesis using h(1) e(2,4) unfolding held_ok_def by (simp add: e(6))
qed

lemma enqueue_owed:
  assumes "owed_ok D R r" "enqueue encoded now deadline key reply r = Inr (a, r')" "reply \<Longrightarrow> key \<notin> fst ` set (r_pending r)"
  shows "owed_ok D (if reply then a # R else R) r'"
proof -
  note e = enqueue_accepts [OF assms(2)] and o = assms(1) [unfolded owed_ok_def]
  have pend: "r_pending r' = (if reply then (key, a) # r_pending r else r_pending r)"
    using assms(3) by (simp add: e(6) delete_absent)
  have fresh: "a \<notin> set R" using o e(5) by auto
  have none: "filter (\<lambda>x. fst x = a) D = []" using o fresh by (force simp: filter_empty_conv)
  have "replies D r' b = replies D r b" if "b \<in> set R" for b
  proof -
    have "b < length (r_heap r)" using o that by auto
    then have "r_heap r' ! b = r_heap r ! b" by (simp add: e(6) nth_append)
    then show ?thesis using that fresh by (auto simp: replies_def pend)
  qed
  moreover have "replies D r' a = 1" if reply using that none e(5) by (simp add: replies_def pend) (simp add: e(6))
  moreover have "a \<notin> snd ` set (r_pending r)" using o fresh by blast
  moreover have "length (r_heap r') = Suc (length (r_heap r))" by (simp add: e(6))
  moreover have "set R \<subseteq> {..<Suc (length (r_heap r))}" using o by (auto simp: less_Suc_eq)
  moreover have "snd ` set (r_pending r) \<subseteq> insert a (set R)" "fst ` set D \<subseteq> insert a (set R)" using o by blast+
  ultimately show ?thesis using o assms(3) e(3,5) unfolding owed_ok_def pend by (cases reply) simp_all
qed

lemma enqueue_client:
  assumes "client_ok D R S r" "enqueue encoded now deadline key reply r = Inr (a, r')" "reply \<Longrightarrow> key \<notin> fst ` set (r_pending r)"
  shows "client_ok D (if reply then a # R else R) S r'"
proof -
  note c = client_okD [OF assms(1)] and e = enqueue_accepts [OF assms(2)]
  have q: "b < length (r_heap r)" if "b \<in> set (r_queue r)" for b using held_okD(2) [OF c(2) queue_okD(1) [OF c(5) that]] .
  have "queue_ok r'"
    using queue_okD [OF c(5)] q e(5) by (auto simp: queue_ok_def e(6) nth_append)
  moreover have "sorted_wrt (<) ((S @ r_queue r) @ [a])"
    using c(6,7) q e(5) unfolding sorted_wrt_append [of _ "S @ r_queue r"] by auto
  moreover have "set S \<subseteq> {..<length (r_heap r')}" using c(7) by (auto simp: e(6) less_Suc_eq)
  moreover have "r_closedErr r' = None" "\<not> r_blocked r'" "r_queue r' = r_queue r @ [a]" using e(1) c(4) by (simp_all add: e(6))
  ultimately show ?thesis
    using enqueue_held [OF c(2) assms(2)] enqueue_owed [OF c(3) assms(2,3)] by (simp add: client_ok_def rpc_ok_def)
qed

lemma dequeue_client:
  assumes "client_ok D R S r" "r_queue r = a # rest"
  shows "client_ok D R S (r\<lparr>r_queue := rest\<rparr>)"
  using unqueue_client(1) [OF assms(1), of a] assms(2) by simp

lemma start_write_client:
  assumes "client_ok D R S r" "r_queue r = a # rest"
  shows "client_ok D R (S @ [a]) (upd_write a (\<lambda>w. w\<lparr>w_state := rpcWriting\<rparr>) (r\<lparr>r_queue := rest\<rparr>))"
proof -
  note c = client_okD [OF assms(1)]
  let ?r = "upd_write a (\<lambda>w. w\<lparr>w_state := rpcWriting\<rparr>) (r\<lparr>r_queue := rest\<rparr>)"
  have a: "a \<in> set (r_writes r)" using queue_okD(1) [OF c(5), of a] assms(2) by simp
  note len = held_okD(2) [OF c(2) a]
  have data: "w_data (r_heap ?r ! b) = w_data (r_heap r ! b)" and res: "w_result (r_heap ?r ! b) = w_result (r_heap r ! b)" for b
    using len by (cases "b = a"; simp add: upd_write_def)+
  have st: "w_state (r_heap ?r ! b) = (if b = a then rpcWriting else w_state (r_heap r ! b))" for b
    using len by (simp add: upd_write_def)
  have "write_ok ?r b" if "b < length (r_heap r)" for b
    using held_okD(3) [OF c(2) that] held_result [OF c(2) a] a unfolding write_ok_def data res st
    by (simp add: upd_write_def split: if_splits)
  moreover have "bytes_of ?r (r_writes r) = bytes_of r (r_writes r)" by (rule bytes_cong) (rule data)
  ultimately have "held_ok ?r" using c(2) unfolding held_ok_def by (simp add: upd_write_def)
  moreover have "owed_ok D R ?r" by (rule owed_frame [OF c(3)]) (simp_all add: upd_write_def map_update_same len)
  moreover have "a \<notin> set rest" using c(6) assms(2) by (auto simp: sorted_wrt_append)
  then have "queue_ok ?r" using queue_okD [OF c(5)] assms(2) unfolding queue_ok_def st by (auto simp: upd_write_def)
  moreover have "sorted_wrt (<) ((S @ [a]) @ r_queue ?r)" using c(6) assms(2) by (simp add: upd_write_def)
  ultimately show ?thesis using c(4,7,8) len by (simp add: client_ok_def rpc_ok_def upd_write_def)
qed

subsection \<open>Every interleaving\<close>

text \<open>Keys of outstanding requests come from distinct identities, all allocated and none still to be enqueued.\<close>

definition keys_ok :: "rpc_config \<Rightarrow> bool" where
  "keys_ok c \<longleftrightarrow> r_nextId (c_rpc c) = of_nat (c_count c) \<and> set (c_alloc c) \<subseteq> {1..c_count c} \<and>
     fst ` set (r_pending (c_rpc c)) \<subseteq> (\<lambda>j. request_key (of_nat j)) ` ({1..c_count c} - set (c_alloc c)) \<and>
     (\<forall>(k, a) \<in> set (r_pending (c_rpc c)). a < length (r_heap (c_rpc c)) \<and> w_key (r_heap (c_rpc c) ! a) = k)"

definition config_ok :: "rpc_config \<Rightarrow> bool" where
  "config_ok c \<longleftrightarrow> client_ok (c_deliver c) (c_requests c) (c_sent c) (c_rpc c) \<and> keys_ok c \<and>
     (\<forall>a. c_writer c = WriterWriting a \<longrightarrow> a \<in> set (c_sent c))"

definition rpc_inv :: "rpc_config \<Rightarrow> bool" where
  "rpc_inv c \<longleftrightarrow> (c_count c < 2 ^ 64 \<longrightarrow> config_ok c)"

lemma FormatInt_inj: "FormatInt m = FormatInt n \<Longrightarrow> m = n"
proof -
  have digit: "FormatUint k \<noteq> CHR ''-'' # s" for k s using FormatUint_digits [of k] by (auto simp: is_digit_def)
  assume "FormatInt m = FormatInt n"
  then show "m = n" using digit digit [symmetric] by (auto simp: FormatInt_def split: if_splits)
qed

lemma request_key_inj:
  assumes "request_key i = request_key j"
  shows "i = j"
proof -
  have "FormatInt (sint i) = FormatInt (sint j)" using assms by (simp add: request_key_def)
  from signed_word_eqI [OF FormatInt_inj [OF this]] show ?thesis .
qed

lemma fresh_key:
  assumes "keys_ok c" "c_count c < 2 ^ 64" "j \<in> set (c_alloc c)"
  shows "request_key (of_nat j) \<notin> fst ` set (r_pending (c_rpc c))"
proof
  assume "request_key (of_nat j) \<in> fst ` set (r_pending (c_rpc c))"
  then obtain k where k: "k \<in> {1..c_count c} - set (c_alloc c)" "request_key (of_nat j :: 64 word) = request_key (of_nat k)"
    using assms(1) unfolding keys_ok_def by blast
  have "j \<le> c_count c" using assms(1,3) unfolding keys_ok_def by (meson atLeastAtMost_iff subset_iff)
  then have "j < 2 ^ 64" "k < 2 ^ 64" using k(1) assms(2) by auto
  moreover have "unat (of_nat j :: 64 word) = unat (of_nat k :: 64 word)" using request_key_inj [OF k(2)] by simp
  ultimately have "j = k" by (simp add: unat_of_nat)
  then show False using k(1) assms(3) by blast
qed

lemma keys_quiet:
  assumes "keys_ok c" "quiet (c_rpc c) r" "set (c_alloc c') \<subseteq> set (c_alloc c)" "c_rpc c' = r" "c_count c' = c_count c"
  shows "keys_ok c'"
proof -
  note k = assms(1) [unfolded keys_ok_def] and q = assms(2) [unfolded quiet_def]
  have "fst ` set (r_pending r) \<subseteq> fst ` set (r_pending (c_rpc c))" using q by (intro image_mono) simp
  also have "\<dots> \<subseteq> (\<lambda>j. request_key (of_nat j)) ` ({1..c_count c} - set (c_alloc c))" using k by blast
  also have "\<dots> \<subseteq> (\<lambda>j. request_key (of_nat j)) ` ({1..c_count c} - set (c_alloc c'))" using assms(3) by (intro image_mono) blast
  finally have keys: "fst ` set (r_pending r) \<subseteq> (\<lambda>j. request_key (of_nat j)) ` ({1..c_count c} - set (c_alloc c'))" .
  have "a < length (r_heap r) \<and> w_key (r_heap r ! a) = k" if "(k, a) \<in> set (r_pending r)" for k a
  proof -
    have "(k, a) \<in> set (r_pending (c_rpc c))" using that q by blast
    then have a: "a < length (r_heap (c_rpc c))" "w_key (r_heap (c_rpc c) ! a) = k" using k by blast+
    have m: "map w_key (r_heap r) = map w_key (r_heap (c_rpc c))" using q by simp
    with a(1) have "a < length (r_heap r)" by (metis length_map)
    with a m show ?thesis by (metis nth_map)
  qed
  then have each: "\<forall>(k, a) \<in> set (r_pending r). a < length (r_heap r) \<and> w_key (r_heap r ! a) = k" by blast
  have "r_nextId r = of_nat (c_count c)" using q k by simp
  moreover have "set (c_alloc c') \<subseteq> {1..c_count c}" using k assms(3) by blast
  ultimately show ?thesis unfolding keys_ok_def assms(4,5) using keys each by (intro conjI)
qed

lemma config_quiet:
  assumes "config_ok c" "client_ok (c_deliver c') (c_requests c') (c_sent c') (c_rpc c')" "quiet (c_rpc c) (c_rpc c')"
    "set (c_alloc c') \<subseteq> set (c_alloc c)" "c_count c' = c_count c" "\<And>a. c_writer c' = WriterWriting a \<Longrightarrow> a \<in> set (c_sent c')"
  shows "config_ok c'"
  using assms keys_quiet [of c "c_rpc c'" c'] unfolding config_ok_def by blast

lemma config_okD:
  assumes "config_ok c"
  shows "client_ok (c_deliver c) (c_requests c) (c_sent c) (c_rpc c)" "keys_ok c" "c_writer c = WriterWriting a \<Longrightarrow> a \<in> set (c_sent c)"
  using assms by (auto simp: config_ok_def)

lemma client_nextId: "client_ok D R S (r\<lparr>r_nextId := i\<rparr>) = client_ok D R S r"
  unfolding client_ok_def rpc_ok_def held_ok_def owed_ok_def queue_ok_def write_ok_def bytes_of_def replies_def by simp

lemma config_alloc:
  assumes "config_ok c" "next_id (c_rpc c) = Inr (i, r)"
  shows "config_ok (c\<lparr>c_rpc := r, c_count := Suc (c_count c), c_alloc := Suc (c_count c) # c_alloc c\<rparr>)"
proof -
  have r: "r = (c_rpc c)\<lparr>r_nextId := r_nextId (c_rpc c) + 1\<rparr>" using assms(2) by (auto simp: next_id_def Let_def split: option.splits)
  note k = config_okD(2) [OF assms(1), unfolded keys_ok_def]
  have "{1..Suc (c_count c)} - insert (Suc (c_count c)) (set (c_alloc c)) = {1..c_count c} - set (c_alloc c)"
    by (auto simp: le_Suc_eq)
  moreover have "set (c_alloc c) \<subseteq> {1..Suc (c_count c)}" using k by (auto intro: order_trans [OF _ atLeastatMost_subset_iff [THEN iffD2]])
  ultimately have "keys_ok (c\<lparr>c_rpc := r, c_count := Suc (c_count c), c_alloc := Suc (c_count c) # c_alloc c\<rparr>)"
    using k by (simp add: keys_ok_def r add.commute)
  then show ?thesis using config_okD(1,3) [OF assms(1)] by (simp add: config_ok_def r client_nextId)
qed

lemma config_request:
  assumes "config_ok c" "c_count c < 2 ^ 64" "j \<in> set (c_alloc c)"
    "enqueue encoded now deadline (request_key (of_nat j)) True (c_rpc c) = Inr (a, r)"
  shows "config_ok (c\<lparr>c_rpc := r, c_alloc := removeAll j (c_alloc c), c_requests := a # c_requests c\<rparr>)"
proof -
  note k = config_okD(2) [OF assms(1)] and e = enqueue_accepts [OF assms(4)]
  have fresh: "request_key (of_nat j) \<notin> fst ` set (r_pending (c_rpc c))" by (rule fresh_key [OF k assms(2,3)])
  have ok: "client_ok (c_deliver c) (a # c_requests c) (c_sent c) r"
    using enqueue_client [OF config_okD(1) [OF assms(1)] assms(4)] fresh by simp
  have pend: "r_pending r = (request_key (of_nat j), a) # r_pending (c_rpc c)" using fresh by (simp add: e(6) delete_absent)
  have j: "j \<in> {1..c_count c}" using k assms(3) unfolding keys_ok_def by (meson subsetD)
  have sub: "{1..c_count c} - set (c_alloc c) \<subseteq> {1..c_count c} - (set (c_alloc c) - {j})" by blast
  have "fst ` set (r_pending r) \<subseteq> (\<lambda>j. request_key (of_nat j)) ` ({1..c_count c} - (set (c_alloc c) - {j}))"
    using k image_mono [OF sub] j unfolding pend keys_ok_def by auto
  moreover have "a' < length (r_heap r) \<and> w_key (r_heap r ! a') = key" if "(key, a') \<in> set (r_pending r)" for key a'
  proof (cases "(key, a') \<in> set (r_pending (c_rpc c))")
    case True
    then have "a' < length (r_heap (c_rpc c)) \<and> w_key (r_heap (c_rpc c) ! a') = key" using k unfolding keys_ok_def by blast
    then show ?thesis by (simp add: e(6) nth_append)
  next
    case False
    then have "key = request_key (of_nat j)" "a' = a" using that pend by auto
    then show ?thesis using e(5) by (simp add: e(6))
  qed
  moreover have "r_nextId r = r_nextId (c_rpc c)" by (simp add: e(6))
  ultimately have "keys_ok (c\<lparr>c_rpc := r, c_alloc := removeAll j (c_alloc c), c_requests := a # c_requests c\<rparr>)"
    using k unfolding keys_ok_def by auto
  then show ?thesis using ok config_okD(3) [OF assms(1)] by (simp add: config_ok_def)
qed

lemma config_send:
  assumes "config_ok c" "enqueue encoded now deadline [] False (c_rpc c) = Inr (a, r)"
  shows "config_ok (c\<lparr>c_rpc := r\<rparr>)"
proof -
  note k = config_okD(2) [OF assms(1)] and e = enqueue_accepts [OF assms(2)]
  have "client_ok (c_deliver c) (c_requests c) (c_sent c) r" using enqueue_client [OF config_okD(1) [OF assms(1)] assms(2)] by simp
  moreover have "keys_ok (c\<lparr>c_rpc := r\<rparr>)" using k unfolding keys_ok_def by (auto simp: e(6) nth_append)
  ultimately show ?thesis using config_okD(3) [OF assms(1)] by (simp add: config_ok_def)
qed

lemma config_expire: "config_ok c \<Longrightarrow> config_ok (after_expire a cause c)"
  using config_quiet [of c "after_expire a cause c"] expire_client [OF config_okD(1), of c a cause] config_okD(3) [of c]
  by (simp add: after_expire_def case_prod_unfold Let_def)

lemma config_idle: "config_ok c \<Longrightarrow> (\<And>a. w \<noteq> WriterWriting a) \<Longrightarrow> config_ok (c\<lparr>c_writer := w\<rparr>)"
  by (simp add: config_ok_def keys_ok_def)

lemma config_close: "config_ok c \<Longrightarrow> config_ok (c\<lparr>c_rpc := CloseWithError cause (c_rpc c), c_closing := xs\<rparr>)"
  using config_quiet [of c "c\<lparr>c_rpc := CloseWithError cause (c_rpc c), c_closing := xs\<rparr>"] close_client [OF config_okD(1), of c cause] config_okD(3) [of c]
  by simp

lemma config_answer:
  assumes "config_ok c" "take_pending key (c_rpc c) = (Some a, r)"
  shows "config_ok (c\<lparr>c_rpc := r, c_deliver := (a, v) # c_deliver c\<rparr>)"
proof -
  have r: "map_of (r_pending (c_rpc c)) key = Some a" "r = (c_rpc c)\<lparr>r_pending := delete_key key (r_pending (c_rpc c))\<rparr>"
    using assms(2) by (auto simp: take_pending_def)
  have "quiet (c_rpc c) r" by (auto simp: r(2) quiet_def set_delete_key)
  then show ?thesis
    by (intro config_quiet [OF assms(1)]) (use take_client [OF config_okD(1) [OF assms(1)] r(1)] config_okD(3) [OF assms(1)] in \<open>simp_all add: r(2)\<close>)
qed

lemma config_unknown:
  assumes "config_ok c" "take_pending key (c_rpc c) = (None, r)"
  shows "config_ok (c\<lparr>c_rpc := r\<rparr>)"
proof -
  have "key \<notin> fst ` set (r_pending (c_rpc c))" using assms(2) by (simp add: take_pending_def map_of_eq_None_iff)
  then have "r = c_rpc c" using assms(2) by (auto simp: take_pending_def delete_absent)
  then show ?thesis using assms(1) by simp
qed

lemma config_deliver:
  assumes "config_ok c" "(a, v) \<in> set (c_deliver c)"
  shows "config_ok (c\<lparr>c_rpc := send_reply a v (c_rpc c), c_deliver := remove1 (a, v) (c_deliver c)\<rparr>)"
  by (rule config_quiet [OF assms(1)]) (use reply_client [OF config_okD(1) [OF assms(1)] assms(2)] config_okD(3) [OF assms(1)] in simp_all)

lemma config_pick:
  assumes "config_ok c" "c_writer c = WriterIdle" "writer_pick now (c_rpc c) = (w, r)"
  shows "config_ok (c\<lparr>c_rpc := r, c_writer := w, c_sent := (case w of WriterWriting a \<Rightarrow> c_sent c @ [a] | _ \<Rightarrow> c_sent c)\<rparr>)"
proof -
  note c = config_okD(1) [OF assms(1)]
  consider "r = c_rpc c" "w = WriterDone \<or> w = WriterIdle" | a rest where "r_queue (c_rpc c) = a # rest"
      "w = WriterExpiring a \<and> r = (c_rpc c)\<lparr>r_queue := rest\<rparr> \<or>
       w = WriterWriting a \<and> r = upd_write a (\<lambda>w. w\<lparr>w_state := rpcWriting\<rparr>) ((c_rpc c)\<lparr>r_queue := rest\<rparr>)"
    using assms(3) by (auto simp: writer_pick_def Let_def split: if_splits list.splits)
  then show ?thesis
  proof cases
    case 1
    then have "config_ok (c\<lparr>c_writer := w\<rparr>)" by (intro config_idle [OF assms(1)]) auto
    then show ?thesis using 1 by (auto simp: config_ok_def keys_ok_def)
  next
    case (2 a rest)
    note len = held_okD(2) [OF client_okD(2) [OF c] queue_okD(1) [OF client_okD(5) [OF c]], of a]
    from 2(2) show ?thesis
    proof (elim disjE conjE)
      assume w: "w = WriterExpiring a" "r = (c_rpc c)\<lparr>r_queue := rest\<rparr>"
      show ?thesis by (rule config_quiet [OF assms(1)]) (use dequeue_client [OF c 2(1)] in \<open>simp_all add: w quiet_def\<close>)
    next
      assume w: "w = WriterWriting a" "r = upd_write a (\<lambda>w. w\<lparr>w_state := rpcWriting\<rparr>) ((c_rpc c)\<lparr>r_queue := rest\<rparr>)"
      have "quiet (c_rpc c) r" using len 2(1) by (simp add: w quiet_def upd_write_def map_update_same)
      then show ?thesis by (intro config_quiet [OF assms(1)]) (use start_write_client [OF c 2(1)] in \<open>simp_all add: w\<close>)
    qed
  qed
qed

lemma config_written:
  assumes "config_ok c" "c_writer c = WriterWriting a"
  shows "config_ok (c\<lparr>c_rpc := finishWriteLocked a None (c_rpc c), c_writer := WriterIdle\<rparr>)"
proof -
  note c = config_okD(1) [OF assms(1)]
  have "a \<notin> set (r_queue (c_rpc c))" using client_okD(6) [OF c] config_okD(3) [OF assms] by (auto simp: sorted_wrt_append)
  from finish_client [OF c this, of None] show ?thesis by (intro config_quiet [OF assms(1)]) simp_all
qed

lemma config_step: "rpc_step c c' \<Longrightarrow> config_ok c \<Longrightarrow> c_count c' < 2 ^ 64 \<Longrightarrow> config_ok c'"
proof (induction rule: rpc_step.induct)
  case (refused j c)
  show ?case by (rule config_quiet [OF refused(2)]) (use config_okD(1,3) [OF refused(2)] in \<open>auto simp: quiet_refl\<close>)
next
  case (close c cause)
  then show ?case using config_close [where c = c and cause = cause and xs = "c_closing c"] by simp
next
  case (pick_expired c a)
  then show ?case by (intro config_idle config_expire) simp_all
next
  case (write_failed c a cause)
  then show ?case using config_idle [OF config_close [where c = c and cause = cause and xs = "c_closing c"], of WriterDone] by simp
qed (simp_all add: config_alloc config_request config_send config_expire config_close config_answer config_unknown config_deliver
      config_pick config_written)

lemma count_mono: "rpc_step c c' \<Longrightarrow> c_count c \<le> c_count c'"
  by (induction rule: rpc_step.induct) (simp_all add: after_expire_def case_prod_unfold Let_def)

lemma config_start: "config_ok rpc_start"
  by (simp add: config_ok_def client_ok_def rpc_ok_def held_ok_def owed_ok_def queue_ok_def keys_ok_def rpc_start_def NewRpc_def
      bytes_of_def maxRPCQueuedBytes_def)

interpretation rpc_system: invariant_system "\<lambda>c. c = rpc_start" rpc_step rpc_inv
  by unfold_locales (auto simp: rpc_inv_def config_start intro: config_step dest: le_less_trans [OF count_mono])

lemma reached_ok: "rpc_step\<^sup>*\<^sup>* rpc_start c \<Longrightarrow> c_count c < 2 ^ 64 \<Longrightarrow> config_ok c"
  using rpc_system.inv_steps [of rpc_start c] rpc_system.inv_start [of rpc_start] by (simp add: rpc_inv_def)

subsection \<open>Properties\<close>

text \<open>
  C14. In every interleaving of callers, reader, writer, expiries and closures each accepted request has
  exactly one reply: owed, in delivery, or in its channel. No send of a reply or of a result finds its
  channel full, so none blocks while it holds the lock; a closed client owes nothing and holds no write.
\<close>

theorem requests_settle_once:
  assumes "rpc_step\<^sup>*\<^sup>* rpc_start c" "c_count c < 2 ^ 64"
  shows "(\<forall>a \<in> set (c_requests c). replies (c_deliver c) (c_rpc c) a = 1) \<and> \<not> r_blocked (c_rpc c) \<and>
    (r_closedErr (c_rpc c) \<noteq> None \<longrightarrow> r_pending (c_rpc c) = [] \<and> r_writes (c_rpc c) = [] \<and> r_queue (c_rpc c) = [])"
proof -
  note c = client_okD [OF config_okD(1) [OF reached_ok [OF assms]]]
  have "r_queue (c_rpc c) = []" if "r_writes (c_rpc c) = []"
    using that queue_okD(1) [OF c(5)] by (cases "r_queue (c_rpc c)") auto
  then show ?thesis using c(3,4,8) by (simp add: owed_ok_def)
qed

definition one_asked :: rpc_config where
  "one_asked = rpc_start\<lparr>c_rpc := NewRpc\<lparr>r_nextId := 1\<rparr>, c_count := 1, c_alloc := [1]\<rparr>"

definition one_accepted :: rpc_config where
  "one_accepted = one_asked\<lparr>c_rpc := snd (projr (enqueue ''{}'' 0 30 (request_key 1) True (c_rpc one_asked))), c_alloc := [], c_requests := [0]\<rparr>"

lemma one_accepted_fields:
  "enqueue ''{}'' 0 30 (request_key (of_nat 1)) True (c_rpc one_asked) = Inr (0, c_rpc one_accepted)" "c_count one_accepted = 1"
  "c_requests one_accepted = [0]" "c_deliver one_accepted = []" "c_sent one_accepted = []" "r_writes (c_rpc one_accepted) = [0]"
  "r_queue (c_rpc one_accepted) = [0]" "r_queuedBytes (c_rpc one_accepted) = 2" "length (r_heap (c_rpc one_accepted)) = 1"
  by (simp_all add: one_accepted_def one_asked_def rpc_start_def NewRpc_def enqueue_def maxRPCWrites_def maxRPCQueuedBytes_def Let_def delete_key_def)

lemma one_accepted_reached: "rpc_step\<^sup>*\<^sup>* rpc_start one_accepted"
proof -
  have "rpc_step rpc_start one_asked"
    using rpc_step.alloc [of rpc_start 1 "NewRpc\<lparr>r_nextId := 1\<rparr>"]
    by (simp add: next_id_def rpc_start_def NewRpc_def one_asked_def)
  moreover have "rpc_step one_asked one_accepted"
    using rpc_step.request [of 1 one_asked, OF _ one_accepted_fields(1)] by (simp add: one_accepted_def one_asked_def rpc_start_def)
  ultimately show ?thesis by (meson converse_rtranclp_into_rtranclp rtranclp.rtrancl_refl)
qed

theorem requests_settle_once_witness: "replies [] (c_rpc one_accepted) 0 = 1 \<and> \<not> r_blocked (c_rpc one_accepted)"
  using requests_settle_once [OF one_accepted_reached] by (simp add: one_accepted_fields)

text \<open>
  The write queue is bounded in writes, outstanding requests and bytes, its byte account is exactly
  the size of the held writes, every other write has exactly one result, and writes reach the transport
  in the order they were accepted.
\<close>

theorem write_queue_exact:
  assumes "rpc_step\<^sup>*\<^sup>* rpc_start c" "c_count c < 2 ^ 64"
  shows "length (r_writes (c_rpc c)) \<le> 64 \<and> length (r_pending (c_rpc c)) \<le> 64 \<and>
    0 \<le> r_queuedBytes (c_rpc c) \<and> r_queuedBytes (c_rpc c) \<le> 64 * 2 ^ 20 \<and>
    r_queuedBytes (c_rpc c) = bytes_of (c_rpc c) (r_writes (c_rpc c)) \<and>
    sorted_wrt (<) (c_sent c @ r_queue (c_rpc c)) \<and>
    (\<forall>a < length (r_heap (c_rpc c)). length (w_result (r_heap (c_rpc c) ! a)) = (if a \<in> set (r_writes (c_rpc c)) then 0 else 1))"
proof -
  note c = client_okD [OF config_okD(1) [OF reached_ok [OF assms]]]
  note h = held_okD [OF c(2)]
  have "length (w_result (r_heap (c_rpc c) ! a)) = (if a \<in> set (r_writes (c_rpc c)) then 0 else 1)" if "a < length (r_heap (c_rpc c))" for a
    using h(3) [OF that] by (simp add: write_ok_def split: if_splits)
  moreover have "0 \<le> r_queuedBytes (c_rpc c)" unfolding h(4) by (rule bytes_nonneg)
  moreover have "length (r_pending (c_rpc c)) \<le> 64" using c(3) by (simp add: owed_ok_def maxRPCWrites_def)
  ultimately show ?thesis using h(4-6) c(6) by (simp add: maxRPCWrites_def maxRPCQueuedBytes_def)
qed

theorem write_queue_exact_witness:
  "rpc_step\<^sup>*\<^sup>* rpc_start one_accepted \<and> 0 \<le> r_queuedBytes (c_rpc one_accepted) \<and> r_queuedBytes (c_rpc one_accepted) \<le> 64 * 2 ^ 20"
  using write_queue_exact [OF one_accepted_reached] one_accepted_reached by (simp add: one_accepted_fields)

lemma pending_unchanged: "r_pending (send_reply a v r) = r_pending r" "r_pending (finishWriteLocked a err r) = r_pending r"
  by (simp_all add: send_reply_def finishWriteLocked_def send_result_def upd_write_def Let_def)

lemma expire_pending: "w_key (r_heap r ! a) \<noteq> [] \<Longrightarrow> w_key (r_heap r ! a) \<notin> fst ` set (r_pending (fst (expire a cause r)))"
  by (auto simp: expire_def Let_def pending_unchanged set_delete_key map_of_eq_None_iff split: option.split)

lemma expire_owes_nothing:
  assumes "config_ok c"
  shows "a \<notin> snd ` set (r_pending (fst (expire a cause (c_rpc c))))"
proof
  let ?r = "fst (expire a cause (c_rpc c))"
  assume "a \<in> snd ` set (r_pending ?r)"
  then obtain k where k: "(k, a) \<in> set (r_pending ?r)" by auto
  note keys = config_okD(2) [OF assms, unfolded keys_ok_def]
  have "quiet (c_rpc c) ?r" using expire_client [OF config_okD(1) [OF assms], of a cause] by blast
  then have old: "(k, a) \<in> set (r_pending (c_rpc c))" using k unfolding quiet_def by blast
  then have "k \<in> fst ` set (r_pending (c_rpc c))" by force
  then have "k \<noteq> []" using keys by (auto simp: request_key_def)
  moreover have "w_key (r_heap (c_rpc c) ! a) = k" using keys old by blast
  ultimately show False using expire_pending [of "c_rpc c" a cause] k by force
qed

text \<open>An expired write without a key is finished, if need be by closing the connection.\<close>

text \<open>
  The whole call \<open>expire\<close> run alone: its section, then the closing of the connection. In \<open>rpc_step\<close> the closing is a step
  of its own, pending in \<open>c_closing\<close>.
\<close>

definition expire_and_retire :: "nat \<Rightarrow> rpc_error \<Rightarrow> rpc \<Rightarrow> rpc" where
  "expire_and_retire a cause r = (let (s, writing) = expire a cause r in if writing then CloseWithError cause s else s)"

lemma retire_finishes:
  assumes "client_ok D R S r" "a < length (r_heap r)" "w_key (r_heap r ! a) = []"
  shows "a \<notin> set (r_writes (expire_and_retire a cause r))"
proof -
  have e: "expire a cause r = (if w_state (r_heap r ! a) = rpcQueued then finishWriteLocked a (Some cause) (r\<lparr>r_queue := remove1 a (r_queue r)\<rparr>) else r,
      w_state (r_heap r ! a) = rpcWriting)"
    using assms(3) by (simp add: expire_def Let_def split: option.split)
  have w: "write_ok r a" by (rule held_okD(3) [OF client_okD(2) [OF assms(1)] assms(2)])
  show ?thesis
  proof (cases "w_state (r_heap r ! a)")
    case rpcQueued
    have "held_ok (r\<lparr>r_queue := remove1 a (r_queue r)\<rparr>)" by (rule client_okD(2) [OF unqueue_client(1) [OF assms(1)]])
    from finish_frame(7) [OF this, of a "Some cause"] rpcQueued show ?thesis by (simp add: expire_and_retire_def e)
  next
    case rpcWriting
    have close: "client_ok D R S (CloseWithError cause r)" "r_closedErr (CloseWithError cause r) \<noteq> None"
      using close_client [OF assms(1), of cause] by blast+
    from client_okD(8) [OF close] rpcWriting show ?thesis by (simp add: expire_and_retire_def e)
  qed (use w in \<open>auto simp: expire_and_retire_def e write_ok_def split: if_splits\<close>)
qed

lemma retire_client:
  assumes "client_ok D R S r"
  shows "client_ok D R S (expire_and_retire a cause r)" "quiet r (expire_and_retire a cause r)"
proof -
  note e = expire_client [OF assms, of a cause]
  note f = close_client [OF conjunct1 [OF e], of cause]
  show "client_ok D R S (expire_and_retire a cause r)"
    using e f by (cases "snd (expire a cause r)") (simp_all add: expire_and_retire_def case_prod_unfold Let_def)
  show "quiet r (expire_and_retire a cause r)"
    using e f quiet_trans [of r "fst (expire a cause r)"]
    by (cases "snd (expire a cause r)") (simp_all add: expire_and_retire_def case_prod_unfold Let_def)
qed

text \<open>
  C15. A wait that follows an expiry ends: the request it expired is no longer owed, so its one reply is in
  its channel or about to be put there by the reader, and a write without a reply has its result.
\<close>

theorem expiry_returns:
  assumes "rpc_step\<^sup>*\<^sup>* rpc_start c" "c_count c < 2 ^ 64" "a < length (r_heap (c_rpc c))"
  shows "(a \<in> set (c_requests c) \<longrightarrow>
      length (filter (\<lambda>x. fst x = a) (c_deliver c)) + length (w_reply (r_heap (fst (expire a cause (c_rpc c))) ! a)) = 1) \<and>
    (w_key (r_heap (c_rpc c) ! a) = [] \<longrightarrow> length (w_result (r_heap (expire_and_retire a cause (c_rpc c)) ! a)) = 1)"
proof (intro conjI impI)
  note ok = reached_ok [OF assms(1,2)]
  note c = config_okD(1) [OF ok]
  show "length (filter (\<lambda>x. fst x = a) (c_deliver c)) + length (w_reply (r_heap (fst (expire a cause (c_rpc c))) ! a)) = 1"
    if "a \<in> set (c_requests c)"
  proof -
    have "replies (c_deliver c) (fst (expire a cause (c_rpc c))) a = 1"
      using client_okD(3) [OF conjunct1 [OF expire_client [OF c]]] that by (simp add: owed_ok_def)
    then show ?thesis using expire_owes_nothing [OF ok, of a cause] by (simp add: replies_def)
  qed
  show "length (w_result (r_heap (expire_and_retire a cause (c_rpc c)) ! a)) = 1" if "w_key (r_heap (c_rpc c) ! a) = []"
  proof -
    have "length (r_heap (expire_and_retire a cause (c_rpc c))) = length (r_heap (c_rpc c))"
      using retire_client(2) [OF c, of a cause] unfolding quiet_def by (metis length_map)
    then have "write_ok (expire_and_retire a cause (c_rpc c)) a"
      using held_okD(3) [OF client_okD(2) [OF retire_client(1) [OF c]]] assms(3) by simp
    then show ?thesis using retire_finishes [OF c assms(3) that, of cause] by (simp add: write_ok_def)
  qed
qed

theorem expiry_returns_witness: "length (w_reply (r_heap (fst (expire 0 (RCause ''late'') (c_rpc one_accepted))) ! 0)) = 1"
  using expiry_returns [OF one_accepted_reached, of 0 "RCause ''late''"] by (simp add: one_accepted_fields)

subsection \<open>Correlation\<close>

text \<open>A numeric response identity names the request with that identity.\<close>

lemma response_correlates:
  assumes "i \<le> 9007199254740991"
  shows "responseKey (GNum (Fin (of_nat i))) = Some (request_key (of_nat i))"
proof -
  have "i < 2 ^ 63" using assms by simp
  then have "sint (of_nat i :: 64 word) = int i" by (simp add: signed_of_nat signed_take_bit_int_eq_self)
  moreover have "(of_nat i :: rat) \<le> max_safe_integer" using of_nat_mono [OF assms, where 'a = rat] by (simp add: max_safe_integer_def)
  ultimately show ?thesis by (simp add: responseKey_def formatCode_def request_key_def f64_is_integer_def)
qed

text \<open>
  A response that arrives before its request is written leaves the write to its deadline, and the expiry
  of a settled request returns early: the write keeps its slot and its bytes until the connection closes.
\<close>

definition early_answered :: rpc where
  "early_answered = snd (writer_pick 30 (snd (take_pending (request_key 1) (c_rpc one_accepted))))"

lemma early_answer_keeps_slot:
  "fst (take_pending (request_key 1) (c_rpc one_accepted)) = Some 0"
  "fst (writer_pick 30 (snd (take_pending (request_key 1) (c_rpc one_accepted)))) = WriterExpiring 0"
  "expire 0 cause early_answered = (early_answered, False)"
  "r_writes early_answered = [0] \<and> r_queue early_answered = [] \<and> r_queuedBytes early_answered = 2"
  by (simp_all add: early_answered_def one_accepted_def one_asked_def rpc_start_def NewRpc_def enqueue_def maxRPCWrites_def
      maxRPCQueuedBytes_def Let_def delete_key_def take_pending_def writer_pick_def expire_def request_key_def)

end
