(* ===== verification/PageJson.thy ===== *)
theory PageJson
  imports PublicJson Followers Uploads
begin

text \<open>
  Conversation pages on the wire (\<open>internal/protocol/types.go\<close>, \<open>adapters.go\<close>, \<open>internal/service/marshal.go\<close>,
  \<open>nodes.go\<close>): the records of a page, their JSON text, and the node that stands for a message.
  A slice that can be nil is an option.
\<close>

subsection \<open>Records\<close>

record capabilities =
  cap_Create :: bool
  cap_History :: bool
  cap_Live :: bool
  cap_IdleSend :: bool
  cap_ActiveSend :: string
  cap_Stop :: bool
  cap_Settings :: "string list option"
  cap_Rename :: bool
  cap_Archive :: bool
  cap_Uploads :: bool
  cap_Models :: bool
  cap_Usage :: bool
  cap_LazyMessages :: bool
  cap_HistoryMode :: string

record session_access =
  sa_NativeScopeID :: string
  sa_CanonicalSessionRef :: string
  sa_Binding :: string
  sa_Capabilities :: capabilities

record queued_input =
  q_ID :: string
  q_ClientID :: string
  q_Text :: string

record settings_change =
  sc_ID :: string
  sc_State :: string
  sc_Requested :: settings_patch
  sc_ActualModel :: string
  sc_ActualEffort :: string
  sc_TurnID :: string

record page_runtime = runtime +
  rt_Title :: "string option"
  rt_SettingsChange :: "settings_change option"
  rt_ActiveTurnHasUserMessage :: "bool option"
  rt_ServiceTierKnown :: "bool option"

record activity_node =
  an_Type :: string
  an_State :: string
  an_DurationMs :: "rat option"
  an_HasImage :: "bool option"

text \<open>\<open>MessageNode\<close> embeds the identity of its message, here the message itself.\<close>

record message_node =
  mn_Identity :: message
  mn_ImageCount :: "nat option"
  mn_Revision :: string
  mn_TextLength :: nat
  mn_HasContent :: bool
  mn_Activity :: "activity_node option"

record conversation_page =
  cp_Access :: "session_access option"
  cp_PageCursor :: "string option"
  cp_Nodes :: "message_node list"
  cp_Messages :: "message list"
  cp_NextCursor :: "string option"
  cp_Queued :: "queued_input list option"
  cp_Runtime :: "page_runtime option"
  cp_InputReceipts :: "receipt list"

subsection \<open>JSON\<close>

definition member :: "string \<Rightarrow> string \<Rightarrow> string list" where
  "member key rendered = optional_member key (Some rendered)"

definition json_array :: "string list \<Rightarrow> string" where
  "json_array xs = ''['' @ join '','' xs @ '']''"

definition raw_pointer :: "string option \<Rightarrow> string" where
  "raw_pointer p = (case p of None \<Rightarrow> ''null'' | Some s \<Rightarrow> go_quote_raw s)"

definition capabilities_json :: "capabilities \<Rightarrow> string" where
  "capabilities_json c =
     go_json_object
       (member ''create'' (bool_json (cap_Create c)) @ member ''history'' (bool_json (cap_History c)) @
        member ''live'' (bool_json (cap_Live c)) @ member ''idleSend'' (bool_json (cap_IdleSend c)) @
        member ''activeSend'' (go_quote_raw (cap_ActiveSend c)) @ member ''stop'' (bool_json (cap_Stop c)) @
        member ''settings'' (case cap_Settings c of None \<Rightarrow> ''null'' | Some xs \<Rightarrow> json_array (map go_quote_raw xs)) @
        member ''rename'' (bool_json (cap_Rename c)) @ member ''archive'' (bool_json (cap_Archive c)) @
        member ''uploads'' (bool_json (cap_Uploads c)) @ member ''models'' (bool_json (cap_Models c)) @
        member ''usage'' (bool_json (cap_Usage c)) @ member ''lazyMessages'' (bool_json (cap_LazyMessages c)) @
        member ''historyMode'' (go_quote_raw (cap_HistoryMode c)))"

definition access_json :: "session_access \<Rightarrow> string" where
  "access_json a =
     go_json_object
       (member ''nativeScopeId'' (go_quote_raw (sa_NativeScopeID a)) @
        member ''canonicalSessionRef'' (go_quote_raw (sa_CanonicalSessionRef a)) @
        member ''binding'' (go_quote_raw (sa_Binding a)) @
        member ''capabilities'' (capabilities_json (sa_Capabilities a)))"

definition queued_json :: "queued_input \<Rightarrow> string" where
  "queued_json q =
     go_json_object (member ''id'' (go_quote_raw (q_ID q)) @ member ''clientId'' (go_quote_raw (q_ClientID q)) @
       member ''text'' (MarshalJSON (q_Text q)))"

definition settings_json :: "settings_patch \<Rightarrow> string" where
  "settings_json s =
     go_json_object (optional_member ''model'' (map_option go_quote (p_Model s)) @
       optional_member ''effort'' (map_option go_quote (p_Effort s)) @
       optional_member ''serviceTier'' (map_option go_pointer (p_ServiceTier s)))"

definition change_json :: "settings_change \<Rightarrow> string" where
  "change_json c =
     go_json_object (member ''id'' (go_quote_raw (sc_ID c)) @ member ''state'' (go_quote_raw (sc_State c)) @
       member ''requested'' (settings_json (sc_Requested c)) @ nonempty_member ''actualModel'' (sc_ActualModel c) @
       nonempty_member ''actualEffort'' (sc_ActualEffort c) @ nonempty_member ''turnId'' (sc_TurnID c))"

definition number_pointer :: "float64 option \<Rightarrow> string" where
  "number_pointer p = (case p of None \<Rightarrow> ''null'' | Some v \<Rightarrow> jsNumberString v)"

definition runtime_json :: "page_runtime \<Rightarrow> string" where
  "runtime_json r =
     go_json_object
       (optional_member ''title'' (map_option MarshalJSON (rt_Title r)) @
        optional_member ''settingsChange'' (map_option change_json (rt_SettingsChange r)) @
        member ''status'' (go_quote_raw (r_Status r)) @
        member ''activeTurnId'' (raw_pointer (r_ActiveTurnID r)) @
        member ''model'' (raw_pointer (r_Model r)) @
        member ''contextTokens'' (number_pointer (r_ContextTokens r)) @
        member ''contextWindow'' (number_pointer (r_ContextWindow r)) @
        optional_member ''completedTurnId'' (map_option go_pointer (r_CompletedTurnID r)) @
        optional_member ''activeTurnHasUserMessage'' (map_option bool_json (rt_ActiveTurnHasUserMessage r)) @
        optional_member ''serviceTierKnown'' (map_option bool_json (rt_ServiceTierKnown r)) @
        optional_member ''effort'' (map_option go_pointer (r_Effort r)) @
        optional_member ''serviceTier'' (map_option go_pointer (r_ServiceTier r)))"

definition receipt_json :: "receipt \<Rightarrow> string" where
  "receipt_json r =
     go_json_object (nonempty_member ''kind'' (Kind r) @ nonempty_member ''state'' (State r) @
       member ''clientId'' (go_quote_raw (ClientID r)) @ member ''turnId'' (go_quote_raw (TurnID r)) @
       member ''messageId'' (go_quote_raw (MessageID r)))"

definition activity_node_json :: "activity_node \<Rightarrow> string" where
  "activity_node_json n =
     go_json_object (member ''type'' (go_quote_raw (an_Type n)) @ nonempty_member ''state'' (an_State n) @
       optional_member ''durationMs'' (map_option (\<lambda>d. jsNumberString (Fin d)) (an_DurationMs n)) @
       optional_member ''hasImage'' (map_option bool_json (an_HasImage n)))"

definition identity_members :: "message \<Rightarrow> string list" where
  "identity_members m =
     member ''id'' (go_quote_raw (m_ID m)) @ member ''turnId'' (go_quote_raw (m_TurnID m)) @
     nonempty_member ''groupId'' (m_GroupID m) @ nonempty_member ''nativeId'' (m_NativeID m) @
     optional_member ''textOffset'' (map_option FormatInt (m_TextOffset m)) @
     optional_member ''textContinues'' (map_option bool_json (m_TextContinues m)) @
     member ''clientId'' (raw_pointer (m_ClientID m)) @ member ''role'' (go_quote_raw (m_Role m)) @
     member ''timestamp'' (Number_MarshalJSON (m_Timestamp m)) @
     optional_member ''error'' (map_option bool_json (m_Error m))"

definition node_json :: "message_node \<Rightarrow> string" where
  "node_json n =
     go_json_object
       (identity_members (mn_Identity n) @
        optional_member ''imageCount'' (map_option FormatUint (mn_ImageCount n)) @
        member ''revision'' (go_quote_raw (mn_Revision n)) @ member ''textLength'' (FormatUint (mn_TextLength n)) @
        member ''hasContent'' (bool_json (mn_HasContent n)) @
        optional_member ''activity'' (map_option activity_node_json (mn_Activity n)))"

definition nonempty_array :: "string \<Rightarrow> string list \<Rightarrow> string list" where
  "nonempty_array key xs = optional_member key (if xs = [] then None else Some (json_array xs))"

definition page_json :: "conversation_page \<Rightarrow> string" where
  "page_json p =
     go_json_object
       (optional_member ''access'' (map_option access_json (cp_Access p)) @
        optional_member ''pageCursor'' (map_option go_quote (cp_PageCursor p)) @
        nonempty_array ''nodes'' (map node_json (cp_Nodes p)) @
        member ''messages'' (json_array (map message_json (cp_Messages p))) @
        member ''nextCursor'' (raw_pointer (cp_NextCursor p)) @
        member ''queued'' (case cp_Queued p of None \<Rightarrow> ''null'' | Some qs \<Rightarrow> json_array (map queued_json qs)) @
        optional_member ''runtime'' (map_option runtime_json (cp_Runtime p)) @
        nonempty_array ''inputReceipts'' (map receipt_json (cp_InputReceipts p)))"

text \<open>\<open>Marshal\<close> falls back to \<open>null\<close> when a number has no JSON form.\<close>

definition finite_number :: "float64 option \<Rightarrow> bool" where
  "finite_number p \<longleftrightarrow> (case p of Some (Fin _) \<Rightarrow> True | None \<Rightarrow> True | _ \<Rightarrow> False)"

definition Marshal_page :: "conversation_page \<Rightarrow> string" where
  "Marshal_page p =
     (if (case cp_Runtime p of None \<Rightarrow> True | Some r \<Rightarrow> finite_number (r_ContextTokens r) \<and> finite_number (r_ContextWindow r))
      then page_json p else ''null'')"

subsection \<open>Nodes\<close>

definition hasContent :: "message \<Rightarrow> bool" where
  "hasContent m \<longleftrightarrow> m_Role m = ''user'' \<or> (case m_Activity m of Some act \<Rightarrow> a_Type act = ''tool'' | None \<Rightarrow> False) \<or>
     trimJSWhitespace (m_Text m) \<noteq> [] \<or> m_TextContinues m = Some True"

text \<open>
  The revision is the digest of the serialized message. An image list is absent exactly when it is nil;
  every list of the projections is non-empty when it is present.
\<close>

definition MessageNode :: "message \<Rightarrow> message_node" where
  "MessageNode m =
     \<lparr>mn_Identity = m, mn_ImageCount = (if m_ImageLinks m = [] then None else Some (length (m_ImageLinks m))),
      mn_Revision = sha256_hex (message_json m), mn_TextLength = utf16Len (m_Text m), mn_HasContent = hasContent m,
      mn_Activity = map_option (\<lambda>act. \<lparr>an_Type = a_Type act, an_State = a_State act, an_DurationMs = a_DurationMs act,
        an_HasImage = Some (case a_ImagePath act of Some p \<Rightarrow> p \<noteq> [] | None \<Rightarrow> False)\<rparr>) (m_Activity m)\<rparr>"

end
