(* ===== verification/Pages.thy ===== *)
theory Pages
  imports ToolPreview PageJson
begin

text \<open>
  Conversation pages (\<open>internal/service/pages.go\<close>): group identities, text parts, cursors and the bounded
  window. The native reader is an argument, from its cursor to a page or an error, as are the image
  links of a text (a Markdown parser) and \<open>json.Unmarshal\<close> of a cursor.
\<close>

unbundle bit_operations_syntax

definition MaxResponseBytes :: nat where "MaxResponseBytes = 4 * 1024 * 1024"
definition MaxConversationPageBytes :: nat where "MaxConversationPageBytes = 3 * 1024 * 1024"
definition maxMessages :: nat where "maxMessages = 128"
definition partCharacters :: nat where "partCharacters = 16384"
definition reservedMetadataBytes :: nat where "reservedMetadataBytes = 16384"
definition maxCursorUnits :: nat where "maxCursorUnits = 8192"
definition maxAnchorUnits :: nat where "maxAnchorUnits = 512"

datatype page_error = BadCursor | HistoryChanged | MetadataLimit | MessageLimit | ReadFailed string | ResponseLimit

subsection \<open>Cursors\<close>

record page_cursor =
  pc_ID :: string
  pc_Native :: "string option"
  pc_Before :: "string option"
  pc_Through :: "string option"

definition cursorPrefix :: "string \<Rightarrow> string" where
  "cursorPrefix layer = ''filo.page.'' @ (if layer = [] then ''desktop'' else layer) @ ''.''"

definition cursor_json :: "page_cursor \<Rightarrow> string" where
  "cursor_json p =
     go_json_object (member ''id'' (go_quote_raw (pc_ID p)) @ optional_member ''native'' (map_option go_quote_raw (pc_Native p)) @
       optional_member ''before'' (map_option go_quote_raw (pc_Before p)) @
       optional_member ''through'' (map_option go_quote_raw (pc_Through p)))"

text \<open>\<open>base64.RawURLEncoding\<close>: the decoder skips line breaks and ignores the unused bits of the last digit.\<close>

definition b64_char :: "nat \<Rightarrow> char" where
  "b64_char v =
     chr (if v < 26 then 65 + v else if v < 52 then 71 + v else if v < 62 then v - 4 else if v = 62 then 45 else 95)"

definition b64_value :: "char \<Rightarrow> nat option" where
  "b64_value c =
     (let b = byte_of c
      in if 65 \<le> b \<and> b \<le> 90 then Some (b - 65) else if 97 \<le> b \<and> b \<le> 122 then Some (b - 71)
         else if 48 \<le> b \<and> b \<le> 57 then Some (b + 4) else if b = 45 then Some 62 else if b = 95 then Some 63 else None)"

fun b64_encode :: "nat list \<Rightarrow> string" where
  "b64_encode [] = []"
| "b64_encode [a] = [b64_char (a div 4), b64_char (a mod 4 * 16)]"
| "b64_encode [a, b] = [b64_char (a div 4), b64_char (a mod 4 * 16 + b div 16), b64_char (b mod 16 * 4)]"
| "b64_encode (a # b # c # r) =
     [b64_char (a div 4), b64_char (a mod 4 * 16 + b div 16), b64_char (b mod 16 * 4 + c div 64), b64_char (c mod 64)] @ b64_encode r"

fun b64_bytes :: "nat list \<Rightarrow> nat list option" where
  "b64_bytes [] = Some []"
| "b64_bytes [_] = None"
| "b64_bytes [a, b] = Some [a * 4 + b div 16]"
| "b64_bytes [a, b, c] = Some [a * 4 + b div 16, b mod 16 * 16 + c div 4]"
| "b64_bytes (a # b # c # d # r) =
     map_option (\<lambda>rest. [a * 4 + b div 16, b mod 16 * 16 + c div 4, c mod 4 * 64 + d] @ rest) (b64_bytes r)"

definition b64_decode :: "string \<Rightarrow> string option" where
  "b64_decode s =
     (let digits = map b64_value (filter (\<lambda>c. byte_of c \<noteq> 10 \<and> byte_of c \<noteq> 13) s)
      in if None \<in> set digits then None else map_option (map chr) (b64_bytes (map the digits)))"

definition decodeBase64URL :: "string \<Rightarrow> string option" where
  "decodeBase64URL v =
     (let normalized = map (\<lambda>c. if c = CHR ''+'' then CHR ''-'' else if c = CHR ''/'' then CHR ''_'' else c) v
      in b64_decode (rev (dropWhile (\<lambda>c. c = CHR ''='') (rev normalized))))"

definition encodePageCursor :: "string \<Rightarrow> page_cursor \<Rightarrow> string" where
  "encodePageCursor prefix p = prefix @ b64_encode (map byte_of (cursor_json p))"

definition decodeHistoryCursor :: "(string \<Rightarrow> page_cursor option) \<Rightarrow> string \<Rightarrow> string \<Rightarrow> string \<Rightarrow> page_cursor option" where
  "decodeHistoryCursor unmarshal cursor body ident =
     (if maxCursorUnits < utf16Len cursor then None
      else case decodeBase64URL body of
        None \<Rightarrow> None
      | Some bytes \<Rightarrow>
          (case unmarshal bytes of
             None \<Rightarrow> None
           | Some p \<Rightarrow>
               (case (case pc_Before p of None \<Rightarrow> pc_Through p | Some b \<Rightarrow> Some b) of
                  None \<Rightarrow> None
                | Some anchor \<Rightarrow>
                    if pc_ID p \<noteq> ident \<or> anchor = [] \<or> maxAnchorUnits < utf16Len anchor \<or>
                       pc_Before p \<noteq> None \<and> pc_Through p \<noteq> None
                    then None else Some p)))"

definition nativePointer :: "string \<Rightarrow> string option" where
  "nativePointer cursor = (if cursor = [] then None else Some cursor)"

subsection \<open>Group identities\<close>

record group_state =
  gs_turn :: string
  gs_user :: "string option"
  gs_group :: "string option"

definition groupUser :: "string option \<Rightarrow> string" where
  "groupUser u = (case u of Some s \<Rightarrow> s | None \<Rightarrow> ''assistant'')"

definition group_message :: "group_state \<Rightarrow> message \<Rightarrow> group_state \<times> message" where
  "group_message g m =
     (let g = (if gs_turn g \<noteq> m_TurnID m then \<lparr>gs_turn = m_TurnID m, gs_user = None, gs_group = None\<rparr> else g)
      in if m_Role m = ''user'' then (g\<lparr>gs_user := Some (m_ID m), gs_group := None\<rparr>, m)
         else
           let group = (case gs_group g of
                          Some s \<Rightarrow> s
                        | None \<Rightarrow> if m_GroupID m \<noteq> [] then m_GroupID m
                                  else ''remote-group:'' @ m_TurnID m @ '':'' @ groupUser (gs_user g))
           in (g\<lparr>gs_group := Some group\<rparr>, m\<lparr>m_GroupID := group\<rparr>))"

fun assign_from :: "group_state \<Rightarrow> message list \<Rightarrow> message list" where
  "assign_from g [] = []"
| "assign_from g (m # ms) = (let (g', m') = group_message g m in m' # assign_from g' ms)"

definition assignGroupIDs :: "message list \<Rightarrow> message list" where
  "assignGroupIDs ms = assign_from \<lparr>gs_turn = [], gs_user = None, gs_group = None\<rparr> ms"

subsection \<open>Text parts\<close>

definition isWTF8Unit :: "string \<Rightarrow> bool" where
  "isWTF8Unit s \<longleftrightarrow> 2 < length s \<and> byte_of (s ! 0) = 237 \<and> 160 \<le> byte_of (s ! 1) \<and> byte_of (s ! 1) \<le> 191 \<and>
     byte_of (s ! 2) AND 192 = 128"

definition page_nextUnit :: "string \<Rightarrow> nat \<times> nat" where
  "page_nextUnit s = (if isWTF8Unit s then (1, 3) else let (r, n) = DecodeRune s in (if 65535 < r then 2 else 1, n))"

lemma page_nextUnit: "page_nextUnit s = nextUnit s"
  by (simp add: page_nextUnit_def isWTF8Unit_def nextUnit_def)

definition codeUnit :: "string \<Rightarrow> nat \<Rightarrow> nat" where
  "codeUnit s width =
     (if width = 1 \<and> isWTF8Unit s
      then (byte_of (s ! 0) AND 15) * 4096 + (byte_of (s ! 1) AND 63) * 64 + (byte_of (s ! 2) AND 63)
      else let r = fst (DecodeRune s) in if 65535 < r then fst (utf16_EncodeRune r) else r)"

definition lowCodeUnit :: "string \<Rightarrow> nat" where
  "lowCodeUnit s = snd (utf16_EncodeRune (fst (DecodeRune s)))"

text \<open>The argument is the unread suffix and the index counts from its start.\<close>

function unitAt :: "string \<Rightarrow> nat \<Rightarrow> nat option" where
  "unitAt s index =
     (if s = [] then None
      else let (width, size) = page_nextUnit s
           in if index = 0 then Some (codeUnit s width)
              else if width = 2 \<and> index = 1 then Some (lowCodeUnit s)
              else unitAt (drop size s) (index - width))"
  by pat_completeness auto
termination
  by (relation "measure (\<lambda>(s, i). length s)") (auto simp: page_nextUnit dest: nextUnit_progress)

declare unitAt.simps [simp del]

definition splitsSurrogatePair :: "string \<Rightarrow> nat \<Rightarrow> bool" where
  "splitsSurrogatePair s index =
     (case (if index = 0 then None else unitAt s (index - 1), unitAt s index) of
        (Some lst, Some nxt) \<Rightarrow> 55296 \<le> lst \<and> lst \<le> 56319 \<and> 56320 \<le> nxt \<and> nxt \<le> 57343
      | _ \<Rightarrow> False)"

text \<open>Slicing \<open>head\<close> past its end would stop the program; the caller's positions never do.\<close>

definition textRangeUnits :: "string \<Rightarrow> nat \<Rightarrow> nat \<Rightarrow> string" where
  "textRangeUnits s from to = drop (length (sliceUTF16 s (int from))) (sliceUTF16 s (int to))"

definition part_end :: "string \<Rightarrow> nat \<Rightarrow> nat \<Rightarrow> nat" where
  "part_end s len start =
     (let to = min (start + partCharacters) len
      in if to < len \<and> splitsSurrogatePair s to then to - 1 else to)"

definition text_part :: "message \<Rightarrow> nat \<Rightarrow> nat \<Rightarrow> nat \<Rightarrow> message" where
  "text_part m len start to =
     m\<lparr>m_ID := (if 0 < start then ''filo-part:'' @ m_ID m @ '':'' @ FormatUint start else m_ID m),
       m_NativeID := (if m_NativeID m \<noteq> [] then m_NativeID m else m_ID m),
       m_TextOffset := Some ((case m_TextOffset m of Some n \<Rightarrow> n | None \<Rightarrow> 0) + int start),
       m_TextContinues := Some (if to < len then True else (case m_TextContinues m of Some b \<Rightarrow> b | None \<Rightarrow> False)),
       m_Text := textRangeUnits (m_Text m) start to\<rparr>"

lemma part_end_progress: "start < len \<Longrightarrow> start < part_end s len start"
  by (auto simp: part_end_def partCharacters_def Let_def)

function split_parts :: "message \<Rightarrow> nat \<Rightarrow> nat \<Rightarrow> message list" where
  "split_parts m len start =
     (if start < len
      then let to = part_end (m_Text m) len start in text_part m len start to # split_parts m len to
      else [])"
  by pat_completeness auto
termination
  by (relation "measure (\<lambda>(m, len, start). len - start)") (auto intro!: diff_less_mono2 part_end_progress)

declare split_parts.simps [simp del]

definition split_message :: "message \<Rightarrow> message list" where
  "split_message m =
     (let len = utf16Len (m_Text m) in if len \<le> partCharacters then [m] else split_parts m len 0)"

definition splitTextParts :: "message list \<Rightarrow> message list" where
  "splitTextParts ms = concat (map split_message ms)"

subsection \<open>Presentation\<close>

definition preview :: "string option \<Rightarrow> string option" where
  "preview v = map_option (\<lambda>t. case ToolPreview (GStr t) of Some p \<Rightarrow> p | None \<Rightarrow> []) v"

definition presentationMessage :: "(string \<Rightarrow> string list) \<Rightarrow> message \<Rightarrow> message" where
  "presentationMessage NativeImageLinks m =
     (if m_Role m = ''assistant'' \<and> m_Activity m = None \<and> m_Error m \<noteq> Some True \<and> NativeImageLinks (m_Text m) \<noteq> []
      then m\<lparr>m_ImageLinks := NativeImageLinks (m_Text m)\<rparr>
      else case m_Activity m of
        Some act \<Rightarrow>
          if a_Type act = ''tool''
          then m\<lparr>m_Activity := Some (act\<lparr>a_Arguments := preview (a_Arguments act), a_Result := preview (a_Result act)\<rparr>)\<rparr>
          else m
      | None \<Rightarrow> m)"

subsection \<open>The window\<close>

record page_options =
  o_Layer :: string
  o_ExcludedTurns :: "string list"
  o_IncludeMetadata :: bool

text \<open>What a message costs, and the walk backwards: the kept messages in order and the messages before them.\<close>

definition message_cost :: "bool \<Rightarrow> message \<Rightarrow> nat" where
  "message_cost nodes m = Suc (length (message_json m)) + (if nodes then Suc (length (node_json (MessageNode m))) else 0)"

fun window :: "(message \<Rightarrow> message) \<Rightarrow> bool \<Rightarrow> message list \<Rightarrow> nat \<Rightarrow> message list \<Rightarrow> page_error + (message list \<times> message list)" where
  "window show_message nodes [] spent kept = Inr (kept, [])"
| "window show_message nodes (m # earlier) spent kept =
     (if maxMessages \<le> length kept then Inr (kept, m # earlier)
      else
        let shown = show_message m; cost = message_cost nodes shown
        in if MaxConversationPageBytes < spent + cost
           then (if kept = [] then Inl MessageLimit else Inr (kept, m # earlier))
           else window show_message nodes earlier (spent + cost) (shown # kept))"

definition page_runtime_of :: "message list \<Rightarrow> page_runtime \<Rightarrow> page_runtime" where
  "page_runtime_of ms r =
     (let known = (rt_ActiveTurnHasUserMessage r = Some True);
          shown = (case r_ActiveTurnID r of
                     None \<Rightarrow> False
                   | Some t \<Rightarrow> (\<exists>m \<in> set ms. m_Role m = ''user'' \<and> m_TurnID m = t))
      in r\<lparr>rt_ServiceTierKnown := Some (r_ServiceTier r \<noteq> None), rt_ActiveTurnHasUserMessage := Some (known \<or> shown)\<rparr>)"

text \<open>The page of the source as it is displayed, before the window is cut.\<close>

definition display_page :: "page_options \<Rightarrow> conversation_page \<Rightarrow> conversation_page" where
  "display_page options page =
     (let ms = (if o_ExcludedTurns options = [] then cp_Messages page
                else filter (\<lambda>m. m_TurnID m \<notin> set (o_ExcludedTurns options)) (cp_Messages page));
          ms = assignGroupIDs ms
      in page\<lparr>cp_Runtime := map_option (page_runtime_of ms) (cp_Runtime page), cp_Messages := splitTextParts ms\<rparr>)"

fun index_of :: "string \<Rightarrow> message list \<Rightarrow> nat option" where
  "index_of i [] = None"
| "index_of i (m # ms) = (if m_ID m = i then Some 0 else map_option Suc (index_of i ms))"

definition window_end :: "string option \<Rightarrow> string option \<Rightarrow> message list \<Rightarrow> page_error + nat" where
  "window_end before through ms =
     (case (case before of None \<Rightarrow> through | Some b \<Rightarrow> Some b) of
        None \<Rightarrow> Inr (length ms)
      | Some anchor \<Rightarrow>
          (case index_of anchor ms of
             None \<Rightarrow> Inl HistoryChanged
           | Some i \<Rightarrow> Inr (if through \<noteq> None then Suc i else i)))"

definition cut_page :: "(string \<Rightarrow> string list) \<Rightarrow> page_options \<Rightarrow> string \<Rightarrow> string \<Rightarrow> conversation_page \<Rightarrow> nat \<Rightarrow> page_error + conversation_page" where
  "cut_page links options ident native page to =
     (let nodes = o_IncludeMetadata options;
          prefix = cursorPrefix (o_Layer options);
          metadata = page\<lparr>cp_Messages := [], cp_Nodes := (if nodes then [] else cp_Nodes page)\<rparr>;
          spent = length (Marshal_page metadata) + reservedMetadataBytes
      in if MaxConversationPageBytes < spent then Inl MetadataLimit
         else bindr (window (presentationMessage links) nodes (rev (take to (cp_Messages page))) spent []) (\<lambda>(ms, earlier).
           Inr (page\<lparr>cp_Messages := ms,
                 cp_NextCursor := (if earlier = [] then cp_NextCursor page
                   else Some (encodePageCursor prefix \<lparr>pc_ID = ident, pc_Native = nativePointer native, pc_Before = Some (m_ID (hd ms)), pc_Through = None\<rparr>)),
                 cp_PageCursor := (if ms = [] then cp_PageCursor page
                   else Some (encodePageCursor prefix \<lparr>pc_ID = ident, pc_Native = nativePointer native, pc_Before = None, pc_Through = Some (m_ID (last ms))\<rparr>)),
                 cp_Nodes := (if nodes then map MessageNode ms else cp_Nodes page)\<rparr>)))"

definition ReadConversationPage ::
  "(string \<Rightarrow> string list) \<Rightarrow> (string \<Rightarrow> page_cursor option) \<Rightarrow> (string \<Rightarrow> page_error + conversation_page) \<Rightarrow> page_options \<Rightarrow>
   string \<Rightarrow> string \<Rightarrow> page_error + conversation_page" where
  "ReadConversationPage links unmarshal source options ident cursor =
     (let prefix = cursorPrefix (o_Layer options)
      in bindr (if HasPrefix cursor prefix
                then (case decodeHistoryCursor unmarshal cursor (drop (length prefix) cursor) ident of
                        None \<Rightarrow> Inl BadCursor
                      | Some p \<Rightarrow> Inr (case pc_Native p of None \<Rightarrow> [] | Some n \<Rightarrow> n, pc_Before p, pc_Through p))
                else Inr (cursor, None, None)) (\<lambda>(native, before, through).
         bindr (source native) (\<lambda>page.
           let native = (case cp_PageCursor page of Some c \<Rightarrow> c | None \<Rightarrow> native);
               page = display_page options page
           in bindr (window_end before through (cp_Messages page)) (\<lambda>to. cut_page links options ident native page to))))"

definition EncodeResponse :: "string \<Rightarrow> page_error + string" where
  "EncodeResponse body = (if MaxResponseBytes < length body then Inl ResponseLimit else Inr body)"

end
