(* ===== verification/PagesCorrect.thy ===== *)
theory PagesCorrect
  imports Pages
begin

text \<open>
  The pager loses nothing: text parts join to the text, cursors decode to what they encode, every page
  is bounded, and following the cursors shows every message once, in order.
\<close>

subsection \<open>Unit boundaries\<close>

text \<open>The byte offset of a unit position that does not fall into a surrogate pair.\<close>

function unit_cut :: "string \<Rightarrow> nat \<Rightarrow> nat option" where
  "unit_cut s k =
     (if k = 0 then Some 0
      else if s = [] then None
      else let (w, n) = nextUnit s in if k < w then None else map_option ((+) n) (unit_cut (drop n s) (k - w)))"
  by pat_completeness auto
termination
  by (relation "measure (\<lambda>(s, k). length s)") (auto dest: nextUnit_progress)

declare unit_cut.simps [simp del]

lemma DecodeRune_take:
  assumes "snd (DecodeRune s) \<le> m" "s \<noteq> []" "0 < m"
  shows "DecodeRune (take m s) = DecodeRune s"
proof -
  obtain a r k where s: "s = a # r" "m = Suc k" using assms(2,3) by (cases s; cases m) auto
  consider "byte_of a < 128" | "194 \<le> byte_of a" "byte_of a \<le> 223" | "224 \<le> byte_of a" "byte_of a \<le> 239" | "240 \<le> byte_of a" "byte_of a \<le> 244"
    | "128 \<le> byte_of a" "\<not> (194 \<le> byte_of a \<and> byte_of a \<le> 244)" by linarith
  then show ?thesis
  proof cases
    case 3
    show ?thesis
    proof (cases "2 \<le> length r")
      case True
      then obtain b c t where "r = b # c # t" by (cases r; cases "tl r") auto
      with 3 assms(1) show ?thesis unfolding s by (auto simp: Let_def take_Cons' split: if_splits)
    next
      case False
      then consider "r = []" | b where "r = [b]" by (cases r; cases "tl r") auto
      then show ?thesis using 3 unfolding s by cases (auto simp: Let_def take_Cons')
    qed
  next
    case 4
    show ?thesis
    proof (cases "3 \<le> length r")
      case True
      then obtain b c d t where "r = b # c # d # t" by (cases r; cases "tl r"; cases "tl (tl r)") auto
      with 4 assms(1) show ?thesis unfolding s by (auto simp: Let_def take_Cons' split: if_splits)
    next
      case False
      then consider "r = []" | b where "r = [b]" | b c where "r = [b, c]" by (cases r; cases "tl r"; cases "tl (tl r)") auto
      then show ?thesis using 4 unfolding s by cases (auto simp: Let_def take_Cons')
    qed
  qed (use assms(1) s in \<open>auto simp: take_Cons' split: list.split\<close>)
qed

lemma DecodeRune_size: "s \<noteq> [] \<Longrightarrow> snd (DecodeRune s) \<le> length s"
  by (cases s) (simp_all add: Let_def split: list.splits)

lemma four_byte_bound:
  assumes "240 \<le> p" "p \<le> 244" "b \<le> (if p = 244 then 143 else 191)" "128 \<le> b"
  shows "p mod 8 * 262144 + b mod 64 * 4096 + c mod 64 * 64 + d mod 64 \<le> (1114111 :: nat)"
proof (cases "p = 244")
  case True
  then have "b mod 64 = b - 128" using assms by (simp add: mod_if)
  then have "b mod 64 \<le> 15" using assms True by simp
  moreover have "c mod 64 \<le> 63" "d mod 64 \<le> 63" by simp_all
  ultimately show ?thesis using True by simp
next
  case False
  then have "p mod 8 \<le> 3" using assms(1,2) by presburger
  moreover have "b mod 64 \<le> 63" "c mod 64 \<le> 63" "d mod 64 \<le> 63" by simp_all
  ultimately show ?thesis by linarith
qed

lemma DecodeRune_range: "fst (DecodeRune s) \<le> 1114111"
proof (cases s)
  case (Cons a r)
  have two: "x mod 32 * 64 + y mod 64 \<le> (1114111 :: nat)" for x y
  proof -
    have "x mod 32 < 32" "y mod 64 < 64" by simp_all
    then show ?thesis by linarith
  qed
  have three: "x mod 16 * 4096 + y mod 64 * 64 + z mod 64 \<le> (1114111 :: nat)" for x y z
  proof -
    have "x mod 16 < 16" "y mod 64 < 64" "z mod 64 < 64" by simp_all
    then show ?thesis by linarith
  qed
  have four: "byte_of a mod 8 * 262144 + byte_of b mod 64 * 4096 + x mod 64 * 64 + y mod 64 \<le> 1114111"
    if "240 \<le> byte_of a" "byte_of a \<le> 244" "second_ok (byte_of a) b" for b x y
    using that by (intro four_byte_bound) (auto simp: second_ok_def split: if_splits)
  show ?thesis unfolding Cons by (simp add: Let_def RuneError_def two three four split: list.split)
qed (simp add: RuneError_def)

lemma nextUnit_size: "s \<noteq> [] \<Longrightarrow> snd (nextUnit s) \<le> length s"
  using DecodeRune_size [of s] by (auto simp: nextUnit_def Let_def split: prod.splits)

lemma nextUnit_width: "s \<noteq> [] \<Longrightarrow> fst (nextUnit s) = 1 \<or> fst (nextUnit s) = 2"
  by (simp add: nextUnit_def Let_def split: prod.splits)

text \<open>A step of the scanner, and the induction over it.\<close>

lemma nextUnit_step:
  assumes "s \<noteq> []"
  obtains w n where "nextUnit s = (w, n)" "w = 1 \<or> w = 2" "0 < n" "n \<le> length s"
  using assms nextUnit_size [OF assms] nextUnit_size_pos [OF assms] nextUnit_width [OF assms] by (cases "nextUnit s") auto

lemma unit_induct [case_names Nil Step]:
  assumes "P []" and step: "\<And>s w n. s \<noteq> [] \<Longrightarrow> nextUnit s = (w, n) \<Longrightarrow> w = 1 \<or> w = 2 \<Longrightarrow> 0 < n \<Longrightarrow> n \<le> length s \<Longrightarrow> P (drop n s) \<Longrightarrow> P s"
  shows "P s"
proof (induction s rule: length_induct)
  case (1 s)
  show ?case
  proof (cases "s = []")
    case False
    obtain w n where wn: "nextUnit s = (w, n)" "w = 1 \<or> w = 2" "0 < n" "n \<le> length s" by (rule nextUnit_step [OF False])
    then show ?thesis using step [OF False wn] 1 by simp
  qed (simp add: assms(1))
qed

lemma utf16Len_step: "s \<noteq> [] \<Longrightarrow> nextUnit s = (w, n) \<Longrightarrow> utf16Len s = w + utf16Len (drop n s)"
  by (simp add: utf16Len.simps [of s])

lemma utf16Len_Nil: "utf16Len [] = 0"
  by (simp add: utf16Len.simps)

lemma unit_cut_0 [simp]: "unit_cut s 0 = Some 0"
  by (simp add: unit_cut.simps)

lemma unit_cut_step:
  "s \<noteq> [] \<Longrightarrow> nextUnit s = (w, n) \<Longrightarrow> 0 < k \<Longrightarrow> unit_cut s k = (if k < w then None else map_option ((+) n) (unit_cut (drop n s) (k - w)))"
  by (simp add: unit_cut.simps [of s])

lemma unit_cut_Nil: "unit_cut [] k = (if k = 0 then Some 0 else None)"
  by (simp add: unit_cut.simps)

lemma unit_cut_whole: "unit_cut s (utf16Len s) = Some (length s)"
proof (induction s rule: unit_induct)
  case (Step s w n)
  then show ?case using unit_cut_step [OF Step(1,2)] utf16Len_step [OF Step(1,2)] by auto
qed (simp add: utf16Len_Nil)

lemma unit_cut_slice:
  assumes "unit_cut s k = Some b"
  shows "b \<le> length s" "k \<le> utf16Len s" "slice_from (cnt + k) cnt s = take b s" "utf16Len (drop b s) = utf16Len s - k"
proof -
  have "b \<le> length s \<and> k \<le> utf16Len s \<and> slice_from (cnt + k) cnt s = take b s \<and> utf16Len (drop b s) = utf16Len s - k"
    using assms
  proof (induction s arbitrary: k b cnt rule: unit_induct)
    case Nil
    then show ?case by (simp add: unit_cut_Nil slice_from.simps split: if_splits)
  next
    case (Step s w n)
    note sl = slice_from.simps [of _ _ s] and len = utf16Len_step [OF Step(1,2)]
    show ?case
    proof (cases "k = 0")
      case True
      then show ?thesis using Step by (auto simp: sl)
    next
      case False
      then obtain c where c: "unit_cut (drop n s) (k - w) = Some c" "b = n + c" "w \<le> k"
        using Step.prems unit_cut_step [OF Step(1,2), of k] by (auto split: if_splits)
      note IH = Step.IH [OF c(1), of "cnt + w"]
      have "take n s @ take c (drop n s) = take (n + c) s" by (simp add: take_add)
      moreover have "slice_from (cnt + k) cnt s = take n s @ take c (drop n s)"
      proof (cases "k = w")
        case True
        then show ?thesis using Step c by (simp add: sl)
      next
        case False
        then have "slice_from (cnt + k) cnt s = take n s @ slice_from (cnt + k) (cnt + w) (drop n s)" using Step(1,2) c(3) by (simp add: sl)
        then show ?thesis using IH c(3) by (simp add: add.assoc)
      qed
      ultimately show ?thesis using IH c(2,3) Step(5) len by (auto simp: add.commute)
    qed
  qed
  then show "b \<le> length s" "k \<le> utf16Len s" "slice_from (cnt + k) cnt s = take b s" "utf16Len (drop b s) = utf16Len s - k" by blast+
qed

lemma nextUnit_take:
  assumes "s \<noteq> []" "snd (nextUnit s) \<le> m"
  shows "nextUnit (take m s) = nextUnit s"
proof (cases "isWTF8Unit s")
  case True
  then have "3 \<le> m" "isWTF8Unit (take m s)"
    using assms(2) by (auto simp: page_nextUnit [symmetric] page_nextUnit_def isWTF8Unit_def)
  then show ?thesis using True by (simp add: page_nextUnit [symmetric] page_nextUnit_def)
next
  case False
  then have "\<not> isWTF8Unit (take m s)" by (auto simp: isWTF8Unit_def)
  moreover have "DecodeRune (take m s) = DecodeRune s"
    using DecodeRune_take [of s m] DecodeRune_size_pos [OF assms(1)] assms False
    by (simp add: page_nextUnit [symmetric] page_nextUnit_def Let_def case_prod_unfold)
  ultimately show ?thesis using False by (simp add: page_nextUnit [symmetric] page_nextUnit_def)
qed

lemma unit_cut_take: "unit_cut s k = Some b \<Longrightarrow> utf16Len (take b s) = k"
proof (induction s arbitrary: k b rule: unit_induct)
  case Nil
  then show ?case by (simp add: unit_cut_Nil utf16Len_Nil split: if_splits)
next
  case (Step s w n)
  show ?case
  proof (cases "k = 0")
    case True
    then show ?thesis using Step by (simp add: utf16Len_Nil)
  next
    case False
    then obtain c where c: "unit_cut (drop n s) (k - w) = Some c" "b = n + c" "w \<le> k"
      using Step.prems unit_cut_step [OF Step(1,2), of k] by (auto split: if_splits)
    have "nextUnit (take b s) = (w, n)" using nextUnit_take [OF Step(1), of b] Step(2) c(2) by simp
    moreover have "take b s \<noteq> []" using Step(1,4) c(2) by simp
    ultimately show ?thesis using utf16Len_step [of "take b s" w n] Step.IH [OF c(1)] c(2,3) by (simp add: drop_take)
  qed
qed

lemma unit_cut_between:
  "unit_cut s a = Some i \<Longrightarrow> unit_cut s b = Some j \<Longrightarrow> a \<le> b \<Longrightarrow> i \<le> j \<and> unit_cut (drop i s) (b - a) = Some (j - i)"
proof (induction s arbitrary: a b i j rule: unit_induct)
  case Nil
  then show ?case by (simp add: unit_cut_Nil split: if_splits)
next
  case (Step s w n)
  show ?case
  proof (cases "a = 0")
    case True
    then show ?thesis using Step by simp
  next
    case False
    obtain c where c: "unit_cut (drop n s) (a - w) = Some c" "i = n + c" "w \<le> a"
      using Step.prems(1) False unit_cut_step [OF Step(1,2), of a] by (auto split: if_splits)
    obtain d where d: "unit_cut (drop n s) (b - w) = Some d" "j = n + d"
      using Step.prems(2,3) False unit_cut_step [OF Step(1,2), of b] by (auto split: if_splits)
    from Step.IH [OF c(1) d(1)] Step.prems(3) c(2,3) d(2) show ?thesis by (simp add: add.commute)
  qed
qed

subsection \<open>Surrogate pairs\<close>

lemma unitAt_step:
  assumes "s \<noteq> []" "nextUnit s = (w, n)"
  shows "unitAt s 0 = Some (codeUnit s w)" "w = 2 \<Longrightarrow> unitAt s 1 = Some (lowCodeUnit s)"
    "0 < w \<Longrightarrow> w \<le> 2 \<Longrightarrow> w \<le> k \<Longrightarrow> unitAt s k = unitAt (drop n s) (k - w)"
  using assms by (simp_all add: unitAt.simps [of s] page_nextUnit) auto

lemma wide_units:
  assumes "nextUnit s = (2, n)"
  shows "55296 \<le> codeUnit s 2 \<and> codeUnit s 2 \<le> 56319" "56320 \<le> lowCodeUnit s \<and> lowCodeUnit s \<le> 57343"
proof -
  have r: "65535 < fst (DecodeRune s)"
    using assms by (auto simp: nextUnit_def Let_def split: prod.splits if_splits)
  note p = utf16_pair(1,2) [OF _ DecodeRune_range, of s]
  show "55296 \<le> codeUnit s 2 \<and> codeUnit s 2 \<le> 56319" using p(1) r by (simp add: codeUnit_def Let_def is_high_def)
  show "56320 \<le> lowCodeUnit s \<and> lowCodeUnit s \<le> 57343" using p(2) r by (simp add: lowCodeUnit_def is_low_def)
qed

lemma splits_shift:
  assumes "s \<noteq> []" "nextUnit s = (w, n)" "w = 1 \<or> w = 2" "w < k"
  shows "splitsSurrogatePair s k = splitsSurrogatePair (drop n s) (k - w)"
proof -
  have "unitAt s k = unitAt (drop n s) (k - w)" "unitAt s (k - 1) = unitAt (drop n s) (k - 1 - w)"
    using unitAt_step(3) [OF assms(1,2)] assms(3,4) by (auto simp: numeral_3_eq_3)
  moreover have "k - 1 - w = k - w - 1" by simp
  ultimately show ?thesis using assms(3,4) by (auto simp: splitsSurrogatePair_def)
qed

text \<open>A position is a boundary or falls into a pair; before a pair, one unit back is a boundary.\<close>

lemma cut_or_split:
  "k \<le> utf16Len s \<Longrightarrow> (unit_cut s k = None \<longrightarrow> splitsSurrogatePair s k) \<and> (splitsSurrogatePair s k \<longrightarrow> unit_cut s (k - 1) \<noteq> None)"
proof (induction s arbitrary: k rule: unit_induct)
  case Nil
  then show ?case by (simp add: utf16Len_Nil splitsSurrogatePair_def)
next
  case (Step s w n)
  note at = unitAt_step [OF Step(1,2)]
  consider "k = 0" | "k = 1" "w = 1" | "k = 1" "w = 2" | "k = 2" "w = 2" | "w < k" using Step(3) by linarith
  then show ?case
  proof cases
    case 1
    then show ?thesis by (simp add: splitsSurrogatePair_def)
  next
    case 2
    then show ?thesis using unit_cut_step [OF Step(1,2), of 1] by simp
  next
    case 3
    then show ?thesis using at(1,2) wide_units [of s n] Step(2) by (simp add: splitsSurrogatePair_def)
  next
    case 4
    then have "unitAt s 1 = Some (lowCodeUnit s)" "\<not> lowCodeUnit s \<le> 56319" using at(2) wide_units(2) [of s n] Step(2) by auto
    then have "\<not> splitsSurrogatePair s 2" by (auto simp: splitsSurrogatePair_def split: option.splits)
    then show ?thesis using 4 unit_cut_step [OF Step(1,2), of 2] by simp
  next
    case 5
    have "k - w \<le> utf16Len (drop n s)" using Step.prems utf16Len_step [OF Step(1,2)] by simp
    from Step.IH [OF this] show ?thesis
      using 5 Step(3) splits_shift [OF Step(1-3) 5] unit_cut_step [OF Step(1,2), of k] unit_cut_step [OF Step(1,2), of "k - 1"]
      by (auto simp: diff_commute [of k] numeral_3_eq_3)
  qed
qed

lemma part_end_cut:
  assumes "start < len" "len = utf16Len s"
  shows "unit_cut s (part_end s len start) \<noteq> None" "part_end s len start \<le> len" "part_end s len start \<le> start + partCharacters"
proof -
  let ?to = "min (start + partCharacters) len"
  have "?to \<le> utf16Len s" using assms(2) by simp
  note c = cut_or_split [OF this]
  show "unit_cut s (part_end s len start) \<noteq> None"
  proof (cases "?to < len \<and> splitsSurrogatePair s ?to")
    case True
    then show ?thesis using c by (simp add: part_end_def)
  next
    case False
    then have "?to = len \<or> unit_cut s ?to \<noteq> None" using c by (cases "?to < len") auto
    then show ?thesis using False unit_cut_whole [of s] assms(2) by (auto simp: part_end_def Let_def)
  qed
  show "part_end s len start \<le> len" "part_end s len start \<le> start + partCharacters"
    by (auto simp: part_end_def Let_def)
qed

subsection \<open>Text parts\<close>

lemma range_text:
  assumes "unit_cut s a = Some i" "unit_cut s b = Some j" "a \<le> b"
  shows "textRangeUnits s a b = take (j - i) (drop i s)" "length (sliceUTF16 s (int a)) \<le> length (sliceUTF16 s (int b))"
    "utf16Len (textRangeUnits s a b) = b - a"
proof -
  have sl: "sliceUTF16 s (int a) = take i s" "sliceUTF16 s (int b) = take j s"
    using unit_cut_slice(3) [OF assms(1), of 0] unit_cut_slice(3) [OF assms(2), of 0] by (simp_all add: sliceUTF16_def)
  have i: "i \<le> length s" using unit_cut_slice(1) [OF assms(1)] .
  note bt = unit_cut_between [OF assms]
  show t: "textRangeUnits s a b = take (j - i) (drop i s)" using i by (simp add: textRangeUnits_def sl drop_take min_def)
  show "length (sliceUTF16 s (int a)) \<le> length (sliceUTF16 s (int b))" using bt i by (simp add: sl)
  show "utf16Len (textRangeUnits s a b) = b - a" using unit_cut_take [OF conjunct2 [OF bt]] by (simp add: t)
qed

definition part_offset :: "message \<Rightarrow> int" where
  "part_offset m = (case m_TextOffset m of Some n \<Rightarrow> n | None \<Rightarrow> 0)"

lemma split_parts_exact:
  assumes "unit_cut (m_Text m) start = Some i" "start \<le> utf16Len (m_Text m)" "ps = split_parts m (utf16Len (m_Text m)) start"
  shows "concat (map m_Text ps) = drop i (m_Text m) \<and> (\<forall>p \<in> set ps. 0 < utf16Len (m_Text p) \<and> utf16Len (m_Text p) \<le> partCharacters) \<and>
    (\<forall>k < length ps. m_TextOffset (ps ! k) = Some (part_offset m + int start + int (\<Sum>p\<leftarrow>take k ps. utf16Len (m_Text p))))"
  using assms
proof (induction "utf16Len (m_Text m) - start" arbitrary: start i ps rule: less_induct)
  case less
  let ?len = "utf16Len (m_Text m)"
  show ?case
  proof (cases "start < ?len")
    case False
    then have "start = ?len" using less.prems(2) by simp
    then show ?thesis using less.prems(1,3) unit_cut_whole [of "m_Text m"] by (simp add: split_parts.simps)
  next
    case True
    let ?to = "part_end (m_Text m) ?len start"
    note pe = part_end_cut [OF True refl] and pr = part_end_progress [OF True, of "m_Text m"]
    obtain j where j: "unit_cut (m_Text m) ?to = Some j" using pe(1) by blast
    let ?rest = "split_parts m ?len ?to"
    have ps: "ps = text_part m ?len start ?to # ?rest"
      using less.prems(3) True by (simp add: split_parts.simps [of m ?len start] Let_def)
    note IH = less.hyps [OF _ j pe(2) refl]
    note rt = range_text [OF less.prems(1) j less_imp_le [OF pr]]
    have body: "m_Text (text_part m ?len start ?to) = take (j - i) (drop i (m_Text m))" "utf16Len (m_Text (text_part m ?len start ?to)) = ?to - start"
      using rt(1,3) by (simp_all add: text_part_def)
    have ij: "i \<le> j" using unit_cut_between [OF less.prems(1) j less_imp_le [OF pr]] by blast
    have "concat (map m_Text ps) = drop i (m_Text m)"
    proof -
      have "concat (map m_Text ps) = take (j - i) (drop i (m_Text m)) @ drop j (m_Text m)" using IH True pr by (simp add: ps body(1))
      also have "\<dots> = drop i (m_Text m)" using ij append_take_drop_id [of "j - i" "drop i (m_Text m)"] by simp
      finally show ?thesis .
    qed
    moreover have "\<forall>p \<in> set ps. 0 < utf16Len (m_Text p) \<and> utf16Len (m_Text p) \<le> partCharacters"
      using IH True pr pe(3) by (auto simp: ps body(2))
    moreover have "m_TextOffset (ps ! k) = Some (part_offset m + int start + int (\<Sum>p\<leftarrow>take k ps. utf16Len (m_Text p)))" if "k < length ps" for k
    proof (cases k)
      case 0
      then show ?thesis by (simp add: ps text_part_def part_offset_def)
    next
      case (Suc l)
      then show ?thesis using IH True pr that by (simp add: ps body(2) of_nat_diff)
    qed
    ultimately show ?thesis by blast
  qed
qed

lemma part_offset_Some: "m_TextOffset m = Some n \<Longrightarrow> part_offset m = n"
  by (simp add: part_offset_def)

subsection \<open>Cursors\<close>

lemma b64_value_char: "v < 64 \<Longrightarrow> b64_value (b64_char v) = Some v"
  by (auto simp: b64_value_def b64_char_def Let_def)

lemma b64_char_bytes:
  assumes "v < 64"
  shows "byte_of (b64_char v) \<noteq> 10 \<and> byte_of (b64_char v) \<noteq> 13 \<and> byte_of (b64_char v) \<noteq> 43 \<and> byte_of (b64_char v) \<noteq> 47 \<and> byte_of (b64_char v) \<noteq> 61"
  using assms by (auto simp: b64_char_def)

lemma b64_char_plain:
  assumes "v < 64"
  shows "byte_of (b64_char v) \<noteq> 10" "byte_of (b64_char v) \<noteq> 13" "b64_char v \<noteq> CHR ''+''" "b64_char v \<noteq> CHR ''/''" "b64_char v \<noteq> CHR ''=''"
  using b64_char_bytes [OF assms] by (auto dest: arg_cong [where f = byte_of])

fun b64_digits :: "nat list \<Rightarrow> nat list" where
  "b64_digits [] = []"
| "b64_digits [a] = [a div 4, a mod 4 * 16]"
| "b64_digits [a, b] = [a div 4, a mod 4 * 16 + b div 16, b mod 16 * 4]"
| "b64_digits (a # b # c # r) = [a div 4, a mod 4 * 16 + b div 16, b mod 16 * 4 + c div 64, c mod 64] @ b64_digits r"

lemma b64_encode_digits: "b64_encode bs = map b64_char (b64_digits bs)"
  by (induction bs rule: b64_encode.induct) simp_all

lemma b64_digit_bounds:
  fixes a b c :: nat
  assumes "a < 256" "b < 256" "c < 256"
  shows "a div 4 < 64" "a mod 4 * 16 < 64" "a mod 4 * 16 + b div 16 < 64" "b mod 16 * 4 < 64" "b mod 16 * 4 + c div 64 < 64"
proof -
  have "a mod 4 \<le> 3" "b mod 16 \<le> 15" "b div 16 \<le> 15" "c div 64 \<le> 3" "a div 4 \<le> 63" using assms by auto
  then show "a div 4 < 64" "a mod 4 * 16 < 64" "a mod 4 * 16 + b div 16 < 64" "b mod 16 * 4 < 64" "b mod 16 * 4 + c div 64 < 64"
    by linarith+
qed

lemma b64_digits_bound: "\<forall>x \<in> set bs. x < 256 \<Longrightarrow> \<forall>v \<in> set (b64_digits bs). v < 64"
  by (induction bs rule: b64_digits.induct) (auto simp: b64_digit_bounds [of _ 0 0] b64_digit_bounds)

lemma b64_group:
  fixes a b c :: nat
  assumes "a < 256" "b < 256" "c < 256"
  shows "a div 4 * 4 + (a mod 4 * 16) div 16 = a" "a div 4 * 4 + (a mod 4 * 16 + b div 16) div 16 = a"
    "(a mod 4 * 16 + b div 16) mod 16 * 16 + (b mod 16 * 4) div 4 = b"
    "(a mod 4 * 16 + b div 16) mod 16 * 16 + (b mod 16 * 4 + c div 64) div 4 = b"
    "(b mod 16 * 4 + c div 64) mod 4 * 64 + c mod 64 = c"
proof -
  have q: "b div 16 < 16" "c div 64 < 4" using assms by auto
  show "a div 4 * 4 + (a mod 4 * 16) div 16 = a" by simp
  have e: "(a mod 4 * 16 + b div 16) div 16 = a mod 4" "(a mod 4 * 16 + b div 16) mod 16 = b div 16" using q by simp_all
  have f: "(b mod 16 * 4 + c div 64) div 4 = b mod 16" "(b mod 16 * 4 + c div 64) mod 4 = c div 64" using q by simp_all
  show "a div 4 * 4 + (a mod 4 * 16 + b div 16) div 16 = a" unfolding e by simp
  show "(a mod 4 * 16 + b div 16) mod 16 * 16 + (b mod 16 * 4) div 4 = b" unfolding e by simp
  show "(a mod 4 * 16 + b div 16) mod 16 * 16 + (b mod 16 * 4 + c div 64) div 4 = b" unfolding e f by simp
  show "(b mod 16 * 4 + c div 64) mod 4 * 64 + c mod 64 = c" unfolding f by simp
qed

lemma b64_bytes_digits: "\<forall>x \<in> set bs. x < 256 \<Longrightarrow> b64_bytes (b64_digits bs) = Some bs"
proof (induction bs rule: b64_digits.induct)
  case (4 a b c r)
  then show ?case using b64_group(2,4,5) [of a b c] by simp
next
  case (3 a b)
  then show ?case using b64_group(2,3) [of a b 0] by simp
qed (simp_all add: b64_group)

lemma decode_encode: "decodeBase64URL (b64_encode (map byte_of s)) = Some s"
proof -
  let ?d = "b64_digits (map byte_of s)"
  have bytes: "\<forall>x \<in> set (map byte_of s). x < 256" by auto
  note d = b64_digits_bound [OF bytes]
  have plain: "map (\<lambda>c. if c = CHR ''+'' then CHR ''-'' else if c = CHR ''/'' then CHR ''_'' else c) (map b64_char ?d) = map b64_char ?d"
    using d b64_char_plain by simp
  have pad: "dropWhile (\<lambda>c. c = CHR ''='') (rev (map b64_char ?d)) = rev (map b64_char ?d)"
    by (rule dropWhile_id) (use d b64_char_plain in auto)
  have brk: "filter (\<lambda>c. byte_of c \<noteq> 10 \<and> byte_of c \<noteq> 13) (map b64_char ?d) = map b64_char ?d"
    by (rule filter_True) (use d b64_char_plain in auto)
  have val: "map b64_value (map b64_char ?d) = map Some ?d" using d b64_value_char by simp
  show ?thesis
    unfolding decodeBase64URL_def b64_encode_digits plain Let_def pad rev_rev_ident b64_decode_def brk val
    using b64_bytes_digits [OF bytes] by (simp add: comp_def)
qed

definition before_cursor :: "string \<Rightarrow> string \<Rightarrow> message \<Rightarrow> page_cursor" where
  "before_cursor ident native m = \<lparr>pc_ID = ident, pc_Native = nativePointer native, pc_Before = Some (m_ID m), pc_Through = None\<rparr>"

lemma HasPrefix_append [simp]: "HasPrefix (p @ s) p"
  by (simp add: HasPrefix_def)

lemma cursor_roundtrip:
  assumes "unmarshal (cursor_json (before_cursor ident native m)) = Some (before_cursor ident native m)"
    and "m_ID m \<noteq> []" "utf16Len (m_ID m) \<le> maxAnchorUnits" "utf16Len (encodePageCursor prefix (before_cursor ident native m)) \<le> maxCursorUnits"
  shows "decodeHistoryCursor unmarshal (encodePageCursor prefix (before_cursor ident native m))
    (drop (length prefix) (encodePageCursor prefix (before_cursor ident native m))) ident = Some (before_cursor ident native m)"
  using assms decode_encode [of "cursor_json (before_cursor ident native m)"]
  by (simp add: decodeHistoryCursor_def encodePageCursor_def) (simp add: before_cursor_def)

subsection \<open>The window\<close>

lemma window_splits:
  assumes "window show_message nodes xs spent kept = Inr (ms, earlier)"
  shows "\<exists>taken. xs = taken @ earlier \<and> ms = rev (map show_message taken) @ kept \<and> length ms \<le> max (length kept) maxMessages \<and>
    (spent \<le> MaxConversationPageBytes \<longrightarrow> spent + (\<Sum>m\<leftarrow>taken. message_cost nodes (show_message m)) \<le> MaxConversationPageBytes) \<and>
    (xs \<noteq> [] \<and> kept = [] \<longrightarrow> taken \<noteq> [])"
  using assms
proof (induction xs arbitrary: spent kept)
  case Nil
  then show ?case by simp
next
  case (Cons m xs)
  let ?c = "message_cost nodes (show_message m)"
  consider (full) "maxMessages \<le> length kept" | (large) "length kept < maxMessages" "MaxConversationPageBytes < spent + ?c"
    | (take) "length kept < maxMessages" "spent + ?c \<le> MaxConversationPageBytes" by linarith
  then show ?case
  proof cases
    case full
    then show ?thesis using Cons.prems by (auto simp: maxMessages_def)
  next
    case large
    then show ?thesis using Cons.prems by (auto simp: Let_def split: if_splits)
  next
    case take
    then have "window show_message nodes xs (spent + ?c) (show_message m # kept) = Inr (ms, earlier)"
      using Cons.prems by (simp add: Let_def)
    from Cons.IH [OF this] obtain taken where t: "xs = taken @ earlier" "ms = rev (map show_message taken) @ show_message m # kept"
      "length ms \<le> max (length (show_message m # kept)) maxMessages"
      "spent + ?c \<le> MaxConversationPageBytes \<longrightarrow> spent + ?c + (\<Sum>m\<leftarrow>taken. message_cost nodes (show_message m)) \<le> MaxConversationPageBytes"
      by blast
    then show ?thesis using take by (intro exI [of _ "m # taken"]) auto
  qed
qed

lemma window_succeeds:
  "kept \<noteq> [] \<or> (\<forall>m \<in> set xs. spent + message_cost nodes (show_message m) \<le> MaxConversationPageBytes) \<Longrightarrow>
   \<exists>r. window show_message nodes xs spent kept = Inr r"
proof (induction xs arbitrary: spent kept)
  case (Cons m xs)
  show ?case
  proof (cases "maxMessages \<le> length kept \<or> MaxConversationPageBytes < spent + message_cost nodes (show_message m)")
    case True
    then show ?thesis using Cons.prems by (auto simp: Let_def)
  next
    case False
    then show ?thesis using Cons.IH [of "show_message m # kept"] by (simp add: Let_def)
  qed
qed simp

lemma presentation_ID [simp]: "m_ID (presentationMessage links m) = m_ID m"
  by (simp add: presentationMessage_def split: option.split)

lemma index_of_nth: "distinct (map m_ID ms) \<Longrightarrow> k < length ms \<Longrightarrow> index_of (m_ID (ms ! k)) ms = Some k"
proof (induction ms arbitrary: k)
  case (Cons m ms)
  then show ?case by (cases k) (auto intro: nth_mem imageI)
qed simp

subsection \<open>Following the cursors\<close>

text \<open>
  What a stable history needs for paging: the page read again is the same page, its messages have
  distinct anchors whose cursors decode, and each of them fits beside the metadata.
\<close>

definition page_budget :: "page_options \<Rightarrow> conversation_page \<Rightarrow> nat" where
  "page_budget options page =
     length (Marshal_page (page\<lparr>cp_Messages := [], cp_Nodes := (if o_IncludeMetadata options then [] else cp_Nodes page)\<rparr>)) + reservedMetadataBytes"

definition anchors_ok :: "(string \<Rightarrow> page_cursor option) \<Rightarrow> page_options \<Rightarrow> string \<Rightarrow> string \<Rightarrow> message list \<Rightarrow> bool" where
  "anchors_ok unmarshal options ident native ms \<longleftrightarrow> distinct (map m_ID ms) \<and>
     (\<forall>m \<in> set ms. m_ID m \<noteq> [] \<and> utf16Len (m_ID m) \<le> maxAnchorUnits \<and>
        utf16Len (encodePageCursor (cursorPrefix (o_Layer options)) (before_cursor ident native m)) \<le> maxCursorUnits \<and>
        unmarshal (cursor_json (before_cursor ident native m)) = Some (before_cursor ident native m))"

definition fits :: "(string \<Rightarrow> string list) \<Rightarrow> page_options \<Rightarrow> conversation_page \<Rightarrow> bool" where
  "fits links options page \<longleftrightarrow> page_budget options page \<le> MaxConversationPageBytes \<and>
     (\<forall>m \<in> set (cp_Messages page). page_budget options page + message_cost (o_IncludeMetadata options) (presentationMessage links m) \<le> MaxConversationPageBytes)"

lemma cut_page_slice:
  assumes "fits links options page" "to \<le> length (cp_Messages page)"
  shows "\<exists>r start. cut_page links options ident native page to = Inr r \<and>
    cp_Messages r = map (presentationMessage links) (drop start (take to (cp_Messages page))) \<and> start \<le> to \<and> (0 < to \<longrightarrow> start < to) \<and>
    length (cp_Messages r) \<le> maxMessages \<and>
    cp_NextCursor r = (if start = 0 then cp_NextCursor page
      else Some (encodePageCursor (cursorPrefix (o_Layer options)) (before_cursor ident native (cp_Messages page ! start))))"
proof -
  let ?show = "presentationMessage links" and ?nodes = "o_IncludeMetadata options" and ?b = "page_budget options page"
  let ?xs = "take to (cp_Messages page)"
  have "\<forall>m \<in> set (rev ?xs). ?b + message_cost ?nodes (?show m) \<le> MaxConversationPageBytes"
    using assms(1) set_take_subset [of to "cp_Messages page"] by (auto simp: fits_def)
  then obtain ms earlier where w: "window ?show ?nodes (rev ?xs) ?b [] = Inr (ms, earlier)"
    using window_succeeds [where kept = "[]" and xs = "rev ?xs" and nodes = ?nodes and show_message = ?show] by fastforce
  from window_splits [OF w] obtain taken where t0: "rev ?xs = taken @ earlier" "ms = rev (map ?show taken) @ []" "length ms \<le> max (length ([] :: message list)) maxMessages"
    "rev ?xs \<noteq> [] \<and> ([] :: message list) = [] \<longrightarrow> taken \<noteq> []"
    by (elim exE conjE) (rule that; assumption)
  have t4: "?xs \<noteq> [] \<longrightarrow> taken \<noteq> []" using t0(4) unfolding rev_is_Nil_conv by blast
  have t: "rev ?xs = taken @ earlier" "ms = rev (map ?show taken)" "length ms \<le> maxMessages" using t0(1-3) by simp_all
  let ?start = "length earlier"
  have xs: "?xs = rev earlier @ rev taken" using arg_cong [OF t(1), of rev] by simp
  have ms: "ms = map ?show (drop ?start ?xs)" by (simp add: t(2) xs rev_map)
  have len: "length ?xs = to" using assms(2) by simp
  have start: "?start \<le> to" "0 < to \<longrightarrow> ?start < to" using len t4 arg_cong [OF xs, of length] by (cases taken; auto)+
  have hd: "m_ID (hd ms) = m_ID (cp_Messages page ! ?start)" if "earlier \<noteq> []"
  proof -
    have "?start < to" using that xs len start by (cases to) auto
    then have "hd (drop ?start ?xs) = cp_Messages page ! ?start" using len by (simp add: hd_drop_conv_nth)
    moreover have "drop ?start ?xs \<noteq> []" using \<open>?start < to\<close> len by simp
    ultimately show ?thesis by (simp add: ms hd_map)
  qed
  have not_over: "\<not> MaxConversationPageBytes < ?b" using assms(1) by (simp add: fits_def)
  have cut: "cut_page links options ident native page to = Inr (page\<lparr>cp_Messages := ms,
     cp_NextCursor := (if earlier = [] then cp_NextCursor page
       else Some (encodePageCursor (cursorPrefix (o_Layer options)) \<lparr>pc_ID = ident, pc_Native = nativePointer native, pc_Before = Some (m_ID (hd ms)), pc_Through = None\<rparr>)),
     cp_PageCursor := (if ms = [] then cp_PageCursor page
       else Some (encodePageCursor (cursorPrefix (o_Layer options)) \<lparr>pc_ID = ident, pc_Native = nativePointer native, pc_Before = None, pc_Through = Some (m_ID (last ms))\<rparr>)),
     cp_Nodes := (if ?nodes then map MessageNode ms else cp_Nodes page)\<rparr>)"
    using w not_over by (simp add: cut_page_def Let_def page_budget_def)
  show ?thesis unfolding cut using ms t(3) start hd
    by (intro exI conjI) (rule refl | simp add: before_cursor_def)+
qed

text \<open>A client that reads a page and follows its cursor as long as the pager made it, with the cursor it is left with.\<close>

fun follow :: "nat \<Rightarrow> (string \<Rightarrow> page_error + conversation_page) \<Rightarrow> string \<Rightarrow> string \<Rightarrow> (message list list \<times> string option) option" where
  "follow 0 read prefix cursor = None"
| "follow (Suc n) read prefix cursor =
     (case read cursor of
        Inl _ \<Rightarrow> None
      | Inr p \<Rightarrow>
          (case cp_NextCursor p of
             Some c \<Rightarrow>
               if HasPrefix c prefix then map_option (\<lambda>(pages, rest). (pages @ [cp_Messages p], rest)) (follow n read prefix c)
               else Some ([cp_Messages p], Some c)
           | None \<Rightarrow> Some ([cp_Messages p], None)))"

definition pageable :: "(string \<Rightarrow> string list) \<Rightarrow> (string \<Rightarrow> page_cursor option) \<Rightarrow> (string \<Rightarrow> page_error + conversation_page) \<Rightarrow>
    page_options \<Rightarrow> string \<Rightarrow> string \<Rightarrow> conversation_page \<Rightarrow> bool" where
  "pageable links unmarshal source options ident cursor page \<longleftrightarrow>
     (let prefix = cursorPrefix (o_Layer options); native = (case cp_PageCursor page of Some c \<Rightarrow> c | None \<Rightarrow> cursor)
      in \<not> HasPrefix cursor prefix \<and> source cursor = Inr page \<and> source native = Inr page \<and>
         (\<forall>c \<in> set_option (cp_NextCursor page). \<not> HasPrefix c prefix) \<and>
         anchors_ok unmarshal options ident native (cp_Messages (display_page options page)) \<and> fits links options (display_page options page))"

lemma display_fields: "cp_NextCursor (display_page options page) = cp_NextCursor page" "cp_PageCursor (display_page options page) = cp_PageCursor page"
  by (simp_all add: display_page_def Let_def)

lemma read_first:
  assumes "pageable links unmarshal source options ident cursor page"
  shows "ReadConversationPage links unmarshal source options ident cursor =
    cut_page links options ident (case cp_PageCursor page of Some c \<Rightarrow> c | None \<Rightarrow> cursor) (display_page options page)
      (length (cp_Messages (display_page options page)))"
  using assms by (simp add: pageable_def ReadConversationPage_def Let_def window_end_def)

lemma read_before:
  assumes "pageable links unmarshal source options ident cursor page" "k < length (cp_Messages (display_page options page))"
  defines "native \<equiv> (case cp_PageCursor page of Some c \<Rightarrow> c | None \<Rightarrow> cursor)"
  shows "ReadConversationPage links unmarshal source options ident
      (encodePageCursor (cursorPrefix (o_Layer options)) (before_cursor ident native (cp_Messages (display_page options page) ! k))) =
    cut_page links options ident native (display_page options page) k"
proof -
  let ?ms = "cp_Messages (display_page options page)" and ?prefix = "cursorPrefix (o_Layer options)"
  let ?p = "before_cursor ident native (?ms ! k)"
  have a: "anchors_ok unmarshal options ident native ?ms" "source native = Inr page"
    using assms(1) by (simp_all add: pageable_def Let_def native_def)
  have "?ms ! k \<in> set ?ms" using assms(2) by simp
  then have "decodeHistoryCursor unmarshal (encodePageCursor ?prefix ?p) (drop (length ?prefix) (encodePageCursor ?prefix ?p)) ident = Some ?p"
    using a(1) by (intro cursor_roundtrip) (auto simp: anchors_ok_def)
  moreover have "HasPrefix (encodePageCursor ?prefix ?p) ?prefix" by (simp add: encodePageCursor_def)
  moreover have "(case pc_Native ?p of None \<Rightarrow> [] | Some n \<Rightarrow> n) = native" by (simp add: before_cursor_def nativePointer_def)
  moreover have "index_of (m_ID (?ms ! k)) ?ms = Some k" using a(1) assms(2) by (intro index_of_nth) (auto simp: anchors_ok_def)
  moreover have "(case cp_PageCursor page of None \<Rightarrow> native | Some c \<Rightarrow> c) = native" by (simp add: native_def split: option.split)
  ultimately show ?thesis using a(2)
    by (simp add: ReadConversationPage_def Let_def window_end_def) (simp add: before_cursor_def)
qed

lemma follow_collects:
  assumes "pageable links unmarshal source options ident cursor page"
  defines "native \<equiv> (case cp_PageCursor page of Some c \<Rightarrow> c | None \<Rightarrow> cursor)" and "ms \<equiv> cp_Messages (display_page options page)"
    and "read \<equiv> ReadConversationPage links unmarshal source options ident"
  shows "to \<le> length ms \<Longrightarrow> to < n \<Longrightarrow> read c = cut_page links options ident native (display_page options page) to \<Longrightarrow>
    \<exists>pages. follow n read (cursorPrefix (o_Layer options)) c = Some (pages, cp_NextCursor page) \<and>
      concat pages = map (presentationMessage links) (take to ms) \<and> (\<forall>p \<in> set pages. length p \<le> maxMessages)"
proof (induction n arbitrary: to c)
  case 0
  then show ?case by simp
next
  case (Suc n)
  let ?prefix = "cursorPrefix (o_Layer options)"
  have fit: "fits links options (display_page options page)" and next_plain: "\<forall>c \<in> set_option (cp_NextCursor page). \<not> HasPrefix c ?prefix"
    using assms(1) by (simp_all add: pageable_def Let_def)
  obtain r start where r: "cut_page links options ident native (display_page options page) to = Inr r"
    "cp_Messages r = map (presentationMessage links) (drop start (take to ms))" "start \<le> to" "0 < to \<longrightarrow> start < to" "length (cp_Messages r) \<le> maxMessages"
    "cp_NextCursor r = (if start = 0 then cp_NextCursor (display_page options page)
      else Some (encodePageCursor ?prefix (before_cursor ident native (ms ! start))))"
    using cut_page_slice [OF fit, of to ident native] Suc.prems(1) unfolding ms_def by blast
  have read: "read c = Inr r" using Suc.prems(3) r(1) by simp
  show ?case
  proof (cases "start = 0")
    case True
    then have "follow (Suc n) read ?prefix c = Some ([cp_Messages r], cp_NextCursor page)"
      using read r(6) next_plain by (auto simp: display_fields split: option.split)
    then show ?thesis using True r(2,5) by simp
  next
    case False
    then have start: "start < length ms" "start < n" using r(3,4) Suc.prems(1,2) by auto
    let ?c = "encodePageCursor ?prefix (before_cursor ident native (ms ! start))"
    have "read ?c = cut_page links options ident native (display_page options page) start"
      using read_before [OF assms(1)] start(1) unfolding read_def native_def ms_def .
    from Suc.IH [OF less_imp_le [OF start(1)] start(2) this] obtain pages where pages:
      "follow n read ?prefix ?c = Some (pages, cp_NextCursor page)" "concat pages = map (presentationMessage links) (take start ms)"
      "\<forall>p \<in> set pages. length p \<le> maxMessages" by blast
    have "follow (Suc n) read ?prefix c = Some (pages @ [cp_Messages r], cp_NextCursor page)"
      using read r(6) False pages(1) by (simp add: encodePageCursor_def)
    moreover have "take start ms @ drop start (take to ms) = take to ms" using r(3) by (metis append_take_drop_id min.absorb1 take_take)
    then have "concat (pages @ [cp_Messages r]) = map (presentationMessage links) (take to ms)"
      using pages(2) r(2) by (metis concat.simps concat_append append_Nil2 map_append)
    ultimately show ?thesis using pages(3) r(5) by (intro exI [of _ "pages @ [cp_Messages r]"]) auto
  qed
qed

subsection \<open>The size of a page\<close>

definition weight :: "string list \<Rightarrow> nat" where
  "weight xs = (\<Sum>x\<leftarrow>xs. Suc (length x))"

lemma weight_simps [simp]: "weight [] = 0" "weight (x # xs) = Suc (length x) + weight xs" "weight (xs @ ys) = weight xs + weight ys"
  by (simp_all add: weight_def)

lemma weight_join: "xs \<noteq> [] \<Longrightarrow> Suc (length (join '','' xs)) = weight xs"
  by (induction xs rule: induct_list012) auto

lemma object_length: "xs \<noteq> [] \<Longrightarrow> length (go_json_object xs) = Suc (weight xs)"
  using weight_join [of xs] by (simp add: go_json_object_def)

lemma array_length: "length (json_array xs) \<le> 2 + weight xs" "xs \<noteq> [] \<Longrightarrow> length (json_array xs) = Suc (weight xs)" "length (json_array []) = 2"
  using weight_join [of xs] by (cases "xs = []"; simp add: json_array_def)+

lemma key_lengths: "length (go_quote_raw ''nodes'') = 7" "length (go_quote_raw ''pageCursor'') = 12"
  by (simp_all add: plain_json)

definition cursor_room :: "conversation_page \<Rightarrow> nat" where
  "cursor_room p = length (raw_pointer (cp_NextCursor p)) + (case cp_PageCursor p of None \<Rightarrow> 0 | Some c \<Rightarrow> length (go_quote c))"

lemma page_json_growth:
  assumes "nodes \<longrightarrow> cp_Nodes p = []"
  shows "length (page_json (p\<lparr>cp_Messages := ms, cp_NextCursor := nc, cp_PageCursor := pc, cp_Nodes := (if nodes then map MessageNode ms else cp_Nodes p)\<rparr>)) \<le>
    length (page_json (p\<lparr>cp_Messages := []\<rparr>)) + (\<Sum>m\<leftarrow>ms. message_cost nodes m) + 24 +
      length (raw_pointer nc) + (case pc of None \<Rightarrow> 0 | Some c \<Rightarrow> length (go_quote c))"
proof -
  have costs: "weight (map message_json ms) + (if nodes then weight (map (\<lambda>m. node_json (MessageNode m)) ms) else 0) = (\<Sum>m\<leftarrow>ms. message_cost nodes m)"
    by (induction ms) (auto simp: message_cost_def)
  have pcw: "weight (optional_member ''pageCursor'' (map_option go_quote pc)) \<le> 14 + (case pc of None \<Rightarrow> 0 | Some c \<Rightarrow> length (go_quote c))"
    by (cases pc) (simp_all add: optional_member_def key_lengths)
  have nw: "weight (nonempty_array ''nodes'' (map node_json (if nodes then map MessageNode ms else cp_Nodes p))) \<le>
      weight (nonempty_array ''nodes'' (map node_json (cp_Nodes p))) + 10 + (if nodes then weight (map (\<lambda>m. node_json (MessageNode m)) ms) else 0)"
    using array_length(2) [of "map (\<lambda>m. node_json (MessageNode m)) ms"] assms
    by (cases "ms = []") (auto simp: nonempty_array_def optional_member_def key_lengths comp_def)
  have mw: "weight (member ''messages'' (json_array (map message_json ms))) \<le> weight (member ''messages'' (json_array [])) + weight (map message_json ms)"
    using array_length(1) [of "map message_json ms"] array_length(3) by (simp add: member_def optional_member_def)
  have cw: "weight (member ''nextCursor'' (raw_pointer nc)) \<le> weight (member ''nextCursor'' (raw_pointer nc')) + length (raw_pointer nc)" for nc'
    by (simp add: member_def optional_member_def)
  have nonempty: "member k v \<noteq> []" for k v by (simp add: member_def optional_member_def)
  have len: "length (page_json q) = Suc (weight (optional_member ''access'' (map_option access_json (cp_Access q))) +
        weight (optional_member ''pageCursor'' (map_option go_quote (cp_PageCursor q))) +
        weight (nonempty_array ''nodes'' (map node_json (cp_Nodes q))) +
        weight (member ''messages'' (json_array (map message_json (cp_Messages q)))) +
        weight (member ''nextCursor'' (raw_pointer (cp_NextCursor q))) +
        weight (member ''queued'' (case cp_Queued q of None \<Rightarrow> ''null'' | Some qs \<Rightarrow> json_array (map queued_json qs))) +
        weight (optional_member ''runtime'' (map_option runtime_json (cp_Runtime q))) +
        weight (nonempty_array ''inputReceipts'' (map receipt_json (cp_InputReceipts q))))" for q
    unfolding page_json_def by (subst object_length) (simp_all add: nonempty)
  show ?thesis unfolding len using costs pcw nw mw cw [of "cp_NextCursor p"] by simp
qed

lemma cut_page_bounded:
  assumes "cut_page links options ident native page to = Inr r"
  shows "length (cp_Messages r) \<le> maxMessages"
    and "cursor_room r \<le> 16360 \<Longrightarrow> length (Marshal_page r) \<le> MaxConversationPageBytes"
proof -
  let ?show = "presentationMessage links" and ?nodes = "o_IncludeMetadata options"
  let ?meta = "page\<lparr>cp_Nodes := (if ?nodes then [] else cp_Nodes page)\<rparr>"
  have meta: "?nodes \<longrightarrow> cp_Nodes ?meta = []" by simp
  have b: "page_budget options page = length (Marshal_page (?meta\<lparr>cp_Messages := []\<rparr>)) + reservedMetadataBytes" by (cases page) (simp add: page_budget_def)
  obtain ms earlier where w: "page_budget options page \<le> MaxConversationPageBytes"
    "window ?show ?nodes (rev (take to (cp_Messages page))) (page_budget options page) [] = Inr (ms, earlier)"
    "cp_Messages r = ms" "cp_Runtime r = cp_Runtime page"
    "r = ?meta\<lparr>cp_Messages := ms, cp_NextCursor := cp_NextCursor r, cp_PageCursor := cp_PageCursor r, cp_Nodes := (if ?nodes then map MessageNode ms else cp_Nodes ?meta)\<rparr>"
    using assms by (auto simp: cut_page_def Let_def page_budget_def split: if_splits)
  from window_splits [OF w(2)] obtain taken where t: "ms = rev (map ?show taken) @ []" "length ms \<le> max (length ([] :: message list)) maxMessages"
    "page_budget options page \<le> MaxConversationPageBytes \<longrightarrow> page_budget options page + (\<Sum>m\<leftarrow>taken. message_cost ?nodes (?show m)) \<le> MaxConversationPageBytes"
    by (elim exE conjE) (rule that; assumption)
  show "length (cp_Messages r) \<le> maxMessages" using t(2) w(3) by simp
  have cost: "(\<Sum>m\<leftarrow>ms. message_cost ?nodes m) = (\<Sum>m\<leftarrow>taken. message_cost ?nodes (?show m))"
    by (simp add: t(1) rev_map [symmetric] sum_list_rev comp_def)
  assume room: "cursor_room r \<le> 16360"
  show "length (Marshal_page r) \<le> MaxConversationPageBytes"
  proof (cases "case cp_Runtime page of None \<Rightarrow> True | Some rt \<Rightarrow> finite_number (r_ContextTokens rt) \<and> finite_number (r_ContextWindow rt)")
    case False
    then have "Marshal_page r = ''null''" using w(4) by (simp add: Marshal_page_def)
    then show ?thesis by (simp add: MaxConversationPageBytes_def)
  next
    case True
    then have m: "Marshal_page r = page_json r" "Marshal_page (?meta\<lparr>cp_Messages := []\<rparr>) = page_json (?meta\<lparr>cp_Messages := []\<rparr>)"
      using w(4) by (simp_all add: Marshal_page_def)
    have "length (page_json r) \<le> length (page_json (?meta\<lparr>cp_Messages := []\<rparr>)) + (\<Sum>m\<leftarrow>ms. message_cost ?nodes m) + 24 + cursor_room r"
      using page_json_growth [OF meta, where ms = ms and nc = "cp_NextCursor r" and pc = "cp_PageCursor r"]
      unfolding w(5) [symmetric] cursor_room_def by (simp only: add.assoc)
    then show ?thesis using room t(3) w(1) cost b m by (simp add: reservedMetadataBytes_def)
  qed
qed

subsection \<open>Properties\<close>

text \<open>
  C17. Following the cursors of a stable history ends and shows every displayed message exactly once, in
  native order, in pages of at most 128 messages, and leaves the client with the cursor of the source.
\<close>

theorem paging_complete:
  assumes "pageable links unmarshal source options ident cursor page"
    and "length (cp_Messages (display_page options page)) < n"
  shows "\<exists>pages. follow n (ReadConversationPage links unmarshal source options ident) (cursorPrefix (o_Layer options)) cursor = Some (pages, cp_NextCursor page) \<and>
    concat pages = map (presentationMessage links) (cp_Messages (display_page options page)) \<and> (\<forall>p \<in> set pages. length p \<le> 128)"
  using follow_collects [OF assms(1) order_refl assms(2) read_first [OF assms(1)]] by (simp add: maxMessages_def)

definition two_messages :: conversation_page where
  "two_messages = \<lparr>cp_Access = None, cp_PageCursor = None, cp_Nodes = [],
     cp_Messages = [plain_message ''a'' ''t'' None ''user'' (Fin 0) ''hi'' None, plain_message ''b'' ''t'' None ''assistant'' (Fin 0) ''ok'' None],
     cp_NextCursor = None, cp_Queued = None, cp_Runtime = None, cp_InputReceipts = []\<rparr>"

definition plain_options :: page_options where
  "plain_options = \<lparr>o_Layer = [], o_ExcludedTurns = [], o_IncludeMetadata = False\<rparr>"

lemma two_displayed:
  "cp_Messages (display_page plain_options two_messages) =
    [plain_message ''a'' ''t'' None ''user'' (Fin 0) ''hi'' None,
     (plain_message ''b'' ''t'' None ''assistant'' (Fin 0) ''ok'' None)\<lparr>m_GroupID := ''remote-group:t:a''\<rparr>]"
  by (simp add: display_page_def two_messages_def plain_options_def assignGroupIDs_def group_message_def groupUser_def plain_message_def
      splitTextParts_def split_message_def utf16Len_ascii partCharacters_def Let_def)

lemmas eval_page_json = message_json_def optional_member_def nonempty_member_def member_def json_array_def raw_pointer_def nonempty_array_def
  go_json_object_def plain_message_def plain_json Number_MarshalJSON_def jsNumberString_def bool_json_def

lemma two_budget: "page_budget plain_options (display_page plain_options two_messages) = 16431"
  unfolding page_budget_def two_displayed
  by (simp add: display_page_def two_messages_def plain_options_def Marshal_page_def page_json_def eval_page_json reservedMetadataBytes_def Let_def)

lemma two_costs: "\<forall>m \<in> set (cp_Messages (display_page plain_options two_messages)). message_cost False (presentationMessage (\<lambda>_. []) m) \<le> 200"
  unfolding two_displayed by (simp add: message_cost_def presentationMessage_def eval_page_json)

lemma two_fits: "fits (\<lambda>_. []) plain_options (display_page plain_options two_messages)"
  using two_costs unfolding fits_def two_budget
  by (auto simp: plain_options_def MaxConversationPageBytes_def dest!: bspec intro: order_trans [OF add_left_mono])

definition anchor_at :: "string \<Rightarrow> page_cursor" where
  "anchor_at i = \<lparr>pc_ID = ''s'', pc_Native = None, pc_Before = Some i, pc_Through = None\<rparr>"

definition two_unmarshal :: "string \<Rightarrow> page_cursor option" where
  "two_unmarshal s = find (\<lambda>p. cursor_json p = s) [anchor_at ''a'', anchor_at ''b'']"

lemma two_cursor_json: "cursor_json (anchor_at ''a'') \<noteq> cursor_json (anchor_at ''b'')"
  "length (cursor_json (anchor_at ''a'')) \<le> 100" "length (cursor_json (anchor_at ''b'')) \<le> 100"
  by (simp_all add: cursor_json_def anchor_at_def eval_page_json)

lemma two_ids: "m \<in> set (cp_Messages (display_page plain_options two_messages)) \<Longrightarrow> m_ID m = ''a'' \<or> m_ID m = ''b''"
  "map m_ID (cp_Messages (display_page plain_options two_messages)) = [''a'', ''b'']"
  unfolding two_displayed by (auto simp: plain_message_def)

lemma two_before: "before_cursor ''s'' [] m = anchor_at (m_ID m)"
  by (simp add: before_cursor_def anchor_at_def nativePointer_def)

lemma utf16Len_le: "utf16Len s \<le> length s"
proof (induction s rule: unit_induct)
  case (Step s w n)
  have "w \<le> n"
  proof (cases "w = 1")
    case False
    then have "65535 < fst (DecodeRune s)" "n = snd (DecodeRune s)"
      using Step(2) by (auto simp: nextUnit_def Let_def split: prod.splits if_splits)
    moreover have "snd (DecodeRune s) \<noteq> 1" if "65535 < fst (DecodeRune s)"
      using that byte_of_less [of "hd s"] by (cases s) (auto simp: Let_def RuneError_def split: list.splits if_splits)
    ultimately show ?thesis using Step(3,4) False by auto
  qed (use Step(4) in simp)
  then show ?case using Step.IH utf16Len_step [OF Step(1,2)] Step(5) by simp
qed (simp add: utf16Len_Nil)

lemma b64_encode_length: "length (b64_encode bs) \<le> 2 * length bs"
  by (induction bs rule: b64_encode.induct) simp_all

lemma cursor_units: "utf16Len (encodePageCursor prefix p) \<le> length prefix + 2 * length (cursor_json p)"
  using utf16Len_le [of "encodePageCursor prefix p"] b64_encode_length [of "map byte_of (cursor_json p)"] by (simp add: encodePageCursor_def)

lemma two_anchors: "anchors_ok two_unmarshal plain_options ''s'' [] (cp_Messages (display_page plain_options two_messages))"
proof -
  have prefix: "length (cursorPrefix (o_Layer plain_options)) \<le> 100" by (simp add: cursorPrefix_def plain_options_def)
  have "i = ''a'' \<or> i = ''b'' \<Longrightarrow> utf16Len (encodePageCursor (cursorPrefix (o_Layer plain_options)) (anchor_at i)) \<le> maxCursorUnits" for i
    using cursor_units [of "cursorPrefix (o_Layer plain_options)" "anchor_at i"] two_cursor_json(2,3) prefix by (auto simp: maxCursorUnits_def)
  moreover have "i = ''a'' \<or> i = ''b'' \<Longrightarrow> two_unmarshal (cursor_json (anchor_at i)) = Some (anchor_at i)" for i
    using two_cursor_json(1) by (auto simp: two_unmarshal_def)
  moreover have "i = ''a'' \<or> i = ''b'' \<Longrightarrow> i \<noteq> [] \<and> utf16Len i \<le> maxAnchorUnits" for i
    using utf16Len_le [of i] by (auto simp: maxAnchorUnits_def)
  ultimately show ?thesis using two_ids unfolding anchors_ok_def two_before by simp
qed

lemma two_pageable: "pageable (\<lambda>_. []) two_unmarshal (\<lambda>_. Inr two_messages) plain_options ''s'' [] two_messages"
  using two_anchors two_fits
  by (simp add: pageable_def two_messages_def HasPrefix_def cursorPrefix_def Let_def)

theorem paging_complete_witness:
  "\<exists>pages. follow 3 (ReadConversationPage (\<lambda>_. []) two_unmarshal (\<lambda>_. Inr two_messages) plain_options ''s'') ''filo.page.desktop.'' [] = Some (pages, None) \<and>
    map m_ID (concat pages) = [''a'', ''b'']"
proof -
  have f: "cursorPrefix (o_Layer plain_options) = ''filo.page.desktop.''" "cp_NextCursor two_messages = None"
    "length (cp_Messages (display_page plain_options two_messages)) < 3"
    by (simp_all add: cursorPrefix_def plain_options_def two_messages_def two_displayed [unfolded plain_options_def two_messages_def])
  obtain pages where "follow 3 (ReadConversationPage (\<lambda>_. []) two_unmarshal (\<lambda>_. Inr two_messages) plain_options ''s'') ''filo.page.desktop.'' [] = Some (pages, None)"
    "concat pages = map (presentationMessage (\<lambda>_. [])) (cp_Messages (display_page plain_options two_messages))"
    using paging_complete [OF two_pageable f(3)] unfolding f by blast
  then show ?thesis by (intro exI [of _ pages]) (simp add: two_displayed plain_message_def)
qed

text \<open>
  A page that is returned holds at most 128 messages, and its encoding stays within the page bound
  whenever its two cursors fit into the room the pager keeps free for them.
\<close>

theorem page_bounded:
  assumes "ReadConversationPage links unmarshal source options ident cursor = Inr r"
  shows "length (cp_Messages r) \<le> 128 \<and> (cursor_room r \<le> 16360 \<longrightarrow> length (Marshal_page r) \<le> 3 * 1024 * 1024)"
proof -
  obtain native page to where "cut_page links options ident native page to = Inr r"
    using assms unfolding ReadConversationPage_def Let_def by (auto split: if_splits option.splits)
  from cut_page_bounded [OF this] show ?thesis by (simp add: maxMessages_def MaxConversationPageBytes_def)
qed

theorem page_bounded_witness:
  "\<exists>r. ReadConversationPage (\<lambda>_. []) two_unmarshal (\<lambda>_. Inr two_messages) plain_options ''s'' [] = Inr r \<and> length (cp_Messages r) \<le> 128"
proof -
  have "cp_PageCursor two_messages = None" by (simp add: two_messages_def)
  then have "ReadConversationPage (\<lambda>_. []) two_unmarshal (\<lambda>_. Inr two_messages) plain_options ''s'' [] =
    cut_page (\<lambda>_. []) plain_options ''s'' [] (display_page plain_options two_messages) (length (cp_Messages (display_page plain_options two_messages)))"
    using read_first [OF two_pageable] by simp
  then obtain r where "ReadConversationPage (\<lambda>_. []) two_unmarshal (\<lambda>_. Inr two_messages) plain_options ''s'' [] = Inr r"
    using cut_page_slice [OF two_fits order_refl, of "''s''" "[]"] by auto
  with page_bounded [OF this] show ?thesis by blast
qed

text \<open>
  Splitting a long text for transport loses nothing: the parts join to the text, none exceeds 16384
  UTF-16 units or cuts a surrogate pair, and each part's offset is the length of the parts before it.
\<close>

theorem text_parts_exact:
  "concat (map m_Text (split_message m)) = m_Text m \<and> (\<forall>p \<in> set (split_message m). utf16Len (m_Text p) \<le> 16384) \<and>
    (\<forall>k < length (split_message m). part_offset (split_message m ! k) = part_offset m + int (\<Sum>p\<leftarrow>take k (split_message m). utf16Len (m_Text p)))"
proof (cases "utf16Len (m_Text m) \<le> partCharacters")
  case True
  then show ?thesis by (simp add: split_message_def partCharacters_def)
next
  case False
  then have s: "split_message m = split_parts m (utf16Len (m_Text m)) 0" by (simp add: split_message_def Let_def)
  show ?thesis using split_parts_exact [OF unit_cut_0 le0 s] part_offset_Some by (auto simp: partCharacters_def)
qed

definition long_message :: message where
  "long_message = plain_message ''a'' ''t'' None ''user'' (Fin 0) (replicate 20000 CHR ''x'') None"

theorem text_parts_exact_witness:
  "concat (map m_Text (split_message long_message)) = replicate 20000 CHR ''x'' \<and> 1 < length (split_message long_message)"
proof -
  note t = text_parts_exact [of long_message]
  have body: "m_Text long_message = replicate 20000 CHR ''x''" by (simp add: long_message_def plain_message_def)
  have "\<not> length (split_message long_message) \<le> 1"
  proof
    assume "length (split_message long_message) \<le> 1"
    then consider "split_message long_message = []" | p where "split_message long_message = [p]"
      by (cases "split_message long_message") auto
    then show False
    proof cases
      case (2 p)
      then have p: "m_Text p = replicate 20000 CHR ''x''" using t body by simp
      moreover have "utf16Len (m_Text p) \<le> 16384" using conjunct1 [OF conjunct2 [OF t]] 2 by simp
      ultimately have "utf16Len (replicate 20000 CHR ''x'') \<le> 16384" by simp
      then show False using utf16Len_ascii [of "replicate 20000 CHR ''x''"] by simp
    qed (use t body in simp)
  qed
  then show ?thesis using t body by simp
qed

end
