(* ===== verification/Payloads.thy ===== *)
theory Payloads
  imports Pages
begin

text \<open>
  The cache of message bodies (\<open>internal/service/payloads.go\<close>): the map from keys to list elements and
  the list that gives the order of eviction are two structures that the operations keep in step. An
  element of the list is an address in \<open>pl_elements\<close>, which holds what each \<open>PushBack\<close> so far has put
  into its element; \<open>pl_order\<close> holds the addresses of the elements still in the list, the front first.
  Loading reads pages until every requested body was found, and may not end on a history without end.
\<close>

definition DefaultPayloadCacheBytes :: int where "DefaultPayloadCacheBytes = 16 * 1024 * 1024"
definition maxPayloadRequests :: nat where "maxPayloadRequests = 3"
definition maxPayloadIDUnits :: nat where "maxPayloadIDUnits = 512"
definition scopedSessionPrefix :: string where "scopedSessionPrefix = ''filo.adapter.''"

subsection \<open>The cache\<close>

record payload_entry =
  pe_key :: string
  pe_message :: message
  pe_bytes :: int

record payloads =
  pl_elements :: "payload_entry list"
  pl_entries :: "string \<Rightarrow> nat option"
  pl_order :: "nat list"
  pl_bytes :: int
  pl_maxBytes :: int

definition NewConversationPayloads :: "int \<Rightarrow> payloads" where
  "NewConversationPayloads maxBytes =
     \<lparr>pl_elements = [], pl_entries = (\<lambda>_. None), pl_order = [], pl_bytes = 0, pl_maxBytes = maxBytes\<rparr>"

definition RetainedBytes :: "payloads \<Rightarrow> int" where
  "RetainedBytes p = pl_bytes p"

definition payloadKey :: "string \<Rightarrow> string \<Rightarrow> string \<Rightarrow> string" where
  "payloadKey session ident rvn = json_array (map go_quote_raw [session, ident, rvn])"

text \<open>The entry of an element.\<close>

definition pl_value :: "payloads \<Rightarrow> nat \<Rightarrow> payload_entry" where
  "pl_value p a = pl_elements p ! a"

definition pl_lookup :: "string \<Rightarrow> payloads \<Rightarrow> payload_entry option" where
  "pl_lookup key p = map_option (pl_value p) (pl_entries p key)"

text \<open>\<open>p.entries[key] = p.order.PushBack(entry)\<close>.\<close>

definition pl_push :: "string \<Rightarrow> payload_entry \<Rightarrow> payloads \<Rightarrow> payloads" where
  "pl_push key e p =
     p\<lparr>pl_elements := pl_elements p @ [e], pl_entries := (pl_entries p)(key \<mapsto> length (pl_elements p)),
       pl_order := pl_order p @ [length (pl_elements p)]\<rparr>"

definition pl_drop :: "string \<Rightarrow> payloads \<Rightarrow> payloads" where
  "pl_drop key p =
     (case pl_entries p key of
        None \<Rightarrow> p
      | Some a \<Rightarrow>
          p\<lparr>pl_entries := (pl_entries p)(key := None), pl_order := remove1 a (pl_order p),
            pl_bytes := pl_bytes p - pe_bytes (pl_value p a)\<rparr>)"

text \<open>The eviction loop: the front of the list goes first, and its key leaves the map.\<close>

function pl_evict :: "payloads \<Rightarrow> payloads" where
  "pl_evict p =
     (if pl_maxBytes p < pl_bytes p then
        (case pl_order p of
           [] \<Rightarrow> p
         | a # rest \<Rightarrow>
             pl_evict (p\<lparr>pl_entries := (pl_entries p)(pe_key (pl_value p a) := None), pl_order := rest,
               pl_bytes := pl_bytes p - pe_bytes (pl_value p a)\<rparr>))
      else p)"
  by pat_completeness auto
termination by (relation "measure (\<lambda>p. length (pl_order p))") auto

definition pl_store :: "payload_entry \<Rightarrow> payloads \<Rightarrow> payloads" where
  "pl_store e p =
     (let p = pl_drop (pe_key e) p
      in if pe_bytes e \<le> pl_maxBytes p then
           let p = pl_push (pe_key e) e p
           in pl_evict (p\<lparr>pl_bytes := pl_bytes p + pe_bytes e\<rparr>)
         else p)"

text \<open>The node a body is stored under: within a scope its revision is bound to the session.\<close>

definition scoped_node :: "string \<Rightarrow> message_node \<Rightarrow> message_node" where
  "scoped_node session node =
     (if HasPrefix session scopedSessionPrefix
      then node\<lparr>mn_Revision := sha256_hex (session @ [chr 0] @ mn_Revision node)\<rparr> else node)"

definition remember :: "string \<Rightarrow> message \<Rightarrow> message_node option \<Rightarrow> payloads \<Rightarrow> message_node \<times> payloads" where
  "remember session m node p =
     (let projected = scoped_node session (case node of Some n \<Rightarrow> n | None \<Rightarrow> MessageNode m);
          key = payloadKey session (m_ID m) (mn_Revision projected)
      in (projected, pl_store \<lparr>pe_key = key, pe_message = m, pe_bytes = int (length (message_json m))\<rparr> p))"

definition pl_take :: "string \<Rightarrow> payloads \<Rightarrow> message option \<times> payloads" where
  "pl_take key p =
     (case pl_entries p key of
        None \<Rightarrow> (None, p)
      | Some a \<Rightarrow>
          let e = pl_value p a
          in (Some (pe_message e), pl_push key e (p\<lparr>pl_order := remove1 a (pl_order p)\<rparr>)))"

subsection \<open>Pages and topology\<close>

fun remember_all :: "string \<Rightarrow> (message \<times> message_node option) list \<Rightarrow> payloads \<Rightarrow> message_node list \<times> payloads" where
  "remember_all session [] p = ([], p)"
| "remember_all session ((m, node) # rest) p =
     (let (n, p) = remember session m node p; (ns, p) = remember_all session rest p in (n # ns, p))"

text \<open>The page has one node per message, so both loops of the code pair them up.\<close>

definition Page :: "(string \<Rightarrow> page_error + conversation_page) \<Rightarrow> string \<Rightarrow> string \<Rightarrow> payloads \<Rightarrow> (page_error + conversation_page) \<times> payloads" where
  "Page read_page session cursor p =
     (case read_page cursor of
        Inl e \<Rightarrow> (Inl e, p)
      | Inr page \<Rightarrow>
          let (ns, p) = remember_all session (zip (cp_Messages page) (map Some (cp_Nodes page))) p
          in (Inr (page\<lparr>cp_Nodes := ns\<rparr>), p))"

definition Topology :: "(string \<Rightarrow> page_error + conversation_page) \<Rightarrow> string \<Rightarrow> string \<Rightarrow> payloads \<Rightarrow> (page_error + conversation_page) \<times> payloads" where
  "Topology read_page session cursor p =
     (case read_page cursor of
        Inl e \<Rightarrow> (Inl e, p)
      | Inr page \<Rightarrow>
          let (ns, p) = remember_all session (map (\<lambda>m. (m, None)) (cp_Messages page)) p
          in (Inr (page\<lparr>cp_Nodes := ns, cp_Messages := [], cp_PageCursor := None\<rparr>), p))"

subsection \<open>Loading\<close>

datatype load_error = LoadShape | CursorStuck | LoadRead page_error | ImageChanged | MessageChanged | LoadBound

definition revision_ok :: "string \<Rightarrow> bool" where
  "revision_ok r \<longleftrightarrow> length r = 64 \<and> (\<forall>c \<in> set r. 48 \<le> byte_of c \<and> byte_of c \<le> 57 \<or> 97 \<le> byte_of c \<and> byte_of c \<le> 102)"

definition requests_ok :: "(string \<times> string) list \<Rightarrow> bool" where
  "requests_ok reqs \<longleftrightarrow> reqs \<noteq> [] \<and> length reqs \<le> maxPayloadRequests \<and> distinct (map fst reqs) \<and>
     (\<forall>(i, r) \<in> set reqs. i \<noteq> [] \<and> utf16Len i \<le> maxPayloadIDUnits \<and> revision_ok r)"

fun take_cached :: "string \<Rightarrow> (string \<times> string) list \<Rightarrow> payloads \<Rightarrow> (string \<times> message) list \<times> payloads" where
  "take_cached session [] p = ([], p)"
| "take_cached session ((i, r) # reqs) p =
     (let (hit, p) = pl_take (payloadKey session i r) p; (found, p) = take_cached session reqs p
      in (case hit of Some m \<Rightarrow> (i, m) # found | None \<Rightarrow> found, p))"

fun load_messages :: "string \<Rightarrow> bool \<Rightarrow> (string \<times> string) list \<Rightarrow> message list \<Rightarrow> (string \<times> message) list \<Rightarrow> payloads \<Rightarrow>
    (load_error + (string \<times> message) list) \<times> payloads" where
  "load_messages session exact wanted [] found p = (Inr found, p)"
| "load_messages session exact wanted (m # ms) found p =
     (let (node, p) = remember session m None p
      in case map_of wanted (m_ID m) of
           None \<Rightarrow> load_messages session exact wanted ms found p
         | Some rvn \<Rightarrow>
             if map_of found (m_ID m) \<noteq> None then load_messages session exact wanted ms found p
             else if (exact \<or> HasPrefix session scopedSessionPrefix) \<and> rvn \<noteq> mn_Revision node then (Inl ImageChanged, p)
             else load_messages session exact wanted ms ((m_ID m, m) # found) p)"

partial_function (option) load_pages :: "(string \<Rightarrow> page_error + conversation_page) \<Rightarrow> string \<Rightarrow> bool \<Rightarrow> (string \<times> string) list \<Rightarrow>
    string \<Rightarrow> string set \<Rightarrow> (string \<times> message) list \<Rightarrow> payloads \<Rightarrow> ((load_error + (string \<times> message) list) \<times> payloads) option" where
  "load_pages read_page session exact wanted cursor visited found p =
     (if length found \<ge> length wanted then Some (Inr found, p)
      else if cursor \<in> visited then Some (Inl CursorStuck, p)
      else case read_page cursor of
        Inl e \<Rightarrow> Some (Inl (LoadRead e), p)
      | Inr page \<Rightarrow>
          (case load_messages session exact wanted (cp_Messages page) found p of
             (Inl e, p) \<Rightarrow> Some (Inl e, p)
           | (Inr found, p) \<Rightarrow>
               (case cp_NextCursor page of
                  Some c \<Rightarrow> if c = [] then Some (Inr found, p)
                            else load_pages read_page session exact wanted c (insert cursor visited) found p
                | None \<Rightarrow> Some (Inr found, p))))"

definition response_json :: "message list \<Rightarrow> string" where
  "response_json ms = go_json_object (member ''messages'' (json_array (map message_json ms)))"

definition finish_load :: "(string \<times> string) list \<Rightarrow> (string \<times> message) list \<Rightarrow> load_error + message list" where
  "finish_load reqs found =
     (if length found \<noteq> length reqs then Inl MessageChanged
      else let ms = map (\<lambda>(i, r). the (map_of found i)) reqs
           in if MaxResponseBytes < length (response_json ms) then Inl LoadBound else Inr ms)"

definition Load :: "(string \<Rightarrow> page_error + conversation_page) \<Rightarrow> string \<Rightarrow> (string \<times> string) list \<Rightarrow> bool \<Rightarrow> payloads \<Rightarrow>
    ((load_error + message list) \<times> payloads) option" where
  "Load read_page session reqs exact p =
     (if \<not> requests_ok reqs then Some (Inl LoadShape, p)
      else
        let (found, p) = take_cached session reqs p
        in map_option (\<lambda>(r, p). (bindr r (finish_load reqs), p)) (load_pages read_page session exact reqs [] {} found p))"

end
