(* ===== verification/PayloadsCorrect.thy ===== *)
theory PayloadsCorrect
  imports Payloads
begin

text \<open>
  The body cache is bounded and exact, a hit is the body last stored under its key, and \<open>Load\<close> serves every
  request in order or reports an error.
\<close>

subsection \<open>A bounded cache\<close>

text \<open>What a client of the cache relies on: lookups never invent, and a store replaces its own key only.\<close>

locale body_cache =
  fixes store :: "payload_entry \<Rightarrow> 'c \<Rightarrow> 'c" and touch :: "string \<Rightarrow> 'c \<Rightarrow> 'c"
    and lookup :: "string \<Rightarrow> 'c \<Rightarrow> payload_entry option" and valid :: "'c \<Rightarrow> bool"
  assumes valid_store: "valid c \<Longrightarrow> 0 \<le> pe_bytes e \<Longrightarrow> valid (store e c)"
    and valid_touch: "valid c \<Longrightarrow> valid (touch k c)"
    and lookup_same: "valid c \<Longrightarrow> 0 \<le> pe_bytes e \<Longrightarrow> lookup (pe_key e) (store e c) = Some x \<Longrightarrow> x = e"
    and lookup_other: "valid c \<Longrightarrow> 0 \<le> pe_bytes e \<Longrightarrow> k \<noteq> pe_key e \<Longrightarrow> lookup k (store e c) = Some x \<Longrightarrow> lookup k c = Some x"
    and lookup_touch: "valid c \<Longrightarrow> lookup j (touch k c) = lookup j c"
begin

definition perform :: "payload_entry + string \<Rightarrow> 'c \<Rightarrow> 'c" where
  "perform call c = (case call of Inl e \<Rightarrow> store e c | Inr k \<Rightarrow> touch k c)"

lemma perform_simps [simp]: "perform (Inl e) c = store e c" "perform (Inr k) c = touch k c"
  by (simp_all add: perform_def)

definition stores :: "(payload_entry + string) list \<Rightarrow> payload_entry list" where
  "stores calls = List.map_filter (\<lambda>call. case call of Inl e \<Rightarrow> Some e | Inr k \<Rightarrow> None) calls"

lemma stores_simps [simp]: "stores [] = []" "stores (Inl e # calls) = e # stores calls" "stores (Inr k # calls) = stores calls"
  "stores (xs @ ys) = stores xs @ stores ys"
  by (simp_all add: stores_def List.map_filter_def)

lemma valid_performed: "valid c \<Longrightarrow> \<forall>e \<in> set (stores calls). 0 \<le> pe_bytes e \<Longrightarrow> valid (fold perform calls c)"
proof (induction calls arbitrary: c)
  case (Cons call calls)
  then show ?case by (cases call) (simp_all add: valid_store valid_touch)
qed simp

text \<open>A hit after any calls is the last entry stored under the key, or was there before and never overwritten.\<close>

lemma hit_is_last:
  assumes "valid c" "\<forall>e \<in> set (stores calls). 0 \<le> pe_bytes e" "lookup k (fold perform calls c) = Some x"
  shows "(case find (\<lambda>e. pe_key e = k) (rev (stores calls)) of Some e \<Rightarrow> x = e | None \<Rightarrow> lookup k c = Some x)"
  using assms
proof (induction calls rule: rev_induct)
  case (snoc call calls)
  have v: "valid (fold perform calls c)" using snoc.prems(1,2) by (intro valid_performed) simp_all
  show ?case
  proof (cases call)
    case (Inr j)
    then show ?thesis using snoc lookup_touch [OF v] by simp
  next
    case (Inl e)
    show ?thesis
    proof (cases "pe_key e = k")
      case True
      then show ?thesis using lookup_same [OF v, of e x] snoc.prems(2,3) Inl by simp
    next
      case False
      then show ?thesis using lookup_other [OF v, of e k x] snoc Inl by simp
    qed
  qed
qed simp

end

text \<open>
  The map and the list agree: the elements in the list are distinct, and the map sends a key to an
  element exactly when that element is in the list and its entry has this key.
\<close>

definition pl_index :: "payloads \<Rightarrow> bool" where
  "pl_index p \<longleftrightarrow> distinct (pl_order p) \<and> (\<forall>a \<in> set (pl_order p). a < length (pl_elements p)) \<and>
     (\<forall>k a. pl_entries p k = Some a \<longleftrightarrow> a \<in> set (pl_order p) \<and> pe_key (pl_value p a) = k)"

definition pl_bodies :: "payloads \<Rightarrow> payload_entry list" where
  "pl_bodies p = map (pl_value p) (pl_order p)"

definition pl_counted :: "payloads \<Rightarrow> bool" where
  "pl_counted p \<longleftrightarrow> pl_index p \<and> (\<forall>e \<in> set (pl_bodies p). 0 \<le> pe_bytes e) \<and> pl_bytes p = (\<Sum>e\<leftarrow>pl_bodies p. pe_bytes e)"

definition pl_ok :: "payloads \<Rightarrow> bool" where
  "pl_ok p \<longleftrightarrow> pl_counted p \<and> pl_bytes p \<le> max 0 (pl_maxBytes p)"

lemma index_entry: "pl_index p \<Longrightarrow> pl_entries p k = Some a \<longleftrightarrow> a \<in> set (pl_order p) \<and> pe_key (pl_value p a) = k"
  by (simp add: pl_index_def)

lemma index_inj: "pl_index p \<Longrightarrow> a \<in> set (pl_order p) \<Longrightarrow> b \<in> set (pl_order p) \<Longrightarrow> pe_key (pl_value p a) = pe_key (pl_value p b) \<Longrightarrow> a = b"
  by (metis index_entry option.inject)

lemma bodies_keys: "pl_index p \<Longrightarrow> distinct (map pe_key (pl_bodies p))"
  by (auto simp: pl_bodies_def distinct_map pl_index_def intro!: inj_onI dest: index_inj [rotated 3]) (metis option.inject)

lemma lookup_iff: "pl_index p \<Longrightarrow> pl_lookup k p = Some x \<longleftrightarrow> x \<in> set (pl_bodies p) \<and> pe_key x = k"
  by (auto simp: pl_lookup_def pl_bodies_def index_entry)

lemma pl_ok_new: "pl_ok (NewConversationPayloads n)"
  by (simp add: pl_ok_def pl_counted_def pl_index_def pl_bodies_def NewConversationPayloads_def)

lemma sum_remove1: "a \<in> set as \<Longrightarrow> (\<Sum>x\<leftarrow>remove1 a as. f x) = (\<Sum>x\<leftarrow>as. f x) - (f a :: int)"
  by (induction as) auto

text \<open>Taking one element out of both structures.\<close>

lemma unlink_index:
  assumes "pl_index p" "a \<in> set (pl_order p)"
  shows "pl_index (p\<lparr>pl_entries := (pl_entries p)(pe_key (pl_value p a) := None), pl_order := remove1 a (pl_order p), pl_bytes := n\<rparr>)"
proof -
  let ?k = "pe_key (pl_value p a)"
  have d: "distinct (pl_order p)" using assms(1) by (simp add: pl_index_def)
  have "((pl_entries p)(?k := None)) k = Some b \<longleftrightarrow> b \<in> set (remove1 a (pl_order p)) \<and> pe_key (pl_value p b) = k" for k b
    using d index_entry [OF assms(1), of k b] index_inj [OF assms(1), of b a] assms(2) by auto
  moreover have "pl_value (p\<lparr>pl_entries := es, pl_order := as, pl_bytes := n\<rparr>) = pl_value p" for es as
    by (simp add: pl_value_def fun_eq_iff)
  ultimately show ?thesis using assms(1) d by (simp add: pl_index_def)
qed

lemma value_fields [simp]:
  "pl_value (p\<lparr>pl_order := as\<rparr>) = pl_value p" "pl_value (p\<lparr>pl_bytes := n\<rparr>) = pl_value p" "pl_value (p\<lparr>pl_entries := es\<rparr>) = pl_value p"
  by (simp_all add: pl_value_def fun_eq_iff)

lemma unlink_counted:
  assumes "pl_counted p" "a \<in> set (pl_order p)"
  shows "pl_counted (p\<lparr>pl_entries := (pl_entries p)(pe_key (pl_value p a) := None), pl_order := remove1 a (pl_order p),
      pl_bytes := pl_bytes p - pe_bytes (pl_value p a)\<rparr>)"
  using assms unlink_index [of p a] sum_remove1 [OF assms(2), of "\<lambda>a. pe_bytes (pl_value p a)"] notin_set_remove1
  by (auto simp: pl_counted_def pl_bodies_def comp_def)

text \<open>Putting a new element at the end of both.\<close>

lemma push_fields [simp]:
  "pl_bytes (pl_push k e p) = pl_bytes p" "pl_maxBytes (pl_push k e p) = pl_maxBytes p"
  "pl_order (pl_push k e p) = pl_order p @ [length (pl_elements p)]"
  by (simp_all add: pl_push_def)

lemma push_value: "a < length (pl_elements p) \<Longrightarrow> pl_value (pl_push k e p) a = pl_value p a" "pl_value (pl_push k e p) (length (pl_elements p)) = e"
  by (simp_all add: pl_value_def pl_push_def nth_append)

lemma push_bodies: "\<forall>a \<in> set (pl_order p). a < length (pl_elements p) \<Longrightarrow> pl_bodies (pl_push k e p) = pl_bodies p @ [e]"
  by (simp add: pl_bodies_def push_value)

lemma push_index:
  assumes "distinct (pl_order p)" "\<forall>a \<in> set (pl_order p). a < length (pl_elements p)"
    and "\<And>j a. j \<noteq> pe_key e \<Longrightarrow> pl_entries p j = Some a \<longleftrightarrow> a \<in> set (pl_order p) \<and> pe_key (pl_value p a) = j"
    and "\<And>a. a \<in> set (pl_order p) \<Longrightarrow> pe_key (pl_value p a) \<noteq> pe_key e"
  shows "pl_index (pl_push (pe_key e) e p)"
proof -
  let ?n = "length (pl_elements p)" and ?q = "pl_push (pe_key e) e p"
  have new: "?n \<notin> set (pl_order p)" using assms(2) by blast
  have "pl_entries ?q k = Some a \<longleftrightarrow> a \<in> set (pl_order ?q) \<and> pe_key (pl_value ?q a) = k" for k a
  proof (cases "a = ?n")
    case True
    have "pl_entries p k \<noteq> Some ?n" if "k \<noteq> pe_key e" using assms(3) [OF that] new by blast
    then show ?thesis using True by (cases "k = pe_key e") (auto simp: push_value, simp_all add: pl_push_def)
  next
    case False
    have "pl_entries ?q k = Some a \<longleftrightarrow> k \<noteq> pe_key e \<and> pl_entries p k = Some a" using False by (auto simp: pl_push_def)
    also have "\<dots> \<longleftrightarrow> a \<in> set (pl_order p) \<and> pe_key (pl_value p a) = k" using assms(3) [of k a] assms(4) [of a] by blast
    also have "\<dots> \<longleftrightarrow> a \<in> set (pl_order ?q) \<and> pe_key (pl_value ?q a) = k" using False assms(2) by (auto simp: push_value)
    finally show ?thesis .
  qed
  moreover have "\<forall>a \<in> set (pl_order ?q). a < length (pl_elements ?q)" using assms(2) by (auto simp: pl_push_def)
  moreover have "distinct (pl_order ?q)" using assms(1) new by simp
  ultimately show ?thesis unfolding pl_index_def by blast
qed

lemma drop_ok:
  assumes "pl_ok p"
  shows "pl_ok (pl_drop k p)" "set (pl_bodies (pl_drop k p)) = {e \<in> set (pl_bodies p). pe_key e \<noteq> k}" "pl_maxBytes (pl_drop k p) = pl_maxBytes p"
proof -
  have c: "pl_counted p" and i: "pl_index p" using assms by (simp_all add: pl_ok_def pl_counted_def)
  have all: "pl_ok (pl_drop k p) \<and> set (pl_bodies (pl_drop k p)) = {e \<in> set (pl_bodies p). pe_key e \<noteq> k} \<and> pl_maxBytes (pl_drop k p) = pl_maxBytes p"
  proof (cases "pl_entries p k")
    case None
    then have "pe_key (pl_value p a) \<noteq> k" if "a \<in> set (pl_order p)" for a using index_entry [OF i, of k a] that by auto
    then show ?thesis using None assms by (auto simp: pl_drop_def pl_bodies_def)
  next
    case (Some a)
    then have a: "a \<in> set (pl_order p)" "pe_key (pl_value p a) = k" using index_entry [OF i] by auto
    have d: "distinct (pl_order p)" using i by (simp add: pl_index_def)
    have "0 \<le> pe_bytes (pl_value p a)" using c a(1) by (simp add: pl_counted_def pl_bodies_def)
    then have "pl_ok (pl_drop k p)" using unlink_counted [OF c a(1)] assms a(2) Some by (simp add: pl_ok_def pl_drop_def)
    moreover have "set (pl_bodies (pl_drop k p)) = pl_value p ` (set (pl_order p) - {a})"
      using Some d by (simp add: pl_drop_def pl_bodies_def)
    moreover have "pl_value p ` (set (pl_order p) - {a}) = {e \<in> set (pl_bodies p). pe_key e \<noteq> k}"
    proof -
      have "b = a \<longleftrightarrow> pe_key (pl_value p b) = k" if "b \<in> set (pl_order p)" for b
        using index_inj [OF i a(1) that] a(2) by blast
      then show ?thesis unfolding pl_bodies_def set_map by blast
    qed
    ultimately show ?thesis using Some by (simp add: pl_drop_def)
  qed
  then show "pl_ok (pl_drop k p)" "set (pl_bodies (pl_drop k p)) = {e \<in> set (pl_bodies p). pe_key e \<noteq> k}" "pl_maxBytes (pl_drop k p) = pl_maxBytes p"
    by blast+
qed

declare pl_evict.simps [simp del]

lemma evict_ok:
  assumes "pl_counted p"
  shows "pl_ok (pl_evict p) \<and> pl_maxBytes (pl_evict p) = pl_maxBytes p \<and> (\<exists>gone. pl_bodies p = gone @ pl_bodies (pl_evict p))"
  using assms
proof (induction p rule: pl_evict.induct)
  case (1 p)
  show ?case
  proof (cases "pl_maxBytes p < pl_bytes p")
    case False
    then show ?thesis using 1(2) by (simp add: pl_evict.simps [of p] pl_ok_def)
  next
    case True
    show ?thesis
    proof (cases "pl_order p")
      case Nil
      then show ?thesis using 1(2) True by (simp add: pl_evict.simps [of p] pl_ok_def pl_counted_def pl_bodies_def)
    next
      case (Cons a rest)
      let ?q = "p\<lparr>pl_entries := (pl_entries p)(pe_key (pl_value p a) := None), pl_order := rest, pl_bytes := pl_bytes p - pe_bytes (pl_value p a)\<rparr>"
      have "pl_counted ?q" using unlink_counted [OF 1(2), of a] Cons by simp
      from 1(1) [OF True Cons this] obtain gone where "pl_ok (pl_evict ?q)" "pl_maxBytes (pl_evict ?q) = pl_maxBytes p"
        "pl_bodies ?q = gone @ pl_bodies (pl_evict ?q)" by auto
      moreover have "pl_evict p = pl_evict ?q" using True Cons by (simp add: pl_evict.simps [of p])
      moreover have "pl_bodies p = pl_value p a # pl_bodies ?q" using Cons by (simp add: pl_bodies_def)
      ultimately show ?thesis by (metis append_Cons)
    qed
  qed
qed

text \<open>The newest body is never evicted.\<close>

lemma evict_keeps_last:
  assumes "pl_counted p" "pl_bodies p \<noteq> []" "pe_bytes (last (pl_bodies p)) \<le> pl_maxBytes p"
  shows "pl_bodies (pl_evict p) \<noteq> [] \<and> last (pl_bodies (pl_evict p)) = last (pl_bodies p)"
  using assms
proof (induction p rule: pl_evict.induct)
  case (1 p)
  show ?case
  proof (cases "pl_maxBytes p < pl_bytes p")
    case False
    then show ?thesis using 1(3) by (simp add: pl_evict.simps [of p])
  next
    case True
    obtain a rest where Cons: "pl_order p = a # rest" using 1(3) by (cases "pl_order p") (auto simp: pl_bodies_def)
    let ?q = "p\<lparr>pl_entries := (pl_entries p)(pe_key (pl_value p a) := None), pl_order := rest, pl_bytes := pl_bytes p - pe_bytes (pl_value p a)\<rparr>"
    have q: "pl_counted ?q" using unlink_counted [OF 1(2), of a] Cons by simp
    have "rest \<noteq> []" using True 1(2,4) Cons by (auto simp: pl_counted_def pl_bodies_def)
    then have l: "pl_bodies ?q \<noteq> []" "last (pl_bodies ?q) = last (pl_bodies p)" using Cons by (simp_all add: pl_bodies_def)
    from 1(1) [OF True Cons q l(1)] 1(4) l(2) have "pl_bodies (pl_evict ?q) \<noteq> [] \<and> last (pl_bodies (pl_evict ?q)) = last (pl_bodies p)" by simp
    then show ?thesis using True Cons by (simp add: pl_evict.simps [of p])
  qed
qed

lemma store_ok:
  assumes "pl_ok p" "0 \<le> pe_bytes e"
  shows "pl_ok (pl_store e p)" "pl_maxBytes (pl_store e p) = pl_maxBytes p"
    "\<forall>x \<in> set (pl_bodies (pl_store e p)). x = e \<or> x \<in> set (pl_bodies p) \<and> pe_key x \<noteq> pe_key e"
    "pe_bytes e \<le> pl_maxBytes p \<Longrightarrow> e \<in> set (pl_bodies (pl_store e p))"
proof -
  let ?q = "pl_drop (pe_key e) p"
  note q = drop_ok [OF assms(1), of "pe_key e"]
  have i: "pl_index ?q" using q(1) by (simp add: pl_ok_def pl_counted_def)
  have sub: "\<forall>x \<in> set (pl_bodies ?q). x \<in> set (pl_bodies p) \<and> pe_key x \<noteq> pe_key e" using q(2) by auto
  have all: "pl_ok (pl_store e p) \<and> pl_maxBytes (pl_store e p) = pl_maxBytes p \<and>
    (\<forall>x \<in> set (pl_bodies (pl_store e p)). x = e \<or> x \<in> set (pl_bodies p) \<and> pe_key x \<noteq> pe_key e) \<and>
    (pe_bytes e \<le> pl_maxBytes p \<longrightarrow> e \<in> set (pl_bodies (pl_store e p)))"
  proof (cases "pe_bytes e \<le> pl_maxBytes p")
    case False
    then have "pl_store e p = ?q" using q(3) by (simp add: pl_store_def)
    then show ?thesis using q False sub by auto
  next
    case True
    let ?r = "(pl_push (pe_key e) e ?q)\<lparr>pl_bytes := pl_bytes ?q + pe_bytes e\<rparr>"
    have "pl_index (pl_push (pe_key e) e ?q)"
      using i sub by (intro push_index) (auto simp: pl_index_def pl_bodies_def)
    then have "pl_index ?r" by (simp add: pl_index_def)
    moreover have b: "pl_bodies ?r = pl_bodies ?q @ [e]"
      using push_bodies [of ?q "pe_key e" e] i by (simp add: pl_index_def pl_bodies_def)
    ultimately have r: "pl_counted ?r" using q(1) assms(2) by (auto simp: pl_ok_def pl_counted_def)
    have st: "pl_store e p = pl_evict ?r" using True q(3) by (simp add: pl_store_def Let_def)
    obtain gone where g: "pl_bodies ?r = gone @ pl_bodies (pl_evict ?r)" "pl_ok (pl_evict ?r)" "pl_maxBytes (pl_evict ?r) = pl_maxBytes p"
      using evict_ok [OF r] q(3) by auto
    have "set (pl_bodies (pl_evict ?r)) \<subseteq> set (pl_bodies ?q @ [e])" using arg_cong [OF g(1), of set] unfolding b by auto
    moreover have "e \<in> set (pl_bodies (pl_evict ?r))"
      using evict_keeps_last [OF r] b True q(3) by (metis last_in_set last_snoc push_fields(2) snoc_eq_iff_butlast select_convs(5) surjective update_convs(4))
    ultimately show ?thesis unfolding st using g(2,3) sub by auto
  qed
  from all show "pl_ok (pl_store e p)" "pl_maxBytes (pl_store e p) = pl_maxBytes p"
    "\<forall>x \<in> set (pl_bodies (pl_store e p)). x = e \<or> x \<in> set (pl_bodies p) \<and> pe_key x \<noteq> pe_key e" by blast+
  from all show "e \<in> set (pl_bodies (pl_store e p))" if "pe_bytes e \<le> pl_maxBytes p" using that by blast
qed

lemma take_ok:
  assumes "pl_ok p"
  shows "pl_ok (snd (pl_take k p))" "pl_maxBytes (snd (pl_take k p)) = pl_maxBytes p"
    "fst (pl_take k p) = map_option pe_message (pl_lookup k p)" "pl_lookup j (snd (pl_take k p)) = pl_lookup j p"
proof -
  have i: "pl_index p" using assms by (simp add: pl_ok_def pl_counted_def)
  have all: "pl_ok (snd (pl_take k p)) \<and> set (pl_bodies (snd (pl_take k p))) = set (pl_bodies p) \<and> pl_maxBytes (snd (pl_take k p)) = pl_maxBytes p"
  proof (cases "pl_entries p k")
    case None
    then show ?thesis using assms by (simp add: pl_take_def)
  next
    case (Some a)
    then have a: "a \<in> set (pl_order p)" "pe_key (pl_value p a) = k" using index_entry [OF i] by auto
    have d: "distinct (pl_order p)" "\<forall>b \<in> set (pl_order p). b < length (pl_elements p)" using i by (simp_all add: pl_index_def)
    let ?q = "p\<lparr>pl_order := remove1 a (pl_order p)\<rparr>" and ?e = "pl_value p a"
    have t: "snd (pl_take k p) = pl_push (pe_key ?e) ?e ?q" using Some a(2) by (simp add: pl_take_def Let_def)
    have ind: "pl_index (pl_push (pe_key ?e) ?e ?q)"
    proof (rule push_index)
      show "pl_entries ?q j = Some b \<longleftrightarrow> b \<in> set (pl_order ?q) \<and> pe_key (pl_value ?q b) = j" if "j \<noteq> pe_key ?e" for j b
        using that index_entry [OF i, of j b] d(1) by auto
      show "pe_key (pl_value ?q b) \<noteq> pe_key ?e" if "b \<in> set (pl_order ?q)" for b
        using that index_inj [OF i, of b a] a(1) d(1) by auto
    qed (use d in auto)
    have b: "pl_bodies (pl_push (pe_key ?e) ?e ?q) = map (pl_value p) (remove1 a (pl_order p)) @ [?e]"
    proof -
      have "\<forall>b \<in> set (pl_order ?q). b < length (pl_elements ?q)" using d(2) notin_set_remove1 [of _ "pl_order p" a] by auto
      from push_bodies [OF this, of "pe_key ?e" ?e] show ?thesis by (simp add: pl_bodies_def)
    qed
    have set: "set (map (pl_value p) (remove1 a (pl_order p)) @ [?e]) = set (pl_bodies p)"
      using a(1) d(1) by (auto simp: pl_bodies_def)
    have "(\<Sum>e\<leftarrow>map (pl_value p) (remove1 a (pl_order p)) @ [?e]. pe_bytes e) = (\<Sum>e\<leftarrow>pl_bodies p. pe_bytes e)"
      using sum_remove1 [OF a(1), of "\<lambda>a. pe_bytes (pl_value p a)"] by (simp add: pl_bodies_def comp_def)
    then have "pl_counted (snd (pl_take k p))" "set (pl_bodies (snd (pl_take k p))) = set (pl_bodies p)"
      using assms ind set unfolding t pl_ok_def pl_counted_def b by simp_all
    then show ?thesis using assms unfolding t by (simp add: pl_ok_def)
  qed
  then show "pl_ok (snd (pl_take k p))" "pl_maxBytes (snd (pl_take k p)) = pl_maxBytes p" by blast+
  show "fst (pl_take k p) = map_option pe_message (pl_lookup k p)" by (simp add: pl_take_def pl_lookup_def Let_def split: option.split)
  have "pl_index (snd (pl_take k p))" using all by (simp add: pl_ok_def pl_counted_def)
  then have "pl_lookup j (snd (pl_take k p)) = Some x \<longleftrightarrow> pl_lookup j p = Some x" for x
    using lookup_iff [OF i] all by (simp add: lookup_iff)
  then show "pl_lookup j (snd (pl_take k p)) = pl_lookup j p" by (metis not_None_eq)
qed

interpretation payload_cache: body_cache pl_store "\<lambda>k p. snd (pl_take k p)" pl_lookup pl_ok
proof
  fix c :: payloads and e x :: payload_entry
  assume c: "pl_ok c" "0 \<le> pe_bytes e"
  note s = store_ok [OF c]
  have i: "pl_index c" "pl_index (pl_store e c)" using c(1) s(1) by (simp_all add: pl_ok_def pl_counted_def)
  show "pl_ok (pl_store e c)" by (rule s(1))
  show "x = e" if "pl_lookup (pe_key e) (pl_store e c) = Some x" using that s(3) lookup_iff [OF i(2)] by auto
  show "pl_lookup k c = Some x" if "k \<noteq> pe_key e" "pl_lookup k (pl_store e c) = Some x" for k
    using that s(3) lookup_iff [OF i(2)] lookup_iff [OF i(1)] by auto
qed (simp_all add: take_ok)

lemma remember_ok:
  assumes "pl_ok p"
  shows "pl_ok (snd (remember session m node p))" "pl_maxBytes (snd (remember session m node p)) = pl_maxBytes p"
  using store_ok(1,2) [OF assms, of "\<lparr>pe_key = _, pe_message = m, pe_bytes = int (length (message_json m))\<rparr>"]
  by (simp_all add: remember_def Let_def)

lemma remember_all_ok:
  assumes "pl_ok p"
  shows "pl_ok (snd (remember_all session xs p)) \<and> pl_maxBytes (snd (remember_all session xs p)) = pl_maxBytes p"
  using assms
proof (induction xs arbitrary: p)
  case (Cons x xs)
  obtain m node where x: "x = (m, node)" by fastforce
  note r = remember_ok [OF Cons.prems, of session m node]
  from Cons.IH [OF r(1)] r(2) show ?case by (simp add: x case_prod_unfold Let_def)
qed simp

definition cached_from :: "string \<Rightarrow> payloads \<Rightarrow> (string \<times> string) list \<Rightarrow> string \<times> message \<Rightarrow> bool" where
  "cached_from session p reqs x \<longleftrightarrow>
     (\<exists>r e. (fst x, r) \<in> set reqs \<and> pl_lookup (payloadKey session (fst x) r) p = Some e \<and> snd x = pe_message e)"

lemma cached_from_mono: "cached_from session p reqs x \<Longrightarrow> cached_from session p (y # reqs) x"
  by (auto simp: cached_from_def)

lemma take_cached_ok:
  assumes "pl_ok p"
  shows "pl_ok (snd (take_cached session reqs p)) \<and> pl_maxBytes (snd (take_cached session reqs p)) = pl_maxBytes p \<and>
    (\<forall>x \<in> set (fst (take_cached session reqs p)). cached_from session p reqs x) \<and>
    fst ` set (fst (take_cached session reqs p)) \<subseteq> fst ` set reqs \<and>
    (distinct (map fst reqs) \<longrightarrow> distinct (map fst (fst (take_cached session reqs p))))"
  using assms
proof (induction reqs arbitrary: p)
  case (Cons y reqs)
  obtain i r where y: "y = (i, r)" by fastforce
  let ?k = "payloadKey session i r"
  note t = take_ok [OF Cons.prems, where k = ?k]
  let ?rest = "take_cached session reqs (snd (pl_take ?k p))"
  note IH = Cons.IH [OF t(1)]
  have tc: "take_cached session (y # reqs) p =
    (case fst (pl_take ?k p) of Some m \<Rightarrow> (i, m) # fst ?rest | None \<Rightarrow> fst ?rest, snd ?rest)"
    by (simp add: y case_prod_unfold Let_def)
  have "\<forall>x \<in> set (fst ?rest). cached_from session p reqs x" using IH by (simp add: cached_from_def t(4))
  then have rest: "\<forall>x \<in> set (fst ?rest). cached_from session p (y # reqs) x" using cached_from_mono by blast
  show ?case
  proof (cases "pl_lookup ?k p")
    case None
    then show ?thesis unfolding tc using IH t(2,3) rest by (auto simp: y)
  next
    case (Some e)
    then have "cached_from session p (y # reqs) (i, pe_message e)" by (auto simp: cached_from_def y)
    then show ?thesis unfolding tc using Some IH t(2,3) rest by (auto simp: y)
  qed
qed simp

subsection \<open>Loading\<close>

text \<open>Where a served body comes from.\<close>

definition serves :: "(string \<Rightarrow> page_error + conversation_page) \<Rightarrow> string \<Rightarrow> bool \<Rightarrow> payloads \<Rightarrow> string \<Rightarrow> string \<Rightarrow> message \<Rightarrow> bool" where
  "serves read_page session exact p i r m \<longleftrightarrow>
     (\<exists>e. pl_lookup (payloadKey session i r) p = Some e \<and> m = pe_message e) \<or>
     (\<exists>c page. read_page c = Inr page \<and> m \<in> set (cp_Messages page) \<and> m_ID m = i \<and>
       (exact \<or> HasPrefix session scopedSessionPrefix \<longrightarrow> mn_Revision (scoped_node session (MessageNode m)) = r))"

definition found_ok :: "(string \<Rightarrow> page_error + conversation_page) \<Rightarrow> string \<Rightarrow> bool \<Rightarrow> payloads \<Rightarrow> (string \<times> string) list \<Rightarrow> (string \<times> message) list \<Rightarrow> bool" where
  "found_ok read_page session exact p wanted found \<longleftrightarrow> distinct (map fst found) \<and>
     (\<forall>(i, m) \<in> set found. \<exists>r. (i, r) \<in> set wanted \<and> serves read_page session exact p i r m)"

lemma load_messages_ok:
  assumes "load_messages session exact wanted ms found q = (res, q')" "pl_ok q" "found_ok read_page session exact p wanted found"
    "read_page c = Inr page" "set ms \<subseteq> set (cp_Messages page)"
  shows "pl_ok q' \<and> pl_maxBytes q' = pl_maxBytes q \<and> (\<forall>found'. res = Inr found' \<longrightarrow> found_ok read_page session exact p wanted found')"
  using assms
proof (induction ms arbitrary: found q)
  case (Cons m ms)
  let ?q = "snd (remember session m None q)"
  have node: "fst (remember session m None q) = scoped_node session (MessageNode m)" by (simp add: remember_def Let_def)
  note rm = remember_ok [OF Cons.prems(2), of session m None]
  have sub: "set ms \<subseteq> set (cp_Messages page)" "m \<in> set (cp_Messages page)" using Cons.prems(5) by auto
  note step = Cons.prems(1) [unfolded load_messages.simps case_prod_unfold Let_def node]
  consider (skip) "load_messages session exact wanted ms found ?q = (res, q')" | (stale) "res = Inl ImageChanged" "q' = ?q"
    | (hit) r where "map_of wanted (m_ID m) = Some r" "map_of found (m_ID m) = None"
      "exact \<or> HasPrefix session scopedSessionPrefix \<longrightarrow> r = mn_Revision (scoped_node session (MessageNode m))"
      "load_messages session exact wanted ms ((m_ID m, m) # found) ?q = (res, q')"
  proof (cases "map_of wanted (m_ID m)")
    case None
    then show ?thesis using step by (intro skip) simp
  next
    case (Some r)
    show ?thesis
    proof (cases "map_of found (m_ID m) = None")
      case False
      then show ?thesis using step Some by (intro skip) auto
    next
      case True
      then show ?thesis using step Some
        by (cases "(exact \<or> HasPrefix session scopedSessionPrefix) \<and> r \<noteq> mn_Revision (scoped_node session (MessageNode m))")
          (intro stale, simp_all, intro hit, auto)
    qed
  qed
  then show ?case
  proof cases
    case skip
    from Cons.IH [OF this rm(1) Cons.prems(3,4) sub(1)] rm(2) show ?thesis by simp
  next
    case stale
    then show ?thesis using rm by simp
  next
    case (hit r)
    have "serves read_page session exact p (m_ID m) r m" using hit(3) Cons.prems(4) sub(2) unfolding serves_def by blast
    moreover have "m_ID m \<notin> set (map fst found)" using hit(2) by (simp add: map_of_eq_None_iff)
    ultimately have "found_ok read_page session exact p wanted ((m_ID m, m) # found)"
      using Cons.prems(3) map_of_SomeD [OF hit(1)] by (auto simp: found_ok_def)
    from Cons.IH [OF hit(4) rm(1) this Cons.prems(4) sub(1)] rm(2) show ?thesis by simp
  qed
qed auto

definition load_post :: "(string \<Rightarrow> page_error + conversation_page) \<Rightarrow> string \<Rightarrow> bool \<Rightarrow> payloads \<Rightarrow> (string \<times> string) list \<Rightarrow> payloads \<Rightarrow>
    (load_error + (string \<times> message) list) \<times> payloads \<Rightarrow> bool" where
  "load_post read_page session exact p wanted q r \<longleftrightarrow> pl_ok (snd r) \<and> pl_maxBytes (snd r) = pl_maxBytes q \<and>
     (\<forall>found. fst r = Inr found \<longrightarrow> found_ok read_page session exact p wanted found)"

lemma load_pages_ok:
  assumes "load_pages read_page session exact wanted cursor visited found q = Some r"
  shows "pl_ok q \<longrightarrow> found_ok read_page session exact p wanted found \<longrightarrow> load_post read_page session exact p wanted q r"
proof (rule load_pages.raw_induct [where P = "\<lambda>read_page session exact wanted cursor visited found q r.
      pl_ok q \<longrightarrow> found_ok read_page session exact p wanted found \<longrightarrow> load_post read_page session exact p wanted q r", OF _ assms], intro impI)
  fix lp :: "(string \<Rightarrow> page_error + conversation_page) \<Rightarrow> string \<Rightarrow> bool \<Rightarrow> (string \<times> string) list \<Rightarrow> string \<Rightarrow> string set \<Rightarrow> (string \<times> message) list \<Rightarrow> payloads \<Rightarrow>
      ((load_error + (string \<times> message) list) \<times> payloads) option"
    and read_page session exact wanted cursor visited found q r
  assume ih: "\<And>read_page session exact wanted cursor visited found q r. lp read_page session exact wanted cursor visited found q = Some r \<Longrightarrow>
      pl_ok q \<longrightarrow> found_ok read_page session exact p wanted found \<longrightarrow> load_post read_page session exact p wanted q r"
    and run: "(if length found \<ge> length wanted then Some (Inr found, q)
      else if cursor \<in> visited then Some (Inl CursorStuck, q)
      else case read_page cursor of Inl e \<Rightarrow> Some (Inl (LoadRead e), q)
      | Inr page \<Rightarrow> (case load_messages session exact wanted (cp_Messages page) found q of
             (Inl e, p) \<Rightarrow> Some (Inl e, p)
           | (Inr found, p) \<Rightarrow> (case cp_NextCursor page of
                  Some c \<Rightarrow> if c = [] then Some (Inr found, p) else lp read_page session exact wanted c (insert cursor visited) found p
                | None \<Rightarrow> Some (Inr found, p)))) = Some r"
    and q: "pl_ok q" and f: "found_ok read_page session exact p wanted found"
  show "load_post read_page session exact p wanted q r"
  proof (cases "length found \<ge> length wanted \<or> cursor \<in> visited \<or> (\<exists>e. read_page cursor = Inl e)")
    case True
    then have "r = (Inr found, q) \<or> r = (Inl CursorStuck, q) \<or> (\<exists>e. r = (Inl (LoadRead e), q))" using run by (auto split: if_splits)
    then show ?thesis using q f by (auto simp: load_post_def)
  next
    case False
    then obtain page where page: "read_page cursor = Inr page" by (cases "read_page cursor") auto
    obtain res q' where lm: "load_messages session exact wanted (cp_Messages page) found q = (res, q')" by fastforce
    note ok = load_messages_ok [OF lm q f page order_refl]
    show ?thesis
    proof (cases res)
      case (Inl e)
      then have "r = (Inl e, q')" using run False page lm by simp
      then show ?thesis using ok by (simp add: load_post_def)
    next
      case (Inr found')
      then have rest: "r = (Inr found', q') \<or> (\<exists>c. lp read_page session exact wanted c (insert cursor visited) found' q' = Some r)"
        using run False page lm by (auto split: option.splits if_splits)
      have f': "found_ok read_page session exact p wanted found'" using ok Inr by blast
      from rest show ?thesis
      proof
        assume "r = (Inr found', q')"
        then show ?thesis using ok f' by (simp add: load_post_def)
      next
        assume "\<exists>c. lp read_page session exact wanted c (insert cursor visited) found' q' = Some r"
        then have "load_post read_page session exact p wanted q' r" using ih ok f' by blast
        then show ?thesis using ok by (simp add: load_post_def)
      qed
    qed
  qed
qed

text \<open>The page loop ends when only finitely many cursors can be reached.\<close>

lemma load_pages_returns:
  assumes "finite C" "\<And>c page. c \<in> C \<Longrightarrow> read_page c = Inr page \<Longrightarrow> set_option (cp_NextCursor page) \<subseteq> C" "cursor \<in> C" "visited \<subseteq> C"
  shows "\<exists>r. load_pages read_page session exact wanted cursor visited found q = Some r"
  using assms(3,4)
proof (induction "card (C - visited)" arbitrary: cursor visited found q rule: less_induct)
  case less
  note unfold = load_pages.simps [of read_page session exact wanted cursor visited found q]
  show ?case
  proof (cases "length found \<ge> length wanted \<or> cursor \<in> visited \<or> (\<exists>e. read_page cursor = Inl e)")
    case True
    then show ?thesis unfolding unfold by auto
  next
    case False
    then obtain page where page: "read_page cursor = Inr page" by (cases "read_page cursor") auto
    obtain res q' where lm: "load_messages session exact wanted (cp_Messages page) found q = (res, q')" by fastforce
    have "cursor \<in> C - visited" using False less.prems(1) by simp
    then have smaller: "card (C - insert cursor visited) < card (C - visited)" using assms(1) by (intro psubset_card_mono) auto
    have next_returns: "\<exists>r. load_pages read_page session exact wanted c (insert cursor visited) f q' = Some r" if "cp_NextCursor page = Some c" for c f
      using less.hyps [OF smaller, of c f q'] assms(2) [OF less.prems(1) page] less.prems that by auto
    show ?thesis unfolding unfold using False page lm next_returns by (cases res; cases "cp_NextCursor page") auto
  qed
qed

subsection \<open>Properties\<close>

text \<open>Operations of a client, for the properties over every sequence of them.\<close>

datatype payload_call = CallRemember string message "message_node option" | CallTake string

fun run_call :: "payload_call \<Rightarrow> payloads \<Rightarrow> payloads" where
  "run_call (CallRemember session m node) p = snd (remember session m node p)"
| "run_call (CallTake k) p = snd (pl_take k p)"

text \<open>The entry that \<open>remember\<close> stores.\<close>

definition payload_of :: "string \<Rightarrow> message \<Rightarrow> message_node option \<Rightarrow> payload_entry" where
  "payload_of session m node =
     \<lparr>pe_key = payloadKey session (m_ID m) (mn_Revision (scoped_node session (case node of Some n \<Rightarrow> n | None \<Rightarrow> MessageNode m))),
      pe_message = m, pe_bytes = int (length (message_json m))\<rparr>"

lemma remember_store: "snd (remember session m node p) = pl_store (payload_of session m node) p"
  by (simp add: remember_def payload_of_def Let_def)

definition stored_by :: "payload_call list \<Rightarrow> payload_entry list" where
  "stored_by calls = List.map_filter (\<lambda>call. case call of CallRemember session m node \<Rightarrow> Some (payload_of session m node) | CallTake k \<Rightarrow> None) calls"

definition cache_call :: "payload_call \<Rightarrow> payload_entry + string" where
  "cache_call call = (case call of CallRemember session m node \<Rightarrow> Inl (payload_of session m node) | CallTake k \<Rightarrow> Inr k)"

lemma run_calls: "fold run_call calls p = fold payload_cache.perform (map cache_call calls) p"
proof (induction calls arbitrary: p)
  case (Cons call calls)
  have "run_call call p = payload_cache.perform (cache_call call) p"
    by (cases call) (simp_all add: payload_cache.perform_def cache_call_def remember_store)
  then show ?case using Cons.IH by simp
qed simp

lemma stored_calls: "payload_cache.stores (map cache_call calls) = stored_by calls"
proof (induction calls)
  case (Cons call calls)
  then show ?case by (cases call) (simp_all add: stored_by_def cache_call_def List.map_filter_simps)
qed (simp add: stored_by_def List.map_filter_simps)

lemma stored_bytes: "e \<in> set (stored_by calls) \<Longrightarrow> 0 \<le> pe_bytes e"
  by (auto simp: stored_by_def List.map_filter_def payload_of_def split: payload_call.splits)

lemma run_calls_ok: "pl_ok p \<Longrightarrow> pl_ok (fold run_call calls p) \<and> pl_maxBytes (fold run_call calls p) = pl_maxBytes p"
proof (induction calls arbitrary: p)
  case (Cons call calls)
  have "pl_ok (run_call call p) \<and> pl_maxBytes (run_call call p) = pl_maxBytes p"
    using Cons.prems by (cases call) (simp_all add: remember_ok take_ok)
  then show ?case using Cons.IH by simp
qed simp

lemma new_lookup: "pl_lookup k (NewConversationPayloads limit) = None"
  by (simp add: pl_lookup_def NewConversationPayloads_def)

lemma run_calls_hit:
  assumes "pl_lookup k (fold run_call calls (NewConversationPayloads limit)) = Some e"
  shows "find (\<lambda>e. pe_key e = k) (rev (stored_by calls)) = Some e"
  using payload_cache.hit_is_last [OF pl_ok_new, of "map cache_call calls" k limit e] assms stored_bytes [of _ calls]
  by (auto simp: run_calls stored_calls new_lookup split: option.splits)

lemma remember_hit:
  assumes "pl_ok p" "int (length (message_json m)) \<le> pl_maxBytes p"
  shows "fst (pl_take (pe_key (payload_of session m node)) (snd (remember session m node p))) = Some m"
proof -
  let ?e = "payload_of session m node"
  have "0 \<le> pe_bytes ?e" "pe_bytes ?e \<le> pl_maxBytes p" using assms(2) by (simp_all add: payload_of_def)
  note s = store_ok [OF assms(1) this(1)] this(2)
  have "pl_index (pl_store ?e p)" using s(1) by (simp add: pl_ok_def pl_counted_def)
  then have "pl_lookup (pe_key ?e) (pl_store ?e p) = Some ?e" using s(4,5) by (simp add: lookup_iff)
  then show ?thesis using take_ok(3) [OF s(1)] by (simp add: remember_store) (simp add: payload_of_def)
qed

text \<open>Two messages, and the cache after the first was stored and served.\<close>

definition first_message :: message where
  "first_message = plain_message ''a'' ''t'' None ''user'' (Fin 0) ''one'' None"

definition second_message :: message where
  "second_message = plain_message ''b'' ''t'' None ''user'' (Fin 0) ''two'' None"

abbreviation first_key :: string where
  "first_key \<equiv> pe_key (payload_of ''s'' first_message None)"

abbreviation served_cache :: payloads where
  "served_cache \<equiv> fold run_call [CallRemember ''s'' first_message None, CallTake first_key] (NewConversationPayloads 4096)"

lemma sample_sizes: "length (message_json first_message) \<le> 4096" "length (message_json second_message) \<le> 4096"
  by (simp_all add: first_message_def second_message_def message_json_def optional_member_def nonempty_member_def member_def
      json_array_def go_json_object_def plain_message_def plain_json Number_MarshalJSON_def jsNumberString_def)

lemma served_bodies: "pl_bodies served_cache = [payload_of ''s'' first_message None]"
proof -
  have fits: "pe_bytes (payload_of ''s'' first_message None) \<le> 4096" using sample_sizes by (simp add: payload_of_def)
  then show ?thesis
    by (simp add: remember_store pl_store_def pl_drop_def pl_push_def pl_evict.simps pl_take_def NewConversationPayloads_def
        pl_bodies_def pl_value_def Let_def)
qed

text \<open>
  C18. After every sequence of stores and hits the map and the list of the cache agree: a key is in the
  map exactly when one body of the list has it, and then it leads to that body, so there is one body per
  key; the account is exactly the bytes of the bodies in the list and stays within the bound; a hit is the body last
  stored under its key; and a body that fits at all is a hit right after it was stored.
\<close>

theorem payload_cache_exact:
  assumes "p = fold run_call calls (NewConversationPayloads limit)"
  shows "distinct (map pe_key (pl_bodies p)) \<and>
    (\<forall>k e. pl_lookup k p = Some e \<longleftrightarrow> e \<in> set (pl_bodies p) \<and> pe_key e = k) \<and>
    RetainedBytes p = (\<Sum>e\<leftarrow>pl_bodies p. pe_bytes e) \<and> RetainedBytes p \<le> max 0 limit \<and>
    (\<forall>k m. fst (pl_take k p) = Some m \<longrightarrow>
      (\<exists>e. find (\<lambda>e. pe_key e = k) (rev (stored_by calls)) = Some e \<and> pe_message e = m)) \<and>
    (int (length (message_json m)) \<le> limit \<longrightarrow>
      fst (pl_take (payloadKey session (m_ID m) (mn_Revision (fst (remember session m node p)))) (snd (remember session m node p))) = Some m)"
proof -
  have ok: "pl_ok p" "pl_maxBytes p = limit"
    using run_calls_ok [OF pl_ok_new, of calls limit] by (simp_all add: assms) (simp add: NewConversationPayloads_def)
  then have i: "pl_index p" by (simp add: pl_ok_def pl_counted_def)
  have hit: "\<exists>e. find (\<lambda>e. pe_key e = k) (rev (stored_by calls)) = Some e \<and> pe_message e = m" if "fst (pl_take k p) = Some m" for k m
  proof -
    obtain e where "pl_lookup k p = Some e" "pe_message e = m" using \<open>fst (pl_take k p) = Some m\<close> take_ok(3) [OF ok(1), of k] by auto
    then show ?thesis using run_calls_hit [of k calls limit e] assms by auto
  qed
  have "payloadKey session (m_ID m) (mn_Revision (fst (remember session m node p))) = pe_key (payload_of session m node)"
    by (simp add: remember_def payload_of_def Let_def)
  with remember_hit [OF ok(1)] ok(2) have
    "int (length (message_json m)) \<le> limit \<longrightarrow>
      fst (pl_take (payloadKey session (m_ID m) (mn_Revision (fst (remember session m node p)))) (snd (remember session m node p))) = Some m"
    by simp
  with bodies_keys [OF i] lookup_iff [OF i] hit ok show ?thesis
    by (simp add: RetainedBytes_def pl_ok_def pl_counted_def)
qed

theorem payload_cache_exact_witness:
  "pl_lookup first_key served_cache = Some (payload_of ''s'' first_message None) \<and>
   RetainedBytes served_cache = int (length (message_json first_message)) \<and> RetainedBytes served_cache \<le> 4096 \<and>
   fst (pl_take (payloadKey ''s'' (m_ID second_message) (mn_Revision (fst (remember ''s'' second_message None served_cache))))
     (snd (remember ''s'' second_message None served_cache))) = Some second_message"
proof -
  note all = payload_cache_exact [OF refl [of served_cache], of second_message "''s''" None]
  then have "pl_lookup first_key served_cache = Some (payload_of ''s'' first_message None)"
    "RetainedBytes served_cache = (\<Sum>e\<leftarrow>pl_bodies served_cache. pe_bytes e)" "RetainedBytes served_cache \<le> max 0 4096"
    unfolding served_bodies by simp_all
  moreover have "(\<Sum>e\<leftarrow>pl_bodies served_cache. pe_bytes e) = int (length (message_json first_message))"
    unfolding served_bodies by (simp add: payload_of_def)
  ultimately show ?thesis using all sample_sizes by (simp del: fold.simps)
qed

text \<open>
  A successful \<open>Load\<close> answers every request in its place: with the body cached under exactly the key of
  the request, or with a message of the history that has the requested identity and, when revisions are
  compared, the requested revision; the response stays within its bound and the cache stays exact.
\<close>

theorem Load_serves:
  assumes "Load read_page session reqs exact p = Some (Inr ms, q)" "pl_ok p"
  shows "length ms = length reqs \<and> (\<forall>k < length reqs. serves read_page session exact p (fst (reqs ! k)) (snd (reqs ! k)) (ms ! k)) \<and>
    length (response_json ms) \<le> 4 * 1024 * 1024 \<and> pl_ok q \<and> pl_maxBytes q = pl_maxBytes p"
proof -
  have rq: "requests_ok reqs" using assms(1) by (auto simp: Load_def split: if_splits)
  let ?tc = "take_cached session reqs p"
  obtain r where r: "load_pages read_page session exact reqs [] {} (fst ?tc) (snd ?tc) = Some (r, q)" "bindr r (finish_load reqs) = Inr ms"
    using assms(1) rq by (auto simp: Load_def Let_def case_prod_unfold)
  obtain found where found: "r = Inr found" "finish_load reqs found = Inr ms" using r(2) by auto
  note tc = take_cached_ok [OF assms(2), of session reqs]
  have start: "found_ok read_page session exact p reqs (fst ?tc)"
  proof -
    have "distinct (map fst (fst ?tc))" using tc rq by (simp add: requests_ok_def)
    moreover have "\<exists>r. (fst x, r) \<in> set reqs \<and> serves read_page session exact p (fst x) r (snd x)" if "x \<in> set (fst ?tc)" for x
      using tc that unfolding cached_from_def serves_def by blast
    ultimately show ?thesis by (simp add: found_ok_def case_prod_unfold)
  qed
  have post: "load_post read_page session exact p reqs (snd ?tc) (r, q)" using load_pages_ok [OF r(1)] tc start by blast
  then have ok: "found_ok read_page session exact p reqs found" using found(1) by (simp add: load_post_def)
  have ms: "ms = map (\<lambda>(i, r). the (map_of found i)) reqs" "length found = length reqs" "length (response_json ms) \<le> MaxResponseBytes"
    using found(2) by (auto simp: finish_load_def Let_def split: if_splits)
  have ids: "fst ` set found \<subseteq> fst ` set reqs" using ok by (force simp: found_ok_def)
  have dist: "distinct (map fst reqs)" "distinct (map fst found)" using rq ok by (auto simp: requests_ok_def found_ok_def)
  have "card (fst ` set found) = card (fst ` set reqs)"
    using dist ms(2) by (metis distinct_card length_map set_map)
  then have all: "fst ` set found = fst ` set reqs" using ids by (simp add: card_subset_eq)
  have "serves read_page session exact p (fst (reqs ! k)) (snd (reqs ! k)) (ms ! k)" if k: "k < length reqs" for k
  proof -
    obtain i rv where ir: "reqs ! k = (i, rv)" by fastforce
    have mem: "(i, rv) \<in> set reqs" using k ir by (metis nth_mem)
    then have "i \<in> fst ` set found" using all by force
    then obtain m where m: "map_of found i = Some m" using map_of_eq_None_iff [of found i] by auto
    then obtain rv' where "(i, rv') \<in> set reqs" "serves read_page session exact p i rv' m"
      using ok map_of_SomeD [OF m] by (force simp: found_ok_def)
    moreover have "rv' = rv" using dist(1) mem calculation(1) by (simp add: eq_key_imp_eq_value)
    ultimately show ?thesis using k ir m by (simp add: ms(1))
  qed
  then show ?thesis using ms(1,3) post tc by (simp add: load_post_def MaxResponseBytes_def)
qed

text \<open>
  \<open>Load\<close> returns on every history from whose first page only finitely many cursors can be reached,
  also when its cursors run in a circle.
\<close>

theorem Load_returns:
  assumes "finite C" "[] \<in> C" "\<forall>c \<in> C. \<forall>page. read_page c = Inr page \<longrightarrow> set_option (cp_NextCursor page) \<subseteq> C"
  shows "\<exists>r. Load read_page session reqs exact p = Some r"
proof (cases "requests_ok reqs")
  case True
  obtain r where "load_pages read_page session exact reqs [] {} (fst (take_cached session reqs p)) (snd (take_cached session reqs p)) = Some r"
    using load_pages_returns [OF assms(1), of read_page "[]" "{}"] assms(2,3) by blast
  then show ?thesis using True by (simp add: Load_def case_prod_unfold Let_def)
qed (simp add: Load_def)

definition circular_page :: conversation_page where
  "circular_page = \<lparr>cp_Access = None, cp_PageCursor = None, cp_Nodes = [], cp_Messages = [], cp_NextCursor = Some ''again'',
     cp_Queued = None, cp_Runtime = None, cp_InputReceipts = []\<rparr>"

theorem Load_returns_witness: "\<exists>r. Load (\<lambda>_. Inr circular_page) ''s'' [(''a'', replicate 64 CHR ''0'')] False (NewConversationPayloads 10) = Some r"
  by (rule Load_returns [where C = "{[], ''again''}"]) (simp_all add: circular_page_def)

text \<open>A history of one page with one message, and a request for it.\<close>

definition single_message :: message where
  "single_message = plain_message ''a'' ''t'' None ''user'' (Fin 0) ''hi'' None"

definition single_page :: conversation_page where
  "single_page = circular_page\<lparr>cp_Messages := [single_message], cp_NextCursor := None\<rparr>"

lemma single_fields: "cp_Messages single_page = [single_message]" "cp_NextCursor single_page = None"
  by (simp_all add: single_page_def)

lemma single_load:
  "\<exists>q. Load (\<lambda>_. Inr single_page) ''s'' [(''a'', replicate 64 CHR ''0'')] False (NewConversationPayloads 10) = Some (Inr [single_message], q)"
proof -
  have rq: "requests_ok [(''a'', replicate 64 CHR ''0'')]"
    using utf16Len_ascii [of "''a''"] by (simp add: requests_ok_def revision_ok_def maxPayloadRequests_def maxPayloadIDUnits_def)
  have tc: "take_cached ''s'' [(''a'', replicate 64 CHR ''0'')] (NewConversationPayloads 10) = ([], NewConversationPayloads 10)"
    by (simp add: pl_take_def NewConversationPayloads_def)
  have "\<not> HasPrefix ''s'' scopedSessionPrefix" by (simp add: HasPrefix_def scopedSessionPrefix_def)
  then obtain q where lm: "load_messages ''s'' False [(''a'', replicate 64 CHR ''0'')] [single_message] [] (NewConversationPayloads 10) = (Inr [(''a'', single_message)], q)"
    by (simp add: case_prod_unfold single_message_def plain_message_def)
  have "load_pages (\<lambda>_. Inr single_page) ''s'' False [(''a'', replicate 64 CHR ''0'')] [] {} [] (NewConversationPayloads 10) = Some (Inr [(''a'', single_message)], q)"
    by (subst load_pages.simps) (simp add: lm single_fields del: load_messages.simps)
  moreover have "length (response_json [single_message]) \<le> MaxResponseBytes"
    by (simp add: response_json_def single_message_def MaxResponseBytes_def message_json_def optional_member_def nonempty_member_def member_def
        json_array_def go_json_object_def plain_message_def plain_json Number_MarshalJSON_def jsNumberString_def)
  ultimately show ?thesis using rq unfolding Load_def tc by (simp add: finish_load_def)
qed

theorem Load_serves_witness:
  "serves (\<lambda>_. Inr single_page) ''s'' False (NewConversationPayloads 10) ''a'' (replicate 64 CHR ''0'') single_message"
proof -
  obtain q where "Load (\<lambda>_. Inr single_page) ''s'' [(''a'', replicate 64 CHR ''0'')] False (NewConversationPayloads 10) = Some (Inr [single_message], q)"
    using single_load by blast
  from Load_serves [OF this pl_ok_new] show ?thesis by simp
qed

end
