(* ===== verification/Desktop.thy ===== *)
theory Desktop
  imports PublicJson NativeRead "HOL-Library.Word" "HOL-Library.List_Lexorder"
begin

text \<open>
  The connection to the original desktop application (\<open>internal/desktop\<close>): frames (\<open>frame.go\<close>), one exchange of
  requests and responses over a connection (\<open>exchange.go\<close>) and the client that opens, replaces and closes
  connections (\<open>client.go\<close>). Every mutex section is a function; goroutines are program counters and
  the step relations interleave the sections. A channel of capacity one is the list of what it holds.
\<close>

subsection \<open>Frames\<close>

definition MaxFrameBytes :: nat where
  "MaxFrameBytes = 268435456"

definition MaxOutputBytes :: nat where
  "MaxOutputBytes = 67108864"

definition le32 :: "nat \<Rightarrow> string" where
  "le32 n = [chr (n mod 256), chr (n div 256 mod 256), chr (n div 65536 mod 256), chr (n div 16777216 mod 256)]"

definition of_le32 :: "string \<Rightarrow> nat" where
  "of_le32 h = byte_of (h ! 0) + 256 * byte_of (h ! 1) + 65536 * byte_of (h ! 2) + 16777216 * byte_of (h ! 3)"

datatype frame_error = FrameEOF | FrameUnexpectedEOF | FrameSize | FrameJson jerr

text \<open>
  The next value of a stream and what is left of it. After an error the connection is closed, so
  what the decoder left unread then does not matter.
\<close>

definition ReadFrame :: "string \<Rightarrow> frame_error + (gval \<times> string)" where
  "ReadFrame input =
     (if input = [] then Inl FrameEOF
      else if length input < 4 then Inl FrameUnexpectedEOF
      else
        let size = of_le32 (take 4 input); rest = drop 4 input
        in if size = 0 \<or> MaxFrameBytes < size then Inl FrameSize
           else case snd (Read (take size rest) False) of
             Inl e \<Rightarrow> Inl (FrameJson e)
           | Inr v \<Rightarrow> if length rest < size then Inl FrameUnexpectedEOF else Inr (v, drop size rest))"

subsection \<open>Values written to the wire\<close>

text \<open>
  \<open>json.Marshal\<close> of native values: plain maps with sorted keys, ordered objects and surrogate text through
  their own \<open>MarshalJSON\<close>, whose output is compacted with HTML escapes. A number that is not finite is an
  error.
\<close>

fun all_some :: "'a option list \<Rightarrow> 'a list option" where
  "all_some [] = Some []"
| "all_some (x # xs) = (case x of None \<Rightarrow> None | Some y \<Rightarrow> map_option ((#) y) (all_some xs))"

definition map_json :: "(string \<times> string option) list \<Rightarrow> string option" where
  "map_json items =
     map_option go_json_object
       (all_some (map (\<lambda>(k, r). map_option (go_member k) r) (sort_key (\<lambda>(k, r). map byte_of k) items)))"

definition object_json :: "(string \<times> string option) list \<Rightarrow> string option" where
  "object_json items =
     map_option (\<lambda>members. html_escape (go_json_object members))
       (all_some (map (\<lambda>k. case map_of items k of Some (Some r) \<Rightarrow> Some (MarshalJSON k @ '':'' @ r) | _ \<Rightarrow> None)
          (Keys (map (\<lambda>(k, r). (k, GNil)) items))))"

fun Marshal :: "gval \<Rightarrow> string option" where
  "Marshal GNil = Some ''null''"
| "Marshal (GBool b) = Some (bool_json b)"
| "Marshal (GNum n) = (case n of Fin x \<Rightarrow> Some (jsNumberString n) | _ \<Rightarrow> None)"
| "Marshal (GStr s) = Some (go_quote s)"
| "Marshal (GSur s) = Some (html_escape (MarshalJSON s))"
| "Marshal (GArr vs) = map_option (\<lambda>rs. ''['' @ join '','' rs @ '']'') (all_some (map Marshal vs))"
| "Marshal (GObj ps) = object_json (map (\<lambda>(k, v). (k, Marshal v)) ps)"
| "Marshal (GMap ps) = map_json (map (\<lambda>(k, v). (k, Marshal v)) ps)"

datatype wire_value = WVal gval | WInt int

type_synonym wire_message = "(string \<times> wire_value) list"

definition wire_json :: "wire_value \<Rightarrow> string option" where
  "wire_json w = (case w of WVal v \<Rightarrow> Marshal v | WInt n \<Rightarrow> Some (FormatInt n))"

definition frameBody :: "wire_message \<Rightarrow> string + string" where
  "frameBody m =
     (case map_json (map (\<lambda>(k, w). (k, wire_json w)) m) of
        None \<Rightarrow> Inl ''json: unsupported value''
      | Some body \<Rightarrow> if MaxOutputBytes < length body then Inl ''IPC output limit'' else Inr body)"

text \<open>The bytes a \<open>writeFrameBody\<close> without error hands to the connection; the length is cut to 32 bits.\<close>

definition ipc_frame :: "string \<Rightarrow> string" where
  "ipc_frame body = le32 (length body) @ body"

text \<open>
  \<open>writeAll\<close> over a writer whose \<open>k\<close>-th call takes some bytes (at most what it is given, as the
  contract of \<open>io.Writer\<close> says) or fails: what was written, and the error.
\<close>

function writeAll :: "(nat \<Rightarrow> nat + string) \<Rightarrow> nat \<Rightarrow> string \<Rightarrow> string \<times> string option" where
  "writeAll outcome k data =
     (if data = [] then ([], None)
      else case outcome k of
        Inr e \<Rightarrow> ([], Some e)
      | Inl n \<Rightarrow>
          if n = 0 then ([], Some ''short write'')
          else let (w, e) = writeAll outcome (Suc k) (drop n data) in (take n data @ w, e))"
  by pat_completeness auto
termination
  by (relation "measure (\<lambda>(outcome, k, data). length data)") auto

declare writeAll.simps [simp del]

subsection \<open>State of an exchange\<close>

datatype phase = Registered | Overflowed | Waiting | Leaving "string + props" | Returned "string + props"

text \<open>A call of \<open>call\<close> past its registration: \<open>pc_expired\<close> says that its context is done.\<close>

record pending_call =
  pc_id :: string
  pc_body :: "string + string"
  pc_expired :: bool
  pc_result :: "(string + props) list"
  pc_phase :: phase

record outgoing =
  o_body :: string
  o_id :: string

datatype write_pc = WriterSelects | WriterHolds outgoing | WriterWrites outgoing | WriterAccounts outgoing "string option"
  | WriterCloses string | WriterReturned

datatype read_pc = ReaderReads | ReaderEnqueues wire_message | ReaderOverflowed | ReaderCloses string | ReaderReturned

text \<open>
  \<open>x_closers\<close> are the calls of \<open>close\<close> that other goroutines still have to make, \<open>x_notify\<close> says that \<open>close\<close> has still to call \<open>onClose\<close>, \<open>x_sent\<close> are the packets handed to
  the connection, \<open>x_heard\<close> the broadcasts handed to the callback, \<open>x_ids\<close> the identities drawn.
\<close>

record exchange =
  x_timeout :: int
  x_clientID :: string
  x_pending :: "(string \<times> nat) list"
  x_writes :: "outgoing list"
  x_queued :: int
  x_failure :: "string option"
  x_calls :: "pending_call list"
  x_blocked :: bool
  x_writer :: write_pc
  x_reader :: read_pc
  x_closers :: "string list"
  x_notify :: bool
  x_sent :: "outgoing list"
  x_heard :: "props list"
  x_ids :: "string list"

definition newExchange :: "int \<Rightarrow> exchange" where
  "newExchange timeout = \<lparr>x_timeout = timeout, x_clientID = ''filo'', x_pending = [], x_writes = [], x_queued = 0,
     x_failure = None, x_calls = [], x_blocked = False, x_writer = WriterSelects, x_reader = ReaderReads, x_closers = [],
     x_notify = False, x_sent = [], x_heard = [], x_ids = []\<rparr>"

definition upd_call :: "nat \<Rightarrow> (pending_call \<Rightarrow> pending_call) \<Rightarrow> exchange \<Rightarrow> exchange" where
  "upd_call a g x = x\<lparr>x_calls := (x_calls x)[a := g (x_calls x ! a)]\<rparr>"

text \<open>A send on \<open>call.result\<close>; on a full channel it would block with the mutex held.\<close>

definition send_response :: "nat \<Rightarrow> string + props \<Rightarrow> exchange \<Rightarrow> exchange" where
  "send_response a v x =
     (if pc_result (x_calls x ! a) \<noteq> [] then x\<lparr>x_blocked := True\<rparr> else upd_call a (\<lambda>c. c\<lparr>pc_result := [v]\<rparr>) x)"

subsection \<open>Sections of an exchange\<close>

definition exchange_close :: "string \<Rightarrow> exchange \<Rightarrow> exchange" where
  "exchange_close err x =
     (if x_failure x \<noteq> None then x
      else
        let x' = foldl (\<lambda>y a. send_response a (Inl err) y) (x\<lparr>x_failure := Some err\<rparr>) (map snd (x_pending x))
        in x'\<lparr>x_pending := [], x_queued := 0, x_writes := [], x_notify := True\<rparr>)"

text \<open>A version 4 UUID of sixteen random bytes.\<close>

definition hex_bytes :: "nat list \<Rightarrow> string" where
  "hex_bytes bs = concat (map (\<lambda>b. [hex_char (b div 16), hex_char (b mod 16)]) bs)"

definition request_id :: "nat list \<Rightarrow> string" where
  "request_id n =
     (let n = n[6 := or (and (n ! 6) 15) 64, 8 := or (and (n ! 8) 63) 128]
      in join ''-'' [hex_bytes (take 4 n), hex_bytes (take 2 (drop 4 n)), hex_bytes (take 2 (drop 6 n)),
           hex_bytes (take 2 (drop 8 n)), hex_bytes (drop 10 n)])"

definition request_message :: "string \<Rightarrow> string \<Rightarrow> int \<Rightarrow> string \<Rightarrow> int \<Rightarrow> gval \<Rightarrow> string \<Rightarrow> wire_message" where
  "request_message rid source timeout method version params target =
     [(''type'', WVal (GStr ''request'')), (''requestId'', WVal (GStr rid)), (''sourceClientId'', WVal (GStr source)),
      (''method'', WVal (GStr method)), (''version'', WInt version), (''params'', WVal params), (''timeoutMs'', WInt timeout)] @
     (if target = [] then [] else [(''targetClientId'', WVal (GStr target))])"

text \<open>The first section of \<open>call\<close>; the message and its body depend on nothing that changes later.\<close>

definition call_register :: "string \<Rightarrow> string \<Rightarrow> int \<Rightarrow> gval \<Rightarrow> string \<Rightarrow> exchange \<Rightarrow> string + (nat \<times> exchange)" where
  "call_register rid method version params target x =
     (case x_failure x of
        Some e \<Rightarrow> Inl e
      | None \<Rightarrow>
          if 64 \<le> length (x_pending x) then Inl ''Too many desktop requests''
          else
            let a = length (x_calls x);
                m = request_message rid (x_clientID x) (x_timeout x) method version params target;
                c = \<lparr>pc_id = rid, pc_body = frameBody m, pc_expired = False, pc_result = [], pc_phase = Registered\<rparr>
            in Inr (a, x\<lparr>x_pending := (rid, a) # delete_key rid (x_pending x), x_calls := x_calls x @ [c],
                         x_ids := rid # x_ids x\<rparr>))"

datatype enqueued = Queued exchange | Refused string | Backpressure

definition enqueue_body :: "string + string \<Rightarrow> string \<Rightarrow> exchange \<Rightarrow> enqueued" where
  "enqueue_body result i x =
     (case result of
        Inl e \<Rightarrow> Refused e
      | Inr body \<Rightarrow>
          (case x_failure x of
             Some e \<Rightarrow> Refused e
           | None \<Rightarrow>
               if x_queued x + int (length body) \<le> int MaxOutputBytes \<and> length (x_writes x) < 64
               then Queued (x\<lparr>x_queued := x_queued x + int (length body), x_writes := x_writes x @ [\<lparr>o_body = body, o_id = i\<rparr>]\<rparr>)
               else Backpressure))"

definition backpressure :: string where
  "backpressure = ''Desktop IPC backpressure limit''"

definition leave :: "nat \<Rightarrow> string + props \<Rightarrow> exchange \<Rightarrow> exchange" where
  "leave a r = upd_call a (\<lambda>c. c\<lparr>pc_phase := Leaving r\<rparr>)"

definition cancelled :: string where
  "cancelled = ''Desktop request timed out or cancelled; do not automatically resend''"

text \<open>\<open>call\<close> after its registration: the check of the context and \<open>enqueue\<close>.\<close>

definition call_enqueue :: "nat \<Rightarrow> exchange \<Rightarrow> exchange" where
  "call_enqueue a x =
     (let c = x_calls x ! a
      in if pc_expired c then leave a (Inl ''context done'') x
         else case enqueue_body (pc_body c) (pc_id c) x of
           Queued x' \<Rightarrow> upd_call a (\<lambda>c. c\<lparr>pc_phase := Waiting\<rparr>) x'
         | Refused e \<Rightarrow> leave a (Inl e) x
         | Backpressure \<Rightarrow> upd_call a (\<lambda>c. c\<lparr>pc_phase := Overflowed\<rparr>) x)"

text \<open>The deferred section of \<open>call\<close>.\<close>

definition call_return :: "nat \<Rightarrow> string + props \<Rightarrow> exchange \<Rightarrow> exchange" where
  "call_return a r x =
     upd_call a (\<lambda>c. c\<lparr>pc_phase := Returned r\<rparr>) (x\<lparr>x_pending := delete_key (pc_id (x_calls x ! a)) (x_pending x)\<rparr>)"

text \<open>The first section of \<open>writeLoop\<close> for a packet: whether it is still wanted.\<close>

definition packet_active :: "outgoing \<Rightarrow> exchange \<Rightarrow> bool" where
  "packet_active p x \<longleftrightarrow> x_failure x = None \<and>
     (o_id p = [] \<or> (case map_of (x_pending x) (o_id p) of None \<Rightarrow> False | Some a \<Rightarrow> \<not> pc_expired (x_calls x ! a)))"

definition writer_check :: "outgoing \<Rightarrow> exchange \<Rightarrow> exchange" where
  "writer_check p x =
     (if packet_active p x then x\<lparr>x_writer := WriterWrites p, x_sent := x_sent x @ [p]\<rparr>
      else x\<lparr>x_writer := WriterAccounts p None\<rparr>)"

definition writer_account :: "outgoing \<Rightarrow> string option \<Rightarrow> exchange \<Rightarrow> exchange" where
  "writer_account p err x =
     (let x = (if x_failure x = None then x\<lparr>x_queued := x_queued x - int (length (o_body p))\<rparr> else x)
      in x\<lparr>x_writer := (case err of None \<Rightarrow> WriterSelects | Some e \<Rightarrow> WriterCloses e)\<rparr>)"

definition discovery_reply :: "props \<Rightarrow> wire_message" where
  "discovery_reply m =
     [(''type'', WVal (GStr ''client-discovery-response'')), (''response'', WVal (GMap [(''canHandle'', GBool False)]))] @
     (case map_of m ''requestId'' of None \<Rightarrow> [] | Some v \<Rightarrow> [(''requestId'', WVal v)])"

definition take_response :: "props \<Rightarrow> exchange \<Rightarrow> exchange" where
  "take_response m x =
     (let i = Text (field m ''requestId'')
      in case map_of (x_pending x) i of
           None \<Rightarrow> x
         | Some a \<Rightarrow> send_response a (Inr m) (x\<lparr>x_pending := delete_key i (x_pending x)\<rparr>))"

text \<open>What \<open>readLoop\<close> does with the result of one \<open>ReadFrame\<close>.\<close>

definition reader_handle :: "frame_error + gval \<Rightarrow> exchange \<Rightarrow> exchange" where
  "reader_handle got x =
     (case got of
        Inl _ \<Rightarrow> x\<lparr>x_reader := ReaderCloses ''Original desktop disconnected; request outcome may be unknown''\<rparr>
      | Inr v \<Rightarrow>
          let m = fields_of v
          in if Fields v = None \<or> AsText (field m ''type'') = None then x\<lparr>x_reader := ReaderCloses ''Invalid IPC message''\<rparr>
             else if Text (field m ''type'') = ''client-discovery-request'' then x\<lparr>x_reader := ReaderEnqueues (discovery_reply m)\<rparr>
             else if Text (field m ''type'') = ''response'' then take_response m x
             else if Text (field m ''type'') = ''broadcast'' then x\<lparr>x_heard := x_heard x @ [m]\<rparr>
             else x)"

definition reader_enqueue :: "wire_message \<Rightarrow> exchange \<Rightarrow> exchange" where
  "reader_enqueue m x =
     (case enqueue_body (frameBody m) [] x of
        Queued x' \<Rightarrow> x'\<lparr>x_reader := ReaderReads\<rparr>
      | Refused e \<Rightarrow> x\<lparr>x_reader := ReaderCloses e\<rparr>
      | Backpressure \<Rightarrow> x\<lparr>x_reader := ReaderOverflowed\<rparr>)"

definition broadcast_message :: "string \<Rightarrow> string \<Rightarrow> int \<Rightarrow> gval \<Rightarrow> string list option \<Rightarrow> wire_message" where
  "broadcast_message source method version params targets =
     [(''type'', WVal (GStr ''broadcast'')), (''sourceClientId'', WVal (GStr source)), (''method'', WVal (GStr method)),
      (''version'', WInt version), (''params'', WVal params)] @
     (case targets of None \<Rightarrow> [] | Some ts \<Rightarrow> [(''targetClientIds'', WVal (GArr (map GStr ts)))])"

text \<open>The \<open>enqueue\<close> of \<open>Broadcast\<close>: the error it returns, and the closure it makes after an overflow.\<close>

definition broadcast_enqueue :: "wire_message \<Rightarrow> exchange \<Rightarrow> exchange \<times> string option" where
  "broadcast_enqueue m x =
     (case enqueue_body (frameBody m) [] x of
        Queued x' \<Rightarrow> (x', None)
      | Refused e \<Rightarrow> (x, Some e)
      | Backpressure \<Rightarrow> (x\<lparr>x_closers := backpressure # x_closers x\<rparr>, Some backpressure))"

subsection \<open>Interleavings of an exchange\<close>

inductive local_step :: "exchange \<Rightarrow> exchange \<Rightarrow> bool" where
  register: "length nonce = 16 \<Longrightarrow> call_register (request_id nonce) method version params target x = Inr (a, x') \<Longrightarrow>
    local_step x x'"
| queue: "a < length (x_calls x) \<Longrightarrow> pc_phase (x_calls x ! a) = Registered \<Longrightarrow> local_step x (call_enqueue a x)"
| overflow: "a < length (x_calls x) \<Longrightarrow> pc_phase (x_calls x ! a) = Overflowed \<Longrightarrow>
    local_step x (leave a (Inl backpressure) (exchange_close backpressure x))"
| expire: "a < length (x_calls x) \<Longrightarrow> local_step x (upd_call a (\<lambda>c. c\<lparr>pc_expired := True\<rparr>) x)"
| receive: "a < length (x_calls x) \<Longrightarrow> pc_phase (x_calls x ! a) = Waiting \<Longrightarrow> pc_result (x_calls x ! a) = [r] \<Longrightarrow>
    local_step x (leave a r x)"
| cancel: "a < length (x_calls x) \<Longrightarrow> pc_phase (x_calls x ! a) = Waiting \<Longrightarrow> pc_expired (x_calls x ! a) \<Longrightarrow>
    local_step x (leave a (Inl cancelled) x)"
| return: "a < length (x_calls x) \<Longrightarrow> pc_phase (x_calls x ! a) = Leaving r \<Longrightarrow> local_step x (call_return a r x)"
| take: "x_writer x = WriterSelects \<Longrightarrow> x_writes x = p # ps \<Longrightarrow> local_step x (x\<lparr>x_writes := ps, x_writer := WriterHolds p\<rparr>)"
| stop: "x_writer x = WriterSelects \<Longrightarrow> x_failure x \<noteq> None \<Longrightarrow> local_step x (x\<lparr>x_writer := WriterReturned\<rparr>)"
| check: "x_writer x = WriterHolds p \<Longrightarrow> local_step x (writer_check p x)"
| written: "x_writer x = WriterWrites p \<Longrightarrow> local_step x (x\<lparr>x_writer := WriterAccounts p err\<rparr>)"
| account: "x_writer x = WriterAccounts p err \<Longrightarrow> local_step x (writer_account p err x)"
| write_failed: "x_writer x = WriterCloses e \<Longrightarrow> local_step x ((exchange_close e x)\<lparr>x_writer := WriterReturned\<rparr>)"
| read: "x_reader x = ReaderReads \<Longrightarrow> local_step x (reader_handle got x)"
| reply: "x_reader x = ReaderEnqueues m \<Longrightarrow> local_step x (reader_enqueue m x)"
| reply_overflow: "x_reader x = ReaderOverflowed \<Longrightarrow>
    local_step x ((exchange_close backpressure x)\<lparr>x_reader := ReaderCloses backpressure\<rparr>)"
| read_failed: "x_reader x = ReaderCloses e \<Longrightarrow> local_step x ((exchange_close e x)\<lparr>x_reader := ReaderReturned\<rparr>)"
| asked_close: "e \<in> set (x_closers x) \<Longrightarrow> local_step x (exchange_close e (x\<lparr>x_closers := remove1 e (x_closers x)\<rparr>))"

text \<open>The same with what the client does to an exchange from outside.\<close>

inductive exchange_step :: "exchange \<Rightarrow> exchange \<Rightarrow> bool" where
  local: "local_step x x' \<Longrightarrow> exchange_step x x'"
| ask_close: "exchange_step x (x\<lparr>x_closers := e # x_closers x\<rparr>)"
| close: "exchange_step x (exchange_close e x)"
| identify: "exchange_step x (x\<lparr>x_clientID := s\<rparr>)"
| notified: "exchange_step x (x\<lparr>x_notify := False\<rparr>)"
| broadcast: "exchange_step x (fst (broadcast_enqueue m x))"

subsection \<open>State of the client\<close>

datatype opening_pc = Starting | Dialed nat | Admitted nat | Initializing nat nat | Retiring nat string
  | Finishing "string option" | Finished "string option"

text \<open>
  \<open>d_attempts\<close> are the goroutines of \<open>open\<close>, \<open>d_sockets\<close> the exchanges made so far, \<open>d_admitted\<close> the indices of those
  that received a generation, and \<open>d_lost\<close> counts the calls of \<open>OnClosed\<close>.
\<close>

record client =
  d_timeout :: int
  d_socket :: "nat option"
  d_opening :: "nat option"
  d_connected :: bool
  d_generation :: "64 word"
  d_stopped :: bool
  d_failure :: "string option"
  d_retryAt :: "int option"
  d_attempts :: "opening_pc list"
  d_sockets :: "exchange list"
  d_admitted :: "nat list"
  d_lost :: nat

definition NewClient :: "int \<Rightarrow> client" where
  "NewClient timeout = \<lparr>d_timeout = (if timeout \<le> 0 then 5000 else timeout), d_socket = None, d_opening = None,
     d_connected = False, d_generation = 0, d_stopped = False, d_failure = None, d_retryAt = None, d_attempts = [],
     d_sockets = [], d_admitted = [], d_lost = 0\<rparr>"

definition closed_error :: string where
  "closed_error = ''Desktop IPC is closed''"

definition disconnected_error :: string where
  "disconnected_error = ''Original desktop disconnected''"

definition ConnectionStatus :: "client \<Rightarrow> string \<times> string" where
  "ConnectionStatus d =
     (if d_connected d then (''connected'', [])
      else case d_failure d of
        Some e \<Rightarrow> (''unavailable'', e)
      | None \<Rightarrow> if d_opening d \<noteq> None then (''connecting'', []) else (''disconnected'', []))"

datatype connect = ConnectFails "string option" | Connected | Awaits nat

text \<open>The section of \<open>Connect\<close> for a context that is not done; \<open>ConnectFails None\<close> is a nil error.\<close>

definition Connect :: "int \<Rightarrow> client \<Rightarrow> connect \<times> client" where
  "Connect now d =
     (if d_stopped d then (ConnectFails (Some closed_error), d)
      else if d_connected d then (Connected, d)
      else case d_opening d of
        Some a \<Rightarrow> (Awaits a, d)
      | None \<Rightarrow>
          if (case d_retryAt d of None \<Rightarrow> False | Some t \<Rightarrow> now < t) then (ConnectFails (d_failure d), d)
          else (Awaits (length (d_attempts d)),
                d\<lparr>d_opening := Some (length (d_attempts d)), d_attempts := d_attempts d @ [Starting]\<rparr>))"

definition set_attempt :: "nat \<Rightarrow> opening_pc \<Rightarrow> client \<Rightarrow> client" where
  "set_attempt a p d = d\<lparr>d_attempts := (d_attempts d)[a := p]\<rparr>"

definition set_socket :: "nat \<Rightarrow> exchange \<Rightarrow> client \<Rightarrow> client" where
  "set_socket i x d = d\<lparr>d_sockets := (d_sockets d)[i := x]\<rparr>"

text \<open>\<open>initialize\<close>: a failure before or at \<open>Dial\<close>, a connection, and its admission.\<close>

definition dial_failed :: "nat \<Rightarrow> string \<Rightarrow> client \<Rightarrow> client" where
  "dial_failed a e = set_attempt a (Finishing (Some e))"

definition dialed :: "nat \<Rightarrow> client \<Rightarrow> client" where
  "dialed a d =
     set_attempt a (Dialed (length (d_sockets d))) (d\<lparr>d_sockets := d_sockets d @ [newExchange (d_timeout d)]\<rparr>)"

definition admit :: "nat \<Rightarrow> nat \<Rightarrow> client \<Rightarrow> client" where
  "admit a i d =
     (if d_stopped d then set_attempt a (Retiring i closed_error) d
      else set_attempt a (Admitted i)
        (d\<lparr>d_socket := Some i, d_generation := d_generation d + 1, d_admitted := d_admitted d @ [i]\<rparr>))"

definition initialize_call :: "nat \<Rightarrow> nat \<Rightarrow> nat list \<Rightarrow> client \<Rightarrow> client" where
  "initialize_call a i nonce d =
     (case call_register (request_id nonce) ''initialize'' 0 (GMap [(''clientType'', GStr ''filo'')]) [] (d_sockets d ! i) of
        Inl e \<Rightarrow> set_attempt a (Retiring i e) d
      | Inr (c, x) \<Rightarrow> set_attempt a (Initializing i c) (set_socket i x d))"

text \<open>The end of \<open>initialize\<close> after its call returned.\<close>

definition initialized :: "nat \<Rightarrow> nat \<Rightarrow> string + props \<Rightarrow> client \<Rightarrow> client" where
  "initialized a i r d =
     (case r of
        Inl e \<Rightarrow> set_attempt a (Retiring i e) d
      | Inr reply \<Rightarrow>
          (case AsText (field (fields_of (field reply ''result'')) ''clientId'') of
             Some s \<Rightarrow>
               if Text (field reply ''resultType'') \<noteq> ''success'' then set_attempt a (Retiring i ''Desktop IPC initialization rejected'') d
               else let x = (d_sockets d ! i)\<lparr>x_clientID := s\<rparr>
                    in set_attempt a (case x_failure x of None \<Rightarrow> Finishing None | Some e \<Rightarrow> Retiring i e) (set_socket i x d)
           | None \<Rightarrow> set_attempt a (Retiring i ''Desktop IPC initialization rejected'') d))"

definition retire :: "nat \<Rightarrow> nat \<Rightarrow> string \<Rightarrow> client \<Rightarrow> client" where
  "retire a i e d = set_attempt a (Finishing (Some e)) (set_socket i (exchange_close e (d_sockets d ! i)) d)"

text \<open>The section that ends \<open>open\<close>.\<close>

definition open_error :: "string option \<Rightarrow> client \<Rightarrow> string option" where
  "open_error err d =
     (let err = (case err of
                   Some e \<Rightarrow> Some e
                 | None \<Rightarrow>
                     (case d_socket d of
                        None \<Rightarrow> Some disconnected_error
                      | Some i \<Rightarrow> if x_failure (d_sockets d ! i) \<noteq> None then Some disconnected_error else None))
      in if d_stopped d \<and> err = None then Some closed_error else err)"

definition open_end :: "nat \<Rightarrow> string option \<Rightarrow> int \<Rightarrow> client \<Rightarrow> client" where
  "open_end a err now d =
     (let err = open_error err d
      in set_attempt a (Finished err)
           (d\<lparr>d_connected := (err = None), d_failure := err, d_retryAt := (if err = None then None else Some (now + 1000)),
              d_opening := None\<rparr>))"

text \<open>The \<open>onClose\<close> of exchange \<open>i\<close>.\<close>

definition on_close :: "nat \<Rightarrow> client \<Rightarrow> client" where
  "on_close i d =
     (let d = set_socket i ((d_sockets d ! i)\<lparr>x_notify := False\<rparr>) d
      in if d_socket d = Some i then d\<lparr>d_socket := None, d_connected := False, d_lost := Suc (d_lost d)\<rparr> else d)"

definition unavailable_error :: string where
  "unavailable_error = ''Original desktop is unavailable''"

text \<open>The exchange that \<open>Request\<close> and \<open>Broadcast\<close> use.\<close>

definition current_socket :: "client \<Rightarrow> string + nat" where
  "current_socket d =
     (if \<not> d_connected d then Inl unavailable_error
      else case d_socket d of None \<Rightarrow> Inl unavailable_error | Some i \<Rightarrow> Inr i)"

definition ConnectionGeneration :: "client \<Rightarrow> 64 word" where
  "ConnectionGeneration d = (if \<not> d_connected d \<or> d_stopped d \<or> d_socket d = None then 0 else d_generation d)"

definition RequestOnConnection :: "64 word \<Rightarrow> client \<Rightarrow> string + nat" where
  "RequestOnConnection g d =
     (case d_socket d of
        Some i \<Rightarrow>
          if g \<noteq> 0 \<and> d_generation d = g \<and> d_connected d \<and> \<not> d_stopped d then Inr i
          else Inl ''Original desktop connection changed; refresh before continuing''
      | None \<Rightarrow> Inl ''Original desktop connection changed; refresh before continuing'')"

definition Broadcast :: "string \<Rightarrow> int \<Rightarrow> gval \<Rightarrow> string list option \<Rightarrow> client \<Rightarrow> client \<times> string option" where
  "Broadcast method version params targets d =
     (case current_socket d of
        Inl e \<Rightarrow> (d, Some e)
      | Inr i \<Rightarrow>
          let x = d_sockets d ! i;
              (x', err) = broadcast_enqueue (broadcast_message (x_clientID x) method version params targets) x
          in (set_socket i x' d, err))"

definition Client_Close :: "client \<Rightarrow> client" where
  "Client_Close d =
     (let d = d\<lparr>d_stopped := True, d_connected := False\<rparr>
      in case d_socket d of
           None \<Rightarrow> d
         | Some i \<Rightarrow> set_socket i ((d_sockets d ! i)\<lparr>x_closers := closed_error # x_closers (d_sockets d ! i)\<rparr>) d)"

subsection \<open>Interleavings of the client\<close>

text \<open>
  A request is a call on the exchange that one of the two admissions returned, made at any later moment,
  and so a step of that exchange; \<open>internal\<close> covers it with the loops of the exchange, which start after its
  admission.
\<close>

inductive client_step :: "client \<Rightarrow> client \<Rightarrow> bool" where
  connect: "client_step d (snd (Connect now d))"
| dial_fails: "a < length (d_attempts d) \<Longrightarrow> d_attempts d ! a = Starting \<Longrightarrow> client_step d (dial_failed a e d)"
| dials: "a < length (d_attempts d) \<Longrightarrow> d_attempts d ! a = Starting \<Longrightarrow> client_step d (dialed a d)"
| admits: "a < length (d_attempts d) \<Longrightarrow> d_attempts d ! a = Dialed i \<Longrightarrow> client_step d (admit a i d)"
| initializes: "a < length (d_attempts d) \<Longrightarrow> d_attempts d ! a = Admitted i \<Longrightarrow> length nonce = 16 \<Longrightarrow>
    client_step d (initialize_call a i nonce d)"
| answered: "a < length (d_attempts d) \<Longrightarrow> d_attempts d ! a = Initializing i c \<Longrightarrow>
    pc_phase (x_calls (d_sockets d ! i) ! c) = Returned r \<Longrightarrow> client_step d (initialized a i r d)"
| retires: "a < length (d_attempts d) \<Longrightarrow> d_attempts d ! a = Retiring i e \<Longrightarrow> client_step d (retire a i e d)"
| ends: "a < length (d_attempts d) \<Longrightarrow> d_attempts d ! a = Finishing err \<Longrightarrow> client_step d (open_end a err now d)"
| closes: "i < length (d_sockets d) \<Longrightarrow> x_notify (d_sockets d ! i) \<Longrightarrow> client_step d (on_close i d)"
| broadcasts: "client_step d (fst (Broadcast method version params targets d))"
| stops: "client_step d (Client_Close d)"
| internal: "i \<in> set (d_admitted d) \<Longrightarrow> local_step (d_sockets d ! i) x \<Longrightarrow> client_step d (set_socket i x d)"

end
