(* ===== verification/DesktopCorrect.thy ===== *)
theory DesktopCorrect
  imports Desktop NativeReadCorrect
begin

text \<open>
  Properties of the connection to the desktop: framing loses and merges nothing, every call gets at most one
  response and that response is its own, the write queue is bounded and accounted for, a request is
  written at most once, and an admitted generation is bound to one connection.
\<close>

subsection \<open>Frames\<close>

lemma le32_length [simp]: "length (le32 n) = 4"
  by (simp add: le32_def)

lemma of_le32_le32: "n < 2 ^ 32 \<Longrightarrow> of_le32 (le32 n) = n"
proof -
  assume "n < 2 ^ 32"
  define q1 q2 q3 where "q1 = n div 256" and "q2 = q1 div 256" and "q3 = q2 div 256"
  have parts: "n = n mod 256 + 256 * q1" "q1 = q1 mod 256 + 256 * q2" "q2 = q2 mod 256 + 256 * q3"
    by (simp_all only: q1_def q2_def q3_def mod_mult_div_eq)
  have "n div 65536 = q2" "n div 16777216 = q3"
    by (simp_all add: q1_def q2_def q3_def flip: div_mult2_eq)
  moreover have "q3 mod 256 = q3"
    using \<open>n < 2 ^ 32\<close> by (simp add: q1_def q2_def q3_def flip: div_mult2_eq)
  ultimately show ?thesis
    using parts by (simp add: of_le32_def le32_def flip: q1_def)
qed

lemma ReadFrame_frame:
  assumes "body \<noteq> []" "length body \<le> MaxOutputBytes"
  shows "ReadFrame (ipc_frame body @ rest) =
    (case snd (Read body False) of Inl e \<Rightarrow> Inl (FrameJson e) | Inr v \<Rightarrow> Inr (v, rest))"
proof -
  have size: "of_le32 (le32 (length body)) = length body"
    using assms(2) by (intro of_le32_le32) (simp add: MaxOutputBytes_def)
  have "length body \<le> MaxFrameBytes"
    using assms(2) by (simp add: MaxFrameBytes_def MaxOutputBytes_def)
  then show ?thesis
    using assms(1) size by (simp add: ReadFrame_def ipc_frame_def Let_def split: sum.splits)
qed

lemma Read_empty: "snd (Read [] False) \<noteq> Inr v"
  by (simp add: reader_eval)

fun read_frames :: "nat \<Rightarrow> string \<Rightarrow> gval list \<times> frame_error option" where
  "read_frames 0 s = ([], None)"
| "read_frames (Suc n) s =
     (case ReadFrame s of
        Inl e \<Rightarrow> ([], Some e)
      | Inr (v, rest) \<Rightarrow> (let (vs, e) = read_frames n rest in (v # vs, e)))"

lemma writeAll_prefix: "writeAll outcome k data = (w, e) \<Longrightarrow> \<exists>rest. data = w @ rest \<and> (e = None \<longrightarrow> rest = [])"
proof (induction outcome k data arbitrary: w e rule: writeAll.induct)
  case (1 outcome k data)
  show ?case
  proof (cases "data = []")
    case True
    then show ?thesis using 1(2) by (simp add: writeAll.simps)
  next
    case ne: False
    show ?thesis
    proof (cases "outcome k")
      case (Inr err)
      then show ?thesis using 1(2) ne by (auto simp: writeAll.simps [of outcome k data])
    next
      case (Inl n)
      show ?thesis
      proof (cases "n = 0")
        case True
        then show ?thesis using 1(2) ne Inl by (auto simp: writeAll.simps [of outcome k data])
      next
        case False
        obtain w' e' where rec: "writeAll outcome (Suc k) (drop n data) = (w', e')" by (cases "writeAll outcome (Suc k) (drop n data)")
        with 1(2) ne Inl False have w: "w = take n data @ w'" "e = e'" by (simp_all add: writeAll.simps [of outcome k data])
        from 1(1) [OF ne Inl False rec] obtain rest where rest: "drop n data = w' @ rest" "e' = None \<longrightarrow> rest = []" by blast
        then have "data = (take n data @ w') @ rest" using append_take_drop_id [of n data] by simp
        then show ?thesis using w rest(2) by blast
      qed
    qed
  qed
qed

text \<open>
  Whatever the connection does with each \<open>Write\<close>, what arrives is a prefix of the frames, all of them when no write failed;
  and the frames of well-formed bodies are read back one by one, each as the value of its own body.
\<close>

theorem frames_roundtrip:
  assumes "\<forall>body \<in> set bodies. length body \<le> MaxOutputBytes \<and> snd (Read body False) = Inr (val body)"
    and "writeAll outcome k (concat (map ipc_frame bodies)) = (w, None)"
  shows "read_frames (Suc (length bodies)) w = (map val bodies, Some FrameEOF)"
proof -
  have w: "w = concat (map ipc_frame bodies)"
    using writeAll_prefix [OF assms(2)] by simp
  have "read_frames (Suc (length bodies)) (concat (map ipc_frame bodies)) = (map val bodies, Some FrameEOF)"
    using assms(1)
  proof (induction bodies)
    case Nil
    show ?case by (simp add: ReadFrame_def)
  next
    case (Cons body bodies)
    have ne: "body \<noteq> []" using Cons.prems Read_empty by auto
    show ?case
      using Cons ReadFrame_frame [OF ne, of "concat (map ipc_frame bodies)"] by (simp del: read_frames.simps add: read_frames.simps(2) [of "Suc (length bodies)"])
  qed
  then show ?thesis by (simp add: w)
qed

theorem frames_roundtrip_witness:
  "read_frames 3 (concat (map ipc_frame [''null'', ''true''])) = ([GNil, GBool True], Some FrameEOF)"
proof -
  have "writeAll (\<lambda>_. Inl 7) 0 (concat (map ipc_frame [''null'', ''true''])) = (concat (map ipc_frame [''null'', ''true'']), None)"
    by (simp add: writeAll.simps ipc_frame_def le32_def)
  moreover have "\<forall>body \<in> set [''null'', ''true'']. length body \<le> MaxOutputBytes \<and>
      snd (Read body False) = Inr (if body = ''null'' then GNil else GBool True)"
    by (simp add: reader_eval MaxOutputBytes_def)
  ultimately show ?thesis
    using frames_roundtrip [of "[''null'', ''true'']" "\<lambda>body. if body = ''null'' then GNil else GBool True" "\<lambda>_. Inl 7" 0]
    by (simp add: numeral_3_eq_3)
qed

subsection \<open>Calls and their slots\<close>

definition own_response :: "string \<Rightarrow> string + props \<Rightarrow> bool" where
  "own_response i r \<longleftrightarrow> (\<forall>m. r = Inr m \<longrightarrow> Text (field m ''requestId'') = i)"

definition undecided :: "phase \<Rightarrow> bool" where
  "undecided p \<longleftrightarrow> p = Registered \<or> p = Overflowed \<or> p = Waiting"

definition call_ok :: "(string \<times> nat) list \<Rightarrow> nat \<Rightarrow> pending_call \<Rightarrow> bool" where
  "call_ok P a c \<longleftrightarrow> length (pc_result c) \<le> 1 \<and>
     (undecided (pc_phase c) \<longrightarrow> pc_result c \<noteq> [] \<or> (pc_id c, a) \<in> set P) \<and>
     (\<forall>r \<in> set (pc_result c). own_response (pc_id c) r) \<and>
     (\<forall>r. pc_phase c = Leaving r \<or> pc_phase c = Returned r \<longrightarrow> own_response (pc_id c) r)"

definition slots_ok :: "(string \<times> nat) list \<Rightarrow> pending_call list \<Rightarrow> bool" where
  "slots_ok P C \<longleftrightarrow> distinct (map fst P) \<and>
     (\<forall>(i, a) \<in> set P. a < length C \<and> pc_id (C ! a) = i \<and> pc_result (C ! a) = [])"

definition calls_ok :: "(string \<times> nat) list \<Rightarrow> pending_call list \<Rightarrow> string option \<Rightarrow> bool \<Rightarrow> bool" where
  "calls_ok P C failure blocked \<longleftrightarrow> \<not> blocked \<and> distinct (map pc_id C) \<and> length P \<le> 64 \<and> (failure \<noteq> None \<longrightarrow> P = []) \<and>
     slots_ok P C \<and> (\<forall>a < length C. call_ok P a (C ! a))"

lemma slotD: "slots_ok P C \<Longrightarrow> (i, a) \<in> set P \<Longrightarrow> a < length C \<and> pc_id (C ! a) = i \<and> pc_result (C ! a) = []"
  by (auto simp: slots_ok_def)

lemma calls_okD:
  assumes "calls_ok P C failure blocked"
  shows "\<not> blocked" "distinct (map pc_id C)" "length P \<le> 64" "failure \<noteq> None \<Longrightarrow> P = []" "slots_ok P C"
    "a < length C \<Longrightarrow> call_ok P a (C ! a)"
  using assms by (simp_all add: calls_ok_def)

lemma call_keep_slot: "call_ok P a c \<Longrightarrow> pc_id c \<noteq> i \<Longrightarrow> call_ok (delete_key i P) a c"
  by (auto simp: call_ok_def set_delete_key)

lemma ids_differ: "distinct (map pc_id C) \<Longrightarrow> a < length C \<Longrightarrow> b < length C \<Longrightarrow> a \<noteq> b \<Longrightarrow> pc_id (C ! a) \<noteq> pc_id (C ! b)"
  by (metis length_map nth_eq_iff_index_eq nth_map)

lemma ids_update: "a < length C \<Longrightarrow> pc_id c = pc_id (C ! a) \<Longrightarrow> map pc_id (C[a := c]) = map pc_id C"
  by (simp add: map_update list_update_same_conv)

lemma calls_update:
  assumes ok: "calls_ok P C failure blocked" and a: "a < length C" and c: "call_ok P a c" "pc_id c = pc_id (C ! a)" "pc_result c = pc_result (C ! a)"
  shows "calls_ok P (C[a := c]) failure blocked"
proof -
  have "slots_ok P (C[a := c])"
    using calls_okD(5) [OF ok] c(2,3) a by (auto simp: slots_ok_def nth_list_update)
  moreover have "\<forall>b < length (C[a := c]). call_ok P b (C[a := c] ! b)"
    using calls_okD(6) [OF ok] c(1) a by (simp add: nth_list_update)
  ultimately show ?thesis
    using calls_okD(1-4) [OF ok] ids_update [OF a c(2)] by (simp add: calls_ok_def)
qed

lemma slots_delete: "slots_ok P C \<Longrightarrow> slots_ok (delete_key i P) C"
  by (auto simp: slots_ok_def set_delete_key distinct_delete_key)

lemma calls_settle:
  assumes ok: "calls_ok P C failure blocked" and slot: "(i, a) \<in> set P" and own: "own_response (pc_id (C ! a)) v"
  shows "calls_ok (delete_key i P) (C[a := (C ! a)\<lparr>pc_result := [v]\<rparr>]) failure blocked"
proof -
  let ?c = "(C ! a)\<lparr>pc_result := [v]\<rparr>"
  have a: "a < length C" "pc_id (C ! a) = i" using slotD [OF calls_okD(5) [OF ok] slot] by simp_all
  have ids: "map pc_id (C[a := ?c]) = map pc_id C" by (rule ids_update) (simp_all add: a)
  have slots: "slots_ok (delete_key i P) (C[a := ?c])"
    using slots_delete [OF calls_okD(5) [OF ok], of i] a by (auto simp: slots_ok_def nth_list_update set_delete_key)
  have "call_ok (delete_key i P) a ?c"
    using calls_okD(6) [OF ok a(1)] own by (simp add: call_ok_def)
  moreover have "call_ok (delete_key i P) b (C ! b)" if "b < length C" "b \<noteq> a" for b
    using call_keep_slot [OF calls_okD(6) [OF ok that(1)]] ids_differ [OF calls_okD(2) [OF ok] that(1) a(1) that(2)] a(2) by simp
  ultimately have "\<forall>b < length (C[a := ?c]). call_ok (delete_key i P) b (C[a := ?c] ! b)"
    using a(1) by (simp add: nth_list_update)
  moreover have "length (delete_key i P) \<le> 64" using length_delete_key [of i P] calls_okD(3) [OF ok] by linarith
  moreover have "failure \<noteq> None \<Longrightarrow> delete_key i P = []" using calls_okD(4) [OF ok] by (simp add: delete_key_def)
  ultimately show ?thesis
    using slots ids calls_okD(1,2) [OF ok] by (simp add: calls_ok_def)
qed

lemma calls_leave:
  assumes ok: "calls_ok P C failure blocked" and a: "a < length C" and r: "own_response (pc_id (C ! a)) r"
  shows "calls_ok P (C[a := (C ! a)\<lparr>pc_phase := Leaving r\<rparr>]) failure blocked"
proof (rule calls_update [OF ok a])
  show "call_ok P a ((C ! a)\<lparr>pc_phase := Leaving r\<rparr>)"
    using calls_okD(6) [OF ok a] r by (auto simp: call_ok_def undecided_def)
qed simp_all

lemma calls_return:
  assumes ok: "calls_ok P C failure blocked" and a: "a < length C" "pc_phase (C ! a) = Leaving r"
  shows "calls_ok (delete_key (pc_id (C ! a)) P) (C[a := (C ! a)\<lparr>pc_phase := Returned r\<rparr>]) failure blocked"
proof -
  let ?c = "(C ! a)\<lparr>pc_phase := Returned r\<rparr>" and ?P = "delete_key (pc_id (C ! a)) P"
  have ids: "map pc_id (C[a := ?c]) = map pc_id C" by (rule ids_update) (simp_all add: a)
  have slots: "slots_ok ?P (C[a := ?c])"
    using slots_delete [OF calls_okD(5) [OF ok]] a by (auto simp: slots_ok_def nth_list_update)
  have "call_ok ?P a ?c"
    using calls_okD(6) [OF ok a(1)] a(2) by (auto simp: call_ok_def undecided_def)
  moreover have "call_ok ?P b (C ! b)" if "b < length C" "b \<noteq> a" for b
    using call_keep_slot [OF calls_okD(6) [OF ok that(1)]] ids_differ [OF calls_okD(2) [OF ok] that(1) a(1) that(2)] by simp
  ultimately have "\<forall>b < length (C[a := ?c]). call_ok ?P b (C[a := ?c] ! b)"
    using a(1) by (simp add: nth_list_update)
  moreover have "length ?P \<le> 64" using length_delete_key [of _ P] calls_okD(3) [OF ok] le_trans by blast
  moreover have "failure \<noteq> None \<Longrightarrow> ?P = []" using calls_okD(4) [OF ok] by (simp add: delete_key_def)
  ultimately show ?thesis
    using slots ids calls_okD(1,2) [OF ok] by (simp add: calls_ok_def)
qed

lemma calls_register:
  assumes ok: "calls_ok P C None blocked" and fresh: "i \<notin> set (map pc_id C)" and room: "length P < 64"
    and c: "pc_id c = i" "pc_result c = []" "pc_phase c = Registered"
  shows "calls_ok ((i, length C) # delete_key i P) (C @ [c]) None blocked"
proof -
  have new: "i \<notin> fst ` set P" using slotD [OF calls_okD(5) [OF ok]] fresh by fastforce
  note absent = delete_absent [OF new]
  from new have "slots_ok ((i, length C) # P) (C @ [c])"
    using calls_okD(5) [OF ok] c by (auto simp: slots_ok_def nth_append)
  moreover have "call_ok ((i, length C) # P) a ((C @ [c]) ! a)" if "a < Suc (length C)" for a
  proof (cases "a = length C")
    case True
    then show ?thesis using c by (simp add: call_ok_def)
  next
    case False
    with that have "a < length C" by simp
    then show ?thesis using calls_okD(6) [OF ok] by (auto simp: nth_append call_ok_def)
  qed
  ultimately show ?thesis
    using calls_okD(1,2) [OF ok] fresh room c(1) by (simp add: calls_ok_def absent)
qed

subsection \<open>The write queue\<close>

definition body_bytes :: "outgoing list \<Rightarrow> int" where
  "body_bytes ps = (\<Sum>p \<leftarrow> ps. int (length (o_body p)))"

lemma body_bytes_simps [simp]:
  "body_bytes [] = 0" "body_bytes (p # ps) = int (length (o_body p)) + body_bytes ps"
  "body_bytes (ps @ qs) = body_bytes ps + body_bytes qs"
  by (simp_all add: body_bytes_def)

fun in_flight :: "write_pc \<Rightarrow> outgoing list" where
  "in_flight (WriterHolds p) = [p]"
| "in_flight (WriterWrites p) = [p]"
| "in_flight (WriterAccounts p err) = [p]"
| "in_flight w = []"

definition packets_ok :: "outgoing list \<Rightarrow> int \<Rightarrow> write_pc \<Rightarrow> string option \<Rightarrow> bool" where
  "packets_ok W queued w failure \<longleftrightarrow> length W \<le> 64 \<and> queued \<le> int MaxOutputBytes \<and>
     queued = (if failure = None then body_bytes (in_flight w @ W) else 0) \<and> (failure \<noteq> None \<longrightarrow> W = [])"

subsection \<open>Packets of requests\<close>

fun unsent :: "write_pc \<Rightarrow> outgoing list" where
  "unsent (WriterHolds p) = [p]"
| "unsent w = []"

definition request_ids :: "outgoing list \<Rightarrow> string list" where
  "request_ids ps = filter (\<lambda>i. i \<noteq> []) (map o_id ps)"

lemma request_ids_simps [simp]:
  "request_ids [] = []" "request_ids (ps @ qs) = request_ids ps @ request_ids qs"
  "request_ids (p # ps) = (if o_id p = [] then [] else [o_id p]) @ request_ids ps"
  by (simp_all add: request_ids_def)

definition entered :: "pending_call list \<Rightarrow> string set" where
  "entered C = {pc_id c | c. c \<in> set C \<and> pc_phase c \<noteq> Registered}"

definition once_ok :: "outgoing list \<Rightarrow> write_pc \<Rightarrow> outgoing list \<Rightarrow> pending_call list \<Rightarrow> bool" where
  "once_ok S w W C \<longleftrightarrow> distinct (request_ids (S @ unsent w @ W)) \<and> set (request_ids (S @ unsent w @ W)) \<subseteq> entered C"

subsection \<open>Every section keeps the invariants\<close>

definition exchange_ok :: "exchange \<Rightarrow> bool" where
  "exchange_ok x \<longleftrightarrow> calls_ok (x_pending x) (x_calls x) (x_failure x) (x_blocked x) \<and>
     packets_ok (x_writes x) (x_queued x) (x_writer x) (x_failure x) \<and>
     once_ok (x_sent x) (x_writer x) (x_writes x) (x_calls x) \<and> x_ids x = rev (map pc_id (x_calls x))"

lemma exchange_okD:
  assumes "exchange_ok x"
  shows "calls_ok (x_pending x) (x_calls x) (x_failure x) (x_blocked x)"
    "packets_ok (x_writes x) (x_queued x) (x_writer x) (x_failure x)"
    "once_ok (x_sent x) (x_writer x) (x_writes x) (x_calls x)" "x_ids x = rev (map pc_id (x_calls x))"
  using assms by (simp_all add: exchange_ok_def)

lemma upd_call_fields [simp]:
  "x_pending (upd_call a g x) = x_pending x" "x_failure (upd_call a g x) = x_failure x" "x_blocked (upd_call a g x) = x_blocked x"
  "x_writes (upd_call a g x) = x_writes x" "x_queued (upd_call a g x) = x_queued x" "x_writer (upd_call a g x) = x_writer x"
  "x_sent (upd_call a g x) = x_sent x" "x_ids (upd_call a g x) = x_ids x" "x_closers (upd_call a g x) = x_closers x"
  "x_notify (upd_call a g x) = x_notify x" "x_calls (upd_call a g x) = (x_calls x)[a := g (x_calls x ! a)]"
  by (simp_all add: upd_call_def)

lemma entered_update:
  assumes "a < length C" "pc_id c = pc_id (C ! a)" "pc_phase c = Registered \<Longrightarrow> pc_phase (C ! a) = Registered"
  shows "entered C \<subseteq> entered (C[a := c])"
proof
  fix i
  assume "i \<in> entered C"
  then obtain b where b: "b < length C" "i = pc_id (C ! b)" "pc_phase (C ! b) \<noteq> Registered"
    by (auto simp: entered_def in_set_conv_nth)
  then have "pc_id (C[a := c] ! b) = i" "pc_phase (C[a := c] ! b) \<noteq> Registered"
    using assms by (auto simp: nth_list_update)
  moreover have "C[a := c] ! b \<in> set (C[a := c])" using b(1) by (intro nth_mem) simp
  ultimately show "i \<in> entered (C[a := c])" unfolding entered_def by blast
qed

lemma once_mono: "once_ok S w W C \<Longrightarrow> entered C \<subseteq> entered D \<Longrightarrow> once_ok S w W D"
  by (auto simp: once_ok_def)

text \<open>A section that changes a call and neither its identity nor its result.\<close>

lemma ok_upd_call:
  assumes ok: "exchange_ok x" and a: "a < length (x_calls x)" and id: "pc_id (g (x_calls x ! a)) = pc_id (x_calls x ! a)"
    and phase: "pc_phase (g (x_calls x ! a)) = Registered \<Longrightarrow> pc_phase (x_calls x ! a) = Registered"
    and calls: "calls_ok (x_pending x) ((x_calls x)[a := g (x_calls x ! a)]) (x_failure x) (x_blocked x)"
  shows "exchange_ok (upd_call a g x)"
  using exchange_okD(2,4) [OF ok] calls ids_update [OF a id] once_mono [OF exchange_okD(3) [OF ok] entered_update [OF a id phase]]
  by (simp add: exchange_ok_def)

lemma ok_leave:
  assumes ok: "exchange_ok x" and a: "a < length (x_calls x)" and r: "own_response (pc_id (x_calls x ! a)) r"
  shows "exchange_ok (leave a r x)"
  unfolding leave_def by (rule ok_upd_call [OF ok a]) (use calls_leave [OF exchange_okD(1) [OF ok] a r] in simp_all)

lemma own_error [simp]: "own_response i (Inl e)"
  by (simp add: own_response_def)

lemma ok_expire:
  assumes ok: "exchange_ok x" and a: "a < length (x_calls x)"
  shows "exchange_ok (upd_call a (\<lambda>c. c\<lparr>pc_expired := True\<rparr>) x)"
proof (rule ok_upd_call [OF ok a])
  show "calls_ok (x_pending x) ((x_calls x)[a := (x_calls x ! a)\<lparr>pc_expired := True\<rparr>]) (x_failure x) (x_blocked x)"
    using calls_okD(6) [OF exchange_okD(1) [OF ok] a] by (intro calls_update [OF exchange_okD(1) [OF ok] a]) (simp_all add: call_ok_def)
qed simp_all

lemma ok_move:
  assumes ok: "exchange_ok x" and a: "a < length (x_calls x)" "undecided (pc_phase (x_calls x ! a))" "undecided p" "p \<noteq> Registered"
  shows "exchange_ok (upd_call a (\<lambda>c. c\<lparr>pc_phase := p\<rparr>) x)"
proof (rule ok_upd_call [OF ok a(1)])
  show "calls_ok (x_pending x) ((x_calls x)[a := (x_calls x ! a)\<lparr>pc_phase := p\<rparr>]) (x_failure x) (x_blocked x)"
    using calls_okD(6) [OF exchange_okD(1) [OF ok] a(1)] a(2-)
    by (intro calls_update [OF exchange_okD(1) [OF ok] a(1)]) (auto simp: call_ok_def undecided_def)
qed (use a in simp_all)

definition same_phases :: "pending_call list \<Rightarrow> pending_call list \<Rightarrow> bool" where
  "same_phases C D \<longleftrightarrow> map (\<lambda>c. (pc_id c, pc_phase c)) C = map (\<lambda>c. (pc_id c, pc_phase c)) D"

lemma same_phasesD:
  assumes "same_phases C D"
  shows "map pc_id C = map pc_id D" "entered C = entered D" "length C = length D"
    "a < length D \<Longrightarrow> pc_phase (C ! a) = pc_phase (D ! a) \<and> pc_id (C ! a) = pc_id (D ! a)"
proof -
  have eq: "map (\<lambda>c. (pc_id c, pc_phase c)) C = map (\<lambda>c. (pc_id c, pc_phase c)) D" using assms by (simp add: same_phases_def)
  show "map pc_id C = map pc_id D" using arg_cong [OF eq, of "map fst"] by (simp add: comp_def)
  have "entered E = fst ` {q \<in> set (map (\<lambda>c. (pc_id c, pc_phase c)) E). snd q \<noteq> Registered}" for E
    by (force simp: entered_def)
  then show "entered C = entered D" by (simp only: eq)
  show len: "length C = length D" using arg_cong [OF eq, of length] by simp
  show "pc_phase (C ! a) = pc_phase (D ! a) \<and> pc_id (C ! a) = pc_id (D ! a)" if "a < length D"
    using arg_cong [OF eq, of "\<lambda>xs. xs ! a"] that len by simp
qed

lemma send_all:
  assumes "calls_ok P (x_calls x) None (x_blocked x)"
  shows "\<exists>C. foldl (\<lambda>y a. send_response a (Inl e) y) x (map snd P) = x\<lparr>x_calls := C\<rparr> \<and>
    calls_ok [] C None (x_blocked x) \<and> same_phases C (x_calls x)"
  using assms
proof (induction P arbitrary: x)
  case Nil
  then show ?case by (intro exI [of _ "x_calls x"]) (simp add: same_phases_def)
next
  case (Cons q P)
  obtain i a where q: "q = (i, a)" by (cases q)
  note ok = Cons.prems [unfolded q]
  have slot: "a < length (x_calls x)" "pc_result (x_calls x ! a) = []" using slotD [OF calls_okD(5) [OF ok], of i a] by simp_all
  have rest: "delete_key i ((i, a) # P) = P"
    using calls_okD(5) [OF ok] by (simp add: slots_ok_def delete_key_def delete_absent [unfolded delete_key_def])
  let ?x = "x\<lparr>x_calls := (x_calls x)[a := (x_calls x ! a)\<lparr>pc_result := [Inl e]\<rparr>]\<rparr>"
  have "calls_ok P (x_calls ?x) None (x_blocked ?x)"
    using calls_settle [OF ok, of i a "Inl e"] by (simp add: rest)
  then obtain C where C: "foldl (\<lambda>y a. send_response a (Inl e) y) ?x (map snd P) = ?x\<lparr>x_calls := C\<rparr>"
      "calls_ok [] C None (x_blocked ?x)" "same_phases C (x_calls ?x)"
    using Cons.IH [of ?x] by blast
  have "same_phases C (x_calls x)"
    using C(3) slot(1) by (simp add: same_phases_def map_update list_update_same_conv)
  then show ?case
    using C slot by (intro exI [of _ C]) (simp add: q send_response_def upd_call_def)
qed

lemma close_shape:
  assumes ok: "exchange_ok x" and open_: "x_failure x = None"
  obtains C where "exchange_close e x =
      x\<lparr>x_calls := C, x_failure := Some e, x_pending := [], x_queued := 0, x_writes := [], x_notify := True\<rparr>"
    "calls_ok [] C (Some e) (x_blocked x)" "same_phases C (x_calls x)"
proof -
  let ?x = "x\<lparr>x_failure := Some e\<rparr>"
  have "calls_ok (x_pending x) (x_calls ?x) None (x_blocked ?x)" using exchange_okD(1) [OF ok] open_ by simp
  from send_all [OF this, of e] obtain C where C: "foldl (\<lambda>y a. send_response a (Inl e) y) ?x (map snd (x_pending x)) = ?x\<lparr>x_calls := C\<rparr>"
      "calls_ok [] C None (x_blocked ?x)" "same_phases C (x_calls ?x)" by blast
  show ?thesis
    by (rule that [of C]) (use C open_ in \<open>simp_all add: exchange_close_def Let_def calls_ok_def\<close>)
qed

lemma ok_close:
  assumes ok: "exchange_ok x"
  shows "exchange_ok (exchange_close e x) \<and> same_phases (x_calls (exchange_close e x)) (x_calls x) \<and>
    x_ids (exchange_close e x) = x_ids x"
proof (cases "x_failure x")
  case None
  obtain C where C: "exchange_close e x =
      x\<lparr>x_calls := C, x_failure := Some e, x_pending := [], x_queued := 0, x_writes := [], x_notify := True\<rparr>"
    "calls_ok [] C (Some e) (x_blocked x)" "same_phases C (x_calls x)"
    by (rule close_shape [OF ok None])
  have "once_ok (x_sent x) (x_writer x) [] C"
    using exchange_okD(3) [OF ok] same_phasesD(2) [OF C(3)] by (auto simp: once_ok_def)
  moreover have "packets_ok [] 0 (x_writer x) (Some e)" by (simp add: packets_ok_def)
  ultimately show ?thesis
    using C same_phasesD(1) [OF C(3)] exchange_okD(4) [OF ok] by (simp add: exchange_ok_def)
next
  case (Some err)
  then show ?thesis using ok by (simp add: exchange_close_def same_phases_def)
qed

lemma enqueue_shape:
  assumes "enqueue_body result i x = Queued x'"
  obtains body where "x' = x\<lparr>x_queued := x_queued x + int (length body), x_writes := x_writes x @ [\<lparr>o_body = body, o_id = i\<rparr>]\<rparr>"
    "x_failure x = None" "x_queued x + int (length body) \<le> int MaxOutputBytes" "length (x_writes x) < 64"
  using assms by (auto simp: enqueue_body_def split: sum.splits option.splits if_splits)

lemma queue_enqueue:
  assumes "packets_ok W q w None" "q + int (length body) \<le> int MaxOutputBytes" "length W < 64"
  shows "packets_ok (W @ [\<lparr>o_body = body, o_id = i\<rparr>]) (q + int (length body)) w None"
  using assms by (simp add: packets_ok_def)

lemma ok_enqueue_plain:
  assumes ok: "exchange_ok x" and enq: "enqueue_body result [] x = Queued x'"
  shows "exchange_ok x' \<and> x_calls x' = x_calls x \<and> x_ids x' = x_ids x"
proof -
  obtain body where body: "x' = x\<lparr>x_queued := x_queued x + int (length body), x_writes := x_writes x @ [\<lparr>o_body = body, o_id = []\<rparr>]\<rparr>"
    "x_failure x = None" "x_queued x + int (length body) \<le> int MaxOutputBytes" "length (x_writes x) < 64"
    by (rule enqueue_shape [OF enq])
  have "packets_ok (x_writes x') (x_queued x') (x_writer x) None"
    using queue_enqueue [of "x_writes x" "x_queued x" "x_writer x" body] exchange_okD(2) [OF ok] body by simp
  moreover have "once_ok (x_sent x) (x_writer x) (x_writes x') (x_calls x)"
    using exchange_okD(3) [OF ok] by (simp add: body(1) once_ok_def)
  ultimately show ?thesis using exchange_okD(1,4) [OF ok] body(1,2) by (simp add: exchange_ok_def)
qed

lemma registered_not_entered:
  assumes "distinct (map pc_id C)" "a < length C" "pc_phase (C ! a) = Registered"
  shows "pc_id (C ! a) \<notin> entered C"
proof
  assume "pc_id (C ! a) \<in> entered C"
  then obtain b where b: "b < length C" "pc_id (C ! b) = pc_id (C ! a)" "pc_phase (C ! b) \<noteq> Registered"
    by (auto simp: entered_def in_set_conv_nth)
  then show False using ids_differ [OF assms(1,2), of b] assms(3) by auto
qed

lemma ok_enqueue_request:
  assumes ok: "exchange_ok x" and a: "a < length (x_calls x)" "pc_phase (x_calls x ! a) = Registered"
    and enq: "enqueue_body result (pc_id (x_calls x ! a)) x = Queued x'"
  shows "exchange_ok (upd_call a (\<lambda>c. c\<lparr>pc_phase := Waiting\<rparr>) x')"
proof -
  let ?i = "pc_id (x_calls x ! a)" and ?c = "(x_calls x ! a)\<lparr>pc_phase := Waiting\<rparr>"
  let ?C = "(x_calls x)[a := ?c]"
  obtain body where body: "x' = x\<lparr>x_queued := x_queued x + int (length body), x_writes := x_writes x @ [\<lparr>o_body = body, o_id = ?i\<rparr>]\<rparr>"
    "x_failure x = None" "x_queued x + int (length body) \<le> int MaxOutputBytes" "length (x_writes x) < 64"
    by (rule enqueue_shape [OF enq])
  have queue: "packets_ok (x_writes x') (x_queued x') (x_writer x) None"
    using queue_enqueue [of "x_writes x" "x_queued x" "x_writer x" body] exchange_okD(2) [OF ok] body by simp
  have waiting: "exchange_ok (upd_call a (\<lambda>c. c\<lparr>pc_phase := Waiting\<rparr>) x)"
    by (rule ok_move [OF ok a(1)]) (simp_all add: a(2) undecided_def)
  have "?i \<notin> set (request_ids (x_sent x @ unsent (x_writer x) @ x_writes x))"
    using registered_not_entered [OF calls_okD(2) [OF exchange_okD(1) [OF ok]] a] exchange_okD(3) [OF ok] by (auto simp: once_ok_def)
  moreover have "?i \<in> entered ?C"
    unfolding entered_def by (intro CollectI exI [of _ ?c]) (simp add: set_update_memI [OF a(1)])
  ultimately have "once_ok (x_sent x) (x_writer x) (x_writes x') ?C"
    using exchange_okD(3) [OF waiting] exchange_okD(3) [OF ok] by (simp add: body(1) once_ok_def)
  then show ?thesis
    using exchange_okD(1,4) [OF waiting] queue body(1,2) by (simp add: exchange_ok_def)
qed

lemma ok_queue:
  assumes ok: "exchange_ok x" and a: "a < length (x_calls x)" "pc_phase (x_calls x ! a) = Registered"
  shows "exchange_ok (call_enqueue a x)"
proof (cases "pc_expired (x_calls x ! a)")
  case True
  then show ?thesis using ok_leave [OF ok a(1) own_error] by (simp add: call_enqueue_def Let_def)
next
  case False
  show ?thesis
  proof (cases "enqueue_body (pc_body (x_calls x ! a)) (pc_id (x_calls x ! a)) x")
    case (Queued x')
    then show ?thesis using False ok_enqueue_request [OF ok a Queued] by (simp add: call_enqueue_def Let_def)
  next
    case (Refused e)
    then show ?thesis using False ok_leave [OF ok a(1) own_error] by (simp add: call_enqueue_def Let_def)
  next
    case Backpressure
    moreover have "exchange_ok (upd_call a (\<lambda>c. c\<lparr>pc_phase := Overflowed\<rparr>) x)"
      by (rule ok_move [OF ok a(1)]) (simp_all add: a(2) undecided_def)
    ultimately show ?thesis using False by (simp add: call_enqueue_def Let_def)
  qed
qed

lemma ok_register:
  assumes ok: "exchange_ok x" and reg: "call_register i method version params target x = Inr (a, x')" and fresh: "i \<notin> set (x_ids x)"
  shows "exchange_ok x'"
proof -
  let ?b = "frameBody (request_message i (x_clientID x) (x_timeout x) method version params target)"
  let ?c = "\<lparr>pc_id = i, pc_body = ?b, pc_expired = False, pc_result = [], pc_phase = Registered\<rparr>"
  have x': "x_failure x = None" "length (x_pending x) < 64"
    "x' = x\<lparr>x_pending := (i, length (x_calls x)) # delete_key i (x_pending x), x_calls := x_calls x @ [?c], x_ids := i # x_ids x\<rparr>"
    using reg by (auto simp: call_register_def Let_def split: option.splits if_splits)
  have "i \<notin> set (map pc_id (x_calls x))" using fresh exchange_okD(4) [OF ok] by simp
  then have "calls_ok ((i, length (x_calls x)) # delete_key i (x_pending x)) (x_calls x @ [?c]) None (x_blocked x)"
    using exchange_okD(1) [OF ok] x'(1,2) by (intro calls_register) simp_all
  moreover have "once_ok (x_sent x) (x_writer x) (x_writes x) (x_calls x @ [?c])"
    by (rule once_mono [OF exchange_okD(3) [OF ok]]) (auto simp: entered_def)
  ultimately show ?thesis
    using exchange_okD(2,4) [OF ok] x' by (simp add: exchange_ok_def)
qed

lemma ok_return:
  assumes ok: "exchange_ok x" and a: "a < length (x_calls x)" "pc_phase (x_calls x ! a) = Leaving r"
  shows "exchange_ok (call_return a r x)"
proof -
  have "once_ok (x_sent x) (x_writer x) (x_writes x) ((x_calls x)[a := (x_calls x ! a)\<lparr>pc_phase := Returned r\<rparr>])"
    by (rule once_mono [OF exchange_okD(3) [OF ok] entered_update]) (use a in simp_all)
  then show ?thesis
    using calls_return [OF exchange_okD(1) [OF ok] a] exchange_okD(2,4) [OF ok] ids_update [OF a(1), of "(x_calls x ! a)\<lparr>pc_phase := Returned r\<rparr>"]
    by (simp add: exchange_ok_def call_return_def)
qed

lemma ok_response:
  assumes ok: "exchange_ok x"
  shows "exchange_ok (take_response m x)"
proof (cases "map_of (x_pending x) (Text (field m ''requestId''))")
  case None
  then show ?thesis using ok by (simp add: take_response_def Let_def)
next
  case (Some a)
  let ?i = "Text (field m ''requestId'')"
  let ?c = "(x_calls x ! a)\<lparr>pc_result := [Inr m]\<rparr>"
  have slot: "(?i, a) \<in> set (x_pending x)" using map_of_SomeD [OF Some] .
  have a: "a < length (x_calls x)" "pc_id (x_calls x ! a) = ?i" "pc_result (x_calls x ! a) = []"
    using slotD [OF calls_okD(5) [OF exchange_okD(1) [OF ok]] slot] by simp_all
  have "calls_ok (delete_key ?i (x_pending x)) ((x_calls x)[a := ?c]) (x_failure x) (x_blocked x)"
    by (rule calls_settle [OF exchange_okD(1) [OF ok] slot]) (simp add: own_response_def a(2))
  moreover have "once_ok (x_sent x) (x_writer x) (x_writes x) ((x_calls x)[a := ?c])"
    by (rule once_mono [OF exchange_okD(3) [OF ok] entered_update]) (use a in simp_all)
  ultimately show ?thesis
    using Some exchange_okD(2,4) [OF ok] ids_update [OF a(1), of ?c] a(3)
    by (simp add: take_response_def Let_def send_response_def exchange_ok_def)
qed

text \<open>The pieces of the state the invariant reads.\<close>

lemma ok_frame:
  assumes "exchange_ok x" "x_pending y = x_pending x" "x_calls y = x_calls x" "x_failure y = x_failure x" "x_blocked y = x_blocked x"
    "x_writes y = x_writes x" "x_queued y = x_queued x" "in_flight (x_writer y) = in_flight (x_writer x)" "unsent (x_writer y) = unsent (x_writer x)"
    "x_sent y = x_sent x" "x_ids y = x_ids x"
  shows "exchange_ok y"
  using assms by (simp add: exchange_ok_def packets_ok_def once_ok_def)

lemma ok_read: "exchange_ok x \<Longrightarrow> exchange_ok (reader_handle got x)"
  by (cases got) (simp_all add: reader_handle_def Let_def ok_response, simp_all add: ok_frame)

lemma ok_reply: "exchange_ok x \<Longrightarrow> exchange_ok (reader_enqueue m x)"
proof (cases "enqueue_body (frameBody m) [] x")
  case (Queued x')
  assume ok: "exchange_ok x"
  have "exchange_ok (x'\<lparr>x_reader := ReaderReads\<rparr>)" by (rule ok_frame [of x']) (use ok_enqueue_plain [OF ok Queued] in simp_all)
  then show ?thesis using Queued by (simp add: reader_enqueue_def)
qed (simp_all add: reader_enqueue_def ok_frame)

lemma ok_broadcast: "exchange_ok x \<Longrightarrow> exchange_ok (fst (broadcast_enqueue m x))"
proof (cases "enqueue_body (frameBody m) [] x")
  case (Queued x')
  assume ok: "exchange_ok x"
  then show ?thesis using Queued ok_enqueue_plain [OF ok Queued] by (simp add: broadcast_enqueue_def)
qed (simp_all add: broadcast_enqueue_def ok_frame)

lemma ok_take:
  assumes ok: "exchange_ok x" and w: "x_writer x = WriterSelects" "x_writes x = p # ps"
  shows "exchange_ok (x\<lparr>x_writes := ps, x_writer := WriterHolds p\<rparr>)"
proof -
  have "packets_ok ps (x_queued x) (WriterHolds p) (x_failure x)"
    using exchange_okD(2) [OF ok] w by (auto simp: packets_ok_def)
  moreover have "once_ok (x_sent x) (WriterHolds p) ps (x_calls x)"
    using exchange_okD(3) [OF ok] w by (simp add: once_ok_def)
  ultimately show ?thesis using exchange_okD(1,4) [OF ok] by (simp add: exchange_ok_def)
qed

lemma ok_check:
  assumes ok: "exchange_ok x" and w: "x_writer x = WriterHolds p"
  shows "exchange_ok (writer_check p x)"
proof -
  have "packets_ok (x_writes x) (x_queued x) (WriterWrites p) (x_failure x)" "packets_ok (x_writes x) (x_queued x) (WriterAccounts p None) (x_failure x)"
    using exchange_okD(2) [OF ok] w by (simp_all add: packets_ok_def)
  moreover have "once_ok (x_sent x @ [p]) (WriterWrites p) (x_writes x) (x_calls x)" "once_ok (x_sent x) (WriterAccounts p None) (x_writes x) (x_calls x)"
    using exchange_okD(3) [OF ok] w by (auto simp: once_ok_def)
  ultimately show ?thesis using exchange_okD(1,4) [OF ok] by (simp add: exchange_ok_def writer_check_def)
qed

lemma ok_account:
  assumes ok: "exchange_ok x" and w: "x_writer x = WriterAccounts p err"
  shows "exchange_ok (writer_account p err x)"
proof -
  let ?w = "case err of None \<Rightarrow> WriterSelects | Some e \<Rightarrow> WriterCloses e"
  have idle: "in_flight ?w = []" "unsent ?w = []" by (simp_all split: option.splits)
  have "packets_ok (x_writes x) (if x_failure x = None then x_queued x - int (length (o_body p)) else x_queued x) ?w (x_failure x)"
    using exchange_okD(2) [OF ok] w by (cases "x_failure x") (simp_all add: packets_ok_def idle)
  moreover have "once_ok (x_sent x) ?w (x_writes x) (x_calls x)"
    using exchange_okD(3) [OF ok] w by (simp add: once_ok_def idle)
  ultimately show ?thesis using exchange_okD(1,4) [OF ok] by (cases "x_failure x") (simp_all add: exchange_ok_def writer_account_def Let_def)
qed

lemma foldl_failure: "x_failure (foldl (\<lambda>y a. send_response a r y) y as) = x_failure y"
  by (induction as arbitrary: y) (simp_all add: send_response_def)

lemma close_ids: "x_ids (exchange_close e x) = x_ids x"
proof -
  have "x_ids (foldl (\<lambda>y a. send_response a (Inl e) y) y as) = x_ids y" for y as
    by (induction as arbitrary: y) (simp_all add: send_response_def)
  then show ?thesis by (simp add: exchange_close_def Let_def)
qed

lemma ok_close_reader: "exchange_ok x \<Longrightarrow> exchange_ok ((exchange_close e x)\<lparr>x_reader := r\<rparr>)"
  by (rule ok_frame [of "exchange_close e x"]) (simp_all add: ok_close)

lemma ok_local:
  assumes "local_step x y" "exchange_ok x" "distinct (x_ids y)"
  shows "exchange_ok y"
  using assms
proof (cases rule: local_step.cases)
  case (register nonce name num params target a)
  then have "request_id nonce \<notin> set (x_ids x)"
    using assms(3) by (auto simp: call_register_def Let_def split: option.splits if_splits)
  then show ?thesis using ok_register [OF assms(2) register(2)] by simp
next
  case (overflow a)
  have closed: "exchange_ok (exchange_close backpressure x)" "same_phases (x_calls (exchange_close backpressure x)) (x_calls x)"
    using ok_close [OF assms(2), of backpressure] by simp_all
  then have "exchange_ok (leave a (Inl backpressure) (exchange_close backpressure x))"
    using overflow(2) same_phasesD(3) [OF closed(2)] by (intro ok_leave) simp_all
  then show ?thesis by (simp add: overflow(1))
next
  case (receive a r)
  then have "own_response (pc_id (x_calls x ! a)) r"
    using calls_okD(6) [OF exchange_okD(1) [OF assms(2)]] by (simp add: call_ok_def)
  then show ?thesis using ok_leave [OF assms(2)] receive by simp
next
  case (write_failed e)
  have closed: "exchange_ok (exchange_close e x)" using ok_close [OF assms(2)] by simp
  have "x_failure (exchange_close e x) \<noteq> None" by (simp add: exchange_close_def Let_def foldl_failure)
  then have "exchange_ok ((exchange_close e x)\<lparr>x_writer := WriterReturned\<rparr>)"
    using closed by (auto simp: exchange_ok_def packets_ok_def once_ok_def)
  then show ?thesis by (simp add: write_failed(1))
next
  case (asked_close e)
  have "exchange_ok (x\<lparr>x_closers := remove1 e (x_closers x)\<rparr>)" by (rule ok_frame [OF assms(2)]) simp_all
  then show ?thesis using ok_close asked_close(1) by simp
next
  case reply_overflow
  then show ?thesis using ok_close_reader by (simp add: assms(2))
next
  case (read_failed e)
  then show ?thesis using ok_close_reader by (simp add: assms(2))
qed (auto intro: ok_queue ok_expire ok_leave ok_return ok_take ok_check ok_account ok_read ok_reply ok_frame)

lemma ok_exchange:
  assumes "exchange_step x y" "exchange_ok x" "distinct (x_ids y)"
  shows "exchange_ok y"
  using assms
proof (cases rule: exchange_step.cases)
  case local
  then show ?thesis using ok_local assms(2,3) by blast
next
  case (close e)
  then show ?thesis using ok_close [OF assms(2)] by simp
next
  case (broadcast m)
  then show ?thesis using ok_broadcast [OF assms(2)] by simp
qed (auto intro: ok_frame [OF assms(2)])

lemma ids_step:
  assumes "exchange_step x y"
  shows "x_ids y = x_ids x \<or> (\<exists>i. x_ids y = i # x_ids x)"
  using assms
proof (cases rule: exchange_step.cases)
  case local
  then show ?thesis
  proof (cases rule: local_step.cases)
    case (register nonce name num params target a)
    then show ?thesis by (auto simp: call_register_def Let_def split: option.splits if_splits)
  qed (auto simp: call_enqueue_def leave_def call_return_def writer_check_def writer_account_def reader_handle_def reader_enqueue_def
      take_response_def send_response_def Let_def close_ids enqueue_body_def split: option.splits sum.splits enqueued.splits)
qed (auto simp: broadcast_enqueue_def enqueue_body_def close_ids split: option.splits sum.splits enqueued.splits)

definition exchange_inv :: "exchange \<Rightarrow> bool" where
  "exchange_inv x \<longleftrightarrow> (distinct (x_ids x) \<longrightarrow> exchange_ok x)"

lemma ok_start: "exchange_ok (newExchange t)"
  by (simp add: exchange_ok_def newExchange_def calls_ok_def slots_ok_def packets_ok_def once_ok_def)

interpretation desktop_exchange: invariant_system "\<lambda>x. x = newExchange t" exchange_step exchange_inv
  for t
proof (unfold_locales, goal_cases)
  case (1 x)
  then show ?case by (simp add: exchange_inv_def ok_start)
next
  case (2 x y)
  then show ?case using ok_exchange ids_step unfolding exchange_inv_def by (metis distinct.simps(2))
qed

lemma exchange_reached: "exchange_step\<^sup>*\<^sup>* (newExchange t) x \<Longrightarrow> distinct (x_ids x) \<Longrightarrow> exchange_ok x"
  using desktop_exchange.inv_reach [of t x] by (simp add: desktop_exchange.reach_def exchange_inv_def)

subsection \<open>Properties of an exchange\<close>

text \<open>
  Whatever the order of callers, loops and closers, as long as the random identities differ: no send
  to a caller blocks under the mutex, a caller gets at most one result, a caller that still waits either has
  its result already or holds its slot on an open connection (so closing answers every one), and a
  message returned to a caller carries that caller's own request identity.
\<close>

theorem desktop_calls_settle:
  assumes "exchange_step\<^sup>*\<^sup>* (newExchange t) x" and "distinct (x_ids x)"
  shows "\<not> x_blocked x \<and> length (x_pending x) \<le> 64 \<and>
    (\<forall>c \<in> set (x_calls x).
       length (pc_result c) \<le> 1 \<and>
       (pc_phase c = Waiting \<longrightarrow> pc_result c \<noteq> [] \<or> x_failure x = None \<and> map_of (x_pending x) (pc_id c) \<noteq> None) \<and>
       (\<forall>m. pc_phase c = Returned (Inr m) \<longrightarrow> Text (field m ''requestId'') = pc_id c))"
proof -
  note ok = exchange_okD(1) [OF exchange_reached [OF assms]]
  have "length (pc_result c) \<le> 1 \<and>
       (pc_phase c = Waiting \<longrightarrow> pc_result c \<noteq> [] \<or> x_failure x = None \<and> map_of (x_pending x) (pc_id c) \<noteq> None) \<and>
       (\<forall>m. pc_phase c = Returned (Inr m) \<longrightarrow> Text (field m ''requestId'') = pc_id c)" if member: "c \<in> set (x_calls x)" for c
  proof -
    obtain a where a: "a < length (x_calls x)" "c = x_calls x ! a" using member by (auto simp: in_set_conv_nth)
    note call = calls_okD(6) [OF ok a(1), folded a(2)]
    have "x_failure x = None \<and> map_of (x_pending x) (pc_id c) \<noteq> None" if "(pc_id c, a) \<in> set (x_pending x)"
    proof -
      have "pc_id c \<in> fst ` set (x_pending x)" using image_eqI [OF _ that, of "pc_id c" fst] by simp
      moreover have "x_failure x = None" using calls_okD(4) [OF ok] that by (cases "x_failure x") simp_all
      ultimately show ?thesis by (simp add: map_of_eq_None_iff)
    qed
    then show ?thesis using call by (auto simp: call_ok_def own_response_def undecided_def)
  qed
  then show ?thesis using calls_okD(1,3) [OF ok] by simp
qed

text \<open>A request that is sent and answered.\<close>

definition sample_id :: string where
  "sample_id = ''00000000-0000-4000-8000-000000000000''"

definition sample_reply :: props where
  "sample_reply = [(''type'', GStr ''response''), (''requestId'', GStr sample_id)]"

lemma sample_request_id: "request_id (replicate 16 0) = sample_id"
  by code_simp

lemma sample_body: "\<exists>body. frameBody (request_message sample_id ''filo'' 5 ''m'' 1 GNil []) = Inr body \<and> length body \<le> MaxOutputBytes"
  by (simp add: frameBody_def request_message_def map_json_def wire_json_def go_member_def go_quote_def go_json_object_def
    sample_id_def go_quote_safe safe_char_def plain_char_def MaxOutputBytes_def FormatInt_def FormatUint.simps [of 5] FormatUint.simps [of "Suc 0"])

definition registered_exchange :: "string \<Rightarrow> exchange" where
  "registered_exchange body = (newExchange 5)\<lparr>x_pending := [(sample_id, 0)], x_calls := [\<lparr>pc_id = sample_id, pc_body = Inr body,
     pc_expired = False, pc_result = [], pc_phase = Registered\<rparr>], x_ids := [sample_id]\<rparr>"

definition sample_exchange :: "string \<Rightarrow> props \<Rightarrow> exchange" where
  "sample_exchange body m = (newExchange 5)\<lparr>x_calls := [\<lparr>pc_id = sample_id, pc_body = Inr body, pc_expired = False,
       pc_result = [Inr m], pc_phase = Returned (Inr m)\<rparr>], x_queued := int (length body),
     x_writer := WriterWrites \<lparr>o_body = body, o_id = sample_id\<rparr>, x_sent := [\<lparr>o_body = body, o_id = sample_id\<rparr>], x_ids := [sample_id]\<rparr>"

lemma sample_register:
  assumes "frameBody (request_message sample_id ''filo'' 5 method version params []) = Inr body"
  shows "call_register (request_id (replicate 16 0)) method version params [] (newExchange 5) = Inr (0, registered_exchange body)"
  using assms by (simp add: sample_request_id call_register_def newExchange_def Let_def registered_exchange_def delete_key_def)

lemma sample_answered:
  assumes body: "length body \<le> MaxOutputBytes" and m: "field m ''type'' = GStr ''response''" "field m ''requestId'' = GStr sample_id"
  shows "local_step\<^sup>*\<^sup>* (registered_exchange body) (sample_exchange body m)"
proof -
  let ?p = "\<lparr>o_body = body, o_id = sample_id\<rparr>"
  define c where "c = \<lparr>pc_id = sample_id, pc_body = Inr body, pc_expired = False, pc_result = [], pc_phase = Registered\<rparr>"
  define x1 where "x1 = registered_exchange body"
  note x1 = x1_def registered_exchange_def newExchange_def c_def
  define x2 where "x2 = x1\<lparr>x_queued := int (length body), x_writes := [?p], x_calls := [c\<lparr>pc_phase := Waiting\<rparr>]\<rparr>"
  define x3 where "x3 = x2\<lparr>x_writes := [], x_writer := WriterHolds ?p\<rparr>"
  define x4 where "x4 = x3\<lparr>x_writer := WriterWrites ?p, x_sent := [?p]\<rparr>"
  define x5 where "x5 = x4\<lparr>x_pending := [], x_calls := [c\<lparr>pc_phase := Waiting, pc_result := [Inr m]\<rparr>]\<rparr>"
  define x6 where "x6 = leave 0 (Inr m) x5"
  have "call_enqueue 0 x1 = x2"
    by (simp add: call_enqueue_def x1 x2_def enqueue_body_def Let_def upd_call_def body)
  then have "local_step x1 x2" using local_step.queue [of 0 x1] by (simp add: x1)
  moreover have "local_step x2 x3" unfolding x3_def by (rule local_step.take) (simp_all add: x2_def x1)
  moreover have "writer_check ?p x3 = x4"
    by (simp add: writer_check_def packet_active_def x4_def x3_def x2_def x1)
  then have "local_step x3 x4" using local_step.check [of x3 ?p] by (simp add: x3_def)
  moreover have "reader_handle (Inr (GObj m)) x4 = x5"
    by (simp add: reader_handle_def take_response_def send_response_def upd_call_def Fields_def AsText_def Text_def m
      x5_def x4_def x3_def x2_def x1 delete_key_def Let_def)
  then have "local_step x4 x5" using local_step.read [of x4 "Inr (GObj m)"] by (simp add: x4_def x3_def x2_def x1)
  moreover have "local_step x5 x6" unfolding x6_def by (rule local_step.receive) (simp_all add: x5_def)
  moreover have "call_return 0 (Inr m) x6 = sample_exchange body m"
    by (simp add: call_return_def x6_def leave_def upd_call_def sample_exchange_def x5_def x4_def x3_def x2_def x1 delete_key_def)
  then have "local_step x6 (sample_exchange body m)" using local_step.return [of 0 x6 "Inr m"] by (simp add: x6_def leave_def x5_def)
  ultimately show ?thesis
    unfolding x1_def by (meson converse_rtranclp_into_rtranclp rtranclp.rtrancl_refl)
qed

lemma local_steps: "local_step\<^sup>*\<^sup>* x y \<Longrightarrow> exchange_step\<^sup>*\<^sup>* x y"
  by (induction rule: rtranclp_induct) (auto intro: rtranclp.rtrancl_into_rtrancl exchange_step.local)

lemma sample_reached:
  obtains body where "exchange_step\<^sup>*\<^sup>* (newExchange 5) (sample_exchange body sample_reply)"
proof -
  obtain body where body: "frameBody (request_message sample_id ''filo'' 5 ''m'' 1 GNil []) = Inr body" "length body \<le> MaxOutputBytes"
    using sample_body by blast
  have "local_step (newExchange 5) (registered_exchange body)"
    by (rule local_step.register [OF _ sample_register [OF body(1)]]) simp
  then have "exchange_step (newExchange 5) (registered_exchange body)" by (rule exchange_step.local)
  moreover have "exchange_step\<^sup>*\<^sup>* (registered_exchange body) (sample_exchange body sample_reply)"
    by (intro local_steps sample_answered body(2)) (simp_all add: sample_reply_def field_def)
  ultimately show ?thesis by (intro that [of body]) (rule converse_rtranclp_into_rtranclp)
qed

theorem desktop_calls_settle_witness:
  "\<exists>x. exchange_step\<^sup>*\<^sup>* (newExchange 5) x \<and> \<not> x_blocked x \<and> map pc_phase (x_calls x) = [Returned (Inr sample_reply)] \<and>
     Text (field sample_reply ''requestId'') = pc_id (hd (x_calls x))"
proof -
  obtain body where run: "exchange_step\<^sup>*\<^sup>* (newExchange 5) (sample_exchange body sample_reply)" by (rule sample_reached)
  have "distinct (x_ids (sample_exchange body sample_reply))" by (simp add: sample_exchange_def)
  from desktop_calls_settle [OF run this] show ?thesis
    by (intro exI [of _ "sample_exchange body sample_reply"]) (simp add: run, simp add: sample_exchange_def)
qed

text \<open>
  The writer's queue holds at most 64 packets, its byte count is exactly that of the queued packets and
  the one in the writer's hands while the connection is open, and never exceeds \<open>MaxOutputBytes\<close>; and no
  request is handed to the connection twice.
\<close>

theorem desktop_writes_once:
  assumes "exchange_step\<^sup>*\<^sup>* (newExchange t) x" and "distinct (x_ids x)"
  shows "length (x_writes x) \<le> 64 \<and> x_queued x \<le> int MaxOutputBytes \<and>
    x_queued x = (if x_failure x = None then body_bytes (in_flight (x_writer x) @ x_writes x) else 0) \<and>
    distinct (request_ids (x_sent x)) \<and> set (request_ids (x_sent x)) \<subseteq> entered (x_calls x)"
  using exchange_okD(2,3) [OF exchange_reached [OF assms]] by (simp add: packets_ok_def once_ok_def)

theorem desktop_writes_once_witness:
  "\<exists>x. exchange_step\<^sup>*\<^sup>* (newExchange 5) x \<and> distinct (request_ids (x_sent x)) \<and> request_ids (x_sent x) = [sample_id]"
proof -
  obtain body where run: "exchange_step\<^sup>*\<^sup>* (newExchange 5) (sample_exchange body sample_reply)" by (rule sample_reached)
  have "distinct (x_ids (sample_exchange body sample_reply))" by (simp add: sample_exchange_def)
  from desktop_writes_once [OF run this] show ?thesis
    by (intro exI [of _ "sample_exchange body sample_reply"]) (simp add: run, simp add: sample_exchange_def sample_id_def)
qed

subsection \<open>What an exchange never undoes\<close>

definition progressed :: "exchange \<Rightarrow> exchange \<Rightarrow> bool" where
  "progressed x y \<longleftrightarrow> (x_failure x \<noteq> None \<longrightarrow> x_failure y \<noteq> None) \<and> (x_failure y \<noteq> None \<longrightarrow> x_failure x = None \<or> x_notify x \<longrightarrow> x_notify y) \<and>
     (x_failure y = None \<longrightarrow> set (x_closers x) \<subseteq> set (x_closers y)) \<and> (x_notify y \<longrightarrow> x_notify x \<or> x_failure y \<noteq> None)"

lemma foldl_notify: "x_notify (foldl (\<lambda>y a. send_response a r y) y as) = x_notify y"
  by (induction as arbitrary: y) (simp_all add: send_response_def)

lemma foldl_closers: "x_closers (foldl (\<lambda>y a. send_response a r y) y as) = x_closers y"
  by (induction as arbitrary: y) (simp_all add: send_response_def)

lemma close_effect:
  "x_failure (exchange_close e x) = (if x_failure x = None then Some e else x_failure x)"
  "x_notify (exchange_close e x) = (x_failure x = None \<or> x_notify x)"
  "x_closers (exchange_close e x) = x_closers x"
  by (cases "x_failure x"; simp add: exchange_close_def Let_def foldl_failure foldl_notify foldl_closers)+

lemma local_progress:
  assumes "local_step x y"
  shows "progressed x y"
  using assms
proof (cases rule: local_step.cases)
  case (register nonce name num params target a)
  then show ?thesis by (auto simp: progressed_def call_register_def Let_def split: option.splits if_splits)
next
  case (queue a)
  then show ?thesis by (auto simp: progressed_def call_enqueue_def leave_def enqueue_body_def Let_def split: option.splits sum.splits enqueued.splits)
next
  case (read got)
  then show ?thesis by (auto simp: progressed_def reader_handle_def take_response_def send_response_def Let_def split: option.splits sum.splits)
next
  case (reply m)
  then show ?thesis by (auto simp: progressed_def reader_enqueue_def enqueue_body_def split: option.splits sum.splits enqueued.splits)
next
  case (asked_close e)
  then show ?thesis by (cases "x_failure x") (simp_all add: progressed_def close_effect)
qed (auto simp: progressed_def leave_def call_return_def writer_check_def writer_account_def close_effect Let_def)

lemma broadcast_progress: "progressed x (fst (broadcast_enqueue m x))"
  by (auto simp: progressed_def broadcast_enqueue_def enqueue_body_def split: option.splits sum.splits enqueued.splits)

lemma close_progress: "progressed x (exchange_close e x)"
  by (cases "x_failure x") (simp_all add: progressed_def close_effect)

subsection \<open>Connections of the client\<close>

definition failed :: "client \<Rightarrow> nat \<Rightarrow> bool" where
  "failed d i \<longleftrightarrow> x_failure (d_sockets d ! i) \<noteq> None"

definition idle_socket :: "client \<Rightarrow> bool" where
  "idle_socket d \<longleftrightarrow> (\<forall>j. d_socket d = Some j \<longrightarrow> failed d j \<or> d_stopped d)"

definition owns :: "nat \<Rightarrow> client \<Rightarrow> bool" where
  "owns i d \<longleftrightarrow> (\<forall>j. d_socket d = Some j \<longrightarrow> j = i)"

fun phase_ok :: "client \<Rightarrow> opening_pc \<Rightarrow> bool" where
  "phase_ok d Starting = idle_socket d"
| "phase_ok d (Dialed i) = (i < length (d_sockets d) \<and> \<not> failed d i \<and> i \<notin> set (d_admitted d) \<and> idle_socket d)"
| "phase_ok d (Admitted i) = (i \<in> set (d_admitted d) \<and> owns i d)"
| "phase_ok d (Initializing i c) = (i \<in> set (d_admitted d) \<and> owns i d)"
| "phase_ok d (Retiring i e) = (i < length (d_sockets d) \<and> (owns i d \<or> idle_socket d))"
| "phase_ok d (Finishing (Some e)) = idle_socket d"
| "phase_ok d (Finishing None) = True"
| "phase_ok d (Finished e) = False"

definition is_finished :: "opening_pc \<Rightarrow> bool" where
  "is_finished p \<longleftrightarrow> (\<exists>e. p = Finished e)"

definition attempts_ok :: "client \<Rightarrow> bool" where
  "attempts_ok d \<longleftrightarrow> (\<forall>a < length (d_attempts d). is_finished (d_attempts d ! a) \<longleftrightarrow> d_opening d \<noteq> Some a) \<and>
     (\<forall>a. d_opening d = Some a \<longrightarrow> a < length (d_attempts d) \<and> phase_ok d (d_attempts d ! a)) \<and>
     (d_opening d = None \<longrightarrow> \<not> d_connected d \<longrightarrow> \<not> d_stopped d \<longrightarrow> idle_socket d)"

definition admitted_ok :: "client \<Rightarrow> bool" where
  "admitted_ok d \<longleftrightarrow> distinct (d_admitted d) \<and> (\<forall>i \<in> set (d_admitted d). i < length (d_sockets d)) \<and>
     d_generation d = of_nat (length (d_admitted d)) \<and> (\<forall>i. d_socket d = Some i \<longrightarrow> d_admitted d \<noteq> [] \<and> last (d_admitted d) = i)"

fun holds :: "opening_pc \<Rightarrow> nat option" where
  "holds (Dialed i) = Some i"
| "holds (Retiring i e) = Some i"
| "holds p = None"

definition in_hand :: "client \<Rightarrow> nat \<Rightarrow> bool" where
  "in_hand d i \<longleftrightarrow> (\<exists>a. d_opening d = Some a \<and> holds (d_attempts d ! a) = Some i)"

definition live_ok :: "client \<Rightarrow> bool" where
  "live_ok d \<longleftrightarrow> (\<forall>i < length (d_sockets d). \<not> failed d i \<longrightarrow>
     d_socket d = Some i \<and> (d_stopped d \<longrightarrow> closed_error \<in> set (x_closers (d_sockets d ! i))) \<or> in_hand d i)"

definition flags_ok :: "client \<Rightarrow> bool" where
  "flags_ok d \<longleftrightarrow> (d_connected d \<longrightarrow> \<not> d_stopped d \<and> d_opening d = None \<and> d_socket d \<noteq> None) \<and>
     (d_retryAt d \<noteq> None \<longrightarrow> d_failure d \<noteq> None) \<and>
     (\<forall>i < length (d_sockets d). x_notify (d_sockets d ! i) \<longrightarrow> failed d i) \<and>
     (\<forall>i. d_socket d = Some i \<longrightarrow> failed d i \<longrightarrow> x_notify (d_sockets d ! i))"

definition desktop_ok :: "client \<Rightarrow> bool" where
  "desktop_ok d \<longleftrightarrow> attempts_ok d \<and> admitted_ok d \<and> live_ok d \<and> flags_ok d"

lemma desktop_okD:
  assumes "desktop_ok d"
  shows "attempts_ok d" "admitted_ok d" "live_ok d" "flags_ok d"
  using assms by (simp_all add: desktop_ok_def)

lemma socket_index: "desktop_ok d \<Longrightarrow> d_socket d = Some i \<Longrightarrow> i \<in> set (d_admitted d) \<and> i < length (d_sockets d)"
  by (auto simp: desktop_ok_def admitted_ok_def)

lemma failed_set_socket:
  "failed (set_socket i x d) j = (if j = i \<and> i < length (d_sockets d) then x_failure x \<noteq> None else failed d j)"
  by (cases "i < length (d_sockets d)") (simp_all add: failed_def set_socket_def nth_list_update list_update_beyond)

lemma failed_progress: "failed d j \<Longrightarrow> progressed (d_sockets d ! i) x \<Longrightarrow> failed (set_socket i x d) j"
  by (cases "j = i") (simp_all add: failed_set_socket, simp add: failed_def progressed_def)

lemma set_socket_fields [simp]:
  "d_socket (set_socket i x d) = d_socket d" "d_opening (set_socket i x d) = d_opening d" "d_connected (set_socket i x d) = d_connected d"
  "d_stopped (set_socket i x d) = d_stopped d" "d_generation (set_socket i x d) = d_generation d" "d_admitted (set_socket i x d) = d_admitted d"
  "d_failure (set_socket i x d) = d_failure d" "d_retryAt (set_socket i x d) = d_retryAt d" "d_attempts (set_socket i x d) = d_attempts d"
  "d_sockets (set_socket i x d) = (d_sockets d)[i := x]"
  by (simp_all add: set_socket_def)

lemma set_attempt_fields [simp]:
  "d_socket (set_attempt a p d) = d_socket d" "d_opening (set_attempt a p d) = d_opening d" "d_connected (set_attempt a p d) = d_connected d"
  "d_stopped (set_attempt a p d) = d_stopped d" "d_generation (set_attempt a p d) = d_generation d" "d_admitted (set_attempt a p d) = d_admitted d"
  "d_failure (set_attempt a p d) = d_failure d" "d_retryAt (set_attempt a p d) = d_retryAt d" "d_sockets (set_attempt a p d) = d_sockets d"
  "d_attempts (set_attempt a p d) = (d_attempts d)[a := p]"
  by (simp_all add: set_attempt_def)

lemma idle_set_socket: "idle_socket d \<Longrightarrow> progressed (d_sockets d ! i) x \<Longrightarrow> idle_socket (set_socket i x d)"
  by (auto simp: idle_socket_def failed_progress)

lemma phase_set_socket:
  assumes "phase_ok d p" "progressed (d_sockets d ! i) x" "p \<noteq> Dialed i"
  shows "phase_ok (set_socket i x d) p"
  using assms
proof (cases "(d, p)" rule: phase_ok.cases)
  case (2 d' j)
  then show ?thesis using assms idle_set_socket [of d i x] by (simp add: failed_set_socket)
qed (auto simp: idle_set_socket owns_def)

text \<open>A step of one exchange, its own or the client's.\<close>

lemma ok_set_socket:
  assumes ok: "desktop_ok d" and i: "i < length (d_sockets d)" and x: "progressed (d_sockets d ! i) x"
    and own: "\<And>a. d_opening d = Some a \<Longrightarrow> d_attempts d ! a \<noteq> Dialed i"
  shows "desktop_ok (set_socket i x d)"
proof -
  have "attempts_ok (set_socket i x d)"
    using desktop_okD(1) [OF ok] idle_set_socket [OF _ x] phase_set_socket [OF _ x] own by (simp add: attempts_ok_def)
  moreover have "admitted_ok (set_socket i x d)" using desktop_okD(2) [OF ok] by (simp add: admitted_ok_def)
  moreover have "live_ok (set_socket i x d)"
    using desktop_okD(3) [OF ok] x i unfolding live_ok_def progressed_def
    by (auto simp: failed_set_socket failed_def in_hand_def nth_list_update)
  moreover have "flags_ok (set_socket i x d)"
    using desktop_okD(4) [OF ok] x i unfolding flags_ok_def progressed_def
    by (auto simp: failed_set_socket failed_def nth_list_update)
  ultimately show ?thesis by (simp add: desktop_ok_def)
qed

lemma phase_frame:
  assumes "d_socket d' = d_socket d" "d_sockets d' = d_sockets d" "d_stopped d' = d_stopped d" "d_admitted d' = d_admitted d"
  shows "phase_ok d' p = phase_ok d p"
  using assms by (cases "(d, p)" rule: phase_ok.cases) (simp_all add: idle_socket_def owns_def failed_def)

lemma opening_of: "desktop_ok d \<Longrightarrow> a < length (d_attempts d) \<Longrightarrow> \<not> is_finished (d_attempts d ! a) \<Longrightarrow> d_opening d = Some a"
  by (auto simp: desktop_ok_def attempts_ok_def)

lemma opening_phase: "desktop_ok d \<Longrightarrow> d_opening d = Some a \<Longrightarrow> a < length (d_attempts d) \<and> phase_ok d (d_attempts d ! a)"
  by (simp add: desktop_ok_def attempts_ok_def)

lemma phase_unfinished: "phase_ok d p \<Longrightarrow> \<not> is_finished p"
  by (auto simp: is_finished_def)

lemma ok_attempt:
  assumes ok: "desktop_ok d" and a: "d_opening d = Some a" and p: "phase_ok d p"
    and keep: "\<And>i. holds (d_attempts d ! a) = Some i \<Longrightarrow> holds p = Some i \<or> failed d i"
  shows "desktop_ok (set_attempt a p d)"
proof -
  have len: "a < length (d_attempts d)" using opening_phase [OF ok a] by simp
  have "phase_ok (set_attempt a p d) q = phase_ok d q" for q by (rule phase_frame) simp_all
  then have "attempts_ok (set_attempt a p d)"
    using desktop_okD(1) [OF ok] a len p phase_unfinished [OF p] by (auto simp: attempts_ok_def nth_list_update)
  moreover have "admitted_ok (set_attempt a p d)" using desktop_okD(2) [OF ok] by (simp add: admitted_ok_def)
  moreover have "live_ok (set_attempt a p d)"
    using desktop_okD(3) [OF ok] a len keep by (auto simp: live_ok_def in_hand_def failed_def)
  moreover have "flags_ok (set_attempt a p d)" using desktop_okD(4) [OF ok] by (simp add: flags_ok_def failed_def)
  ultimately show ?thesis by (simp add: desktop_ok_def)
qed

lemma not_dialed: "desktop_ok d \<Longrightarrow> i \<in> set (d_admitted d) \<Longrightarrow> d_opening d = Some a \<Longrightarrow> d_attempts d ! a \<noteq> Dialed i"
  using opening_phase by fastforce

lemma admitted_index: "desktop_ok d \<Longrightarrow> i \<in> set (d_admitted d) \<Longrightarrow> i < length (d_sockets d)"
  by (simp add: desktop_ok_def admitted_ok_def)

lemma ok_internal: "desktop_ok d \<Longrightarrow> i \<in> set (d_admitted d) \<Longrightarrow> progressed (d_sockets d ! i) x \<Longrightarrow> desktop_ok (set_socket i x d)"
  by (rule ok_set_socket) (simp_all add: admitted_index not_dialed)

lemma ok_connect: "desktop_ok d \<Longrightarrow> desktop_ok (snd (Connect now d))"
proof (cases "d_stopped d \<or> d_connected d \<or> d_opening d \<noteq> None")
  case False
  assume ok: "desktop_ok d"
  let ?d = "d\<lparr>d_opening := Some (length (d_attempts d)), d_attempts := d_attempts d @ [Starting]\<rparr>"
  have idle: "idle_socket d" using desktop_okD(1) [OF ok] False by (simp add: attempts_ok_def)
  have "idle_socket ?d" using idle by (simp add: idle_socket_def failed_def)
  then have "attempts_ok ?d"
    using desktop_okD(1) [OF ok] False by (auto simp: attempts_ok_def nth_append is_finished_def)
  moreover have "live_ok ?d" using desktop_okD(3) [OF ok] False by (simp add: live_ok_def in_hand_def failed_def)
  moreover have "flags_ok ?d" using desktop_okD(4) [OF ok] False by (simp add: flags_ok_def failed_def)
  moreover have "admitted_ok ?d" using desktop_okD(2) [OF ok] by (simp add: admitted_ok_def)
  ultimately show ?thesis using ok by (auto simp: desktop_ok_def Connect_def split: option.splits)
qed (auto simp: Connect_def)

lemma ok_dialed:
  assumes ok: "desktop_ok d" and a: "d_opening d = Some a" "d_attempts d ! a = Starting"
  shows "desktop_ok (dialed a d)"
proof -
  let ?n = "length (d_sockets d)"
  have len: "a < length (d_attempts d)" and idle: "idle_socket d" using opening_phase [OF ok a(1)] a(2) by simp_all
  have fields: "d_socket (dialed a d) = d_socket d" "d_stopped (dialed a d) = d_stopped d" "d_admitted (dialed a d) = d_admitted d"
    "d_sockets (dialed a d) = d_sockets d @ [newExchange (d_timeout d)]" "d_opening (dialed a d) = d_opening d"
    "d_attempts (dialed a d) = (d_attempts d)[a := Dialed ?n]" "d_connected (dialed a d) = d_connected d"
    "d_generation (dialed a d) = d_generation d" "d_retryAt (dialed a d) = d_retryAt d" "d_failure (dialed a d) = d_failure d"
    by (simp_all add: dialed_def set_attempt_def)
  have failed: "failed (dialed a d) i = (if i = ?n then False else failed d i)" if "i \<le> ?n" for i
    using that by (simp add: failed_def fields nth_append newExchange_def)
  have idle': "idle_socket (dialed a d)"
    using idle socket_index [OF ok] by (auto simp: idle_socket_def fields failed)
  have "attempts_ok (dialed a d)"
    using desktop_okD(1) [OF ok] a len idle' failed [of ?n] admitted_index [OF ok, of ?n]
    by (auto simp: attempts_ok_def fields nth_list_update is_finished_def)
  moreover have "admitted_ok (dialed a d)" using desktop_okD(2) [OF ok] by (auto simp: admitted_ok_def fields)
  moreover have "live_ok (dialed a d)"
    using desktop_okD(3) [OF ok] a len unfolding live_ok_def
    by (auto simp: fields failed in_hand_def nth_append less_Suc_eq_le)
  moreover have "flags_ok (dialed a d)"
    using desktop_okD(4) [OF ok] socket_index [OF ok] a unfolding flags_ok_def
    by (auto simp: fields failed nth_append newExchange_def less_Suc_eq_le)
  ultimately show ?thesis by (simp add: desktop_ok_def)
qed

lemma ok_admit:
  assumes ok: "desktop_ok d" and a: "d_opening d = Some a" "d_attempts d ! a = Dialed i"
  shows "desktop_ok (admit a i d)"
proof -
  have len: "a < length (d_attempts d)" and i: "i < length (d_sockets d)" "\<not> failed d i" "i \<notin> set (d_admitted d)" and idle: "idle_socket d"
    using opening_phase [OF ok a(1)] a(2) by simp_all
  show ?thesis
  proof (cases "d_stopped d")
    case True
    then show ?thesis using ok_attempt [OF ok a(1), of "Retiring i closed_error"] i(1) idle a(2) by (simp add: admit_def)
  next
    case False
    let ?d = "admit a i d"
    have fields: "d_socket ?d = Some i" "d_stopped ?d = False" "d_admitted ?d = d_admitted d @ [i]" "d_sockets ?d = d_sockets d"
      "d_opening ?d = Some a" "d_attempts ?d = (d_attempts d)[a := Admitted i]" "d_connected ?d = d_connected d"
      "d_generation ?d = d_generation d + 1" "d_retryAt ?d = d_retryAt d" "d_failure ?d = d_failure d"
      using False a(1) by (simp_all add: admit_def set_attempt_def)
    have failed: "failed ?d j = failed d j" for j by (simp add: failed_def fields)
    have old: "failed d j" if "d_socket d = Some j" for j using idle that False by (simp add: idle_socket_def)
    have "attempts_ok ?d"
      using desktop_okD(1) [OF ok] a len by (auto simp: attempts_ok_def fields nth_list_update is_finished_def owns_def)
    moreover have "admitted_ok ?d" using desktop_okD(2) [OF ok] i by (auto simp: admitted_ok_def fields)
    moreover have "live_ok ?d"
      using desktop_okD(3) [OF ok] a old unfolding live_ok_def by (auto simp: fields failed in_hand_def)
    moreover have "flags_ok ?d"
      using desktop_okD(4) [OF ok] a i(2) unfolding flags_ok_def by (auto simp: fields failed)
    ultimately show ?thesis by (simp add: desktop_ok_def)
  qed
qed

lemma ok_retiring:
  assumes ok: "desktop_ok d" and a: "d_opening d = Some a" and i: "i \<in> set (d_admitted d)" "owns i d" and old: "holds (d_attempts d ! a) = None"
  shows "desktop_ok (set_attempt a (Retiring i e) d)"
  using ok_attempt [OF ok a, of "Retiring i e"] i admitted_index [OF ok] old by simp

lemma ok_initialize_call:
  assumes ok: "desktop_ok d" and a: "d_opening d = Some a" "d_attempts d ! a = Admitted i" and nonce: "length nonce = 16"
  shows "desktop_ok (initialize_call a i nonce d)"
proof -
  have i: "i \<in> set (d_admitted d)" "owns i d" using opening_phase [OF ok a(1)] a(2) by simp_all
  let ?r = "call_register (request_id nonce) ''initialize'' 0 (GMap [(''clientType'', GStr ''filo'')]) [] (d_sockets d ! i)"
  show ?thesis
  proof (cases ?r)
    case (Inl e)
    then show ?thesis using ok_retiring [OF ok a(1) i] a(2) by (simp add: initialize_call_def)
  next
    case (Inr q)
    obtain c x where q: "q = (c, x)" by (cases q)
    have "progressed (d_sockets d ! i) x" by (rule local_progress, rule local_step.register [OF nonce]) (use Inr q in simp)
    then have set: "desktop_ok (set_socket i x d)" by (rule ok_internal [OF ok i(1)])
    have "desktop_ok (set_attempt a (Initializing i c) (set_socket i x d))"
      by (rule ok_attempt [OF set]) (use a i in \<open>simp_all add: owns_def\<close>)
    then show ?thesis using Inr q by (simp add: initialize_call_def)
  qed
qed

lemma ok_initialized:
  assumes ok: "desktop_ok d" and a: "d_opening d = Some a" "d_attempts d ! a = Initializing i c"
  shows "desktop_ok (initialized a i r d)"
proof -
  have i: "i \<in> set (d_admitted d)" "owns i d" using opening_phase [OF ok a(1)] a(2) by simp_all
  have retiring: "desktop_ok (set_attempt a (Retiring i e) d)" for e using ok_retiring [OF ok a(1) i] a(2) by simp
  have named: "desktop_ok (set_attempt a p (set_socket i ((d_sockets d ! i)\<lparr>x_clientID := s\<rparr>) d))"
    if "p = Finishing None \<or> (\<exists>e. p = Retiring i e)" for s p
  proof -
    have set: "desktop_ok (set_socket i ((d_sockets d ! i)\<lparr>x_clientID := s\<rparr>) d)"
      by (rule ok_internal [OF ok i(1)]) (auto simp: progressed_def)
    show ?thesis
      by (rule ok_attempt [OF set]) (use a i that admitted_index [OF ok i(1)] in \<open>auto simp: owns_def\<close>)
  qed
  show ?thesis
    unfolding initialized_def Let_def
    by (auto split: sum.split option.split intro!: retiring named)
qed

lemma ok_retire:
  assumes ok: "desktop_ok d" and a: "d_opening d = Some a" "d_attempts d ! a = Retiring i e"
  shows "desktop_ok (retire a i e d)"
proof -
  have i: "i < length (d_sockets d)" "owns i d \<or> idle_socket d" using opening_phase [OF ok a(1)] a(2) by simp_all
  let ?d = "set_socket i (exchange_close e (d_sockets d ! i)) d"
  have set: "desktop_ok ?d" by (rule ok_set_socket [OF ok i(1) close_progress]) (use a in auto)
  have closed: "failed ?d i" using i(1) by (simp add: failed_set_socket close_effect)
  have "idle_socket ?d"
  proof (cases "owns i d")
    case True
    then show ?thesis using closed by (auto simp: owns_def idle_socket_def)
  next
    case False
    then show ?thesis using i(2) idle_set_socket [OF _ close_progress] by blast
  qed
  then show ?thesis
    unfolding retire_def by (intro ok_attempt [OF set]) (use a closed in auto)
qed

lemma ok_open_end:
  assumes ok: "desktop_ok d" and a: "d_opening d = Some a" "d_attempts d ! a = Finishing err"
  shows "desktop_ok (open_end a err now d)"
proof -
  let ?e = "open_error err d" and ?d = "open_end a err now d"
  have len: "a < length (d_attempts d)" using opening_phase [OF ok a(1)] by simp
  have fields: "d_socket ?d = d_socket d" "d_stopped ?d = d_stopped d" "d_admitted ?d = d_admitted d" "d_sockets ?d = d_sockets d"
    "d_opening ?d = None" "d_attempts ?d = (d_attempts d)[a := Finished ?e]" "d_connected ?d = (?e = None)"
    "d_generation ?d = d_generation d" "d_retryAt ?d = (if ?e = None then None else Some (now + 1000))" "d_failure ?d = ?e"
    by (simp_all add: open_end_def set_attempt_def Let_def)
  have failed: "failed ?d j = failed d j" for j by (simp add: failed_def fields)
  have idle: "idle_socket d" if "?e \<noteq> None"
  proof (cases err)
    case None
    then show ?thesis using that by (auto simp: open_error_def idle_socket_def failed_def split: option.splits if_splits)
  next
    case (Some e)
    then show ?thesis using opening_phase [OF ok a(1)] a(2) by simp
  qed
  have up: "\<not> d_stopped d \<and> d_socket d \<noteq> None" if "?e = None"
    using that by (auto simp: open_error_def Let_def split: option.splits if_splits)
  have idle': "idle_socket ?d" if "?e \<noteq> None" using idle [OF that] by (simp add: idle_socket_def fields failed)
  have "attempts_ok ?d"
    using desktop_okD(1) [OF ok] a(1) len idle' by (auto simp: attempts_ok_def fields nth_list_update is_finished_def)
  moreover have "admitted_ok ?d" using desktop_okD(2) [OF ok] by (simp add: admitted_ok_def fields)
  moreover have "live_ok ?d"
    using desktop_okD(3) [OF ok] a unfolding live_ok_def by (auto simp: fields failed in_hand_def)
  moreover have "flags_ok ?d"
    using desktop_okD(4) [OF ok] up unfolding flags_ok_def by (auto simp: fields failed)
  ultimately show ?thesis by (simp add: desktop_ok_def)
qed

lemma ok_on_close:
  assumes ok: "desktop_ok d" and i: "i < length (d_sockets d)" "x_notify (d_sockets d ! i)"
  shows "desktop_ok (on_close i d)"
proof -
  let ?d = "on_close i d"
  have dead: "failed d i" using desktop_okD(4) [OF ok] i by (simp add: flags_ok_def)
  have fields: "d_socket ?d = (if d_socket d = Some i then None else d_socket d)" "d_stopped ?d = d_stopped d" "d_admitted ?d = d_admitted d"
    "d_sockets ?d = (d_sockets d)[i := (d_sockets d ! i)\<lparr>x_notify := False\<rparr>]" "d_opening ?d = d_opening d" "d_attempts ?d = d_attempts d"
    "d_connected ?d = (d_connected d \<and> d_socket d \<noteq> Some i)" "d_generation ?d = d_generation d" "d_retryAt ?d = d_retryAt d" "d_failure ?d = d_failure d"
    by (simp_all add: on_close_def Let_def)
  have failed: "failed ?d j = failed d j" for j by (simp add: failed_def fields nth_list_update i(1))
  have idle: "idle_socket d \<Longrightarrow> idle_socket ?d" by (auto simp: idle_socket_def fields failed split: if_splits)
  have "phase_ok d p \<Longrightarrow> phase_ok ?d p" for p
    using idle by (cases "(d, p)" rule: phase_ok.cases) (auto simp: fields failed owns_def split: if_splits)
  moreover have "idle_socket ?d" if "d_opening d = None" "\<not> (d_connected d \<and> d_socket d \<noteq> Some i)" "\<not> d_stopped d"
  proof (cases "d_connected d")
    case True
    then show ?thesis using that by (simp add: idle_socket_def fields)
  next
    case False
    then show ?thesis using desktop_okD(1) [OF ok] that idle by (simp add: attempts_ok_def)
  qed
  ultimately have "attempts_ok ?d" using desktop_okD(1) [OF ok] by (auto simp: attempts_ok_def fields)
  moreover have "admitted_ok ?d" using desktop_okD(2) [OF ok] by (simp add: admitted_ok_def fields)
  moreover have "live_ok ?d"
    using desktop_okD(3) [OF ok] dead unfolding live_ok_def by (auto simp: fields failed in_hand_def nth_list_update)
  moreover have "flags_ok ?d"
  proof -
    note flags = desktop_okD(4) [OF ok, unfolded flags_ok_def]
    have up: "d_connected ?d \<longrightarrow> \<not> d_stopped ?d \<and> d_opening ?d = None \<and> d_socket ?d \<noteq> None" using flags by (simp add: fields)
    have retry: "d_retryAt ?d \<noteq> None \<longrightarrow> d_failure ?d \<noteq> None" using flags by (simp add: fields)
    have "x_notify (d_sockets ?d ! j) \<longrightarrow> failed ?d j" if "j < length (d_sockets ?d)" for j
      using flags that by (simp add: fields(4) failed nth_list_update i(1))
    moreover have "x_notify (d_sockets ?d ! j)" if "d_socket ?d = Some j" "failed ?d j" for j
    proof -
      have j: "d_socket d = Some j" "j \<noteq> i" using that(1) by (simp_all add: fields(1) split: if_splits)
      then show ?thesis using flags that(2) by (simp add: fields(4) failed i(1))
    qed
    ultimately show ?thesis using up retry unfolding flags_ok_def by blast
  qed
  ultimately show ?thesis by (simp add: desktop_ok_def)
qed

lemma ok_Broadcast:
  assumes ok: "desktop_ok d"
  shows "desktop_ok (fst (Broadcast method version params targets d))"
proof (cases "current_socket d")
  case (Inr i)
  then have "i \<in> set (d_admitted d)"
    using socket_index [OF ok, of i] by (auto simp: current_socket_def split: if_splits option.splits)
  then show ?thesis using Inr ok_internal [OF ok _ broadcast_progress] by (simp add: Broadcast_def Let_def case_prod_beta)
qed (simp add: Broadcast_def ok)

lemma ok_stopped:
  assumes ok: "desktop_ok d" and asked: "\<And>i. d_socket d = Some i \<Longrightarrow> closed_error \<in> set (x_closers (d_sockets d ! i))"
  shows "desktop_ok (d\<lparr>d_stopped := True, d_connected := False\<rparr>)"
proof -
  let ?d = "d\<lparr>d_stopped := True, d_connected := False\<rparr>"
  have failed: "failed ?d j = failed d j" for j by (simp add: failed_def)
  have idle: "idle_socket ?d" by (simp add: idle_socket_def)
  then have "phase_ok d p \<Longrightarrow> phase_ok ?d p" for p
    by (cases "(d, p)" rule: phase_ok.cases) (simp_all add: failed owns_def)
  then have "attempts_ok ?d" using desktop_okD(1) [OF ok] by (simp add: attempts_ok_def)
  moreover have "admitted_ok ?d" using desktop_okD(2) [OF ok] by (simp add: admitted_ok_def)
  moreover have "live_ok ?d" using desktop_okD(3) [OF ok] asked unfolding live_ok_def by (auto simp: failed in_hand_def)
  moreover have "flags_ok ?d" using desktop_okD(4) [OF ok] by (simp add: flags_ok_def failed)
  ultimately show ?thesis by (simp add: desktop_ok_def)
qed

lemma ok_Close:
  assumes ok: "desktop_ok d"
  shows "desktop_ok (Client_Close d)"
proof (cases "d_socket d")
  case None
  then show ?thesis using ok_stopped [OF ok] by (simp add: Client_Close_def Let_def)
next
  case (Some i)
  let ?x = "(d_sockets d ! i)\<lparr>x_closers := closed_error # x_closers (d_sockets d ! i)\<rparr>"
  have i: "i \<in> set (d_admitted d)" "i < length (d_sockets d)" using socket_index [OF ok Some] by simp_all
  have "desktop_ok (set_socket i ?x d)" by (rule ok_internal [OF ok i(1)]) (auto simp: progressed_def)
  then have "desktop_ok ((set_socket i ?x d)\<lparr>d_stopped := True, d_connected := False\<rparr>)"
    by (rule ok_stopped) (use Some i(2) in simp)
  moreover have "Client_Close d = (set_socket i ?x d)\<lparr>d_stopped := True, d_connected := False\<rparr>"
    by (simp add: Client_Close_def Let_def Some set_socket_def)
  ultimately show ?thesis by simp
qed

lemma ok_client_step:
  assumes "client_step d d'" and ok: "desktop_ok d"
  shows "desktop_ok d'"
  using assms(1)
proof (cases rule: client_step.cases)
  case (dial_fails a e)
  have a: "d_opening d = Some a" by (rule opening_of [OF ok]) (simp_all add: dial_fails is_finished_def)
  then have "phase_ok d (Finishing (Some e))" using opening_phase [OF ok a] dial_fails by simp
  then show ?thesis using ok_attempt [OF ok a] dial_fails by (simp add: dial_failed_def)
next
  case (dials a)
  moreover from this have "d_opening d = Some a" by (intro opening_of [OF ok]) (simp_all add: is_finished_def)
  ultimately show ?thesis using ok_dialed [OF ok] by simp
next
  case (admits a i)
  moreover from this have "d_opening d = Some a" by (intro opening_of [OF ok]) (simp_all add: is_finished_def)
  ultimately show ?thesis using ok_admit [OF ok] by simp
next
  case (initializes a i nonce)
  moreover from this have "d_opening d = Some a" by (intro opening_of [OF ok]) (simp_all add: is_finished_def)
  ultimately show ?thesis using ok_initialize_call [OF ok] by simp
next
  case (answered a i c r)
  moreover from this have "d_opening d = Some a" by (intro opening_of [OF ok]) (simp_all add: is_finished_def)
  ultimately show ?thesis using ok_initialized [OF ok] by simp
next
  case (retires a i e)
  moreover from this have "d_opening d = Some a" by (intro opening_of [OF ok]) (simp_all add: is_finished_def)
  ultimately show ?thesis using ok_retire [OF ok] by simp
next
  case (ends a err now)
  moreover from this have "d_opening d = Some a" by (intro opening_of [OF ok]) (simp_all add: is_finished_def)
  ultimately show ?thesis using ok_open_end [OF ok] by simp
next
  case (internal i x)
  then show ?thesis using ok_internal [OF ok _ local_progress] by simp
qed (use ok in \<open>simp_all add: ok_connect ok_on_close ok_Broadcast ok_Close\<close>)

lemma ok_new: "desktop_ok (NewClient t)"
  by (simp add: desktop_ok_def NewClient_def attempts_ok_def admitted_ok_def live_ok_def flags_ok_def idle_socket_def)

interpretation desktop_client: invariant_system "\<lambda>d. d = NewClient t" client_step desktop_ok
  for t
  by unfold_locales (auto simp: ok_new ok_client_step)

lemma client_reached: "client_step\<^sup>*\<^sup>* (NewClient t) d \<Longrightarrow> desktop_ok d"
  using desktop_client.inv_steps [of "NewClient t" d] ok_new by blast

lemma admitted_step: "client_step d d' \<Longrightarrow> \<exists>more. d_admitted d' = d_admitted d @ more"
  by (cases rule: client_step.cases)
    (auto simp: Connect_def dial_failed_def dialed_def admit_def initialize_call_def initialized_def retire_def open_end_def
      on_close_def Broadcast_def Client_Close_def Let_def case_prod_beta split: option.splits sum.splits)

lemma admitted_steps: "client_step\<^sup>*\<^sup>* d d' \<Longrightarrow> \<exists>more. d_admitted d' = d_admitted d @ more"
proof (induction rule: rtranclp_induct)
  case (step y z)
  then show ?case using admitted_step [of y z] by auto
qed simp

subsection \<open>Properties of the client\<close>

text \<open>
  C19. A generation is bound to one connection: when \<open>ConnectionGeneration\<close> returned it while some connection was
  current, every later \<open>RequestOnConnection\<close> with that generation is refused or goes to that same connection,
  however often the client reconnected in between (up to the wrap-around of the 64 bit counter).
\<close>

theorem generation_pins_connection:
  assumes "client_step\<^sup>*\<^sup>* (NewClient t) d" "client_step\<^sup>*\<^sup>* d d'" "length (d_admitted d') < 2 ^ 64"
    and "ConnectionGeneration d = g" "RequestOnConnection g d' = Inr j"
  shows "d_socket d = Some j"
proof -
  have ok: "admitted_ok d" "admitted_ok d'"
    using desktop_okD(2) [OF client_reached] assms(1,2) by (auto intro: rtranclp_trans)
  have later: "d_socket d' = Some j" "g \<noteq> 0" "d_generation d' = g"
    using assms(5) by (auto simp: RequestOnConnection_def split: option.splits if_splits)
  have now: "d_socket d \<noteq> None" "d_generation d = g"
    using assms(4) later(2) by (auto simp: ConnectionGeneration_def split: if_splits)
  obtain more where more: "d_admitted d' = d_admitted d @ more" using admitted_steps [OF assms(2)] by blast
  have "(of_nat (length (d_admitted d)) :: 64 word) = of_nat (length (d_admitted d'))"
    using ok now(2) later(3) by (simp add: admitted_ok_def)
  then have "unat (of_nat (length (d_admitted d)) :: 64 word) = unat (of_nat (length (d_admitted d')) :: 64 word)" by (rule arg_cong)
  then have "length (d_admitted d) = length (d_admitted d')"
    using assms(3) more by (simp only: unat_of_nat) simp
  then have "d_admitted d' = d_admitted d" using more by simp
  then show ?thesis using ok now(1) later(1) by (auto simp: admitted_ok_def)
qed

text \<open>A client that has connected.\<close>

definition init_reply :: props where
  "init_reply = [(''type'', GStr ''response''), (''requestId'', GStr sample_id), (''resultType'', GStr ''success''),
     (''result'', GObj [(''clientId'', GStr ''c'')])]"

lemma initialize_body:
  "\<exists>body. frameBody (request_message sample_id ''filo'' 5 ''initialize'' 0 (GMap [(''clientType'', GStr ''filo'')]) []) = Inr body \<and> length body \<le> MaxOutputBytes"
  by (simp add: frameBody_def request_message_def map_json_def wire_json_def go_member_def go_quote_def go_json_object_def
    sample_id_def go_quote_safe safe_char_def plain_char_def MaxOutputBytes_def FormatInt_def FormatUint.simps [of 5] FormatUint.simps [of 0])

definition connected_client :: "string \<Rightarrow> client" where
  "connected_client body = (NewClient 5)\<lparr>d_socket := Some 0, d_connected := True, d_generation := 1, d_attempts := [Finished None],
     d_sockets := [(sample_exchange body init_reply)\<lparr>x_clientID := ''c''\<rparr>], d_admitted := [0]\<rparr>"

lemma internal_steps:
  assumes "local_step\<^sup>*\<^sup>* x y" "i \<in> set (d_admitted d)" "i < length (d_sockets d)"
  shows "client_step\<^sup>*\<^sup>* (set_socket i x d) (set_socket i y d)"
  using assms(1)
proof (induction rule: rtranclp_induct)
  case (step y z)
  have "client_step (set_socket i y d) (set_socket i z (set_socket i y d))"
    by (rule client_step.internal) (use assms(2,3) step(2) in simp_all)
  then show ?case using step(3) by (simp add: set_socket_def)
qed simp

lemma connected_reached:
  obtains body where "client_step\<^sup>*\<^sup>* (NewClient 5) (connected_client body)"
proof -
  obtain body where body: "frameBody (request_message sample_id ''filo'' 5 ''initialize'' 0 (GMap [(''clientType'', GStr ''filo'')]) []) = Inr body"
      "length body \<le> MaxOutputBytes"
    using initialize_body by blast
  define d1 where "d1 = (NewClient 5)\<lparr>d_opening := Some 0, d_attempts := [Starting]\<rparr>"
  define d2 where "d2 = d1\<lparr>d_sockets := [newExchange 5], d_attempts := [Dialed 0]\<rparr>"
  define d3 where "d3 = d2\<lparr>d_socket := Some 0, d_generation := 1, d_admitted := [0], d_attempts := [Admitted 0]\<rparr>"
  define d4 where "d4 = d3\<lparr>d_sockets := [registered_exchange body], d_attempts := [Initializing 0 0]\<rparr>"
  define d5 where "d5 = d4\<lparr>d_sockets := [sample_exchange body init_reply]\<rparr>"
  define d6 where "d6 = d5\<lparr>d_sockets := [(sample_exchange body init_reply)\<lparr>x_clientID := ''c''\<rparr>], d_attempts := [Finishing None]\<rparr>"
  note defs = d6_def d5_def d4_def d3_def d2_def d1_def NewClient_def
  have "snd (Connect 0 (NewClient 5)) = d1" by (simp add: Connect_def defs)
  then have "client_step (NewClient 5) d1" using client_step.connect [of "NewClient 5" 0] by simp
  moreover have "dialed 0 d1 = d2" by (simp add: dialed_def set_attempt_def defs)
  then have "client_step d1 d2" using client_step.dials [of 0 d1] by (simp add: defs)
  moreover have "admit 0 0 d2 = d3" by (simp add: admit_def set_attempt_def defs)
  then have "client_step d2 d3" using client_step.admits [of 0 d2 0] by (simp add: defs)
  moreover have "initialize_call 0 0 (replicate 16 0) d3 = d4"
    by (simp add: initialize_call_def set_attempt_def set_socket_def defs sample_register [OF body(1)])
  then have "client_step d3 d4" using client_step.initializes [of 0 d3 0 "replicate 16 0"] by (simp add: defs)
  moreover have "local_step\<^sup>*\<^sup>* (registered_exchange body) (sample_exchange body init_reply)"
    by (rule sample_answered [OF body(2)]) (simp_all add: init_reply_def field_def)
  then have "client_step\<^sup>*\<^sup>* d4 d5"
    using internal_steps [of "registered_exchange body" "sample_exchange body init_reply" 0 d4] by (simp add: set_socket_def defs)
  moreover have "initialized 0 0 (Inr init_reply) d5 = d6"
    by (simp add: initialized_def set_attempt_def set_socket_def defs init_reply_def field_def AsText_def Text_def sample_exchange_def newExchange_def)
  then have "client_step d5 d6" using client_step.answered [of 0 d5 0 0 "Inr init_reply"] by (simp add: defs sample_exchange_def)
  moreover have "open_end 0 None 0 d6 = connected_client body"
    by (simp add: open_end_def open_error_def set_attempt_def connected_client_def defs sample_exchange_def newExchange_def)
  then have "client_step d6 (connected_client body)" using client_step.ends [of 0 d6 None 0] by (simp add: defs)
  ultimately have "client_step\<^sup>*\<^sup>* (NewClient 5) (connected_client body)"
    by (meson converse_rtranclp_into_rtranclp rtranclp_trans rtranclp.rtrancl_refl)
  then show ?thesis by (rule that)
qed

theorem generation_pins_connection_witness:
  "\<exists>d. client_step\<^sup>*\<^sup>* (NewClient 5) d \<and> ConnectionGeneration d = 1 \<and> RequestOnConnection 1 d = Inr 0 \<and> d_socket d = Some 0"
proof -
  obtain body where run: "client_step\<^sup>*\<^sup>* (NewClient 5) (connected_client body)" by (rule connected_reached)
  have gen: "ConnectionGeneration (connected_client body) = 1" "RequestOnConnection 1 (connected_client body) = Inr 0"
    "length (d_admitted (connected_client body)) < 2 ^ 64"
    by (simp_all add: ConnectionGeneration_def RequestOnConnection_def connected_client_def NewClient_def)
  have "d_socket (connected_client body) = Some 0"
    by (rule generation_pins_connection [OF run rtranclp.rtrancl_refl gen(3,1,2)])
  with run gen show ?thesis by blast
qed

text \<open>
  The client keeps no connection it has lost track of: of all connections ever dialed, one that has not
  failed is the current one (and after \<open>Close\<close> it is being closed) or is in the hands of the single opening
  attempt, before its admission or while it is retired; no two attempts run at once; and \<open>connected\<close> means a
  current connection of a client that is not closed.
\<close>

theorem desktop_no_stray_connection:
  assumes "client_step\<^sup>*\<^sup>* (NewClient t) d"
  shows "(\<forall>i < length (d_sockets d). x_failure (d_sockets d ! i) = None \<longrightarrow>
       d_socket d = Some i \<and> (d_stopped d \<longrightarrow> closed_error \<in> set (x_closers (d_sockets d ! i))) \<or>
       (\<exists>a e. d_opening d = Some a \<and> (d_attempts d ! a = Dialed i \<or> d_attempts d ! a = Retiring i e))) \<and>
    (\<forall>a < length (d_attempts d). (\<nexists>e. d_attempts d ! a = Finished e) \<longrightarrow> d_opening d = Some a) \<and>
    (d_connected d \<longrightarrow> \<not> d_stopped d \<and> (\<exists>i. d_socket d = Some i))"
proof -
  note ok = client_reached [OF assms]
  have "\<exists>a e. d_opening d = Some a \<and> (d_attempts d ! a = Dialed i \<or> d_attempts d ! a = Retiring i e)" if in_hand: "in_hand d i" for i
  proof -
    obtain a where "d_opening d = Some a" "holds (d_attempts d ! a) = Some i" using in_hand by (auto simp: in_hand_def)
    then show ?thesis by (cases "d_attempts d ! a") auto
  qed
  then have "\<forall>i < length (d_sockets d). x_failure (d_sockets d ! i) = None \<longrightarrow>
       d_socket d = Some i \<and> (d_stopped d \<longrightarrow> closed_error \<in> set (x_closers (d_sockets d ! i))) \<or>
       (\<exists>a e. d_opening d = Some a \<and> (d_attempts d ! a = Dialed i \<or> d_attempts d ! a = Retiring i e))"
    using desktop_okD(3) [OF ok] unfolding live_ok_def failed_def by blast
  moreover have "\<forall>a < length (d_attempts d). (\<nexists>e. d_attempts d ! a = Finished e) \<longrightarrow> d_opening d = Some a"
    using opening_of [OF ok] by (simp add: is_finished_def)
  moreover have "d_connected d \<longrightarrow> \<not> d_stopped d \<and> (\<exists>i. d_socket d = Some i)"
    using desktop_okD(4) [OF ok] by (auto simp: flags_ok_def)
  ultimately show ?thesis by blast
qed

theorem desktop_no_stray_connection_witness:
  "\<exists>d. client_step\<^sup>*\<^sup>* (NewClient 5) d \<and> d_connected d \<and> \<not> d_stopped d \<and> (\<exists>i. d_socket d = Some i)"
proof -
  obtain body where run: "client_step\<^sup>*\<^sup>* (NewClient 5) (connected_client body)" by (rule connected_reached)
  have "d_connected (connected_client body)" by (simp add: connected_client_def)
  then show ?thesis using desktop_no_stray_connection [OF run] run by blast
qed

end
