(* ===== verification/Access.thy ===== *)
theory Access
  imports Pages Settings
begin

text \<open>
  Access and control of a desktop session (\<open>internal/sessions/access.go\<close>, \<open>control.go\<close>, \<open>recovery.go\<close>,
  \<open>metadata_access.go\<close>, \<open>created\<close> of \<open>session.go\<close>). A handler is a program that asks questions: every call of the
  follower, the connection, the history and the created scope, and every mutex section over the followers, is a
  question, and the answer is what that call or section returns at that moment. Between two questions
  anything may happen, so the answers are arbitrary; what a handler promises holds for all of them.
\<close>

subsection \<open>Questions and answers\<close>

text \<open>
  The context values of this package: the binding of the request, its admission and the recovery mark.
  \<open>da_entry\<close> is the address of the admitted follower entry.
\<close>

record desktop_access =
  da_binding :: string
  da_owner :: string
  da_native :: string
  da_scope :: string
  da_entry :: "addr option"
  da_connection :: "64 word"
  da_capabilities :: capabilities
  da_recovery :: bool

record admission =
  ad_sessions :: nat
  ad_id :: string
  ad_access :: desktop_access

record ctx =
  cx_binding :: string
  cx_admission :: "admission option"
  cx_recovery :: string

text \<open>
  What a section over the followers sees of an entry: \<open>ev_live\<close> when the source is open and the entry is the
  subscribed one, without error.
\<close>

record entry_view =
  ev_live :: bool
  ev_state :: "props option"
  ev_owner :: string
  ev_generation :: "64 word"
  ev_epoch :: "64 word"
  ev_connection :: "64 word"

datatype query =
    QContext | QStopped | QScope | QFence | QGeneration | QModels
  | QOwner string | QSeen string | QCreated string | QOwns string
  | QNative string | QNativeValidate string string | QHistory string | QCreatedRead string
  | QAcquire string string bool | QWait addr bool | QRelease addr | QEntry string addr | QSnapshot addr | QCurrent string
  | QConfirm addr int settings_patch
  | QConnect | QBroadcast string props | QForget string | QArchive string | QRename string string
  | QRequest string string int props | QBound "64 word" string string int props
  | QCreatedSend ctx string string string | QCreatedStop ctx string string | QCreatedUpdate ctx string settings_patch

datatype answer =
    AError "string option" | AFlag bool | AGeneration "64 word"
  | AText "string + string" | ABool "string + bool" | AModels "string + model list"
  | AAccess "string + session_access" | ARuntime "string + page_runtime option"
  | AAddr "string + addr option" | AReady "string + bool" | AView entry_view | AState "string + props"
  | ACurrent "(addr \<times> string \<times> bool \<times> int) option" | AReply "string + props" | AReceipt "string + (string \<times> string)"

datatype answer_kind = KError | KNothing | KFlag | KGeneration | KText | KBool | KModels | KAccess | KRuntime | KAddr | KReady
  | KView | KState | KCurrent | KReply | KReceipt

primrec wants :: "query \<Rightarrow> answer_kind" where
  "wants QContext = KError"
| "wants QStopped = KFlag"
| "wants QScope = KText"
| "wants QFence = KError"
| "wants QGeneration = KGeneration"
| "wants QModels = KModels"
| "wants (QOwner i) = KText"
| "wants (QSeen i) = KFlag"
| "wants (QCreated i) = KBool"
| "wants (QOwns i) = KBool"
| "wants (QNative i) = KAccess"
| "wants (QNativeValidate i b) = KError"
| "wants (QHistory i) = KRuntime"
| "wants (QCreatedRead i) = KRuntime"
| "wants (QAcquire i own ro) = KAddr"
| "wants (QWait e ro) = KReady"
| "wants (QRelease e) = KNothing"
| "wants (QEntry i e) = KView"
| "wants (QSnapshot e) = KState"
| "wants (QCurrent i) = KCurrent"
| "wants (QConfirm e n patch) = KError"
| "wants QConnect = KError"
| "wants (QBroadcast m ps) = KError"
| "wants (QForget i) = KNothing"
| "wants (QArchive i) = KText"
| "wants (QRename i n) = KError"
| "wants (QRequest own m n ps) = KReply"
| "wants (QBound g own m n ps) = KReply"
| "wants (QCreatedSend c i t cl) = KReceipt"
| "wants (QCreatedStop c i t) = KError"
| "wants (QCreatedUpdate c i patch) = KError"

primrec kind_of :: "answer \<Rightarrow> answer_kind" where
  "kind_of (AError e) = KError"
| "kind_of (AFlag b) = KFlag"
| "kind_of (AGeneration g) = KGeneration"
| "kind_of (AText r) = KText"
| "kind_of (ABool rb) = KBool"
| "kind_of (AModels rm) = KModels"
| "kind_of (AAccess ra) = KAccess"
| "kind_of (ARuntime rr) = KRuntime"
| "kind_of (AAddr rd) = KAddr"
| "kind_of (AReady ry) = KReady"
| "kind_of (AView v) = KView"
| "kind_of (AState rs) = KState"
| "kind_of (ACurrent rc) = KCurrent"
| "kind_of (AReply rp) = KReply"
| "kind_of (AReceipt rt) = KReceipt"

definition answers :: "query \<Rightarrow> answer \<Rightarrow> bool" where
  "answers q a \<longleftrightarrow> (if wants q = KNothing then a = AError None else kind_of a = wants q)"

datatype 'a prog = Ret "string + 'a" | Ask query "answer \<Rightarrow> 'a prog"

type_synonym history = "(query \<times> answer) list"

text \<open>\<open>continue\<close> sees the error of the first program, \<open>bindp\<close> returns it.\<close>

primrec continue :: "'a prog \<Rightarrow> (string + 'a \<Rightarrow> 'b prog) \<Rightarrow> 'b prog" where
  "continue (Ret r) f = f r"
| "continue (Ask q k) f = Ask q (\<lambda>a. continue (k a) f)"

definition bindp :: "'a prog \<Rightarrow> ('a \<Rightarrow> 'b prog) \<Rightarrow> 'b prog" where
  "bindp p f = continue p (\<lambda>r. case r of Inl e \<Rightarrow> Ret (Inl e) | Inr x \<Rightarrow> f x)"

abbreviation okp :: "'a \<Rightarrow> 'a prog" where
  "okp x \<equiv> Ret (Inr x)"

abbreviation failp :: "string \<Rightarrow> 'a prog" where
  "failp e \<equiv> Ret (Inl e)"

definition unavailable :: string where
  "unavailable = ''Original desktop owner is unavailable; refresh before continuing''"

definition ask_error :: "query \<Rightarrow> unit prog" where
  "ask_error q = Ask q (\<lambda>a. case a of AError None \<Rightarrow> okp () | AError (Some e) \<Rightarrow> failp e | _ \<Rightarrow> failp [])"

definition ask_text :: "query \<Rightarrow> string prog" where
  "ask_text q = Ask q (\<lambda>a. case a of AText r \<Rightarrow> Ret r | _ \<Rightarrow> failp [])"

definition ask_bool :: "query \<Rightarrow> bool prog" where
  "ask_bool q = Ask q (\<lambda>a. case a of ABool r \<Rightarrow> Ret r | AReady r \<Rightarrow> Ret r | AFlag b \<Rightarrow> okp b | _ \<Rightarrow> failp [])"

definition ask_generation :: "64 word prog" where
  "ask_generation = Ask QGeneration (\<lambda>a. case a of AGeneration g \<Rightarrow> okp g | _ \<Rightarrow> failp [])"

definition ask_runtime :: "query \<Rightarrow> page_runtime option prog" where
  "ask_runtime q = Ask q (\<lambda>a. case a of ARuntime r \<Rightarrow> Ret r | _ \<Rightarrow> failp [])"

definition ask_native :: "string \<Rightarrow> session_access prog" where
  "ask_native i = Ask (QNative i) (\<lambda>a. case a of AAccess r \<Rightarrow> Ret r | _ \<Rightarrow> failp [])"

definition ask_addr :: "query \<Rightarrow> addr option prog" where
  "ask_addr q = Ask q (\<lambda>a. case a of AAddr r \<Rightarrow> Ret r | _ \<Rightarrow> failp [])"

definition ask_entry :: "string \<Rightarrow> addr \<Rightarrow> entry_view prog" where
  "ask_entry i e = Ask (QEntry i e) (\<lambda>a. case a of AView v \<Rightarrow> okp v | _ \<Rightarrow> failp [])"

definition ask_state :: "addr \<Rightarrow> props prog" where
  "ask_state e = Ask (QSnapshot e) (\<lambda>a. case a of AState r \<Rightarrow> Ret r | _ \<Rightarrow> failp [])"

definition ask_current :: "string \<Rightarrow> (addr \<times> string \<times> bool \<times> int) option prog" where
  "ask_current i = Ask (QCurrent i) (\<lambda>a. case a of ACurrent r \<Rightarrow> okp r | _ \<Rightarrow> failp [])"

definition ask_models :: "model list prog" where
  "ask_models = Ask QModels (\<lambda>a. case a of AModels r \<Rightarrow> Ret r | _ \<Rightarrow> failp [])"

definition ask_reply :: "query \<Rightarrow> props prog" where
  "ask_reply q = Ask q (\<lambda>a. case a of AReply r \<Rightarrow> Ret r | _ \<Rightarrow> failp [])"

definition ask_receipt :: "query \<Rightarrow> (string \<times> string) prog" where
  "ask_receipt q = Ask q (\<lambda>a. case a of AReceipt r \<Rightarrow> Ret r | _ \<Rightarrow> failp [])"

text \<open>What is left of a program after a history, and the questions of a run over a list of answers.\<close>

fun after :: "'a prog \<Rightarrow> history \<Rightarrow> 'a prog option" where
  "after p [] = Some p"
| "after (Ask q k) ((q', a) # h) = (if q' = q \<and> answers q a then after (k a) h else None)"
| "after (Ret r) (x # h) = None"

fun run :: "'a prog \<Rightarrow> answer list \<Rightarrow> history \<times> 'a prog" where
  "run (Ret r) as = ([], Ret r)"
| "run (Ask q k) [] = ([], Ask q k)"
| "run (Ask q k) (a # as) = (let (h, p) = run (k a) as in ((q, a) # h, p))"

subsection \<open>Sealed identities\<close>

record access_config =
  cf_self :: nat
  cf_created :: bool
  cf_provenance :: bool
  cf_native :: bool
  cf_rebind :: bool
  cf_history :: bool
  cf_base :: bool
  cf_scope :: bool
  cf_bound :: bool
  cf_mac :: "string \<Rightarrow> string"

text \<open>
  The fields before \<open>cf_mac\<close> say which optional parts exist (\<open>cf_rebind\<close> is \<open>WithAccessBinding\<close>); a context
  without binding stands for an absent \<open>AccessBinding\<close>. \<open>cf_mac\<close> is the keyed hash under the random secret of the process. \<open>json.Marshal\<close> of a list of strings:
\<close>

definition strings_json :: "string list \<Rightarrow> string" where
  "strings_json ss = ''['' @ join '','' (map go_quote ss) @ '']''"

definition sealAccess :: "access_config \<Rightarrow> string list \<Rightarrow> string" where
  "sealAccess cf ss = b64_encode (map byte_of (cf_mac cf (strings_json ss)))"

definition sameBinding :: "string \<Rightarrow> string \<Rightarrow> bool" where
  "sameBinding expected actual \<longleftrightarrow> expected \<noteq> [] \<and> expected = actual"

definition sha256_bytes :: "string \<Rightarrow> nat list" where
  "sha256_bytes s = concat (map (\<lambda>w. be_bytes 4 (unat w)) (foldl sha_block sha_H (chunks 64 (sha_pad (map byte_of s)))))"

definition publicAccess :: "string \<Rightarrow> desktop_access \<Rightarrow> session_access" where
  "publicAccess i access =
     \<lparr>sa_NativeScopeID = da_scope access,
      sa_CanonicalSessionRef = b64_encode (sha256_bytes (strings_json [''codex'', da_scope access, i])),
      sa_Binding = da_binding access, sa_Capabilities = da_capabilities access\<rparr>"

definition scope_char :: "char \<Rightarrow> bool" where
  "scope_char c \<longleftrightarrow> CHR ''A'' \<le> c \<and> c \<le> CHR ''Z'' \<or> CHR ''a'' \<le> c \<and> c \<le> CHR ''z'' \<or> is_digit c \<or> c = CHR ''_'' \<or> c = CHR ''-''"

definition accessScopePattern :: "string \<Rightarrow> bool" where
  "accessScopePattern s \<longleftrightarrow> 1 \<le> length s \<and> length s \<le> 256 \<and> list_all scope_char s"

definition readCapabilities :: "access_config \<Rightarrow> capabilities" where
  "readCapabilities cf =
     \<lparr>cap_Create = False, cap_History = cf_history cf, cap_Live = False, cap_IdleSend = False, cap_ActiveSend = ''unsupported'',
      cap_Stop = False, cap_Settings = Some [], cap_Rename = cf_base cf, cap_Archive = cf_base cf, cap_Uploads = False,
      cap_Models = cf_base cf, cap_Usage = False, cap_LazyMessages = cf_history cf, cap_HistoryMode = ''bounded''\<rparr>"

definition no_access :: "access_config \<Rightarrow> desktop_access" where
  "no_access cf = \<lparr>da_binding = [], da_owner = [], da_native = [], da_scope = [], da_entry = None, da_connection = 0,
     da_capabilities = readCapabilities cf, da_recovery = False\<rparr>"

definition accessScope :: "access_config \<Rightarrow> string \<Rightarrow> string prog" where
  "accessScope cf i =
     bindp (ask_error QContext) (\<lambda>_.
     bindp (ask_bool QStopped) (\<lambda>halted.
       if halted \<or> \<not> cf_scope cf \<or> i = [] \<or> 512 < length i \<or> list_ex (\<lambda>c. byte_of c \<in> {47, 92, 0, 13, 10}) i then failp unavailable
       else bindp (ask_text QScope) (\<lambda>scope.
         if \<not> accessScopePattern scope then failp unavailable
         else bindp (ask_error QContext) (\<lambda>_. okp scope))))"

definition catalog_access :: "access_config \<Rightarrow> string \<Rightarrow> string \<Rightarrow> desktop_access" where
  "catalog_access cf scope i = (no_access cf)\<lparr>da_scope := scope, da_binding := sealAccess cf [''catalog'', scope, i]\<rparr>"

definition CatalogAccess :: "access_config \<Rightarrow> string \<Rightarrow> session_access prog" where
  "CatalogAccess cf i = bindp (accessScope cf i) (\<lambda>scope. okp (publicAccess i (catalog_access cf scope i)))"

subsection \<open>Resolving access\<close>

text \<open>\<open>created\<close>: whether the created scope may speak for a task the desktop does not own.\<close>

definition created :: "access_config \<Rightarrow> string \<Rightarrow> bool prog" where
  "created cf i =
     (if \<not> cf_created cf then okp False
      else bindp (ask_bool (QSeen i)) (\<lambda>known.
        if \<not> known then ask_bool (QOwns i)
        else if \<not> cf_provenance cf then okp False
        else bindp (ask_bool (QCreated i)) (\<lambda>mine. if mine then okp False else ask_bool (QOwns i))))"

text \<open>\<open>readState\<close> with its three ends: no entry, no snapshot yet, and an entry that must be released.\<close>

definition readState :: "string \<Rightarrow> string \<Rightarrow> addr option prog" where
  "readState i own =
     bindp (ask_error QContext) (\<lambda>_.
     bindp (ask_addr (QAcquire i own True)) (\<lambda>e.
       case e of
         None \<Rightarrow> okp None
       | Some a \<Rightarrow>
           continue (ask_bool (QWait a True)) (\<lambda>r.
             case r of
               Inr True \<Rightarrow> okp (Some a)
             | Inr False \<Rightarrow> bindp (ask_error (QRelease a)) (\<lambda>_. okp None)
             | Inl err \<Rightarrow> bindp (ask_error (QRelease a)) (\<lambda>_. failp err))))"

definition releasing :: "addr \<Rightarrow> 'a prog \<Rightarrow> 'a prog" where
  "releasing a p = continue p (\<lambda>r. bindp (ask_error (QRelease a)) (\<lambda>_. Ret r))"

definition known_text :: "opt_text \<Rightarrow> bool" where
  "known_text t \<longleftrightarrow> (\<exists>s \<in> set_option t. \<exists>x \<in> set_option s. x \<noteq> [])"

definition RecoverableRuntime :: "page_runtime option \<Rightarrow> bool" where
  "RecoverableRuntime r =
     (case r of
        None \<Rightarrow> False
      | Some rt \<Rightarrow> r_ActiveTurnID rt = None \<and> (r_Status rt = ''idle'' \<or> r_Status rt = ''notLoaded'' \<and> known_text (r_CompletedTurnID rt)))"

text \<open>\<open>json.Marshal\<close> of the runtime; an error leaves no text.\<close>

definition runtime_identity :: "page_runtime option \<Rightarrow> string" where
  "runtime_identity r =
     (case r of
        None \<Rightarrow> ''null''
      | Some rt \<Rightarrow> if finite_number (r_ContextTokens rt) \<and> finite_number (r_ContextWindow rt) then html_escape (runtime_json rt) else [])"

definition all_settings :: "string list" where
  "all_settings = [''model'', ''effort'', ''serviceTier'']"

definition recovery_access :: "access_config \<Rightarrow> string \<Rightarrow> page_runtime option \<Rightarrow> desktop_access \<Rightarrow> desktop_access" where
  "recovery_access cf i rt access =
     access\<lparr>da_binding := sealAccess cf [''idle-recovery'', i, da_binding access, runtime_identity rt], da_recovery := True,
       da_capabilities := (da_capabilities access)\<lparr>cap_IdleSend := True, cap_Uploads := True,
         cap_Settings := (if cf_base cf then Some all_settings else cap_Settings (da_capabilities access))\<rparr>\<rparr>"

definition idleRecoveryAccess :: "access_config \<Rightarrow> string \<Rightarrow> desktop_access \<Rightarrow> desktop_access prog" where
  "idleRecoveryAccess cf i access =
     (if \<not> (cf_created cf \<and> cf_provenance cf) \<or> \<not> cf_rebind cf \<or> \<not> cf_history cf then okp access
      else bindp (ask_runtime (QHistory i)) (\<lambda>rt.
        if \<not> RecoverableRuntime rt then okp access
        else bindp (ask_text (QOwner i)) (\<lambda>own.
          if own \<noteq> [] then failp unavailable
          else bindp (ask_error QContext) (\<lambda>_. okp (recovery_access cf i rt access)))))"

definition scoped_access :: "access_config \<Rightarrow> string \<Rightarrow> session_access \<Rightarrow> desktop_access \<Rightarrow> desktop_access" where
  "scoped_access cf i native access =
     (let caps = sa_Capabilities native
      in access\<lparr>da_scope := sa_NativeScopeID native, da_native := sa_Binding native,
           da_binding := sealAccess cf [''scope'', i, sa_Binding native],
           da_capabilities := (da_capabilities access)\<lparr>cap_Live := cap_Live caps, cap_IdleSend := cap_IdleSend caps,
             cap_ActiveSend := (if cap_ActiveSend caps \<noteq> [] then cap_ActiveSend caps else cap_ActiveSend (da_capabilities access)),
             cap_Stop := cap_Stop caps, cap_Settings := Some (case cap_Settings caps of None \<Rightarrow> [] | Some ss \<Rightarrow> ss),
             cap_Uploads := cap_Uploads caps\<rparr>\<rparr>)"

definition scopeAccess :: "access_config \<Rightarrow> string \<Rightarrow> desktop_access \<Rightarrow> desktop_access prog" where
  "scopeAccess cf i access =
     (let access = access\<lparr>da_binding := sealAccess cf [''history'', i]\<rparr>
      in bindp (created cf i) (\<lambda>owned.
        if \<not> owned then idleRecoveryAccess cf i access
        else if \<not> cf_native cf \<or> \<not> cf_rebind cf then okp access
        else bindp (ask_native i) (\<lambda>native.
          if sa_Binding native = [] then failp unavailable
          else bindp (ask_error (QNativeValidate i (sa_Binding native))) (\<lambda>_.
          bindp (ask_text (QOwner i)) (\<lambda>own.
            if own \<noteq> [] then failp unavailable
            else if cap_ActiveSend (sa_Capabilities native) \<notin> {[], ''unsupported'', ''native-steer''} then failp unavailable
            else
              let access = scoped_access cf i native access
              in if \<not> cap_Live (sa_Capabilities native) \<and> \<not> cap_IdleSend (sa_Capabilities native)
                 then idleRecoveryAccess cf i access else okp access)))))"

definition desktop_binding :: "access_config \<Rightarrow> string \<Rightarrow> string \<Rightarrow> entry_view \<Rightarrow> string" where
  "desktop_binding cf i own v =
     sealAccess cf [''desktop'', i, own, FormatUint (unat (ev_generation v)), FormatUint (unat (ev_epoch v)), FormatUint (unat (ev_connection v))]"

text \<open>The capabilities of a confirmed desktop owner.\<close>

definition desktop_capabilities :: "access_config \<Rightarrow> props \<Rightarrow> capabilities \<Rightarrow> capabilities" where
  "desktop_capabilities cf state caps =
     (let st = DesktopStatus (GMap state)
      in case ss_Status st of
           None \<Rightarrow> caps
         | Some name \<Rightarrow>
             let idle = (name = ''idle'' \<and> ss_ActiveTurnID st = None);
                 running = (name = ''active'' \<and> ss_ActiveTurnID st \<noteq> None \<and> ss_ActiveTurnID st \<noteq> Some [])
             in if idle \<or> running then
                  caps\<lparr>cap_IdleSend := idle, cap_ActiveSend := (if running then ''native-steer'' else cap_ActiveSend caps),
                    cap_Stop := (if running then True else cap_Stop caps),
                    cap_Settings := (if cf_base cf then Some all_settings else cap_Settings caps), cap_Uploads := True\<rparr>
                else caps)"

definition entryAccess :: "access_config \<Rightarrow> string \<Rightarrow> string \<Rightarrow> addr \<Rightarrow> desktop_access \<Rightarrow> desktop_access prog" where
  "entryAccess cf i own e access =
     bindp (ask_entry i e) (\<lambda>v.
       if \<not> ev_live v then failp unavailable
       else case ev_state v of
         None \<Rightarrow> failp unavailable
       | Some state \<Rightarrow>
         let caps = (da_capabilities access)\<lparr>cap_Live := True\<rparr>;
             access = access\<lparr>da_entry := Some e, da_connection := ev_connection v, da_capabilities := caps,
               da_binding := desktop_binding cf i own v\<rparr>
         in if \<not> cf_bound cf \<or> ev_connection v = 0 then okp access
            else bindp ask_generation (\<lambda>g.
              if g \<noteq> ev_connection v then okp access
              else okp (access\<lparr>da_capabilities := desktop_capabilities cf state caps\<rparr>)))"

definition resolveAccess :: "access_config \<Rightarrow> string \<Rightarrow> desktop_access prog" where
  "resolveAccess cf i =
     bindp (ask_text (QOwner i)) (\<lambda>own.
       let access = (no_access cf)\<lparr>da_owner := own\<rparr>
       in if own = [] then scopeAccess cf i access
          else bindp (readState i own) (\<lambda>e.
            case e of
              None \<Rightarrow> okp (access\<lparr>da_binding := sealAccess cf [''unconfirmed'', i, own]\<rparr>)
            | Some a \<Rightarrow> releasing a (entryAccess cf i own a access)))"

definition currentAccess :: "access_config \<Rightarrow> string \<Rightarrow> desktop_access prog" where
  "currentAccess cf i =
     bindp (accessScope cf i) (\<lambda>scope.
     bindp (resolveAccess cf i) (\<lambda>access.
     bindp (accessScope cf i) (\<lambda>confirmed.
       if confirmed \<noteq> scope \<or> da_scope access \<noteq> [] \<and> da_scope access \<noteq> scope then failp unavailable
       else okp (access\<lparr>da_scope := scope, da_binding := sealAccess cf [''verified'', scope, i, da_binding access]\<rparr>))))"

definition Access :: "access_config \<Rightarrow> string \<Rightarrow> session_access prog" where
  "Access cf i = bindp (currentAccess cf i) (\<lambda>access. okp (publicAccess i access))"

definition ValidateAccess :: "access_config \<Rightarrow> string \<Rightarrow> string \<Rightarrow> unit prog" where
  "ValidateAccess cf i binding =
     continue (CatalogAccess cf i) (\<lambda>r.
       if (case r of Inl _ \<Rightarrow> False | Inr catalog \<Rightarrow> sameBinding binding (sa_Binding catalog)) then ask_error QFence
       else bindp (currentAccess cf i) (\<lambda>access. if sameBinding binding (da_binding access) then okp () else failp unavailable))"

subsection \<open>Admission\<close>

definition WithIdleRecovery :: "string \<Rightarrow> ctx \<Rightarrow> ctx" where
  "WithIdleRecovery i c = c\<lparr>cx_recovery := i\<rparr>"

definition IdleRecoveryAllowed :: "ctx \<Rightarrow> string \<Rightarrow> bool" where
  "IdleRecoveryAllowed c i \<longleftrightarrow> i \<noteq> [] \<and> cx_recovery c = i"

definition admitAccess :: "access_config \<Rightarrow> ctx \<Rightarrow> string \<Rightarrow> ctx prog" where
  "admitAccess cf c i =
     (if cx_binding c = [] then okp c
      else case cx_admission c of
        Some ad \<Rightarrow>
          if ad_sessions ad \<noteq> cf_self cf \<or> ad_id ad \<noteq> i \<or> \<not> sameBinding (cx_binding c) (da_binding (ad_access ad))
          then failp unavailable else okp c
      | None \<Rightarrow>
          bindp (currentAccess cf i) (\<lambda>access.
            if \<not> sameBinding (cx_binding c) (da_binding access) then failp unavailable
            else okp (c\<lparr>cx_admission := Some \<lparr>ad_sessions = cf_self cf, ad_id = i, ad_access = access\<rparr>\<rparr>)))"

definition admission_of :: "access_config \<Rightarrow> ctx \<Rightarrow> string \<Rightarrow> admission option prog" where
  "admission_of cf c i =
     (case cx_admission c of
        None \<Rightarrow> okp None
      | Some ad \<Rightarrow> if ad_sessions ad \<noteq> cf_self cf \<or> ad_id ad \<noteq> i then failp unavailable else okp (Some ad))"

definition scopedDestination :: "access_config \<Rightarrow> ctx \<Rightarrow> string \<Rightarrow> string option prog" where
  "scopedDestination cf c i =
     bindp (admission_of cf c i) (\<lambda>ad.
       case ad of
         None \<Rightarrow> okp None
       | Some ad \<Rightarrow>
           let access = ad_access ad
           in bindp (ValidateAccess cf i (da_binding access)) (\<lambda>_.
             if da_owner access = [] \<and> da_native access = [] \<and> \<not> da_recovery access then failp unavailable
             else okp (Some (da_owner access))))"

definition operation_allowed :: "string \<Rightarrow> capabilities \<Rightarrow> bool" where
  "operation_allowed operation caps \<longleftrightarrow>
     operation = ''send'' \<and> (cap_IdleSend caps \<or> cap_ActiveSend caps = ''native-steer'') \<or>
     operation = ''stop'' \<and> cap_Stop caps \<or>
     operation = ''settings'' \<and> (case cap_Settings caps of None \<Rightarrow> False | Some ss \<Rightarrow> ss \<noteq> [])"

definition scopedMutationContext :: "access_config \<Rightarrow> ctx \<Rightarrow> string \<Rightarrow> string \<Rightarrow> ctx prog" where
  "scopedMutationContext cf c i operation =
     bindp (admission_of cf c i) (\<lambda>ad.
       case ad of
         None \<Rightarrow> okp c
       | Some ad \<Rightarrow>
           let access = ad_access ad
           in if \<not> operation_allowed operation (da_capabilities access) then failp unavailable
              else if da_owner access \<noteq> [] then bindp (ask_error QContext) (\<lambda>_. okp c)
              else bindp (ValidateAccess cf i (da_binding access)) (\<lambda>_.
                let c' = (if da_recovery access then WithIdleRecovery i (c\<lparr>cx_binding := []\<rparr>) else c\<lparr>cx_binding := da_native access\<rparr>)
                in bindp (ask_error QContext) (\<lambda>_. okp c')))"

definition scopedSettings :: "access_config \<Rightarrow> ctx \<Rightarrow> string \<Rightarrow> settings_patch \<Rightarrow> unit prog" where
  "scopedSettings cf c i patch =
     bindp (admission_of cf c i) (\<lambda>ad.
       case ad of
         None \<Rightarrow> okp ()
       | Some ad \<Rightarrow>
           let allowed = (case cap_Settings (da_capabilities (ad_access ad)) of None \<Rightarrow> [] | Some ss \<Rightarrow> ss)
           in if p_Model patch \<noteq> None \<and> ''model'' \<notin> set allowed \<or> p_Effort patch \<noteq> None \<and> ''effort'' \<notin> set allowed \<or>
                 p_ServiceTier patch \<noteq> None \<and> ''serviceTier'' \<notin> set allowed
              then failp unavailable else okp ())"

definition requestOperation :: "access_config \<Rightarrow> ctx \<Rightarrow> string \<Rightarrow> string \<Rightarrow> string \<Rightarrow> int \<Rightarrow> props \<Rightarrow> props prog" where
  "requestOperation cf c i own name num params =
     bindp (admission_of cf c i) (\<lambda>ad.
       case ad of
         None \<Rightarrow> ask_reply (QRequest own name num params)
       | Some ad \<Rightarrow>
           let access = ad_access ad
           in if \<not> cf_bound cf \<or> da_owner access \<noteq> own then failp unavailable
              else case da_entry access of
                None \<Rightarrow> failp unavailable
              | Some e \<Rightarrow>
                  if da_connection access = 0 then failp unavailable
                  else bindp ask_generation (\<lambda>g.
                    if g \<noteq> da_connection access then failp unavailable
                    else bindp (accessScope cf i) (\<lambda>scope.
                      if scope \<noteq> da_scope access then failp unavailable
                      else bindp (ask_entry i e) (\<lambda>v.
                        if \<not> (ev_live v \<and> ev_owner v = own \<and>
                              sameBinding (da_binding access) (sealAccess cf [''verified'', scope, i, desktop_binding cf i own v]))
                        then failp unavailable
                        else bindp (ask_error QContext) (\<lambda>_. ask_reply (QBound (da_connection access) own name num params))))))"

subsection \<open>Destinations\<close>

definition destination :: "access_config \<Rightarrow> ctx \<Rightarrow> string \<Rightarrow> string prog" where
  "destination cf c i =
     bindp (scopedDestination cf c i) (\<lambda>scoped.
       case scoped of
         Some own \<Rightarrow> okp own
       | None \<Rightarrow>
           bindp (ask_text (QOwner i)) (\<lambda>own.
             if own \<noteq> [] then okp own
             else bindp (created cf i) (\<lambda>mine.
               if \<not> mine then failp unavailable
               else bindp (ask_text (QOwner i)) (\<lambda>confirmed. if confirmed \<noteq> [] then failp unavailable else okp []))))"

definition recovery_context :: "access_config \<Rightarrow> ctx \<Rightarrow> string \<Rightarrow> bool \<Rightarrow> ctx prog" where
  "recovery_context cf c i mine =
     (if mine \<and> \<not> cf_provenance cf then okp c
      else if \<not> cf_created cf \<or> \<not> cf_history cf then failp unavailable
      else bindp (if \<not> mine \<and> cf_provenance cf then ask_bool (QOwns i) else okp mine) (\<lambda>owned.
        bindp (ask_runtime (if owned then QCreatedRead i else QHistory i)) (\<lambda>rt.
          if owned \<and> (case rt of None \<Rightarrow> False | Some r \<Rightarrow> r_Status r = ''active'' \<and> r_ActiveTurnID r \<noteq> None \<and> r_ActiveTurnID r \<noteq> Some [])
          then okp c
          else if \<not> RecoverableRuntime rt then failp unavailable
          else okp (WithIdleRecovery i c))))"

definition mutationDestination :: "access_config \<Rightarrow> ctx \<Rightarrow> string \<Rightarrow> (string \<times> ctx) prog" where
  "mutationDestination cf c i =
     bindp (admitAccess cf c i) (\<lambda>c.
     bindp (scopedDestination cf c i) (\<lambda>scoped.
       case scoped of
         Some own \<Rightarrow> okp (own, c)
       | None \<Rightarrow>
           bindp (ask_text (QOwner i)) (\<lambda>own.
             if own \<noteq> [] then okp (own, c)
             else bindp (if \<not> cf_created cf then okp False else if cf_provenance cf then ask_bool (QCreated i) else created cf i) (\<lambda>mine.
               bindp (recovery_context cf c i mine) (\<lambda>c.
               bindp (ask_text (QOwner i)) (\<lambda>own.
                 if own \<noteq> [] then failp unavailable
                 else bindp (ask_error QContext) (\<lambda>_. okp ([], c))))))))"

subsection \<open>Control\<close>

definition controlState :: "string \<Rightarrow> string \<Rightarrow> props prog" where
  "controlState i own =
     bindp (ask_error QContext) (\<lambda>_.
     bindp (ask_addr (QAcquire i own False)) (\<lambda>e.
       case e of
         None \<Rightarrow> failp unavailable
       | Some a \<Rightarrow> bindp (ask_bool (QWait a False)) (\<lambda>ready. if ready then ask_state a else failp unavailable)))"

definition unconfirmed :: string where
  "unconfirmed = ''Native desktop operation outcome is unconfirmed''"

text \<open>The result of a native operation, from the response of the owner.\<close>

definition operation_result :: "string \<Rightarrow> props \<Rightarrow> string + gval" where
  "operation_result own reply =
     (if Text (field reply ''resultType'') \<noteq> ''success'' \<or> Text (field reply ''handledByClientId'') \<noteq> own
      then Inl (let m = Text (field reply ''error'') in if m = [] then unconfirmed else m)
      else Inr (field reply ''result''))"

definition native_operation :: "access_config \<Rightarrow> ctx \<Rightarrow> string \<Rightarrow> string \<Rightarrow> string \<Rightarrow> int \<Rightarrow> props \<Rightarrow> gval prog" where
  "native_operation cf c i own name num params =
     bindp (ask_text (QOwner i)) (\<lambda>current.
       if current \<noteq> own then failp unavailable
       else bindp (requestOperation cf c i own name num ((''conversationId'', GStr i) # params)) (\<lambda>reply.
         Ret (operation_result own reply)))"

definition desktopInput :: "string \<Rightarrow> gval" where
  "desktopInput t = GArr [GMap [(''type'', GStr ''text''), (''text'', GStr t), (''text_elements'', GArr [])]]"

definition jsTruthy :: "gval \<Rightarrow> bool" where
  "jsTruthy v =
     (case v of
        GNil \<Rightarrow> False
      | GBool b \<Rightarrow> b
      | GNum n \<Rightarrow> (case n of Fin x \<Rightarrow> x \<noteq> 0 | NaN \<Rightarrow> False | _ \<Rightarrow> True)
      | GStr s \<Rightarrow> s \<noteq> []
      | _ \<Rightarrow> True)"

definition steer_params :: "string \<Rightarrow> string \<Rightarrow> gval \<Rightarrow> props" where
  "steer_params t clientID cwd =
     [(''input'', desktopInput t), (''clientUserMessageId'', GStr clientID), (''attachments'', GArr []),
      (''restoreMessage'', GMap [(''id'', GStr clientID), (''text'', GStr t), (''cwd'', cwd),
         (''context'', GMap [(''commentAttachments'', GArr []), (''workspaceRoots'', GArr [cwd])])])]"

definition start_params :: "string \<Rightarrow> string \<Rightarrow> string \<Rightarrow> props" where
  "start_params i t clientID =
     [(''turnStart'', GMap
        [(''request'', GMap [(''threadId'', GStr i), (''input'', desktopInput t), (''clientUserMessageId'', GStr clientID)]),
         (''context'', GMap [(''inheritThreadSettings'', GBool True)])])]"

definition project_text :: "project_error \<Rightarrow> string" where
  "project_text e = (case e of InvalidDesktopState \<Rightarrow> ''Invalid desktop state'' | UnsupportedItems \<Rightarrow> ''Unsupported desktop item representation'')"

definition turn_receipt :: "string \<Rightarrow> gval \<Rightarrow> string \<Rightarrow> string + (string \<times> string)" where
  "turn_receipt clientID turn err = (case AsText turn of None \<Rightarrow> Inl err | Some t \<Rightarrow> Inr (t, clientID))"

definition missing_scope :: string where
  "missing_scope = ''Filo created-task scope is unavailable''"

text \<open>The half of \<open>Send\<close> that talks to the desktop owner.\<close>

definition send_desktop :: "access_config \<Rightarrow> ctx \<Rightarrow> string \<Rightarrow> string \<Rightarrow> string \<Rightarrow> string \<Rightarrow> (string \<times> string) prog" where
  "send_desktop cf c i own t clientID =
     bindp (controlState i own) (\<lambda>state.
       case ProjectDesktop (GMap state) False (Fin 128) of
         Inl e \<Rightarrow> failp (project_text e)
       | Inr pg \<Rightarrow>
           let rt = g_Runtime pg
           in if r_Status rt = ''active'' \<and> r_ActiveTurnID rt \<noteq> None \<and> r_ActiveTurnID rt \<noteq> Some [] then
                bindp (native_operation cf c i own ''thread-follower-steer-turn'' 1 (steer_params t clientID (field state ''cwd''))) (\<lambda>r.
                  Ret (turn_receipt clientID (field (fields_of (field (fields_of r) ''result'')) ''turnId'') ''Unknown native steer outcome''))
              else if r_Status rt \<noteq> ''idle'' then failp unavailable
              else
                bindp (native_operation cf c i own ''thread-follower-start-turn'' 2 (start_params i t clientID)) (\<lambda>r.
                  Ret (turn_receipt clientID (field (fields_of (field (fields_of (field (fields_of r) ''result'')) ''turn'')) ''id'')
                    ''Unknown native start outcome'')))"

definition Send :: "access_config \<Rightarrow> ctx \<Rightarrow> string \<Rightarrow> string \<Rightarrow> string \<Rightarrow> (string \<times> string) prog" where
  "Send cf c i t clientID =
     bindp (mutationDestination cf c i) (\<lambda>(own, c).
     bindp (scopedMutationContext cf c i ''send'') (\<lambda>c.
       if own = [] then
         if \<not> cf_created cf then failp missing_scope else ask_receipt (QCreatedSend c i t clientID)
       else send_desktop cf c i own t clientID))"

definition stop_desktop :: "access_config \<Rightarrow> ctx \<Rightarrow> string \<Rightarrow> string \<Rightarrow> string \<Rightarrow> unit prog" where
  "stop_desktop cf c i own turn =
     bindp (controlState i own) (\<lambda>state.
       case ProjectDesktop (GMap state) False (Fin 128) of
         Inl e \<Rightarrow> failp (project_text e)
       | Inr pg \<Rightarrow>
           if r_ActiveTurnID (g_Runtime pg) \<noteq> Some turn then failp unavailable
           else bindp (native_operation cf c i own ''thread-follower-interrupt-turn'' 4
               [(''mode'', GStr ''user-stop''), (''expectedTurnId'', GStr turn)]) (\<lambda>r.
             if Text (field (fields_of r) ''interruptedTurnId'') \<noteq> turn \<or> jsTruthy (field (fields_of r) ''goalPauseError'')
             then failp ''Native stop was not fully confirmed'' else okp ()))"

definition Stop :: "access_config \<Rightarrow> ctx \<Rightarrow> string \<Rightarrow> string \<Rightarrow> unit prog" where
  "Stop cf c i turn =
     bindp (admitAccess cf c i) (\<lambda>c.
     bindp (destination cf c i) (\<lambda>own.
     bindp (scopedMutationContext cf c i ''stop'') (\<lambda>c.
       if own = [] then
         if \<not> cf_created cf then failp missing_scope else ask_error (QCreatedStop c i turn)
       else stop_desktop cf c i own turn)))"

definition settings_text :: "settings_error \<Rightarrow> string" where
  "settings_text e =
     (case e of
        SettingsShape \<Rightarrow> ''Expected model, effort or serviceTier settings''
      | ModelUnavailable \<Rightarrow> ''Model is unavailable''
      | EffortUnavailable \<Rightarrow> ''Thinking level is unavailable for this model''
      | TierUnavailable \<Rightarrow> ''Service tier is unavailable for this model'')"

definition missing_catalog :: string where
  "missing_catalog = ''Filo session catalog is unavailable''"

definition Models :: "access_config \<Rightarrow> model list prog" where
  "Models cf = (if \<not> cf_base cf then failp missing_catalog else ask_models)"

definition settings_unconfirmed :: string where
  "settings_unconfirmed = ''Native settings outcome is unconfirmed''"

text \<open>The half of \<open>UpdateSettings\<close> that talks to the desktop owner; \<open>QConfirm\<close> is \<open>waitSettings\<close>.\<close>

definition update_desktop :: "access_config \<Rightarrow> ctx \<Rightarrow> string \<Rightarrow> string \<Rightarrow> settings_patch \<Rightarrow> unit prog" where
  "update_desktop cf c i own patch =
     bindp (controlState i own) (\<lambda>state.
     bindp (Models cf) (\<lambda>catalog.
       let latest = Text (field state ''latestModel'')
       in case ValidateSettings patch catalog (if latest = [] then None else Some latest) of
            Some e \<Rightarrow> failp (settings_text e)
          | None \<Rightarrow>
              bindp (ask_current i) (\<lambda>cur.
                case cur of
                  None \<Rightarrow> failp unavailable
                | Some (e, entry_owner, bad, rv) \<Rightarrow>
                    if entry_owner \<noteq> own \<or> bad then failp unavailable
                    else bindp (native_operation cf c i own ''thread-follower-update-thread-settings'' 2
                        [(''threadSettings'', GMap (settings_fields patch))]) (\<lambda>r.
                      if field (fields_of r) ''applied'' \<noteq> GBool True then failp settings_unconfirmed
                      else ask_error (QConfirm e rv patch)))))"

definition UpdateSettings :: "access_config \<Rightarrow> ctx \<Rightarrow> string \<Rightarrow> settings_patch \<Rightarrow> unit prog" where
  "UpdateSettings cf c i patch =
     bindp (mutationDestination cf c i) (\<lambda>(own, c).
     bindp (scopedMutationContext cf c i ''settings'') (\<lambda>c.
     bindp (scopedSettings cf c i patch) (\<lambda>_.
       if own = [] then
         if \<not> cf_created cf then failp missing_scope else ask_error (QCreatedUpdate c i patch)
       else update_desktop cf c i own patch)))"

definition SetModel :: "access_config \<Rightarrow> ctx \<Rightarrow> string \<Rightarrow> string \<Rightarrow> unit prog" where
  "SetModel cf c i name = UpdateSettings cf c i \<lparr>p_Model = Some name, p_Effort = None, p_ServiceTier = None\<rparr>"

subsection \<open>Catalog operations\<close>

definition validateMetadataAccess :: "access_config \<Rightarrow> ctx \<Rightarrow> string \<Rightarrow> unit prog" where
  "validateMetadataAccess cf c i =
     bindp (ask_error QFence) (\<lambda>_. if cx_binding c \<noteq> [] then ValidateAccess cf i (cx_binding c) else ask_error QContext)"

definition Rename :: "access_config \<Rightarrow> ctx \<Rightarrow> string \<Rightarrow> string \<Rightarrow> unit prog" where
  "Rename cf c i name =
     bindp (validateMetadataAccess cf c i) (\<lambda>_. if \<not> cf_base cf then failp missing_catalog else ask_error (QRename i name))"

definition Archive :: "access_config \<Rightarrow> ctx \<Rightarrow> string \<Rightarrow> string prog" where
  "Archive cf c i =
     bindp (ask_bool QStopped) (\<lambda>halted.
       if halted then failp unavailable
       else bindp (ask_error QConnect) (\<lambda>_.
         bindp (ask_bool QStopped) (\<lambda>halted.
           if halted then failp unavailable
           else if \<not> cf_base cf then failp missing_catalog
           else bindp (validateMetadataAccess cf c i) (\<lambda>_.
             bindp (ask_text (QArchive i)) (\<lambda>cwd.
             bindp (ask_error (QBroadcast ''thread-archived''
                 [(''hostId'', GStr ''local''), (''conversationId'', GStr i), (''cwd'', GStr cwd)])) (\<lambda>_.
             bindp (ask_error (QForget i)) (\<lambda>_. okp cwd)))))))"

end
