(* ===== verification/AccessCorrect.thy ===== *)
theory AccessCorrect
  imports Access PagesCorrect
begin

text \<open>
  What access and control promise: a handler dispatches at most one mutation, only to a destination it has just
  confirmed; a scoped request goes out over the bound path only, while the admitted entry, its generation, its
  epoch and its connection are unchanged. Bindings are told apart by a keyed hash, which may have collisions: the
  properties hold for every run in which none of the identities it sealed collide (\<open>apart\<close>).
\<close>

subsection \<open>Sealed identities\<close>

text \<open>Quoted text ends at the first quote that no backslash precedes.\<close>

fun closed_text :: "string \<Rightarrow> bool" where
  "closed_text [] = True"
| "closed_text (c # s) =
     (if c = CHR 0x22 then False
      else if c = CHR 0x5C then (case s of [] \<Rightarrow> False | d # r \<Rightarrow> closed_text r)
      else closed_text s)"

lemma closed_append: "closed_text a \<Longrightarrow> closed_text (a @ b) = closed_text b"
proof (induction a rule: closed_text.induct)
  case (2 c s)
  then show ?case by (cases s) (simp_all split: if_splits)
qed simp

lemma closed_unique:
  assumes "closed_text a" "closed_text b" "a @ CHR 0x22 # r = b @ CHR 0x22 # r'"
  shows "a = b \<and> r = r'"
  using assms
proof (induction a arbitrary: b rule: closed_text.induct)
  case 1
  then show ?case by (cases b) auto
next
  case (2 c s)
  from "2.prems"(1,3) obtain b' where b: "b = c # b'" by (cases b) auto
  show ?case
  proof (cases "c = CHR 0x5C")
    case True
    with "2.prems"(1) obtain d s' where s: "s = d # s'" "closed_text s'" by (cases s) auto
    from "2.prems"(2) b True obtain d' b'' where b': "b' = d' # b''" "closed_text b''" by (cases b') auto
    have "d = d'" "s' @ CHR 0x22 # r = b'' @ CHR 0x22 # r'" using "2.prems"(3) b s b' by simp_all
    then show ?thesis using "2.IH"(1) [of d s' b''] True s b b' by simp
  next
    case False
    then show ?thesis using 2 b by (auto split: if_splits)
  qed
qed

lemma hex_char_plain: "d < 16 \<Longrightarrow> hex_char d \<noteq> CHR 0x22 \<and> hex_char d \<noteq> CHR 0x5C"
proof -
  assume "d < 16"
  then have "byte_of (hex_char d) \<noteq> 34" "byte_of (hex_char d) \<noteq> 92" by (simp_all add: hex_char_def)
  then show ?thesis by auto
qed

lemma closed_u_escape: "closed_text (u_escape u)"
  by (simp add: u_escape_def hex_char_plain)

lemma closed_plain: "(\<And>c. c \<in> set s \<Longrightarrow> c \<noteq> CHR 0x22 \<and> c \<noteq> CHR 0x5C) \<Longrightarrow> closed_text s"
  by (induction s) auto

lemma decode_bytes_high:
  assumes "DecodeRune (a # s) = (r, n)" "128 \<le> byte_of a" "\<not> (r = RuneError \<and> n = 1)"
  shows "\<forall>c \<in> set (take n (a # s)). 128 \<le> byte_of c"
proof -
  have high: "128 \<le> byte_of c" if "cont_byte c \<or> second_ok p c" for c p
    using that by (auto simp: cont_byte_def second_ok_def split: if_splits)
  consider (two) b t where "s = b # t" "cont_byte b" "n = 2" | (three) b c t where "s = b # c # t" "second_ok (byte_of a) b" "cont_byte c" "n = 3"
    | (four) b c d t where "s = b # c # d # t" "second_ok (byte_of a) b" "cont_byte c" "cont_byte d" "n = 4"
    using assms by (auto simp: Let_def split: if_splits list.splits)
  then show ?thesis
    using assms(2) high by cases (auto simp: numeral_2_eq_2 numeral_3_eq_3 eval_nat_numeral)
qed

lemma closed_escape:
  assumes "DecodeRune s = (r, n)" "s \<noteq> []"
  shows "closed_text (go_escape r n s)"
proof -
  obtain a t where s: "s = a # t" using assms(2) by (cases s) auto
  show ?thesis
  proof (cases "byte_of a < 128")
    case True
    then have rn: "r = byte_of a" "n = 1" using assms(1) s by (simp_all add: Let_def)
    show ?thesis
    proof (cases "r = 34 \<or> r = 92")
      case True
      then show ?thesis by (simp add: go_escape_def rn s)
    next
      case False
      then have "a \<noteq> CHR 0x22" "a \<noteq> CHR 0x5C" using rn by auto
      then show ?thesis using False closed_u_escape by (simp add: go_escape_def rn s)
    qed
  next
    case False
    have plain: "c \<noteq> CHR 0x22 \<and> c \<noteq> CHR 0x5C" if "\<not> (r = RuneError \<and> n = 1)" "c \<in> set (take n s)" for c
    proof -
      have "128 \<le> byte_of c" using decode_bytes_high [OF assms(1) [unfolded s] _ that(1)] that(2) False by (simp add: s)
      then show ?thesis by auto
    qed
    then have whole: "closed_text (take n s)" if "\<not> (r = RuneError \<and> n = 1)" using that by (intro closed_plain) blast
    have "closed_text (CHR 0x5C # take n s)" if "r = 34 \<or> r = 92"
    proof -
      have n: "0 < n" "\<not> (r = RuneError \<and> n = 1)" using DecodeRune_size_pos [OF assms(2)] assms(1) that by (auto simp: RuneError_def)
      then have "take n s = a # take (n - 1) t" by (cases n) (simp_all add: s)
      moreover have "closed_text (take (n - 1) t)" using plain [OF n(2)] calculation by (intro closed_plain) simp
      ultimately show ?thesis by simp
    qed
    then show ?thesis using whole closed_u_escape by (simp add: go_escape_def)
  qed
qed

lemma closed_quote_body: "closed_text (go_quote_body s)"
proof (induction s rule: go_quote_body.induct)
  case (1 s)
  show ?case
  proof (cases "s = []")
    case True
    then show ?thesis by (simp add: go_quote_body.simps)
  next
    case False
    obtain r n where d: "DecodeRune s = (r, n)" by (cases "DecodeRune s")
    have "closed_text (go_quote_body (drop n s))" by (rule "1.IH" [OF False d [symmetric] refl])
    then show ?thesis using closed_escape [OF d False] by (simp add: go_quote_body.simps [of s] False d closed_append)
  qed
qed

lemma quoted_unique:
  assumes "go_quote s @ r = go_quote t @ r'"
  shows "go_quote s = go_quote t \<and> r = r'"
  using closed_unique [OF closed_quote_body closed_quote_body, of s r t r'] assms by (simp add: go_quote_def)

lemma joined_unique: "join '','' (map go_quote ss) @ '']'' = join '','' (map go_quote ts) @ '']'' \<Longrightarrow> map go_quote ss = map go_quote ts"
proof (induction ss arbitrary: ts)
  case Nil
  then show ?case by (cases ts; cases "tl ts") (auto simp: go_quote_def)
next
  case (Cons s ss)
  obtain t ts' where ts: "ts = t # ts'" using Cons.prems by (cases ts) (cases ss; auto simp: go_quote_def)+
  have split: "join '','' (map go_quote (u # us)) @ '']'' = go_quote u @ (if us = [] then '']'' else '','' @ join '','' (map go_quote us) @ '']'')" for u us
    by (cases us) simp_all
  from Cons.prems [unfolded ts split]
  have tail: "go_quote s = go_quote t" "(if ss = [] then '']'' else '','' @ join '','' (map go_quote ss) @ '']'') =
      (if ts' = [] then '']'' else '','' @ join '','' (map go_quote ts') @ '']'')"
    using quoted_unique by blast+
  then have "map go_quote ss = map go_quote ts'"
    using Cons.IH [of ts'] by (auto split: if_splits)
  then show ?case by (simp add: ts tail(1))
qed

text \<open>No two of these lists have the same hash and different texts.\<close>

definition apart :: "access_config \<Rightarrow> string list set \<Rightarrow> bool" where
  "apart cf T \<longleftrightarrow>
     (\<forall>ss \<in> T. \<forall>ts \<in> T. cf_mac cf (strings_json ss) = cf_mac cf (strings_json ts) \<longrightarrow> strings_json ss = strings_json ts)"

lemma apart_mono: "apart cf T \<Longrightarrow> S \<subseteq> T \<Longrightarrow> apart cf S"
  unfolding apart_def by blast

lemma apart_inj: "inj (cf_mac cf) \<Longrightarrow> apart cf T"
  by (simp add: apart_def inj_eq)

lemma sealed_unique:
  assumes "apart cf T" "ss \<in> T" "ts \<in> T" "sealAccess cf ss = sealAccess cf ts"
  shows "map go_quote ss = map go_quote ts"
proof -
  have "cf_mac cf (strings_json ss) = cf_mac cf (strings_json ts)"
    using arg_cong [OF assms(4), of decodeBase64URL] by (simp add: sealAccess_def decode_encode)
  then have "strings_json ss = strings_json ts" using assms(1-3) unfolding apart_def by blast
  then show ?thesis by (intro joined_unique) (simp add: strings_json_def)
qed

subsection \<open>A logic of programs\<close>

text \<open>
  \<open>safe P Q h p\<close>: run from history \<open>h\<close>, the program only asks what \<open>P\<close> permits at the history of that
  moment, whatever the answers are, and a result it returns satisfies \<open>Q\<close> at its history.
\<close>

primrec safe :: "(history \<Rightarrow> query \<Rightarrow> bool) \<Rightarrow> (history \<Rightarrow> string + 'a \<Rightarrow> bool) \<Rightarrow> history \<Rightarrow> 'a prog \<Rightarrow> bool" where
  "safe P Q h (Ret r) = Q h r"
| "safe P Q h (Ask q k) = (P h q \<and> (\<forall>a. answers q a \<longrightarrow> safe P Q (h @ [(q, a)]) (k a)))"

lemma safe_continue: "safe P Q h (continue p f) = safe P (\<lambda>h r. safe P Q h (f r)) h p"
  by (induction p arbitrary: h) simp_all

lemma safe_bindp: "safe P Q h (bindp p f) = safe P (\<lambda>h r. case r of Inl e \<Rightarrow> Q h (Inl e) | Inr x \<Rightarrow> safe P Q h (f x)) h p"
proof -
  have eq: "safe P Q h (case r of Inl e \<Rightarrow> Ret (Inl e) | Inr x \<Rightarrow> f x) = (case r of Inl e \<Rightarrow> Q h (Inl e) | Inr x \<Rightarrow> safe P Q h (f x))" for h r
    by (cases r) simp_all
  show ?thesis unfolding bindp_def safe_continue eq ..
qed

lemma safe_mono: "safe P Q h p \<Longrightarrow> (\<And>h q. P h q \<Longrightarrow> P' h q) \<Longrightarrow> (\<And>h r. Q h r \<Longrightarrow> Q' h r) \<Longrightarrow> safe P' Q' h p"
  by (induction p arbitrary: h) auto

lemma safe_after: "after p t = Some p' \<Longrightarrow> safe P Q h p \<Longrightarrow> safe P Q (h @ t) p'"
proof (induction p t arbitrary: h rule: after.induct)
  case (2 q k q' a t)
  then have "safe P Q (h @ [(q, a)]) (k a)" "after (k a) t = Some p'" "q' = q" by (auto split: if_splits)
  then show ?case using "2.IH"[of "h @ [(q, a)]"] "2.prems" by (simp split: if_splits)
qed (auto split: if_splits)

lemma safe_ask:
  assumes "safe P Q [] p" "after p t = Some (Ask q k)"
  shows "P t q"
  using safe_after [OF assms(2,1)] by simp

text \<open>A program that asks only questions of a set.\<close>

definition asks :: "(query \<Rightarrow> bool) \<Rightarrow> 'a prog \<Rightarrow> bool" where
  "asks S p \<longleftrightarrow> safe (\<lambda>_ q. S q) (\<lambda>_ _. True) [] p"

lemma safe_history: "safe (\<lambda>_ q. S q) (\<lambda>_ r. R r) h p \<Longrightarrow> safe (\<lambda>_ q. S q) (\<lambda>_ r. R r) h' p"
  by (induction p arbitrary: h h') auto

lemma asks_Ret [simp]: "asks S (Ret r)"
  by (simp add: asks_def)

lemma asks_Ask [simp]: "asks S (Ask q k) \<longleftrightarrow> S q \<and> (\<forall>a. answers q a \<longrightarrow> asks S (k a))"
  unfolding asks_def safe.simps using safe_history [of S "\<lambda>_. True"] by blast

lemma asks_continue: "asks S p \<Longrightarrow> (\<And>r. asks S (f r)) \<Longrightarrow> asks S (continue p f)"
  by (induction p) auto

lemma asks_bindp: "asks S p \<Longrightarrow> (\<And>x. asks S (f x)) \<Longrightarrow> asks S (bindp p f)"
  unfolding bindp_def by (rule asks_continue) (auto split: sum.splits)

definition only :: "(query \<Rightarrow> bool) \<Rightarrow> history \<Rightarrow> bool" where
  "only S t \<longleftrightarrow> (\<forall>x \<in> set t. S (fst x))"

lemma only_simps [simp]: "only S []" "only S (x # t) \<longleftrightarrow> S (fst x) \<and> only S t" "only S (t @ u) \<longleftrightarrow> only S t \<and> only S u"
  by (auto simp: only_def)

lemma asks_safe:
  assumes "asks S p" "\<And>h q. S q \<Longrightarrow> P h q" "\<And>t r. only S t \<Longrightarrow> Q (h @ t) r"
  shows "safe P Q h p"
  using assms
proof (induction p arbitrary: h)
  case (Ask q k)
  have "safe P Q (h @ [(q, a)]) (k a)" if "answers q a" for a
  proof (rule Ask.IH)
    show "asks S (k a)" using Ask.prems(1) that by simp
    show "Q ((h @ [(q, a)]) @ t) r" if "only S t" for t r
      using Ask.prems(3) [of "(q, a) # t" r] Ask.prems(1) that by simp
  qed (use Ask.prems(2) in auto)
  then show ?case using Ask.prems(1,2) by simp
next
  case (Ret r)
  then show ?case using Ret.prems(3) [of "[]" r] by simp
qed

subsection \<open>Single questions\<close>

lemma answers_error: "wants q = KError \<Longrightarrow> answers q a \<longleftrightarrow> (\<exists>e. a = AError e)"
  by (cases a) (simp_all add: answers_def)

lemma answers_nothing: "wants q = KNothing \<Longrightarrow> answers q a \<longleftrightarrow> a = AError None"
  by (simp add: answers_def)

lemma answers_text: "wants q = KText \<Longrightarrow> answers q a \<longleftrightarrow> (\<exists>r. a = AText r)"
  by (cases a) (simp_all add: answers_def)

lemma answers_generation: "answers QGeneration a \<longleftrightarrow> (\<exists>g. a = AGeneration g)"
  by (cases a) (simp_all add: answers_def)

lemma answers_bool: "wants q = KBool \<Longrightarrow> answers q a \<longleftrightarrow> (\<exists>r. a = ABool r)" "wants q = KFlag \<Longrightarrow> answers q a \<longleftrightarrow> (\<exists>b. a = AFlag b)"
    "wants q = KReady \<Longrightarrow> answers q a \<longleftrightarrow> (\<exists>r. a = AReady r)"
  by (cases a; simp add: answers_def)+

lemma answers_runtime: "wants q = KRuntime \<Longrightarrow> answers q a \<longleftrightarrow> (\<exists>r. a = ARuntime r)"
  by (cases a) (simp_all add: answers_def)

lemma answers_addr: "wants q = KAddr \<Longrightarrow> answers q a \<longleftrightarrow> (\<exists>r. a = AAddr r)"
  by (cases a) (simp_all add: answers_def)

lemma answers_view: "answers (QEntry i e) a \<longleftrightarrow> (\<exists>v. a = AView v)"
  by (cases a) (simp_all add: answers_def)

lemma answers_reply: "wants q = KReply \<Longrightarrow> answers q a \<longleftrightarrow> (\<exists>r. a = AReply r)"
  by (cases a) (simp_all add: answers_def)

lemma answers_receipt: "wants q = KReceipt \<Longrightarrow> answers q a \<longleftrightarrow> (\<exists>r. a = AReceipt r)"
  by (cases a) (simp_all add: answers_def)

lemma answers_access: "answers (QNative i) a \<longleftrightarrow> (\<exists>r. a = AAccess r)"
  by (cases a) (simp_all add: answers_def)

lemma safe_ask_error:
  "wants q = KError \<Longrightarrow> safe P Q h (ask_error q) \<longleftrightarrow>
    P h q \<and> (\<forall>e. Q (h @ [(q, AError e)]) (case e of None \<Rightarrow> Inr () | Some m \<Rightarrow> Inl m))"
proof -
  assume "wants q = KError"
  then have "safe P Q h (ask_error q) \<longleftrightarrow> P h q \<and> (\<forall>e. safe P Q (h @ [(q, AError e)]) (case e of None \<Rightarrow> okp () | Some m \<Rightarrow> failp m))"
    by (auto simp: ask_error_def answers_error)
  then show ?thesis by (simp split: option.split)
qed

lemma safe_ask_nothing:
  "wants q = KNothing \<Longrightarrow> safe P Q h (ask_error q) \<longleftrightarrow> P h q \<and> Q (h @ [(q, AError None)]) (Inr ())"
  by (simp add: ask_error_def answers_nothing)

lemma safe_ask_text: "wants q = KText \<Longrightarrow> safe P Q h (ask_text q) \<longleftrightarrow> P h q \<and> (\<forall>r. Q (h @ [(q, AText r)]) r)"
  by (auto simp: ask_text_def answers_text)

lemma safe_ask_bool:
  "wants q = KBool \<Longrightarrow> safe P Q h (ask_bool q) \<longleftrightarrow> P h q \<and> (\<forall>r. Q (h @ [(q, ABool r)]) r)"
  "wants q = KFlag \<Longrightarrow> safe P Q h (ask_bool q) \<longleftrightarrow> P h q \<and> (\<forall>b. Q (h @ [(q, AFlag b)]) (Inr b))"
  "wants q = KReady \<Longrightarrow> safe P Q h (ask_bool q) \<longleftrightarrow> P h q \<and> (\<forall>r. Q (h @ [(q, AReady r)]) r)"
  by (auto simp: ask_bool_def answers_bool)

lemma safe_ask_generation: "safe P Q h ask_generation \<longleftrightarrow> P h QGeneration \<and> (\<forall>g. Q (h @ [(QGeneration, AGeneration g)]) (Inr g))"
  by (auto simp: ask_generation_def answers_generation)

lemma safe_ask_runtime: "wants q = KRuntime \<Longrightarrow> safe P Q h (ask_runtime q) \<longleftrightarrow> P h q \<and> (\<forall>r. Q (h @ [(q, ARuntime r)]) r)"
  by (auto simp: ask_runtime_def answers_runtime)

lemma safe_ask_entry: "safe P Q h (ask_entry i e) \<longleftrightarrow> P h (QEntry i e) \<and> (\<forall>v. Q (h @ [(QEntry i e, AView v)]) (Inr v))"
  by (auto simp: ask_entry_def answers_view)

lemma safe_ask_native: "safe P Q h (ask_native i) \<longleftrightarrow> P h (QNative i) \<and> (\<forall>r. Q (h @ [(QNative i, AAccess r)]) r)"
  by (auto simp: ask_native_def answers_access)

lemma safe_ask_reply: "wants q = KReply \<Longrightarrow> safe P Q h (ask_reply q) \<longleftrightarrow> P h q \<and> (\<forall>r. Q (h @ [(q, AReply r)]) r)"
  by (auto simp: ask_reply_def answers_reply)

lemma safe_ask_receipt: "wants q = KReceipt \<Longrightarrow> safe P Q h (ask_receipt q) \<longleftrightarrow> P h q \<and> (\<forall>r. Q (h @ [(q, AReceipt r)]) r)"
  by (auto simp: ask_receipt_def answers_receipt)

lemmas safe_rules =
  safe_bindp safe_continue safe_ask_error safe_ask_nothing safe_ask_text safe_ask_bool safe_ask_generation safe_ask_runtime
  safe_ask_entry safe_ask_native safe_ask_reply safe_ask_receipt

subsection \<open>What a history shows\<close>

definition mutates :: "query \<Rightarrow> bool" where
  "mutates q \<longleftrightarrow> (case q of
     QRequest own m n ps \<Rightarrow> True | QBound g own m n ps \<Rightarrow> True | QCreatedSend c i t cl \<Rightarrow> True | QCreatedStop c i t \<Rightarrow> True
   | QCreatedUpdate c i patch \<Rightarrow> True | QArchive i \<Rightarrow> True | QRename i n \<Rightarrow> True | QBroadcast m ps \<Rightarrow> True | QForget i \<Rightarrow> True | _ \<Rightarrow> False)"

definition asks_owner :: "query \<Rightarrow> bool" where
  "asks_owner q \<longleftrightarrow> (\<exists>i. q = QOwner i)"

definition plain :: "query \<Rightarrow> bool" where
  "plain q \<longleftrightarrow> \<not> mutates q \<and> \<not> asks_owner q"

definition reads :: "query \<Rightarrow> bool" where
  "reads q \<longleftrightarrow> \<not> mutates q"

definition mutated :: "history \<Rightarrow> bool" where
  "mutated h \<longleftrightarrow> (\<exists>x \<in> set h. mutates (fst x))"

definition last_owner :: "string \<Rightarrow> history \<Rightarrow> answer option" where
  "last_owner i h =
     (let asked = filter (\<lambda>x. fst x = QOwner i) h in if asked = [] then None else Some (snd (last asked)))"

abbreviation unowned :: "string \<Rightarrow> history \<Rightarrow> bool" where
  "unowned i h \<equiv> last_owner i h = Some (AText (Inr []))"

lemma last_owner_append [simp]: "last_owner i (h @ t) = (if last_owner i t = None then last_owner i h else last_owner i t)"
  by (simp add: last_owner_def Let_def)

lemma last_owner_list [simp]: "last_owner i [] = None"
    "last_owner i ((q, a) # t) = (if last_owner i t = None then if q = QOwner i then Some a else None else last_owner i t)"
  by (simp_all add: last_owner_def Let_def)

lemma last_owner_plain: "only plain t \<Longrightarrow> last_owner i (h @ t) = last_owner i h"
proof -
  assume "only plain t"
  then have "filter (\<lambda>x. fst x = QOwner i) t = []" by (auto simp: only_def plain_def asks_owner_def filter_empty_conv)
  then show ?thesis by (simp add: last_owner_def Let_def)
qed

lemma plain_reads: "only plain t \<Longrightarrow> only reads t"
  by (auto simp: only_def plain_def reads_def)

lemma query_classes [simp]:
  "plain QContext" "plain QStopped" "plain QConnect" "plain QScope" "plain QFence" "plain QGeneration" "plain QModels" "plain (QSeen i)" "plain (QCreated i)"
  "plain (QOwns i)" "plain (QNative i)" "plain (QNativeValidate i b)" "plain (QHistory i)" "plain (QCreatedRead i)" "plain (QAcquire i own ro)"
  "plain (QWait e ro)" "plain (QRelease e)" "plain (QEntry i e)" "plain (QSnapshot e)" "plain (QCurrent i)" "plain (QConfirm e n patch)"
  by (simp_all add: plain_def mutates_def asks_owner_def)

lemma reads_simps [simp]: "plain q \<Longrightarrow> reads q" "reads (QOwner i)"
  by (simp_all add: plain_def reads_def mutates_def)

lemma asks_error [simp]: "S q \<Longrightarrow> asks S (ask_error q)"
  by (auto simp: ask_error_def split: answer.splits option.splits)

lemma asks_text [simp]: "S q \<Longrightarrow> asks S (ask_text q)"
  by (auto simp: ask_text_def split: answer.splits)

lemma asks_bool [simp]: "S q \<Longrightarrow> asks S (ask_bool q)"
  by (auto simp: ask_bool_def split: answer.splits)

lemma asks_generation [simp]: "S QGeneration \<Longrightarrow> asks S ask_generation"
  by (auto simp: ask_generation_def split: answer.splits)

lemma asks_runtime [simp]: "S q \<Longrightarrow> asks S (ask_runtime q)"
  by (auto simp: ask_runtime_def split: answer.splits)

lemma asks_addr [simp]: "S q \<Longrightarrow> asks S (ask_addr q)"
  by (auto simp: ask_addr_def split: answer.splits)

lemma asks_entry [simp]: "S (QEntry i e) \<Longrightarrow> asks S (ask_entry i e)"
  by (auto simp: ask_entry_def split: answer.splits)

lemma asks_state [simp]: "S (QSnapshot e) \<Longrightarrow> asks S (ask_state e)"
  by (auto simp: ask_state_def split: answer.splits)

lemma asks_models [simp]: "S QModels \<Longrightarrow> asks S ask_models"
  by (auto simp: ask_models_def split: answer.splits)

lemma asks_current [simp]: "S (QCurrent i) \<Longrightarrow> asks S (ask_current i)"
  by (auto simp: ask_current_def split: answer.splits)

lemma asks_accessScope: "asks plain (accessScope cf i)"
  unfolding accessScope_def by (auto intro!: asks_bindp)

lemma asks_created: "asks plain (created cf i)"
  unfolding created_def by (auto intro!: asks_bindp)

lemma asks_readState: "asks plain (readState i own)"
  unfolding readState_def by (auto intro!: asks_bindp asks_continue split: option.split sum.split bool.split)

lemma asks_controlState: "asks plain (controlState i own)"
  unfolding controlState_def by (auto intro!: asks_bindp split: option.split)

subsection \<open>Resolved access\<close>

text \<open>The lists that a run seals, from the answers it got: finitely many.\<close>

definition owner_answers :: "string \<Rightarrow> history \<Rightarrow> string set" where
  "owner_answers i h = {s. (QOwner i, AText (Inr s)) \<in> set h}"

definition scope_answers :: "history \<Rightarrow> string set" where
  "scope_answers h = {s. (QScope, AText (Inr s)) \<in> set h}"

definition entry_answers :: "string \<Rightarrow> history \<Rightarrow> entry_view set" where
  "entry_answers i h = {v. \<exists>e. (QEntry i e, AView v) \<in> set h}"

definition desktop_list :: "string \<Rightarrow> string \<Rightarrow> entry_view \<Rightarrow> string list" where
  "desktop_list i own v =
     [''desktop'', i, own, FormatUint (unat (ev_generation v)), FormatUint (unat (ev_epoch v)), FormatUint (unat (ev_connection v))]"

definition owner_seals :: "string \<Rightarrow> history \<Rightarrow> string list set" where
  "owner_seals i h = (\<lambda>own. [''unconfirmed'', i, own]) ` owner_answers i h \<union>
     (\<lambda>(own, v). desktop_list i own v) ` (owner_answers i h \<times> entry_answers i h)"

definition free_seals :: "string \<Rightarrow> history \<Rightarrow> string list set" where
  "free_seals i h = insert [''history'', i] ((\<lambda>n. [''scope'', i, sa_Binding n]) ` {n. (QNative i, AAccess (Inr n)) \<in> set h})"

definition idle_seals :: "access_config \<Rightarrow> string \<Rightarrow> history \<Rightarrow> string list set" where
  "idle_seals cf i h = (\<lambda>(ss, rt). [''idle-recovery'', i, sealAccess cf ss, runtime_identity rt]) `
     (free_seals i h \<times> {rt. (QHistory i, ARuntime (Inr rt)) \<in> set h})"

definition inner_seals :: "access_config \<Rightarrow> string \<Rightarrow> history \<Rightarrow> string list set" where
  "inner_seals cf i h = owner_seals i h \<union> free_seals i h \<union> idle_seals cf i h"

definition seals_of :: "access_config \<Rightarrow> string \<Rightarrow> history \<Rightarrow> string list set" where
  "seals_of cf i h = inner_seals cf i h \<union> (\<lambda>s. [''catalog'', s, i]) ` scope_answers h \<union>
     (\<lambda>(s, ss). [''verified'', s, i, sealAccess cf ss]) ` (scope_answers h \<times> inner_seals cf i h)"

lemma finite_answers: "finite {s. (q, f s) \<in> set h}" if "inj f" for f :: "'a \<Rightarrow> answer"
  using finite_vimageI [of "set h" "\<lambda>s. (q, f s)"] that by (auto simp: vimage_def inj_def)

lemma finite_seals: "finite (seals_of cf i h)"
proof -
  have "entry_answers i h \<subseteq> (\<lambda>x. case x of (q, AView v) \<Rightarrow> v | _ \<Rightarrow> undefined) ` set h"
    by (force simp: entry_answers_def image_iff)
  then have entry: "finite (entry_answers i h)" by (rule finite_subset) simp
  have inj: "inj (\<lambda>s. AText (Inr s))" "inj (\<lambda>n. AAccess (Inr n))" "inj (\<lambda>rt. ARuntime (Inr rt))" by (auto simp: inj_def)
  have owner: "finite (owner_answers i h)" and scope: "finite (scope_answers h)"
    unfolding owner_answers_def scope_answers_def by (rule finite_answers [OF inj(1)])+
  have free: "finite (free_seals i h)" unfolding free_seals_def by (intro finite.insertI finite_imageI finite_answers [OF inj(2)])
  then have idle: "finite (idle_seals cf i h)"
    unfolding idle_seals_def by (intro finite_imageI finite_cartesian_product finite_answers [OF inj(3)])
  have "finite (owner_seals i h)"
    unfolding owner_seals_def by (intro finite_UnI finite_imageI finite_cartesian_product owner entry)
  then have inner: "finite (inner_seals cf i h)" unfolding inner_seals_def by (intro finite_UnI free idle)
  show ?thesis unfolding seals_of_def by (intro finite_UnI finite_imageI finite_cartesian_product inner scope)
qed

lemma answers_mono:
  assumes "set h \<subseteq> set h'"
  shows "owner_answers i h \<subseteq> owner_answers i h'" "scope_answers h \<subseteq> scope_answers h'" "entry_answers i h \<subseteq> entry_answers i h'"
  using assms by (auto simp: owner_answers_def scope_answers_def entry_answers_def)

lemma seals_mono:
  assumes "set h \<subseteq> set h'"
  shows "owner_seals i h \<subseteq> owner_seals i h'" "free_seals i h \<subseteq> free_seals i h'" "idle_seals cf i h \<subseteq> idle_seals cf i h'"
    "inner_seals cf i h \<subseteq> inner_seals cf i h'" "seals_of cf i h \<subseteq> seals_of cf i h'"
proof -
  show owner: "owner_seals i h \<subseteq> owner_seals i h'"
    unfolding owner_seals_def using answers_mono [OF assms] by (intro Un_mono image_mono Sigma_mono) auto
  show free: "free_seals i h \<subseteq> free_seals i h'" using assms by (auto simp: free_seals_def)
  show idle: "idle_seals cf i h \<subseteq> idle_seals cf i h'"
    unfolding idle_seals_def using free assms by (intro image_mono Sigma_mono) auto
  show inner: "inner_seals cf i h \<subseteq> inner_seals cf i h'" unfolding inner_seals_def using owner free idle by (intro Un_mono)
  show "seals_of cf i h \<subseteq> seals_of cf i h'"
    unfolding seals_of_def using inner answers_mono [OF assms] by (intro Un_mono image_mono Sigma_mono) auto
qed

definition owned_ok :: "access_config \<Rightarrow> string \<Rightarrow> history \<Rightarrow> string \<Rightarrow> desktop_access \<Rightarrow> bool" where
  "owned_ok cf i h b access \<longleftrightarrow> da_owner access \<in> owner_answers i h \<and>
     (b = sealAccess cf [''unconfirmed'', i, da_owner access] \<and> da_entry access = None \<or>
      (\<exists>e v. da_entry access = Some e \<and> (QEntry i e, AView v) \<in> set h \<and> ev_live v \<and> da_connection access = ev_connection v \<and>
        b = desktop_binding cf i (da_owner access) v))"

definition unowned_ok :: "access_config \<Rightarrow> string \<Rightarrow> history \<Rightarrow> string \<Rightarrow> desktop_access \<Rightarrow> bool" where
  "unowned_ok cf i h b access \<longleftrightarrow> da_entry access = None \<and> (\<exists>ss \<in> free_seals i h \<union> idle_seals cf i h. b = sealAccess cf ss)"

definition evidence_ok :: "string \<Rightarrow> history \<Rightarrow> desktop_access \<Rightarrow> bool" where
  "evidence_ok i h access \<longleftrightarrow>
     (da_recovery access \<longrightarrow> (\<exists>rt. (QHistory i, ARuntime (Inr rt)) \<in> set h \<and> RecoverableRuntime rt)) \<and>
     (da_native access \<noteq> [] \<longrightarrow> (QNativeValidate i (da_native access), AError None) \<in> set h)"

definition resolved_ok :: "access_config \<Rightarrow> string \<Rightarrow> history \<Rightarrow> string \<Rightarrow> desktop_access \<Rightarrow> bool" where
  "resolved_ok cf i h b access \<longleftrightarrow>
     (if da_owner access = [] then unowned_ok cf i h b access else owned_ok cf i h b access) \<and> evidence_ok i h access"

lemma resolved_mono: "resolved_ok cf i h b access \<Longrightarrow> set h \<subseteq> set h' \<Longrightarrow> resolved_ok cf i h' b access"
proof -
  assume ok: "resolved_ok cf i h b access" and sub: "set h \<subseteq> set h'"
  have "owned_ok cf i h' b access" if "owned_ok cf i h b access"
    using that answers_mono(1) [OF sub, of i] sub unfolding owned_ok_def by blast
  moreover have "unowned_ok cf i h' b access" if "unowned_ok cf i h b access"
    using that seals_mono(2) [OF sub, of i] seals_mono(3) [OF sub, of cf i] unfolding unowned_ok_def by blast
  moreover have "evidence_ok i h' access" using ok sub unfolding resolved_ok_def evidence_ok_def by blast
  ultimately show ?thesis using ok unfolding resolved_ok_def by presburger
qed

text \<open>\<open>grown\<close>: a program that only read since \<open>h\<close>.\<close>

definition grown :: "history \<Rightarrow> history \<Rightarrow> bool" where
  "grown h h' \<longleftrightarrow> (\<exists>t. h' = h @ t \<and> only reads t)"

lemma grown_simps [simp]: "grown h h" "reads q \<Longrightarrow> grown h (h @ [(q, a)])" "only reads t \<Longrightarrow> grown h (h @ t)" "only plain t \<Longrightarrow> grown h (h @ t)"
  by (auto simp: grown_def dest: plain_reads)

lemma grown_trans: "grown h h' \<Longrightarrow> grown h' h'' \<Longrightarrow> grown h h''"
  by (auto simp: grown_def)

lemma grown_set: "grown h h' \<Longrightarrow> set h \<subseteq> set h'"
  by (auto simp: grown_def)

lemma mutated_append: "mutated (h @ t) \<longleftrightarrow> mutated h \<or> mutated t"
  by (simp add: mutated_def bex_Un)

lemma reads_mutated: "only reads t \<Longrightarrow> \<not> mutated t"
  by (simp add: mutated_def only_def reads_def)

lemma grown_mutated: "grown h h' \<Longrightarrow> mutated h' \<longleftrightarrow> mutated h"
  unfolding grown_def by (metis mutated_append reads_mutated)

lemma grown_snoc: "grown h h' \<Longrightarrow> reads q \<Longrightarrow> grown h (h' @ [(q, a)])"
  using grown_trans grown_simps(2) by blast

lemma grown_plain: "grown h h' \<Longrightarrow> only plain t \<Longrightarrow> grown h (h' @ t)"
  using grown_trans grown_simps(4) by blast


text \<open>\<open>still\<close>: nor did it ask for the owner.\<close>

definition still :: "history \<Rightarrow> history \<Rightarrow> bool" where
  "still h h' \<longleftrightarrow> (\<exists>t. h' = h @ t \<and> only plain t)"

lemma still_owner: "still h h' \<Longrightarrow> last_owner i h' = last_owner i h"
  unfolding still_def using last_owner_plain by blast

lemma still_grown: "still h h' \<Longrightarrow> grown h h'"
  unfolding still_def grown_def using plain_reads by blast

lemma still_simps [simp]: "still h h" "plain q \<Longrightarrow> still h (h @ [(q, a)])"
  by (auto simp: still_def)

text \<open>\<open>reading h R p\<close>: from \<open>h\<close> on, \<open>p\<close> only reads, and a value it returns satisfies \<open>R\<close>.\<close>

definition reading :: "history \<Rightarrow> (history \<Rightarrow> 'a \<Rightarrow> bool) \<Rightarrow> 'a prog \<Rightarrow> bool" where
  "reading h R p \<longleftrightarrow> safe (\<lambda>_ q. reads q) (\<lambda>h' r. grown h h' \<and> (\<forall>x. r = Inr x \<longrightarrow> R h' x)) h p"

lemma reading_safe:
  assumes "reading h R p" "\<And>h q. reads q \<Longrightarrow> P h q" "\<And>h' e. grown h h' \<Longrightarrow> Q h' (Inl e)" "\<And>h' x. grown h h' \<Longrightarrow> R h' x \<Longrightarrow> Q h' (Inr x)"
  shows "safe P Q h p"
proof (rule safe_mono [OF assms(1) [unfolded reading_def]])
  show "Q h' r" if "grown h h' \<and> (\<forall>x. r = Inr x \<longrightarrow> R h' x)" for h' r
    using that assms(3,4) by (cases r) auto
qed (rule assms(2))

lemma reading_weaken: "reading h R p \<Longrightarrow> (\<And>h' x. grown h h' \<Longrightarrow> R h' x \<Longrightarrow> S h' x) \<Longrightarrow> reading h S p"
  unfolding reading_def by (erule safe_mono) auto

lemma reading_Ret [simp]: "reading h R (Ret r) \<longleftrightarrow> (\<forall>x. r = Inr x \<longrightarrow> R h x)"
  by (simp add: reading_def)

lemma reading_from:
  assumes "reading h' R p" "grown h h'"
  shows "safe (\<lambda>_ q. reads q) (\<lambda>g r. grown h g \<and> (\<forall>x. r = Inr x \<longrightarrow> R g x)) h' p"
  using assms(1) unfolding reading_def by (rule safe_mono) (use assms(2) grown_trans in blast)+

lemma reading_bindp:
  assumes "reading h R p" "\<And>h' x. grown h h' \<Longrightarrow> R h' x \<Longrightarrow> reading h' S (f x)"
  shows "reading h S (bindp p f)"
  unfolding reading_def safe_bindp
proof (rule reading_safe [OF assms(1)])
  show "case Inr x of Inl e \<Rightarrow> grown h h' \<and> (\<forall>x. Inl e = Inr x \<longrightarrow> S h' x)
      | Inr x \<Rightarrow> safe (\<lambda>_. reads) (\<lambda>g r. grown h g \<and> (\<forall>x. r = Inr x \<longrightarrow> S g x)) h' (f x)"
    if "grown h h'" "R h' x" for h' x
    using reading_from [OF assms(2) [OF that] that(1)] by simp
qed auto

lemma reading_asks: "asks plain p \<Longrightarrow> reading h (\<lambda>h' _. still h h') p"
  unfolding reading_def by (rule asks_safe [where S = plain]) (auto simp: still_def)

lemma reading_ask_error: "wants q = KError \<Longrightarrow> reads q \<Longrightarrow> reading h (\<lambda>h' _. h' = h @ [(q, AError None)]) (ask_error q)"
  by (auto simp: reading_def safe_ask_error split: option.split)

lemma reading_ask_text: "wants q = KText \<Longrightarrow> reads q \<Longrightarrow> reading h (\<lambda>h' s. h' = h @ [(q, AText (Inr s))]) (ask_text q)"
  by (auto simp: reading_def safe_ask_text)

lemma reading_ask_runtime: "wants q = KRuntime \<Longrightarrow> reads q \<Longrightarrow> reading h (\<lambda>h' s. h' = h @ [(q, ARuntime (Inr s))]) (ask_runtime q)"
  by (auto simp: reading_def safe_ask_runtime)

lemma reading_ask_native: "reading h (\<lambda>h' s. h' = h @ [(QNative i, AAccess (Inr s))]) (ask_native i)"
  by (auto simp: reading_def safe_ask_native)

lemma reading_ask_entry: "reading h (\<lambda>h' v. h' = h @ [(QEntry i e, AView v)]) (ask_entry i e)"
  by (auto simp: reading_def safe_ask_entry)

lemma reading_ask_generation: "reading h (\<lambda>h' g. h' = h @ [(QGeneration, AGeneration g)]) ask_generation"
  by (auto simp: reading_def safe_ask_generation)


lemma reading_continue:
  assumes "reading h R p" "\<And>h' e. grown h h' \<Longrightarrow> reading h' S (f (Inl e))" "\<And>h' x. grown h h' \<Longrightarrow> R h' x \<Longrightarrow> reading h' S (f (Inr x))"
  shows "reading h S (continue p f)"
  unfolding reading_def safe_continue
proof (rule reading_safe [OF assms(1)])
  show "safe (\<lambda>_. reads) (\<lambda>g r. grown h g \<and> (\<forall>x. r = Inr x \<longrightarrow> S g x)) h' (f (Inl e))" if "grown h h'" for h' e
    by (rule reading_from [OF assms(2) [OF that] that])
  show "safe (\<lambda>_. reads) (\<lambda>g r. grown h g \<and> (\<forall>x. r = Inr x \<longrightarrow> S g x)) h' (f (Inr x))" if "grown h h'" "R h' x" for h' x
    by (rule reading_from [OF assms(3) [OF that] that(1)])
qed

lemma still_answers: "still (h @ [(QOwner i, AText (Inr own))]) g \<Longrightarrow> own \<in> owner_answers i g"
  using grown_set [OF still_grown] by (fastforce simp: owner_answers_def)

definition resolved :: "access_config \<Rightarrow> string \<Rightarrow> history \<Rightarrow> desktop_access \<Rightarrow> bool" where
  "resolved cf i h access \<longleftrightarrow> resolved_ok cf i h (da_binding access) access \<and> (da_owner access = [] \<longrightarrow> unowned i h)"

lemma reading_recovery:
  assumes "unowned i h" "da_owner access = []" "resolved_ok cf i h (da_binding access) access"
    "ss \<in> free_seals i h" "da_binding access = sealAccess cf ss"
  shows "reading h (resolved cf i) (idleRecoveryAccess cf i access)"
proof -
  have here: "resolved cf i h access" using assms by (simp add: resolved_def)
  have later: "resolved cf i (h @ [(QHistory i, ARuntime (Inr rt))]) access" for rt
    using assms resolved_mono [OF assms(3), of "h @ [(QHistory i, ARuntime (Inr rt))]"] by (simp add: resolved_def subset_iff)
  have ready: "resolved cf i (((h @ [(QHistory i, ARuntime (Inr rt))]) @ [(QOwner i, AText (Inr []))]) @ [(QContext, AError None)])
      (recovery_access cf i rt access)" (is "resolved cf i ?g _") if "RecoverableRuntime rt" for rt
  proof -
    have "ss \<in> free_seals i ?g" using seals_mono(2) [of h ?g i] assms(4) by auto
    then have "[''idle-recovery'', i, sealAccess cf ss, runtime_identity rt] \<in> idle_seals cf i ?g"
      unfolding idle_seals_def by (intro image_eqI [of _ _ "(ss, rt)"]) auto
    then show ?thesis
      using assms that by (auto simp: resolved_def resolved_ok_def unowned_ok_def evidence_ok_def recovery_access_def)
  qed
  show ?thesis
    unfolding idleRecoveryAccess_def using here later ready
    by (auto intro!: reading_bindp [OF reading_ask_runtime] reading_bindp [OF reading_ask_text] reading_bindp [OF reading_ask_error])
qed

lemma reading_created: "reading h (\<lambda>h' _. still h h') (created cf i)"
  by (rule reading_asks [OF asks_created])

lemma reading_accessScope: "reading h (\<lambda>h' s. still h h' \<and> s \<in> scope_answers h') (accessScope cf i)"
proof -
  have tail: "reading g (\<lambda>h' s. still h h' \<and> s \<in> scope_answers h') (bindp (ask_text QScope) (\<lambda>scope.
      if \<not> accessScopePattern scope then failp unavailable else bindp (ask_error QContext) (\<lambda>_. okp scope)))" if "still h g" for g
  proof (rule reading_bindp [OF reading_ask_text], goal_cases)
    case (3 h' scope)
    have "still h (h' @ [(QContext, AError None)])" using that 3(2) by (auto simp: still_def)
    then show ?case using 3(2)
      by (auto intro!: reading_bindp [OF reading_ask_error] simp: scope_answers_def)
  qed simp_all
  have halted: "reading g (\<lambda>h' _. still g h') (ask_bool QStopped)" for g by (rule reading_asks) simp
  have trans: "still h g" if "still (h @ [(QContext, AError None)]) g" for g using that by (auto simp: still_def)
  show ?thesis
    unfolding accessScope_def
    by (auto intro!: reading_bindp [OF reading_ask_error] reading_bindp [OF halted] tail [OF trans])
qed

lemma no_access_simps [simp]:
  "da_owner (no_access cf) = []" "da_native (no_access cf) = []" "da_entry (no_access cf) = None" "\<not> da_recovery (no_access cf)"
  by (simp_all add: no_access_def)

lemma scoped_access_simps [simp]:
  "da_owner (scoped_access cf i n a) = da_owner a" "da_native (scoped_access cf i n a) = sa_Binding n" "da_entry (scoped_access cf i n a) = da_entry a"
  "da_recovery (scoped_access cf i n a) = da_recovery a" "da_binding (scoped_access cf i n a) = sealAccess cf [''scope'', i, sa_Binding n]"
  by (simp_all add: scoped_access_def Let_def)

lemma reading_scopeAccess:
  assumes "unowned i h" "da_owner access = []" "da_native access = []" "da_entry access = None" "\<not> da_recovery access"
  shows "reading h (resolved cf i) (scopeAccess cf i access)"
proof -
  define a where "a = access\<lparr>da_binding := sealAccess cf [''history'', i]\<rparr>"
  have base: "resolved_ok cf i g (da_binding a) a" "[''history'', i] \<in> free_seals i g" "da_binding a = sealAccess cf [''history'', i]" for g
    using assms by (auto simp: resolved_ok_def unowned_ok_def evidence_ok_def a_def free_seals_def)
  have own: "da_owner a = []" using assms by (simp add: a_def)
  have kept: "unowned i g" if "still h g" for g using assms(1) still_owner [OF that] by simp
  have scoped: "resolved_ok cf i g (da_binding (scoped_access cf i n a)) (scoped_access cf i n a)" "[''scope'', i, sa_Binding n] \<in> free_seals i g"
    if "(QNativeValidate i (sa_Binding n), AError None) \<in> set g" "(QNative i, AAccess (Inr n)) \<in> set g" for g n
  proof -
    show "[''scope'', i, sa_Binding n] \<in> free_seals i g" using that(2) by (auto simp: free_seals_def)
    then show "resolved_ok cf i g (da_binding (scoped_access cf i n a)) (scoped_access cf i n a)"
      using that assms by (auto simp: resolved_ok_def unowned_ok_def evidence_ok_def a_def)
  qed
  have idle: "reading g (resolved cf i) (idleRecoveryAccess cf i a)" if "still h g" for g
    by (rule reading_recovery [OF kept [OF that] own base])
  have plain_ok: "resolved cf i g a" if "still h g" for g using kept [OF that] base by (simp add: resolved_def)
  have rest: "reading g (resolved cf i) (idleRecoveryAccess cf i (scoped_access cf i n a))" "resolved cf i g (scoped_access cf i n a)"
    if "(QNativeValidate i (sa_Binding n), AError None) \<in> set g" "(QNative i, AAccess (Inr n)) \<in> set g" "unowned i g" for g n
    using reading_recovery [OF that(3) _ scoped(1) [OF that(1,2)] scoped(2) [OF that(1,2)]] scoped(1) [OF that(1,2)] that(3) own
    by (simp_all add: resolved_def)
  show ?thesis
    unfolding scopeAccess_def a_def [symmetric] Let_def using idle plain_ok
    by (auto intro!: reading_bindp [OF reading_created] reading_bindp [OF reading_ask_native] reading_bindp [OF reading_ask_text]
        reading_bindp [OF reading_ask_error] rest)
qed

lemma reading_entryAccess:
  assumes "da_owner access = own" "own \<noteq> []" "da_native access = []" "\<not> da_recovery access" "own \<in> owner_answers i h"
  shows "reading h (resolved cf i) (entryAccess cf i own e access)"
proof -
  have good: "resolved cf i g a"
    if "(QEntry i e, AView v) \<in> set g" "ev_live v" "da_entry a = Some e" "da_connection a = ev_connection v" "da_owner a = own"
      "da_binding a = desktop_binding cf i own v" "da_native a = []" "\<not> da_recovery a" "set h \<subseteq> set g" for g v a
    using that assms(2,5) answers_mono(1) [OF that(9), of i] by (auto simp: resolved_def resolved_ok_def owned_ok_def evidence_ok_def)
  show ?thesis
    unfolding entryAccess_def Let_def using assms
    by (auto intro!: reading_bindp [OF reading_ask_entry] reading_bindp [OF reading_ask_generation] good split: option.split) simp_all
qed


lemma releasing_asks: "reading h R p \<Longrightarrow> (\<And>g x. R g x \<Longrightarrow> R (g @ [(QRelease a, AError None)]) x) \<Longrightarrow> reading h R (releasing a p)"
  unfolding releasing_def
  by (rule reading_continue, assumption) (auto simp: reading_def safe_bindp safe_ask_nothing)

lemma resolved_more: "resolved cf i h a \<Longrightarrow> still h h' \<Longrightarrow> resolved cf i h' a"
  using resolved_mono [of cf i h "da_binding a" a h'] grown_set [OF still_grown] still_owner [of h h' i]
  by (simp add: resolved_def)

lemma reading_readState: "reading h (\<lambda>h' _. still h h') (readState i own)"
  by (rule reading_asks [OF asks_readState])

lemma reading_resolveAccess: "reading h (resolved cf i) (resolveAccess cf i)"
proof -
  have none: "resolved cf i g (no_access cf\<lparr>da_owner := own, da_binding := sealAccess cf [''unconfirmed'', i, own]\<rparr>)"
    if "own \<noteq> []" "own \<in> owner_answers i g" for g own
    using that by (auto simp: resolved_def resolved_ok_def owned_ok_def evidence_ok_def)
  have released: "resolved cf i (g @ [(QRelease a, AError None)]) x" if "resolved cf i g x" for g a x
    using resolved_more [OF that, of "g @ [(QRelease a, AError None)]"] by simp
  have entry: "reading g (resolved cf i) (releasing a (entryAccess cf i own a (no_access cf\<lparr>da_owner := own\<rparr>)))"
    if "own \<noteq> []" "own \<in> owner_answers i g" for g own a
    by (rule releasing_asks [OF reading_entryAccess released]) (use that in simp_all)
  have nobody: "reading (h @ [(QOwner i, AText (Inr []))]) (resolved cf i) (scopeAccess cf i (no_access cf\<lparr>da_owner := []\<rparr>))"
    by (rule reading_scopeAccess) simp_all
  have somebody: "reading g (resolved cf i) (bindp (readState i own) (\<lambda>e. case e of
        None \<Rightarrow> okp (no_access cf\<lparr>da_owner := own, da_binding := sealAccess cf [''unconfirmed'', i, own]\<rparr>)
      | Some a \<Rightarrow> releasing a (entryAccess cf i own a (no_access cf\<lparr>da_owner := own\<rparr>))))"
    if "g = h @ [(QOwner i, AText (Inr own))]" "own \<noteq> []" for g own
    by (rule reading_bindp [OF reading_readState]) (use none entry that still_answers in \<open>auto split: option.split\<close>)
  show ?thesis
    unfolding resolveAccess_def Let_def using nobody somebody
    by (auto intro!: reading_bindp [OF reading_ask_text])
qed

text \<open>What \<open>currentAccess\<close> returns: a verified binding around a resolved one.\<close>

definition verified :: "access_config \<Rightarrow> string \<Rightarrow> history \<Rightarrow> desktop_access \<Rightarrow> bool" where
  "verified cf i h a \<longleftrightarrow>
     (\<exists>b. da_binding a = sealAccess cf [''verified'', da_scope a, i, b] \<and> resolved_ok cf i h b a) \<and> (da_owner a = [] \<longrightarrow> unowned i h) \<and>
     da_scope a \<in> scope_answers h"

lemma verified_more: "verified cf i h a \<Longrightarrow> still h h' \<Longrightarrow> verified cf i h' a"
  using resolved_mono [OF _ grown_set [OF still_grown], of cf i h _ a h'] still_owner [of h h' i] answers_mono(2) [OF grown_set [OF still_grown], of h h']
  unfolding verified_def by auto

lemma reading_currentAccess: "reading h (verified cf i) (currentAccess cf i)"
proof -
  have seal: "verified cf i h' (a\<lparr>da_scope := scope, da_binding := sealAccess cf [''verified'', scope, i, da_binding a]\<rparr>)"
    if "resolved cf i g a" "still g h'" "scope \<in> scope_answers h'" for g h' a scope
  proof -
    have "resolved_ok cf i h' (da_binding a) a" "da_owner a = [] \<longrightarrow> unowned i h'"
      using resolved_more [OF that(1,2)] by (simp_all add: resolved_def)
    moreover have "resolved_ok cf i h' b (a\<lparr>da_scope := s, da_binding := b'\<rparr>) = resolved_ok cf i h' b a" for b s b'
      by (simp add: resolved_ok_def owned_ok_def unowned_ok_def evidence_ok_def)
    ultimately show ?thesis using that(3) by (auto simp: verified_def)
  qed
  have seal_same: "verified cf i h' (a\<lparr>da_binding := sealAccess cf [''verified'', da_scope a, i, da_binding a]\<rparr>)"
    if "resolved cf i g a" "still g h'" "da_scope a \<in> scope_answers h'" for g h' a
    using seal [OF that(1,2,3)] by simp
  show ?thesis
    unfolding currentAccess_def using seal seal_same
    by (auto intro!: reading_bindp [OF reading_accessScope] reading_bindp [OF reading_resolveAccess])
qed

lemma reading_CatalogAccess:
  "reading h (\<lambda>h' a. still h h' \<and> (\<exists>scope \<in> scope_answers h'. sa_Binding a = sealAccess cf [''catalog'', scope, i])) (CatalogAccess cf i)"
  unfolding CatalogAccess_def
  by (rule reading_bindp [OF reading_accessScope]) (auto simp: publicAccess_def catalog_access_def)

definition confirmed :: "access_config \<Rightarrow> string \<Rightarrow> string \<Rightarrow> history \<Rightarrow> bool" where
  "confirmed cf i binding h \<longleftrightarrow>
     (\<exists>scope \<in> scope_answers h. binding = sealAccess cf [''catalog'', scope, i]) \<or> (\<exists>a. verified cf i h a \<and> da_binding a = binding)"

lemma confirmed_more: "confirmed cf i b h \<Longrightarrow> still h h' \<Longrightarrow> confirmed cf i b h'"
  using verified_more answers_mono(2) [OF grown_set [OF still_grown]] unfolding confirmed_def by blast

lemma reading_ValidateAccess: "reading h (\<lambda>h' _. confirmed cf i binding h') (ValidateAccess cf i binding)"
proof -
  have current: "reading g (\<lambda>h' _. confirmed cf i binding h')
      (bindp (currentAccess cf i) (\<lambda>access. if sameBinding binding (da_binding access) then okp () else failp unavailable))" for g
    by (rule reading_bindp [OF reading_currentAccess]) (auto simp: confirmed_def sameBinding_def)
  have fence: "reading g (\<lambda>h' _. confirmed cf i binding h') (ask_error QFence)"
    if "binding = sealAccess cf [''catalog'', scope, i]" "scope \<in> scope_answers g" for g scope
    by (rule reading_weaken [OF reading_ask_error]) (use that in \<open>auto simp: confirmed_def scope_answers_def\<close>)
  show ?thesis
    unfolding ValidateAccess_def
  proof (rule reading_continue [OF reading_CatalogAccess], goal_cases)
    case (1 h' e)
    then show ?case using current by simp
  next
    case (2 h' x)
    then show ?case using current fence [where g = h'] by (auto simp: sameBinding_def)
  qed
qed


subsection \<open>What equal bindings say\<close>

lemma sealed_char: "c \<in> set (sealAccess cf ss) \<Longrightarrow> safe_char c"
proof -
  have "safe_char (b64_char v)" if "v < 64" for v
    using that by (auto simp: b64_char_def safe_char_def plain_char_def)
  then have digit: "safe_char c" if "c \<in> b64_char ` set ds" "\<forall>v \<in> set ds. v < 64" for ds c using that by auto
  assume c: "c \<in> set (sealAccess cf ss)"
  have "\<forall>x \<in> set (map byte_of (cf_mac cf (strings_json ss))). x < 256" by auto
  from digit [OF _ b64_digits_bound [OF this]] c show ?thesis by (simp add: sealAccess_def b64_encode_digits)
qed

lemma quote_safe_inj: "list_all safe_char a \<Longrightarrow> list_all safe_char b \<Longrightarrow> go_quote a = go_quote b \<longleftrightarrow> a = b"
  by (simp add: go_quote_plain)

lemma quote_sealed: "go_quote (sealAccess cf ss) = go_quote (sealAccess cf ts) \<longleftrightarrow> sealAccess cf ss = sealAccess cf ts"
  by (rule quote_safe_inj) (simp_all add: list_all_iff sealed_char)

lemma quote_number: "go_quote (FormatUint m) = go_quote (FormatUint n) \<longleftrightarrow> m = n"
proof -
  have "list_all safe_char (FormatUint k)" for k
    using FormatUint_digits [of k] by (auto simp: list_all_iff is_digit_def safe_char_def plain_char_def)
  then show ?thesis by (simp add: quote_safe_inj)
qed

lemma kinds_quote:
  "list_all safe_char ''catalog''" "list_all safe_char ''verified''" "list_all safe_char ''history''" "list_all safe_char ''idle-recovery''"
  "list_all safe_char ''scope''" "list_all safe_char ''unconfirmed''" "list_all safe_char ''desktop''"
  by (simp_all add: safe_char_def plain_char_def)

lemma seal_kinds:
  "ss \<in> owner_seals i h \<Longrightarrow> \<exists>k r. ss = k # r \<and> k \<in> {''unconfirmed'', ''desktop''}"
  "ss \<in> free_seals i h \<union> idle_seals cf i h \<Longrightarrow> \<exists>k r. ss = k # r \<and> k \<in> {''history'', ''scope'', ''idle-recovery''}"
  by (auto simp: owner_seals_def free_seals_def idle_seals_def desktop_list_def)

lemma quoted_kinds:
  assumes "map go_quote (k # ss) = map go_quote (k' # ts)" "list_all safe_char k" "list_all safe_char k'"
  shows "k = k'"
  using assms by (simp add: quote_safe_inj)

lemma seals_outer:
  "s \<in> scope_answers h \<Longrightarrow> ss \<in> inner_seals cf i h \<Longrightarrow> [''verified'', s, i, sealAccess cf ss] \<in> seals_of cf i h"
  "s \<in> scope_answers h \<Longrightarrow> [''catalog'', s, i] \<in> seals_of cf i h"
  "ss \<in> inner_seals cf i h \<Longrightarrow> ss \<in> seals_of cf i h"
  by (auto simp: seals_of_def)

lemma desktop_seal: "own \<in> owner_answers i h \<Longrightarrow> v \<in> entry_answers i h \<Longrightarrow> desktop_list i own v \<in> owner_seals i h"
  by (auto simp: owner_seals_def)

lemma desktop_binding_list: "desktop_binding cf i own v = sealAccess cf (desktop_list i own v)"
  by (simp add: desktop_binding_def desktop_list_def)

lemma verified_inner:
  assumes "apart cf (seals_of cf i H)" "s \<in> scope_answers H" "s' \<in> scope_answers H" "ss \<in> inner_seals cf i H" "ts \<in> inner_seals cf i H"
    "sealAccess cf [''verified'', s, i, sealAccess cf ss] = sealAccess cf [''verified'', s', i, sealAccess cf ts]"
  shows "map go_quote ss = map go_quote ts"
proof -
  have "sealAccess cf ss = sealAccess cf ts"
    using sealed_unique [OF assms(1) seals_outer(1) [OF assms(2,4)] seals_outer(1) [OF assms(3,5)] assms(6)] by (simp add: quote_sealed)
  then show ?thesis by (rule sealed_unique [OF assms(1) seals_outer(3) [OF assms(4)] seals_outer(3) [OF assms(5)]])
qed

lemma verified_seal:
  assumes "verified cf i h a" "set h \<subseteq> set H"
  obtains ss where "da_binding a = sealAccess cf [''verified'', da_scope a, i, sealAccess cf ss]" "da_scope a \<in> scope_answers H"
    "resolved_ok cf i h (sealAccess cf ss) a"
    "ss \<in> (if da_owner a = [] then free_seals i H \<union> idle_seals cf i H else owner_seals i H)" "ss \<in> inner_seals cf i H"
proof -
  obtain b where b: "da_binding a = sealAccess cf [''verified'', da_scope a, i, b]" "resolved_ok cf i h b a" "da_scope a \<in> scope_answers h"
    using assms(1) by (auto simp: verified_def)
  have "\<exists>ss \<in> (if da_owner a = [] then free_seals i h \<union> idle_seals cf i h else owner_seals i h). b = sealAccess cf ss"
  proof (cases "da_owner a = []")
    case True
    then show ?thesis using b(2) by (simp add: resolved_ok_def unowned_ok_def)
  next
    case False
    then have "owned_ok cf i h b a" using b(2) by (simp add: resolved_ok_def)
    then have "\<exists>ss \<in> owner_seals i h. b = sealAccess cf ss"
      unfolding owned_ok_def desktop_binding_list using desktop_seal [of "da_owner a" i h]
      by (auto simp: owner_seals_def entry_answers_def)
    then show ?thesis using False by simp
  qed
  then obtain ss where ss: "ss \<in> (if da_owner a = [] then free_seals i h \<union> idle_seals cf i h else owner_seals i h)" "b = sealAccess cf ss" by blast
  then have "ss \<in> (if da_owner a = [] then free_seals i H \<union> idle_seals cf i H else owner_seals i H)"
    using seals_mono(1) [OF assms(2), of i] seals_mono(2) [OF assms(2), of i] seals_mono(3) [OF assms(2), of cf i]
    by (cases "da_owner a = []") auto
  then show ?thesis using b ss that [of ss] answers_mono(2) [OF assms(2)] by (auto simp: inner_seals_def split: if_splits)
qed

lemma verified_owner:
  assumes "apart cf (seals_of cf i H)" "verified cf i h a" "set h \<subseteq> set H" "verified cf i h' a'" "set h' \<subseteq> set H" "da_binding a = da_binding a'"
  shows "da_owner a = [] \<longleftrightarrow> da_owner a' = []"
proof -
  obtain ss where ss: "da_binding a = sealAccess cf [''verified'', da_scope a, i, sealAccess cf ss]" "da_scope a \<in> scope_answers H"
    "ss \<in> (if da_owner a = [] then free_seals i H \<union> idle_seals cf i H else owner_seals i H)" "ss \<in> inner_seals cf i H"
    using verified_seal [OF assms(2,3)] by metis
  obtain ts where ts: "da_binding a' = sealAccess cf [''verified'', da_scope a', i, sealAccess cf ts]" "da_scope a' \<in> scope_answers H"
    "ts \<in> (if da_owner a' = [] then free_seals i H \<union> idle_seals cf i H else owner_seals i H)" "ts \<in> inner_seals cf i H"
    using verified_seal [OF assms(4,5)] by metis
  have same: "map go_quote ss = map go_quote ts"
    using assms(6) unfolding ss(1) ts(1) by (rule verified_inner [OF assms(1) ss(2) ts(2) ss(4) ts(4)])
  have differ: False if u: "us \<in> owner_seals i H" and v: "vs \<in> free_seals i H \<union> idle_seals cf i H" and eq: "map go_quote us = map go_quote vs" for us vs
  proof -
    obtain k r k' r' where "us = k # r" "k \<in> {''unconfirmed'', ''desktop''}" "vs = k' # r'" "k' \<in> {''history'', ''scope'', ''idle-recovery''}"
      using seal_kinds(1) [OF u] seal_kinds(2) [OF v] by blast
    then show False using quoted_kinds [of k r k' r'] eq kinds_quote by auto
  qed
  show ?thesis using ss(3) ts(3) same differ [of ss ts] differ [of ts ss] by (auto split: if_splits)
qed

lemma verified_catalog:
  assumes "apart cf (seals_of cf i H)" "verified cf i h a" "set h \<subseteq> set H" "scope \<in> scope_answers H"
  shows "da_binding a \<noteq> sealAccess cf [''catalog'', scope, i]"
proof
  obtain ss where ss: "da_binding a = sealAccess cf [''verified'', da_scope a, i, sealAccess cf ss]" "da_scope a \<in> scope_answers H"
    "ss \<in> inner_seals cf i H" using verified_seal [OF assms(2,3)] by metis
  assume "da_binding a = sealAccess cf [''catalog'', scope, i]"
  then have "sealAccess cf [''verified'', da_scope a, i, sealAccess cf ss] = sealAccess cf [''catalog'', scope, i]" using ss(1) by simp
  from sealed_unique [OF assms(1) seals_outer(1) [OF ss(2,3)] seals_outer(2) [OF assms(4)] this]
  show False using quoted_kinds [of "''verified''" _ "''catalog''"] kinds_quote by simp
qed

lemma confirmed_unowned:
  assumes "apart cf (seals_of cf i h')" "verified cf i g a" "set g \<subseteq> set h'" "confirmed cf i (da_binding a) h'" "da_owner a = []"
  shows "unowned i h'"
proof -
  obtain a' where a': "verified cf i h' a'" "da_binding a' = da_binding a"
    using assms(4) verified_catalog [OF assms(1-3)] by (auto simp: confirmed_def)
  then have "da_owner a' = []" using verified_owner [OF assms(1) a'(1) order_refl assms(2,3)] assms(5) by simp
  then show ?thesis using a'(1) by (simp add: verified_def)
qed

lemma verified_owned: "verified cf i h a \<Longrightarrow> da_owner a \<noteq> [] \<Longrightarrow> da_owner a \<in> owner_answers i h"
  by (auto simp: verified_def resolved_ok_def owned_ok_def)

text \<open>The entry whose desktop binding was sealed into an admission: it is the admitted one, at the same state.\<close>

lemma verified_view:
  assumes "apart cf (seals_of cf i H)" "verified cf i g a" "set g \<subseteq> set H" "da_owner a \<noteq> []"
    "da_binding a = sealAccess cf [''verified'', s, i, desktop_binding cf i own v]"
    "s \<in> scope_answers H" "own \<in> owner_answers i H" "v \<in> entry_answers i H"
  obtains e v0 where "da_entry a = Some e" "(QEntry i e, AView v0) \<in> set g" "ev_live v0" "da_connection a = ev_connection v0"
    "ev_generation v = ev_generation v0" "ev_epoch v = ev_epoch v0" "ev_connection v = ev_connection v0"
proof -
  obtain b where b: "da_binding a = sealAccess cf [''verified'', da_scope a, i, b]" "owned_ok cf i g b a" "da_scope a \<in> scope_answers H"
    using assms(2,4) answers_mono(2) [OF assms(3)] by (auto simp: verified_def resolved_ok_def)
  have own: "da_owner a \<in> owner_answers i H" using b(2) answers_mono(1) [OF assms(3)] by (auto simp: owned_ok_def)
  have target: "desktop_list i own v \<in> inner_seals cf i H" using desktop_seal [OF assms(7,8)] by (simp add: inner_seals_def)
  have same: "map go_quote ss = map go_quote (desktop_list i own v)" if "b = sealAccess cf ss" "ss \<in> owner_seals i H" for ss
  proof (rule verified_inner [OF assms(1) b(3) assms(6) _ target])
    show "ss \<in> inner_seals cf i H" using that(2) by (simp add: inner_seals_def)
    show "sealAccess cf [''verified'', da_scope a, i, sealAccess cf ss] = sealAccess cf [''verified'', s, i, sealAccess cf (desktop_list i own v)]"
      using b(1) assms(5) that(1) by (simp add: desktop_binding_list)
  qed
  have "b \<noteq> sealAccess cf [''unconfirmed'', i, da_owner a]"
  proof
    assume "b = sealAccess cf [''unconfirmed'', i, da_owner a]"
    moreover have "[''unconfirmed'', i, da_owner a] \<in> owner_seals i H" using own by (simp add: owner_seals_def)
    ultimately have "map go_quote [''unconfirmed'', i, da_owner a] = map go_quote (desktop_list i own v)" by (rule same)
    then show False using quoted_kinds [of "''unconfirmed''" _ "''desktop''"] kinds_quote by (simp add: desktop_list_def)
  qed
  then obtain e v0 where v0: "da_entry a = Some e" "(QEntry i e, AView v0) \<in> set g" "ev_live v0" "da_connection a = ev_connection v0"
      "b = desktop_binding cf i (da_owner a) v0"
    using b(2) unfolding owned_ok_def by blast
  have "v0 \<in> entry_answers i H" using v0(2) assms(3) by (auto simp: entry_answers_def)
  from same [OF v0(5) [unfolded desktop_binding_list] desktop_seal [OF own this]]
  have "ev_generation v = ev_generation v0" "ev_epoch v = ev_epoch v0" "ev_connection v = ev_connection v0"
    by (simp_all add: desktop_list_def quote_number word_unat_eq_iff)
  then show ?thesis using that v0 by blast
qed


subsection \<open>Admission\<close>

text \<open>The request bound by \<open>b\<close> was admitted: its context carries the access that was verified for just this binding.\<close>

definition granted :: "access_config \<Rightarrow> string \<Rightarrow> string \<Rightarrow> history \<Rightarrow> ctx \<Rightarrow> desktop_access \<Rightarrow> bool" where
  "granted cf b i h c a \<longleftrightarrow> b \<noteq> [] \<and> b = da_binding a \<and>
     cx_admission c = Some \<lparr>ad_sessions = cf_self cf, ad_id = i, ad_access = a\<rparr> \<and> cx_recovery c = [] \<and>
     (\<exists>g. verified cf i g a \<and> set g \<subseteq> set h)"

lemma granted_more: "granted cf b i h c a \<Longrightarrow> grown h h' \<Longrightarrow> granted cf b i h' c a"
  unfolding granted_def using grown_set by blast

lemma admission_of_granted: "granted cf b i h c a \<Longrightarrow> admission_of cf c i = okp (Some \<lparr>ad_sessions = cf_self cf, ad_id = i, ad_access = a\<rparr>)"
  by (simp add: admission_of_def granted_def)

lemma admission_of_none: "cx_admission c = None \<Longrightarrow> admission_of cf c i = okp None"
  by (simp add: admission_of_def)

lemma bindp_okp [simp]: "bindp (okp x) f = f x"
  by (simp add: bindp_def)

lemma reading_admitAccess:
  assumes "cx_admission c = None" "cx_recovery c = []"
  shows "reading h (\<lambda>h' c'. c' = c \<and> cx_binding c = [] \<or> (\<exists>a. granted cf (cx_binding c) i h' c' a)) (admitAccess cf c i)"
  unfolding admitAccess_def using assms
  by (auto intro!: reading_bindp [OF reading_currentAccess] simp: granted_def sameBinding_def)

text \<open>What the created scope may be lent: a recovery mark only after a recoverable runtime was read, a native binding only after it was validated.\<close>

definition lent :: "string \<Rightarrow> history \<Rightarrow> ctx \<Rightarrow> bool" where
  "lent i h c \<longleftrightarrow>
     (cx_recovery c = [] \<or> cx_recovery c = i \<and>
        (\<exists>rt. ((QHistory i, ARuntime (Inr rt)) \<in> set h \<or> (QCreatedRead i, ARuntime (Inr rt)) \<in> set h) \<and> RecoverableRuntime rt)) \<and>
     (cx_binding c = [] \<or> (QNativeValidate i (cx_binding c), AError None) \<in> set h)"

lemma lent_more: "lent i h c \<Longrightarrow> grown h h' \<Longrightarrow> lent i h' c"
  unfolding lent_def using grown_set by blast

text \<open>Nobody owns the task, as far as the bindings that were compared can tell.\<close>

definition vacant :: "access_config \<Rightarrow> string \<Rightarrow> history \<Rightarrow> bool" where
  "vacant cf i h \<longleftrightarrow> (apart cf (seals_of cf i h) \<longrightarrow> unowned i h)"

lemma vacant_more: "vacant cf i h \<Longrightarrow> still h h' \<Longrightarrow> vacant cf i h'"
  unfolding vacant_def using apart_mono [OF _ seals_mono(5) [OF grown_set [OF still_grown]]] still_owner [of h h' i] by metis

lemma vacant_asked [simp]: "vacant cf i (h @ [(QOwner i, AText (Inr []))])"
  "plain q \<Longrightarrow> vacant cf i (h @ [(QOwner i, AText (Inr [])), (q, a)])"
  using last_owner_plain [of "[(q, a)]" i "h @ [(QOwner i, AText (Inr []))]"] by (simp_all add: vacant_def)

lemma vacant_confirmed:
  assumes "verified cf i g a" "set g \<subseteq> set h" "confirmed cf i (da_binding a) h" "da_owner a = []"
  shows "vacant cf i h"
  unfolding vacant_def using confirmed_unowned [OF _ assms] by blast

definition directed :: "access_config \<Rightarrow> string \<Rightarrow> string \<Rightarrow> history \<Rightarrow> string \<Rightarrow> ctx \<Rightarrow> bool" where
  "directed cf b i h own c \<longleftrightarrow>
     (own = [] \<longrightarrow> vacant cf i h) \<and>
     (cx_admission c = None \<and> b = [] \<and> lent i h c \<or> (\<exists>a. granted cf b i h c a \<and> own = da_owner a))"

lemma reading_scopedDestination:
  assumes "granted cf b i h c a"
  shows "reading h (\<lambda>h' d. d = Some (da_owner a) \<and> (da_owner a = [] \<longrightarrow> vacant cf i h')) (scopedDestination cf c i)"
proof -
  obtain g where g: "verified cf i g a" "set g \<subseteq> set h" using assms by (auto simp: granted_def)
  have "da_owner a = [] \<longrightarrow> vacant cf i h'" if "grown h h'" "confirmed cf i (da_binding a) h'" for h'
    using vacant_confirmed [OF g(1) subset_trans [OF g(2) grown_set [OF that(1)]] that(2)] by simp
  then show ?thesis
    unfolding scopedDestination_def admission_of_granted [OF assms] Let_def bindp_okp
    by (auto intro!: reading_bindp [OF reading_ValidateAccess])
qed

lemma scopedDestination_none: "cx_admission c = None \<Longrightarrow> scopedDestination cf c i = okp None"
  by (simp add: scopedDestination_def admission_of_none)

lemma reading_bool: "plain q \<Longrightarrow> reading h (\<lambda>h' _. still h h') (ask_bool q)"
  by (rule reading_asks) simp

lemma reading_recovery_context:
  assumes "cx_admission c = None" "cx_binding c = []" "cx_recovery c = []"
  shows "reading h (\<lambda>h' c'. cx_admission c' = None \<and> lent i h' c') (recovery_context cf c i mine)"
proof -
  have same: "lent i h' c" for h' using assms by (simp add: lent_def)
  have owned: "reading h (\<lambda>h' _. still h h') (if \<not> mine \<and> cf_provenance cf then ask_bool (QOwns i) else okp mine)"
    using reading_bool by simp
  have mark: "lent i (h' @ [(if owned then QCreatedRead i else QHistory i, ARuntime (Inr rt))]) (WithIdleRecovery i c)" if "RecoverableRuntime rt" for h' owned rt
    using assms that by (auto simp: lent_def WithIdleRecovery_def)
  have runtime: "reading h' (\<lambda>g rt. g = h' @ [(if owned then QCreatedRead i else QHistory i, ARuntime (Inr rt))])
      (ask_runtime (if owned then QCreatedRead i else QHistory i))" for h' owned
    by (rule reading_ask_runtime) simp_all
  have adm: "cx_admission (WithIdleRecovery i c) = None" using assms by (simp add: WithIdleRecovery_def)
  have tail: "reading h' (\<lambda>h' c'. cx_admission c' = None \<and> lent i h' c')
      (bindp (ask_runtime (if owned then QCreatedRead i else QHistory i)) (\<lambda>rt.
         if owned \<and> (case rt of None \<Rightarrow> False | Some r \<Rightarrow> r_Status r = ''active'' \<and> r_ActiveTurnID r \<noteq> None \<and> r_ActiveTurnID r \<noteq> Some [])
         then okp c else if \<not> RecoverableRuntime rt then failp unavailable else okp (WithIdleRecovery i c)))" for h' owned
    by (rule reading_bindp [OF runtime]) (use assms(1) same adm mark in simp)
  consider (lone) "mine \<and> \<not> cf_provenance cf" | (bare) "\<not> (mine \<and> \<not> cf_provenance cf)" "\<not> cf_created cf \<or> \<not> cf_history cf"
    | (both) "\<not> (mine \<and> \<not> cf_provenance cf)" "\<not> (\<not> cf_created cf \<or> \<not> cf_history cf)" by blast
  then show ?thesis
  proof cases
    case lone
    then show ?thesis using assms(1) same by (simp add: recovery_context_def)
  next
    case bare
    then show ?thesis unfolding recovery_context_def by (simp only: if_False if_True) simp
  next
    case both
    show ?thesis unfolding recovery_context_def using both by (simp only: if_False) (rule reading_bindp [OF owned tail])
  qed
qed


lemma reading_bool_if:
  "reading h (\<lambda>_ _. True) (if \<not> cf_created cf then okp False else if cf_provenance cf then ask_bool (QCreated i) else created cf i)"
  using reading_weaken [OF reading_bool [of "QCreated i" h]] reading_weaken [OF reading_created [of h cf i]] by simp

lemma reading_mutationDestination:
  assumes "cx_admission c = None" "cx_recovery c = []"
  shows "reading h (\<lambda>h' (own, c'). directed cf (cx_binding c) i h' own c') (mutationDestination cf c i)"
proof -
  have lone: "reading g (\<lambda>h' (own, c'). directed cf (cx_binding c) i h' own c')
      (bindp (scopedDestination cf c i) (\<lambda>scoped. case scoped of Some own \<Rightarrow> okp (own, c) | None \<Rightarrow>
        bindp (ask_text (QOwner i)) (\<lambda>own. if own \<noteq> [] then okp (own, c)
          else bindp (if \<not> cf_created cf then okp False else if cf_provenance cf then ask_bool (QCreated i) else created cf i) (\<lambda>mine.
            bindp (recovery_context cf c i mine) (\<lambda>c. bindp (ask_text (QOwner i)) (\<lambda>own.
              if own \<noteq> [] then failp unavailable else bindp (ask_error QContext) (\<lambda>_. okp ([], c))))))))"
    if "cx_binding c = []" for g
  proof -
    have "lent i g' c" for g' using that assms(2) by (simp add: lent_def)
    moreover have "lent i (h' @ [(QOwner i, AText (Inr [])), (QContext, AError None)]) c'" if "lent i h' c'" for h' c'
      by (rule lent_more [OF that]) (use grown_snoc [OF grown_simps(2), of "QOwner i" QContext] in simp)
    ultimately have rest: "reading g' (\<lambda>h' (own, c'). directed cf (cx_binding c) i h' own c')
        (bindp (recovery_context cf c i mine) (\<lambda>c. bindp (ask_text (QOwner i)) (\<lambda>own.
           if own \<noteq> [] then failp unavailable else bindp (ask_error QContext) (\<lambda>_. okp ([], c)))))" for g' mine
      using assms(1) that
      by (auto intro!: reading_bindp [OF reading_recovery_context] reading_bindp [OF reading_ask_text] reading_bindp [OF reading_ask_error]
          simp: directed_def assms(2))
    have found: "directed cf (cx_binding c) i (g @ [(QOwner i, AText (Inr own))]) own c" if "own \<noteq> []" for own
      using \<open>cx_binding c = []\<close> assms(1,2) that by (simp add: directed_def lent_def)
    show ?thesis
      unfolding scopedDestination_none [OF assms(1)] bindp_okp option.case
    proof (rule reading_bindp [OF reading_ask_text], goal_cases)
      case (3 h' own)
      then show ?case
      proof (cases "own = []")
        case True
        show ?thesis unfolding True by (simp only: not_True_eq_False if_False simp_thms) (rule reading_bindp [OF reading_bool_if rest])
      next
        case False
        then show ?thesis using found 3 by simp
      qed
    qed simp_all
  qed
  have scoped: "reading g (\<lambda>h' (own, c'). directed cf (cx_binding c) i h' own c')
      (bindp (scopedDestination cf c' i) (\<lambda>scoped. case scoped of Some own \<Rightarrow> okp (own, c') | None \<Rightarrow> f c'))"
    if "granted cf (cx_binding c) i g c' a" for g c' a f
    by (rule reading_bindp [OF reading_scopedDestination [OF that]])
      (use granted_more [OF that] in \<open>auto simp: directed_def\<close>)
  show ?thesis
    unfolding mutationDestination_def
  proof (rule reading_bindp [OF reading_admitAccess [OF assms(1,2)]], goal_cases)
    case (1 h' c')
    from 1(2) show ?case
    proof (elim disjE conjE exE)
      assume "c' = c" "cx_binding c = []"
      then show ?case using lone [of h'] by (simp only:)
    next
      fix a
      assume "granted cf (cx_binding c) i h' c' a"
      then show ?case by (rule scoped)
    qed
  qed
qed

lemma reading_destination:
  assumes "cx_admission c = None \<and> b = [] \<and> lent i h c \<or> (\<exists>a. granted cf b i h c a)"
  shows "reading h (\<lambda>h' own. directed cf b i h' own c) (destination cf c i)"
  using assms
proof
  assume none: "cx_admission c = None \<and> b = [] \<and> lent i h c"
  have more: "lent i (h @ [(QOwner i, a)]) c" for a
    by (rule lent_more [of i h]) (use none in simp_all)
  have twice: "lent i (h' @ [(QOwner i, a)]) c" if "grown h h'" for h' a
    by (rule lent_more [of i h]) (use none grown_snoc [OF that] in simp_all)
  have again: "grown h h'" if "grown (h @ [(QOwner i, a)]) h'" for h' a
    by (rule grown_trans [OF _ that]) simp
  show ?thesis
    unfolding destination_def scopedDestination_none [OF conjunct1 [OF none]] using none more twice again
    by (auto intro!: reading_bindp [OF reading_ask_text] reading_bindp [OF reading_created] simp: directed_def)
next
  assume "\<exists>a. granted cf b i h c a"
  then obtain a where a: "granted cf b i h c a" ..
  show ?thesis
    unfolding destination_def
    by (rule reading_bindp [OF reading_scopedDestination [OF a]]) (use granted_more [OF a] in \<open>auto simp: directed_def\<close>)
qed


lemma reading_scopedMutationContext:
  assumes "directed cf b i h own c"
  shows "reading h (\<lambda>h' c'. if own = [] then vacant cf i h' \<and> lent i h' c' \<and> (b \<noteq> [] \<longrightarrow> confirmed cf i b h') else c' = c \<and> directed cf b i h' own c)
    (scopedMutationContext cf c i operation)"
proof (cases "cx_admission c")
  case None
  then have "lent i h c" "b = []" using assms by (auto simp: directed_def granted_def)
  then show ?thesis using None assms by (simp add: scopedMutationContext_def admission_of_none directed_def)
next
  case (Some ad)
  then obtain a where a: "granted cf b i h c a" "own = da_owner a" using assms by (auto simp: directed_def)
  then obtain g where g: "verified cf i g a" "set g \<subseteq> set h" by (auto simp: granted_def)
  have evidence: "evidence_ok i h' a" if "grown h h'" for h'
    using g grown_set [OF that] unfolding verified_def resolved_ok_def evidence_ok_def by blast
  have owned: "directed cf b i (h @ [(QContext, AError None)]) own c" if "own \<noteq> []"
    using that a granted_more [OF a(1), of "h @ [(QContext, AError None)]"] by (auto simp: directed_def)
  define c' where "c' = (if da_recovery a then WithIdleRecovery i (c\<lparr>cx_binding := []\<rparr>) else c\<lparr>cx_binding := da_native a\<rparr>)"
  have plain_context: "cx_recovery c = []" using a(1) by (simp add: granted_def)
  have lend: "lent i h' c'" if "grown h h'" for h'
    using evidence [OF that] plain_context by (auto simp: lent_def c'_def WithIdleRecovery_def evidence_ok_def)
  have b: "b = da_binding a" using a(1) by (simp add: granted_def)
  have free: "vacant cf i h''" "confirmed cf i b h''" "lent i h'' c'"
    if "confirmed cf i (da_binding a) h'" "own = []" "grown h h'" "h'' = h' @ [(QContext, AError None)]" for h' h''
  proof -
    have gr: "grown h h''" using grown_snoc [OF that(3)] that(4) by simp
    have conf: "confirmed cf i (da_binding a) h''" using confirmed_more [OF that(1)] that(4) by simp
    show "vacant cf i h''"
      by (rule vacant_confirmed [OF g(1) subset_trans [OF g(2) grown_set [OF gr]] conf]) (use that(2) a(2) in simp)
    show "confirmed cf i b h''" "lent i h'' c'" using conf b lend [OF gr] by simp_all
  qed
  show ?thesis
    unfolding scopedMutationContext_def admission_of_granted [OF a(1)] Let_def bindp_okp
    using owned a(2) free [unfolded c'_def]
    by (auto intro!: reading_bindp [OF reading_ask_error] reading_bindp [OF reading_ValidateAccess] split: if_splits)
qed

subsection \<open>What is dispatched\<close>

definition same_entry :: "entry_view \<Rightarrow> entry_view \<Rightarrow> bool" where
  "same_entry v w \<longleftrightarrow> ev_generation v = ev_generation w \<and> ev_epoch v = ev_epoch w \<and> ev_connection v = ev_connection w"

text \<open>
  A desktop request names the task and goes to the owner that answered last. A scoped one is bound to the current
  connection, right after the entry was seen live, of that owner and as it was when access was admitted, and
  the binding \<open>b\<close> of the request is the one sealed from what was seen.
\<close>

definition addressed :: "string \<Rightarrow> history \<Rightarrow> string \<Rightarrow> props \<Rightarrow> bool" where
  "addressed i h own ps \<longleftrightarrow> own \<noteq> [] \<and> last_owner i h = Some (AText (Inr own)) \<and> field ps ''conversationId'' = GStr i"

definition pinned :: "access_config \<Rightarrow> string \<Rightarrow> string \<Rightarrow> history \<Rightarrow> string \<Rightarrow> 64 word \<Rightarrow> bool" where
  "pinned cf b i h own g \<longleftrightarrow> g \<noteq> 0 \<and>
     (\<exists>h1 e v w scope. h = h1 @ [(QEntry i e, AView v), (QContext, AError None)] \<and> (QEntry i e, AView w) \<in> set h1 \<and>
        (QGeneration, AGeneration g) \<in> set h1 \<and> (QScope, AText (Inr scope)) \<in> set h1 \<and>
        b = sealAccess cf [''verified'', scope, i, desktop_binding cf i own v] \<and> ev_live v \<and> ev_owner v = own \<and> same_entry v w \<and> ev_connection v = g)"

text \<open>
  What a request with the access binding \<open>b\<close> may dispatch; an unscoped one has none. Only an unscoped request may go
  to whatever connection the owner has now; the created scope serves a scoped one only with its binding confirmed.
\<close>

definition dispatched :: "access_config \<Rightarrow> string \<Rightarrow> string \<Rightarrow> history \<Rightarrow> query \<Rightarrow> bool" where
  "dispatched cf b i h q \<longleftrightarrow> (case q of
     QRequest own name n ps \<Rightarrow> b = [] \<and> addressed i h own ps
   | QBound g own name n ps \<Rightarrow> b \<noteq> [] \<and> addressed i h own ps \<and> pinned cf b i h own g
   | QCreatedSend c j t cl \<Rightarrow> j = i \<and> unowned i h \<and> lent i h c \<and> (b \<noteq> [] \<longrightarrow> confirmed cf i b h)
   | QCreatedStop c j t \<Rightarrow> j = i \<and> unowned i h \<and> lent i h c \<and> (b \<noteq> [] \<longrightarrow> confirmed cf i b h)
   | QCreatedUpdate c j patch \<Rightarrow> j = i \<and> unowned i h \<and> lent i h c \<and> (b \<noteq> [] \<longrightarrow> confirmed cf i b h)
   | _ \<Rightarrow> False)"

definition permitted :: "access_config \<Rightarrow> string \<Rightarrow> string \<Rightarrow> history \<Rightarrow> query \<Rightarrow> bool" where
  "permitted cf b i h q \<longleftrightarrow> reads q \<or> \<not> mutated h \<and> (apart cf (seals_of cf i h) \<longrightarrow> dispatched cf b i h q)"

abbreviation guarded :: "access_config \<Rightarrow> string \<Rightarrow> string \<Rightarrow> history \<Rightarrow> 'a prog \<Rightarrow> bool" where
  "guarded cf b i \<equiv> safe (permitted cf b i) (\<lambda>_ _. True)"

lemma guarded_reading:
  "reading h R p \<Longrightarrow> (\<And>h' x. grown h h' \<Longrightarrow> R h' x \<Longrightarrow> guarded cf b i h' (f x)) \<Longrightarrow> guarded cf b i h (bindp p f)"
  unfolding safe_bindp by (erule reading_safe) (auto simp: permitted_def)

lemma guarded_asks: "asks reads p \<Longrightarrow> guarded cf b i h p"
  by (rule asks_safe [where S = reads]) (auto simp: permitted_def)

lemma guarded_then: "guarded cf b i h p \<Longrightarrow> (\<And>x. asks reads (f x)) \<Longrightarrow> guarded cf b i h (bindp p f)"
  unfolding safe_bindp by (erule safe_mono) (auto split: sum.split intro: guarded_asks)

lemma asks_weaken: "asks S p \<Longrightarrow> (\<And>q. S q \<Longrightarrow> T q) \<Longrightarrow> asks T p"
  unfolding asks_def by (erule safe_mono)

lemma still_mutated: "grown h h' \<Longrightarrow> \<not> mutated h \<Longrightarrow> \<not> mutated h'"
  by (simp add: grown_mutated)

lemma guarded_requestOperation:
  assumes "directed cf b i h own c" "own \<noteq> []" "addressed i h own ps" "\<not> mutated h"
  shows "guarded cf b i h (requestOperation cf c i own name num ps)"
proof (cases "cx_admission c")
  case None
  have "guarded cf b i h (ask_reply (QRequest own name num ps))"
    using assms(1,3,4) None by (auto simp: safe_ask_reply permitted_def dispatched_def directed_def granted_def)
  then show ?thesis using None by (simp add: requestOperation_def admission_of_none)
next
  case (Some ad)
  then obtain a where a: "granted cf b i h c a" "own = da_owner a" using assms(1) by (auto simp: directed_def)
  then obtain g where g: "verified cf i g a" "set g \<subseteq> set h" and b: "b \<noteq> []" "b = da_binding a" by (auto simp: granted_def)
  have send: "guarded cf b i h1 (bindp (ask_entry i e) (\<lambda>v.
      if \<not> (ev_live v \<and> ev_owner v = own \<and> sameBinding (da_binding a) (sealAccess cf [''verified'', scope, i, desktop_binding cf i own v]))
      then failp unavailable else bindp (ask_error QContext) (\<lambda>_. ask_reply (QBound (da_connection a) own name num ps))))"
    if h1: "still h h1" "(QGeneration, AGeneration (da_connection a)) \<in> set h1" "da_entry a = Some e" "da_connection a \<noteq> 0"
      "scope \<in> scope_answers h1" for h1 e scope
  proof (rule guarded_reading [OF reading_ask_entry], goal_cases)
    case (1 h' v)
    have "guarded cf b i h' (bindp (ask_error QContext) (\<lambda>_. ask_reply (QBound (da_connection a) own name num ps)))"
      if v: "ev_live v" "ev_owner v = own" "da_binding a = sealAccess cf [''verified'', scope, i, desktop_binding cf i own v]"
    proof (rule guarded_reading [OF reading_ask_error], goal_cases)
      case (3 h'' x)
      have shape: "h'' = h1 @ [(QEntry i e, AView v), (QContext, AError None)]" using 1(2) 3(2) by simp
      have calm: "still h h''" using h1(1) unfolding shape still_def by auto
      have asked: "addressed i h'' own ps" using assms(3) still_owner [OF calm, of i] by (simp add: addressed_def)
      have "pinned cf b i h'' own (da_connection a)" if far: "apart cf (seals_of cf i h'')"
      proof -
        have "da_owner a \<in> owner_answers i h''"
          using verified_owned [OF g(1)] a(2) assms(2) answers_mono(1) [OF subset_trans [OF g(2) grown_set [OF still_grown [OF calm]]]] by auto
        then have own: "own \<in> owner_answers i h''" using a(2) by simp
        have scope: "scope \<in> scope_answers h''" and view: "v \<in> entry_answers i h''"
          using h1(5) by (auto simp: shape scope_answers_def entry_answers_def)
        obtain e' w where w: "da_entry a = Some e'" "(QEntry i e', AView w) \<in> set g" "da_connection a = ev_connection w"
            "ev_generation v = ev_generation w" "ev_epoch v = ev_epoch w" "ev_connection v = ev_connection w"
          by (rule verified_view [OF far g(1) subset_trans [OF g(2) grown_set [OF still_grown [OF calm]]] _ v(3) scope own view])
            (use a(2) assms(2) in simp)
        have "(QScope, AText (Inr scope)) \<in> set h1" using h1(5) by (simp add: scope_answers_def)
        moreover have "(QEntry i e, AView w) \<in> set h1" using w(1,2) h1(3) g(2) grown_set [OF still_grown [OF h1(1)]] by auto
        ultimately show ?thesis
          unfolding pinned_def shape using w h1(2,4) v b(2) by (intro conjI exI [of _ h1] exI [of _ e] exI [of _ v] exI [of _ w] exI [of _ scope])
            (simp_all add: same_entry_def)
      qed
      then have "permitted cf b i h'' (QBound (da_connection a) own name num ps)"
        using asked b(1) still_mutated [OF still_grown [OF calm] assms(4)] by (simp add: permitted_def dispatched_def)
      then show ?case by (simp add: safe_ask_reply)
    qed simp_all
    then show ?case by (simp add: sameBinding_def)
  qed
  show ?thesis
  proof (cases "\<not> cf_bound cf \<or> da_owner a \<noteq> own \<or> da_entry a = None \<or> da_connection a = 0")
    case True
    then show ?thesis by (auto simp: requestOperation_def admission_of_granted [OF a(1)] split: option.split)
  next
    case False
    then obtain e where e: "da_entry a = Some e" by auto
    have scoped: "guarded cf b i h1 (bindp (accessScope cf i) (\<lambda>scope. if scope \<noteq> da_scope a then failp unavailable else
        bindp (ask_entry i e) (\<lambda>v.
          if \<not> (ev_live v \<and> ev_owner v = own \<and> sameBinding (da_binding a) (sealAccess cf [''verified'', scope, i, desktop_binding cf i own v]))
          then failp unavailable else bindp (ask_error QContext) (\<lambda>_. ask_reply (QBound (da_connection a) own name num ps)))))"
      if "h1 = h @ [(QGeneration, AGeneration (da_connection a))]" for h1
    proof (rule guarded_reading [OF reading_accessScope], goal_cases)
      case (1 h' scope)
      have "still h h'" "(QGeneration, AGeneration (da_connection a)) \<in> set h'"
        using 1(2) that by (auto simp: still_def)
      from send [OF this e _ conjunct2 [OF 1(2)]] False show ?case by (cases "scope = da_scope a") simp_all
    qed
    have "guarded cf b i h (bindp ask_generation (\<lambda>g. if g \<noteq> da_connection a then failp unavailable else
        bindp (accessScope cf i) (\<lambda>scope. if scope \<noteq> da_scope a then failp unavailable else
        bindp (ask_entry i e) (\<lambda>v.
          if \<not> (ev_live v \<and> ev_owner v = own \<and> sameBinding (da_binding a) (sealAccess cf [''verified'', scope, i, desktop_binding cf i own v]))
          then failp unavailable else bindp (ask_error QContext) (\<lambda>_. ask_reply (QBound (da_connection a) own name num ps))))))"
      by (rule guarded_reading [OF reading_ask_generation]) (use scoped in simp)
    then show ?thesis using False e by (simp add: requestOperation_def admission_of_granted [OF a(1)])
  qed
qed


lemma reading_controlState: "reading h (\<lambda>h' _. still h h') (controlState i own)"
  by (rule reading_asks [OF asks_controlState])

lemma directed_more:
  assumes "directed cf b i h own c" "still h h'"
  shows "directed cf b i h' own c"
  using assms(1) lent_more [OF _ still_grown [OF assms(2)]] granted_more [OF _ still_grown [OF assms(2)]] vacant_more [OF _ assms(2)]
  unfolding directed_def by blast

lemma guarded_native_operation:
  assumes "directed cf b i h own c" "own \<noteq> []" "\<not> mutated h"
  shows "guarded cf b i h (native_operation cf c i own name num ps)"
  unfolding native_operation_def
proof (rule guarded_reading [OF reading_ask_text], goal_cases)
  case (3 h' current)
  have "guarded cf b i h' (requestOperation cf c i own name num ((''conversationId'', GStr i) # ps))" if "current = own"
  proof (rule guarded_requestOperation [OF _ assms(2)])
    show "directed cf b i h' own c"
      using assms(1,2) lent_more [OF _ 3(1)] granted_more [OF _ 3(1)] unfolding directed_def by blast
    show "addressed i h' own ((''conversationId'', GStr i) # ps)"
      using 3(2) that assms(2) by (simp add: addressed_def field_def)
    show "\<not> mutated h'" using still_mutated [OF 3(1) assms(3)] .
  qed
  then show ?case by (auto intro!: guarded_then)
qed simp_all

lemma guarded_send_desktop:
  assumes "directed cf b i h own c" "own \<noteq> []" "\<not> mutated h"
  shows "guarded cf b i h (send_desktop cf c i own t cl)"
  unfolding send_desktop_def
proof (rule guarded_reading [OF reading_controlState], goal_cases)
  case (1 h' state)
  have "guarded cf b i h' (native_operation cf c i own name num ps)" for name num ps
    by (rule guarded_native_operation [OF directed_more [OF assms(1) 1(2)] assms(2) still_mutated [OF 1(1) assms(3)]])
  then show ?case by (auto intro!: guarded_then simp: Let_def split: sum.split)
qed

lemma guarded_stop_desktop:
  assumes "directed cf b i h own c" "own \<noteq> []" "\<not> mutated h"
  shows "guarded cf b i h (stop_desktop cf c i own turn)"
  unfolding stop_desktop_def
proof (rule guarded_reading [OF reading_controlState], goal_cases)
  case (1 h' state)
  have "guarded cf b i h' (native_operation cf c i own name num ps)" for name num ps
    by (rule guarded_native_operation [OF directed_more [OF assms(1) 1(2)] assms(2) still_mutated [OF 1(1) assms(3)]])
  then show ?case by (auto intro!: guarded_then split: sum.split)
qed

lemma asks_Models: "asks plain (Models cf)"
  by (simp add: Models_def)

lemma guarded_update_desktop:
  assumes "directed cf b i h own c" "own \<noteq> []" "\<not> mutated h"
  shows "guarded cf b i h (update_desktop cf c i own patch)"
  unfolding update_desktop_def
proof (rule guarded_reading [OF reading_controlState], goal_cases)
  case (1 h1 state)
  show ?case
  proof (rule guarded_reading [OF reading_asks [OF asks_Models]], goal_cases)
    case (1 h2 catalog)
    have h2: "directed cf b i h2 own c" "\<not> mutated h2"
      using directed_more [OF directed_more [OF assms(1) \<open>still h h1\<close>] 1(2)]
        still_mutated [OF 1(1) still_mutated [OF \<open>grown h h1\<close> assms(3)]] by simp_all
    have request: "guarded cf b i h3 (bindp (native_operation cf c i own name num ps)
        (\<lambda>r. if field (fields_of r) ''applied'' \<noteq> GBool True then failp settings_unconfirmed else ask_error (QConfirm e rv patch)))"
      if "still h2 h3" for h3 name num ps e rv
      by (rule guarded_then [OF guarded_native_operation [OF directed_more [OF h2(1) that] assms(2) still_mutated [OF still_grown [OF that] h2(2)]]])
        simp
    have current: "reading h2 (\<lambda>h' _. still h2 h') (ask_current i)" by (rule reading_asks) simp
    have "guarded cf b i h2 (bindp (ask_current i) (\<lambda>cur. case cur of None \<Rightarrow> failp unavailable
        | Some (e, entry_owner, bad, rv) \<Rightarrow> if entry_owner \<noteq> own \<or> bad then failp unavailable
          else bindp (native_operation cf c i own name num ps)
            (\<lambda>r. if field (fields_of r) ''applied'' \<noteq> GBool True then failp settings_unconfirmed else ask_error (QConfirm e rv patch))))" for name num ps
      by (rule guarded_reading [OF current]) (use request in \<open>auto split: option.split\<close>)
    then show ?case
      by (cases "ValidateSettings patch catalog
          (if Text (field state ''latestModel'') = [] then None else Some (Text (field state ''latestModel'')))")
        (simp_all only: Let_def option.case safe.simps)
  qed
qed

subsection \<open>The handlers\<close>

lemma guarded_Send:
  assumes "cx_admission c = None" "cx_recovery c = []"
  shows "guarded cf (cx_binding c) i [] (Send cf c i t cl)"
  unfolding Send_def
proof (rule guarded_reading [OF reading_mutationDestination [OF assms]], goal_cases)
  case (1 h x)
  obtain own c' where x: "x = (own, c')" by (cases x)
  have dir: "directed cf (cx_binding c) i h own c'" using 1(2) x by simp
  have clean: "\<not> mutated h" using still_mutated [OF 1(1)] by (simp add: mutated_def)
  show ?case
    unfolding x prod.case
  proof (rule guarded_reading [OF reading_scopedMutationContext [OF dir]], goal_cases)
    case (1 h' c'')
    have "\<not> mutated h'" using still_mutated [OF 1(1) clean] .
    then show ?case using 1(2) guarded_send_desktop [of cf "cx_binding c" i h' own c''] 
      by (auto simp: safe_ask_receipt permitted_def dispatched_def vacant_def split: if_splits)
  qed
qed

lemma guarded_UpdateSettings:
  assumes "cx_admission c = None" "cx_recovery c = []"
  shows "guarded cf (cx_binding c) i [] (UpdateSettings cf c i patch)"
  unfolding UpdateSettings_def
proof (rule guarded_reading [OF reading_mutationDestination [OF assms]], goal_cases)
  case (1 h x)
  obtain own c' where x: "x = (own, c')" by (cases x)
  have dir: "directed cf (cx_binding c) i h own c'" using 1(2) x by simp
  have clean: "\<not> mutated h" using still_mutated [OF 1(1)] by (simp add: mutated_def)
  show ?case
    unfolding x prod.case
  proof (rule guarded_reading [OF reading_scopedMutationContext [OF dir]], goal_cases)
    case (1 h' c'')
    have "\<not> mutated h'" using still_mutated [OF 1(1) clean] .
    moreover have "reading h' (\<lambda>g _. g = h') (scopedSettings cf c'' i patch)"
      by (simp add: scopedSettings_def admission_of_def Let_def bindp_def split: option.split)
    ultimately show ?case using 1(2) guarded_update_desktop [of cf "cx_binding c" i h' own c'']
      by (auto intro!: guarded_reading simp: safe_ask_error permitted_def dispatched_def vacant_def split: if_splits)
  qed
qed

lemma guarded_Stop:
  assumes "cx_admission c = None" "cx_recovery c = []"
  shows "guarded cf (cx_binding c) i [] (Stop cf c i turn)"
  unfolding Stop_def
proof (rule guarded_reading [OF reading_admitAccess [OF assms]], goal_cases)
  case (1 h c1)
  have known: "cx_admission c1 = None \<and> cx_binding c = [] \<and> lent i h c1 \<or> (\<exists>a. granted cf (cx_binding c) i h c1 a)"
    using 1(2) assms by (auto simp: lent_def)
  show ?case
  proof (rule guarded_reading [OF reading_destination [OF known]], goal_cases)
    case (1 h1 own)
    have clean: "\<not> mutated h1" using still_mutated [OF 1(1) still_mutated [OF \<open>grown [] h\<close>]] by (simp add: mutated_def)
    show ?case
    proof (rule guarded_reading [OF reading_scopedMutationContext [OF 1(2)]], goal_cases)
      case (1 h2 c2)
      have "\<not> mutated h2" using still_mutated [OF 1(1) clean] .
      then show ?case using 1(2) guarded_stop_desktop [of cf "cx_binding c" i h2 own c2]
        by (auto simp: safe_ask_error permitted_def dispatched_def vacant_def split: if_splits)
    qed
  qed
qed


subsection \<open>Recorded conversations\<close>

lemma after_bindp: "after p s = Some (Ret (Inr x)) \<Longrightarrow> after (bindp p f) (s @ t) = after (f x) t"
  unfolding bindp_def by (induction p s rule: after.induct) (auto split: if_splits)

lemma after_continue: "after p s = Some (Ret r) \<Longrightarrow> after (continue p f) (s @ t) = after (f r) t"
  by (induction p s rule: after.induct) (auto split: if_splits)

lemma after_append: "after p s = Some q \<Longrightarrow> after p (s @ t) = after q t"
  by (induction p s rule: after.induct) (auto split: if_splits)

lemmas ask_defs = ask_error_def ask_text_def ask_bool_def ask_generation_def ask_runtime_def ask_native_def ask_addr_def ask_entry_def
  ask_state_def ask_current_def ask_models_def ask_reply_def ask_receipt_def

definition sample_config :: access_config where
  "sample_config = \<lparr>cf_self = 1, cf_created = True, cf_provenance = True, cf_native = True, cf_rebind = True, cf_history = True, cf_base = True, cf_scope = True,
     cf_bound = True, cf_mac = (\<lambda>s. s)\<rparr>"

definition sample_view :: entry_view where
  "sample_view = \<lparr>ev_live = True, ev_state = Some [], ev_owner = ''d'', ev_generation = 3, ev_epoch = 4, ev_connection = 7\<rparr>"

definition scope_talk :: history where
  "scope_talk = [(QContext, AError None), (QStopped, AFlag False), (QScope, AText (Inr ''s'')), (QContext, AError None)]"

definition entry_talk :: history where
  "entry_talk = [(QOwner ''t'', AText (Inr ''d'')), (QContext, AError None), (QAcquire ''t'' ''d'' True, AAddr (Inr (Some 5))),
     (QWait 5 True, AReady (Inr True)), (QEntry ''t'' 5, AView sample_view), (QGeneration, AGeneration 7), (QRelease 5, AError None)]"

definition owner_access :: desktop_access where
  "owner_access = (no_access sample_config)\<lparr>da_owner := ''d'', da_entry := Some 5, da_connection := 7,
     da_binding := desktop_binding sample_config ''t'' ''d'' sample_view,
     da_capabilities := desktop_capabilities sample_config [] ((readCapabilities sample_config)\<lparr>cap_Live := True\<rparr>)\<rparr>"

definition scoped_owner :: desktop_access where
  "scoped_owner = owner_access\<lparr>da_scope := ''s'',
     da_binding := sealAccess sample_config [''verified'', ''s'', ''t'', desktop_binding sample_config ''t'' ''d'' sample_view]\<rparr>"

lemma sample_config_simps [simp]:
  "cf_self sample_config = 1" "cf_created sample_config" "cf_provenance sample_config" "cf_native sample_config" "cf_rebind sample_config" "cf_history sample_config"
  "cf_base sample_config" "cf_scope sample_config" "cf_bound sample_config" "cf_mac sample_config = (\<lambda>s. s)"
  by (simp_all add: sample_config_def)

lemma sample_apart: "apart sample_config T"
  by (simp add: apart_inj)

lemma after_scope: "after (accessScope sample_config ''t'') scope_talk = Some (okp ''s'')"
  by (simp add: accessScope_def scope_talk_def bindp_def ask_defs answers_def accessScopePattern_def scope_char_def)

lemma after_entry: "after (resolveAccess sample_config ''t'') entry_talk = Some (okp owner_access)"
  by (simp add: resolveAccess_def readState_def entryAccess_def releasing_def entry_talk_def bindp_def ask_defs answers_def sample_view_def
      owner_access_def no_access_def Let_def)

lemma after_current_owner: "after (currentAccess sample_config ''t'') (scope_talk @ entry_talk @ scope_talk) = Some (okp scoped_owner)"
  by (simp add: currentAccess_def after_bindp [OF after_scope] after_bindp [OF after_entry] after_bindp [OF after_scope, where t = "[]", simplified]
      scoped_owner_def owner_access_def no_access_def)

lemma sealed_nonempty: "sealAccess cf ss = [] \<longleftrightarrow> cf_mac cf (strings_json ss) = []"
  by (cases "cf_mac cf (strings_json ss)" rule: list.exhaust; cases "tl (cf_mac cf (strings_json ss))"; cases "tl (tl (cf_mac cf (strings_json ss)))")
    (auto simp: sealAccess_def)

lemma scoped_owner_binding: "da_binding scoped_owner \<noteq> []"
  by (simp add: scoped_owner_def sealed_nonempty strings_json_def)

lemma scoped_owner_catalog: "da_binding scoped_owner \<noteq> sealAccess sample_config [''catalog'', a, b]"
proof
  assume "da_binding scoped_owner = sealAccess sample_config [''catalog'', a, b]"
  then have "sealAccess sample_config [''verified'', ''s'', ''t'', desktop_binding sample_config ''t'' ''d'' sample_view] =
      sealAccess sample_config [''catalog'', a, b]" by (simp add: scoped_owner_def)
  from sealed_unique [OF sample_apart UNIV_I UNIV_I this]
  show False using quoted_kinds [of "''verified''" _ "''catalog''"] kinds_quote by simp
qed

lemma after_validate: "after (ValidateAccess sample_config ''t'' (da_binding scoped_owner)) (scope_talk @ scope_talk @ entry_talk @ scope_talk) = Some (okp ())"
proof -
  have "after (CatalogAccess sample_config ''t'') scope_talk = Some (okp (publicAccess ''t'' (catalog_access sample_config ''s'' ''t'')))"
    by (simp add: CatalogAccess_def after_bindp [OF after_scope, where t = "[]", simplified])
  note catalog = after_continue [OF this]
  show ?thesis
    using scoped_owner_catalog scoped_owner_binding
    by (simp add: ValidateAccess_def catalog after_bindp [OF after_current_owner, where t = "[]", simplified] sameBinding_def)
      (simp add: publicAccess_def catalog_access_def)
qed


definition sample_ctx :: ctx where
  "sample_ctx = \<lparr>cx_binding = da_binding scoped_owner, cx_admission = None, cx_recovery = []\<rparr>"

definition granted_ctx :: ctx where
  "granted_ctx = sample_ctx\<lparr>cx_admission := Some \<lparr>ad_sessions = 1, ad_id = ''t'', ad_access = scoped_owner\<rparr>\<rparr>"

lemma sample_ctx_simps [simp]: "cx_binding sample_ctx = da_binding scoped_owner" "cx_admission sample_ctx = None" "cx_recovery sample_ctx = []"
  by (simp_all add: sample_ctx_def)

lemma granted_ctx_admission [simp]: "cx_admission granted_ctx = Some \<lparr>ad_sessions = 1, ad_id = ''t'', ad_access = scoped_owner\<rparr>"
  by (simp add: granted_ctx_def)

lemma scoped_owner_simps [simp]:
  "da_owner scoped_owner = ''d''" "da_entry scoped_owner = Some 5" "da_connection scoped_owner = 7" "da_scope scoped_owner = ''s''"
  "da_native scoped_owner = []" "\<not> da_recovery scoped_owner"
  by (simp_all add: scoped_owner_def owner_access_def)

lemma idle_state: "runtime_status [] = ''idle''" "active_turn [] = GNil"
  by (simp_all add: runtime_status_def active_turn_def latest_turn_def desktopTurns_def field_def fields_of_def Fields_def asArray_def
      turnStatus_def Text_def AsText_def Let_def)

lemma scoped_owner_send: "operation_allowed ''send'' (da_capabilities scoped_owner)"
proof -
  have "DesktopStatus (GMap []) = \<lparr>ss_ID = identityString GNil, ss_Status = Some ''idle'', ss_ActiveTurnID = None,
      ss_CompletedTurnID = turnIDPointer (completed_turn []), ss_HasUnreadTurn = False\<rparr>"
    by (simp add: DesktopStatus_def Let_def fields_of_def Fields_def field_def idle_state)
  then show ?thesis
    by (simp add: operation_allowed_def scoped_owner_def owner_access_def desktop_capabilities_def Let_def)
qed

definition destination_talk :: history where
  "destination_talk = (scope_talk @ entry_talk @ scope_talk) @ scope_talk @ scope_talk @ entry_talk @ scope_talk"

lemma after_destination: "after (mutationDestination sample_config sample_ctx ''t'') destination_talk = Some (okp (''d'', granted_ctx))"
proof -
  have admit: "after (admitAccess sample_config sample_ctx ''t'') (scope_talk @ entry_talk @ scope_talk) = Some (okp granted_ctx)"
    using scoped_owner_binding
    by (simp add: admitAccess_def after_bindp [OF after_current_owner, where t = "[]", simplified] sameBinding_def granted_ctx_def)
  have scoped: "after (scopedDestination sample_config granted_ctx ''t'') (scope_talk @ scope_talk @ entry_talk @ scope_talk) = Some (okp (Some ''d''))"
    by (simp add: scopedDestination_def admission_of_def after_bindp [OF after_validate, where t = "[]", simplified])
  show ?thesis
    unfolding mutationDestination_def destination_talk_def after_bindp [OF admit]
    by (simp add: after_bindp [OF scoped, where t = "[]", simplified])
qed

definition request_talk :: history where
  "request_talk = [(QContext, AError None), (QContext, AError None), (QAcquire ''t'' ''d'' False, AAddr (Inr (Some 5))),
     (QWait 5 False, AReady (Inr True)), (QSnapshot 5, AState (Inr [])), (QOwner ''t'', AText (Inr ''d'')),
     (QGeneration, AGeneration 7)] @ scope_talk @ [(QEntry ''t'' 5, AView sample_view), (QContext, AError None)]"

lemma idle_page: "ProjectDesktop (GMap []) False (Fin 128) =
    Inr \<lparr>g_Messages = [], g_Runtime = \<lparr>r_Status = ''idle'', r_ActiveTurnID = None, r_Model = stringPointer GNil, r_ContextTokens = None,
        r_ContextWindow = None, r_CompletedTurnID = Some (turnIDPointer (completed_turn [])), r_Effort = runtimeEffort [], r_ServiceTier = serviceTier []\<rparr>,
      g_InputReceipts = desktopInputReceipts []\<rparr>"
proof -
  have "desktopTurns [] = []" by (simp add: desktopTurns_def field_def Fields_def asArray_def Let_def)
  then show ?thesis
    by (simp add: ProjectDesktop_def Fields_def Let_def DesktopStatus_def idle_state fields_of_def field_def number_field_def
        slice_turns_def dedupe_messages_def ProjectMessages_def)
qed


subsection \<open>Properties\<close>

text \<open>
  C20. One call of \<open>Send\<close> dispatches at most one mutation, and only one it may, in a run in which none of the finitely
  many identities it sealed collide under the keyed hash (\<open>apart\<close>). A request without an access binding goes to the
  owner that answered last and names the task. A scoped one never goes that way: it is bound to the current connection,
  right after the admitted entry was seen live and unchanged, and its binding is the one sealed from what was seen. The
  created scope is used only when no owner answered, for a scoped request with its binding confirmed, and with a
  recovery mark or a native binding only after the runtime or the binding was verified.
\<close>

theorem send_dispatches:
  assumes "apart cf (seals_of cf i h)" "cx_admission c = None" "cx_recovery c = []"
    "after (Send cf c i t clientID) h = Some (Ask q k)" "mutates q"
  shows "\<not> mutated h \<and> dispatched cf (cx_binding c) i h q"
  using safe_ask [OF guarded_Send [OF assms(2,3)] assms(4)] assms(1,5) by (simp add: permitted_def reads_def)

lemma continue_assoc: "continue (continue p f) g = continue p (\<lambda>r. continue (f r) g)"
  by (induction p) auto

lemma bindp_assoc: "bindp (bindp p f) g = bindp p (\<lambda>x. bindp (f x) g)"
proof -
  have "(\<lambda>r. continue (case r of Inl e \<Rightarrow> Ret (Inl e) | Inr x \<Rightarrow> f x) (\<lambda>r. case r of Inl e \<Rightarrow> Ret (Inl e) | Inr x \<Rightarrow> g x)) =
      (\<lambda>r. case r of Inl e \<Rightarrow> Ret (Inl e) | Inr x \<Rightarrow> continue (f x) (\<lambda>r. case r of Inl e \<Rightarrow> Ret (Inl e) | Inr x \<Rightarrow> g x))"
    by (rule ext) (simp split: sum.split)
  then show ?thesis by (simp add: bindp_def continue_assoc)
qed

lemma after_question:
  "wants q = KError \<Longrightarrow> after (bindp (ask_error q) f) ((q, AError None) # h) = after (f ()) h"
  "wants q = KText \<Longrightarrow> after (bindp (ask_text q) ft) ((q, AText (Inr s)) # h) = after (ft s) h"
  "wants q = KAddr \<Longrightarrow> after (bindp (ask_addr q) f') ((q, AAddr (Inr e)) # h) = after (f' e) h"
  "wants q = KReady \<Longrightarrow> after (bindp (ask_bool q) fb) ((q, AReady (Inr b)) # h) = after (fb b) h"
  "wants q = KBool \<Longrightarrow> after (bindp (ask_bool q) fb) ((q, ABool (Inr b)) # h) = after (fb b) h"
  "wants q = KFlag \<Longrightarrow> after (bindp (ask_bool q) fb) ((q, AFlag b) # h) = after (fb b) h"
  "wants q = KRuntime \<Longrightarrow> after (bindp (ask_runtime q) fr) ((q, ARuntime (Inr r)) # h) = after (fr r) h"
  "after (bindp (ask_state e') fs) ((QSnapshot e', AState (Inr st)) # h) = after (fs st) h"
  "after (bindp ask_generation fg) ((QGeneration, AGeneration g) # h) = after (fg g) h"
  "after (bindp (ask_entry i e') fv) ((QEntry i e', AView v) # h) = after (fv v) h"
  by (simp_all add: bindp_def ask_defs answers_def)

lemma after_reply: "\<exists>k. bindp (ask_reply q) f = Ask q k"
  by (simp add: bindp_def ask_reply_def)

lemma after_request:
  "\<exists>k. after (bindp (scopedMutationContext sample_config granted_ctx ''t'' ''send'') (\<lambda>c. send_desktop sample_config c ''t'' ''d'' t cl)) request_talk =
    Some (Ask (QBound 7 ''d'' ''thread-follower-start-turn'' 2 ((''conversationId'', GStr ''t'') # start_params ''t'' t cl)) k)"
proof -
  have seal: "sameBinding (da_binding scoped_owner) (sealAccess sample_config [''verified'', ''s'', ''t'', desktop_binding sample_config ''t'' ''d'' sample_view])"
    using scoped_owner_binding by (simp add: sameBinding_def scoped_owner_def)
  have view: "ev_live sample_view" "ev_owner sample_view = ''d''" by (simp_all add: sample_view_def)
  show ?thesis
    by (simp add: scopedMutationContext_def send_desktop_def controlState_def native_operation_def requestOperation_def admission_of_def bindp_assoc
        scoped_owner_send request_talk_def after_question after_bindp [OF after_scope] idle_page view seal after_reply)
qed

theorem send_dispatches_witness:
  "\<exists>h q. mutates q \<and> \<not> mutated h \<and> dispatched sample_config (da_binding scoped_owner) ''t'' h q \<and> h = destination_talk @ request_talk \<and>
     q = QBound 7 ''d'' ''thread-follower-start-turn'' 2 ((''conversationId'', GStr ''t'') # start_params ''t'' ''hi'' ''c'')"
proof -
  let ?q = "QBound 7 ''d'' ''thread-follower-start-turn'' 2 ((''conversationId'', GStr ''t'') # start_params ''t'' ''hi'' ''c'')"
  obtain k where "after (Send sample_config sample_ctx ''t'' ''hi'' ''c'') (destination_talk @ request_talk) = Some (Ask ?q k)"
    using after_request [of "''hi''" "''c''"] by (auto simp: Send_def after_bindp [OF after_destination])
  moreover have "mutates ?q" by (simp add: mutates_def)
  ultimately show ?thesis
    using send_dispatches [OF sample_apart sample_ctx_simps(2,3), of "''t''" "''hi''" "''c''" "destination_talk @ request_talk" ?q k]
    unfolding sample_ctx_simps(1) by blast
qed

text \<open>
  One call of \<open>Stop\<close> dispatches at most one mutation, to the owner that answered last or, when nobody owns
  the task, to the created scope, under the same conditions as \<open>Send\<close>.
\<close>

theorem stop_dispatches:
  assumes "apart cf (seals_of cf i h)" "cx_admission c = None" "cx_recovery c = []"
    "after (Stop cf c i turn) h = Some (Ask q k)" "mutates q"
  shows "\<not> mutated h \<and> dispatched cf (cx_binding c) i h q"
  using safe_ask [OF guarded_Stop [OF assms(2,3)] assms(4)] assms(1,5) by (simp add: permitted_def reads_def)

definition bare_ctx :: ctx where
  "bare_ctx = \<lparr>cx_binding = [], cx_admission = None, cx_recovery = []\<rparr>"

lemma bare_ctx_simps [simp]: "cx_binding bare_ctx = []" "cx_admission bare_ctx = None" "cx_recovery bare_ctx = []"
  by (simp_all add: bare_ctx_def)

theorem stop_dispatches_witness:
  "\<not> mutated [(QOwner ''t'', AText (Inr [])), (QSeen ''t'', AFlag False), (QOwns ''t'', ABool (Inr True)), (QOwner ''t'', AText (Inr []))] \<and>
   dispatched sample_config [] ''t'' [(QOwner ''t'', AText (Inr [])), (QSeen ''t'', AFlag False), (QOwns ''t'', ABool (Inr True)), (QOwner ''t'', AText (Inr []))]
     (QCreatedStop bare_ctx ''t'' ''u'')"
proof -
  let ?h = "[(QOwner ''t'', AText (Inr [])), (QSeen ''t'', AFlag False), (QOwns ''t'', ABool (Inr True)), (QOwner ''t'', AText (Inr []))]"
  have "\<exists>k. after (Stop sample_config bare_ctx ''t'' ''u'') ?h = Some (Ask (QCreatedStop bare_ctx ''t'' ''u'') k)"
    by (simp add: Stop_def admitAccess_def destination_def scopedDestination_def admission_of_def created_def scopedMutationContext_def bindp_def
        ask_defs answers_def)
  then obtain k where "after (Stop sample_config bare_ctx ''t'' ''u'') ?h = Some (Ask (QCreatedStop bare_ctx ''t'' ''u'') k)" ..
  moreover have "mutates (QCreatedStop bare_ctx ''t'' ''u'')" by (simp add: mutates_def)
  ultimately show ?thesis by (rule stop_dispatches [OF sample_apart bare_ctx_simps(2,3), unfolded bare_ctx_simps(1)])
qed

text \<open>
  One call of \<open>UpdateSettings\<close> dispatches at most one mutation under the same conditions; idle recovery is
  lent to the created scope only after a recoverable runtime was read and no owner answered.
\<close>

theorem settings_dispatches:
  assumes "apart cf (seals_of cf i h)" "cx_admission c = None" "cx_recovery c = []"
    "after (UpdateSettings cf c i patch) h = Some (Ask q k)" "mutates q"
  shows "\<not> mutated h \<and> dispatched cf (cx_binding c) i h q"
  using safe_ask [OF guarded_UpdateSettings [OF assms(2,3)] assms(4)] assms(1,5) by (simp add: permitted_def reads_def)

definition idle_runtime :: page_runtime where
  "idle_runtime = \<lparr>r_Status = ''idle'', r_ActiveTurnID = None, r_Model = None, r_ContextTokens = None, r_ContextWindow = None,
     r_CompletedTurnID = None, r_Effort = None, r_ServiceTier = None, rt_Title = None, rt_SettingsChange = None,
     rt_ActiveTurnHasUserMessage = None, rt_ServiceTierKnown = None\<rparr>"

definition recovery_talk :: history where
  "recovery_talk = [(QOwner ''t'', AText (Inr [])), (QCreated ''t'', ABool (Inr False)), (QOwns ''t'', ABool (Inr False)),
     (QHistory ''t'', ARuntime (Inr (Some idle_runtime))), (QOwner ''t'', AText (Inr [])), (QContext, AError None)]"

theorem settings_dispatches_witness:
  "\<not> mutated recovery_talk \<and>
   dispatched sample_config [] ''t'' recovery_talk (QCreatedUpdate (bare_ctx\<lparr>cx_recovery := ''t''\<rparr>) ''t'' \<lparr>p_Model = Some ''m'', p_Effort = None, p_ServiceTier = None\<rparr>)"
proof -
  let ?patch = "\<lparr>p_Model = Some ''m'', p_Effort = None, p_ServiceTier = None\<rparr>"
  let ?q = "QCreatedUpdate (bare_ctx\<lparr>cx_recovery := ''t''\<rparr>) ''t'' ?patch"
  have "\<exists>k. after (UpdateSettings sample_config bare_ctx ''t'' ?patch) recovery_talk = Some (Ask ?q k)"
    by (simp add: UpdateSettings_def mutationDestination_def admitAccess_def scopedDestination_def admission_of_def recovery_context_def
        scopedMutationContext_def scopedSettings_def RecoverableRuntime_def WithIdleRecovery_def recovery_talk_def idle_runtime_def bindp_def
        ask_defs answers_def)
  then obtain k where "after (UpdateSettings sample_config bare_ctx ''t'' ?patch) recovery_talk = Some (Ask ?q k)" ..
  moreover have "mutates ?q" by (simp add: mutates_def)
  ultimately show ?thesis by (rule settings_dispatches [OF sample_apart bare_ctx_simps(2,3), unfolded bare_ctx_simps(1)])
qed


text \<open>What \<open>Archive\<close> may do at a history: archive after the fence and a confirmed binding, announce and forget only what was archived.\<close>

definition archived :: "access_config \<Rightarrow> ctx \<Rightarrow> string \<Rightarrow> history \<Rightarrow> query \<Rightarrow> bool" where
  "archived cf c i h q \<longleftrightarrow> (case q of
     QArchive j \<Rightarrow> j = i \<and> \<not> mutated h \<and> (QConnect, AError None) \<in> set h \<and> (QFence, AError None) \<in> set h \<and>
       (cx_binding c \<noteq> [] \<longrightarrow> confirmed cf i (cx_binding c) h)
   | QBroadcast name ps \<Rightarrow> (\<exists>cwd. (QArchive i, AText (Inr cwd)) \<in> set h \<and> field ps ''conversationId'' = GStr i \<and> field ps ''cwd'' = GStr cwd)
   | QForget j \<Rightarrow> j = i \<and> (\<exists>ps. (QBroadcast ''thread-archived'' ps, AError None) \<in> set h)
   | _ \<Rightarrow> reads q)"

abbreviation archiving :: "access_config \<Rightarrow> ctx \<Rightarrow> string \<Rightarrow> history \<Rightarrow> 'a prog \<Rightarrow> bool" where
  "archiving cf c i \<equiv> safe (archived cf c i) (\<lambda>_ _. True)"

lemma archiving_reading: "reading h R p \<Longrightarrow> (\<And>h' x. grown h h' \<Longrightarrow> R h' x \<Longrightarrow> archiving cf c i h' (f x)) \<Longrightarrow> archiving cf c i h (bindp p f)"
  unfolding safe_bindp by (erule reading_safe) (auto simp: archived_def reads_def mutates_def split: query.splits)

lemma reading_metadata:
  "reading h (\<lambda>h' _. (QFence, AError None) \<in> set h' \<and> (cx_binding c \<noteq> [] \<longrightarrow> confirmed cf i (cx_binding c) h')) (validateMetadataAccess cf c i)"
proof -
  have fenced: "reading g (\<lambda>h' _. (QFence, AError None) \<in> set h' \<and> (cx_binding c \<noteq> [] \<longrightarrow> confirmed cf i (cx_binding c) h'))
      (if cx_binding c \<noteq> [] then ValidateAccess cf i (cx_binding c) else ask_error QContext)" if "g = h @ [(QFence, AError None)]" for g
  proof (cases "cx_binding c = []")
    case True
    then show ?thesis using reading_weaken [OF reading_ask_error [of QContext g]] that by simp
  next
    case False
    have "(QFence, AError None) \<in> set h'" if "grown g h'" for h'
      using grown_set [OF that] \<open>g = h @ [(QFence, AError None)]\<close> by auto
    then show ?thesis using False reading_weaken [OF reading_ValidateAccess [of g cf i "cx_binding c"]] by simp
  qed
  show ?thesis
    unfolding validateMetadataAccess_def by (rule reading_bindp [OF reading_ask_error fenced]) simp_all
qed

lemma archiving_Archive: "archiving cf c i [] (Archive cf c i)"
proof -
  have flag: "reading g (\<lambda>h' _. still g h') (ask_bool QStopped)" for g by (rule reading_bool) simp
  have connect: "reading g (\<lambda>h' _. h' = g @ [(QConnect, AError None)]) (ask_error QConnect)" for g by (rule reading_ask_error) simp_all
  have native: "archiving cf c i g (bindp (ask_text (QArchive i)) (\<lambda>cwd.
      bindp (ask_error (QBroadcast ''thread-archived'' [(''hostId'', GStr ''local''), (''conversationId'', GStr i), (''cwd'', GStr cwd)])) (\<lambda>_.
      bindp (ask_error (QForget i)) (\<lambda>_. okp cwd))))"
    if "\<not> mutated g" "(QConnect, AError None) \<in> set g" "(QFence, AError None) \<in> set g" "cx_binding c \<noteq> [] \<longrightarrow> confirmed cf i (cx_binding c) g" for g
    using that by (auto simp: safe_bindp safe_ask_text safe_ask_error safe_ask_nothing archived_def field_def split: sum.split option.split)
  show ?thesis
    unfolding Archive_def
  proof (rule archiving_reading [OF flag], goal_cases)
    case (1 h1 halted)
    show ?case
    proof (cases halted)
      case False
      show ?thesis
        unfolding if_not_P [OF False]
      proof (rule archiving_reading [OF connect], rule archiving_reading [OF flag], goal_cases)
        case (1 h2 u h3 halted)
        have h3: "\<not> mutated h3" "(QConnect, AError None) \<in> set h3"
          using still_mutated [OF 1(3) still_mutated [OF 1(1) still_mutated [OF \<open>grown [] h1\<close>]]] grown_set [OF 1(3)] 1(2) by (auto simp: mutated_def)
        have "archiving cf c i h3 (bindp (validateMetadataAccess cf c i) (\<lambda>_. bindp (ask_text (QArchive i)) (\<lambda>cwd.
            bindp (ask_error (QBroadcast ''thread-archived'' [(''hostId'', GStr ''local''), (''conversationId'', GStr i), (''cwd'', GStr cwd)])) (\<lambda>_.
            bindp (ask_error (QForget i)) (\<lambda>_. okp cwd)))))"
          by (rule archiving_reading [OF reading_metadata], rule native)
            (use still_mutated h3 grown_set in blast)+
        then show ?case by simp
      qed
    qed simp
  qed
qed

text \<open>
  \<open>Archive\<close> archives natively at most once, after the fence and, for a scoped request, after its binding was
  confirmed; it announces only a task the native archive has taken, and forgets it only after the announcement.
\<close>

theorem archive_fenced:
  assumes "after (Archive cf c i) h = Some (Ask q k)"
  shows "archived cf c i h q"
  by (rule safe_ask [OF archiving_Archive assms])

theorem archive_fenced_witness:
  "archived sample_config bare_ctx ''t'' [(QStopped, AFlag False), (QConnect, AError None), (QStopped, AFlag False), (QFence, AError None),
     (QContext, AError None)] (QArchive ''t'')"
proof -
  have "\<exists>k. after (Archive sample_config bare_ctx ''t'') [(QStopped, AFlag False), (QConnect, AError None), (QStopped, AFlag False),
      (QFence, AError None), (QContext, AError None)] = Some (Ask (QArchive ''t'') k)"
    by (simp add: Archive_def validateMetadataAccess_def bindp_assoc after_question) (simp add: bindp_def ask_defs)
  then show ?thesis using archive_fenced by blast
qed

end
