(* ===== verification/Executor.thy ===== *)
theory Executor
  imports Rpc
begin

text \<open>
  The private task executor (\<open>internal/codex/taskexecutor.go\<close>): one native task behind a loopback endpoint.
  Every section under the executor's mutex is a function on its state. A client request, a retirement and a
  background callback are threads; their sections interleave in any order (\<open>exec_step\<close>), and the answers of the
  native host, the lifetime protection and the two callbacks are arbitrary.
\<close>

subsection \<open>Packets\<close>

text \<open>\<open>executorText\<close>: only a plain string, never surrogate text.\<close>

definition executorText :: "gval \<Rightarrow> string" where
  "executorText v = (case v of GStr s \<Rightarrow> s | _ \<Rightarrow> [])"

definition executorField :: "gval \<Rightarrow> string \<Rightarrow> gval" where
  "executorField v k = field (fields_of v) k"

definition executorThreadID :: "gval \<Rightarrow> string" where
  "executorThreadID result = executorText (executorField (executorField result ''thread'') ''id'')"

text \<open>A turn of the executor: its identity and its status.\<close>

type_synonym executorTurn = "string \<times> string"

definition executorTurnFrom :: "gval \<Rightarrow> executorTurn option" where
  "executorTurnFrom v =
     (case Fields v of
        None \<Rightarrow> None
      | Some ps \<Rightarrow>
          let i = executorText (field ps ''id''); status = executorText (field ps ''status'')
          in if i = [] \<or> status = [] then None else Some (i, status))"

definition executorResultTurn :: "gval \<Rightarrow> executorTurn option" where
  "executorResultTurn result = executorTurnFrom (executorField result ''turn'')"

definition executorTurnStatus :: "gval \<Rightarrow> string" where
  "executorTurnStatus v = executorText (executorField v ''status'')"

text \<open>The regular expressions: a UUID in either case, and a method that ends in a delta.\<close>

definition hex_any :: "char \<Rightarrow> bool" where
  "hex_any c \<longleftrightarrow> is_digit c \<or> 97 \<le> byte_of c \<and> byte_of c \<le> 102 \<or> 65 \<le> byte_of c \<and> byte_of c \<le> 70"

definition executorUUIDPattern :: "string \<Rightarrow> bool" where
  "executorUUIDPattern s \<longleftrightarrow> length s = 36 \<and>
     list_all (\<lambda>i. if i \<in> {8, 13, 18, 23} then s ! i = CHR ''-'' else hex_any (s ! i)) [0..<36]"

definition privateTokenPattern :: "string \<Rightarrow> bool" where
  "privateTokenPattern s \<longleftrightarrow> length s = 64 \<and> list_all hex_any s"

definition executorDeltaPattern :: "string \<Rightarrow> bool" where
  "executorDeltaPattern name \<longleftrightarrow> HasSuffix name ''/delta'' \<or> HasSuffix name ''Delta''"

definition executorThreadMethods :: "string list" where
  "executorThreadMethods =
     [''thread/read'', ''thread/turns/list'', ''thread/items/list'', ''thread/queue/list'', ''thread/settings/update'',
      ''thread/name/set'', ''thread/archive'', ''turn/start'', ''turn/steer'', ''turn/interrupt'']"

definition executorTerminalMethods :: "string list" where
  "executorTerminalMethods = [''turn/completed'', ''thread/archived'', ''thread/closed'']"

definition executorTerminalTurnStatuses :: "string list" where
  "executorTerminalTurnStatuses = [''failed'', ''interrupted'', ''completed'']"

definition executorMaxPending :: int where
  "executorMaxPending = 32"

text \<open>A decoded packet: its method, its parameters and its identity, if it has one.\<close>

record executorPacket =
  ep_method :: string
  ep_params :: gval
  ep_id :: "gval option"

definition decodeExecutorPacket :: "string \<Rightarrow> executorPacket option" where
  "decodeExecutorPacket s =
     (case snd (Read s False) of
        Inl _ \<Rightarrow> None
      | Inr v \<Rightarrow>
          (case Fields v of
             None \<Rightarrow> None
           | Some ps \<Rightarrow>
               (case field ps ''method'' of
                  GStr name \<Rightarrow>
                    (case map_of ps ''id'' of
                       None \<Rightarrow> Some \<lparr>ep_method = name, ep_params = field ps ''params'', ep_id = None\<rparr>
                     | Some (GStr i) \<Rightarrow> Some \<lparr>ep_method = name, ep_params = field ps ''params'', ep_id = Some (GStr i)\<rparr>
                     | Some (GNum n) \<Rightarrow> Some \<lparr>ep_method = name, ep_params = field ps ''params'', ep_id = Some (GNum n)\<rparr>
                     | Some _ \<Rightarrow> None)
                | _ \<Rightarrow> None)))"

subsection \<open>State\<close>

text \<open>A timer holds its delay; one that fired stays in the field until it is stopped.\<close>

datatype timer = NoTimer | Armed int | Fired

record executor =
  e_id :: string
  e_turn :: "executorTurn option"
  e_timer :: timer
  e_hasUser :: bool
  e_materialized :: bool
  e_pending :: int
  e_active :: bool
  e_settled :: bool
  e_nativeClosed :: bool
  e_retiring :: bool
  e_opening :: bool
  e_server :: bool
  e_sockets :: "nat list"
  e_idle :: int
  e_completed :: int

definition executorDefaultIdle :: int where
  "executorDefaultIdle = 120000000000"

definition executorDefaultCompleted :: int where
  "executorDefaultCompleted = 500000000"

definition NewTaskExecutor :: "string \<Rightarrow> string \<Rightarrow> int \<Rightarrow> int \<Rightarrow> string + executor" where
  "NewTaskExecutor token admitted idle completed =
     (if \<not> privateTokenPattern token then Inl ''Invalid private executor credential''
      else if admitted \<noteq> [] \<and> \<not> executorUUIDPattern admitted then Inl ''Invalid admitted task identity''
      else Inr \<lparr>e_id = admitted, e_turn = None, e_timer = NoTimer, e_hasUser = False, e_materialized = (admitted \<noteq> []),
             e_pending = 0, e_active = False, e_settled = False, e_nativeClosed = False, e_retiring = False,
             e_opening = False, e_server = False, e_sockets = [],
             e_idle = (if idle \<le> 0 then executorDefaultIdle else idle),
             e_completed = (if completed \<le> 0 then executorDefaultCompleted else completed)\<rparr>)"

definition authorized :: "string \<Rightarrow> string \<Rightarrow> bool" where
  "authorized token header \<longleftrightarrow> header = ''Bearer '' @ token"

definition trackSocket :: "nat \<Rightarrow> bool \<Rightarrow> executor \<Rightarrow> executor" where
  "trackSocket socket attached e =
     e\<lparr>e_sockets := (if attached then List.insert socket (e_sockets e) else removeAll socket (e_sockets e))\<rparr>"

definition stopTimerLocked :: "executor \<Rightarrow> executor" where
  "stopTimerLocked e = e\<lparr>e_timer := NoTimer\<rparr>"

definition schedule :: "executor \<Rightarrow> executor" where
  "schedule e =
     (let e = stopTimerLocked e
      in if e_retiring e \<or> 0 < e_pending e \<or> e_active e then e
         else e\<lparr>e_timer := Armed (if e_settled e then e_completed e else e_idle e)\<rparr>)"

definition Disconnect :: "executor \<Rightarrow> executor" where
  "Disconnect e = (stopTimerLocked e)\<lparr>e_retiring := True, e_server := False\<rparr>"

subsection \<open>Requests\<close>

definition executorFailure :: "rpc_error \<Rightarrow> float64 \<times> string" where
  "executorFailure e =
     (case e of
        RpcError msg (Some code) \<Rightarrow> (code, msg)
      | RpcError msg None \<Rightarrow> (Fin (- 32000), msg)
      | RCause msg \<Rightarrow> (Fin (- 32000), msg))"

definition rejectExecutor :: "string \<Rightarrow> rpc_error" where
  "rejectExecutor msg = RpcError msg (Some (Fin (- 32600)))"

text \<open>The reply of \<open>filo/task/state\<close>.\<close>

definition turn_thread_status :: "string \<Rightarrow> string" where
  "turn_thread_status status =
     (if status = ''inProgress'' then ''active''
      else if status \<in> set executorTerminalTurnStatuses then (if status = ''failed'' then ''systemError'' else ''idle'')
      else [])"

definition task_state :: "string \<Rightarrow> executor \<Rightarrow> rpc_error + gval" where
  "task_state threadID e =
     (if e_id e = [] \<or> threadID \<noteq> e_id e then Inl (rejectExecutor ''Task is outside this executor'')
      else
        Inr (GMap ([(''hasUser'', GBool (e_hasUser e)), (''materialized'', GBool (e_materialized e))] @
          (case e_turn e of
             None \<Rightarrow> []
           | Some (i, status) \<Rightarrow>
               (''turn'', GMap [(''id'', GStr i), (''status'', GStr status)]) #
               (let name = turn_thread_status status
                in if name \<noteq> [] \<and> \<not> e_nativeClosed e
                   then [(''thread'', GMap [(''id'', GStr (e_id e)), (''status'', GMap [(''type'', GStr name)])])] else [])))))"

text \<open>What \<open>request\<close> does up to its first section, and what it does with the answer of the host.\<close>

datatype call_kind = AsIs | Creating | Scoped

datatype decision = Answer "rpc_error + gval" | Forward call_kind | OpenTask

definition request_decide :: "bool \<Rightarrow> string \<Rightarrow> gval \<Rightarrow> executor \<Rightarrow> decision" where
  "request_decide protected name params e =
     (if name = ''initialize'' then Answer (Inr (GMap [(''userAgent'', GStr ''filo-private-task-executor'')]))
      else if name \<in> {''thread/start'', ''turn/start'', ''turn/steer''} \<and> \<not> protected
      then Answer (Inl (rejectExecutor ''Native task lifetime protection is unavailable''))
      else
        let threadID = executorText (executorField params ''threadId'')
        in if name = ''filo/task/state'' then Answer (task_state threadID e)
           else if name = ''model/list'' then Forward AsIs
           else if name = ''thread/start'' \<or> name = ''thread/resume'' then
             if e_id e \<noteq> [] \<or> e_opening e then
               if name = ''thread/resume'' \<and> e_id e \<noteq> [] \<and> threadID = e_id e then Forward AsIs
               else Answer (Inl (rejectExecutor ''This executor already owns a task''))
             else if name = ''thread/resume'' then Answer (Inl (rejectExecutor ''Task has not been admitted to this executor''))
             else OpenTask
           else if name \<notin> set executorThreadMethods then Answer (Inl (rejectExecutor ''Operation is outside this native task scope''))
           else if e_id e = [] \<or> threadID \<noteq> e_id e then Answer (Inl (rejectExecutor ''Operation is outside this native task scope''))
           else Forward Scoped)"

text \<open>
  \<open>Sending\<close> is a request that was let through and has not reached \<open>e.rpc.Request\<close> yet: the mutex was given back, so
  sections of other threads run before it is sent.
\<close>

datatype request_pc =
    Deciding | Opening | Sending call_kind | Calling call_kind | Created string gval | Recording gval | Reopening "rpc_error + gval"
  | Storing gval | Activating gval | Archiving gval | Replying "rpc_error + gval" | Refusing | Departing | Gone

definition after_call :: "call_kind \<Rightarrow> string \<Rightarrow> rpc_error + gval \<Rightarrow> request_pc" where
  "after_call kind name answer =
     (case kind of
        AsIs \<Rightarrow> Replying answer
      | Creating \<Rightarrow>
          (case answer of
             Inl e \<Rightarrow> Reopening (Inl e)
           | Inr v \<Rightarrow>
               let i = executorThreadID v
               in if \<not> executorUUIDPattern i then Reopening (Inl (RCause ''Invalid native task identity'')) else Created i v)
      | Scoped \<Rightarrow>
          (case answer of
             Inl e \<Rightarrow> Replying (Inl e)
           | Inr v \<Rightarrow>
               if name = ''turn/start'' then Storing v
               else if name = ''turn/steer'' then Activating v
               else if name = ''thread/archive'' then Archiving v
               else Replying (Inr v)))"

text \<open>The sections that follow a successful call.\<close>

definition store_turn :: "gval \<Rightarrow> executor \<Rightarrow> executor" where
  "store_turn result e =
     (let e = e\<lparr>e_materialized := True\<rparr>
      in case executorResultTurn result of
           None \<Rightarrow> e
         | Some t \<Rightarrow> if e_turn e = None \<or> fst (the (e_turn e)) \<noteq> fst t then e\<lparr>e_turn := Some t\<rparr> else e)"

definition activate :: "executor \<Rightarrow> executor" where
  "activate e = (if e_settled e then e else e\<lparr>e_active := True\<rparr>)"

definition archive_settled :: "executor \<Rightarrow> executor" where
  "archive_settled e = e\<lparr>e_active := False, e_settled := True\<rparr>"

subsection \<open>Notifications\<close>

definition notification_thread :: "gval \<Rightarrow> string" where
  "notification_thread params =
     (let i = executorText (executorField params ''threadId'')
      in if i = [] then executorText (executorField (executorField params ''thread'') ''id'') else i)"

definition note_turn :: "string \<Rightarrow> gval \<Rightarrow> executor \<Rightarrow> executor" where
  "note_turn name params e =
     (let e = (if name = ''turn/started'' then e\<lparr>e_active := True, e_settled := False, e_hasUser := False\<rparr> else e)
      in if name = ''turn/started'' \<or> name = ''turn/completed'' then
           (case executorTurnFrom (executorField params ''turn'') of None \<Rightarrow> e | Some t \<Rightarrow> e\<lparr>e_turn := Some t\<rparr>)
         else e)"

definition note_item :: "string \<Rightarrow> gval \<Rightarrow> executor \<Rightarrow> executor" where
  "note_item name params e =
     (let turnID = executorText (executorField params ''turnId'');
          e = (if e_turn e = None \<and> turnID \<noteq> [] \<and> (name = ''item/started'' \<or> executorDeltaPattern name)
               then e\<lparr>e_turn := Some (turnID, ''inProgress'')\<rparr> else e)
      in if turnID \<noteq> [] \<and> e_turn e \<noteq> None \<and> turnID = fst (the (e_turn e)) \<and>
            executorText (executorField (executorField params ''item'') ''type'') = ''userMessage''
         then e\<lparr>e_hasUser := True, e_materialized := True\<rparr> else e)"

definition note_end :: "string \<Rightarrow> executor \<Rightarrow> executor" where
  "note_end name e =
     (let e = (if name = ''thread/closed'' \<or> name = ''thread/archived'' then e\<lparr>e_nativeClosed := True\<rparr> else e)
      in if name \<in> set executorTerminalMethods then e\<lparr>e_active := False, e_settled := True\<rparr> else e)"

text \<open>The section of \<open>handleNotification\<close>; \<open>None\<close> when the packet is not about this task.\<close>

definition handleNotification :: "props \<Rightarrow> executor \<Rightarrow> executor option" where
  "handleNotification packet e =
     (let name = executorText (field packet ''method''); params = field packet ''params''; i = notification_thread params
      in if i = [] \<or> i \<noteq> e_id e then None else Some (note_end name (note_item name params (note_turn name params e))))"

subsection \<open>Retirement\<close>

datatype retire_pc =
    RStart | RVerify | RReading string "executorTurn option" | RListing string props | RReleasing | RDisconnecting
  | RFailing rpc_error | RRearming rpc_error | RDone "rpc_error + bool"

definition not_idle :: rpc_error where
  "not_idle = RCause ''Native task is not verified idle''"

text \<open>The first section of \<open>Retire\<close>.\<close>

definition retire_begin :: "executor \<Rightarrow> executor \<times> retire_pc" where
  "retire_begin e =
     (if e_retiring e \<or> 0 < e_pending e \<or> e_active e then (e, RDone (Inr False))
      else (stopTimerLocked (e\<lparr>e_retiring := True\<rparr>), RVerify))"

definition verify_begin :: "executor \<Rightarrow> retire_pc" where
  "verify_begin e = (if e_id e = [] then RReleasing else RReading (e_id e) (e_turn e))"

definition verify_end :: "string \<Rightarrow> props \<Rightarrow> bool \<Rightarrow> retire_pc" where
  "verify_end i thread inactive =
     (if executorText (field thread ''id'') \<noteq> i \<or> \<not> inactive then RFailing not_idle else RReleasing)"

definition thread_read :: "string \<Rightarrow> string \<times> gval" where
  "thread_read i = (''thread/read'', GMap [(''threadId'', GStr i), (''includeTurns'', GBool False)])"

definition turns_list :: "string \<Rightarrow> string \<times> gval" where
  "turns_list i = (''thread/turns/list'', GMap [(''threadId'', GStr i), (''limit'', GNum (Fin 1)),
     (''sortDirection'', GStr ''desc''), (''itemsView'', GStr ''notLoaded'')])"

text \<open>What follows the answer of \<open>thread/read\<close>: a second request when the status is \<open>systemError\<close> without a terminal turn.\<close>

definition verify_read :: "string \<Rightarrow> executorTurn option \<Rightarrow> rpc_error + gval \<Rightarrow> retire_pc" where
  "verify_read i turn answer =
     (case answer of
        Inl e \<Rightarrow> RFailing e
      | Inr v \<Rightarrow>
          let thread = fields_of (executorField v ''thread''); status = executorText (executorField (field thread ''status'') ''type'')
          in if status = ''systemError'' then
               if turn \<noteq> None \<and> snd (the turn) \<in> set executorTerminalTurnStatuses then verify_end i thread True
               else RListing i thread
             else verify_end i thread (status = ''idle'' \<or> status = ''notLoaded''))"

definition verify_list :: "string \<Rightarrow> props \<Rightarrow> rpc_error + gval \<Rightarrow> retire_pc" where
  "verify_list i thread answer =
     (case answer of
        Inl e \<Rightarrow> RFailing e
      | Inr v \<Rightarrow>
          verify_end i thread
            (case executorField v ''data'' of
               GArr [t] \<Rightarrow> executorTurnStatus t \<in> set executorTerminalTurnStatuses
             | _ \<Rightarrow> False))"

definition rearm :: "executor \<Rightarrow> executor" where
  "rearm e = (stopTimerLocked e)\<lparr>e_timer := Armed (e_idle e)\<rparr>"

subsection \<open>Interleavings\<close>

text \<open>
  \<open>x_sent\<close> are the requests forwarded to the host, \<open>x_owned\<close> the identities \<open>e.id\<close> has had, the last one first, \<open>x_after\<close> the calls of \<open>schedule\<close> and the terminations a thread
  still has to make, \<open>x_released\<close> whether the native writer was released. \<open>rq_replies\<close> are the packets written back.
\<close>

record request =
  rq_id :: gval
  rq_method :: string
  rq_params :: gval
  rq_pc :: request_pc
  rq_replies :: "((float64 \<times> string) + gval) list"

datatype obligation = Schedule | TerminateAll

record exec_sys =
  x_exec :: executor
  x_requests :: "request list"
  x_retires :: "retire_pc list"
  x_after :: "obligation list"
  x_sent :: "(string \<times> gval) list"
  x_owned :: "string list"
  x_terminated :: "nat list"
  x_released :: bool

definition exec_start :: "executor \<Rightarrow> exec_sys" where
  "exec_start e = \<lparr>x_exec = e, x_requests = [], x_retires = [], x_after = [], x_sent = [],
     x_owned = (if e_id e = [] then [] else [e_id e]), x_terminated = [], x_released = False\<rparr>"

definition upd_rq :: "nat \<Rightarrow> (request \<Rightarrow> request) \<Rightarrow> exec_sys \<Rightarrow> exec_sys" where
  "upd_rq i g x = x\<lparr>x_requests := (x_requests x)[i := g (x_requests x ! i)]\<rparr>"

definition goto :: "nat \<Rightarrow> request_pc \<Rightarrow> exec_sys \<Rightarrow> exec_sys" where
  "goto i pc = upd_rq i (\<lambda>q. q\<lparr>rq_pc := pc\<rparr>)"

definition at_pc :: "exec_sys \<Rightarrow> nat \<Rightarrow> request_pc \<Rightarrow> bool" where
  "at_pc x i pc \<longleftrightarrow> i < length (x_requests x) \<and> rq_pc (x_requests x ! i) = pc"

definition busy_reply :: "(float64 \<times> string) + gval" where
  "busy_reply = Inl (Fin (- 32600), ''Native executor is retiring or busy'')"

definition reply_of :: "rpc_error + gval \<Rightarrow> (float64 \<times> string) + gval" where
  "reply_of r = (case r of Inl e \<Rightarrow> Inl (executorFailure e) | Inr v \<Rightarrow> Inr v)"

text \<open>\<open>receive\<close> up to its admission: an \<open>initialized\<close> notification is ignored, a packet without identity closes the socket.\<close>

definition receive :: "executorPacket \<Rightarrow> exec_sys \<Rightarrow> exec_sys" where
  "receive p x =
     (case ep_id p of
        None \<Rightarrow> x
      | Some i \<Rightarrow>
          let e = x_exec x; busy = (e_retiring e \<or> executorMaxPending \<le> e_pending e)
          in x\<lparr>x_exec := (if busy then e else stopTimerLocked (e\<lparr>e_pending := e_pending e + 1\<rparr>)),
               x_requests := x_requests x @ [\<lparr>rq_id = i, rq_method = ep_method p, rq_params = ep_params p,
                 rq_pc = (if busy then Refusing else Deciding), rq_replies = []\<rparr>]\<rparr>)"

text \<open>The checks of \<open>request\<close>, under the mutex where they read the state; the request itself is sent later.\<close>

definition decide :: "nat \<Rightarrow> bool \<Rightarrow> exec_sys \<Rightarrow> exec_sys" where
  "decide i protected x =
     (let q = x_requests x ! i
      in case request_decide protected (rq_method q) (rq_params q) (x_exec x) of
           Answer r \<Rightarrow> goto i (Replying r) x
         | Forward kind \<Rightarrow> goto i (Sending kind) x
         | OpenTask \<Rightarrow> goto i Opening x)"

definition forward :: "nat \<Rightarrow> call_kind \<Rightarrow> exec_sys \<Rightarrow> exec_sys" where
  "forward i kind x =
     (let q = x_requests x ! i
      in (goto i (Calling kind) x)\<lparr>x_sent := (rq_method q, rq_params q) # x_sent x\<rparr>)"

definition in_section :: "nat \<Rightarrow> (executor \<Rightarrow> executor) \<Rightarrow> request_pc \<Rightarrow> exec_sys \<Rightarrow> exec_sys" where
  "in_section i f pc x = (goto i pc x)\<lparr>x_exec := f (x_exec x)\<rparr>"

definition open_task :: "nat \<Rightarrow> exec_sys \<Rightarrow> exec_sys" where
  "open_task i = in_section i (\<lambda>e. e\<lparr>e_opening := True\<rparr>) (Sending Creating)"

definition create_task :: "nat \<Rightarrow> string \<Rightarrow> gval \<Rightarrow> exec_sys \<Rightarrow> exec_sys" where
  "create_task i t v x = (in_section i (\<lambda>e. e\<lparr>e_id := t\<rparr>) (Recording v) x)\<lparr>x_owned := t # x_owned x\<rparr>"

definition write_reply :: "nat \<Rightarrow> (float64 \<times> string) + gval \<Rightarrow> request_pc \<Rightarrow> exec_sys \<Rightarrow> exec_sys" where
  "write_reply i r pc = upd_rq i (\<lambda>q. q\<lparr>rq_pc := pc, rq_replies := rq_replies q @ [r]\<rparr>)"

definition leave_request :: "nat \<Rightarrow> exec_sys \<Rightarrow> exec_sys" where
  "leave_request i x =
     (in_section i (\<lambda>e. e\<lparr>e_pending := e_pending e - 1\<rparr>) Gone x)\<lparr>x_after := Schedule # x_after x\<rparr>"

definition notify :: "props \<Rightarrow> exec_sys \<Rightarrow> exec_sys" where
  "notify packet x =
     (case handleNotification packet (x_exec x) of
        None \<Rightarrow> x
      | Some e \<Rightarrow> x\<lparr>x_exec := e, x_after := Schedule # x_after x\<rparr>)"

definition set_retire :: "nat \<Rightarrow> retire_pc \<Rightarrow> exec_sys \<Rightarrow> exec_sys" where
  "set_retire j pc x = x\<lparr>x_retires := (x_retires x)[j := pc]\<rparr>"

definition at_retire :: "exec_sys \<Rightarrow> nat \<Rightarrow> retire_pc \<Rightarrow> bool" where
  "at_retire x j pc \<longleftrightarrow> j < length (x_retires x) \<and> x_retires x ! j = pc"

definition ask_list :: "retire_pc \<Rightarrow> (string \<times> gval) list" where
  "ask_list pc = (case pc of RReading i turn \<Rightarrow> [thread_read i] | RListing i thread \<Rightarrow> [turns_list i] | _ \<Rightarrow> [])"

definition enter_retire :: "nat \<Rightarrow> retire_pc \<Rightarrow> exec_sys \<Rightarrow> exec_sys" where
  "enter_retire j pc x = (set_retire j pc x)\<lparr>x_sent := ask_list pc @ x_sent x\<rparr>"

definition run_obligation :: "obligation \<Rightarrow> exec_sys \<Rightarrow> exec_sys" where
  "run_obligation o' x =
     (let x = x\<lparr>x_after := remove1 o' (x_after x)\<rparr>
      in case o' of
           Schedule \<Rightarrow> x\<lparr>x_exec := schedule (x_exec x)\<rparr>
         | TerminateAll \<Rightarrow> x\<lparr>x_terminated := e_sockets (x_exec x) @ x_terminated x\<rparr>)"

text \<open>
  A retirement reads \<open>e.id\<close> and puts its first question in one step: admission is fenced and no request is pending,
  so no section between the two can change the identity.
\<close>

inductive exec_step :: "exec_sys \<Rightarrow> exec_sys \<Rightarrow> bool" where
  listen: "exec_step x (x\<lparr>x_exec := (x_exec x)\<lparr>e_server := True\<rparr>, x_after := Schedule # x_after x\<rparr>)"
| track: "exec_step x (x\<lparr>x_exec := trackSocket socket attached (x_exec x)\<rparr>)"
| receives: "decodeExecutorPacket packet = Some p \<Longrightarrow> exec_step x (receive p x)"
| refuses: "at_pc x i Refusing \<Longrightarrow> exec_step x (write_reply i busy_reply Gone x)"
| decides: "at_pc x i Deciding \<Longrightarrow> exec_step x (decide i protected x)"
| opens: "at_pc x i Opening \<Longrightarrow> exec_step x (open_task i x)"
| sends: "at_pc x i (Sending kind) \<Longrightarrow> exec_step x (forward i kind x)"
| answers: "at_pc x i (Calling kind) \<Longrightarrow> exec_step x (goto i (after_call kind (rq_method (x_requests x ! i)) answer) x)"
| creates: "at_pc x i (Created t v) \<Longrightarrow> exec_step x (create_task i t v x)"
| records: "at_pc x i (Recording v) \<Longrightarrow>
    exec_step x (goto i (Reopening (case err of None \<Rightarrow> Inr v | Some msg \<Rightarrow> Inl (RCause msg))) x)"
| reopens: "at_pc x i (Reopening r) \<Longrightarrow> exec_step x (in_section i (\<lambda>e. e\<lparr>e_opening := False\<rparr>) (Replying r) x)"
| stores: "at_pc x i (Storing v) \<Longrightarrow> exec_step x (in_section i (store_turn v) (Activating v) x)"
| activates: "at_pc x i (Activating v) \<Longrightarrow> exec_step x (in_section i activate (Replying (Inr v)) x)"
| archives: "at_pc x i (Archiving v) \<Longrightarrow> exec_step x (in_section i archive_settled (Replying (Inr v)) x)"
| replies: "at_pc x i (Replying r) \<Longrightarrow> exec_step x (write_reply i (reply_of r) Departing x)"
| leaves: "at_pc x i Departing \<Longrightarrow> exec_step x (leave_request i x)"
| notifies: "exec_step x (notify packet x)"
| fires: "e_timer (x_exec x) = Armed d \<Longrightarrow>
    exec_step x (x\<lparr>x_exec := (x_exec x)\<lparr>e_timer := Fired\<rparr>, x_retires := x_retires x @ [RStart]\<rparr>)"
| retires: "exec_step x (x\<lparr>x_retires := x_retires x @ [RStart]\<rparr>)"
| begins: "at_retire x j RStart \<Longrightarrow> retire_begin (x_exec x) = (e, pc) \<Longrightarrow> exec_step x ((set_retire j pc x)\<lparr>x_exec := e\<rparr>)"
| verifies: "at_retire x j RVerify \<Longrightarrow> exec_step x (enter_retire j (verify_begin (x_exec x)) x)"
| reads: "at_retire x j (RReading t turn) \<Longrightarrow> exec_step x (enter_retire j (verify_read t turn answer) x)"
| lists: "at_retire x j (RListing t thread) \<Longrightarrow> exec_step x (enter_retire j (verify_list t thread answer) x)"
| releases: "at_retire x j RReleasing \<Longrightarrow> exec_step x ((set_retire j RDisconnecting x)\<lparr>x_released := True\<rparr>)"
| release_fails: "at_retire x j RReleasing \<Longrightarrow> exec_step x (set_retire j (RFailing (RCause msg)) x)"
| disconnects: "at_retire x j RDisconnecting \<Longrightarrow>
    exec_step x ((set_retire j (RDone (Inr True)) x)\<lparr>x_exec := Disconnect (x_exec x), x_after := TerminateAll # x_after x\<rparr>)"
| fails: "at_retire x j (RFailing err) \<Longrightarrow>
    exec_step x ((set_retire j (RRearming err) x)\<lparr>x_exec := (x_exec x)\<lparr>e_retiring := False\<rparr>\<rparr>)"
| rearms: "at_retire x j (RRearming err) \<Longrightarrow> exec_step x ((set_retire j (RDone (Inl err)) x)\<lparr>x_exec := rearm (x_exec x)\<rparr>)"
| closed: "exec_step x (x\<lparr>x_exec := Disconnect (x_exec x), x_after := TerminateAll # x_after x\<rparr>)"
| obliges: "o' \<in> set (x_after x) \<Longrightarrow> exec_step x (run_obligation o' x)"

end
