(* ===== verification/ExecutorCorrect.thy ===== *)
theory ExecutorCorrect
  imports Executor NativeReadCorrect
begin

text \<open>
  What the executor promises in every interleaving: admitted requests are counted and answered once, a request
  reaches the host only for a task that was owned when it was checked, the native writer is released only behind the admission fence, nothing
  is sent after the release, and an idle executor always comes up for retirement. Two concurrent starts escape
  the check for a second task.
\<close>

subsection \<open>The invariant\<close>

definition inflight :: "request_pc \<Rightarrow> bool" where
  "inflight pc \<longleftrightarrow> pc \<noteq> Refusing \<and> pc \<noteq> Gone"

definition counted :: "('a \<Rightarrow> bool) \<Rightarrow> 'a list \<Rightarrow> nat" where
  "counted P xs = length (filter P xs)"

definition replied :: "request \<Rightarrow> bool" where
  "replied q \<longleftrightarrow> (if rq_pc q = Departing \<or> rq_pc q = Gone then length (rq_replies q) = 1 else rq_replies q = []) \<and>
     (rq_pc q = Opening \<longrightarrow> rq_method q = ''thread/start'')"

definition window :: "retire_pc \<Rightarrow> bool" where
  "window pc \<longleftrightarrow> (case pc of RStart \<Rightarrow> False | RRearming e \<Rightarrow> False | RDone r \<Rightarrow> False | _ \<Rightarrow> True)"

definition verifies_id :: "string \<Rightarrow> retire_pc \<Rightarrow> bool" where
  "verifies_id i pc \<longleftrightarrow> (case pc of RReading j t \<Rightarrow> j = i \<and> i \<noteq> [] | RListing j t \<Rightarrow> j = i \<and> i \<noteq> [] | _ \<Rightarrow> True)"

definition waking :: "retire_pc \<Rightarrow> bool" where
  "waking pc \<longleftrightarrow> pc = RStart \<or> (\<exists>e. pc = RRearming e)"

definition accounts :: "executor \<Rightarrow> request list \<Rightarrow> bool" where
  "accounts e rs \<longleftrightarrow> e_pending e = int (counted (inflight \<circ> rq_pc) rs) \<and> e_pending e \<le> executorMaxPending \<and> list_all replied rs"

definition fenced :: "executor \<Rightarrow> retire_pc list \<Rightarrow> bool" where
  "fenced e ps \<longleftrightarrow> counted window ps \<le> 1 \<and> (0 < counted window ps \<longrightarrow> e_retiring e \<and> e_pending e = 0) \<and> list_all (verifies_id (e_id e)) ps"

definition sealed :: "executor \<Rightarrow> retire_pc list \<Rightarrow> bool \<Rightarrow> bool" where
  "sealed e ps released \<longleftrightarrow> (released \<longrightarrow> e_retiring e \<and> e_pending e = 0 \<and> list_all (\<lambda>pc. window pc \<longrightarrow> pc = RDisconnecting) ps)"

definition wakes :: "executor \<Rightarrow> retire_pc list \<Rightarrow> obligation list \<Rightarrow> bool" where
  "wakes e ps todo \<longleftrightarrow> (\<not> e_retiring e \<and> e_pending e = 0 \<and> \<not> e_active e \<longrightarrow>
     (\<exists>d. e_timer e = Armed d) \<or> Schedule \<in> set todo \<or> list_ex waking ps)"

definition exec_inv :: "exec_sys \<Rightarrow> bool" where
  "exec_inv x \<longleftrightarrow> accounts (x_exec x) (x_requests x) \<and> fenced (x_exec x) (x_retires x) \<and>
     sealed (x_exec x) (x_retires x) (x_released x) \<and> wakes (x_exec x) (x_retires x) (x_after x)"

lemma counted_append [simp]: "counted P (xs @ ys) = counted P xs + counted P ys"
  by (simp add: counted_def)

lemma counted_list [simp]: "counted P [] = 0" "counted P (x # xs) = (if P x then Suc (counted P xs) else counted P xs)"
  by (simp_all add: counted_def)

lemma counted_update: "i < length xs \<Longrightarrow> counted P (xs[i := y]) + (if P (xs ! i) then 1 else 0) = counted P xs + (if P y then 1 else 0)"
proof (induction xs arbitrary: i)
  case (Cons a xs)
  then show ?case
  proof (cases i)
    case (Suc j)
    then show ?thesis using Cons.IH [of j] Cons.prems by simp
  qed simp
qed simp

lemma counted_zero: "counted P xs = 0 \<longleftrightarrow> list_all (\<lambda>x. \<not> P x) xs"
  by (induction xs) auto

lemma counted_pos: "i < length xs \<Longrightarrow> P (xs ! i) \<Longrightarrow> 0 < counted P xs"
  using counted_zero [of P xs] by (auto simp: list_all_length)

lemma list_all_update: "list_all P xs \<Longrightarrow> P y \<Longrightarrow> list_all P (xs[i := y])"
  using set_update_subset_insert [of xs i y] by (auto simp: list_all_iff)

subsection \<open>Requests\<close>

text \<open>A thread with an admitted request: nothing is fenced and nothing is released.\<close>

lemma inflight_open:
  assumes "exec_inv x" "at_pc x i pc" "inflight pc"
  shows "0 < e_pending (x_exec x)" "counted window (x_retires x) = 0" "\<not> x_released x"
proof -
  have "0 < counted (inflight \<circ> rq_pc) (x_requests x)" using assms(2,3) by (auto simp: at_pc_def intro: counted_pos)
  then show pos: "0 < e_pending (x_exec x)" using assms(1) by (simp add: exec_inv_def accounts_def)
  show "counted window (x_retires x) = 0" using assms(1) pos by (auto simp: exec_inv_def fenced_def)
  show "\<not> x_released x" using assms(1) pos by (auto simp: exec_inv_def sealed_def)
qed

lemma no_window_verifies: "counted window ps = 0 \<Longrightarrow> list_all (verifies_id i) ps"
  by (auto simp: counted_zero list_all_iff window_def verifies_id_def split: retire_pc.splits)

lemma inv_request:
  assumes "exec_inv x" "at_pc x i pc" "inflight pc" "inflight (rq_pc q)" "replied q" "e_pending e = e_pending (x_exec x)"
    "e = x_exec y" "x_requests y = (x_requests x)[i := q]" "x_retires y = x_retires x" "x_released y = x_released x"
  shows "exec_inv y"
proof -
  note open_facts = inflight_open [OF assms(1-3)]
  have i: "i < length (x_requests x)" "inflight (rq_pc (x_requests x ! i))" using assms(2,3) by (auto simp: at_pc_def)
  have "counted (inflight \<circ> rq_pc) (x_requests y) = counted (inflight \<circ> rq_pc) (x_requests x)"
    using counted_update [OF i(1), of "inflight \<circ> rq_pc" q] i(2) assms(4) by (simp add: assms(8))
  moreover have "list_all replied (x_requests y)"
    using assms(1,5) by (simp add: assms(8) list_all_update exec_inv_def accounts_def)
  ultimately have "accounts (x_exec y) (x_requests y)"
    using assms(1,6,7) by (simp add: exec_inv_def accounts_def)
  moreover have "fenced (x_exec y) (x_retires y)" using open_facts(2) no_window_verifies by (simp add: fenced_def assms(9))
  ultimately show ?thesis using open_facts assms(6,7) by (simp add: exec_inv_def sealed_def wakes_def assms(10))
qed

lemma upd_rq_simps [simp]:
  "x_exec (upd_rq i g x) = x_exec x" "x_requests (upd_rq i g x) = (x_requests x)[i := g (x_requests x ! i)]"
  "x_retires (upd_rq i g x) = x_retires x" "x_released (upd_rq i g x) = x_released x" "x_after (upd_rq i g x) = x_after x"
  "x_sent (upd_rq i g x) = x_sent x"
  by (simp_all add: upd_rq_def)

lemma inv_replied: "exec_inv x \<Longrightarrow> at_pc x i pc \<Longrightarrow> replied (x_requests x ! i) \<and> rq_pc (x_requests x ! i) = pc"
  by (auto simp: exec_inv_def accounts_def at_pc_def list_all_length)

lemma inv_section:
  assumes "exec_inv x" "at_pc x i pc" "inflight pc" "pc \<noteq> Departing" "inflight pc'" "pc' \<noteq> Departing" "pc' \<noteq> Opening"
    "\<And>e. e_pending (f e) = e_pending e"
  shows "exec_inv (in_section i f pc' x)"
  by (rule inv_request [OF assms(1-3), of "(x_requests x ! i)\<lparr>rq_pc := pc'\<rparr>" "f (x_exec x)"])
    (use assms inv_replied [OF assms(1,2)] in \<open>auto simp: in_section_def goto_def replied_def inflight_def\<close>)

lemma inv_goto:
  assumes "exec_inv x" "at_pc x i pc" "inflight pc" "pc \<noteq> Departing" "inflight pc'" "pc' \<noteq> Departing" "pc' \<noteq> Opening"
  shows "exec_inv (goto i pc' x)"
  using inv_section [OF assms, of "\<lambda>e. e"] by (simp add: in_section_def goto_def upd_rq_def)

lemma exec_inv_sent [simp]: "exec_inv (x\<lparr>x_sent := s\<rparr>) = exec_inv x" "exec_inv (x\<lparr>x_owned := o'\<rparr>) = exec_inv x" "exec_inv (x\<lparr>x_terminated := t\<rparr>) = exec_inv x"
  by (simp_all add: exec_inv_def)

lemma inv_decide:
  assumes "exec_inv x" "at_pc x i Deciding"
  shows "exec_inv (decide i protected x)"
proof (cases "request_decide protected (rq_method (x_requests x ! i)) (rq_params (x_requests x ! i)) (x_exec x)")
  case OpenTask
  then have "rq_method (x_requests x ! i) = ''thread/start''"
    by (auto simp: request_decide_def Let_def split: if_splits)
  moreover have "exec_inv (goto i Opening x)"
    by (rule inv_request [OF assms, of "(x_requests x ! i)\<lparr>rq_pc := Opening\<rparr>" "x_exec x"])
      (use calculation inv_replied [OF assms] in \<open>auto simp: goto_def replied_def inflight_def\<close>)
  ultimately show ?thesis using OpenTask by (simp add: decide_def)
qed (use inv_goto [OF assms] in \<open>simp_all add: decide_def inflight_def Let_def\<close>)

lemma inv_open:
  assumes "exec_inv x" "at_pc x i Opening"
  shows "exec_inv (open_task i x)"
  using inv_section [OF assms, of "Sending Creating" "\<lambda>e. e\<lparr>e_opening := True\<rparr>"]
  by (simp add: open_task_def inflight_def)

lemma inv_forward:
  assumes "exec_inv x" "at_pc x i (Sending kind)"
  shows "exec_inv (forward i kind x)"
  using inv_goto [OF assms, of "Calling kind"] by (simp add: forward_def inflight_def Let_def)

lemma inv_create:
  assumes "exec_inv x" "at_pc x i (Created t v)"
  shows "exec_inv (create_task i t v x)"
  using inv_section [OF assms, of "Recording v" "\<lambda>e. e\<lparr>e_id := t\<rparr>"] by (simp add: create_task_def inflight_def)

lemma after_call_pc: "inflight (after_call kind name a) \<and> after_call kind name a \<noteq> Departing \<and> after_call kind name a \<noteq> Opening"
  by (auto simp: after_call_def inflight_def Let_def split: call_kind.split sum.split)

lemma inv_write:
  assumes "exec_inv x" "at_pc x i (Replying r)"
  shows "exec_inv (write_reply i r' Departing x)"
  by (rule inv_request [OF assms, of "(x_requests x ! i)\<lparr>rq_pc := Departing, rq_replies := rq_replies (x_requests x ! i) @ [r']\<rparr>" "x_exec x"])
    (use inv_replied [OF assms] in \<open>auto simp: write_reply_def replied_def inflight_def\<close>)


lemma inv_refuse:
  assumes "exec_inv x" "at_pc x i Refusing"
  shows "exec_inv (write_reply i r Gone x)"
proof -
  have i: "i < length (x_requests x)" "rq_pc (x_requests x ! i) = Refusing" using assms(2) by (auto simp: at_pc_def)
  let ?q = "(x_requests x ! i)\<lparr>rq_pc := Gone, rq_replies := rq_replies (x_requests x ! i) @ [r]\<rparr>"
  have "counted (inflight \<circ> rq_pc) ((x_requests x)[i := ?q]) = counted (inflight \<circ> rq_pc) (x_requests x)"
    using counted_update [OF i(1), of "inflight \<circ> rq_pc" ?q] i(2) by (simp add: inflight_def)
  moreover have "list_all replied ((x_requests x)[i := ?q])"
    using assms(1) inv_replied [OF assms] by (intro list_all_update) (auto simp: exec_inv_def accounts_def replied_def)
  ultimately have "accounts (x_exec x) ((x_requests x)[i := ?q])" using assms(1) by (simp add: exec_inv_def accounts_def)
  then show ?thesis using assms(1) by (simp add: exec_inv_def write_reply_def)
qed

lemma inv_leave:
  assumes "exec_inv x" "at_pc x i Departing"
  shows "exec_inv (leave_request i x)"
proof -
  note open_facts = inflight_open [OF assms, unfolded inflight_def, simplified]
  have i: "i < length (x_requests x)" "rq_pc (x_requests x ! i) = Departing" using assms(2) by (auto simp: at_pc_def)
  let ?q = "(x_requests x ! i)\<lparr>rq_pc := Gone\<rparr>"
  have "Suc (counted (inflight \<circ> rq_pc) ((x_requests x)[i := ?q])) = counted (inflight \<circ> rq_pc) (x_requests x)"
    using counted_update [OF i(1), of "inflight \<circ> rq_pc" ?q] i(2) by (simp add: inflight_def)
  moreover have "list_all replied ((x_requests x)[i := ?q])"
    using assms(1) inv_replied [OF assms] by (intro list_all_update) (auto simp: exec_inv_def accounts_def replied_def)
  ultimately have "accounts ((x_exec x)\<lparr>e_pending := e_pending (x_exec x) - 1\<rparr>) ((x_requests x)[i := ?q])"
    using assms(1) by (simp add: exec_inv_def accounts_def)
  then show ?thesis
    using open_facts no_window_verifies
    by (simp add: exec_inv_def leave_request_def in_section_def goto_def fenced_def sealed_def wakes_def)
qed

lemma inv_receive:
  assumes "exec_inv x"
  shows "exec_inv (receive p x)"
proof (cases "ep_id p")
  case (Some k)
  let ?e = "x_exec x"
  show ?thesis
  proof (cases "e_retiring ?e \<or> executorMaxPending \<le> e_pending ?e")
    case True
    then show ?thesis using assms Some
      by (simp add: receive_def Let_def exec_inv_def accounts_def inflight_def replied_def)
  next
    case False
    then show ?thesis using assms Some
      by (auto simp: receive_def Let_def exec_inv_def accounts_def inflight_def replied_def stopTimerLocked_def fenced_def sealed_def
          wakes_def no_window_verifies)
  qed
qed (use assms in \<open>simp add: receive_def\<close>)

subsection \<open>The other threads\<close>

lemma inv_exec:
  assumes "exec_inv x" "e_pending e = e_pending (x_exec x)" "e_id e = e_id (x_exec x)" "e_retiring e = e_retiring (x_exec x)"
    "wakes e ps todo" "counted window ps = counted window (x_retires x)" "list_all (verifies_id (e_id e)) ps"
    "list_all (\<lambda>pc. window pc \<longrightarrow> pc \<in> set (x_retires x)) ps"
    "x_exec y = e" "x_requests y = x_requests x" "x_retires y = ps" "x_released y = x_released x" "x_after y = todo"
  shows "exec_inv y"
proof -
  have "accounts e (x_requests x)" "fenced e ps" using assms(1-4,6,7) by (auto simp: exec_inv_def accounts_def fenced_def)
  moreover have "sealed e ps (x_released x)" using assms(1,2,4,8) by (auto simp: exec_inv_def sealed_def list_all_iff)
  ultimately show ?thesis using assms(5,9-) by (simp add: exec_inv_def)
qed

lemma inv_parts:
  assumes "exec_inv x"
  shows "wakes (x_exec x) (x_retires x) (x_after x)" "list_all (verifies_id (e_id (x_exec x))) (x_retires x)"
    "list_all (\<lambda>pc. window pc \<longrightarrow> pc \<in> set (x_retires x)) (x_retires x)"
  using assms by (auto simp: exec_inv_def fenced_def list_all_iff)

lemma schedule_fields [simp]:
  "e_pending (schedule e) = e_pending e" "e_id (schedule e) = e_id e" "e_retiring (schedule e) = e_retiring e" "e_active (schedule e) = e_active e"
  by (simp_all add: schedule_def Let_def stopTimerLocked_def)

lemma schedule_wakes: "wakes (schedule e) ps todo"
  by (auto simp: wakes_def schedule_def Let_def stopTimerLocked_def)

lemma inv_obligation:
  assumes "exec_inv x"
  shows "exec_inv (run_obligation o' x)"
proof (cases o')
  case Schedule
  show ?thesis
    by (rule inv_exec [OF assms, of "schedule (x_exec x)" "x_retires x" "remove1 Schedule (x_after x)"])
      (use Schedule inv_parts [OF assms] schedule_wakes in \<open>simp_all add: run_obligation_def Let_def\<close>)
next
  case TerminateAll
  have "wakes (x_exec x) (x_retires x) (remove1 TerminateAll (x_after x))"
    using inv_parts(1) [OF assms] by (auto simp: wakes_def)
  then show ?thesis
    by (intro inv_exec [OF assms, of "x_exec x" "x_retires x" "remove1 TerminateAll (x_after x)"])
      (use TerminateAll inv_parts [OF assms] in \<open>simp_all add: run_obligation_def Let_def\<close>)
qed

lemma note_fields:
  "e_pending (note_turn n ps e) = e_pending e" "e_id (note_turn n ps e) = e_id e" "e_retiring (note_turn n ps e) = e_retiring e"
  "e_pending (note_item n ps e) = e_pending e" "e_id (note_item n ps e) = e_id e" "e_retiring (note_item n ps e) = e_retiring e"
  "e_pending (note_end n e) = e_pending e" "e_id (note_end n e) = e_id e" "e_retiring (note_end n e) = e_retiring e"
  by (simp_all add: note_turn_def note_item_def note_end_def Let_def split: option.split)

lemma inv_notify:
  assumes "exec_inv x"
  shows "exec_inv (notify packet x)"
proof (cases "handleNotification packet (x_exec x)")
  case (Some e)
  have "e_pending e = e_pending (x_exec x)" "e_id e = e_id (x_exec x)" "e_retiring e = e_retiring (x_exec x)"
    using Some by (auto simp: handleNotification_def Let_def note_fields split: if_splits)
  then show ?thesis
    by (intro inv_exec [OF assms, of e "x_retires x" "Schedule # x_after x"])
      (use Some inv_parts [OF assms] in \<open>simp_all add: notify_def wakes_def\<close>)
qed (use assms in \<open>simp add: notify_def\<close>)


subsection \<open>Retirement\<close>

lemma counted_one: "counted P xs \<le> 1 \<Longrightarrow> j < length xs \<Longrightarrow> P (xs ! j) \<Longrightarrow> k < length xs \<Longrightarrow> k \<noteq> j \<Longrightarrow> \<not> P (xs ! k)"
proof (induction xs arbitrary: j k)
  case (Cons a xs)
  have none: "\<not> P (xs ! m)" if "counted P xs = 0" "m < length xs" for m
    using counted_pos [where P = P and xs = xs and i = m] that by auto
  show ?case
  proof (cases j)
    case 0
    then show ?thesis using Cons.prems none by (cases k) auto
  next
    case (Suc j')
    have "0 < counted P xs" using Cons.prems Suc counted_pos [where P = P and xs = xs and i = j'] by simp
    then have "\<not> P a" "counted P xs \<le> 1" using Cons.prems(1) by (simp_all split: if_splits)
    moreover have "\<not> P (xs ! k')" if "k = Suc k'" for k'
      by (rule Cons.IH [of j']) (use Cons.prems(2-5) \<open>counted P xs \<le> 1\<close> Suc that in simp_all)
    ultimately show ?thesis by (cases k) simp_all
  qed
qed simp

lemma window_alone:
  assumes "exec_inv x" "at_retire x j pc" "window pc"
  shows "e_retiring (x_exec x)" "e_pending (x_exec x) = 0" "counted window ((x_retires x)[j := pc']) = (if window pc' then 1 else 0)"
    "verifies_id (e_id (x_exec x)) pc"
proof -
  have j: "j < length (x_retires x)" "window (x_retires x ! j)" using assms(2,3) by (auto simp: at_retire_def)
  have pos: "0 < counted window (x_retires x)" by (rule counted_pos) (use j in auto)
  then show "e_retiring (x_exec x)" "e_pending (x_exec x) = 0" using assms(1) by (auto simp: exec_inv_def fenced_def)
  show "counted window ((x_retires x)[j := pc']) = (if window pc' then 1 else 0)"
    using counted_update [OF j(1), of window pc'] j(2) pos assms(1) by (auto simp: exec_inv_def fenced_def)
  show "verifies_id (e_id (x_exec x)) pc" using assms(1,2) by (auto simp: exec_inv_def fenced_def at_retire_def list_all_length)
qed

lemma inv_window:
  assumes "exec_inv x" "at_retire x j pc" "window pc" "verifies_id (e_id e) pc'" "e_pending e = e_pending (x_exec x)" "e_id e = e_id (x_exec x)"
    "window pc' \<longrightarrow> e_retiring e" "x_released y \<longrightarrow> e_retiring e \<and> (window pc' \<longrightarrow> pc' = RDisconnecting)"
    "wakes e ((x_retires x)[j := pc']) todo"
    "x_exec y = e" "x_requests y = x_requests x" "x_retires y = (x_retires x)[j := pc']" "x_after y = todo"
  shows "exec_inv y"
proof -
  note alone = window_alone [OF assms(1-3)]
  have "accounts e (x_requests x)" using assms(1,5) by (simp add: exec_inv_def accounts_def)
  moreover have "list_all (verifies_id (e_id e)) ((x_retires x)[j := pc'])"
    using assms(1,4,6) by (intro list_all_update) (simp_all add: exec_inv_def fenced_def)
  then have "fenced e ((x_retires x)[j := pc'])" using alone(2,3) assms(5,7) by (auto simp: fenced_def)
  moreover have "window pc = (pc = RDisconnecting)" if "x_released y" "k < length (x_retires x)" "window ((x_retires x)[j := pc'] ! k)" "pc = (x_retires x)[j := pc'] ! k" for k pc
  proof (cases "k = j")
    case True
    then show ?thesis using that assms(8) by (auto simp: window_def)
  next
    case False
    have "\<not> window (x_retires x ! k)"
      by (rule counted_one [of window "x_retires x" j])
        (use assms(1-3) that(2) False in \<open>auto simp: exec_inv_def fenced_def at_retire_def\<close>)
    then show ?thesis using that(3) False by simp
  qed
  then have "sealed e ((x_retires x)[j := pc']) (x_released y)"
    using assms(5,8) alone(2) by (auto simp: sealed_def list_all_length)
  ultimately show ?thesis using assms(9-) by (simp add: exec_inv_def)
qed

lemma wakes_retiring: "e_retiring e \<Longrightarrow> wakes e ps todo"
  by (simp add: wakes_def)

lemma waking_window: "waking pc \<Longrightarrow> \<not> window pc"
  by (auto simp: waking_def window_def)

text \<open>A step inside the window that leaves the executor as it is.\<close>

lemma inv_inside:
  assumes "exec_inv x" "at_retire x j pc" "window pc" "verifies_id (e_id (x_exec x)) pc'" "\<not> x_released x"
    "y = set_retire j pc' x \<or> y = enter_retire j pc' x"
  shows "exec_inv y"
  by (rule inv_window [where y = y and e = "x_exec x" and todo = "x_after x", OF assms(1-4)])
    (use assms(5,6) window_alone(1) [OF assms(1-3)] wakes_retiring in \<open>auto simp: set_retire_def enter_retire_def\<close>)

lemma not_released:
  assumes "exec_inv x" "at_retire x j pc" "window pc" "pc \<noteq> RDisconnecting"
  shows "\<not> x_released x"
  using assms by (auto simp: exec_inv_def sealed_def at_retire_def list_all_length)

lemma verify_ids:
  assumes "verifies_id i pc"
  shows "pc = RReading t turn \<Longrightarrow> verifies_id i (verify_read t turn answer)" "pc = RListing t thread \<Longrightarrow> verifies_id i (verify_list t thread answer)"
  using assms by (auto simp: verifies_id_def verify_read_def verify_list_def verify_end_def Let_def split: sum.split retire_pc.split gval.split list.split)

lemma verify_begin_id: "verifies_id (e_id e) (verify_begin e)"
  by (simp add: verifies_id_def verify_begin_def)

lemma inv_begin:
  assumes "exec_inv x" "at_retire x j RStart" "retire_begin (x_exec x) = (e, pc)"
  shows "exec_inv ((set_retire j pc x)\<lparr>x_exec := e\<rparr>)"
proof -
  have j: "j < length (x_retires x)" "x_retires x ! j = RStart" using assms(2) by (auto simp: at_retire_def)
  have start: "\<not> window RStart" by (simp add: window_def)
  have ids: "list_all (verifies_id (e_id (x_exec x))) ((x_retires x)[j := pc])" if "verifies_id (e_id (x_exec x)) pc"
    using assms(1) that by (intro list_all_update) (simp_all add: exec_inv_def fenced_def)
  show ?thesis
  proof (cases "e_retiring (x_exec x) \<or> 0 < e_pending (x_exec x) \<or> e_active (x_exec x)")
    case True
    then have pc: "pc = RDone (Inr False)" "e = x_exec x" using assms(3) by (simp_all add: retire_begin_def)
    have "wakes e ((x_retires x)[j := pc]) (x_after x)" using True pc(2) by (auto simp: wakes_def)
    moreover have "counted window ((x_retires x)[j := pc]) = counted window (x_retires x)"
      using counted_update [OF j(1), of window pc] j(2) start by (simp add: pc window_def)
    moreover have "window p \<longrightarrow> p \<in> set (x_retires x)" if "p \<in> set ((x_retires x)[j := pc])" for p
      using that set_update_subset_insert [of "x_retires x" j pc] by (auto simp: pc window_def)
    ultimately show ?thesis
      by (intro inv_exec [OF assms(1), of e "(x_retires x)[j := pc]" "x_after x"])
        (use ids pc in \<open>auto simp: set_retire_def list_all_iff verifies_id_def\<close>)
  next
    case False
    then have pc: "pc = RVerify" "e = stopTimerLocked ((x_exec x)\<lparr>e_retiring := True\<rparr>)" using assms(3) by (simp_all add: retire_begin_def)
    have acc: "accounts (x_exec x) (x_requests x)" "fenced (x_exec x) (x_retires x)" "\<not> x_released x"
      using assms(1) False by (auto simp: exec_inv_def sealed_def)
    have zero: "e_pending (x_exec x) = 0" "counted window (x_retires x) = 0" using acc False by (auto simp: accounts_def fenced_def)
    have "counted window ((x_retires x)[j := pc]) = 1"
      using counted_update [OF j(1), of window pc] j(2) start zero(2) by (simp add: pc window_def)
    then have "fenced e ((x_retires x)[j := pc])" using ids zero(1) by (simp add: fenced_def pc stopTimerLocked_def verifies_id_def)
    moreover have "accounts e (x_requests x)" using acc(1) by (simp add: accounts_def pc stopTimerLocked_def)
    ultimately show ?thesis using acc(3) by (simp add: exec_inv_def set_retire_def sealed_def wakes_def pc stopTimerLocked_def)
  qed
qed


lemma inv_release:
  assumes "exec_inv x" "at_retire x j RReleasing"
  shows "exec_inv ((set_retire j RDisconnecting x)\<lparr>x_released := True\<rparr>)"
proof -
  have "window RReleasing" by (simp add: window_def)
  from window_alone(1) [OF assms this] inv_window [OF assms this, where e = "x_exec x" and todo = "x_after x" and pc' = RDisconnecting]
  show ?thesis by (simp add: set_retire_def verifies_id_def wakes_retiring)
qed

lemma inv_disconnect:
  assumes "exec_inv x" "at_retire x j RDisconnecting"
  shows "exec_inv ((set_retire j (RDone (Inr True)) x)\<lparr>x_exec := Disconnect (x_exec x), x_after := TerminateAll # x_after x\<rparr>)"
proof -
  have "window RDisconnecting" by (simp add: window_def)
  from inv_window [OF assms this, where e = "Disconnect (x_exec x)" and todo = "TerminateAll # x_after x" and pc' = "RDone (Inr True)"]
  show ?thesis by (simp add: set_retire_def verifies_id_def wakes_retiring Disconnect_def stopTimerLocked_def window_def)
qed

lemma inv_fail:
  assumes "exec_inv x" "at_retire x j (RFailing err)"
  shows "exec_inv ((set_retire j (RRearming err) x)\<lparr>x_exec := (x_exec x)\<lparr>e_retiring := False\<rparr>\<rparr>)"
proof -
  have w: "window (RFailing err)" by (simp add: window_def)
  have "RRearming err \<in> set ((x_retires x)[j := RRearming err])" using assms(2) by (auto simp: at_retire_def intro: set_update_memI)
  then have "list_ex waking ((x_retires x)[j := RRearming err])" by (auto simp: list_ex_iff waking_def)
  then show ?thesis
    using inv_window [OF assms w, where e = "(x_exec x)\<lparr>e_retiring := False\<rparr>" and todo = "x_after x" and pc' = "RRearming err"]
      not_released [OF assms w] by (simp add: set_retire_def verifies_id_def wakes_def window_def)
qed

lemma inv_closed:
  assumes "exec_inv x"
  shows "exec_inv (x\<lparr>x_exec := Disconnect (x_exec x), x_after := TerminateAll # x_after x\<rparr>)"
  using assms by (auto simp: exec_inv_def accounts_def fenced_def sealed_def wakes_def Disconnect_def stopTimerLocked_def)

lemma inv_rearm:
  assumes "exec_inv x" "at_retire x j (RRearming err)"
  shows "exec_inv ((set_retire j (RDone (Inl err)) x)\<lparr>x_exec := rearm (x_exec x)\<rparr>)"
proof -
  let ?ps = "(x_retires x)[j := RDone (Inl err)]"
  have j: "j < length (x_retires x)" "x_retires x ! j = RRearming err" using assms(2) by (auto simp: at_retire_def)
  have "counted window ?ps = counted window (x_retires x)"
    using counted_update [OF j(1), of window "RDone (Inl err)"] j(2) by (simp add: window_def)
  moreover have "list_all (verifies_id (e_id (x_exec x))) ?ps"
    using assms(1) by (intro list_all_update) (simp_all add: exec_inv_def fenced_def verifies_id_def)
  moreover have "list_all (\<lambda>pc. window pc \<longrightarrow> pc \<in> set (x_retires x)) ?ps"
    using set_update_subset_insert [of "x_retires x" j "RDone (Inl err)"] by (auto simp: list_all_iff window_def)
  ultimately show ?thesis
    by (intro inv_exec [OF assms(1), of "rearm (x_exec x)" ?ps "x_after x"])
      (simp_all add: set_retire_def rearm_def stopTimerLocked_def wakes_def)
qed

lemma inv_spawn:
  assumes "exec_inv x" "e = x_exec x \<or> e = (x_exec x)\<lparr>e_timer := Fired\<rparr>"
  shows "exec_inv (x\<lparr>x_exec := e, x_retires := x_retires x @ [RStart]\<rparr>)"
  by (rule inv_exec [OF assms(1), of e "x_retires x @ [RStart]" "x_after x"])
    (use assms inv_parts [OF assms(1)] in \<open>auto simp: wakes_def waking_def window_def verifies_id_def\<close>)

text \<open>The request steps are sections that keep the count, the others were shown above.\<close>

lemma inflight_pcs [simp]:
  "inflight Deciding" "inflight Opening" "inflight (Sending k)" "inflight (Calling k)" "inflight (Created t v)" "inflight (Recording v)" "inflight (Reopening r)"
  "inflight (Storing v)" "inflight (Activating v)" "inflight (Archiving v)" "inflight (Replying r)" "inflight Departing"
  by (simp_all add: inflight_def)

lemma window_pcs [simp]:
  "window RVerify" "window (RReading t turn)" "window (RListing t thread)" "window RReleasing" "window RDisconnecting" "window (RFailing err)"
  "\<not> window RStart" "\<not> window (RRearming err)" "\<not> window (RDone r)"
  by (simp_all add: window_def)

lemma section_pending [simp]:
  "e_pending (store_turn v e) = e_pending e" "e_pending (activate e) = e_pending e" "e_pending (archive_settled e) = e_pending e"
  by (simp_all add: store_turn_def activate_def archive_settled_def Let_def split: option.split)

lemma inv_exec_step:
  assumes "exec_inv x" "exec_step x y"
  shows "exec_inv y"
  using assms(2)
proof (cases rule: exec_step.cases)
  case listen
  show ?thesis
    by (rule inv_exec [OF assms(1), of "(x_exec x)\<lparr>e_server := True\<rparr>" "x_retires x" "Schedule # x_after x"])
      (use listen inv_parts [OF assms(1)] in \<open>simp_all add: wakes_def\<close>)
next
  case (track socket attached)
  show ?thesis
    by (rule inv_exec [OF assms(1), of "trackSocket socket attached (x_exec x)" "x_retires x" "x_after x"])
      (use track inv_parts [OF assms(1)] in \<open>simp_all add: wakes_def trackSocket_def\<close>)
next
  case (answers i kind answer)
  then show ?thesis using inv_goto [OF assms(1) answers(2)] after_call_pc by simp
next
  case (records i v err)
  then show ?thesis using inv_goto [OF assms(1) records(2)] by simp
next
  case (reopens i r)
  then show ?thesis using inv_section [OF assms(1) reopens(2)] by simp
next
  case (stores i v)
  then show ?thesis using inv_section [OF assms(1) stores(2)] by simp
next
  case (activates i v)
  then show ?thesis using inv_section [OF assms(1) activates(2)] by simp
next
  case (archives i v)
  then show ?thesis using inv_section [OF assms(1) archives(2)] by simp
next
  case (verifies j)
  have "\<not> x_released x" using not_released [OF assms(1) verifies(2)] by simp
  from inv_inside [OF assms(1) verifies(2) window_pcs(1) verify_begin_id this] show ?thesis using verifies(1) by blast
next
  case (reads j t turn answer)
  have "verifies_id (e_id (x_exec x)) (RReading t turn)" "\<not> x_released x"
    using window_alone(4) [OF assms(1) reads(2)] not_released [OF assms(1) reads(2)] by simp_all
  from inv_inside [OF assms(1) reads(2) window_pcs(2) verify_ids(1) [OF this(1) refl] this(2)] show ?thesis using reads(1) by blast
next
  case (lists j t thread answer)
  have "verifies_id (e_id (x_exec x)) (RListing t thread)" "\<not> x_released x"
    using window_alone(4) [OF assms(1) lists(2)] not_released [OF assms(1) lists(2)] by simp_all
  from inv_inside [OF assms(1) lists(2) window_pcs(3) verify_ids(2) [OF this(1) refl] this(2)] show ?thesis using lists(1) by blast
next
  case (release_fails j msg)
  have "verifies_id (e_id (x_exec x)) (RFailing (RCause msg))" "\<not> x_released x"
    using not_released [OF assms(1) release_fails(2)] by (simp_all add: verifies_id_def)
  from inv_inside [OF assms(1) release_fails(2) window_pcs(4) this] show ?thesis using release_fails(1) by blast
next
  case retires
  then show ?thesis using inv_spawn [OF assms(1), of "x_exec x"] by simp
qed (use assms(1) inv_receive inv_refuse inv_decide inv_open inv_forward inv_create inv_write inv_leave inv_notify inv_spawn inv_begin inv_release inv_disconnect
    inv_fail inv_rearm inv_closed inv_obligation in simp_all)

definition exec_initial :: "exec_sys \<Rightarrow> bool" where
  "exec_initial x \<longleftrightarrow> (\<exists>token admitted idle completed e. NewTaskExecutor token admitted idle completed = Inr e \<and>
     x = (exec_start e)\<lparr>x_exec := e\<lparr>e_server := True\<rparr>, x_after := [Schedule]\<rparr>)"

lemma exec_inv_initial: "exec_initial x \<Longrightarrow> exec_inv x"
  by (auto simp: exec_initial_def NewTaskExecutor_def exec_start_def exec_inv_def accounts_def fenced_def sealed_def wakes_def executorMaxPending_def
      split: if_splits)

interpretation executor_runs: invariant_system exec_initial exec_step exec_inv
  by unfold_locales (auto intro: exec_inv_initial inv_exec_step)


subsection \<open>What a step sends\<close>

lemma goto_fields [simp]: "x_sent (goto i pc x) = x_sent x" "x_released (goto i pc x) = x_released x"
  by (simp_all add: goto_def)

lemma section_sent [simp]: "x_sent (in_section i f pc x) = x_sent x" "x_released (in_section i f pc x) = x_released x"
  by (simp_all add: in_section_def)

lemma quiet_fields [simp]:
  "x_sent (receive p x) = x_sent x" "x_released (receive p x) = x_released x"
  "x_sent (write_reply i r pc x) = x_sent x" "x_released (write_reply i r pc x) = x_released x"
  "x_sent (leave_request i x) = x_sent x" "x_released (leave_request i x) = x_released x"
  "x_sent (notify ps x) = x_sent x" "x_released (notify ps x) = x_released x"
  "x_sent (set_retire j rp x) = x_sent x" "x_released (set_retire j rp x) = x_released x"
  "x_sent (run_obligation o' x) = x_sent x" "x_released (run_obligation o' x) = x_released x"
  "x_sent (decide i b x) = x_sent x" "x_released (decide i b x) = x_released x"
  "x_sent (open_task i x) = x_sent x" "x_released (open_task i x) = x_released x"
  "x_sent (create_task i t v x) = x_sent x" "x_released (create_task i t v x) = x_released x"
  by (simp_all add: receive_def write_reply_def leave_request_def notify_def set_retire_def run_obligation_def decide_def open_task_def
      create_task_def Let_def split: option.split obligation.split decision.split)

lemma released_step:
  assumes "exec_inv x" "exec_step x y" "x_released x"
  shows "x_sent y = x_sent x \<and> x_released y"
  using assms(2)
proof (cases rule: exec_step.cases)
  case (sends i kind)
  then show ?thesis using inflight_open(3) [OF assms(1) sends(2)] assms(3) by simp
next
  case (verifies j)
  then show ?thesis using not_released [OF assms(1) verifies(2)] assms(3) by simp
next
  case (reads j t turn answer)
  then show ?thesis using not_released [OF assms(1) reads(2)] assms(3) by simp
next
  case (lists j t thread answer)
  then show ?thesis using not_released [OF assms(1) lists(2)] assms(3) by simp
qed (use assms(3) in simp_all)

lemma ask_list_id: "verifies_id i pc \<Longrightarrow> ask_list pc = (m, ps) # rest \<Longrightarrow> rest = [] \<and> i \<noteq> [] \<and> executorText (executorField ps ''threadId'') = i"
  by (auto simp: ask_list_def verifies_id_def thread_read_def turns_list_def executorField_def executorText_def fields_of_def Fields_def field_def
      split: retire_pc.splits)

lemma sent_cons: "ask_list pc @ s = (m, ps) # s \<Longrightarrow> ask_list pc = [(m, ps)]"
  by (auto simp: ask_list_def split: retire_pc.splits)

subsection \<open>The scope of requests\<close>

definition request_thread :: "request \<Rightarrow> string" where
  "request_thread q = executorText (executorField (rq_params q) ''threadId'')"

definition starts :: "(string \<times> gval) list \<Rightarrow> nat" where
  "starts sent = counted (\<lambda>r. fst r = ''thread/start'') sent"

text \<open>A request that was let through names an owned task, or it starts one or asks for the models.\<close>

definition checked :: "string list \<Rightarrow> request \<Rightarrow> bool" where
  "checked owned q \<longleftrightarrow>
     (case rq_pc q of
        Sending kind \<Rightarrow> kind = Creating \<and> rq_method q = ''thread/start'' \<or> kind = AsIs \<and> rq_method q = ''model/list'' \<or>
          kind \<noteq> Creating \<and> request_thread q \<in> set owned
      | Created t v \<Rightarrow> t \<noteq> []
      | _ \<Rightarrow> True)"

definition starting :: "request_pc \<Rightarrow> bool" where
  "starting pc \<longleftrightarrow> pc = Calling Creating \<or> (\<exists>t v. pc = Created t v)"

definition to_start :: "request_pc \<Rightarrow> bool" where
  "to_start pc \<longleftrightarrow> pc = Opening \<or> pc = Sending Creating \<or> starting pc"

definition scope_inv :: "exec_sys \<Rightarrow> bool" where
  "scope_inv x \<longleftrightarrow> e_id (x_exec x) = (case x_owned x of [] \<Rightarrow> [] | t # ts \<Rightarrow> t) \<and> [] \<notin> set (x_owned x) \<and>
     list_all (checked (x_owned x)) (x_requests x) \<and>
     (length (x_owned x) = 1 \<and> list_all (\<lambda>q. \<not> to_start (rq_pc q)) (x_requests x) \<or>
      length (x_owned x) + counted (starting \<circ> rq_pc) (x_requests x) \<le> starts (x_sent x))"

lemma starts_simps [simp]: "starts [] = 0" "starts (r # rs) = (if fst r = ''thread/start'' then Suc (starts rs) else starts rs)"
  by (simp_all add: starts_def)

lemma owned_id: "scope_inv x \<Longrightarrow> e_id (x_exec x) \<noteq> [] \<Longrightarrow> e_id (x_exec x) \<in> set (x_owned x)"
  by (auto simp: scope_inv_def split: list.splits)

lemma owned_once: "scope_inv x \<Longrightarrow> t \<in> set (x_owned x) \<Longrightarrow> t = e_id (x_exec x) \<or> 2 \<le> starts (x_sent x)"
proof -
  assume inv: "scope_inv x" and t: "t \<in> set (x_owned x)"
  then obtain u ts where o': "x_owned x = u # ts" "e_id (x_exec x) = u" by (auto simp: scope_inv_def split: list.splits)
  have "2 \<le> starts (x_sent x)" if "t \<in> set ts"
    using inv o' that by (cases ts) (auto simp: scope_inv_def)
  then show ?thesis using t o' by auto
qed

lemma scope_request:
  assumes "scope_inv x" "at_pc x i pc" "x_requests y = (x_requests x)[i := q]" "x_owned y = x_owned x"
    "e_id (x_exec y) = e_id (x_exec x)" "starts (x_sent y) = starts (x_sent x)"
    "checked (x_owned x) q" "starting (rq_pc q) \<Longrightarrow> starting pc" "to_start (rq_pc q) \<Longrightarrow> to_start pc \<or> x_owned x = []"
  shows "scope_inv y"
proof -
  have i: "i < length (x_requests x)" "rq_pc (x_requests x ! i) = pc" using assms(2) by (auto simp: at_pc_def)
  have "list_all (checked (x_owned y)) (x_requests y)"
    using assms(1,7) by (simp add: assms(3,4) list_all_update scope_inv_def)
  moreover have "counted (starting \<circ> rq_pc) (x_requests y) \<le> counted (starting \<circ> rq_pc) (x_requests x)"
    using counted_update [OF i(1), of "starting \<circ> rq_pc" q] i(2) assms(8) by (auto simp: assms(3) split: if_splits)
  moreover have "list_all (\<lambda>q. \<not> to_start (rq_pc q)) (x_requests y)"
    if "length (x_owned x) = 1" "list_all (\<lambda>q. \<not> to_start (rq_pc q)) (x_requests x)"
  proof -
    have "\<not> to_start pc" using that(2) i by (auto simp: list_all_length)
    then have "\<not> to_start (rq_pc q)" using that(1) assms(9) by auto
    then show ?thesis using that(2) by (simp add: assms(3) list_all_update)
  qed
  ultimately show ?thesis using assms(1,4-6) unfolding scope_inv_def by (metis add_left_mono order_trans)
qed

lemma scope_goto:
  assumes "scope_inv x" "at_pc x i pc" "checked (x_owned x) ((x_requests x ! i)\<lparr>rq_pc := pc'\<rparr>)" "starting pc' \<Longrightarrow> starting pc"
    "to_start pc' \<Longrightarrow> to_start pc \<or> x_owned x = []" "\<And>e. e_id (f e) = e_id e"
  shows "scope_inv (in_section i f pc' x)" "scope_inv (goto i pc' x)"
  by (rule scope_request [OF assms(1,2), of _ "(x_requests x ! i)\<lparr>rq_pc := pc'\<rparr>"];
      use assms(3-) in \<open>simp add: in_section_def goto_def upd_rq_def\<close>)+

lemma quiet_pcs [simp]:
  "starting (Calling kind) = (kind = Creating)" "starting (Created t v)" "\<not> starting (Recording v)" "\<not> starting (Reopening r)"
  "\<not> starting (Storing v)" "\<not> starting (Activating v)" "\<not> starting (Archiving v)" "\<not> starting (Replying r)" "\<not> starting Departing"
  "\<not> starting Gone" "\<not> starting Opening" "\<not> starting (Sending kind)" "\<not> starting Deciding" "\<not> starting Refusing"
  "to_start (Calling kind) = (kind = Creating)" "to_start (Created t v)" "\<not> to_start (Recording v)" "\<not> to_start (Reopening r)"
  "\<not> to_start (Storing v)" "\<not> to_start (Activating v)" "\<not> to_start (Archiving v)" "\<not> to_start (Replying r)" "\<not> to_start Departing"
  "\<not> to_start Gone" "to_start Opening" "to_start (Sending kind) = (kind = Creating)" "\<not> to_start Deciding" "\<not> to_start Refusing"
  by (auto simp: starting_def to_start_def)

lemma checked_pcs [simp]:
  "checked owned (q\<lparr>rq_pc := Calling kind\<rparr>)" "checked owned (q\<lparr>rq_pc := Recording v\<rparr>)" "checked owned (q\<lparr>rq_pc := Reopening r\<rparr>)"
  "checked owned (q\<lparr>rq_pc := Storing v\<rparr>)" "checked owned (q\<lparr>rq_pc := Activating v\<rparr>)" "checked owned (q\<lparr>rq_pc := Archiving v\<rparr>)"
  "checked owned (q\<lparr>rq_pc := Replying r\<rparr>)" "checked owned (q\<lparr>rq_pc := Gone\<rparr>)" "checked owned (q\<lparr>rq_pc := Opening\<rparr>)"
  "checked owned (q\<lparr>rq_pc := Departing, rq_replies := rs\<rparr>)" "checked owned (q\<lparr>rq_pc := Gone, rq_replies := rs\<rparr>)"
  by (simp_all add: checked_def)

lemma request_checked:
  assumes "request_decide protected name ps e = Forward kind"
  shows "kind \<noteq> Creating \<and> (kind = AsIs \<and> name = ''model/list'' \<or> e_id e \<noteq> [] \<and> executorText (executorField ps ''threadId'') = e_id e)"
  using assms by (auto simp: request_decide_def Let_def split: if_splits)

lemma request_opens: "request_decide protected name ps e = OpenTask \<Longrightarrow> e_id e = [] \<and> \<not> e_opening e \<and> name = ''thread/start''"
  by (auto simp: request_decide_def Let_def split: if_splits)

lemma scope_decide:
  assumes "scope_inv x" "at_pc x i Deciding"
  shows "scope_inv (decide i protected x)"
proof (cases "request_decide protected (rq_method (x_requests x ! i)) (rq_params (x_requests x ! i)) (x_exec x)")
  case (Answer r)
  then show ?thesis using scope_goto(2) [OF assms, of "Replying r" "\<lambda>e. e"] by (simp add: decide_def Let_def)
next
  case (Forward kind)
  note c = request_checked [OF Forward]
  have "checked (x_owned x) ((x_requests x ! i)\<lparr>rq_pc := Sending kind\<rparr>)"
    using c owned_id [OF assms(1)] by (auto simp: checked_def request_thread_def)
  then show ?thesis using scope_goto(2) [OF assms, of "Sending kind" "\<lambda>e. e"] c Forward by (simp add: decide_def Let_def)
next
  case OpenTask
  have "x_owned x = []" using request_opens [OF OpenTask] assms(1) by (auto simp: scope_inv_def split: list.splits)
  then show ?thesis using scope_goto(2) [OF assms, of Opening "\<lambda>e. e"] OpenTask by (simp add: decide_def Let_def)
qed

lemma scope_open:
  assumes "exec_inv x" "scope_inv x" "at_pc x i Opening"
  shows "scope_inv (open_task i x)"
  using scope_goto(1) [OF assms(2,3), of "Sending Creating" "\<lambda>e. e\<lparr>e_opening := True\<rparr>"] inv_replied [OF assms(1,3)]
  by (simp add: open_task_def checked_def replied_def)

lemma request_checked_at: "scope_inv x \<Longrightarrow> at_pc x i pc \<Longrightarrow> checked (x_owned x) (x_requests x ! i) \<and> rq_pc (x_requests x ! i) = pc"
  by (auto simp: scope_inv_def at_pc_def list_all_length)

lemma scope_forward:
  assumes "scope_inv x" "at_pc x i (Sending kind)"
  shows "scope_inv (forward i kind x)"
proof (cases "kind = Creating")
  case False
  let ?q = "(x_requests x ! i)\<lparr>rq_pc := Calling kind\<rparr>" and ?y = "goto i (Calling kind) x"
  have "scope_inv ?y" using scope_goto(2) [OF assms, of "Calling kind" "\<lambda>e. e"] False by simp
  then show ?thesis by (auto simp: forward_def Let_def scope_inv_def)
next
  case True
  have i: "i < length (x_requests x)" "rq_pc (x_requests x ! i) = Sending Creating" using assms(2) True by (auto simp: at_pc_def)
  have "rq_method (x_requests x ! i) = ''thread/start''" using request_checked_at [OF assms] True by (auto simp: checked_def)
  moreover have "\<not> list_all (\<lambda>q. \<not> to_start (rq_pc q)) (x_requests x)" using i by (auto simp: list_all_length)
  moreover have "counted (starting \<circ> rq_pc) ((x_requests x)[i := (x_requests x ! i)\<lparr>rq_pc := Calling Creating\<rparr>]) =
      Suc (counted (starting \<circ> rq_pc) (x_requests x))"
    using counted_update [OF i(1), of "starting \<circ> rq_pc" "(x_requests x ! i)\<lparr>rq_pc := Calling Creating\<rparr>"] i(2) by simp
  moreover have "list_all (checked (x_owned x)) ((x_requests x)[i := (x_requests x ! i)\<lparr>rq_pc := Calling Creating\<rparr>])"
    using assms(1) by (intro list_all_update) (simp_all add: scope_inv_def)
  ultimately show ?thesis using assms(1) True
    by (simp add: forward_def Let_def scope_inv_def goto_def) (simp add: upd_rq_def)
qed

lemma scope_create:
  assumes "scope_inv x" "at_pc x i (Created t v)"
  shows "scope_inv (create_task i t v x)"
proof -
  let ?q = "(x_requests x ! i)\<lparr>rq_pc := Recording v\<rparr>"
  have i: "i < length (x_requests x)" "rq_pc (x_requests x ! i) = Created t v" using assms(2) by (auto simp: at_pc_def)
  have t: "t \<noteq> []" using request_checked_at [OF assms] by (auto simp: checked_def)
  have "\<not> list_all (\<lambda>q. \<not> to_start (rq_pc q)) (x_requests x)" using i by (auto simp: list_all_length)
  moreover have "Suc (counted (starting \<circ> rq_pc) ((x_requests x)[i := ?q])) = counted (starting \<circ> rq_pc) (x_requests x)"
    using counted_update [OF i(1), of "starting \<circ> rq_pc" ?q] i(2) by simp
  moreover have "list_all (checked (t # x_owned x)) ((x_requests x)[i := ?q])"
  proof (rule list_all_update)
    have "checked (t # x_owned x) q" if "checked (x_owned x) q" for q
      using that by (auto simp: checked_def split: request_pc.splits)
    then show "list_all (checked (t # x_owned x)) (x_requests x)" using assms(1) by (auto simp: scope_inv_def list_all_iff)
  qed simp
  ultimately show ?thesis using assms(1) t
    by (simp add: create_task_def scope_inv_def in_section_def goto_def)
qed

text \<open>Steps that leave the requests and the identity alone.\<close>

lemma scope_same:
  assumes "scope_inv x" "x_requests y = x_requests x" "x_owned y = x_owned x" "e_id (x_exec y) = e_id (x_exec x)" "starts (x_sent x) \<le> starts (x_sent y)"
  shows "scope_inv y"
  using assms by (auto simp: scope_inv_def)

lemma scope_receive: "scope_inv x \<Longrightarrow> scope_inv (receive p x)"
  by (auto simp: receive_def scope_inv_def Let_def checked_def stopTimerLocked_def split: option.split)

lemma notify_scope: "x_requests (notify packet x) = x_requests x" "x_owned (notify packet x) = x_owned x" "e_id (x_exec (notify packet x)) = e_id (x_exec x)"
  by (auto simp: notify_def handleNotification_def Let_def note_fields split: option.splits if_splits)

lemma section_id [simp]: "e_id (store_turn v e) = e_id e" "e_id (activate e) = e_id e" "e_id (archive_settled e) = e_id e"
  by (simp_all add: store_turn_def activate_def archive_settled_def Let_def split: option.split)

lemma after_call_scope:
  "starting (after_call kind name a) \<Longrightarrow> kind = Creating" "to_start (after_call kind name a) \<Longrightarrow> kind = Creating"
  "checked owned (q\<lparr>rq_pc := after_call kind name a\<rparr>)"
  by (auto simp: after_call_def Let_def checked_def executorUUIDPattern_def split: call_kind.splits sum.splits if_splits)

lemma scope_reply:
  assumes "scope_inv x" "at_pc x i pc" "pc' = Departing \<or> pc' = Gone"
  shows "scope_inv (write_reply i r pc' x)"
  by (rule scope_request [OF assms(1,2), of _ "(x_requests x ! i)\<lparr>rq_pc := pc', rq_replies := rq_replies (x_requests x ! i) @ [r]\<rparr>"])
    (use assms(3) in \<open>auto simp: write_reply_def upd_rq_def\<close>)

lemma scope_step:
  assumes "exec_inv x" "scope_inv x" "exec_step x y"
  shows "scope_inv y"
  using assms(3)
proof (cases rule: exec_step.cases)
  case (refuses i)
  then show ?thesis using scope_reply [OF assms(2) refuses(2)] by simp
next
  case (replies i r)
  then show ?thesis using scope_reply [OF assms(2) replies(2)] by simp
next
  case (answers i kind answer)
  then show ?thesis using scope_goto(2) [OF assms(2) answers(2), of _ "\<lambda>e. e"] after_call_scope [where kind = kind] by simp
next
  case (records i v err)
  then show ?thesis
    using scope_goto(2) [OF assms(2) records(2), of "Reopening (case err of None \<Rightarrow> Inr v | Some msg \<Rightarrow> Inl (RCause msg))" "\<lambda>e. e"] by simp
next
  case (reopens i r)
  then show ?thesis using scope_goto(1) [OF assms(2) reopens(2), of "Replying r" "\<lambda>e. e\<lparr>e_opening := False\<rparr>"] by simp
next
  case (stores i v)
  then show ?thesis using scope_goto(1) [OF assms(2) stores(2), of "Activating v" "store_turn v"] by simp
next
  case (activates i v)
  then show ?thesis using scope_goto(1) [OF assms(2) activates(2), of "Replying (Inr v)" activate] by simp
next
  case (archives i v)
  then show ?thesis using scope_goto(1) [OF assms(2) archives(2), of "Replying (Inr v)" archive_settled] by simp
next
  case (leaves i)
  have "scope_inv (in_section i (\<lambda>e. e\<lparr>e_pending := e_pending e - 1\<rparr>) Gone x)"
    using scope_goto(1) [OF assms(2) leaves(2), of Gone "\<lambda>e. e\<lparr>e_pending := e_pending e - 1\<rparr>"] by simp
  then show ?thesis using leaves(1) by (auto simp: leave_request_def scope_inv_def)
next
  case (notifies packet)
  then show ?thesis using scope_same [OF assms(2), of y] notify_scope by simp
next
  case (begins j e pc)
  then show ?thesis using scope_same [OF assms(2), of y]
    by (auto simp: set_retire_def retire_begin_def stopTimerLocked_def split: if_splits)
qed (use assms(1,2) scope_decide scope_open scope_forward scope_create scope_receive in
    \<open>auto intro!: scope_same [OF assms(2)] simp: trackSocket_def set_retire_def enter_retire_def ask_list_def thread_read_def turns_list_def
      Disconnect_def stopTimerLocked_def rearm_def run_obligation_def Let_def split: retire_pc.splits obligation.splits\<close>)

lemma scope_initial: "exec_initial x \<Longrightarrow> scope_inv x"
  by (auto simp: exec_initial_def NewTaskExecutor_def exec_start_def scope_inv_def split: if_splits)

interpretation scoped_runs: invariant_system exec_initial exec_step "\<lambda>x. exec_inv x \<and> scope_inv x"
  by unfold_locales (auto intro: exec_inv_initial inv_exec_step scope_initial scope_step)

lemma step_scope:
  assumes "exec_inv x" "scope_inv x" "exec_step x y" "x_sent y = (name, ps) # x_sent x" "name \<notin> {''model/list'', ''thread/start''}"
  shows "executorText (executorField ps ''threadId'') \<in> set (x_owned x)"
  using assms(3)
proof (cases rule: exec_step.cases)
  case (sends i kind)
  then have "name = rq_method (x_requests x ! i)" "ps = rq_params (x_requests x ! i)"
    using assms(4) by (simp_all add: forward_def Let_def)
  then show ?thesis using request_checked_at [OF assms(2) sends(2)] assms(5) by (auto simp: checked_def request_thread_def)
next
  case (verifies j)
  then have "ask_list (verify_begin (x_exec x)) = [(name, ps)]" using assms(4) by (auto simp: enter_retire_def intro: sent_cons)
  from ask_list_id [OF verify_begin_id this] owned_id [OF assms(2)] show ?thesis by simp
next
  case (reads j t turn answer)
  then have asked: "ask_list (verify_read t turn answer) = [(name, ps)]" using assms(4) by (auto simp: enter_retire_def intro: sent_cons)
  have "verifies_id (e_id (x_exec x)) (verify_read t turn answer)"
    using window_alone(4) [OF assms(1) reads(2)] by (auto intro: verify_ids)
  from ask_list_id [OF this asked] owned_id [OF assms(2)] show ?thesis by simp
next
  case (lists j t thread answer)
  then have asked: "ask_list (verify_list t thread answer) = [(name, ps)]" using assms(4) by (auto simp: enter_retire_def intro: sent_cons)
  have "verifies_id (e_id (x_exec x)) (verify_list t thread answer)"
    using window_alone(4) [OF assms(1) lists(2)] by (auto intro: verify_ids)
  from ask_list_id [OF this asked] owned_id [OF assms(2)] show ?thesis by simp
qed (use assms(4) in simp_all)

subsection \<open>Recorded runs\<close>

definition sample_token :: string where
  "sample_token = replicate 64 (CHR ''0'')"

definition task_one :: string where
  "task_one = ''00000000-0000-4000-8000-000000000001''"

definition task_two :: string where
  "task_two = ''00000000-0000-4000-8000-000000000002''"

lemma tasks_uuid: "executorUUIDPattern task_one" "executorUUIDPattern task_two"
  by (simp_all add: executorUUIDPattern_def task_one_def task_two_def hex_any_def upt_rec is_digit_def)

definition sample_executor :: "string \<Rightarrow> executor" where
  "sample_executor admitted = \<lparr>e_id = admitted, e_turn = None, e_timer = NoTimer, e_hasUser = False, e_materialized = (admitted \<noteq> []),
     e_pending = 0, e_active = False, e_settled = False, e_nativeClosed = False, e_retiring = False, e_opening = False,
     e_server = True, e_sockets = [], e_idle = executorDefaultIdle, e_completed = executorDefaultCompleted\<rparr>"

definition sample_start :: "string \<Rightarrow> exec_sys" where
  "sample_start admitted = (exec_start (sample_executor admitted))\<lparr>x_after := [Schedule]\<rparr>"

lemma sample_token_ok: "privateTokenPattern sample_token"
  by (simp add: privateTokenPattern_def sample_token_def hex_any_def is_digit_def list_all_iff)

lemma sample_start_initial: "admitted = [] \<or> executorUUIDPattern admitted \<Longrightarrow> exec_initial (sample_start admitted)"
  unfolding exec_initial_def
  by (intro exI [of _ sample_token] exI [of _ admitted] exI [of _ 0] exI [of _ 0] exI [of _ "(sample_executor admitted)\<lparr>e_server := False\<rparr>"])
    (auto simp: NewTaskExecutor_def sample_token_ok sample_start_def sample_executor_def exec_start_def)

lemma sample_start_reach: "admitted = [] \<or> executorUUIDPattern admitted \<Longrightarrow> executor_runs.reach (sample_start admitted)"
  using sample_start_initial [of admitted] unfolding executor_runs.reach_def by blast

lemma reach_step: "executor_runs.reach x \<Longrightarrow> exec_step x y \<Longrightarrow> executor_runs.reach y"
  unfolding executor_runs.reach_def by (blast intro: rtranclp.rtrancl_into_rtrancl)

text \<open>A retirement of an idle task: the state in which it asks for the task, and the one in which it releases.\<close>

definition retiring_sys :: "retire_pc \<Rightarrow> (string \<times> gval) list \<Rightarrow> exec_sys" where
  "retiring_sys pc sent = (sample_start task_one)\<lparr>x_exec := (sample_executor task_one)\<lparr>e_retiring := True\<rparr>, x_retires := [pc], x_sent := sent\<rparr>"

lemma retiring_simps [simp]:
  "x_exec (retiring_sys pc s) = (sample_executor task_one)\<lparr>e_retiring := True\<rparr>" "x_retires (retiring_sys pc s) = [pc]"
  "x_sent (retiring_sys pc s) = s" "x_requests (retiring_sys pc s) = []" "x_released (retiring_sys pc s) = False"
  by (simp_all add: retiring_sys_def sample_start_def exec_start_def)

lemma retiring_verify: "executor_runs.reach (retiring_sys RVerify [])"
proof -
  let ?s = "(sample_start task_one)\<lparr>x_retires := [RStart]\<rparr>"
  have "exec_step (sample_start task_one) ?s"
    using exec_step.retires [of "sample_start task_one"] by (simp add: sample_start_def exec_start_def)
  moreover have "retire_begin (x_exec ?s) = ((sample_executor task_one)\<lparr>e_retiring := True\<rparr>, RVerify)"
    by (simp add: retire_begin_def sample_start_def exec_start_def sample_executor_def stopTimerLocked_def)
  from exec_step.begins [OF _ this, of 0] have "exec_step ?s (retiring_sys RVerify [])"
    by (simp add: at_retire_def set_retire_def retiring_sys_def sample_start_def exec_start_def)
  ultimately show ?thesis using sample_start_reach [of task_one] tasks_uuid(1) by (blast intro: reach_step)
qed

lemma retiring_asks: "exec_step (retiring_sys RVerify []) (retiring_sys (RReading task_one None) [thread_read task_one])"
proof -
  have "verify_begin ((sample_executor task_one)\<lparr>e_retiring := True\<rparr>) = RReading task_one None"
    by (simp add: verify_begin_def sample_executor_def task_one_def)
  then show ?thesis
    using exec_step.verifies [of "retiring_sys RVerify []" 0]
    by (simp add: at_retire_def enter_retire_def ask_list_def) (simp add: retiring_sys_def set_retire_def sample_start_def exec_start_def)
qed

definition idle_answer :: gval where
  "idle_answer = GMap [(''thread'', GMap [(''id'', GStr task_one), (''status'', GMap [(''type'', GStr ''idle'')])])]"

lemma retiring_releases: "executor_runs.reach (retiring_sys RReleasing [thread_read task_one])"
proof -
  have "verify_read task_one None (Inr idle_answer) = RReleasing"
    by (simp add: verify_read_def idle_answer_def executorField_def executorText_def fields_of_def Fields_def field_def verify_end_def Let_def)
  then have "exec_step (retiring_sys (RReading task_one None) [thread_read task_one]) (retiring_sys RReleasing [thread_read task_one])"
    using exec_step.reads [of "retiring_sys (RReading task_one None) [thread_read task_one]" 0 task_one None "Inr idle_answer"]
    by (simp add: at_retire_def enter_retire_def ask_list_def) (simp add: retiring_sys_def set_retire_def)
  then show ?thesis using reach_step [OF retiring_verify retiring_asks] by (rule reach_step [rotated])
qed

text \<open>Two clients start a task at the same time.\<close>

definition start_text :: "string \<Rightarrow> string" where
  "start_text i = ''{'' @ [CHR 0x22] @ ''id'' @ [CHR 0x22] @ '':'' @ [CHR 0x22] @ i @ [CHR 0x22] @ '','' @ [CHR 0x22] @ ''method'' @ [CHR 0x22] @ '':'' @
     [CHR 0x22] @ ''thread/start'' @ [CHR 0x22] @ ''}''"

definition start_packet :: "string \<Rightarrow> executorPacket" where
  "start_packet i = \<lparr>ep_method = ''thread/start'', ep_params = GNil, ep_id = Some (GStr i)\<rparr>"

lemma start_decodes: "decodeExecutorPacket (start_text ''a'') = Some (start_packet ''a'')" "decodeExecutorPacket (start_text ''b'') = Some (start_packet ''b'')"
  by (simp_all add: start_text_def start_packet_def decodeExecutorPacket_def reader_eval pred_numeral_simps child_path_def appendPath_def
      dec_string_bare bare_char_def Text_def AsText_def charge_new_key_def Fields_def field_def)

definition start_request :: "string \<Rightarrow> request_pc \<Rightarrow> ((float64 \<times> string) + gval) list \<Rightarrow> request" where
  "start_request i pc rs = \<lparr>rq_id = GStr i, rq_method = ''thread/start'', rq_params = GNil, rq_pc = pc, rq_replies = rs\<rparr>"

definition last_owned :: "string list \<Rightarrow> string" where
  "last_owned owned = (case owned of [] \<Rightarrow> [] | t # ts \<Rightarrow> t)"

lemma last_owned_simps [simp]: "last_owned [] = []" "last_owned (t # ts) = t"
  by (simp_all add: last_owned_def)

definition race :: "string list \<Rightarrow> bool \<Rightarrow> request \<Rightarrow> request \<Rightarrow> nat \<Rightarrow> exec_sys" where
  "race owned opening p q n = \<lparr>x_exec = (sample_executor [])\<lparr>e_id := last_owned owned, e_pending := 2, e_opening := opening\<rparr>,
     x_requests = [p, q], x_retires = [], x_after = [Schedule], x_sent = replicate n (''thread/start'', GNil), x_owned = owned,
     x_terminated = [], x_released = False\<rparr>"

lemma race_simps [simp]:
  "x_exec (race ts o' p q n) = (sample_executor [])\<lparr>e_id := last_owned ts, e_pending := 2, e_opening := o'\<rparr>" "x_requests (race ts o' p q n) = [p, q]"
  "x_sent (race ts o' p q n) = replicate n (''thread/start'', GNil)"
  by (simp_all add: race_def)

lemma start_request_simps [simp]:
  "rq_method (start_request i pc rs) = ''thread/start''" "rq_params (start_request i pc rs) = GNil" "rq_pc (start_request i pc rs) = pc"
  "rq_replies (start_request i pc rs) = rs" "(start_request i pc rs)\<lparr>rq_pc := pc'\<rparr> = start_request i pc' rs"
  "(start_request i pc rs)\<lparr>rq_replies := rs'\<rparr> = start_request i pc rs'"
  by (simp_all add: start_request_def)

lemma race_received: "executor_runs.reach (race [] False (start_request ''a'' Deciding []) (start_request ''b'' Deciding []) 0)"
proof -
  have "exec_step (sample_start []) (receive (start_packet ''a'') (sample_start []))"
    by (rule exec_step.receives [OF start_decodes(1)])
  from reach_step [OF sample_start_reach this] have "executor_runs.reach (receive (start_packet ''a'') (sample_start []))" by simp
  from reach_step [OF this exec_step.receives [OF start_decodes(2)]] show ?thesis
    by (simp add: receive_def start_packet_def sample_start_def exec_start_def sample_executor_def stopTimerLocked_def executorMaxPending_def
        race_def start_request_def)
qed

lemma race_decides:
  assumes "executor_runs.reach (race [] False p q n)"
  shows "p = start_request i Deciding [] \<Longrightarrow> executor_runs.reach (race [] False (start_request i Opening []) q n)"
    "q = start_request i Deciding [] \<Longrightarrow> executor_runs.reach (race [] False p (start_request i Opening []) n)"
  using reach_step [OF assms exec_step.decides [of _ 0 True]] reach_step [OF assms exec_step.decides [of _ 1 True]]
  by (simp_all add: at_pc_def decide_def request_decide_def Let_def sample_executor_def)
    (simp_all add: goto_def upd_rq_def race_def sample_executor_def)

lemma race_opens:
  assumes "executor_runs.reach (race owned opening p q n)"
  shows "p = start_request i Opening [] \<Longrightarrow> executor_runs.reach (race owned True (start_request i (Sending Creating) []) q n)"
    "q = start_request i Opening [] \<Longrightarrow> executor_runs.reach (race owned True p (start_request i (Sending Creating) []) n)"
  using reach_step [OF assms exec_step.opens [of _ 0]] reach_step [OF assms exec_step.opens [of _ 1]]
  by (simp_all add: at_pc_def open_task_def)
    (simp_all add: in_section_def goto_def upd_rq_def race_def sample_executor_def)

lemma race_sends:
  assumes "executor_runs.reach (race owned opening p q n)"
  shows "p = start_request i (Sending kind) [] \<Longrightarrow> executor_runs.reach (race owned opening (start_request i (Calling kind) []) q (Suc n))"
    "q = start_request i (Sending kind) [] \<Longrightarrow> executor_runs.reach (race owned opening p (start_request i (Calling kind) []) (Suc n))"
  using reach_step [OF assms exec_step.sends [of _ 0 kind]] reach_step [OF assms exec_step.sends [of _ 1 kind]]
  by (simp_all add: at_pc_def forward_def Let_def)
    (simp_all add: goto_def upd_rq_def race_def sample_executor_def)

definition created_answer :: "string \<Rightarrow> gval" where
  "created_answer t = GMap [(''thread'', GMap [(''id'', GStr t)])]"

lemma race_answers:
  assumes "executor_runs.reach (race owned opening p q n)" "executorUUIDPattern t"
  shows "p = start_request i (Calling Creating) [] \<Longrightarrow> executor_runs.reach (race owned opening (start_request i (Created t (created_answer t)) []) q n)"
    "q = start_request i (Calling Creating) [] \<Longrightarrow> executor_runs.reach (race owned opening p (start_request i (Created t (created_answer t)) []) n)"
  using reach_step [OF assms(1) exec_step.answers [of _ 0 Creating "Inr (created_answer t)"]]
    reach_step [OF assms(1) exec_step.answers [of _ 1 Creating "Inr (created_answer t)"]] assms(2)
  by (simp_all add: at_pc_def after_call_def executorThreadID_def executorField_def executorText_def fields_of_def Fields_def field_def created_answer_def)
    (simp_all add: goto_def upd_rq_def race_def sample_executor_def)

lemma race_creates:
  assumes "executor_runs.reach (race owned opening p q n)"
  shows "p = start_request i (Created t v) [] \<Longrightarrow> executor_runs.reach (race (t # owned) opening (start_request i (Recording v) []) q n)"
    "q = start_request i (Created t v) [] \<Longrightarrow> executor_runs.reach (race (t # owned) opening p (start_request i (Recording v) []) n)"
  using reach_step [OF assms(1) exec_step.creates [of _ 0 t v]] reach_step [OF assms(1) exec_step.creates [of _ 1 t v]]
  by (simp_all add: at_pc_def) (simp_all add: create_task_def in_section_def goto_def upd_rq_def race_def sample_executor_def)

lemma race_records:
  assumes "executor_runs.reach (race owned opening p q n)"
  shows "p = start_request i (Recording v) [] \<Longrightarrow> executor_runs.reach (race owned opening (start_request i (Reopening (Inr v)) []) q n)"
    "q = start_request i (Recording v) [] \<Longrightarrow> executor_runs.reach (race owned opening p (start_request i (Reopening (Inr v)) []) n)"
  using reach_step [OF assms(1) exec_step.records [of _ 0 v None]] reach_step [OF assms(1) exec_step.records [of _ 1 v None]]
  by (simp_all add: at_pc_def) (simp_all add: goto_def upd_rq_def race_def sample_executor_def)

lemma race_reopens:
  assumes "executor_runs.reach (race owned opening p q n)"
  shows "p = start_request i (Reopening r) [] \<Longrightarrow> executor_runs.reach (race owned False (start_request i (Replying r) []) q n)"
    "q = start_request i (Reopening r) [] \<Longrightarrow> executor_runs.reach (race owned False p (start_request i (Replying r) []) n)"
  using reach_step [OF assms(1) exec_step.reopens [of _ 0 r]] reach_step [OF assms(1) exec_step.reopens [of _ 1 r]]
  by (simp_all add: at_pc_def) (simp_all add: in_section_def goto_def upd_rq_def race_def sample_executor_def)

lemma race_replies:
  assumes "executor_runs.reach (race owned opening p q n)"
  shows "p = start_request i (Replying (Inr v)) [] \<Longrightarrow> executor_runs.reach (race owned opening (start_request i Departing [Inr v]) q n)"
    "q = start_request i (Replying (Inr v)) [] \<Longrightarrow> executor_runs.reach (race owned opening p (start_request i Departing [Inr v]) n)"
  using reach_step [OF assms(1) exec_step.replies [of _ 0 "Inr v"]] reach_step [OF assms(1) exec_step.replies [of _ 1 "Inr v"]]
  by (simp_all add: at_pc_def) (simp_all add: write_reply_def reply_of_def upd_rq_def race_def sample_executor_def)

lemma race_run:
  "executor_runs.reach (race [task_two, task_one] False (start_request ''a'' Departing [Inr (created_answer task_one)])
     (start_request ''b'' Departing [Inr (created_answer task_two)]) 2)"
proof -
  note s = race_received
  note s = race_decides(1) [OF s refl] 
  note s = race_decides(2) [OF s refl]
  note s = race_opens(1) [OF s refl]
  note s = race_opens(2) [OF s refl]
  note s = race_sends(1) [OF s refl]
  note s = race_sends(2) [OF s refl]
  note s = race_answers(1) [OF s tasks_uuid(1) refl]
  note s = race_answers(2) [OF s tasks_uuid(2) refl]
  note s = race_creates(1) [OF s refl]
  note s = race_creates(2) [OF s refl]
  note s = race_records(1) [OF s refl]
  note s = race_records(2) [OF s refl]
  note s = race_reopens(1) [OF s refl]
  note s = race_reopens(2) [OF s refl]
  note s = race_replies(1) [OF s refl]
  note s = race_replies(2) [OF s refl]
  show ?thesis using s by (simp add: numeral_2_eq_2)
qed

text \<open>A client of an admitted task reads it.\<close>

definition read_text :: string where
  "read_text = ''{'' @ [CHR 0x22] @ ''id'' @ [CHR 0x22] @ '':'' @ [CHR 0x22] @ ''a'' @ [CHR 0x22] @ '','' @ [CHR 0x22] @ ''method'' @ [CHR 0x22] @ '':'' @
     [CHR 0x22] @ ''thread/read'' @ [CHR 0x22] @ '','' @ [CHR 0x22] @ ''params'' @ [CHR 0x22] @ '':'' @ ''{'' @ [CHR 0x22] @ ''threadId'' @ [CHR 0x22] @ '':'' @
     [CHR 0x22] @ task_one @ [CHR 0x22] @ ''}}''"

definition read_params :: gval where
  "read_params = GObj [(''threadId'', GStr task_one)]"

definition read_packet :: executorPacket where
  "read_packet = \<lparr>ep_method = ''thread/read'', ep_params = read_params, ep_id = Some (GStr ''a'')\<rparr>"

lemma read_decodes: "decodeExecutorPacket read_text = Some read_packet"
  by (simp add: read_text_def read_packet_def read_params_def task_one_def decodeExecutorPacket_def reader_eval pred_numeral_simps child_path_def appendPath_def
      dec_string_bare bare_char_def Text_def AsText_def charge_new_key_def Fields_def field_def)

definition asking_sys :: "request_pc \<Rightarrow> (string \<times> gval) list \<Rightarrow> exec_sys" where
  "asking_sys pc sent = (sample_start task_one)\<lparr>x_exec := (sample_executor task_one)\<lparr>e_pending := 1\<rparr>,
     x_requests := [\<lparr>rq_id = GStr ''a'', rq_method = ''thread/read'', rq_params = read_params, rq_pc = pc, rq_replies = []\<rparr>], x_sent := sent\<rparr>"

lemma read_thread: "executorText (executorField read_params ''threadId'') = task_one"
  by (simp add: read_params_def executorField_def executorText_def fields_of_def Fields_def field_def)

lemma asking_decides: "executor_runs.reach (asking_sys Deciding [])"
proof -
  have "executor_runs.reach (sample_start task_one)" using sample_start_reach tasks_uuid by blast
  from reach_step [OF this exec_step.receives [OF read_decodes]] show ?thesis
    by (simp add: receive_def read_packet_def sample_start_def exec_start_def sample_executor_def stopTimerLocked_def executorMaxPending_def asking_sys_def)
qed

lemma asking_checked: "executor_runs.reach (asking_sys (Sending Scoped) [])"
proof -
  have "request_decide True ''thread/read'' read_params (x_exec (asking_sys Deciding [])) = Forward Scoped"
    by (simp add: request_decide_def Let_def read_thread asking_sys_def sample_executor_def executorThreadMethods_def) (simp add: task_one_def)
  then have "decide 0 True (asking_sys Deciding []) = asking_sys (Sending Scoped) []"
    by (simp add: decide_def Let_def) (simp add: asking_sys_def goto_def upd_rq_def)
  then show ?thesis using reach_step [OF asking_decides exec_step.decides [of _ 0 True]] by (simp add: at_pc_def asking_sys_def)
qed

lemma asking_sends: "exec_step (asking_sys (Sending Scoped) []) (asking_sys (Calling Scoped) [(''thread/read'', read_params)])"
  using exec_step.sends [of "asking_sys (Sending Scoped) []" 0 Scoped]
  by (simp add: at_pc_def forward_def Let_def) (simp add: asking_sys_def goto_def upd_rq_def)

subsection \<open>Properties\<close>

text \<open>
  C23. The count of pending requests is exactly the number of admitted requests that have not left, never above
  the bound; every request is answered at most once, and exactly once before it leaves.
\<close>

theorem executor_accounting:
  assumes "executor_runs.reach x"
  shows "e_pending (x_exec x) = int (length (filter (\<lambda>q. rq_pc q \<noteq> Refusing \<and> rq_pc q \<noteq> Gone) (x_requests x))) \<and>
    e_pending (x_exec x) \<le> executorMaxPending \<and>
    (\<forall>q \<in> set (x_requests x). length (rq_replies q) = (if rq_pc q = Departing \<or> rq_pc q = Gone then 1 else 0))"
proof -
  have "accounts (x_exec x) (x_requests x)" using executor_runs.inv_reach [OF assms] by (simp add: exec_inv_def)
  then show ?thesis
    by (auto simp: accounts_def counted_def comp_def inflight_def list_all_iff replied_def)
qed

theorem executor_accounting_witness:
  "e_pending (x_exec (race [] False (start_request ''a'' Deciding []) (start_request ''b'' Deciding []) 0)) =
    int (length (filter (\<lambda>q. rq_pc q \<noteq> Refusing \<and> rq_pc q \<noteq> Gone) [start_request ''a'' Deciding [], start_request ''b'' Deciding []]))"
  using executor_accounting [OF race_received] by simp

text \<open>
  C21. A request that passes the checks, other than the model list and the start of the executor's own task, names the
  task the executor owns when it is checked, and a start passes only while the executor owns no task and opens
  none. The mutex is free between the check and the call, but whatever happens in between, a request that reaches
  the native host names a task this executor has owned since its creation, and it is the task owned at that
  moment unless two starts were sent.
\<close>

theorem forwarded_in_scope:
  assumes "executor_runs.reach x"
  shows "(at_pc x i Deciding \<and> at_pc (decide i protected x) i (Sending kind) \<and> rq_method (x_requests x ! i) \<noteq> ''model/list'' \<longrightarrow>
      e_id (x_exec x) \<noteq> [] \<and> request_thread (x_requests x ! i) = e_id (x_exec x)) \<and>
    (at_pc x i Deciding \<and> at_pc (decide i protected x) i Opening \<longrightarrow>
      rq_method (x_requests x ! i) = ''thread/start'' \<and> e_id (x_exec x) = [] \<and> \<not> e_opening (x_exec x)) \<and>
    (exec_step x y \<and> x_sent y = (name, ps) # x_sent x \<and> name \<notin> {''model/list'', ''thread/start''} \<longrightarrow>
      (let t = executorText (executorField ps ''threadId'')
       in t \<noteq> [] \<and> t \<in> set (x_owned x) \<and>
          (t = e_id (x_exec x) \<or> 2 \<le> length (filter (\<lambda>r. fst r = ''thread/start'') (x_sent x)))))"
proof -
  have inv: "exec_inv x" "scope_inv x" using scoped_runs.inv_reach [OF assms] by simp_all
  have "e_id (x_exec x) \<noteq> [] \<and> request_thread (x_requests x ! i) = e_id (x_exec x)"
    if "at_pc x i Deciding" "at_pc (decide i protected x) i (Sending kind)" "rq_method (x_requests x ! i) \<noteq> ''model/list''"
    using that request_checked [of protected "rq_method (x_requests x ! i)" "rq_params (x_requests x ! i)" "x_exec x" kind]
    by (auto simp: decide_def Let_def at_pc_def goto_def request_thread_def split: decision.splits)
  moreover have "rq_method (x_requests x ! i) = ''thread/start'' \<and> e_id (x_exec x) = [] \<and> \<not> e_opening (x_exec x)"
    if "at_pc x i Deciding" "at_pc (decide i protected x) i Opening"
    using that request_opens [of protected "rq_method (x_requests x ! i)" "rq_params (x_requests x ! i)" "x_exec x"]
    by (auto simp: decide_def Let_def at_pc_def goto_def split: decision.splits)
  moreover have "t \<in> set (x_owned x) \<Longrightarrow> t \<noteq> [] \<and> (t = e_id (x_exec x) \<or> 2 \<le> length (filter (\<lambda>r. fst r = ''thread/start'') (x_sent x)))" for t
    using owned_once [OF inv(2), of t] inv(2) by (auto simp: starts_def counted_def scope_inv_def)
  ultimately show ?thesis using step_scope [OF inv, of y name ps] by (auto simp: Let_def)
qed

theorem forwarded_in_scope_witness:
  "let t = executorText (executorField read_params ''threadId'')
   in t = task_one \<and> t \<in> set (x_owned (asking_sys (Sending Scoped) [])) \<and> t = e_id (x_exec (asking_sys (Sending Scoped) []))"
proof -
  have "x_sent (asking_sys (Calling Scoped) [(''thread/read'', read_params)]) = (''thread/read'', read_params) # x_sent (asking_sys (Sending Scoped) [])"
    by (simp add: asking_sys_def)
  with forwarded_in_scope [OF asking_checked, where name = "''thread/read''" and ps = read_params] asking_sends
  have "task_one \<in> set (x_owned (asking_sys (Sending Scoped) []))" by (auto simp: Let_def read_thread)
  then show ?thesis by (simp add: Let_def read_thread) (simp add: asking_sys_def sample_executor_def)
qed

text \<open>
  C22. Whenever the native writer may be released, admission is closed, no admitted request is left, and once it is
  released nothing is ever sent to the host again.
\<close>

theorem release_is_final:
  assumes "executor_runs.reach x" "x_released x \<or> RReleasing \<in> set (x_retires x)"
  shows "e_retiring (x_exec x) \<and> (\<forall>q \<in> set (x_requests x). rq_pc q = Refusing \<or> rq_pc q = Gone) \<and>
    (x_released x \<longrightarrow> (\<forall>y. exec_step\<^sup>*\<^sup>* x y \<longrightarrow> x_sent y = x_sent x))"
proof -
  have inv: "exec_inv x" by (rule executor_runs.inv_reach [OF assms(1)])
  have "e_retiring (x_exec x) \<and> e_pending (x_exec x) = 0"
  proof (cases "x_released x")
    case False
    then obtain j where "at_retire x j RReleasing" using assms(2) by (auto simp: in_set_conv_nth at_retire_def)
    then show ?thesis using window_alone(1,2) [OF inv] by simp
  qed (use inv in \<open>simp add: exec_inv_def sealed_def\<close>)
  moreover have "x_sent y = x_sent x" if "x_released x" "exec_step\<^sup>*\<^sup>* x y" for y
  proof -
    have "x_sent y = x_sent x \<and> x_released y"
      by (rule executor_runs.monotone_steps [OF that(2) inv, where R = "\<lambda>x y. x_sent y = x_sent x \<and> x_released y"])
        (use that(1) released_step in auto)
    then show ?thesis ..
  qed
  moreover have "\<forall>q \<in> set (x_requests x). rq_pc q = Refusing \<or> rq_pc q = Gone" if "e_pending (x_exec x) = 0"
    using inv that by (auto simp: exec_inv_def accounts_def counted_zero list_all_iff inflight_def)
  ultimately show ?thesis by blast
qed

theorem release_is_final_witness: "e_retiring (x_exec (retiring_sys RReleasing [thread_read task_one]))"
  using release_is_final [OF retiring_releases] by simp

text \<open>
  C24. An executor with nothing to do always comes up for retirement: when it is not retiring, has no pending
  request and no active turn, a timer is armed, or a call of \<open>schedule\<close> or a retirement is on its way.
\<close>

theorem idle_executor_wakes:
  assumes "executor_runs.reach x" "\<not> e_retiring (x_exec x)" "e_pending (x_exec x) = 0" "\<not> e_active (x_exec x)"
  shows "(\<exists>d. e_timer (x_exec x) = Armed d) \<or> Schedule \<in> set (x_after x) \<or>
    (\<exists>pc \<in> set (x_retires x). pc = RStart \<or> (\<exists>e. pc = RRearming e))"
  using executor_runs.inv_reach [OF assms(1)] assms(2-) by (auto simp: exec_inv_def wakes_def list_ex_iff waking_def)

theorem idle_executor_wakes_witness: "Schedule \<in> set (x_after (sample_start []))"
  using idle_executor_wakes [OF sample_start_reach [of "[]"]] by (simp add: sample_start_def exec_start_def sample_executor_def)

text \<open>
  C25. The check that the executor owns no task and the mark that one is being opened are two sections: two clients
  that start a task at once both reach the host, both are told of their own new task, and the executor keeps only
  the second one.
\<close>

theorem concurrent_starts_escape:
  "\<exists>x q r. executor_runs.reach x \<and> x_sent x = [(''thread/start'', GNil), (''thread/start'', GNil)] \<and> x_requests x = [q, r] \<and>
     rq_replies q = [Inr (created_answer task_one)] \<and> rq_replies r = [Inr (created_answer task_two)] \<and>
     e_id (x_exec x) = task_two \<and> task_one \<noteq> task_two"
  by (intro exI conjI, rule race_run, simp add: numeral_2_eq_2, rule race_simps)
    (simp_all add: sample_executor_def task_one_def task_two_def)

end
