(* ===== verification/History.thy ===== *)
theory History
  imports Pages
begin

text \<open>
  Native history files (\<open>internal/history/records.go\<close>, \<open>runtime.go\<close>, \<open>rollout.go\<close>, \<open>cursor.go\<close>,
  \<open>internal/codex/rolloutitem.go\<close>): complete lines read backwards, the persisted runtime of a task, and
  the pages of completed items. A file is the result of opening it; \<open>ctx p\<close> is what \<open>ctx.Err()\<close> answers at
  the point \<open>p\<close> of a call; the lower case of a rune outside ASCII is an argument.
\<close>

subsection \<open>Records\<close>

datatype history_error = HText string | HNative jerr

datatype ctx_point = AtEntry | AtChunk nat | AtRecord nat | AtExit

type_synonym history_ctx = "ctx_point \<Rightarrow> string option"

type_synonym recordSpan = "nat \<times> nat"

definition scanBytes :: nat where
  "scanBytes = 65536"

definition newline :: char where
  "newline = CHR 0x0A"

definition ReadAt :: "string \<Rightarrow> nat \<Rightarrow> nat \<Rightarrow> string" where
  "ReadAt file at' n = take n (drop at' file)"

text \<open>The loop over one buffer, from its last byte; \<open>None\<close> is the initial \<open>end\<close>, minus one.\<close>

fun scan_buffer :: "string \<Rightarrow> nat \<Rightarrow> nat \<Rightarrow> nat option \<Rightarrow> recordSpan list \<times> nat option" where
  "scan_buffer buffer start 0 last_end = ([], last_end)"
| "scan_buffer buffer start (Suc i) last_end =
     (if buffer ! i \<noteq> newline then scan_buffer buffer start i last_end
      else
        let here = start + i; (spans, first) = scan_buffer buffer start i (Some here)
        in ((case last_end of Some e \<Rightarrow> if here + 1 < e then [(here + 1, e)] else [] | None \<Rightarrow> []) @ spans, first))"

function records_loop :: "history_ctx \<Rightarrow> string \<Rightarrow> nat \<Rightarrow> nat \<Rightarrow> nat option \<Rightarrow> (history_error + recordSpan) list" where
  "records_loop ctx file lower position last_end =
     (if position \<le> lower then
        (if lower = 0 then (case last_end of Some e \<Rightarrow> if 0 < e then [Inr (0, e)] else [] | None \<Rightarrow> []) else [])
      else
        case ctx (AtChunk position) of
          Some err \<Rightarrow> [Inl (HText err)]
        | None \<Rightarrow>
            let start = max lower (position - scanBytes); buffer = ReadAt file start (position - start)
            in if length buffer \<noteq> position - start then [Inl (HText ''Native history changed during read'')]
               else let (spans, first) = scan_buffer buffer start (position - start) last_end
                    in map Inr spans @ records_loop ctx file lower start first)"
  by pat_completeness auto
termination
  by (relation "measure (\<lambda>(ctx, file, lower, position, last_end). position)") (auto simp: scanBytes_def)

declare records_loop.simps [simp del]

definition records :: "history_ctx \<Rightarrow> string \<Rightarrow> nat \<Rightarrow> nat \<Rightarrow> (history_error + recordSpan) list" where
  "records ctx file before lowerBound = records_loop ctx file (min before lowerBound) before None"

text \<open>
  One record, decoded through a section of the file. The code asks the context before every read of the section;
  here it is asked once, so a cancellation between two reads of the same record is not told apart.
\<close>

definition decode_record :: "history_ctx \<Rightarrow> string \<Rightarrow> nat \<Rightarrow> nat \<Rightarrow> bool \<Rightarrow> history_error + gval" where
  "decode_record ctx file s e item =
     (case ctx (AtRecord s) of
        Some err \<Rightarrow> Inl (HText err)
      | None \<Rightarrow> (case snd (Read (ReadAt file s (e - s)) item) of Inl err \<Rightarrow> Inl (HNative err) | Inr v \<Rightarrow> Inr v))"

text \<open>The first line, when it is within the header.\<close>

definition header_line :: "string \<Rightarrow> string option" where
  "header_line file =
     (let header = ReadAt file 0 (min scanBytes (length file))
      in if newline \<in> set header then Some (takeWhile (\<lambda>c. c \<noteq> newline) header) else None)"

definition session_identity :: "gval \<Rightarrow> string \<Rightarrow> bool" where
  "session_identity value ident \<longleftrightarrow>
     Text (field (fields_of value) ''type'') = ''session_meta'' \<and>
     Text (field (fields_of (field (fields_of value) ''payload'')) ''id'') = ident"

subsection \<open>The persisted runtime\<close>

text \<open>The locals of \<open>ReadRuntime\<close>; receipts newest first.\<close>

record evidence =
  ev_runtime :: page_runtime
  ev_settings :: bool
  ev_usage :: bool
  ev_terminal :: bool
  ev_receipts :: "receipt list"

definition runtimeNumber :: "gval \<Rightarrow> float64 option" where
  "runtimeNumber value = (case value of GNum (Fin x) \<Rightarrow> if x < 0 then None else Some (Fin x) | _ \<Rightarrow> None)"

definition note_completed_item :: "string \<Rightarrow> props \<Rightarrow> evidence \<Rightarrow> history_error + evidence" where
  "note_completed_item ident payload ev =
     (if Text (field payload ''thread_id'') \<noteq> ident then Inl (HText ''Native item identity mismatch'')
      else
        let item = fields_of (field payload ''item'')
        in if Text (field item ''type'') = ''UserMessage''
           then Inr (ev\<lparr>ev_receipts := ev_receipts ev @
                  [\<lparr>Kind = [], State = [], ClientID = Text (field item ''client_id''),
                    TurnID = Text (field payload ''turn_id''), MessageID = Text (field item ''id'')\<rparr>]\<rparr>)
           else Inr ev)"

definition note_terminal :: "props \<Rightarrow> evidence \<Rightarrow> evidence" where
  "note_terminal payload ev =
     (if ev_terminal ev then ev
      else
        let turn = Text (field payload ''turn_id'')
        in if Text (field payload ''type'') \<noteq> ''task_started'' \<and> turn \<noteq> []
           then ev\<lparr>ev_terminal := True,
                  ev_runtime := (ev_runtime ev)\<lparr>r_Status := ''idle'', r_CompletedTurnID := Some (Some turn)\<rparr>\<rparr>
           else ev\<lparr>ev_terminal := True, ev_runtime := (ev_runtime ev)\<lparr>r_CompletedTurnID := Some None\<rparr>\<rparr>)"

definition apply_settings :: "props \<Rightarrow> page_runtime \<Rightarrow> page_runtime" where
  "apply_settings settings r =
     (let r = (case AsText (field settings ''model'') of Some v \<Rightarrow> r\<lparr>r_Model := Some v\<rparr> | None \<Rightarrow> r);
          r = (case AsText (field settings ''reasoning_effort'') of Some v \<Rightarrow> r\<lparr>r_Effort := Some (Some v)\<rparr> | None \<Rightarrow> r)
      in case map_of settings ''service_tier'' of
           None \<Rightarrow> r
         | Some v \<Rightarrow>
             let r = (if v = GNil then r\<lparr>r_ServiceTier := Some None\<rparr>
                      else case AsText v of Some t \<Rightarrow> r\<lparr>r_ServiceTier := Some (Some t)\<rparr> | None \<Rightarrow> r)
             in r\<lparr>rt_ServiceTierKnown := Some (r_ServiceTier r \<noteq> None)\<rparr>)"

definition note_settings :: "string \<Rightarrow> props \<Rightarrow> evidence \<Rightarrow> history_error + evidence" where
  "note_settings ident payload ev =
     (if ev_settings ev then Inr ev
      else if Text (field payload ''thread_id'') \<noteq> ident then Inl (HText ''Native settings identity mismatch'')
      else Inr (ev\<lparr>ev_settings := True,
             ev_runtime := apply_settings (fields_of (field payload ''thread_settings'')) (ev_runtime ev)\<rparr>))"

definition note_usage :: "props \<Rightarrow> evidence \<Rightarrow> evidence" where
  "note_usage payload ev =
     (if ev_usage ev then ev
      else case Fields (field payload ''info'') of
        None \<Rightarrow> ev
      | Some usage \<Rightarrow>
          ev\<lparr>ev_usage := True,
             ev_runtime := (ev_runtime ev)\<lparr>r_ContextTokens := runtimeNumber (field (fields_of (field usage ''last_token_usage'')) ''total_tokens''),
               r_ContextWindow := runtimeNumber (field usage ''model_context_window'')\<rparr>\<rparr>)"

text \<open>The \<open>switch\<close> over the type of an event.\<close>

definition note_event :: "string \<Rightarrow> gval \<Rightarrow> evidence \<Rightarrow> history_error + evidence" where
  "note_event ident value ev =
     (let event = fields_of value; payload = fields_of (field event ''payload''); kind = Text (field payload ''type'')
      in if Text (field event ''type'') \<noteq> ''event_msg'' then Inr ev
         else if kind = ''item_completed'' then note_completed_item ident payload ev
         else if kind \<in> {''task_complete'', ''task_started'', ''turn_aborted''} then Inr (note_terminal payload ev)
         else if kind = ''thread_settings_applied'' then note_settings ident payload ev
         else if kind = ''token_count'' then Inr (note_usage payload ev)
         else Inr ev)"

definition maxRuntimeRecords :: nat where
  "maxRuntimeRecords = 4096"

definition runtimeWindow :: nat where
  "runtimeWindow = 8 * 1024 * 1024"

fun runtime_loop :: "history_ctx \<Rightarrow> string \<Rightarrow> string \<Rightarrow> nat \<Rightarrow> (history_error + recordSpan) list \<Rightarrow> evidence \<Rightarrow> history_error + evidence" where
  "runtime_loop ctx file ident scanned [] ev = Inr ev"
| "runtime_loop ctx file ident scanned (Inl err # rest) ev = Inl err"
| "runtime_loop ctx file ident scanned (Inr (s, e) # rest) ev =
     (if maxRuntimeRecords \<le> scanned then Inr ev
      else if scanBytes < e - s then runtime_loop ctx file ident (Suc scanned) rest ev
      else case decode_record ctx file s e False of
        Inl err \<Rightarrow> Inl err
      | Inr value \<Rightarrow>
          (case note_event ident value ev of
             Inl err \<Rightarrow> Inl err
           | Inr ev' \<Rightarrow> runtime_loop ctx file ident (Suc scanned) rest ev'))"

definition new_runtime :: "string option \<Rightarrow> string option \<Rightarrow> page_runtime" where
  "new_runtime model effort =
     \<lparr>r_Status = ''notLoaded'', r_ActiveTurnID = None, r_Model = model, r_ContextTokens = None, r_ContextWindow = None,
      r_CompletedTurnID = None, r_Effort = Some effort, r_ServiceTier = None, rt_Title = None, rt_SettingsChange = None,
      rt_ActiveTurnHasUserMessage = None, rt_ServiceTierKnown = None\<rparr>"

definition new_evidence :: "string option \<Rightarrow> string option \<Rightarrow> evidence" where
  "new_evidence model effort =
     \<lparr>ev_runtime = new_runtime model effort, ev_settings = False, ev_usage = False, ev_terminal = False, ev_receipts = []\<rparr>"

definition ReadRuntime ::
  "history_ctx \<Rightarrow> string + string \<Rightarrow> string \<Rightarrow> string option \<Rightarrow> string option \<Rightarrow> history_error + (page_runtime \<times> receipt list)" where
  "ReadRuntime ctx opened ident model effort =
     (case opened of
        Inl err \<Rightarrow> Inl (HText err)
      | Inr file \<Rightarrow>
          (case header_line file of
             None \<Rightarrow> Inl (HText ''Native history identity mismatch'')
           | Some line \<Rightarrow>
               (case snd (Read line False) of
                  Inl _ \<Rightarrow> Inl (HText ''Native history identity mismatch'')
                | Inr value \<Rightarrow>
                    if \<not> session_identity value ident then Inl (HText ''Native history identity mismatch'')
                    else
                      (case runtime_loop ctx file ident 0 (records ctx file (length file) (length file - runtimeWindow)) (new_evidence model effort) of
                         Inl err \<Rightarrow> Inl err
                       | Inr ev \<Rightarrow>
                           (case ctx AtExit of
                              Some err \<Rightarrow> Inl (HText err)
                            | None \<Rightarrow> Inr (ev_runtime ev, MergeInputReceipts [rev (ev_receipts ev)]))))))"

subsection \<open>Completed items\<close>

definition lower_rune :: "(nat \<Rightarrow> nat) \<Rightarrow> nat \<Rightarrow> nat" where
  "lower_rune lower r = (if r < 128 then (if 65 \<le> r \<and> r \<le> 90 then r + 32 else r) else lower r)"

definition rollout_part :: "gval \<Rightarrow> gval" where
  "rollout_part part =
     (if Text (field (fields_of part) ''type'') = ''Text''
      then GMap [(''type'', GStr ''text''), (''text'', field (fields_of part) ''text'')] else part)"

definition rename_field :: "props \<Rightarrow> string \<times> string \<Rightarrow> props \<Rightarrow> props" where
  "rename_field source = (\<lambda>(target, alternate) item.
     if field source alternate \<noteq> GNil then obj_set target (field source alternate) item else item)"

definition alternates :: "(string \<times> string) list" where
  "alternates = [(''clientId'', ''client_id''), (''contentItems'', ''content_items''), (''receiverThreadIds'', ''receiver_thread_ids''),
     (''agentsStates'', ''agents_states''), (''aggregatedOutput'', ''aggregated_output''), (''exitCode'', ''exit_code'')]"

definition f64_add :: "float64 \<Rightarrow> float64 \<Rightarrow> float64" where
  "f64_add a b = (case (a, b) of (Fin x, Fin y) \<Rightarrow> round_f64 (x + y) | (Fin _, _) \<Rightarrow> b | _ \<Rightarrow> a)"

definition rollout_duration :: "props \<Rightarrow> props \<Rightarrow> props" where
  "rollout_duration source item =
     (let item = delete_key ''durationMs'' item; duration = fields_of (field source ''duration'')
      in case (field duration ''secs'', field duration ''nanos'') of
           (GNum (Fin s), GNum (Fin n)) \<Rightarrow>
             obj_set ''durationMs'' (GNum (f64_add (f64_mul (Fin s) 1000) (f64_div (Fin n) 1000000))) item
         | _ \<Rightarrow> item)"

definition RolloutItem :: "(nat \<Rightarrow> nat) \<Rightarrow> gval \<Rightarrow> string + props option" where
  "RolloutItem lower value =
     (case Fields value of
        None \<Rightarrow> Inr None
      | Some source \<Rightarrow>
          (case (AsText (field source ''id''), AsText (field source ''type'')) of
             (Some _, Some typeName) \<Rightarrow>
               if typeName = [] then Inl ''Invalid native item type''
               else
                 let (first, size) = DecodeRune typeName;
                     typeName = EncodeRune (lower_rune lower first) @ drop size typeName;
                     content = map rollout_part (asArray (field source ''content''));
                     item = obj_set ''content'' (GArr content) (obj_set ''type'' (GStr typeName) source);
                     item = (if typeName = ''agentMessage''
                             then obj_set ''text'' (GSur (join [newline] (map (\<lambda>p. jsCoalesce (field (fields_of p) ''text'') [])
                                    (filter (\<lambda>p. Text (field (fields_of p) ''type'') = ''text'') content)))) item
                             else item);
                     item = delete_key ''summary'' item;
                     item = (case field source ''summary_text'' of GArr summary \<Rightarrow> obj_set ''summary'' (GArr summary) item | _ \<Rightarrow> item);
                     item = delete_key ''raw_content'' item;
                     item = fold (rename_field source) alternates item;
                     item = (case field source ''command'' of
                               GArr command \<Rightarrow> obj_set ''command'' (GSur (join '' '' (map (\<lambda>v. jsCoalesce v []) command))) item
                             | _ \<Rightarrow> item)
                 in Inr (Some (rollout_duration source item))
           | _ \<Rightarrow> Inr None))"

subsection \<open>Timestamps\<close>

text \<open>
  \<open>time.Parse(time.RFC3339Nano, _)\<close> and \<open>UnixMilli\<close>: the hour may have one digit, the fraction may follow a comma
  and keeps nine digits, an offset may reach 24 hours and 60 minutes.
\<close>

definition two_digits :: "string \<Rightarrow> (nat \<times> string) option" where
  "two_digits s = (case s of a # b # r \<Rightarrow> if is_digit a \<and> is_digit b then Some (digits_value [a, b], r) else None | _ \<Rightarrow> None)"

definition hour_digits :: "string \<Rightarrow> (nat \<times> string) option" where
  "hour_digits s =
     (case two_digits s of
        Some r \<Rightarrow> Some r
      | None \<Rightarrow> (case s of a # r \<Rightarrow> if is_digit a then Some (digits_value [a], r) else None | [] \<Rightarrow> None))"

definition skip_char :: "char \<Rightarrow> string \<Rightarrow> string option" where
  "skip_char c s = (case s of x # r \<Rightarrow> if x = c then Some r else None | [] \<Rightarrow> None)"

definition leap_year :: "nat \<Rightarrow> bool" where
  "leap_year y \<longleftrightarrow> y mod 4 = 0 \<and> (y mod 100 \<noteq> 0 \<or> y mod 400 = 0)"

definition month_days :: "nat \<Rightarrow> nat list" where
  "month_days y = [31, if leap_year y then 29 else 28, 31, 30, 31, 30, 31, 31, 30, 31, 30, 31]"

definition unix_days :: "nat \<Rightarrow> nat \<Rightarrow> nat \<Rightarrow> int" where
  "unix_days y m d =
     int (365 * y + (y + 3) div 4 - (y + 99) div 100 + (y + 399) div 400 + sum_list (take (m - 1) (month_days y)) + d - 1) - 719528"

text \<open>Nanoseconds of an optional fraction.\<close>

definition fraction_digits :: "string \<Rightarrow> nat \<times> string" where
  "fraction_digits s =
     (case s of
        c # d # r \<Rightarrow>
          if (c = CHR ''.'' \<or> c = CHR '','') \<and> is_digit d
          then let ds = takeWhile is_digit (d # r); kept = take 9 ds
               in (digits_value kept * 10 ^ (9 - length kept), dropWhile is_digit (d # r))
          else (0, s)
      | _ \<Rightarrow> (0, s))"

text \<open>Seconds east of UTC.\<close>

definition zone_offset :: "string \<Rightarrow> int option" where
  "zone_offset s =
     (if s = ''Z'' then Some 0
      else if length s \<noteq> 6 \<or> s ! 3 \<noteq> CHR '':'' then None
      else case (two_digits (drop 1 s), two_digits (drop 4 s)) of
        (Some (h, _), Some (m, _)) \<Rightarrow>
          if 24 < h \<or> 60 < m then None
          else if hd s = CHR ''+'' then Some (int (h * 3600 + m * 60))
          else if hd s = CHR ''-'' then Some (- int (h * 3600 + m * 60)) else None
      | _ \<Rightarrow> None)"

definition parse_clock :: "string \<Rightarrow> (nat \<times> string) option" where
  "parse_clock s =
     Option.bind (hour_digits s) (\<lambda>(h, s). Option.bind (skip_char (CHR '':'') s) (\<lambda>s.
     Option.bind (two_digits s) (\<lambda>(m, s). Option.bind (skip_char (CHR '':'') s) (\<lambda>s.
     Option.bind (two_digits s) (\<lambda>(sec, s).
       if h < 24 \<and> m < 60 \<and> sec < 60 then Some (h * 3600 + m * 60 + sec, s) else None)))))"

definition parse_timestamp :: "string \<Rightarrow> int option" where
  "parse_timestamp s =
     (if length s < 4 \<or> \<not> list_all is_digit (take 4 s) then None
      else let y = digits_value (take 4 s)
        in Option.bind (skip_char (CHR ''-'') (drop 4 s)) (\<lambda>s. Option.bind (two_digits s) (\<lambda>(m, s).
           Option.bind (skip_char (CHR ''-'') s) (\<lambda>s. Option.bind (two_digits s) (\<lambda>(d, s).
           Option.bind (skip_char (CHR ''T'') s) (\<lambda>s. Option.bind (parse_clock s) (\<lambda>(sec, s).
             let (nanos, s) = fraction_digits s
             in if m = 0 \<or> 12 < m \<or> d = 0 \<or> month_days y ! (m - 1) < d then None
                else map_option (\<lambda>zone. (unix_days y m d * 86400 + int sec - zone) * 1000 + int (nanos div 1000000)) (zone_offset s))))))))"

definition eventStarted :: "props \<Rightarrow> props \<Rightarrow> float64" where
  "eventStarted payload event =
     (case field payload ''started_at_ms'' of
        GNum (Fin x) \<Rightarrow> f64_div (Fin x) 1000
      | _ \<Rightarrow>
          (case parse_timestamp (Text (field event ''timestamp'')) of
             None \<Rightarrow> NaN
           | Some ms \<Rightarrow> f64_div (round_f64 (of_int ms)) 1000))"

subsection \<open>Rollout cursors\<close>

definition rolloutPrefix :: string where
  "rolloutPrefix = ''filo.rollout.items.''"

definition IndexedHistoryCursor :: string where
  "IndexedHistoryCursor = ''filo.rollout.indexed''"

definition maxNativeRecordBytes :: nat where
  "maxNativeRecordBytes = 256 * 1024 * 1024"

record rolloutCursor =
  rc_ID :: string
  rc_File :: string
  rc_Before :: nat
  rc_Anchor :: string
  rc_IndexedCursor :: "string option"

definition IsRolloutCursor :: "string \<Rightarrow> bool" where
  "IsRolloutCursor cursor \<longleftrightarrow> HasPrefix cursor rolloutPrefix"

definition rollout_json :: "rolloutCursor \<Rightarrow> string" where
  "rollout_json c =
     go_json_object ([go_member ''id'' (go_quote (rc_ID c)), go_member ''file'' (go_quote (rc_File c)),
       go_member ''before'' (FormatUint (rc_Before c)), go_member ''anchor'' (go_quote (rc_Anchor c))] @
       (case rc_IndexedCursor c of None \<Rightarrow> [] | Some i \<Rightarrow> [go_member ''indexedCursor'' (go_quote i)]))"

definition encode_rollout :: "rolloutCursor \<Rightarrow> string" where
  "encode_rollout c = rolloutPrefix @ b64_encode (map byte_of (rollout_json c))"

definition cursor_offset :: "gval \<Rightarrow> nat option" where
  "cursor_offset v =
     (case v of
        GNum (Fin x) \<Rightarrow> if f64_is_integer x \<and> 0 \<le> x \<and> x \<le> max_safe_integer then Some (nat \<lfloor>x\<rfloor>) else None
      | _ \<Rightarrow> None)"

definition decode_rollout :: "string \<Rightarrow> string \<Rightarrow> string \<Rightarrow> history_error + rolloutCursor" where
  "decode_rollout ident key cursor =
     (if 2048 < length cursor then Inl (HText ''Invalid native history cursor'')
      else case b64_decode (drop (length rolloutPrefix) cursor) of
        None \<Rightarrow> Inl (HText ''Invalid native history cursor'')
      | Some body \<Rightarrow>
          (case snd (Read body False) of
             Inl _ \<Rightarrow> Inl (HText ''Invalid native history cursor'')
           | Inr value \<Rightarrow>
               let ps = fields_of value
               in case (AsText (field ps ''anchor''), cursor_offset (field ps ''before'')) of
                    (Some anchor, Some before) \<Rightarrow>
                      if AsText (field ps ''id'') \<noteq> Some ident \<or> AsText (field ps ''file'') \<noteq> Some key
                      then Inl (HText ''Invalid native history cursor'')
                      else
                        let c = \<lparr>rc_ID = ident, rc_File = key, rc_Before = before, rc_Anchor = anchor, rc_IndexedCursor = None\<rparr>
                        in (case map_of ps ''indexedCursor'' of
                              None \<Rightarrow> Inr c
                            | Some raw \<Rightarrow>
                                (case AsText raw of
                                   None \<Rightarrow> Inl (HText ''Invalid index cursor'')
                                 | Some next \<Rightarrow>
                                     if 1024 < length next then Inl (HText ''Invalid index cursor'')
                                     else Inr (c\<lparr>rc_IndexedCursor := Some next\<rparr>)))
                  | _ \<Rightarrow> Inl (HText ''Invalid native history cursor'')))"

subsection \<open>Rollout pages\<close>

text \<open>The regular expressions over the head of a record; \<open>\\s\<close> is tab, newline, form feed, return or space.\<close>

definition re_space :: "char \<Rightarrow> bool" where
  "re_space c \<longleftrightarrow> byte_of c \<in> {9, 10, 12, 13, 32}"

definition type_here :: "string \<Rightarrow> string \<Rightarrow> bool" where
  "type_here name s \<longleftrightarrow>
     HasPrefix s (CHR 0x22 # ''type'' @ [CHR 0x22]) \<and>
     (let r = dropWhile re_space (drop 6 s)
      in r \<noteq> [] \<and> hd r = CHR '':'' \<and> HasPrefix (dropWhile re_space (tl r)) (CHR 0x22 # name @ [CHR 0x22]))"

definition head_matches :: "string \<Rightarrow> string \<Rightarrow> bool" where
  "head_matches name head \<longleftrightarrow> list_ex (\<lambda>i. type_here name (drop i head)) [0..<length head]"

text \<open>One completed item: its turn, the item as the indexed reader shapes it, and its start.\<close>

record rollout_event =
  re_Turn :: string
  re_Item :: "props option"
  re_Started :: float64

definition event_id :: "rollout_event \<Rightarrow> string" where
  "event_id v = Text (field (case re_Item v of Some item \<Rightarrow> item | None \<Rightarrow> []) ''id'')"

definition read_event :: "history_ctx \<Rightarrow> (nat \<Rightarrow> nat) \<Rightarrow> string \<Rightarrow> string \<Rightarrow> recordSpan \<Rightarrow> history_error + rollout_event option" where
  "read_event ctx lower file ident = (\<lambda>(s, e).
     let head = ReadAt file s (min 1024 (e - s))
     in if \<not> (head_matches ''event_msg'' head \<and> head_matches ''item_completed'' head) then Inr None
        else if maxNativeRecordBytes < e - s then Inl (HText ''Native event exceeds its read bound'')
        else case decode_record ctx file s e True of
          Inl err \<Rightarrow> Inl err
        | Inr value \<Rightarrow>
            let event = fields_of value; payload = fields_of (field event ''payload'')
            in (case AsText (field payload ''turn_id'') of
                  None \<Rightarrow> Inl (HText ''Native event identity mismatch'')
                | Some turn \<Rightarrow>
                    if Text (field payload ''thread_id'') \<noteq> ident then Inl (HText ''Native event identity mismatch'')
                    else (case RolloutItem lower (field payload ''item'') of
                            Inl err \<Rightarrow> Inl (HText err)
                          | Inr item \<Rightarrow> Inr (Some \<lparr>re_Turn = turn, re_Item = item, re_Started = eventStarted payload event\<rparr>))))"

record message_page =
  mp_Messages :: "message list"
  mp_NextCursor :: "string option"

text \<open>The arguments a page keeps, and the locals of its loop; messages newest first.\<close>

record rollout_args =
  ra_ID :: string
  ra_Key :: string
  ra_Anchor :: string
  ra_Activity :: bool
  ra_Excluded :: "string list"
  ra_Indexed :: string
  ra_Continued :: bool

record rollout_scan =
  rs_Messages :: "message list"
  rs_Seen :: "string list"
  rs_Scanned :: nat
  rs_Found :: bool

definition event_messages :: "bool \<Rightarrow> rollout_event \<Rightarrow> message list" where
  "event_messages includeActivity v =
     (case re_Item v of
        None \<Rightarrow> []
      | Some item \<Rightarrow>
          ProjectMessages [\<lparr>n_ID = re_Turn v, n_Items = [item], n_StartedAt = Some (re_Started v), n_Status = GNil, n_Error = GNil\<rparr>] includeActivity)"

definition at_anchor :: "string \<Rightarrow> rollout_event \<Rightarrow> bool" where
  "at_anchor anchor v \<longleftrightarrow> re_Item v \<noteq> None \<and> event_id v = anchor"

definition take_event :: "rollout_args \<Rightarrow> rollout_event \<Rightarrow> rollout_scan \<Rightarrow> rollout_scan" where
  "take_event a v st =
     (let st = st\<lparr>rs_Found := True\<rparr>
      in if re_Item v \<noteq> None \<and> event_id v \<notin> set (rs_Seen st) \<and> re_Turn v \<notin> set (ra_Excluded a)
         then st\<lparr>rs_Seen := event_id v # rs_Seen st, rs_Messages := rs_Messages st @ event_messages (ra_Activity a) v\<rparr>
         else st)"

definition pageMessages :: nat where
  "pageMessages = 16"

definition pageRecords :: nat where
  "pageRecords = 512"

definition page_result :: "rollout_args \<Rightarrow> rollout_scan \<Rightarrow> string option \<Rightarrow> message_page option" where
  "page_result a st next =
     (if \<not> rs_Found st \<and> \<not> ra_Continued a then None
      else Some \<lparr>mp_Messages = rev (rs_Messages st), mp_NextCursor = next\<rparr>)"

definition rollout_next :: "rollout_args \<Rightarrow> nat \<Rightarrow> string" where
  "rollout_next a before =
     encode_rollout \<lparr>rc_ID = ra_ID a, rc_File = ra_Key a, rc_Before = before, rc_Anchor = ra_Anchor a, rc_IndexedCursor = Some (ra_Indexed a)\<rparr>"

fun rollout_loop ::
  "(recordSpan \<Rightarrow> history_error + rollout_event option) \<Rightarrow> rollout_args \<Rightarrow> (history_error + recordSpan) list \<Rightarrow> rollout_scan \<Rightarrow>
     history_error + message_page option" where
  "rollout_loop read a [] st = Inr (page_result a st None)"
| "rollout_loop read a (Inl err # rest) st = Inl err"
| "rollout_loop read a (Inr here # rest) st =
     (case read here of
        Inl err \<Rightarrow> Inl err
      | Inr found \<Rightarrow>
          if found \<noteq> None \<and> at_anchor (ra_Anchor a) (the found)
          then Inr (Some \<lparr>mp_Messages = rev (rs_Messages st), mp_NextCursor = Some (ra_Indexed a)\<rparr>)
          else
            let st = (case found of None \<Rightarrow> st | Some v \<Rightarrow> take_event a v st);
                st = st\<lparr>rs_Scanned := Suc (rs_Scanned st)\<rparr>
            in if pageMessages \<le> length (rs_Messages st) \<or> pageRecords \<le> rs_Scanned st
               then Inr (page_result a st (Some (rollout_next a (fst here))))
               else rollout_loop read a rest st)"

definition rollout_start :: rollout_scan where
  "rollout_start = \<lparr>rs_Messages = [], rs_Seen = [], rs_Scanned = 0, rs_Found = False\<rparr>"

text \<open>What a cursor says: the arguments of the page and where it starts, \<open>None\<close> at the end of the file.\<close>

definition rollout_resume :: "string \<Rightarrow> string \<Rightarrow> string \<Rightarrow> string \<Rightarrow> bool \<Rightarrow> string list \<Rightarrow> string \<Rightarrow> history_error + (rollout_args \<times> nat option)" where
  "rollout_resume path ident cursor anchor activity' excluded indexed =
     (let indexed = (if indexed = [] then IndexedHistoryCursor else indexed); key = sha256_hex path;
          a = \<lparr>ra_ID = ident, ra_Key = key, ra_Anchor = anchor, ra_Activity = activity', ra_Excluded = excluded, ra_Indexed = indexed, ra_Continued = False\<rparr>
      in if \<not> IsRolloutCursor cursor then Inr (a, None)
         else case decode_rollout ident key cursor of
           Inl err \<Rightarrow> Inl err
         | Inr c \<Rightarrow>
             Inr (a\<lparr>ra_Anchor := rc_Anchor c, ra_Indexed := (case rc_IndexedCursor c of Some i \<Rightarrow> i | None \<Rightarrow> IndexedHistoryCursor),
                    ra_Continued := True\<rparr>, Some (rc_Before c)))"

definition read_rollout :: "history_ctx \<Rightarrow> (nat \<Rightarrow> nat) \<Rightarrow> string + string \<Rightarrow> string \<Rightarrow> rollout_args \<Rightarrow> nat option \<Rightarrow> history_error + message_page option" where
  "read_rollout ctx lower opened ident a before =
     (case opened of
        Inl err \<Rightarrow> Inl (HText err)
      | Inr file \<Rightarrow>
          if (case before of Some b \<Rightarrow> length file < b | None \<Rightarrow> False) then Inl (HText ''Native history was truncated'')
          else case header_line file of
            None \<Rightarrow> Inl (HText ''Missing native history identity'')
          | Some line \<Rightarrow>
              (case snd (Read line False) of
                 Inl err \<Rightarrow> Inl (HNative err)
               | Inr value \<Rightarrow>
                   if \<not> session_identity value ident then Inl (HText ''Native history identity mismatch'')
                   else rollout_loop (read_event ctx lower file ident) a
                          (records ctx file (case before of Some b \<Rightarrow> b | None \<Rightarrow> length file) 0) rollout_start))"

definition ReadRolloutPage ::
  "history_ctx \<Rightarrow> (nat \<Rightarrow> nat) \<Rightarrow> string + string \<Rightarrow> string \<Rightarrow> string \<Rightarrow> string \<Rightarrow> string \<Rightarrow> bool \<Rightarrow> string list \<Rightarrow> string \<Rightarrow>
     history_error + message_page option" where
  "ReadRolloutPage ctx lower opened path ident cursor anchor activity' excluded indexed =
     (case ctx AtEntry of
        Some err \<Rightarrow> Inl (HText err)
      | None \<Rightarrow>
          (case rollout_resume path ident cursor anchor activity' excluded indexed of
             Inl err \<Rightarrow> Inl err
           | Inr (a, before) \<Rightarrow> read_rollout ctx lower opened ident a before))"

end
