(* ===== verification/JsonText.thy ===== *)
theory JsonText
  imports PagesCorrect NativeReadCorrect
begin

text \<open>
  Reading back the JSON that \<open>encoding/json\<close> writes for flat objects of plain strings and integers: the cursors
  of the history readers. Integers below \<open>2^53\<close> are doubles without rounding.
\<close>

subsection \<open>Integers as doubles\<close>

lemma bitlen_bounds: "0 < n \<Longrightarrow> 2 ^ (bitlen n - 1) \<le> n \<and> n < 2 ^ bitlen n \<and> 0 < bitlen n"
proof (induction n rule: bitlen.induct)
  case (1 n)
  show ?case
  proof (cases "n div 2 = 0")
    case True
    then have "n = 1" using 1 by simp
    then show ?thesis by (simp add: bitlen.simps [of "Suc 0"] bitlen.simps [of 0])
  next
    case False
    then have IH: "2 ^ (bitlen (n div 2) - 1) \<le> n div 2" "n div 2 < 2 ^ bitlen (n div 2)" "0 < bitlen (n div 2)" using 1 by simp_all
    have b: "bitlen n = Suc (bitlen (n div 2))" using 1 by (subst bitlen.simps) simp
    have "2 ^ bitlen (n div 2) = 2 * (2 :: nat) ^ (bitlen (n div 2) - 1)" using IH(3) by (cases "bitlen (n div 2)") auto
    then have "2 ^ bitlen (n div 2) \<le> n" using IH(1) by linarith
    moreover have "n < 2 * 2 ^ bitlen (n div 2)" using IH(2) by linarith
    ultimately show ?thesis by (simp add: b)
  qed
qed

lemma pow2_neg: "pow2 (- int k) = 1 / 2 ^ k"
  by (simp add: pow2_def)

lemma exponent2_nat: "0 < n \<Longrightarrow> exponent2 (of_nat n) = int (bitlen n) - 1"
proof -
  assume n: "0 < n"
  have q: "quotient_of (of_nat n) = (int n, 1)" using quotient_of_int [of "int n"] by simp
  have "bitlen 1 = 1" by (simp add: bitlen.simps [of "Suc 0"] bitlen.simps [of 0])
  moreover have "\<not> (of_nat n :: rat) < pow2 (int (bitlen n) - 1)"
  proof -
    have "(2 :: rat) ^ (bitlen n - 1) \<le> of_nat n"
      using bitlen_bounds [OF n] by (metis of_nat_le_iff of_nat_numeral of_nat_power)
    then show ?thesis using bitlen_bounds [OF n] by (simp add: pow2_def nat_diff_distrib)
  qed
  ultimately show ?thesis by (simp add: exponent2_def q Let_def)
qed

lemma round_half_even_int: "round_half_even (of_int k) = k"
  by (simp add: round_half_even_def Let_def)

lemma round_f64_nat:
  assumes "n < 2 ^ 53"
  shows "round_f64 (of_nat n) = Fin (of_nat n)"
proof (cases "n = 0")
  case False
  then have n: "0 < n" by simp
  let ?b = "bitlen n"
  have b: "?b \<le> 53"
  proof (rule ccontr)
    assume "\<not> ?b \<le> 53"
    then have "(2 :: nat) ^ 53 \<le> 2 ^ (?b - 1)" by (intro power_increasing) auto
    then show False using bitlen_bounds [OF n] assms by linarith
  qed
  have u: "max (exponent2 (of_nat n) - 52) (- 1074) = - int (53 - ?b)" using b by (simp add: exponent2_nat [OF n])
  have p: "pow2 (- int (53 - ?b)) = 1 / 2 ^ (53 - ?b)" by (simp only: pow2_neg)
  have scaled: "\<bar>of_nat n :: rat\<bar> / (1 / 2 ^ (53 - ?b)) = of_int (int n * 2 ^ (53 - ?b))" by simp
  have small: "\<not> pow2 1024 \<le> (of_nat n :: rat)"
  proof -
    have "(of_nat n :: rat) < of_nat (2 ^ 53)" using assms by (simp only: of_nat_less_iff)
    also have "\<dots> \<le> pow2 1024" by (simp add: pow2_def)
    finally show ?thesis by simp
  qed
  have m: "round_half_even (of_int (int n * 2 ^ (53 - ?b))) = int n * 2 ^ (53 - ?b)" by (rule round_half_even_int)
  have "(of_int (int n * 2 ^ (53 - ?b)) :: rat) * (1 / 2 ^ (53 - ?b)) = of_nat n" by simp
  then show ?thesis unfolding round_f64_def Let_def u p scaled m using n small by simp
qed (simp add: round_f64_def)

lemma FormatUint_length: "n < 10 ^ k \<Longrightarrow> 0 < k \<Longrightarrow> length (FormatUint n) \<le> k"
proof (induction k arbitrary: n)
  case (Suc k)
  show ?case
  proof (cases "n < 10")
    case True
    then show ?thesis by (subst FormatUint.simps) simp
  next
    case False
    then have "0 < k" "n div 10 < 10 ^ k" using Suc.prems by (cases k; simp)+
    from Suc.IH [OF this(2,1)] show ?thesis using False by (subst FormatUint.simps) simp
  qed
qed simp

lemma FormatUint_hd: "0 < n \<Longrightarrow> hd (FormatUint n) \<noteq> CHR ''0''"
proof (induction n rule: FormatUint.induct)
  case (1 n)
  show ?case
  proof (cases "n < 10")
    case True
    then have "byte_of (digit_char n) \<noteq> 48" using 1 by (simp add: digit_char_def)
    then show ?thesis using True by (subst FormatUint.simps) auto
  next
    case False
    then show ?thesis using 1 by (subst FormatUint.simps) simp
  qed
qed

lemma decimal_value_FormatUint: "decimal_value (FormatUint n) = of_nat n"
proof -
  have d: "takeWhile is_digit (FormatUint n) = FormatUint n" "dropWhile is_digit (FormatUint n) = []"
    using FormatUint_digits [of n] by (simp_all add: takeWhile_eq_all_conv)
  have "is_digit (hd (FormatUint n))" using FormatUint_digits [of n] by simp
  then have "hd (FormatUint n) \<noteq> CHR ''-''" by (auto simp: is_digit_def)
  moreover have "exp_value [] = 0" by (simp add: exp_value_def digits_value_def)
  ultimately show ?thesis by (simp add: decimal_value_def d Let_def pow10_def)
qed

lemma valid_number_FormatUint: "valid_number (FormatUint n)"
proof -
  obtain c r where s: "FormatUint n = c # r" by (cases "FormatUint n") auto
  have dig: "is_digit c" "\<forall>x \<in> set r. is_digit x" using FormatUint_digits [of n] s by auto
  then have "dropWhile is_digit r = []" unfolding dropWhile_eq_Nil_conv by blast
  moreover have "c \<noteq> CHR ''-''" using dig(1) by (auto simp: is_digit_def)
  moreover have "r = []" if "c = CHR ''0''"
  proof -
    have "n = 0" using FormatUint_hd [of n] s that by (cases n) auto
    then show ?thesis using s by (simp add: FormatUint.simps [of 0])
  qed
  ultimately show ?thesis using dig(1) by (cases "c = CHR ''0''") (simp_all add: s valid_number_def valid_frac_def valid_exp_def Let_def del: dropWhile_eq_Nil_conv, (cases r, simp_all)?)
qed

subsection \<open>Reading flat objects\<close>

lemma number_char_digit: "is_digit c \<Longrightarrow> number_char c"
  by (simp add: number_char_def)

lemma read_nat:
  assumes "n < 2 ^ 53" "\<not> number_char c" "FormatUint n = b # ds" "m + 2 * length (FormatUint n) \<le> MaxRetainedBytes"
  shows "dec_number b \<lparr>inp = ds @ c # r, retained = m\<rparr> =
    (\<lparr>inp = c # r, retained = m + 2 * length (FormatUint n)\<rparr>, Inr (GNum (Fin (of_nat n))))"
proof -
  have "\<forall>x \<in> set ds. number_char x" using FormatUint_digits [of n] assms(3) number_char_digit by auto
  then have cut: "takeWhile number_char (ds @ c # r) = ds" "dropWhile number_char (ds @ c # r) = c # r"
    using assms(2) by (simp_all add: takeWhile_append dropWhile_append)
  have "length (FormatUint n) \<le> 16" by (rule FormatUint_length) (use assms(1) in simp_all)
  moreover have "ParseFloat (FormatUint n) = Inr (Fin (of_nat n))"
    by (simp add: ParseFloat_def decimal_value_FormatUint round_f64_nat [OF assms(1)])
  ultimately show ?thesis using assms(4) valid_number_FormatUint [of n]
    by (simp add: dec_number_def cut Let_def dbind_def charge_def flip: assms(3))
qed

lemma value_nat:
  assumes "n < 2 ^ 53" "\<not> number_char c" "m + 32 + 2 * length (FormatUint n) \<le> MaxRetainedBytes"
  shows "dec_value (Suc f) ro p dep \<lparr>inp = FormatUint n @ c # r, retained = m\<rparr> =
    (\<lparr>inp = c # r, retained = m + 32 + 2 * length (FormatUint n)\<rparr>, Inr (GNum (Fin (of_nat n))))"
proof -
  obtain b ds where s: "FormatUint n = b # ds" by (cases "FormatUint n") auto
  have b: "is_digit b" using FormatUint_digits [of n] s by simp
  then have "\<not> is_ws b" "b \<noteq> CHR ''{''" "b \<noteq> CHR ''[''" "b \<noteq> CHR 0x22" "b \<noteq> CHR ''t''" "b \<noteq> CHR ''f''" "b \<noteq> CHR ''n''"
    by (auto simp: is_digit_def is_ws_def)
  then show ?thesis using b assms(3) read_nat [OF assms(1,2) s, of "m + 32" r]
    by (simp add: s dbind_def charge_def map_error_def next_byte_def)
qed

lemma text_here:
  assumes "list_all bare_char s"
  shows "takeWhile bare_char (s @ CHR 0x22 # r) = s" "dropWhile bare_char (s @ CHR 0x22 # r) = CHR 0x22 # r"
  using assms by (simp_all add: takeWhile_append dropWhile_append list_all_iff bare_char_def)

lemma value_text:
  assumes "list_all bare_char s" "stringPolicy p = - 1" "m + 32 + 2 * length s \<le> MaxRetainedBytes"
  shows "dec_value (Suc f) ro p dep \<lparr>inp = CHR 0x22 # s @ CHR 0x22 # r, retained = m\<rparr> =
    (\<lparr>inp = r, retained = m + 32 + 2 * length s\<rparr>, Inr (GStr s))"
proof -
  have "dec_string (- 1) None False \<lparr>inp = s @ CHR 0x22 # r, retained = m + 32\<rparr> =
      (\<lparr>inp = r, retained = m + 32 + 2 * length s\<rparr>, Inr (None, GStr s))"
    by (subst dec_string_bare) (use assms text_here [OF assms(1)] in simp_all)
  then show ?thesis using assms(2,3) by (simp add: dbind_def charge_def map_error_def next_byte_def is_ws_def)
qed

text \<open>One member: its key, its value, and what follows.\<close>

lemma member_read:
  assumes "list_all bare_char k" "length k \<le> 4096" "n + 2 * length k \<le> MaxRetainedBytes" "map_of flds k = None"
    "dec_value f ro (child_path ro p k flds) dep \<lparr>inp = v, retained = n + 2 * length k\<rparr> = (\<lparr>inp = e # r, retained = m\<rparr>, Inr x)"
    "m + 16 \<le> MaxRetainedBytes"
  shows "e = CHR ''}'' \<Longrightarrow> obj_loop (Suc f) ro p dep flds (CHR 0x22) \<lparr>inp = k @ CHR 0x22 # CHR '':'' # v, retained = n\<rparr> =
      (\<lparr>inp = r, retained = m + 16\<rparr>, Inr (GObj (obj_set k x flds)))"
    "e = CHR '','' \<Longrightarrow> r = CHR 0x22 # r' \<Longrightarrow> obj_loop (Suc f) ro p dep flds (CHR 0x22) \<lparr>inp = k @ CHR 0x22 # CHR '':'' # v, retained = n\<rparr> =
      obj_loop f ro p dep (obj_set k x flds) (CHR 0x22) \<lparr>inp = r', retained = m + 16\<rparr>"
proof -
  have "dec_string 4096 None True \<lparr>inp = k @ CHR 0x22 # CHR '':'' # v, retained = n\<rparr> =
      (\<lparr>inp = CHR '':'' # v, retained = n + 2 * length k\<rparr>, Inr (None, GStr k))"
    by (subst dec_string_bare) (use assms text_here [OF assms(1)] in simp_all)
  then show "e = CHR ''}'' \<Longrightarrow> obj_loop (Suc f) ro p dep flds (CHR 0x22) \<lparr>inp = k @ CHR 0x22 # CHR '':'' # v, retained = n\<rparr> =
      (\<lparr>inp = r, retained = m + 16\<rparr>, Inr (GObj (obj_set k x flds)))"
    "e = CHR '','' \<Longrightarrow> r = CHR 0x22 # r' \<Longrightarrow> obj_loop (Suc f) ro p dep flds (CHR 0x22) \<lparr>inp = k @ CHR 0x22 # CHR '':'' # v, retained = n\<rparr> =
      obj_loop f ro p dep (obj_set k x flds) (CHR 0x22) \<lparr>inp = r', retained = m + 16\<rparr>"
    using assms(4-6) by (simp_all add: dbind_def map_error_def next_byte_def is_ws_def Text_def AsText_def charge_new_key_def charge_def)
qed

lemma child_path_top [simp]: "child_path False [] k flds = [KStr k]"
  by (simp add: child_path_def appendPath_def)

lemma member_text:
  assumes "list_all bare_char k" "list_all bare_char s" "length k \<le> 4096" "map_of flds k = None" "n + 2 * length k + 48 + 2 * length s \<le> MaxRetainedBytes"
  shows "obj_loop (Suc (Suc f)) False [] dep flds (CHR 0x22) \<lparr>inp = k @ CHR 0x22 # CHR '':'' # CHR 0x22 # s @ CHR 0x22 # CHR ''}'' # r, retained = n\<rparr> =
      (\<lparr>inp = r, retained = n + 2 * length k + 48 + 2 * length s\<rparr>, Inr (GObj (obj_set k (GStr s) flds)))"
    "obj_loop (Suc (Suc f)) False [] dep flds (CHR 0x22) \<lparr>inp = k @ CHR 0x22 # CHR '':'' # CHR 0x22 # s @ CHR 0x22 # CHR '','' # CHR 0x22 # r, retained = n\<rparr> =
      obj_loop (Suc f) False [] dep (obj_set k (GStr s) flds) (CHR 0x22) \<lparr>inp = r, retained = n + 2 * length k + 48 + 2 * length s\<rparr>"
proof -
  have v: "dec_value (Suc f) False (child_path False [] k flds) dep \<lparr>inp = CHR 0x22 # s @ CHR 0x22 # e # r', retained = n + 2 * length k\<rparr> =
      (\<lparr>inp = e # r', retained = n + 2 * length k + 32 + 2 * length s\<rparr>, Inr (GStr s))" for e r'
    by (rule value_text) (use assms in simp_all)
  show "obj_loop (Suc (Suc f)) False [] dep flds (CHR 0x22) \<lparr>inp = k @ CHR 0x22 # CHR '':'' # CHR 0x22 # s @ CHR 0x22 # CHR ''}'' # r, retained = n\<rparr> =
      (\<lparr>inp = r, retained = n + 2 * length k + 48 + 2 * length s\<rparr>, Inr (GObj (obj_set k (GStr s) flds)))"
    by (subst member_read(1) [OF assms(1,3) _ assms(4) v]) (use assms(5) in \<open>simp_all add: ac_simps del: dec_value.simps obj_loop.simps\<close>)
  show "obj_loop (Suc (Suc f)) False [] dep flds (CHR 0x22) \<lparr>inp = k @ CHR 0x22 # CHR '':'' # CHR 0x22 # s @ CHR 0x22 # CHR '','' # CHR 0x22 # r, retained = n\<rparr> =
      obj_loop (Suc f) False [] dep (obj_set k (GStr s) flds) (CHR 0x22) \<lparr>inp = r, retained = n + 2 * length k + 48 + 2 * length s\<rparr>"
    by (subst member_read(2) [OF assms(1,3) _ assms(4) v]) (use assms(5) in \<open>simp_all add: ac_simps del: dec_value.simps obj_loop.simps\<close>)
qed

lemma member_nat:
  assumes "list_all bare_char k" "i < 2 ^ 53" "length k \<le> 4096" "map_of flds k = None"
    "n + 2 * length k + 48 + 2 * length (FormatUint i) \<le> MaxRetainedBytes"
  shows "obj_loop (Suc (Suc f)) False [] dep flds (CHR 0x22) \<lparr>inp = k @ CHR 0x22 # CHR '':'' # FormatUint i @ CHR '','' # CHR 0x22 # r, retained = n\<rparr> =
      obj_loop (Suc f) False [] dep (obj_set k (GNum (Fin (of_nat i))) flds) (CHR 0x22) \<lparr>inp = r, retained = n + 2 * length k + 48 + 2 * length (FormatUint i)\<rparr>"
proof -
  have v: "dec_value (Suc f) False (child_path False [] k flds) dep \<lparr>inp = FormatUint i @ CHR '','' # CHR 0x22 # r, retained = n + 2 * length k\<rparr> =
      (\<lparr>inp = CHR '','' # CHR 0x22 # r, retained = n + 2 * length k + 32 + 2 * length (FormatUint i)\<rparr>, Inr (GNum (Fin (of_nat i))))"
    by (rule value_nat) (use assms in \<open>simp_all add: number_char_def is_digit_def\<close>)
  show ?thesis by (subst member_read(2) [OF assms(1,3) _ assms(4) v]) (use assms(5) in \<open>simp_all add: ac_simps del: dec_value.simps obj_loop.simps\<close>)
qed

text \<open>A document that is one nonempty object.\<close>

lemma Read_object:
  assumes "obj_loop f False [] (Suc 0) [] (CHR 0x22) \<lparr>inp = r, retained = 32\<rparr> = (\<lparr>inp = [], retained = m\<rparr>, Inr v)"
    "read_fuel (CHR ''{'' # CHR 0x22 # r) = Suc f"
  shows "snd (Read (CHR ''{'' # CHR 0x22 # r) False) = Inr v"
  using assms by (simp add: Read_def dbind_def charge_def MaxRetainedBytes_def map_error_def next_byte_def is_ws_def maxDepth_def)

lemma safe_bare: "list_all safe_char s \<Longrightarrow> list_all bare_char s"
proof -
  have "bare_char c" if "safe_char c" for c using that by (auto simp: safe_char_def plain_char_def bare_char_def)
  then show "list_all safe_char s \<Longrightarrow> list_all bare_char s" by (auto simp: list_all_iff)
qed

subsection \<open>Base64\<close>

lemma b64_decode_encode: "b64_decode (b64_encode (map byte_of s)) = Some s"
proof -
  let ?d = "b64_digits (map byte_of s)"
  have bytes: "\<forall>x \<in> set (map byte_of s). x < 256" by auto
  note d = b64_digits_bound [OF bytes]
  have brk: "filter (\<lambda>c. byte_of c \<noteq> 10 \<and> byte_of c \<noteq> 13) (map b64_char ?d) = map b64_char ?d"
    by (rule filter_True) (use d b64_char_plain in auto)
  have val: "map b64_value (map b64_char ?d) = map Some ?d" using d b64_value_char by simp
  show ?thesis unfolding b64_encode_digits Let_def b64_decode_def brk val using b64_bytes_digits [OF bytes] by (simp add: comp_def)
qed

end
