(* ===== verification/HistoryCorrect.thy ===== *)
theory HistoryCorrect
  imports History JsonText
begin

text \<open>
  Native history files: what the backward walk yields, which records decide the persisted runtime, and that the
  pages of completed items are the file's own order without loss or repetition.
\<close>

subsection \<open>Lines, read forward\<close>

text \<open>The reference: the spans of the complete nonempty lines, in the order of the file.\<close>

fun line_spans :: "nat \<Rightarrow> nat \<Rightarrow> string \<Rightarrow> recordSpan list" where
  "line_spans start pos [] = []"
| "line_spans start pos (c # cs) =
     (if c = newline then (if start < pos then [(start, pos)] else []) @ line_spans (Suc pos) (Suc pos) cs
      else line_spans start (Suc pos) cs)"

fun line_open :: "nat \<Rightarrow> nat \<Rightarrow> string \<Rightarrow> nat" where
  "line_open start pos [] = start"
| "line_open start pos (c # cs) = (if c = newline then line_open (Suc pos) (Suc pos) cs else line_open start (Suc pos) cs)"

abbreviation lines_of :: "string \<Rightarrow> recordSpan list" where
  "lines_of content \<equiv> line_spans 0 0 content"

lemma line_spans_append:
  "line_spans start pos (xs @ ys) = line_spans start pos xs @ line_spans (line_open start pos xs) (pos + length xs) ys"
  by (induction start pos xs rule: line_spans.induct) auto

lemma line_open_append: "line_open start pos (xs @ ys) = line_open (line_open start pos xs) (pos + length xs) ys"
  by (induction start pos xs rule: line_spans.induct) auto

lemma line_open_le: "start \<le> pos \<Longrightarrow> line_open start pos xs \<le> pos + length xs"
  by (induction start pos xs rule: line_spans.induct) fastforce+

lemma line_spans_bounds: "(s, e) \<in> set (line_spans start pos xs) \<Longrightarrow> start \<le> pos \<Longrightarrow> s < e \<and> e < pos + length xs"
  by (induction start pos xs rule: line_spans.induct) (fastforce split: if_splits)+

lemma line_spans_length: "length (line_spans start pos xs) \<le> length xs"
  by (induction start pos xs rule: line_spans.induct) auto

lemma line_spans_start:
  "(s, e) \<in> set (line_spans start pos xs) \<Longrightarrow> start \<le> pos \<Longrightarrow> s = start \<or> (\<exists>i. s = Suc (pos + i) \<and> i < length xs \<and> xs ! i = newline)"
proof (induction start pos xs rule: line_spans.induct)
  case (2 start pos c cs)
  have next_start: "s = Suc pos \<or> (\<exists>i. s = Suc (Suc pos + i) \<and> i < length cs \<and> cs ! i = newline)" if "c = newline" "(s, e) \<noteq> (start, pos)"
    using 2 that by (auto split: if_splits)
  have same_start: "s = start \<or> (\<exists>i. s = Suc (Suc pos + i) \<and> i < length cs \<and> cs ! i = newline)" if "c \<noteq> newline"
    using 2 that by auto
  show ?case
  proof (cases "(s, e) = (start, pos)")
    case False
    have "\<exists>i. s = Suc (pos + i) \<and> i < length (c # cs) \<and> (c # cs) ! i = newline" if "\<exists>i. s = Suc (Suc pos + i) \<and> i < length cs \<and> cs ! i = newline"
      using that by (metis add_Suc_right add_Suc length_Cons nth_Cons_Suc Suc_less_eq)
    moreover have "\<exists>i. s = Suc (pos + i) \<and> i < length (c # cs) \<and> (c # cs) ! i = newline" if "s = Suc pos" "c = newline"
      using that by (intro exI [of _ 0]) simp
    ultimately show ?thesis using next_start same_start False by (cases "c = newline") auto
  qed simp
qed simp

lemma line_spans_sorted: "start \<le> pos \<Longrightarrow> sorted_wrt (<) (map fst (line_spans start pos xs)) \<and> (\<forall>(s, e) \<in> set (line_spans start pos xs). start \<le> s)"
  by (induction start pos xs rule: line_spans.induct) (fastforce split: if_splits)+

text \<open>Cutting the file where a line starts leaves exactly the lines before it.\<close>

lemma lines_cut:
  assumes "lines_of content = A @ (s, e) # B"
  shows "lines_of (take s content) = A" "s < length content"
proof -
  have mem: "(s, e) \<in> set (lines_of content)" using assms by simp
  from line_spans_bounds [OF mem] show short: "s < length content" by simp
  have "s = 0 \<or> (\<exists>i. s = Suc i \<and> i < length content \<and> content ! i = newline)" using line_spans_start [OF mem] by simp
  then have op: "line_open 0 0 (take s content) = s"
  proof
    assume "\<exists>i. s = Suc i \<and> i < length content \<and> content ! i = newline"
    then obtain i where i: "s = Suc i" "i < length content" "content ! i = newline" by blast
    then show ?thesis by (simp add: take_Suc_conv_app_nth line_open_append)
  qed simp
  have split: "lines_of content = lines_of (take s content) @ line_spans s s (drop s content)"
    using line_spans_append [of 0 0 "take s content" "drop s content"] op short by simp
  have low: "\<forall>x \<in> set (lines_of (take s content)). fst x < s"
    using line_spans_bounds [of _ _ 0 0 "take s content"] by fastforce
  have high: "\<forall>x \<in> set (line_spans s s (drop s content)). \<not> fst x < s" using line_spans_sorted [of s s "drop s content"] by fastforce
  have order: "sorted_wrt (<) (map fst (A @ (s, e) # B))" using line_spans_sorted [of 0 0 content] assms by simp
  have "filter (\<lambda>x. fst x < s) (lines_of content) = lines_of (take s content)" using low high by (simp add: split filter_id_conv)
  moreover have "filter (\<lambda>x. fst x < s) (A @ (s, e) # B) = A"
    using order by (fastforce simp: sorted_wrt_append filter_id_conv filter_empty_conv)
  ultimately show "lines_of (take s content) = A" using assms by simp
qed

subsection \<open>The backward walk\<close>

definition quiet :: history_ctx where
  "quiet p = None"

definition last_line :: "nat \<Rightarrow> nat option \<Rightarrow> recordSpan list" where
  "last_line start end' = (case end' of Some e \<Rightarrow> if start < e then [(start, e)] else [] | None \<Rightarrow> [])"

text \<open>A part of the walk is a walk over that part.\<close>

lemma scan_buffer_part:
  assumes "\<And>k. k < i \<Longrightarrow> big ! (d + k) = part ! k"
  shows "scan_buffer big lower (d + i) e =
     (let (xs, f) = scan_buffer part (lower + d) i e; (ys, g) = scan_buffer big lower d f in (xs @ ys, g))"
  using assms
proof (induction i arbitrary: e)
  case (Suc i)
  have "big ! (d + i) = part ! i" using Suc.prems [of i] by simp
  then show ?case using Suc by (simp add: Let_def add.assoc split: prod.splits)
qed simp

text \<open>With an answering context the fixed buffer is not observable.\<close>

lemma records_loop_scan:
  "position \<le> length content \<Longrightarrow> lower \<le> position \<Longrightarrow>
   records_loop quiet content lower position e =
     (let (xs, f) = scan_buffer (drop lower content) lower (position - lower) e
      in map Inr xs @ (if lower = 0 then map Inr (last_line 0 f) else []))"
proof (induction quiet content lower position e rule: records_loop.induct)
  case (1 content lower position e)
  show ?case
  proof (cases "position \<le> lower")
    case True
    then have "position = lower" using 1 by simp
    then show ?thesis by (subst records_loop.simps) (simp add: last_line_def split: option.split)
  next
    case False
    let ?start = "max lower (position - scanBytes)"
    let ?buffer = "ReadAt content ?start (position - ?start)"
    have start: "lower \<le> ?start" "?start < position" using False by (auto simp: scanBytes_def)
    have len: "length ?buffer = position - ?start" using 1(2) start by (simp add: ReadAt_def)
    obtain xs f where scan: "scan_buffer ?buffer ?start (position - ?start) e = (xs, f)" by (cases "scan_buffer ?buffer ?start (position - ?start) e")
    have IH: "records_loop quiet content lower ?start f =
        (let (ys, g) = scan_buffer (drop lower content) lower (?start - lower) f in map Inr ys @ (if lower = 0 then map Inr (last_line 0 g) else []))"
      by (rule 1(1) [OF False _ refl refl _ scan [symmetric] refl]) (use start len 1(2) in \<open>simp_all add: quiet_def\<close>)
    have "scan_buffer (drop lower content) lower ((?start - lower) + (position - ?start)) e =
        (let (xs, f) = scan_buffer ?buffer (lower + (?start - lower)) (position - ?start) e;
             (ys, g) = scan_buffer (drop lower content) lower (?start - lower) f in (xs @ ys, g))"
      by (rule scan_buffer_part) (use start 1(2) in \<open>simp add: ReadAt_def\<close>)
    then have whole: "scan_buffer (drop lower content) lower (position - lower) e =
        (let (ys, g) = scan_buffer (drop lower content) lower (?start - lower) f in (xs @ ys, g))"
      using start scan by simp
    have "records_loop quiet content lower position e = map Inr xs @ records_loop quiet content lower ?start f"
      using False len scan by (simp add: records_loop.simps [of quiet content lower position] quiet_def Let_def)
    moreover obtain ys g where "scan_buffer (drop lower content) lower (?start - lower) f = (ys, g)"
      by (cases "scan_buffer (drop lower content) lower (?start - lower) f")
    ultimately show ?thesis unfolding IH whole by (simp only: Let_def prod.case map_append append_assoc)
  qed
qed

text \<open>The walk yields the lines, newest first; below a lower bound it stops without the line that crosses it.\<close>

definition above :: "nat \<Rightarrow> recordSpan \<Rightarrow> bool" where
  "above lower x \<longleftrightarrow> lower = 0 \<or> lower < fst x"

lemma scan_lines:
  assumes "lower + n \<le> length content" "\<And>k. e = Some k \<Longrightarrow> lower + n \<le> k"
  shows "(let (xs, f) = scan_buffer (drop lower content) lower n e in xs @ (if lower = 0 then last_line 0 f else [])) =
     filter (above lower) (last_line (line_open 0 0 (take (lower + n) content)) e) @ rev (filter (above lower) (lines_of (take (lower + n) content)))"
  using assms
proof (induction n arbitrary: e)
  case 0
  have op: "line_open 0 0 (take lower content) \<le> lower" using line_open_le [of 0 0 "take lower content"] by simp
  have "filter (above lower) (lines_of (take lower content)) = []" if "0 < lower"
  proof -
    have "\<not> above lower x" if "x \<in> set (lines_of (take lower content))" for x
      using line_spans_bounds [of "fst x" "snd x" 0 0 "take lower content"] that \<open>0 < lower\<close> by (simp add: above_def)
    then show ?thesis by (simp add: filter_empty_conv)
  qed
  then show ?case using op by (cases "lower = 0") (auto simp: above_def [abs_def] last_line_def split: option.splits)
next
  case (Suc n)
  let ?t = "take (lower + n) content"
  have c: "take (lower + Suc n) content = ?t @ [content ! (lower + n)]" "length ?t = lower + n"
    using Suc.prems(1) by (simp_all add: take_Suc_conv_app_nth)
  show ?case
  proof (cases "content ! (lower + n) = newline")
    case False
    have "(let (xs, f) = scan_buffer (drop lower content) lower n e in xs @ (if lower = 0 then last_line 0 f else [])) =
       filter (above lower) (last_line (line_open 0 0 ?t) e) @ rev (filter (above lower) (lines_of ?t))"
      by (rule Suc.IH) (use Suc.prems in fastforce)+
    then show ?thesis using False Suc.prems(1) c by (simp add: line_spans_append line_open_append)
  next
    case True
    have op: "line_open 0 0 ?t \<le> lower + n" using line_open_le [of 0 0 ?t] c by simp
    have "(let (xs, f) = scan_buffer (drop lower content) lower n (Some (lower + n)) in xs @ (if lower = 0 then last_line 0 f else [])) =
       filter (above lower) (last_line (line_open 0 0 ?t) (Some (lower + n))) @ rev (filter (above lower) (lines_of ?t))"
      by (rule Suc.IH) (use Suc.prems in auto)
    moreover obtain xs f where scan: "scan_buffer (drop lower content) lower n (Some (lower + n)) = (xs, f)" by (cases "scan_buffer (drop lower content) lower n (Some (lower + n))")
    ultimately have IH: "xs @ (if lower = 0 then last_line 0 f else []) =
       filter (above lower) (last_line (line_open 0 0 ?t) (Some (lower + n))) @ rev (filter (above lower) (lines_of ?t))" by simp
    have new: "line_open 0 0 (take (lower + Suc n) content) = Suc (lower + n)"
      "lines_of (take (lower + Suc n) content) = lines_of ?t @ last_line (line_open 0 0 ?t) (Some (lower + n))"
      using True c op by (simp_all add: line_open_append line_spans_append last_line_def)
    have "rev (filter (above lower) (last_line s (Some k))) = filter (above lower) (last_line s (Some k))" for s k by (simp add: last_line_def)
    moreover have "filter (above lower) (last_line (Suc (lower + n)) e) = last_line (Suc (lower + n)) e"
      by (simp add: last_line_def above_def split: option.split)
    moreover have "(let (xs, f) = scan_buffer (drop lower content) lower (Suc n) e in xs @ (if lower = 0 then last_line 0 f else [])) =
        last_line (Suc (lower + n)) e @ xs @ (if lower = 0 then last_line 0 f else [])"
    proof -
      have "drop lower content ! n = newline" using True Suc.prems(1) by simp
      then show ?thesis using scan by (simp add: last_line_def split: option.split)
    qed
    ultimately show ?thesis using IH by (simp only: new filter_append rev_append)
  qed
qed

lemma records_lines:
  assumes "before \<le> length content"
  shows "records quiet content before lower = map Inr (rev (filter (above (min before lower)) (lines_of (take before content))))"
proof -
  define l where "l = min before lower"
  have l: "l \<le> before" by (simp add: l_def)
  have "records quiet content before lower = map Inr (let (xs, f) = scan_buffer (drop l content) l (before - l) None in xs @ (if l = 0 then last_line 0 f else []))"
    using records_loop_scan [of before content l None] assms l by (simp add: records_def flip: l_def split: prod.split)
  also have "(let (xs, f) = scan_buffer (drop l content) l (before - l) None in xs @ (if l = 0 then last_line 0 f else [])) =
      rev (filter (above l) (lines_of (take before content)))"
    using scan_lines [of l "before - l" content None] assms l by (simp add: last_line_def)
  finally show ?thesis by (simp add: l_def)
qed

subsection \<open>The records that decide the runtime\<close>

definition event_payload :: "gval \<Rightarrow> props" where
  "event_payload v = fields_of (field (fields_of v) ''payload'')"

definition event_kind :: "gval \<Rightarrow> string" where
  "event_kind v = (if Text (field (fields_of v) ''type'') = ''event_msg'' then Text (field (event_payload v) ''type'') else [])"

definition terminal_record :: "gval \<Rightarrow> bool" where
  "terminal_record v \<longleftrightarrow> event_kind v \<in> {''task_complete'', ''task_started'', ''turn_aborted''}"

definition settings_record :: "gval \<Rightarrow> bool" where
  "settings_record v \<longleftrightarrow> event_kind v = ''thread_settings_applied''"

definition usage_record :: "gval \<Rightarrow> bool" where
  "usage_record v \<longleftrightarrow> event_kind v = ''token_count'' \<and> Fields (field (event_payload v) ''info'') \<noteq> None"

definition terminal_runtime :: "gval \<Rightarrow> page_runtime \<Rightarrow> page_runtime" where
  "terminal_runtime v r =
     (let turn = Text (field (event_payload v) ''turn_id'')
      in if event_kind v \<noteq> ''task_started'' \<and> turn \<noteq> [] then r\<lparr>r_Status := ''idle'', r_CompletedTurnID := Some (Some turn)\<rparr>
         else r\<lparr>r_CompletedTurnID := Some None\<rparr>)"

definition settings_runtime :: "gval \<Rightarrow> page_runtime \<Rightarrow> page_runtime" where
  "settings_runtime v = apply_settings (fields_of (field (event_payload v) ''thread_settings''))"

definition usage_runtime :: "gval \<Rightarrow> page_runtime \<Rightarrow> page_runtime" where
  "usage_runtime v r =
     (let usage = fields_of (field (event_payload v) ''info'')
      in r\<lparr>r_ContextTokens := runtimeNumber (field (fields_of (field usage ''last_token_usage'')) ''total_tokens''),
           r_ContextWindow := runtimeNumber (field usage ''model_context_window'')\<rparr>)"

definition user_receipt :: "gval \<Rightarrow> receipt option" where
  "user_receipt v =
     (let payload = event_payload v; item = fields_of (field payload ''item'')
      in if event_kind v = ''item_completed'' \<and> Text (field item ''type'') = ''UserMessage''
         then Some \<lparr>Kind = [], State = [], ClientID = Text (field item ''client_id''), TurnID = Text (field payload ''turn_id''),
                MessageID = Text (field item ''id'')\<rparr> else None)"

definition newest :: "(gval \<Rightarrow> bool) \<Rightarrow> (gval \<Rightarrow> page_runtime \<Rightarrow> page_runtime) \<Rightarrow> gval list \<Rightarrow> page_runtime \<Rightarrow> page_runtime" where
  "newest P f vs = (case find P vs of None \<Rightarrow> id | Some v \<Rightarrow> f v)"

text \<open>The reference: of each kind of evidence the newest record decides.\<close>

definition persisted_runtime :: "gval list \<Rightarrow> page_runtime \<Rightarrow> page_runtime" where
  "persisted_runtime vs r =
     newest usage_record usage_runtime vs (newest settings_record settings_runtime vs (newest terminal_record terminal_runtime vs r))"

fun note_all :: "string \<Rightarrow> gval list \<Rightarrow> evidence \<Rightarrow> history_error + evidence" where
  "note_all ident [] ev = Inr ev"
| "note_all ident (v # vs) ev = (case note_event ident v ev of Inl err \<Rightarrow> Inl err | Inr ev' \<Rightarrow> note_all ident vs ev')"

lemma note_event_kind:
  "note_event ident v ev =
     (if event_kind v = ''item_completed'' then note_completed_item ident (event_payload v) ev
      else if terminal_record v then Inr (note_terminal (event_payload v) ev)
      else if settings_record v then note_settings ident (event_payload v) ev
      else if event_kind v = ''token_count'' then Inr (note_usage (event_payload v) ev)
      else Inr ev)"
  by (simp add: note_event_def event_kind_def terminal_record_def settings_record_def event_payload_def Let_def)

lemma terminal_commutes:
  "apply_settings s (terminal_runtime v r) = terminal_runtime v (apply_settings s r)"
  "usage_runtime w (terminal_runtime v r) = terminal_runtime v (usage_runtime w r)"
  "usage_runtime w (apply_settings s r) = apply_settings s (usage_runtime w r)"
  by (simp_all add: terminal_runtime_def apply_settings_def usage_runtime_def Let_def split: option.split)

definition evidence_after :: "gval list \<Rightarrow> evidence \<Rightarrow> page_runtime" where
  "evidence_after vs ev =
     (if ev_usage ev then id else newest usage_record usage_runtime vs)
       ((if ev_settings ev then id else newest settings_record settings_runtime vs)
         ((if ev_terminal ev then id else newest terminal_record terminal_runtime vs) (ev_runtime ev)))"

lemma quiet_receipts [simp]: "ev_receipts (note_terminal p ev) = ev_receipts ev" "ev_receipts (note_usage p ev) = ev_receipts ev"
  by (simp_all add: note_terminal_def note_usage_def Let_def split: option.split)

lemma note_settings_receipts: "note_settings ident p ev = Inr ev' \<Longrightarrow> ev_receipts ev' = ev_receipts ev"
  by (auto simp: note_settings_def split: if_splits)

lemma newest_Cons [simp]: "newest P f (v # vs) = (if P v then f v else newest P f vs)"
  by (simp add: newest_def)

lemma evidence_after_skip:
  "\<not> terminal_record v \<Longrightarrow> \<not> settings_record v \<Longrightarrow> \<not> usage_record v \<Longrightarrow> evidence_after (v # vs) ev = evidence_after vs ev"
  "evidence_after vs (ev\<lparr>ev_receipts := rs\<rparr>) = evidence_after vs ev"
  by (simp_all add: evidence_after_def)

lemma newest_commutes:
  "newest P settings_runtime vs (terminal_runtime v r) = terminal_runtime v (newest P settings_runtime vs r)"
  "newest P usage_runtime vs (terminal_runtime v r) = terminal_runtime v (newest P usage_runtime vs r)"
  "newest P terminal_runtime vs (usage_runtime v r) = usage_runtime v (newest P terminal_runtime vs r)"
  "newest P terminal_runtime vs (settings_runtime v r) = settings_runtime v (newest P terminal_runtime vs r)"
  "newest P usage_runtime vs (settings_runtime v r) = settings_runtime v (newest P usage_runtime vs r)"
  "newest P settings_runtime vs (usage_runtime v r) = usage_runtime v (newest P settings_runtime vs r)"
  by (simp_all add: newest_def settings_runtime_def terminal_commutes split: option.split)

lemma note_terminal_flag:
  "terminal_record v \<Longrightarrow> note_terminal (event_payload v) ev =
    (if ev_terminal ev then ev else ev\<lparr>ev_terminal := True, ev_runtime := terminal_runtime v (ev_runtime ev)\<rparr>)"
  by (simp add: note_terminal_def terminal_runtime_def event_kind_def terminal_record_def Let_def split: if_split_asm)

lemma note_usage_flag:
  "note_usage (event_payload v) ev = (if ev_usage ev \<or> Fields (field (event_payload v) ''info'') = None then ev
    else ev\<lparr>ev_usage := True, ev_runtime := usage_runtime v (ev_runtime ev)\<rparr>)"
  by (auto simp: note_usage_def usage_runtime_def fields_of_def Let_def split: option.split)

lemma note_event_step:
  assumes "note_event ident v ev = Inr ev'"
  shows "evidence_after vs ev' = evidence_after (v # vs) ev"
    "ev_receipts ev' = ev_receipts ev @ (case user_receipt v of None \<Rightarrow> [] | Some r \<Rightarrow> [r])"
proof -
  have kinds: "terminal_record v \<Longrightarrow> \<not> settings_record v \<and> \<not> usage_record v \<and> event_kind v \<noteq> ''item_completed''"
    "settings_record v \<Longrightarrow> \<not> usage_record v \<and> event_kind v \<noteq> ''item_completed'' \<and> event_kind v \<noteq> ''token_count''"
    "event_kind v = ''item_completed'' \<Longrightarrow> \<not> terminal_record v \<and> \<not> settings_record v \<and> \<not> usage_record v"
    "usage_record v \<Longrightarrow> event_kind v = ''token_count''"
    by (auto simp: terminal_record_def settings_record_def usage_record_def)
  show "ev_receipts ev' = ev_receipts ev @ (case user_receipt v of None \<Rightarrow> [] | Some r \<Rightarrow> [r])"
  proof (cases "event_kind v = ''item_completed''")
    case True
    then show ?thesis using assms by (auto simp: note_event_kind note_completed_item_def user_receipt_def Let_def split: if_splits)
  next
    case False
    then have "user_receipt v = None" by (simp add: user_receipt_def Let_def)
    moreover have "ev_receipts ev' = ev_receipts ev"
      using assms False by (auto simp: note_event_kind dest: note_settings_receipts split: if_splits)
    ultimately show ?thesis by simp
  qed
  consider "event_kind v = ''item_completed''" | "terminal_record v" | "settings_record v" | "usage_record v"
    | "\<not> terminal_record v" "\<not> settings_record v" "\<not> usage_record v" "event_kind v \<noteq> ''item_completed''" by blast
  then show "evidence_after vs ev' = evidence_after (v # vs) ev"
  proof cases
    case 1
    then have "note_completed_item ident (event_payload v) ev = Inr ev'" using assms by (simp add: note_event_kind)
    then consider "ev' = ev" | rs where "ev' = ev\<lparr>ev_receipts := rs\<rparr>" by (auto simp: note_completed_item_def Let_def split: if_splits)
    then show ?thesis
      by cases (simp_all add: evidence_after_skip kinds(3) [OF 1])
  next
    case 2
    note k = 2 kinds(1) [OF 2]
    have "ev' = note_terminal (event_payload v) ev" using assms k by (simp add: note_event_kind)
    then show ?thesis using k by (simp add: note_terminal_flag evidence_after_def newest_commutes)
  next
    case 3
    note k = 3 kinds(2) [OF 3]
    have k': "\<not> terminal_record v" using kinds(1) 3 by blast
    have "note_settings ident (event_payload v) ev = Inr ev'" using assms k k' by (simp add: note_event_kind)
    then have "ev' = (if ev_settings ev then ev else ev\<lparr>ev_settings := True, ev_runtime := settings_runtime v (ev_runtime ev)\<rparr>)"
      by (auto simp: note_settings_def settings_runtime_def split: if_splits)
    then show ?thesis using k k' by (simp add: evidence_after_def newest_commutes)
  next
    case 4
    have k: "\<not> terminal_record v" "\<not> settings_record v" using kinds(1,2) 4 by blast+
    have k': "event_kind v = ''token_count''" using 4 by (simp add: usage_record_def)
    have "ev' = note_usage (event_payload v) ev" using assms k k' by (simp add: note_event_kind)
    then have "ev' = (if ev_usage ev then ev else ev\<lparr>ev_usage := True, ev_runtime := usage_runtime v (ev_runtime ev)\<rparr>)"
      using 4 by (auto simp: note_usage_flag usage_record_def)
    then show ?thesis using k 4 by (simp add: evidence_after_def newest_commutes)
  next
    case 5
    then have "ev' = ev" using assms by (auto simp: note_event_kind usage_record_def note_usage_flag split: if_splits)
    then show ?thesis using 5 by (simp add: evidence_after_skip)
  qed
qed

lemma note_all_newest:
  "note_all ident vs ev = Inr ev' \<Longrightarrow> ev_runtime ev' = evidence_after vs ev \<and> ev_receipts ev' = ev_receipts ev @ List.map_filter user_receipt vs"
proof (induction vs arbitrary: ev)
  case Nil
  then show ?case by (simp add: evidence_after_def newest_def map_filter_simps)
next
  case (Cons v vs)
  then obtain ev1 where "note_event ident v ev = Inr ev1" "note_all ident vs ev1 = Inr ev'" by (auto split: sum.splits)
  then show ?case using Cons.IH note_event_step by (simp add: map_filter_simps split: option.split)
qed

text \<open>The spans the loop decodes: the newest ones, without the oversized.\<close>

definition decoded_spans :: "nat \<Rightarrow> recordSpan list \<Rightarrow> recordSpan list" where
  "decoded_spans n spans = filter (\<lambda>(s, e). e - s \<le> scanBytes) (take n spans)"

lemma runtime_loop_decodes:
  "runtime_loop quiet content ident k (map Inr spans) ev = Inr ev' \<Longrightarrow> k \<le> maxRuntimeRecords \<Longrightarrow>
   \<exists>vs. list_all2 (\<lambda>(s, e) v. decode_record quiet content s e False = Inr v) (decoded_spans (maxRuntimeRecords - k) spans) vs \<and> note_all ident vs ev = Inr ev'"
proof (induction spans arbitrary: k ev)
  case Nil
  then show ?case by (simp add: decoded_spans_def)
next
  case (Cons span spans)
  obtain s e where span: "span = (s, e)" by (cases span)
  show ?case
  proof (cases "maxRuntimeRecords \<le> k")
    case True
    then show ?thesis using Cons.prems span by (simp add: decoded_spans_def)
  next
    case False
    then have n: "maxRuntimeRecords - k = Suc (maxRuntimeRecords - Suc k)" by simp
    show ?thesis
    proof (cases "scanBytes < e - s")
      case True
      then show ?thesis using Cons.IH [of "Suc k" ev] Cons.prems False span n by (simp add: decoded_spans_def)
    next
      case small: False
      then obtain v ev1 where v: "decode_record quiet content s e False = Inr v" "note_event ident v ev = Inr ev1"
        "runtime_loop quiet content ident (Suc k) (map Inr spans) ev1 = Inr ev'"
        using Cons.prems False span by (auto split: sum.splits)
      obtain vs where "list_all2 (\<lambda>(s, e) v. decode_record quiet content s e False = Inr v) (decoded_spans (maxRuntimeRecords - Suc k) spans) vs"
        "note_all ident vs ev1 = Inr ev'" using Cons.IH [OF v(3)] False by auto
      then show ?thesis using v small span n by (intro exI [of _ "v # vs"]) (simp add: decoded_spans_def)
    qed
  qed
qed

end
