(* ===== verification/RolloutCorrect.thy ===== *)
theory RolloutCorrect
  imports HistoryCorrect UploadsCorrect
begin

text \<open>
  The pages of completed items: a cursor resumes exactly where its page stopped, so the pages a client gets by
  following the cursors divide the completed items of the file, in its order, down to the newest indexed item. A
  page shows an item once however often it was recorded; the cursor does not carry the items already shown, so
  an item recorded on both sides of a page boundary is shown on both pages.
\<close>

subsection \<open>Cursors\<close>

lemma keys_plain: "list_all safe_char ''id''" "list_all safe_char ''file''" "list_all safe_char ''before''" "list_all safe_char ''anchor''"
  "list_all safe_char ''indexedCursor''"
  by (simp_all add: safe_char_def plain_char_def)

lemma rollout_json_text:
  assumes "list_all safe_char i" "list_all safe_char f" "list_all safe_char a" "list_all safe_char x"
  shows "rollout_json \<lparr>rc_ID = i, rc_File = f, rc_Before = n, rc_Anchor = a, rc_IndexedCursor = Some x\<rparr> =
    CHR ''{'' # CHR 0x22 # ''id'' @ CHR 0x22 # CHR '':'' # CHR 0x22 # i @ CHR 0x22 #
    CHR '','' # CHR 0x22 # ''file'' @ CHR 0x22 # CHR '':'' # CHR 0x22 # f @ CHR 0x22 #
    CHR '','' # CHR 0x22 # ''before'' @ CHR 0x22 # CHR '':'' # FormatUint n @
    CHR '','' # CHR 0x22 # ''anchor'' @ CHR 0x22 # CHR '':'' # CHR 0x22 # a @ CHR 0x22 #
    CHR '','' # CHR 0x22 # ''indexedCursor'' @ CHR 0x22 # CHR '':'' # CHR 0x22 # x @ CHR 0x22 # ''}''"
  using assms keys_plain by (simp add: rollout_json_def go_json_object_def go_member_def go_quote_plain)

lemma rollout_reads:
  assumes "list_all safe_char i" "list_all safe_char f" "list_all safe_char a" "list_all safe_char x"
    "length i + length f + length a + length x \<le> 900" "n < 2 ^ 53"
  shows "snd (Read (rollout_json \<lparr>rc_ID = i, rc_File = f, rc_Before = n, rc_Anchor = a, rc_IndexedCursor = Some x\<rparr>) False) =
    Inr (GObj [(''id'', GStr i), (''file'', GStr f), (''before'', GNum (Fin (of_nat n))), (''anchor'', GStr a), (''indexedCursor'', GStr x)])"
proof -
  let ?s = "rollout_json \<lparr>rc_ID = i, rc_File = f, rc_Before = n, rc_Anchor = a, rc_IndexedCursor = Some x\<rparr>"
  note fmt = rollout_json_text [OF assms(1-4), of n]
  note bare = assms(1-4) [THEN safe_bare] keys_plain [THEN safe_bare]
  have len: "length (FormatUint n) \<le> 16" by (rule FormatUint_length) (use assms(6) in simp_all)
  have "\<exists>g. read_fuel ?s = Suc (Suc (Suc (Suc (Suc (Suc (Suc (Suc g)))))))"
    by (intro exI [of _ "read_fuel ?s - 8"]) (simp add: read_fuel_def fmt)
  then obtain g where fuel: "read_fuel ?s = Suc (Suc (Suc (Suc (Suc (Suc (Suc (Suc g)))))))" by blast
  have M: "MaxRetainedBytes = 67108864" by (simp add: MaxRetainedBytes_def)
  note members = member_text(2) [where k = "''id''"] member_text(2) [where k = "''file''"] member_nat [where k = "''before''"]
    member_text(2) [where k = "''anchor''"] member_text(1) [where k = "''indexedCursor''"]
  note steps = members [unfolded append_Cons append_Nil]
  have "\<exists>m. obj_loop (Suc (Suc (Suc (Suc (Suc (Suc (Suc g))))))) False [] (Suc 0) [] (CHR 0x22)
      \<lparr>inp = tl (tl ?s), retained = 32\<rparr> =
    (\<lparr>inp = [], retained = m\<rparr>, Inr (GObj [(''id'', GStr i), (''file'', GStr f), (''before'', GNum (Fin (of_nat n))), (''anchor'', GStr a), (''indexedCursor'', GStr x)]))"
    using bare assms(5,6) len M by (simp add: fmt steps del: dec_value.simps obj_loop.simps)
  then obtain m where loop: "obj_loop (Suc (Suc (Suc (Suc (Suc (Suc (Suc g))))))) False [] (Suc 0) [] (CHR 0x22)
      \<lparr>inp = tl (tl ?s), retained = 32\<rparr> =
    (\<lparr>inp = [], retained = m\<rparr>, Inr (GObj [(''id'', GStr i), (''file'', GStr f), (''before'', GNum (Fin (of_nat n))), (''anchor'', GStr a), (''indexedCursor'', GStr x)]))" ..
  have s: "?s = CHR ''{'' # CHR 0x22 # tl (tl ?s)" by (simp add: fmt)
  show ?thesis by (subst s, rule Read_object [OF loop]) (use fuel s in simp)
qed
lemma rollout_json_length:
  assumes "list_all safe_char i" "list_all safe_char f" "list_all safe_char a" "list_all safe_char x" "n < 2 ^ 53"
  shows "length (rollout_json \<lparr>rc_ID = i, rc_File = f, rc_Before = n, rc_Anchor = a, rc_IndexedCursor = Some x\<rparr>) \<le>
    length i + length f + length a + length x + 84"
proof -
  have "length (FormatUint n) \<le> 16" by (rule FormatUint_length) (use assms(5) in simp_all)
  then show ?thesis by (simp add: rollout_json_text [OF assms(1-4)])
qed

lemma decode_rollout_encode:
  assumes "list_all safe_char i" "list_all safe_char f" "list_all safe_char a" "list_all safe_char x"
    "length i + length f + length a + length x \<le> 900" "n < 2 ^ 53"
  shows "decode_rollout i f (encode_rollout \<lparr>rc_ID = i, rc_File = f, rc_Before = n, rc_Anchor = a, rc_IndexedCursor = Some x\<rparr>) =
    Inr \<lparr>rc_ID = i, rc_File = f, rc_Before = n, rc_Anchor = a, rc_IndexedCursor = Some x\<rparr>"
proof -
  let ?c = "\<lparr>rc_ID = i, rc_File = f, rc_Before = n, rc_Anchor = a, rc_IndexedCursor = Some x\<rparr>"
  have "length (encode_rollout ?c) \<le> 19 + 2 * length (rollout_json ?c)"
    using b64_encode_length [of "map byte_of (rollout_json ?c)"] by (simp add: encode_rollout_def rolloutPrefix_def)
  then have short: "\<not> 2048 < length (encode_rollout ?c)" using rollout_json_length [OF assms(1-4,6)] assms(5) by linarith
  have body: "b64_decode (drop (length rolloutPrefix) (encode_rollout ?c)) = Some (rollout_json ?c)"
    by (simp add: encode_rollout_def b64_decode_encode)
  have "(of_nat n :: rat) \<le> of_nat 9007199254740991" unfolding of_nat_le_iff using assms(6) by simp
  then have offset: "cursor_offset (GNum (Fin (of_nat n))) = Some n"
    using f64_is_integer_of_int [of "int n"] by (simp add: cursor_offset_def max_safe_integer_def)
  show ?thesis
    unfolding decode_rollout_def if_not_P [OF short] body option.case rollout_reads [OF assms] sum.case
    using offset assms(5) by (simp add: Let_def fields_of_def Fields_def field_def AsText_def)
qed

subsection \<open>One page\<close>

text \<open>The events of a list of records, and what each of them shows.\<close>

definition events_of :: "(recordSpan \<Rightarrow> history_error + rollout_event option) \<Rightarrow> recordSpan list \<Rightarrow> rollout_event list" where
  "events_of read spans = List.map_filter (\<lambda>x. case read x of Inr v \<Rightarrow> v | Inl _ \<Rightarrow> None) spans"

definition newer :: "string \<Rightarrow> rollout_event list \<Rightarrow> rollout_event list" where
  "newer anchor = takeWhile (\<lambda>v. \<not> at_anchor anchor v)"

definition shown :: "bool \<Rightarrow> string list \<Rightarrow> rollout_event \<Rightarrow> message list" where
  "shown act excluded v = (if re_Item v \<noteq> None \<and> re_Turn v \<notin> set excluded then event_messages act v else [])"

text \<open>The items a page shows of its records, newest first: of several records of an item only the newest.\<close>

definition eligible :: "string list \<Rightarrow> rollout_event \<Rightarrow> bool" where
  "eligible excluded v \<longleftrightarrow> re_Item v \<noteq> None \<and> re_Turn v \<notin> set excluded"

fun first_items :: "string list \<Rightarrow> rollout_event list \<Rightarrow> rollout_event list" where
  "first_items excluded [] = []"
| "first_items excluded (v # vs) =
     (if eligible excluded v then v # filter (\<lambda>w. event_id w \<noteq> event_id v) (first_items excluded vs) else first_items excluded vs)"

definition page_items :: "bool \<Rightarrow> string list \<Rightarrow> rollout_event list \<Rightarrow> message list" where
  "page_items act excluded vs = rev (concat (map (event_messages act) (first_items excluded vs)))"

lemma first_items_set: "set (first_items excluded vs) \<subseteq> set (filter (eligible excluded) vs)"
  by (induction vs) auto

lemma first_items_once: "distinct (map event_id (first_items excluded vs))"
  by (induction vs) (auto simp: distinct_map inj_on_filter_key_eq intro: inj_on_subset)

lemma first_items_all: "event_id ` set (first_items excluded vs) = event_id ` set (filter (eligible excluded) vs)"
proof (induction vs)
  case (Cons v vs)
  have "event_id ` {w \<in> X. event_id w \<noteq> k} = event_id ` X - {k}" for X and k by auto
  then show ?case using Cons by auto
qed simp

definition item_ids :: "rollout_event list \<Rightarrow> string list" where
  "item_ids vs = map event_id (filter (\<lambda>v. re_Item v \<noteq> None) vs)"

lemma events_of_simps [simp]:
  "events_of read [] = []"
  "read x = Inr (Some v) \<Longrightarrow> events_of read (x # xs) = v # events_of read xs"
  "read x = Inr None \<Longrightarrow> events_of read (x # xs) = events_of read xs"
  "events_of read (xs @ ys) = events_of read xs @ events_of read ys"
  by (simp_all add: events_of_def map_filter_simps map_filter_def)

definition page_ends :: "rollout_args \<Rightarrow> (recordSpan \<Rightarrow> history_error + rollout_event option) \<Rightarrow> recordSpan list \<Rightarrow> recordSpan list \<Rightarrow> string option \<Rightarrow> bool" where
  "page_ends a read A B next \<longleftrightarrow>
     B = [] \<and> next = None \<or>
     (\<exists>x B' v. B = x # B' \<and> read x = Inr (Some v) \<and> at_anchor (ra_Anchor a) v \<and> next = Some (ra_Indexed a)) \<or>
     A \<noteq> [] \<and> next = Some (rollout_next a (fst (last A)))"

text \<open>What a page in progress still shows of further records.\<close>

definition unseen :: "rollout_args \<Rightarrow> rollout_scan \<Rightarrow> rollout_event list \<Rightarrow> rollout_event list" where
  "unseen a st vs = filter (\<lambda>w. event_id w \<notin> set (rs_Seen st)) (first_items (ra_Excluded a) vs)"

definition all_messages :: "rollout_args \<Rightarrow> rollout_scan \<Rightarrow> rollout_event list \<Rightarrow> message list" where
  "all_messages a st vs = rs_Messages st @ concat (map (event_messages (ra_Activity a)) (unseen a st vs))"

lemma all_messages_Nil [simp]: "all_messages a st [] = rs_Messages st"
  by (simp add: all_messages_def unseen_def)

lemma all_messages_scanned [simp]: "all_messages a (st\<lparr>rs_Scanned := n\<rparr>) vs = all_messages a st vs"
  by (simp add: all_messages_def unseen_def)

lemma take_event_messages: "all_messages a (take_event a v st) vs = all_messages a st (v # vs)"
proof -
  let ?F = "first_items (ra_Excluded a) vs" and ?S = "set (rs_Seen st)"
  have kept: "filter (\<lambda>w. event_id w \<noteq> event_id v \<and> event_id w \<notin> ?S) ?F = filter (\<lambda>w. event_id w \<notin> ?S) ?F" if "event_id v \<in> ?S"
    using that by (intro filter_cong) auto
  show ?thesis
    by (cases "eligible (ra_Excluded a) v"; cases "event_id v \<in> ?S")
      (auto simp: all_messages_def unseen_def take_event_def eligible_def Let_def kept conj_commute)
qed

text \<open>A page takes a first part of the records, without an anchor, and says how it ended.\<close>

definition page_of :: "rollout_args \<Rightarrow> (recordSpan \<Rightarrow> history_error + rollout_event option) \<Rightarrow> recordSpan list \<Rightarrow> rollout_scan \<Rightarrow> message_page \<Rightarrow> bool" where
  "page_of a read L st p \<longleftrightarrow>
     (\<exists>A B. L = A @ B \<and> (\<forall>v \<in> set (events_of read A). \<not> at_anchor (ra_Anchor a) v) \<and>
       mp_Messages p = rev (all_messages a st (events_of read A)) \<and> page_ends a read A B (mp_NextCursor p))"

lemma page_of_Cons:
  assumes "page_of a read L (take_event a v st) p" "read x = Inr (Some v)" "\<not> at_anchor (ra_Anchor a) v"
  shows "page_of a read (x # L) st p"
proof -
  obtain A B where AB: "L = A @ B" "\<forall>v \<in> set (events_of read A). \<not> at_anchor (ra_Anchor a) v"
    "mp_Messages p = rev (all_messages a (take_event a v st) (events_of read A))"
    "page_ends a read A B (mp_NextCursor p)" using assms(1) by (auto simp: page_of_def)
  have "page_ends a read (x # A) B (mp_NextCursor p)" using AB(4) by (auto simp: page_ends_def)
  then show ?thesis unfolding page_of_def
    using AB assms(2,3) by (intro exI [of _ "x # A"] exI [of _ B]) (simp add: take_event_messages)
qed

lemma page_of_skip:
  assumes "page_of a read L st p" "read x = Inr None"
  shows "page_of a read (x # L) st p"
proof -
  obtain A B where AB: "L = A @ B" "\<forall>v \<in> set (events_of read A). \<not> at_anchor (ra_Anchor a) v"
    "mp_Messages p = rev (all_messages a st (events_of read A))"
    "page_ends a read A B (mp_NextCursor p)" using assms(1) by (auto simp: page_of_def)
  have "page_ends a read (x # A) B (mp_NextCursor p)" using AB(4) by (auto simp: page_ends_def)
  then show ?thesis unfolding page_of_def using AB assms(2) by (intro exI [of _ "x # A"] exI [of _ B]) simp
qed

lemma page_of_stop:
  assumes "read x = Inr found"
    "mp_Messages p = rev (rs_Messages (case found of None \<Rightarrow> st | Some v \<Rightarrow> take_event a v st))"
    "mp_NextCursor p = Some (rollout_next a (fst x))" "\<And>v. found = Some v \<Longrightarrow> \<not> at_anchor (ra_Anchor a) v"
  shows "page_of a read (x # L) st p"
  unfolding page_of_def using assms
  by (intro exI [of _ "[x]"] exI [of _ L]) (cases found; simp add: page_ends_def take_event_messages [symmetric])

lemma page_of_scanned [simp]: "page_of a read L (st\<lparr>rs_Scanned := n\<rparr>) p = page_of a read L st p"
  by (simp add: page_of_def)

lemma rollout_loop_page:
  assumes "\<forall>x \<in> set L. \<exists>v. read x = Inr v"
  shows "\<exists>r. rollout_loop read a (map Inr L) st = Inr r \<and> (case r of None \<Rightarrow> \<not> ra_Continued a | Some p \<Rightarrow> page_of a read L st p)"
  using assms
proof (induction L arbitrary: st)
  case Nil
  then show ?case by (simp add: page_result_def page_of_def page_ends_def)
next
  case (Cons x L)
  obtain found where found: "read x = Inr found" using Cons.prems(1) by auto
  show ?case
  proof (cases "\<exists>v. found = Some v \<and> at_anchor (ra_Anchor a) v")
    case True
    then obtain v where v: "found = Some v" "at_anchor (ra_Anchor a) v" by blast
    have "page_of a read (x # L) st \<lparr>mp_Messages = rev (rs_Messages st), mp_NextCursor = Some (ra_Indexed a)\<rparr>"
      unfolding page_of_def by (intro exI [of _ "[]"] exI [of _ "x # L"]) (use found v in \<open>simp add: page_ends_def\<close>)
    then show ?thesis using found v by simp
  next
    case False
    define st1 where "st1 = (case found of None \<Rightarrow> st | Some v \<Rightarrow> take_event a v st)"
    define st2 where "st2 = st1\<lparr>rs_Scanned := Suc (rs_Scanned st1)\<rparr>"
    show ?thesis
    proof (cases "pageMessages \<le> length (rs_Messages st2) \<or> pageRecords \<le> rs_Scanned st2")
      case True
      have "rollout_loop read a (map Inr (x # L)) st = Inr (page_result a st2 (Some (rollout_next a (fst x))))"
        using found False True by (cases found; simp add: st1_def st2_def Let_def)
      moreover have "page_of a read (x # L) st \<lparr>mp_Messages = rev (rs_Messages st2), mp_NextCursor = Some (rollout_next a (fst x))\<rparr>"
        by (rule page_of_stop [where found = found]) (use found False in \<open>auto simp: st1_def st2_def\<close>)
      ultimately show ?thesis by (simp add: page_result_def)
    next
      case more: False
      have "rollout_loop read a (map Inr (x # L)) st = rollout_loop read a (map Inr L) st2"
        using found False more by (cases found; simp add: st1_def st2_def Let_def)
      moreover obtain r where "rollout_loop read a (map Inr L) st2 = Inr r" "case r of None \<Rightarrow> \<not> ra_Continued a | Some p \<Rightarrow> page_of a read L st2 p"
        using Cons.IH [of st2] Cons.prems(1) by auto
      moreover have "page_of a read (x # L) st p" if "page_of a read L st2 p" for p
        using that found False page_of_Cons [of a read L _ st] page_of_skip [of a read L st]
        by (cases found) (auto simp: st1_def st2_def)
      ultimately show ?thesis by (cases r) auto
    qed
  qed
qed

subsection \<open>Following the cursors\<close>

text \<open>What a client does: it asks for the next page as long as it gets a cursor of this kind.\<close>

fun follow_pages :: "nat \<Rightarrow> (string \<Rightarrow> history_error + message_page option) \<Rightarrow> string \<Rightarrow> message_page list option" where
  "follow_pages 0 page c = None"
| "follow_pages (Suc n) page c =
     (case page c of
        Inl _ \<Rightarrow> None
      | Inr None \<Rightarrow> Some []
      | Inr (Some p) \<Rightarrow>
          (case mp_NextCursor p of
             None \<Rightarrow> Some [p]
           | Some c' \<Rightarrow> if IsRolloutCursor c' then map_option (\<lambda>ps. p # ps) (follow_pages n page c') else Some [p]))"

definition session_file :: "string \<Rightarrow> string \<Rightarrow> bool" where
  "session_file content ident \<longleftrightarrow>
     (case header_line content of
        None \<Rightarrow> False
      | Some line \<Rightarrow> (case snd (Read line False) of Inl _ \<Rightarrow> False | Inr v \<Rightarrow> session_identity v ident))"

definition first_args :: "string \<Rightarrow> string \<Rightarrow> string \<Rightarrow> bool \<Rightarrow> string list \<Rightarrow> string \<Rightarrow> rollout_args" where
  "first_args path ident anchor act excluded indexed =
     \<lparr>ra_ID = ident, ra_Key = sha256_hex path, ra_Anchor = anchor, ra_Activity = act, ra_Excluded = excluded, ra_Indexed = indexed, ra_Continued = False\<rparr>"

definition cursor_args :: "string \<Rightarrow> string \<Rightarrow> string \<Rightarrow> bool" where
  "cursor_args ident anchor indexed \<longleftrightarrow>
     list_all safe_char ident \<and> list_all safe_char anchor \<and> list_all safe_char indexed \<and>
     length ident + length anchor + length indexed \<le> 800 \<and> indexed \<noteq> [] \<and> \<not> IsRolloutCursor indexed"

lemma hex_safe: "list_all safe_char (sha256_hex path)" "length (sha256_hex path) = 64"
proof -
  have "safe_char c" if "lower_hex c" for c
    using that by (auto simp: lower_hex_def is_digit_def safe_char_def plain_char_def)
  then show "list_all safe_char (sha256_hex path)" using sha_digest(2) [of path] by (auto simp: list_all_iff)
qed (rule sha_digest)

lemma read_rollout_lines:
  assumes "session_file content ident" "case before of Some b \<Rightarrow> b \<le> length content | None \<Rightarrow> True"
  shows "read_rollout quiet lower (Inr content) ident a before =
    rollout_loop (read_event quiet lower content ident) a
      (map Inr (rev (lines_of (take (case before of Some b \<Rightarrow> b | None \<Rightarrow> length content) content)))) rollout_start"
proof -
  obtain line v where h: "header_line content = Some line" "snd (Read line False) = Inr v" "session_identity v ident"
    using assms(1) by (auto simp: session_file_def split: option.splits sum.splits)
  have "records quiet content b 0 = map Inr (rev (lines_of (take b content)))" if "b \<le> length content" for b
    using records_lines [OF that, of 0] by (simp add: above_def [abs_def])
  then show ?thesis using assms(2) h by (cases before) (simp_all add: read_rollout_def)
qed

lemma first_page:
  assumes "session_file content ident" "indexed \<noteq> []"
  shows "ReadRolloutPage quiet lower (Inr content) path ident [] anchor act excluded indexed =
    rollout_loop (read_event quiet lower content ident) (first_args path ident anchor act excluded indexed)
      (map Inr (rev (lines_of content))) rollout_start"
  using read_rollout_lines [OF assms(1), of None] assms(2)
  by (simp add: ReadRolloutPage_def quiet_def [of AtEntry] rollout_resume_def IsRolloutCursor_def HasPrefix_def rolloutPrefix_def first_args_def Let_def)

lemma next_page:
  assumes "session_file content ident" "cursor_args ident anchor indexed" "before \<le> length content" "length content < 2 ^ 53"
  shows "ReadRolloutPage quiet lower (Inr content) path ident (rollout_next (first_args path ident anchor act excluded indexed) before) anchor act excluded indexed =
    rollout_loop (read_event quiet lower content ident) ((first_args path ident anchor act excluded indexed)\<lparr>ra_Continued := True\<rparr>)
      (map Inr (rev (lines_of (take before content)))) rollout_start"
proof -
  let ?c = "\<lparr>rc_ID = ident, rc_File = sha256_hex path, rc_Before = before, rc_Anchor = anchor, rc_IndexedCursor = Some indexed\<rparr>"
  have c: "rollout_next (first_args path ident anchor act excluded indexed) before = encode_rollout ?c"
    by (simp add: rollout_next_def first_args_def)
  have "decode_rollout ident (sha256_hex path) (encode_rollout ?c) = Inr ?c"
    by (rule decode_rollout_encode) (use assms(2-4) hex_safe in \<open>auto simp: cursor_args_def\<close>)
  moreover have "IsRolloutCursor (encode_rollout ?c)" by (simp add: IsRolloutCursor_def encode_rollout_def)
  ultimately show ?thesis unfolding c using assms(2,3) read_rollout_lines [OF assms(1), of "Some before"]
    by (simp add: ReadRolloutPage_def quiet_def [of AtEntry] rollout_resume_def first_args_def cursor_args_def Let_def)
qed

lemma events_of_rev: "set (events_of read (rev xs)) = set (events_of read xs)"
  by (auto simp: events_of_def map_filter_def)

lemma newer_append:
  "\<forall>v \<in> set xs. \<not> at_anchor anchor v \<Longrightarrow> newer anchor (xs @ ys) = xs @ newer anchor ys"
  "v \<in> set xs \<Longrightarrow> at_anchor anchor v \<Longrightarrow> newer anchor (xs @ ys) = newer anchor xs"
  by (auto simp: newer_def takeWhile_append)

lemma rollout_start_simps [simp]: "rs_Messages rollout_start = []" "rs_Seen rollout_start = []"
  by (simp_all add: rollout_start_def)

lemma all_messages_start: "rev (all_messages a rollout_start vs) = page_items (ra_Activity a) (ra_Excluded a) vs"
  by (simp add: all_messages_def unseen_def page_items_def)

lemma follow_rest:
  fixes content ident path anchor act excluded indexed lower
  defines "page \<equiv> \<lambda>c. ReadRolloutPage quiet lower (Inr content) path ident c anchor act excluded indexed"
    and "a0 \<equiv> first_args path ident anchor act excluded indexed" and "read \<equiv> read_event quiet lower content ident"
  assumes ok: "session_file content ident" "cursor_args ident anchor indexed" "length content < 2 ^ 53"
    and lines: "\<forall>x \<in> set (lines_of content). \<exists>v. read x = Inr v"
  shows "page c = rollout_loop read a (map Inr (rev (lines_of (take before content)))) rollout_start \<Longrightarrow> page c \<noteq> Inr None \<Longrightarrow>
    a = a0 \<or> a = a0\<lparr>ra_Continued := True\<rparr> \<Longrightarrow> before \<le> length content \<Longrightarrow> set (lines_of (take before content)) \<subseteq> set (lines_of content) \<Longrightarrow>
    length (lines_of (take before content)) < n \<Longrightarrow>
    \<exists>ps segs. follow_pages n page c = Some ps \<and> ps \<noteq> [] \<and> concat segs = newer anchor (events_of read (rev (lines_of (take before content)))) \<and>
      list_all2 (\<lambda>p vs. mp_Messages p = page_items act excluded vs) ps segs \<and>
      mp_NextCursor (last ps) = (if \<exists>v \<in> set (events_of read (lines_of (take before content))). at_anchor anchor v then Some indexed else None)"
proof (induction n arbitrary: c a before)
  case (Suc n)
  let ?L = "rev (lines_of (take before content))"
  have a: "ra_Anchor a = anchor" "ra_Activity a = act" "ra_Excluded a = excluded" "ra_Indexed a = indexed" "rollout_next a = rollout_next a0"
    using Suc.prems(3) by (auto simp: a0_def first_args_def rollout_next_def fun_eq_iff)
  have "\<forall>x \<in> set ?L. \<exists>v. read x = Inr v" using lines Suc.prems(5) by auto
  then obtain r where r: "page c = Inr r" "case r of None \<Rightarrow> \<not> ra_Continued a | Some p \<Rightarrow> page_of a read ?L rollout_start p"
    using rollout_loop_page [of ?L read a rollout_start] Suc.prems(1) by auto
  then obtain p where p: "page c = Inr (Some p)" "page_of a read ?L rollout_start p" using Suc.prems(2) by (cases r) auto
  obtain A B where AB: "?L = A @ B" "\<forall>v \<in> set (events_of read A). \<not> at_anchor anchor v"
    "mp_Messages p = page_items act excluded (events_of read A)" "page_ends a read A B (mp_NextCursor p)"
    using p(2) by (auto simp: page_of_def all_messages_start a)
  have split: "newer anchor (events_of read ?L) = events_of read A @ newer anchor (events_of read B)"
    using AB(1) newer_append(1) [OF AB(2)] by simp
  have events: "set (events_of read (lines_of (take before content))) = set (events_of read A) \<union> set (events_of read B)"
    using events_of_rev [of read "lines_of (take before content)"] by (simp add: AB(1))
  consider "B = []" "mp_NextCursor p = None"
    | x B' v where "B = x # B'" "read x = Inr (Some v)" "at_anchor anchor v" "mp_NextCursor p = Some indexed"
    | "A \<noteq> []" "mp_NextCursor p = Some (rollout_next a0 (fst (last A)))"
    using AB(4) a by (auto simp: page_ends_def)
  then show ?case
  proof cases
    case 1
    then show ?thesis using p(1) AB(2,3) split events by (intro exI [of _ "[p]"] exI [of _ "[events_of read A]"]) (simp add: newer_def)
  next
    case (2 x B' v)
    then have "newer anchor (events_of read B) = []" by (simp add: newer_def)
    then show ?thesis using 2 p(1) AB(3) split ok(2) events by (intro exI [of _ "[p]"] exI [of _ "[events_of read A]"]) (simp add: cursor_args_def)
  next
    case 3
    obtain s e A' where last: "A = A' @ [(s, e)]" using 3(1) by (metis prod.exhaust rev_exhaust)
    have "rev ?L = rev (A @ B)" using AB(1) by simp
    then have "lines_of (take before content) = rev B @ (s, e) # rev A'" by (simp add: last)
    from lines_cut [OF this] have cut: "lines_of (take s (take before content)) = rev B" "s < length (take before content)" .
    then have B: "lines_of (take s content) = rev B" "s \<le> length content" by (simp_all add: min_absorb1)
    have next': "page (rollout_next a0 s) = rollout_loop read (a0\<lparr>ra_Continued := True\<rparr>) (map Inr (rev (lines_of (take s content)))) rollout_start"
      using next_page [OF ok(1,2) B(2) ok(3)] by (simp add: page_def a0_def read_def)
    have "set B \<subseteq> set ?L" by (simp only: AB(1) set_append Un_upper2)
    then have sub: "set (lines_of (take s content)) \<subseteq> set (lines_of content)" using B(1) Suc.prems(5) by auto
    have some: "page (rollout_next a0 s) \<noteq> Inr None"
    proof -
      have "\<forall>x \<in> set (rev (lines_of (take s content))). \<exists>v. read x = Inr v" using lines sub by auto
      then show ?thesis using rollout_loop_page [of "rev (lines_of (take s content))" read "a0\<lparr>ra_Continued := True\<rparr>" rollout_start] next' by auto
    qed
    have short: "length (lines_of (take s content)) < n"
    proof -
      have "length ?L = Suc (length A' + length B)" unfolding AB(1) last by simp
      then show ?thesis using Suc.prems(6) B(1) by simp
    qed
    obtain ps segs where ps: "follow_pages n page (rollout_next a0 s) = Some ps" "ps \<noteq> []" "concat segs = newer anchor (events_of read B)"
      "list_all2 (\<lambda>p vs. mp_Messages p = page_items act excluded vs) ps segs"
      "mp_NextCursor (last ps) = (if \<exists>v \<in> set (events_of read (rev B)). at_anchor anchor v then Some indexed else None)"
      using Suc.IH [OF next' some _ B(2) sub short] B(1) by auto
    have "IsRolloutCursor (rollout_next a0 s)" by (simp add: IsRolloutCursor_def rollout_next_def encode_rollout_def)
    moreover have "set (events_of read (rev B)) = set (events_of read B)" by (rule events_of_rev)
    ultimately show ?thesis using ps p(1) 3 last AB(2,3) events unfolding split by (intro exI [of _ "p # ps"] exI [of _ "events_of read A # segs"]) auto
  qed
qed simp

lemma first_items_distinct:
  assumes "distinct (item_ids vs)"
  shows "concat (map (event_messages act) (first_items excluded vs)) = concat (map (shown act excluded) vs)"
  using assms
proof (induction vs)
  case (Cons v vs)
  have "filter (\<lambda>w. event_id w \<noteq> event_id v) (first_items excluded vs) = first_items excluded vs" if "re_Item v \<noteq> None"
  proof -
    have "event_id v \<notin> event_id ` {w \<in> set vs. re_Item w \<noteq> None}" using that Cons.prems by (simp add: item_ids_def)
    moreover have "event_id ` set (first_items excluded vs) \<subseteq> event_id ` {w \<in> set vs. re_Item w \<noteq> None}"
      using first_items_set [of excluded vs] by (intro image_mono) (auto simp: eligible_def)
    ultimately have "event_id v \<notin> event_id ` set (first_items excluded vs)" by blast
    then show ?thesis by (auto simp: filter_id_conv intro: rev_image_eqI)
  qed
  moreover have "distinct (item_ids vs)" using Cons.prems by (auto simp: item_ids_def split: if_splits)
  ultimately show ?case using Cons.IH by (auto simp: eligible_def shown_def)
qed simp

lemma item_ids_append: "item_ids (vs @ ws) = item_ids vs @ item_ids ws"
  by (simp add: item_ids_def)

lemma pages_distinct:
  assumes "list_all2 (\<lambda>p vs. mp_Messages p = page_items act excluded vs) ps segs" "distinct (item_ids (concat segs))"
  shows "concat (rev (map mp_Messages ps)) = rev (concat (map (shown act excluded) (concat segs)))"
  using assms by (induction rule: list_all2_induct) (auto simp: page_items_def item_ids_append first_items_distinct)

subsection \<open>Recorded files\<close>

definition unquote :: "string \<Rightarrow> string" where
  "unquote = map (\<lambda>c. if c = CHR ''~'' then CHR 0x22 else c)"

definition meta_line :: string where
  "meta_line = unquote ''{~type~:~session_meta~,~payload~:{~id~:~t~}}''"

definition end_line :: string where
  "end_line = unquote ''{~type~:~event_msg~,~payload~:{~type~:~task_complete~,~turn_id~:~u~}}''"

definition item_line :: string where
  "item_line = unquote (''{~type~:~event_msg~,~payload~:{~type~:~item_completed~,~thread_id~:~t~,~turn_id~:~u~,'' @
     ''~item~:{~id~:~i~,~type~:~AgentMessage~,~content~:[{~type~:~Text~,~text~:~x~}]}}}'')"

definition ended_file :: string where
  "ended_file = meta_line @ [newline] @ end_line @ [newline]"

definition item_file :: string where
  "item_file = meta_line @ [newline] @ item_line @ [newline]"

text \<open>The same item recorded twice.\<close>

definition twice_file :: string where
  "twice_file = meta_line @ [newline] @ item_line @ [newline] @ item_line @ [newline]"

lemma line_lengths: "length meta_line = 44" "length end_line = 69" "length item_line = 165"
  by (simp_all add: meta_line_def end_line_def item_line_def unquote_def)

lemma no_newlines: "newline \<notin> set meta_line" "newline \<notin> set end_line" "newline \<notin> set item_line"
  "meta_line \<noteq> []" "end_line \<noteq> []" "item_line \<noteq> []"
  by (simp_all add: meta_line_def end_line_def item_line_def unquote_def newline_def)

lemma line_spans_line: "newline \<notin> set xs \<Longrightarrow> xs \<noteq> [] \<Longrightarrow> start \<le> pos \<Longrightarrow>
  line_spans start pos (xs @ newline # ys) = (start, pos + length xs) # line_spans (Suc (pos + length xs)) (Suc (pos + length xs)) ys"
proof (induction xs arbitrary: pos)
  case (Cons x xs)
  then show ?case by (cases xs) auto
qed simp

lemmas json_eval = reader_eval pred_numeral_simps child_path_def appendPath_def dec_string_bare bare_char_def Text_def AsText_def charge_new_key_def
  Fields_def field_def fields_of_def

lemma meta_reads: "snd (Read meta_line False) = Inr (GObj [(''type'', GStr ''session_meta''), (''payload'', GObj [(''id'', GStr ''t'')])])"
  by (simp add: meta_line_def unquote_def json_eval)

lemma end_reads: "snd (Read end_line False) =
    Inr (GObj [(''type'', GStr ''event_msg''), (''payload'', GObj [(''type'', GStr ''task_complete''), (''turn_id'', GStr ''u'')])])"
  by (simp add: end_line_def unquote_def json_eval)

lemma item_reads: "snd (Read item_line True) =
    Inr (GObj [(''type'', GStr ''event_msg''), (''payload'', GObj [(''type'', GStr ''item_completed''), (''thread_id'', GStr ''t''), (''turn_id'', GStr ''u''),
      (''item'', GObj [(''id'', GStr ''i''), (''type'', GStr ''AgentMessage''),
        (''content'', GArr [GObj [(''type'', GStr ''Text''), (''text'', GStr ''x'')]])])])])"
  by (simp add: item_line_def unquote_def json_eval is_KInt_def)

lemma lines_of_line: "newline \<notin> set a \<Longrightarrow> newline \<notin> set b \<Longrightarrow> a \<noteq> [] \<Longrightarrow> b \<noteq> [] \<Longrightarrow>
  lines_of (a @ [newline] @ b @ [newline]) = [(0, length a), (Suc (length a), Suc (length a) + length b)]"
  using line_spans_line [of a 0 0 "b @ [newline]"] line_spans_line [of b "Suc (length a)" "Suc (length a)" "[]"] by simp

lemma twice_lines: "lines_of twice_file = [(0, 44), (45, 210), (211, 376)]"
  using line_spans_line [OF no_newlines(1,4), of 0 0 "item_line @ [newline] @ item_line @ [newline]"]
    line_spans_line [OF no_newlines(3,6), of 45 45 "item_line @ [newline]"] line_spans_line [OF no_newlines(3,6), of 211 211 "[]"] line_lengths
  by (simp add: twice_file_def)

lemma file_lines: "lines_of ended_file = [(0, 44), (45, 114)]" "lines_of item_file = [(0, 44), (45, 210)]"
  using lines_of_line [OF no_newlines(1,2,4,5)] lines_of_line [OF no_newlines(1,3,4,6)] line_lengths
  by (simp_all add: ended_file_def item_file_def)

lemma file_parts:
  "ReadAt ended_file 0 44 = meta_line" "ReadAt ended_file 45 69 = end_line" "ReadAt item_file 0 44 = meta_line" "ReadAt item_file 45 165 = item_line"
  "ReadAt twice_file 0 44 = meta_line" "ReadAt twice_file 45 165 = item_line" "ReadAt twice_file 211 165 = item_line"
  using line_lengths by (simp_all add: ReadAt_def ended_file_def item_file_def twice_file_def)

lemma file_header: "header_line ended_file = Some meta_line" "header_line item_file = Some meta_line" "header_line twice_file = Some meta_line"
  using line_lengths no_newlines(1)
  by (simp_all add: header_line_def ReadAt_def ended_file_def item_file_def twice_file_def scanBytes_def newline_def [symmetric] takeWhile_append)

lemma head_matches_simps [simp]:
  "\<not> head_matches name []" "head_matches name (c # cs) \<longleftrightarrow> type_here name (c # cs) \<or> head_matches name cs"
proof -
  have "(\<exists>i < length (c # cs). type_here name (drop i (c # cs))) \<longleftrightarrow> type_here name (c # cs) \<or> (\<exists>i < length cs. type_here name (drop i cs))"
    by (metis drop_Suc_Cons drop0 length_Cons less_Suc_eq_0_disj)
  then show "head_matches name (c # cs) \<longleftrightarrow> type_here name (c # cs) \<or> head_matches name cs"
    by (simp add: head_matches_def list_ex_iff Bex_def del: drop_Cons' upt_Suc)
qed (simp add: head_matches_def)

lemma file_lengths: "length ended_file = 115" "length item_file = 211" "length twice_file = 377"
  using line_lengths by (simp_all add: ended_file_def item_file_def twice_file_def)

lemma heads: "\<not> head_matches ''item_completed'' meta_line" "head_matches ''event_msg'' item_line" "head_matches ''item_completed'' item_line"
  by (simp_all add: meta_line_def item_line_def unquote_def type_here_def HasPrefix_def re_space_def Let_def)

lemma chr_a: "chr 97 = CHR ''a''"
  by (simp add: char_of_def bit_0)

definition sample_event :: rollout_event where
  "sample_event = \<lparr>re_Turn = ''u'',
     re_Item = Some [(''id'', GStr ''i''), (''type'', GStr ''agentMessage''),
       (''content'', GArr [GMap [(''type'', GStr ''text''), (''text'', GStr ''x'')]]), (''text'', GSur ''x'')], re_Started = NaN\<rparr>"

lemma item_event:
  assumes "ReadAt content n 165 = item_line"
  shows "read_event quiet id content ''t'' (n, n + 165) = Inr (Some sample_event)"
proof -
  have "RolloutItem id (GObj [(''id'', GStr ''i''), (''type'', GStr ''AgentMessage''), (''content'', GArr [GObj [(''type'', GStr ''Text''), (''text'', GStr ''x'')]])]) =
      Inr (re_Item sample_event)"
    by (simp add: sample_event_def RolloutItem_def Fields_def field_def AsText_def Text_def fields_of_def asArray_def rollout_part_def lower_rune_def
      EncodeRune_def wtf8_def is_surrogate_def chr_a delete_key_def alternates_def rename_field_def rollout_duration_def Let_def)
  moreover have "eventStarted ps es = NaN" if "field ps ''started_at_ms'' = GNil" "field es ''timestamp'' = GNil" for ps es
    using that by (simp add: eventStarted_def Text_def AsText_def parse_timestamp_def)
  ultimately show ?thesis using heads assms item_reads line_lengths(3)
    by (simp add: read_event_def decode_record_def quiet_def maxNativeRecordBytes_def fields_of_def Fields_def field_def AsText_def Text_def sample_event_def Let_def)
qed

lemma meta_event: "ReadAt content 0 44 = meta_line \<Longrightarrow> read_event quiet id content ''t'' (0, 44) = Inr None"
  using heads(1) by (simp add: read_event_def)

lemma twice_events: "read_event quiet id twice_file ''t'' (0, 44) = Inr None"
  "read_event quiet id twice_file ''t'' (45, 210) = Inr (Some sample_event)" "read_event quiet id twice_file ''t'' (211, 376) = Inr (Some sample_event)"
  using meta_event [of twice_file] item_event [of twice_file 45] item_event [of twice_file 211] file_parts by simp_all

lemma sessions: "session_file item_file ''t''" "session_file ended_file ''t''" "session_file twice_file ''t''"
  by (simp_all add: session_file_def file_header meta_reads session_identity_def fields_of_def Fields_def field_def AsText_def Text_def)

lemma twice_first: "ReadRolloutPage quiet id (Inr twice_file) ''p'' ''t'' [] [] False [] ''x'' \<noteq> Inr None"
  unfolding first_page [OF sessions(3), of "''x''", simplified]
  using twice_events
  by (simp add: twice_lines first_args_def at_anchor_def sample_event_def event_id_def Text_def AsText_def field_def take_event_def rollout_start_def
    pageMessages_def pageRecords_def page_result_def event_messages_def ProjectMessages_def project_item_def turnError_def map_filter_def Let_def)

lemma ended_runtime: "ReadRuntime quiet (Inr ended_file) ''t'' None None =
    Inr ((new_runtime None None)\<lparr>r_Status := ''idle'', r_CompletedTurnID := Some (Some ''u'')\<rparr>, MergeInputReceipts [[]])"
proof -
  note len = file_lengths(1)
  have recs: "records quiet ended_file 115 (115 - runtimeWindow) = [Inr (45, 114), Inr (0, 44)]"
    using records_lines [of 115 ended_file 0] file_lines(1) len by (simp add: runtimeWindow_def above_def)
  have reads: "decode_record quiet ended_file 45 114 False = Inr (GObj [(''type'', GStr ''event_msg''), (''payload'', GObj [(''type'', GStr ''task_complete''), (''turn_id'', GStr ''u'')])])"
    "decode_record quiet ended_file 0 44 False = Inr (GObj [(''type'', GStr ''session_meta''), (''payload'', GObj [(''id'', GStr ''t'')])])"
    using file_parts end_reads meta_reads by (simp_all add: decode_record_def quiet_def)
  show ?thesis unfolding ReadRuntime_def
    by (simp add: file_header meta_reads len recs reads session_identity_def quiet_def maxRuntimeRecords_def scanBytes_def note_event_def note_terminal_def
      new_evidence_def new_runtime_def fields_of_def Fields_def field_def AsText_def Text_def Let_def)
qed

subsection \<open>Properties\<close>

text \<open>
  C28. The backward walk yields exactly the complete nonempty lines of the file before its start, newest first,
  whatever the size of its buffer; with a lower bound, those that start above it.
\<close>

theorem records_are_lines:
  assumes "before \<le> length content"
  shows "records quiet content before lower = map Inr (rev (filter (above (min before lower)) (lines_of (take before content))))"
  by (rule records_lines [OF assms])

theorem records_are_lines_witness: "records quiet item_file 211 0 = [Inr (45, 210), Inr (0, 44)]"
  using records_are_lines [of 211 item_file 0] file_lines(2) line_lengths by (simp add: item_file_def above_def)

text \<open>
  C27. A persisted runtime is decided by the newest record of each kind among the decoded records of the window:
  the newest end or start of a turn, the newest settings and the newest usage; its receipts are all those of
  the window, oldest first.
\<close>

theorem runtime_newest_evidence:
  assumes "ReadRuntime quiet (Inr content) ident model effort = Inr (r, receipts)"
  shows "\<exists>vs. list_all2 (\<lambda>(s, e) v. snd (Read (ReadAt content s (e - s)) False) = Inr v)
      (decoded_spans maxRuntimeRecords (rev (filter (above (length content - runtimeWindow)) (lines_of content)))) vs \<and>
    r = persisted_runtime vs (new_runtime model effort) \<and> receipts = MergeInputReceipts [rev (List.map_filter user_receipt vs)]"
proof -
  let ?L = "rev (filter (above (length content - runtimeWindow)) (lines_of content))"
  have "records quiet content (length content) (length content - runtimeWindow) = map Inr ?L"
    using records_lines [of "length content" content "length content - runtimeWindow"] by (simp add: min_absorb2)
  then obtain ev where ev: "runtime_loop quiet content ident 0 (map Inr ?L) (new_evidence model effort) = Inr ev"
    "r = ev_runtime ev" "receipts = MergeInputReceipts [rev (ev_receipts ev)]"
    using assms by (auto simp: ReadRuntime_def quiet_def split: option.splits sum.splits if_splits)
  obtain vs where vs: "list_all2 (\<lambda>(s, e) v. decode_record quiet content s e False = Inr v) (decoded_spans maxRuntimeRecords ?L) vs"
    "note_all ident vs (new_evidence model effort) = Inr ev" using runtime_loop_decodes [OF ev(1)] by auto
  have "list_all2 (\<lambda>(s, e) v. snd (Read (ReadAt content s (e - s)) False) = Inr v) (decoded_spans maxRuntimeRecords ?L) vs"
    by (rule list_all2_mono [OF vs(1)]) (auto simp: decode_record_def quiet_def split: sum.splits)
  moreover have "r = persisted_runtime vs (new_runtime model effort)" "receipts = MergeInputReceipts [rev (List.map_filter user_receipt vs)]"
    using note_all_newest [OF vs(2)] ev(2,3) by (simp_all add: evidence_after_def persisted_runtime_def new_evidence_def)
  ultimately show ?thesis by blast
qed

theorem runtime_newest_evidence_witness:
  "\<exists>vs. (new_runtime None None)\<lparr>r_Status := ''idle'', r_CompletedTurnID := Some (Some ''u'')\<rparr> = persisted_runtime vs (new_runtime None None) \<and>
    length vs = 2"
  using runtime_newest_evidence [OF ended_runtime]
  by (auto simp: decoded_spans_def maxRuntimeRecords_def scanBytes_def above_def file_lines file_lengths runtimeWindow_def dest!: list_all2_lengthD)



end
