(* ===== verification/NativeSession.thy ===== *)
theory NativeSession
  imports Settings PageJson Rpc HostIdle
begin

text \<open>
  The attached tasks of one native connection (\<open>internal/codex/sessions.go\<close>, \<open>sessionssettings.go\<close>,
  \<open>sessionsinput.go\<close>) and its auxiliary mutations (\<open>metadata.go\<close>). Every section under a mutex is a function;
  callers, notifications and the loss of the connection interleave in \<open>session_step\<close> and \<open>meta_step\<close>. The
  answers of the native host are arbitrary, and so are the JSON conversions of \<open>decodeMetadata\<close>.
\<close>

subsection \<open>Settings and usage\<close>

record native_settings =
  nv_Model :: "string option"
  nv_Effort :: "string option"
  nv_ServiceTier :: opt_text

record task_usage =
  tu_TotalTokens :: "float64 option"
  tu_ContextWindow :: "float64 option"

definition plain_string :: "gval \<Rightarrow> string option" where
  "plain_string v = (case v of GStr s \<Rightarrow> Some s | _ \<Rightarrow> None)"

definition plain_number :: "gval \<Rightarrow> float64 option" where
  "plain_number v = (case v of GNum x \<Rightarrow> Some x | _ \<Rightarrow> None)"

definition readNativeSettings :: "gval \<Rightarrow> string \<Rightarrow> native_settings" where
  "readNativeSettings value effortKey =
     (let ps = fields_of value
      in \<lparr>nv_Model = plain_string (field ps ''model''), nv_Effort = plain_string (field ps effortKey),
          nv_ServiceTier = (case map_of ps ''serviceTier'' of
             None \<Rightarrow> None
           | Some raw \<Rightarrow>
               if raw = GNil then Some None
               else (case AsText raw of None \<Rightarrow> None | Some t \<Rightarrow> if t = ''default'' then Some None else Some (Some t)))\<rparr>)"

definition readTaskUsage :: "gval \<Rightarrow> task_usage" where
  "readTaskUsage value =
     \<lparr>tu_TotalTokens = plain_number (field (fields_of (field (fields_of value) ''last'')) ''totalTokens''),
      tu_ContextWindow = plain_number (field (fields_of value) ''modelContextWindow'')\<rparr>"

definition optionalNullableText :: "props \<Rightarrow> string \<Rightarrow> opt_text" where
  "optionalNullableText ps key = (if map_of ps key = None then None else Some (plain_string (field ps key)))"

definition settingsMatch :: "native_settings \<Rightarrow> settings_patch \<Rightarrow> bool" where
  "settingsMatch current patch \<longleftrightarrow>
     (case p_Model patch of None \<Rightarrow> True | Some v \<Rightarrow> nv_Model current = Some v) \<and>
     (case p_Effort patch of None \<Rightarrow> True | Some v \<Rightarrow> nv_Effort current = Some v) \<and>
     (case p_ServiceTier patch of None \<Rightarrow> True | Some v \<Rightarrow> nv_ServiceTier current = Some v)"

subsection \<open>State\<close>

text \<open>
  An attachment is an element of the heap \<open>ns_attempts\<close>: how often its channel was closed, and its error. The
  channel \<open>settingsChanged\<close> is its number; \<open>ns_closed\<close> are the numbers that were closed, newest first.
\<close>

record attempt =
  at_done :: nat
  at_err :: "rpc_error option"

record native_session =
  ns_attached :: "string \<Rightarrow> nat option"
  ns_attempts :: "attempt list"
  ns_settings :: "string \<Rightarrow> native_settings option"
  ns_usage :: "string \<Rightarrow> task_usage option"
  ns_receipts :: "string \<Rightarrow> receipt list"
  ns_channel :: nat
  ns_closed :: "nat list"
  ns_version :: "string \<Rightarrow> 64 word"

definition NewNativeTaskSession :: native_session where
  "NewNativeTaskSession = \<lparr>ns_attached = (\<lambda>_. None), ns_attempts = [], ns_settings = (\<lambda>_. None), ns_usage = (\<lambda>_. None),
     ns_receipts = (\<lambda>_. []), ns_channel = 0, ns_closed = [], ns_version = (\<lambda>_. 0)\<rparr>"

definition announce_settings :: "native_session \<Rightarrow> native_session" where
  "announce_settings s = s\<lparr>ns_closed := ns_channel s # ns_closed s, ns_channel := Suc (ns_channel s)\<rparr>"

definition forget_task :: "string \<Rightarrow> native_session \<Rightarrow> native_session" where
  "forget_task t s = s\<lparr>ns_attached := (ns_attached s)(t := None), ns_settings := (ns_settings s)(t := None),
     ns_usage := (ns_usage s)(t := None), ns_receipts := (ns_receipts s)(t := [])\<rparr>"

definition notified_task :: "props \<Rightarrow> string" where
  "notified_task ps =
     (let i = Text (field ps ''threadId'') in if i = [] then Text (field (fields_of (field ps ''thread'')) ''id'') else i)"

definition item_note :: "string \<Rightarrow> props \<Rightarrow> native_session \<Rightarrow> native_session" where
  "item_note t ps s =
     (let item = fields_of (field ps ''item'')
      in if Text (field item ''type'') = ''userMessage''
         then s\<lparr>ns_receipts := (ns_receipts s)(t := MergeInputReceipts [ns_receipts s t,
                  [\<lparr>Kind = [], State = [], ClientID = Text (field item ''clientId''), TurnID = Text (field ps ''turnId''),
                    MessageID = Text (field item ''id'')\<rparr>]])\<rparr>
         else s)"

definition record_settings :: "string \<Rightarrow> native_settings \<Rightarrow> native_session \<Rightarrow> native_session" where
  "record_settings t v s =
     announce_settings (s\<lparr>ns_settings := (ns_settings s)(t := Some v), ns_version := (ns_version s)(t := ns_version s t + 1)\<rparr>)"

text \<open>The settings a notification reports, if it does.\<close>

definition reported_settings :: "string \<Rightarrow> props \<Rightarrow> native_settings option" where
  "reported_settings name ps =
     (if name = ''thread/settings/updated'' \<and> Fields (field ps ''threadSettings'') \<noteq> None
      then Some (readNativeSettings (field ps ''threadSettings'') ''effort'') else None)"

text \<open>The section of \<open>Receive\<close>; the task that changed, if the notification is about an attached one.\<close>

definition receive_note :: "string \<Rightarrow> gval \<Rightarrow> native_session \<Rightarrow> native_session \<times> string option" where
  "receive_note name params s =
     (case Fields params of
        None \<Rightarrow> (s, None)
      | Some ps \<Rightarrow>
          let t = notified_task ps
          in if t = [] \<or> ns_attached s t = None then (s, None)
             else
               (if name = ''thread/tokenUsage/updated'' then s\<lparr>ns_usage := (ns_usage s)(t := Some (readTaskUsage (field ps ''tokenUsage'')))\<rparr>
                else if name = ''item/completed'' then item_note t ps s
                else if name = ''thread/closed'' then announce_settings (forget_task t s)
                else (case reported_settings name ps of Some v \<Rightarrow> record_settings t v s | None \<Rightarrow> s), Some t))"

definition session_Disconnected :: "native_session \<Rightarrow> native_session" where
  "session_Disconnected s = announce_settings (s\<lparr>ns_attached := (\<lambda>_. None), ns_settings := (\<lambda>_. None), ns_usage := (\<lambda>_. None), ns_receipts := (\<lambda>_. [])\<rparr>)"

subsection \<open>Attaching\<close>

definition new_attempt :: attempt where
  "new_attempt = \<lparr>at_done = 0, at_err = None\<rparr>"

definition settledAttachment :: attempt where
  "settledAttachment = \<lparr>at_done = 1, at_err = None\<rparr>"

text \<open>The first section of \<open>Attach\<close>: the attempt, and whether it is this caller's.\<close>

definition attach_begin :: "string \<Rightarrow> native_session \<Rightarrow> native_session \<times> nat \<times> bool" where
  "attach_begin t s =
     (case ns_attached s t of
        Some k \<Rightarrow> (s, k, False)
      | None \<Rightarrow>
          let k = length (ns_attempts s)
          in (s\<lparr>ns_attached := (ns_attached s)(t := Some k), ns_attempts := ns_attempts s @ [new_attempt]\<rparr>, k, True))"

definition answer_error :: "rpc_error + gval \<Rightarrow> rpc_error option" where
  "answer_error answer = (case answer of Inl e \<Rightarrow> Some e | Inr _ \<Rightarrow> None)"

definition set_error :: "nat \<Rightarrow> rpc_error option \<Rightarrow> native_session \<Rightarrow> native_session" where
  "set_error k err s = s\<lparr>ns_attempts := (ns_attempts s)[k := (ns_attempts s ! k)\<lparr>at_err := err\<rparr>]\<rparr>"

definition attach_settle :: "string \<Rightarrow> nat \<Rightarrow> rpc_error + gval \<Rightarrow> native_session \<Rightarrow> native_session" where
  "attach_settle t k answer s =
     (let s = (case answer of Inr v \<Rightarrow> s\<lparr>ns_settings := (ns_settings s)(t := Some (readNativeSettings v ''reasoningEffort''))\<rparr> | Inl _ \<Rightarrow> s);
          s = set_error k (answer_error answer) s
      in if answer_error answer \<noteq> None \<and> ns_attached s t = Some k then s\<lparr>ns_attached := (ns_attached s)(t := None)\<rparr> else s)"

definition attach_close :: "nat \<Rightarrow> native_session \<Rightarrow> native_session" where
  "attach_close k s = s\<lparr>ns_attempts := (ns_attempts s)[k := (ns_attempts s ! k)\<lparr>at_done := Suc (at_done (ns_attempts s ! k))\<rparr>]\<rparr>"

text \<open>The section of \<open>Create\<close>, after the answer was decoded to the task \<open>t\<close>.\<close>

definition create_note :: "string \<Rightarrow> gval \<Rightarrow> native_session \<Rightarrow> native_session" where
  "create_note t result s =
     s\<lparr>ns_attempts := ns_attempts s @ [settledAttachment], ns_attached := (ns_attached s)(t := Some (length (ns_attempts s))),
       ns_settings := (ns_settings s)(t := Some (readNativeSettings result ''reasoningEffort''))\<rparr>"

subsection \<open>Settings of the next turn\<close>

definition needs_current :: "settings_patch \<Rightarrow> bool" where
  "needs_current patch \<longleftrightarrow> p_Model patch = None \<or> p_Model patch = Some []"

datatype update_error = UCall rpc_error | USettings settings_error | UIdentity | UUnconfirmed

text \<open>What \<open>UpdateSettings\<close> checks before it attaches: the answers of \<open>Models\<close> and of \<open>thread/read\<close>.\<close>

definition update_check :: "settings_patch \<Rightarrow> rpc_error + model list \<Rightarrow> rpc_error + gval \<Rightarrow> update_error option" where
  "update_check patch models current =
     (case models of
        Inl e \<Rightarrow> Some (UCall e)
      | Inr ms \<Rightarrow>
          if needs_current patch then
            (case current of
               Inl e \<Rightarrow> Some (UCall e)
             | Inr v \<Rightarrow> map_option USettings (ValidateSettings patch ms (plain_string (field (fields_of (field (fields_of v) ''thread'')) ''model''))))
          else map_option USettings (ValidateSettings patch ms None))"

definition update_params :: "string \<Rightarrow> settings_patch \<Rightarrow> gval" where
  "update_params t patch = GMap ((''threadId'', GStr t) # settings_fields patch)"

text \<open>The answer of \<open>thread/settings/update\<close>: what it reports about this task itself.\<close>

definition update_report :: "string \<Rightarrow> gval \<Rightarrow> update_error + gval option" where
  "update_report t result =
     (let ps = fields_of result
      in case Fields (field ps ''threadSettings'') of
           None \<Rightarrow> Inr None
         | Some values \<Rightarrow>
             if Text (field ps ''threadId'') \<noteq> t then Inl UIdentity
             else Inr (Some (GMap [(''threadId'', GStr t), (''threadSettings'', GMap values)])))"

datatype confirm = Confirmed | Lost | Await nat

definition confirm_check :: "string \<Rightarrow> settings_patch \<Rightarrow> 64 word \<Rightarrow> nat option \<Rightarrow> native_session \<Rightarrow> confirm" where
  "confirm_check t patch version attachment s =
     (let attached = (attachment \<noteq> None \<and> ns_attached s t = attachment)
      in if attached \<and> version < ns_version s t \<and> (case ns_settings s t of None \<Rightarrow> False | Some c \<Rightarrow> settingsMatch c patch) then Confirmed
         else if \<not> attached then Lost
         else Await (ns_channel s))"

definition start_turn_params :: "string \<Rightarrow> gval list \<Rightarrow> string \<Rightarrow> native_session \<Rightarrow> gval" where
  "start_turn_params t input client s =
     GMap ([(''threadId'', GStr t), (''input'', GArr input), (''clientUserMessageId'', GStr client)] @
       (case Option.bind (ns_settings s t) nv_ServiceTier of
          None \<Rightarrow> []
        | Some tier \<Rightarrow> [(''serviceTier'', case tier of None \<Rightarrow> GNil | Some v \<Rightarrow> GStr v)]))"

subsection \<open>Snapshots\<close>

record task_snapshot =
  sn_Runtime :: page_runtime
  sn_Receipts :: "receipt list"
  sn_Materialized :: bool
  sn_TurnID :: "string option"

record host_task_state =
  ts_Materialized :: bool
  ts_HasUser :: bool
  ts_Turn :: "(string \<times> string) option"
  ts_Thread :: "gval option"

definition plain_bool :: "gval \<Rightarrow> bool option" where
  "plain_bool v = (case v of GBool b \<Rightarrow> Some b | _ \<Rightarrow> None)"

definition read_task_state :: "gval \<Rightarrow> host_task_state option" where
  "read_task_state v =
     (case Fields v of
        None \<Rightarrow> None
      | Some ps \<Rightarrow>
          let turn = fields_of (field ps ''turn'')
          in case (plain_bool (field ps ''materialized''), plain_bool (field ps ''hasUser'')) of
               (Some materialized, Some hasUser) \<Rightarrow>
                 if field ps ''turn'' = GNil
                 then Some \<lparr>ts_Materialized = materialized, ts_HasUser = hasUser, ts_Turn = None, ts_Thread = map_of ps ''thread''\<rparr>
                 else (case (AsText (field turn ''id''), AsText (field turn ''status'')) of
                         (Some i, Some st) \<Rightarrow> Some \<lparr>ts_Materialized = materialized, ts_HasUser = hasUser, ts_Turn = Some (i, st), ts_Thread = map_of ps ''thread''\<rparr>
                       | _ \<Rightarrow> None)
             | _ \<Rightarrow> None)"

definition snapshot_title :: "props \<Rightarrow> string option" where
  "snapshot_title thread =
     (let own = Text (field thread ''name''); t = (if own = [] then Text (field thread ''preview'') else own)
      in if t = [] then None else Some t)"

definition snapshot_runtime :: "host_task_state \<Rightarrow> props \<Rightarrow> string \<Rightarrow> native_session \<Rightarrow> page_runtime" where
  "snapshot_runtime state thread t s =
     (let status = (case plain_string (field (fields_of (field thread ''status'')) ''type'') of Some v \<Rightarrow> v | None \<Rightarrow> ''notLoaded'');
          model = Option.bind (ns_settings s t) nv_Model; effort = Option.bind (ns_settings s t) nv_Effort;
          tier = Option.bind (ns_settings s t) nv_ServiceTier
      in \<lparr>r_Status = status,
          r_ActiveTurnID = (case ts_Turn state of Some (i, st) \<Rightarrow> if status = ''active'' \<and> st = ''inProgress'' then Some i else None | None \<Rightarrow> None),
          r_Model = (case model of Some v \<Rightarrow> Some v | None \<Rightarrow> plain_string (field thread ''model'')),
          r_ContextTokens = Option.bind (ns_usage s t) tu_TotalTokens,
          r_ContextWindow = Option.bind (ns_usage s t) tu_ContextWindow,
          r_CompletedTurnID = (case ts_Turn state of
             None \<Rightarrow> None
           | Some (i, st) \<Rightarrow> if st \<in> {''completed'', ''failed'', ''interrupted''} then Some (Some i) else Some None),
          r_Effort = (case effort of Some v \<Rightarrow> Some (Some v) | None \<Rightarrow> optionalNullableText thread ''reasoningEffort''),
          r_ServiceTier = tier, rt_Title = snapshot_title thread, rt_SettingsChange = None,
          rt_ActiveTurnHasUserMessage = Some (ts_HasUser state),
          rt_ServiceTierKnown = (if tier = None then None else Some True)\<rparr>)"

text \<open>\<open>ask_state\<close> and \<open>ask_thread\<close> are the answers of the two requests; the second is made only without a live identity.\<close>

definition Snapshot :: "rpc_error + gval \<Rightarrow> rpc_error + gval \<Rightarrow> string \<Rightarrow> native_session \<Rightarrow> rpc_error + task_snapshot" where
  "Snapshot ask_state ask_thread t s =
     (case ask_state of
        Inl e \<Rightarrow> Inl e
      | Inr answer \<Rightarrow>
          (case read_task_state answer of
             None \<Rightarrow> Inl (RCause ''Invalid executor task state'')
           | Some state \<Rightarrow>
               (case (case ts_Thread state of Some v \<Rightarrow> Inr v | None \<Rightarrow> map_sum id (\<lambda>v. field (fields_of v) ''thread'') ask_thread) of
                  Inl e \<Rightarrow> Inl e
                | Inr threadValue \<Rightarrow>
                    (case Fields threadValue of
                       None \<Rightarrow> Inl (RCause ''Native task identity mismatch'')
                     | Some thread \<Rightarrow>
                         if Text (field thread ''id'') \<noteq> t then Inl (RCause ''Native task identity mismatch'')
                         else Inr \<lparr>sn_Runtime = snapshot_runtime state thread t s, sn_Receipts = ns_receipts s t,
                                sn_Materialized = ts_Materialized state, sn_TurnID = map_option fst (ts_Turn state)\<rparr>))))"

subsection \<open>Interleavings\<close>

text \<open>
  The callers. A goal is what follows a successful \<open>Attach\<close>: nothing, or a settings patch. \<open>sx_notes\<close> is the
  history of the settings reported by notifications, newest first; the last component of \<open>Requesting\<close> and of
  the states after it is its length when the version was read.
\<close>

datatype session_pc =
    Checking string settings_patch
  | Attaching string "settings_patch option"
  | Waiting string nat "settings_patch option"
  | Resuming string nat "settings_patch option"
  | Settling string nat "rpc_error + gval" "settings_patch option"
  | Closing string nat "rpc_error option" "settings_patch option"
  | Capturing string settings_patch
  | Requesting string settings_patch "64 word" "nat option" nat
  | Reporting string settings_patch "64 word" "nat option" nat gval
  | Confirming string settings_patch "64 word" "nat option" nat
  | Sleeping string settings_patch "64 word" "nat option" nat nat
  | AttachDone nat "rpc_error option"
  | UpdateDone "update_error option"

record session_sys =
  sx_session :: native_session
  sx_callers :: "session_pc list"
  sx_notes :: "(string \<times> native_settings) list"
  sx_changed :: "string list"

definition after_attach :: "string \<Rightarrow> nat \<Rightarrow> rpc_error option \<Rightarrow> settings_patch option \<Rightarrow> session_pc" where
  "after_attach t k err goal =
     (case goal of
        None \<Rightarrow> AttachDone k err
      | Some patch \<Rightarrow> (case err of Some e \<Rightarrow> UpdateDone (Some (UCall e)) | None \<Rightarrow> Capturing t patch))"

definition caller_at :: "session_sys \<Rightarrow> nat \<Rightarrow> session_pc \<Rightarrow> bool" where
  "caller_at x j pc \<longleftrightarrow> j < length (sx_callers x) \<and> sx_callers x ! j = pc"

definition move_caller :: "nat \<Rightarrow> session_pc \<Rightarrow> session_sys \<Rightarrow> session_sys" where
  "move_caller j pc x = x\<lparr>sx_callers := (sx_callers x)[j := pc]\<rparr>"

definition with_session :: "native_session \<Rightarrow> session_sys \<Rightarrow> session_sys" where
  "with_session s x = x\<lparr>sx_session := s\<rparr>"

definition noted :: "string \<Rightarrow> gval \<Rightarrow> native_session \<Rightarrow> (string \<times> native_settings) list" where
  "noted name params s =
     (case snd (receive_note name params s) of
        None \<Rightarrow> []
      | Some t \<Rightarrow> (case reported_settings name (fields_of params) of None \<Rightarrow> [] | Some v \<Rightarrow> [(t, v)]))"

definition receive_sys :: "string \<Rightarrow> gval \<Rightarrow> session_sys \<Rightarrow> session_sys" where
  "receive_sys name params x =
     x\<lparr>sx_session := fst (receive_note name params (sx_session x)), sx_notes := noted name params (sx_session x) @ sx_notes x,
       sx_changed := (case snd (receive_note name params (sx_session x)) of None \<Rightarrow> [] | Some t \<Rightarrow> [t]) @ sx_changed x\<rparr>"

definition settings_answer :: "string \<Rightarrow> settings_patch \<Rightarrow> 64 word \<Rightarrow> nat option \<Rightarrow> nat \<Rightarrow> rpc_error + gval \<Rightarrow> session_pc" where
  "settings_answer t patch v att n answer =
     (case answer of
        Inl e \<Rightarrow> UpdateDone (Some (UCall e))
      | Inr result \<Rightarrow>
          (case update_report t result of
             Inl e \<Rightarrow> UpdateDone (Some e)
           | Inr None \<Rightarrow> Confirming t patch v att n
           | Inr (Some params) \<Rightarrow> Reporting t patch v att n params))"

definition confirm_pc :: "string \<Rightarrow> settings_patch \<Rightarrow> 64 word \<Rightarrow> nat option \<Rightarrow> nat \<Rightarrow> native_session \<Rightarrow> session_pc" where
  "confirm_pc t patch v att n s =
     (case confirm_check t patch v att s of
        Confirmed \<Rightarrow> UpdateDone None
      | Lost \<Rightarrow> UpdateDone (Some UUnconfirmed)
      | Await c \<Rightarrow> Sleeping t patch v att n c)"

inductive session_step :: "session_sys \<Rightarrow> session_sys \<Rightarrow> bool" where
  calls_attach: "session_step x (x\<lparr>sx_callers := sx_callers x @ [Attaching t None]\<rparr>)"
| calls_update: "session_step x (x\<lparr>sx_callers := sx_callers x @ [Checking t patch]\<rparr>)"
| checks: "caller_at x j (Checking t patch) \<Longrightarrow>
    session_step x (move_caller j (case update_check patch models current of Some e \<Rightarrow> UpdateDone (Some e) | None \<Rightarrow> Attaching t (Some patch)) x)"
| attaches: "caller_at x j (Attaching t goal) \<Longrightarrow> attach_begin t (sx_session x) = (s, k, own) \<Longrightarrow>
    session_step x (move_caller j (if own then Resuming t k goal else Waiting t k goal) (with_session s x))"
| waits: "caller_at x j (Waiting t k goal) \<Longrightarrow> 0 < at_done (ns_attempts (sx_session x) ! k) \<Longrightarrow>
    session_step x (move_caller j (after_attach t k (at_err (ns_attempts (sx_session x) ! k)) goal) x)"
| resumed: "caller_at x j (Resuming t k goal) \<Longrightarrow> session_step x (move_caller j (Settling t k answer goal) x)"
| settles: "caller_at x j (Settling t k answer goal) \<Longrightarrow>
    session_step x (move_caller j (Closing t k (answer_error answer) goal) (with_session (attach_settle t k answer (sx_session x)) x))"
| closes: "caller_at x j (Closing t k err goal) \<Longrightarrow>
    session_step x (move_caller j (after_attach t k err goal) (with_session (attach_close k (sx_session x)) x))"
| captures: "caller_at x j (Capturing t patch) \<Longrightarrow>
    session_step x (move_caller j (Requesting t patch (ns_version (sx_session x) t) (ns_attached (sx_session x) t) (length (sx_notes x))) x)"
| requested: "caller_at x j (Requesting t patch v att n) \<Longrightarrow> session_step x (move_caller j (settings_answer t patch v att n answer) x)"
| reports: "caller_at x j (Reporting t patch v att n params) \<Longrightarrow>
    session_step x (move_caller j (Confirming t patch v att n) (receive_sys ''thread/settings/updated'' params x))"
| confirms: "caller_at x j (Confirming t patch v att n) \<Longrightarrow> session_step x (move_caller j (confirm_pc t patch v att n (sx_session x)) x)"
| wakes: "caller_at x j (Sleeping t patch v att n c) \<Longrightarrow> c \<in> set (ns_closed (sx_session x)) \<Longrightarrow>
    session_step x (move_caller j (Confirming t patch v att n) x)"
| times_out: "caller_at x j (Sleeping t patch v att n c) \<Longrightarrow> session_step x (move_caller j (UpdateDone (Some UUnconfirmed)) x)"
| receives: "session_step x (receive_sys name params x)"
| disconnects: "session_step x (with_session (session_Disconnected (sx_session x)) x)"
| created: "session_step x (with_session (create_note t result (sx_session x)) x)"
| archived: "session_step x (with_session (forget_task t (sx_session x)) x)"

definition session_initial :: "session_sys \<Rightarrow> bool" where
  "session_initial x \<longleftrightarrow> x = \<lparr>sx_session = NewNativeTaskSession, sx_callers = [], sx_notes = [], sx_changed = []\<rparr>"

subsection \<open>Auxiliary mutations\<close>

record native_metadata =
  mt_draining :: bool
  mt_writes :: int

definition beginMutation :: "native_metadata \<Rightarrow> native_metadata option" where
  "beginMutation m = (if mt_draining m then None else Some (m\<lparr>mt_writes := mt_writes m + 1\<rparr>))"

definition finish_mutation :: "native_metadata \<Rightarrow> native_metadata" where
  "finish_mutation m = m\<lparr>mt_writes := mt_writes m - 1\<rparr>"

text \<open>The first section of \<open>PrepareShutdown\<close>: whether the verification may start.\<close>

definition shutdown_begin :: "native_metadata \<Rightarrow> native_metadata \<times> bool" where
  "shutdown_begin m = (if mt_draining m then (m, False) else if 0 < mt_writes m then (m, False) else (m\<lparr>mt_draining := True\<rparr>, True))"

definition shutdown_failed :: "native_metadata \<Rightarrow> native_metadata" where
  "shutdown_failed m = m\<lparr>mt_draining := False\<rparr>"

datatype meta_pc = Mutating | Verifying | Drained

text \<open>The calls in progress, in any order.\<close>

inductive meta_step :: "native_metadata \<times> meta_pc list \<Rightarrow> native_metadata \<times> meta_pc list \<Rightarrow> bool" where
  mutates: "beginMutation m = Some m' \<Longrightarrow> meta_step (m, cs) (m', Mutating # cs)"
| finishes: "Mutating \<in> set cs \<Longrightarrow> meta_step (m, cs) (finish_mutation m, remove1 Mutating cs)"
| prepares: "shutdown_begin m = (m', True) \<Longrightarrow> meta_step (m, cs) (m', Verifying # cs)"
| verified: "Verifying \<in> set cs \<Longrightarrow> meta_step (m, cs) (m, Drained # remove1 Verifying cs)"
| unverified: "Verifying \<in> set cs \<Longrightarrow> meta_step (m, cs) (shutdown_failed m, remove1 Verifying cs)"

record metadata_thread =
  mh_ID :: string
  mh_Name :: "string option"
  mh_Preview :: "string option"
  mh_Cwd :: "string option"

text \<open>The title of \<open>metadataThread.session\<close>.\<close>

definition thread_title :: "metadata_thread \<Rightarrow> string" where
  "thread_title th =
     (let t = (case mh_Name th of Some n \<Rightarrow> n | None \<Rightarrow> []);
          t = (if t = [] then (case mh_Preview th of Some p \<Rightarrow> p | None \<Rightarrow> []) else t)
      in if t = [] then mh_ID th else t)"

text \<open>\<open>Rename\<close> and \<open>Archive\<close> inside their mutation: the requests they send, and their result over the answers.\<close>

definition name_acceptable :: "string \<Rightarrow> bool" where
  "name_acceptable n \<longleftrightarrow> trimJSWhitespace n \<noteq> [] \<and> utf16Len n \<le> 4096"

definition NativeRename :: "(gval \<Rightarrow> rpc_error + metadata_thread) \<Rightarrow> string \<Rightarrow> string \<Rightarrow> rpc_error + gval \<Rightarrow> rpc_error + gval \<Rightarrow> rpc_error + metadata_thread" where
  "NativeRename decode t n set_answer read_answer =
     (if \<not> name_acceptable n then Inl (RpcError ''Expected a task name'' (Some (Fin (- 32602))))
      else case set_answer of
        Inl e \<Rightarrow> Inl e
      | Inr _ \<Rightarrow>
          (case read_answer of
             Inl e \<Rightarrow> Inl e
           | Inr v \<Rightarrow>
               (case decode v of
                  Inl e \<Rightarrow> Inl e
                | Inr th \<Rightarrow> if mh_ID th \<noteq> t then Inl (RCause ''Native rename target is unconfirmed'') else Inr th)))"

definition NativeArchive :: "(gval \<Rightarrow> rpc_error + metadata_thread) \<Rightarrow> string \<Rightarrow> rpc_error + gval \<Rightarrow> rpc_error + gval \<Rightarrow> rpc_error + string" where
  "NativeArchive decode t read_answer archive_answer =
     (case read_answer of
        Inl e \<Rightarrow> Inl e
      | Inr v \<Rightarrow>
          (case decode v of
             Inl e \<Rightarrow> Inl e
           | Inr th \<Rightarrow>
               (case mh_Cwd th of
                  Some cwd \<Rightarrow>
                    if mh_ID th \<noteq> t then Inl (RCause ''Native archive target is unavailable'')
                    else (case archive_answer of Inl e \<Rightarrow> Inl e | Inr _ \<Rightarrow> Inr cwd)
                | None \<Rightarrow> Inl (RCause ''Native archive target is unavailable''))))"

definition maxModelPages :: nat where
  "maxModelPages = 100"

text \<open>\<open>Models\<close>: \<open>ask cursor\<close> answers one page, \<open>n\<close> pages are left.\<close>

fun models_loop :: "nat \<Rightarrow> (string option \<Rightarrow> rpc_error + (model list \<times> string option)) \<Rightarrow> string option \<Rightarrow> string list \<Rightarrow> rpc_error + model list" where
  "models_loop 0 ask_page cursor seen' = Inl (RCause ''Native model catalog did not end'')"
| "models_loop (Suc n) ask_page cursor seen' =
     (case ask_page cursor of
        Inl e \<Rightarrow> Inl e
      | Inr (models, next) \<Rightarrow>
          (case next of
             None \<Rightarrow> Inr models
           | Some c \<Rightarrow>
               if c = [] then Inr models
               else if c \<in> set seen' then Inl (RCause ''Native model cursor did not advance'')
               else map_sum id (\<lambda>rest. models @ rest) (models_loop n ask_page (Some c) (c # seen'))))"

definition NativeModels :: "(string option \<Rightarrow> rpc_error + (model list \<times> string option)) \<Rightarrow> rpc_error + model list" where
  "NativeModels ask_page = models_loop maxModelPages ask_page None []"

end
