(* ===== verification/Threads.thy ===== *)
theory Threads
  imports Prelude
begin

text \<open>
  Lists of program points: how many threads hold something, and how the count changes when a thread moves, starts
  or ends.
\<close>

definition holders :: "('a \<Rightarrow> bool) \<Rightarrow> 'a list \<Rightarrow> nat" where
  "holders P cs = length (filter P cs)"

lemma holders_simps [simp]: "holders P [] = 0" "holders P (cs @ ds) = holders P cs + holders P ds"
  "holders P (c # cs) = (if P c then 1 else 0) + holders P cs"
  by (simp_all add: holders_def)

lemma holders_none: "holders P cs = 0 \<longleftrightarrow> (\<forall>c \<in> set cs. \<not> P c)"
  by (auto simp: holders_def filter_empty_conv)

lemma holders_update:
  assumes "j < length cs"
  shows "holders P (cs[j := pc]) + (if P (cs ! j) then 1 else 0) = holders P cs + (if P pc then 1 else 0)"
proof -
  have cs: "cs = take j cs @ cs ! j # drop (Suc j) cs" using assms by (rule id_take_nth_drop)
  have up: "cs[j := pc] = take j cs @ pc # drop (Suc j) cs" using assms by (rule upd_conv_take_nth_drop)
  have "holders P cs = holders P (take j cs) + (if P (cs ! j) then 1 else 0) + holders P (drop (Suc j) cs)"
    by (subst cs) simp
  then show ?thesis by (simp add: up)
qed

lemma holders_same: "j < length cs \<Longrightarrow> P pc = P (cs ! j) \<Longrightarrow> holders P (cs[j := pc]) = holders P cs"
  using holders_update [of j cs P pc] by simp

lemma holders_one:
  assumes "holders P cs \<le> 1" "i < length cs" "j < length cs" "P (cs ! i)" "P (cs ! j)"
  shows "i = j"
proof (rule ccontr)
  assume "i \<noteq> j"
  let ?ps = "filter (\<lambda>k. P (cs ! k)) [0..<length cs]"
  have "holders P cs = length ?ps"
    unfolding holders_def by (subst (1) map_nth [of cs, symmetric]) (simp only: filter_map length_map comp_def)
  moreover have "{i, j} \<subseteq> set ?ps" using assms by auto
  then have "card {i, j} \<le> card (set ?ps)" by (rule card_mono [rotated]) simp
  ultimately show False using assms(1) \<open>i \<noteq> j\<close> card_length [of ?ps] by simp
qed

lemma all_update: "j < length cs \<Longrightarrow> (\<forall>pc \<in> set (cs[j := pc']). P pc) \<longleftrightarrow> P pc' \<and> (\<forall>i < length cs. i \<noteq> j \<longrightarrow> P (cs ! i))"
  by (auto simp: all_set_conv_all_nth nth_list_update)

lemma fun_upd_none: "(\<lambda>_. x)(k := x) = (\<lambda>_. x)"
  by auto

end
