(* ===== verification/NativeSessionCorrect.thy ===== *)
theory NativeSessionCorrect
  imports NativeSession Threads
begin

text \<open>
  The sessions of a native connection under every interleaving: attachments are shared and settle once, settings
  are confirmed only by native evidence of this attachment, auxiliary mutations and shutdown exclude each other.
\<close>

subsection \<open>The invariant\<close>

fun owns_attempt :: "nat \<Rightarrow> session_pc \<Rightarrow> bool" where
  "owns_attempt k (Resuming t i goal) \<longleftrightarrow> i = k"
| "owns_attempt k (Settling t i answer goal) \<longleftrightarrow> i = k"
| "owns_attempt k (Closing t i err goal) \<longleftrightarrow> i = k"
| "owns_attempt k _ \<longleftrightarrow> False"

definition owners :: "nat \<Rightarrow> session_pc list \<Rightarrow> nat" where
  "owners k cs = holders (owns_attempt k) cs"

fun pc_ok :: "native_session \<Rightarrow> session_pc \<Rightarrow> bool" where
  "pc_ok s (Resuming t k goal) \<longleftrightarrow> k < length (ns_attempts s) \<and> (\<forall>u. ns_attached s u = Some k \<longrightarrow> u = t)"
| "pc_ok s (Settling t k answer goal) \<longleftrightarrow> k < length (ns_attempts s) \<and> (\<forall>u. ns_attached s u = Some k \<longrightarrow> u = t)"
| "pc_ok s (Closing t k err goal) \<longleftrightarrow> k < length (ns_attempts s) \<and> at_err (ns_attempts s ! k) = err \<and> (err \<noteq> None \<longrightarrow> (\<forall>u. ns_attached s u \<noteq> Some k))"
| "pc_ok s (Waiting t k goal) \<longleftrightarrow> k < length (ns_attempts s)"
| "pc_ok s (AttachDone k err) \<longleftrightarrow> k < length (ns_attempts s) \<and> at_done (ns_attempts s ! k) = 1 \<and> at_err (ns_attempts s ! k) = err"
| "pc_ok s _ \<longleftrightarrow> True"

definition attempts_inv :: "native_session \<Rightarrow> session_pc list \<Rightarrow> bool" where
  "attempts_inv s cs \<longleftrightarrow>
     (\<forall>k < length (ns_attempts s). at_done (ns_attempts s ! k) + owners k cs = 1) \<and> (\<forall>pc \<in> set cs. pc_ok s pc) \<and>
     (\<forall>t k. ns_attached s t = Some k \<longrightarrow> k < length (ns_attempts s) \<and> (at_done (ns_attempts s ! k) = 1 \<longrightarrow> at_err (ns_attempts s ! k) = None))"

definition count_notes :: "string \<Rightarrow> (string \<times> native_settings) list \<Rightarrow> nat" where
  "count_notes t notes' = length (filter (\<lambda>v. fst v = t) notes')"

definition since :: "nat \<Rightarrow> 'a list \<Rightarrow> 'a list" where
  "since n xs = take (length xs - n) xs"

definition seen_at :: "string \<Rightarrow> 64 word \<Rightarrow> nat \<Rightarrow> (string \<times> native_settings) list \<Rightarrow> bool" where
  "seen_at t v n notes' \<longleftrightarrow> n \<le> length notes' \<and> v = of_nat (count_notes t (drop (length notes' - n) notes'))"

fun since_ok :: "(string \<times> native_settings) list \<Rightarrow> session_pc \<Rightarrow> bool" where
  "since_ok ns (Requesting t patch v att n) \<longleftrightarrow> seen_at t v n ns"
| "since_ok ns (Reporting t patch v att n params) \<longleftrightarrow> seen_at t v n ns"
| "since_ok ns (Confirming t patch v att n) \<longleftrightarrow> seen_at t v n ns"
| "since_ok ns (Sleeping t patch v att n c) \<longleftrightarrow> seen_at t v n ns"
| "since_ok ns _ \<longleftrightarrow> True"

definition notes_inv :: "native_session \<Rightarrow> session_pc list \<Rightarrow> (string \<times> native_settings) list \<Rightarrow> bool" where
  "notes_inv s cs ns \<longleftrightarrow> ns_closed s = rev [0..<ns_channel s] \<and> (\<forall>t. ns_version s t = of_nat (count_notes t ns)) \<and> (\<forall>pc \<in> set cs. since_ok ns pc)"

definition session_inv :: "session_sys \<Rightarrow> bool" where
  "session_inv x \<longleftrightarrow> attempts_inv (sx_session x) (sx_callers x) \<and> notes_inv (sx_session x) (sx_callers x) (sx_notes x)"

subsection \<open>Callers\<close>

lemma owners_update:
  assumes "j < length cs"
  shows "owners k (cs[j := pc]) + (if owns_attempt k (cs ! j) then 1 else 0) = owners k cs + (if owns_attempt k pc then 1 else 0)"
  unfolding owners_def by (rule holders_update [OF assms])

lemma owners_new [simp]: "owners k (cs @ [pc]) = owners k cs + (if owns_attempt k pc then 1 else 0)"
  by (simp add: owners_def)

lemma owners_one:
  assumes "owners k cs = 1" "i < length cs" "j < length cs" "owns_attempt k (cs ! i)" "owns_attempt k (cs ! j)"
  shows "i = j"
  by (rule holders_one [where P = "owns_attempt k", OF _ assms(2-5)]) (use assms(1) in \<open>simp add: owners_def\<close>)

text \<open>A section that leaves the earlier attempts alone, and attaches tasks to new ones only.\<close>

definition attempts_kept :: "native_session \<Rightarrow> native_session \<Rightarrow> bool" where
  "attempts_kept s s' \<longleftrightarrow> length (ns_attempts s) \<le> length (ns_attempts s') \<and> (\<forall>k < length (ns_attempts s). ns_attempts s' ! k = ns_attempts s ! k) \<and>
     (\<forall>t k. ns_attached s' t = Some k \<longrightarrow> ns_attached s t = Some k \<or> length (ns_attempts s) \<le> k \<and> k < length (ns_attempts s'))"

lemma pc_ok_kept: "attempts_kept s s' \<Longrightarrow> pc_ok s pc \<Longrightarrow> pc_ok s' pc"
  by (cases pc) (auto simp: attempts_kept_def dest: spec2)

lemma owners_fresh:
  assumes "attempts_inv s cs" "length (ns_attempts s) \<le> k"
  shows "owners k cs = 0"
proof -
  have "\<not> owns_attempt k pc" if "pc \<in> set cs" for pc using assms that by (cases pc) (auto simp: attempts_inv_def)
  then show ?thesis by (simp add: owners_def holders_none)
qed

lemma attempts_inv_kept:
  assumes "attempts_inv s cs" "attempts_kept s s'" "\<forall>k < length (ns_attempts s). owners k cs' = owners k cs"
    "\<forall>k. length (ns_attempts s) \<le> k \<and> k < length (ns_attempts s') \<longrightarrow> at_done (ns_attempts s' ! k) + owners k cs' = 1 \<and> at_err (ns_attempts s' ! k) = None"
    "\<forall>pc \<in> set cs'. pc \<in> set cs \<or> pc_ok s' pc"
  shows "attempts_inv s' cs'"
  unfolding attempts_inv_def
proof (intro conjI allI impI ballI)
  fix k
  assume k: "k < length (ns_attempts s')"
  show "at_done (ns_attempts s' ! k) + owners k cs' = 1"
  proof (cases "k < length (ns_attempts s)")
    case True
    then show ?thesis using assms(1-3) by (auto simp: attempts_inv_def attempts_kept_def)
  next
    case False
    then show ?thesis using assms(4) k by simp
  qed
next
  fix pc
  assume "pc \<in> set cs'"
  then show "pc_ok s' pc" using assms(1,2,5) pc_ok_kept by (auto simp: attempts_inv_def)
next
  fix t k
  assume "ns_attached s' t = Some k"
  then consider "ns_attached s t = Some k" | "length (ns_attempts s) \<le> k" "k < length (ns_attempts s')" using assms(2) by (auto simp: attempts_kept_def)
  then have "k < length (ns_attempts s') \<and> (at_done (ns_attempts s' ! k) = 1 \<longrightarrow> at_err (ns_attempts s' ! k) = None)"
  proof cases
    case 1
    then have "k < length (ns_attempts s)" "at_done (ns_attempts s ! k) = 1 \<longrightarrow> at_err (ns_attempts s ! k) = None" using assms(1) by (auto simp: attempts_inv_def)
    then show ?thesis using assms(2) by (auto simp: attempts_kept_def)
  qed (use assms(4) in blast)
  then show "k < length (ns_attempts s')" "at_done (ns_attempts s' ! k) = 1 \<Longrightarrow> at_err (ns_attempts s' ! k) = None" by blast+
qed

text \<open>A caller that moves without touching the attempts, and a section of no caller.\<close>

lemma attempts_inv_move:
  assumes "attempts_inv s cs" "j < length cs" "\<forall>k. owns_attempt k pc \<longleftrightarrow> owns_attempt k (cs ! j)" "pc_ok s pc"
  shows "attempts_inv s (cs[j := pc])"
proof (rule attempts_inv_kept [OF assms(1)])
  show "attempts_kept s s" by (simp add: attempts_kept_def)
  show "\<forall>k < length (ns_attempts s). owners k (cs[j := pc]) = owners k cs"
  proof (intro allI impI)
    fix k
    show "owners k (cs[j := pc]) = owners k cs" using owners_update [OF assms(2), of k pc] assms(3) [rule_format, of k] by simp
  qed
  show "\<forall>pc' \<in> set (cs[j := pc]). pc' \<in> set cs \<or> pc_ok s pc'" using assms(4) set_update_subset_insert [of cs j pc] by blast
qed auto

lemma attempts_inv_same:
  assumes "attempts_inv s cs" "attempts_kept s s'" "length (ns_attempts s') = length (ns_attempts s)"
  shows "attempts_inv s' cs"
  by (rule attempts_inv_kept [OF assms(1,2)]) (use assms(3) in auto)

lemma attempts_inv_new:
  assumes "attempts_inv s cs" "\<forall>k. \<not> owns_attempt k pc" "pc_ok s pc"
  shows "attempts_inv s (cs @ [pc])"
  by (rule attempts_inv_kept [OF assms(1)]) (use assms in \<open>auto simp: attempts_kept_def\<close>)

lemma kept_sections:
  "attempts_kept s (fst (receive_note name params s))" "length (ns_attempts (fst (receive_note name params s))) = length (ns_attempts s)"
  "attempts_kept s (session_Disconnected s)" "length (ns_attempts (session_Disconnected s)) = length (ns_attempts s)"
  "attempts_kept s (forget_task t s)" "length (ns_attempts (forget_task t s)) = length (ns_attempts s)"
  by (auto simp: attempts_kept_def receive_note_def session_Disconnected_def forget_task_def announce_settings_def item_note_def record_settings_def Let_def
      split: option.splits if_splits)

lemma attempts_inv_create:
  assumes "attempts_inv s cs"
  shows "attempts_inv (create_note t result s) cs"
  by (rule attempts_inv_kept [OF assms])
    (use owners_fresh [OF assms] in \<open>auto simp: attempts_kept_def create_note_def settledAttachment_def nth_append split: if_splits\<close>)

lemma attempts_inv_begin:
  assumes "attempts_inv s cs" "j < length cs" "cs ! j = Attaching t goal" "attach_begin t s = (s', k, own)"
  shows "attempts_inv s' (cs[j := if own then Resuming t k goal else Waiting t k goal])"
proof (cases "ns_attached s t")
  case (Some i)
  then have "s' = s" "k = i" "\<not> own" using assms(4) by (simp_all add: attach_begin_def)
  then show ?thesis using attempts_inv_move [OF assms(1,2), of "Waiting t i goal"] assms(1,3) Some by (auto simp: attempts_inv_def)
next
  case None
  let ?n = "length (ns_attempts s)"
  have s': "s' = s\<lparr>ns_attached := (ns_attached s)(t := Some ?n), ns_attempts := ns_attempts s @ [new_attempt]\<rparr>" "k = ?n" "own"
    using assms(4) None by (auto simp: attach_begin_def Let_def)
  have upd: "owners i (cs[j := Resuming t ?n goal]) = owners i cs + (if i = ?n then 1 else 0)" for i
    using owners_update [OF assms(2), of i "Resuming t ?n goal"] assms(3) by auto
  have "attempts_inv s' (cs[j := Resuming t ?n goal])"
  proof (rule attempts_inv_kept [OF assms(1)])
    show "attempts_kept s s'" by (auto simp: attempts_kept_def s' nth_append)
    show "\<forall>i < length (ns_attempts s). owners i (cs[j := Resuming t ?n goal]) = owners i cs" by (simp add: upd)
    show "\<forall>i. ?n \<le> i \<and> i < length (ns_attempts s') \<longrightarrow> at_done (ns_attempts s' ! i) + owners i (cs[j := Resuming t ?n goal]) = 1 \<and> at_err (ns_attempts s' ! i) = None"
      using owners_fresh [OF assms(1)] by (auto simp: s' upd new_attempt_def nth_append)
    have "pc_ok s' (Resuming t ?n goal)" using assms(1) by (auto simp: s' attempts_inv_def split: if_splits)
    then show "\<forall>pc' \<in> set (cs[j := Resuming t ?n goal]). pc' \<in> set cs \<or> pc_ok s' pc'" using set_update_subset_insert [of cs j] by blast
  qed
  then show ?thesis using s' by simp
qed

text \<open>The sections of the caller that owns_attempt an attempt; nobody else owns_attempt it, and nobody has finished it.\<close>

lemma sole_owner:
  assumes "attempts_inv s cs" "j < length cs" "owns_attempt k (cs ! j)" "k < length (ns_attempts s)"
  shows "at_done (ns_attempts s ! k) = 0" "owners k cs = 1" "i < length cs \<Longrightarrow> i \<noteq> j \<Longrightarrow> \<not> owns_attempt k (cs ! i)" "AttachDone k err \<notin> set cs"
proof -
  have sum: "at_done (ns_attempts s ! k) + owners k cs = 1" using assms(1,4) by (simp add: attempts_inv_def)
  have "owners k cs \<noteq> 0" using assms(2,3) by (auto simp: owners_def holders_none)
  then show one: "at_done (ns_attempts s ! k) = 0" "owners k cs = 1" using sum by simp_all
  show "i < length cs \<Longrightarrow> i \<noteq> j \<Longrightarrow> \<not> owns_attempt k (cs ! i)" using owners_one [OF one(2) _ assms(2) _ assms(3)] by blast
  show "AttachDone k err \<notin> set cs" using one(1) assms(1) by (fastforce simp: attempts_inv_def)
qed

lemma attempts_inv_settle:
  assumes inv: "attempts_inv s cs" and j: "j < length cs" "cs ! j = Settling t k answer goal"
  shows "attempts_inv (attach_settle t k answer s) (cs[j := Closing t k (answer_error answer) goal])"
proof -
  let ?s = "attach_settle t k answer s" and ?pc = "Closing t k (answer_error answer) goal"
  have "pc_ok s (cs ! j)" using inv nth_mem [OF j(1)] by (simp add: attempts_inv_def)
  then have k: "k < length (ns_attempts s)" "\<And>u. ns_attached s u = Some k \<Longrightarrow> u = t" by (simp_all add: j)
  have own: "owns_attempt k (cs ! j)" by (simp add: j)
  note sole = sole_owner [OF inv j(1) own k(1)]
  have s': "length (ns_attempts ?s) = length (ns_attempts s)" "at_done (ns_attempts ?s ! i) = at_done (ns_attempts s ! i)"
    "at_err (ns_attempts ?s ! i) = (if i = k then answer_error answer else at_err (ns_attempts s ! i))"
    "ns_attached ?s u = (if u = t \<and> answer_error answer \<noteq> None \<and> ns_attached s t = Some k then None else ns_attached s u)" for i u
    using k(1) by (auto simp: attach_settle_def set_error_def answer_error_def nth_list_update Let_def split: sum.split)
  have ow: "owners i (cs[j := ?pc]) = owners i cs" for i using owners_update [OF j(1), of i ?pc] by (auto simp: j split: if_splits)
  have "pc_ok ?s ?pc" using k s' by auto
  moreover have "pc_ok ?s (cs ! i)" if i: "i < length cs" "i \<noteq> j" for i
  proof -
    have "pc_ok s (cs ! i)" "\<not> owns_attempt k (cs ! i)" using inv i sole(3) nth_mem [OF i(1)] by (simp_all add: attempts_inv_def)
    moreover have "cs ! i \<noteq> AttachDone k err" for err using sole(4) nth_mem [OF i(1)] by metis
    ultimately show ?thesis by (cases "cs ! i") (auto simp: s' split: if_splits)
  qed
  ultimately have "\<forall>pc \<in> set (cs[j := ?pc]). pc_ok ?s pc" using all_update [OF j(1)] by blast
  moreover have "\<forall>u i. ns_attached ?s u = Some i \<longrightarrow> i < length (ns_attempts ?s) \<and> (at_done (ns_attempts ?s ! i) = 1 \<longrightarrow> at_err (ns_attempts ?s ! i) = None)"
    using inv sole(1) by (auto simp: attempts_inv_def s' split: if_splits)
  ultimately show ?thesis using inv by (simp add: attempts_inv_def s'(1,2) ow)
qed

lemma attempts_inv_close:
  assumes inv: "attempts_inv s cs" and j: "j < length cs" "cs ! j = Closing t k err goal"
  shows "attempts_inv (attach_close k s) (cs[j := after_attach t k err goal])"
proof -
  let ?s = "attach_close k s" and ?pc = "after_attach t k err goal"
  have "pc_ok s (cs ! j)" using inv nth_mem [OF j(1)] by (simp add: attempts_inv_def)
  then have k: "k < length (ns_attempts s)" "at_err (ns_attempts s ! k) = err" "\<And>u. err \<noteq> None \<Longrightarrow> ns_attached s u \<noteq> Some k" by (auto simp: j)
  have own: "owns_attempt k (cs ! j)" by (simp add: j)
  have noerr: "at_err (ns_attempts s ! k) = None" if "ns_attached s u = Some k" for u using k that by (cases err) auto
  note sole = sole_owner [OF inv j(1) own k(1)]
  have s': "length (ns_attempts ?s) = length (ns_attempts s)" "at_done (ns_attempts ?s ! i) = (if i = k then 1 else at_done (ns_attempts s ! i))"
    "at_err (ns_attempts ?s ! i) = at_err (ns_attempts s ! i)" "ns_attached ?s = ns_attached s" for i
    using k(1) sole(1) by (auto simp: attach_close_def nth_list_update)
  have no: "\<not> owns_attempt i ?pc" for i by (auto simp: after_attach_def split: option.split)
  have ow: "owners i (cs[j := ?pc]) + (if i = k then 1 else 0) = owners i cs" for i using owners_update [OF j(1), of i ?pc] no by (auto simp: j split: if_splits)
  have "pc_ok ?s ?pc" using k s' by (simp add: after_attach_def split: option.split)
  moreover have "pc_ok ?s (cs ! i)" if i: "i < length cs" "i \<noteq> j" for i
  proof -
    have "pc_ok s (cs ! i)" using inv i nth_mem [OF i(1)] by (auto simp: attempts_inv_def)
    then show ?thesis by (cases "cs ! i") (auto simp: s')
  qed
  ultimately have "\<forall>pc \<in> set (cs[j := ?pc]). pc_ok ?s pc" using all_update [OF j(1)] by blast
  moreover have "at_done (ns_attempts ?s ! i) + owners i (cs[j := ?pc]) = 1" if "i < length (ns_attempts s)" for i
    using inv ow [of i] sole(2) that by (auto simp: attempts_inv_def s' split: if_splits)
  moreover have "\<forall>u i. ns_attached s u = Some i \<longrightarrow> i < length (ns_attempts s) \<and> (at_done (ns_attempts ?s ! i) = 1 \<longrightarrow> at_err (ns_attempts s ! i) = None)"
    using inv noerr by (auto simp: attempts_inv_def s' split: if_splits)
  ultimately show ?thesis by (simp add: attempts_inv_def s'(1,3,4))
qed

subsection \<open>Notes\<close>

lemma seen_at_more: "seen_at t v n ns \<Longrightarrow> seen_at t v n (xs @ ns)"
proof -
  assume s: "seen_at t v n ns"
  then have "length (xs @ ns) - n = length xs + (length ns - n)" by (simp add: seen_at_def)
  then have "drop (length (xs @ ns) - n) (xs @ ns) = drop (length ns - n) ns" by simp
  then show ?thesis using s by (simp add: seen_at_def)
qed

lemma since_ok_more: "since_ok ns pc \<Longrightarrow> since_ok (xs @ ns) pc"
  by (cases pc) (auto intro: seen_at_more)

lemma channels_announce: "ns_closed s = rev [0..<ns_channel s] \<Longrightarrow> ns_closed (announce_settings s) = rev [0..<ns_channel (announce_settings s)]"
  by (simp add: announce_settings_def)

lemma announce_fields [simp]: "ns_version (announce_settings s) = ns_version s" "ns_attached (announce_settings s) = ns_attached s"
  by (simp_all add: announce_settings_def)

lemma receive_notes:
  assumes "ns_closed s = rev [0..<ns_channel s]"
  shows "ns_closed (fst (receive_note name params s)) = rev [0..<ns_channel (fst (receive_note name params s))]"
    "ns_version (fst (receive_note name params s)) t = ns_version s t + of_nat (count_notes t (noted name params s))"
proof -
  show "ns_closed (fst (receive_note name params s)) = rev [0..<ns_channel (fst (receive_note name params s))]"
    using assms by (auto simp: receive_note_def item_note_def record_settings_def forget_task_def Let_def intro!: channels_announce split: option.splits)
  show "ns_version (fst (receive_note name params s)) t = ns_version s t + of_nat (count_notes t (noted name params s))"
    by (cases "Fields params")
      (auto simp: receive_note_def noted_def item_note_def record_settings_def forget_task_def reported_settings_def count_notes_def fields_of_def Let_def
        split: option.splits if_splits)
qed

lemma notes_inv_receive:
  assumes "notes_inv s cs ns"
  shows "notes_inv (fst (receive_note name params s)) cs (noted name params s @ ns)"
  using assms receive_notes [of s name params] since_ok_more by (auto simp: notes_inv_def count_notes_def add.commute)

lemma notes_inv_quiet:
  assumes "notes_inv s cs ns" "ns_closed s' = rev [0..<ns_channel s']" "ns_version s' = ns_version s" "\<forall>pc \<in> set cs'. pc \<in> set cs \<or> since_ok ns pc"
  shows "notes_inv s' cs' ns"
  using assms by (auto simp: notes_inv_def)

subsection \<open>Every interleaving\<close>

lemma caller_facts:
  assumes "session_inv x" "caller_at x j pc"
  shows "j < length (sx_callers x)" "sx_callers x ! j = pc" "pc_ok (sx_session x) pc" "since_ok (sx_notes x) pc"
    "attempts_inv (sx_session x) (sx_callers x)" "notes_inv (sx_session x) (sx_callers x) (sx_notes x)"
proof -
  show j: "j < length (sx_callers x)" "sx_callers x ! j = pc" using assms(2) by (simp_all add: caller_at_def)
  then have "pc \<in> set (sx_callers x)" by auto
  then show "pc_ok (sx_session x) pc" "since_ok (sx_notes x) pc" using assms(1) by (auto simp: session_inv_def attempts_inv_def notes_inv_def)
  show "attempts_inv (sx_session x) (sx_callers x)" "notes_inv (sx_session x) (sx_callers x) (sx_notes x)" using assms(1) by (simp_all add: session_inv_def)
qed

lemma inv_move:
  assumes "session_inv x" "caller_at x j pc0" "\<And>k. owns_attempt k pc = owns_attempt k pc0" "pc_ok (sx_session x) pc" "since_ok (sx_notes x) pc"
  shows "session_inv (move_caller j pc x)"
proof -
  note c = caller_facts [OF assms(1,2)]
  have "attempts_inv (sx_session x) ((sx_callers x)[j := pc])" by (rule attempts_inv_move [OF c(5,1)]) (use assms(3,4) c(2) in simp_all)
  moreover have "notes_inv (sx_session x) ((sx_callers x)[j := pc]) (sx_notes x)"
    by (rule notes_inv_quiet [OF c(6)]) (use assms(5) c(6) set_update_subset_insert [of "sx_callers x" j pc] in \<open>auto simp: notes_inv_def\<close>)
  ultimately show ?thesis by (simp add: session_inv_def move_caller_def)
qed

text \<open>A caller moves together with a section that changes neither the settings' versions nor their channel.\<close>

lemma inv_move_section:
  assumes "session_inv x" "caller_at x j pc0" "attempts_inv s ((sx_callers x)[j := pc])" "ns_closed s = ns_closed (sx_session x)"
    "ns_channel s = ns_channel (sx_session x)" "ns_version s = ns_version (sx_session x)" "since_ok (sx_notes x) pc"
  shows "session_inv (move_caller j pc (with_session s x))"
proof -
  note c = caller_facts [OF assms(1,2)]
  have "notes_inv s ((sx_callers x)[j := pc]) (sx_notes x)"
    by (rule notes_inv_quiet [OF c(6)]) (use assms(4-7) c(6) set_update_subset_insert [of "sx_callers x" j pc] in \<open>auto simp: notes_inv_def\<close>)
  then show ?thesis using assms(3) by (simp add: session_inv_def move_caller_def with_session_def)
qed

lemma inv_session:
  assumes "session_inv x" "attempts_inv s (sx_callers x)" "ns_closed s = rev [0..<ns_channel s]" "ns_version s = ns_version (sx_session x)"
  shows "session_inv (with_session s x)"
  using assms notes_inv_quiet [of "sx_session x" "sx_callers x" "sx_notes x" s "sx_callers x"] by (simp add: session_inv_def with_session_def)

lemma inv_receive_note: "session_inv x \<Longrightarrow> session_inv (receive_sys name params x)"
  using attempts_inv_same [OF _ kept_sections(1,2)] notes_inv_receive by (auto simp: session_inv_def receive_sys_def)

lemma move_receive: "move_caller j pc (receive_sys name params x) = receive_sys name params (move_caller j pc x)"
  by (cases x) (simp add: move_caller_def receive_sys_def)

lemma since_ok_done [simp]: "since_ok ns (after_attach t k err goal)" "owns_attempt i (after_attach t k err goal) = False"
  by (simp_all add: after_attach_def split: option.split)

lemma attach_begin_fields:
  "attach_begin t s = (s', k, own) \<Longrightarrow> ns_closed s' = ns_closed s \<and> ns_channel s' = ns_channel s \<and> ns_version s' = ns_version s"
  by (auto simp: attach_begin_def Let_def split: option.splits)

lemma attach_sections_fields:
  "ns_closed (attach_settle t k answer s) = ns_closed s" "ns_channel (attach_settle t k answer s) = ns_channel s"
  "ns_version (attach_settle t k answer s) = ns_version s" "ns_closed (attach_close k s) = ns_closed s"
  "ns_channel (attach_close k s) = ns_channel s" "ns_version (attach_close k s) = ns_version s"
  by (simp_all add: attach_settle_def attach_close_def set_error_def Let_def split: sum.split)

lemma inv_session_step:
  assumes "session_inv x" "session_step x y"
  shows "session_inv y"
  using assms(2)
proof (cases rule: session_step.cases)
  case (calls_attach t)
  then show ?thesis using assms(1) attempts_inv_new [of "sx_session x" "sx_callers x" "Attaching t None"] by (auto simp: session_inv_def notes_inv_def)
next
  case (calls_update t patch)
  then show ?thesis using assms(1) attempts_inv_new [of "sx_session x" "sx_callers x" "Checking t patch"] by (auto simp: session_inv_def notes_inv_def)
next
  case (checks j t patch models current)
  show ?thesis unfolding checks(1) by (rule inv_move [OF assms(1) checks(2)]) (simp_all split: option.split)
next
  case (attaches j t goal s k own)
  note c = caller_facts [OF assms(1) attaches(2)]
  show ?thesis unfolding attaches(1)
    by (rule inv_move_section [OF assms(1) attaches(2)]) (use attempts_inv_begin [OF c(5,1,2) attaches(3)] attach_begin_fields [OF attaches(3)] in auto)
next
  case (waits j t k goal)
  note c = caller_facts [OF assms(1) waits(2)]
  have k: "k < length (ns_attempts (sx_session x))" using c(3) by simp
  then have "at_done (ns_attempts (sx_session x) ! k) + owners k (sx_callers x) = 1" using c(5) by (simp add: attempts_inv_def)
  then have "at_done (ns_attempts (sx_session x) ! k) = 1" using waits(3) by linarith
  then have "pc_ok (sx_session x) (after_attach t k (at_err (ns_attempts (sx_session x) ! k)) goal)"
    using k by (simp add: after_attach_def split: option.split)
  then show ?thesis unfolding waits(1) by (intro inv_move [OF assms(1) waits(2)]) simp_all
next
  case (resumed j t k goal answer)
  show ?thesis unfolding resumed(1) by (rule inv_move [OF assms(1) resumed(2)]) (use caller_facts(3) [OF assms(1) resumed(2)] in simp_all)
next
  case (settles j t k answer goal)
  note c = caller_facts [OF assms(1) settles(2)]
  show ?thesis unfolding settles(1)
    by (rule inv_move_section [OF assms(1) settles(2)]) (use attempts_inv_settle [OF c(5,1,2)] attach_sections_fields in simp_all)
next
  case (closes j t k err goal)
  note c = caller_facts [OF assms(1) closes(2)]
  show ?thesis unfolding closes(1)
    by (rule inv_move_section [OF assms(1) closes(2)]) (use attempts_inv_close [OF c(5,1,2)] attach_sections_fields in simp_all)
next
  case (captures j t patch)
  have "since_ok (sx_notes x) (Requesting t patch (ns_version (sx_session x) t) (ns_attached (sx_session x) t) (length (sx_notes x)))"
    using caller_facts(6) [OF assms(1) captures(2)] by (simp add: seen_at_def notes_inv_def)
  then show ?thesis unfolding captures(1) by (intro inv_move [OF assms(1) captures(2)]) simp_all
next
  case (requested j t patch v att n answer)
  have s: "seen_at t v n (sx_notes x)" using caller_facts(4) [OF assms(1) requested(2)] by simp
  show ?thesis unfolding requested(1)
    by (rule inv_move [OF assms(1) requested(2)]) (use s in \<open>simp_all add: settings_answer_def split: sum.split option.split\<close>)
next
  case (reports j t patch v att n params)
  have s: "seen_at t v n (sx_notes x)" using caller_facts(4) [OF assms(1) reports(2)] by simp
  have "session_inv (move_caller j (Confirming t patch v att n) x)" by (rule inv_move [OF assms(1) reports(2)]) (use s in simp_all)
  then show ?thesis unfolding reports(1) move_receive by (rule inv_receive_note)
next
  case (confirms j t patch v att n)
  have s: "seen_at t v n (sx_notes x)" using caller_facts(4) [OF assms(1) confirms(2)] by simp
  show ?thesis unfolding confirms(1)
    by (rule inv_move [OF assms(1) confirms(2)]) (use s in \<open>simp_all add: confirm_pc_def split: confirm.split\<close>)
next
  case (wakes j t patch v att n c)
  show ?thesis unfolding wakes(1) by (rule inv_move [OF assms(1) wakes(2)]) (use caller_facts(4) [OF assms(1) wakes(2)] in simp_all)
next
  case (times_out j t patch v att n c)
  show ?thesis unfolding times_out(1) by (rule inv_move [OF assms(1) times_out(2)]) simp_all
next
  case (receives name params)
  then show ?thesis using inv_receive_note [OF assms(1)] by simp
next
  case disconnects
  have a: "attempts_inv (sx_session x) (sx_callers x)" "ns_closed (sx_session x) = rev [0..<ns_channel (sx_session x)]" using assms(1) by (simp_all add: session_inv_def notes_inv_def)
  show ?thesis unfolding disconnects
    by (rule inv_session [OF assms(1) attempts_inv_same [OF a(1) kept_sections(3,4)]]) (use a(2) in \<open>simp_all add: session_Disconnected_def announce_settings_def\<close>)
next
  case (created t result)
  have a: "attempts_inv (sx_session x) (sx_callers x)" "ns_closed (sx_session x) = rev [0..<ns_channel (sx_session x)]" using assms(1) by (simp_all add: session_inv_def notes_inv_def)
  show ?thesis unfolding created
    by (rule inv_session [OF assms(1) attempts_inv_create [OF a(1)]]) (use a(2) in \<open>simp_all add: create_note_def\<close>)
next
  case (archived t)
  have a: "attempts_inv (sx_session x) (sx_callers x)" "ns_closed (sx_session x) = rev [0..<ns_channel (sx_session x)]" using assms(1) by (simp_all add: session_inv_def notes_inv_def)
  show ?thesis unfolding archived
    by (rule inv_session [OF assms(1) attempts_inv_same [OF a(1) kept_sections(5,6)]]) (use a(2) in \<open>simp_all add: forget_task_def\<close>)
qed

lemma session_inv_initial: "session_initial x \<Longrightarrow> session_inv x"
  by (auto simp: session_initial_def session_inv_def attempts_inv_def notes_inv_def NewNativeTaskSession_def count_notes_def)

interpretation session_runs: invariant_system session_initial session_step session_inv
  by unfold_locales (auto intro: session_inv_initial inv_session_step)

subsection \<open>Sharing an attachment\<close>

lemma attempt_facts:
  assumes "session_inv x"
  shows "k < length (ns_attempts (sx_session x)) \<Longrightarrow> at_done (ns_attempts (sx_session x) ! k) \<le> 1"
    "caller_at x i (AttachDone k e) \<Longrightarrow> at_err (ns_attempts (sx_session x) ! k) = e \<and> at_done (ns_attempts (sx_session x) ! k) = 1"
    "ns_attached (sx_session x) t = Some k \<Longrightarrow> at_done (ns_attempts (sx_session x) ! k) = 1 \<Longrightarrow> at_err (ns_attempts (sx_session x) ! k) = None"
proof -
  have a: "attempts_inv (sx_session x) (sx_callers x)" using assms by (simp add: session_inv_def)
  show "k < length (ns_attempts (sx_session x)) \<Longrightarrow> at_done (ns_attempts (sx_session x) ! k) \<le> 1"
    using a by (metis attempts_inv_def le_add1)
  show "caller_at x i (AttachDone k e) \<Longrightarrow> at_err (ns_attempts (sx_session x) ! k) = e \<and> at_done (ns_attempts (sx_session x) ! k) = 1"
    using caller_facts(3) [OF assms] by fastforce
  show "ns_attached (sx_session x) t = Some k \<Longrightarrow> at_done (ns_attempts (sx_session x) ! k) = 1 \<Longrightarrow> at_err (ns_attempts (sx_session x) ! k) = None"
    using a by (simp add: attempts_inv_def)
qed

text \<open>A waiter is freed by at most three sections of the caller that resumes the task, and its own.\<close>

lemma other_caller:
  assumes "caller_at x i pc0" "i \<noteq> j"
  shows "caller_at (move_caller j pc (with_session s x)) i pc0" "caller_at (move_caller j pc x) i pc0"
  using assms by (simp_all add: caller_at_def move_caller_def with_session_def)

lemma caller_moved: "caller_at x j pc0 \<Longrightarrow> caller_at (move_caller j pc (with_session s x)) j pc" "caller_at x j pc0 \<Longrightarrow> caller_at (move_caller j pc x) j pc"
  by (simp_all add: caller_at_def move_caller_def with_session_def)

lemma closing_frees:
  assumes inv: "session_inv x" and w: "caller_at x i (Waiting t k goal)" and c: "caller_at x j (Closing u k err g)"
  shows "\<exists>y. session_step\<^sup>*\<^sup>* x y \<and> caller_at y i (after_attach t k err goal)"
proof -
  have ij: "i \<noteq> j" using w c by (auto simp: caller_at_def)
  have k: "k < length (ns_attempts (sx_session x))" "at_err (ns_attempts (sx_session x) ! k) = err" using caller_facts(3) [OF inv c] by simp_all
  define x1 where "x1 = move_caller j (after_attach u k err g) (with_session (attach_close k (sx_session x)) x)"
  have step: "session_step x x1" unfolding x1_def by (rule closes [OF c])
  have w1: "caller_at x1 i (Waiting t k goal)" unfolding x1_def by (rule other_caller [OF w ij])
  have d: "0 < at_done (ns_attempts (sx_session x1) ! k)" "at_err (ns_attempts (sx_session x1) ! k) = err"
    using k by (simp_all add: x1_def move_caller_def with_session_def attach_close_def)
  show ?thesis using step waits [OF w1 d(1)] caller_moved(2) [OF w1, of "after_attach t k err goal"] unfolding d(2)
    by (meson converse_rtranclp_into_rtranclp r_into_rtranclp)
qed

lemma settling_frees:
  assumes inv: "session_inv x" and w: "caller_at x i (Waiting t k goal)" and c: "caller_at x j (Settling u k answer g)"
  shows "\<exists>y. session_step\<^sup>*\<^sup>* x y \<and> caller_at y i (after_attach t k (answer_error answer) goal)"
proof -
  have ij: "i \<noteq> j" using w c by (auto simp: caller_at_def)
  have step: "session_step x (move_caller j (Closing u k (answer_error answer) g) (with_session (attach_settle u k answer (sx_session x)) x))"
    by (rule settles [OF c])
  from closing_frees [OF inv_session_step [OF inv step] other_caller(1) [OF w ij] caller_moved(1) [OF c]] step
  show ?thesis by (meson converse_rtranclp_into_rtranclp)
qed

lemma resuming_frees:
  assumes inv: "session_inv x" and w: "caller_at x i (Waiting t k goal)" and c: "caller_at x j (Resuming u k g)"
  shows "\<exists>y. session_step\<^sup>*\<^sup>* x y \<and> caller_at y i (after_attach t k (answer_error answer) goal)"
proof -
  have ij: "i \<noteq> j" using w c by (auto simp: caller_at_def)
  have step: "session_step x (move_caller j (Settling u k answer g) x)" by (rule resumed [OF c])
  from settling_frees [OF inv_session_step [OF inv step] other_caller(2) [OF w ij] caller_moved(2) [OF c]] step
  show ?thesis by (meson converse_rtranclp_into_rtranclp)
qed

lemma owner_exists:
  assumes "session_inv x" "caller_at x i (Waiting t k goal)" "at_done (ns_attempts (sx_session x) ! k) = 0"
  obtains j pc where "caller_at x j pc" "owns_attempt k pc"
proof -
  have k: "k < length (ns_attempts (sx_session x))" using caller_facts(3) [OF assms(1,2)] by simp
  have "owners k (sx_callers x) = 1" using caller_facts(5) [OF assms(1,2)] k assms(3) by (auto simp: attempts_inv_def)
  then have "\<exists>pc \<in> set (sx_callers x). owns_attempt k pc" using holders_none [of "owns_attempt k" "sx_callers x"] by (auto simp: owners_def)
  then show ?thesis using that by (auto simp: caller_at_def in_set_conv_nth)
qed

lemma waiting_returns:
  assumes inv: "session_inv x" and w: "caller_at x i (Waiting t k goal)"
  shows "\<exists>y err. session_step\<^sup>*\<^sup>* x y \<and> caller_at y i (after_attach t k err goal)"
proof (cases "at_done (ns_attempts (sx_session x) ! k) = 0")
  case False
  then show ?thesis using waits [OF w] caller_moved(2) [OF w] by blast
next
  case True
  obtain j pc where c: "caller_at x j pc" "owns_attempt k pc" using owner_exists [OF inv w True] .
  then show ?thesis using closing_frees [OF inv w] settling_frees [OF inv w] resuming_frees [OF inv w]
    by (cases pc) (simp; blast)+
qed

subsection \<open>Confirmed settings\<close>

lemma since_nonempty:
  assumes "seen_at t v n ns" "v \<noteq> of_nat (count_notes t ns)"
  shows "\<exists>c. (t, c) \<in> set (since n ns)"
proof (rule ccontr)
  assume none: "\<nexists>c. (t, c) \<in> set (since n ns)"
  have "ns = since n ns @ drop (length ns - n) ns" by (simp add: since_def)
  then have "count_notes t ns = count_notes t (since n ns) + count_notes t (drop (length ns - n) ns)"
    by (metis count_notes_def filter_append length_append)
  moreover have "count_notes t (since n ns) = 0" using none by (auto simp: count_notes_def filter_empty_conv)
  ultimately show False using assms by (simp add: seen_at_def)
qed

lemma confirmed_evidence:
  assumes "session_inv x" "caller_at x j (Confirming t patch v att n)" "confirm_check t patch v att (sx_session x) = Confirmed"
  shows "\<exists>k c. att = Some k \<and> ns_attached (sx_session x) t = Some k \<and> ns_settings (sx_session x) t = Some c \<and> settingsMatch c patch"
    "\<exists>c. (t, c) \<in> set (since n (sx_notes x))"
proof -
  note f = caller_facts [OF assms(1,2)]
  have c: "att \<noteq> None" "ns_attached (sx_session x) t = att" "v < ns_version (sx_session x) t"
    "case ns_settings (sx_session x) t of None \<Rightarrow> False | Some c \<Rightarrow> settingsMatch c patch"
    using assms(3) by (simp_all add: confirm_check_def Let_def split: if_splits)
  then show "\<exists>k c. att = Some k \<and> ns_attached (sx_session x) t = Some k \<and> ns_settings (sx_session x) t = Some c \<and> settingsMatch c patch"
    by (auto split: option.splits)
  have "ns_version (sx_session x) t = of_nat (count_notes t (sx_notes x))" using f(6) by (simp add: notes_inv_def)
  then have "v \<noteq> of_nat (count_notes t (sx_notes x))" using c(3) by force
  then show "\<exists>c. (t, c) \<in> set (since n (sx_notes x))" using since_nonempty f(4) by simp
qed

subsection \<open>Mutations and shutdown\<close>

definition meta_start :: "native_metadata \<times> meta_pc list \<Rightarrow> bool" where
  "meta_start x \<longleftrightarrow> x = (\<lparr>mt_draining = False, mt_writes = 0\<rparr>, [])"

definition running :: "meta_pc \<Rightarrow> meta_pc list \<Rightarrow> nat" where
  "running pc cs = length (filter (\<lambda>c. c = pc) cs)"

definition meta_inv :: "native_metadata \<times> meta_pc list \<Rightarrow> bool" where
  "meta_inv x \<longleftrightarrow> mt_writes (fst x) = int (running Mutating (snd x)) \<and>
     running Verifying (snd x) + running Drained (snd x) = (if mt_draining (fst x) then 1 else 0) \<and> (mt_draining (fst x) \<longrightarrow> running Mutating (snd x) = 0)"

lemma running_simps [simp]: "running pc [] = 0" "running pc (c # cs) = (if c = pc then Suc (running pc cs) else running pc cs)"
  by (simp_all add: running_def)

lemma running_remove: "c \<in> set cs \<Longrightarrow> running pc cs = running pc (remove1 c cs) + (if c = pc then 1 else 0)"
  by (induction cs) auto

lemma running_pos: "pc \<in> set cs \<longleftrightarrow> 0 < running pc cs"
  by (auto simp: running_def filter_empty_conv)

lemma meta_inv_step:
  assumes "meta_inv x" "meta_step x y"
  shows "meta_inv y"
  using assms(2)
proof (cases rule: meta_step.cases)
  case (mutates m m' cs)
  then show ?thesis using assms(1) by (auto simp: meta_inv_def beginMutation_def split: if_splits)
next
  case (finishes cs m)
  then show ?thesis using assms(1) running_remove [OF finishes(3)] by (auto simp: meta_inv_def finish_mutation_def split: if_splits)
next
  case (prepares m m' cs)
  then show ?thesis using assms(1) by (auto simp: meta_inv_def shutdown_begin_def split: if_splits)
next
  case (verified cs m)
  then show ?thesis using assms(1) running_remove [OF verified(3)] by (auto simp: meta_inv_def split: if_splits)
next
  case (unverified cs m)
  then show ?thesis using assms(1) running_remove [OF unverified(3)] by (auto simp: meta_inv_def shutdown_failed_def split: if_splits)
qed

lemma meta_inv_start: "meta_start x \<Longrightarrow> meta_inv x"
  by (auto simp: meta_start_def meta_inv_def)

interpretation meta_runs: invariant_system meta_start meta_step meta_inv
  using meta_inv_start meta_inv_step by unfold_locales

subsection \<open>Runs of one task\<close>

definition fast_answer :: gval where
  "fast_answer = GMap [(''serviceTier'', GStr ''fast'')]"

definition default_note :: gval where
  "default_note = GMap [(''threadId'', GStr ''t''), (''threadSettings'', GMap [(''model'', GStr ''m''), (''serviceTier'', GNil)])]"

definition fast_settings :: native_settings where
  "fast_settings = \<lparr>nv_Model = None, nv_Effort = None, nv_ServiceTier = Some (Some ''fast'')\<rparr>"

definition default_settings :: native_settings where
  "default_settings = \<lparr>nv_Model = Some ''m'', nv_Effort = None, nv_ServiceTier = Some None\<rparr>"

definition default_patch :: settings_patch where
  "default_patch = \<lparr>p_Model = Some ''m'', p_Effort = None, p_ServiceTier = Some None\<rparr>"

definition sample_model :: model where
  "sample_model = \<lparr>md_ID = ''m'', md_Name = ''m'', md_IsDefault = True, md_ReasoningEfforts = [], md_ServiceTiers = []\<rparr>"

text \<open>The task \<open>t\<close> alone, after \<open>n\<close> settings notifications.\<close>

definition sess :: "session_pc list \<Rightarrow> nat option \<Rightarrow> attempt list \<Rightarrow> native_settings option \<Rightarrow> nat \<Rightarrow> session_sys" where
  "sess cs a ats v n =
     \<lparr>sx_session = \<lparr>ns_attached = (\<lambda>_. None)(''t'' := a), ns_attempts = ats, ns_settings = (\<lambda>_. None)(''t'' := v), ns_usage = (\<lambda>_. None),
        ns_receipts = (\<lambda>_. []), ns_channel = n, ns_closed = rev [0..<n], ns_version = (\<lambda>_. 0)(''t'' := of_nat n)\<rparr>,
      sx_callers = cs, sx_notes = replicate n (''t'', default_settings), sx_changed = replicate n ''t''\<rparr>"

definition open_attempt :: attempt where "open_attempt = \<lparr>at_done = 0, at_err = None\<rparr>"
definition shut_attempt :: attempt where "shut_attempt = \<lparr>at_done = 1, at_err = None\<rparr>"

lemmas sess_defs = sess_def caller_at_def move_caller_def with_session_def open_attempt_def shut_attempt_def

lemma sess_initial: "session_initial (sess [] None [] None 0)"
  by (simp add: session_initial_def sess_def NewNativeTaskSession_def fun_upd_none)

lemma session_reach_step: "session_runs.reach x \<Longrightarrow> session_step x y \<Longrightarrow> session_runs.reach y"
  unfolding session_runs.reach_def by (blast intro: rtranclp.rtrancl_into_rtrancl)

lemma session_reach_steps: "session_step\<^sup>*\<^sup>* x y \<Longrightarrow> session_runs.reach x \<Longrightarrow> session_runs.reach y"
  by (induction rule: rtranclp_induct) (auto intro: session_reach_step)

lemma sess_reads:
  "readNativeSettings fast_answer ''reasoningEffort'' = fast_settings"
  "readNativeSettings (field (fields_of default_note) ''threadSettings'') ''effort'' = default_settings"
  by (simp_all add: fast_answer_def default_note_def fast_settings_def default_settings_def readNativeSettings_def fields_of_def Fields_def field_def
      plain_string_def AsText_def)

lemma sess_begin:
  "session_step (sess cs None [] None 0) (sess (cs @ [Attaching ''t'' None]) None [] None 0)"
  "session_step (sess [Attaching ''t'' goal] None [] None 0) (sess [Resuming ''t'' 0 goal] (Some 0) [open_attempt] None 0)"
  "session_step (sess [Attaching ''t'' g, Attaching ''t'' goal] None [] None 0) (sess [Resuming ''t'' 0 g, Attaching ''t'' goal] (Some 0) [open_attempt] None 0)"
  "session_step (sess [pc, Attaching ''t'' goal] (Some 0) ats v n) (sess [pc, Waiting ''t'' 0 goal] (Some 0) ats v n)"
proof -
  show "session_step (sess cs None [] None 0) (sess (cs @ [Attaching ''t'' None]) None [] None 0)"
    using calls_attach [of "sess cs None [] None 0" "''t''"] by (simp add: sess_defs)
  show "session_step (sess [Attaching ''t'' goal] None [] None 0) (sess [Resuming ''t'' 0 goal] (Some 0) [open_attempt] None 0)"
    using attaches [of "sess [Attaching ''t'' goal] None [] None 0" 0 "''t''" goal] by (simp add: sess_defs attach_begin_def new_attempt_def Let_def)
  show "session_step (sess [Attaching ''t'' g, Attaching ''t'' goal] None [] None 0) (sess [Resuming ''t'' 0 g, Attaching ''t'' goal] (Some 0) [open_attempt] None 0)"
    using attaches [of "sess [Attaching ''t'' g, Attaching ''t'' goal] None [] None 0" 0 "''t''" g] by (simp add: sess_defs attach_begin_def new_attempt_def Let_def)
  show "session_step (sess [pc, Attaching ''t'' goal] (Some 0) ats v n) (sess [pc, Waiting ''t'' 0 goal] (Some 0) ats v n)"
    using attaches [of "sess [pc, Attaching ''t'' goal] (Some 0) ats v n" 1 "''t''" goal "sx_session (sess [pc, Attaching ''t'' goal] (Some 0) ats v n)" 0 False] by (simp add: sess_defs attach_begin_def)
qed

lemma sess_resume:
  "session_step (sess [Resuming ''t'' 0 goal] a ats v n) (sess [Settling ''t'' 0 answer goal] a ats v n)"
  "session_step (sess [Settling ''t'' 0 (Inr fast_answer) goal] a [open_attempt] v n) (sess [Closing ''t'' 0 None goal] a [open_attempt] (Some fast_settings) n)"
  "session_step (sess [Closing ''t'' 0 None goal] a [open_attempt] v n) (sess [after_attach ''t'' 0 None goal] a [shut_attempt] v n)"
proof -
  show "session_step (sess [Resuming ''t'' 0 goal] a ats v n) (sess [Settling ''t'' 0 answer goal] a ats v n)"
    using resumed [of "sess [Resuming ''t'' 0 goal] a ats v n" 0 "''t''" 0 goal answer] by (simp add: sess_defs)
  show "session_step (sess [Settling ''t'' 0 (Inr fast_answer) goal] a [open_attempt] v n) (sess [Closing ''t'' 0 None goal] a [open_attempt] (Some fast_settings) n)"
    using settles [of "sess [Settling ''t'' 0 (Inr fast_answer) goal] a [open_attempt] v n" 0 "''t''" 0 "Inr fast_answer" goal]
    by (simp add: sess_defs attach_settle_def answer_error_def set_error_def sess_reads)
  show "session_step (sess [Closing ''t'' 0 None goal] a [open_attempt] v n) (sess [after_attach ''t'' 0 None goal] a [shut_attempt] v n)"
    using closes [of "sess [Closing ''t'' 0 None goal] a [open_attempt] v n" 0 "''t''" 0 None goal] by (simp add: sess_defs attach_close_def)
qed

lemma sess_receive: "receive_sys ''thread/settings/updated'' default_note (sess cs (Some k) ats v n) = sess cs (Some k) ats (Some default_settings) (Suc n)"
proof -
  have f: "Fields default_note = Some (fields_of default_note)" "notified_task (fields_of default_note) = ''t''"
    by (simp_all add: default_note_def notified_task_def fields_of_def Fields_def field_def Text_def AsText_def)
  have r: "reported_settings ''thread/settings/updated'' (fields_of default_note) = Some default_settings"
    by (simp add: reported_settings_def sess_reads) (simp add: default_note_def fields_of_def Fields_def field_def)
  have "receive_note ''thread/settings/updated'' default_note (sx_session (sess cs (Some k) ats v n)) =
      (record_settings ''t'' default_settings (sx_session (sess cs (Some k) ats v n)), Some ''t'')"
    by (simp add: receive_note_def f r sess_def Let_def)
  then show ?thesis by (simp add: receive_sys_def noted_def r record_settings_def announce_settings_def sess_def add.commute)
qed

lemma sess_waiting: "session_runs.reach (sess [Resuming ''t'' 0 None, Waiting ''t'' 0 None] (Some 0) [open_attempt] None 0)"
proof -
  have "session_runs.reach (sess [] None [] None 0)" using sess_initial unfolding session_runs.reach_def by blast
  from session_reach_step [OF this sess_begin(1)] have "session_runs.reach (sess [Attaching ''t'' None] None [] None 0)" by simp
  from session_reach_step [OF this sess_begin(1)] have "session_runs.reach (sess [Attaching ''t'' None, Attaching ''t'' None] None [] None 0)" by simp
  from session_reach_step [OF session_reach_step [OF this sess_begin(3)] sess_begin(4)] show ?thesis .
qed

text \<open>One caller resumes the task; its answer has arrived when a notification reports newer settings.\<close>

lemma sess_answered: "session_runs.reach (sess [Settling ''t'' 0 (Inr fast_answer) None] (Some 0) [open_attempt] None 0)"
proof -
  have "session_runs.reach (sess [] None [] None 0)" using sess_initial unfolding session_runs.reach_def by blast
  from session_reach_step [OF this sess_begin(1)] have "session_runs.reach (sess [Attaching ''t'' None] None [] None 0)" by simp
  from session_reach_step [OF session_reach_step [OF this sess_begin(2)] sess_resume(1)] show ?thesis .
qed

lemma sess_settled:
  assumes "session_step\<^sup>*\<^sup>* x (sess [Settling ''t'' 0 (Inr fast_answer) goal] (Some 0) [open_attempt] v n)"
  shows "session_step\<^sup>*\<^sup>* x (sess [after_attach ''t'' 0 None goal] (Some 0) [shut_attempt] (Some fast_settings) n)"
  using assms sess_resume(2) [of goal "Some 0" v n] sess_resume(3) [of goal "Some 0" "Some fast_settings" n] by (meson rtranclp.rtrancl_into_rtrancl)

lemma sess_stale:
  "session_step\<^sup>*\<^sup>* (sess [Settling ''t'' 0 (Inr fast_answer) None] (Some 0) [open_attempt] None 0)
     (sess [AttachDone 0 None] (Some 0) [shut_attempt] (Some fast_settings) 1)"
proof -
  have "session_step (sess [Settling ''t'' 0 (Inr fast_answer) None] (Some 0) [open_attempt] None 0)
      (sess [Settling ''t'' 0 (Inr fast_answer) None] (Some 0) [open_attempt] (Some default_settings) 1)"
    using receives [of _ "''thread/settings/updated''" default_note] by (metis One_nat_def sess_receive)
  from sess_settled [OF r_into_rtranclp [where r = session_step, OF this]] show ?thesis by (simp add: after_attach_def)
qed

lemma sess_stale_reach: "session_runs.reach (sess [AttachDone 0 None] (Some 0) [shut_attempt] (Some fast_settings) 1)"
  by (rule session_reach_steps [OF sess_stale sess_answered])

text \<open>A change of the settings, up to the reported evidence.\<close>

lemma sess_update:
  "session_step (sess [] None [] None 0) (sess [Checking ''t'' default_patch] None [] None 0)"
  "session_step (sess [Checking ''t'' default_patch] None [] None 0) (sess [Attaching ''t'' (Some default_patch)] None [] None 0)"
  "session_step (sess [Capturing ''t'' default_patch] (Some 0) ats v 0) (sess [Requesting ''t'' default_patch 0 (Some 0) 0] (Some 0) ats v 0)"
  "session_step (sess [Requesting ''t'' default_patch 0 (Some 0) 0] (Some 0) ats v 0) (sess [Confirming ''t'' default_patch 0 (Some 0) 0] (Some 0) ats v 0)"
proof -
  have short: "utf16Len ''m'' \<le> 128" by (simp add: utf16Len_ascii)
  have check: "update_check default_patch (Inr [sample_model]) (Inr GNil) = None"
    by (simp add: update_check_def needs_current_def ValidateSettings_def default_patch_def settings_shape_def bounded_setting_def sample_model_def short)
  show "session_step (sess [] None [] None 0) (sess [Checking ''t'' default_patch] None [] None 0)"
    using calls_update [of "sess [] None [] None 0" "''t''" default_patch] by (simp add: sess_defs)
  show "session_step (sess [Checking ''t'' default_patch] None [] None 0) (sess [Attaching ''t'' (Some default_patch)] None [] None 0)"
    using checks [of "sess [Checking ''t'' default_patch] None [] None 0" 0 "''t''" default_patch "Inr [sample_model]" "Inr GNil"]
    by (simp add: sess_defs check)
  show "session_step (sess [Capturing ''t'' default_patch] (Some 0) ats v 0) (sess [Requesting ''t'' default_patch 0 (Some 0) 0] (Some 0) ats v 0)"
    using captures [of "sess [Capturing ''t'' default_patch] (Some 0) ats v 0" 0 "''t''" default_patch] by (simp add: sess_defs)
  show "session_step (sess [Requesting ''t'' default_patch 0 (Some 0) 0] (Some 0) ats v 0) (sess [Confirming ''t'' default_patch 0 (Some 0) 0] (Some 0) ats v 0)"
    using requested [of "sess [Requesting ''t'' default_patch 0 (Some 0) 0] (Some 0) ats v 0" 0 "''t''" default_patch 0 "Some 0" 0 "Inr GNil"]
    by (simp add: sess_defs settings_answer_def update_report_def fields_of_def Fields_def field_def)
qed

lemma sess_confirming: "session_runs.reach (sess [Confirming ''t'' default_patch 0 (Some 0) 0] (Some 0) [shut_attempt] (Some default_settings) 1)"
proof -
  let ?w = "sess [Settling ''t'' 0 (Inr fast_answer) (Some default_patch)] (Some 0) [open_attempt] None 0"
  let ?y = "sess [Confirming ''t'' default_patch 0 (Some 0) 0] (Some 0) [shut_attempt] (Some fast_settings) 0"
  have "session_runs.reach (sess [] None [] None 0)" using sess_initial unfolding session_runs.reach_def by blast
  then have "session_runs.reach ?w" using sess_update(1,2) sess_begin(2) sess_resume(1) by (meson session_reach_step)
  moreover have "session_step\<^sup>*\<^sup>* ?w (sess [Capturing ''t'' default_patch] (Some 0) [shut_attempt] (Some fast_settings) 0)"
    using sess_settled [OF rtranclp.rtrancl_refl, of "Some default_patch" None 0] by (simp add: after_attach_def)
  ultimately have "session_runs.reach ?y" using sess_update(3,4) by (meson session_reach_step session_reach_steps)
  moreover have "session_step ?y (sess [Confirming ''t'' default_patch 0 (Some 0) 0] (Some 0) [shut_attempt] (Some default_settings) 1)"
    using receives [of ?y "''thread/settings/updated''" default_note] by (simp add: sess_receive)
  ultimately show ?thesis by (rule session_reach_step)
qed

subsection \<open>The properties\<close>

text \<open>
  C29. However attachments, notifications, archiving and a lost connection interleave, the channel of an
  attachment is closed at most once, all callers of the attachment return the same error, a task that stays
  attached after its attempt ended was attached successfully, and no settings channel is closed twice.
\<close>

theorem attach_shared:
  assumes "session_runs.reach x"
  shows "(\<forall>k < length (ns_attempts (sx_session x)). at_done (ns_attempts (sx_session x) ! k) \<le> 1) \<and>
    (\<forall>i j k e e'. caller_at x i (AttachDone k e) \<and> caller_at x j (AttachDone k e') \<longrightarrow> e = e') \<and>
    (\<forall>t k. ns_attached (sx_session x) t = Some k \<and> at_done (ns_attempts (sx_session x) ! k) = 1 \<longrightarrow> at_err (ns_attempts (sx_session x) ! k) = None) \<and>
    distinct (ns_closed (sx_session x))"
proof -
  have inv: "session_inv x" by (rule session_runs.inv_reach [OF assms])
  have "ns_closed (sx_session x) = rev [0..<ns_channel (sx_session x)]" using inv by (simp add: session_inv_def notes_inv_def)
  then have "distinct (ns_closed (sx_session x))" by simp
  then show ?thesis using attempt_facts [OF inv] by blast
qed

theorem attach_shared_witness:
  "at_done (ns_attempts (sx_session (sess [AttachDone 0 None] (Some 0) [shut_attempt] (Some fast_settings) 1)) ! 0) \<le> 1 \<and>
   distinct (ns_closed (sx_session (sess [AttachDone 0 None] (Some 0) [shut_attempt] (Some fast_settings) 1)))"
proof -
  have "0 < length (ns_attempts (sx_session (sess [AttachDone 0 None] (Some 0) [shut_attempt] (Some fast_settings) 1)))" by (simp add: sess_def)
  then show ?thesis using attach_shared [OF sess_stale_reach] by blast
qed

text \<open>
  C30. Nobody waits on an attachment that nobody finishes: from every reachable state, sections of the callers in
  progress lead a caller that waits on a shared attempt out of \<open>Attach\<close>, with an error or on to its goal.
\<close>

theorem waiting_attach_returns:
  assumes "session_runs.reach x" "caller_at x i (Waiting t k goal)"
  shows "\<exists>y err. session_step\<^sup>*\<^sup>* x y \<and> caller_at y i (after_attach t k err goal)"
  by (rule waiting_returns [OF session_runs.inv_reach [OF assms(1)] assms(2)])

theorem waiting_attach_returns_witness:
  "\<exists>y err. session_step\<^sup>*\<^sup>* (sess [Resuming ''t'' 0 None, Waiting ''t'' 0 None] (Some 0) [open_attempt] None 0) y \<and> caller_at y 1 (AttachDone 0 err)"
  using waiting_attach_returns [OF sess_waiting, of 1 "''t''" 0 None] by (simp add: caller_at_def sess_def after_attach_def)

text \<open>
  C31. A settings change is confirmed only by native evidence: when \<open>applySettings\<close> reports success, the task is
  still attached by the attempt the change was made on, the recorded settings match the patch, and a
  notification reported settings of this task after the version was read.
\<close>

theorem confirmed_settings:
  assumes "session_runs.reach x" "caller_at x j (Confirming t patch v att n)" "confirm_pc t patch v att n (sx_session x) = UpdateDone None"
  shows "(\<exists>k c. att = Some k \<and> ns_attached (sx_session x) t = Some k \<and> ns_settings (sx_session x) t = Some c \<and> settingsMatch c patch) \<and>
    (\<exists>c. (t, c) \<in> set (since n (sx_notes x)))"
proof -
  have "confirm_check t patch v att (sx_session x) = Confirmed" using assms(3) by (simp add: confirm_pc_def split: confirm.splits)
  then show ?thesis using confirmed_evidence [OF session_runs.inv_reach [OF assms(1)] assms(2)] by blast
qed

theorem confirmed_settings_witness:
  "\<exists>c. (''t'', c) \<in> set (since 0 (sx_notes (sess [Confirming ''t'' default_patch 0 (Some 0) 0] (Some 0) [shut_attempt] (Some default_settings) 1)))"
proof -
  have "settingsMatch default_settings default_patch" by (simp add: settingsMatch_def default_settings_def default_patch_def)
  then have "confirm_pc ''t'' default_patch 0 (Some 0) 0 (sx_session (sess [Confirming ''t'' default_patch 0 (Some 0) 0] (Some 0) [shut_attempt] (Some default_settings) 1)) =
      UpdateDone None"
    by (simp add: confirm_pc_def confirm_check_def sess_def)
  from confirmed_settings [OF sess_confirming _ this, of 0] show ?thesis by (simp add: caller_at_def sess_def)
qed

text \<open>
  C32. A resume answer that arrived before a settings notification, but is recorded after it, overwrites the newer
  settings: the task then starts turns with the service tier of the old answer, although the last evidence from
  the host says the default tier.
\<close>

theorem stale_resume_overwrites:
  "\<exists>x y v w. session_runs.reach x \<and> sx_callers x = [Settling ''t'' 0 (Inr fast_answer) None] \<and> sx_notes x = [] \<and>
     session_step\<^sup>*\<^sup>* x y \<and> sx_callers y = [AttachDone 0 None] \<and> sx_notes y = [(''t'', v)] \<and> nv_ServiceTier v = Some None \<and>
     ns_settings (sx_session y) ''t'' = Some w \<and> nv_ServiceTier w = Some (Some ''fast'') \<and>
     map_of (fields_of (start_turn_params ''t'' [] ''c'' (sx_session y))) ''serviceTier'' = Some (GStr ''fast'')"
proof (intro exI conjI)
  show "session_runs.reach (sess [Settling ''t'' 0 (Inr fast_answer) None] (Some 0) [open_attempt] None 0)" by (rule sess_answered)
  show "session_step\<^sup>*\<^sup>* (sess [Settling ''t'' 0 (Inr fast_answer) None] (Some 0) [open_attempt] None 0)
      (sess [AttachDone 0 None] (Some 0) [shut_attempt] (Some fast_settings) 1)" by (rule sess_stale)
  show "nv_ServiceTier default_settings = Some None" "nv_ServiceTier fast_settings = Some (Some ''fast'')"
    by (simp_all add: default_settings_def fast_settings_def)
  show "map_of (fields_of (start_turn_params ''t'' [] ''c'' (sx_session (sess [AttachDone 0 None] (Some 0) [shut_attempt] (Some fast_settings) 1)))) ''serviceTier'' =
      Some (GStr ''fast'')"
    by (simp add: start_turn_params_def sess_def fast_settings_def fields_of_def Fields_def)
qed (simp_all add: sess_def)

text \<open>
  C33. The auxiliary service never prepares its shutdown while a rename or an archive is running: once it is
  draining no mutation is in progress, at most one shutdown verification runs, and the counter of mutations is
  exactly the number of those in progress.
\<close>

theorem shutdown_excludes_mutations:
  assumes "meta_runs.reach (m, cs)"
  shows "(Verifying \<in> set cs \<or> Drained \<in> set cs \<longrightarrow> mt_draining m \<and> Mutating \<notin> set cs \<and> beginMutation m = None) \<and>
    length (filter (\<lambda>c. c = Verifying) cs) \<le> 1 \<and> mt_writes m = int (length (filter (\<lambda>c. c = Mutating) cs))"
proof -
  have "meta_inv (m, cs)" by (rule meta_runs.inv_reach [OF assms])
  then show ?thesis by (auto simp: meta_inv_def running_pos beginMutation_def simp flip: running_def split: if_splits)
qed

theorem shutdown_excludes_mutations_witness:
  "mt_writes \<lparr>mt_draining = False, mt_writes = 1\<rparr> = int (length (filter (\<lambda>c. c = Mutating) [Mutating]))"
proof -
  have "meta_step (\<lparr>mt_draining = False, mt_writes = 0\<rparr>, []) (\<lparr>mt_draining = False, mt_writes = 1\<rparr>, [Mutating])"
    by (rule mutates) (simp add: beginMutation_def)
  then have "meta_runs.reach (\<lparr>mt_draining = False, mt_writes = 1\<rparr>, [Mutating])" by (auto simp: meta_runs.reach_def meta_start_def)
  from shutdown_excludes_mutations [OF this] show ?thesis by blast
qed

end
