(* ===== verification/NativeHistory.thy ===== *)
theory NativeHistory
  imports NativeSession Pages History "HOL-Library.List_Lexorder"
begin

text \<open>
  History read through the native host (\<open>internal/codex/history.go\<close>) and the account's usage
  (\<open>internal/codex/usage.go\<close>). \<open>answers n\<close> is the answer of the \<open>n\<close>-th request of a call, \<open>ctx n\<close> is \<open>ctx.Err()\<close> after \<open>n\<close> requests;
  \<open>json.Unmarshal\<close> of a cursor is an argument.
\<close>

subsection \<open>Cursors\<close>

record rpc_cursor =
  hc_ID :: string
  hc_Store :: string
  hc_After :: string

definition historyRPCPrefix :: string where
  "historyRPCPrefix = ''filo.native.rpc.''"

definition rpc_cursor_json :: "rpc_cursor \<Rightarrow> string" where
  "rpc_cursor_json c =
     go_json_object [go_member ''id'' (go_quote (hc_ID c)), go_member ''store'' (go_quote (hc_Store c)), go_member ''after'' (go_quote (hc_After c))]"

definition encodeHistoryCursor :: "string \<Rightarrow> string \<Rightarrow> string \<Rightarrow> string" where
  "encodeHistoryCursor ident store after =
     historyRPCPrefix @ b64_encode (map byte_of (rpc_cursor_json \<lparr>hc_ID = ident, hc_Store = store, hc_After = after\<rparr>))"

definition HistoryStartCursor :: "string \<Rightarrow> string \<Rightarrow> string" where
  "HistoryStartCursor home ident = encodeHistoryCursor ident (sha256_hex home) []"

text \<open>The cursor a call continues from; \<open>None\<close> is an invalid cursor.\<close>

definition history_after :: "(string \<Rightarrow> rpc_cursor option) \<Rightarrow> string \<Rightarrow> string \<Rightarrow> string \<Rightarrow> string option" where
  "history_after unmarshal home ident cursor =
     (if cursor = [] then Some []
      else if 2048 < length cursor \<or> take (length historyRPCPrefix) cursor \<noteq> historyRPCPrefix then None
      else case Option.bind (b64_decode (drop (length historyRPCPrefix) cursor)) unmarshal of
        None \<Rightarrow> None
      | Some token \<Rightarrow> if hc_ID token \<noteq> ident \<or> hc_Store token \<noteq> sha256_hex home then None else Some (hc_After token))"

subsection \<open>Answers of the host\<close>

definition historyData :: "gval \<Rightarrow> nat \<Rightarrow> (gval list \<times> string) option" where
  "historyData value limit =
     (case Fields value of
        None \<Rightarrow> None
      | Some ps \<Rightarrow>
          (case (field ps ''data'', map_of ps ''nextCursor'') of
             (GArr data, Some next) \<Rightarrow>
               if limit < length data \<or> next \<noteq> GNil \<and> (AsText next = None \<or> AsText next = Some []) then None else Some (data, Text next)
           | _ \<Rightarrow> None))"

definition history_status :: "props \<Rightarrow> string" where
  "history_status thread = (let s = Text (field (fields_of (field thread ''status'')) ''type'') in if s = [] then ''notLoaded'' else s)"

definition turn_ended :: "props \<Rightarrow> bool" where
  "turn_ended turn \<longleftrightarrow> Text (field turn ''status'') \<in> {''completed'', ''failed'', ''interrupted''}"

definition historyRuntime :: "props \<Rightarrow> props option \<Rightarrow> page_runtime" where
  "historyRuntime thread latest =
     (let status = history_status thread; tier = optionalNullableText thread ''serviceTier'';
          own = Text (field thread ''name''); title = (if own = [] then Text (field thread ''preview'') else own)
      in \<lparr>r_Status = (case latest of Some turn \<Rightarrow> if turn_ended turn \<and> status = ''notLoaded'' then ''idle'' else status | None \<Rightarrow> status),
          r_ActiveTurnID = (case latest of
             Some turn \<Rightarrow> if Text (field turn ''status'') = ''inProgress'' \<and> status = ''active'' then Some (Text (field turn ''id'')) else None
           | None \<Rightarrow> None),
          r_Model = AsText (field thread ''model''), r_ContextTokens = None, r_ContextWindow = None,
          r_CompletedTurnID = (case latest of Some turn \<Rightarrow> Some (if turn_ended turn then Some (Text (field turn ''id'')) else None) | None \<Rightarrow> None),
          r_Effort = optionalNullableText thread ''reasoningEffort'', r_ServiceTier = tier, rt_Title = Some title, rt_SettingsChange = None,
          rt_ActiveTurnHasUserMessage = None, rt_ServiceTierKnown = (if tier = None then None else Some True)\<rparr>)"

subsection \<open>Receipts\<close>

text \<open>The turn, the item and its identity, if a row is valid.\<close>

definition history_row :: "gval \<Rightarrow> (string \<times> props \<times> string) option" where
  "history_row raw =
     (let row = fields_of raw; turn = Text (field row ''turnId'')
      in case Fields (field row ''item'') of
           None \<Rightarrow> None
         | Some item \<Rightarrow> (let i = Text (field item ''id'') in if turn = [] \<or> i = [] then None else Some (turn, item, i)))"

record receipt_scan =
  rs_count :: nat
  rs_items :: "string list"
  rs_receipts :: "receipt list"

definition receiptItems :: nat where
  "receiptItems = 128"

definition row_receipts :: "string \<times> props \<times> string \<Rightarrow> receipt list" where
  "row_receipts r =
     (case r of (turn, item, i) \<Rightarrow>
        if Text (field item ''type'') = ''userMessage''
        then [\<lparr>Kind = [], State = [], ClientID = Text (field item ''clientId''), TurnID = turn, MessageID = i\<rparr>] else [])"

definition scan_row :: "string \<times> props \<times> string \<Rightarrow> receipt_scan \<Rightarrow> receipt_scan" where
  "scan_row r st = \<lparr>rs_count = Suc (rs_count st), rs_items = snd (snd r) # rs_items st, rs_receipts = rs_receipts st @ row_receipts r\<rparr>"

fun receipt_rows :: "gval list \<Rightarrow> receipt_scan \<Rightarrow> receipt_scan option" where
  "receipt_rows [] st = Some st"
| "receipt_rows (raw # rest) st =
     (case history_row raw of
        None \<Rightarrow> None
      | Some r \<Rightarrow>
          if snd (snd r) \<in> set (rs_items st) then None
          else if rs_count (scan_row r st) = receiptItems then Some (scan_row r st)
          else receipt_rows rest (scan_row r st))"

datatype 'e rpc_history_error = HAsk 'e | HInvalid string

definition items_params :: "string \<Rightarrow> string option \<Rightarrow> props" where
  "items_params ident after =
     [(''threadId'', GStr ident), (''limit'', GNum (Fin 16)), (''sortDirection'', GStr ''desc'')] @
     (case after of None \<Rightarrow> [] | Some c \<Rightarrow> [(''cursor'', GStr c)])"

definition items_page :: "(nat \<Rightarrow> string \<Rightarrow> props \<Rightarrow> 'e + gval) \<Rightarrow> nat \<Rightarrow> string \<Rightarrow> string option \<Rightarrow> 'e rpc_history_error + gval list \<times> string" where
  "items_page answers n ident after =
     (case answers n ''thread/items/list'' (items_params ident after) of
        Inl e \<Rightarrow> Inl (HAsk e)
      | Inr v \<Rightarrow> (case historyData v 16 of None \<Rightarrow> Inl (HInvalid ''Invalid native history page'') | Some page \<Rightarrow> Inr page))"

lemma receipt_rows_count: "receipt_rows rows st = Some st' \<Longrightarrow> rs_count st \<le> rs_count st' \<and> (rows \<noteq> [] \<longrightarrow> rs_count st < rs_count st')"
  by (induction rows st rule: receipt_rows.induct) (fastforce simp: scan_row_def Let_def split: option.splits if_splits)+

text \<open>The loop of \<open>historyInputReceipts\<close>; the result comes with the number of requests made.\<close>

function receipts_loop ::
  "(nat \<Rightarrow> string \<Rightarrow> props \<Rightarrow> 'e + gval) \<Rightarrow> string \<Rightarrow> nat \<Rightarrow> receipt_scan \<Rightarrow> gval list option \<Rightarrow> string \<Rightarrow> string \<Rightarrow> string list \<Rightarrow>
     nat \<times> ('e rpc_history_error + receipt_scan)" where
  "receipts_loop answers ident n st rows after next' cursors =
     (if receiptItems \<le> rs_count st then (n, Inr st)
      else
        case (case rows of
                Some rs \<Rightarrow> if rs_count st = 0 then (n, Inr (rs, next')) else (Suc n, items_page answers n ident (Some after))
              | None \<Rightarrow> (Suc n, items_page answers n ident (if rs_count st = 0 then None else Some after))) of
          (m, Inl e) \<Rightarrow> (m, Inl e)
        | (m, Inr (rs, nxt)) \<Rightarrow>
            if nxt \<noteq> [] \<and> (nxt = after \<or> nxt \<in> set cursors \<or> 2048 < length nxt \<or> rs = [])
            then (m, Inl (HInvalid ''Native history receipt pagination did not advance''))
            else
              (case receipt_rows rs st of
                 None \<Rightarrow> (m, Inl (HInvalid ''Invalid native history receipt item identity''))
               | Some st' \<Rightarrow>
                   if nxt = [] \<or> rs_count st' = receiptItems then (m, Inr st')
                   else receipts_loop answers ident m st' (Some rs) nxt nxt (nxt # cursors)))"
  by pat_completeness auto
termination
proof (relation "measure (\<lambda>(answers, ident, n, st, rows, after, next', cursors). receiptItems - rs_count st)")
  show "wf (measure (\<lambda>(answers :: nat \<Rightarrow> string \<Rightarrow> props \<Rightarrow> 'e + gval, ident :: string, n :: nat, st, rows :: gval list option, after :: string, next' :: string, cursors :: string list).
      receiptItems - rs_count st))" by (rule wf_measure)
qed (fastforce dest: receipt_rows_count)

declare receipts_loop.simps [simp del]

definition historyInputReceipts ::
  "(nat \<Rightarrow> string \<Rightarrow> props \<Rightarrow> 'e + gval) \<Rightarrow> (nat \<Rightarrow> 'e option) \<Rightarrow> nat \<Rightarrow> string \<Rightarrow> string \<Rightarrow> gval list \<Rightarrow> string \<Rightarrow>
     nat \<times> ('e rpc_history_error + receipt list)" where
  "historyInputReceipts answers ctx n ident after rows next' =
     (case receipts_loop answers ident n \<lparr>rs_count = 0, rs_items = [], rs_receipts = []\<rparr> (if after = [] then Some rows else None) [] next' [] of
        (m, Inl e) \<Rightarrow> (m, Inl e)
      | (m, Inr st) \<Rightarrow>
          (m, case ctx m of Some e \<Rightarrow> Inl (HAsk e) | None \<Rightarrow> Inr (MergeInputReceipts [rev (rs_receipts st)])))"

subsection \<open>Pages\<close>

definition row_started :: "gval \<Rightarrow> float64 option" where
  "row_started raw = (case field (fields_of raw) ''startedAtMs'' of GNum ms \<Rightarrow> Some (f64_div ms 1000) | _ \<Rightarrow> None)"

definition row_messages :: "string list \<Rightarrow> bool \<Rightarrow> gval \<Rightarrow> string \<times> props \<times> string \<Rightarrow> message list" where
  "row_messages excluded activity raw r =
     (case r of (turn, item, i) \<Rightarrow>
        if turn \<in> set excluded then []
        else ProjectMessages [\<lparr>n_ID = turn, n_Items = [item], n_StartedAt = row_started raw, n_Status = GNil, n_Error = GNil\<rparr>] activity)"

text \<open>The rows of the page, oldest first.\<close>

fun page_rows :: "string list \<Rightarrow> bool \<Rightarrow> gval list \<Rightarrow> string list \<Rightarrow> message list option" where
  "page_rows excluded activity [] seen' = Some []"
| "page_rows excluded activity (raw # rest) seen' =
     (case history_row raw of
        None \<Rightarrow> None
      | Some r \<Rightarrow>
          if snd (snd r) \<in> set seen' then None
          else map_option (\<lambda>ms. row_messages excluded activity raw r @ ms) (page_rows excluded activity rest (snd (snd r) # seen')))"

definition latest_messages :: "string list \<Rightarrow> bool \<Rightarrow> string \<Rightarrow> props option \<Rightarrow> message list" where
  "latest_messages excluded activity after latest =
     (case latest of
        None \<Rightarrow> []
      | Some turn \<Rightarrow>
          if after = [] \<and> Text (field turn ''id'') \<notin> set excluded
          then ProjectMessages [\<lparr>n_ID = Text (field turn ''id''), n_Items = [], n_StartedAt = None, n_Status = field turn ''status'', n_Error = field turn ''error''\<rparr>] activity
          else [])"

definition latest_turn_row :: "gval list \<Rightarrow> props option option" where
  "latest_turn_row turns =
     (case turns of
        [] \<Rightarrow> Some None
      | t # _ \<Rightarrow>
          (case Fields t of
             None \<Rightarrow> None
           | Some turn \<Rightarrow> if Text (field turn ''id'') = [] \<or> Text (field turn ''status'') = [] then None else Some (Some turn)))"

text \<open>The thread and its latest turn, by the first two requests.\<close>

definition history_thread :: "(nat \<Rightarrow> string \<Rightarrow> props \<Rightarrow> 'e + gval) \<Rightarrow> string \<Rightarrow> nat \<times> ('e rpc_history_error + props \<times> props option)" where
  "history_thread answers ident =
     (case answers 0 ''thread/read'' [(''threadId'', GStr ident), (''includeTurns'', GBool False)] of
        Inl e \<Rightarrow> (1, Inl (HAsk e))
      | Inr v \<Rightarrow>
          (case Fields (field (fields_of v) ''thread'') of
             None \<Rightarrow> (1, Inl (HInvalid ''Native history identity mismatch''))
           | Some thread \<Rightarrow>
               if Text (field thread ''id'') \<noteq> ident then (1, Inl (HInvalid ''Native history identity mismatch''))
               else
                 (case answers 1 ''thread/turns/list'' [(''threadId'', GStr ident), (''limit'', GNum (Fin 1)), (''sortDirection'', GStr ''desc''), (''itemsView'', GStr ''summary'')] of
                    Inl e \<Rightarrow> (2, Inl (HAsk e))
                  | Inr w \<Rightarrow>
                      (case historyData w 1 of
                         None \<Rightarrow> (2, Inl (HInvalid ''Invalid native history page''))
                       | Some (turns, _) \<Rightarrow>
                           (case latest_turn_row turns of
                              None \<Rightarrow> (2, Inl (HInvalid ''Invalid native history turn''))
                            | Some latest \<Rightarrow> (2, Inr (thread, latest)))))))"

text \<open>The last part of \<open>ReadHistory\<close>: the page of the rows.\<close>

definition history_page ::
  "string \<Rightarrow> string \<Rightarrow> string list \<Rightarrow> bool \<Rightarrow> string \<Rightarrow> props \<Rightarrow> props option \<Rightarrow> gval list \<Rightarrow> string \<Rightarrow> receipt list \<Rightarrow>
     'e rpc_history_error + conversation_page" where
  "history_page ident store excluded activity after thread latest rows next' receipts =
     (case page_rows excluded activity (rev rows) [] of
        None \<Rightarrow> Inl (HInvalid ''Invalid native history item identity'')
      | Some ms \<Rightarrow>
          if next' \<noteq> [] \<and> 2048 < length (encodeHistoryCursor ident store next')
          then Inl (HInvalid ''Native history cursor exceeds its bound'')
          else Inr \<lparr>cp_Access = None, cp_PageCursor = Some (encodeHistoryCursor ident store after), cp_Nodes = [],
                 cp_Messages = ms @ latest_messages excluded activity after latest,
                 cp_NextCursor = (if next' = [] then None else Some (encodeHistoryCursor ident store next')), cp_Queued = Some [],
                 cp_Runtime = Some (historyRuntime thread latest), cp_InputReceipts = receipts\<rparr>)"

text \<open>\<open>ReadHistory\<close>, with the number of requests it made.\<close>

definition ReadHistory ::
  "(string \<Rightarrow> rpc_cursor option) \<Rightarrow> (nat \<Rightarrow> string \<Rightarrow> props \<Rightarrow> 'e + gval) \<Rightarrow> (nat \<Rightarrow> 'e option) \<Rightarrow> string \<Rightarrow> string \<Rightarrow> string \<Rightarrow> bool \<Rightarrow> string list \<Rightarrow>
     nat \<times> ('e rpc_history_error + conversation_page)" where
  "ReadHistory unmarshal answers ctx home ident cursor activity excluded =
     (case history_after unmarshal home ident cursor of
        None \<Rightarrow> (0, Inl (HInvalid ''Invalid native RPC history cursor''))
      | Some after \<Rightarrow>
          (case history_thread answers ident of
             (m, Inl e) \<Rightarrow> (m, Inl e)
           | (_, Inr (thread, latest)) \<Rightarrow>
               (case items_page answers 2 ident (if after = [] then None else Some after) of
                  Inl e \<Rightarrow> (3, Inl e)
                | Inr (rows, next') \<Rightarrow>
                    if next' \<noteq> [] \<and> (next' = after \<or> rows = []) then (3, Inl (HInvalid ''Native history pagination did not advance''))
                    else
                      (case historyInputReceipts answers ctx 3 ident after rows next' of
                         (m, Inl e) \<Rightarrow> (m, Inl e)
                       | (m, Inr receipts) \<Rightarrow>
                           (m, case history_page ident (sha256_hex home) excluded activity after thread latest rows next' receipts of
                                 Inl e \<Rightarrow> Inl e
                               | Inr page \<Rightarrow> (case ctx m of Some e \<Rightarrow> Inl (HAsk e) | None \<Rightarrow> Inr page))))))"

subsection \<open>Usage\<close>

record usage_window =
  uw_UsedPercent :: float64
  uw_WindowDurationMins :: "int option"
  uw_ResetsAt :: "int option"

record usage_bucket =
  ub_LimitID :: "string option"
  ub_LimitName :: "string option"
  ub_Primary :: "usage_window option"
  ub_Secondary :: "usage_window option"

record usage_limit =
  ul_ID :: string
  ul_Name :: string
  ul_Primary :: "usage_window option"
  ul_Secondary :: "usage_window option"

definition append_bucket :: "string \<Rightarrow> usage_bucket option \<Rightarrow> usage_limit list" where
  "append_bucket i b =
     (case b of
        None \<Rightarrow> []
      | Some b \<Rightarrow>
          [\<lparr>ul_ID = i, ul_Name = (case ub_LimitName b of Some n \<Rightarrow> n | None \<Rightarrow> i), ul_Primary = ub_Primary b, ul_Secondary = ub_Secondary b\<rparr>])"

text \<open>\<open>decode\<close> is the JSON conversion of the response: the single bucket and the buckets by identity, keys distinct.\<close>

definition NativeUsage ::
  "(gval \<Rightarrow> 'e rpc_history_error + usage_bucket option \<times> (string \<times> usage_bucket option) list) \<Rightarrow> 'e + gval \<Rightarrow> 'e rpc_history_error + usage_limit list" where
  "NativeUsage decode answer =
     (case answer of
        Inl e \<Rightarrow> Inl (HAsk e)
      | Inr v \<Rightarrow>
          (case decode v of
             Inl e \<Rightarrow> Inl e
           | Inr (single, byID) \<Rightarrow>
               if 32 < length byID then Inl (HInvalid ''Native usage response is too large'')
               else if byID \<noteq> [] then Inr (concat (map (\<lambda>(i, b). append_bucket i b) (sort_key (\<lambda>(i, b). map byte_of i) byID)))
               else Inr (case single of
                 None \<Rightarrow> []
               | Some b \<Rightarrow> append_bucket (case ub_LimitID b of Some i \<Rightarrow> i | None \<Rightarrow> ''codex'') (Some b))))"

end
