(* ===== verification/NativeHistoryCorrect.thy ===== *)
theory NativeHistoryCorrect
  imports NativeHistory RolloutCorrect
begin

text \<open>
  The native history: its receipts do not depend on the page that is read, following its cursors shows every item
  once and in order, and a call makes a bounded number of requests whatever the host answers.
\<close>

subsection \<open>A host with a fixed list\<close>

text \<open>
  The documented list operation: the items newest first, in pages of \<open>size\<close> items from the position of the cursor;
  the cursor of position \<open>k\<close> is \<open>tok k\<close>.
\<close>

definition items_part :: "gval list \<Rightarrow> (nat \<Rightarrow> nat) \<Rightarrow> nat \<Rightarrow> gval list" where
  "items_part items size' k = take (size' k) (drop k items)"

definition items_next :: "gval list \<Rightarrow> (nat \<Rightarrow> nat) \<Rightarrow> (nat \<Rightarrow> string) \<Rightarrow> nat \<Rightarrow> string option" where
  "items_next items size' tok k = (if k + size' k < length items then Some (tok (k + size' k)) else None)"

definition list_answer :: "gval list \<Rightarrow> string option \<Rightarrow> gval" where
  "list_answer rows next' = GMap [(''data'', GArr rows), (''nextCursor'', case next' of None \<Rightarrow> GNil | Some c \<Rightarrow> GStr c)]"

definition serves_items :: "(nat \<Rightarrow> string \<Rightarrow> props \<Rightarrow> 'e + gval) \<Rightarrow> string \<Rightarrow> gval list \<Rightarrow> (nat \<Rightarrow> nat) \<Rightarrow> (nat \<Rightarrow> string) \<Rightarrow> bool" where
  "serves_items answers ident items size' tok \<longleftrightarrow>
     inj_on tok {..<length items} \<and> (\<forall>k. 0 < size' k \<and> size' k \<le> 16 \<and> tok k \<noteq> []) \<and> (\<forall>k < length items. length (tok k) \<le> 2048) \<and>
     (\<forall>n k. k = 0 \<or> k < length items \<longrightarrow>
        answers n ''thread/items/list'' (items_params ident (if k = 0 then None else Some (tok k))) =
          Inr (list_answer (items_part items size' k) (items_next items size' tok k)))"

definition row_id :: "gval \<Rightarrow> string" where
  "row_id raw = snd (snd (the (history_row raw)))"

definition valid_rows :: "gval list \<Rightarrow> bool" where
  "valid_rows rows \<longleftrightarrow> (\<forall>raw \<in> set rows. history_row raw \<noteq> None) \<and> distinct (map row_id rows)"

definition cursor_text :: "string option \<Rightarrow> string" where
  "cursor_text c = (case c of None \<Rightarrow> [] | Some t \<Rightarrow> t)"

lemma items_page_serves:
  assumes "serves_items answers ident items size' tok" "k = 0 \<or> k < length items"
  shows "items_page answers n ident (if k = 0 then None else Some (tok k)) = Inr (items_part items size' k, cursor_text (items_next items size' tok k))"
proof -
  have a: "answers n ''thread/items/list'' (items_params ident (if k = 0 then None else Some (tok k))) =
      Inr (list_answer (items_part items size' k) (items_next items size' tok k))" using assms unfolding serves_items_def by blast
  have "size' k \<le> 16" "\<And>j. tok j \<noteq> []" using assms(1) by (auto simp: serves_items_def)
  then have "historyData (list_answer (items_part items size' k) (items_next items size' tok k)) 16 =
      Some (items_part items size' k, cursor_text (items_next items size' tok k))"
    by (auto simp: historyData_def list_answer_def Fields_def field_def AsText_def Text_def items_part_def cursor_text_def items_next_def)
  then show ?thesis unfolding items_page_def a by simp
qed

subsection \<open>The latest receipts\<close>

definition scan_of :: "gval list \<Rightarrow> receipt_scan" where
  "scan_of rows = \<lparr>rs_count = length rows, rs_items = rev (map row_id rows), rs_receipts = concat (map (\<lambda>raw. row_receipts (the (history_row raw))) rows)\<rparr>"

lemma scan_of_snoc: "scan_row (the (history_row raw)) (scan_of pre) = scan_of (pre @ [raw])"
  by (simp add: scan_row_def scan_of_def row_id_def)

lemma scan_of_count [simp]: "rs_count (scan_of rows) = length rows" "set (rs_items (scan_of rows)) = row_id ` set rows"
  by (simp_all add: scan_of_def)

lemma receipt_rows_valid:
  assumes "length pre < receiptItems" "valid_rows (take receiptItems (pre @ rows))"
  shows "receipt_rows rows (scan_of pre) = Some (scan_of (take receiptItems (pre @ rows)))"
  using assms
proof (induction rows arbitrary: pre)
  case (Cons raw rows)
  have here: "take receiptItems (pre @ raw # rows) = pre @ raw # take (receiptItems - Suc (length pre)) rows"
    using Cons.prems(1) by (simp add: take_Cons' Suc_diff_Suc)
  have v: "history_row raw = Some (the (history_row raw))" "row_id raw \<notin> row_id ` set pre"
    using Cons.prems(2) unfolding here valid_rows_def by auto
  have i: "snd (snd (the (history_row raw))) = row_id raw" by (simp add: row_id_def)
  show ?case
  proof (cases "Suc (length pre) = receiptItems")
    case True
    then show ?thesis by (subst receipt_rows.simps, subst v(1)) (use v(2) i here True in \<open>simp add: scan_of_snoc\<close>)
  next
    case False
    then have "length (pre @ [raw]) < receiptItems" using Cons.prems(1) by simp
    from Cons.IH [OF this] Cons.prems(2) False show ?thesis
      by (subst receipt_rows.simps, subst v(1)) (use v(2) i in \<open>simp add: scan_of_snoc\<close>)
  qed
qed (use assms in \<open>simp add: less_imp_le\<close>)

lemma take_part: "take k items @ items_part items size' k = take (k + size' k) items"
  by (simp add: items_part_def take_add)

lemma valid_rows_take: "valid_rows xs \<Longrightarrow> valid_rows (take j xs)"
  using set_take_subset [of j xs] by (auto simp: valid_rows_def simp flip: take_map)

lemma valid_rows_prefix: "valid_rows (take r xs) \<Longrightarrow> valid_rows (take r (take j xs))"
  using valid_rows_take [of "take r xs" j] by (simp add: min.commute)

text \<open>The step of the loop at position \<open>k\<close>, whatever the rows came from.\<close>

definition fetched :: "(nat \<Rightarrow> string \<Rightarrow> props \<Rightarrow> 'e + gval) \<Rightarrow> string \<Rightarrow> nat \<Rightarrow> receipt_scan \<Rightarrow> gval list option \<Rightarrow> string \<Rightarrow> string \<Rightarrow>
    nat \<times> ('e rpc_history_error + gval list \<times> string)" where
  "fetched answers ident n st rows after next' =
     (case rows of
        Some rs \<Rightarrow> if rs_count st = 0 then (n, Inr (rs, next')) else (Suc n, items_page answers n ident (Some after))
      | None \<Rightarrow> (Suc n, items_page answers n ident (if rs_count st = 0 then None else Some after)))"

lemma receipts_loop_spec:
  assumes "serves_items answers ident items size' tok" "valid_rows (take receiptItems items)"
  shows "k < receiptItems \<Longrightarrow> k = 0 \<or> k < length items \<Longrightarrow>
    fetched answers ident n (scan_of (take k items)) rows after next' = (m, Inr (items_part items size' k, cursor_text (items_next items size' tok k))) \<Longrightarrow>
    after = [] \<or> (\<exists>i \<le> k. after = tok i) \<Longrightarrow> \<forall>c \<in> set cursors. \<exists>i \<le> k. c = tok i \<Longrightarrow>
    \<exists>m'. receipts_loop answers ident n (scan_of (take k items)) rows after next' cursors = (m', Inr (scan_of (take receiptItems items)))"
proof (induction "receiptItems - k" arbitrary: k n rows after next' m cursors rule: less_induct)
  case less
  let ?k = "k + size' k" and ?pg = "items_part items size' k" and ?nx = "cursor_text (items_next items size' tok k)"
  have tok: "inj_on tok {..<length items}" "0 < size' k" "\<And>i. tok i \<noteq> []" "\<And>i. i < length items \<Longrightarrow> length (tok i) \<le> 2048" using assms(1) by (auto simp: serves_items_def)
  have k: "length (take k items) = k" "length (take k items) < receiptItems" using less.prems(1,2) by auto
  have new: "?nx \<noteq> after \<and> ?nx \<notin> set cursors \<and> \<not> 2048 < length ?nx \<and> ?pg \<noteq> []" if "?nx \<noteq> []"
  proof -
    have nx: "?nx = tok ?k" "?k < length items" using that by (auto simp: cursor_text_def items_next_def split: if_splits)
    have "tok ?k \<noteq> tok i" if "i \<le> k" for i using inj_onD [OF tok(1), of ?k i] that tok(2) nx(2) by auto
    then have "tok ?k \<noteq> after" "tok ?k \<notin> set cursors" using less.prems(4,5) tok(3) by metis+
    then show ?thesis using nx tok(2) leD [OF tok(4) [OF nx(2)]] by (simp add: items_part_def)
  qed
  have "valid_rows (take receiptItems (take k items @ ?pg))" using valid_rows_prefix [OF assms(2)] by (simp only: take_part [of k items size'])
  from receipt_rows_valid [OF k(2) this] have rows: "receipt_rows ?pg (scan_of (take k items)) = Some (scan_of (take receiptItems (take ?k items)))"
    by (simp only: take_part [of k items size'])
  note step = receipts_loop.simps [of answers ident n "scan_of (take k items)" rows after next' cursors, folded fetched_def, unfolded less.prems(3)]
  show ?case
  proof (cases "?nx = [] \<or> receiptItems \<le> ?k")
    case True
    then have same: "take receiptItems (take ?k items) = take receiptItems items"
      using tok(3) by (auto simp: cursor_text_def items_next_def min_def split: if_splits)
    have "?nx = [] \<or> length (take receiptItems items) = receiptItems"
      using True by (auto simp: cursor_text_def items_next_def split: if_splits)
    then show ?thesis using new k rows unfolding step same by auto
  next
    case False
    then have nx: "?nx = tok ?k" "?k < length items" "?k < receiptItems" by (auto simp: cursor_text_def items_next_def split: if_splits)
    have all: "take receiptItems (take ?k items) = take ?k items" "length (take ?k items) = ?k" using nx by simp_all
    have "fetched answers ident m (scan_of (take ?k items)) (Some ?pg) (tok ?k) ?nx =
        (Suc m, Inr (items_part items size' ?k, cursor_text (items_next items size' tok ?k)))"
      using items_page_serves [OF assms(1), of ?k m] nx(2) tok(2) all(2) by (simp add: fetched_def)
    note next_fetched = this
    have fewer: "receiptItems - ?k < receiptItems - k" using nx(3) tok(2) by linarith
    have past: "tok ?k = [] \<or> (\<exists>i \<le> ?k. tok ?k = tok i)" by blast
    have "\<forall>c \<in> set (tok ?k # cursors). \<exists>i \<le> ?k. c = tok i"
    proof
      fix c
      assume "c \<in> set (tok ?k # cursors)"
      then obtain i where "i = ?k \<or> i \<le> k" "c = tok i" using less.prems(5) by auto
      then show "\<exists>i \<le> ?k. c = tok i" by (intro exI [of _ i]) auto
    qed
    from less.hyps [OF fewer nx(3) disjI2 [OF nx(2)] next_fetched past this]
    have "\<exists>m'. receipts_loop answers ident m (scan_of (take ?k items)) (Some ?pg) (tok ?k) ?nx (tok ?k # cursors) = (m', Inr (scan_of (take receiptItems items)))" .
    moreover have "receipts_loop answers ident n (scan_of (take k items)) rows after next' cursors =
        receipts_loop answers ident m (scan_of (take ?k items)) (Some ?pg) (tok ?k) ?nx (tok ?k # cursors)"
      using new k rows False all nx(3) unfolding step nx(1) by simp
    ultimately show ?thesis by simp
  qed
qed

definition newest_receipts :: "gval list \<Rightarrow> receipt list" where
  "newest_receipts items = MergeInputReceipts [rev (concat (map (\<lambda>raw. row_receipts (the (history_row raw))) (take receiptItems items)))]"

definition after_text :: "(nat \<Rightarrow> string) \<Rightarrow> nat \<Rightarrow> string" where
  "after_text tok k = (if k = 0 then [] else tok k)"

lemma receipts_newest:
  assumes "serves_items answers ident items size' tok" "valid_rows (take receiptItems items)"
    "after = [] \<longrightarrow> rows = items_part items size' 0 \<and> next' = cursor_text (items_next items size' tok 0)"
  shows "\<exists>m. historyInputReceipts answers ctx n ident after rows next' =
    (m, case ctx m of Some e \<Rightarrow> Inl (HAsk e) | None \<Rightarrow> Inr (newest_receipts items))"
proof -
  have z: "\<lparr>rs_count = 0, rs_items = [], rs_receipts = []\<rparr> = scan_of (take 0 items)" by (simp add: scan_of_def)
  let ?rows = "if after = [] then Some rows else None"
  have "fetched answers ident n (scan_of (take 0 items)) ?rows [] next' =
      (if after = [] then n else Suc n, Inr (items_part items size' 0, cursor_text (items_next items size' tok 0)))"
    using items_page_serves [OF assms(1), of 0 n] assms(3) by (simp add: fetched_def)
  from receipts_loop_spec [OF assms(1,2) _ _ this, of "[]"]
  obtain m where "receipts_loop answers ident n (scan_of (take 0 items)) ?rows [] next' [] = (m, Inr (scan_of (take receiptItems items)))"
    by (auto simp: receiptItems_def)
  then show ?thesis unfolding historyInputReceipts_def z by (auto simp: newest_receipts_def scan_of_def split: option.split)
qed

subsection \<open>The number of requests\<close>

lemma receipts_loop_requests:
  "n \<le> fst (receipts_loop answers ident n st rows after next' cursors) \<and>
   fst (receipts_loop answers ident n st rows after next' cursors) \<le> n + (receiptItems - rs_count st)"
proof (induction answers ident n st rows after next' cursors rule: receipts_loop.induct)
  case (1 answers ident n st rows after next' cursors)
  show ?case
  proof (cases "receiptItems \<le> rs_count st")
    case False
    obtain m r where f: "fetched answers ident n st rows after next' = (m, r)" by fastforce
    then have m: "n \<le> m" "m \<le> Suc n" by (auto simp: fetched_def split: option.splits if_splits)
    note step = receipts_loop.simps [of answers ident n st rows after next' cursors, folded fetched_def, unfolded f]
    note IH = 1 [OF False, folded fetched_def, unfolded f]
    show ?thesis
    proof (cases r)
      case (Inl e)
      then show ?thesis using False m unfolding step by simp
    next
      case (Inr page)
      obtain rs nxt where p: "page = (rs, nxt)" by fastforce
      show ?thesis
      proof (cases "(nxt \<noteq> [] \<and> (nxt = after \<or> nxt \<in> set cursors \<or> 2048 < length nxt \<or> rs = [])) \<or> receipt_rows rs st = None")
        case True
        then show ?thesis using False m unfolding step Inr p by auto
      next
        case ok: False
        then obtain st' where st': "receipt_rows rs st = Some st'" by auto
        show ?thesis
        proof (cases "nxt = [] \<or> rs_count st' = receiptItems")
          case True
          then show ?thesis using False m ok st' unfolding step Inr p by auto
        next
          case again: False
          have "rs_count st < rs_count st'" using receipt_rows_count [OF st'] ok again by blast
          moreover note IH [OF refl Inr [unfolded p] refl _ st' again]
          ultimately show ?thesis using False m ok st' again unfolding step Inr p by auto
        qed
      qed
    qed
  qed (simp add: receipts_loop.simps)
qed

lemma history_thread_requests: "fst (history_thread answers ident) \<le> 2"
  by (simp add: history_thread_def split: sum.split option.split prod.split)

lemma receipts_requests: "fst (historyInputReceipts answers ctx n ident after rows next') \<le> n + receiptItems"
proof -
  obtain m r where "receipts_loop answers ident n \<lparr>rs_count = 0, rs_items = [], rs_receipts = []\<rparr> (if after = [] then Some rows else None) [] next' [] = (m, r)"
    by fastforce
  then show ?thesis
    using receipts_loop_requests [of n answers ident "\<lparr>rs_count = 0, rs_items = [], rs_receipts = []\<rparr>" "if after = [] then Some rows else None" "[]" next' "[]"]
    by (cases r) (simp_all add: historyInputReceipts_def)
qed

lemma history_requests: "fst (ReadHistory unmarshal answers ctx home ident cursor activity excluded) \<le> 3 + receiptItems"
proof (cases "history_after unmarshal home ident cursor")
  case (Some after)
  obtain m r where t: "history_thread answers ident = (m, r)" by fastforce
  have m: "m \<le> 2" using history_thread_requests [of answers ident] by (simp add: t)
  show ?thesis
  proof (cases r)
    case (Inr tl)
    obtain thread latest where tl: "tl = (thread, latest)" by fastforce
    show ?thesis
    proof (cases "items_page answers 2 ident (if after = [] then None else Some after)")
      case page: (Inr pg)
      obtain rows next' where pg: "pg = (rows, next')" by fastforce
      obtain m' r' where h: "historyInputReceipts answers ctx 3 ident after rows next' = (m', r')" by fastforce
      have "m' \<le> 3 + receiptItems" using receipts_requests [of answers ctx 3 ident after rows next'] by (simp add: h)
      then show ?thesis by (cases r') (simp_all add: ReadHistory_def Some t Inr tl page pg h)
    qed (simp add: ReadHistory_def Some t Inr tl)
  qed (use m in \<open>simp add: ReadHistory_def Some t\<close>)
qed (simp add: ReadHistory_def)

subsection \<open>Pages\<close>

definition raw_messages :: "string list \<Rightarrow> bool \<Rightarrow> gval \<Rightarrow> message list" where
  "raw_messages excluded activity raw = row_messages excluded activity raw (the (history_row raw))"

lemma page_rows_valid:
  "valid_rows rows \<Longrightarrow> row_id ` set rows \<inter> set seen' = {} \<Longrightarrow> page_rows excluded activity rows seen' = Some (concat (map (raw_messages excluded activity) rows))"
proof (induction rows arbitrary: seen')
  case (Cons raw rows)
  have v: "history_row raw = Some (the (history_row raw))" "row_id raw \<notin> set seen'" "valid_rows rows" "row_id raw \<notin> row_id ` set rows"
    using Cons.prems by (auto simp: valid_rows_def)
  have i: "snd (snd (the (history_row raw))) = row_id raw" by (simp add: row_id_def)
  have "page_rows excluded activity rows (row_id raw # seen') = Some (concat (map (raw_messages excluded activity) rows))"
    by (rule Cons.IH) (use v Cons.prems(2) in auto)
  then show ?case by (subst page_rows.simps, subst v(1)) (use v(2) i in \<open>simp add: raw_messages_def\<close>)
qed simp

lemma valid_rows_rev: "valid_rows (rev rows) = valid_rows rows"
  by (simp add: valid_rows_def flip: rev_map)

lemma valid_rows_drop: "valid_rows rows \<Longrightarrow> valid_rows (drop k rows)"
  using set_drop_subset [of k rows] by (auto simp: valid_rows_def simp flip: drop_map)

text \<open>A host whose cursors survive the trip through the client, and the page at position \<open>k\<close>.\<close>

definition cursors_travel :: "(string \<Rightarrow> rpc_cursor option) \<Rightarrow> string \<Rightarrow> string \<Rightarrow> gval list \<Rightarrow> (nat \<Rightarrow> string) \<Rightarrow> bool" where
  "cursors_travel unmarshal home ident items tok \<longleftrightarrow>
     (\<forall>k. k = 0 \<or> k < length items \<longrightarrow>
        length (encodeHistoryCursor ident (sha256_hex home) (after_text tok k)) \<le> 2048 \<and>
        unmarshal (rpc_cursor_json \<lparr>hc_ID = ident, hc_Store = sha256_hex home, hc_After = after_text tok k\<rparr>) =
          Some \<lparr>hc_ID = ident, hc_Store = sha256_hex home, hc_After = after_text tok k\<rparr>)"

lemma history_after_encode:
  assumes "cursors_travel unmarshal home ident items tok" "k = 0 \<or> k < length items"
  shows "history_after unmarshal home ident (encodeHistoryCursor ident (sha256_hex home) (after_text tok k)) = Some (after_text tok k)"
  using assms by (auto simp: cursors_travel_def history_after_def encodeHistoryCursor_def historyRPCPrefix_def b64_decode_encode)

lemma history_page_at:
  assumes "serves_items answers ident items size' tok" "valid_rows items" "cursors_travel unmarshal home ident items tok"
    "history_thread answers ident = (2, Inr (thread, latest))" "\<forall>n. ctx n = None"
    "k = 0 \<or> k < length items" "history_after unmarshal home ident cursor = Some (after_text tok k)"
  shows "\<exists>m p. ReadHistory unmarshal answers ctx home ident cursor activity excluded = (m, Inr p) \<and>
    cp_Messages p = concat (map (raw_messages excluded activity) (rev (items_part items size' k))) @
      (if k = 0 then latest_messages excluded activity [] latest else []) \<and>
    cp_NextCursor p = (if k + size' k < length items then Some (encodeHistoryCursor ident (sha256_hex home) (after_text tok (k + size' k))) else None) \<and>
    cp_InputReceipts p = newest_receipts items"
proof -
  have tok: "\<And>i. tok i \<noteq> []" "0 < size' k" "inj_on tok {..<length items}" using assms(1) by (auto simp: serves_items_def)
  have start: "(if after_text tok k = [] then None else Some (after_text tok k)) = (if k = 0 then None else Some (tok k))" "after_text tok k = [] \<longleftrightarrow> k = 0"
    using tok(1) by (simp_all add: after_text_def)
  have page: "items_page answers 2 ident (if after_text tok k = [] then None else Some (after_text tok k)) =
      Inr (items_part items size' k, cursor_text (items_next items size' tok k))"
    unfolding start(1) by (rule items_page_serves [OF assms(1,6)])
  have adv: "cursor_text (items_next items size' tok k) \<noteq> after_text tok k \<and> items_part items size' k \<noteq> []" if "cursor_text (items_next items size' tok k) \<noteq> []"
  proof -
    have nx: "k + size' k < length items" "cursor_text (items_next items size' tok k) = tok (k + size' k)"
      using that by (auto simp: cursor_text_def items_next_def split: if_splits)
    then show ?thesis using inj_onD [OF tok(3), of "k + size' k" k] tok(1,2) by (auto simp: after_text_def items_part_def)
  qed
  obtain m where receipts: "historyInputReceipts answers ctx 3 ident (after_text tok k) (items_part items size' k) (cursor_text (items_next items size' tok k)) =
      (m, Inr (newest_receipts items))"
    using receipts_newest [OF assms(1) valid_rows_take [OF assms(2)], of "after_text tok k" "items_part items size' k" "cursor_text (items_next items size' tok k)" ctx 3] start(2) assms(5)
    by auto
  have rows: "page_rows excluded activity (rev (items_part items size' k)) [] = Some (concat (map (raw_messages excluded activity) (rev (items_part items size' k))))"
    by (rule page_rows_valid) (use valid_rows_take [OF valid_rows_drop [OF assms(2)]] in \<open>simp_all add: valid_rows_rev items_part_def\<close>)
  have nx: "cursor_text (items_next items size' tok k) = (if k + size' k < length items then after_text tok (k + size' k) else [])"
    using tok(2) by (simp add: cursor_text_def items_next_def after_text_def)
  have short: "k + size' k < length items \<Longrightarrow> \<not> 2048 < length (encodeHistoryCursor ident (sha256_hex home) (after_text tok (k + size' k)))"
    "after_text tok (k + size' k) \<noteq> []"
    using assms(3) tok(1,2) by (auto simp: cursors_travel_def after_text_def)
  let ?p = "\<lparr>cp_Access = None, cp_PageCursor = Some (encodeHistoryCursor ident (sha256_hex home) (after_text tok k)), cp_Nodes = [],
      cp_Messages = concat (map (raw_messages excluded activity) (rev (items_part items size' k))) @ latest_messages excluded activity (after_text tok k) latest,
      cp_NextCursor = (if k + size' k < length items then Some (encodeHistoryCursor ident (sha256_hex home) (after_text tok (k + size' k))) else None),
      cp_Queued = Some [], cp_Runtime = Some (historyRuntime thread latest), cp_InputReceipts = newest_receipts items\<rparr>"
  have hp: "history_page ident (sha256_hex home) excluded activity (after_text tok k) thread latest (items_part items size' k)
      (cursor_text (items_next items size' tok k)) (newest_receipts items) = Inr ?p"
    using short unfolding history_page_def rows nx by simp
  have noadv: "\<not> (cursor_text (items_next items size' tok k) \<noteq> [] \<and>
      (cursor_text (items_next items size' tok k) = after_text tok k \<or> items_part items size' k = []))" using adv by blast
  have "ReadHistory unmarshal answers ctx home ident cursor activity excluded = (m, Inr ?p)"
    unfolding ReadHistory_def assms(7) option.case assms(4) prod.case sum.case page if_not_P [OF noadv] receipts hp assms(5) [rule_format] ..
  moreover have "latest_messages excluded activity (after_text tok k) latest = (if k = 0 then latest_messages excluded activity [] latest else [])"
    using start(2) by (auto simp: latest_messages_def after_text_def split: option.split)
  ultimately show ?thesis by simp
qed

text \<open>A client that follows the cursors for at most \<open>n\<close> pages.\<close>

fun history_walk :: "nat \<Rightarrow> (string \<Rightarrow> nat \<times> ('e + conversation_page)) \<Rightarrow> string \<Rightarrow> conversation_page list option" where
  "history_walk 0 page_at cursor = None"
| "history_walk (Suc n) page_at cursor =
     (case snd (page_at cursor) of
        Inl e \<Rightarrow> None
      | Inr p \<Rightarrow> (case cp_NextCursor p of None \<Rightarrow> Some [p] | Some c \<Rightarrow> map_option (Cons p) (history_walk n page_at c)))"

lemma history_walk_from:
  assumes "serves_items answers ident items size' tok" "valid_rows items" "cursors_travel unmarshal home ident items tok"
    "history_thread answers ident = (2, Inr (thread, latest))" "\<forall>n. ctx n = None"
  shows "k = 0 \<or> k < length items \<Longrightarrow> history_after unmarshal home ident cursor = Some (after_text tok k) \<Longrightarrow> length items - k < n \<Longrightarrow>
    \<exists>ps. history_walk n (\<lambda>c. ReadHistory unmarshal answers ctx home ident c activity excluded) cursor = Some ps \<and>
      concat (map cp_Messages (rev ps)) = concat (map (raw_messages excluded activity) (rev (drop k items))) @
        (if k = 0 then latest_messages excluded activity [] latest else []) \<and>
      (\<forall>p \<in> set ps. cp_InputReceipts p = newest_receipts items)"
proof (induction n arbitrary: k cursor)
  case (Suc n)
  let ?k = "k + size' k" and ?page = "\<lambda>c. ReadHistory unmarshal answers ctx home ident c activity excluded"
  have s: "0 < size' k" using assms(1) by (simp add: serves_items_def)
  obtain m p where p: "?page cursor = (m, Inr p)"
    "cp_Messages p = concat (map (raw_messages excluded activity) (rev (items_part items size' k))) @ (if k = 0 then latest_messages excluded activity [] latest else [])"
    "cp_NextCursor p = (if ?k < length items then Some (encodeHistoryCursor ident (sha256_hex home) (after_text tok ?k)) else None)"
    "cp_InputReceipts p = newest_receipts items"
    using history_page_at [OF assms Suc.prems(1,2), where activity = activity and excluded = excluded] by blast
  have all: "drop k items = items_part items size' k @ drop ?k items" by (metis add.commute append_take_drop_id drop_drop items_part_def)
  show ?case
  proof (cases "?k < length items")
    case False
    then show ?thesis using p all by simp
  next
    case True
    have again: "history_after unmarshal home ident (encodeHistoryCursor ident (sha256_hex home) (after_text tok ?k)) = Some (after_text tok ?k)"
      by (rule history_after_encode [OF assms(3)]) (use True in simp)
    have fewer: "length items - ?k < n" using s True Suc.prems(3) by linarith
    from Suc.IH [OF disjI2 [OF True] again fewer] s obtain ps where
      "history_walk n ?page (encodeHistoryCursor ident (sha256_hex home) (after_text tok ?k)) = Some ps"
      "concat (map cp_Messages (rev ps)) = concat (map (raw_messages excluded activity) (rev (drop ?k items)))"
      "\<forall>p \<in> set ps. cp_InputReceipts p = newest_receipts items" by auto
    then show ?thesis using p True by (intro exI [of _ "p # ps"]) (simp add: all)
  qed
qed simp

subsection \<open>A sample host\<close>

definition sample_item :: "string \<Rightarrow> gval" where
  "sample_item i = GMap [(''turnId'', GStr ''u''), (''item'', GMap [(''id'', GStr i), (''type'', GStr ''userMessage''), (''clientId'', GStr i)])]"

definition sample_items :: "gval list" where
  "sample_items = [sample_item ''b'', sample_item ''a'']"

definition sample_item_token :: "nat \<Rightarrow> string" where
  "sample_item_token k = replicate (Suc k) (CHR ''c'')"

definition sample_position :: "props \<Rightarrow> nat" where
  "sample_position ps = (case map_of ps ''cursor'' of Some (GStr c) \<Rightarrow> length c - 1 | _ \<Rightarrow> 0)"

definition sample_native :: "nat \<Rightarrow> string \<Rightarrow> props \<Rightarrow> string + gval" where
  "sample_native n name ps =
     (if name = ''thread/items/list''
      then Inr (list_answer (items_part sample_items (\<lambda>_. 1) (sample_position ps)) (items_next sample_items (\<lambda>_. 1) sample_item_token (sample_position ps)))
      else if name = ''thread/read'' then Inr (GMap [(''thread'', GMap [(''id'', GStr ''t'')])])
      else Inr (list_answer [] None))"

definition sample_rpc_cursor :: "nat \<Rightarrow> rpc_cursor" where
  "sample_rpc_cursor k = \<lparr>hc_ID = ''t'', hc_Store = sha256_hex ''h'', hc_After = after_text sample_item_token k\<rparr>"

definition sample_unmarshal :: "string \<Rightarrow> rpc_cursor option" where
  "sample_unmarshal body = (if body = rpc_cursor_json (sample_rpc_cursor 1) then Some (sample_rpc_cursor 1) else Some (sample_rpc_cursor 0))"

lemma sample_serves: "serves_items sample_native ''t'' sample_items (\<lambda>_. 1) sample_item_token"
proof -
  have "inj_on sample_item_token {..<length sample_items}" by (auto simp: inj_on_def sample_item_token_def)
  moreover have "length (sample_item_token k) \<le> 2048" if "k < length sample_items" for k using that by (simp add: sample_items_def sample_item_token_def)
  moreover have "sample_position (items_params ''t'' (if k = 0 then None else Some (sample_item_token k))) = k" for k
    by (simp add: sample_position_def items_params_def sample_item_token_def)
  ultimately show ?thesis by (simp add: serves_items_def sample_native_def) (simp add: sample_item_token_def)
qed

lemma sample_valid: "valid_rows sample_items"
  by (simp add: valid_rows_def sample_items_def sample_item_def row_id_def history_row_def fields_of_def Fields_def field_def Text_def AsText_def Let_def)

lemma sample_thread: "history_thread sample_native ''t'' = (2, Inr ([(''id'', GStr ''t'')], None))"
  by (simp add: history_thread_def sample_native_def list_answer_def historyData_def latest_turn_row_def fields_of_def Fields_def field_def Text_def AsText_def)

lemma sample_cursor_text:
  "rpc_cursor_json (sample_rpc_cursor k) = CHR ''{'' # CHR 0x22 # ''id'' @ CHR 0x22 # CHR '':'' # CHR 0x22 # ''t'' @ CHR 0x22 #
    CHR '','' # CHR 0x22 # ''store'' @ CHR 0x22 # CHR '':'' # CHR 0x22 # sha256_hex ''h'' @ CHR 0x22 #
    CHR '','' # CHR 0x22 # ''after'' @ CHR 0x22 # CHR '':'' # CHR 0x22 # after_text sample_item_token k @ CHR 0x22 # ''}''"
proof -
  have "list_all safe_char (after_text sample_item_token k)" by (simp add: after_text_def sample_item_token_def list_all_iff safe_char_def plain_char_def)
  moreover have "list_all safe_char ''id''" "list_all safe_char ''store''" "list_all safe_char ''after''" "list_all safe_char ''t''"
    by (simp_all add: safe_char_def plain_char_def)
  ultimately show ?thesis using hex_safe(1) [of "''h''"]
    by (simp add: rpc_cursor_json_def sample_rpc_cursor_def go_json_object_def go_member_def go_quote_plain)
qed

lemma sample_travel: "cursors_travel sample_unmarshal ''h'' ''t'' sample_items sample_item_token"
  unfolding cursors_travel_def
proof (intro allI impI conjI)
  fix k
  assume "k = 0 \<or> k < length sample_items"
  then have k: "k = 0 \<or> k = 1" by (auto simp: sample_items_def)
  have c: "\<lparr>hc_ID = ''t'', hc_Store = sha256_hex ''h'', hc_After = after_text sample_item_token k\<rparr> = sample_rpc_cursor k" by (simp add: sample_rpc_cursor_def)
  have "length (rpc_cursor_json (sample_rpc_cursor k)) \<le> 200"
    using k hex_safe(2) [of "''h''"] by (auto simp: sample_cursor_text after_text_def sample_item_token_def)
  then show "length (encodeHistoryCursor ''t'' (sha256_hex ''h'') (after_text sample_item_token k)) \<le> 2048"
    using b64_encode_length [of "map byte_of (rpc_cursor_json (sample_rpc_cursor k))"] by (simp add: encodeHistoryCursor_def c historyRPCPrefix_def)
  have "rpc_cursor_json (sample_rpc_cursor 0) \<noteq> rpc_cursor_json (sample_rpc_cursor 1)"
    by (simp add: sample_cursor_text after_text_def sample_item_token_def)
  then show "sample_unmarshal (rpc_cursor_json \<lparr>hc_ID = ''t'', hc_Store = sha256_hex ''h'', hc_After = after_text sample_item_token k\<rparr>) =
      Some \<lparr>hc_ID = ''t'', hc_Store = sha256_hex ''h'', hc_After = after_text sample_item_token k\<rparr>"
    using k unfolding c by (auto simp: sample_unmarshal_def)
qed

subsection \<open>The properties\<close>

text \<open>
  C34. Following the cursors of the native history ends, and the pages together, oldest page first, are exactly the
  messages of all items that the host lists, once each and oldest first, with the state of the latest turn at the
  end; every page carries the same receipts, those of the newest 128 items, whichever page is read.
\<close>

theorem native_history_complete:
  assumes "serves_items answers ident items size' tok" "valid_rows items" "cursors_travel unmarshal home ident items tok"
    "history_thread answers ident = (2, Inr (thread, latest))" "\<forall>n. ctx n = None" "cursor = [] \<or> cursor = HistoryStartCursor home ident"
  shows "\<exists>ps. history_walk (Suc (length items)) (\<lambda>c. ReadHistory unmarshal answers ctx home ident c activity excluded) cursor = Some ps \<and>
    concat (map cp_Messages (rev ps)) = concat (map (raw_messages excluded activity) (rev items)) @ latest_messages excluded activity [] latest \<and>
    (\<forall>p \<in> set ps. cp_InputReceipts p = newest_receipts items)"
proof -
  have "after_text tok 0 = []" by (simp add: after_text_def)
  then have "history_after unmarshal home ident (HistoryStartCursor home ident) = Some []"
    using history_after_encode [OF assms(3) disjI1 [OF refl]] unfolding HistoryStartCursor_def by metis
  moreover have "history_after unmarshal home ident [] = Some []" by (simp add: history_after_def)
  ultimately have "history_after unmarshal home ident cursor = Some (after_text tok 0)" using assms(6) \<open>after_text tok 0 = []\<close> by metis
  from history_walk_from [OF assms(1-5) disjI1 [OF refl] this, where n = "Suc (length items)" and activity = activity and excluded = excluded]
  show ?thesis unfolding drop0 by simp
qed

theorem native_history_complete_witness:
  "\<exists>ps. history_walk 3 (\<lambda>c. ReadHistory sample_unmarshal sample_native (\<lambda>_. None) ''h'' ''t'' c True []) [] = Some ps \<and>
    concat (map cp_Messages (rev ps)) = concat (map (raw_messages [] True) (rev sample_items))"
proof -
  have "latest_messages [] True [] None = []" by (simp add: latest_messages_def)
  then show ?thesis
    using native_history_complete [OF sample_serves sample_valid sample_travel sample_thread, of "\<lambda>_. None" "[]" True "[]"]
    by (auto simp: sample_items_def numeral_3_eq_3)
qed

text \<open>
  C35. Whatever a host answers, reading one page of the native history makes at most 131 requests: three for the
  page and one for each of the 128 items whose receipts are looked at.
\<close>

theorem native_history_bounded:
  "fst (ReadHistory unmarshal answers ctx home ident cursor activity excluded) \<le> 131"
  using history_requests [of unmarshal answers ctx home ident cursor activity excluded] by (simp add: receiptItems_def)

end
