(* ===== verification/TaskSessions.thy ===== *)
theory TaskSessions
  imports Access NativeSession TaskActivity
begin

text \<open>
  The scoped task adapter of a leased helper (\<open>internal/service/newtasksessions.go\<close>, \<open>newtaskmetadata.go\<close>): the table
  of admitted connections. Every section under \<open>s.mu\<close> is a function; requests, connection losses, shutdowns and
  closes interleave in \<open>task_step\<close>. What the executor factory, the native host and the history answer is arbitrary.
\<close>

subsection \<open>The table\<close>

datatype task_error = TShuttingDown | TChanged | TNotReady | TUnavailable | TPending | TNative string

text \<open>
  A connection with its entry: the task it was registered for, how often the adapter closed it, and whether its
  closed handler has run. An attempt is what concurrent acquisitions share.
\<close>

record task_conn =
  tc_task :: "string option"
  tc_closed :: nat
  tc_lost :: bool

record task_opening =
  op_done :: nat
  op_entry :: "nat option"
  op_err :: "task_error option"

record task_table =
  tt_entries :: "string \<Rightarrow> nat option"
  tt_opening :: "string \<Rightarrow> nat option"
  tt_attempts :: "task_opening list"
  tt_conns :: "task_conn list"
  tt_draining :: bool
  tt_writes :: int
  tt_factory_closed :: bool

definition NewTaskSessionsWith :: task_table where
  "NewTaskSessionsWith = \<lparr>tt_entries = (\<lambda>_. None), tt_opening = (\<lambda>_. None), tt_attempts = [], tt_conns = [], tt_draining = False,
     tt_writes = 0, tt_factory_closed = False\<rparr>"

definition new_opening :: task_opening where
  "new_opening = \<lparr>op_done = 0, op_entry = None, op_err = None\<rparr>"

definition new_conn :: task_conn where
  "new_conn = \<lparr>tc_task = None, tc_closed = 0, tc_lost = False\<rparr>"

definition upd_conn :: "nat \<Rightarrow> (task_conn \<Rightarrow> task_conn) \<Rightarrow> task_table \<Rightarrow> task_table" where
  "upd_conn k g s = s\<lparr>tt_conns := (tt_conns s)[k := g (tt_conns s ! k)]\<rparr>"

definition upd_opening :: "nat \<Rightarrow> (task_opening \<Rightarrow> task_opening) \<Rightarrow> task_table \<Rightarrow> task_table" where
  "upd_opening p g s = s\<lparr>tt_attempts := (tt_attempts s)[p := g (tt_attempts s ! p)]\<rparr>"

subsection \<open>Sections\<close>

text \<open>The first section of \<open>acquire\<close>; \<open>bound\<close> says whether the context carries an access binding.\<close>

datatype acquired = TRefused task_error | TFound nat | TShared nat | TOpens nat

definition acquire_begin :: "string \<Rightarrow> bool \<Rightarrow> task_table \<Rightarrow> task_table \<times> acquired" where
  "acquire_begin t bound s =
     (if tt_draining s then (s, TRefused TShuttingDown)
      else case tt_entries s t of
        Some k \<Rightarrow> (s, TFound k)
      | None \<Rightarrow>
          if bound then (s, TRefused TChanged)
          else case tt_opening s t of
            Some p \<Rightarrow> (s, TShared p)
          | None \<Rightarrow>
              let p = length (tt_attempts s)
              in (s\<lparr>tt_opening := (tt_opening s)(t := Some p), tt_attempts := tt_attempts s @ [new_opening]\<rparr>, TOpens p))"

text \<open>What \<open>open\<close> requires of the history before it may start a writer with idle recovery.\<close>

definition open_recovery :: "bool \<Rightarrow> task_error + page_runtime option \<Rightarrow> task_error option" where
  "open_recovery recovering answer =
     (if \<not> recovering then None
      else case answer of Inl e \<Rightarrow> Some e | Inr rt \<Rightarrow> if RecoverableRuntime rt then None else Some TNotReady)"

definition admit_conn :: "task_table \<Rightarrow> task_table \<times> nat" where
  "admit_conn s = (s\<lparr>tt_conns := tt_conns s @ [new_conn]\<rparr>, length (tt_conns s))"

definition register_conn :: "string \<Rightarrow> nat \<Rightarrow> task_table \<Rightarrow> task_table" where
  "register_conn t k s = upd_conn k (\<lambda>c. c\<lparr>tc_task := Some t\<rparr>) s"

definition close_conn :: "nat \<Rightarrow> task_table \<Rightarrow> task_table" where
  "close_conn k s = upd_conn k (\<lambda>c. c\<lparr>tc_closed := Suc (tc_closed c)\<rparr>) s"

definition publish :: "string \<Rightarrow> nat \<Rightarrow> task_table \<Rightarrow> task_table" where
  "publish t k s = s\<lparr>tt_entries := (tt_entries s)(t := Some k)\<rparr>"

text \<open>The handler of a lost connection.\<close>

definition conn_lost :: "nat \<Rightarrow> task_table \<Rightarrow> task_table" where
  "conn_lost k s =
     (let s = upd_conn k (\<lambda>c. c\<lparr>tc_lost := True\<rparr>) s
      in case tc_task (tt_conns s ! k) of
           Some t \<Rightarrow> if tt_entries s t = Some k then s\<lparr>tt_entries := (tt_entries s)(t := None)\<rparr> else s
         | None \<Rightarrow> s)"

definition settle_opening :: "string \<Rightarrow> nat \<Rightarrow> task_error + nat option \<Rightarrow> task_table \<Rightarrow> task_table" where
  "settle_opening t p r s =
     (let s = upd_opening p (\<lambda>a. a\<lparr>op_entry := (case r of Inr e \<Rightarrow> e | Inl _ \<Rightarrow> None), op_err := (case r of Inl e \<Rightarrow> Some e | Inr _ \<Rightarrow> None)\<rparr>) s
      in if tt_opening s t = Some p then s\<lparr>tt_opening := (tt_opening s)(t := None)\<rparr> else s)"

definition close_opening :: "nat \<Rightarrow> task_table \<Rightarrow> task_table" where
  "close_opening p s = upd_opening p (\<lambda>a. a\<lparr>op_done := Suc (op_done a)\<rparr>) s"

definition begin_task_mutation :: "task_table \<Rightarrow> task_table option" where
  "begin_task_mutation s = (if tt_draining s then None else Some (s\<lparr>tt_writes := tt_writes s + 1\<rparr>))"

definition end_task_mutation :: "task_table \<Rightarrow> task_table" where
  "end_task_mutation s = s\<lparr>tt_writes := tt_writes s - 1\<rparr>"

definition prepare_begin :: "task_table \<Rightarrow> task_error + task_table" where
  "prepare_begin s =
     (if tt_draining s then Inl TShuttingDown else if tt_writes s \<noteq> 0 then Inl TPending else Inr (s\<lparr>tt_draining := True\<rparr>))"

definition prepare_failed :: "task_table \<Rightarrow> task_table" where
  "prepare_failed s = s\<lparr>tt_draining := False\<rparr>"

text \<open>The section of \<open>Close\<close> with the closing of the factory, and the connections it then ends, in any order.\<close>

definition published :: "task_table \<Rightarrow> nat list" where
  "published s = filter (\<lambda>k. case tc_task (tt_conns s ! k) of Some t \<Rightarrow> tt_entries s t = Some k | None \<Rightarrow> False) [0..<length (tt_conns s)]"

definition close_table :: "task_table \<Rightarrow> task_table" where
  "close_table s = s\<lparr>tt_draining := True, tt_entries := (\<lambda>_. None), tt_factory_closed := True\<rparr>"

subsection \<open>Interleavings\<close>

text \<open>
  A thread is inside \<open>mutation\<close> or not. \<open>Factory\<close> to \<open>Signalling\<close> are \<open>acquire\<close> with \<open>open\<close> of the attempt \<open>p\<close>; the
  states with \<open>C\<close> are \<open>Create\<close>; \<open>Obtained\<close> is a request with its entry or its refusal.
\<close>

datatype task_pc =
    Acquiring string bool bool
  | Awaiting nat string bool bool
  | Factory nat string
  | Vetting nat string nat
  | Attaching nat string nat
  | Publishing nat string nat
  | Dropping nat string nat task_error
  | Settling nat string "task_error + nat option"
  | Signalling nat "task_error + nat option"
  | Obtained "task_error + nat option"
  | CFactory
  | CVetting nat
  | CStarting nat
  | CPublishing nat string
  | CRunning nat string
  | CDropping nat
  | Peripheral
  | Verifying
  | Closing "nat list"
  | Ended

record task_sys =
  ty_table :: task_table
  ty_threads :: "(bool \<times> task_pc) list"
  ty_replaced :: "nat list"

definition thread_at :: "task_sys \<Rightarrow> nat \<Rightarrow> bool \<Rightarrow> task_pc \<Rightarrow> bool" where
  "thread_at x j b pc \<longleftrightarrow> j < length (ty_threads x) \<and> ty_threads x ! j = (b, pc)"

definition advance :: "nat \<Rightarrow> bool \<Rightarrow> task_pc \<Rightarrow> task_table \<Rightarrow> task_sys \<Rightarrow> task_sys" where
  "advance j b pc s x = x\<lparr>ty_table := s, ty_threads := (ty_threads x)[j := (b, pc)]\<rparr>"

definition spawn :: "bool \<Rightarrow> task_pc \<Rightarrow> task_table \<Rightarrow> task_sys \<Rightarrow> task_sys" where
  "spawn b pc s x = x\<lparr>ty_table := s, ty_threads := ty_threads x @ [(b, pc)]\<rparr>"

text \<open>
  Publishing over another entry, which a creation (\<open>Create\<close>) and an acquisition (\<open>open\<close>) may do;
  \<open>ty_replaced\<close> remembers the entries that were overwritten.
\<close>

definition replaces :: "string \<Rightarrow> nat \<Rightarrow> task_sys \<Rightarrow> task_sys" where
  "replaces t k x = x\<lparr>ty_replaced := (case tt_entries (ty_table x) t of Some i \<Rightarrow> if i = k then [] else [i] | None \<Rightarrow> []) @ ty_replaced x\<rparr>"

definition acquire_pc :: "string \<Rightarrow> bool \<Rightarrow> bool \<Rightarrow> acquired \<Rightarrow> task_pc" where
  "acquire_pc t write bound r =
     (case r of TRefused e \<Rightarrow> Obtained (Inl e) | TFound k \<Rightarrow> Obtained (Inr (Some k)) | TShared p \<Rightarrow> Awaiting p t write bound | TOpens p \<Rightarrow> Factory p t)"

definition awaited_pc :: "string \<Rightarrow> bool \<Rightarrow> bool \<Rightarrow> task_opening \<Rightarrow> task_pc" where
  "awaited_pc t write bound a =
     (case op_err a of
        Some e \<Rightarrow> Obtained (Inl e)
      | None \<Rightarrow> (case op_entry a of Some k \<Rightarrow> Obtained (Inr (Some k)) | None \<Rightarrow> if write then Acquiring t True bound else Obtained (Inr None)))"

inductive task_step :: "task_sys \<Rightarrow> task_sys \<Rightarrow> bool" where
  reads: "task_step x (spawn False (Acquiring t False bound) (ty_table x) x)"
| mutates: "begin_task_mutation (ty_table x) = Some s \<Longrightarrow> pc \<in> {Acquiring t write bound, CFactory, Peripheral} \<Longrightarrow> task_step x (spawn True pc s x)"
| acquires: "thread_at x j b (Acquiring t write bound) \<Longrightarrow> acquire_begin t bound (ty_table x) = (s, r) \<Longrightarrow>
    task_step x (advance j b (acquire_pc t write bound r) s x)"
| awaits: "thread_at x j b (Awaiting p t write bound) \<Longrightarrow> 0 < op_done (tt_attempts (ty_table x) ! p) \<Longrightarrow>
    task_step x (advance j b (awaited_pc t write bound (tt_attempts (ty_table x) ! p)) (ty_table x) x)"
| opening_fails: "thread_at x j b (Factory p t) \<Longrightarrow> r = Inl e \<or> r = Inr None \<Longrightarrow> task_step x (advance j b (Settling p t r) (ty_table x) x)"
| opened: "thread_at x j b (Factory p t) \<Longrightarrow> admit_conn (ty_table x) = (s, k) \<Longrightarrow> task_step x (advance j b (Vetting p t k) s x)"
| vets: "thread_at x j b (Vetting p t k) \<Longrightarrow>
    task_step x (if tt_draining (ty_table x) then advance j b (Dropping p t k TShuttingDown) (ty_table x) x
                 else advance j b (Attaching p t k) (register_conn t k (ty_table x)) x)"
| attached: "thread_at x j b (Attaching p t k) \<Longrightarrow>
    task_step x (advance j b (case answer of None \<Rightarrow> Publishing p t k | Some e \<Rightarrow> Dropping p t k e) (ty_table x) x)"
| publishes: "thread_at x j b (Publishing p t k) \<Longrightarrow>
    task_step x (if tt_draining (ty_table x) then advance j b (Dropping p t k TShuttingDown) (ty_table x) x
                 else advance j b (Settling p t (Inr (Some k))) (publish t k (ty_table x)) (replaces t k x))"
| drops: "thread_at x j b (Dropping p t k e) \<Longrightarrow> task_step x (advance j b (Settling p t (Inl e)) (close_conn k (ty_table x)) x)"
| settles: "thread_at x j b (Settling p t r) \<Longrightarrow> task_step x (advance j b (Signalling p r) (settle_opening t p r (ty_table x)) x)"
| signals: "thread_at x j b (Signalling p r) \<Longrightarrow> task_step x (advance j b (Obtained r) (close_opening p (ty_table x)) x)"
| creation_fails: "thread_at x j b CFactory \<Longrightarrow> task_step x (advance j b Peripheral (ty_table x) x)"
| creation_opens: "thread_at x j b CFactory \<Longrightarrow> admit_conn (ty_table x) = (s, k) \<Longrightarrow> task_step x (advance j b (CVetting k) s x)"
| creation_vets: "thread_at x j b (CVetting k) \<Longrightarrow>
    task_step x (advance j b (if tt_draining (ty_table x) then CDropping k else CStarting k) (ty_table x) x)"
| creation_starts: "thread_at x j b (CStarting k) \<Longrightarrow>
    task_step x (case answer of None \<Rightarrow> advance j b (CDropping k) (ty_table x) x
                 | Some t \<Rightarrow> advance j b (CPublishing k t) (register_conn t k (ty_table x)) x)"
| creation_publishes: "thread_at x j b (CPublishing k t) \<Longrightarrow>
    task_step x (if tt_draining (ty_table x) then advance j b (CDropping k) (ty_table x) x
                 else advance j b (CRunning k t) (publish t k (ty_table x)) (replaces t k x))"
| creation_runs: "thread_at x j b (CRunning k t) \<Longrightarrow> task_step x (advance j b (if refused then CDropping k else Peripheral) (ty_table x) x)"
| creation_drops: "thread_at x j b (CDropping k) \<Longrightarrow> task_step x (advance j b Peripheral (close_conn k (ty_table x)) x)"
| ends: "thread_at x j b pc \<Longrightarrow> pc = Peripheral \<or> pc = Obtained r \<Longrightarrow>
    task_step x (advance j False Ended (if b then end_task_mutation (ty_table x) else ty_table x) x)"
| loses: "k < length (tt_conns (ty_table x)) \<Longrightarrow> \<not> tc_lost (tt_conns (ty_table x) ! k) \<Longrightarrow> task_step x (x\<lparr>ty_table := conn_lost k (ty_table x)\<rparr>)"
| prepares: "prepare_begin (ty_table x) = Inr s \<Longrightarrow> task_step x (spawn False Verifying s x)"
| unverified: "thread_at x j b Verifying \<Longrightarrow> task_step x (advance j b Ended (prepare_failed (ty_table x)) x)"
| verified: "thread_at x j b Verifying \<Longrightarrow> task_step x (advance j b (Closing (published (ty_table x))) (close_table (ty_table x)) x)"
| closes: "task_step x (spawn False (Closing (published (ty_table x))) (close_table (ty_table x)) x)"
| closing: "thread_at x j b (Closing (k # ks)) \<Longrightarrow> task_step x (advance j b (Closing ks) (close_conn k (ty_table x)) x)"

definition task_initial :: "task_sys \<Rightarrow> bool" where
  "task_initial x \<longleftrightarrow> x = \<lparr>ty_table = NewTaskSessionsWith, ty_threads = [], ty_replaced = []\<rparr>"

end
