(* ===== verification/TaskSessionsCorrect.thy ===== *)
theory TaskSessionsCorrect
  imports TaskSessions Threads
begin

text \<open>
  The connection table of the task adapter under every interleaving: acquisitions of a task share one attempt, every
  open connection is accounted for, and a verified shutdown excludes mutations.
\<close>

subsection \<open>Attempts\<close>

fun opener :: "nat \<Rightarrow> task_pc \<Rightarrow> bool" where
  "opener p (Factory i t) \<longleftrightarrow> i = p"
| "opener p (Vetting i t k) \<longleftrightarrow> i = p"
| "opener p (Attaching i t k) \<longleftrightarrow> i = p"
| "opener p (Publishing i t k) \<longleftrightarrow> i = p"
| "opener p (Dropping i t k e) \<longleftrightarrow> i = p"
| "opener p (Settling i t r) \<longleftrightarrow> i = p"
| "opener p (Signalling i r) \<longleftrightarrow> i = p"
| "opener p _ \<longleftrightarrow> False"

text \<open>The task that a thread is opening, with its attempt.\<close>

fun opening_at :: "task_pc \<Rightarrow> (string \<times> nat) option" where
  "opening_at (Factory p t) = Some (t, p)"
| "opening_at (Vetting p t k) = Some (t, p)"
| "opening_at (Attaching p t k) = Some (t, p)"
| "opening_at (Publishing p t k) = Some (t, p)"
| "opening_at (Dropping p t k e) = Some (t, p)"
| "opening_at (Settling p t r) = Some (t, p)"
| "opening_at _ = None"

definition settled_as :: "task_error + nat option \<Rightarrow> task_opening \<Rightarrow> bool" where
  "settled_as r a \<longleftrightarrow> op_err a = (case r of Inl e \<Rightarrow> Some e | Inr _ \<Rightarrow> None) \<and> op_entry a = (case r of Inr k \<Rightarrow> k | Inl _ \<Rightarrow> None)"

definition attempt_ok :: "task_table \<Rightarrow> task_pc \<Rightarrow> bool" where
  "attempt_ok s pc \<longleftrightarrow>
     (case opening_at pc of Some (t, p) \<Rightarrow> p < length (tt_attempts s) \<and> tt_opening s t = Some p | None \<Rightarrow> True) \<and>
     (case pc of Awaiting p t w b \<Rightarrow> p < length (tt_attempts s)
      | Signalling p r \<Rightarrow> p < length (tt_attempts s) \<and> settled_as r (tt_attempts s ! p)
      | _ \<Rightarrow> True)"

definition opening_inv :: "task_table \<Rightarrow> task_pc list \<Rightarrow> bool" where
  "opening_inv s cs \<longleftrightarrow>
     (\<forall>p < length (tt_attempts s). op_done (tt_attempts s ! p) + holders (opener p) cs = 1) \<and> (\<forall>pc \<in> set cs. attempt_ok s pc) \<and>
     (\<forall>t p. tt_opening s t = Some p \<longrightarrow> p < length (tt_attempts s) \<and> (\<exists>pc \<in> set cs. opening_at pc = Some (t, p)))"

lemma opener_opening: "opening_at pc = Some (t, p) \<Longrightarrow> opener i pc \<longleftrightarrow> i = p"
  by (cases pc) auto

lemma attempt_ok_cong: "tt_attempts s' = tt_attempts s \<Longrightarrow> tt_opening s' = tt_opening s \<Longrightarrow> attempt_ok s' pc = attempt_ok s pc"
  by (cases pc) (simp_all add: attempt_ok_def)

lemma opening_inv_cong: "tt_attempts s' = tt_attempts s \<Longrightarrow> tt_opening s' = tt_opening s \<Longrightarrow> opening_inv s' cs = opening_inv s cs"
proof -
  assume a: "tt_attempts s' = tt_attempts s" "tt_opening s' = tt_opening s"
  have "attempt_ok s' = attempt_ok s" by (rule ext) (rule attempt_ok_cong [OF a])
  then show ?thesis using a by (simp add: opening_inv_def)
qed

lemma opening_inv_thread: "opening_inv s cs \<Longrightarrow> j < length cs \<Longrightarrow> attempt_ok s (cs ! j)"
  by (simp add: opening_inv_def)

lemma opening_inv_opener:
  assumes "opening_inv s cs" "tt_opening s t = Some p"
  obtains i where "p < length (tt_attempts s)" "i < length cs" "opening_at (cs ! i) = Some (t, p)"
proof -
  have "p < length (tt_attempts s)" "\<exists>pc \<in> set cs. opening_at pc = Some (t, p)" using assms unfolding opening_inv_def by blast+
  then show ?thesis using that by (auto simp: in_set_conv_nth)
qed

text \<open>A thread that stays at the same attempt, and a new thread.\<close>

lemma opening_inv_move:
  assumes "opening_inv s cs" "j < length cs" "\<And>p. opener p pc = opener p (cs ! j)" "opening_at pc = opening_at (cs ! j)" "attempt_ok s pc"
  shows "opening_inv s (cs[j := pc])"
  unfolding opening_inv_def
proof (intro conjI allI impI)
  fix p
  assume "p < length (tt_attempts s)"
  then show "op_done (tt_attempts s ! p) + holders (opener p) (cs[j := pc]) = 1"
    using assms(1) by (simp add: opening_inv_def holders_same [OF assms(2) assms(3)])
next
  show "\<forall>pc' \<in> set (cs[j := pc]). attempt_ok s pc'" using assms(1,5) set_update_subset_insert [of cs j pc] by (auto simp: opening_inv_def)
next
  fix t p
  assume "tt_opening s t = Some p"
  then obtain i where "p < length (tt_attempts s)" "i < length cs" "opening_at (cs ! i) = Some (t, p)"
    using opening_inv_opener [OF assms(1)] by blast
  then have "p < length (tt_attempts s)" "cs[j := pc] ! i \<in> set (cs[j := pc])" "opening_at (cs[j := pc] ! i) = Some (t, p)"
    using assms(2,4) nth_mem [of i "cs[j := pc]"] by (simp_all add: nth_list_update)
  then show "p < length (tt_attempts s)" "\<exists>pc' \<in> set (cs[j := pc]). opening_at pc' = Some (t, p)" by blast+
qed

lemma opening_inv_new:
  assumes "opening_inv s cs" "\<And>p. \<not> opener p pc" "opening_at pc = None" "attempt_ok s pc"
  shows "opening_inv s (cs @ [pc])"
  using assms by (fastforce simp: opening_inv_def)

text \<open>The thread that opens a new attempt.\<close>

lemma opening_inv_opens:
  assumes "opening_inv s cs" "j < length cs" "\<And>p. \<not> opener p (cs ! j)" "tt_opening s t = None" "tt_attempts s' = tt_attempts s @ [new_opening]"
    "tt_opening s' = (tt_opening s)(t := Some (length (tt_attempts s)))"
  shows "opening_inv s' (cs[j := Factory (length (tt_attempts s)) t])"
proof -
  let ?n = "length (tt_attempts s)" and ?cs = "cs[j := Factory (length (tt_attempts s)) t]"
  have h: "holders (opener p) ?cs = holders (opener p) cs + (if p = ?n then 1 else 0)" for p
    using holders_update [OF assms(2), of "opener p" "Factory ?n t"] assms(3) by auto
  have none: "opening_at (cs ! j) = None" using assms(3) opener_opening by (metis option.exhaust surj_pair)
  have fresh: "\<not> opener ?n pc" if "pc \<in> set cs" for pc
    using assms(1) that by (cases pc) (auto simp: opening_inv_def attempt_ok_def)
  have ok: "attempt_ok s' pc" if "attempt_ok s pc" for pc
  proof (cases "opening_at pc")
    case (Some u)
    then obtain u' p where "opening_at pc = Some (u', p)" by (cases u) auto
    then show ?thesis using that assms(4-6) by (cases pc) (auto simp: attempt_ok_def)
  next
    case None
    then show ?thesis using that assms(4-6) by (cases pc) (auto simp: attempt_ok_def nth_append)
  qed
  show ?thesis
    unfolding opening_inv_def
  proof (intro conjI allI impI)
    fix p
    assume p: "p < length (tt_attempts s')"
    show "op_done (tt_attempts s' ! p) + holders (opener p) ?cs = 1"
    proof (cases "p = ?n")
      case True
      have "holders (opener ?n) cs = 0" using fresh by (simp add: holders_none)
      then show ?thesis by (simp add: h True assms(5) new_opening_def)
    next
      case False
      then show ?thesis using assms(1) p by (simp add: h opening_inv_def assms(5) nth_append)
    qed
  next
    have "attempt_ok s' (Factory ?n t)" by (simp add: attempt_ok_def assms(5,6))
    then show "\<forall>pc \<in> set ?cs. attempt_ok s' pc" using assms(1) ok set_update_subset_insert [of cs j "Factory ?n t"] by (auto simp: opening_inv_def)
  next
    fix u p
    assume up: "tt_opening s' u = Some p"
    show "p < length (tt_attempts s')" using up assms(1,5,6) by (fastforce simp: opening_inv_def split: if_splits)
    show "\<exists>pc \<in> set ?cs. opening_at pc = Some (u, p)"
    proof (cases "u = t")
      case True
      then show ?thesis using up assms(2,6) by (intro bexI [of _ "Factory ?n t"]) (auto simp: set_update_memI)
    next
      case False
      then obtain i where i: "i < length cs" "opening_at (cs ! i) = Some (u, p)"
        using up opening_inv_opener [OF assms(1), of u p] assms(6) by auto
      then have "i \<noteq> j" using none by auto
      then show ?thesis using i by (intro bexI [of _ "cs ! i"]) (auto simp: in_set_conv_nth intro!: exI [of _ i])
    qed
  qed
qed

text \<open>An attempt has one opener until it is signalled.\<close>

lemma sole_opener:
  assumes "opening_inv s cs" "j < length cs" "opener p (cs ! j)" "p < length (tt_attempts s)"
  shows "op_done (tt_attempts s ! p) = 0" "holders (opener p) cs = 1" "i < length cs \<Longrightarrow> i \<noteq> j \<Longrightarrow> \<not> opener p (cs ! i)"
proof -
  have sum: "op_done (tt_attempts s ! p) + holders (opener p) cs = 1" using assms(1,4) by (simp add: opening_inv_def)
  have "holders (opener p) cs \<noteq> 0" using assms(2,3) by (auto simp: holders_none)
  then show one: "op_done (tt_attempts s ! p) = 0" "holders (opener p) cs = 1" using sum by simp_all
  show "i < length cs \<Longrightarrow> i \<noteq> j \<Longrightarrow> \<not> opener p (cs ! i)" using holders_one [of "opener p" cs i j] one(2) assms(2,3) by auto
qed

lemma opening_inv_settle:
  assumes inv: "opening_inv s cs" and j: "j < length cs" "cs ! j = Settling p t r"
  shows "opening_inv (settle_opening t p r s) (cs[j := Signalling p r])"
proof -
  let ?s = "settle_opening t p r s" and ?cs = "cs[j := Signalling p r]"
  have p: "p < length (tt_attempts s)" "tt_opening s t = Some p" using opening_inv_thread [OF inv j(1)] by (simp_all add: j attempt_ok_def)
  have "opener p (cs ! j)" by (simp add: j)
  note sole = sole_opener [OF inv j(1) this p(1)]
  have s': "length (tt_attempts ?s) = length (tt_attempts s)" "op_done (tt_attempts ?s ! i) = op_done (tt_attempts s ! i)"
    "settled_as r (tt_attempts ?s ! p)" "i \<noteq> p \<Longrightarrow> tt_attempts ?s ! i = tt_attempts s ! i" "tt_opening ?s = (tt_opening s)(t := None)" for i
    using p by (auto simp: settle_opening_def upd_opening_def nth_list_update settled_as_def split: sum.split)
  have other: "attempt_ok ?s (cs ! i)" if i: "i < length cs" "i \<noteq> j" for i
  proof -
    have "attempt_ok s (cs ! i)" "\<not> opener p (cs ! i)" using opening_inv_thread [OF inv i(1)] sole(3) i by blast+
    then show ?thesis using p s' by (cases "cs ! i") (auto simp: attempt_ok_def)
  qed
  show ?thesis
    unfolding opening_inv_def
  proof (intro conjI allI impI)
    fix i
    assume "i < length (tt_attempts ?s)"
    then show "op_done (tt_attempts ?s ! i) + holders (opener i) ?cs = 1"
      using inv holders_same [OF j(1), of "opener i" "Signalling p r"] by (simp add: j s' opening_inv_def)
  next
    have "attempt_ok ?s (Signalling p r)" using p s' by (simp add: attempt_ok_def)
    then show "\<forall>pc \<in> set ?cs. attempt_ok ?s pc" using other all_update [OF j(1)] by blast
  next
    fix u i
    assume "tt_opening ?s u = Some i"
    then have u: "u \<noteq> t" "tt_opening s u = Some i" by (auto simp: s' split: if_splits)
    then obtain l where "i < length (tt_attempts s)" "l < length cs" "opening_at (cs ! l) = Some (u, i)"
      using opening_inv_opener [OF inv] by blast
    moreover from this have "l \<noteq> j" using u(1) by (auto simp: j)
    ultimately show "i < length (tt_attempts ?s)" "\<exists>pc \<in> set ?cs. opening_at pc = Some (u, i)"
      by (auto simp: s' in_set_conv_nth intro!: bexI [of _ "cs ! l"] exI [of _ l])
  qed
qed

lemma opening_inv_signal:
  assumes inv: "opening_inv s cs" and j: "j < length cs" "cs ! j = Signalling p r"
  shows "opening_inv (close_opening p s) (cs[j := Obtained r])"
proof -
  let ?s = "close_opening p s" and ?cs = "cs[j := Obtained r]"
  have p: "p < length (tt_attempts s)" using opening_inv_thread [OF inv j(1)] by (simp add: j attempt_ok_def)
  have "opener p (cs ! j)" by (simp add: j)
  note sole = sole_opener [OF inv j(1) this p]
  have s': "length (tt_attempts ?s) = length (tt_attempts s)" "op_done (tt_attempts ?s ! i) = (if i = p then 1 else op_done (tt_attempts s ! i))"
    "op_err (tt_attempts ?s ! i) = op_err (tt_attempts s ! i)" "op_entry (tt_attempts ?s ! i) = op_entry (tt_attempts s ! i)" "tt_opening ?s = tt_opening s" for i
    using p sole(1) by (auto simp: close_opening_def upd_opening_def nth_list_update)
  have ok: "attempt_ok ?s pc = attempt_ok s pc" for pc by (cases pc) (simp_all add: attempt_ok_def settled_as_def s')
  show ?thesis
    unfolding opening_inv_def
  proof (intro conjI allI impI)
    fix i
    assume i: "i < length (tt_attempts ?s)"
    have "holders (opener i) ?cs + (if i = p then 1 else 0) = holders (opener i) cs"
      using holders_update [OF j(1), of "opener i" "Obtained r"] by (auto simp: j split: if_splits)
    then show "op_done (tt_attempts ?s ! i) + holders (opener i) ?cs = 1" using inv i sole(2) by (auto simp: s' opening_inv_def split: if_splits)
  next
    have "attempt_ok s (Obtained r)" by (simp add: attempt_ok_def)
    then show "\<forall>pc \<in> set ?cs. attempt_ok ?s pc" using inv set_update_subset_insert [of cs j "Obtained r"] by (auto simp: ok opening_inv_def)
  next
    fix u i
    assume "tt_opening ?s u = Some i"
    then obtain l where "i < length (tt_attempts s)" "l < length cs" "opening_at (cs ! l) = Some (u, i)"
      using opening_inv_opener [OF inv, of u i] by (auto simp: s')
    moreover from this have "l \<noteq> j" by (auto simp: j)
    ultimately show "i < length (tt_attempts ?s)" "\<exists>pc \<in> set ?cs. opening_at pc = Some (u, i)"
      by (auto simp: s' in_set_conv_nth intro!: bexI [of _ "cs ! l"] exI [of _ l])
  qed
qed

subsection \<open>Connections\<close>

text \<open>The connections a thread is responsible for, those it has not registered yet, and those it will publish.\<close>

fun holds_conn :: "nat \<Rightarrow> task_pc \<Rightarrow> bool" where
  "holds_conn k (Vetting p t i) \<longleftrightarrow> i = k"
| "holds_conn k (Attaching p t i) \<longleftrightarrow> i = k"
| "holds_conn k (Publishing p t i) \<longleftrightarrow> i = k"
| "holds_conn k (Dropping p t i e) \<longleftrightarrow> i = k"
| "holds_conn k (CVetting i) \<longleftrightarrow> i = k"
| "holds_conn k (CStarting i) \<longleftrightarrow> i = k"
| "holds_conn k (CPublishing i t) \<longleftrightarrow> i = k"
| "holds_conn k (CDropping i) \<longleftrightarrow> i = k"
| "holds_conn k (Closing ks) \<longleftrightarrow> k \<in> set ks"
| "holds_conn k _ \<longleftrightarrow> False"

fun unregistered :: "nat \<Rightarrow> task_pc \<Rightarrow> bool" where
  "unregistered k (Vetting p t i) \<longleftrightarrow> i = k"
| "unregistered k (CVetting i) \<longleftrightarrow> i = k"
| "unregistered k (CStarting i) \<longleftrightarrow> i = k"
| "unregistered k _ \<longleftrightarrow> False"

fun will_publish :: "task_pc \<Rightarrow> (nat \<times> string) option" where
  "will_publish (Attaching p t k) = Some (k, t)"
| "will_publish (Publishing p t k) = Some (k, t)"
| "will_publish (CPublishing k t) = Some (k, t)"
| "will_publish _ = None"

definition conn_ok :: "task_table \<Rightarrow> task_pc \<Rightarrow> bool" where
  "conn_ok s pc \<longleftrightarrow>
     (\<forall>k. holds_conn k pc \<or> (\<exists>t. pc = CRunning k t) \<longrightarrow> k < length (tt_conns s)) \<and> (\<forall>k. unregistered k pc \<longrightarrow> tc_task (tt_conns s ! k) = None) \<and>
     (case will_publish pc of Some (k, t) \<Rightarrow> tc_task (tt_conns s ! k) = Some t | None \<Rightarrow> True)"

definition accounted :: "task_table \<Rightarrow> task_pc list \<Rightarrow> nat list \<Rightarrow> nat \<Rightarrow> bool" where
  "accounted s cs rep k \<longleftrightarrow>
     0 < tc_closed (tt_conns s ! k) \<or> tc_lost (tt_conns s ! k) \<or> (\<exists>t. tt_entries s t = Some k) \<or> (\<exists>pc \<in> set cs. holds_conn k pc) \<or> k \<in> set rep"

definition conn_inv :: "task_table \<Rightarrow> task_pc list \<Rightarrow> nat list \<Rightarrow> bool" where
  "conn_inv s cs rep \<longleftrightarrow>
     (\<forall>t k. tt_entries s t = Some k \<longrightarrow> k < length (tt_conns s) \<and> tc_task (tt_conns s ! k) = Some t) \<and> (\<forall>pc \<in> set cs. conn_ok s pc) \<and>
     (\<forall>k. holders (unregistered k) cs \<le> 1) \<and> (\<forall>k < length (tt_conns s). accounted s cs rep k)"

lemma conn_inv_cong:
  assumes "tt_conns s' = tt_conns s" "tt_entries s' = tt_entries s"
  shows "conn_inv s' cs rep = conn_inv s cs rep"
  unfolding conn_inv_def conn_ok_def accounted_def assms ..

lemma conn_inv_thread: "conn_inv s cs rep \<Longrightarrow> j < length cs \<Longrightarrow> conn_ok s (cs ! j)"
  by (simp add: conn_inv_def)

text \<open>
  A section that keeps the registered tasks and moves the thread \<open>j\<close>: what the thread gives up must be closed, lost,
  published or replaced, and so must what is taken out of the table.
\<close>

lemma conn_inv_step:
  assumes inv: "conn_inv s cs rep" and j: "j < length cs"
    and kept: "length (tt_conns s') = length (tt_conns s)" "\<And>k. k < length (tt_conns s) \<Longrightarrow> tc_task (tt_conns s' ! k) = tc_task (tt_conns s ! k)"
    and entries: "\<And>t k. tt_entries s' t = Some k \<Longrightarrow> k < length (tt_conns s) \<and> tc_task (tt_conns s ! k) = Some t"
    and pc: "\<And>k. unregistered k pc \<Longrightarrow> unregistered k (cs ! j)" "conn_ok s' pc"
    and out: "\<And>k. k < length (tt_conns s) \<Longrightarrow> accounted s cs rep k \<Longrightarrow> holds_conn k (cs ! j) \<Longrightarrow> accounted s' (cs[j := pc]) rep' k"
    and rest: "\<And>k. k < length (tt_conns s) \<Longrightarrow> accounted s [] rep k \<Longrightarrow> accounted s' [pc] rep' k"
  shows "conn_inv s' (cs[j := pc]) rep'"
proof -
  have ok: "conn_ok s' pc'" if "conn_ok s pc'" for pc'
  proof -
    have "k < length (tt_conns s)" if "will_publish pc' = Some (k, t)" for k t using \<open>conn_ok s pc'\<close> that by (cases pc') (auto simp: conn_ok_def)
    moreover have "k < length (tt_conns s)" if "unregistered k pc'" for k using \<open>conn_ok s pc'\<close> that by (cases pc') (auto simp: conn_ok_def)
    ultimately show ?thesis using that kept by (auto simp: conn_ok_def split: option.splits)
  qed
  have "holders (unregistered k) (cs[j := pc]) \<le> 1" for k
    using holders_update [OF j, of "unregistered k" pc] inv pc(1) [of k] by (auto simp: conn_inv_def split: if_splits dest: spec [of _ k])
  moreover have "accounted s' (cs[j := pc]) rep' k" if k: "k < length (tt_conns s)" for k
  proof -
    have acc: "accounted s cs rep k" using inv k by (simp add: conn_inv_def)
    then consider "accounted s [] rep k" | i where "i < length cs" "holds_conn k (cs ! i)" by (auto simp: accounted_def in_set_conv_nth)
    then show ?thesis
    proof cases
      case 1
      then have "accounted s' [pc] rep' k" by (rule rest [OF k])
      then show ?thesis using j set_update_memI [OF j, of pc] by (auto simp: accounted_def)
    next
      case 2
      show ?thesis
      proof (cases "i = j")
        case True
        then show ?thesis using out [OF k acc] 2 by simp
      next
        case False
        then have "cs ! i \<in> set (cs[j := pc])" using 2(1) nth_mem [of i "cs[j := pc]"] by simp
        then show ?thesis using 2(2) by (auto simp: accounted_def)
      qed
    qed
  qed
  ultimately show ?thesis
    using inv ok entries kept pc(2) set_update_subset_insert [of cs j pc] by (auto simp: conn_inv_def)
qed

lemma accounted_held: "pc \<in> set cs \<Longrightarrow> holds_conn k pc \<Longrightarrow> accounted s cs rep k"
  by (auto simp: accounted_def)

lemma conn_inv_move:
  assumes "conn_inv s cs rep" "j < length cs" "\<And>k. holds_conn k (cs ! j) \<Longrightarrow> holds_conn k pc" "\<And>k. unregistered k pc \<Longrightarrow> unregistered k (cs ! j)" "conn_ok s pc"
  shows "conn_inv s (cs[j := pc]) rep"
proof (rule conn_inv_step [OF assms(1,2)])
  show "accounted s (cs[j := pc]) rep k" if "holds_conn k (cs ! j)" for k
    by (rule accounted_held [OF set_update_memI [OF assms(2)] assms(3) [OF that]])
qed (use assms in \<open>auto simp: accounted_def conn_inv_def\<close>)

lemma conn_inv_new:
  assumes "conn_inv s cs rep" "\<And>k. \<not> holds_conn k pc \<and> \<not> unregistered k pc" "will_publish pc = None" "\<And>k t. pc \<noteq> CRunning k t"
  shows "conn_inv s (cs @ [pc]) rep"
  using assms by (auto simp: conn_inv_def conn_ok_def accounted_def)

lemma close_conn_fields:
  "tt_entries (close_conn k s) = tt_entries s" "length (tt_conns (close_conn k s)) = length (tt_conns s)"
  "i < length (tt_conns s) \<Longrightarrow> tc_task (tt_conns (close_conn k s) ! i) = tc_task (tt_conns s ! i)"
  "i < length (tt_conns s) \<Longrightarrow> tc_lost (tt_conns (close_conn k s) ! i) = tc_lost (tt_conns s ! i)"
  "i < length (tt_conns s) \<Longrightarrow> tc_closed (tt_conns (close_conn k s) ! i) = tc_closed (tt_conns s ! i) + (if i = k then 1 else 0)"
  by (cases "k < length (tt_conns s)"; auto simp: close_conn_def upd_conn_def nth_list_update)+

text \<open>Closing the connection \<open>k\<close> and giving it up.\<close>

lemma conn_inv_close:
  assumes inv: "conn_inv s cs rep" and j: "j < length cs" and pc: "\<And>i. holds_conn i (cs ! j) \<Longrightarrow> i \<noteq> k \<Longrightarrow> holds_conn i pc"
    "\<And>i. holds_conn i pc \<Longrightarrow> holds_conn i (cs ! j)" "\<And>i. \<not> unregistered i pc" "will_publish pc = None" "\<And>i t. pc \<noteq> CRunning i t"
  shows "conn_inv (close_conn k s) (cs[j := pc]) rep"
proof (rule conn_inv_step [OF inv j])
  show "conn_ok (close_conn k s) pc" using conn_inv_thread [OF inv j] pc by (auto simp: conn_ok_def close_conn_fields)
next
  fix i
  assume i: "i < length (tt_conns s)" "holds_conn i (cs ! j)"
  show "accounted (close_conn k s) (cs[j := pc]) rep i"
  proof (cases "i = k")
    case True
    then show ?thesis using i by (simp add: accounted_def close_conn_fields)
  next
    case False
    then show ?thesis by (rule accounted_held [OF set_update_memI [OF j] pc(1) [OF i(2)]])
  qed
next
  fix i
  assume "i < length (tt_conns s)" "accounted s [] rep i"
  then show "accounted (close_conn k s) [pc] rep i" by (auto simp: accounted_def close_conn_fields)
qed (use inv pc in \<open>auto simp: close_conn_fields conn_inv_def\<close>)

text \<open>The other sections: a new connection, a registration, a publication, a loss, and the closing of the table.\<close>

lemma conn_inv_admit:
  assumes inv: "conn_inv s cs rep" and j: "j < length cs" "\<And>k. \<not> holds_conn k (cs ! j)" "\<And>k. \<not> unregistered k (cs ! j)"
    and admit: "admit_conn s = (s', n)" and pc: "\<And>k. holds_conn k pc \<longleftrightarrow> k = n" "\<And>k. unregistered k pc \<longleftrightarrow> k = n" "will_publish pc = None" "\<And>k t. pc \<noteq> CRunning k t"
  shows "conn_inv s' (cs[j := pc]) rep"
proof -
  have s': "tt_conns s' = tt_conns s @ [new_conn]" "tt_entries s' = tt_entries s" "n = length (tt_conns s)" using admit by (auto simp: admit_conn_def)
  have old: "tt_conns s' ! k = tt_conns s ! k" if "k < length (tt_conns s)" for k using that by (simp add: s' nth_append)
  have fresh: "\<not> unregistered n pc'" if "pc' \<in> set cs" for pc'
    using inv that by (cases pc') (auto simp: conn_inv_def conn_ok_def s'(3))
  have ok: "conn_ok s' pc'" if "pc' \<in> set cs" for pc'
  proof -
    have c: "conn_ok s pc'" using inv that by (simp add: conn_inv_def)
    have "k < length (tt_conns s)" if "will_publish pc' = Some (k, t)" for k t using c that by (cases pc') (auto simp: conn_ok_def)
    moreover have "k < length (tt_conns s)" if "unregistered k pc'" for k using c that by (cases pc') (auto simp: conn_ok_def)
    ultimately show ?thesis using c old by (fastforce simp: conn_ok_def s'(1) split: option.splits)
  qed
  have "conn_ok s' pc" using pc by (auto simp: conn_ok_def s' new_conn_def)
  then have "\<forall>pc' \<in> set (cs[j := pc]). conn_ok s' pc'" using ok set_update_subset_insert [of cs j pc] by auto
  moreover have "holders (unregistered k) (cs[j := pc]) \<le> 1" for k
  proof (cases "k = n")
    case True
    have "holders (unregistered n) cs = 0" using fresh by (simp add: holders_none)
    then show ?thesis using holders_update [OF j(1), of "unregistered n" pc] j(3) True by simp
  next
    case False
    then show ?thesis using holders_update [OF j(1), of "unregistered k" pc] j(3) pc(2) inv by (auto simp: conn_inv_def dest: spec [of _ k])
  qed
  moreover have "accounted s' (cs[j := pc]) rep k" if "k < length (tt_conns s')" for k
  proof (cases "k = n")
    case True
    then show ?thesis by (intro accounted_held [OF set_update_memI [OF j(1)]]) (simp add: pc(1))
  next
    case False
    then have k: "k < length (tt_conns s)" using that by (simp add: s')
    then have acc: "accounted s cs rep k" using inv by (simp add: conn_inv_def)
    have "\<exists>pc' \<in> set (cs[j := pc]). holds_conn k pc'" if held: "\<exists>pc' \<in> set cs. holds_conn k pc'"
    proof -
      obtain i where i: "i < length cs" "holds_conn k (cs ! i)" using held by (auto simp: in_set_conv_nth)
      then have "i \<noteq> j" using j(2) by blast
      then show ?thesis using i nth_mem [of i "cs[j := pc]"] by (intro bexI [of _ "cs ! i"]) simp_all
    qed
    then show ?thesis using acc by (auto simp: accounted_def old [OF k] s'(2))
  qed
  moreover have "k < length (tt_conns s') \<and> tc_task (tt_conns s' ! k) = Some t" if e: "tt_entries s' t = Some k" for t k
  proof -
    have "k < length (tt_conns s)" "tc_task (tt_conns s ! k) = Some t" using inv e by (simp_all add: conn_inv_def s'(2))
    then show ?thesis using old by (simp add: s'(1))
  qed
  ultimately show ?thesis by (simp add: conn_inv_def)
qed

lemma conn_inv_register:
  assumes inv: "conn_inv s cs rep" and j: "j < length cs" "unregistered k (cs ! j)" "holds_conn k (cs ! j)" "\<And>i. holds_conn i (cs ! j) \<Longrightarrow> i = k"
    and pc: "\<And>i. holds_conn i pc \<longleftrightarrow> i = k" "\<And>i. \<not> unregistered i pc" "will_publish pc = Some (k, t)" "\<And>i u. pc \<noteq> CRunning i u"
  shows "conn_inv (register_conn t k s) (cs[j := pc]) rep"
proof -
  let ?s = "register_conn t k s"
  have k: "k < length (tt_conns s)" "tc_task (tt_conns s ! k) = None" using conn_inv_thread [OF inv j(1)] j(2,3) by (auto simp: conn_ok_def)
  have s': "length (tt_conns ?s) = length (tt_conns s)" "tt_entries ?s = tt_entries s" "tc_task (tt_conns ?s ! i) = (if i = k then Some t else tc_task (tt_conns s ! i))"
    "tc_closed (tt_conns ?s ! i) = tc_closed (tt_conns s ! i)" "tc_lost (tt_conns ?s ! i) = tc_lost (tt_conns s ! i)" for i
    using k(1) by (auto simp: register_conn_def upd_conn_def nth_list_update)
  have one: "\<not> unregistered k (cs ! i)" if "i < length cs" "i \<noteq> j" for i
    using holders_one [of "unregistered k" cs i j] inv that j(1,2) by (auto simp: conn_inv_def)
  have other: "conn_ok ?s (cs ! i)" if i: "i < length cs" "i \<noteq> j" for i
    using conn_inv_thread [OF inv i(1)] one [OF i] k(2) by (auto simp: conn_ok_def s' split: option.splits)
  have "conn_ok ?s pc" using pc k by (auto simp: conn_ok_def s')
  then have "\<forall>pc' \<in> set (cs[j := pc]). conn_ok ?s pc'" using other all_update [OF j(1)] by blast
  moreover have "holders (unregistered i) (cs[j := pc]) \<le> 1" for i
    using holders_update [OF j(1), of "unregistered i" pc] pc(2) inv by (auto simp: conn_inv_def dest: spec [of _ i])
  moreover have "accounted ?s (cs[j := pc]) rep i" if i: "i < length (tt_conns ?s)" for i
  proof -
    have acc: "accounted s cs rep i" using inv i by (simp add: conn_inv_def s')
    have "\<exists>pc' \<in> set (cs[j := pc]). holds_conn i pc'" if held: "\<exists>pc' \<in> set cs. holds_conn i pc'"
    proof -
      obtain l where l: "l < length cs" "holds_conn i (cs ! l)" using held by (auto simp: in_set_conv_nth)
      show ?thesis
      proof (cases "l = j")
        case True
        then show ?thesis using l j(4) pc(1) set_update_memI [OF j(1), of pc] by blast
      next
        case False
        then show ?thesis using l nth_mem [of l "cs[j := pc]"] by (intro bexI [of _ "cs ! l"]) simp_all
      qed
    qed
    then show ?thesis using acc by (auto simp: accounted_def s')
  qed
  moreover have "i < length (tt_conns ?s) \<and> tc_task (tt_conns ?s ! i) = Some u" if "tt_entries ?s u = Some i" for u i
    using inv that k(2) by (auto simp: conn_inv_def s')
  ultimately show ?thesis by (simp add: conn_inv_def)
qed

lemma conn_inv_publish:
  assumes inv: "conn_inv s cs (rep)" and j: "j < length cs" "will_publish (cs ! j) = Some (k, t)" "\<And>i. holds_conn i (cs ! j) \<longleftrightarrow> i = k"
    and pc: "\<And>i. \<not> holds_conn i pc" "\<And>i. \<not> unregistered i pc" "will_publish pc = None" "\<And>i u. pc = CRunning i u \<Longrightarrow> i = k"
    and rep': "set rep' = set rep \<union> {i. tt_entries s t = Some i \<and> i \<noteq> k}"
  shows "conn_inv (publish t k s) (cs[j := pc]) rep'"
proof (rule conn_inv_step [OF inv j(1)])
  have k: "k < length (tt_conns s)" "tc_task (tt_conns s ! k) = Some t" using conn_inv_thread [OF inv j(1)] j(2,3) by (auto simp: conn_ok_def)
  show "conn_ok (publish t k s) pc" using pc k by (auto simp: conn_ok_def publish_def)
  show "i < length (tt_conns s) \<and> tc_task (tt_conns s ! i) = Some u" if "tt_entries (publish t k s) u = Some i" for u i
    using inv that k by (auto simp: publish_def conn_inv_def split: if_splits)
  show "accounted (publish t k s) (cs[j := pc]) rep' i" if "holds_conn i (cs ! j)" for i
    using j(3) that by (auto simp: accounted_def publish_def)
  show "accounted (publish t k s) [pc] rep' i" if "accounted s [] rep i" for i
    using that rep' by (auto simp: accounted_def publish_def split: if_splits)
qed (simp_all add: publish_def pc)

lemma conn_inv_lost:
  assumes inv: "conn_inv s cs rep" and k: "k < length (tt_conns s)"
  shows "conn_inv (conn_lost k s) cs rep"
proof -
  let ?s = "conn_lost k s"
  have s': "length (tt_conns ?s) = length (tt_conns s)" "tc_task (tt_conns ?s ! i) = tc_task (tt_conns s ! i)" "tc_closed (tt_conns ?s ! i) = tc_closed (tt_conns s ! i)"
    "tc_lost (tt_conns ?s ! i) \<longleftrightarrow> i = k \<or> tc_lost (tt_conns s ! i)" "tt_entries ?s t = Some i \<Longrightarrow> tt_entries s t = Some i"
    "tt_entries s t = Some i \<Longrightarrow> i \<noteq> k \<Longrightarrow> tt_entries ?s t = Some i" for i t
    using k by (auto simp: conn_lost_def upd_conn_def Let_def nth_list_update split: option.splits if_splits)
  have "conn_ok ?s pc = conn_ok s pc" for pc by (simp add: conn_ok_def s' split: option.split)
  moreover have "accounted ?s cs rep i" if "accounted s cs rep i" for i using that s'(6) by (auto simp: accounted_def s'(3,4))
  moreover have "i < length (tt_conns s) \<and> tc_task (tt_conns s ! i) = Some t" if "tt_entries ?s t = Some i" for t i
    using inv s'(5) [OF that] by (simp add: conn_inv_def)
  ultimately show ?thesis using inv by (simp add: conn_inv_def s'(1,2))
qed

lemma published_entries:
  assumes "conn_inv s cs rep"
  shows "set (published s) = {k. \<exists>t. tt_entries s t = Some k}"
  using assms by (auto simp: published_def conn_inv_def split: option.splits)

lemma conn_inv_closed:
  assumes inv: "conn_inv s cs rep"
  shows "conn_inv (close_table s) (cs @ [Closing (published s)]) rep"
    "j < length cs \<Longrightarrow> cs ! j = Verifying \<Longrightarrow> conn_inv (close_table s) (cs[j := Closing (published s)]) rep"
proof -
  note pub = published_entries [OF inv]
  have c: "tt_conns (close_table s) = tt_conns s" "tt_entries (close_table s) t = None" for t by (simp_all add: close_table_def)
  have ok: "conn_ok s' (Closing (published s))" if "tt_conns s' = tt_conns s" for s'
    using inv that pub by (auto simp: conn_ok_def conn_inv_def)
  have same: "conn_ok (close_table s) pc = conn_ok s pc" for pc by (simp add: conn_ok_def close_table_def split: option.split)
  show "conn_inv (close_table s) (cs @ [Closing (published s)]) rep"
    using inv ok [OF c(1)] pub by (auto simp: conn_inv_def same accounted_def c)
  assume j: "j < length cs" "cs ! j = Verifying"
  show "conn_inv (close_table s) (cs[j := Closing (published s)]) rep"
  proof (rule conn_inv_step [OF inv j(1)])
    show "conn_ok (close_table s) (Closing (published s))" by (rule ok) (simp add: close_table_def)
    show "accounted (close_table s) [Closing (published s)] rep i" if "accounted s [] rep i" for i
      using that pub by (auto simp: accounted_def close_table_def)
  qed (simp_all add: j close_table_def)
qed

subsection \<open>Mutations and shutdown\<close>

definition mutation_inv :: "task_table \<Rightarrow> (bool \<times> task_pc) list \<Rightarrow> bool" where
  "mutation_inv s ts \<longleftrightarrow>
     tt_writes s = int (holders fst ts) \<and> holders (\<lambda>u. snd u = Verifying) ts \<le> 1 \<and>
     (holders (\<lambda>u. snd u = Verifying) ts \<noteq> 0 \<longrightarrow> tt_draining s \<and> holders fst ts = 0)"

lemma mutation_inv_same:
  assumes "mutation_inv s ts" "j < length ts" "ts ! j = (b, pc0)" "pc0 \<noteq> Verifying" "pc \<noteq> Verifying" "tt_writes s' = tt_writes s"
    "tt_draining s \<Longrightarrow> tt_draining s'"
  shows "mutation_inv s' (ts[j := (b, pc)])"
  using assms holders_same [OF assms(2), of fst "(b, pc)"] holders_same [OF assms(2), of "\<lambda>u. snd u = Verifying" "(b, pc)"]
  by (auto simp: mutation_inv_def)

subsection \<open>Every interleaving\<close>

definition task_inv :: "task_sys \<Rightarrow> bool" where
  "task_inv x \<longleftrightarrow> opening_inv (ty_table x) (map snd (ty_threads x)) \<and> conn_inv (ty_table x) (map snd (ty_threads x)) (ty_replaced x) \<and>
     mutation_inv (ty_table x) (ty_threads x)"

lemma thread_facts:
  assumes "task_inv x" "thread_at x j b pc"
  shows "j < length (map snd (ty_threads x))" "map snd (ty_threads x) ! j = pc" "attempt_ok (ty_table x) pc" "conn_ok (ty_table x) pc"
    "opening_inv (ty_table x) (map snd (ty_threads x))" "conn_inv (ty_table x) (map snd (ty_threads x)) (ty_replaced x)"
proof -
  show j: "j < length (map snd (ty_threads x))" "map snd (ty_threads x) ! j = pc" using assms(2) by (simp_all add: thread_at_def)
  show inv: "opening_inv (ty_table x) (map snd (ty_threads x))" "conn_inv (ty_table x) (map snd (ty_threads x)) (ty_replaced x)"
    using assms(1) by (simp_all add: task_inv_def)
  show "attempt_ok (ty_table x) pc" "conn_ok (ty_table x) pc" using opening_inv_thread [OF inv(1) j(1)] conn_inv_thread [OF inv(2) j(1)] j(2) by simp_all
qed

lemma inv_advance:
  assumes "task_inv x" "thread_at x j b pc0" "ty_threads x' = ty_threads x" "opening_inv s ((map snd (ty_threads x))[j := pc])"
    "conn_inv s ((map snd (ty_threads x))[j := pc]) (ty_replaced x')" "tt_writes s = tt_writes (ty_table x)"
    "tt_draining (ty_table x) \<Longrightarrow> tt_draining s" "pc0 \<noteq> Verifying" "pc \<noteq> Verifying"
  shows "task_inv (advance j b pc s x')"
proof -
  have "mutation_inv s ((ty_threads x)[j := (b, pc)])"
    using mutation_inv_same [of "ty_table x" "ty_threads x" j b pc0 pc s] assms by (simp add: task_inv_def thread_at_def)
  then show ?thesis using assms(3-5) by (simp add: task_inv_def advance_def map_update)
qed

lemma inv_quiet:
  assumes "task_inv x" "thread_at x j b pc0" "\<And>p. opener p pc = opener p pc0" "opening_at pc = opening_at pc0" "attempt_ok (ty_table x) pc"
    "\<And>k. holds_conn k pc0 \<Longrightarrow> holds_conn k pc" "\<And>k. unregistered k pc \<Longrightarrow> unregistered k pc0" "conn_ok (ty_table x) pc" "pc0 \<noteq> Verifying" "pc \<noteq> Verifying"
  shows "task_inv (advance j b pc (ty_table x) x)"
proof -
  note f = thread_facts [OF assms(1,2)]
  show ?thesis
    by (rule inv_advance [OF assms(1,2) refl opening_inv_move [OF f(5,1)] conn_inv_move [OF f(6,1)]]) (use assms f(2) in simp_all)
qed

lemma replaces_threads: "ty_threads (replaces t k x) = ty_threads x"
  by (simp add: replaces_def)

lemma replaces_replaced: "set (ty_replaced (replaces t k x)) = set (ty_replaced x) \<union> {i. tt_entries (ty_table x) t = Some i \<and> i \<noteq> k}"
  by (cases "tt_entries (ty_table x) t") (auto simp: replaces_def)

text \<open>A section that changes the connections and the entries only.\<close>

lemma task_inv_section:
  assumes "task_inv x" "thread_at x j b pc0" "ty_threads x' = ty_threads x" "conn_inv s ((map snd (ty_threads x))[j := pc]) (ty_replaced x')"
    "tt_attempts s = tt_attempts (ty_table x)" "tt_opening s = tt_opening (ty_table x)" "tt_writes s = tt_writes (ty_table x)"
    "tt_draining s = tt_draining (ty_table x)" "\<And>p. opener p pc = opener p pc0" "opening_at pc = opening_at pc0" "attempt_ok (ty_table x) pc"
    "pc0 \<noteq> Verifying" "pc \<noteq> Verifying"
  shows "task_inv (advance j b pc s x')"
proof -
  note f = thread_facts [OF assms(1,2)]
  have "opening_inv (ty_table x) ((map snd (ty_threads x))[j := pc])" by (rule opening_inv_move [OF f(5,1)]) (use assms f(2) in simp_all)
  then have "opening_inv s ((map snd (ty_threads x))[j := pc])" by (subst opening_inv_cong [OF assms(5,6)])
  then show ?thesis by (rule inv_advance [OF assms(1-3)]) (use assms in simp_all)
qed

lemma task_inv_spawn:
  assumes "opening_inv s (map snd (ty_threads x) @ [pc])" "conn_inv s (map snd (ty_threads x) @ [pc]) (ty_replaced x)"
    "mutation_inv s (ty_threads x @ [(b, pc)])"
  shows "task_inv (spawn b pc s x)"
  using assms by (simp add: task_inv_def spawn_def)

lemma inv_task_step:
  assumes inv: "task_inv x" and step: "task_step x y"
  shows "task_inv y"
  using step
proof (cases rule: task_step.cases)
  case (acquires j b t wr bound s r)
  note f = thread_facts [OF inv acquires(2)]
  show ?thesis
  proof (cases "\<exists>p. r = TOpens p")
    case True
    then have s: "r = TOpens (length (tt_attempts (ty_table x)))" "tt_opening (ty_table x) t = None"
      "s = (ty_table x)\<lparr>tt_opening := (tt_opening (ty_table x))(t := Some (length (tt_attempts (ty_table x)))), tt_attempts := tt_attempts (ty_table x) @ [new_opening]\<rparr>"
      using acquires(3) by (auto simp: acquire_begin_def Let_def split: if_splits option.splits)
    have pc: "acquire_pc t wr bound r = Factory (length (tt_attempts (ty_table x))) t" by (simp add: acquire_pc_def s(1))
    have "conn_inv (ty_table x) ((map snd (ty_threads x))[j := Factory (length (tt_attempts (ty_table x))) t]) (ty_replaced x)"
      by (rule conn_inv_move [OF f(6,1)]) (use f(2) in \<open>simp_all add: conn_ok_def\<close>)
    then have "conn_inv s ((map snd (ty_threads x))[j := Factory (length (tt_attempts (ty_table x))) t]) (ty_replaced x)"
      by (subst conn_inv_cong [of s "ty_table x"]) (simp_all add: s(3))
    moreover have "opening_inv s ((map snd (ty_threads x))[j := Factory (length (tt_attempts (ty_table x))) t])"
      by (rule opening_inv_opens [OF f(5,1) _ s(2)]) (use f(2) s(3) in simp_all)
    ultimately show ?thesis unfolding acquires(1) pc by (intro inv_advance [OF inv acquires(2) refl]) (simp_all add: s(3))
  next
    case False
    then have s: "s = ty_table x" using acquires(3) by (auto simp: acquire_begin_def Let_def split: if_splits option.splits)
    have p: "p < length (tt_attempts (ty_table x))" if "r = TShared p" for p
      using acquires(3) that f(5) by (auto simp: acquire_begin_def opening_inv_def Let_def split: if_splits option.splits)
    show ?thesis unfolding acquires(1) s
      by (rule inv_quiet [OF inv acquires(2)]) (use False p in \<open>auto simp: acquire_pc_def attempt_ok_def conn_ok_def split: acquired.splits\<close>)
  qed
next
  case (settles j b p t r)
  note f = thread_facts [OF inv settles(2)]
  have "conn_inv (ty_table x) ((map snd (ty_threads x))[j := Signalling p r]) (ty_replaced x)"
    by (rule conn_inv_move [OF f(6,1)]) (use f(2) in \<open>simp_all add: conn_ok_def\<close>)
  then have "conn_inv (settle_opening t p r (ty_table x)) ((map snd (ty_threads x))[j := Signalling p r]) (ty_replaced x)"
    by (subst conn_inv_cong [of _ "ty_table x"]) (simp_all add: settle_opening_def upd_opening_def Let_def)
  then show ?thesis unfolding settles(1)
    by (intro inv_advance [OF inv settles(2) refl opening_inv_settle [OF f(5,1,2)]]) (simp_all add: settle_opening_def upd_opening_def Let_def)
next
  case (signals j b p r)
  note f = thread_facts [OF inv signals(2)]
  have "conn_inv (ty_table x) ((map snd (ty_threads x))[j := Obtained r]) (ty_replaced x)"
    by (rule conn_inv_move [OF f(6,1)]) (use f(2) in \<open>simp_all add: conn_ok_def\<close>)
  then have "conn_inv (close_opening p (ty_table x)) ((map snd (ty_threads x))[j := Obtained r]) (ty_replaced x)"
    by (subst conn_inv_cong [of _ "ty_table x"]) (simp_all add: close_opening_def upd_opening_def)
  then show ?thesis unfolding signals(1)
    by (intro inv_advance [OF inv signals(2) refl opening_inv_signal [OF f(5,1,2)]]) (simp_all add: close_opening_def upd_opening_def)
next
  case (awaits j b p t wr bound)
  show ?thesis unfolding awaits(1)
    by (rule inv_quiet [OF inv awaits(2)]) (auto simp: awaited_pc_def attempt_ok_def conn_ok_def split: option.splits if_splits)
next
  case (opening_fails j b p t r e)
  show ?thesis unfolding opening_fails(1)
    by (rule inv_quiet [OF inv opening_fails(2)]) (use thread_facts(3) [OF inv opening_fails(2)] in \<open>auto simp: attempt_ok_def conn_ok_def\<close>)
next
  case (attached j b p t k answer)
  show ?thesis unfolding attached(1)
    by (rule inv_quiet [OF inv attached(2)]) (use thread_facts(3,4) [OF inv attached(2)] in \<open>auto simp: attempt_ok_def conn_ok_def split: option.splits\<close>)
next
  case (creation_fails j b)
  show ?thesis unfolding creation_fails(1) by (rule inv_quiet [OF inv creation_fails(2)]) (auto simp: attempt_ok_def conn_ok_def)
next
  case (creation_vets j b k)
  show ?thesis unfolding creation_vets(1)
    by (rule inv_quiet [OF inv creation_vets(2)]) (use thread_facts(3,4) [OF inv creation_vets(2)] in \<open>auto simp: attempt_ok_def conn_ok_def split: if_splits\<close>)
next
  case (creation_runs j b k t refused)
  show ?thesis unfolding creation_runs(1)
    by (rule inv_quiet [OF inv creation_runs(2)]) (use thread_facts(3,4) [OF inv creation_runs(2)] in \<open>auto simp: attempt_ok_def conn_ok_def split: if_splits\<close>)
next
  case (reads bound t)
  have "opening_inv (ty_table x) (map snd (ty_threads x))" "conn_inv (ty_table x) (map snd (ty_threads x)) (ty_replaced x)" "mutation_inv (ty_table x) (ty_threads x)"
    using inv by (simp_all add: task_inv_def)
  then show ?thesis unfolding reads
    by (intro task_inv_spawn opening_inv_new conn_inv_new) (auto simp: attempt_ok_def mutation_inv_def)
next
  case (mutates s pc t wr bound)
  have i: "opening_inv (ty_table x) (map snd (ty_threads x))" "conn_inv (ty_table x) (map snd (ty_threads x)) (ty_replaced x)" "mutation_inv (ty_table x) (ty_threads x)"
    using inv by (simp_all add: task_inv_def)
  have s: "\<not> tt_draining (ty_table x)" "s = (ty_table x)\<lparr>tt_writes := tt_writes (ty_table x) + 1\<rparr>"
    using mutates(2) by (auto simp: begin_task_mutation_def split: if_splits)
  have "opening_inv s (map snd (ty_threads x))" "conn_inv s (map snd (ty_threads x)) (ty_replaced x)"
    using i opening_inv_cong [of s "ty_table x"] conn_inv_cong [of s "ty_table x"] by (simp_all add: s(2))
  moreover have "mutation_inv s (ty_threads x @ [(True, pc)])" using i(3) s mutates(3) by (auto simp: mutation_inv_def)
  ultimately show ?thesis unfolding mutates(1)
    by (intro task_inv_spawn opening_inv_new conn_inv_new) (use mutates(3) in \<open>auto simp: attempt_ok_def\<close>)
next
  case (opened j b p t s k)
  note f = thread_facts [OF inv opened(2)]
  have "conn_inv s ((map snd (ty_threads x))[j := Vetting p t k]) (ty_replaced x)"
    by (rule conn_inv_admit [OF f(6,1) _ _ opened(3)]) (auto simp: f(2))
  then show ?thesis unfolding opened(1)
    by (rule task_inv_section [OF inv opened(2) refl]) (use opened(3) f(3) in \<open>auto simp: admit_conn_def attempt_ok_def\<close>)
next
  case (vets j b p t k)
  note f = thread_facts [OF inv vets(2)]
  show ?thesis
  proof (cases "tt_draining (ty_table x)")
    case True
    then show ?thesis unfolding vets(1) using f(3,4)
      by (simp, intro inv_quiet [OF inv vets(2)]) (auto simp: attempt_ok_def conn_ok_def)
  next
    case False
    have "conn_inv (register_conn t k (ty_table x)) ((map snd (ty_threads x))[j := Attaching p t k]) (ty_replaced x)"
      by (rule conn_inv_register [OF f(6,1)]) (auto simp: f(2))
    then have "task_inv (advance j b (Attaching p t k) (register_conn t k (ty_table x)) x)"
      by (rule task_inv_section [OF inv vets(2) refl]) (use f(3) in \<open>auto simp: register_conn_def upd_conn_def attempt_ok_def\<close>)
    then show ?thesis unfolding vets(1) using False by simp
  qed
next
  case (publishes j b p t k)
  note f = thread_facts [OF inv publishes(2)]
  show ?thesis
  proof (cases "tt_draining (ty_table x)")
    case True
    then show ?thesis unfolding publishes(1) using f(3,4)
      by (simp, intro inv_quiet [OF inv publishes(2)]) (auto simp: attempt_ok_def conn_ok_def)
  next
    case False
    have "conn_inv (publish t k (ty_table x)) ((map snd (ty_threads x))[j := Settling p t (Inr (Some k))]) (ty_replaced (replaces t k x))"
      by (rule conn_inv_publish [OF f(6,1)]) (simp_all add: f(2) replaces_replaced eq_commute)
    then have "task_inv (advance j b (Settling p t (Inr (Some k))) (publish t k (ty_table x)) (replaces t k x))"
      by (rule task_inv_section [OF inv publishes(2) replaces_threads]) (use f(3) in \<open>simp_all add: publish_def attempt_ok_def\<close>)
    then show ?thesis unfolding publishes(1) using False by simp
  qed
next
  case (drops j b p t k e)
  note f = thread_facts [OF inv drops(2)]
  have "conn_inv (close_conn k (ty_table x)) ((map snd (ty_threads x))[j := Settling p t (Inl e)]) (ty_replaced x)"
    by (rule conn_inv_close [OF f(6,1)]) (auto simp: f(2))
  then show ?thesis unfolding drops(1)
    by (rule task_inv_section [OF inv drops(2) refl]) (use f(3) in \<open>auto simp: close_conn_def upd_conn_def attempt_ok_def\<close>)
next
  case (creation_opens j b s k)
  note f = thread_facts [OF inv creation_opens(2)]
  have "conn_inv s ((map snd (ty_threads x))[j := CVetting k]) (ty_replaced x)"
    by (rule conn_inv_admit [OF f(6,1) _ _ creation_opens(3)]) (auto simp: f(2))
  then show ?thesis unfolding creation_opens(1)
    by (rule task_inv_section [OF inv creation_opens(2) refl]) (use creation_opens(3) in \<open>auto simp: admit_conn_def attempt_ok_def\<close>)
next
  case (creation_starts j b k answer)
  note f = thread_facts [OF inv creation_starts(2)]
  show ?thesis
  proof (cases answer)
    case None
    then show ?thesis unfolding creation_starts(1) using f(4)
      by (simp, intro inv_quiet [OF inv creation_starts(2)]) (auto simp: attempt_ok_def conn_ok_def)
  next
    case (Some t)
    have "conn_inv (register_conn t k (ty_table x)) ((map snd (ty_threads x))[j := CPublishing k t]) (ty_replaced x)"
      by (rule conn_inv_register [OF f(6,1)]) (auto simp: f(2))
    then have "task_inv (advance j b (CPublishing k t) (register_conn t k (ty_table x)) x)"
      by (rule task_inv_section [OF inv creation_starts(2) refl]) (auto simp: register_conn_def upd_conn_def attempt_ok_def)
    then show ?thesis unfolding creation_starts(1) using Some by simp
  qed
next
  case (creation_publishes j b k t)
  note f = thread_facts [OF inv creation_publishes(2)]
  show ?thesis
  proof (cases "tt_draining (ty_table x)")
    case True
    then show ?thesis unfolding creation_publishes(1) using f(4)
      by (simp, intro inv_quiet [OF inv creation_publishes(2)]) (auto simp: attempt_ok_def conn_ok_def)
  next
    case False
    have "conn_inv (publish t k (ty_table x)) ((map snd (ty_threads x))[j := CRunning k t]) (ty_replaced (replaces t k x))"
      by (rule conn_inv_publish [OF f(6,1)]) (simp_all add: f(2) replaces_replaced eq_commute)
    then have "task_inv (advance j b (CRunning k t) (publish t k (ty_table x)) (replaces t k x))"
      by (rule task_inv_section [OF inv creation_publishes(2) replaces_threads]) (simp_all add: publish_def attempt_ok_def)
    then show ?thesis unfolding creation_publishes(1) using False by simp
  qed
next
  case (creation_drops j b k)
  note f = thread_facts [OF inv creation_drops(2)]
  have "conn_inv (close_conn k (ty_table x)) ((map snd (ty_threads x))[j := Peripheral]) (ty_replaced x)"
    by (rule conn_inv_close [OF f(6,1)]) (auto simp: f(2))
  then show ?thesis unfolding creation_drops(1)
    by (rule task_inv_section [OF inv creation_drops(2) refl]) (auto simp: close_conn_def upd_conn_def attempt_ok_def)
next
  case (closing j b k ks)
  note f = thread_facts [OF inv closing(2)]
  have "conn_inv (close_conn k (ty_table x)) ((map snd (ty_threads x))[j := Closing ks]) (ty_replaced x)"
    by (rule conn_inv_close [OF f(6,1)]) (auto simp: f(2))
  then show ?thesis unfolding closing(1)
    by (rule task_inv_section [OF inv closing(2) refl]) (auto simp: close_conn_def upd_conn_def attempt_ok_def)
next
  case (loses k)
  have "tt_attempts (conn_lost k (ty_table x)) = tt_attempts (ty_table x)" "tt_opening (conn_lost k (ty_table x)) = tt_opening (ty_table x)"
    "tt_writes (conn_lost k (ty_table x)) = tt_writes (ty_table x)" "tt_draining (conn_lost k (ty_table x)) = tt_draining (ty_table x)"
    by (simp_all add: conn_lost_def upd_conn_def Let_def split: option.split)
  then show ?thesis unfolding loses(1)
    using inv conn_inv_lost [OF _ loses(2)] opening_inv_cong [of "conn_lost k (ty_table x)" "ty_table x"] by (auto simp: task_inv_def mutation_inv_def)
next
  case (ends j b pc r)
  note f = thread_facts [OF inv ends(2)]
  let ?s = "if b then end_task_mutation (ty_table x) else ty_table x"
  have j: "j < length (ty_threads x)" "ty_threads x ! j = (b, pc)" using ends(2) by (simp_all add: thread_at_def)
  have "opening_inv (ty_table x) ((map snd (ty_threads x))[j := Ended])" "conn_inv (ty_table x) ((map snd (ty_threads x))[j := Ended]) (ty_replaced x)"
    by (rule opening_inv_move [OF f(5,1)] conn_inv_move [OF f(6,1)]; use ends(3) f(2) in \<open>auto simp: attempt_ok_def conn_ok_def\<close>)+
  then have "opening_inv ?s ((map snd (ty_threads x))[j := Ended])" "conn_inv ?s ((map snd (ty_threads x))[j := Ended]) (ty_replaced x)"
    using opening_inv_cong [of ?s "ty_table x"] conn_inv_cong [of ?s "ty_table x"] by (simp_all add: end_task_mutation_def)
  moreover have "mutation_inv ?s ((ty_threads x)[j := (False, Ended)])"
    using inv ends(3) holders_update [OF j(1), of fst "(False, Ended)"] holders_same [OF j(1), of "\<lambda>u. snd u = Verifying" "(False, Ended)"] j(2)
    by (auto simp: task_inv_def mutation_inv_def end_task_mutation_def split: if_splits)
  ultimately show ?thesis unfolding ends(1) by (simp add: task_inv_def advance_def map_update)
next
  case (prepares s)
  have i: "opening_inv (ty_table x) (map snd (ty_threads x))" "conn_inv (ty_table x) (map snd (ty_threads x)) (ty_replaced x)" "mutation_inv (ty_table x) (ty_threads x)"
    using inv by (simp_all add: task_inv_def)
  have s: "\<not> tt_draining (ty_table x)" "tt_writes (ty_table x) = 0" "s = (ty_table x)\<lparr>tt_draining := True\<rparr>"
    using prepares(2) by (auto simp: prepare_begin_def split: if_splits)
  have "opening_inv s (map snd (ty_threads x))" "conn_inv s (map snd (ty_threads x)) (ty_replaced x)"
    using i opening_inv_cong [of s "ty_table x"] conn_inv_cong [of s "ty_table x"] by (simp_all add: s(3))
  moreover have "mutation_inv s (ty_threads x @ [(False, Verifying)])" using i(3) s by (auto simp: mutation_inv_def)
  ultimately show ?thesis unfolding prepares(1) by (intro task_inv_spawn opening_inv_new conn_inv_new) (auto simp: attempt_ok_def)
next
  case (unverified j b)
  note f = thread_facts [OF inv unverified(2)]
  let ?s = "prepare_failed (ty_table x)"
  have j: "j < length (ty_threads x)" "ty_threads x ! j = (b, Verifying)" using unverified(2) by (simp_all add: thread_at_def)
  have "opening_inv (ty_table x) ((map snd (ty_threads x))[j := Ended])" "conn_inv (ty_table x) ((map snd (ty_threads x))[j := Ended]) (ty_replaced x)"
    by (rule opening_inv_move [OF f(5,1)] conn_inv_move [OF f(6,1)]; use f(2) in \<open>auto simp: attempt_ok_def conn_ok_def\<close>)+
  then have "opening_inv ?s ((map snd (ty_threads x))[j := Ended])" "conn_inv ?s ((map snd (ty_threads x))[j := Ended]) (ty_replaced x)"
    using opening_inv_cong [of ?s "ty_table x"] conn_inv_cong [of ?s "ty_table x"] by (simp_all add: prepare_failed_def)
  moreover have "mutation_inv ?s ((ty_threads x)[j := (b, Ended)])"
    using inv holders_same [OF j(1), of fst "(b, Ended)"] holders_update [OF j(1), of "\<lambda>u. snd u = Verifying" "(b, Ended)"] j(2)
    by (auto simp: task_inv_def mutation_inv_def prepare_failed_def)
  ultimately show ?thesis unfolding unverified(1) by (simp add: task_inv_def advance_def map_update)
next
  case (verified j b)
  note f = thread_facts [OF inv verified(2)]
  let ?s = "close_table (ty_table x)"
  have j: "j < length (ty_threads x)" "ty_threads x ! j = (b, Verifying)" using verified(2) by (simp_all add: thread_at_def)
  have "opening_inv (ty_table x) ((map snd (ty_threads x))[j := Closing (published (ty_table x))])"
    by (rule opening_inv_move [OF f(5,1)]) (use f(2) in \<open>auto simp: attempt_ok_def\<close>)
  then have "opening_inv ?s ((map snd (ty_threads x))[j := Closing (published (ty_table x))])"
    by (subst opening_inv_cong [of _ "ty_table x"]) (simp_all add: close_table_def)
  moreover have "mutation_inv ?s ((ty_threads x)[j := (b, Closing (published (ty_table x)))])"
    using inv holders_same [OF j(1), of fst "(b, Closing (published (ty_table x)))"]
      holders_update [OF j(1), of "\<lambda>u. snd u = Verifying" "(b, Closing (published (ty_table x)))"] j(2)
    by (auto simp: task_inv_def mutation_inv_def close_table_def)
  ultimately show ?thesis unfolding verified(1)
    using conn_inv_closed(2) [OF f(6,1,2)] by (simp add: task_inv_def advance_def map_update)
next
  case closes
  have i: "opening_inv (ty_table x) (map snd (ty_threads x))" "conn_inv (ty_table x) (map snd (ty_threads x)) (ty_replaced x)" "mutation_inv (ty_table x) (ty_threads x)"
    using inv by (simp_all add: task_inv_def)
  have "opening_inv (close_table (ty_table x)) (map snd (ty_threads x))"
    using i(1) opening_inv_cong [of "close_table (ty_table x)" "ty_table x"] by (simp add: close_table_def)
  moreover have "mutation_inv (close_table (ty_table x)) (ty_threads x @ [(False, Closing (published (ty_table x)))])"
    using i(3) by (auto simp: mutation_inv_def close_table_def)
  ultimately show ?thesis unfolding closes using conn_inv_closed(1) [OF i(2)]
    by (intro task_inv_spawn opening_inv_new) (auto simp: attempt_ok_def)
qed

lemma task_inv_initial: "task_initial x \<Longrightarrow> task_inv x"
  by (auto simp: task_initial_def task_inv_def opening_inv_def conn_inv_def mutation_inv_def NewTaskSessionsWith_def)

interpretation task_runs: invariant_system task_initial task_step task_inv
  using task_inv_initial inv_task_step by unfold_locales

subsection \<open>Runs\<close>

text \<open>The table with the task \<open>t\<close> alone.\<close>

definition tsys :: "(bool \<times> task_pc) list \<Rightarrow> nat option \<Rightarrow> nat option \<Rightarrow> task_opening list \<Rightarrow> task_conn list \<Rightarrow> bool \<Rightarrow> int \<Rightarrow> nat list \<Rightarrow> task_sys" where
  "tsys ts e q as cs fenced w rep =
     \<lparr>ty_table = \<lparr>tt_entries = (\<lambda>_. None)(''t'' := e), tt_opening = (\<lambda>_. None)(''t'' := q), tt_attempts = as, tt_conns = cs, tt_draining = fenced,
        tt_writes = w, tt_factory_closed = fenced\<rparr>, ty_threads = ts, ty_replaced = rep\<rparr>"

definition tconn :: "nat \<Rightarrow> bool \<Rightarrow> task_conn" where
  "tconn n gone = \<lparr>tc_task = Some ''t'', tc_closed = n, tc_lost = gone\<rparr>"

definition opened_as :: "nat \<Rightarrow> nat option \<Rightarrow> task_opening" where
  "opened_as n k = \<lparr>op_done = n, op_entry = k, op_err = None\<rparr>"

lemmas tsys_defs = tsys_def thread_at_def advance_def spawn_def tconn_def opened_as_def new_conn_def new_opening_def fun_upd_none

lemma tsys_start: "task_initial (tsys [] None None [] [] False 0 [])"
  by (simp add: task_initial_def tsys_defs NewTaskSessionsWith_def)

lemma task_reach_step: "task_runs.reach x \<Longrightarrow> task_step x y \<Longrightarrow> task_runs.reach y"
  unfolding task_runs.reach_def by (blast intro: rtranclp.rtrancl_into_rtrancl)

lemma tsys_open:
  "task_step (tsys ts e q as cs False w rep) (tsys (ts @ [(False, Acquiring ''t'' False False)]) e q as cs False w rep)"
  "task_step (tsys (ts @ [(b, Acquiring ''t'' False False)]) None None [] cs False w rep) (tsys (ts @ [(b, Factory 0 ''t'')]) None (Some 0) [new_opening] cs False w rep)"
  "task_step (tsys (ts @ [(b, Factory 0 ''t'')]) e q as cs False w rep) (tsys (ts @ [(b, Vetting 0 ''t'' (length cs))]) e q as (cs @ [new_conn]) False w rep)"
  "task_step (tsys (ts @ [(b, Vetting 0 ''t'' (length cs))]) e q as (cs @ [new_conn]) False w rep)
     (tsys (ts @ [(b, Attaching 0 ''t'' (length cs))]) e q as (cs @ [tconn 0 False]) False w rep)"
  "task_step (tsys (ts @ [(b, Attaching 0 ''t'' k)]) e q as cs False w rep) (tsys (ts @ [(b, Publishing 0 ''t'' k)]) e q as cs False w rep)"
proof -
  show "task_step (tsys ts e q as cs False w rep) (tsys (ts @ [(False, Acquiring ''t'' False False)]) e q as cs False w rep)"
    using reads [of "tsys ts e q as cs False w rep" "''t''" False] by (simp add: tsys_defs)
  show "task_step (tsys (ts @ [(b, Acquiring ''t'' False False)]) None None [] cs False w rep) (tsys (ts @ [(b, Factory 0 ''t'')]) None (Some 0) [new_opening] cs False w rep)"
    using acquires [of "tsys (ts @ [(b, Acquiring ''t'' False False)]) None None [] cs False w rep" "length ts" b "''t''" False False]
    by (simp add: tsys_defs acquire_begin_def acquire_pc_def)
  show "task_step (tsys (ts @ [(b, Factory 0 ''t'')]) e q as cs False w rep) (tsys (ts @ [(b, Vetting 0 ''t'' (length cs))]) e q as (cs @ [new_conn]) False w rep)"
    using opened [of "tsys (ts @ [(b, Factory 0 ''t'')]) e q as cs False w rep" "length ts" b 0 "''t''"] by (simp add: tsys_defs admit_conn_def)
  show "task_step (tsys (ts @ [(b, Vetting 0 ''t'' (length cs))]) e q as (cs @ [new_conn]) False w rep)
      (tsys (ts @ [(b, Attaching 0 ''t'' (length cs))]) e q as (cs @ [tconn 0 False]) False w rep)"
    using vets [of "tsys (ts @ [(b, Vetting 0 ''t'' (length cs))]) e q as (cs @ [new_conn]) False w rep" "length ts" b 0 "''t''" "length cs"]
    by (simp add: tsys_defs register_conn_def upd_conn_def)
  show "task_step (tsys (ts @ [(b, Attaching 0 ''t'' k)]) e q as cs False w rep) (tsys (ts @ [(b, Publishing 0 ''t'' k)]) e q as cs False w rep)"
    using attached [of "tsys (ts @ [(b, Attaching 0 ''t'' k)]) e q as cs False w rep" "length ts" b 0 "''t''" k None] by (simp add: tsys_defs)
qed

lemma tsys_publish:
  "task_step (tsys (ts @ [(b, Publishing 0 ''t'' k)]) None q as cs False w rep) (tsys (ts @ [(b, Settling 0 ''t'' (Inr (Some k)))]) (Some k) q as cs False w rep)"
  "task_step (tsys (ts @ [(b, Settling 0 ''t'' (Inr (Some k)))]) e (Some 0) [new_opening] cs False w rep)
     (tsys (ts @ [(b, Signalling 0 (Inr (Some k)))]) e None [opened_as 0 (Some k)] cs False w rep)"
  "task_step (tsys (ts @ [(b, Signalling 0 (Inr (Some k)))]) e q [opened_as 0 (Some k)] cs False w rep)
     (tsys (ts @ [(b, Obtained (Inr (Some k)))]) e q [opened_as 1 (Some k)] cs False w rep)"
  "task_step (tsys (ts @ [(False, Obtained r)]) e q as cs False w rep) (tsys (ts @ [(False, Ended)]) e q as cs False w rep)"
proof -
  show "task_step (tsys (ts @ [(b, Publishing 0 ''t'' k)]) None q as cs False w rep) (tsys (ts @ [(b, Settling 0 ''t'' (Inr (Some k)))]) (Some k) q as cs False w rep)"
    using publishes [of "tsys (ts @ [(b, Publishing 0 ''t'' k)]) None q as cs False w rep" "length ts" b 0 "''t''" k]
    by (simp add: tsys_defs publish_def replaces_def)
  show "task_step (tsys (ts @ [(b, Settling 0 ''t'' (Inr (Some k)))]) e (Some 0) [new_opening] cs False w rep)
      (tsys (ts @ [(b, Signalling 0 (Inr (Some k)))]) e None [opened_as 0 (Some k)] cs False w rep)"
    using settles [of "tsys (ts @ [(b, Settling 0 ''t'' (Inr (Some k)))]) e (Some 0) [new_opening] cs False w rep" "length ts" b 0 "''t''" "Inr (Some k)"]
    by (simp add: tsys_defs settle_opening_def upd_opening_def)
  show "task_step (tsys (ts @ [(b, Signalling 0 (Inr (Some k)))]) e q [opened_as 0 (Some k)] cs False w rep)
      (tsys (ts @ [(b, Obtained (Inr (Some k)))]) e q [opened_as 1 (Some k)] cs False w rep)"
    using signals [of "tsys (ts @ [(b, Signalling 0 (Inr (Some k)))]) e q [opened_as 0 (Some k)] cs False w rep" "length ts" b 0 "Inr (Some k)"]
    by (simp add: tsys_defs close_opening_def upd_opening_def)
  show "task_step (tsys (ts @ [(False, Obtained r)]) e q as cs False w rep) (tsys (ts @ [(False, Ended)]) e q as cs False w rep)"
    using ends [of "tsys (ts @ [(False, Obtained r)]) e q as cs False w rep" "length ts" False "Obtained r" r] by (simp add: tsys_defs)
qed

text \<open>A reader follows the task; in the second run its connection is lost just before it is published.\<close>

lemma reader_follows:
  assumes "task_runs.reach (tsys ts None None [] cs False w rep)"
  shows "task_runs.reach (tsys (ts @ [(False, Publishing 0 ''t'' (length cs))]) None (Some 0) [new_opening] (cs @ [tconn 0 False]) False w rep)"
  by (rule assms [THEN task_reach_step, OF tsys_open(1), THEN task_reach_step, OF tsys_open(2), THEN task_reach_step, OF tsys_open(3),
      THEN task_reach_step, OF tsys_open(4), THEN task_reach_step, OF tsys_open(5)])

lemma reader_follows_end:
  assumes "task_runs.reach (tsys (ts @ [(False, Publishing 0 ''t'' k)]) None (Some 0) [new_opening] cs False w rep)"
  shows "task_runs.reach (tsys (ts @ [(False, Ended)]) (Some k) None [opened_as 1 (Some k)] cs False w rep)"
  by (rule assms [THEN task_reach_step, OF tsys_publish(1), THEN task_reach_step, OF tsys_publish(2), THEN task_reach_step, OF tsys_publish(3),
      THEN task_reach_step, OF tsys_publish(4)])

lemma tsys_reach: "task_runs.reach (tsys [] None None [] [] False 0 [])"
  using tsys_start unfolding task_runs.reach_def by blast

lemma dead_run: "task_runs.reach (tsys [(False, Ended)] (Some 0) None [opened_as 1 (Some 0)] [tconn 0 True] False 0 [])"
proof -
  have "task_step (tsys [(False, Publishing 0 ''t'' 0)] None (Some 0) [new_opening] [tconn 0 False] False 0 [])
      (tsys [(False, Publishing 0 ''t'' 0)] None (Some 0) [new_opening] [tconn 0 True] False 0 [])"
    using loses [of 0 "tsys [(False, Publishing 0 ''t'' 0)] None (Some 0) [new_opening] [tconn 0 False] False 0 []"]
    by (simp add: tsys_defs conn_lost_def upd_conn_def)
  from task_reach_step [OF reader_follows [OF tsys_reach, simplified] this] show ?thesis
    using reader_follows_end [of "[]" 0 "[tconn 0 True]" 0 "[]"] by simp
qed

text \<open>
  A creation has started its task; a reader finds it in the catalog, follows it and publishes its own connection,
  which the creation then replaces.
\<close>

lemma tsys_create:
  "task_step (tsys [] None None [] [] False 0 []) (tsys [(True, CFactory)] None None [] [] False 1 [])"
  "task_step (tsys [(True, CFactory)] None None [] [] False 1 []) (tsys [(True, CVetting 0)] None None [] [new_conn] False 1 [])"
  "task_step (tsys [(True, CVetting 0)] None None [] [new_conn] False 1 []) (tsys [(True, CStarting 0)] None None [] [new_conn] False 1 [])"
  "task_step (tsys [(True, CStarting 0)] None None [] [new_conn] False 1 []) (tsys [(True, CPublishing 0 ''t'')] None None [] [tconn 0 False] False 1 [])"
proof -
  show "task_step (tsys [] None None [] [] False 0 []) (tsys [(True, CFactory)] None None [] [] False 1 [])"
    using mutates [where x = "tsys [] None None [] [] False 0 []" and pc = CFactory] by (simp add: tsys_defs begin_task_mutation_def)
  show "task_step (tsys [(True, CFactory)] None None [] [] False 1 []) (tsys [(True, CVetting 0)] None None [] [new_conn] False 1 [])"
    using creation_opens [of "tsys [(True, CFactory)] None None [] [] False 1 []" 0 True] by (simp add: tsys_defs admit_conn_def)
  show "task_step (tsys [(True, CVetting 0)] None None [] [new_conn] False 1 []) (tsys [(True, CStarting 0)] None None [] [new_conn] False 1 [])"
    using creation_vets [where x = "tsys [(True, CVetting 0)] None None [] [new_conn] False 1 []" and j = 0 and b = True and k = 0] by (simp add: tsys_defs)
  show "task_step (tsys [(True, CStarting 0)] None None [] [new_conn] False 1 []) (tsys [(True, CPublishing 0 ''t'')] None None [] [tconn 0 False] False 1 [])"
    using creation_starts [of "tsys [(True, CStarting 0)] None None [] [new_conn] False 1 []" 0 True 0 "Some ''t''"]
    by (simp add: tsys_defs register_conn_def upd_conn_def)
qed

lemma tsys_create_end:
  "task_step (tsys [(True, CPublishing 0 ''t''), u] (Some 1) None as cs False 1 []) (tsys [(True, CRunning 0 ''t''), u] (Some 0) None as cs False 1 [1])"
  "task_step (tsys [(True, CRunning 0 ''t''), u] e None as cs False 1 rep) (tsys [(True, Peripheral), u] e None as cs False 1 rep)"
  "task_step (tsys [(True, Peripheral), u] e None as cs False 1 rep) (tsys [(False, Ended), u] e None as cs False 0 rep)"
  "task_step (tsys [u, v] (Some 0) None as [tconn 0 False, tconn 0 False] False 0 rep) (tsys [u, v, (False, Closing [0])] None None as [tconn 0 False, tconn 0 False] True 0 rep)"
  "task_step (tsys [u, v, (False, Closing [0])] None None as [tconn 0 False, tconn 0 False] True 0 rep)
     (tsys [u, v, (False, Closing [])] None None as [tconn 1 False, tconn 0 False] True 0 rep)"
proof -
  show "task_step (tsys [(True, CPublishing 0 ''t''), u] (Some 1) None as cs False 1 []) (tsys [(True, CRunning 0 ''t''), u] (Some 0) None as cs False 1 [1])"
    using creation_publishes [of "tsys [(True, CPublishing 0 ''t''), u] (Some 1) None as cs False 1 []" 0 True 0 "''t''"]
    by (simp add: tsys_defs publish_def replaces_def)
  show "task_step (tsys [(True, CRunning 0 ''t''), u] e None as cs False 1 rep) (tsys [(True, Peripheral), u] e None as cs False 1 rep)"
    using creation_runs [of "tsys [(True, CRunning 0 ''t''), u] e None as cs False 1 rep" 0 True 0 "''t''" False] by (simp add: tsys_defs)
  show "task_step (tsys [(True, Peripheral), u] e None as cs False 1 rep) (tsys [(False, Ended), u] e None as cs False 0 rep)"
    using ends [of "tsys [(True, Peripheral), u] e None as cs False 1 rep" 0 True Peripheral] by (simp add: tsys_defs end_task_mutation_def)
  show "task_step (tsys [u, v] (Some 0) None as [tconn 0 False, tconn 0 False] False 0 rep) (tsys [u, v, (False, Closing [0])] None None as [tconn 0 False, tconn 0 False] True 0 rep)"
    using closes [of "tsys [u, v] (Some 0) None as [tconn 0 False, tconn 0 False] False 0 rep"] by (simp add: tsys_defs close_table_def published_def upt_rec)
  show "task_step (tsys [u, v, (False, Closing [0])] None None as [tconn 0 False, tconn 0 False] True 0 rep)
      (tsys [u, v, (False, Closing [])] None None as [tconn 1 False, tconn 0 False] True 0 rep)"
    using closing [of "tsys [u, v, (False, Closing [0])] None None as [tconn 0 False, tconn 0 False] True 0 rep" 2 False 0 "[]"]
    by (simp add: tsys_defs close_conn_def upd_conn_def)
qed

lemma leak_run:
  "task_runs.reach (tsys [(False, Ended), (False, Ended), (False, Closing [])] None None [opened_as 1 (Some 1)] [tconn 1 False, tconn 0 False] True 0 [1])"
proof -
  have "task_runs.reach (tsys [(True, CPublishing 0 ''t'')] None None [] [tconn 0 False] False 1 [])"
    by (rule tsys_reach [THEN task_reach_step, OF tsys_create(1), THEN task_reach_step, OF tsys_create(2), THEN task_reach_step, OF tsys_create(3),
        THEN task_reach_step, OF tsys_create(4)])
  from reader_follows_end [OF reader_follows [OF this]]
  have "task_runs.reach (tsys [(True, CPublishing 0 ''t''), (False, Ended)] (Some 1) None [opened_as 1 (Some 1)] [tconn 0 False, tconn 0 False] False 1 [])" by simp
  then show ?thesis
    by (rule task_reach_step [OF task_reach_step [OF task_reach_step [OF task_reach_step [OF task_reach_step [OF _ tsys_create_end(1)] tsys_create_end(2)]
        tsys_create_end(3)] tsys_create_end(4)] tsys_create_end(5)])
qed

subsection \<open>The properties\<close>

text \<open>
  C36. Concurrent acquisitions of a task share one attempt: at most one caller opens a connection for a task at a
  time, its channel is closed at most once, and a caller that waits on it waits for a finished attempt or for
  a caller that is still opening.
\<close>

theorem acquire_shared:
  assumes "task_runs.reach x"
  shows "(\<forall>p < length (tt_attempts (ty_table x)). op_done (tt_attempts (ty_table x) ! p) \<le> 1) \<and>
    (\<forall>i j b c pc qc t p q. thread_at x i b pc \<and> thread_at x j c qc \<and> opening_at pc = Some (t, p) \<and> opening_at qc = Some (t, q) \<longrightarrow> i = j) \<and>
    (\<forall>i b p t w d. thread_at x i b (Awaiting p t w d) \<longrightarrow>
       op_done (tt_attempts (ty_table x) ! p) = 1 \<or> (\<exists>j c pc. thread_at x j c pc \<and> opener p pc))"
proof -
  have inv: "task_inv x" by (rule task_runs.inv_reach [OF assms])
  let ?cs = "map snd (ty_threads x)"
  have sum: "op_done (tt_attempts (ty_table x) ! p) + holders (opener p) ?cs = 1" if "p < length (tt_attempts (ty_table x))" for p
    using inv that by (simp add: task_inv_def opening_inv_def)
  have "i = j" if "thread_at x i b pc" "thread_at x j c qc" "opening_at pc = Some (t, p)" "opening_at qc = Some (t, q)" for i j b c pc qc t p q
  proof -
    note f = thread_facts [OF inv that(1)] and g = thread_facts [OF inv that(2)]
    have p: "p < length (tt_attempts (ty_table x))" "q = p" using f(3) g(3) that(3,4) by (simp_all add: attempt_ok_def)
    then show ?thesis
      using holders_one [of "opener p" ?cs i j] sum [OF p(1)] f(1,2) g(1,2) opener_opening [OF that(3)] opener_opening [OF that(4)] by simp
  qed
  moreover have "op_done (tt_attempts (ty_table x) ! p) = 1 \<or> (\<exists>j c pc. thread_at x j c pc \<and> opener p pc)" if "thread_at x i b (Awaiting p t w d)" for i b p t w d
  proof (cases "holders (opener p) ?cs = 0")
    case True
    have "p < length (tt_attempts (ty_table x))" using thread_facts(3) [OF inv that] by (simp add: attempt_ok_def)
    then show ?thesis using sum [of p] True by simp
  next
    case False
    then obtain j where "j < length (ty_threads x)" "opener p (snd (ty_threads x ! j))" by (auto simp: holders_none in_set_conv_nth)
    then have "thread_at x j (fst (ty_threads x ! j)) (snd (ty_threads x ! j)) \<and> opener p (snd (ty_threads x ! j))" by (simp add: thread_at_def)
    then show ?thesis by blast
  qed
  moreover have "op_done (tt_attempts (ty_table x) ! p) \<le> 1" if "p < length (tt_attempts (ty_table x))" for p using sum [OF that] by simp
  ultimately show ?thesis by blast
qed

theorem acquire_shared_witness:
  "op_done (tt_attempts (ty_table (tsys [(False, Ended)] (Some 0) None [opened_as 1 (Some 0)] [tconn 0 True] False 0 [])) ! 0) \<le> 1"
proof -
  have "0 < length (tt_attempts (ty_table (tsys [(False, Ended)] (Some 0) None [opened_as 1 (Some 0)] [tconn 0 True] False 0 [])))" by (simp add: tsys_def)
  then show ?thesis using acquire_shared [OF dead_run] by blast
qed

text \<open>
  C37. No connection is forgotten, unless another publication for its task overwrote its entry: every connection
  the factory handed out was closed by the adapter, was lost, is published for its task, is still in the hands of a
  call or of a close in progress, or its entry was replaced, by a creation or by an acquisition that
  published its own connection later.
\<close>

theorem connections_accounted:
  assumes "task_runs.reach x" "k < length (tt_conns (ty_table x))"
  shows "0 < tc_closed (tt_conns (ty_table x) ! k) \<or> tc_lost (tt_conns (ty_table x) ! k) \<or>
    (\<exists>t. tt_entries (ty_table x) t = Some k \<and> tc_task (tt_conns (ty_table x) ! k) = Some t) \<or>
    (\<exists>j b pc. thread_at x j b pc \<and> holds_conn k pc) \<or> k \<in> set (ty_replaced x)"
proof -
  have c: "conn_inv (ty_table x) (map snd (ty_threads x)) (ty_replaced x)" using task_runs.inv_reach [OF assms(1)] by (simp add: task_inv_def)
  have "\<exists>j b pc. thread_at x j b pc \<and> holds_conn k pc" if h: "\<exists>pc \<in> snd ` set (ty_threads x). holds_conn k pc"
  proof -
    from h obtain j where "j < length (ty_threads x)" "holds_conn k (snd (ty_threads x ! j))" by (auto simp: in_set_conv_nth)
    then have "thread_at x j (fst (ty_threads x ! j)) (snd (ty_threads x ! j)) \<and> holds_conn k (snd (ty_threads x ! j))" by (simp add: thread_at_def)
    then show ?thesis by blast
  qed
  moreover have "accounted (ty_table x) (map snd (ty_threads x)) (ty_replaced x) k" using c assms(2) by (simp add: conn_inv_def)
  moreover have "tc_task (tt_conns (ty_table x) ! k) = Some t" if "tt_entries (ty_table x) t = Some k" for t using c that by (simp add: conn_inv_def)
  ultimately show ?thesis by (auto simp: accounted_def)
qed

theorem connections_accounted_witness:
  "\<exists>x. ty_threads x = [(False, Ended), (False, Ended), (False, Closing [])] \<and>
     (0 < tc_closed (tt_conns (ty_table x) ! 1) \<or> tc_lost (tt_conns (ty_table x) ! 1) \<or>
      (\<exists>t. tt_entries (ty_table x) t = Some 1 \<and> tc_task (tt_conns (ty_table x) ! 1) = Some t) \<or>
      (\<exists>j b pc. thread_at x j b pc \<and> holds_conn 1 pc) \<or> 1 \<in> set (ty_replaced x))"
proof -
  have "1 < length (tt_conns (ty_table (tsys [(False, Ended), (False, Ended), (False, Closing [])] None None [opened_as 1 (Some 1)] [tconn 1 False, tconn 0 False] True 0 [1])))"
    by (simp add: tsys_def)
  note l = connections_accounted [OF leak_run this]
  show ?thesis by (rule exI, rule conjI [OF _ l]) (simp add: tsys_def)
qed

text \<open>
  C38. A connection that is lost after its task was attached and before it is published is published all the same:
  its handler has already run, so nothing removes the entry, and every later acquisition of the task gets the dead
  connection.
\<close>

theorem dead_entry_published:
  "\<exists>x k. task_runs.reach x \<and> ty_threads x = [(False, Ended)] \<and> tt_entries (ty_table x) ''t'' = Some k \<and> tc_lost (tt_conns (ty_table x) ! k) \<and>
     \<not> tt_draining (ty_table x) \<and> acquire_begin ''t'' bound (ty_table x) = (ty_table x, TFound k)"
  by (intro exI conjI, rule dead_run) (simp_all add: tsys_def tconn_def acquire_begin_def)

text \<open>
  C39. A creation that publishes its task over the entry of a reader leaks the reader's connection: after the
  adapter has closed and every call has ended, the connection is neither closed nor lost, and no table names it.
\<close>

theorem replaced_connection_leaks:
  "\<exists>x k. task_runs.reach x \<and> ty_threads x = [(False, Ended), (False, Ended), (False, Closing [])] \<and> tt_draining (ty_table x) \<and> tt_factory_closed (ty_table x) \<and>
     tt_entries (ty_table x) = (\<lambda>_. None) \<and> k < length (tt_conns (ty_table x)) \<and> tc_closed (tt_conns (ty_table x) ! k) = 0 \<and> \<not> tc_lost (tt_conns (ty_table x) ! k)"
  by (intro exI [of _ 1] exI [of _ "tsys [(False, Ended), (False, Ended), (False, Closing [])] None None [opened_as 1 (Some 1)] [tconn 1 False, tconn 0 False] True 0 [1]"]
      conjI leak_run) (simp_all add: tsys_def tconn_def fun_upd_none)

text \<open>
  C40. While a shutdown of the adapter is being verified no mutation is in progress and none begins, only one
  verification runs, and the counter of mutations is exact.
\<close>

theorem verified_shutdown_excludes:
  assumes "task_runs.reach x"
  shows "(thread_at x i b Verifying \<longrightarrow> tt_draining (ty_table x) \<and> begin_task_mutation (ty_table x) = None \<and> filter fst (ty_threads x) = []) \<and>
    (thread_at x i b Verifying \<and> thread_at x j c Verifying \<longrightarrow> i = j) \<and> tt_writes (ty_table x) = int (length (filter fst (ty_threads x)))"
proof -
  have m: "mutation_inv (ty_table x) (ty_threads x)" using task_runs.inv_reach [OF assms] by (simp add: task_inv_def)
  have "holders (\<lambda>u. snd u = Verifying) (ty_threads x) \<noteq> 0" if h: "thread_at x i b Verifying"
  proof -
    have "(b, Verifying) \<in> set (ty_threads x)" using h nth_mem [of i "ty_threads x"] by (simp add: thread_at_def)
    then have "\<exists>u \<in> set (ty_threads x). snd u = Verifying" by (rule bexI [rotated]) simp
    then show ?thesis by (simp add: holders_none)
  qed
  moreover have "i = j" if "thread_at x i b Verifying" "thread_at x j c Verifying"
    using holders_one [of "\<lambda>u. snd u = Verifying" "ty_threads x" i j] m that by (simp add: mutation_inv_def thread_at_def)
  ultimately show ?thesis using m by (auto simp: mutation_inv_def begin_task_mutation_def holders_def)
qed

theorem verified_shutdown_excludes_witness:
  "tt_writes (ty_table (tsys [(True, CPublishing 0 ''t'')] None None [] [tconn 0 False] False 1 [])) = int (length (filter fst [(True, CPublishing 0 ''t'')]))"
proof -
  have "task_runs.reach (tsys [(True, CPublishing 0 ''t'')] None None [] [tconn 0 False] False 1 [])"
    by (rule tsys_reach [THEN task_reach_step, OF tsys_create(1), THEN task_reach_step, OF tsys_create(2), THEN task_reach_step, OF tsys_create(3),
        THEN task_reach_step, OF tsys_create(4)])
  from verified_shutdown_excludes [OF this] show ?thesis by (simp add: tsys_def)
qed

end
